(* ===== verification/Prelude.thy ===== *)
theory Prelude
  imports Main "HOL-Library.Word"
begin

text \<open>
  Shared vocabulary of the development: machine types of the C sources, the
  collections of rewrite rules that the component theories extend, and generic
  facts on lists and words that more than one component needs.
\<close>

unbundle bit_operations_syntax

section \<open>Machine types\<close>

type_synonym byte = "8 word"
type_synonym u16 = "16 word"
type_synonym u32 = "32 word"
type_synonym u64 = "64 word"

section \<open>Collections\<close>

text \<open>
  \<open>role_defs\<close> unfolds the handlers of the XML prolog machine, \<open>word_nat\<close> moves
  goals on machine words to natural numbers.
\<close>

named_theorems role_defs
named_theorems word_nat

lemmas [word_nat] = word_le_nat_alt word_less_nat_alt

text \<open>Widening 32-bit words to 64 bits.\<close>

lemma unat_lt_u32: "unat (w :: u32) < 2 ^ 32"
  using unsigned_less [of w, where ?'a = nat] by simp

lemma unat_lt_u64: "unat (w :: u64) < 2 ^ 64"
  using unsigned_less [of w, where ?'a = nat] by simp

lemma unat_ucast_u64 [simp]: "unat (ucast (w :: u32) :: u64) = unat w"
  using unat_lt_u32 [of w] by (simp add: unsigned_ucast_eq take_bit_nat_eq_self)

lemma ucast_u64_less [simp]: "(ucast (v :: u32) :: u64) < ucast w \<longleftrightarrow> v < w"
  by (simp add: word_less_nat_alt)

lemma unat_ucast_plus:
  "k < 2 ^ 32 \<Longrightarrow> unat (ucast (w :: u32) + of_nat k :: u64) = unat w + k"
  using unat_lt_u32 [of w] by (simp add: unat_word_ariths unat_of_nat)

section \<open>ASCII text as bytes\<close>

definition ascii :: "string \<Rightarrow> byte list" where
  "ascii s = map of_char s"

lemma length_ascii [simp]: "length (ascii s) = length s"
  by (simp add: ascii_def)

lemma ascii_Nil [simp]: "ascii [] = []"
  by (simp add: ascii_def)

lemma ascii_eq_Nil [simp]: "ascii s = [] \<longleftrightarrow> s = []"
  by (simp add: ascii_def)

end
