(* ===== verification/Xml_Names.thy ===== *)
theory Xml_Names
  imports Prelude
begin

text \<open>
  The part of expat's encoding layer that the prolog role machine calls: the
  three families of encodings by their bytes per character, the comparison of a
  token's bytes with an ASCII keyword (\<open>nameMatchesAscii\<close> of
  \<open>xmltok_impl.c\<close>, instantiated in \<open>xmltok.c\<close> for one-byte, UTF-16LE
  and UTF-16BE encodings), and the keyword tables of \<open>xmlrole.c\<close>.

  A token is the byte list between the pointers \<open>ptr\<close> and \<open>end\<close>; moving
  \<open>ptr\<close> forward by \<open>k\<close> bytes is \<open>drop k\<close>. Where the C pointer would pass
  \<open>end\<close>, \<open>drop\<close> gives the empty list and the length test fails, as the C test
  on the negative difference does.
\<close>

section \<open>Encodings\<close>

datatype encoding = Normal_enc | Little2_enc | Big2_enc

fun MIN_BYTES_PER_CHAR :: "encoding \<Rightarrow> nat" where
  "MIN_BYTES_PER_CHAR Normal_enc = 1"
| "MIN_BYTES_PER_CHAR Little2_enc = 2"
| "MIN_BYTES_PER_CHAR Big2_enc = 2"

fun CHAR_MATCHES :: "encoding \<Rightarrow> byte list \<Rightarrow> byte \<Rightarrow> bool" where
  "CHAR_MATCHES Normal_enc p c \<longleftrightarrow> p ! 0 = c"
| "CHAR_MATCHES Little2_enc p c \<longleftrightarrow> p ! 1 = 0 \<and> p ! 0 = c"
| "CHAR_MATCHES Big2_enc p c \<longleftrightarrow> p ! 0 = 0 \<and> p ! 1 = c"

fun XmlNameMatchesAscii :: "encoding \<Rightarrow> byte list \<Rightarrow> byte list \<Rightarrow> bool" where
  "XmlNameMatchesAscii enc ts [] \<longleftrightarrow> ts = []"
| "XmlNameMatchesAscii enc ts (c # cs) \<longleftrightarrow>
     (if length ts < MIN_BYTES_PER_CHAR enc then False
      else if \<not> CHAR_MATCHES enc ts c then False
      else XmlNameMatchesAscii enc (drop (MIN_BYTES_PER_CHAR enc) ts) cs)"

section \<open>Keywords\<close>

definition KW_ANY :: "byte list" where "KW_ANY = ascii ''ANY''"
definition KW_ATTLIST :: "byte list" where "KW_ATTLIST = ascii ''ATTLIST''"
definition KW_CDATA :: "byte list" where "KW_CDATA = ascii ''CDATA''"
definition KW_DOCTYPE :: "byte list" where "KW_DOCTYPE = ascii ''DOCTYPE''"
definition KW_ELEMENT :: "byte list" where "KW_ELEMENT = ascii ''ELEMENT''"
definition KW_EMPTY :: "byte list" where "KW_EMPTY = ascii ''EMPTY''"
definition KW_ENTITIES :: "byte list" where "KW_ENTITIES = ascii ''ENTITIES''"
definition KW_ENTITY :: "byte list" where "KW_ENTITY = ascii ''ENTITY''"
definition KW_FIXED :: "byte list" where "KW_FIXED = ascii ''FIXED''"
definition KW_ID :: "byte list" where "KW_ID = ascii ''ID''"
definition KW_IDREF :: "byte list" where "KW_IDREF = ascii ''IDREF''"
definition KW_IDREFS :: "byte list" where "KW_IDREFS = ascii ''IDREFS''"
definition KW_IGNORE :: "byte list" where "KW_IGNORE = ascii ''IGNORE''"
definition KW_IMPLIED :: "byte list" where "KW_IMPLIED = ascii ''IMPLIED''"
definition KW_INCLUDE :: "byte list" where "KW_INCLUDE = ascii ''INCLUDE''"
definition KW_NDATA :: "byte list" where "KW_NDATA = ascii ''NDATA''"
definition KW_NMTOKEN :: "byte list" where "KW_NMTOKEN = ascii ''NMTOKEN''"
definition KW_NMTOKENS :: "byte list" where "KW_NMTOKENS = ascii ''NMTOKENS''"
definition KW_NOTATION :: "byte list" where "KW_NOTATION = ascii ''NOTATION''"
definition KW_PCDATA :: "byte list" where "KW_PCDATA = ascii ''PCDATA''"
definition KW_PUBLIC :: "byte list" where "KW_PUBLIC = ascii ''PUBLIC''"
definition KW_REQUIRED :: "byte list" where "KW_REQUIRED = ascii ''REQUIRED''"
definition KW_SYSTEM :: "byte list" where "KW_SYSTEM = ascii ''SYSTEM''"

lemmas KW_defs =
  KW_ANY_def KW_ATTLIST_def KW_CDATA_def KW_DOCTYPE_def KW_ELEMENT_def KW_EMPTY_def
  KW_ENTITIES_def KW_ENTITY_def KW_FIXED_def KW_ID_def KW_IDREF_def KW_IDREFS_def
  KW_IGNORE_def KW_IMPLIED_def KW_INCLUDE_def KW_NDATA_def KW_NMTOKEN_def
  KW_NMTOKENS_def KW_NOTATION_def KW_PCDATA_def KW_PUBLIC_def KW_REQUIRED_def
  KW_SYSTEM_def

section \<open>What the comparison decides\<close>

text \<open>The bytes that spell a sequence of ASCII characters in an encoding.\<close>

fun spell_char :: "encoding \<Rightarrow> byte \<Rightarrow> byte list" where
  "spell_char Normal_enc c = [c]"
| "spell_char Little2_enc c = [c, 0]"
| "spell_char Big2_enc c = [0, c]"

definition spell :: "encoding \<Rightarrow> byte list \<Rightarrow> byte list" where
  "spell enc cs = concat (map (spell_char enc) cs)"

lemma spell_simps [simp]:
  "spell enc [] = []"
  "spell enc (c # cs) = spell_char enc c @ spell enc cs"
  by (simp_all add: spell_def)

lemma MIN_BYTES_PER_CHAR_pos [simp]: "0 < MIN_BYTES_PER_CHAR enc"
  by (cases enc) simp_all

lemma CHAR_MATCHES_iff:
  assumes "MIN_BYTES_PER_CHAR enc \<le> length ts"
  shows "CHAR_MATCHES enc ts c \<longleftrightarrow> take (MIN_BYTES_PER_CHAR enc) ts = spell_char enc c"
proof (cases enc)
  case Normal_enc
  with assms show ?thesis by (cases ts) auto
next
  case Little2_enc
  with assms obtain a b us where "ts = a # b # us"
    by (cases ts; cases "tl ts") auto
  with Little2_enc show ?thesis by (auto simp: numeral_2_eq_2)
next
  case Big2_enc
  with assms obtain a b us where "ts = a # b # us"
    by (cases ts; cases "tl ts") auto
  with Big2_enc show ?thesis by (auto simp: numeral_2_eq_2)
qed

lemma length_spell_char [simp]: "length (spell_char enc c) = MIN_BYTES_PER_CHAR enc"
  by (cases enc) simp_all

lemma XmlNameMatchesAscii_iff: "XmlNameMatchesAscii enc ts kw \<longleftrightarrow> ts = spell enc kw"
proof (induction kw arbitrary: ts)
  case (Cons c cs)
  show ?case
  proof (cases "MIN_BYTES_PER_CHAR enc \<le> length ts")
    case True
    have "ts = spell enc (c # cs) \<longleftrightarrow>
      take (MIN_BYTES_PER_CHAR enc) ts = spell_char enc c \<and>
      drop (MIN_BYTES_PER_CHAR enc) ts = spell enc cs"
      by (metis append_eq_conv_conj append_take_drop_id length_spell_char spell_simps(2))
    with True show ?thesis by (simp add: CHAR_MATCHES_iff Cons.IH)
  next
    case False
    then have "ts \<noteq> spell enc (c # cs)" by auto
    with False show ?thesis by simp
  qed
qed simp

lemma spell_append: "spell enc (as @ bs) = spell enc as @ spell enc bs"
  by (simp add: spell_def)

lemma length_spell: "length (spell enc as) = length as * MIN_BYTES_PER_CHAR enc"
  by (induction as) simp_all

lemma spell_char_inj: "spell_char enc a = spell_char enc b \<longleftrightarrow> a = b"
  by (cases enc) auto

lemma spell_inj: "spell enc as = spell enc bs \<longleftrightarrow> as = bs"
proof (induction as arbitrary: bs)
  case Nil
  show ?case by (cases bs; cases enc) auto
next
  case (Cons a as)
  then show ?case by (cases bs; cases enc) (auto simp: spell_char_inj)
qed

end
