(* ===== verification/Machines.thy ===== *)
theory Machines
  imports Prelude
begin

text \<open>
  Deterministic machines with output, and the three contracts the components are
  proved against: an invariant of a machine, a simulation between two machines, and
  inputs that leave the state alone. The contracts are locales; the components
  interpret them on their step functions.
\<close>

section \<open>Runs\<close>

fun mealy_run :: "('s \<Rightarrow> 'i \<Rightarrow> 'o \<times> 's) \<Rightarrow> 's \<Rightarrow> 'i list \<Rightarrow> 'o list \<times> 's" where
  "mealy_run step s [] = ([], s)"
| "mealy_run step s (i # is) =
    (let (o1, s') = step s i; (os, s'') = mealy_run step s' is in (o1 # os, s''))"

abbreviation run_out :: "('s \<Rightarrow> 'i \<Rightarrow> 'o \<times> 's) \<Rightarrow> 's \<Rightarrow> 'i list \<Rightarrow> 'o list" where
  "run_out step s is \<equiv> fst (mealy_run step s is)"

abbreviation run_state :: "('s \<Rightarrow> 'i \<Rightarrow> 'o \<times> 's) \<Rightarrow> 's \<Rightarrow> 'i list \<Rightarrow> 's" where
  "run_state step s is \<equiv> snd (mealy_run step s is)"

lemma run_Cons:
  "run_out step s (i # is) = fst (step s i) # run_out step (snd (step s i)) is"
  "run_state step s (i # is) = run_state step (snd (step s i)) is"
  by (simp_all add: Let_def split: prod.splits)

lemma run_append:
  "run_out step s (is @ js) = run_out step s is @ run_out step (run_state step s is) js"
  "run_state step s (is @ js) = run_state step (run_state step s is) js"
  by (induction "is" arbitrary: s) (simp_all add: run_Cons del: mealy_run.simps(2))

lemma length_run_out [simp]: "length (run_out step s is) = length is"
  by (induction "is" arbitrary: s) (simp_all add: run_Cons del: mealy_run.simps(2))

lemma mealy_run_append:
  "mealy_run step s (is @ js) =
    (let (os, s') = mealy_run step s is; (os', s'') = mealy_run step s' js
     in (os @ os', s''))"
  by (simp add: prod_eq_iff run_append Let_def split: prod.splits)

section \<open>Contracts\<close>

locale mealy_sim =
  fixes step1 :: "'s \<Rightarrow> 'i \<Rightarrow> 'o \<times> 's"
    and step2 :: "'t \<Rightarrow> 'i \<Rightarrow> 'o \<times> 't"
    and R :: "'s \<Rightarrow> 't \<Rightarrow> bool"
  assumes step_out: "R s t \<Longrightarrow> fst (step1 s i) = fst (step2 t i)"
    and step_rel: "R s t \<Longrightarrow> R (snd (step1 s i)) (snd (step2 t i))"
begin

lemma run_sim:
  "R s t \<Longrightarrow> run_out step1 s is = run_out step2 t is \<and>
     R (run_state step1 s is) (run_state step2 t is)"
proof (induction "is" arbitrary: s t)
  case (Cons i "is")
  from Cons.prems have "R (snd (step1 s i)) (snd (step2 t i))" by (rule step_rel)
  from Cons.IH [OF this] Cons.prems show ?case
    by (simp add: run_Cons step_out del: mealy_run.simps(2))
qed simp

end

locale mealy_inv =
  fixes step :: "'s \<Rightarrow> 'i \<Rightarrow> 'o \<times> 's"
    and inv :: "'s \<Rightarrow> bool"
  assumes step_inv: "inv s \<Longrightarrow> inv (snd (step s i))"

sublocale mealy_inv \<subseteq> self: mealy_sim step step "\<lambda>s t. s = t \<and> inv s"
  by unfold_locales (auto intro: step_inv)

context mealy_inv
begin

lemma run_inv: "inv s \<Longrightarrow> inv (run_state step s is)"
  using self.run_sim [of s s "is"] by simp

lemma step_prop:
  assumes "\<And>s i. inv s \<Longrightarrow> P (fst (step s i))" and "inv s"
  shows "list_all P (run_out step s is)"
  using assms(2)
proof (induction "is" arbitrary: s)
  case (Cons i "is")
  then show ?case
    using assms(1) step_inv by (simp add: run_Cons del: mealy_run.simps(2))
qed simp

end

text \<open>Inputs that a machine absorbs: they change neither the state nor other outputs.\<close>

locale mealy_skip = mealy_inv +
  fixes skip :: "'b \<Rightarrow> bool"
  assumes skip_state: "inv s \<Longrightarrow> skip i \<Longrightarrow> snd (step s i) = s"
begin

lemma run_skip_state:
  "inv s \<Longrightarrow> run_state step s (filter (\<lambda>i. \<not> skip i) is) = run_state step s is"
  by (induction "is" arbitrary: s)
    (simp_all add: run_Cons skip_state step_inv del: mealy_run.simps(2))

lemma run_skip_out:
  "inv s \<Longrightarrow> run_out step s (filter (\<lambda>i. \<not> skip i) is) =
     map snd (filter (\<lambda>(i, _). \<not> skip i) (zip is (run_out step s is)))"
  by (induction "is" arbitrary: s)
    (simp_all add: run_Cons skip_state step_inv del: mealy_run.simps(2))

end

end
