(* ===== verification/Xml_Role.thy ===== *)
theory Xml_Role
  imports Xml_Names Machines
begin

text \<open>
  The prolog role machine of expat, \<open>lib/xmlrole.c\<close> with \<open>XML_DTD\<close> defined (the
  build's default): one definition per handler, in the order of the source. A handler
  takes the state, a token code, the token's bytes and the encoding, and returns the
  token's role and the new state; the field \<open>handler\<close> names the handler of the
  next token, as the function pointer does in C. A \<open>case\<close> label of the C switch is a
  test on \<open>tok\<close>, in the source's order, and \<open>break\<close> leads to \<^verbatim>\<open>common\<close>.
\<close>

section \<open>Token codes and roles\<close>

text \<open>The codes of \<open>xmltok.h\<close> that the role machine tests.\<close>

abbreviation (input) XML_TOK_NONE :: int where "XML_TOK_NONE \<equiv> - 4"
abbreviation (input) XML_TOK_PI :: int where "XML_TOK_PI \<equiv> 11"
abbreviation (input) XML_TOK_XML_DECL :: int where "XML_TOK_XML_DECL \<equiv> 12"
abbreviation (input) XML_TOK_COMMENT :: int where "XML_TOK_COMMENT \<equiv> 13"
abbreviation (input) XML_TOK_BOM :: int where "XML_TOK_BOM \<equiv> 14"
abbreviation (input) XML_TOK_PROLOG_S :: int where "XML_TOK_PROLOG_S \<equiv> 15"
abbreviation (input) XML_TOK_DECL_OPEN :: int where "XML_TOK_DECL_OPEN \<equiv> 16"
abbreviation (input) XML_TOK_DECL_CLOSE :: int where "XML_TOK_DECL_CLOSE \<equiv> 17"
abbreviation (input) XML_TOK_NAME :: int where "XML_TOK_NAME \<equiv> 18"
abbreviation (input) XML_TOK_NMTOKEN :: int where "XML_TOK_NMTOKEN \<equiv> 19"
abbreviation (input) XML_TOK_POUND_NAME :: int where "XML_TOK_POUND_NAME \<equiv> 20"
abbreviation (input) XML_TOK_OR :: int where "XML_TOK_OR \<equiv> 21"
abbreviation (input) XML_TOK_PERCENT :: int where "XML_TOK_PERCENT \<equiv> 22"
abbreviation (input) XML_TOK_OPEN_PAREN :: int where "XML_TOK_OPEN_PAREN \<equiv> 23"
abbreviation (input) XML_TOK_CLOSE_PAREN :: int where "XML_TOK_CLOSE_PAREN \<equiv> 24"
abbreviation (input) XML_TOK_OPEN_BRACKET :: int where "XML_TOK_OPEN_BRACKET \<equiv> 25"
abbreviation (input) XML_TOK_CLOSE_BRACKET :: int where "XML_TOK_CLOSE_BRACKET \<equiv> 26"
abbreviation (input) XML_TOK_LITERAL :: int where "XML_TOK_LITERAL \<equiv> 27"
abbreviation (input) XML_TOK_PARAM_ENTITY_REF :: int where "XML_TOK_PARAM_ENTITY_REF \<equiv> 28"
abbreviation (input) XML_TOK_INSTANCE_START :: int where "XML_TOK_INSTANCE_START \<equiv> 29"
abbreviation (input) XML_TOK_NAME_QUESTION :: int where "XML_TOK_NAME_QUESTION \<equiv> 30"
abbreviation (input) XML_TOK_NAME_ASTERISK :: int where "XML_TOK_NAME_ASTERISK \<equiv> 31"
abbreviation (input) XML_TOK_NAME_PLUS :: int where "XML_TOK_NAME_PLUS \<equiv> 32"
abbreviation (input) XML_TOK_COND_SECT_OPEN :: int where "XML_TOK_COND_SECT_OPEN \<equiv> 33"
abbreviation (input) XML_TOK_COND_SECT_CLOSE :: int where "XML_TOK_COND_SECT_CLOSE \<equiv> 34"
abbreviation (input) XML_TOK_CLOSE_PAREN_QUESTION :: int where "XML_TOK_CLOSE_PAREN_QUESTION \<equiv> 35"
abbreviation (input) XML_TOK_CLOSE_PAREN_ASTERISK :: int where "XML_TOK_CLOSE_PAREN_ASTERISK \<equiv> 36"
abbreviation (input) XML_TOK_CLOSE_PAREN_PLUS :: int where "XML_TOK_CLOSE_PAREN_PLUS \<equiv> 37"
abbreviation (input) XML_TOK_COMMA :: int where "XML_TOK_COMMA \<equiv> 38"
abbreviation (input) XML_TOK_PREFIXED_NAME :: int where "XML_TOK_PREFIXED_NAME \<equiv> 41"

text \<open>The roles of \<open>xmlrole.h\<close>, with the values of the C enumeration.\<close>

abbreviation (input) XML_ROLE_ERROR :: int where "XML_ROLE_ERROR \<equiv> - 1"
abbreviation (input) XML_ROLE_NONE :: int where "XML_ROLE_NONE \<equiv> 0"
abbreviation (input) XML_ROLE_XML_DECL :: int where "XML_ROLE_XML_DECL \<equiv> 1"
abbreviation (input) XML_ROLE_INSTANCE_START :: int where "XML_ROLE_INSTANCE_START \<equiv> 2"
abbreviation (input) XML_ROLE_DOCTYPE_NONE :: int where "XML_ROLE_DOCTYPE_NONE \<equiv> 3"
abbreviation (input) XML_ROLE_DOCTYPE_NAME :: int where "XML_ROLE_DOCTYPE_NAME \<equiv> 4"
abbreviation (input) XML_ROLE_DOCTYPE_SYSTEM_ID :: int where "XML_ROLE_DOCTYPE_SYSTEM_ID \<equiv> 5"
abbreviation (input) XML_ROLE_DOCTYPE_PUBLIC_ID :: int where "XML_ROLE_DOCTYPE_PUBLIC_ID \<equiv> 6"
abbreviation (input) XML_ROLE_DOCTYPE_INTERNAL_SUBSET :: int where "XML_ROLE_DOCTYPE_INTERNAL_SUBSET \<equiv> 7"
abbreviation (input) XML_ROLE_DOCTYPE_CLOSE :: int where "XML_ROLE_DOCTYPE_CLOSE \<equiv> 8"
abbreviation (input) XML_ROLE_GENERAL_ENTITY_NAME :: int where "XML_ROLE_GENERAL_ENTITY_NAME \<equiv> 9"
abbreviation (input) XML_ROLE_PARAM_ENTITY_NAME :: int where "XML_ROLE_PARAM_ENTITY_NAME \<equiv> 10"
abbreviation (input) XML_ROLE_ENTITY_NONE :: int where "XML_ROLE_ENTITY_NONE \<equiv> 11"
abbreviation (input) XML_ROLE_ENTITY_VALUE :: int where "XML_ROLE_ENTITY_VALUE \<equiv> 12"
abbreviation (input) XML_ROLE_ENTITY_SYSTEM_ID :: int where "XML_ROLE_ENTITY_SYSTEM_ID \<equiv> 13"
abbreviation (input) XML_ROLE_ENTITY_PUBLIC_ID :: int where "XML_ROLE_ENTITY_PUBLIC_ID \<equiv> 14"
abbreviation (input) XML_ROLE_ENTITY_COMPLETE :: int where "XML_ROLE_ENTITY_COMPLETE \<equiv> 15"
abbreviation (input) XML_ROLE_ENTITY_NOTATION_NAME :: int where "XML_ROLE_ENTITY_NOTATION_NAME \<equiv> 16"
abbreviation (input) XML_ROLE_NOTATION_NONE :: int where "XML_ROLE_NOTATION_NONE \<equiv> 17"
abbreviation (input) XML_ROLE_NOTATION_NAME :: int where "XML_ROLE_NOTATION_NAME \<equiv> 18"
abbreviation (input) XML_ROLE_NOTATION_SYSTEM_ID :: int where "XML_ROLE_NOTATION_SYSTEM_ID \<equiv> 19"
abbreviation (input) XML_ROLE_NOTATION_NO_SYSTEM_ID :: int where "XML_ROLE_NOTATION_NO_SYSTEM_ID \<equiv> 20"
abbreviation (input) XML_ROLE_NOTATION_PUBLIC_ID :: int where "XML_ROLE_NOTATION_PUBLIC_ID \<equiv> 21"
abbreviation (input) XML_ROLE_ATTRIBUTE_NAME :: int where "XML_ROLE_ATTRIBUTE_NAME \<equiv> 22"
abbreviation (input) XML_ROLE_ATTRIBUTE_TYPE_CDATA :: int where "XML_ROLE_ATTRIBUTE_TYPE_CDATA \<equiv> 23"
abbreviation (input) XML_ROLE_ATTRIBUTE_TYPE_ID :: int where "XML_ROLE_ATTRIBUTE_TYPE_ID \<equiv> 24"
abbreviation (input) XML_ROLE_ATTRIBUTE_TYPE_IDREF :: int where "XML_ROLE_ATTRIBUTE_TYPE_IDREF \<equiv> 25"
abbreviation (input) XML_ROLE_ATTRIBUTE_TYPE_IDREFS :: int where "XML_ROLE_ATTRIBUTE_TYPE_IDREFS \<equiv> 26"
abbreviation (input) XML_ROLE_ATTRIBUTE_TYPE_ENTITY :: int where "XML_ROLE_ATTRIBUTE_TYPE_ENTITY \<equiv> 27"
abbreviation (input) XML_ROLE_ATTRIBUTE_TYPE_ENTITIES :: int where "XML_ROLE_ATTRIBUTE_TYPE_ENTITIES \<equiv> 28"
abbreviation (input) XML_ROLE_ATTRIBUTE_TYPE_NMTOKEN :: int where "XML_ROLE_ATTRIBUTE_TYPE_NMTOKEN \<equiv> 29"
abbreviation (input) XML_ROLE_ATTRIBUTE_TYPE_NMTOKENS :: int where "XML_ROLE_ATTRIBUTE_TYPE_NMTOKENS \<equiv> 30"
abbreviation (input) XML_ROLE_ATTRIBUTE_ENUM_VALUE :: int where "XML_ROLE_ATTRIBUTE_ENUM_VALUE \<equiv> 31"
abbreviation (input) XML_ROLE_ATTRIBUTE_NOTATION_VALUE :: int where "XML_ROLE_ATTRIBUTE_NOTATION_VALUE \<equiv> 32"
abbreviation (input) XML_ROLE_ATTLIST_NONE :: int where "XML_ROLE_ATTLIST_NONE \<equiv> 33"
abbreviation (input) XML_ROLE_ATTLIST_ELEMENT_NAME :: int where "XML_ROLE_ATTLIST_ELEMENT_NAME \<equiv> 34"
abbreviation (input) XML_ROLE_IMPLIED_ATTRIBUTE_VALUE :: int where "XML_ROLE_IMPLIED_ATTRIBUTE_VALUE \<equiv> 35"
abbreviation (input) XML_ROLE_REQUIRED_ATTRIBUTE_VALUE :: int where "XML_ROLE_REQUIRED_ATTRIBUTE_VALUE \<equiv> 36"
abbreviation (input) XML_ROLE_DEFAULT_ATTRIBUTE_VALUE :: int where "XML_ROLE_DEFAULT_ATTRIBUTE_VALUE \<equiv> 37"
abbreviation (input) XML_ROLE_FIXED_ATTRIBUTE_VALUE :: int where "XML_ROLE_FIXED_ATTRIBUTE_VALUE \<equiv> 38"
abbreviation (input) XML_ROLE_ELEMENT_NONE :: int where "XML_ROLE_ELEMENT_NONE \<equiv> 39"
abbreviation (input) XML_ROLE_ELEMENT_NAME :: int where "XML_ROLE_ELEMENT_NAME \<equiv> 40"
abbreviation (input) XML_ROLE_CONTENT_ANY :: int where "XML_ROLE_CONTENT_ANY \<equiv> 41"
abbreviation (input) XML_ROLE_CONTENT_EMPTY :: int where "XML_ROLE_CONTENT_EMPTY \<equiv> 42"
abbreviation (input) XML_ROLE_CONTENT_PCDATA :: int where "XML_ROLE_CONTENT_PCDATA \<equiv> 43"
abbreviation (input) XML_ROLE_GROUP_OPEN :: int where "XML_ROLE_GROUP_OPEN \<equiv> 44"
abbreviation (input) XML_ROLE_GROUP_CLOSE :: int where "XML_ROLE_GROUP_CLOSE \<equiv> 45"
abbreviation (input) XML_ROLE_GROUP_CLOSE_REP :: int where "XML_ROLE_GROUP_CLOSE_REP \<equiv> 46"
abbreviation (input) XML_ROLE_GROUP_CLOSE_OPT :: int where "XML_ROLE_GROUP_CLOSE_OPT \<equiv> 47"
abbreviation (input) XML_ROLE_GROUP_CLOSE_PLUS :: int where "XML_ROLE_GROUP_CLOSE_PLUS \<equiv> 48"
abbreviation (input) XML_ROLE_GROUP_CHOICE :: int where "XML_ROLE_GROUP_CHOICE \<equiv> 49"
abbreviation (input) XML_ROLE_GROUP_SEQUENCE :: int where "XML_ROLE_GROUP_SEQUENCE \<equiv> 50"
abbreviation (input) XML_ROLE_CONTENT_ELEMENT :: int where "XML_ROLE_CONTENT_ELEMENT \<equiv> 51"
abbreviation (input) XML_ROLE_CONTENT_ELEMENT_REP :: int where "XML_ROLE_CONTENT_ELEMENT_REP \<equiv> 52"
abbreviation (input) XML_ROLE_CONTENT_ELEMENT_OPT :: int where "XML_ROLE_CONTENT_ELEMENT_OPT \<equiv> 53"
abbreviation (input) XML_ROLE_CONTENT_ELEMENT_PLUS :: int where "XML_ROLE_CONTENT_ELEMENT_PLUS \<equiv> 54"
abbreviation (input) XML_ROLE_PI :: int where "XML_ROLE_PI \<equiv> 55"
abbreviation (input) XML_ROLE_COMMENT :: int where "XML_ROLE_COMMENT \<equiv> 56"
abbreviation (input) XML_ROLE_TEXT_DECL :: int where "XML_ROLE_TEXT_DECL \<equiv> 57"
abbreviation (input) XML_ROLE_IGNORE_SECT :: int where "XML_ROLE_IGNORE_SECT \<equiv> 58"
abbreviation (input) XML_ROLE_INNER_PARAM_ENTITY_REF :: int where "XML_ROLE_INNER_PARAM_ENTITY_REF \<equiv> 59"
abbreviation (input) XML_ROLE_PARAM_ENTITY_REF :: int where "XML_ROLE_PARAM_ENTITY_REF \<equiv> 60"

section \<open>State\<close>

datatype prolog_handler =
    Prolog0 | Prolog1 | Prolog2 | Doctype0 | Doctype1 | Doctype2 | Doctype3 | Doctype4
  | Doctype5 | InternalSubset | ExternalSubset0 | ExternalSubset1 | Entity0 | Entity1
  | Entity2 | Entity3 | Entity4 | Entity5 | Entity6 | Entity7 | Entity8 | Entity9
  | Entity10 | Notation0 | Notation1 | Notation2 | Notation3 | Notation4 | Attlist0
  | Attlist1 | Attlist2 | Attlist3 | Attlist4 | Attlist5 | Attlist6 | Attlist7 | Attlist8
  | Attlist9 | Element0 | Element1 | Element2 | Element3 | Element4 | Element5 | Element6
  | Element7 | CondSect0 | CondSect1 | CondSect2 | DeclClose | Error

text \<open>\<open>struct prolog_state\<close>; \<open>unsigned\<close> fields are 32-bit words.\<close>

record prolog_state =
  handler :: prolog_handler
  level :: u32
  role_none :: int
  includeLevel :: u32
  documentEntity :: bool
  inEntityValue :: bool

type_synonym prolog_fun =
  "prolog_state \<Rightarrow> int \<Rightarrow> byte list \<Rightarrow> encoding \<Rightarrow> int \<times> prolog_state"

definition setTopLevel :: "prolog_state \<Rightarrow> prolog_state" where
  "setTopLevel st =
    st\<lparr>handler := (if documentEntity st then InternalSubset else ExternalSubset1)\<rparr>"

definition common :: "prolog_state \<Rightarrow> int \<Rightarrow> int \<times> prolog_state" where
  "common st tok =
    (if \<not> documentEntity st \<and> tok = XML_TOK_PARAM_ENTITY_REF
     then (XML_ROLE_INNER_PARAM_ENTITY_REF, st)
     else (XML_ROLE_ERROR, st\<lparr>handler := Error\<rparr>))"

section \<open>Handlers\<close>

subsection \<open>Before and after the document type declaration\<close>

definition prolog0 :: prolog_fun where
  "prolog0 st tok ts enc =
    (if tok = XML_TOK_PROLOG_S then (XML_ROLE_NONE, st\<lparr>handler := Prolog1\<rparr>)
     else if tok = XML_TOK_XML_DECL then
       (XML_ROLE_XML_DECL, st\<lparr>handler := Prolog1\<rparr>)
     else if tok = XML_TOK_PI then (XML_ROLE_PI, st\<lparr>handler := Prolog1\<rparr>)
     else if tok = XML_TOK_COMMENT then (XML_ROLE_COMMENT, st\<lparr>handler := Prolog1\<rparr>)
     else if tok = XML_TOK_BOM then (XML_ROLE_NONE, st)
     else if tok = XML_TOK_DECL_OPEN then
       (if \<not> XmlNameMatchesAscii enc (drop (2 * MIN_BYTES_PER_CHAR enc) ts) KW_DOCTYPE then
         common st tok
        else (XML_ROLE_DOCTYPE_NONE, st\<lparr>handler := Doctype0\<rparr>))
     else if tok = XML_TOK_INSTANCE_START then
       (XML_ROLE_INSTANCE_START, st\<lparr>handler := Error\<rparr>)
     else common st tok)"

definition prolog1 :: prolog_fun where
  "prolog1 st tok ts enc =
    (if tok = XML_TOK_PROLOG_S then (XML_ROLE_NONE, st)
     else if tok = XML_TOK_PI then (XML_ROLE_PI, st)
     else if tok = XML_TOK_COMMENT then (XML_ROLE_COMMENT, st)
     else if tok = XML_TOK_BOM then (XML_ROLE_NONE, st)
     else if tok = XML_TOK_DECL_OPEN then
       (if \<not> XmlNameMatchesAscii enc (drop (2 * MIN_BYTES_PER_CHAR enc) ts) KW_DOCTYPE then
         common st tok
        else (XML_ROLE_DOCTYPE_NONE, st\<lparr>handler := Doctype0\<rparr>))
     else if tok = XML_TOK_INSTANCE_START then
       (XML_ROLE_INSTANCE_START, st\<lparr>handler := Error\<rparr>)
     else common st tok)"

definition prolog2 :: prolog_fun where
  "prolog2 st tok ts enc =
    (if tok = XML_TOK_PROLOG_S then (XML_ROLE_NONE, st)
     else if tok = XML_TOK_PI then (XML_ROLE_PI, st)
     else if tok = XML_TOK_COMMENT then (XML_ROLE_COMMENT, st)
     else if tok = XML_TOK_INSTANCE_START then
       (XML_ROLE_INSTANCE_START, st\<lparr>handler := Error\<rparr>)
     else common st tok)"

subsection \<open>Document type declaration\<close>

definition doctype0 :: prolog_fun where
  "doctype0 st tok ts enc =
    (if tok = XML_TOK_PROLOG_S then (XML_ROLE_DOCTYPE_NONE, st)
     else if tok = XML_TOK_NAME \<or> tok = XML_TOK_PREFIXED_NAME then
       (XML_ROLE_DOCTYPE_NAME, st\<lparr>handler := Doctype1\<rparr>)
     else common st tok)"

definition doctype1 :: prolog_fun where
  "doctype1 st tok ts enc =
    (if tok = XML_TOK_PROLOG_S then (XML_ROLE_DOCTYPE_NONE, st)
     else if tok = XML_TOK_OPEN_BRACKET then
       (XML_ROLE_DOCTYPE_INTERNAL_SUBSET, st\<lparr>handler := InternalSubset\<rparr>)
     else if tok = XML_TOK_DECL_CLOSE then
       (XML_ROLE_DOCTYPE_CLOSE, st\<lparr>handler := Prolog2\<rparr>)
     else if tok = XML_TOK_NAME then
       (if XmlNameMatchesAscii enc ts KW_SYSTEM then
         (XML_ROLE_DOCTYPE_NONE, st\<lparr>handler := Doctype3\<rparr>)
        else if XmlNameMatchesAscii enc ts KW_PUBLIC then
          (XML_ROLE_DOCTYPE_NONE, st\<lparr>handler := Doctype2\<rparr>)
        else common st tok)
     else common st tok)"

definition doctype2 :: prolog_fun where
  "doctype2 st tok ts enc =
    (if tok = XML_TOK_PROLOG_S then (XML_ROLE_DOCTYPE_NONE, st)
     else if tok = XML_TOK_LITERAL then
       (XML_ROLE_DOCTYPE_PUBLIC_ID, st\<lparr>handler := Doctype3\<rparr>)
     else common st tok)"

definition doctype3 :: prolog_fun where
  "doctype3 st tok ts enc =
    (if tok = XML_TOK_PROLOG_S then (XML_ROLE_DOCTYPE_NONE, st)
     else if tok = XML_TOK_LITERAL then
       (XML_ROLE_DOCTYPE_SYSTEM_ID, st\<lparr>handler := Doctype4\<rparr>)
     else common st tok)"

definition doctype4 :: prolog_fun where
  "doctype4 st tok ts enc =
    (if tok = XML_TOK_PROLOG_S then (XML_ROLE_DOCTYPE_NONE, st)
     else if tok = XML_TOK_OPEN_BRACKET then
       (XML_ROLE_DOCTYPE_INTERNAL_SUBSET, st\<lparr>handler := InternalSubset\<rparr>)
     else if tok = XML_TOK_DECL_CLOSE then
       (XML_ROLE_DOCTYPE_CLOSE, st\<lparr>handler := Prolog2\<rparr>)
     else common st tok)"

definition doctype5 :: prolog_fun where
  "doctype5 st tok ts enc =
    (if tok = XML_TOK_PROLOG_S then (XML_ROLE_DOCTYPE_NONE, st)
     else if tok = XML_TOK_DECL_CLOSE then
       (XML_ROLE_DOCTYPE_CLOSE, st\<lparr>handler := Prolog2\<rparr>)
     else common st tok)"

subsection \<open>Internal and external subset\<close>

definition internalSubset :: prolog_fun where
  "internalSubset st tok ts enc =
    (if tok = XML_TOK_PROLOG_S then (XML_ROLE_NONE, st)
     else if tok = XML_TOK_DECL_OPEN then
       (if XmlNameMatchesAscii enc (drop (2 * MIN_BYTES_PER_CHAR enc) ts) KW_ENTITY then
         (XML_ROLE_ENTITY_NONE, st\<lparr>handler := Entity0\<rparr>)
        else if XmlNameMatchesAscii enc (drop (2 * MIN_BYTES_PER_CHAR enc) ts) KW_ATTLIST then
          (XML_ROLE_ATTLIST_NONE, st\<lparr>handler := Attlist0\<rparr>)
        else if XmlNameMatchesAscii enc (drop (2 * MIN_BYTES_PER_CHAR enc) ts) KW_ELEMENT then
          (XML_ROLE_ELEMENT_NONE, st\<lparr>handler := Element0\<rparr>)
        else if XmlNameMatchesAscii enc (drop (2 * MIN_BYTES_PER_CHAR enc) ts) KW_NOTATION then
          (XML_ROLE_NOTATION_NONE, st\<lparr>handler := Notation0\<rparr>)
        else common st tok)
     else if tok = XML_TOK_PI then (XML_ROLE_PI, st)
     else if tok = XML_TOK_COMMENT then (XML_ROLE_COMMENT, st)
     else if tok = XML_TOK_PARAM_ENTITY_REF then (XML_ROLE_PARAM_ENTITY_REF, st)
     else if tok = XML_TOK_CLOSE_BRACKET then
       (XML_ROLE_DOCTYPE_NONE, st\<lparr>handler := Doctype5\<rparr>)
     else if tok = XML_TOK_NONE then (XML_ROLE_NONE, st)
     else common st tok)"

definition externalSubset1 :: prolog_fun where
  "externalSubset1 st tok ts enc =
    (if tok = XML_TOK_COND_SECT_OPEN then (XML_ROLE_NONE, st\<lparr>handler := CondSect0\<rparr>)
     else if tok = XML_TOK_COND_SECT_CLOSE then
       (if includeLevel st = 0 then common st tok
        else (XML_ROLE_NONE, st\<lparr>includeLevel := includeLevel st - 1\<rparr>))
     else if tok = XML_TOK_PROLOG_S then (XML_ROLE_NONE, st)
     else if tok = XML_TOK_CLOSE_BRACKET then common st tok
     else if tok = XML_TOK_NONE then
       (if includeLevel st \<noteq> 0 then common st tok else (XML_ROLE_NONE, st))
     else internalSubset st tok ts enc)"

definition externalSubset0 :: prolog_fun where
  "externalSubset0 st tok ts enc =
    (let st = st\<lparr>handler := ExternalSubset1\<rparr> in
     if tok = XML_TOK_XML_DECL then (XML_ROLE_TEXT_DECL, st)
     else externalSubset1 st tok ts enc)"

subsection \<open>Entity declarations\<close>

definition entity0 :: prolog_fun where
  "entity0 st tok ts enc =
    (if tok = XML_TOK_PROLOG_S then (XML_ROLE_ENTITY_NONE, st)
     else if tok = XML_TOK_PERCENT then
       (XML_ROLE_ENTITY_NONE, st\<lparr>handler := Entity1\<rparr>)
     else if tok = XML_TOK_NAME then
       (XML_ROLE_GENERAL_ENTITY_NAME, st\<lparr>handler := Entity2\<rparr>)
     else common st tok)"

definition entity1 :: prolog_fun where
  "entity1 st tok ts enc =
    (if tok = XML_TOK_PROLOG_S then (XML_ROLE_ENTITY_NONE, st)
     else if tok = XML_TOK_NAME then
       (XML_ROLE_PARAM_ENTITY_NAME, st\<lparr>handler := Entity7\<rparr>)
     else common st tok)"

definition entity2 :: prolog_fun where
  "entity2 st tok ts enc =
    (if tok = XML_TOK_PROLOG_S then (XML_ROLE_ENTITY_NONE, st)
     else if tok = XML_TOK_NAME then
       (if XmlNameMatchesAscii enc ts KW_SYSTEM then
         (XML_ROLE_ENTITY_NONE, st\<lparr>handler := Entity4\<rparr>)
        else if XmlNameMatchesAscii enc ts KW_PUBLIC then
          (XML_ROLE_ENTITY_NONE, st\<lparr>handler := Entity3\<rparr>)
        else common st tok)
     else if tok = XML_TOK_LITERAL then
       (XML_ROLE_ENTITY_VALUE, st\<lparr>handler := DeclClose, role_none := XML_ROLE_ENTITY_NONE\<rparr>)
     else common st tok)"

definition entity3 :: prolog_fun where
  "entity3 st tok ts enc =
    (if tok = XML_TOK_PROLOG_S then (XML_ROLE_ENTITY_NONE, st)
     else if tok = XML_TOK_LITERAL then
       (XML_ROLE_ENTITY_PUBLIC_ID, st\<lparr>handler := Entity4\<rparr>)
     else common st tok)"

definition entity4 :: prolog_fun where
  "entity4 st tok ts enc =
    (if tok = XML_TOK_PROLOG_S then (XML_ROLE_ENTITY_NONE, st)
     else if tok = XML_TOK_LITERAL then
       (XML_ROLE_ENTITY_SYSTEM_ID, st\<lparr>handler := Entity5\<rparr>)
     else common st tok)"

definition entity5 :: prolog_fun where
  "entity5 st tok ts enc =
    (if tok = XML_TOK_PROLOG_S then (XML_ROLE_ENTITY_NONE, st)
     else if tok = XML_TOK_DECL_CLOSE then (XML_ROLE_ENTITY_COMPLETE, setTopLevel st)
     else if tok = XML_TOK_NAME then
       (if XmlNameMatchesAscii enc ts KW_NDATA then
         (XML_ROLE_ENTITY_NONE, st\<lparr>handler := Entity6\<rparr>)
        else common st tok)
     else common st tok)"

definition entity6 :: prolog_fun where
  "entity6 st tok ts enc =
    (if tok = XML_TOK_PROLOG_S then (XML_ROLE_ENTITY_NONE, st)
     else if tok = XML_TOK_NAME then
       (XML_ROLE_ENTITY_NOTATION_NAME, st\<lparr>handler := DeclClose, role_none := XML_ROLE_ENTITY_NONE\<rparr>)
     else common st tok)"

definition entity7 :: prolog_fun where
  "entity7 st tok ts enc =
    (if tok = XML_TOK_PROLOG_S then (XML_ROLE_ENTITY_NONE, st)
     else if tok = XML_TOK_NAME then
       (if XmlNameMatchesAscii enc ts KW_SYSTEM then
         (XML_ROLE_ENTITY_NONE, st\<lparr>handler := Entity9\<rparr>)
        else if XmlNameMatchesAscii enc ts KW_PUBLIC then
          (XML_ROLE_ENTITY_NONE, st\<lparr>handler := Entity8\<rparr>)
        else common st tok)
     else if tok = XML_TOK_LITERAL then
       (XML_ROLE_ENTITY_VALUE, st\<lparr>handler := DeclClose, role_none := XML_ROLE_ENTITY_NONE\<rparr>)
     else common st tok)"

definition entity8 :: prolog_fun where
  "entity8 st tok ts enc =
    (if tok = XML_TOK_PROLOG_S then (XML_ROLE_ENTITY_NONE, st)
     else if tok = XML_TOK_LITERAL then
       (XML_ROLE_ENTITY_PUBLIC_ID, st\<lparr>handler := Entity9\<rparr>)
     else common st tok)"

definition entity9 :: prolog_fun where
  "entity9 st tok ts enc =
    (if tok = XML_TOK_PROLOG_S then (XML_ROLE_ENTITY_NONE, st)
     else if tok = XML_TOK_LITERAL then
       (XML_ROLE_ENTITY_SYSTEM_ID, st\<lparr>handler := Entity10\<rparr>)
     else common st tok)"

definition entity10 :: prolog_fun where
  "entity10 st tok ts enc =
    (if tok = XML_TOK_PROLOG_S then (XML_ROLE_ENTITY_NONE, st)
     else if tok = XML_TOK_DECL_CLOSE then (XML_ROLE_ENTITY_COMPLETE, setTopLevel st)
     else common st tok)"

subsection \<open>Notation declarations\<close>

definition notation0 :: prolog_fun where
  "notation0 st tok ts enc =
    (if tok = XML_TOK_PROLOG_S then (XML_ROLE_NOTATION_NONE, st)
     else if tok = XML_TOK_NAME then
       (XML_ROLE_NOTATION_NAME, st\<lparr>handler := Notation1\<rparr>)
     else common st tok)"

definition notation1 :: prolog_fun where
  "notation1 st tok ts enc =
    (if tok = XML_TOK_PROLOG_S then (XML_ROLE_NOTATION_NONE, st)
     else if tok = XML_TOK_NAME then
       (if XmlNameMatchesAscii enc ts KW_SYSTEM then
         (XML_ROLE_NOTATION_NONE, st\<lparr>handler := Notation3\<rparr>)
        else if XmlNameMatchesAscii enc ts KW_PUBLIC then
          (XML_ROLE_NOTATION_NONE, st\<lparr>handler := Notation2\<rparr>)
        else common st tok)
     else common st tok)"

definition notation2 :: prolog_fun where
  "notation2 st tok ts enc =
    (if tok = XML_TOK_PROLOG_S then (XML_ROLE_NOTATION_NONE, st)
     else if tok = XML_TOK_LITERAL then
       (XML_ROLE_NOTATION_PUBLIC_ID, st\<lparr>handler := Notation4\<rparr>)
     else common st tok)"

definition notation3 :: prolog_fun where
  "notation3 st tok ts enc =
    (if tok = XML_TOK_PROLOG_S then (XML_ROLE_NOTATION_NONE, st)
     else if tok = XML_TOK_LITERAL then
       (XML_ROLE_NOTATION_SYSTEM_ID, st\<lparr>handler := DeclClose, role_none := XML_ROLE_NOTATION_NONE\<rparr>)
     else common st tok)"

definition notation4 :: prolog_fun where
  "notation4 st tok ts enc =
    (if tok = XML_TOK_PROLOG_S then (XML_ROLE_NOTATION_NONE, st)
     else if tok = XML_TOK_LITERAL then
       (XML_ROLE_NOTATION_SYSTEM_ID, st\<lparr>handler := DeclClose, role_none := XML_ROLE_NOTATION_NONE\<rparr>)
     else if tok = XML_TOK_DECL_CLOSE then (XML_ROLE_NOTATION_NO_SYSTEM_ID, setTopLevel st)
     else common st tok)"

subsection \<open>Attribute list declarations\<close>

definition attlist0 :: prolog_fun where
  "attlist0 st tok ts enc =
    (if tok = XML_TOK_PROLOG_S then (XML_ROLE_ATTLIST_NONE, st)
     else if tok = XML_TOK_NAME \<or> tok = XML_TOK_PREFIXED_NAME then
       (XML_ROLE_ATTLIST_ELEMENT_NAME, st\<lparr>handler := Attlist1\<rparr>)
     else common st tok)"

definition attlist1 :: prolog_fun where
  "attlist1 st tok ts enc =
    (if tok = XML_TOK_PROLOG_S then (XML_ROLE_ATTLIST_NONE, st)
     else if tok = XML_TOK_DECL_CLOSE then (XML_ROLE_ATTLIST_NONE, setTopLevel st)
     else if tok = XML_TOK_NAME \<or> tok = XML_TOK_PREFIXED_NAME then
       (XML_ROLE_ATTRIBUTE_NAME, st\<lparr>handler := Attlist2\<rparr>)
     else common st tok)"

definition attlist_types :: "byte list list" where
  "attlist_types =
    [KW_CDATA, KW_ID, KW_IDREF, KW_IDREFS, KW_ENTITY, KW_ENTITIES, KW_NMTOKEN, KW_NMTOKENS]"

fun match_type :: "encoding \<Rightarrow> byte list \<Rightarrow> int \<Rightarrow> byte list list \<Rightarrow> int option" where
  "match_type enc ts i [] = None"
| "match_type enc ts i (kw # kws) =
    (if XmlNameMatchesAscii enc ts kw then Some i else match_type enc ts (i + 1) kws)"

definition attlist2 :: prolog_fun where
  "attlist2 st tok ts enc =
    (if tok = XML_TOK_PROLOG_S then (XML_ROLE_ATTLIST_NONE, st)
     else if tok = XML_TOK_NAME then
       (case match_type enc ts 0 attlist_types of
          Some i \<Rightarrow> (XML_ROLE_ATTRIBUTE_TYPE_CDATA + i, st\<lparr>handler := Attlist8\<rparr>)
        | None \<Rightarrow>
            if XmlNameMatchesAscii enc ts KW_NOTATION
            then (XML_ROLE_ATTLIST_NONE, st\<lparr>handler := Attlist5\<rparr>)
            else common st tok)
     else if tok = XML_TOK_OPEN_PAREN then (XML_ROLE_ATTLIST_NONE, st\<lparr>handler := Attlist3\<rparr>)
     else common st tok)"

definition attlist3 :: prolog_fun where
  "attlist3 st tok ts enc =
    (if tok = XML_TOK_PROLOG_S then (XML_ROLE_ATTLIST_NONE, st)
     else if tok = XML_TOK_NMTOKEN \<or> tok = XML_TOK_NAME \<or> tok = XML_TOK_PREFIXED_NAME then
       (XML_ROLE_ATTRIBUTE_ENUM_VALUE, st\<lparr>handler := Attlist4\<rparr>)
     else common st tok)"

definition attlist4 :: prolog_fun where
  "attlist4 st tok ts enc =
    (if tok = XML_TOK_PROLOG_S then (XML_ROLE_ATTLIST_NONE, st)
     else if tok = XML_TOK_CLOSE_PAREN then
       (XML_ROLE_ATTLIST_NONE, st\<lparr>handler := Attlist8\<rparr>)
     else if tok = XML_TOK_OR then
       (XML_ROLE_ATTLIST_NONE, st\<lparr>handler := Attlist3\<rparr>)
     else common st tok)"

definition attlist5 :: prolog_fun where
  "attlist5 st tok ts enc =
    (if tok = XML_TOK_PROLOG_S then (XML_ROLE_ATTLIST_NONE, st)
     else if tok = XML_TOK_OPEN_PAREN then
       (XML_ROLE_ATTLIST_NONE, st\<lparr>handler := Attlist6\<rparr>)
     else common st tok)"

definition attlist6 :: prolog_fun where
  "attlist6 st tok ts enc =
    (if tok = XML_TOK_PROLOG_S then (XML_ROLE_ATTLIST_NONE, st)
     else if tok = XML_TOK_NAME then
       (XML_ROLE_ATTRIBUTE_NOTATION_VALUE, st\<lparr>handler := Attlist7\<rparr>)
     else common st tok)"

definition attlist7 :: prolog_fun where
  "attlist7 st tok ts enc =
    (if tok = XML_TOK_PROLOG_S then (XML_ROLE_ATTLIST_NONE, st)
     else if tok = XML_TOK_CLOSE_PAREN then
       (XML_ROLE_ATTLIST_NONE, st\<lparr>handler := Attlist8\<rparr>)
     else if tok = XML_TOK_OR then
       (XML_ROLE_ATTLIST_NONE, st\<lparr>handler := Attlist6\<rparr>)
     else common st tok)"

definition attlist8 :: prolog_fun where
  "attlist8 st tok ts enc =
    (if tok = XML_TOK_PROLOG_S then (XML_ROLE_ATTLIST_NONE, st)
     else if tok = XML_TOK_POUND_NAME then
       (if XmlNameMatchesAscii enc (drop (MIN_BYTES_PER_CHAR enc) ts) KW_IMPLIED then
         (XML_ROLE_IMPLIED_ATTRIBUTE_VALUE, st\<lparr>handler := Attlist1\<rparr>)
        else if XmlNameMatchesAscii enc (drop (MIN_BYTES_PER_CHAR enc) ts) KW_REQUIRED then
          (XML_ROLE_REQUIRED_ATTRIBUTE_VALUE, st\<lparr>handler := Attlist1\<rparr>)
        else if XmlNameMatchesAscii enc (drop (MIN_BYTES_PER_CHAR enc) ts) KW_FIXED then
          (XML_ROLE_ATTLIST_NONE, st\<lparr>handler := Attlist9\<rparr>)
        else common st tok)
     else if tok = XML_TOK_LITERAL then
       (XML_ROLE_DEFAULT_ATTRIBUTE_VALUE, st\<lparr>handler := Attlist1\<rparr>)
     else common st tok)"

definition attlist9 :: prolog_fun where
  "attlist9 st tok ts enc =
    (if tok = XML_TOK_PROLOG_S then (XML_ROLE_ATTLIST_NONE, st)
     else if tok = XML_TOK_LITERAL then
       (XML_ROLE_FIXED_ATTRIBUTE_VALUE, st\<lparr>handler := Attlist1\<rparr>)
     else common st tok)"

subsection \<open>Element type declarations\<close>

definition element0 :: prolog_fun where
  "element0 st tok ts enc =
    (if tok = XML_TOK_PROLOG_S then (XML_ROLE_ELEMENT_NONE, st)
     else if tok = XML_TOK_NAME \<or> tok = XML_TOK_PREFIXED_NAME then
       (XML_ROLE_ELEMENT_NAME, st\<lparr>handler := Element1\<rparr>)
     else common st tok)"

definition element1 :: prolog_fun where
  "element1 st tok ts enc =
    (if tok = XML_TOK_PROLOG_S then (XML_ROLE_ELEMENT_NONE, st)
     else if tok = XML_TOK_NAME then
       (if XmlNameMatchesAscii enc ts KW_EMPTY then
         (XML_ROLE_CONTENT_EMPTY, st\<lparr>handler := DeclClose, role_none := XML_ROLE_ELEMENT_NONE\<rparr>)
        else if XmlNameMatchesAscii enc ts KW_ANY then
          (XML_ROLE_CONTENT_ANY, st\<lparr>handler := DeclClose, role_none := XML_ROLE_ELEMENT_NONE\<rparr>)
        else common st tok)
     else if tok = XML_TOK_OPEN_PAREN then
       (XML_ROLE_GROUP_OPEN, st\<lparr>handler := Element2, level := 1\<rparr>)
     else common st tok)"

definition element2 :: prolog_fun where
  "element2 st tok ts enc =
    (if tok = XML_TOK_PROLOG_S then (XML_ROLE_ELEMENT_NONE, st)
     else if tok = XML_TOK_POUND_NAME then
       (if XmlNameMatchesAscii enc (drop (MIN_BYTES_PER_CHAR enc) ts) KW_PCDATA then
         (XML_ROLE_CONTENT_PCDATA, st\<lparr>handler := Element3\<rparr>)
        else common st tok)
     else if tok = XML_TOK_OPEN_PAREN then
       (XML_ROLE_GROUP_OPEN, st\<lparr>level := 2, handler := Element6\<rparr>)
     else if tok = XML_TOK_NAME \<or> tok = XML_TOK_PREFIXED_NAME then
       (XML_ROLE_CONTENT_ELEMENT, st\<lparr>handler := Element7\<rparr>)
     else if tok = XML_TOK_NAME_QUESTION then
       (XML_ROLE_CONTENT_ELEMENT_OPT, st\<lparr>handler := Element7\<rparr>)
     else if tok = XML_TOK_NAME_ASTERISK then
       (XML_ROLE_CONTENT_ELEMENT_REP, st\<lparr>handler := Element7\<rparr>)
     else if tok = XML_TOK_NAME_PLUS then
       (XML_ROLE_CONTENT_ELEMENT_PLUS, st\<lparr>handler := Element7\<rparr>)
     else common st tok)"

definition element3 :: prolog_fun where
  "element3 st tok ts enc =
    (if tok = XML_TOK_PROLOG_S then (XML_ROLE_ELEMENT_NONE, st)
     else if tok = XML_TOK_CLOSE_PAREN then
       (XML_ROLE_GROUP_CLOSE, st\<lparr>handler := DeclClose, role_none := XML_ROLE_ELEMENT_NONE\<rparr>)
     else if tok = XML_TOK_CLOSE_PAREN_ASTERISK then
       (XML_ROLE_GROUP_CLOSE_REP, st\<lparr>handler := DeclClose, role_none := XML_ROLE_ELEMENT_NONE\<rparr>)
     else if tok = XML_TOK_OR then
       (XML_ROLE_ELEMENT_NONE, st\<lparr>handler := Element4\<rparr>)
     else common st tok)"

definition element4 :: prolog_fun where
  "element4 st tok ts enc =
    (if tok = XML_TOK_PROLOG_S then (XML_ROLE_ELEMENT_NONE, st)
     else if tok = XML_TOK_NAME \<or> tok = XML_TOK_PREFIXED_NAME then
       (XML_ROLE_CONTENT_ELEMENT, st\<lparr>handler := Element5\<rparr>)
     else common st tok)"

definition element5 :: prolog_fun where
  "element5 st tok ts enc =
    (if tok = XML_TOK_PROLOG_S then (XML_ROLE_ELEMENT_NONE, st)
     else if tok = XML_TOK_CLOSE_PAREN_ASTERISK then
       (XML_ROLE_GROUP_CLOSE_REP, st\<lparr>handler := DeclClose, role_none := XML_ROLE_ELEMENT_NONE\<rparr>)
     else if tok = XML_TOK_OR then
       (XML_ROLE_ELEMENT_NONE, st\<lparr>handler := Element4\<rparr>)
     else common st tok)"

definition element6 :: prolog_fun where
  "element6 st tok ts enc =
    (if tok = XML_TOK_PROLOG_S then (XML_ROLE_ELEMENT_NONE, st)
     else if tok = XML_TOK_OPEN_PAREN then
       (XML_ROLE_GROUP_OPEN, st\<lparr>level := level st + 1\<rparr>)
     else if tok = XML_TOK_NAME \<or> tok = XML_TOK_PREFIXED_NAME then
       (XML_ROLE_CONTENT_ELEMENT, st\<lparr>handler := Element7\<rparr>)
     else if tok = XML_TOK_NAME_QUESTION then
       (XML_ROLE_CONTENT_ELEMENT_OPT, st\<lparr>handler := Element7\<rparr>)
     else if tok = XML_TOK_NAME_ASTERISK then
       (XML_ROLE_CONTENT_ELEMENT_REP, st\<lparr>handler := Element7\<rparr>)
     else if tok = XML_TOK_NAME_PLUS then
       (XML_ROLE_CONTENT_ELEMENT_PLUS, st\<lparr>handler := Element7\<rparr>)
     else common st tok)"

definition close_group :: "prolog_state \<Rightarrow> prolog_state" where
  "close_group st =
    (let st = st\<lparr>level := level st - 1\<rparr> in
     if level st = 0 then st\<lparr>handler := DeclClose, role_none := XML_ROLE_ELEMENT_NONE\<rparr>
     else st)"

definition element7 :: prolog_fun where
  "element7 st tok ts enc =
    (if tok = XML_TOK_PROLOG_S then (XML_ROLE_ELEMENT_NONE, st)
     else if tok = XML_TOK_CLOSE_PAREN then (XML_ROLE_GROUP_CLOSE, close_group st)
     else if tok = XML_TOK_CLOSE_PAREN_ASTERISK then (XML_ROLE_GROUP_CLOSE_REP, close_group st)
     else if tok = XML_TOK_CLOSE_PAREN_QUESTION then (XML_ROLE_GROUP_CLOSE_OPT, close_group st)
     else if tok = XML_TOK_CLOSE_PAREN_PLUS then (XML_ROLE_GROUP_CLOSE_PLUS, close_group st)
     else if tok = XML_TOK_COMMA then (XML_ROLE_GROUP_SEQUENCE, st\<lparr>handler := Element6\<rparr>)
     else if tok = XML_TOK_OR then (XML_ROLE_GROUP_CHOICE, st\<lparr>handler := Element6\<rparr>)
     else common st tok)"

subsection \<open>Conditional sections\<close>

definition condSect0 :: prolog_fun where
  "condSect0 st tok ts enc =
    (if tok = XML_TOK_PROLOG_S then (XML_ROLE_NONE, st)
     else if tok = XML_TOK_NAME then
       (if XmlNameMatchesAscii enc ts KW_INCLUDE then
         (XML_ROLE_NONE, st\<lparr>handler := CondSect1\<rparr>)
        else if XmlNameMatchesAscii enc ts KW_IGNORE then
          (XML_ROLE_NONE, st\<lparr>handler := CondSect2\<rparr>)
        else common st tok)
     else common st tok)"

definition condSect1 :: prolog_fun where
  "condSect1 st tok ts enc =
    (if tok = XML_TOK_PROLOG_S then (XML_ROLE_NONE, st)
     else if tok = XML_TOK_OPEN_BRACKET then
       (XML_ROLE_NONE, st\<lparr>handler := ExternalSubset1, includeLevel := includeLevel st + 1\<rparr>)
     else common st tok)"

definition condSect2 :: prolog_fun where
  "condSect2 st tok ts enc =
    (if tok = XML_TOK_PROLOG_S then (XML_ROLE_NONE, st)
     else if tok = XML_TOK_OPEN_BRACKET then
       (XML_ROLE_IGNORE_SECT, st\<lparr>handler := ExternalSubset1\<rparr>)
     else common st tok)"

subsection \<open>End of a declaration, and after the prolog\<close>

definition declClose :: prolog_fun where
  "declClose st tok ts enc =
    (if tok = XML_TOK_PROLOG_S then (role_none st, st)
     else if tok = XML_TOK_DECL_CLOSE then (role_none st, setTopLevel st)
     else common st tok)"

definition error :: prolog_fun where
  "error st tok ts enc = (XML_ROLE_NONE, st)"

section \<open>Dispatch and initial states\<close>

text \<open>\<open>XmlTokenRole\<close> calls through the function pointer.\<close>

definition XmlTokenRole :: prolog_fun where
  "XmlTokenRole st tok ts enc =
    (case handler st of
      Prolog0 \<Rightarrow> prolog0 st tok ts enc
      | Prolog1 \<Rightarrow> prolog1 st tok ts enc
      | Prolog2 \<Rightarrow> prolog2 st tok ts enc
      | Doctype0 \<Rightarrow> doctype0 st tok ts enc
      | Doctype1 \<Rightarrow> doctype1 st tok ts enc
      | Doctype2 \<Rightarrow> doctype2 st tok ts enc
      | Doctype3 \<Rightarrow> doctype3 st tok ts enc
      | Doctype4 \<Rightarrow> doctype4 st tok ts enc
      | Doctype5 \<Rightarrow> doctype5 st tok ts enc
      | InternalSubset \<Rightarrow> internalSubset st tok ts enc
      | ExternalSubset0 \<Rightarrow> externalSubset0 st tok ts enc
      | ExternalSubset1 \<Rightarrow> externalSubset1 st tok ts enc
      | Entity0 \<Rightarrow> entity0 st tok ts enc
      | Entity1 \<Rightarrow> entity1 st tok ts enc
      | Entity2 \<Rightarrow> entity2 st tok ts enc
      | Entity3 \<Rightarrow> entity3 st tok ts enc
      | Entity4 \<Rightarrow> entity4 st tok ts enc
      | Entity5 \<Rightarrow> entity5 st tok ts enc
      | Entity6 \<Rightarrow> entity6 st tok ts enc
      | Entity7 \<Rightarrow> entity7 st tok ts enc
      | Entity8 \<Rightarrow> entity8 st tok ts enc
      | Entity9 \<Rightarrow> entity9 st tok ts enc
      | Entity10 \<Rightarrow> entity10 st tok ts enc
      | Notation0 \<Rightarrow> notation0 st tok ts enc
      | Notation1 \<Rightarrow> notation1 st tok ts enc
      | Notation2 \<Rightarrow> notation2 st tok ts enc
      | Notation3 \<Rightarrow> notation3 st tok ts enc
      | Notation4 \<Rightarrow> notation4 st tok ts enc
      | Attlist0 \<Rightarrow> attlist0 st tok ts enc
      | Attlist1 \<Rightarrow> attlist1 st tok ts enc
      | Attlist2 \<Rightarrow> attlist2 st tok ts enc
      | Attlist3 \<Rightarrow> attlist3 st tok ts enc
      | Attlist4 \<Rightarrow> attlist4 st tok ts enc
      | Attlist5 \<Rightarrow> attlist5 st tok ts enc
      | Attlist6 \<Rightarrow> attlist6 st tok ts enc
      | Attlist7 \<Rightarrow> attlist7 st tok ts enc
      | Attlist8 \<Rightarrow> attlist8 st tok ts enc
      | Attlist9 \<Rightarrow> attlist9 st tok ts enc
      | Element0 \<Rightarrow> element0 st tok ts enc
      | Element1 \<Rightarrow> element1 st tok ts enc
      | Element2 \<Rightarrow> element2 st tok ts enc
      | Element3 \<Rightarrow> element3 st tok ts enc
      | Element4 \<Rightarrow> element4 st tok ts enc
      | Element5 \<Rightarrow> element5 st tok ts enc
      | Element6 \<Rightarrow> element6 st tok ts enc
      | Element7 \<Rightarrow> element7 st tok ts enc
      | CondSect0 \<Rightarrow> condSect0 st tok ts enc
      | CondSect1 \<Rightarrow> condSect1 st tok ts enc
      | CondSect2 \<Rightarrow> condSect2 st tok ts enc
      | DeclClose \<Rightarrow> declClose st tok ts enc
      | Error \<Rightarrow> error st tok ts enc)"

text \<open>
  The initialisers write only some fields; the others keep the contents the memory
  had, which is the argument.
\<close>

definition XmlPrologStateInit :: "prolog_state \<Rightarrow> prolog_state" where
  "XmlPrologStateInit st =
    st\<lparr>handler := Prolog0, documentEntity := True, includeLevel := 0,
       inEntityValue := False\<rparr>"

definition XmlPrologStateInitExternalEntity :: "prolog_state \<Rightarrow> prolog_state" where
  "XmlPrologStateInitExternalEntity st =
    st\<lparr>handler := ExternalSubset0, documentEntity := False, includeLevel := 0\<rparr>"

text \<open>The roles of a sequence of tokens, and the state after it.\<close>

type_synonym token = "int \<times> byte list"

definition role_step :: "encoding \<Rightarrow> prolog_state \<Rightarrow> token \<Rightarrow> int \<times> prolog_state" where
  "role_step enc st tok = XmlTokenRole st (fst tok) (snd tok) enc"

definition run_roles :: "encoding \<Rightarrow> prolog_state \<Rightarrow> token list \<Rightarrow> int list \<times> prolog_state" where
  "run_roles enc st toks = mealy_run (role_step enc) st toks"

lemmas [role_defs] =
  prolog0_def prolog1_def prolog2_def doctype0_def doctype1_def doctype2_def doctype3_def
  doctype4_def doctype5_def internalSubset_def externalSubset0_def externalSubset1_def
  entity0_def entity1_def entity2_def entity3_def entity4_def entity5_def entity6_def
  entity7_def entity8_def entity9_def entity10_def notation0_def notation1_def notation2_def
  notation3_def notation4_def attlist0_def attlist1_def attlist2_def attlist3_def attlist4_def
  attlist5_def attlist6_def attlist7_def attlist8_def attlist9_def element0_def element1_def
  element2_def element3_def element4_def element5_def element6_def element7_def condSect0_def
  condSect1_def condSect2_def declClose_def error_def setTopLevel_def common_def close_group_def

end
