(* ===== verification/Xml_Role_Inv.thy ===== *)
theory Xml_Role_Inv
  imports Xml_Role
begin

text \<open>
  What every run of the prolog role machine keeps: the fields no handler writes, the
  handlers a document entity or an external entity can reach, when the field
  \<open>role_none\<close> is set, that no role depends on a field the initialisers leave alone,
  that white space is absorbed, when a run ends in the error handler, and that the
  group roles of a content model are balanced.
\<close>

section \<open>One step\<close>

lemmas step_simps = XmlTokenRole_def role_defs Let_def

lemma match_type_bounds: "match_type enc ts i kws = Some j \<Longrightarrow> i \<le> j \<and> j < i + int (length kws)"
  by (induction kws arbitrary: i) (fastforce split: if_splits)+

lemma XmlTokenRole_frame:
  "documentEntity (snd (XmlTokenRole st tok ts enc)) = documentEntity st"
  "inEntityValue (snd (XmlTokenRole st tok ts enc)) = inEntityValue st"
  by (cases "handler st"; simp add: step_simps split: option.split)+

definition role_none_set :: "prolog_state \<Rightarrow> bool" where
  "role_none_set st \<longleftrightarrow>
    (handler st = DeclClose \<longrightarrow>
       role_none st \<in> {XML_ROLE_ENTITY_NONE, XML_ROLE_NOTATION_NONE, XML_ROLE_ELEMENT_NONE})"

lemma XmlTokenRole_role_none_set:
  "role_none_set st \<Longrightarrow> role_none_set (snd (XmlTokenRole st tok ts enc))"
  by (cases "handler st"; simp add: role_none_set_def step_simps split: option.split)

section \<open>Document entity and external entity\<close>

definition external_handlers :: "prolog_handler set" where
  "external_handlers = {ExternalSubset0, ExternalSubset1, CondSect0, CondSect1, CondSect2}"

definition document_handlers :: "prolog_handler set" where
  "document_handlers =
    {Prolog0, Prolog1, Prolog2, Doctype0, Doctype1, Doctype2, Doctype3, Doctype4, Doctype5,
     InternalSubset}"

definition doc_inv :: "prolog_state \<Rightarrow> bool" where
  "doc_inv st \<longleftrightarrow>
    documentEntity st \<and> includeLevel st = 0 \<and> handler st \<notin> external_handlers \<and>
    role_none_set st"

definition ext_inv :: "prolog_state \<Rightarrow> bool" where
  "ext_inv st \<longleftrightarrow>
    \<not> documentEntity st \<and> handler st \<notin> document_handlers \<and> role_none_set st"

lemma doc_inv_step: "doc_inv st \<Longrightarrow> doc_inv (snd (XmlTokenRole st tok ts enc))"
  by (cases "handler st";
      simp add: doc_inv_def external_handlers_def role_none_set_def step_simps
        split: option.split)

lemma ext_inv_step: "ext_inv st \<Longrightarrow> ext_inv (snd (XmlTokenRole st tok ts enc))"
  by (cases "handler st";
      simp add: ext_inv_def document_handlers_def role_none_set_def step_simps
        split: option.split)

lemma doc_inv_role:
  assumes "doc_inv st"
  shows "fst (XmlTokenRole st tok ts enc) \<notin>
    {XML_ROLE_INNER_PARAM_ENTITY_REF, XML_ROLE_IGNORE_SECT, XML_ROLE_TEXT_DECL}"
  using assms match_type_bounds [of enc ts 0 attlist_types]
  by (cases "handler st";
      simp add: doc_inv_def external_handlers_def role_none_set_def step_simps attlist_types_def
        split: option.split; auto)

lemma ext_inv_role:
  assumes "ext_inv st"
  shows "fst (XmlTokenRole st tok ts enc) \<notin>
    {XML_ROLE_INSTANCE_START, XML_ROLE_DOCTYPE_NAME, XML_ROLE_DOCTYPE_CLOSE}"
  using assms match_type_bounds [of enc ts 0 attlist_types]
  by (cases "handler st";
      simp add: ext_inv_def document_handlers_def role_none_set_def step_simps attlist_types_def
        split: option.split; auto)

interpretation doc: mealy_inv "role_step enc" doc_inv for enc
  by unfold_locales (simp add: role_step_def doc_inv_step)

interpretation ext: mealy_inv "role_step enc" ext_inv for enc
  by unfold_locales (simp add: role_step_def ext_inv_step)

lemma doc_inv_init: "doc_inv (XmlPrologStateInit st)"
  by (simp add: doc_inv_def XmlPrologStateInit_def external_handlers_def role_none_set_def)

lemma ext_inv_init: "ext_inv (XmlPrologStateInitExternalEntity st)"
  by (simp add: ext_inv_def XmlPrologStateInitExternalEntity_def document_handlers_def
      role_none_set_def)

section \<open>Uninitialised fields\<close>

text \<open>
  Two states that agree on every field a handler may read before writing it:
  \<open>role_none\<close> counts only in \<^term>\<open>DeclClose\<close>, \<open>level\<close> only inside a group.
\<close>

definition same_visible :: "prolog_state \<Rightarrow> prolog_state \<Rightarrow> bool" where
  "same_visible st st' \<longleftrightarrow>
    handler st = handler st' \<and> includeLevel st = includeLevel st' \<and>
    documentEntity st = documentEntity st' \<and>
    (handler st = DeclClose \<longrightarrow> role_none st = role_none st') \<and>
    (handler st \<in> {Element2, Element6, Element7} \<longrightarrow> level st = level st')"

lemma same_visible_step:
  assumes "same_visible st st'"
  shows "fst (XmlTokenRole st tok ts enc) = fst (XmlTokenRole st' tok ts enc)"
    and "same_visible (snd (XmlTokenRole st tok ts enc)) (snd (XmlTokenRole st' tok ts enc))"
  using assms
  by (cases "handler st"; simp add: same_visible_def step_simps split: option.split)+

interpretation vis: mealy_sim "role_step enc" "role_step enc" same_visible for enc
  by unfold_locales (simp_all add: role_step_def same_visible_step)

section \<open>White space\<close>

lemma no_return_to_start:
  "handler st \<notin> {Prolog0, ExternalSubset0} \<Longrightarrow>
   handler (snd (XmlTokenRole st tok ts enc)) \<notin> {Prolog0, ExternalSubset0}"
  by (cases "handler st"; simp add: step_simps split: option.split)

lemma white_space_absorbed:
  "handler st \<notin> {Prolog0, ExternalSubset0} \<Longrightarrow>
   snd (XmlTokenRole st XML_TOK_PROLOG_S ts enc) = st"
  by (cases "handler st"; simp add: step_simps)

interpretation ws: mealy_skip "role_step enc"
    "\<lambda>st. handler st \<notin> {Prolog0, ExternalSubset0}" "\<lambda>tok. fst tok = XML_TOK_PROLOG_S" for enc
proof unfold_locales
  show "handler (snd (role_step enc s i)) \<notin> {Prolog0, ExternalSubset0}"
    if "handler s \<notin> {Prolog0, ExternalSubset0}" for s i
    using no_return_to_start [OF that] by (simp add: role_step_def)
  show "snd (role_step enc s i) = s"
    if "handler s \<notin> {Prolog0, ExternalSubset0}" and "fst i = XML_TOK_PROLOG_S" for s i
    using white_space_absorbed [OF that(1)] that(2) by (simp add: role_step_def)
qed

section \<open>Errors\<close>

lemma error_role_iff:
  assumes "role_none_set st"
  shows "fst (XmlTokenRole st tok ts enc) \<in> {XML_ROLE_ERROR, XML_ROLE_INSTANCE_START} \<longleftrightarrow>
    handler st \<noteq> Error \<and> handler (snd (XmlTokenRole st tok ts enc)) = Error"
  using assms
  by (cases "handler st"; auto simp: role_none_set_def step_simps split: option.split dest!: match_type_bounds)

lemma Error_absorbs: "handler st = Error \<Longrightarrow> XmlTokenRole st tok ts enc = (XML_ROLE_NONE, st)"
  by (simp add: step_simps)

lemma Error_absorbs_run:
  "handler st = Error \<Longrightarrow>
   mealy_run (role_step enc) st toks = (replicate (length toks) XML_ROLE_NONE, st)"
  by (induction toks) (simp_all add: role_step_def Error_absorbs)

interpretation none: mealy_inv "role_step enc" role_none_set for enc
  by unfold_locales (simp add: role_step_def XmlTokenRole_role_none_set)

lemma run_without_error:
  assumes "role_none_set st" and "handler (run_state (role_step enc) st toks) \<noteq> Error"
  shows "set (run_out (role_step enc) st toks) \<inter> {XML_ROLE_ERROR, XML_ROLE_INSTANCE_START} = {}"
  using assms
proof (induction toks arbitrary: st)
  case (Cons tok toks)
  let ?st = "snd (role_step enc st tok)"
  have "handler ?st \<noteq> Error"
    using Cons.prems(2) Error_absorbs_run [of ?st enc toks] by (auto simp: run_Cons(2) simp del: mealy_run.simps(2))
  then have "fst (role_step enc st tok) \<notin> {XML_ROLE_ERROR, XML_ROLE_INSTANCE_START}"
    using error_role_iff [OF Cons.prems(1), of "fst tok" "snd tok" enc] by (simp add: role_step_def)
  moreover have "role_none_set ?st" using Cons.prems(1) by (rule none.step_inv)
  ultimately show ?case
    using Cons.IH [of ?st] Cons.prems(2) by (simp add: run_Cons del: mealy_run.simps(2))
qed simp

section \<open>Balanced groups\<close>

text \<open>
  The nesting depth of a content model as the roles show it, and its relation to the
  machine's \<open>level\<close> counter. The counter is 32 bits wide: the relation needs that
  fewer than \<open>2 ^ 32\<close> tokens were read. The machine is run with the depth and the
  number of tokens as ghost state.
\<close>

definition group_depth :: "int \<Rightarrow> int \<Rightarrow> int" where
  "group_depth d r =
    (if r = XML_ROLE_GROUP_OPEN then d + 1
     else if r \<in> {XML_ROLE_GROUP_CLOSE, XML_ROLE_GROUP_CLOSE_REP, XML_ROLE_GROUP_CLOSE_OPT,
                   XML_ROLE_GROUP_CLOSE_PLUS} then d - 1
     else d)"

definition depth_inv :: "prolog_state \<Rightarrow> int \<Rightarrow> nat \<Rightarrow> bool" where
  "depth_inv st d n \<longleftrightarrow>
    role_none_set st \<and> 0 \<le> d \<and>
    (handler st \<in> {Element6, Element7} \<longrightarrow>
       d = int (unat (level st)) \<and> 0 < unat (level st) \<and> unat (level st) \<le> n) \<and>
    (handler st = Element2 \<longrightarrow> d = 1 \<and> level st = 1 \<and> 1 \<le> n) \<and>
    (handler st \<in> {Element3, Element4, Element5} \<longrightarrow> d = 1) \<and>
    (handler st \<notin> {Element2, Element3, Element4, Element5, Element6, Element7, Error}
       \<longrightarrow> d = 0)"

type_synonym ghost_state = "prolog_state \<times> int \<times> nat"

definition ghost_step :: "encoding \<Rightarrow> ghost_state \<Rightarrow> token \<Rightarrow> int \<times> ghost_state" where
  "ghost_step enc g tok =
    (case g of (st, d, n) \<Rightarrow>
       let (r, st') = role_step enc st tok in (r, (st', group_depth d r, Suc n)))"

definition ghost_inv :: "ghost_state \<Rightarrow> bool" where
  "ghost_inv g \<longleftrightarrow> (case g of (st, d, n) \<Rightarrow> n < 2 ^ 32 \<longrightarrow> depth_inv st d n)"

lemma unat_inc: "unat (w :: u32) \<le> n \<Longrightarrow> Suc n < 2 ^ 32 \<Longrightarrow> unat (w + 1) = Suc (unat w)"
  by (simp add: unat_word_ariths)

lemma unat_dec: "0 < unat (w :: u32) \<Longrightarrow> unat (w - 1) = unat w - 1"
  by (metis One_nat_def Suc_leI unat_1 unat_sub word_le_nat_alt)


lemma group_depth_open: "group_depth d XML_ROLE_GROUP_OPEN = d + 1"
  by (simp add: group_depth_def)

lemma group_depth_close:
  "group_depth d XML_ROLE_GROUP_CLOSE = d - 1"
  "group_depth d XML_ROLE_GROUP_CLOSE_REP = d - 1"
  "group_depth d XML_ROLE_GROUP_CLOSE_OPT = d - 1"
  "group_depth d XML_ROLE_GROUP_CLOSE_PLUS = d - 1"
  by (simp_all add: group_depth_def)

lemma group_depth_other:
  "r < XML_ROLE_GROUP_OPEN \<or> XML_ROLE_GROUP_CLOSE_PLUS < r \<Longrightarrow> group_depth d r = d"
  by (auto simp: group_depth_def)

lemmas group_depth_simps = group_depth_open group_depth_close group_depth_other

lemma attlist2_role:
  "fst (attlist2 st tok ts enc) < XML_ROLE_GROUP_OPEN \<or>
   XML_ROLE_GROUP_CLOSE_PLUS < fst (attlist2 st tok ts enc)"
proof (cases "match_type enc ts 0 attlist_types")
  case (Some i)
  then have "i < 8" using match_type_bounds [OF Some] by (simp add: attlist_types_def)
  with Some show ?thesis by (simp add: attlist2_def common_def)
qed (simp add: attlist2_def common_def)

lemma role_outside_group:
  assumes "role_none_set st"
    and "handler st \<notin> {Element1, Element2, Element3, Element4, Element5, Element6, Element7}"
  shows "fst (XmlTokenRole st tok ts enc) < XML_ROLE_GROUP_OPEN \<or>
    XML_ROLE_GROUP_CLOSE_PLUS < fst (XmlTokenRole st tok ts enc)"
proof (cases "handler st = Attlist2")
  case True
  then show ?thesis using attlist2_role [of st tok ts enc] by (simp add: XmlTokenRole_def)
next
  case False
  with assms show ?thesis
   by (cases "handler st"; simp add: role_none_set_def step_simps; linarith?)
qed

lemma handler_outside_group:
  assumes "handler st \<notin> {Element1, Element2, Element3, Element4, Element5, Element6, Element7}"
  shows "handler (snd (XmlTokenRole st tok ts enc)) \<notin>
      {Element2, Element3, Element4, Element5, Element6, Element7}"
    using assms
   by (cases "handler st";
      simp add: step_simps split: option.split)

lemma step_Element1:
  assumes "handler st = Element1"
  shows "case XmlTokenRole st tok ts enc of (r, st') \<Rightarrow>
    (group_depth d r = d \<and> handler st' \<in> {Element1, DeclClose, Error}) \<or>
    (group_depth d r = d + 1 \<and> handler st' = Element2 \<and> level st' = 1)"
  using assms by (simp add: step_simps group_depth_simps)

lemma step_Element2:
  assumes "handler st = Element2"
  shows "case XmlTokenRole st tok ts enc of (r, st') \<Rightarrow>
    (group_depth d r = d \<and> level st' = level st \<and>
       handler st' \<in> {Element2, Element3, Element7, Error}) \<or>
    (group_depth d r = d + 1 \<and> handler st' = Element6 \<and> level st' = 2)"
  using assms by (simp add: step_simps group_depth_simps)

lemma step_Element345:
  assumes "handler st \<in> {Element3, Element4, Element5}"
  shows "case XmlTokenRole st tok ts enc of (r, st') \<Rightarrow>
    (group_depth d r = d \<and> handler st' \<in> {Element3, Element4, Element5, Error}) \<or>
    (group_depth d r = d - 1 \<and> handler st' = DeclClose)"
  using assms by (elim insertE; simp add: step_simps group_depth_simps)

lemma step_Element67:
  assumes "handler st \<in> {Element6, Element7}"
  shows "case XmlTokenRole st tok ts enc of (r, st') \<Rightarrow>
    (group_depth d r = d \<and> level st' = level st \<and> handler st' \<in> {Element6, Element7, Error}) \<or>
    (group_depth d r = d + 1 \<and> handler st' = Element6 \<and> level st' = level st + 1) \<or>
    (group_depth d r = d - 1 \<and> level st' = level st - 1 \<and>
      handler st' = (if level st - 1 = 0 then DeclClose else Element7))"
  using assms by (elim insertE; simp add: step_simps group_depth_simps)


lemma depth_inv_67:
  "depth_inv st d n \<Longrightarrow> handler st \<in> {Element6, Element7} \<Longrightarrow>
   d = int (unat (level st)) \<and> 0 < unat (level st) \<and> unat (level st) \<le> n"
  unfolding depth_inv_def by blast

lemma depth_inv_step:
  assumes inv: "depth_inv st d n" and n: "Suc n < 2 ^ 32"
  shows "case XmlTokenRole st tok ts enc of (r, st') \<Rightarrow> depth_inv st' (group_depth d r) (Suc n)"
proof (cases "XmlTokenRole st tok ts enc")
  case step: (Pair r st')
  from inv have rn: "role_none_set st" by (simp add: depth_inv_def)
  have rn': "role_none_set st'"
    using XmlTokenRole_role_none_set [OF rn, of tok ts enc] step by simp
  consider (out) "handler st \<notin> {Element1, Element2, Element3, Element4, Element5, Element6, Element7}"
    | (e1) "handler st = Element1" | (e2) "handler st = Element2"
    | (e345) "handler st \<in> {Element3, Element4, Element5}"
    | (e67) "handler st \<in> {Element6, Element7}" by auto
  then have "depth_inv st' (group_depth d r) (Suc n)"
  proof cases
    case out
    have "group_depth d r = d"
      using role_outside_group [OF rn out, of tok ts enc] step by (simp add: group_depth_other)
    moreover have "handler st' \<notin> {Element2, Element3, Element4, Element5, Element6, Element7}"
      using handler_outside_group [OF out, of tok ts enc] step by simp
    moreover have "handler st = Error \<Longrightarrow> handler st' = Error"
      using step by (simp add: Error_absorbs)
    ultimately show ?thesis using inv rn' out by (auto simp: depth_inv_def)
  next
    case e1
    then show ?thesis
      using step_Element1 [OF e1, of d tok ts enc] step inv rn' by (auto simp: depth_inv_def)
  next
    case e2
    then show ?thesis
      using step_Element2 [OF e2, of d tok ts enc] step inv rn' by (auto simp: depth_inv_def)
  next
    case e345
    with inv have d: "d = 1" by (auto simp: depth_inv_def)
    from step_Element345 [OF e345, of d tok ts enc] step
    consider "group_depth d r = d" "handler st' \<in> {Element3, Element4, Element5, Error}"
      | "group_depth d r = d - 1" "handler st' = DeclClose" by auto
    then show ?thesis using d rn' by cases (auto simp: depth_inv_def)
  next
    case e67
    from depth_inv_67 [OF inv e67]
    have l: "d = int (unat (level st))" "0 < unat (level st)" "unat (level st) \<le> n"
      by simp_all
    from step_Element67 [OF e67, of d tok ts enc] step
    consider (same) "group_depth d r = d" "level st' = level st"
        "handler st' \<in> {Element6, Element7, Error}"
      | (up) "group_depth d r = d + 1" "handler st' = Element6" "level st' = level st + 1"
      | (down) "group_depth d r = d - 1" "level st' = level st - 1"
        "handler st' = (if level st - 1 = 0 then DeclClose else Element7)" by auto
    then show ?thesis
    proof cases
      case same
      then show ?thesis using l rn' by (auto simp: depth_inv_def)
    next
      case up
      then show ?thesis using l rn' unat_inc [OF l(3) n] by (auto simp: depth_inv_def)
    next
      case down
      have u: "unat (level st') = unat (level st) - 1" using down(2) unat_dec [OF l(2)] by simp
      show ?thesis
      proof (cases "level st - 1 = 0")
        case True
        with u down(2) have "unat (level st) = 1" using l(2) by simp
        with down True l(1) rn' show ?thesis by (simp add: depth_inv_def)
      next
        case False
        then have "0 < unat (level st')" using down(2) by (simp add: unat_gt_0)
        moreover have "d - 1 = int (unat (level st'))" "unat (level st') \<le> Suc n"
          using u l by linarith+
        ultimately show ?thesis using down False rn' by (simp add: depth_inv_def)
      qed
    qed
  qed
  with step show ?thesis by simp
qed

interpretation ghost: mealy_inv "ghost_step enc" ghost_inv for enc
proof unfold_locales
  fix g :: ghost_state and tok
  assume g: "ghost_inv g"
  obtain st d n where [simp]: "g = (st, d, n)" by (cases g)
  show "ghost_inv (snd (ghost_step enc g tok))"
  proof (cases "Suc n < 2 ^ 32")
    case True
    with g have "depth_inv st d n" by (simp add: ghost_inv_def)
    from depth_inv_step [OF this True, of "fst tok" "snd tok" enc] show ?thesis
      by (simp add: ghost_inv_def ghost_step_def role_step_def Let_def split: prod.splits)
  qed (simp add: ghost_inv_def ghost_step_def Let_def split: prod.splits)
qed

lemma ghost_run:
  "mealy_run (ghost_step enc) (st, d, n) toks =
    (run_out (role_step enc) st toks,
     (run_state (role_step enc) st toks,
      foldl group_depth d (run_out (role_step enc) st toks), n + length toks))"
proof (induction toks arbitrary: st d n)
  case (Cons tok toks)
  then show ?case
    by (simp add: ghost_step_def Let_def split: prod.splits)
qed simp

lemma depth_inv_run:
  assumes "handler st \<notin> {Element2, Element3, Element4, Element5, Element6, Element7, DeclClose}"
    and "length toks < 2 ^ 32"
  shows "depth_inv (run_state (role_step enc) st toks)
    (foldl group_depth 0 (run_out (role_step enc) st toks)) (length toks)"
proof -
  have "ghost_inv (st, 0, 0)"
    using assms(1) by (auto simp: ghost_inv_def depth_inv_def role_none_set_def)
  then have "ghost_inv (run_state (ghost_step enc) (st, 0, 0) toks)" by (rule ghost.run_inv)
  with assms(2) show ?thesis by (simp add: ghost_run ghost_inv_def)
qed

end
