(* ===== verification/Xml_Grammar.thy ===== *)
theory Xml_Grammar
  imports Xml_Role_Inv
begin

text \<open>
  The prolog machine as an acceptor. Abstract syntax for content models, markup
  declarations and the document type declaration, the token sequences that write them
  and the roles they must receive; for each the machine hands out exactly those roles
  and returns to where it was.
\<close>

section \<open>Bytes of keywords\<close>

lemma unat_of_char: "unat (of_char c :: byte) = of_char c"
proof -
  have "(of_char c :: byte) = of_nat (of_char c)" by (rule of_nat_of_char [symmetric])
  then have "unat (of_char c :: byte) = of_char c mod 2 ^ 8" by (simp only: unat_of_nat) simp
  then show ?thesis by simp
qed

lemma ascii_inj [simp]: "ascii s = ascii t \<longleftrightarrow> s = t"
proof -
  have "inj (of_char :: char \<Rightarrow> byte)"
    by (rule injI) (metis of_char_eq_iff unat_of_char)
  then show ?thesis by (simp add: ascii_def inj_map_eq_map)
qed

lemma ascii_append: "ascii (s @ t) = ascii s @ ascii t"
  by (simp add: ascii_def)

lemma drop_spell:
  "drop (length as * MIN_BYTES_PER_CHAR enc) (spell enc (as @ bs)) = spell enc bs"
  by (simp add: spell_append length_spell)

text \<open>Texts of the tokens that carry a keyword: \<open>KW\<close>, \<open><!KW\<close> and \<open>#KW\<close>.\<close>

definition decl_text :: "encoding \<Rightarrow> byte list \<Rightarrow> byte list" where
  "decl_text enc kw = spell enc (ascii ''<!'' @ kw)"

definition pound_text :: "encoding \<Rightarrow> byte list \<Rightarrow> byte list" where
  "pound_text enc kw = spell enc (ascii ''#'' @ kw)"

lemma match_keyword [simp]: "XmlNameMatchesAscii enc (spell enc as) bs \<longleftrightarrow> as = bs"
  by (simp add: XmlNameMatchesAscii_iff spell_inj)

lemma match_decl [simp]:
  "XmlNameMatchesAscii enc (drop (2 * MIN_BYTES_PER_CHAR enc) (decl_text enc as)) bs \<longleftrightarrow> as = bs"
  using drop_spell [of "ascii ''<!''" enc as] by (simp add: decl_text_def numeral_2_eq_2)

lemma match_pound [simp]:
  "XmlNameMatchesAscii enc (drop (MIN_BYTES_PER_CHAR enc) (pound_text enc as)) bs \<longleftrightarrow> as = bs"
  using drop_spell [of "ascii ''#''" enc as] by (simp add: pound_text_def)

lemma match_type_keyword:
  assumes "i < length kws" and "distinct kws"
  shows "match_type enc (spell enc (kws ! i)) n kws = Some (n + int i)"
  using assms
proof (induction kws arbitrary: i n)
  case (Cons kw kws)
  show ?case
  proof (cases i)
    case (Suc j)
    with Cons.prems have "kws ! j \<noteq> kw" by (auto simp: in_set_conv_nth)
    with Suc Cons show ?thesis by simp
  qed simp
qed simp

lemma match_type_none:
  "kw \<notin> set kws \<Longrightarrow> match_type enc (spell enc kw) n kws = None"
  by (induction kws arbitrary: n) auto

lemma distinct_attlist_types: "distinct attlist_types"
  by (simp add: attlist_types_def KW_defs)

lemma NOTATION_no_type: "KW_NOTATION \<notin> set attlist_types"
  by (simp add: attlist_types_def KW_defs)

section \<open>Running over token lists\<close>

abbreviation role_run :: "encoding \<Rightarrow> prolog_state \<Rightarrow> token list \<Rightarrow> int list \<times> prolog_state" where
  "role_run enc \<equiv> mealy_run (role_step enc)"

lemma role_run_append:
  "role_run enc st us = (rs, st') \<Longrightarrow> role_run enc st' vs = (rs', st'') \<Longrightarrow>
   role_run enc st (us @ vs) = (rs @ rs', st'')"
  by (simp add: mealy_run_append)

lemma handler_idem: "handler st = h \<Longrightarrow> st\<lparr>handler := h\<rparr> = st"
  by (cases st) simp

section \<open>Content models\<close>

datatype quant = Once | Opt | Rep | Plus

datatype sep = Comma | Bar

datatype cp = Leaf "byte list" quant | Group items quant
and items = Single cp | Many cp sep items

fun name_tok :: "quant \<Rightarrow> int" where
  "name_tok Once = XML_TOK_NAME"
| "name_tok Opt = XML_TOK_NAME_QUESTION"
| "name_tok Rep = XML_TOK_NAME_ASTERISK"
| "name_tok Plus = XML_TOK_NAME_PLUS"

fun close_tok :: "quant \<Rightarrow> int" where
  "close_tok Once = XML_TOK_CLOSE_PAREN"
| "close_tok Opt = XML_TOK_CLOSE_PAREN_QUESTION"
| "close_tok Rep = XML_TOK_CLOSE_PAREN_ASTERISK"
| "close_tok Plus = XML_TOK_CLOSE_PAREN_PLUS"

fun sep_tok :: "sep \<Rightarrow> int" where
  "sep_tok Comma = XML_TOK_COMMA"
| "sep_tok Bar = XML_TOK_OR"

fun name_role :: "quant \<Rightarrow> int" where
  "name_role Once = XML_ROLE_CONTENT_ELEMENT"
| "name_role Opt = XML_ROLE_CONTENT_ELEMENT_OPT"
| "name_role Rep = XML_ROLE_CONTENT_ELEMENT_REP"
| "name_role Plus = XML_ROLE_CONTENT_ELEMENT_PLUS"

fun close_role :: "quant \<Rightarrow> int" where
  "close_role Once = XML_ROLE_GROUP_CLOSE"
| "close_role Opt = XML_ROLE_GROUP_CLOSE_OPT"
| "close_role Rep = XML_ROLE_GROUP_CLOSE_REP"
| "close_role Plus = XML_ROLE_GROUP_CLOSE_PLUS"

fun sep_role :: "sep \<Rightarrow> int" where
  "sep_role Comma = XML_ROLE_GROUP_SEQUENCE"
| "sep_role Bar = XML_ROLE_GROUP_CHOICE"

primrec cp_toks :: "cp \<Rightarrow> token list" and items_toks :: "items \<Rightarrow> token list" where
  "cp_toks (Leaf nm q) = [(name_tok q, nm)]"
| "cp_toks (Group xs q) = (XML_TOK_OPEN_PAREN, []) # items_toks xs @ [(close_tok q, [])]"
| "items_toks (Single c) = cp_toks c"
| "items_toks (Many c s xs) = cp_toks c @ (sep_tok s, []) # items_toks xs"

primrec cp_roles :: "cp \<Rightarrow> int list" and items_roles :: "items \<Rightarrow> int list" where
  "cp_roles (Leaf nm q) = [name_role q]"
| "cp_roles (Group xs q) = XML_ROLE_GROUP_OPEN # items_roles xs @ [close_role q]"
| "items_roles (Single c) = cp_roles c"
| "items_roles (Many c s xs) = cp_roles c @ sep_role s # items_roles xs"

primrec cp_depth :: "cp \<Rightarrow> nat" and items_depth :: "items \<Rightarrow> nat" where
  "cp_depth (Leaf nm q) = 0"
| "cp_depth (Group xs q) = Suc (items_depth xs)"
| "items_depth (Single c) = cp_depth c"
| "items_depth (Many c s xs) = max (cp_depth c) (items_depth xs)"

text \<open>A state in which the next token may begin a content particle.\<close>

definition at_particle :: "prolog_state \<Rightarrow> bool" where
  "at_particle st \<longleftrightarrow>
    0 < unat (level st) \<and> (handler st = Element6 \<or> handler st = Element2 \<and> level st = 1)"

lemma run_leaf:
  "at_particle st \<Longrightarrow>
   role_step enc st (name_tok q, nm) = (name_role q, st\<lparr>handler := Element7\<rparr>)"
  by (cases q) (auto simp: at_particle_def role_step_def step_simps)

lemma run_open:
  "at_particle st \<Longrightarrow> role_step enc st (XML_TOK_OPEN_PAREN, ts) =
     (XML_ROLE_GROUP_OPEN, st\<lparr>handler := Element6, level := level st + 1\<rparr>)"
  by (auto simp: at_particle_def role_step_def step_simps)

lemma run_close_inner:
  "handler st = Element7 \<Longrightarrow> level st \<noteq> 1 \<Longrightarrow>
   role_step enc st (close_tok q, ts) = (close_role q, st\<lparr>level := level st - 1\<rparr>)"
  by (cases q) (auto simp: role_step_def step_simps)

lemma run_close_outer:
  "handler st = Element7 \<Longrightarrow> level st = 1 \<Longrightarrow>
   role_step enc st (close_tok q, ts) =
     (close_role q, st\<lparr>level := 0, handler := DeclClose, role_none := XML_ROLE_ELEMENT_NONE\<rparr>)"
  by (cases q) (auto simp: role_step_def step_simps)

lemma run_sep:
  "handler st = Element7 \<Longrightarrow>
   role_step enc st (sep_tok s, ts) = (sep_role s, st\<lparr>handler := Element6\<rparr>)"
  by (cases s) (auto simp: role_step_def step_simps)

lemma run_particle:
  shows "at_particle st \<Longrightarrow> unat (level st) + cp_depth c < 2 ^ 32 \<Longrightarrow>
      role_run enc st (cp_toks c) = (cp_roles c, st\<lparr>handler := Element7\<rparr>)"
    and "at_particle st \<Longrightarrow> unat (level st) + items_depth xs < 2 ^ 32 \<Longrightarrow>
      role_run enc st (items_toks xs) = (items_roles xs, st\<lparr>handler := Element7\<rparr>)"
proof (induction c and xs arbitrary: st and st)
  case (Leaf nm q)
  then show ?case by (simp add: run_leaf)
next
  case (Group xs q)
  let ?st = "st\<lparr>handler := Element6, level := level st + 1\<rparr>"
  have u: "unat (level st + 1) = Suc (unat (level st))"
    using Group.prems(2) by (intro unat_inc [of _ "unat (level st)"]) simp_all
  then have inner: "role_run enc ?st (items_toks xs) = (items_roles xs, ?st\<lparr>handler := Element7\<rparr>)"
    using Group.prems(2) by (intro Group.IH) (simp_all add: at_particle_def)
  have "level st + 1 \<noteq> 1"
    using u Group.prems(1) by (auto simp: at_particle_def)
  then have close: "role_step enc (?st\<lparr>handler := Element7\<rparr>) (close_tok q, []) =
      (close_role q, st\<lparr>handler := Element7\<rparr>)"
    by (subst run_close_inner) simp_all
  show ?case
    using Group.prems(1) inner close by (simp add: run_open mealy_run_append)
next
  case (Single c)
  then show ?case by simp
next
  case (Many c s xs)
  have "role_run enc st (cp_toks c) = (cp_roles c, st\<lparr>handler := Element7\<rparr>)"
    using Many.prems by (intro Many.IH(1)) simp_all
  moreover have "role_run enc (st\<lparr>handler := Element6\<rparr>) (items_toks xs) =
      (items_roles xs, (st\<lparr>handler := Element6\<rparr>)\<lparr>handler := Element7\<rparr>)"
    using Many.prems by (intro Many.IH(2)) (auto simp: at_particle_def)
  ultimately show ?case by (simp add: mealy_run_append run_sep)
qed


section \<open>Declarations\<close>

text \<open>
  Abstract syntax of the markup declarations of a document type declaration, with
  the token sequence that writes each (white space left out) and the roles it must
  receive. Names, literals and enumeration values are the bytes of their tokens; an
  attribute type keyword is given by its place in \<^const>\<open>attlist_types\<close>.
\<close>

datatype external_id = System_id "byte list" | Public_id "byte list" "byte list"

datatype content =
  Empty_content | Any_content
| Mixed_content "byte list list" bool
| Children "items" quant

datatype att_type =
  Keyword_type nat
| Enum_type "byte list" "byte list list"
| Notation_type "byte list" "byte list list"

datatype att_default =
  Implied_default | Required_default | Fixed_default "byte list" | Value_default "byte list"

datatype attdef = AttDef "byte list" att_type att_default

datatype decl =
  Element_decl "byte list" content
| Attlist_decl "byte list" "attdef list"
| Entity_value "byte list" "byte list"
| Entity_external "byte list" external_id "byte list option"
| Param_value "byte list" "byte list"
| Param_external "byte list" external_id
| Notation_system "byte list" "byte list"
| Notation_public "byte list" "byte list" "byte list option"
| PI_decl "byte list"
| Comment_decl "byte list"
| Param_ref "byte list"

datatype doctype = Doctype "byte list" "external_id option" "decl list option"

abbreviation close_decl :: token where "close_decl \<equiv> (XML_TOK_DECL_CLOSE, [])"

fun external_toks :: "encoding \<Rightarrow> external_id \<Rightarrow> token list" where
  "external_toks enc (System_id s) = [(XML_TOK_NAME, spell enc KW_SYSTEM), (XML_TOK_LITERAL, s)]"
| "external_toks enc (Public_id p s) =
    [(XML_TOK_NAME, spell enc KW_PUBLIC), (XML_TOK_LITERAL, p), (XML_TOK_LITERAL, s)]"

fun content_toks :: "encoding \<Rightarrow> content \<Rightarrow> token list" where
  "content_toks enc Empty_content = [(XML_TOK_NAME, spell enc KW_EMPTY)]"
| "content_toks enc Any_content = [(XML_TOK_NAME, spell enc KW_ANY)]"
| "content_toks enc (Mixed_content nms star) =
    (XML_TOK_OPEN_PAREN, []) # (XML_TOK_POUND_NAME, pound_text enc KW_PCDATA) #
    concat (map (\<lambda>nm. [(XML_TOK_OR, []), (XML_TOK_NAME, nm)]) nms) @
    [(if star \<or> nms \<noteq> [] then XML_TOK_CLOSE_PAREN_ASTERISK else XML_TOK_CLOSE_PAREN, [])]"
| "content_toks enc (Children xs q) = cp_toks (Group xs q)"

fun content_roles :: "content \<Rightarrow> int list" where
  "content_roles Empty_content = [XML_ROLE_CONTENT_EMPTY]"
| "content_roles Any_content = [XML_ROLE_CONTENT_ANY]"
| "content_roles (Mixed_content nms star) =
    XML_ROLE_GROUP_OPEN # XML_ROLE_CONTENT_PCDATA #
    concat (map (\<lambda>nm. [XML_ROLE_ELEMENT_NONE, XML_ROLE_CONTENT_ELEMENT]) nms) @
    [if star \<or> nms \<noteq> [] then XML_ROLE_GROUP_CLOSE_REP else XML_ROLE_GROUP_CLOSE]"
| "content_roles (Children xs q) = cp_roles (Group xs q)"

fun enum_toks :: "int \<Rightarrow> byte list \<Rightarrow> byte list list \<Rightarrow> token list" where
  "enum_toks t v vs =
    (XML_TOK_OPEN_PAREN, []) # (t, v) # concat (map (\<lambda>w. [(XML_TOK_OR, []), (t, w)]) vs) @
    [(XML_TOK_CLOSE_PAREN, [])]"

fun enum_roles :: "int \<Rightarrow> byte list list \<Rightarrow> int list" where
  "enum_roles r vs =
    XML_ROLE_ATTLIST_NONE # r # concat (map (\<lambda>w. [XML_ROLE_ATTLIST_NONE, r]) vs) @
    [XML_ROLE_ATTLIST_NONE]"

fun att_type_toks :: "encoding \<Rightarrow> att_type \<Rightarrow> token list" where
  "att_type_toks enc (Keyword_type i) = [(XML_TOK_NAME, spell enc (attlist_types ! i))]"
| "att_type_toks enc (Enum_type v vs) = enum_toks XML_TOK_NMTOKEN v vs"
| "att_type_toks enc (Notation_type v vs) =
    (XML_TOK_NAME, spell enc KW_NOTATION) # enum_toks XML_TOK_NAME v vs"

fun att_type_roles :: "att_type \<Rightarrow> int list" where
  "att_type_roles (Keyword_type i) = [XML_ROLE_ATTRIBUTE_TYPE_CDATA + int i]"
| "att_type_roles (Enum_type v vs) = enum_roles XML_ROLE_ATTRIBUTE_ENUM_VALUE vs"
| "att_type_roles (Notation_type v vs) =
    XML_ROLE_ATTLIST_NONE # enum_roles XML_ROLE_ATTRIBUTE_NOTATION_VALUE vs"

fun att_default_toks :: "encoding \<Rightarrow> att_default \<Rightarrow> token list" where
  "att_default_toks enc Implied_default = [(XML_TOK_POUND_NAME, pound_text enc KW_IMPLIED)]"
| "att_default_toks enc Required_default = [(XML_TOK_POUND_NAME, pound_text enc KW_REQUIRED)]"
| "att_default_toks enc (Fixed_default v) =
    [(XML_TOK_POUND_NAME, pound_text enc KW_FIXED), (XML_TOK_LITERAL, v)]"
| "att_default_toks enc (Value_default v) = [(XML_TOK_LITERAL, v)]"

fun att_default_roles :: "att_default \<Rightarrow> int list" where
  "att_default_roles Implied_default = [XML_ROLE_IMPLIED_ATTRIBUTE_VALUE]"
| "att_default_roles Required_default = [XML_ROLE_REQUIRED_ATTRIBUTE_VALUE]"
| "att_default_roles (Fixed_default v) = [XML_ROLE_ATTLIST_NONE, XML_ROLE_FIXED_ATTRIBUTE_VALUE]"
| "att_default_roles (Value_default v) = [XML_ROLE_DEFAULT_ATTRIBUTE_VALUE]"

fun attdef_toks :: "encoding \<Rightarrow> attdef \<Rightarrow> token list" where
  "attdef_toks enc (AttDef nm ty df) =
    (XML_TOK_NAME, nm) # att_type_toks enc ty @ att_default_toks enc df"

fun attdef_roles :: "attdef \<Rightarrow> int list" where
  "attdef_roles (AttDef nm ty df) =
    XML_ROLE_ATTRIBUTE_NAME # att_type_roles ty @ att_default_roles df"

fun decl_toks :: "encoding \<Rightarrow> decl \<Rightarrow> token list" where
  "decl_toks enc (Element_decl nm c) =
    [(XML_TOK_DECL_OPEN, decl_text enc KW_ELEMENT), (XML_TOK_NAME, nm)] @ content_toks enc c @
    [close_decl]"
| "decl_toks enc (Attlist_decl nm ds) =
    [(XML_TOK_DECL_OPEN, decl_text enc KW_ATTLIST), (XML_TOK_NAME, nm)] @
    concat (map (attdef_toks enc) ds) @ [close_decl]"
| "decl_toks enc (Entity_value nm v) =
    [(XML_TOK_DECL_OPEN, decl_text enc KW_ENTITY), (XML_TOK_NAME, nm), (XML_TOK_LITERAL, v),
     close_decl]"
| "decl_toks enc (Entity_external nm x nd) =
    [(XML_TOK_DECL_OPEN, decl_text enc KW_ENTITY), (XML_TOK_NAME, nm)] @ external_toks enc x @
    (case nd of None \<Rightarrow> []
     | Some n \<Rightarrow> [(XML_TOK_NAME, spell enc KW_NDATA), (XML_TOK_NAME, n)]) @ [close_decl]"
| "decl_toks enc (Param_value nm v) =
    [(XML_TOK_DECL_OPEN, decl_text enc KW_ENTITY), (XML_TOK_PERCENT, []), (XML_TOK_NAME, nm),
     (XML_TOK_LITERAL, v), close_decl]"
| "decl_toks enc (Param_external nm x) =
    [(XML_TOK_DECL_OPEN, decl_text enc KW_ENTITY), (XML_TOK_PERCENT, []), (XML_TOK_NAME, nm)] @
    external_toks enc x @ [close_decl]"
| "decl_toks enc (Notation_system nm s) =
    [(XML_TOK_DECL_OPEN, decl_text enc KW_NOTATION), (XML_TOK_NAME, nm),
     (XML_TOK_NAME, spell enc KW_SYSTEM), (XML_TOK_LITERAL, s), close_decl]"
| "decl_toks enc (Notation_public nm p s) =
    [(XML_TOK_DECL_OPEN, decl_text enc KW_NOTATION), (XML_TOK_NAME, nm),
     (XML_TOK_NAME, spell enc KW_PUBLIC), (XML_TOK_LITERAL, p)] @
    (case s of None \<Rightarrow> [] | Some s \<Rightarrow> [(XML_TOK_LITERAL, s)]) @ [close_decl]"
| "decl_toks enc (PI_decl t) = [(XML_TOK_PI, t)]"
| "decl_toks enc (Comment_decl t) = [(XML_TOK_COMMENT, t)]"
| "decl_toks enc (Param_ref t) = [(XML_TOK_PARAM_ENTITY_REF, t)]"

fun external_roles :: "int \<Rightarrow> int \<Rightarrow> int \<Rightarrow> external_id \<Rightarrow> int list" where
  "external_roles none pub sys (System_id s) = [none, sys]"
| "external_roles none pub sys (Public_id p s) = [none, pub, sys]"

abbreviation entity_id_roles :: "external_id \<Rightarrow> int list" where
  "entity_id_roles \<equiv>
    external_roles XML_ROLE_ENTITY_NONE XML_ROLE_ENTITY_PUBLIC_ID XML_ROLE_ENTITY_SYSTEM_ID"

abbreviation doctype_id_roles :: "external_id \<Rightarrow> int list" where
  "doctype_id_roles \<equiv>
    external_roles XML_ROLE_DOCTYPE_NONE XML_ROLE_DOCTYPE_PUBLIC_ID XML_ROLE_DOCTYPE_SYSTEM_ID"

fun decl_roles :: "decl \<Rightarrow> int list" where
  "decl_roles (Element_decl nm c) =
    [XML_ROLE_ELEMENT_NONE, XML_ROLE_ELEMENT_NAME] @ content_roles c @ [XML_ROLE_ELEMENT_NONE]"
| "decl_roles (Attlist_decl nm ds) =
    [XML_ROLE_ATTLIST_NONE, XML_ROLE_ATTLIST_ELEMENT_NAME] @ concat (map attdef_roles ds) @
    [XML_ROLE_ATTLIST_NONE]"
| "decl_roles (Entity_value nm v) =
    [XML_ROLE_ENTITY_NONE, XML_ROLE_GENERAL_ENTITY_NAME, XML_ROLE_ENTITY_VALUE,
     XML_ROLE_ENTITY_NONE]"
| "decl_roles (Entity_external nm x nd) =
    [XML_ROLE_ENTITY_NONE, XML_ROLE_GENERAL_ENTITY_NAME] @ entity_id_roles x @
    (case nd of None \<Rightarrow> [XML_ROLE_ENTITY_COMPLETE]
     | Some n \<Rightarrow> [XML_ROLE_ENTITY_NONE, XML_ROLE_ENTITY_NOTATION_NAME, XML_ROLE_ENTITY_NONE])"
| "decl_roles (Param_value nm v) =
    [XML_ROLE_ENTITY_NONE, XML_ROLE_ENTITY_NONE, XML_ROLE_PARAM_ENTITY_NAME,
     XML_ROLE_ENTITY_VALUE, XML_ROLE_ENTITY_NONE]"
| "decl_roles (Param_external nm x) =
    [XML_ROLE_ENTITY_NONE, XML_ROLE_ENTITY_NONE, XML_ROLE_PARAM_ENTITY_NAME] @
    entity_id_roles x @ [XML_ROLE_ENTITY_COMPLETE]"
| "decl_roles (Notation_system nm s) =
    [XML_ROLE_NOTATION_NONE, XML_ROLE_NOTATION_NAME, XML_ROLE_NOTATION_NONE,
     XML_ROLE_NOTATION_SYSTEM_ID, XML_ROLE_NOTATION_NONE]"
| "decl_roles (Notation_public nm p s) =
    [XML_ROLE_NOTATION_NONE, XML_ROLE_NOTATION_NAME, XML_ROLE_NOTATION_NONE,
     XML_ROLE_NOTATION_PUBLIC_ID] @
    (case s of None \<Rightarrow> [XML_ROLE_NOTATION_NO_SYSTEM_ID]
     | Some s \<Rightarrow> [XML_ROLE_NOTATION_SYSTEM_ID, XML_ROLE_NOTATION_NONE])"
| "decl_roles (PI_decl t) = [XML_ROLE_PI]"
| "decl_roles (Comment_decl t) = [XML_ROLE_COMMENT]"
| "decl_roles (Param_ref t) = [XML_ROLE_PARAM_ENTITY_REF]"

text \<open>Bounds: an attribute type keyword exists, groups nest less than \<open>2 ^ 32\<close> deep.\<close>

fun content_ok :: "content \<Rightarrow> bool" where
  "content_ok (Children xs q) \<longleftrightarrow> Suc (items_depth xs) < 2 ^ 32"
| "content_ok _ \<longleftrightarrow> True"

fun att_type_ok :: "att_type \<Rightarrow> bool" where
  "att_type_ok (Keyword_type i) \<longleftrightarrow> i < length attlist_types"
| "att_type_ok _ \<longleftrightarrow> True"

fun attdef_ok :: "attdef \<Rightarrow> bool" where
  "attdef_ok (AttDef nm ty df) \<longleftrightarrow> att_type_ok ty"

fun decl_ok :: "decl \<Rightarrow> bool" where
  "decl_ok (Element_decl nm c) \<longleftrightarrow> content_ok c"
| "decl_ok (Attlist_decl nm ds) \<longleftrightarrow> list_all attdef_ok ds"
| "decl_ok _ \<longleftrightarrow> True"

section \<open>The machine accepts every declaration\<close>

lemma run_mixed_tail:
  "handler st = Element5 \<Longrightarrow>
   role_run enc st (concat (map (\<lambda>nm. [(XML_TOK_OR, []), (XML_TOK_NAME, nm)]) nms)) =
     (concat (map (\<lambda>nm. [XML_ROLE_ELEMENT_NONE, XML_ROLE_CONTENT_ELEMENT]) nms), st)"
  by (induction nms) (simp_all add: role_step_def step_simps handler_idem)

lemma run_content:
  assumes "handler st = Element1" and "content_ok c"
  shows "\<exists>l. role_run enc st (content_toks enc c) =
    (content_roles c, st\<lparr>handler := DeclClose, role_none := XML_ROLE_ELEMENT_NONE, level := l\<rparr>)"
proof (cases c)
  case (Mixed_content nms star)
  show ?thesis
  proof (cases nms)
    case Nil
    with assms(1) Mixed_content show ?thesis
      by (intro exI [of _ 1]) (simp add: role_step_def step_simps)
  next
    case (Cons nm nms')
    let ?st = "st\<lparr>level := 1, handler := Element5\<rparr>"
    have "role_run enc ?st (concat (map (\<lambda>nm. [(XML_TOK_OR, []), (XML_TOK_NAME, nm)]) nms')) =
      (concat (map (\<lambda>nm. [XML_ROLE_ELEMENT_NONE, XML_ROLE_CONTENT_ELEMENT]) nms'), ?st)"
      by (rule run_mixed_tail) simp
    with assms(1) Mixed_content Cons show ?thesis
      by (intro exI [of _ 1]) (simp add: role_step_def step_simps mealy_run_append)
  qed
next
  case (Children xs q)
  let ?st = "st\<lparr>handler := Element2, level := 1\<rparr>"
  have "role_run enc ?st (items_toks xs) = (items_roles xs, ?st\<lparr>handler := Element7\<rparr>)"
    using assms(2) Children by (intro run_particle(2)) (simp_all add: at_particle_def)
  moreover have "role_step enc st (XML_TOK_OPEN_PAREN, []) = (XML_ROLE_GROUP_OPEN, ?st)"
    using assms(1) by (simp add: role_step_def step_simps)
  moreover have "role_step enc (?st\<lparr>handler := Element7\<rparr>) (close_tok q, []) =
    (close_role q, st\<lparr>handler := DeclClose, role_none := XML_ROLE_ELEMENT_NONE, level := 0\<rparr>)"
    by (subst run_close_outer) simp_all
  ultimately show ?thesis using Children by (auto simp: mealy_run_append)
next
  case Empty_content
  with assms(1) show ?thesis
    by (intro exI [of _ "level st"]) (simp add: role_step_def step_simps)
next
  case Any_content
  with assms(1) show ?thesis
    by (intro exI [of _ "level st"]) (simp add: role_step_def step_simps KW_defs)
qed

lemma run_enum_tail:
  "handler st = Attlist4 \<Longrightarrow>
   role_run enc st (concat (map (\<lambda>w. [(XML_TOK_OR, []), (XML_TOK_NMTOKEN, w)]) vs)) =
     (concat (map (\<lambda>w. [XML_ROLE_ATTLIST_NONE, XML_ROLE_ATTRIBUTE_ENUM_VALUE]) vs), st)"
  by (induction vs) (simp_all add: role_step_def step_simps handler_idem)

lemma run_notation_tail:
  "handler st = Attlist7 \<Longrightarrow>
   role_run enc st (concat (map (\<lambda>w. [(XML_TOK_OR, []), (XML_TOK_NAME, w)]) vs)) =
     (concat (map (\<lambda>w. [XML_ROLE_ATTLIST_NONE, XML_ROLE_ATTRIBUTE_NOTATION_VALUE]) vs), st)"
  by (induction vs) (simp_all add: role_step_def step_simps handler_idem)

lemma run_att_type:
  assumes "handler st = Attlist2" and "att_type_ok ty"
  shows "role_run enc st (att_type_toks enc ty) = (att_type_roles ty, st\<lparr>handler := Attlist8\<rparr>)"
proof (cases ty)
  case (Keyword_type i)
  with assms show ?thesis
    by (simp add: role_step_def step_simps match_type_keyword distinct_attlist_types)
next
  case (Enum_type v vs)
  have "role_run enc (st\<lparr>handler := Attlist4\<rparr>)
      (concat (map (\<lambda>w. [(XML_TOK_OR, []), (XML_TOK_NMTOKEN, w)]) vs)) =
     (concat (map (\<lambda>w. [XML_ROLE_ATTLIST_NONE, XML_ROLE_ATTRIBUTE_ENUM_VALUE]) vs),
      st\<lparr>handler := Attlist4\<rparr>)"
    by (rule run_enum_tail) simp
  with assms(1) Enum_type show ?thesis by (simp add: role_step_def step_simps mealy_run_append)
next
  case (Notation_type v vs)
  have "role_run enc (st\<lparr>handler := Attlist7\<rparr>)
      (concat (map (\<lambda>w. [(XML_TOK_OR, []), (XML_TOK_NAME, w)]) vs)) =
     (concat (map (\<lambda>w. [XML_ROLE_ATTLIST_NONE, XML_ROLE_ATTRIBUTE_NOTATION_VALUE]) vs),
      st\<lparr>handler := Attlist7\<rparr>)"
    by (rule run_notation_tail) simp
  with assms(1) Notation_type show ?thesis
    by (simp add: role_step_def step_simps mealy_run_append match_type_none NOTATION_no_type)
qed

lemma run_att_default:
  assumes "handler st = Attlist8"
  shows "role_run enc st (att_default_toks enc df) =
    (att_default_roles df, st\<lparr>handler := Attlist1\<rparr>)"
  using assms by (cases df) (simp_all add: role_step_def step_simps KW_defs)

lemma run_attdef:
  assumes "handler st = Attlist1" and "attdef_ok d"
  shows "role_run enc st (attdef_toks enc d) = (attdef_roles d, st)"
proof (cases d)
  case (AttDef nm ty df)
  have "role_step enc st (XML_TOK_NAME, nm) = (XML_ROLE_ATTRIBUTE_NAME, st\<lparr>handler := Attlist2\<rparr>)"
    using assms(1) by (simp add: role_step_def step_simps)
  moreover have "role_run enc (st\<lparr>handler := Attlist2\<rparr>) (att_type_toks enc ty @ att_default_toks enc df)
    = (att_type_roles ty @ att_default_roles df, st)"
    using assms AttDef by (simp add: mealy_run_append run_att_type run_att_default)
  ultimately show ?thesis using AttDef by simp
qed

lemma run_attdefs:
  "handler st = Attlist1 \<Longrightarrow> list_all attdef_ok ds \<Longrightarrow>
   role_run enc st (concat (map (attdef_toks enc) ds)) = (concat (map attdef_roles ds), st)"
  by (induction ds) (simp_all add: mealy_run_append run_attdef)

definition at_top :: "prolog_state \<Rightarrow> bool" where
  "at_top st \<longleftrightarrow> handler st = (if documentEntity st then InternalSubset else ExternalSubset1)"

text \<open>Between declarations only the scratch fields of the state may have changed.\<close>

definition decl_kept :: "prolog_state \<Rightarrow> prolog_state \<Rightarrow> bool" where
  "decl_kept st st' \<longleftrightarrow> handler st' = handler st \<and> documentEntity st' = documentEntity st \<and>
    includeLevel st' = includeLevel st \<and> inEntityValue st' = inEntityValue st"

lemma run_decl:
  assumes "at_top st" and "decl_ok d"
  shows "\<exists>st'. role_run enc st (decl_toks enc d) = (decl_roles d, st') \<and> decl_kept st st'"
proof (cases d)
  case (Element_decl nm c)
  obtain l where "role_run enc (st\<lparr>handler := Element1\<rparr>) (content_toks enc c) =
    (content_roles c, st\<lparr>handler := DeclClose, role_none := XML_ROLE_ELEMENT_NONE, level := l\<rparr>)"
    using run_content [of "st\<lparr>handler := Element1\<rparr>" c enc] assms(2) Element_decl by auto
  with assms(1) Element_decl show ?thesis
    by (auto simp: at_top_def decl_kept_def role_step_def step_simps KW_defs mealy_run_append)
next
  case (Attlist_decl nm ds)
  have "role_run enc (st\<lparr>handler := Attlist1\<rparr>) (concat (map (attdef_toks enc) ds)) =
    (concat (map attdef_roles ds), st\<lparr>handler := Attlist1\<rparr>)"
    using assms(2) Attlist_decl by (intro run_attdefs) simp_all
  with assms(1) Attlist_decl show ?thesis
    by (auto simp: at_top_def decl_kept_def role_step_def step_simps KW_defs mealy_run_append)
next
  case (Entity_external nm x nd)
  with assms(1) show ?thesis
    by (cases x; cases nd) (auto simp: at_top_def decl_kept_def role_step_def step_simps KW_defs)
next
  case (Param_external nm x)
  with assms(1) show ?thesis
    by (cases x) (auto simp: at_top_def decl_kept_def role_step_def step_simps KW_defs)
qed (use assms(1) in \<open>auto simp: at_top_def decl_kept_def role_step_def step_simps KW_defs
       split: option.split\<close>)

lemma at_top_kept: "at_top st \<Longrightarrow> decl_kept st st' \<Longrightarrow> at_top st'"
  by (simp add: at_top_def decl_kept_def)

lemma run_decls:
  "at_top st \<Longrightarrow> list_all decl_ok ds \<Longrightarrow>
   \<exists>st'. role_run enc st (concat (map (decl_toks enc) ds)) = (concat (map decl_roles ds), st') \<and>
     decl_kept st st'"
proof (induction ds arbitrary: st)
  case Nil
  then show ?case by (simp add: decl_kept_def)
next
  case (Cons d ds)
  then obtain st1 where 1: "role_run enc st (decl_toks enc d) = (decl_roles d, st1)"
    "decl_kept st st1" using run_decl [of st d enc] by auto
  with Cons.prems have "at_top st1" by (blast intro: at_top_kept)
  then obtain st2 where "role_run enc st1 (concat (map (decl_toks enc) ds)) =
      (concat (map decl_roles ds), st2)" "decl_kept st1 st2"
    using Cons.IH [of st1] Cons.prems by auto
  with 1 show ?case by (auto simp: mealy_run_append decl_kept_def)
qed

section \<open>The document type declaration\<close>

fun doctype_toks :: "encoding \<Rightarrow> doctype \<Rightarrow> token list" where
  "doctype_toks enc (Doctype nm x ds) =
    [(XML_TOK_DECL_OPEN, decl_text enc KW_DOCTYPE), (XML_TOK_NAME, nm)] @
    (case x of None \<Rightarrow> [] | Some e \<Rightarrow> external_toks enc e) @
    (case ds of None \<Rightarrow> []
     | Some ds \<Rightarrow> (XML_TOK_OPEN_BRACKET, []) # concat (map (decl_toks enc) ds) @
        [(XML_TOK_CLOSE_BRACKET, [])]) @
    [close_decl]"

fun doctype_roles :: "doctype \<Rightarrow> int list" where
  "doctype_roles (Doctype nm x ds) =
    [XML_ROLE_DOCTYPE_NONE, XML_ROLE_DOCTYPE_NAME] @
    (case x of None \<Rightarrow> [] | Some e \<Rightarrow> doctype_id_roles e) @
    (case ds of None \<Rightarrow> []
     | Some ds \<Rightarrow> XML_ROLE_DOCTYPE_INTERNAL_SUBSET # concat (map decl_roles ds) @
        [XML_ROLE_DOCTYPE_NONE]) @
    [XML_ROLE_DOCTYPE_CLOSE]"

fun doctype_ok :: "doctype \<Rightarrow> bool" where
  "doctype_ok (Doctype nm x ds) \<longleftrightarrow> (case ds of None \<Rightarrow> True | Some ds \<Rightarrow> list_all decl_ok ds)"

lemma run_subset:
  assumes "handler st = InternalSubset" and "documentEntity st" and "list_all decl_ok ds"
  shows "\<exists>st'. role_run enc st (concat (map (decl_toks enc) ds) @
        [(XML_TOK_CLOSE_BRACKET, []), close_decl]) =
      (concat (map decl_roles ds) @ [XML_ROLE_DOCTYPE_NONE, XML_ROLE_DOCTYPE_CLOSE], st') \<and>
      handler st' = Prolog2"
proof -
  obtain st' where "role_run enc st (concat (map (decl_toks enc) ds)) =
      (concat (map decl_roles ds), st')" "decl_kept st st'"
    using run_decls [of st ds enc] assms by (auto simp: at_top_def)
  with assms show ?thesis
    by (auto simp: mealy_run_append decl_kept_def role_step_def step_simps)
qed

lemma run_doctype:
  assumes "handler st = Prolog0 \<or> handler st = Prolog1" and "documentEntity st" and "doctype_ok dt"
  shows "\<exists>st'. role_run enc st (doctype_toks enc dt) = (doctype_roles dt, st') \<and>
    handler st' = Prolog2"
proof (cases dt)
  case (Doctype nm x ds)
  show ?thesis
  proof (cases ds)
    case None
    with assms(1,2) Doctype show ?thesis
      by (cases x rule: option.exhaust; cases "the x")
        (auto simp: role_step_def step_simps KW_defs)
  next
    case (Some ds')
    have sub: "\<exists>st'. role_run enc (st\<lparr>handler := InternalSubset\<rparr>) (concat (map (decl_toks enc) ds') @
          [(XML_TOK_CLOSE_BRACKET, []), close_decl]) =
        (concat (map decl_roles ds') @ [XML_ROLE_DOCTYPE_NONE, XML_ROLE_DOCTYPE_CLOSE], st') \<and>
        handler st' = Prolog2"
      using assms Doctype Some by (intro run_subset) simp_all
    with assms(1,2) Doctype Some show ?thesis
      by (cases x rule: option.exhaust; cases "the x")
        (auto simp: role_step_def step_simps KW_defs)
  qed
qed

section \<open>The external subset\<close>

datatype ext_decl = Plain decl | Include "ext_decl list" | Ignore

abbreviation cond_open :: token where "cond_open \<equiv> (XML_TOK_COND_SECT_OPEN, [])"
abbreviation bracket :: token where "bracket \<equiv> (XML_TOK_OPEN_BRACKET, [])"

fun ext_toks :: "encoding \<Rightarrow> ext_decl \<Rightarrow> token list" where
  "ext_toks enc (Plain d) = decl_toks enc d"
| "ext_toks enc (Include xs) =
    [cond_open, (XML_TOK_NAME, spell enc KW_INCLUDE), bracket] @
    concat (map (ext_toks enc) xs) @ [(XML_TOK_COND_SECT_CLOSE, [])]"
| "ext_toks enc Ignore = [cond_open, (XML_TOK_NAME, spell enc KW_IGNORE), bracket]"

fun ext_roles :: "ext_decl \<Rightarrow> int list" where
  "ext_roles (Plain d) = decl_roles d"
| "ext_roles (Include xs) =
    [XML_ROLE_NONE, XML_ROLE_NONE, XML_ROLE_NONE] @ concat (map ext_roles xs) @ [XML_ROLE_NONE]"
| "ext_roles Ignore = [XML_ROLE_NONE, XML_ROLE_NONE, XML_ROLE_IGNORE_SECT]"

fun ext_depth :: "ext_decl \<Rightarrow> nat" where
  "ext_depth (Plain d) = 0"
| "ext_depth (Include xs) = Suc (Max (insert 0 (set (map ext_depth xs))))"
| "ext_depth Ignore = 0"

fun ext_ok :: "ext_decl \<Rightarrow> bool" where
  "ext_ok (Plain d) \<longleftrightarrow> decl_ok d"
| "ext_ok (Include xs) \<longleftrightarrow> list_all ext_ok xs"
| "ext_ok Ignore \<longleftrightarrow> True"

definition accepts_ext :: "encoding \<Rightarrow> ext_decl \<Rightarrow> bool" where
  "accepts_ext enc x \<longleftrightarrow> (\<forall>st. handler st = ExternalSubset1 \<longrightarrow> \<not> documentEntity st \<longrightarrow>
     unat (includeLevel st) + ext_depth x < 2 ^ 32 \<longrightarrow>
     (\<exists>st'. role_run enc st (ext_toks enc x) = (ext_roles x, st') \<and> decl_kept st st'))"

lemma accepts_extD:
  "accepts_ext enc x \<Longrightarrow> handler st = ExternalSubset1 \<Longrightarrow> \<not> documentEntity st \<Longrightarrow>
   unat (includeLevel st) + ext_depth x < 2 ^ 32 \<Longrightarrow>
   \<exists>st'. role_run enc st (ext_toks enc x) = (ext_roles x, st') \<and> decl_kept st st'"
  by (simp add: accepts_ext_def)

lemma run_exts:
  assumes "\<And>x. x \<in> set xs \<Longrightarrow> accepts_ext enc x"
    and "handler st = ExternalSubset1" and "\<not> documentEntity st"
    and "\<And>x. x \<in> set xs \<Longrightarrow> unat (includeLevel st) + ext_depth x < 2 ^ 32"
  shows "\<exists>st'. role_run enc st (concat (map (ext_toks enc) xs)) = (concat (map ext_roles xs), st') \<and>
    decl_kept st st'"
  using assms
proof (induction xs arbitrary: st)
  case Nil
  then show ?case by (simp add: decl_kept_def)
next
  case (Cons x xs)
  then obtain st1 where 1: "role_run enc st (ext_toks enc x) = (ext_roles x, st1)"
    "decl_kept st st1" using accepts_extD [of enc x st] by auto
  have "\<exists>st'. role_run enc st1 (concat (map (ext_toks enc) xs)) = (concat (map ext_roles xs), st') \<and>
    decl_kept st1 st'"
    using 1(2) Cons.prems by (intro Cons.IH) (simp_all add: decl_kept_def)
  with 1 show ?case by (auto simp: mealy_run_append decl_kept_def)
qed

lemma run_ext: "ext_ok x \<Longrightarrow> accepts_ext enc x"
proof (induction x)
  case (Plain d)
  then show ?case using run_decl [of _ d enc] by (simp add: accepts_ext_def at_top_def)
next
  case Ignore
  show ?case
    by (auto simp: accepts_ext_def decl_kept_def role_step_def step_simps KW_defs)
next
  case (Include xs)
  show ?case unfolding accepts_ext_def
  proof (intro allI impI)
    fix st :: prolog_state
    assume st: "handler st = ExternalSubset1" "\<not> documentEntity st"
      "unat (includeLevel st) + ext_depth (Include xs) < 2 ^ 32"
    let ?st = "st\<lparr>includeLevel := includeLevel st + 1\<rparr>"
    have u: "unat (includeLevel st + 1) = Suc (unat (includeLevel st))"
      using st(3) by (intro unat_inc [of _ "unat (includeLevel st)"]) simp_all
    have "unat (includeLevel ?st) + ext_depth x < 2 ^ 32" if "x \<in> set xs" for x
    proof -
      have "ext_depth x \<le> Max (insert 0 (set (map ext_depth xs)))"
        using that by (intro Max_ge) auto
      with st(3) u show ?thesis by simp
    qed
    then obtain st' where run: "role_run enc ?st (concat (map (ext_toks enc) xs)) =
        (concat (map ext_roles xs), st')" "decl_kept ?st st'"
      using run_exts [of xs enc ?st] Include st by (auto simp: list_all_iff)
    have opn: "role_run enc st [cond_open, (XML_TOK_NAME, spell enc KW_INCLUDE), bracket] =
      ([XML_ROLE_NONE, XML_ROLE_NONE, XML_ROLE_NONE], ?st)"
      using st by (simp add: role_step_def step_simps KW_defs handler_idem)
    have cl: "role_run enc st' [(XML_TOK_COND_SECT_CLOSE, [])] =
      ([XML_ROLE_NONE], st'\<lparr>includeLevel := includeLevel st' - 1\<rparr>)"
    proof -
      have "includeLevel st + 1 \<noteq> 0" using u by auto
      with run(2) st show ?thesis by (simp add: decl_kept_def role_step_def step_simps)
    qed
    have "role_run enc st (ext_toks enc (Include xs)) =
        (ext_roles (Include xs), st'\<lparr>includeLevel := includeLevel st' - 1\<rparr>)"
      unfolding ext_toks.simps ext_roles.simps
      by (rule role_run_append [OF opn role_run_append [OF run(1) cl]])
    with run(2) show "\<exists>st''. role_run enc st (ext_toks enc (Include xs)) =
        (ext_roles (Include xs), st'') \<and> decl_kept st st''"
      by (simp add: decl_kept_def)
  qed
qed

section \<open>White space between tokens\<close>

abbreviation not_space :: "token \<Rightarrow> bool" where
  "not_space tok \<equiv> fst tok \<noteq> XML_TOK_PROLOG_S"

definition shown_roles :: "token list \<Rightarrow> int list \<Rightarrow> int list" where
  "shown_roles toks rs = map snd (filter (\<lambda>(tok, _). not_space tok) (zip toks rs))"

lemma run_spaced:
  assumes "handler st \<notin> {Prolog0, ExternalSubset0}"
    and "role_run enc st (filter not_space toks) = (rs, st')"
  shows "shown_roles toks (run_out (role_step enc) st toks) = rs"
    and "run_state (role_step enc) st toks = st'"
  using ws.run_skip_out [OF assms(1), of enc toks] ws.run_skip_state [OF assms(1), of enc toks]
    assms(2)
  by (simp_all add: shown_roles_def)

lemma Prolog0_first:
  assumes "handler st = Prolog0" and "fst tok = XML_TOK_PROLOG_S \<or> fst tok = XML_TOK_DECL_OPEN"
    and "not_space tok \<Longrightarrow> snd tok = decl_text enc KW_DOCTYPE"
  shows "role_step enc st tok = role_step enc (st\<lparr>handler := Prolog1\<rparr>) tok"
  using assms by (auto simp: role_step_def step_simps)

lemma run_doctype_spaced:
  assumes "handler st = Prolog0" and "documentEntity st" and "doctype_ok dt"
    and "filter not_space toks = doctype_toks enc dt"
  shows "shown_roles toks (run_out (role_step enc) st toks) = doctype_roles dt"
    and "handler (run_state (role_step enc) st toks) = Prolog2"
proof -
  let ?st = "st\<lparr>handler := Prolog1\<rparr>"
  obtain st' where st': "role_run enc ?st (doctype_toks enc dt) = (doctype_roles dt, st')"
    "handler st' = Prolog2"
    using run_doctype [of ?st dt enc] assms by auto
  from assms(4) obtain tok toks' where toks: "toks = tok # toks'"
    by (cases toks; cases dt) auto
  have "role_step enc st tok = role_step enc ?st tok"
  proof (rule Prolog0_first [OF assms(1)])
    show "fst tok = XML_TOK_PROLOG_S \<or> fst tok = XML_TOK_DECL_OPEN"
      using assms(4) toks by (cases dt) (auto split: if_splits)
    show "snd tok = decl_text enc KW_DOCTYPE" if "not_space tok"
      using that assms(4) toks by (cases dt) auto
  qed
  then have "role_run enc st toks = role_run enc ?st toks" by (simp add: toks)
  with run_spaced [of ?st enc toks] st' assms(4)
  show "shown_roles toks (run_out (role_step enc) st toks) = doctype_roles dt"
    and "handler (run_state (role_step enc) st toks) = Prolog2" by simp_all
qed

lemma run_external_spaced:
  assumes "\<not> documentEntity st" and "handler st = ExternalSubset1" and "includeLevel st = 0"
    and "list_all ext_ok xs" and "list_all (\<lambda>x. ext_depth x < 2 ^ 32) xs"
    and "filter not_space toks = concat (map (ext_toks enc) xs)"
  shows "shown_roles toks (run_out (role_step enc) st toks) = concat (map ext_roles xs)"
    and "handler (run_state (role_step enc) st toks) = ExternalSubset1"
    and "includeLevel (run_state (role_step enc) st toks) = 0"
proof -
  obtain st' where "role_run enc st (concat (map (ext_toks enc) xs)) =
      (concat (map ext_roles xs), st')" "decl_kept st st'"
    using run_exts [of xs enc st] assms by (auto simp: list_all_iff run_ext)
  with run_spaced [of st enc toks] assms
  show "shown_roles toks (run_out (role_step enc) st toks) = concat (map ext_roles xs)"
    and "handler (run_state (role_step enc) st toks) = ExternalSubset1"
    and "includeLevel (run_state (role_step enc) st toks) = 0"
    by (simp_all add: decl_kept_def)
qed

end
