(* ===== verification/Xml_Props.thy ===== *)
theory Xml_Props imports Xml_Grammar begin

text \<open>
  The properties of expat's prolog role machine. Runs start from the two initialisers of
  \<open>xmlrole.c\<close> applied to arbitrary memory; a witness runs the machine on a small
  document type declaration or external subset.
\<close>

lemma match_type_other:
  "\<forall>kw \<in> set kws. ts \<noteq> spell enc kw \<Longrightarrow> match_type enc ts n kws = None"
  by (induction kws arbitrary: n) (auto simp: XmlNameMatchesAscii_iff)

lemma depth_invD:
  assumes "depth_inv st d n"
  shows "0 \<le> d \<and>
    (handler st \<in> {Element6, Element7} \<longrightarrow> d = int (unat (level st)) \<and> 0 < d) \<and>
    (handler st \<in> {Element2, Element3, Element4, Element5} \<longrightarrow> d = 1) \<and>
    (handler st \<notin> {Element2, Element3, Element4, Element5, Element6, Element7, Error} \<longrightarrow> d = 0)"
proof (intro conjI impI)
  show "0 \<le> d" using assms unfolding depth_inv_def by blast
  show "d = int (unat (level st))" if "handler st \<in> {Element6, Element7}"
    using that assms unfolding depth_inv_def by blast
  show "0 < d" if "handler st \<in> {Element6, Element7}"
    using that assms unfolding depth_inv_def by (metis of_nat_0_less_iff)
  show "d = 1" if "handler st \<in> {Element2, Element3, Element4, Element5}"
    using that assms unfolding depth_inv_def by blast
  show "d = 0"
    if "handler st \<notin> {Element2, Element3, Element4, Element5, Element6, Element7, Error}"
    using that assms unfolding depth_inv_def by blast
qed

lemma doc_inv_role_step:
  "doc_inv st \<Longrightarrow> fst (role_step enc st tok) \<notin>
    {XML_ROLE_INNER_PARAM_ENTITY_REF, XML_ROLE_IGNORE_SECT, XML_ROLE_TEXT_DECL}"
  unfolding role_step_def by (rule doc_inv_role)

lemma ext_inv_role_step:
  "ext_inv st \<Longrightarrow> fst (role_step enc st tok) \<notin>
    {XML_ROLE_INSTANCE_START, XML_ROLE_DOCTYPE_NAME, XML_ROLE_DOCTYPE_CLOSE}"
  unfolding role_step_def by (rule ext_inv_role)

section \<open>Samples\<close>

definition stale_memory :: prolog_state where
  "stale_memory = \<lparr>handler = Error, level = 7, role_none = 99, includeLevel = 5,
    documentEntity = False, inEntityValue = True\<rparr>"

definition zero_memory :: prolog_state where
  "zero_memory = \<lparr>handler = Prolog0, level = 0, role_none = 0, includeLevel = 0,
    documentEntity = False, inEntityValue = False\<rparr>"

definition sample_doctype :: doctype where
  "sample_doctype = Doctype (ascii ''r'') (Some (System_id (ascii ''r.dtd'')))
    (Some [Element_decl (ascii ''r'')
             (Children (Many (Leaf (ascii ''a'') Opt) Comma
                (Single (Group (Many (Leaf (ascii ''b'') Once) Bar
                   (Single (Leaf (ascii ''c'') Rep))) Plus))) Once),
           Attlist_decl (ascii ''r'') [AttDef (ascii ''i'') (Keyword_type 1) Required_default],
           Entity_value (ascii ''e'') (ascii ''v'')])"








section \<open>Acceptance\<close>





section \<open>Invariants\<close>

text \<open>
  No run of a machine started by \<open>XmlPrologStateInit\<close> reaches a handler of the external
  subset or of conditional sections, opens an \<open>INCLUDE\<close> section, or reports a reference of a
  parameter entity inside a declaration; \<open>role_none\<close> is set whenever \<open>declClose\<close> returns it.
\<close>

lemma document_entity_run:
  "case run_roles enc (XmlPrologStateInit st) toks of (rs, st') \<Rightarrow>
    handler st' \<notin> external_handlers \<and> includeLevel st' = 0 \<and> documentEntity st' \<and>
    role_none_set st' \<and>
    XML_ROLE_INNER_PARAM_ENTITY_REF \<notin> set rs \<and> XML_ROLE_IGNORE_SECT \<notin> set rs \<and>
    XML_ROLE_TEXT_DECL \<notin> set rs"
proof -
  have "doc_inv (run_state (role_step enc) (XmlPrologStateInit st) toks)"
    by (intro doc.run_inv doc_inv_init)
  moreover have "list_all (\<lambda>r. r \<notin> {XML_ROLE_INNER_PARAM_ENTITY_REF, XML_ROLE_IGNORE_SECT,
      XML_ROLE_TEXT_DECL}) (run_out (role_step enc) (XmlPrologStateInit st) toks)"
    by (rule doc.step_prop) (erule doc_inv_role_step, rule doc_inv_init)
  ultimately show ?thesis
    unfolding run_roles_def case_prod_unfold doc_inv_def list_all_iff by blast
qed

text \<open>
  No run of a machine started by \<open>XmlPrologStateInitExternalEntity\<close> reaches a handler of
  the prolog, of the document type declaration or of the internal subset.
\<close>

lemma external_entity_run:
  "case run_roles enc (XmlPrologStateInitExternalEntity st) toks of (rs, st') \<Rightarrow>
    handler st' \<notin> document_handlers \<and> \<not> documentEntity st' \<and> role_none_set st' \<and>
    set rs \<inter> {XML_ROLE_INSTANCE_START, XML_ROLE_DOCTYPE_NAME, XML_ROLE_DOCTYPE_CLOSE} = {}"
proof -
  have "ext_inv (run_state (role_step enc) (XmlPrologStateInitExternalEntity st) toks)"
    by (intro ext.run_inv ext_inv_init)
  moreover have "list_all (\<lambda>r. r \<notin> {XML_ROLE_INSTANCE_START, XML_ROLE_DOCTYPE_NAME,
      XML_ROLE_DOCTYPE_CLOSE}) (run_out (role_step enc) (XmlPrologStateInitExternalEntity st) toks)"
    by (rule ext.step_prop) (erule ext_inv_role_step, rule ext_inv_init)
  ultimately show ?thesis
    unfolding run_roles_def case_prod_unfold ext_inv_def list_all_iff by blast
qed

text \<open>
  The initialisers leave \<open>level\<close> and \<open>role_none\<close> unwritten (and the external one
  \<open>inEntityValue\<close>); no role ever depends on what those fields held.
\<close>

lemma stale_fields_unread:
  "fst (run_roles enc (XmlPrologStateInit st) toks) =
     fst (run_roles enc (XmlPrologStateInit st') toks) \<and>
   fst (run_roles enc (XmlPrologStateInitExternalEntity st) toks) =
     fst (run_roles enc (XmlPrologStateInitExternalEntity st') toks)"
proof
  have "same_visible (XmlPrologStateInit st) (XmlPrologStateInit st')"
    by (simp add: same_visible_def XmlPrologStateInit_def)
  from vis.run_sim [OF this, of enc toks]
  show "fst (run_roles enc (XmlPrologStateInit st) toks) =
     fst (run_roles enc (XmlPrologStateInit st') toks)" by (simp add: run_roles_def)
  have "same_visible (XmlPrologStateInitExternalEntity st) (XmlPrologStateInitExternalEntity st')"
    by (simp add: same_visible_def XmlPrologStateInitExternalEntity_def)
  from vis.run_sim [OF this, of enc toks]
  show "fst (run_roles enc (XmlPrologStateInitExternalEntity st) toks) =
     fst (run_roles enc (XmlPrologStateInitExternalEntity st') toks)" by (simp add: run_roles_def)
qed

text \<open>
  C34. The role of a token is an error, or the start of the document's element, exactly when
  the machine moves to \<open>error\<close>, and every token after such a token receives no role: at most
  one error is reported in a run.
\<close>

theorem error_is_final:
  assumes "run_roles enc (XmlPrologStateInit st) (us @ tok # vs) = (rs, st')"
    and "rs ! length us \<in> {XML_ROLE_ERROR, XML_ROLE_INSTANCE_START}"
  shows "handler st' = Error \<and> drop (Suc (length us)) rs = replicate (length vs) XML_ROLE_NONE \<and>
    set (take (length us) rs) \<inter> {XML_ROLE_ERROR, XML_ROLE_INSTANCE_START} = {}"
proof -
  let ?st = "XmlPrologStateInit st"
  obtain rs1 st1 where 1: "role_run enc ?st us = (rs1, st1)" by (cases "role_run enc ?st us")
  obtain r st2 where 2: "role_step enc st1 tok = (r, st2)" by (cases "role_step enc st1 tok")
  obtain rs3 st3 where 3: "role_run enc st2 vs = (rs3, st3)" by (cases "role_run enc st2 vs")
  have len: "length rs1 = length us" using length_run_out [of "role_step enc" ?st us] 1 by simp
  have rs: "rs = rs1 @ r # rs3" "st' = st3"
    using assms(1) 1 2 3 by (simp_all add: run_roles_def mealy_run_append)
  have "role_none_set ?st" by (simp add: role_none_set_def XmlPrologStateInit_def)
  then have rn: "role_none_set st1" using none.run_inv [of ?st enc us] 1 by simp
  have r: "r \<in> {XML_ROLE_ERROR, XML_ROLE_INSTANCE_START}"
    using assms(2) rs(1) len by (metis nth_append_length)
  then have "handler st1 \<noteq> Error" "handler st2 = Error"
    using error_role_iff [OF rn, of "fst tok" "snd tok" enc] 2 by (simp_all add: role_step_def)
  moreover from this have "rs3 = replicate (length vs) XML_ROLE_NONE" "handler st3 = Error"
    using Error_absorbs_run [of st2 enc vs] 3 by simp_all
  moreover have "set rs1 \<inter> {XML_ROLE_ERROR, XML_ROLE_INSTANCE_START} = {}"
    using run_without_error [of ?st enc us] \<open>role_none_set ?st\<close> 1 \<open>handler st1 \<noteq> Error\<close> by simp
  ultimately show ?thesis using rs len by simp
qed

theorem error_is_final_witness:
  "fst (run_roles Normal_enc (XmlPrologStateInit stale_memory)
     ([(XML_TOK_COMMENT, [])] @ (XML_TOK_CLOSE_PAREN, []) # [(XML_TOK_PI, []), (XML_TOK_PROLOG_S, [])])) ! 1
     \<in> {XML_ROLE_ERROR, XML_ROLE_INSTANCE_START} \<and>
   handler (snd (run_roles Normal_enc (XmlPrologStateInit stale_memory)
     ([(XML_TOK_COMMENT, [])] @ (XML_TOK_CLOSE_PAREN, []) # [(XML_TOK_PI, []), (XML_TOK_PROLOG_S, [])]))) =
     Error"
proof -
  let ?run = "run_roles Normal_enc (XmlPrologStateInit stale_memory)
     ([(XML_TOK_COMMENT, [])] @ (XML_TOK_CLOSE_PAREN, []) # [(XML_TOK_PI, []), (XML_TOK_PROLOG_S, [])])"
  have "fst ?run ! 1 \<in> {XML_ROLE_ERROR, XML_ROLE_INSTANCE_START}"
    by (simp add: run_roles_def role_step_def step_simps XmlPrologStateInit_def)
  moreover from this have "handler (snd ?run) = Error"
    using error_is_final [of Normal_enc stale_memory "[(XML_TOK_COMMENT, [])]" _ _ "fst ?run" "snd ?run"]
    by simp
  ultimately show ?thesis by simp
qed

text \<open>
  White space is transparent: from any state but the two start states, removing the
  white-space tokens from the input changes neither the state reached nor the role of any
  other token.
\<close>

lemma white_space_transparent:
  assumes "handler st \<notin> {Prolog0, ExternalSubset0}"
  shows "shown_roles toks (fst (run_roles enc st toks)) =
      fst (run_roles enc st (filter not_space toks)) \<and>
    snd (run_roles enc st toks) = snd (run_roles enc st (filter not_space toks))"
  using ws.run_skip_out [OF assms, of enc toks] ws.run_skip_state [OF assms, of enc toks]
  by (simp add: run_roles_def shown_roles_def)

text \<open>
  C30. The group roles of content models are balanced: over any run of fewer than \<open>2 ^ 32\<close>
  tokens, the groups opened minus the groups closed are never negative, are zero whenever
  the machine is outside a content model, and equal the \<open>level\<close> counter inside one, which
  therefore does not wrap.
\<close>

theorem groups_balanced:
  assumes "length toks < 2 ^ 32"
  shows "case run_roles enc (XmlPrologStateInit st) toks of (rs, st') \<Rightarrow>
    let d = foldl group_depth 0 rs in
    0 \<le> d \<and>
    (handler st' \<in> {Element6, Element7} \<longrightarrow> d = int (unat (level st')) \<and> 0 < d) \<and>
    (handler st' \<in> {Element2, Element3, Element4, Element5} \<longrightarrow> d = 1) \<and>
    (handler st' \<notin> {Element2, Element3, Element4, Element5, Element6, Element7, Error} \<longrightarrow> d = 0)"
proof -
  obtain rs st' where run: "run_roles enc (XmlPrologStateInit st) toks = (rs, st')"
    by (cases "run_roles enc (XmlPrologStateInit st) toks")
  then have "depth_inv st' (foldl group_depth 0 rs) (length toks)"
    using depth_inv_run [of "XmlPrologStateInit st" toks enc] assms
    by (simp add: XmlPrologStateInit_def run_roles_def)
  from depth_invD [OF this] show ?thesis unfolding run prod.case Let_def .
qed

theorem groups_balanced_witness:
  "length (take 13 (doctype_toks Normal_enc sample_doctype)) < 2 ^ 32 \<and>
   0 \<le> foldl group_depth 0 (fst (run_roles Normal_enc (XmlPrologStateInit stale_memory)
     (take 13 (doctype_toks Normal_enc sample_doctype))))"
  using groups_balanced [of "take 13 (doctype_toks Normal_enc sample_doctype)" Normal_enc stale_memory]
  by (simp add: Let_def case_prod_unfold)

section \<open>Keywords\<close>

text \<open>
  \<open>nameMatchesAscii\<close> accepts the bytes of a token for a keyword exactly when they are
  the keyword written in the encoding, one or two bytes per character, with nothing after it.
\<close>

lemma keyword_comparison:
  "XmlNameMatchesAscii enc ts kw \<longleftrightarrow> ts = concat (map (spell_char enc) kw)"
  by (simp add: XmlNameMatchesAscii_iff spell_def)

text \<open>
  The type of an attribute: where a type is expected, a name token receives the role
  of the keyword it spells, \<open>NOTATION\<close> leads to a list of notations, and any other name is an
  error in a document entity.
\<close>

lemma attribute_type_roles:
  assumes "handler st = Attlist2"
  shows "(\<forall>i < length attlist_types. role_step enc st (XML_TOK_NAME, spell enc (attlist_types ! i)) =
      (XML_ROLE_ATTRIBUTE_TYPE_CDATA + int i, st\<lparr>handler := Attlist8\<rparr>)) \<and>
    role_step enc st (XML_TOK_NAME, spell enc KW_NOTATION) =
      (XML_ROLE_ATTLIST_NONE, st\<lparr>handler := Attlist5\<rparr>) \<and>
    (\<forall>ts. (\<forall>kw \<in> insert KW_NOTATION (set attlist_types). ts \<noteq> spell enc kw) \<longrightarrow>
      role_step enc st (XML_TOK_NAME, ts) = (XML_ROLE_ERROR, st\<lparr>handler := Error\<rparr>))"
  using assms NOTATION_no_type
  by (auto simp: role_step_def step_simps match_type_keyword match_type_none match_type_other
      XmlNameMatchesAscii_iff distinct_attlist_types)

end
