(* ===== verification/Xml_Encoding.thy ===== *)
theory Xml_Encoding
  imports Xml_Role
begin

text \<open>
  The encodings of expat as the tokenizer sees them: the byte types of \<open>xmltok_impl.h\<close>, the tables of
  \<open>asciitab.h\<close>, \<open>iasciitab.h\<close>, \<open>latin1tab.h\<close> and \<open>utf8tab.h\<close>, the name characters of \<open>nametab.h\<close>, and from \<open>xmltok.c\<close> the tests
  for UTF-8 and UTF-16 and the macros that \<open>xmltok_impl.c\<close> is compiled with, once for each of the three families.

  A pointer into the input is the list of the bytes from there to the end of the buffer. The
  program is built with \<open>XML_NS\<close> and \<open>XML_DTD\<close> and without \<open>XML_MIN_SIZE\<close>; \<open>char\<close> is unsigned, as on aarch64.
\<close>

section \<open>Byte types and tables\<close>

datatype BT =
  BT_NONXML | BT_MALFORM | BT_LT | BT_AMP | BT_RSQB | BT_LEAD2 | BT_LEAD3 | BT_LEAD4 | BT_TRAIL
    | BT_CR | BT_LF | BT_GT | BT_QUOT | BT_APOS | BT_EQUALS | BT_QUEST | BT_EXCL | BT_SOL | BT_SEMI
    | BT_NUM | BT_LSQB | BT_S | BT_NMSTRT | BT_COLON | BT_HEX | BT_DIGIT | BT_NAME | BT_MINUS
    | BT_OTHER | BT_NONASCII | BT_PERCNT | BT_LPAR | BT_RPAR | BT_AST | BT_PLUS | BT_COMMA
    | BT_VERBAR

text \<open>The encodings without namespaces take a colon for a letter.\<close>

definition asciitab :: "BT \<Rightarrow> BT list" where
  "asciitab bt_colon =
    [BT_NONXML, BT_NONXML, BT_NONXML, BT_NONXML, BT_NONXML, BT_NONXML, BT_NONXML, BT_NONXML,
     BT_NONXML, BT_S, BT_LF, BT_NONXML, BT_NONXML, BT_CR, BT_NONXML, BT_NONXML,
     BT_NONXML, BT_NONXML, BT_NONXML, BT_NONXML, BT_NONXML, BT_NONXML, BT_NONXML, BT_NONXML,
     BT_NONXML, BT_NONXML, BT_NONXML, BT_NONXML, BT_NONXML, BT_NONXML, BT_NONXML, BT_NONXML,
     BT_S, BT_EXCL, BT_QUOT, BT_NUM, BT_OTHER, BT_PERCNT, BT_AMP, BT_APOS,
     BT_LPAR, BT_RPAR, BT_AST, BT_PLUS, BT_COMMA, BT_MINUS, BT_NAME, BT_SOL,
     BT_DIGIT, BT_DIGIT, BT_DIGIT, BT_DIGIT, BT_DIGIT, BT_DIGIT, BT_DIGIT, BT_DIGIT,
     BT_DIGIT, BT_DIGIT, bt_colon, BT_SEMI, BT_LT, BT_EQUALS, BT_GT, BT_QUEST,
     BT_OTHER, BT_HEX, BT_HEX, BT_HEX, BT_HEX, BT_HEX, BT_HEX, BT_NMSTRT,
     BT_NMSTRT, BT_NMSTRT, BT_NMSTRT, BT_NMSTRT, BT_NMSTRT, BT_NMSTRT, BT_NMSTRT, BT_NMSTRT,
     BT_NMSTRT, BT_NMSTRT, BT_NMSTRT, BT_NMSTRT, BT_NMSTRT, BT_NMSTRT, BT_NMSTRT, BT_NMSTRT,
     BT_NMSTRT, BT_NMSTRT, BT_NMSTRT, BT_LSQB, BT_OTHER, BT_RSQB, BT_OTHER, BT_NMSTRT,
     BT_OTHER, BT_HEX, BT_HEX, BT_HEX, BT_HEX, BT_HEX, BT_HEX, BT_NMSTRT,
     BT_NMSTRT, BT_NMSTRT, BT_NMSTRT, BT_NMSTRT, BT_NMSTRT, BT_NMSTRT, BT_NMSTRT, BT_NMSTRT,
     BT_NMSTRT, BT_NMSTRT, BT_NMSTRT, BT_NMSTRT, BT_NMSTRT, BT_NMSTRT, BT_NMSTRT, BT_NMSTRT,
     BT_NMSTRT, BT_NMSTRT, BT_NMSTRT, BT_OTHER, BT_VERBAR, BT_OTHER, BT_OTHER, BT_OTHER]"

definition iasciitab :: "BT \<Rightarrow> BT list" where
  "iasciitab bt_colon =
    [BT_NONXML, BT_NONXML, BT_NONXML, BT_NONXML, BT_NONXML, BT_NONXML, BT_NONXML, BT_NONXML,
     BT_NONXML, BT_S, BT_LF, BT_NONXML, BT_NONXML, BT_S, BT_NONXML, BT_NONXML,
     BT_NONXML, BT_NONXML, BT_NONXML, BT_NONXML, BT_NONXML, BT_NONXML, BT_NONXML, BT_NONXML,
     BT_NONXML, BT_NONXML, BT_NONXML, BT_NONXML, BT_NONXML, BT_NONXML, BT_NONXML, BT_NONXML,
     BT_S, BT_EXCL, BT_QUOT, BT_NUM, BT_OTHER, BT_PERCNT, BT_AMP, BT_APOS,
     BT_LPAR, BT_RPAR, BT_AST, BT_PLUS, BT_COMMA, BT_MINUS, BT_NAME, BT_SOL,
     BT_DIGIT, BT_DIGIT, BT_DIGIT, BT_DIGIT, BT_DIGIT, BT_DIGIT, BT_DIGIT, BT_DIGIT,
     BT_DIGIT, BT_DIGIT, bt_colon, BT_SEMI, BT_LT, BT_EQUALS, BT_GT, BT_QUEST,
     BT_OTHER, BT_HEX, BT_HEX, BT_HEX, BT_HEX, BT_HEX, BT_HEX, BT_NMSTRT,
     BT_NMSTRT, BT_NMSTRT, BT_NMSTRT, BT_NMSTRT, BT_NMSTRT, BT_NMSTRT, BT_NMSTRT, BT_NMSTRT,
     BT_NMSTRT, BT_NMSTRT, BT_NMSTRT, BT_NMSTRT, BT_NMSTRT, BT_NMSTRT, BT_NMSTRT, BT_NMSTRT,
     BT_NMSTRT, BT_NMSTRT, BT_NMSTRT, BT_LSQB, BT_OTHER, BT_RSQB, BT_OTHER, BT_NMSTRT,
     BT_OTHER, BT_HEX, BT_HEX, BT_HEX, BT_HEX, BT_HEX, BT_HEX, BT_NMSTRT,
     BT_NMSTRT, BT_NMSTRT, BT_NMSTRT, BT_NMSTRT, BT_NMSTRT, BT_NMSTRT, BT_NMSTRT, BT_NMSTRT,
     BT_NMSTRT, BT_NMSTRT, BT_NMSTRT, BT_NMSTRT, BT_NMSTRT, BT_NMSTRT, BT_NMSTRT, BT_NMSTRT,
     BT_NMSTRT, BT_NMSTRT, BT_NMSTRT, BT_OTHER, BT_VERBAR, BT_OTHER, BT_OTHER, BT_OTHER]"

definition latin1tab :: "BT list" where
  "latin1tab =
    [BT_OTHER, BT_OTHER, BT_OTHER, BT_OTHER, BT_OTHER, BT_OTHER, BT_OTHER, BT_OTHER,
     BT_OTHER, BT_OTHER, BT_OTHER, BT_OTHER, BT_OTHER, BT_OTHER, BT_OTHER, BT_OTHER,
     BT_OTHER, BT_OTHER, BT_OTHER, BT_OTHER, BT_OTHER, BT_OTHER, BT_OTHER, BT_OTHER,
     BT_OTHER, BT_OTHER, BT_OTHER, BT_OTHER, BT_OTHER, BT_OTHER, BT_OTHER, BT_OTHER,
     BT_OTHER, BT_OTHER, BT_OTHER, BT_OTHER, BT_OTHER, BT_OTHER, BT_OTHER, BT_OTHER,
     BT_OTHER, BT_OTHER, BT_NMSTRT, BT_OTHER, BT_OTHER, BT_OTHER, BT_OTHER, BT_OTHER,
     BT_OTHER, BT_OTHER, BT_OTHER, BT_OTHER, BT_OTHER, BT_NMSTRT, BT_OTHER, BT_NAME,
     BT_OTHER, BT_OTHER, BT_NMSTRT, BT_OTHER, BT_OTHER, BT_OTHER, BT_OTHER, BT_OTHER,
     BT_NMSTRT, BT_NMSTRT, BT_NMSTRT, BT_NMSTRT, BT_NMSTRT, BT_NMSTRT, BT_NMSTRT, BT_NMSTRT,
     BT_NMSTRT, BT_NMSTRT, BT_NMSTRT, BT_NMSTRT, BT_NMSTRT, BT_NMSTRT, BT_NMSTRT, BT_NMSTRT,
     BT_NMSTRT, BT_NMSTRT, BT_NMSTRT, BT_NMSTRT, BT_NMSTRT, BT_NMSTRT, BT_NMSTRT, BT_OTHER,
     BT_NMSTRT, BT_NMSTRT, BT_NMSTRT, BT_NMSTRT, BT_NMSTRT, BT_NMSTRT, BT_NMSTRT, BT_NMSTRT,
     BT_NMSTRT, BT_NMSTRT, BT_NMSTRT, BT_NMSTRT, BT_NMSTRT, BT_NMSTRT, BT_NMSTRT, BT_NMSTRT,
     BT_NMSTRT, BT_NMSTRT, BT_NMSTRT, BT_NMSTRT, BT_NMSTRT, BT_NMSTRT, BT_NMSTRT, BT_NMSTRT,
     BT_NMSTRT, BT_NMSTRT, BT_NMSTRT, BT_NMSTRT, BT_NMSTRT, BT_NMSTRT, BT_NMSTRT, BT_OTHER,
     BT_NMSTRT, BT_NMSTRT, BT_NMSTRT, BT_NMSTRT, BT_NMSTRT, BT_NMSTRT, BT_NMSTRT, BT_NMSTRT]"

definition utf8tab :: "BT list" where
  "utf8tab =
    [BT_TRAIL, BT_TRAIL, BT_TRAIL, BT_TRAIL, BT_TRAIL, BT_TRAIL, BT_TRAIL, BT_TRAIL,
     BT_TRAIL, BT_TRAIL, BT_TRAIL, BT_TRAIL, BT_TRAIL, BT_TRAIL, BT_TRAIL, BT_TRAIL,
     BT_TRAIL, BT_TRAIL, BT_TRAIL, BT_TRAIL, BT_TRAIL, BT_TRAIL, BT_TRAIL, BT_TRAIL,
     BT_TRAIL, BT_TRAIL, BT_TRAIL, BT_TRAIL, BT_TRAIL, BT_TRAIL, BT_TRAIL, BT_TRAIL,
     BT_TRAIL, BT_TRAIL, BT_TRAIL, BT_TRAIL, BT_TRAIL, BT_TRAIL, BT_TRAIL, BT_TRAIL,
     BT_TRAIL, BT_TRAIL, BT_TRAIL, BT_TRAIL, BT_TRAIL, BT_TRAIL, BT_TRAIL, BT_TRAIL,
     BT_TRAIL, BT_TRAIL, BT_TRAIL, BT_TRAIL, BT_TRAIL, BT_TRAIL, BT_TRAIL, BT_TRAIL,
     BT_TRAIL, BT_TRAIL, BT_TRAIL, BT_TRAIL, BT_TRAIL, BT_TRAIL, BT_TRAIL, BT_TRAIL,
     BT_LEAD2, BT_LEAD2, BT_LEAD2, BT_LEAD2, BT_LEAD2, BT_LEAD2, BT_LEAD2, BT_LEAD2,
     BT_LEAD2, BT_LEAD2, BT_LEAD2, BT_LEAD2, BT_LEAD2, BT_LEAD2, BT_LEAD2, BT_LEAD2,
     BT_LEAD2, BT_LEAD2, BT_LEAD2, BT_LEAD2, BT_LEAD2, BT_LEAD2, BT_LEAD2, BT_LEAD2,
     BT_LEAD2, BT_LEAD2, BT_LEAD2, BT_LEAD2, BT_LEAD2, BT_LEAD2, BT_LEAD2, BT_LEAD2,
     BT_LEAD3, BT_LEAD3, BT_LEAD3, BT_LEAD3, BT_LEAD3, BT_LEAD3, BT_LEAD3, BT_LEAD3,
     BT_LEAD3, BT_LEAD3, BT_LEAD3, BT_LEAD3, BT_LEAD3, BT_LEAD3, BT_LEAD3, BT_LEAD3,
     BT_LEAD4, BT_LEAD4, BT_LEAD4, BT_LEAD4, BT_LEAD4, BT_NONXML, BT_NONXML, BT_NONXML,
     BT_NONXML, BT_NONXML, BT_NONXML, BT_NONXML, BT_NONXML, BT_NONXML, BT_MALFORM, BT_MALFORM]"

definition namingBitmap :: "u32 list" where
  "namingBitmap =
    [0, 0, 0, 0, 0, 0, 0, 0,
     0xffffffff, 0xffffffff, 0xffffffff, 0xffffffff, 0xffffffff, 0xffffffff, 0xffffffff, 0xffffffff,
     0, 0x04000000, 0x87fffffe, 0x07fffffe, 0, 0, 0xff7fffff, 0xff7fffff,
     0xffffffff, 0x7ff3ffff, 0xfffffdfe, 0x7fffffff, 0xffffffff, 0xffffffff, 0xffffe00f, 0xfc31ffff,
     0x00ffffff, 0, 0xffff0000, 0xffffffff, 0xffffffff, 0xf80001ff, 3, 0,
     0, 0, 0, 0, 0xffffd740, 0xfffffffb, 0x547f7fff, 0x000ffffd,
     0xffffdffe, 0xffffffff, 0xdffeffff, 0xffffffff, 0xffff0003, 0xffffffff, 0xffff199f, 0x033fcfff,
     0, 0xfffe0000, 0x027fffff, 0xfffffffe, 0x0000007f, 0, 0xffff0000, 0x000707ff,
     0, 0x07fffffe, 0x000007fe, 0xfffe0000, 0xffffffff, 0x7cffffff, 0x002f7fff, 0x00000060,
     0xffffffe0, 0x23ffffff, 0xff000000, 3, 0xfff99fe0, 0x03c5fdff, 0xb0000000, 0x00030003,
     0xfff987e0, 0x036dfdff, 0x5e000000, 0x001c0000, 0xfffbafe0, 0x23edfdff, 0, 1,
     0xfff99fe0, 0x23cdfdff, 0xb0000000, 3, 0xd63dc7e0, 0x03bfc718, 0, 0,
     0xfffddfe0, 0x03effdff, 0, 3, 0xfffddfe0, 0x03effdff, 0x40000000, 3,
     0xfffddfe0, 0x03fffdff, 0, 3, 0, 0, 0, 0,
     0xfffffffe, 0x000d7fff, 0x0000003f, 0, 0xfef02596, 0x200d6cae, 0x0000001f, 0,
     0, 0, 0xfffffeff, 0x000003ff, 0, 0, 0, 0,
     0, 0, 0, 0, 0, 0xffffffff, 0xffff003f, 0x007fffff,
     0x0007daed, 0x50000000, 0x82315001, 0x002c62ab, 0x40000000, 0xf580c900, 7, 0x02010800,
     0xffffffff, 0xffffffff, 0xffffffff, 0xffffffff, 0x0fffffff, 0xffffffff, 0xffffffff, 0x03ffffff,
     0x3f3fffff, 0xffffffff, 0xaaff3f3f, 0x3fffffff, 0xffffffff, 0x5fdfffff, 0x0fcf1fdc, 0x1fdc1fff,
     0, 0x00004c40, 0, 0, 7, 0, 0, 0,
     0x00000080, 0x000003fe, 0xfffffffe, 0xffffffff, 0x001fffff, 0xfffffffe, 0xffffffff, 0x07ffffff,
     0xffffffe0, 0x00001fff, 0, 0, 0, 0, 0, 0,
     0xffffffff, 0xffffffff, 0xffffffff, 0xffffffff, 0xffffffff, 0x0000003f, 0, 0,
     0xffffffff, 0xffffffff, 0xffffffff, 0xffffffff, 0xffffffff, 0x0000000f, 0, 0,
     0, 0x07ff6000, 0x87fffffe, 0x07fffffe, 0, 0x00800000, 0xff7fffff, 0xff7fffff,
     0x00ffffff, 0, 0xffff0000, 0xffffffff, 0xffffffff, 0xf80001ff, 0x00030003, 0,
     0xffffffff, 0xffffffff, 0x0000003f, 3, 0xffffd7c0, 0xfffffffb, 0x547f7fff, 0x000ffffd,
     0xffffdffe, 0xffffffff, 0xdffeffff, 0xffffffff, 0xffff007b, 0xffffffff, 0xffff199f, 0x033fcfff,
     0, 0xfffe0000, 0x027fffff, 0xfffffffe, 0xfffe007f, 0xbbfffffb, 0xffff0016, 0x000707ff,
     0, 0x07fffffe, 0x0007ffff, 0xffff03ff, 0xffffffff, 0x7cffffff, 0xffef7fff, 0x03ff3dff,
     0xffffffee, 0xf3ffffff, 0xff1e3fff, 0x0000ffcf, 0xfff99fee, 0xd3c5fdff, 0xb080399f, 0x0003ffcf,
     0xfff987e4, 0xd36dfdff, 0x5e003987, 0x001fffc0, 0xfffbafee, 0xf3edfdff, 0x00003bbf, 0x0000ffc1,
     0xfff99fee, 0xf3cdfdff, 0xb0c0398f, 0x0000ffc3, 0xd63dc7ec, 0xc3bfc718, 0x00803dc7, 0x0000ff80,
     0xfffddfee, 0xc3effdff, 0x00603ddf, 0x0000ffc3, 0xfffddfec, 0xc3effdff, 0x40603ddf, 0x0000ffc3,
     0xfffddfec, 0xc3fffdff, 0x00803dcf, 0x0000ffc3, 0, 0, 0, 0,
     0xfffffffe, 0x07ff7fff, 0x03ff7fff, 0, 0xfef02596, 0x3bff6cae, 0x03ff3f5f, 0,
     0x03000000, 0xc2a003ff, 0xfffffeff, 0xfffe03ff, 0xfebf0fdf, 0x02fe3fff, 0, 0,
     0, 0, 0, 0, 0, 0, 0x1fff0000, 2,
     0x000000a0, 0x003efffe, 0xfffffffe, 0xffffffff, 0x661fffff, 0xfffffffe, 0xffffffff, 0x77ffffff]"

definition nmstrtPages :: "nat list" where
  "nmstrtPages =
    [2, 3, 4, 5, 6, 7, 8, 0, 0, 9, 10, 11, 12, 13, 14, 15, 16, 17, 0, 0, 0, 0, 0, 0, 0, 0, 0, 0, 0, 0, 18, 19,
     0, 20, 0, 0, 0, 0, 0, 0, 0, 0, 0, 0, 0, 0, 0, 0, 21, 22, 0, 0, 0, 0, 0, 0, 0, 0, 0, 0, 0, 0, 0, 0,
     0, 0, 0, 0, 0, 0, 0, 0, 0, 0, 0, 0, 0, 0, 1, 1, 1, 1, 1, 1, 1, 1, 1, 1, 1, 1, 1, 1, 1, 1, 1, 1,
     1, 1, 1, 1, 1, 1, 1, 1, 1, 1, 1, 1, 1, 1, 1, 1, 1, 1, 1, 1, 1, 1, 1, 1, 1, 1, 1, 1, 1, 1, 1, 1,
     1, 1, 1, 1, 1, 1, 1, 1, 1, 1, 1, 1, 1, 1, 1, 1, 1, 1, 1, 1, 1, 1, 1, 1, 1, 1, 1, 1, 1, 1, 1, 23,
     0, 0, 0, 0, 0, 0, 0, 0, 0, 0, 0, 0, 1, 1, 1, 1, 1, 1, 1, 1, 1, 1, 1, 1, 1, 1, 1, 1, 1, 1, 1, 1,
     1, 1, 1, 1, 1, 1, 1, 1, 1, 1, 1, 1, 1, 1, 1, 1, 1, 1, 1, 1, 1, 1, 1, 24, 0, 0, 0, 0, 0, 0, 0, 0,
     0, 0, 0, 0, 0, 0, 0, 0, 0, 0, 0, 0, 0, 0, 0, 0, 0, 0, 0, 0, 0, 0, 0, 0, 0, 0, 0, 0, 0, 0, 0, 0]"

definition namePages :: "nat list" where
  "namePages =
    [25, 3, 26, 27, 28, 29, 30, 0, 0, 31, 32, 33, 34, 35, 36, 37, 16, 17, 0, 0, 0, 0, 0, 0, 0, 0, 0, 0, 0, 0, 18, 19,
     38, 20, 0, 0, 0, 0, 0, 0, 0, 0, 0, 0, 0, 0, 0, 0, 39, 22, 0, 0, 0, 0, 0, 0, 0, 0, 0, 0, 0, 0, 0, 0,
     0, 0, 0, 0, 0, 0, 0, 0, 0, 0, 0, 0, 0, 0, 1, 1, 1, 1, 1, 1, 1, 1, 1, 1, 1, 1, 1, 1, 1, 1, 1, 1,
     1, 1, 1, 1, 1, 1, 1, 1, 1, 1, 1, 1, 1, 1, 1, 1, 1, 1, 1, 1, 1, 1, 1, 1, 1, 1, 1, 1, 1, 1, 1, 1,
     1, 1, 1, 1, 1, 1, 1, 1, 1, 1, 1, 1, 1, 1, 1, 1, 1, 1, 1, 1, 1, 1, 1, 1, 1, 1, 1, 1, 1, 1, 1, 23,
     0, 0, 0, 0, 0, 0, 0, 0, 0, 0, 0, 0, 1, 1, 1, 1, 1, 1, 1, 1, 1, 1, 1, 1, 1, 1, 1, 1, 1, 1, 1, 1,
     1, 1, 1, 1, 1, 1, 1, 1, 1, 1, 1, 1, 1, 1, 1, 1, 1, 1, 1, 1, 1, 1, 1, 24, 0, 0, 0, 0, 0, 0, 0, 0,
     0, 0, 0, 0, 0, 0, 0, 0, 0, 0, 0, 0, 0, 0, 0, 0, 0, 0, 0, 0, 0, 0, 0, 0, 0, 0, 0, 0, 0, 0, 0, 0]"

section \<open>Name characters and malformed sequences\<close>

definition UCS2_GET_NAMING :: "nat list \<Rightarrow> byte \<Rightarrow> byte \<Rightarrow> bool" where
  "UCS2_GET_NAMING pages hi lo =
    bit (namingBitmap ! (push_bit 3 (pages ! unat hi) + drop_bit 5 (unat lo))) (unat lo AND 0x1F)"

definition UTF8_GET_NAMING2 :: "nat list \<Rightarrow> byte list \<Rightarrow> bool" where
  "UTF8_GET_NAMING2 pages p =
    bit (namingBitmap !
          (push_bit 3 (pages ! (drop_bit 2 (unat (p ! 0)) AND 7)) +
           push_bit 1 (unat (p ! 0) AND 3) + (drop_bit 5 (unat (p ! 1)) AND 1)))
      (unat (p ! 1) AND 0x1F)"

definition UTF8_GET_NAMING3 :: "nat list \<Rightarrow> byte list \<Rightarrow> bool" where
  "UTF8_GET_NAMING3 pages p =
    bit (namingBitmap !
          (push_bit 3 (pages ! (push_bit 4 (unat (p ! 0) AND 0xF) + (drop_bit 2 (unat (p ! 1)) AND 0xF))) +
           push_bit 1 (unat (p ! 1) AND 3) + (drop_bit 5 (unat (p ! 2)) AND 1)))
      (unat (p ! 2) AND 0x1F)"

definition UTF8_INVALID2 :: "byte list \<Rightarrow> bool" where
  "UTF8_INVALID2 p \<longleftrightarrow> p ! 0 < 0xC2 \<or> p ! 1 AND 0x80 = 0 \<or> p ! 1 AND 0xC0 = 0xC0"

definition UTF8_INVALID3 :: "byte list \<Rightarrow> bool" where
  "UTF8_INVALID3 p \<longleftrightarrow>
    p ! 2 AND 0x80 = 0 \<or>
    (if p ! 0 = 0xEF \<and> p ! 1 = 0xBF then p ! 2 > 0xBD else p ! 2 AND 0xC0 = 0xC0) \<or>
    (if p ! 0 = 0xE0 then p ! 1 < 0xA0 \<or> p ! 1 AND 0xC0 = 0xC0
     else p ! 1 AND 0x80 = 0 \<or> (if p ! 0 = 0xED then p ! 1 > 0x9F else p ! 1 AND 0xC0 = 0xC0))"

definition UTF8_INVALID4 :: "byte list \<Rightarrow> bool" where
  "UTF8_INVALID4 p \<longleftrightarrow>
    p ! 3 AND 0x80 = 0 \<or> p ! 3 AND 0xC0 = 0xC0 \<or> p ! 2 AND 0x80 = 0 \<or> p ! 2 AND 0xC0 = 0xC0 \<or>
    (if p ! 0 = 0xF0 then p ! 1 < 0x90 \<or> p ! 1 AND 0xC0 = 0xC0
     else p ! 1 AND 0x80 = 0 \<or> (if p ! 0 = 0xF4 then p ! 1 > 0x8F else p ! 1 AND 0xC0 = 0xC0))"

definition isNever :: "byte list \<Rightarrow> bool" where
  "isNever p \<longleftrightarrow> False"

text \<open>
  The tests for characters of 2, 3 and 4 bytes, which \<open>struct normal_encoding\<close> has in a column of function
  pointers each, indexed here by the number of bytes.
\<close>

definition utf8_isName :: "nat \<Rightarrow> byte list \<Rightarrow> bool" where
  "utf8_isName n = (if n = 2 then UTF8_GET_NAMING2 namePages else if n = 3 then UTF8_GET_NAMING3 namePages else isNever)"

definition utf8_isNmstrt :: "nat \<Rightarrow> byte list \<Rightarrow> bool" where
  "utf8_isNmstrt n = (if n = 2 then UTF8_GET_NAMING2 nmstrtPages else if n = 3 then UTF8_GET_NAMING3 nmstrtPages else isNever)"

definition utf8_isInvalid :: "nat \<Rightarrow> byte list \<Rightarrow> bool" where
  "utf8_isInvalid n = (if n = 2 then UTF8_INVALID2 else if n = 3 then UTF8_INVALID3 else UTF8_INVALID4)"

definition unicode_byte_type :: "byte \<Rightarrow> byte \<Rightarrow> BT" where
  "unicode_byte_type hi lo =
    (if hi \<in> {0xD8, 0xD9, 0xDA, 0xDB} then BT_LEAD4
     else if hi \<in> {0xDC, 0xDD, 0xDE, 0xDF} then BT_TRAIL
     else if hi = 0xFF \<and> lo \<in> {0xFF, 0xFE} then BT_NONXML
     else BT_NONASCII)"

section \<open>Encodings\<close>

record vtable =
  isName :: "nat \<Rightarrow> byte list \<Rightarrow> bool"
  isNmstrt :: "nat \<Rightarrow> byte list \<Rightarrow> bool"
  isInvalid :: "nat \<Rightarrow> byte list \<Rightarrow> bool"

text \<open>
  The family says which copy of \<open>xmltok_impl.c\<close> the scanners come from. An encoding without multi-byte
  characters has null pointers in place of the tests.
\<close>

record ENCODING =
  family :: encoding
  typetab :: "BT list"
  tests :: "vtable option"

definition utf8_vtable :: vtable where
  "utf8_vtable = \<lparr>isName = utf8_isName, isNmstrt = utf8_isNmstrt, isInvalid = utf8_isInvalid\<rparr>"

definition utf8_encoding_ns :: ENCODING where
  "utf8_encoding_ns = \<lparr>family = Normal_enc, typetab = asciitab BT_COLON @ utf8tab, tests = Some utf8_vtable\<rparr>"

definition utf8_encoding :: ENCODING where
  "utf8_encoding = \<lparr>family = Normal_enc, typetab = asciitab BT_NMSTRT @ utf8tab, tests = Some utf8_vtable\<rparr>"

definition internal_utf8_encoding_ns :: ENCODING where
  "internal_utf8_encoding_ns = \<lparr>family = Normal_enc, typetab = iasciitab BT_COLON @ utf8tab, tests = Some utf8_vtable\<rparr>"

definition internal_utf8_encoding :: ENCODING where
  "internal_utf8_encoding = \<lparr>family = Normal_enc, typetab = iasciitab BT_NMSTRT @ utf8tab, tests = Some utf8_vtable\<rparr>"

definition latin1_encoding_ns :: ENCODING where
  "latin1_encoding_ns = \<lparr>family = Normal_enc, typetab = asciitab BT_COLON @ latin1tab, tests = None\<rparr>"

definition latin1_encoding :: ENCODING where
  "latin1_encoding = \<lparr>family = Normal_enc, typetab = asciitab BT_NMSTRT @ latin1tab, tests = None\<rparr>"

definition ascii_encoding_ns :: ENCODING where
  "ascii_encoding_ns = \<lparr>family = Normal_enc, typetab = asciitab BT_COLON @ replicate 128 BT_NONXML, tests = None\<rparr>"

definition ascii_encoding :: ENCODING where
  "ascii_encoding = \<lparr>family = Normal_enc, typetab = asciitab BT_NMSTRT @ replicate 128 BT_NONXML, tests = None\<rparr>"

definition little2_encoding_ns :: ENCODING where
  "little2_encoding_ns = \<lparr>family = Little2_enc, typetab = asciitab BT_COLON @ latin1tab, tests = None\<rparr>"

definition little2_encoding :: ENCODING where
  "little2_encoding = \<lparr>family = Little2_enc, typetab = asciitab BT_NMSTRT @ latin1tab, tests = None\<rparr>"

definition internal_little2_encoding_ns :: ENCODING where
  "internal_little2_encoding_ns = \<lparr>family = Little2_enc, typetab = iasciitab BT_COLON @ latin1tab, tests = None\<rparr>"

definition internal_little2_encoding :: ENCODING where
  "internal_little2_encoding = \<lparr>family = Little2_enc, typetab = iasciitab BT_NMSTRT @ latin1tab, tests = None\<rparr>"

definition big2_encoding_ns :: ENCODING where
  "big2_encoding_ns = \<lparr>family = Big2_enc, typetab = asciitab BT_COLON @ latin1tab, tests = None\<rparr>"

definition big2_encoding :: ENCODING where
  "big2_encoding = \<lparr>family = Big2_enc, typetab = asciitab BT_NMSTRT @ latin1tab, tests = None\<rparr>"

definition built_in_encodings :: "ENCODING list" where
  "built_in_encodings =
    [utf8_encoding_ns, utf8_encoding, internal_utf8_encoding_ns, internal_utf8_encoding, latin1_encoding_ns, latin1_encoding,
     ascii_encoding_ns, ascii_encoding, little2_encoding_ns, little2_encoding, internal_little2_encoding_ns,
     internal_little2_encoding, big2_encoding_ns, big2_encoding]"

section \<open>The macros of the scanners\<close>

definition MINBPC :: "ENCODING \<Rightarrow> nat" where
  "MINBPC enc = MIN_BYTES_PER_CHAR (family enc)"

definition BYTE_TYPE :: "ENCODING \<Rightarrow> byte list \<Rightarrow> BT" where
  "BYTE_TYPE enc p =
    (case family enc of
       Normal_enc \<Rightarrow> typetab enc ! unat (p ! 0)
     | Little2_enc \<Rightarrow> if p ! 1 = 0 then typetab enc ! unat (p ! 0) else unicode_byte_type (p ! 1) (p ! 0)
     | Big2_enc \<Rightarrow> if p ! 0 = 0 then typetab enc ! unat (p ! 1) else unicode_byte_type (p ! 0) (p ! 1))"

definition BYTE_TO_ASCII :: "ENCODING \<Rightarrow> byte list \<Rightarrow> int" where
  "BYTE_TO_ASCII enc p =
    (case family enc of
       Normal_enc \<Rightarrow> uint (p ! 0)
     | Little2_enc \<Rightarrow> if p ! 1 = 0 then uint (p ! 0) else - 1
     | Big2_enc \<Rightarrow> if p ! 0 = 0 then uint (p ! 1) else - 1)"

definition char_is :: "ENCODING \<Rightarrow> byte list \<Rightarrow> byte \<Rightarrow> bool" where
  "char_is enc p c = CHAR_MATCHES (family enc) p c"

definition minbpc_naming :: "ENCODING \<Rightarrow> nat list \<Rightarrow> byte list \<Rightarrow> bool" where
  "minbpc_naming enc pages p =
    (case family enc of
       Normal_enc \<Rightarrow> False
     | Little2_enc \<Rightarrow> UCS2_GET_NAMING pages (p ! 1) (p ! 0)
     | Big2_enc \<Rightarrow> UCS2_GET_NAMING pages (p ! 0) (p ! 1))"

definition IS_NAME_CHAR_MINBPC :: "ENCODING \<Rightarrow> byte list \<Rightarrow> bool" where
  "IS_NAME_CHAR_MINBPC enc p = minbpc_naming enc namePages p"

definition IS_NMSTRT_CHAR_MINBPC :: "ENCODING \<Rightarrow> byte list \<Rightarrow> bool" where
  "IS_NMSTRT_CHAR_MINBPC enc p = minbpc_naming enc nmstrtPages p"

text \<open>A call of a test through a null pointer is \<open>None\<close>. The UTF-16 scanners have the constant 0 for the tests.\<close>

definition call_test :: "ENCODING \<Rightarrow> (vtable \<Rightarrow> nat \<Rightarrow> byte list \<Rightarrow> bool) \<Rightarrow> nat \<Rightarrow> byte list \<Rightarrow> bool option" where
  "call_test enc f n p = (if family enc = Normal_enc then map_option (\<lambda>v. f v n p) (tests enc) else Some False)"

definition IS_NAME_CHAR :: "ENCODING \<Rightarrow> byte list \<Rightarrow> nat \<Rightarrow> bool option" where
  "IS_NAME_CHAR enc p n = call_test enc isName n p"

definition IS_NMSTRT_CHAR :: "ENCODING \<Rightarrow> byte list \<Rightarrow> nat \<Rightarrow> bool option" where
  "IS_NMSTRT_CHAR enc p n = call_test enc isNmstrt n p"

definition IS_INVALID_CHAR :: "ENCODING \<Rightarrow> byte list \<Rightarrow> nat \<Rightarrow> bool option" where
  "IS_INVALID_CHAR enc p n = call_test enc isInvalid n p"

lemma MINBPC_pos [simp]: "0 < MINBPC enc" "MINBPC enc \<noteq> 0"
  by (simp_all add: MINBPC_def)

end
