(* ===== verification/Xml_Scan.thy ===== *)
theory Xml_Scan
  imports Xml_Encoding
begin

text \<open>
  The scanners of expat's \<open>xmltok_impl.c\<close>, which cut the input into tokens: tags, references, character
  data, sections, comments and processing instructions, and the tokens of the prolog.

  A scanner is called with a pointer \<open>ptr\<close> and the end of the buffer, here the list of the bytes between them. It
  returns a token and, through \<open>nextTokPtr\<close>, the place where the token ends; \<open>None\<close> stands for a
  \<open>nextTokPtr\<close> that was not written. A call through a null pointer, a loop that makes no progress and a pointer that
  moves past the end of the buffer are \<open>Undefined\<close>.
\<close>

section \<open>Tokens, characters and outcomes\<close>

abbreviation (input) XML_TOK_TRAILING_RSQB :: int where "XML_TOK_TRAILING_RSQB \<equiv> - 5"
abbreviation (input) XML_TOK_TRAILING_CR :: int where "XML_TOK_TRAILING_CR \<equiv> - 3"
abbreviation (input) XML_TOK_PARTIAL_CHAR :: int where "XML_TOK_PARTIAL_CHAR \<equiv> - 2"
abbreviation (input) XML_TOK_PARTIAL :: int where "XML_TOK_PARTIAL \<equiv> - 1"
abbreviation (input) XML_TOK_INVALID :: int where "XML_TOK_INVALID \<equiv> 0"
abbreviation (input) XML_TOK_START_TAG_WITH_ATTS :: int where "XML_TOK_START_TAG_WITH_ATTS \<equiv> 1"
abbreviation (input) XML_TOK_START_TAG_NO_ATTS :: int where "XML_TOK_START_TAG_NO_ATTS \<equiv> 2"
abbreviation (input) XML_TOK_EMPTY_ELEMENT_WITH_ATTS :: int where "XML_TOK_EMPTY_ELEMENT_WITH_ATTS \<equiv> 3"
abbreviation (input) XML_TOK_EMPTY_ELEMENT_NO_ATTS :: int where "XML_TOK_EMPTY_ELEMENT_NO_ATTS \<equiv> 4"
abbreviation (input) XML_TOK_END_TAG :: int where "XML_TOK_END_TAG \<equiv> 5"
abbreviation (input) XML_TOK_DATA_CHARS :: int where "XML_TOK_DATA_CHARS \<equiv> 6"
abbreviation (input) XML_TOK_DATA_NEWLINE :: int where "XML_TOK_DATA_NEWLINE \<equiv> 7"
abbreviation (input) XML_TOK_CDATA_SECT_OPEN :: int where "XML_TOK_CDATA_SECT_OPEN \<equiv> 8"
abbreviation (input) XML_TOK_ENTITY_REF :: int where "XML_TOK_ENTITY_REF \<equiv> 9"
abbreviation (input) XML_TOK_CHAR_REF :: int where "XML_TOK_CHAR_REF \<equiv> 10"
abbreviation (input) XML_TOK_ATTRIBUTE_VALUE_S :: int where "XML_TOK_ATTRIBUTE_VALUE_S \<equiv> 39"
abbreviation (input) XML_TOK_CDATA_SECT_CLOSE :: int where "XML_TOK_CDATA_SECT_CLOSE \<equiv> 40"
abbreviation (input) XML_TOK_IGNORE_SECT :: int where "XML_TOK_IGNORE_SECT \<equiv> 42"

abbreviation (input) ASCII_TAB :: byte where "ASCII_TAB \<equiv> 0x09"
abbreviation (input) ASCII_EXCL :: byte where "ASCII_EXCL \<equiv> 0x21"
abbreviation (input) ASCII_MINUS :: byte where "ASCII_MINUS \<equiv> 0x2D"
abbreviation (input) ASCII_GT :: byte where "ASCII_GT \<equiv> 0x3E"
abbreviation (input) ASCII_LSQB :: byte where "ASCII_LSQB \<equiv> 0x5B"
abbreviation (input) ASCII_RSQB :: byte where "ASCII_RSQB \<equiv> 0x5D"
abbreviation (input) ASCII_x :: byte where "ASCII_x \<equiv> 0x78"

text \<open>
  Control leaves a piece of a scanner in one of three ways: by a \<open>return\<close>, by a \<open>break\<close> with \<open>ptr\<close> at some
  place, or not at all. One pass through the body of a loop ends in another pass or leaves the loop.
\<close>

datatype outcome = Return int "byte list option" | Break "byte list" | Undefined

datatype 's pass = Next 's "byte list" | Exit outcome

definition PARTIAL :: outcome where
  "PARTIAL = Return XML_TOK_PARTIAL None"

definition INVALID :: "byte list \<Rightarrow> outcome" where
  "INVALID ptr = Return XML_TOK_INVALID (Some ptr)"

definition token_at :: "int \<Rightarrow> byte list \<Rightarrow> outcome" where
  "token_at tok ptr = Return tok (Some ptr)"

definition HAS_CHARS :: "ENCODING \<Rightarrow> byte list \<Rightarrow> nat \<Rightarrow> bool" where
  "HAS_CHARS enc ptr k \<longleftrightarrow> k * MINBPC enc \<le> length ptr"

definition HAS_CHAR :: "ENCODING \<Rightarrow> byte list \<Rightarrow> bool" where
  "HAS_CHAR enc ptr \<longleftrightarrow> HAS_CHARS enc ptr 1"

text \<open>\<open>ptr + MINBPC(enc)\<close>\<close>

definition adv :: "ENCODING \<Rightarrow> byte list \<Rightarrow> byte list" where
  "adv enc ptr = drop (MINBPC enc) ptr"

lemma adv_shorter: "HAS_CHAR enc p \<Longrightarrow> length (adv enc p) < length p"
  using MINBPC_pos(1) [of enc] unfolding HAS_CHAR_def HAS_CHARS_def adv_def length_drop by linarith

text \<open>A loop \<open>while (HAS_CHAR (enc, ptr, end)) body\<close>; \<open>fell\<close> is what follows it.\<close>

function scan_loop ::
  "ENCODING \<Rightarrow> ('s \<Rightarrow> byte list \<Rightarrow> 's pass) \<Rightarrow> ('s \<Rightarrow> byte list \<Rightarrow> outcome) \<Rightarrow> 's \<Rightarrow> byte list \<Rightarrow> outcome" where
  "scan_loop enc body fell s ptr =
    (if \<not> HAS_CHAR enc ptr then fell s ptr
     else case body s ptr of
       Exit r \<Rightarrow> r
     | Next s' q \<Rightarrow> if length q < length ptr then scan_loop enc body fell s' q else Undefined)"
  by pat_completeness auto
termination
  by (relation "measure (\<lambda>(enc, body, fell, s, ptr). length ptr)") auto

declare scan_loop.simps [simp del]

section \<open>Shared cases\<close>

definition lead_bytes :: "BT \<Rightarrow> nat" where
  "lead_bytes t = (if t = BT_LEAD2 then 2 else if t = BT_LEAD3 then 3 else if t = BT_LEAD4 then 4 else 0)"

definition BT_SPACES :: "BT list" where
  "BT_SPACES = [BT_S, BT_CR, BT_LF]"

text \<open>
  The macros with the cases that several scanners share. \<open>None\<close> says that none of the labels of the macro
  applies. A short-circuit \<open>||\<close> calls its second test only when the first one fails.
\<close>

definition INVALID_LEAD_CASE :: "ENCODING \<Rightarrow> byte list \<Rightarrow> nat \<Rightarrow> outcome" where
  "INVALID_LEAD_CASE enc ptr n =
    (if length ptr < n then Return XML_TOK_PARTIAL_CHAR None
     else case IS_INVALID_CHAR enc ptr n of
       None \<Rightarrow> Undefined
     | Some True \<Rightarrow> INVALID ptr
     | Some False \<Rightarrow> Break (drop n ptr))"

definition INVALID_CASES :: "ENCODING \<Rightarrow> byte list \<Rightarrow> outcome option" where
  "INVALID_CASES enc ptr =
    (let t = BYTE_TYPE enc ptr in
     if 0 < lead_bytes t then Some (INVALID_LEAD_CASE enc ptr (lead_bytes t))
     else if t \<in> {BT_NONXML, BT_MALFORM, BT_TRAIL} then Some (INVALID ptr)
     else None)"

definition check_lead ::
  "(ENCODING \<Rightarrow> byte list \<Rightarrow> nat \<Rightarrow> bool option) \<Rightarrow> ENCODING \<Rightarrow> byte list \<Rightarrow> nat \<Rightarrow> outcome" where
  "check_lead is_char enc ptr n =
    (if length ptr < n then Return XML_TOK_PARTIAL_CHAR None
     else case IS_INVALID_CHAR enc ptr n of
       None \<Rightarrow> Undefined
     | Some True \<Rightarrow> INVALID ptr
     | Some False \<Rightarrow>
         (case is_char enc ptr n of
            None \<Rightarrow> Undefined
          | Some False \<Rightarrow> INVALID ptr
          | Some True \<Rightarrow> Break (drop n ptr)))"

definition CHECK_NAME_CASES :: "ENCODING \<Rightarrow> byte list \<Rightarrow> outcome option" where
  "CHECK_NAME_CASES enc ptr =
    (let t = BYTE_TYPE enc ptr in
     if t = BT_NONASCII \<and> \<not> IS_NAME_CHAR_MINBPC enc ptr then Some (INVALID ptr)
     else if t \<in> {BT_NONASCII, BT_NMSTRT, BT_HEX, BT_DIGIT, BT_NAME, BT_MINUS} then Some (Break (adv enc ptr))
     else if 0 < lead_bytes t then Some (check_lead IS_NAME_CHAR enc ptr (lead_bytes t))
     else None)"

definition CHECK_NMSTRT_CASES :: "ENCODING \<Rightarrow> byte list \<Rightarrow> outcome option" where
  "CHECK_NMSTRT_CASES enc ptr =
    (let t = BYTE_TYPE enc ptr in
     if t = BT_NONASCII \<and> \<not> IS_NMSTRT_CHAR_MINBPC enc ptr then Some (INVALID ptr)
     else if t \<in> {BT_NONASCII, BT_NMSTRT, BT_HEX} then Some (Break (adv enc ptr))
     else if 0 < lead_bytes t then Some (check_lead IS_NMSTRT_CHAR enc ptr (lead_bytes t))
     else None)"

text \<open>
  A \<open>switch\<close> that begins with the cases of a macro: \<open>go\<close> follows a \<open>break\<close> of the macro, \<open>other\<close> are the
  remaining labels. The first form is for the body of a loop, the second one for straight-line code.
\<close>

definition switch_pass :: "outcome option \<Rightarrow> (byte list \<Rightarrow> 's pass) \<Rightarrow> 's pass \<Rightarrow> 's pass" where
  "switch_pass m go other =
    (case m of None \<Rightarrow> other | Some (Break q) \<Rightarrow> go q | Some (Return t q) \<Rightarrow> Exit (Return t q) | Some Undefined \<Rightarrow> Exit Undefined)"

definition switch :: "outcome option \<Rightarrow> (byte list \<Rightarrow> outcome) \<Rightarrow> outcome \<Rightarrow> outcome" where
  "switch m go other =
    (case m of None \<Rightarrow> other | Some (Break q) \<Rightarrow> go q | Some (Return t q) \<Rightarrow> Return t q | Some Undefined \<Rightarrow> Undefined)"

text \<open>What follows a loop or a \<open>switch\<close> that was left by a \<open>break\<close>.\<close>

definition then_pass :: "outcome \<Rightarrow> (byte list \<Rightarrow> 's pass) \<Rightarrow> 's pass" where
  "then_pass r go = switch_pass (Some r) go (Exit Undefined)"

definition then_do :: "outcome \<Rightarrow> (byte list \<Rightarrow> outcome) \<Rightarrow> outcome" where
  "then_do r go = switch (Some r) go Undefined"

section \<open>Comments, declarations, processing instructions\<close>

definition scanComment_body :: "ENCODING \<Rightarrow> unit \<Rightarrow> byte list \<Rightarrow> unit pass" where
  "scanComment_body enc s ptr =
    switch_pass (INVALID_CASES enc ptr) (Next s)
      (if BYTE_TYPE enc ptr = BT_MINUS then
         if \<not> HAS_CHAR enc (adv enc ptr) then Exit PARTIAL
         else if char_is enc (adv enc ptr) ASCII_MINUS then
           if \<not> HAS_CHAR enc (adv enc (adv enc ptr)) then Exit PARTIAL
           else if \<not> char_is enc (adv enc (adv enc ptr)) ASCII_GT then Exit (INVALID (adv enc (adv enc ptr)))
           else Exit (token_at XML_TOK_COMMENT (adv enc (adv enc (adv enc ptr))))
         else Next s (adv enc ptr)
       else Next s (adv enc ptr))"

definition scanComment :: "ENCODING \<Rightarrow> byte list \<Rightarrow> outcome" where
  "scanComment enc ptr =
    (if HAS_CHAR enc ptr then
       if \<not> char_is enc ptr ASCII_MINUS then INVALID ptr
       else scan_loop enc (scanComment_body enc) (\<lambda>s p. PARTIAL) () (adv enc ptr)
     else PARTIAL)"

definition scanDecl_body :: "ENCODING \<Rightarrow> unit \<Rightarrow> byte list \<Rightarrow> unit pass" where
  "scanDecl_body enc s ptr =
    (let t = BYTE_TYPE enc ptr in
     if t = BT_PERCNT then
       if \<not> HAS_CHARS enc ptr 2 then Exit PARTIAL
       else if BYTE_TYPE enc (adv enc ptr) \<in> {BT_S, BT_CR, BT_LF, BT_PERCNT} then Exit (INVALID ptr)
       else Exit (token_at XML_TOK_DECL_OPEN ptr)
     else if t \<in> set BT_SPACES then Exit (token_at XML_TOK_DECL_OPEN ptr)
     else if t \<in> {BT_NMSTRT, BT_HEX} then Next s (adv enc ptr)
     else Exit (INVALID ptr))"

definition scanDecl :: "ENCODING \<Rightarrow> byte list \<Rightarrow> outcome" where
  "scanDecl enc ptr =
    (if \<not> HAS_CHAR enc ptr then PARTIAL
     else let t = BYTE_TYPE enc ptr in
       if t = BT_MINUS then scanComment enc (adv enc ptr)
       else if t = BT_LSQB then token_at XML_TOK_COND_SECT_OPEN (adv enc ptr)
       else if t \<in> {BT_NMSTRT, BT_HEX} then scan_loop enc (scanDecl_body enc) (\<lambda>s p. PARTIAL) () (adv enc ptr)
       else INVALID ptr)"

text \<open>The target is the text between \<open>ptr\<close> and \<open>end\<close>. The result is \<open>None\<close> for the return value 0, else the token.\<close>

definition checkPiTarget :: "ENCODING \<Rightarrow> byte list \<Rightarrow> int option" where
  "checkPiTarget enc target =
    (if length target \<noteq> MINBPC enc * 3 then Some XML_TOK_PI
     else
       let c0 = BYTE_TO_ASCII enc target; c1 = BYTE_TO_ASCII enc (adv enc target);
           c2 = BYTE_TO_ASCII enc (adv enc (adv enc target)) in
       if c0 \<notin> {0x78, 0x58} \<or> c1 \<notin> {0x6D, 0x4D} \<or> c2 \<notin> {0x6C, 0x4C} then Some XML_TOK_PI
       else if c0 = 0x58 \<or> c1 = 0x4D \<or> c2 = 0x4C then None
       else Some XML_TOK_XML_DECL)"

text \<open>The text from \<open>start\<close> up to a later place in the same buffer.\<close>

definition upto_ptr :: "byte list \<Rightarrow> byte list \<Rightarrow> byte list" where
  "upto_ptr start ptr = take (length start - length ptr) start"

definition scanPi_rest :: "ENCODING \<Rightarrow> int \<Rightarrow> byte list \<Rightarrow> int pass" where
  "scanPi_rest enc tok ptr =
    switch_pass (INVALID_CASES enc ptr) (Next tok)
      (if BYTE_TYPE enc ptr = BT_QUEST then
         if \<not> HAS_CHAR enc (adv enc ptr) then Exit PARTIAL
         else if char_is enc (adv enc ptr) ASCII_GT then Exit (token_at tok (adv enc (adv enc ptr)))
         else Next tok (adv enc ptr)
       else Next tok (adv enc ptr))"

definition scanPi_body :: "ENCODING \<Rightarrow> byte list \<Rightarrow> unit \<Rightarrow> byte list \<Rightarrow> unit pass" where
  "scanPi_body enc target s ptr =
    switch_pass (CHECK_NAME_CASES enc ptr) (Next s)
      (let t = BYTE_TYPE enc ptr in
       if t \<in> set BT_SPACES then
         (case checkPiTarget enc (upto_ptr target ptr) of
            None \<Rightarrow> Exit (INVALID ptr)
          | Some tok \<Rightarrow> Exit (scan_loop enc (scanPi_rest enc) (\<lambda>s p. PARTIAL) tok (adv enc ptr)))
       else if t = BT_QUEST then
         (case checkPiTarget enc (upto_ptr target ptr) of
            None \<Rightarrow> Exit (INVALID ptr)
          | Some tok \<Rightarrow>
              if \<not> HAS_CHAR enc (adv enc ptr) then Exit PARTIAL
              else if char_is enc (adv enc ptr) ASCII_GT then Exit (token_at tok (adv enc (adv enc ptr)))
              else Exit (INVALID (adv enc ptr)))
       else Exit (INVALID ptr))"

definition scanPi :: "ENCODING \<Rightarrow> byte list \<Rightarrow> outcome" where
  "scanPi enc ptr =
    (if \<not> HAS_CHAR enc ptr then PARTIAL
     else switch (CHECK_NMSTRT_CASES enc ptr)
       (scan_loop enc (scanPi_body enc ptr) (\<lambda>s p. PARTIAL) ())
       (INVALID ptr))"

section \<open>CDATA sections\<close>

fun match_chars :: "ENCODING \<Rightarrow> byte list \<Rightarrow> int \<Rightarrow> byte list \<Rightarrow> outcome" where
  "match_chars enc [] tok ptr = token_at tok ptr"
| "match_chars enc (c # cs) tok ptr =
    (if \<not> char_is enc ptr c then INVALID ptr else match_chars enc cs tok (adv enc ptr))"

definition CDATA_LSQB :: "byte list" where
  "CDATA_LSQB = ascii ''CDATA[''"

definition scanCdataSection :: "ENCODING \<Rightarrow> byte list \<Rightarrow> outcome" where
  "scanCdataSection enc ptr =
    (if \<not> HAS_CHARS enc ptr 6 then PARTIAL else match_chars enc CDATA_LSQB XML_TOK_CDATA_SECT_OPEN ptr)"

text \<open>
  The tokenizers first cut off an incomplete character at the end of a UTF-16 buffer. The bytes they cut off are
  still there after the token.
\<close>

definition with_tail :: "byte list \<Rightarrow> outcome \<Rightarrow> outcome" where
  "with_tail extra r = (case r of Return t q \<Rightarrow> Return t (map_option (\<lambda>p. p @ extra) q) | _ \<Rightarrow> r)"

definition whole_chars :: "ENCODING \<Rightarrow> (byte list \<Rightarrow> outcome) \<Rightarrow> byte list \<Rightarrow> outcome" where
  "whole_chars enc f ptr =
    (let n = length ptr - length ptr mod MINBPC enc in
     if n = 0 then PARTIAL else with_tail (drop n ptr) (f (take n ptr)))"

text \<open>Character data ends at a character that is incomplete or malformed.\<close>

definition data_lead :: "ENCODING \<Rightarrow> byte list \<Rightarrow> nat \<Rightarrow> unit pass" where
  "data_lead enc ptr n =
    (if length ptr < n then Exit (token_at XML_TOK_DATA_CHARS ptr)
     else case IS_INVALID_CHAR enc ptr n of
       None \<Rightarrow> Exit Undefined
     | Some True \<Rightarrow> Exit (token_at XML_TOK_DATA_CHARS ptr)
     | Some False \<Rightarrow> Next () (drop n ptr))"

definition cdata_body :: "ENCODING \<Rightarrow> unit \<Rightarrow> byte list \<Rightarrow> unit pass" where
  "cdata_body enc s ptr =
    (let t = BYTE_TYPE enc ptr in
     if 0 < lead_bytes t then data_lead enc ptr (lead_bytes t)
     else if t \<in> {BT_NONXML, BT_MALFORM, BT_TRAIL, BT_CR, BT_LF, BT_RSQB} then Exit (token_at XML_TOK_DATA_CHARS ptr)
     else Next s (adv enc ptr))"

definition cdata_start :: "ENCODING \<Rightarrow> byte list \<Rightarrow> outcome" where
  "cdata_start enc ptr =
    switch (INVALID_CASES enc ptr) Break
      (let t = BYTE_TYPE enc ptr in
       if t = BT_RSQB then
         if \<not> HAS_CHAR enc (adv enc ptr) then PARTIAL
         else if \<not> char_is enc (adv enc ptr) ASCII_RSQB then Break (adv enc ptr)
         else if \<not> HAS_CHAR enc (adv enc (adv enc ptr)) then PARTIAL
         else if \<not> char_is enc (adv enc (adv enc ptr)) ASCII_GT then Break (adv enc ptr)
         else token_at XML_TOK_CDATA_SECT_CLOSE (adv enc (adv enc (adv enc ptr)))
       else if t = BT_CR then
         if \<not> HAS_CHAR enc (adv enc ptr) then PARTIAL
         else if BYTE_TYPE enc (adv enc ptr) = BT_LF then token_at XML_TOK_DATA_NEWLINE (adv enc (adv enc ptr))
         else token_at XML_TOK_DATA_NEWLINE (adv enc ptr)
       else if t = BT_LF then token_at XML_TOK_DATA_NEWLINE (adv enc ptr)
       else Break (adv enc ptr))"

definition cdata_chars :: "ENCODING \<Rightarrow> byte list \<Rightarrow> outcome" where
  "cdata_chars enc ptr =
    then_do (cdata_start enc ptr) (scan_loop enc (cdata_body enc) (\<lambda>s. token_at XML_TOK_DATA_CHARS) ())"

definition cdataSectionTok :: "ENCODING \<Rightarrow> byte list \<Rightarrow> outcome" where
  "cdataSectionTok enc ptr = (if ptr = [] then Return XML_TOK_NONE None else whole_chars enc (cdata_chars enc) ptr)"

end
