(* ===== verification/Xml_Content.thy ===== *)
theory Xml_Content
  imports Xml_Scan
begin

text \<open>The scanners of expat's \<open>xmltok_impl.c\<close> for the content of an element: tags, references and character data.\<close>

section \<open>End tags and references\<close>

definition scanEndTag_space :: "ENCODING \<Rightarrow> unit \<Rightarrow> byte list \<Rightarrow> unit pass" where
  "scanEndTag_space enc s ptr =
    (let t = BYTE_TYPE enc ptr in
     if t \<in> set BT_SPACES then Next s (adv enc ptr)
     else if t = BT_GT then Exit (token_at XML_TOK_END_TAG (adv enc ptr))
     else Exit (INVALID ptr))"

definition scanEndTag_body :: "ENCODING \<Rightarrow> unit \<Rightarrow> byte list \<Rightarrow> unit pass" where
  "scanEndTag_body enc s ptr =
    switch_pass (CHECK_NAME_CASES enc ptr) (Next s)
      (let t = BYTE_TYPE enc ptr in
       if t \<in> set BT_SPACES then Exit (scan_loop enc (scanEndTag_space enc) (\<lambda>s p. PARTIAL) () (adv enc ptr))
       else if t = BT_COLON then Next s (adv enc ptr)
       else if t = BT_GT then Exit (token_at XML_TOK_END_TAG (adv enc ptr))
       else Exit (INVALID ptr))"

definition scanEndTag :: "ENCODING \<Rightarrow> byte list \<Rightarrow> outcome" where
  "scanEndTag enc ptr =
    (if \<not> HAS_CHAR enc ptr then PARTIAL
     else switch (CHECK_NMSTRT_CASES enc ptr) (scan_loop enc (scanEndTag_body enc) (\<lambda>s p. PARTIAL) ()) (INVALID ptr))"

definition digits_body :: "BT list \<Rightarrow> ENCODING \<Rightarrow> unit \<Rightarrow> byte list \<Rightarrow> unit pass" where
  "digits_body ds enc s ptr =
    (let t = BYTE_TYPE enc ptr in
     if t \<in> set ds then Next s (adv enc ptr)
     else if t = BT_SEMI then Exit (token_at XML_TOK_CHAR_REF (adv enc ptr))
     else Exit (INVALID ptr))"

definition scanHexCharRef :: "ENCODING \<Rightarrow> byte list \<Rightarrow> outcome" where
  "scanHexCharRef enc ptr =
    (if HAS_CHAR enc ptr then
       if BYTE_TYPE enc ptr \<notin> {BT_DIGIT, BT_HEX} then INVALID ptr
       else scan_loop enc (digits_body [BT_DIGIT, BT_HEX] enc) (\<lambda>s p. PARTIAL) () (adv enc ptr)
     else PARTIAL)"

definition scanCharRef :: "ENCODING \<Rightarrow> byte list \<Rightarrow> outcome" where
  "scanCharRef enc ptr =
    (if HAS_CHAR enc ptr then
       if char_is enc ptr ASCII_x then scanHexCharRef enc (adv enc ptr)
       else if BYTE_TYPE enc ptr \<noteq> BT_DIGIT then INVALID ptr
       else scan_loop enc (digits_body [BT_DIGIT] enc) (\<lambda>s p. PARTIAL) () (adv enc ptr)
     else PARTIAL)"

definition name_then_semi :: "int \<Rightarrow> ENCODING \<Rightarrow> unit \<Rightarrow> byte list \<Rightarrow> unit pass" where
  "name_then_semi tok enc s ptr =
    switch_pass (CHECK_NAME_CASES enc ptr) (Next s)
      (if BYTE_TYPE enc ptr = BT_SEMI then Exit (token_at tok (adv enc ptr)) else Exit (INVALID ptr))"

definition scanRef :: "ENCODING \<Rightarrow> byte list \<Rightarrow> outcome" where
  "scanRef enc ptr =
    (if \<not> HAS_CHAR enc ptr then PARTIAL
     else switch (CHECK_NMSTRT_CASES enc ptr)
       (scan_loop enc (name_then_semi XML_TOK_ENTITY_REF enc) (\<lambda>s p. PARTIAL) ())
       (if BYTE_TYPE enc ptr = BT_NUM then scanCharRef enc (adv enc ptr) else INVALID ptr))"

section \<open>Start tags\<close>

text \<open>The end of a tag after its solidus.\<close>

definition sol :: "ENCODING \<Rightarrow> int \<Rightarrow> byte list \<Rightarrow> outcome" where
  "sol enc tok ptr =
    (if \<not> HAS_CHAR enc (adv enc ptr) then PARTIAL
     else if \<not> char_is enc (adv enc ptr) ASCII_GT then INVALID (adv enc ptr)
     else token_at tok (adv enc (adv enc ptr)))"

definition colon_case :: "ENCODING \<Rightarrow> bool \<Rightarrow> byte list \<Rightarrow> bool pass" where
  "colon_case enc hadColon ptr =
    (if hadColon then Exit (INVALID ptr)
     else if \<not> HAS_CHAR enc (adv enc ptr) then Exit PARTIAL
     else switch_pass (CHECK_NMSTRT_CASES enc (adv enc ptr)) (Next True) (Exit (INVALID (adv enc ptr))))"

text \<open>Between the name of an attribute and the sign \<open>=\<close>, and from there to the opening quote.\<close>

definition equals_body :: "ENCODING \<Rightarrow> BT list \<Rightarrow> unit \<Rightarrow> byte list \<Rightarrow> unit pass" where
  "equals_body enc ends s ptr =
    (let t = BYTE_TYPE enc ptr in
     if t \<in> set ends then Exit (Break ptr)
     else if t \<in> set BT_SPACES then Next s (adv enc ptr)
     else Exit (INVALID ptr))"

definition skip_to :: "ENCODING \<Rightarrow> BT list \<Rightarrow> byte list \<Rightarrow> outcome" where
  "skip_to enc ends ptr = scan_loop enc (equals_body enc ends) (\<lambda>s p. PARTIAL) () (adv enc ptr)"

text \<open>
  In an attribute value. \<open>scanRef\<close> stores the end of the reference into \<open>ptr\<close> itself.
\<close>

definition ref_in_value :: "outcome \<Rightarrow> byte list \<Rightarrow> unit pass" where
  "ref_in_value r ptr =
    (case r of
       Return tok q \<Rightarrow>
         (let p = (case q of None \<Rightarrow> ptr | Some x \<Rightarrow> x) in
          if tok = XML_TOK_INVALID then Exit (Return tok (Some p))
          else if tok < 0 then Exit (Return tok None)
          else Next () p)
     | _ \<Rightarrow> Exit Undefined)"

definition value_body :: "ENCODING \<Rightarrow> BT \<Rightarrow> unit \<Rightarrow> byte list \<Rightarrow> unit pass" where
  "value_body enc open s ptr =
    (let t = BYTE_TYPE enc ptr in
     if t = open then Exit (Break ptr)
     else switch_pass (INVALID_CASES enc ptr) (Next s)
       (if t = BT_AMP then ref_in_value (scanRef enc (adv enc ptr)) ptr
        else if t = BT_LT then Exit (INVALID ptr)
        else Next s (adv enc ptr)))"

text \<open>After the space that follows a closing quote.\<close>

definition next_att_body :: "ENCODING \<Rightarrow> unit \<Rightarrow> byte list \<Rightarrow> unit pass" where
  "next_att_body enc s ptr =
    switch_pass (CHECK_NMSTRT_CASES enc ptr) (\<lambda>q. Exit (Break q))
      (let t = BYTE_TYPE enc ptr in
       if t \<in> set BT_SPACES then Next s (adv enc ptr)
       else if t = BT_GT then Exit (token_at XML_TOK_START_TAG_WITH_ATTS (adv enc ptr))
       else if t = BT_SOL then Exit (sol enc XML_TOK_EMPTY_ELEMENT_WITH_ATTS ptr)
       else Exit (INVALID ptr))"

definition after_value :: "ENCODING \<Rightarrow> byte list \<Rightarrow> outcome" where
  "after_value enc ptr =
    (if \<not> HAS_CHAR enc ptr then PARTIAL
     else let t = BYTE_TYPE enc ptr in
       if t \<in> set BT_SPACES then scan_loop enc (next_att_body enc) (\<lambda>s p. PARTIAL) () (adv enc ptr)
       else if t = BT_SOL then sol enc XML_TOK_EMPTY_ELEMENT_WITH_ATTS ptr
       else if t = BT_GT then token_at XML_TOK_START_TAG_WITH_ATTS (adv enc ptr)
       else INVALID ptr)"

text \<open>From the sign \<open>=\<close> of an attribute to the second character of the next one's name.\<close>

definition equals_case :: "ENCODING \<Rightarrow> byte list \<Rightarrow> outcome" where
  "equals_case enc ptr =
    then_do (skip_to enc [BT_QUOT, BT_APOS] ptr)
      (\<lambda>p. then_do (scan_loop enc (value_body enc (BYTE_TYPE enc p)) (\<lambda>s p. PARTIAL) () (adv enc p))
        (\<lambda>q. after_value enc (adv enc q)))"

definition scanAtts_body :: "ENCODING \<Rightarrow> bool \<Rightarrow> byte list \<Rightarrow> bool pass" where
  "scanAtts_body enc hadColon ptr =
    switch_pass (CHECK_NAME_CASES enc ptr) (Next hadColon)
      (let t = BYTE_TYPE enc ptr in
       if t = BT_COLON then colon_case enc hadColon ptr
       else if t \<in> set BT_SPACES then
         then_pass (skip_to enc [BT_EQUALS] ptr) (\<lambda>p. then_pass (equals_case enc p) (Next False))
       else if t = BT_EQUALS then then_pass (equals_case enc ptr) (Next False)
       else Exit (INVALID ptr))"

definition scanAtts :: "ENCODING \<Rightarrow> byte list \<Rightarrow> outcome" where
  "scanAtts enc ptr = scan_loop enc (scanAtts_body enc) (\<lambda>s p. PARTIAL) False ptr"

definition scanLt_space :: "ENCODING \<Rightarrow> unit \<Rightarrow> byte list \<Rightarrow> unit pass" where
  "scanLt_space enc s ptr =
    switch_pass (CHECK_NMSTRT_CASES enc ptr) (\<lambda>q. Exit (scanAtts enc q))
      (let t = BYTE_TYPE enc ptr in
       if t = BT_GT then Exit (token_at XML_TOK_START_TAG_NO_ATTS (adv enc ptr))
       else if t = BT_SOL then Exit (sol enc XML_TOK_EMPTY_ELEMENT_NO_ATTS ptr)
       else if t \<in> set BT_SPACES then Next s (adv enc ptr)
       else Exit (INVALID ptr))"

definition scanLt_body :: "ENCODING \<Rightarrow> bool \<Rightarrow> byte list \<Rightarrow> bool pass" where
  "scanLt_body enc hadColon ptr =
    switch_pass (CHECK_NAME_CASES enc ptr) (Next hadColon)
      (let t = BYTE_TYPE enc ptr in
       if t = BT_COLON then colon_case enc hadColon ptr
       else if t \<in> set BT_SPACES then Exit (scan_loop enc (scanLt_space enc) (\<lambda>s p. PARTIAL) () (adv enc ptr))
       else if t = BT_GT then Exit (token_at XML_TOK_START_TAG_NO_ATTS (adv enc ptr))
       else if t = BT_SOL then Exit (sol enc XML_TOK_EMPTY_ELEMENT_NO_ATTS ptr)
       else Exit (INVALID ptr))"

definition excl_case :: "ENCODING \<Rightarrow> byte list \<Rightarrow> outcome" where
  "excl_case enc ptr =
    (if \<not> HAS_CHAR enc ptr then PARTIAL
     else if BYTE_TYPE enc ptr = BT_MINUS then scanComment enc (adv enc ptr)
     else if BYTE_TYPE enc ptr = BT_LSQB then scanCdataSection enc (adv enc ptr)
     else INVALID ptr)"

definition scanLt :: "ENCODING \<Rightarrow> byte list \<Rightarrow> outcome" where
  "scanLt enc ptr =
    (if \<not> HAS_CHAR enc ptr then PARTIAL
     else switch (CHECK_NMSTRT_CASES enc ptr)
       (scan_loop enc (scanLt_body enc) (\<lambda>s p. PARTIAL) False)
       (let t = BYTE_TYPE enc ptr in
        if t = BT_EXCL then excl_case enc (adv enc ptr)
        else if t = BT_QUEST then scanPi enc (adv enc ptr)
        else if t = BT_SOL then scanEndTag enc (adv enc ptr)
        else INVALID ptr))"

section \<open>Content\<close>

definition rsqb_in_data :: "ENCODING \<Rightarrow> byte list \<Rightarrow> unit pass" where
  "rsqb_in_data enc ptr =
    (if HAS_CHARS enc ptr 2 then
       if \<not> char_is enc (adv enc ptr) ASCII_RSQB then Next () (adv enc ptr)
       else if HAS_CHARS enc ptr 3 then
         if \<not> char_is enc (adv enc (adv enc ptr)) ASCII_GT then Next () (adv enc ptr)
         else Exit (INVALID (adv enc (adv enc ptr)))
       else Exit (token_at XML_TOK_DATA_CHARS ptr)
     else Exit (token_at XML_TOK_DATA_CHARS ptr))"

definition content_body :: "ENCODING \<Rightarrow> unit \<Rightarrow> byte list \<Rightarrow> unit pass" where
  "content_body enc s ptr =
    (let t = BYTE_TYPE enc ptr in
     if 0 < lead_bytes t then data_lead enc ptr (lead_bytes t)
     else if t = BT_RSQB then rsqb_in_data enc ptr
     else if t \<in> {BT_AMP, BT_LT, BT_NONXML, BT_MALFORM, BT_TRAIL, BT_CR, BT_LF} then
       Exit (token_at XML_TOK_DATA_CHARS ptr)
     else Next s (adv enc ptr))"

definition content_start :: "ENCODING \<Rightarrow> byte list \<Rightarrow> outcome" where
  "content_start enc ptr =
    switch (INVALID_CASES enc ptr) Break
      (let t = BYTE_TYPE enc ptr in
       if t = BT_LT then scanLt enc (adv enc ptr)
       else if t = BT_AMP then scanRef enc (adv enc ptr)
       else if t = BT_CR then
         if \<not> HAS_CHAR enc (adv enc ptr) then Return XML_TOK_TRAILING_CR None
         else if BYTE_TYPE enc (adv enc ptr) = BT_LF then token_at XML_TOK_DATA_NEWLINE (adv enc (adv enc ptr))
         else token_at XML_TOK_DATA_NEWLINE (adv enc ptr)
       else if t = BT_LF then token_at XML_TOK_DATA_NEWLINE (adv enc ptr)
       else if t = BT_RSQB then
         if \<not> HAS_CHAR enc (adv enc ptr) then Return XML_TOK_TRAILING_RSQB None
         else if \<not> char_is enc (adv enc ptr) ASCII_RSQB then Break (adv enc ptr)
         else if \<not> HAS_CHAR enc (adv enc (adv enc ptr)) then Return XML_TOK_TRAILING_RSQB None
         else if \<not> char_is enc (adv enc (adv enc ptr)) ASCII_GT then Break (adv enc ptr)
         else INVALID (adv enc (adv enc ptr))
       else Break (adv enc ptr))"

definition content_chars :: "ENCODING \<Rightarrow> byte list \<Rightarrow> outcome" where
  "content_chars enc ptr =
    then_do (content_start enc ptr) (scan_loop enc (content_body enc) (\<lambda>s. token_at XML_TOK_DATA_CHARS) ())"

definition contentTok :: "ENCODING \<Rightarrow> byte list \<Rightarrow> outcome" where
  "contentTok enc ptr = (if ptr = [] then Return XML_TOK_NONE None else whole_chars enc (content_chars enc) ptr)"

end
