(* ===== verification/Xml_Prolog.thy ===== *)
theory Xml_Prolog
  imports Xml_Content
begin

text \<open>
  The scanners of expat's \<open>xmltok_impl.c\<close> for the prolog and the DTD, for the inside of literals, for ignored
  sections and for public identifiers.
\<close>

section \<open>Tokens of the prolog\<close>

definition scanPercent :: "ENCODING \<Rightarrow> byte list \<Rightarrow> outcome" where
  "scanPercent enc ptr =
    (if \<not> HAS_CHAR enc ptr then PARTIAL
     else switch (CHECK_NMSTRT_CASES enc ptr)
       (scan_loop enc (name_then_semi XML_TOK_PARAM_ENTITY_REF enc) (\<lambda>s p. PARTIAL) ())
       (if BYTE_TYPE enc ptr \<in> {BT_S, BT_LF, BT_CR, BT_PERCNT} then token_at XML_TOK_PERCENT ptr else INVALID ptr))"

definition scanPoundName_body :: "ENCODING \<Rightarrow> unit \<Rightarrow> byte list \<Rightarrow> unit pass" where
  "scanPoundName_body enc s ptr =
    switch_pass (CHECK_NAME_CASES enc ptr) (Next s)
      (if BYTE_TYPE enc ptr \<in> {BT_CR, BT_LF, BT_S, BT_RPAR, BT_GT, BT_PERCNT, BT_VERBAR} then
         Exit (token_at XML_TOK_POUND_NAME ptr)
       else Exit (INVALID ptr))"

definition scanPoundName :: "ENCODING \<Rightarrow> byte list \<Rightarrow> outcome" where
  "scanPoundName enc ptr =
    (if \<not> HAS_CHAR enc ptr then PARTIAL
     else switch (CHECK_NMSTRT_CASES enc ptr)
       (scan_loop enc (scanPoundName_body enc) (\<lambda>s p. Return (- XML_TOK_POUND_NAME) None) ())
       (INVALID ptr))"

definition close_quote :: "ENCODING \<Rightarrow> byte list \<Rightarrow> outcome" where
  "close_quote enc ptr =
    (if \<not> HAS_CHAR enc ptr then Return (- XML_TOK_LITERAL) None
     else if BYTE_TYPE enc ptr \<in> {BT_S, BT_CR, BT_LF, BT_GT, BT_PERCNT, BT_LSQB} then token_at XML_TOK_LITERAL ptr
     else INVALID ptr)"

definition scanLit_body :: "BT \<Rightarrow> ENCODING \<Rightarrow> unit \<Rightarrow> byte list \<Rightarrow> unit pass" where
  "scanLit_body open enc s ptr =
    switch_pass (INVALID_CASES enc ptr) (Next s)
      (let t = BYTE_TYPE enc ptr in
       if t \<in> {BT_QUOT, BT_APOS} then
         if t \<noteq> open then Next s (adv enc ptr) else Exit (close_quote enc (adv enc ptr))
       else Next s (adv enc ptr))"

definition scanLit :: "BT \<Rightarrow> ENCODING \<Rightarrow> byte list \<Rightarrow> outcome" where
  "scanLit open enc ptr = scan_loop enc (scanLit_body open enc) (\<lambda>s p. PARTIAL) () ptr"

text \<open>White space; a carriage return at the end of the buffer may be the first half of a line break.\<close>

definition prolog_space_body :: "ENCODING \<Rightarrow> unit \<Rightarrow> byte list \<Rightarrow> unit pass" where
  "prolog_space_body enc s ptr =
    (let t = BYTE_TYPE enc ptr in
     if t \<in> {BT_S, BT_LF} \<or> t = BT_CR \<and> length ptr \<noteq> MINBPC enc then Next s (adv enc ptr)
     else Exit (token_at XML_TOK_PROLOG_S ptr))"

definition prolog_space :: "ENCODING \<Rightarrow> byte list \<Rightarrow> outcome" where
  "prolog_space enc ptr = scan_loop enc (prolog_space_body enc) (\<lambda>s. token_at XML_TOK_PROLOG_S) () (adv enc ptr)"

definition prolog_lt :: "ENCODING \<Rightarrow> byte list \<Rightarrow> outcome" where
  "prolog_lt enc ptr =
    (if \<not> HAS_CHAR enc (adv enc ptr) then PARTIAL
     else let t = BYTE_TYPE enc (adv enc ptr) in
       if t = BT_EXCL then scanDecl enc (adv enc (adv enc ptr))
       else if t = BT_QUEST then scanPi enc (adv enc (adv enc ptr))
       else if t \<in> {BT_NMSTRT, BT_HEX, BT_NONASCII, BT_LEAD2, BT_LEAD3, BT_LEAD4} then
         token_at XML_TOK_INSTANCE_START ptr
       else INVALID (adv enc ptr))"

definition prolog_rsqb :: "ENCODING \<Rightarrow> byte list \<Rightarrow> outcome" where
  "prolog_rsqb enc ptr =
    (if \<not> HAS_CHAR enc ptr then Return (- XML_TOK_CLOSE_BRACKET) None
     else if char_is enc ptr ASCII_RSQB then
       if \<not> HAS_CHARS enc ptr 2 then PARTIAL
       else if char_is enc (adv enc ptr) ASCII_GT then token_at XML_TOK_COND_SECT_CLOSE (adv enc (adv enc ptr))
       else token_at XML_TOK_CLOSE_BRACKET ptr
     else token_at XML_TOK_CLOSE_BRACKET ptr)"

definition prolog_rpar :: "ENCODING \<Rightarrow> byte list \<Rightarrow> outcome" where
  "prolog_rpar enc ptr =
    (if \<not> HAS_CHAR enc ptr then Return (- XML_TOK_CLOSE_PAREN) None
     else let t = BYTE_TYPE enc ptr in
       if t = BT_AST then token_at XML_TOK_CLOSE_PAREN_ASTERISK (adv enc ptr)
       else if t = BT_QUEST then token_at XML_TOK_CLOSE_PAREN_QUESTION (adv enc ptr)
       else if t = BT_PLUS then token_at XML_TOK_CLOSE_PAREN_PLUS (adv enc ptr)
       else if t \<in> {BT_CR, BT_LF, BT_S, BT_GT, BT_COMMA, BT_VERBAR, BT_RPAR} then token_at XML_TOK_CLOSE_PAREN ptr
       else INVALID ptr)"

text \<open>The first character of a name or a name token; the loop over the rest starts with the token found here.\<close>

definition prolog_lead :: "ENCODING \<Rightarrow> byte list \<Rightarrow> nat \<Rightarrow> int pass" where
  "prolog_lead enc ptr n =
    (if length ptr < n then Exit (Return XML_TOK_PARTIAL_CHAR None)
     else case (IS_INVALID_CHAR enc ptr n, IS_NMSTRT_CHAR enc ptr n, IS_NAME_CHAR enc ptr n) of
       (Some True, _, _) \<Rightarrow> Exit (INVALID ptr)
     | (Some False, Some True, _) \<Rightarrow> Next XML_TOK_NAME (drop n ptr)
     | (Some False, Some False, Some True) \<Rightarrow> Next XML_TOK_NMTOKEN (drop n ptr)
     | (Some False, Some False, Some False) \<Rightarrow> Exit (INVALID ptr)
     | _ \<Rightarrow> Exit Undefined)"

definition prolog_name :: "ENCODING \<Rightarrow> byte list \<Rightarrow> int pass" where
  "prolog_name enc ptr =
    (let t = BYTE_TYPE enc ptr in
     if 0 < lead_bytes t then prolog_lead enc ptr (lead_bytes t)
     else if t \<in> {BT_NMSTRT, BT_HEX} then Next XML_TOK_NAME (adv enc ptr)
     else if t \<in> {BT_DIGIT, BT_NAME, BT_MINUS, BT_COLON} then Next XML_TOK_NMTOKEN (adv enc ptr)
     else if t = BT_NONASCII \<and> IS_NMSTRT_CHAR_MINBPC enc ptr then Next XML_TOK_NAME (adv enc ptr)
     else if t = BT_NONASCII \<and> IS_NAME_CHAR_MINBPC enc ptr then Next XML_TOK_NMTOKEN (adv enc ptr)
     else Exit (INVALID ptr))"

definition prolog_switch :: "ENCODING \<Rightarrow> byte list \<Rightarrow> int pass" where
  "prolog_switch enc ptr =
    (let t = BYTE_TYPE enc ptr in
     if t \<in> {BT_QUOT, BT_APOS} then Exit (scanLit t enc (adv enc ptr))
     else if t = BT_LT then Exit (prolog_lt enc ptr)
     else if t = BT_CR \<and> length ptr = MINBPC enc then Exit (token_at (- XML_TOK_PROLOG_S) [])
     else if t \<in> set BT_SPACES then Exit (prolog_space enc ptr)
     else if t = BT_PERCNT then Exit (scanPercent enc (adv enc ptr))
     else if t = BT_COMMA then Exit (token_at XML_TOK_COMMA (adv enc ptr))
     else if t = BT_LSQB then Exit (token_at XML_TOK_OPEN_BRACKET (adv enc ptr))
     else if t = BT_RSQB then Exit (prolog_rsqb enc (adv enc ptr))
     else if t = BT_LPAR then Exit (token_at XML_TOK_OPEN_PAREN (adv enc ptr))
     else if t = BT_RPAR then Exit (prolog_rpar enc (adv enc ptr))
     else if t = BT_VERBAR then Exit (token_at XML_TOK_OR (adv enc ptr))
     else if t = BT_GT then Exit (token_at XML_TOK_DECL_CLOSE (adv enc ptr))
     else if t = BT_NUM then Exit (scanPoundName enc (adv enc ptr))
     else prolog_name enc ptr)"

definition prolog_colon :: "ENCODING \<Rightarrow> int \<Rightarrow> byte list \<Rightarrow> int pass" where
  "prolog_colon enc tok ptr =
    (if tok = XML_TOK_NAME then
       if \<not> HAS_CHAR enc ptr then Exit PARTIAL
       else switch_pass (CHECK_NAME_CASES enc ptr) (Next XML_TOK_PREFIXED_NAME) (Next XML_TOK_NMTOKEN ptr)
     else if tok = XML_TOK_PREFIXED_NAME then Next XML_TOK_NMTOKEN ptr
     else Next tok ptr)"

definition suffixed_name :: "ENCODING \<Rightarrow> int \<Rightarrow> int \<Rightarrow> byte list \<Rightarrow> int pass" where
  "suffixed_name enc tok tok' ptr =
    (if tok = XML_TOK_NMTOKEN then Exit (INVALID ptr) else Exit (token_at tok' (adv enc ptr)))"

definition prolog_name_body :: "ENCODING \<Rightarrow> int \<Rightarrow> byte list \<Rightarrow> int pass" where
  "prolog_name_body enc tok ptr =
    switch_pass (CHECK_NAME_CASES enc ptr) (Next tok)
      (let t = BYTE_TYPE enc ptr in
       if t \<in> {BT_GT, BT_RPAR, BT_COMMA, BT_VERBAR, BT_LSQB, BT_PERCNT, BT_S, BT_CR, BT_LF} then Exit (token_at tok ptr)
       else if t = BT_COLON then prolog_colon enc tok (adv enc ptr)
       else if t = BT_PLUS then suffixed_name enc tok XML_TOK_NAME_PLUS ptr
       else if t = BT_AST then suffixed_name enc tok XML_TOK_NAME_ASTERISK ptr
       else if t = BT_QUEST then suffixed_name enc tok XML_TOK_NAME_QUESTION ptr
       else Exit (INVALID ptr))"

definition prolog_chars :: "ENCODING \<Rightarrow> byte list \<Rightarrow> outcome" where
  "prolog_chars enc ptr =
    (case prolog_switch enc ptr of
       Exit r \<Rightarrow> r
     | Next tok q \<Rightarrow> scan_loop enc (prolog_name_body enc) (\<lambda>tok p. Return (- tok) None) tok q)"

definition prologTok :: "ENCODING \<Rightarrow> byte list \<Rightarrow> outcome" where
  "prologTok enc ptr = (if ptr = [] then Return XML_TOK_NONE None else whole_chars enc (prolog_chars enc) ptr)"

section \<open>The inside of literals\<close>

text \<open>
  Here the bytes of a character are not tested again. A pointer that would move past the end of the literal is
  \<open>Undefined\<close>.
\<close>

definition value_lead :: "byte list \<Rightarrow> nat \<Rightarrow> unit pass" where
  "value_lead ptr n = (if length ptr < n then Exit Undefined else Next () (drop n ptr))"

definition value_newline :: "ENCODING \<Rightarrow> byte list \<Rightarrow> outcome" where
  "value_newline enc ptr =
    (if \<not> HAS_CHAR enc ptr then Return XML_TOK_TRAILING_CR None
     else if BYTE_TYPE enc ptr = BT_LF then token_at XML_TOK_DATA_NEWLINE (adv enc ptr)
     else token_at XML_TOK_DATA_NEWLINE ptr)"

text \<open>The pointer \<open>ptr\<close> is at \<open>start\<close> when as much of the literal follows it.\<close>

definition attributeValue_body :: "ENCODING \<Rightarrow> byte list \<Rightarrow> unit \<Rightarrow> byte list \<Rightarrow> unit pass" where
  "attributeValue_body enc start s ptr =
    (let t = BYTE_TYPE enc ptr in
     if 0 < lead_bytes t then value_lead ptr (lead_bytes t)
     else if t = BT_LT then Exit (INVALID ptr)
     else if t \<notin> {BT_AMP, BT_LF, BT_CR, BT_S} then Next s (adv enc ptr)
     else if length ptr \<noteq> length start then Exit (token_at XML_TOK_DATA_CHARS ptr)
     else if t = BT_AMP then Exit (scanRef enc (adv enc ptr))
     else if t = BT_LF then Exit (token_at XML_TOK_DATA_NEWLINE (adv enc ptr))
     else if t = BT_CR then Exit (value_newline enc (adv enc ptr))
     else Exit (token_at XML_TOK_ATTRIBUTE_VALUE_S (adv enc ptr)))"

definition attributeValueTok :: "ENCODING \<Rightarrow> byte list \<Rightarrow> outcome" where
  "attributeValueTok enc ptr =
    (if ptr = [] then Return XML_TOK_NONE None
     else if \<not> HAS_CHAR enc ptr then PARTIAL
     else scan_loop enc (attributeValue_body enc ptr) (\<lambda>s. token_at XML_TOK_DATA_CHARS) () ptr)"

definition no_percent :: "outcome \<Rightarrow> outcome" where
  "no_percent r = (case r of Return t q \<Rightarrow> Return (if t = XML_TOK_PERCENT then XML_TOK_INVALID else t) q | _ \<Rightarrow> r)"

definition entityValue_body :: "ENCODING \<Rightarrow> byte list \<Rightarrow> unit \<Rightarrow> byte list \<Rightarrow> unit pass" where
  "entityValue_body enc start s ptr =
    (let t = BYTE_TYPE enc ptr in
     if 0 < lead_bytes t then value_lead ptr (lead_bytes t)
     else if t \<notin> {BT_AMP, BT_PERCNT, BT_LF, BT_CR} then Next s (adv enc ptr)
     else if length ptr \<noteq> length start then Exit (token_at XML_TOK_DATA_CHARS ptr)
     else if t = BT_AMP then Exit (scanRef enc (adv enc ptr))
     else if t = BT_PERCNT then Exit (no_percent (scanPercent enc (adv enc ptr)))
     else if t = BT_LF then Exit (token_at XML_TOK_DATA_NEWLINE (adv enc ptr))
     else Exit (value_newline enc (adv enc ptr)))"

definition entityValueTok :: "ENCODING \<Rightarrow> byte list \<Rightarrow> outcome" where
  "entityValueTok enc ptr =
    (if ptr = [] then Return XML_TOK_NONE None
     else if \<not> HAS_CHAR enc ptr then PARTIAL
     else scan_loop enc (entityValue_body enc ptr) (\<lambda>s. token_at XML_TOK_DATA_CHARS) () ptr)"

section \<open>Ignored sections and public identifiers\<close>

definition ignore_lt :: "ENCODING \<Rightarrow> int \<Rightarrow> byte list \<Rightarrow> int pass" where
  "ignore_lt enc nesting ptr =
    (if \<not> HAS_CHAR enc ptr then Exit PARTIAL
     else if char_is enc ptr ASCII_EXCL then
       if \<not> HAS_CHAR enc (adv enc ptr) then Exit PARTIAL
       else if char_is enc (adv enc ptr) ASCII_LSQB then Next (nesting + 1) (adv enc (adv enc ptr))
       else Next nesting (adv enc ptr)
     else Next nesting ptr)"

definition ignore_rsqb :: "ENCODING \<Rightarrow> int \<Rightarrow> byte list \<Rightarrow> int pass" where
  "ignore_rsqb enc nesting ptr =
    (if \<not> HAS_CHAR enc ptr then Exit PARTIAL
     else if char_is enc ptr ASCII_RSQB then
       if \<not> HAS_CHAR enc (adv enc ptr) then Exit PARTIAL
       else if char_is enc (adv enc ptr) ASCII_GT then
         if nesting = 0 then Exit (token_at XML_TOK_IGNORE_SECT (adv enc (adv enc ptr)))
         else Next (nesting - 1) (adv enc (adv enc ptr))
       else Next nesting (adv enc ptr)
     else Next nesting ptr)"

definition ignore_body :: "ENCODING \<Rightarrow> int \<Rightarrow> byte list \<Rightarrow> int pass" where
  "ignore_body enc nesting ptr =
    switch_pass (INVALID_CASES enc ptr) (Next nesting)
      (if BYTE_TYPE enc ptr = BT_LT then ignore_lt enc nesting (adv enc ptr)
       else if BYTE_TYPE enc ptr = BT_RSQB then ignore_rsqb enc nesting (adv enc ptr)
       else Next nesting (adv enc ptr))"

definition ignore_chars :: "ENCODING \<Rightarrow> byte list \<Rightarrow> outcome" where
  "ignore_chars enc ptr = scan_loop enc (ignore_body enc) (\<lambda>s p. PARTIAL) 0 ptr"

definition ignoreSectionTok :: "ENCODING \<Rightarrow> byte list \<Rightarrow> outcome" where
  "ignoreSectionTok enc ptr = whole_chars enc (ignore_chars enc) ptr"

text \<open>The place of the first character that a public identifier may not have, if there is one.\<close>

definition public_char :: "ENCODING \<Rightarrow> byte list \<Rightarrow> bool" where
  "public_char enc ptr \<longleftrightarrow>
    (let t = BYTE_TYPE enc ptr; c = BYTE_TO_ASCII enc ptr in
     if t \<in> {BT_DIGIT, BT_HEX, BT_MINUS, BT_APOS, BT_LPAR, BT_RPAR, BT_PLUS, BT_COMMA, BT_SOL, BT_EQUALS,
             BT_QUEST, BT_CR, BT_LF, BT_SEMI, BT_EXCL, BT_AST, BT_PERCNT, BT_NUM, BT_COLON} then True
     else if t = BT_S then \<not> char_is enc ptr ASCII_TAB
     else if t \<in> {BT_NAME, BT_NMSTRT} \<and> c AND NOT 0x7F = 0 then True
     else c \<in> {0x24, 0x40})"

definition isPublicId_body :: "ENCODING \<Rightarrow> unit \<Rightarrow> byte list \<Rightarrow> unit pass" where
  "isPublicId_body enc s ptr = (if public_char enc ptr then Next s (adv enc ptr) else Exit (token_at 0 ptr))"

definition isPublicId :: "ENCODING \<Rightarrow> byte list \<Rightarrow> outcome" where
  "isPublicId enc ptr =
    scan_loop enc (isPublicId_body enc) (\<lambda>s p. Return 1 None) ()
      (take (length ptr - 2 * MINBPC enc) (adv enc ptr))"

end
