(* ===== verification/Xml_Scan_Inv.thy ===== *)
theory Xml_Scan_Inv
  imports Xml_Prolog "HOL-Library.Sublist"
begin

text \<open>
  Where the scanners of expat may stop: every result is a token of the scanner's own set, the place it is stored at
  lies in the buffer and behind the start of the token, \<open>nextTokPtr\<close> is written whenever the token is not
  negative, and no scanner calls through a null pointer or loops. The interface asks of an encoding that it has tests for its
  multi-byte characters.
\<close>

section \<open>Characters left\<close>

lemma HAS_CHARS_adv: "HAS_CHARS enc (adv enc p) k \<longleftrightarrow> HAS_CHARS enc p (Suc k) \<or> k = 0"
  using MINBPC_pos(1) [of enc] by (cases k) (auto simp: HAS_CHARS_def adv_def)

lemma HAS_CHARS_adv_simps [simp]:
  "HAS_CHARS enc (adv enc p) (Suc 0) \<longleftrightarrow> HAS_CHARS enc p 2"
  "HAS_CHARS enc (adv enc p) 2 \<longleftrightarrow> HAS_CHARS enc p 3"
  "HAS_CHARS enc (adv enc p) 3 \<longleftrightarrow> HAS_CHARS enc p 4"
  by (simp_all add: HAS_CHARS_adv numeral_eq_Suc)

lemma HAS_CHARS_fewer [simp]:
  "HAS_CHARS enc p 2 \<Longrightarrow> HAS_CHARS enc p (Suc 0)"
  "HAS_CHARS enc p 3 \<Longrightarrow> HAS_CHARS enc p 2"
  unfolding HAS_CHARS_def by simp_all

lemma HAS_CHARS_mono: "HAS_CHARS enc p n \<Longrightarrow> k \<le> n \<Longrightarrow> HAS_CHARS enc p k"
  unfolding HAS_CHARS_def by (meson le_trans mult_le_mono1)

lemma suffix_drop_of: "suffix p q \<Longrightarrow> suffix (drop n p) q"
  by (meson suffix_drop suffix_order.trans)

lemma strict_suffix_drop_of [simp]: "strict_suffix p q \<Longrightarrow> strict_suffix (drop n p) q"
  by (meson suffix_drop suffix_order.le_less_trans)

lemma strict_suffix_suffix [simp]: "strict_suffix p q \<Longrightarrow> suffix p q"
  by (simp add: strict_suffix_def)

lemma strict_suffix_adv [simp]: "strict_suffix p q \<Longrightarrow> strict_suffix (adv enc p) q"
  by (simp add: adv_def)

lemma strict_suffix_adv_self [simp]: "HAS_CHARS enc p (Suc 0) \<Longrightarrow> strict_suffix (adv enc p) p"
  using adv_shorter [of enc p] unfolding HAS_CHAR_def strict_suffix_def adv_def
  by (metis One_nat_def nat_less_le suffix_drop)

lemma strict_suffix_drop_self [simp]: "0 < n \<Longrightarrow> n \<le> length p \<Longrightarrow> strict_suffix (drop n p) p"
  by (metis diff_less drop_drop length_drop less_le_trans nat_less_le strict_suffix_def suffix_drop)

section \<open>Results of a scanner\<close>

text \<open>Only \<open>XML_TOK_INSTANCE_START\<close> leaves its text to the next token.\<close>

definition yields :: "bool \<Rightarrow> int set \<Rightarrow> byte list \<Rightarrow> outcome \<Rightarrow> bool" where
  "yields b T p0 r \<longleftrightarrow>
    (case r of
       Return t None \<Rightarrow> t \<in> T \<and> t < 0
     | Return t (Some q) \<Rightarrow> t \<in> T \<and> suffix q p0 \<and> (0 < t \<and> t \<noteq> XML_TOK_INSTANCE_START \<longrightarrow> strict_suffix q p0)
     | Break q \<Rightarrow> b \<and> strict_suffix q p0
     | Undefined \<Rightarrow> False)"

definition yields_pass :: "bool \<Rightarrow> int set \<Rightarrow> ('s \<Rightarrow> bool) \<Rightarrow> byte list \<Rightarrow> byte list \<Rightarrow> 's pass \<Rightarrow> bool" where
  "yields_pass b T I p0 p x \<longleftrightarrow> (case x of Next s q \<Rightarrow> strict_suffix q p \<and> I s | Exit r \<Rightarrow> yields b T p0 r)"

definition yields_cases :: "byte list \<Rightarrow> outcome option \<Rightarrow> bool" where
  "yields_cases p m \<longleftrightarrow> (\<forall>r. m = Some r \<longrightarrow> yields True {XML_TOK_INVALID, XML_TOK_PARTIAL_CHAR} p r)"

lemma yields_simps [simp]:
  "yields b T p0 (Return t None) \<longleftrightarrow> t \<in> T \<and> t < 0"
  "yields b T p0 (Return t (Some p)) \<longleftrightarrow> t \<in> T \<and> suffix p p0 \<and> (0 < t \<and> t \<noteq> 29 \<longrightarrow> strict_suffix p p0)"
  "yields b T p0 (Break p) \<longleftrightarrow> b \<and> strict_suffix p p0"
  "\<not> yields b T p0 Undefined"
  "yields b T p0 PARTIAL \<longleftrightarrow> - 1 \<in> T"
  "yields b T p0 (INVALID p) \<longleftrightarrow> 0 \<in> T \<and> suffix p p0"
  "yields b T p0 (token_at t p) \<longleftrightarrow> t \<in> T \<and> suffix p p0 \<and> (0 < t \<and> t \<noteq> 29 \<longrightarrow> strict_suffix p p0)"
  "yields_pass b T I p0 p (Exit r) \<longleftrightarrow> yields b T p0 r"
  "yields_pass b T I p0 p (Next s q) \<longleftrightarrow> strict_suffix q p \<and> I s"
  by (auto simp: yields_def yields_pass_def PARTIAL_def INVALID_def token_at_def)

lemma yields_mono: "yields b T p r \<Longrightarrow> (b \<Longrightarrow> c) \<Longrightarrow> T \<subseteq> U \<Longrightarrow> suffix p p0 \<Longrightarrow> yields c U p0 r"
  by (auto simp: yields_def split: outcome.splits option.splits
      intro: suffix_order.trans suffix_order.less_le_trans)

lemma yields_if:
  "(c \<Longrightarrow> yields b T p0 x) \<Longrightarrow> (\<not> c \<Longrightarrow> yields b T p0 y) \<Longrightarrow> yields b T p0 (if c then x else y)"
  by simp

lemma yields_pass_if:
  "(c \<Longrightarrow> yields_pass b T I p0 p x) \<Longrightarrow> (\<not> c \<Longrightarrow> yields_pass b T I p0 p y) \<Longrightarrow> yields_pass b T I p0 p (if c then x else y)"
  by simp

lemma yields_pass_Exit: "yields b T p0 r \<Longrightarrow> yields_pass b T I p0 p (Exit r)"
  by simp

lemma yields_pass_option:
  assumes "m = None \<Longrightarrow> yields_pass b T I p0 p x" "\<And>v. m = Some v \<Longrightarrow> yields_pass b T I p0 p (f v)"
  shows "yields_pass b T I p0 p (case m of None \<Rightarrow> x | Some v \<Rightarrow> f v)"
  using assms by (cases m) auto

lemma yields_Return: "yields b T p0 (Return t q) \<Longrightarrow> yields c T p0 (Return t q)"
  by (cases q) auto

lemma yields_switch:
  assumes "yields_cases p m" "suffix p p0" "{XML_TOK_INVALID, XML_TOK_PARTIAL_CHAR} \<subseteq> T"
    and "\<And>q. strict_suffix q p \<Longrightarrow> strict_suffix q p0 \<Longrightarrow> yields b T p0 (go q)" "yields b T p0 other"
  shows "yields b T p0 (switch m go other)"
  using assms(1,3-) yields_Return [OF yields_mono [OF _ TrueI assms(3,2)]] suffix_order.less_le_trans [OF _ assms(2)]
  by (auto simp: switch_def yields_cases_def split: option.splits outcome.splits)

lemma yields_switch_pass:
  assumes "yields_cases p m" "suffix p p0" "{XML_TOK_INVALID, XML_TOK_PARTIAL_CHAR} \<subseteq> T"
    and "suffix p p'" "\<And>q. strict_suffix q p' \<Longrightarrow> strict_suffix q p0 \<Longrightarrow> yields_pass b T I p0 p' (go q)" "yields_pass b T I p0 p' other"
  shows "yields_pass b T I p0 p' (switch_pass m go other)"
  using assms(1,3-) yields_Return [OF yields_mono [OF _ TrueI assms(3,2)]] suffix_order.less_le_trans [OF _ assms(2)]
    suffix_order.less_le_trans [OF _ assms(4)]
  by (auto simp: switch_pass_def yields_cases_def split: option.splits outcome.splits)

lemma yields_then_do:
  assumes "yields True T p0 r" "\<And>q. strict_suffix q p0 \<Longrightarrow> yields b T p0 (go q)"
  shows "yields b T p0 (then_do r go)"
  using assms yields_Return by (auto simp: then_do_def switch_def split: outcome.splits)

lemma yields_then_pass:
  assumes "yields True T p r" "suffix p p0" "\<And>q. strict_suffix q p \<Longrightarrow> strict_suffix q p0 \<Longrightarrow> yields_pass b T I p0 p (go q)"
  shows "yields_pass b T I p0 p (then_pass r go)"
  using assms(1,3) yields_Return [OF yields_mono [OF _ TrueI subset_refl assms(2)]] suffix_order.less_le_trans [OF _ assms(2)]
  by (auto simp: then_pass_def switch_pass_def split: outcome.splits)

lemma yields_loop:
  assumes "\<And>s p. I s \<Longrightarrow> strict_suffix p p0 \<Longrightarrow> HAS_CHARS enc p 1 \<Longrightarrow> yields_pass b T I p0 p (body s p)"
    and "\<And>s p. I s \<Longrightarrow> strict_suffix p p0 \<Longrightarrow> yields b T p0 (fell s p)"
    and "I s" "strict_suffix p p0"
  shows "yields b T p0 (scan_loop enc body fell s p)"
  using assms(3,4)
proof (induction "length p" arbitrary: s p rule: less_induct)
  case less
  show ?case
  proof (cases "HAS_CHAR enc p")
    case False
    with less.prems assms(2) show ?thesis by (simp add: scan_loop.simps)
  next
    case True
    with less.prems assms(1) have step: "yields_pass b T I p0 p (body s p)"
      by (simp add: HAS_CHAR_def)
    show ?thesis
    proof (cases "body s p")
      case (Next s' q)
      with step have "strict_suffix q p" "I s'" by simp_all
      moreover from this(1) have "length q < length p" "strict_suffix q p0"
        using less.prems(2) by (auto dest: suffix_length_less)
      ultimately show ?thesis
        using less.hyps [of q s'] Next True by (simp add: scan_loop.simps [of enc _ _ s p])
    next
      case (Exit r)
      with step True show ?thesis by (simp add: scan_loop.simps [of enc _ _ s p])
    qed
  qed
qed

lemma yields_loop_start:
  assumes "\<And>s p. I s \<Longrightarrow> suffix p p0 \<Longrightarrow> HAS_CHARS enc p 1 \<Longrightarrow> yields_pass b T I p0 p (body s p)"
    and "\<And>s p. I s \<Longrightarrow> suffix p p0 \<Longrightarrow> yields b T p0 (fell s p)" "I s"
  shows "yields b T p0 (scan_loop enc body fell s p0)"
proof (cases "HAS_CHAR enc p0")
  case True
  then have start: "yields_pass b T I p0 p0 (body s p0)"
    using assms(1,3) by (simp add: HAS_CHAR_def)
  show ?thesis
  proof (cases "body s p0")
    case (Next s' q)
    with start have later: "strict_suffix q p0" "I s'" by simp_all
    then have "yields b T p0 (scan_loop enc body fell s' q)"
      using assms(1,2) by (intro yields_loop [where I = I]) simp_all
    with Next True later(1) show ?thesis
      by (simp add: scan_loop.simps [of enc body fell s p0] suffix_length_less)
  next
    case (Exit r)
    with start True show ?thesis by (simp add: scan_loop.simps [of enc body fell s p0])
  qed
qed (use assms(2,3) in \<open>simp add: scan_loop.simps\<close>)

lemma yields_with_tail:
  assumes "yields False T p r"
  shows "yields False T (p @ extra) (with_tail extra r)"
proof (cases r)
  case (Return t q)
  with assms show ?thesis by (cases q) (auto simp: with_tail_def strict_suffix_def suffix_def)
qed (use assms in \<open>simp_all\<close>)

lemmas yields_rules =
  yields_if yields_pass_if yields_pass_Exit yields_pass_option yields_then_do yields_then_pass

definition prolog_tokens :: "int set" where
  "prolog_tokens =
    {- 41, - 27, - 26, - 24, - 20, - 19, - 18, - 15, - 2, - 1, 0, 11, 12, 13, 15, 16, 17, 18, 19, 20, 21, 22, 23, 24, 25, 26, 27, 28, 29,
     30, 31, 32, 33, 34, 35, 36, 37, 38, 41}"

section \<open>The interface\<close>

locale total_encoding =
  fixes enc :: ENCODING
  assumes lead_tested: "HAS_CHARS enc p 1 \<Longrightarrow> 0 < lead_bytes (BYTE_TYPE enc p) \<Longrightarrow> call_test enc f n p \<noteq> None"
begin

lemma tested:
  assumes "HAS_CHARS enc p 1" "0 < lead_bytes (BYTE_TYPE enc p)"
  shows "\<exists>b. IS_INVALID_CHAR enc p n = Some b" "\<exists>b. IS_NAME_CHAR enc p n = Some b" "\<exists>b. IS_NMSTRT_CHAR enc p n = Some b"
  using lead_tested [OF assms] by (auto simp: IS_INVALID_CHAR_def IS_NAME_CHAR_def IS_NMSTRT_CHAR_def)

lemma INVALID_LEAD_CASE_yields:
  assumes "HAS_CHARS enc p 1" "n = lead_bytes (BYTE_TYPE enc p)" "0 < n"
  shows "yields True {XML_TOK_INVALID, XML_TOK_PARTIAL_CHAR} p (INVALID_LEAD_CASE enc p n)"
proof -
  obtain b where "IS_INVALID_CHAR enc p n = Some b" using tested(1) assms by blast
  with assms(3) show ?thesis by (cases b) (simp_all add: INVALID_LEAD_CASE_def)
qed

lemma check_lead_yields:
  assumes "HAS_CHARS enc p 1" "n = lead_bytes (BYTE_TYPE enc p)" "0 < n" "\<exists>c. f enc p n = Some c"
  shows "yields True {XML_TOK_INVALID, XML_TOK_PARTIAL_CHAR} p (check_lead f enc p n)"
proof -
  obtain b c where "IS_INVALID_CHAR enc p n = Some b" "f enc p n = Some c" using tested(1) assms by blast
  with assms(3) show ?thesis by (cases b; cases c) (simp_all add: check_lead_def)
qed

lemma INVALID_CASES_yields: "HAS_CHARS enc p 1 \<Longrightarrow> yields_cases p (INVALID_CASES enc p)"
  by (auto simp: INVALID_CASES_def yields_cases_def Let_def INVALID_LEAD_CASE_yields)

lemma CHECK_NAME_CASES_yields: "HAS_CHARS enc p 1 \<Longrightarrow> yields_cases p (CHECK_NAME_CASES enc p)"
  by (auto simp: CHECK_NAME_CASES_def yields_cases_def Let_def tested intro!: check_lead_yields)

lemma CHECK_NMSTRT_CASES_yields: "HAS_CHARS enc p 1 \<Longrightarrow> yields_cases p (CHECK_NMSTRT_CASES enc p)"
  by (auto simp: CHECK_NMSTRT_CASES_def yields_cases_def Let_def tested intro!: check_lead_yields)

lemmas yields_macros =
  yields_switch [OF INVALID_CASES_yields] yields_switch [OF CHECK_NMSTRT_CASES_yields]
  yields_switch_pass [OF INVALID_CASES_yields] yields_switch_pass [OF CHECK_NAME_CASES_yields]
  yields_switch_pass [OF CHECK_NMSTRT_CASES_yields]

section \<open>The scanners\<close>

lemma scanComment_body_yields:
  assumes "strict_suffix p p0" "HAS_CHARS enc p 1" "{- 2, - 1, 0, 13} \<subseteq> T"
  shows "yields_pass b T (\<lambda>s. True) p0 p (scanComment_body enc s p)"
  unfolding scanComment_body_def Let_def
  by (intro yields_rules yields_macros) (use assms in \<open>simp_all add: HAS_CHAR_def\<close>)

lemma scanComment_yields: "strict_suffix p p0 \<Longrightarrow> {- 2, - 1, 0, 13} \<subseteq> T \<Longrightarrow> yields b T p0 (scanComment enc p)"
  unfolding scanComment_def Let_def
  by (intro yields_rules yields_macros yields_loop [where I = "\<lambda>s. True"]) (simp_all add: HAS_CHAR_def scanComment_body_yields)

lemma scanDecl_body_yields:
  assumes "strict_suffix p p0" "HAS_CHARS enc p 1" "{- 2, - 1, 0, 16} \<subseteq> T"
  shows "yields_pass b T (\<lambda>s. True) p0 p (scanDecl_body enc s p)"
  unfolding scanDecl_body_def Let_def
  by (intro yields_rules yields_macros) (use assms in \<open>simp_all add: HAS_CHAR_def\<close>)

lemma scanDecl_yields: "strict_suffix p p0 \<Longrightarrow> {- 2, - 1, 0, 13, 16, 33} \<subseteq> T \<Longrightarrow> yields b T p0 (scanDecl enc p)"
  unfolding scanDecl_def Let_def
  by (intro yields_rules yields_macros scanComment_yields yields_loop [where I = "\<lambda>s. True"]) (simp_all add: HAS_CHAR_def scanDecl_body_yields)

lemma checkPiTarget_token: "checkPiTarget enc' target = Some tok \<Longrightarrow> tok \<in> {11, 12}"
  by (auto simp: checkPiTarget_def Let_def split: if_splits)

lemma scanPi_rest_yields:
  assumes "strict_suffix p p0" "HAS_CHARS enc p 1" "{- 2, - 1, 0, 11, 12} \<subseteq> T" "tok \<in> T"
  shows "yields_pass b T (\<lambda>tok. tok \<in> T) p0 p (scanPi_rest enc tok p)"
  unfolding scanPi_rest_def Let_def
  by (intro yields_rules yields_macros) (use assms in \<open>simp_all add: HAS_CHAR_def\<close>)

lemma scanPi_body_yields:
  assumes "strict_suffix p p0" "HAS_CHARS enc p 1" "{- 2, - 1, 0, 11, 12} \<subseteq> T"
  shows "yields_pass b T (\<lambda>s. True) p0 p (scanPi_body enc target s p)"
  unfolding scanPi_body_def Let_def
  by (intro yields_rules yields_macros yields_loop [where I = "\<lambda>tok. tok \<in> T"])
    (use assms in \<open>auto simp: HAS_CHAR_def dest: checkPiTarget_token intro!: scanPi_rest_yields\<close>)

lemma scanPi_yields: "strict_suffix p p0 \<Longrightarrow> {- 2, - 1, 0, 11, 12} \<subseteq> T \<Longrightarrow> yields b T p0 (scanPi enc p)"
  unfolding scanPi_def Let_def
  by (intro yields_rules yields_macros yields_loop [where I = "\<lambda>s. True"]) (simp_all add: HAS_CHAR_def scanPi_body_yields)

lemma match_chars_yields: "strict_suffix p p0 \<Longrightarrow> {0, tok} \<subseteq> T \<Longrightarrow> yields b T p0 (match_chars enc cs tok p)"
  by (induction cs arbitrary: p) simp_all

lemma scanCdataSection_yields: "strict_suffix p p0 \<Longrightarrow> {- 1, 0, 8} \<subseteq> T \<Longrightarrow> yields b T p0 (scanCdataSection enc p)"
  by (simp add: scanCdataSection_def match_chars_yields)

lemma data_lead_yields:
  assumes "strict_suffix p p0" "HAS_CHARS enc p 1" "n = lead_bytes (BYTE_TYPE enc p)" "0 < n" "6 \<in> T"
  shows "yields_pass b T (\<lambda>s. True) p0 p (data_lead enc p n)"
proof -
  obtain b where "IS_INVALID_CHAR enc p n = Some b" using tested(1) assms by blast
  with assms show ?thesis by (cases b) (simp_all add: data_lead_def)
qed

lemma cdata_body_yields:
  assumes "strict_suffix p p0" "HAS_CHARS enc p 1" "{6} \<subseteq> T"
  shows "yields_pass b T (\<lambda>s. True) p0 p (cdata_body enc s p)"
  unfolding cdata_body_def Let_def
  by (intro yields_rules yields_macros data_lead_yields) (use assms in \<open>simp_all add: HAS_CHAR_def\<close>)

lemma cdata_start_yields:
  assumes "HAS_CHARS enc p 1" "{- 2, - 1, 0, 7, 40} \<subseteq> T"
  shows "yields True T p (cdata_start enc p)"
  unfolding cdata_start_def Let_def
  by (intro yields_rules yields_macros) (use assms in \<open>simp_all add: HAS_CHAR_def\<close>)

lemma cdata_chars_yields:
  assumes "HAS_CHARS enc p 1" "{- 2, - 1, 0, 6, 7, 40} \<subseteq> T"
  shows "yields b T p (cdata_chars enc p)"
  unfolding cdata_chars_def
  by (intro yields_rules cdata_start_yields yields_loop [where I = "\<lambda>s. True"]) (use assms in \<open>simp_all add: cdata_body_yields\<close>)

section \<open>Tags and content\<close>

lemma scanEndTag_space_yields:
  assumes "strict_suffix p p0" "HAS_CHARS enc p 1" "{0, 5} \<subseteq> T"
  shows "yields_pass b T (\<lambda>s. True) p0 p (scanEndTag_space enc s p)"
  unfolding scanEndTag_space_def Let_def
  by (intro yields_rules yields_macros) (use assms in \<open>simp_all add: HAS_CHAR_def\<close>)

lemma scanEndTag_body_yields:
  assumes "strict_suffix p p0" "HAS_CHARS enc p 1" "{- 2, - 1, 0, 5} \<subseteq> T"
  shows "yields_pass b T (\<lambda>s. True) p0 p (scanEndTag_body enc s p)"
  unfolding scanEndTag_body_def Let_def
  by (intro yields_rules yields_macros yields_loop [where I = "\<lambda>s. True"]) (use assms in \<open>simp_all add: HAS_CHAR_def scanEndTag_space_yields\<close>)

lemma scanEndTag_yields: "strict_suffix p p0 \<Longrightarrow> {- 2, - 1, 0, 5} \<subseteq> T \<Longrightarrow> yields b T p0 (scanEndTag enc p)"
  unfolding scanEndTag_def Let_def
  by (intro yields_rules yields_macros yields_loop [where I = "\<lambda>s. True"]) (simp_all add: HAS_CHAR_def scanEndTag_body_yields)

lemma digits_body_yields:
  assumes "strict_suffix p p0" "HAS_CHARS enc p 1" "{0, 10} \<subseteq> T"
  shows "yields_pass b T (\<lambda>s. True) p0 p (digits_body ds enc s p)"
  unfolding digits_body_def Let_def
  by (intro yields_rules yields_macros) (use assms in \<open>simp_all add: HAS_CHAR_def\<close>)

lemma scanHexCharRef_yields: "strict_suffix p p0 \<Longrightarrow> {- 1, 0, 10} \<subseteq> T \<Longrightarrow> yields b T p0 (scanHexCharRef enc p)"
  unfolding scanHexCharRef_def Let_def
  by (intro yields_rules yields_macros yields_loop [where I = "\<lambda>s. True"]) (simp_all add: HAS_CHAR_def digits_body_yields)

lemma scanCharRef_yields: "strict_suffix p p0 \<Longrightarrow> {- 1, 0, 10} \<subseteq> T \<Longrightarrow> yields b T p0 (scanCharRef enc p)"
  unfolding scanCharRef_def Let_def
  by (intro yields_rules yields_macros scanHexCharRef_yields yields_loop [where I = "\<lambda>s. True"]) (simp_all add: HAS_CHAR_def digits_body_yields)

lemma name_then_semi_yields:
  assumes "strict_suffix p p0" "HAS_CHARS enc p 1" "{- 2, 0, tok} \<subseteq> T"
  shows "yields_pass b T (\<lambda>s. True) p0 p (name_then_semi tok enc s p)"
  unfolding name_then_semi_def Let_def
  by (intro yields_rules yields_macros) (use assms in \<open>simp_all add: HAS_CHAR_def\<close>)

lemma scanRef_yields: "strict_suffix p p0 \<Longrightarrow> {- 2, - 1, 0, 9, 10} \<subseteq> T \<Longrightarrow> yields b T p0 (scanRef enc p)"
  unfolding scanRef_def Let_def
  by (intro yields_rules yields_macros scanCharRef_yields yields_loop [where I = "\<lambda>s. True"]) (simp_all add: HAS_CHAR_def name_then_semi_yields)

lemma sol_yields: "strict_suffix p p0 \<Longrightarrow> {- 1, 0, tok} \<subseteq> T \<Longrightarrow> yields b T p0 (sol enc tok p)"
  unfolding sol_def Let_def
  by (intro yields_rules yields_macros) (simp_all add: HAS_CHAR_def)

lemma colon_case_yields:
  assumes "strict_suffix p p0" "HAS_CHARS enc p 1" "{- 2, - 1, 0} \<subseteq> T"
  shows "yields_pass b T (\<lambda>s. True) p0 p (colon_case enc hadColon p)"
  unfolding colon_case_def Let_def
  by (intro yields_rules yields_macros) (use assms in \<open>simp_all add: HAS_CHAR_def\<close>)

lemma equals_body_yields:
  assumes "strict_suffix p p0" "HAS_CHARS enc p 1" "{0} \<subseteq> T"
  shows "yields_pass True T (\<lambda>s. True) p0 p (equals_body enc ends s p)"
  unfolding equals_body_def Let_def
  by (intro yields_rules yields_macros) (use assms in \<open>simp_all add: HAS_CHAR_def\<close>)

lemma skip_to_yields: "strict_suffix (adv enc p) p0 \<Longrightarrow> {- 1, 0} \<subseteq> T \<Longrightarrow> yields True T p0 (skip_to enc ends p)"
  unfolding skip_to_def
  by (intro yields_loop [where I = "\<lambda>s. True"]) (simp_all add: equals_body_yields)

lemma ref_in_value_yields:
  assumes "yields False {- 2, - 1, 0, 9, 10} p r" "strict_suffix p p0" "{- 2, - 1, 0} \<subseteq> T"
  shows "yields_pass b T (\<lambda>s. True) p0 p (ref_in_value r p)"
proof (cases r)
  case (Return t q)
  with assms show ?thesis
    by (cases q) (auto simp: ref_in_value_def dest: strict_suffix_suffix intro: suffix_order.trans)
qed (use assms in \<open>simp_all add: ref_in_value_def\<close>)

lemma value_body_yields:
  assumes "strict_suffix p p0" "HAS_CHARS enc p 1" "{- 2, - 1, 0} \<subseteq> T"
  shows "yields_pass True T (\<lambda>s. True) p0 p (value_body enc open s p)"
  unfolding value_body_def Let_def
  by (intro yields_rules yields_macros ref_in_value_yields scanRef_yields) (use assms in \<open>simp_all add: HAS_CHAR_def\<close>)

lemma next_att_body_yields:
  assumes "strict_suffix p p0" "HAS_CHARS enc p 1" "{- 2, - 1, 0, 1, 3} \<subseteq> T"
  shows "yields_pass True T (\<lambda>s. True) p0 p (next_att_body enc s p)"
  unfolding next_att_body_def Let_def
  by (intro yields_rules yields_macros sol_yields) (use assms in \<open>simp_all add: HAS_CHAR_def\<close>)

lemma after_value_yields: "strict_suffix p p0 \<Longrightarrow> {- 2, - 1, 0, 1, 3} \<subseteq> T \<Longrightarrow> yields True T p0 (after_value enc p)"
  unfolding after_value_def Let_def
  by (intro yields_rules yields_macros sol_yields yields_loop [where I = "\<lambda>s. True"]) (simp_all add: HAS_CHAR_def next_att_body_yields)

lemma equals_case_yields:
  assumes "HAS_CHARS enc p 1" "{- 2, - 1, 0, 1, 3} \<subseteq> T"
  shows "yields True T p (equals_case enc p)"
  unfolding equals_case_def
  by (intro yields_rules skip_to_yields after_value_yields yields_loop [where I = "\<lambda>s. True"])
    (use assms in \<open>simp_all add: value_body_yields\<close>)

lemma equals_case_yields_later:
  assumes "strict_suffix p p0" "{- 2, - 1, 0, 1, 3} \<subseteq> T"
  shows "yields True T p0 (equals_case enc p)"
  unfolding equals_case_def
  by (intro yields_rules skip_to_yields after_value_yields yields_loop [where I = "\<lambda>s. True"])
    (use assms in \<open>simp_all add: value_body_yields\<close>)

lemma then_pass_then_pass: "then_pass r (\<lambda>p. then_pass (f p) go) = then_pass (then_do r f) go"
  by (cases r) (simp_all add: then_pass_def then_do_def switch_pass_def switch_def)

lemma scanAtts_body_yields:
  assumes "strict_suffix p p0" "HAS_CHARS enc p 1" "{- 2, - 1, 0, 1, 3} \<subseteq> T"
  shows "yields_pass b T (\<lambda>s. True) p0 p (scanAtts_body enc hadColon p)"
  unfolding scanAtts_body_def Let_def then_pass_then_pass
  by (intro yields_rules yields_macros colon_case_yields skip_to_yields equals_case_yields equals_case_yields_later)
    (use assms in \<open>simp_all add: HAS_CHAR_def\<close>)

lemma scanAtts_yields: "strict_suffix p p0 \<Longrightarrow> {- 2, - 1, 0, 1, 3} \<subseteq> T \<Longrightarrow> yields b T p0 (scanAtts enc p)"
  unfolding scanAtts_def Let_def
  by (intro yields_rules yields_macros yields_loop [where I = "\<lambda>s. True"]) (simp_all add: HAS_CHAR_def scanAtts_body_yields)

lemma scanLt_space_yields:
  assumes "strict_suffix p p0" "HAS_CHARS enc p 1" "{- 2, - 1, 0, 1, 2, 3, 4} \<subseteq> T"
  shows "yields_pass b T (\<lambda>s. True) p0 p (scanLt_space enc s p)"
  unfolding scanLt_space_def Let_def
  by (intro yields_rules yields_macros sol_yields scanAtts_yields) (use assms in \<open>simp_all add: HAS_CHAR_def\<close>)

lemma scanLt_body_yields:
  assumes "strict_suffix p p0" "HAS_CHARS enc p 1" "{- 2, - 1, 0, 1, 2, 3, 4} \<subseteq> T"
  shows "yields_pass b T (\<lambda>s. True) p0 p (scanLt_body enc hadColon p)"
  unfolding scanLt_body_def Let_def
  by (intro yields_rules yields_macros sol_yields colon_case_yields yields_loop [where I = "\<lambda>s. True"]) (use assms in \<open>simp_all add: HAS_CHAR_def scanLt_space_yields\<close>)

lemma excl_case_yields: "strict_suffix p p0 \<Longrightarrow> {- 2, - 1, 0, 8, 13} \<subseteq> T \<Longrightarrow> yields b T p0 (excl_case enc p)"
  unfolding excl_case_def Let_def
  by (intro yields_rules yields_macros scanComment_yields scanCdataSection_yields) (simp_all add: HAS_CHAR_def)

lemma scanLt_yields: "strict_suffix p p0 \<Longrightarrow> {- 2, - 1, 0, 1, 2, 3, 4, 5, 8, 11, 12, 13} \<subseteq> T \<Longrightarrow> yields b T p0 (scanLt enc p)"
  unfolding scanLt_def Let_def
  by (intro yields_rules yields_macros excl_case_yields scanPi_yields scanEndTag_yields yields_loop [where I = "\<lambda>s. True"]) (simp_all add: HAS_CHAR_def scanLt_body_yields)

lemma rsqb_in_data_yields:
  assumes "strict_suffix p p0" "HAS_CHARS enc p 1" "{0, 6} \<subseteq> T"
  shows "yields_pass b T (\<lambda>s. True) p0 p (rsqb_in_data enc p)"
  unfolding rsqb_in_data_def
  by (intro yields_rules) (use assms in \<open>simp_all add: HAS_CHAR_def\<close>)

lemma content_body_yields:
  assumes "strict_suffix p p0" "HAS_CHARS enc p 1" "{0, 6} \<subseteq> T"
  shows "yields_pass b T (\<lambda>s. True) p0 p (content_body enc s p)"
  unfolding content_body_def Let_def
  by (intro yields_rules yields_macros data_lead_yields rsqb_in_data_yields) (use assms in \<open>simp_all add: HAS_CHAR_def\<close>)

lemma content_start_yields:
  assumes "HAS_CHARS enc p 1" "{- 5, - 3, - 2, - 1, 0, 1, 2, 3, 4, 5, 7, 8, 9, 10, 11, 12, 13} \<subseteq> T"
  shows "yields True T p (content_start enc p)"
  unfolding content_start_def Let_def
  by (intro yields_rules yields_macros scanLt_yields scanRef_yields) (use assms in \<open>simp_all add: HAS_CHAR_def\<close>)

lemma content_chars_yields:
  assumes "HAS_CHARS enc p 1" "{- 5, - 3, - 2, - 1, 0, 1, 2, 3, 4, 5, 6, 7, 8, 9, 10, 11, 12, 13} \<subseteq> T"
  shows "yields b T p (content_chars enc p)"
  unfolding content_chars_def
  by (intro yields_rules content_start_yields yields_loop [where I = "\<lambda>s. True"]) (use assms in \<open>simp_all add: content_body_yields\<close>)

section \<open>The prolog\<close>

lemma scanPercent_yields: "strict_suffix p p0 \<Longrightarrow> {- 2, - 1, 0, 22, 28} \<subseteq> T \<Longrightarrow> yields b T p0 (scanPercent enc p)"
  unfolding scanPercent_def Let_def
  by (intro yields_rules yields_macros yields_loop [where I = "\<lambda>s. True"]) (simp_all add: HAS_CHAR_def name_then_semi_yields)

lemma scanPoundName_body_yields:
  assumes "strict_suffix p p0" "HAS_CHARS enc p 1" "{- 2, 0, 20} \<subseteq> T"
  shows "yields_pass b T (\<lambda>s. True) p0 p (scanPoundName_body enc s p)"
  unfolding scanPoundName_body_def Let_def
  by (intro yields_rules yields_macros) (use assms in \<open>simp_all add: HAS_CHAR_def\<close>)

lemma scanPoundName_yields: "strict_suffix p p0 \<Longrightarrow> {- 20, - 2, - 1, 0, 20} \<subseteq> T \<Longrightarrow> yields b T p0 (scanPoundName enc p)"
  unfolding scanPoundName_def Let_def
  by (intro yields_rules yields_macros yields_loop [where I = "\<lambda>s. True"]) (simp_all add: HAS_CHAR_def scanPoundName_body_yields)

lemma close_quote_yields: "strict_suffix p p0 \<Longrightarrow> {- 27, 0, 27} \<subseteq> T \<Longrightarrow> yields b T p0 (close_quote enc p)"
  unfolding close_quote_def Let_def
  by (intro yields_rules yields_macros) (simp_all add: HAS_CHAR_def)

lemma scanLit_body_yields:
  assumes "strict_suffix p p0" "HAS_CHARS enc p 1" "{- 27, - 2, 0, 27} \<subseteq> T"
  shows "yields_pass b T (\<lambda>s. True) p0 p (scanLit_body open enc s p)"
  unfolding scanLit_body_def Let_def
  by (intro yields_rules yields_macros close_quote_yields) (use assms in \<open>simp_all add: HAS_CHAR_def\<close>)

lemma scanLit_yields: "strict_suffix p p0 \<Longrightarrow> {- 27, - 2, - 1, 0, 27} \<subseteq> T \<Longrightarrow> yields b T p0 (scanLit open enc p)"
  unfolding scanLit_def Let_def
  by (intro yields_rules yields_macros yields_loop [where I = "\<lambda>s. True"]) (simp_all add: HAS_CHAR_def scanLit_body_yields)

lemma prolog_space_body_yields:
  assumes "strict_suffix p p0" "HAS_CHARS enc p 1" "{15} \<subseteq> T"
  shows "yields_pass b T (\<lambda>s. True) p0 p (prolog_space_body enc s p)"
  unfolding prolog_space_body_def Let_def
  by (intro yields_rules yields_macros) (use assms in \<open>simp_all add: HAS_CHAR_def\<close>)

lemma prolog_space_yields: "HAS_CHARS enc p 1 \<Longrightarrow> 15 \<in> T \<Longrightarrow> yields b T p (prolog_space enc p)"
  unfolding prolog_space_def
  by (intro yields_loop [where I = "\<lambda>s. True"]) (simp_all add: prolog_space_body_yields)

lemma prolog_lt_yields:
  assumes "HAS_CHARS enc p 1" "{- 2, - 1, 0, 11, 12, 13, 16, 29, 33} \<subseteq> T"
  shows "yields b T p (prolog_lt enc p)"
  unfolding prolog_lt_def Let_def
  by (intro yields_rules scanDecl_yields scanPi_yields) (use assms in \<open>simp_all add: HAS_CHAR_def\<close>)

lemma prolog_rsqb_yields: "strict_suffix p p0 \<Longrightarrow> {- 26, - 1, 26, 34} \<subseteq> T \<Longrightarrow> yields b T p0 (prolog_rsqb enc p)"
  unfolding prolog_rsqb_def Let_def
  by (intro yields_rules yields_macros) (simp_all add: HAS_CHAR_def)

lemma prolog_rpar_yields: "strict_suffix p p0 \<Longrightarrow> {- 24, 0, 24, 35, 36, 37} \<subseteq> T \<Longrightarrow> yields b T p0 (prolog_rpar enc p)"
  unfolding prolog_rpar_def Let_def
  by (intro yields_rules yields_macros) (simp_all add: HAS_CHAR_def)

lemma prolog_lead_yields:
  assumes "HAS_CHARS enc p 1" "n = lead_bytes (BYTE_TYPE enc p)" "0 < n" "{- 2, 0} \<subseteq> T"
  shows "yields_pass b T (\<lambda>tok. tok \<in> {18, 19, 41}) p p (prolog_lead enc p n)"
proof -
  obtain b c d where "IS_INVALID_CHAR enc p n = Some b" "IS_NMSTRT_CHAR enc p n = Some c" "IS_NAME_CHAR enc p n = Some d"
    using tested assms by blast
  with assms(3,4) show ?thesis by (cases b; cases c; cases d) (simp_all add: prolog_lead_def)
qed

lemma prolog_name_yields:
  assumes "HAS_CHARS enc p 1" "{- 2, 0} \<subseteq> T"
  shows "yields_pass b T (\<lambda>tok. tok \<in> {18, 19, 41}) p p (prolog_name enc p)"
  unfolding prolog_name_def Let_def
  by (intro yields_rules prolog_lead_yields) (use assms in simp_all)

lemma prolog_switch_yields:
  assumes "HAS_CHARS enc p 1"
    and "{- 27, - 26, - 24, - 20, - 15, - 2, - 1, 0, 11, 12, 13, 15, 16, 17, 20, 21, 22, 23, 24, 25, 26, 27, 28, 29, 33, 34,
      35, 36, 37, 38} \<subseteq> T"
  shows "yields_pass b T (\<lambda>tok. tok \<in> {18, 19, 41}) p p (prolog_switch enc p)"
  unfolding prolog_switch_def Let_def
  by (intro yields_rules scanLit_yields prolog_lt_yields prolog_space_yields scanPercent_yields prolog_rsqb_yields
        prolog_rpar_yields scanPoundName_yields prolog_name_yields)
    (use assms in \<open>simp_all\<close>)

lemma prolog_colon_yields:
  assumes "strict_suffix p p0" "strict_suffix p p1" "{- 2, - 1, 0} \<subseteq> T" "tok \<in> {18, 19, 41}"
  shows "yields_pass b T (\<lambda>tok. tok \<in> {18, 19, 41}) p0 p1 (prolog_colon enc tok p)"
  unfolding prolog_colon_def
  by (intro yields_rules yields_macros) (use assms in \<open>simp_all add: HAS_CHAR_def\<close>)

lemma prolog_name_body_yields:
  assumes "strict_suffix p p0" "HAS_CHARS enc p 1" "{- 2, - 1, 0, 18, 19, 30, 31, 32, 41} \<subseteq> T" "tok \<in> {18, 19, 41}"
  shows "yields_pass b T (\<lambda>tok. tok \<in> {18, 19, 41}) p0 p (prolog_name_body enc tok p)"
  unfolding prolog_name_body_def suffixed_name_def Let_def
  by (intro yields_rules yields_macros prolog_colon_yields) (use assms in \<open>auto simp: HAS_CHAR_def\<close>)

lemma prolog_chars_yields:
  assumes "HAS_CHARS enc p 1" "prolog_tokens \<subseteq> T"
  shows "yields b T p (prolog_chars enc p)"
proof (cases "prolog_switch enc p")
  case (Next tok q)
  with prolog_switch_yields [OF assms(1), of T] assms(2) have "strict_suffix q p" "tok \<in> {18, 19, 41}"
    by (auto simp: prolog_tokens_def)
  then have "yields b T p (scan_loop enc (prolog_name_body enc) (\<lambda>tok p. Return (- tok) None) tok q)"
    by (intro yields_loop [where I = "\<lambda>tok. tok \<in> {18, 19, 41}"] prolog_name_body_yields)
      (use assms(2) in \<open>auto simp: prolog_tokens_def\<close>)
  with Next show ?thesis by (simp add: prolog_chars_def)
next
  case (Exit r)
  with prolog_switch_yields [OF assms(1), of T] assms(2) show ?thesis
    by (simp add: prolog_chars_def prolog_tokens_def)
qed

section \<open>Ignored sections\<close>

lemma ignore_lt_yields:
  assumes "strict_suffix p p0" "strict_suffix p p1" "- 1 \<in> T"
  shows "yields_pass b T (\<lambda>s. True) p0 p1 (ignore_lt enc nesting p)"
  unfolding ignore_lt_def by (intro yields_rules) (use assms in \<open>simp_all add: HAS_CHAR_def\<close>)

lemma ignore_rsqb_yields:
  assumes "strict_suffix p p0" "strict_suffix p p1" "{- 1, 42} \<subseteq> T"
  shows "yields_pass b T (\<lambda>s. True) p0 p1 (ignore_rsqb enc nesting p)"
  unfolding ignore_rsqb_def by (intro yields_rules) (use assms in \<open>simp_all add: HAS_CHAR_def\<close>)

lemma ignore_body_yields:
  assumes "suffix p p0" "HAS_CHARS enc p 1" "{- 2, - 1, 0, 42} \<subseteq> T"
  shows "yields_pass b T (\<lambda>s. True) p0 p (ignore_body enc nesting p)"
  unfolding ignore_body_def
  by (intro yields_rules yields_macros ignore_lt_yields ignore_rsqb_yields)
    (use assms in \<open>simp_all add: suffix_order.less_le_trans [OF strict_suffix_adv_self]\<close>)

lemma ignore_chars_yields: "{- 2, - 1, 0, 42} \<subseteq> T \<Longrightarrow> yields b T p (ignore_chars enc p)"
  unfolding ignore_chars_def
  by (intro yields_loop_start [where I = "\<lambda>s. True"] ignore_body_yields) simp_all

section \<open>The tokenizers\<close>

lemma whole_chars_yields:
  assumes "\<And>q. HAS_CHARS enc q 1 \<Longrightarrow> yields False T q (f q)" "- 1 \<in> T"
  shows "yields False T p (whole_chars enc f p)"
proof -
  let ?n = "length p - length p mod MINBPC enc"
  have "HAS_CHARS enc (take ?n p) 1" if "0 < ?n"
  proof -
    have "?n = length p div MINBPC enc * MINBPC enc" by (simp add: minus_mod_eq_div_mult)
    with that show ?thesis by (simp add: HAS_CHARS_def)
  qed
  then have "yields False T (take ?n p @ drop ?n p) (with_tail (drop ?n p) (f (take ?n p)))" if "0 < ?n"
    using that assms(1) by (intro yields_with_tail) blast
  then show ?thesis using assms(2) by (auto simp: whole_chars_def Let_def)
qed

lemma cdataSectionTok_yields: "yields False {- 4, - 2, - 1, 0, 6, 7, 40} p (cdataSectionTok enc p)"
  unfolding cdataSectionTok_def by (intro yields_rules whole_chars_yields cdata_chars_yields) simp_all

lemma contentTok_yields: "yields False {- 5, - 4, - 3, - 2, - 1, 0, 1, 2, 3, 4, 5, 6, 7, 8, 9, 10, 11, 12, 13} p (contentTok enc p)"
  unfolding contentTok_def by (intro yields_rules whole_chars_yields content_chars_yields) simp_all

lemma prologTok_yields: "yields False (insert (- 4) prolog_tokens) p (prologTok enc p)"
  unfolding prologTok_def
  by (intro yields_rules whole_chars_yields prolog_chars_yields) (auto simp: prolog_tokens_def)

lemma ignoreSectionTok_yields: "yields False {- 2, - 1, 0, 42} p (ignoreSectionTok enc p)"
  unfolding ignoreSectionTok_def by (intro whole_chars_yields ignore_chars_yields) simp_all

end

section \<open>The built-in encodings\<close>

lemma tables [simp]:
  "length (asciitab c) = 128" "length (iasciitab c) = 128" "length latin1tab = 128" "length utf8tab = 128"
  by (simp_all add: asciitab_def iasciitab_def latin1tab_def utf8tab_def)

lemma no_lead_bytes:
  "\<forall>t \<in> set (asciitab BT_COLON). lead_bytes t = 0" "\<forall>t \<in> set (asciitab BT_NMSTRT). lead_bytes t = 0"
  "\<forall>t \<in> set latin1tab. lead_bytes t = 0" "lead_bytes BT_NONXML = 0"
  by (simp_all add: asciitab_def latin1tab_def lead_bytes_def)

lemma untested_no_lead:
  assumes "length (typetab enc) = 256" "\<forall>t \<in> set (typetab enc). lead_bytes t = 0" "family enc = Normal_enc"
  shows "total_encoding enc"
proof
  fix p f n
  assume "0 < lead_bytes (BYTE_TYPE enc p)"
  moreover have "unat (p ! 0) < length (typetab enc)"
    using unsigned_less [of "p ! 0", where 'a = nat] assms(1) by simp
  ultimately show "call_test enc f n p \<noteq> None"
    using assms(2,3) nth_mem by (fastforce simp: BYTE_TYPE_def)
qed

lemma tested_total: "family enc \<noteq> Normal_enc \<or> tests enc \<noteq> None \<Longrightarrow> total_encoding enc"
  by unfold_locales (auto simp: call_test_def)

lemma single_byte_total:
  "total_encoding latin1_encoding_ns" "total_encoding latin1_encoding"
  "total_encoding ascii_encoding_ns" "total_encoding ascii_encoding"
  by (intro untested_no_lead;
      simp add: latin1_encoding_ns_def latin1_encoding_def ascii_encoding_ns_def ascii_encoding_def no_lead_bytes ball_Un)+

lemmas encoding_defs =
  utf8_encoding_ns_def utf8_encoding_def internal_utf8_encoding_ns_def internal_utf8_encoding_def latin1_encoding_ns_def
  latin1_encoding_def ascii_encoding_ns_def ascii_encoding_def little2_encoding_ns_def little2_encoding_def
  internal_little2_encoding_ns_def internal_little2_encoding_def big2_encoding_ns_def big2_encoding_def

lemma built_in_total:
  assumes "enc \<in> set built_in_encodings"
  shows "total_encoding enc"
proof (cases "family enc \<noteq> Normal_enc \<or> tests enc \<noteq> None")
  case False
  with assms have "enc \<in> {latin1_encoding_ns, latin1_encoding, ascii_encoding_ns, ascii_encoding}"
    by (auto simp: built_in_encodings_def utf8_encoding_ns_def utf8_encoding_def internal_utf8_encoding_ns_def
        internal_utf8_encoding_def little2_encoding_ns_def little2_encoding_def
        internal_little2_encoding_ns_def internal_little2_encoding_def big2_encoding_ns_def big2_encoding_def)
  with single_byte_total show ?thesis by blast
qed (rule tested_total)

interpretation utf8: total_encoding utf8_encoding_ns
  by (rule tested_total) (simp add: utf8_encoding_ns_def)

interpretation latin1: total_encoding latin1_encoding_ns
  by (rule single_byte_total)

interpretation utf16: total_encoding little2_encoding_ns
  by (rule tested_total) (simp add: little2_encoding_ns_def)

end
