(* ===== verification/Xml_Scan_Sim.thy ===== *)
theory Xml_Scan_Sim
  imports Xml_Scan_Inv
begin

text \<open>
  Two runs of the scanners side by side: one with an encoding on a text, one with a second encoding on an image of
  the text. When the image keeps the characters, the second run finds the same tokens at the image of
  the places of the first one. The interface asks for this of single characters; the lemmas give it for all the scanners.

  An image is \<open>exact\<close> when it has no further characters at its end. Otherwise what the scanners say about a
  text that stops early, and the tokens that extend as far as the input goes, need not be the same.
\<close>

section \<open>The interface\<close>

locale scan_sim = total_encoding enc
  for enc :: ENCODING +
  fixes enc' :: ENCODING and image :: "byte list \<Rightarrow> byte list" and chars :: "byte list \<Rightarrow> bool" and exact :: bool
  assumes chars_drop [simp]: "chars p \<Longrightarrow> chars (drop n p)"
    and image_has: "chars p \<Longrightarrow> HAS_CHARS enc p k \<Longrightarrow> HAS_CHARS enc' (image p) k"
    and image_has_only: "exact \<Longrightarrow> chars p \<Longrightarrow> HAS_CHARS enc' (image p) k \<Longrightarrow> HAS_CHARS enc p k"
    and image_end: "exact \<Longrightarrow> image [] = []"
    and image_shorter: "length (image p) < length (image q) \<longleftrightarrow> length p < length q"
    and image_type: "chars p \<Longrightarrow> HAS_CHARS enc p 1 \<Longrightarrow> BYTE_TYPE enc' (image p) = BYTE_TYPE enc p"
    and image_char: "chars p \<Longrightarrow> HAS_CHARS enc p 1 \<Longrightarrow> char_is enc' (image p) c = char_is enc p c"
    and image_name: "chars p \<Longrightarrow> HAS_CHARS enc p 1 \<Longrightarrow> BYTE_TYPE enc p = BT_NONASCII \<Longrightarrow>
      IS_NAME_CHAR_MINBPC enc' (image p) = IS_NAME_CHAR_MINBPC enc p"
    and image_nmstrt: "chars p \<Longrightarrow> HAS_CHARS enc p 1 \<Longrightarrow> BYTE_TYPE enc p = BT_NONASCII \<Longrightarrow>
      IS_NMSTRT_CHAR_MINBPC enc' (image p) = IS_NMSTRT_CHAR_MINBPC enc p"
    and image_adv: "chars p \<Longrightarrow> HAS_CHARS enc p 1 \<Longrightarrow> adv enc' (image p) = image (adv enc p)"
    and image_lead: "chars p \<Longrightarrow> HAS_CHARS enc p 1 \<Longrightarrow> n = lead_bytes (BYTE_TYPE enc p) \<Longrightarrow> 0 < n \<Longrightarrow> n \<le> length p \<Longrightarrow>
      n \<le> length (image p) \<and> drop n (image p) = image (drop n p) \<and>
      IS_INVALID_CHAR enc' (image p) n = IS_INVALID_CHAR enc p n \<and>
      IS_NAME_CHAR enc' (image p) n = IS_NAME_CHAR enc p n \<and>
      IS_NMSTRT_CHAR enc' (image p) n = IS_NMSTRT_CHAR enc p n"
    and image_lead_only: "exact \<Longrightarrow> chars p \<Longrightarrow> HAS_CHARS enc p 1 \<Longrightarrow> n = lead_bytes (BYTE_TYPE enc p) \<Longrightarrow> length p < n \<Longrightarrow>
      length (image p) < n"
    and image_target: "chars p \<Longrightarrow> checkPiTarget enc' (upto_ptr (image p) (image q)) = checkPiTarget enc (upto_ptr p q)"
begin

text \<open>The results that the second run must have too, and what they become there.\<close>

definition definite :: "outcome \<Rightarrow> bool" where
  "definite r \<longleftrightarrow> (case r of Return t q \<Rightarrow> exact \<or> 0 \<le> t \<and> t \<noteq> XML_TOK_DATA_CHARS \<and> t \<noteq> XML_TOK_PROLOG_S | _ \<Rightarrow> True)"

definition definite_pass :: "'s pass \<Rightarrow> bool" where
  "definite_pass b \<longleftrightarrow> (case b of Exit r \<Rightarrow> definite r | _ \<Rightarrow> True)"

definition image_out :: "outcome \<Rightarrow> outcome" where
  "image_out r = (case r of Return t q \<Rightarrow> Return t (map_option image q) | Break q \<Rightarrow> Break (image q) | Undefined \<Rightarrow> Undefined)"

definition sim :: "outcome \<Rightarrow> outcome \<Rightarrow> bool" where
  "sim r r' \<longleftrightarrow> (definite r \<longrightarrow> r' = image_out r \<and> (\<forall>q. r = Break q \<longrightarrow> chars q))"

definition sim_pass :: "('s \<Rightarrow> bool) \<Rightarrow> 's pass \<Rightarrow> 's pass \<Rightarrow> bool" where
  "sim_pass I b b' \<longleftrightarrow>
    (case b of
       Next s q \<Rightarrow> b' = Next s (image q) \<and> chars q \<and> I s
     | Exit r \<Rightarrow> definite r \<longrightarrow> b' = Exit (image_out r) \<and> (\<forall>q. r = Break q \<longrightarrow> chars q))"

lemma definite_simps [simp]:
  "definite (Return t q) \<longleftrightarrow> exact \<or> 0 \<le> t \<and> t \<noteq> 6 \<and> t \<noteq> 15"
  "definite (Break p)" "definite Undefined" "definite (INVALID p)"
  "definite PARTIAL \<longleftrightarrow> exact"
  "definite (token_at t p) \<longleftrightarrow> exact \<or> 0 \<le> t \<and> t \<noteq> 6 \<and> t \<noteq> 15"
  "definite_pass (Exit r) \<longleftrightarrow> definite r" "definite_pass (Next s p)"
  by (auto simp: definite_def definite_pass_def INVALID_def PARTIAL_def token_at_def)

lemma sim_simps [simp]:
  "sim PARTIAL PARTIAL" "sim (Return t None) (Return t None)"
  "sim (INVALID p) (INVALID q) \<longleftrightarrow> q = image p"
  "image p = q \<Longrightarrow> sim (token_at t p) (token_at t q)"
  "sim Undefined Undefined"
  "sim (Break p) (Break q) \<longleftrightarrow> q = image p \<and> chars p"
  "sim_pass I (Exit r) (Exit r') \<longleftrightarrow> sim r r'"
  "sim_pass I (Next s p) (Next s' q) \<longleftrightarrow> q = image p \<and> chars p \<and> s' = s \<and> I s"
  by (auto simp: sim_def sim_pass_def image_out_def PARTIAL_def INVALID_def token_at_def)

lemma chars_adv [simp]: "chars p \<Longrightarrow> chars (adv enc p)"
  by (simp add: adv_def)

lemma chars_suffix: "suffix q p \<Longrightarrow> chars p \<Longrightarrow> chars q"
  by (metis chars_drop suffix_take append_eq_conv_conj suffix_def)

lemma image_has_iff: "exact \<Longrightarrow> chars p \<Longrightarrow> HAS_CHARS enc' (image p) k \<longleftrightarrow> HAS_CHARS enc p k"
  using image_has image_has_only by blast

lemma image_length_eq [simp]: "length (image p) = length (image q) \<longleftrightarrow> length p = length q"
  by (metis image_shorter linorder_neq_iff)

lemma image_last:
  assumes "chars p" "HAS_CHARS enc p 1"
  shows "length p \<noteq> MINBPC enc \<Longrightarrow> length (image p) \<noteq> MINBPC enc'"
    and "exact \<Longrightarrow> length (image p) = MINBPC enc' \<longleftrightarrow> length p = MINBPC enc"
proof -
  have adv: "length (adv enc' (image p)) = length (image (adv enc p))"
    using image_adv [OF assms] by simp
  show more: "length (image p) \<noteq> MINBPC enc'" if "length p \<noteq> MINBPC enc"
  proof -
    have "length ([] :: byte list) < length (adv enc p)" using that assms(2) by (simp add: adv_def HAS_CHARS_def)
    then have "length (image []) < length (image (adv enc p))" by (simp only: image_shorter)
    with adv show ?thesis by (simp add: adv_def)
  qed
  assume exact
  have "length (image p) = MINBPC enc'" if "length p = MINBPC enc"
  proof -
    have "adv enc p = []" using that by (simp add: adv_def)
    with adv image_end [OF \<open>exact\<close>] have "length (image p) \<le> MINBPC enc'" by (simp add: adv_def)
    with image_has [OF assms] show ?thesis by (simp add: HAS_CHARS_def)
  qed
  with more show "length (image p) = MINBPC enc' \<longleftrightarrow> length p = MINBPC enc" by blast
qed

lemmas image_simps =
  HAS_CHAR_def image_has image_has_iff image_type image_char image_name image_nmstrt image_adv image_target

section \<open>Rules for the constructs of the scanners\<close>

lemma sim_if:
  assumes "c \<Longrightarrow> definite x \<Longrightarrow> c'" "\<not> c \<Longrightarrow> definite y \<Longrightarrow> \<not> c'" "c \<Longrightarrow> sim x x'" "\<not> c \<Longrightarrow> sim y y'"
  shows "sim (if c then x else y) (if c' then x' else y')"
  using assms by (auto simp: sim_def)

lemma sim_pass_if:
  assumes "c \<Longrightarrow> definite_pass x \<Longrightarrow> c'" "\<not> c \<Longrightarrow> definite_pass y \<Longrightarrow> \<not> c'"
    and "c \<Longrightarrow> sim_pass I x x'" "\<not> c \<Longrightarrow> sim_pass I y y'"
  shows "sim_pass I (if c then x else y) (if c' then x' else y')"
  using assms by (auto simp: sim_pass_def definite_pass_def split: pass.splits)

lemma sim_pass_Exit: "sim r r' \<Longrightarrow> sim_pass I (Exit r) (Exit r')"
  by simp

lemma sim_then_do:
  assumes "sim r r'" "\<And>q. r = Break q \<Longrightarrow> chars q \<Longrightarrow> sim (go q) (go' (image q))"
  shows "sim (then_do r go) (then_do r' go')"
  using assms by (cases r) (auto simp: sim_def then_do_def switch_def image_out_def split: outcome.splits)

lemma sim_then_pass:
  assumes "sim r r'" "\<And>q. r = Break q \<Longrightarrow> chars q \<Longrightarrow> sim_pass I (go q) (go' (image q))"
  shows "sim_pass I (then_pass r go) (then_pass r' go')"
  using assms
  by (cases r) (auto simp: sim_def sim_pass_def then_pass_def switch_pass_def image_out_def split: outcome.splits)

definition sim_cases :: "outcome option \<Rightarrow> outcome option \<Rightarrow> bool" where
  "sim_cases m m' \<longleftrightarrow> (case m of None \<Rightarrow> m' = None | Some r \<Rightarrow> definite r \<longrightarrow> (\<exists>r'. m' = Some r' \<and> sim r r'))"

lemma sim_switch:
  assumes "sim_cases m m'" "\<And>q. chars q \<Longrightarrow> sim (go q) (go' (image q))" "sim other other'"
  shows "sim (switch m go other) (switch m' go' other')"
proof (cases m)
  case None
  with assms show ?thesis by (simp add: sim_cases_def switch_def)
next
  case (Some r)
  with assms show ?thesis
    by (cases r) (auto simp: sim_cases_def sim_def switch_def image_out_def split: outcome.splits)
qed

lemma sim_switch_pass:
  assumes "sim_cases m m'" "\<And>q. chars q \<Longrightarrow> sim_pass I (go q) (go' (image q))" "sim_pass I other other'"
  shows "sim_pass I (switch_pass m go other) (switch_pass m' go' other')"
proof (cases m)
  case None
  with assms show ?thesis by (simp add: sim_cases_def switch_pass_def)
next
  case (Some r)
  with assms show ?thesis
    by (cases r) (auto simp: sim_cases_def sim_def sim_pass_def switch_pass_def image_out_def split: outcome.splits)
qed

lemma sim_loop:
  assumes "\<And>s p. I s \<Longrightarrow> chars p \<Longrightarrow> HAS_CHARS enc p 1 \<Longrightarrow> sim_pass I (body s p) (body' s (image p))"
    and "\<And>s p. I s \<Longrightarrow> chars p \<Longrightarrow> sim (fell s p) (fell' s (image p))"
    and "\<And>s p. I s \<Longrightarrow> definite (fell s p) \<Longrightarrow> exact"
    and "I s" "chars p" "p' = image p"
  shows "sim (scan_loop enc body fell s p) (scan_loop enc' body' fell' s p')"
  unfolding assms(6) using assms(4,5)
proof (induction "length p" arbitrary: s p rule: less_induct)
  case less
  show ?case
  proof (cases "HAS_CHAR enc p")
    case False
    then have "\<not> HAS_CHAR enc' (image p)" if "definite (fell s p)"
      using assms(3) [of s p] less.prems that by (simp add: HAS_CHAR_def image_has_iff)
    with False assms(2) [OF less.prems] show ?thesis
      by (auto simp: scan_loop.simps [of enc] scan_loop.simps [of enc'] sim_def)
  next
    case True
    then have here: "HAS_CHARS enc p 1" "HAS_CHAR enc' (image p)"
      using image_has less.prems by (simp_all add: HAS_CHAR_def)
    note step = assms(1) [OF less.prems here(1)]
    show ?thesis
    proof (cases "body s p")
      case (Next s' q)
      with step less.hyps [of q s'] True here(2) show ?thesis
        by (auto simp: scan_loop.simps [of enc _ _ s p] scan_loop.simps [of enc' _ _ s "image p"] sim_pass_def image_shorter)
    next
      case (Exit r)
      with step True here(2) show ?thesis
        by (auto simp: scan_loop.simps [of enc] scan_loop.simps [of enc'] sim_pass_def sim_def)
    qed
  qed
qed

lemmas sim_rules = sim_if sim_pass_if sim_pass_Exit sim_then_do sim_then_pass sim_switch sim_switch_pass

section \<open>The scanners\<close>

lemma INVALID_LEAD_CASE_sim:
  assumes "chars p" "HAS_CHARS enc p 1" "n = lead_bytes (BYTE_TYPE enc p)" "0 < n"
  shows "sim (INVALID_LEAD_CASE enc p n) (INVALID_LEAD_CASE enc' (image p) n)"
  using image_lead [OF assms] image_lead_only [OF _ assms(1-3)] assms(1)
  by (cases "length p < n")
    (auto simp: INVALID_LEAD_CASE_def sim_def image_out_def INVALID_def split: option.splits bool.splits)

lemma check_lead_sim:
  assumes "chars p" "HAS_CHARS enc p 1" "n = lead_bytes (BYTE_TYPE enc p)" "0 < n"
    and "n \<le> length p \<Longrightarrow> f enc' (image p) n = f enc p n"
  shows "sim (check_lead f enc p n) (check_lead f enc' (image p) n)"
  using image_lead [OF assms(1-4)] image_lead_only [OF _ assms(1-3)] assms(1,5)
  by (cases "length p < n")
    (auto simp: check_lead_def sim_def image_out_def INVALID_def split: option.splits bool.splits)

lemma INVALID_CASES_sim:
  "chars p \<Longrightarrow> HAS_CHARS enc p 1 \<Longrightarrow> p' = image p \<Longrightarrow> sim_cases (INVALID_CASES enc p) (INVALID_CASES enc' p')"
  by (simp add: INVALID_CASES_def sim_cases_def image_simps INVALID_LEAD_CASE_sim Let_def)

lemma CHECK_NAME_CASES_sim:
  "chars p \<Longrightarrow> HAS_CHARS enc p 1 \<Longrightarrow> p' = image p \<Longrightarrow> sim_cases (CHECK_NAME_CASES enc p) (CHECK_NAME_CASES enc' p')"
  by (simp add: CHECK_NAME_CASES_def sim_cases_def image_simps image_lead check_lead_sim Let_def cong: conj_cong)

lemma CHECK_NMSTRT_CASES_sim:
  "chars p \<Longrightarrow> HAS_CHARS enc p 1 \<Longrightarrow> p' = image p \<Longrightarrow> sim_cases (CHECK_NMSTRT_CASES enc p) (CHECK_NMSTRT_CASES enc' p')"
  by (simp add: CHECK_NMSTRT_CASES_def sim_cases_def image_simps image_lead check_lead_sim Let_def cong: conj_cong)

lemmas sim_macros = INVALID_CASES_sim CHECK_NAME_CASES_sim CHECK_NMSTRT_CASES_sim

lemma scanComment_body_sim:
  assumes "chars p" "HAS_CHARS enc p 1"
  shows "sim_pass (\<lambda>s. True) (scanComment_body enc s p) (scanComment_body enc' s (image p))"
  unfolding scanComment_body_def
  by (intro sim_rules sim_macros) (use assms in \<open>simp_all add: image_simps\<close>)

lemma scanComment_sim: "chars p \<Longrightarrow> p' = image p \<Longrightarrow> sim (scanComment enc p) (scanComment enc' p')"
  unfolding scanComment_def
  by (intro sim_rules sim_loop [where I = "\<lambda>s. True"]) (simp_all add: image_simps scanComment_body_sim)

lemma scanDecl_body_sim:
  assumes "chars p" "HAS_CHARS enc p 1"
  shows "sim_pass (\<lambda>s. True) (scanDecl_body enc s p) (scanDecl_body enc' s (image p))"
  unfolding scanDecl_body_def Let_def
  by (intro sim_rules sim_macros) (use assms in \<open>simp_all add: image_simps\<close>)

lemma scanDecl_sim: "chars p \<Longrightarrow> p' = image p \<Longrightarrow> sim (scanDecl enc p) (scanDecl enc' p')"
  unfolding scanDecl_def Let_def
  by (intro sim_rules scanComment_sim sim_loop [where I = "\<lambda>s. True"]) (simp_all add: image_simps scanDecl_body_sim)

lemma sim_pass_option:
  assumes "m' = m" "m = None \<Longrightarrow> sim_pass I x x'" "\<And>v. m = Some v \<Longrightarrow> sim_pass I (f v) (f' v)"
  shows "sim_pass I (case m of None \<Rightarrow> x | Some v \<Rightarrow> f v) (case m' of None \<Rightarrow> x' | Some v \<Rightarrow> f' v)"
  using assms by (cases m) auto

lemma scanPi_rest_sim:
  assumes "chars p" "HAS_CHARS enc p 1"
  shows "sim_pass (\<lambda>tok. True) (scanPi_rest enc tok p) (scanPi_rest enc' tok (image p))"
  unfolding scanPi_rest_def Let_def
  by (intro sim_rules sim_macros) (use assms in \<open>simp_all add: image_simps\<close>)

lemma scanPi_body_sim:
  assumes "chars p" "HAS_CHARS enc p 1" "chars target"
  shows "sim_pass (\<lambda>s. True) (scanPi_body enc target s p) (scanPi_body enc' (image target) s (image p))"
  unfolding scanPi_body_def Let_def
  by (intro sim_rules sim_macros sim_pass_option sim_loop [where I = "\<lambda>s. True"])
    (use assms in \<open>simp_all add: image_simps scanPi_rest_sim\<close>)

lemma scanPi_sim: "chars p \<Longrightarrow> p' = image p \<Longrightarrow> sim (scanPi enc p) (scanPi enc' p')"
  unfolding scanPi_def Let_def
  by (intro sim_rules sim_macros sim_loop [where I = "\<lambda>s. True"]) (simp_all add: image_simps scanPi_body_sim)

lemma match_chars_sim:
  "chars p \<Longrightarrow> HAS_CHARS enc p (length cs) \<Longrightarrow> p' = image p \<Longrightarrow> sim (match_chars enc cs tok p) (match_chars enc' cs tok p')"
proof (induction cs arbitrary: p p')
  case (Cons c cs)
  then have "HAS_CHARS enc p 1" "HAS_CHARS enc (adv enc p) (length cs)"
    using HAS_CHARS_mono [OF Cons.prems(2), of 1] by (simp_all add: HAS_CHARS_adv)
  with Cons show ?case
    by (auto simp: image_simps intro!: sim_if Cons.IH)
qed simp

lemma scanCdataSection_sim: "chars p \<Longrightarrow> p' = image p \<Longrightarrow> sim (scanCdataSection enc p) (scanCdataSection enc' p')"
  unfolding scanCdataSection_def
  by (intro sim_rules match_chars_sim) (simp_all add: image_simps CDATA_LSQB_def ascii_def numeral_eq_Suc)

lemma data_lead_sim:
  assumes "chars p" "HAS_CHARS enc p 1" "n = lead_bytes (BYTE_TYPE enc p)" "0 < n" "p' = image p" "n' = n"
  shows "sim_pass (\<lambda>s. True) (data_lead enc p n) (data_lead enc' p' n')"
  using image_lead [OF assms(1-4)] image_lead_only [OF _ assms(1-3)] assms(1,5,6)
  by (cases "length p < n")
    (auto simp: data_lead_def sim_pass_def image_out_def token_at_def split: option.splits bool.splits)

lemma cdata_body_sim:
  assumes "chars p" "HAS_CHARS enc p 1"
  shows "sim_pass (\<lambda>s. True) (cdata_body enc s p) (cdata_body enc' s (image p))"
  unfolding cdata_body_def Let_def
  by (intro sim_rules sim_macros data_lead_sim) (use assms in \<open>simp_all add: image_simps\<close>)

lemma cdata_start_sim:
  assumes "chars p" "HAS_CHARS enc p 1" "p' = image p"
  shows "sim (cdata_start enc p) (cdata_start enc' p')"
  unfolding cdata_start_def Let_def
  by (intro sim_rules sim_macros) (use assms in \<open>simp_all add: image_simps\<close>)

lemma cdata_chars_sim:
  assumes "chars p" "HAS_CHARS enc p 1" "p' = image p"
  shows "sim (cdata_chars enc p) (cdata_chars enc' p')"
  unfolding cdata_chars_def
  by (intro sim_rules cdata_start_sim sim_loop [where I = "\<lambda>s. True"]) (use assms in \<open>simp_all add: image_simps cdata_body_sim\<close>)

section \<open>Tags and content\<close>

lemma scanEndTag_space_sim:
  assumes "chars p" "HAS_CHARS enc p 1"
  shows "sim_pass (\<lambda>s. True) (scanEndTag_space enc s p) (scanEndTag_space enc' s (image p))"
  unfolding scanEndTag_space_def Let_def
  by (intro sim_rules sim_macros) (use assms in \<open>simp_all add: image_simps\<close>)

lemma scanEndTag_body_sim:
  assumes "chars p" "HAS_CHARS enc p 1"
  shows "sim_pass (\<lambda>s. True) (scanEndTag_body enc s p) (scanEndTag_body enc' s (image p))"
  unfolding scanEndTag_body_def Let_def
  by (intro sim_rules sim_macros sim_loop [where I = "\<lambda>s. True"]) (use assms in \<open>simp_all add: image_simps scanEndTag_space_sim\<close>)

lemma scanEndTag_sim: "chars p \<Longrightarrow> p' = image p \<Longrightarrow> sim (scanEndTag enc p) (scanEndTag enc' p')"
  unfolding scanEndTag_def Let_def
  by (intro sim_rules sim_macros sim_loop [where I = "\<lambda>s. True"]) (simp_all add: image_simps scanEndTag_body_sim)

lemma digits_body_sim:
  assumes "chars p" "HAS_CHARS enc p 1"
  shows "sim_pass (\<lambda>s. True) (digits_body ds enc s p) (digits_body ds enc' s (image p))"
  unfolding digits_body_def Let_def
  by (intro sim_rules sim_macros) (use assms in \<open>simp_all add: image_simps\<close>)

lemma scanHexCharRef_sim: "chars p \<Longrightarrow> p' = image p \<Longrightarrow> sim (scanHexCharRef enc p) (scanHexCharRef enc' p')"
  unfolding scanHexCharRef_def Let_def
  by (intro sim_rules sim_macros sim_loop [where I = "\<lambda>s. True"]) (simp_all add: image_simps digits_body_sim)

lemma scanCharRef_sim: "chars p \<Longrightarrow> p' = image p \<Longrightarrow> sim (scanCharRef enc p) (scanCharRef enc' p')"
  unfolding scanCharRef_def Let_def
  by (intro sim_rules sim_macros scanHexCharRef_sim sim_loop [where I = "\<lambda>s. True"]) (simp_all add: image_simps digits_body_sim)

lemma name_then_semi_sim:
  assumes "chars p" "HAS_CHARS enc p 1"
  shows "sim_pass (\<lambda>s. True) (name_then_semi tok enc s p) (name_then_semi tok enc' s (image p))"
  unfolding name_then_semi_def Let_def
  by (intro sim_rules sim_macros) (use assms in \<open>simp_all add: image_simps\<close>)

lemma scanRef_sim: "chars p \<Longrightarrow> p' = image p \<Longrightarrow> sim (scanRef enc p) (scanRef enc' p')"
  unfolding scanRef_def Let_def
  by (intro sim_rules sim_macros scanCharRef_sim sim_loop [where I = "\<lambda>s. True"]) (simp_all add: image_simps name_then_semi_sim)

lemma sol_sim:
  assumes "chars p" "HAS_CHARS enc p 1" "p' = image p"
  shows "sim (sol enc tok p) (sol enc' tok p')"
  unfolding sol_def
  by (intro sim_rules) (use assms in \<open>simp_all add: image_simps\<close>)

lemma colon_case_sim:
  assumes "chars p" "HAS_CHARS enc p 1" "p' = image p"
  shows "sim_pass (\<lambda>s. True) (colon_case enc hadColon p) (colon_case enc' hadColon p')"
  unfolding colon_case_def
  by (intro sim_rules sim_macros) (use assms in \<open>simp_all add: image_simps\<close>)

lemma equals_body_sim:
  assumes "chars p" "HAS_CHARS enc p 1"
  shows "sim_pass (\<lambda>s. True) (equals_body enc ends s p) (equals_body enc' ends s (image p))"
  unfolding equals_body_def Let_def
  by (intro sim_rules) (use assms in \<open>simp_all add: image_simps\<close>)

lemma skip_to_sim:
  assumes "chars p" "HAS_CHARS enc p 1" "p' = image p"
  shows "sim (skip_to enc ends p) (skip_to enc' ends p')"
  unfolding skip_to_def
  by (intro sim_loop [where I = "\<lambda>s. True"]) (use assms in \<open>simp_all add: image_simps equals_body_sim\<close>)

lemma ref_in_value_sim:
  assumes "sim r r'" "chars p" "p' = image p" "yields False {- 2, - 1, 0, 9, 10} p r"
  shows "sim_pass (\<lambda>s. True) (ref_in_value r p) (ref_in_value r' p')"
proof (cases r)
  case (Return t q)
  with assms chars_suffix [OF _ assms(2)] show ?thesis
    by (cases q) (auto simp: sim_def sim_pass_def ref_in_value_def image_out_def)
qed (use assms in \<open>auto simp: sim_def sim_pass_def ref_in_value_def image_out_def\<close>)

lemma value_body_sim:
  assumes "chars p" "HAS_CHARS enc p 1"
  shows "sim_pass (\<lambda>s. True) (value_body enc open s p) (value_body enc' open s (image p))"
  unfolding value_body_def Let_def
  by (intro sim_rules sim_macros ref_in_value_sim scanRef_sim scanRef_yields) (use assms in \<open>simp_all add: image_simps\<close>)

text \<open>A loop that is left by \<open>break\<close> where it stands is left at a character.\<close>

lemma scan_loop_Break:
  assumes "\<And>s p q. HAS_CHARS enc p 1 \<Longrightarrow> body s p = Exit (Break q) \<Longrightarrow> HAS_CHARS enc q 1"
    and "\<And>s p q. fell s p \<noteq> Break q"
  shows "scan_loop enc body fell s p = Break q \<Longrightarrow> HAS_CHARS enc q 1"
proof (induction "length p" arbitrary: s p rule: less_induct)
  case less
  then show ?case
    using assms by (auto simp: scan_loop.simps [of enc body fell s p] HAS_CHAR_def split: if_splits pass.splits)
qed

lemma switch_pass_cases:
  "switch_pass m go other = Exit (Break q) \<Longrightarrow> other = Exit (Break q) \<or> (\<exists>p. m = Some (Break p) \<and> go p = Exit (Break q))"
  by (auto simp: switch_pass_def split: option.splits outcome.splits)

lemma skip_to_Break: "skip_to enc ends p = Break q \<Longrightarrow> HAS_CHARS enc q 1"
  unfolding skip_to_def
  by (erule scan_loop_Break [rotated -1]) (auto simp: equals_body_def PARTIAL_def INVALID_def Let_def split: if_splits)

lemma value_Break: "scan_loop enc (value_body enc open) (\<lambda>s p. PARTIAL) s p = Break q \<Longrightarrow> HAS_CHARS enc q 1"
  by (erule scan_loop_Break [rotated -1])
    (auto simp: value_body_def ref_in_value_def PARTIAL_def INVALID_def Let_def dest!: switch_pass_cases split: if_splits outcome.splits)

lemma next_att_body_sim:
  assumes "chars p" "HAS_CHARS enc p 1"
  shows "sim_pass (\<lambda>s. True) (next_att_body enc s p) (next_att_body enc' s (image p))"
  unfolding next_att_body_def Let_def
  by (intro sim_rules sim_macros sol_sim) (use assms in \<open>simp_all add: image_simps\<close>)

lemma after_value_sim: "chars p \<Longrightarrow> p' = image p \<Longrightarrow> sim (after_value enc p) (after_value enc' p')"
  unfolding after_value_def Let_def
  by (intro sim_rules sim_macros sol_sim sim_loop [where I = "\<lambda>s. True"]) (simp_all add: image_simps next_att_body_sim)

lemma equals_case_sim:
  assumes "chars p" "HAS_CHARS enc p 1" "p' = image p"
  shows "sim (equals_case enc p) (equals_case enc' p')"
  unfolding equals_case_def
proof (intro sim_then_do skip_to_sim assms)
  fix q
  assume q: "skip_to enc [BT_QUOT, BT_APOS] p = Break q" "chars q"
  have "HAS_CHARS enc q 1" by (rule skip_to_Break [OF q(1)])
  with q(2) show
    "sim (scan_loop enc (value_body enc (BYTE_TYPE enc q)) (\<lambda>s p. PARTIAL) () (adv enc q))
      (scan_loop enc' (value_body enc' (BYTE_TYPE enc' (image q))) (\<lambda>s p. PARTIAL) () (adv enc' (image q)))"
    by (intro sim_loop [where I = "\<lambda>s. True"]) (simp_all add: image_simps value_body_sim)
  fix x
  assume x: "scan_loop enc (value_body enc (BYTE_TYPE enc q)) (\<lambda>s p. PARTIAL) () (adv enc q) = Break x" "chars x"
  have "HAS_CHARS enc x 1" by (rule value_Break [OF x(1)])
  with x(2) show "sim (after_value enc (adv enc x)) (after_value enc' (adv enc' (image x)))"
    by (intro after_value_sim) (simp_all add: image_simps)
qed

lemma scanAtts_body_sim:
  assumes "chars p" "HAS_CHARS enc p 1"
  shows "sim_pass (\<lambda>s. True) (scanAtts_body enc hadColon p) (scanAtts_body enc' hadColon (image p))"
  unfolding scanAtts_body_def Let_def
  by (intro sim_rules sim_macros colon_case_sim skip_to_sim equals_case_sim)
    (use assms skip_to_Break in \<open>auto simp: image_simps\<close>)

lemma scanAtts_sim: "chars p \<Longrightarrow> p' = image p \<Longrightarrow> sim (scanAtts enc p) (scanAtts enc' p')"
  unfolding scanAtts_def Let_def
  by (intro sim_rules sim_macros sim_loop [where I = "\<lambda>s. True"]) (simp_all add: image_simps scanAtts_body_sim)

lemma scanLt_space_sim:
  assumes "chars p" "HAS_CHARS enc p 1"
  shows "sim_pass (\<lambda>s. True) (scanLt_space enc s p) (scanLt_space enc' s (image p))"
  unfolding scanLt_space_def Let_def
  by (intro sim_rules sim_macros sol_sim scanAtts_sim) (use assms in \<open>simp_all add: image_simps\<close>)

lemma scanLt_body_sim:
  assumes "chars p" "HAS_CHARS enc p 1"
  shows "sim_pass (\<lambda>s. True) (scanLt_body enc hadColon p) (scanLt_body enc' hadColon (image p))"
  unfolding scanLt_body_def Let_def
  by (intro sim_rules sim_macros sol_sim colon_case_sim sim_loop [where I = "\<lambda>s. True"]) (use assms in \<open>simp_all add: image_simps scanLt_space_sim\<close>)

lemma excl_case_sim: "chars p \<Longrightarrow> p' = image p \<Longrightarrow> sim (excl_case enc p) (excl_case enc' p')"
  unfolding excl_case_def Let_def
  by (intro sim_rules sim_macros scanComment_sim scanCdataSection_sim) (simp_all add: image_simps)

lemma scanLt_sim: "chars p \<Longrightarrow> p' = image p \<Longrightarrow> sim (scanLt enc p) (scanLt enc' p')"
  unfolding scanLt_def Let_def
  by (intro sim_rules sim_macros excl_case_sim scanPi_sim scanEndTag_sim sim_loop [where I = "\<lambda>s. True"]) (simp_all add: image_simps scanLt_body_sim)

lemma rsqb_in_data_sim:
  assumes "chars p" "HAS_CHARS enc p 1" "p' = image p"
  shows "sim_pass (\<lambda>s. True) (rsqb_in_data enc p) (rsqb_in_data enc' p')"
  unfolding rsqb_in_data_def Let_def
  by (intro sim_rules sim_macros) (use assms in \<open>simp_all add: image_simps\<close>)

lemma content_body_sim:
  assumes "chars p" "HAS_CHARS enc p 1"
  shows "sim_pass (\<lambda>s. True) (content_body enc s p) (content_body enc' s (image p))"
  unfolding content_body_def Let_def
  by (intro sim_rules sim_macros data_lead_sim rsqb_in_data_sim) (use assms in \<open>simp_all add: image_simps\<close>)

lemma content_start_sim:
  assumes "chars p" "HAS_CHARS enc p 1" "p' = image p"
  shows "sim (content_start enc p) (content_start enc' p')"
  unfolding content_start_def Let_def
  by (intro sim_rules sim_macros scanLt_sim scanRef_sim) (use assms in \<open>simp_all add: image_simps\<close>)

lemma content_chars_sim:
  assumes "chars p" "HAS_CHARS enc p 1" "p' = image p"
  shows "sim (content_chars enc p) (content_chars enc' p')"
  unfolding content_chars_def Let_def
  by (intro sim_rules sim_macros content_start_sim sim_loop [where I = "\<lambda>s. True"]) (use assms in \<open>simp_all add: image_simps content_body_sim\<close>)

section \<open>The prolog\<close>

lemma scanPercent_sim: "chars p \<Longrightarrow> p' = image p \<Longrightarrow> sim (scanPercent enc p) (scanPercent enc' p')"
  unfolding scanPercent_def Let_def
  by (intro sim_rules sim_macros sim_loop [where I = "\<lambda>s. True"]) (simp_all add: image_simps name_then_semi_sim)

lemma scanPoundName_body_sim:
  assumes "chars p" "HAS_CHARS enc p 1"
  shows "sim_pass (\<lambda>s. True) (scanPoundName_body enc s p) (scanPoundName_body enc' s (image p))"
  unfolding scanPoundName_body_def Let_def
  by (intro sim_rules sim_macros) (use assms in \<open>simp_all add: image_simps\<close>)

lemma scanPoundName_sim: "chars p \<Longrightarrow> p' = image p \<Longrightarrow> sim (scanPoundName enc p) (scanPoundName enc' p')"
  unfolding scanPoundName_def Let_def
  by (intro sim_rules sim_macros sim_loop [where I = "\<lambda>s. True"]) (simp_all add: image_simps scanPoundName_body_sim)

lemma close_quote_sim: "chars p \<Longrightarrow> p' = image p \<Longrightarrow> sim (close_quote enc p) (close_quote enc' p')"
  unfolding close_quote_def Let_def
  by (intro sim_rules sim_macros) (simp_all add: image_simps)

lemma scanLit_body_sim:
  assumes "chars p" "HAS_CHARS enc p 1"
  shows "sim_pass (\<lambda>s. True) (scanLit_body open enc s p) (scanLit_body open enc' s (image p))"
  unfolding scanLit_body_def Let_def
  by (intro sim_rules sim_macros close_quote_sim) (use assms in \<open>simp_all add: image_simps\<close>)

lemma scanLit_sim: "chars p \<Longrightarrow> p' = image p \<Longrightarrow> sim (scanLit open enc p) (scanLit open enc' p')"
  unfolding scanLit_def Let_def
  by (intro sim_rules sim_macros sim_loop [where I = "\<lambda>s. True"]) (simp_all add: image_simps scanLit_body_sim)

lemma prolog_space_body_sim:
  assumes "chars p" "HAS_CHARS enc p 1"
  shows "sim_pass (\<lambda>s. True) (prolog_space_body enc s p) (prolog_space_body enc' s (image p))"
  unfolding prolog_space_body_def Let_def
  by (intro sim_rules sim_macros) (use assms in \<open>auto simp: image_simps image_last\<close>)

lemma prolog_space_sim:
  assumes "chars p" "HAS_CHARS enc p 1" "p' = image p"
  shows "sim (prolog_space enc p) (prolog_space enc' p')"
  unfolding prolog_space_def Let_def
  by (intro sim_rules sim_macros sim_loop [where I = "\<lambda>s. True"]) (use assms in \<open>simp_all add: image_simps prolog_space_body_sim\<close>)

lemma prolog_lt_sim:
  assumes "chars p" "HAS_CHARS enc p 1" "p' = image p"
  shows "sim (prolog_lt enc p) (prolog_lt enc' p')"
  unfolding prolog_lt_def Let_def
  by (intro sim_rules sim_macros scanDecl_sim scanPi_sim) (use assms in \<open>simp_all add: image_simps\<close>)

lemma prolog_rsqb_sim: "chars p \<Longrightarrow> p' = image p \<Longrightarrow> sim (prolog_rsqb enc p) (prolog_rsqb enc' p')"
  unfolding prolog_rsqb_def Let_def
  by (intro sim_rules sim_macros) (simp_all add: image_simps)

lemma prolog_rpar_sim: "chars p \<Longrightarrow> p' = image p \<Longrightarrow> sim (prolog_rpar enc p) (prolog_rpar enc' p')"
  unfolding prolog_rpar_def Let_def
  by (intro sim_rules sim_macros) (simp_all add: image_simps)

lemma prolog_lead_sim:
  assumes "chars p" "HAS_CHARS enc p 1" "n = lead_bytes (BYTE_TYPE enc p)" "0 < n" "p' = image p" "n' = n"
  shows "sim_pass (\<lambda>tok. tok \<in> {18, 19, 41}) (prolog_lead enc p n) (prolog_lead enc' p' n')"
  using image_lead [OF assms(1-4)] image_lead_only [OF _ assms(1-3)] assms(1,5,6)
  by (cases "length p < n")
    (auto simp: prolog_lead_def sim_pass_def image_out_def INVALID_def split: option.splits bool.splits)

lemma prolog_name_sim:
  assumes "chars p" "HAS_CHARS enc p 1" "p' = image p"
  shows "sim_pass (\<lambda>tok. tok \<in> {18, 19, 41}) (prolog_name enc p) (prolog_name enc' p')"
  unfolding prolog_name_def Let_def
  by (intro sim_rules sim_macros prolog_lead_sim) (use assms in \<open>simp_all add: image_simps cong: conj_cong\<close>)

lemma end_token_sim: "t < 0 \<Longrightarrow> sim (token_at t []) (token_at t [])"
  by (auto simp: sim_def token_at_def image_out_def image_end)

lemma prolog_switch_sim:
  assumes "chars p" "HAS_CHARS enc p 1" "p' = image p"
  shows "sim_pass (\<lambda>tok. tok \<in> {18, 19, 41}) (prolog_switch enc p) (prolog_switch enc' p')"
  unfolding prolog_switch_def Let_def
  by (intro sim_rules sim_macros prolog_lt_sim prolog_space_sim scanPercent_sim prolog_rsqb_sim prolog_rpar_sim scanPoundName_sim
        prolog_name_sim) (use assms in \<open>simp_all add: image_simps image_last end_token_sim scanLit_sim [OF _ refl]\<close>)

lemma prolog_colon_sim:
  assumes "chars p" "p' = image p" "tok \<in> {18, 19, 41}"
  shows "sim_pass (\<lambda>tok. tok \<in> {18, 19, 41}) (prolog_colon enc tok p) (prolog_colon enc' tok p')"
  unfolding prolog_colon_def
  by (intro sim_rules sim_macros) (use assms in \<open>simp_all add: image_simps\<close>)

lemma prolog_name_body_sim:
  assumes "chars p" "HAS_CHARS enc p 1" "tok \<in> {18, 19, 41}"
  shows "sim_pass (\<lambda>tok. tok \<in> {18, 19, 41}) (prolog_name_body enc tok p) (prolog_name_body enc' tok (image p))"
  unfolding prolog_name_body_def suffixed_name_def Let_def
  by (intro sim_rules sim_macros prolog_colon_sim) (use assms in \<open>simp_all add: image_simps\<close>)

lemma prolog_chars_sim:
  assumes "chars p" "HAS_CHARS enc p 1" "p' = image p"
  shows "sim (prolog_chars enc p) (prolog_chars enc' p')"
proof (cases "prolog_switch enc p")
  case (Next tok q)
  with prolog_switch_sim [OF assms] have q: "prolog_switch enc' p' = Next tok (image q)" "chars q" "tok \<in> {18, 19, 41}"
    by (auto simp: sim_pass_def)
  from q(2,3) have "sim (scan_loop enc (prolog_name_body enc) (\<lambda>tok p. Return (- tok) None) tok q)
    (scan_loop enc' (prolog_name_body enc') (\<lambda>tok p. Return (- tok) None) tok (image q))"
    by (intro sim_loop [where I = "\<lambda>tok. tok \<in> {18, 19, 41}"] prolog_name_body_sim) auto
  with Next q(1) show ?thesis by (simp add: prolog_chars_def)
next
  case (Exit r)
  with prolog_switch_sim [OF assms] show ?thesis by (auto simp: sim_pass_def sim_def prolog_chars_def)
qed

section \<open>Literals and ignored sections\<close>

text \<open>The scanners of literals run over a whole literal: the image must be exact.\<close>

lemma value_lead_sim:
  assumes "chars p" "HAS_CHARS enc p 1" "n = lead_bytes (BYTE_TYPE enc p)" "0 < n" "p' = image p" "n' = n" exact
  shows "sim_pass (\<lambda>s. True) (value_lead p n) (value_lead p' n')"
  using image_lead [OF assms(1-4)] image_lead_only [OF assms(7,1-3)] assms(1,5,6)
  by (cases "length p < n") (auto simp: value_lead_def)

lemma value_newline_sim: "chars p \<Longrightarrow> p' = image p \<Longrightarrow> sim (value_newline enc p) (value_newline enc' p')"
  unfolding value_newline_def Let_def
  by (intro sim_rules sim_macros) (simp_all add: image_simps)

lemma attributeValue_body_sim:
  assumes "chars p" "HAS_CHARS enc p 1" exact
  shows "sim_pass (\<lambda>s. True) (attributeValue_body enc start s p) (attributeValue_body enc' (image start) s (image p))"
  unfolding attributeValue_body_def Let_def
  by (intro sim_rules value_lead_sim [OF _ _ _ _ _ _ assms(3)] scanRef_sim value_newline_sim) (use assms(1,2) in \<open>simp_all add: image_simps\<close>)

lemma no_percent_sim: "sim r r' \<Longrightarrow> sim (no_percent r) (no_percent r')"
  by (cases r) (auto simp: no_percent_def sim_def image_out_def)

lemma entityValue_body_sim:
  assumes "chars p" "HAS_CHARS enc p 1" exact
  shows "sim_pass (\<lambda>s. True) (entityValue_body enc start s p) (entityValue_body enc' (image start) s (image p))"
  unfolding entityValue_body_def Let_def
  by (intro sim_rules value_lead_sim [OF _ _ _ _ _ _ assms(3)] scanRef_sim scanPercent_sim no_percent_sim value_newline_sim)
    (use assms(1,2) in \<open>simp_all add: image_simps\<close>)

lemma image_Nil: "exact \<Longrightarrow> image p = [] \<longleftrightarrow> p = []"
  using image_length_eq [of p "[]"] image_end by simp

lemma attributeValueTok_sim:
  assumes "chars p" exact
  shows "sim (attributeValueTok enc p) (attributeValueTok enc' (image p))"
  unfolding attributeValueTok_def
  by (intro sim_rules sim_loop [where I = "\<lambda>s. True"] attributeValue_body_sim [OF _ _ assms(2)])
    (use assms(1) image_Nil [OF assms(2)] in \<open>simp_all add: image_simps\<close>)

lemma entityValueTok_sim:
  assumes "chars p" exact
  shows "sim (entityValueTok enc p) (entityValueTok enc' (image p))"
  unfolding entityValueTok_def
  by (intro sim_rules sim_loop [where I = "\<lambda>s. True"] entityValue_body_sim [OF _ _ assms(2)])
    (use assms(1) image_Nil [OF assms(2)] in \<open>simp_all add: image_simps\<close>)

lemma ignore_body_sim:
  assumes "chars p" "HAS_CHARS enc p 1"
  shows "sim_pass (\<lambda>s. True) (ignore_body enc nesting p) (ignore_body enc' nesting (image p))"
  unfolding ignore_body_def ignore_lt_def ignore_rsqb_def
  by (intro sim_rules sim_macros) (use assms in \<open>simp_all add: image_simps\<close>)

lemma ignore_chars_sim: "chars p \<Longrightarrow> p' = image p \<Longrightarrow> sim (ignore_chars enc p) (ignore_chars enc' p')"
  unfolding ignore_chars_def
  by (intro sim_loop [where I = "\<lambda>s. True"]) (simp_all add: ignore_body_sim)

section \<open>Tokens of the image\<close>

lemma sim_Return: "sim r r' \<Longrightarrow> r = Return t q \<Longrightarrow> exact \<or> 0 \<le> t \<and> t \<noteq> 6 \<and> t \<noteq> 15 \<Longrightarrow> r' = Return t (map_option image q)"
  by (simp add: sim_def image_out_def)

lemmas image_tokens =
  cdata_chars_sim [OF _ _ refl, THEN sim_Return] content_chars_sim [OF _ _ refl, THEN sim_Return]
  prolog_chars_sim [OF _ _ refl, THEN sim_Return] ignore_chars_sim [OF _ refl, THEN sim_Return]
  attributeValueTok_sim [THEN sim_Return] entityValueTok_sim [THEN sim_Return]

end

end
