(* ===== verification/Xml_Scan_Inst.thy ===== *)
theory Xml_Scan_Inst
  imports Xml_Scan_Sim
begin

text \<open>
  Two uses of the relation between runs of the scanners: the same text with more input behind it, and an ASCII text
  in another encoding.
\<close>

section \<open>More input\<close>

text \<open>The tests for a character look at its own bytes only.\<close>

lemma nth_prefix: "k < n \<Longrightarrow> n \<le> length p \<Longrightarrow> (p @ ext) ! k = p ! k"
  by (simp add: nth_append)

lemma naming_local:
  "2 \<le> length p \<Longrightarrow> UTF8_GET_NAMING2 pages (p @ ext) = UTF8_GET_NAMING2 pages p"
  "3 \<le> length p \<Longrightarrow> UTF8_GET_NAMING3 pages (p @ ext) = UTF8_GET_NAMING3 pages p"
proof -
  show "UTF8_GET_NAMING2 pages (p @ ext) = UTF8_GET_NAMING2 pages p" if "2 \<le> length p"
    using nth_prefix [of 0 2 p ext] nth_prefix [of 1 2 p ext] that by (simp only: UTF8_GET_NAMING2_def)
  show "UTF8_GET_NAMING3 pages (p @ ext) = UTF8_GET_NAMING3 pages p" if "3 \<le> length p"
    using nth_prefix [of 0 3 p ext] nth_prefix [of 1 3 p ext] nth_prefix [of 2 3 p ext] that
    by (simp only: UTF8_GET_NAMING3_def)
qed

lemma invalid_local:
  "2 \<le> length p \<Longrightarrow> UTF8_INVALID2 (p @ ext) = UTF8_INVALID2 p"
  "3 \<le> length p \<Longrightarrow> UTF8_INVALID3 (p @ ext) = UTF8_INVALID3 p"
  "4 \<le> length p \<Longrightarrow> UTF8_INVALID4 (p @ ext) = UTF8_INVALID4 p"
proof -
  show "UTF8_INVALID2 (p @ ext) = UTF8_INVALID2 p" if "2 \<le> length p"
    using nth_prefix [of 0 2 p ext] nth_prefix [of 1 2 p ext] that by (simp only: UTF8_INVALID2_def)
  show "UTF8_INVALID3 (p @ ext) = UTF8_INVALID3 p" if "3 \<le> length p"
    using nth_prefix [of 0 3 p ext] nth_prefix [of 1 3 p ext] nth_prefix [of 2 3 p ext] that
    by (simp only: UTF8_INVALID3_def)
  show "UTF8_INVALID4 (p @ ext) = UTF8_INVALID4 p" if "4 \<le> length p"
    using nth_prefix [of 0 4 p ext] nth_prefix [of 1 4 p ext] nth_prefix [of 2 4 p ext] nth_prefix [of 3 4 p ext] that
    by (simp only: UTF8_INVALID4_def)
qed

lemma utf8_tests_local:
  assumes "n \<in> {2, 3, 4}" "n \<le> length p"
  shows "utf8_isName n (p @ ext) = utf8_isName n p" "utf8_isNmstrt n (p @ ext) = utf8_isNmstrt n p"
    "utf8_isInvalid n (p @ ext) = utf8_isInvalid n p"
  using assms
  by (auto simp: utf8_isName_def utf8_isNmstrt_def utf8_isInvalid_def isNever_def naming_local invalid_local)

lemma built_in_tests: "enc \<in> set built_in_encodings \<Longrightarrow> tests enc = Some v \<Longrightarrow> v = utf8_vtable"
  by (auto simp: built_in_encodings_def encoding_defs)

lemma call_test_local:
  assumes "enc \<in> set built_in_encodings" "n \<in> {2, 3, 4}" "n \<le> length p" "f \<in> {isName, isNmstrt, isInvalid}"
  shows "call_test enc f n (p @ ext) = call_test enc f n p"
  using assms built_in_tests [OF assms(1)] utf8_tests_local [OF assms(2,3)]
  by (cases "tests enc") (auto simp: call_test_def utf8_vtable_def)

lemma lead_bytes_cases: "0 < lead_bytes t \<Longrightarrow> lead_bytes t \<in> {2, 3, 4}"
  by (simp add: lead_bytes_def split: if_splits)

lemma extension_sim:
  assumes "enc \<in> set built_in_encodings"
  shows "scan_sim enc enc (\<lambda>p. p @ ext) (\<lambda>p. True) False"
proof -
  have two: "p ! 0 = (p @ ext) ! 0" "p ! 1 = (p @ ext) ! 1" if "2 \<le> length p" for p :: "byte list"
    using that nth_prefix [of _ 2 p ext] by simp_all
  have one: "p ! 0 = (p @ ext) ! 0" if "1 \<le> length p" for p :: "byte list"
    using that nth_prefix [of _ 1 p ext] by simp
  show ?thesis
  proof (rule scan_sim.intro [OF built_in_total [OF assms]], unfold_locales)
    fix p :: "byte list"
    assume has: "HAS_CHARS enc p 1"
    show "BYTE_TYPE enc (p @ ext) = BYTE_TYPE enc p" "char_is enc (p @ ext) c = char_is enc p c"
      "IS_NAME_CHAR_MINBPC enc (p @ ext) = IS_NAME_CHAR_MINBPC enc p"
      "IS_NMSTRT_CHAR_MINBPC enc (p @ ext) = IS_NMSTRT_CHAR_MINBPC enc p" for c
      using has one [of p] two [of p]
      by (cases "family enc"; simp add: HAS_CHARS_def MINBPC_def BYTE_TYPE_def char_is_def
          IS_NAME_CHAR_MINBPC_def IS_NMSTRT_CHAR_MINBPC_def minbpc_naming_def)+
    show "adv enc (p @ ext) = adv enc p @ ext" using has by (simp add: HAS_CHARS_def adv_def)
    fix n
    assume n: "n = lead_bytes (BYTE_TYPE enc p)" "0 < n" "n \<le> length p"
    then have "n \<in> {2, 3, 4}" using lead_bytes_cases by blast
    from call_test_local [OF assms this n(3)] n(3) show
      "n \<le> length (p @ ext) \<and> drop n (p @ ext) = drop n p @ ext \<and>
       IS_INVALID_CHAR enc (p @ ext) n = IS_INVALID_CHAR enc p n \<and>
       IS_NAME_CHAR enc (p @ ext) n = IS_NAME_CHAR enc p n \<and>
       IS_NMSTRT_CHAR enc (p @ ext) n = IS_NMSTRT_CHAR enc p n"
      by (simp add: IS_INVALID_CHAR_def IS_NAME_CHAR_def IS_NMSTRT_CHAR_def)
  qed (simp_all add: HAS_CHARS_def upto_ptr_def)
qed

text \<open>The bytes cut off at the end of a UTF-16 buffer come back with the input that follows them.\<close>

lemma whole_chars_extension:
  assumes inner: "\<And>p ext q. HAS_CHARS enc p 1 \<Longrightarrow> f p = Return t (Some q) \<Longrightarrow> f (p @ ext) = Return t (Some (q @ ext))"
    and run: "whole_chars enc f p = Return t (Some q)"
  shows "whole_chars enc f (p @ ext) = Return t (Some (q @ ext))"
proof -
  define n where "n = length p - length p mod MINBPC enc"
  define m where "m = length (p @ ext) - length (p @ ext) mod MINBPC enc"
  have mult: "n = length p div MINBPC enc * MINBPC enc" "m = length (p @ ext) div MINBPC enc * MINBPC enc"
    by (simp_all add: n_def m_def minus_mod_eq_div_mult)
  have le: "n \<le> m" unfolding mult by (intro mult_le_mono1 div_le_mono) simp
  have "n \<le> length p" by (simp add: n_def)
  obtain x where x: "0 < n" "f (take n p) = Return t (Some x)" "q = x @ drop n p"
    using run
    by (auto simp: whole_chars_def Let_def PARTIAL_def with_tail_def n_def [symmetric] split: if_splits outcome.splits)
  define more where "more = drop n (take m (p @ ext))"
  have split: "take m (p @ ext) = take n p @ more"
  proof -
    have "take n (take m (p @ ext)) = take n p" using le \<open>n \<le> length p\<close> by (simp add: min_absorb1)
    then show ?thesis unfolding more_def by (metis append_take_drop_id)
  qed
  have "HAS_CHARS enc (take n p) 1"
    using x(1) \<open>n \<le> length p\<close> by (simp add: HAS_CHARS_def mult(1))
  from inner [OF this x(2), of more] have "f (take m (p @ ext)) = Return t (Some (x @ more))" unfolding split .
  moreover have "more @ drop m (p @ ext) = drop n p @ ext"
  proof -
    have "take n p @ more @ drop m (p @ ext) = take n p @ drop n p @ ext"
      by (metis append.assoc append_take_drop_id split)
    then show ?thesis by simp
  qed
  moreover have "whole_chars enc f (p @ ext) = with_tail (drop m (p @ ext)) (f (take m (p @ ext)))"
    unfolding whole_chars_def Let_def m_def [symmetric] using x(1) le by simp
  ultimately show ?thesis by (simp only: with_tail_def x(3)) simp
qed

lemma tokens_extension:
  assumes "enc \<in> set built_in_encodings" "tok \<in> {contentTok, prologTok, cdataSectionTok, ignoreSectionTok}"
    and "tok enc p = Return t (Some q)" "0 \<le> t" "t \<noteq> XML_TOK_DATA_CHARS" "t \<noteq> XML_TOK_PROLOG_S"
  shows "tok enc (p @ ext) = Return t (Some (q @ ext))"
proof -
  have tokens: "f enc (p @ ext) = Return t (Some (q @ ext))"
    if "f \<in> {cdata_chars, content_chars, prolog_chars, ignore_chars}" "HAS_CHARS enc p 1" "f enc p = Return t (Some q)"
    for f p ext q
    using scan_sim.image_tokens [OF extension_sim [OF assms(1)], of p t "Some q" ext] that assms(4-6) by auto
  have whole: "whole_chars enc (f enc) (p @ ext) = Return t (Some (q @ ext))"
    if "f \<in> {cdata_chars, content_chars, prolog_chars, ignore_chars}" "whole_chars enc (f enc) p = Return t (Some q)" for f
    by (rule whole_chars_extension [where f = "f enc" and enc = enc, OF tokens [OF that(1)] that(2)])
  from assms(2) consider "tok = contentTok" | "tok = prologTok" | "tok = cdataSectionTok" | "tok = ignoreSectionTok" by blast
  then show ?thesis
    by cases (use assms(3) whole [of content_chars] whole [of prolog_chars] whole [of cdata_chars] whole [of ignore_chars]
      in \<open>simp_all add: contentTok_def prologTok_def cdataSectionTok_def ignoreSectionTok_def split: if_splits\<close>)
qed

section \<open>ASCII text in another encoding\<close>

definition ascii_text :: "byte list \<Rightarrow> bool" where
  "ascii_text p \<longleftrightarrow> list_all (\<lambda>b. b < 0x80) p"

definition same_ascii :: "ENCODING \<Rightarrow> ENCODING \<Rightarrow> bool" where
  "same_ascii enc enc' \<longleftrightarrow> take 128 (typetab enc) = take 128 (typetab enc')"

lemma ascii_tables:
  "\<forall>t \<in> set (asciitab BT_COLON). lead_bytes t = 0 \<and> t \<noteq> BT_NONASCII"
  "\<forall>t \<in> set (asciitab BT_NMSTRT). lead_bytes t = 0 \<and> t \<noteq> BT_NONASCII"
  "\<forall>t \<in> set (iasciitab BT_COLON). lead_bytes t = 0 \<and> t \<noteq> BT_NONASCII"
  "\<forall>t \<in> set (iasciitab BT_NMSTRT). lead_bytes t = 0 \<and> t \<noteq> BT_NONASCII"
  by (simp_all add: asciitab_def iasciitab_def lead_bytes_def)

lemma built_in_tables:
  assumes "enc \<in> set built_in_encodings"
  shows "length (typetab enc) = 256" "\<forall>t \<in> set (take 128 (typetab enc)). lead_bytes t = 0 \<and> t \<noteq> BT_NONASCII"
proof -
  have "\<forall>e \<in> set built_in_encodings.
    length (typetab e) = 256 \<and> (\<forall>t \<in> set (take 128 (typetab e)). lead_bytes t = 0 \<and> t \<noteq> BT_NONASCII)"
    by (simp add: built_in_encodings_def encoding_defs ascii_tables)
  with assms show "length (typetab enc) = 256" "\<forall>t \<in> set (take 128 (typetab enc)). lead_bytes t = 0 \<and> t \<noteq> BT_NONASCII"
    by blast+
qed

lemma ascii_type:
  assumes "enc \<in> set built_in_encodings" "b < (0x80 :: byte)"
  shows "lead_bytes (typetab enc ! unat b) = 0" "typetab enc ! unat b \<noteq> BT_NONASCII"
    and "enc' \<in> set built_in_encodings \<Longrightarrow> same_ascii enc enc' \<Longrightarrow> typetab enc' ! unat b = typetab enc ! unat b"
proof -
  have b: "unat b < 128" using assms(2) by (simp add: word_less_nat_alt)
  then have nth: "typetab e ! unat b = take 128 (typetab e) ! unat b" for e by simp
  have "take 128 (typetab enc) ! unat b \<in> set (take 128 (typetab enc))"
    using b built_in_tables(1) [OF assms(1)] by (intro nth_mem) simp
  with built_in_tables(2) [OF assms(1)] show "lead_bytes (typetab enc ! unat b) = 0" "typetab enc ! unat b \<noteq> BT_NONASCII"
    by (simp_all add: nth)
  show "typetab enc' ! unat b = typetab enc ! unat b" if "same_ascii enc enc'"
    using that by (simp add: nth same_ascii_def)
qed

declare length_spell [simp]

lemma drop_spell_chars: "drop (k * MIN_BYTES_PER_CHAR fam) (spell fam p) = spell fam (drop k p)"
proof (cases "k \<le> length p")
  case True
  have "spell fam p = spell fam (take k p) @ spell fam (drop k p)" by (metis append_take_drop_id spell_append)
  with True show ?thesis by simp
qed simp

lemma take_spell: "take (k * MIN_BYTES_PER_CHAR fam) (spell fam p) = spell fam (take k p)"
proof (cases "k \<le> length p")
  case True
  have "spell fam p = spell fam (take k p) @ spell fam (drop k p)" by (metis append_take_drop_id spell_append)
  with True show ?thesis by simp
qed simp

lemma spell_target:
  assumes "family enc = Normal_enc"
  shows "checkPiTarget enc' (upto_ptr (spell (family enc') p) (spell (family enc') q)) = checkPiTarget enc (upto_ptr p q)"
proof -
  have upto: "upto_ptr (spell fam p) (spell fam q) = spell fam (upto_ptr p q)" for fam
    by (simp add: upto_ptr_def take_spell flip: diff_mult_distrib)
  have "checkPiTarget enc' (spell (family enc') x) = checkPiTarget enc x" for x
  proof (cases "length x = 3")
    case True
    then obtain a b c where "x = [a, b, c]" by (auto simp: numeral_eq_Suc length_Suc_conv)
    with assms show ?thesis
      by (cases "family enc'") (simp_all add: checkPiTarget_def MINBPC_def BYTE_TO_ASCII_def adv_def)
  next
    case False
    with assms show ?thesis by (simp add: checkPiTarget_def MINBPC_def mult.commute)
  qed
  then show ?thesis by (simp add: upto)
qed

lemma spell_sim:
  assumes "enc \<in> set built_in_encodings" "enc' \<in> set built_in_encodings" "family enc = Normal_enc" "same_ascii enc enc'"
  shows "scan_sim enc enc' (spell (family enc')) ascii_text True"
proof (rule scan_sim.intro [OF built_in_total [OF assms(1)]], unfold_locales)
  fix p
  assume "ascii_text p" "HAS_CHARS enc p 1"
  then obtain b ps where p: "p = b # ps" "b < 0x80"
    using assms(3) by (cases p) (auto simp: ascii_text_def HAS_CHARS_def MINBPC_def)
  have same: "BYTE_TYPE enc' (spell (family enc') p) = BYTE_TYPE enc p"
    using ascii_type [OF assms(1) p(2)] assms(2-4) by (cases "family enc'") (simp_all add: p(1) BYTE_TYPE_def)
  show "BYTE_TYPE enc' (spell (family enc') p) = BYTE_TYPE enc p" by (rule same)
  have type: "lead_bytes (BYTE_TYPE enc p) = 0" "BYTE_TYPE enc p \<noteq> BT_NONASCII"
    using ascii_type [OF assms(1) p(2)] assms(3) by (simp_all add: p(1) BYTE_TYPE_def)
  show "char_is enc' (spell (family enc') p) c = char_is enc p c" for c
    using assms(3) by (cases "family enc'") (auto simp: p(1) char_is_def)
  show "adv enc' (spell (family enc') p) = spell (family enc') (adv enc p)"
    using drop_spell_chars [of 1 "family enc'" p] assms(3) by (simp add: adv_def MINBPC_def)
  show "IS_NAME_CHAR_MINBPC enc' (spell (family enc') p) = IS_NAME_CHAR_MINBPC enc p"
    "IS_NMSTRT_CHAR_MINBPC enc' (spell (family enc') p) = IS_NMSTRT_CHAR_MINBPC enc p"
    if "BYTE_TYPE enc p = BT_NONASCII"
    using that type(2) by blast+
  fix n
  assume "n = lead_bytes (BYTE_TYPE enc p)"
  then have "n = 0" by (simp add: type(1))
  then show "n \<le> length (spell (family enc') p) \<and> drop n (spell (family enc') p) = spell (family enc') (drop n p) \<and>
       IS_INVALID_CHAR enc' (spell (family enc') p) n = IS_INVALID_CHAR enc p n \<and>
       IS_NAME_CHAR enc' (spell (family enc') p) n = IS_NAME_CHAR enc p n \<and>
       IS_NMSTRT_CHAR enc' (spell (family enc') p) n = IS_NMSTRT_CHAR enc p n" if "0 < n"
    using that by simp
  show "length (spell (family enc') p) < n" if "length p < n" using that \<open>n = 0\<close> by simp
qed (use assms(3) in \<open>auto simp: ascii_text_def list_all_iff HAS_CHARS_def MINBPC_def spell_target dest: in_set_dropD\<close>)

lemma with_tail_Nil [simp]: "with_tail [] r = r"
  by (cases r) (simp_all add: with_tail_def option.map_ident)

lemma whole_chars_spell:
  "whole_chars enc f (spell (family enc) p) = (if p = [] then PARTIAL else f (spell (family enc) p))"
  using MIN_BYTES_PER_CHAR_pos [of "family enc"] by (simp add: whole_chars_def MINBPC_def Let_def del: MIN_BYTES_PER_CHAR_pos)

lemma whole_chars_normal: "family enc = Normal_enc \<Longrightarrow> whole_chars enc f p = (if p = [] then PARTIAL else f p)"
  by (simp add: whole_chars_def MINBPC_def)

lemma spell_Nil_iff [simp]: "spell fam p = [] \<longleftrightarrow> p = []"
  by (cases p; cases fam) simp_all

lemma tokens_spell:
  assumes "enc \<in> set built_in_encodings" "enc' \<in> set built_in_encodings" "family enc = Normal_enc" "same_ascii enc enc'"
    and "tok \<in> {contentTok, prologTok, cdataSectionTok, ignoreSectionTok, attributeValueTok, entityValueTok}"
    and "ascii_text p" "tok enc p = Return t q"
  shows "tok enc' (spell (family enc') p) = Return t (map_option (spell (family enc')) q)"
proof -
  note tokens = scan_sim.image_tokens [OF spell_sim [OF assms(1-4)] assms(6)]
  have has: "HAS_CHARS enc p 1" if "p \<noteq> []"
    using that assms(3) by (simp add: HAS_CHARS_def MINBPC_def Suc_leI)
  from assms(5) consider "tok = contentTok" | "tok = prologTok" | "tok = cdataSectionTok" | "tok = ignoreSectionTok"
    | "tok = attributeValueTok" | "tok = entityValueTok" by blast
  then show ?thesis
  proof cases
    case 1
    with tokens(2) [OF has] assms(3,7) show ?thesis
      by (cases "p = []") (simp_all add: contentTok_def whole_chars_spell whole_chars_normal)
  next
    case 2
    with tokens(3) [OF has] assms(3,7) show ?thesis
      by (cases "p = []") (simp_all add: prologTok_def whole_chars_spell whole_chars_normal)
  next
    case 3
    with tokens(1) [OF has] assms(3,7) show ?thesis
      by (cases "p = []") (simp_all add: cdataSectionTok_def whole_chars_spell whole_chars_normal)
  next
    case 4
    with tokens(4) assms(3,7) show ?thesis
      by (cases "p = []") (simp_all add: ignoreSectionTok_def whole_chars_spell [of enc' _ p] whole_chars_spell [of enc' _ "[]", simplified]
          whole_chars_normal PARTIAL_def)
  next
    case 5
    with tokens(5) assms(7) show ?thesis by simp
  next
    case 6
    with tokens(6) assms(7) show ?thesis by simp
  qed
qed

section \<open>Interpretations\<close>

interpretation more_utf8: scan_sim utf8_encoding_ns utf8_encoding_ns "\<lambda>p. p @ ext" "\<lambda>p. True" False for ext
  by (rule extension_sim) (simp add: built_in_encodings_def)

interpretation more_utf16: scan_sim little2_encoding_ns little2_encoding_ns "\<lambda>p. p @ ext" "\<lambda>p. True" False for ext
  by (rule extension_sim) (simp add: built_in_encodings_def)

interpretation utf8_as_utf16: scan_sim utf8_encoding_ns little2_encoding_ns "spell Little2_enc" ascii_text True
  using spell_sim [of utf8_encoding_ns little2_encoding_ns]
  by (simp add: built_in_encodings_def same_ascii_def utf8_encoding_ns_def little2_encoding_ns_def)

end
