(* ===== verification/Xml_Literals.thy ===== *)
theory Xml_Literals
  imports Xml_Scan_Inst
begin

text \<open>
  The scanners of the inside of literals do not test the bytes of a character again. What makes this safe: the
  scanner that found the literal went over it by whole characters.
\<close>

section \<open>Texts of whole characters\<close>

definition char_bytes :: "ENCODING \<Rightarrow> byte list \<Rightarrow> nat" where
  "char_bytes enc p = (if 0 < lead_bytes (BYTE_TYPE enc p) then lead_bytes (BYTE_TYPE enc p) else MINBPC enc)"

lemma char_bytes_pos [simp]: "0 < char_bytes enc p"
  by (simp add: char_bytes_def)

function whole_text :: "ENCODING \<Rightarrow> byte list \<Rightarrow> bool" where
  "whole_text enc p \<longleftrightarrow>
    (if p = [] then True
     else if HAS_CHAR enc p \<and> char_bytes enc p \<le> length p then whole_text enc (drop (char_bytes enc p) p)
     else False)"
  by pat_completeness auto
termination
  by (relation "measure (\<lambda>(enc, p). length p)") (auto simp: diff_less)

declare whole_text.simps [simp del]

lemma MINBPC_le: "MINBPC enc \<le> 2"
  by (cases "family enc") (simp_all add: MINBPC_def)

lemma MINBPC_le_char_bytes: "MINBPC enc \<le> char_bytes enc p"
  using MINBPC_le [of enc] by (auto simp: char_bytes_def lead_bytes_def)

lemma BYTE_TYPE_local: "MINBPC enc \<le> length x \<Longrightarrow> BYTE_TYPE enc (x @ y) = BYTE_TYPE enc x"
  using nth_prefix [of 0 "MINBPC enc" x y] nth_prefix [of 1 2 x y]
  by (cases "family enc") (simp_all add: BYTE_TYPE_def MINBPC_def)

lemma char_bytes_local: "MINBPC enc \<le> length x \<Longrightarrow> char_bytes enc (x @ y) = char_bytes enc x"
  by (simp add: char_bytes_def BYTE_TYPE_local)

text \<open>The place \<open>q\<close> is reached from \<open>p\<close> over whole characters.\<close>

definition steps :: "ENCODING \<Rightarrow> byte list \<Rightarrow> byte list \<Rightarrow> bool" where
  "steps enc p q \<longleftrightarrow> (\<exists>x. p = x @ q \<and> whole_text enc x)"

lemma whole_text_Nil [simp]: "whole_text enc []"
  by (simp add: whole_text.simps [of enc "[]"])

lemma steps_refl [simp]: "steps enc p p"
  by (simp add: steps_def)

lemma whole_text_append: "whole_text enc x \<Longrightarrow> whole_text enc y \<Longrightarrow> whole_text enc (x @ y)"
proof (induction "length x" arbitrary: x rule: less_induct)
  case less
  show ?case
  proof (cases "x = []")
    case False
    with less.prems(1) have x: "HAS_CHAR enc x" "char_bytes enc x \<le> length x" "whole_text enc (drop (char_bytes enc x) x)"
      by (simp_all add: whole_text.simps [of enc x] split: if_splits)
    have "MINBPC enc \<le> length x" using x(1) by (simp add: HAS_CHAR_def HAS_CHARS_def)
    then have "char_bytes enc (x @ y) = char_bytes enc x" by (rule char_bytes_local)
    moreover have "whole_text enc (drop (char_bytes enc x) x @ y)"
      using less.hyps [of "drop (char_bytes enc x) x"] x(3) less.prems(2) False by simp
    ultimately show ?thesis
      using x by (simp add: whole_text.simps [of enc "x @ y"] HAS_CHAR_def HAS_CHARS_def)
  qed (use less.prems in simp)
qed

lemma steps_trans: "steps enc p q \<Longrightarrow> steps enc q r \<Longrightarrow> steps enc p r"
  unfolding steps_def by (metis append.assoc whole_text_append)

lemma steps_char:
  assumes "n = char_bytes enc p" "n \<le> length p"
  shows "steps enc p (drop n p)"
proof -
  have "MINBPC enc \<le> n" using MINBPC_le_char_bytes assms(1) by simp
  then have "char_bytes enc (take n p @ drop n p) = char_bytes enc (take n p)"
    using assms(2) by (intro char_bytes_local) simp
  then have "char_bytes enc (take n p) = n" using assms(1) by simp
  then have "whole_text enc (take n p)"
    using assms(2) \<open>MINBPC enc \<le> n\<close>
    by (subst whole_text.simps) (simp add: HAS_CHAR_def HAS_CHARS_def)
  then show ?thesis unfolding steps_def by (metis append_take_drop_id)
qed

lemma steps_whole_text: "steps enc p q \<Longrightarrow> whole_text enc p \<Longrightarrow> whole_text enc q"
proof -
  have "whole_text enc x \<Longrightarrow> whole_text enc (x @ q) \<Longrightarrow> whole_text enc q" for x
  proof (induction "length x" arbitrary: x rule: less_induct)
    case less
    show ?case
    proof (cases "x = []")
      case False
      with less.prems(1) have x: "HAS_CHAR enc x" "char_bytes enc x \<le> length x" "whole_text enc (drop (char_bytes enc x) x)"
        by (simp_all add: whole_text.simps [of enc x] split: if_splits)
      have "MINBPC enc \<le> length x" using x(1) by (simp add: HAS_CHAR_def HAS_CHARS_def)
      then have "char_bytes enc (x @ q) = char_bytes enc x" by (rule char_bytes_local)
      with less.prems(2) x(2) False have "whole_text enc (drop (char_bytes enc x) x @ q)"
        by (simp add: whole_text.simps [of enc "x @ q"] split: if_splits)
      with less.hyps [of "drop (char_bytes enc x) x"] x(3) False show ?thesis by simp
    qed (use less.prems in simp)
  qed
  then show "steps enc p q \<Longrightarrow> whole_text enc p \<Longrightarrow> whole_text enc q"
    by (auto simp: steps_def)
qed

section \<open>Scanners that walk over whole characters\<close>

definition walks :: "ENCODING \<Rightarrow> byte list \<Rightarrow> outcome \<Rightarrow> bool" where
  "walks enc p r \<longleftrightarrow>
    (\<forall>q. r = Break q \<longrightarrow> steps enc p q) \<and> (\<forall>t q. r = Return t (Some q) \<longrightarrow> 0 < t \<longrightarrow> steps enc p q)"

definition walks_pass :: "ENCODING \<Rightarrow> byte list \<Rightarrow> 's pass \<Rightarrow> bool" where
  "walks_pass enc p b \<longleftrightarrow> (case b of Next s q \<Rightarrow> steps enc p q | Exit r \<Rightarrow> walks enc p r)"

lemma walks_simps [simp]:
  "walks enc p PARTIAL" "walks enc p (INVALID q)" "walks enc p (Return t None)" "walks enc p Undefined"
  "walks enc p (Break q) \<longleftrightarrow> steps enc p q"
  "walks enc p (token_at t q) \<longleftrightarrow> (0 < t \<longrightarrow> steps enc p q)"
  "walks_pass enc p (Exit r) \<longleftrightarrow> walks enc p r"
  "walks_pass enc p (Next s q) \<longleftrightarrow> steps enc p q"
  by (auto simp: walks_def walks_pass_def PARTIAL_def INVALID_def token_at_def)

lemma walks_later: "steps enc p q \<Longrightarrow> walks enc q r \<Longrightarrow> walks enc p r"
  by (auto simp: walks_def intro: steps_trans)

lemma walks_if: "(c \<Longrightarrow> walks enc p x) \<Longrightarrow> (\<not> c \<Longrightarrow> walks enc p y) \<Longrightarrow> walks enc p (if c then x else y)"
  by simp

lemma walks_pass_if:
  "(c \<Longrightarrow> walks_pass enc p x) \<Longrightarrow> (\<not> c \<Longrightarrow> walks_pass enc p y) \<Longrightarrow> walks_pass enc p (if c then x else y)"
  by simp

lemma walks_pass_Exit: "walks enc p r \<Longrightarrow> walks_pass enc p (Exit r)"
  by simp

lemma walks_loop:
  assumes "\<And>s p. HAS_CHARS enc p 1 \<Longrightarrow> walks_pass enc p (body s p)" "\<And>s p. walks enc p (fell s p)"
  shows "walks enc p (scan_loop enc body fell s p)"
proof (induction "length p" arbitrary: s p rule: less_induct)
  case less
  show ?case
  proof (cases "HAS_CHAR enc p")
    case True
    with assms(1) [of p s] less.hyps show ?thesis
      by (auto simp: scan_loop.simps [of enc body fell s p] HAS_CHAR_def split: pass.splits intro: walks_later)
  qed (simp add: scan_loop.simps assms(2))
qed

lemma steps_adv: "HAS_CHARS enc p 1 \<Longrightarrow> lead_bytes (BYTE_TYPE enc p) = 0 \<Longrightarrow> steps enc p (adv enc p)"
  unfolding adv_def by (rule steps_char) (simp_all add: char_bytes_def HAS_CHARS_def)

lemma steps_lead: "0 < lead_bytes (BYTE_TYPE enc p) \<Longrightarrow> lead_bytes (BYTE_TYPE enc p) \<le> length p \<Longrightarrow>
    steps enc p (drop (lead_bytes (BYTE_TYPE enc p)) p)"
  by (rule steps_char) (simp_all add: char_bytes_def)

definition walks_cases :: "ENCODING \<Rightarrow> byte list \<Rightarrow> outcome option \<Rightarrow> bool" where
  "walks_cases enc p m \<longleftrightarrow> (\<forall>r. m = Some r \<longrightarrow> walks enc p r) \<and> (m = None \<longrightarrow> lead_bytes (BYTE_TYPE enc p) = 0)"

lemma lead_walks:
  assumes "n = lead_bytes (BYTE_TYPE enc p)" "0 < n"
  shows "walks enc p (INVALID_LEAD_CASE enc p n)" "walks enc p (check_lead f enc p n)"
  using assms steps_lead [of enc p]
  by (auto simp: INVALID_LEAD_CASE_def check_lead_def split: option.splits bool.splits)

lemma INVALID_CASES_walks: "walks_cases enc p (INVALID_CASES enc p)"
  by (simp add: walks_cases_def INVALID_CASES_def Let_def lead_walks)

lemma no_lead [simp]:
  "t \<in> {BT_NONASCII, BT_NMSTRT, BT_HEX, BT_DIGIT, BT_NAME, BT_MINUS} \<Longrightarrow> lead_bytes t = 0"
  by (auto simp: lead_bytes_def)

lemma CHECK_NAME_CASES_walks: "HAS_CHARS enc p 1 \<Longrightarrow> walks_cases enc p (CHECK_NAME_CASES enc p)"
  unfolding walks_cases_def CHECK_NAME_CASES_def Let_def
  by (auto simp: lead_walks steps_adv)

lemma CHECK_NMSTRT_CASES_walks: "HAS_CHARS enc p 1 \<Longrightarrow> walks_cases enc p (CHECK_NMSTRT_CASES enc p)"
  unfolding walks_cases_def CHECK_NMSTRT_CASES_def Let_def
  by (auto simp: lead_walks steps_adv)

lemma walks_switch:
  assumes "walks_cases enc p m" "\<And>q. steps enc p q \<Longrightarrow> walks enc p (go q)"
    and "lead_bytes (BYTE_TYPE enc p) = 0 \<Longrightarrow> walks enc p other"
  shows "walks enc p (switch m go other)"
  using assms by (auto simp: switch_def walks_cases_def split: option.splits outcome.splits)

lemma walks_switch_pass:
  assumes "walks_cases enc p m" "\<And>q. steps enc p q \<Longrightarrow> walks_pass enc p (go q)"
    and "lead_bytes (BYTE_TYPE enc p) = 0 \<Longrightarrow> walks_pass enc p other"
  shows "walks_pass enc p (switch_pass m go other)"
  using assms by (auto simp: switch_pass_def walks_cases_def split: option.splits outcome.splits)

lemmas walks_rules =
  walks_if walks_pass_if walks_pass_Exit
  walks_switch [OF CHECK_NMSTRT_CASES_walks] walks_switch_pass [OF CHECK_NAME_CASES_walks] walks_switch_pass [OF INVALID_CASES_walks]

lemma walks_loop_after:
  assumes "steps enc p q" "\<And>s p. HAS_CHARS enc p 1 \<Longrightarrow> walks_pass enc p (body s p)" "\<And>s p. walks enc p (fell s p)"
  shows "walks enc p (scan_loop enc body fell s q)"
  by (rule walks_later [OF assms(1) walks_loop [OF assms(2,3)]])

lemma no_lead_types [simp]:
  "lead_bytes BT_SEMI = 0" "lead_bytes BT_NUM = 0" "lead_bytes BT_DIGIT = 0" "lead_bytes BT_HEX = 0" "lead_bytes BT_AMP = 0"
  "lead_bytes BT_LF = 0" "lead_bytes BT_CR = 0" "lead_bytes BT_S = 0" "lead_bytes BT_PERCNT = 0" "lead_bytes BT_QUOT = 0"
  "lead_bytes BT_APOS = 0"
  by (simp_all add: lead_bytes_def)

lemma digits_walks:
  "\<forall>t \<in> set ds. lead_bytes t = 0 \<Longrightarrow> HAS_CHARS enc p 1 \<Longrightarrow> walks_pass enc p (digits_body ds enc s p)"
  by (simp add: digits_body_def Let_def steps_adv)

lemma name_then_semi_walks: "HAS_CHARS enc p 1 \<Longrightarrow> walks_pass enc p (name_then_semi tok enc s p)"
  unfolding name_then_semi_def by (intro walks_rules) (simp_all add: steps_adv)

lemma scanHexCharRef_walks: "walks enc p (scanHexCharRef enc p)"
  unfolding scanHexCharRef_def
  by (intro walks_rules walks_loop_after digits_walks) (auto simp: HAS_CHAR_def intro: steps_adv)

lemma scanCharRef_walks:
  assumes "HAS_CHARS enc p 1 \<Longrightarrow> char_is enc p ASCII_x \<Longrightarrow> lead_bytes (BYTE_TYPE enc p) = 0"
  shows "walks enc p (scanCharRef enc p)"
  unfolding scanCharRef_def
  by (intro walks_rules walks_loop_after digits_walks walks_later [OF _ scanHexCharRef_walks])
    (use assms in \<open>auto simp: HAS_CHAR_def intro: steps_adv\<close>)

text \<open>No built-in encoding has the letter \<open>x\<close> for the first byte of a longer character.\<close>

lemma ascii_char_no_lead:
  assumes "enc \<in> set built_in_encodings" "char_is enc p c" "c < 0x80"
  shows "lead_bytes (BYTE_TYPE enc p) = 0"
  using assms(2) ascii_type(1) [OF assms(1,3)] by (cases "family enc") (auto simp: char_is_def BYTE_TYPE_def)

lemma scanRef_walks:
  assumes "enc \<in> set built_in_encodings"
  shows "walks enc p (scanRef enc p)"
  unfolding scanRef_def
  by (intro walks_rules walks_loop_after name_then_semi_walks walks_later [OF _ scanCharRef_walks])
    (use ascii_char_no_lead [OF assms] in \<open>auto simp: HAS_CHAR_def intro: steps_adv\<close>)

lemma scanPercent_walks: "walks enc p (scanPercent enc p)"
  unfolding scanPercent_def
  by (intro walks_rules walks_loop_after name_then_semi_walks) (auto simp: HAS_CHAR_def)

section \<open>The literal\<close>

lemma close_quote_walks: "steps enc p q \<Longrightarrow> walks enc p (close_quote enc q)"
  by (simp add: close_quote_def)

lemma scanLit_body_walks: "HAS_CHARS enc p 1 \<Longrightarrow> walks_pass enc p (scanLit_body open enc s p)"
  unfolding scanLit_body_def Let_def
  by (intro walks_rules close_quote_walks) (auto simp: steps_adv)

lemma INVALID_CASES_not_token: "INVALID_CASES enc p = Some (Return t (Some q)) \<Longrightarrow> t \<le> 0"
  by (auto simp: INVALID_CASES_def INVALID_LEAD_CASE_def INVALID_def Let_def split: if_splits option.splits bool.splits)

lemma scanLit_body_token:
  assumes "scanLit_body open enc s p = Exit (Return t (Some q))" "0 < t"
  shows "BYTE_TYPE enc p = open \<and> q = adv enc p"
  using assms INVALID_CASES_not_token [of enc p t q]
  by (auto simp: scanLit_body_def switch_pass_def Let_def close_quote_def token_at_def INVALID_def
      split: option.splits outcome.splits if_splits)

lemma scanLit_text:
  assumes "scanLit open enc p = Return t (Some q)" "0 < t"
  shows "\<exists>r. steps enc p r \<and> HAS_CHAR enc r \<and> BYTE_TYPE enc r = open \<and> q = adv enc r"
  using assms(1) unfolding scanLit_def
proof (induction "length p" arbitrary: p rule: less_induct)
  case less
  have has: "HAS_CHAR enc p"
    using less.prems assms(2) by (auto simp: scan_loop.simps [of enc _ _ _ p] PARTIAL_def split: if_splits)
  have step: "walks_pass enc p (scanLit_body open enc () p)"
    using has by (intro scanLit_body_walks) (simp add: HAS_CHAR_def)
  show ?case
  proof (cases "scanLit_body open enc () p")
    case (Next s r)
    then have "length r < length p" "scan_loop enc (scanLit_body open enc) (\<lambda>s p. PARTIAL) () r = Return t (Some q)"
      using less.prems has by (auto simp: scan_loop.simps [of enc _ _ _ p] split: if_splits)
    with less.hyps [of r] step Next show ?thesis by (auto intro: steps_trans)
  next
    case (Exit r)
    then have "r = Return t (Some q)"
      using less.prems has by (auto simp: scan_loop.simps [of enc _ _ _ p])
    with scanLit_body_token [OF _ assms(2)] Exit have "BYTE_TYPE enc p = open \<and> q = adv enc p" by simp
    with has show ?thesis by (blast intro: steps_refl)
  qed
qed

context total_encoding
begin

text \<open>Only a quote starts a literal.\<close>

lemma prolog_switch_no_literal:
  assumes "HAS_CHARS enc p 1" "BYTE_TYPE enc p \<notin> {BT_QUOT, BT_APOS}"
  shows "yields_pass False (prolog_tokens - {27}) (\<lambda>tok. tok \<in> {18, 19, 41}) p p (prolog_switch enc p)"
  unfolding prolog_switch_def Let_def
  by (intro yields_rules scanLit_yields prolog_lt_yields prolog_space_yields scanPercent_yields prolog_rsqb_yields
        prolog_rpar_yields scanPoundName_yields prolog_name_yields)
    (use assms in \<open>simp_all add: prolog_tokens_def\<close>)

lemma prolog_chars_no_literal:
  assumes "HAS_CHARS enc p 1" "BYTE_TYPE enc p \<notin> {BT_QUOT, BT_APOS}"
  shows "yields False (prolog_tokens - {27}) p (prolog_chars enc p)"
proof (cases "prolog_switch enc p")
  case (Next tok q)
  with prolog_switch_no_literal [OF assms] have "strict_suffix q p" "tok \<in> {18, 19, 41}" by simp_all
  then have "yields False (prolog_tokens - {27}) p (scan_loop enc (prolog_name_body enc) (\<lambda>tok p. Return (- tok) None) tok q)"
    by (intro yields_loop [where I = "\<lambda>tok. tok \<in> {18, 19, 41}"] prolog_name_body_yields)
      (auto simp: prolog_tokens_def)
  with Next show ?thesis by (simp add: prolog_chars_def)
next
  case (Exit r)
  with prolog_switch_no_literal [OF assms] show ?thesis by (simp add: prolog_chars_def)
qed

end

lemma prolog_literal:
  assumes "prolog_chars enc p = Return 27 (Some x)" "HAS_CHARS enc p 1" "enc \<in> set built_in_encodings"
  shows "\<exists>open. scanLit open enc (adv enc p) = Return 27 (Some x)"
proof -
  have "BYTE_TYPE enc p \<in> {BT_QUOT, BT_APOS}"
  proof (rule ccontr)
    assume "BYTE_TYPE enc p \<notin> {BT_QUOT, BT_APOS}"
    from total_encoding.prolog_chars_no_literal [OF built_in_total [OF assms(3)] assms(2) this] assms(1) show False by simp
  qed
  with assms(1) show ?thesis by (auto simp: prolog_chars_def prolog_switch_def Let_def)
qed

lemma literal_text:
  assumes "prologTok enc p = Return XML_TOK_LITERAL (Some q)" "enc \<in> set built_in_encodings"
  shows "\<exists>c1 lit c2. p = c1 @ lit @ c2 @ q \<and> length c1 = MINBPC enc \<and> length c2 = MINBPC enc \<and> whole_text enc lit"
proof -
  define n where "n = length p - length p mod MINBPC enc"
  obtain x where x: "prolog_chars enc (take n p) = Return 27 (Some x)" "q = x @ drop n p" "0 < n"
    using assms(1)
    by (auto simp: prologTok_def whole_chars_def Let_def PARTIAL_def with_tail_def n_def [symmetric]
        split: if_splits outcome.splits)
  let ?p = "take n p"
  have "n = length p div MINBPC enc * MINBPC enc" by (simp add: n_def minus_mod_eq_div_mult)
  with x(3) have "MINBPC enc \<le> n" by (metis dvd_imp_le dvd_triv_right)
  then have has: "MINBPC enc \<le> length ?p" by (simp add: n_def)
  obtain quot where "scanLit quot enc (adv enc ?p) = Return 27 (Some x)"
    using prolog_literal [OF x(1) _ assms(2)] has by (auto simp: HAS_CHARS_def)
  from scanLit_text [OF this] obtain r lit where r: "adv enc ?p = lit @ r" "whole_text enc lit" "HAS_CHAR enc r" "x = adv enc r"
    by (auto simp: steps_def)
  have "p = take (MINBPC enc) ?p @ adv enc ?p @ drop n p"
    unfolding adv_def by (metis append.assoc append_take_drop_id)
  also have "adv enc ?p = lit @ take (MINBPC enc) r @ x" by (simp only: r(1,4)) (simp add: adv_def)
  finally have "p = take (MINBPC enc) ?p @ lit @ take (MINBPC enc) r @ q" by (simp add: x(2))
  moreover have "length (take (MINBPC enc) ?p) = MINBPC enc" "length (take (MINBPC enc) r) = MINBPC enc"
    using has r(3) by (simp_all add: HAS_CHAR_def HAS_CHARS_def)
  ultimately show ?thesis using r(2) by blast
qed

section \<open>The inside of the literal\<close>

definition value_result :: "ENCODING \<Rightarrow> byte list \<Rightarrow> outcome \<Rightarrow> bool" where
  "value_result enc start r \<longleftrightarrow>
    (\<exists>t q. r = Return t q \<and> (q = None \<longrightarrow> t < 0) \<and>
      (\<forall>x. q = Some x \<longrightarrow> suffix x start \<and> (0 < t \<longrightarrow> strict_suffix x start \<and> whole_text enc x)))"

lemma value_result_token:
  "strict_suffix x start \<Longrightarrow> whole_text enc x \<Longrightarrow> value_result enc start (token_at t x)"
  by (simp add: value_result_def token_at_def)

lemma value_result_INVALID: "suffix x start \<Longrightarrow> value_result enc start (INVALID x)"
  by (simp add: value_result_def INVALID_def)

lemma value_result_scan:
  assumes "yields False T p r" "walks enc q r" "whole_text enc q" "29 \<notin> T"
  shows "value_result enc p r"
proof (cases r)
  case (Return t x)
  with assms show ?thesis
    by (cases x) (auto simp: value_result_def walks_def intro: steps_whole_text)
qed (use assms in auto)

lemma value_loop:
  assumes body: "\<And>p. suffix p start \<Longrightarrow> whole_text enc p \<Longrightarrow> HAS_CHARS enc p 1 \<Longrightarrow>
      (\<exists>q. body () p = Next () q \<and> steps enc p q \<and> strict_suffix q p) \<or> (\<exists>r. body () p = Exit r \<and> value_result enc start r)"
    and "start \<noteq> []"
  shows "suffix p start \<Longrightarrow> whole_text enc p \<Longrightarrow> value_result enc start (scan_loop enc body (\<lambda>s. token_at XML_TOK_DATA_CHARS) () p)"
proof (induction "length p" arbitrary: p rule: less_induct)
  case less
  show ?case
  proof (cases "HAS_CHAR enc p")
    case False
    with less.prems(2) have "p = []" by (auto simp: whole_text.simps [of enc p] split: if_splits)
    with False \<open>start \<noteq> []\<close> show ?thesis
      by (auto simp: scan_loop.simps [of enc _ _ _ "[]"] strict_suffix_def intro: value_result_token)
  next
    case True
    then have "HAS_CHARS enc p 1" by (simp add: HAS_CHAR_def)
    from body [OF less.prems this] show ?thesis
    proof (elim disjE exE conjE)
      fix q
      assume q: "body () p = Next () q" "steps enc p q" "strict_suffix q p"
      then have "length q < length p" "suffix q start" "whole_text enc q"
        using less.prems by (auto simp: suffix_length_less strict_suffix_def dest: steps_whole_text intro: suffix_order.trans)
      with less.hyps [of q] q(1) True show ?thesis
        by (simp add: scan_loop.simps [of enc body _ _ p])
    next
      fix r
      assume "body () p = Exit r" "value_result enc start r"
      with True show ?thesis by (simp add: scan_loop.simps [of enc body _ _ p])
    qed
  qed
qed

lemma value_next:
  assumes "HAS_CHARS enc p 1" "lead_bytes (BYTE_TYPE enc p) = 0"
  shows "\<exists>q. Next () (adv enc p) = Next () q \<and> steps enc p q \<and> strict_suffix q p"
  using assms by (simp add: steps_adv)

lemma value_lead_next:
  assumes "whole_text enc p" "HAS_CHARS enc p 1" "0 < lead_bytes (BYTE_TYPE enc p)"
  shows "\<exists>q. value_lead p (lead_bytes (BYTE_TYPE enc p)) = Next () q \<and> steps enc p q \<and> strict_suffix q p"
proof -
  have "lead_bytes (BYTE_TYPE enc p) \<le> length p"
    using assms by (auto simp: whole_text.simps [of enc p] char_bytes_def HAS_CHARS_def split: if_splits)
  with assms(3) steps_lead [of enc p] show ?thesis by (simp add: value_lead_def)
qed



text \<open>A reference, a line break or a space at the start of a literal.\<close>

lemma value_start:
  assumes "enc \<in> set built_in_encodings" "whole_text enc p" "HAS_CHARS enc p 1" "lead_bytes (BYTE_TYPE enc p) = 0"
  shows "value_result enc p (scanRef enc (adv enc p))" "value_result enc p (no_percent (scanPercent enc (adv enc p)))"
    "value_result enc p (value_newline enc (adv enc p))" "value_result enc p (token_at t (adv enc p))"
proof -
  have later: "strict_suffix (adv enc p) p" "whole_text enc (adv enc p)"
    using assms steps_adv [OF assms(3,4)] by (auto intro: steps_whole_text)
  note total = built_in_total [OF assms(1)]
  show "value_result enc p (scanRef enc (adv enc p))"
    by (rule value_result_scan [OF total_encoding.scanRef_yields [OF total later(1) subset_refl] scanRef_walks [OF assms(1)] later(2)])
      simp
  have "value_result enc p (scanPercent enc (adv enc p))"
    by (rule value_result_scan [OF total_encoding.scanPercent_yields [OF total later(1) subset_refl] scanPercent_walks later(2)])
      simp
  then show "value_result enc p (no_percent (scanPercent enc (adv enc p)))"
    by (auto simp: value_result_def no_percent_def)
  show "value_result enc p (token_at t (adv enc p))" by (rule value_result_token [OF later])
  show "value_result enc p (value_newline enc (adv enc p))"
    unfolding value_newline_def using later steps_adv [of enc "adv enc p"]
    by (auto simp: value_result_def [of _ _ "Return _ _"] HAS_CHAR_def dest: steps_whole_text intro!: value_result_token)
qed

lemma same_length_suffix: "suffix p start \<Longrightarrow> length p = length start \<longleftrightarrow> p = start"
  by (auto simp: suffix_def)

lemma suffix_longer: "suffix p start \<Longrightarrow> p \<noteq> start \<Longrightarrow> strict_suffix p start"
  by (auto simp: strict_suffix_def)

lemma attributeValueTok_result:
  assumes "enc \<in> set built_in_encodings" "whole_text enc p"
  shows "value_result enc p (attributeValueTok enc p)"
proof (cases "p = []")
  case False
  with assms(2) have "HAS_CHAR enc p" by (auto simp: whole_text.simps [of enc p] split: if_splits)
  moreover have "value_result enc p (scan_loop enc (attributeValue_body enc p) (\<lambda>s. token_at XML_TOK_DATA_CHARS) () p)"
  proof (rule value_loop)
    fix q
    assume q: "suffix q p" "whole_text enc q" "HAS_CHARS enc q 1"
    show "(\<exists>r. attributeValue_body enc p () q = Next () r \<and> steps enc q r \<and> strict_suffix r q) \<or>
      (\<exists>r. attributeValue_body enc p () q = Exit r \<and> value_result enc p r)"
      using q value_lead_next [OF q(2,3)] value_next [OF q(3)] value_start [OF assms(1) q(2,3)]
        same_length_suffix [OF q(1)] suffix_longer [OF q(1)] value_result_token [OF _ q(2), of p] value_result_INVALID [OF q(1)]
      by (cases "q = p"; cases "0 < lead_bytes (BYTE_TYPE enc q)")
        (simp_all add: attributeValue_body_def Let_def split: if_split)
  qed (use False assms(2) in simp_all)
  ultimately show ?thesis using False by (simp add: attributeValueTok_def)
qed (simp add: attributeValueTok_def value_result_def)

lemma entityValueTok_result:
  assumes "enc \<in> set built_in_encodings" "whole_text enc p"
  shows "value_result enc p (entityValueTok enc p)"
proof (cases "p = []")
  case False
  with assms(2) have "HAS_CHAR enc p" by (auto simp: whole_text.simps [of enc p] split: if_splits)
  moreover have "value_result enc p (scan_loop enc (entityValue_body enc p) (\<lambda>s. token_at XML_TOK_DATA_CHARS) () p)"
  proof (rule value_loop)
    fix q
    assume q: "suffix q p" "whole_text enc q" "HAS_CHARS enc q 1"
    show "(\<exists>r. entityValue_body enc p () q = Next () r \<and> steps enc q r \<and> strict_suffix r q) \<or>
      (\<exists>r. entityValue_body enc p () q = Exit r \<and> value_result enc p r)"
      using q value_lead_next [OF q(2,3)] value_next [OF q(3)] value_start [OF assms(1) q(2,3)]
        same_length_suffix [OF q(1)] suffix_longer [OF q(1)] value_result_token [OF _ q(2), of p]
      by (cases "q = p"; cases "0 < lead_bytes (BYTE_TYPE enc q)")
        (simp_all add: entityValue_body_def Let_def split: if_split)
  qed (use False assms(2) in simp_all)
  ultimately show ?thesis using False by (simp add: entityValueTok_def)
qed (simp add: entityValueTok_def value_result_def)

end
