(* ===== verification/Xml_Tok_Props.thy ===== *)
theory Xml_Tok_Props
  imports Xml_Literals
begin

text \<open>The properties of expat's tokenizers.\<close>

section \<open>Where tokens end\<close>


lemma yields_result:
  assumes "yields False T p r"
  shows "\<exists>t q. r = Return t q \<and> t \<in> T \<and> (q = None \<longrightarrow> t < 0) \<and>
    (\<forall>x. q = Some x \<longrightarrow> suffix x p \<and> (0 < t \<and> t \<noteq> XML_TOK_INSTANCE_START \<longrightarrow> length x < length p))"
proof (cases r)
  case (Return t q)
  with assms show ?thesis by (cases q) (auto dest: suffix_length_less)
qed (use assms in simp_all)



text \<open>
  C36. The tokenizers return only tokens of their own kind: the tokenizer of the prolog never returns one of the
  content, whatever the text is, and the other way round.
\<close>

theorem token_sets:
  assumes "enc \<in> set built_in_encodings"
  shows "(\<exists>t q. contentTok enc p = Return t q \<and> t \<in> {- 5..13}) \<and>
    (\<exists>t q. prologTok enc p = Return t q \<and> t \<in> insert XML_TOK_NONE prolog_tokens) \<and>
    (\<exists>t q. cdataSectionTok enc p = Return t q \<and>
      t \<in> {XML_TOK_NONE, XML_TOK_PARTIAL_CHAR, XML_TOK_PARTIAL, XML_TOK_INVALID, XML_TOK_DATA_CHARS, XML_TOK_DATA_NEWLINE,
        XML_TOK_CDATA_SECT_CLOSE}) \<and>
    (\<exists>t q. ignoreSectionTok enc p = Return t q \<and>
      t \<in> {XML_TOK_PARTIAL_CHAR, XML_TOK_PARTIAL, XML_TOK_INVALID, XML_TOK_IGNORE_SECT})"
proof (intro conjI)
  note total = built_in_total [OF assms]
  show "\<exists>t q. contentTok enc p = Return t q \<and> t \<in> {- 5..13}"
    using yields_result [OF total_encoding.contentTok_yields [OF total, of p]] by fastforce
  show "\<exists>t q. prologTok enc p = Return t q \<and> t \<in> insert XML_TOK_NONE prolog_tokens"
    using yields_result [OF total_encoding.prologTok_yields [OF total, of p]] by blast
  show "\<exists>t q. cdataSectionTok enc p = Return t q \<and> t \<in> {- 4, - 2, - 1, 0, 6, 7, 40}"
    using yields_result [OF total_encoding.cdataSectionTok_yields [OF total, of p]] by blast
  show "\<exists>t q. ignoreSectionTok enc p = Return t q \<and> t \<in> {- 2, - 1, 0, 42}"
    using yields_result [OF total_encoding.ignoreSectionTok_yields [OF total, of p]] by blast
qed

theorem token_sets_witness:
  "\<exists>t q. ignoreSectionTok big2_encoding_ns [0, 0x5D, 0, 0x5D, 0, 0x3E] = Return t q \<and>
    t \<in> {XML_TOK_PARTIAL_CHAR, XML_TOK_PARTIAL, XML_TOK_INVALID, XML_TOK_IGNORE_SECT}"
  using token_sets [of big2_encoding_ns "[0, 0x5D, 0, 0x5D, 0, 0x3E]"] by (simp add: built_in_encodings_def)

section \<open>Tokens do not depend on how the input arrives\<close>

text \<open>
  C3. When a tokenizer has found a token, or an error, more input behind it changes nothing: on the longer text it
  returns the same token at the same place. Only runs of character data and of white space in the prolog may go on. This is what
  lets the parser be fed in pieces cut anywhere.
\<close>

theorem tokens_stable:
  assumes "enc \<in> set built_in_encodings" "tok \<in> {contentTok, prologTok, cdataSectionTok, ignoreSectionTok}"
    and "tok enc p = Return t (Some q)" "0 \<le> t" "t \<noteq> XML_TOK_DATA_CHARS" "t \<noteq> XML_TOK_PROLOG_S"
  shows "tok enc (p @ rest) = Return t (Some (q @ rest))"
  by (rule tokens_extension [OF assms])

theorem tokens_stable_witness:
  "contentTok utf8_encoding_ns (ascii ''<a b=\"1\"/>'' @ ascii ''</c>'') = Return XML_TOK_EMPTY_ELEMENT_WITH_ATTS (Some ([] @ ascii ''</c>''))"
  by (rule tokens_stable) (simp add: built_in_encodings_def, simp, code_simp, simp_all)

section \<open>Tokens do not depend on the encoding\<close>

text \<open>
  C8. An ASCII text has the same tokens in every built-in encoding: the six tokenizers of UTF-16 (of either byte
  order), UTF-8, Latin-1 and ASCII return the same token on it, at the place where the same characters are left. The encodings must
  agree on whether a colon is special.
\<close>

theorem tokens_in_every_encoding:
  assumes "enc \<in> set built_in_encodings" "enc' \<in> set built_in_encodings" "family enc = Normal_enc" "same_ascii enc enc'"
    and "tok \<in> {contentTok, prologTok, cdataSectionTok, ignoreSectionTok, attributeValueTok, entityValueTok}"
    and "ascii_text p" "tok enc p = Return t q"
  shows "tok enc' (spell (family enc') p) = Return t (map_option (spell (family enc')) q)"
  by (rule tokens_spell [OF assms])

theorem tokens_in_every_encoding_witness:
  "prologTok big2_encoding (spell (family big2_encoding) (ascii ''<!ENTITY x'')) =
    Return XML_TOK_DECL_OPEN (map_option (spell (family big2_encoding)) (Some (ascii '' x'')))"
proof (rule tokens_in_every_encoding [of utf8_encoding])
  show "prologTok utf8_encoding (ascii ''<!ENTITY x'') = Return XML_TOK_DECL_OPEN (Some (ascii '' x''))" by code_simp
  show "same_ascii utf8_encoding big2_encoding" by (simp add: same_ascii_def utf8_encoding_def big2_encoding_def)
  show "ascii_text (ascii ''<!ENTITY x'')" by code_simp
qed (simp_all add: built_in_encodings_def utf8_encoding_def)

section \<open>Literals\<close>

text \<open>The texts at which the tokens of a literal's value start.\<close>

inductive value_starts :: "(ENCODING \<Rightarrow> byte list \<Rightarrow> outcome) \<Rightarrow> ENCODING \<Rightarrow> byte list \<Rightarrow> byte list \<Rightarrow> bool"
  for tok enc lit where
  whole: "value_starts tok enc lit lit"
| later: "value_starts tok enc lit v \<Longrightarrow> tok enc v = Return t (Some x) \<Longrightarrow> 0 < t \<Longrightarrow> value_starts tok enc lit x"

lemma value_starts_whole_text:
  assumes "value_starts tok enc lit v" "enc \<in> set built_in_encodings" "tok \<in> {attributeValueTok, entityValueTok}"
    and "whole_text enc lit"
  shows "whole_text enc v"
  using assms(1)
proof (induction rule: value_starts.induct)
  case (later v t x)
  have "value_result enc v (tok enc v)"
    using assms(3) attributeValueTok_result [OF assms(2) later.IH] entityValueTok_result [OF assms(2) later.IH] by blast
  with later.hyps show ?case by (auto simp: value_result_def)
qed (rule assms(4))

text \<open>
  C13. The tokenizers of attribute and entity values take the bytes of a character on trust. On a literal that the
  tokenizer of the prolog accepted they never leave the literal: at every place where they are called until the value is used up, they
  return with a place inside it, and every token they find takes at least one byte.
\<close>

theorem literal_values_safe:
  assumes "enc \<in> set built_in_encodings" "prologTok enc p = Return XML_TOK_LITERAL (Some q)"
    and "tok \<in> {attributeValueTok, entityValueTok}"
    and "value_starts tok enc (take (length p - length q - 2 * MINBPC enc) (drop (MINBPC enc) p)) v"
  shows "\<exists>t r. tok enc v = Return t r \<and> (r = None \<longrightarrow> t < 0) \<and>
    (\<forall>x. r = Some x \<longrightarrow> suffix x v \<and> (0 < t \<longrightarrow> length x < length v))"
proof -
  obtain c1 lit c2 where lit: "p = c1 @ lit @ c2 @ q" "length c1 = MINBPC enc" "length c2 = MINBPC enc" "whole_text enc lit"
    using literal_text [OF assms(2,1)] by blast
  have "take (length p - length q - 2 * MINBPC enc) (drop (MINBPC enc) p) = lit"
    by (simp add: lit(1) flip: lit(2,3)) (simp add: lit(2,3))
  then have whole: "whole_text enc v"
    using value_starts_whole_text [OF assms(4,1,3)] lit(4) by simp
  have "value_result enc v (tok enc v)"
    using assms(3) attributeValueTok_result [OF assms(1) whole] entityValueTok_result [OF assms(1) whole] by blast
  then show ?thesis by (auto simp: value_result_def dest: suffix_length_less)
qed

theorem literal_values_safe_witness:
  "\<exists>t r. attributeValueTok utf8_encoding_ns [0xC3, 0xA9] = Return t r \<and> (r = None \<longrightarrow> t < 0) \<and>
    (\<forall>x. r = Some x \<longrightarrow> suffix x [0xC3, 0xA9] \<and> (0 < t \<longrightarrow> length x < length [0xC3 :: byte, 0xA9]))"
proof (rule literal_values_safe)
  show "prologTok utf8_encoding_ns [0x22, 0xC3, 0xA9, 0x22, 0x3E] = Return XML_TOK_LITERAL (Some [0x3E])" by code_simp
  show "value_starts attributeValueTok utf8_encoding_ns
    (take (length [0x22, 0xC3, 0xA9, 0x22, 0x3E :: byte] - length [0x3E :: byte] - 2 * MINBPC utf8_encoding_ns)
      (drop (MINBPC utf8_encoding_ns) [0x22, 0xC3, 0xA9, 0x22, 0x3E])) [0xC3, 0xA9]"
    using value_starts.whole [of attributeValueTok utf8_encoding_ns "[0xC3, 0xA9]"]
    by (simp add: MINBPC_def utf8_encoding_ns_def)
qed (simp_all add: built_in_encodings_def)

end
