(* ===== verification/Xml_Char.thy ===== *)
theory Xml_Char
  imports Xml_Literals
begin

text \<open>
  Character references: the number of a reference (\<open>charRefNumber\<close> of \<open>xmltok_impl.c\<close>), the numbers that are
  characters of XML, and their encoding in UTF-8 and UTF-16 (\<open>xmltok.c\<close>); the names of the predefined entities.
\<close>

section \<open>Numbers of characters\<close>

definition checkCharRefNumber :: "int \<Rightarrow> int" where
  "checkCharRefNumber result =
    (let hi = drop_bit 8 result in
     if hi \<in> {0xD8, 0xD9, 0xDA, 0xDB, 0xDC, 0xDD, 0xDE, 0xDF} then - 1
     else if hi = 0 then if typetab latin1_encoding ! nat result = BT_NONXML then - 1 else result
     else if hi = 0xFF then if result = 0xFFFE \<or> result = 0xFFFF then - 1 else result
     else result)"

definition hex_digit :: "int \<Rightarrow> int \<Rightarrow> int" where
  "hex_digit c result =
    (if 0x30 \<le> c \<and> c \<le> 0x39 then push_bit 4 result OR (c - 0x30)
     else if 0x41 \<le> c \<and> c \<le> 0x46 then push_bit 4 result + (10 + (c - 0x41))
     else if 0x61 \<le> c \<and> c \<le> 0x66 then push_bit 4 result + (10 + (c - 0x61))
     else result)"

definition decimal_digit :: "int \<Rightarrow> int \<Rightarrow> int" where
  "decimal_digit c result = result * 10 + (c - 0x30)"

text \<open>The loops look for the semicolon without a test for the end of the buffer; \<open>None\<close> is a read past the end.\<close>

function number_loop :: "(int \<Rightarrow> int \<Rightarrow> int) \<Rightarrow> ENCODING \<Rightarrow> int \<Rightarrow> byte list \<Rightarrow> int option" where
  "number_loop digit enc result ptr =
    (if \<not> HAS_CHAR enc ptr then None
     else if char_is enc ptr 0x3B then Some (checkCharRefNumber result)
     else let result = digit (BYTE_TO_ASCII enc ptr) result in
       if 0x110000 \<le> result then Some (- 1) else number_loop digit enc result (adv enc ptr))"
  by pat_completeness auto
termination
  by (relation "measure (\<lambda>(digit, enc, result, ptr). length ptr)") (auto dest: adv_shorter)

declare number_loop.simps [simp del]

definition charRefNumber :: "ENCODING \<Rightarrow> byte list \<Rightarrow> int option" where
  "charRefNumber enc ptr =
    (let ptr = adv enc (adv enc ptr) in
     if \<not> HAS_CHAR enc ptr then None
     else if char_is enc ptr ASCII_x then number_loop hex_digit enc 0 (adv enc ptr)
     else number_loop decimal_digit enc 0 ptr)"

section \<open>Encoding a character\<close>

text \<open>The bytes or 16-bit units stored in the buffer; their number is the return value.\<close>

definition XmlUtf8Encode :: "int \<Rightarrow> byte list" where
  "XmlUtf8Encode c =
    (if c < 0 then []
     else if c < 0x80 then [word_of_int (c OR 0)]
     else if c < 0x800 then [word_of_int (drop_bit 6 c OR 0xC0), word_of_int ((c AND 0x3F) OR 0x80)]
     else if c < 0x10000 then
       [word_of_int (drop_bit 12 c OR 0xE0), word_of_int ((drop_bit 6 c AND 0x3F) OR 0x80), word_of_int ((c AND 0x3F) OR 0x80)]
     else if c < 0x110000 then
       [word_of_int (drop_bit 18 c OR 0xF0), word_of_int ((drop_bit 12 c AND 0x3F) OR 0x80),
        word_of_int ((drop_bit 6 c AND 0x3F) OR 0x80), word_of_int ((c AND 0x3F) OR 0x80)]
     else [])"

definition XmlUtf16Encode :: "int \<Rightarrow> u16 list" where
  "XmlUtf16Encode charNum =
    (if charNum < 0 then []
     else if charNum < 0x10000 then [word_of_int charNum]
     else if charNum < 0x110000 then
       [word_of_int (drop_bit 10 (charNum - 0x10000) + 0xD800), word_of_int ((charNum - 0x10000 AND 0x3FF) + 0xDC00)]
     else [])"

section \<open>Predefined entities\<close>

text \<open>The name is the text between \<open>ptr\<close> and \<open>end\<close>; the result is the character it stands for, or 0.\<close>

definition name_chars :: "ENCODING \<Rightarrow> byte list \<Rightarrow> nat" where
  "name_chars enc name = length name div MINBPC enc"

fun chars_are :: "ENCODING \<Rightarrow> byte list \<Rightarrow> byte list \<Rightarrow> bool" where
  "chars_are enc ptr [] \<longleftrightarrow> True"
| "chars_are enc ptr (c # cs) \<longleftrightarrow> char_is enc ptr c \<and> chars_are enc (adv enc ptr) cs"

definition predefinedEntityName :: "ENCODING \<Rightarrow> byte list \<Rightarrow> int" where
  "predefinedEntityName enc name =
    (let n = name_chars enc name in
     if n = 2 then
       if char_is enc (adv enc name) 0x74 then
         if BYTE_TO_ASCII enc name = 0x6C then 0x3C else if BYTE_TO_ASCII enc name = 0x67 then 0x3E else 0
       else 0
     else if n = 3 then if chars_are enc name (ascii ''amp'') then 0x26 else 0
     else if n = 4 then
       if BYTE_TO_ASCII enc name = 0x71 then if chars_are enc (adv enc name) (ascii ''uot'') then 0x22 else 0
       else if BYTE_TO_ASCII enc name = 0x61 then if chars_are enc (adv enc name) (ascii ''pos'') then 0x27 else 0
       else 0
     else 0)"

section \<open>The characters of XML\<close>

text \<open>The production \<open>Char\<close> of the XML recommendation.\<close>

definition xml_char :: "int \<Rightarrow> bool" where
  "xml_char c \<longleftrightarrow>
    c \<in> {0x9, 0xA, 0xD} \<or> 0x20 \<le> c \<and> c \<le> 0xD7FF \<or> 0xE000 \<le> c \<and> c \<le> 0xFFFD \<or> 0x10000 \<le> c \<and> c \<le> 0x10FFFF"

lemma latin1_nonxml:
  assumes "0 \<le> c" "c < 256"
  shows "typetab latin1_encoding ! nat c = BT_NONXML \<longleftrightarrow> c < 32 \<and> c \<notin> {9, 10, 13}"
proof -
  have table: "map (\<lambda>t. t = BT_NONXML) (typetab latin1_encoding) = map (\<lambda>n. n < 32 \<and> n \<notin> {9, 10, 13}) [0..<256]"
    by code_simp
  have "length (typetab latin1_encoding) = 256" by (simp add: latin1_encoding_def)
  then have "typetab latin1_encoding ! nat c = BT_NONXML \<longleftrightarrow> map (\<lambda>t. t = BT_NONXML) (typetab latin1_encoding) ! nat c"
    using assms by simp
  also have "\<dots> \<longleftrightarrow> nat c < 32 \<and> nat c \<notin> {9, 10, 13}"
    unfolding table using assms nth_upt [of 0 "nat c" 256] by (simp del: upt.simps)
  finally have "typetab latin1_encoding ! nat c = BT_NONXML \<longleftrightarrow> nat c < 32 \<and> nat c \<notin> {9, 10, 13}" .
  then show ?thesis using assms by auto
qed

lemma checkCharRefNumber_eq:
  assumes "0 \<le> c" "c < 0x110000"
  shows "checkCharRefNumber c = (if xml_char c then c else - 1)"
proof -
  have hi: "drop_bit 8 c = c div 256" by (simp add: drop_bit_eq_div)
  have surrogates: "c div 256 \<in> {0xD8, 0xD9, 0xDA, 0xDB, 0xDC, 0xDD, 0xDE, 0xDF} \<longleftrightarrow> 0xD800 \<le> c \<and> c \<le> 0xDFFF"
    by (simp; arith)
  have low: "c div 256 = 0 \<longleftrightarrow> c < 256" using assms(1) by arith
  have top: "c div 256 = 0xFF \<longleftrightarrow> 0xFF00 \<le> c \<and> c \<le> 0xFFFF" by arith
  show ?thesis
    unfolding checkCharRefNumber_def Let_def hi surrogates low top using latin1_nonxml [OF assms(1)] assms
    by (auto simp: xml_char_def)
qed

section \<open>What the encoders write\<close>

fun utf8_value :: "byte list \<Rightarrow> int" where
  "utf8_value [a] = uint a"
| "utf8_value [a, b] = uint a mod 32 * 64 + uint b mod 64"
| "utf8_value [a, b, c] = (uint a mod 16 * 64 + uint b mod 64) * 64 + uint c mod 64"
| "utf8_value [a, b, c, d] = ((uint a mod 8 * 64 + uint b mod 64) * 64 + uint c mod 64) * 64 + uint d mod 64"
| "utf8_value _ = - 1"

fun utf16_value :: "u16 list \<Rightarrow> int" where
  "utf16_value [u] = uint u"
| "utf16_value [u, v] = 0x10000 + (uint u - 0xD800) * 0x400 + (uint v - 0xDC00)"
| "utf16_value _ = - 1"

lemma all_between:
  assumes "list_all (\<lambda>n. P (int n)) [a..<b]" "int a \<le> x" "x < int b"
  shows "P x"
proof -
  have "nat x \<in> set [a..<b]" using assms(2,3) by auto
  with assms(1) have "P (int (nat x))" unfolding list_all_iff by blast
  with assms(2) show ?thesis by simp
qed

text \<open>The bytes of a sequence, by the bits of the character they hold.\<close>

lemma cont_byte:
  assumes "0 \<le> y" "y < 64"
  shows "let b = word_of_int (y OR 0x80) :: byte in b AND 0x80 \<noteq> 0 \<and> b AND 0xC0 \<noteq> 0xC0 \<and> uint b mod 64 = y \<and>
    (b < 0xA0 \<longleftrightarrow> y < 32) \<and> (b > 0x9F \<longleftrightarrow> 32 \<le> y) \<and> (b < 0x90 \<longleftrightarrow> y < 16) \<and> (b > 0x8F \<longleftrightarrow> 16 \<le> y) \<and>
    (b = 0xBF \<longleftrightarrow> y = 63) \<and> (b > 0xBD \<longleftrightarrow> 61 < y)"
  by (rule all_between [of _ 0 64]) (code_simp, use assms in simp_all)

lemma lead_byte2:
  assumes "2 \<le> x" "x < 32"
  shows "let b = word_of_int (x OR 0xC0) :: byte in
    typetab utf8_encoding ! unat b = BT_LEAD2 \<and> \<not> b < 0xC2 \<and> uint b mod 32 = x"
  by (rule all_between [of _ 2 32]) (code_simp, use assms in simp_all)

lemma lead_byte3:
  assumes "0 \<le> x" "x < 16"
  shows "let b = word_of_int (x OR 0xE0) :: byte in
    typetab utf8_encoding ! unat b = BT_LEAD3 \<and> (b = 0xE0 \<longleftrightarrow> x = 0) \<and> (b = 0xED \<longleftrightarrow> x = 13) \<and> (b = 0xEF \<longleftrightarrow> x = 15) \<and>
    uint b mod 16 = x"
  by (rule all_between [of _ 0 16]) (code_simp, use assms in simp_all)

lemma lead_byte4:
  assumes "0 \<le> x" "x < 5"
  shows "let b = word_of_int (x OR 0xF0) :: byte in
    typetab utf8_encoding ! unat b = BT_LEAD4 \<and> (b = 0xF0 \<longleftrightarrow> x = 0) \<and> (b = 0xF4 \<longleftrightarrow> x = 4) \<and> uint b mod 8 = x"
  by (rule all_between [of _ 0 5]) (code_simp, use assms in simp_all)

lemma and_63: "(c :: int) AND 0x3F = c mod 64"
proof -
  have "c AND mask 6 = take_bit 6 c" by (simp add: take_bit_eq_mask)
  moreover have "mask 6 = (0x3F :: int)" by code_simp
  ultimately show ?thesis by (simp add: take_bit_eq_mod)
qed

lemma and_1023: "(c :: int) AND 0x3FF = c mod 1024"
proof -
  have "c AND mask 10 = take_bit 10 c" by (simp add: take_bit_eq_mask)
  moreover have "mask 10 = (0x3FF :: int)" by code_simp
  ultimately show ?thesis by (simp add: take_bit_eq_mod)
qed

lemma utf8_encoding_sel [simp]: "family utf8_encoding = Normal_enc" "tests utf8_encoding = Some utf8_vtable"
  by (simp_all add: utf8_encoding_def)

lemma div_64: "(c :: int) div 4096 = c div 64 div 64" "c div 262144 = c div 64 div 64 div 64"
  using zdiv_zmult2_eq [of 64 c 64] zdiv_zmult2_eq [of 64 c 4096] zdiv_zmult2_eq [of 64 "c div 64" 64] by simp_all

lemma split_2: "(c :: int) = (c div 4096 * 64 + c div 64 mod 64) * 64 + c mod 64"
  by (simp add: div_64)

lemma split_3: "(c :: int) = ((c div 262144 * 64 + c div 4096 mod 64) * 64 + c div 64 mod 64) * 64 + c mod 64"
  by (simp add: div_64)

lemma bits_3:
  assumes "(c :: int) = (x * 64 + y) * 64 + z" "0 \<le> y" "y < 64" "0 \<le> z" "z < 64" "0x800 \<le> c" "c < 0x10000"
    and "c \<le> 0xD7FF \<or> 0xE000 \<le> c" "c \<le> 0xFFFD"
  shows "(x = 0 \<longrightarrow> \<not> y < 32) \<and> (x = 13 \<longrightarrow> \<not> 32 \<le> y) \<and> (x = 15 \<longrightarrow> y = 63 \<longrightarrow> \<not> 61 < z)"
  using assms by auto

lemma bits_4:
  assumes "(c :: int) = ((w * 64 + x) * 64 + y) * 64 + z" "0 \<le> x" "x < 64" "0 \<le> y" "y < 64" "0 \<le> z" "z < 64"
    and "0x10000 \<le> c" "c < 0x110000"
  shows "(w = 0 \<longrightarrow> \<not> x < 16) \<and> (w = 4 \<longrightarrow> \<not> 16 \<le> x)"
  using assms by auto

lemmas utf8_encode_defs =
  Let_def INVALID_CASES_def INVALID_LEAD_CASE_def BYTE_TYPE_def lead_bytes_def IS_INVALID_CHAR_def call_test_def
  utf8_vtable_def utf8_isInvalid_def

lemma utf8_accepts2:
  assumes "2 \<le> x" "x < 32" "0 \<le> y" "y < 64"
  shows "INVALID_CASES utf8_encoding (word_of_int (x OR 0xC0) # word_of_int (y OR 0x80) # rest) = Some (Break rest)"
proof -
  let ?p = "word_of_int (x OR 0xC0) # word_of_int (y OR 0x80) # rest"
  have "\<not> UTF8_INVALID2 ?p"
    using lead_byte2 [OF assms(1,2)] cont_byte [OF assms(3,4)] by (simp add: UTF8_INVALID2_def Let_def)
  with lead_byte2 [OF assms(1,2)] show ?thesis by (simp add: utf8_encode_defs)
qed

lemma utf8_accepts3:
  assumes "0 \<le> x" "x < 16" "0 \<le> y" "y < 64" "0 \<le> z" "z < 64"
    and "(x = 0 \<longrightarrow> \<not> y < 32) \<and> (x = 13 \<longrightarrow> \<not> 32 \<le> y) \<and> (x = 15 \<longrightarrow> y = 63 \<longrightarrow> \<not> 61 < z)"
  shows "INVALID_CASES utf8_encoding (word_of_int (x OR 0xE0) # word_of_int (y OR 0x80) # word_of_int (z OR 0x80) # rest) =
    Some (Break rest)"
proof -
  let ?p = "word_of_int (x OR 0xE0) # word_of_int (y OR 0x80) # word_of_int (z OR 0x80) # rest"
  have "\<not> UTF8_INVALID3 ?p"
    using lead_byte3 [OF assms(1,2)] cont_byte [OF assms(3,4)] cont_byte [OF assms(5,6)] assms(7)
    by (simp add: UTF8_INVALID3_def Let_def del: not_less not_le)
  with lead_byte3 [OF assms(1,2)] show ?thesis by (simp add: utf8_encode_defs)
qed

lemma utf8_accepts4:
  assumes "0 \<le> w" "w < 5" "0 \<le> x" "x < 64" "0 \<le> y" "y < 64" "0 \<le> z" "z < 64"
    and "(w = 0 \<longrightarrow> \<not> x < 16) \<and> (w = 4 \<longrightarrow> \<not> 16 \<le> x)"
  shows "INVALID_CASES utf8_encoding (word_of_int (w OR 0xF0) # word_of_int (x OR 0x80) # word_of_int (y OR 0x80) #
    word_of_int (z OR 0x80) # rest) = Some (Break rest)"
proof -
  let ?p = "word_of_int (w OR 0xF0) # word_of_int (x OR 0x80) # word_of_int (y OR 0x80) # word_of_int (z OR 0x80) # rest"
  have "\<not> UTF8_INVALID4 ?p"
    using lead_byte4 [OF assms(1,2)] cont_byte [OF assms(3,4)] cont_byte [OF assms(5,6)] cont_byte [OF assms(7,8)] assms(9)
    by (simp add: UTF8_INVALID4_def Let_def del: not_less not_le)
  with lead_byte4 [OF assms(1,2)] show ?thesis by (simp add: utf8_encode_defs)
qed

lemma utf8_value3:
  assumes "0 \<le> x" "x < 16" "0 \<le> y" "y < 64" "0 \<le> z" "z < 64"
  shows "utf8_value [word_of_int (x OR 0xE0), word_of_int (y OR 0x80), word_of_int (z OR 0x80)] = (x * 64 + y) * 64 + z"
  using lead_byte3 [OF assms(1,2)] cont_byte [OF assms(3,4)] cont_byte [OF assms(5,6)] by (simp add: Let_def)

lemma utf8_value4:
  assumes "0 \<le> w" "w < 5" "0 \<le> x" "x < 64" "0 \<le> y" "y < 64" "0 \<le> z" "z < 64"
  shows "utf8_value [word_of_int (w OR 0xF0), word_of_int (x OR 0x80), word_of_int (y OR 0x80), word_of_int (z OR 0x80)] =
    ((w * 64 + x) * 64 + y) * 64 + z"
  using lead_byte4 [OF assms(1,2)] cont_byte [OF assms(3,4)] cont_byte [OF assms(5,6)] cont_byte [OF assms(7,8)]
  by (simp add: Let_def)

lemma utf8_encode2:
  assumes "0x80 \<le> c" "c < 0x800"
  shows "utf8_value (XmlUtf8Encode c) = c" "INVALID_CASES utf8_encoding (XmlUtf8Encode c @ rest) = Some (Break rest)"
proof -
  let ?x = "c div 64" and ?y = "c mod 64"
  have x: "2 \<le> ?x" "?x < 32" using assms by auto
  have y: "0 \<le> ?y" "?y < 64" by simp_all
  show "utf8_value (XmlUtf8Encode c) = c"
    using lead_byte2 [OF x] cont_byte [OF y] assms by (simp add: XmlUtf8Encode_def Let_def drop_bit_eq_div and_63)
  show "INVALID_CASES utf8_encoding (XmlUtf8Encode c @ rest) = Some (Break rest)"
    using utf8_accepts2 [OF x y, of rest] assms by (simp add: XmlUtf8Encode_def drop_bit_eq_div and_63)
qed

lemma utf8_encode3:
  assumes "0x800 \<le> c" "c < 0x10000" "xml_char c"
  shows "utf8_value (XmlUtf8Encode c) = c" "INVALID_CASES utf8_encoding (XmlUtf8Encode c @ rest) = Some (Break rest)"
proof -
  let ?x = "c div 4096" and ?y = "c div 64 mod 64" and ?z = "c mod 64"
  have x: "0 \<le> ?x" "?x < 16" using assms by auto
  have y: "0 \<le> ?y" "?y < 64" by simp_all
  have z: "0 \<le> ?z" "?z < 64" by simp_all
  have c: "c = (?x * 64 + ?y) * 64 + ?z" by (rule split_2)
  have code: "XmlUtf8Encode c = [word_of_int (?x OR 0xE0), word_of_int (?y OR 0x80), word_of_int (?z OR 0x80)]"
    using assms(1,2) by (simp add: XmlUtf8Encode_def drop_bit_eq_div and_63)
  show "utf8_value (XmlUtf8Encode c) = c" unfolding code utf8_value3 [OF x y z] by (rule c [symmetric])
  have xml: "c \<le> 0xD7FF \<or> 0xE000 \<le> c" "c \<le> 0xFFFD" using assms by (auto simp: xml_char_def)
  show "INVALID_CASES utf8_encoding (XmlUtf8Encode c @ rest) = Some (Break rest)"
    unfolding code append.simps by (rule utf8_accepts3 [OF x y z bits_3 [OF c y z assms(1,2) xml]])
qed

lemma utf8_encode4:
  assumes "0x10000 \<le> c" "c < 0x110000"
  shows "utf8_value (XmlUtf8Encode c) = c" "INVALID_CASES utf8_encoding (XmlUtf8Encode c @ rest) = Some (Break rest)"
proof -
  let ?w = "c div 262144" and ?x = "c div 4096 mod 64" and ?y = "c div 64 mod 64" and ?z = "c mod 64"
  have w: "0 \<le> ?w" "?w < 5" using assms by auto
  have x: "0 \<le> ?x" "?x < 64" by simp_all
  have y: "0 \<le> ?y" "?y < 64" by simp_all
  have z: "0 \<le> ?z" "?z < 64" by simp_all
  have c: "c = ((?w * 64 + ?x) * 64 + ?y) * 64 + ?z" by (rule split_3)
  have code: "XmlUtf8Encode c =
    [word_of_int (?w OR 0xF0), word_of_int (?x OR 0x80), word_of_int (?y OR 0x80), word_of_int (?z OR 0x80)]"
    using assms by (simp add: XmlUtf8Encode_def drop_bit_eq_div and_63)
  show "utf8_value (XmlUtf8Encode c) = c" unfolding code utf8_value4 [OF w x y z] by (rule c [symmetric])
  show "INVALID_CASES utf8_encoding (XmlUtf8Encode c @ rest) = Some (Break rest)"
    unfolding code append.simps by (rule utf8_accepts4 [OF w x y z bits_4 [OF c x y z assms]])
qed

lemma utf8_ascii_type:
  assumes "0 \<le> c" "c < 128"
  shows "let b = word_of_int c :: byte in uint b = c \<and> (c < 32 \<and> c \<notin> {9, 10, 13} \<or>
    lead_bytes (typetab utf8_encoding ! unat b) = 0 \<and> typetab utf8_encoding ! unat b \<notin> {BT_NONXML, BT_MALFORM, BT_TRAIL})"
  by (rule all_between [of _ 0 128]) (code_simp, use assms in simp_all)

lemma utf8_encode1:
  assumes "c < 0x80" "xml_char c"
  shows "utf8_value (XmlUtf8Encode c) = c" "INVALID_CASES utf8_encoding (XmlUtf8Encode c @ rest) = None"
proof -
  have c: "0 \<le> c" "\<not> (c < 32 \<and> c \<notin> {9, 10, 13})" using assms by (auto simp: xml_char_def)
  show "utf8_value (XmlUtf8Encode c) = c" "INVALID_CASES utf8_encoding (XmlUtf8Encode c @ rest) = None"
    using utf8_ascii_type [OF c(1)] assms(1) c by (auto simp: XmlUtf8Encode_def Let_def INVALID_CASES_def BYTE_TYPE_def)
qed

text \<open>A character of XML is encoded as one that the scanners accept, with the number it has.\<close>

lemma XmlUtf8Encode_valid:
  assumes "xml_char c"
  shows "utf8_value (XmlUtf8Encode c) = c"
    and "INVALID_CASES utf8_encoding (XmlUtf8Encode c @ rest) = (if c < 0x80 then None else Some (Break rest))"
proof -
  consider "c < 0x80" | "0x80 \<le> c" "c < 0x800" | "0x800 \<le> c" "c < 0x10000" | "0x10000 \<le> c" "c < 0x110000"
    using assms unfolding xml_char_def by fastforce
  then show "utf8_value (XmlUtf8Encode c) = c"
    "INVALID_CASES utf8_encoding (XmlUtf8Encode c @ rest) = (if c < 0x80 then None else Some (Break rest))"
    using utf8_encode1 [OF _ assms] utf8_encode2 utf8_encode3 [OF _ _ assms] utf8_encode4 by (cases; simp)+
qed

section \<open>References in a text\<close>

text \<open>The types of digits and of the semicolon are those of the characters with these names.\<close>

lemma built_in_halves:
  assumes "enc \<in> set built_in_encodings"
  shows "take 128 (typetab enc) \<in> set [asciitab BT_COLON, iasciitab BT_COLON, asciitab BT_NMSTRT, iasciitab BT_NMSTRT]"
    "drop 128 (typetab enc) \<in> set [utf8tab, latin1tab, replicate 128 BT_NONXML]"
proof -
  have "\<forall>e \<in> set built_in_encodings.
    take 128 (typetab e) \<in> set [asciitab BT_COLON, iasciitab BT_COLON, asciitab BT_NMSTRT, iasciitab BT_NMSTRT] \<and>
    drop 128 (typetab e) \<in> set [utf8tab, latin1tab, replicate 128 BT_NONXML]"
    by (simp add: built_in_encodings_def encoding_defs)
  with assms show "take 128 (typetab enc) \<in> set [asciitab BT_COLON, iasciitab BT_COLON, asciitab BT_NMSTRT, iasciitab BT_NMSTRT]"
    "drop 128 (typetab enc) \<in> set [utf8tab, latin1tab, replicate 128 BT_NONXML]"
    by blast+
qed

lemma lower_types:
  "\<forall>tab \<in> set [asciitab BT_COLON, iasciitab BT_COLON, asciitab BT_NMSTRT, iasciitab BT_NMSTRT].
    map (\<lambda>t. t = BT_SEMI) tab = map (\<lambda>n. n = 0x3B) [0..<128] \<and>
    map (\<lambda>t. t = BT_DIGIT) tab = map (\<lambda>n. 0x30 \<le> n \<and> n \<le> 0x39) [0..<128]"
  by code_simp

lemma upper_types:
  "\<forall>tab \<in> set [utf8tab, latin1tab, replicate 128 BT_NONXML]. \<forall>t \<in> set tab. t \<noteq> BT_SEMI \<and> t \<noteq> BT_DIGIT"
  by code_simp

lemma table_types:
  assumes "enc \<in> set built_in_encodings"
  shows "typetab enc ! unat (b :: byte) = BT_SEMI \<longleftrightarrow> b = 0x3B" "typetab enc ! unat b = BT_DIGIT \<longleftrightarrow> 0x30 \<le> b \<and> b \<le> 0x39"
proof -
  have len: "length (typetab enc) = 256" by (rule built_in_tables(1) [OF assms])
  have less: "unat b < 256" using unsigned_less [of b, where ?'a = nat] by simp
  have "(typetab enc ! unat b = BT_SEMI \<longleftrightarrow> unat b = 0x3B) \<and> (typetab enc ! unat b = BT_DIGIT \<longleftrightarrow> 0x30 \<le> unat b \<and> unat b \<le> 0x39)"
  proof (cases "unat b < 128")
    case True
    have at: "map (\<lambda>t. t = x) (take 128 (typetab enc)) ! unat b \<longleftrightarrow> typetab enc ! unat b = x" for x
      using True len by simp
    have upt: "map f [0..<128] ! unat b = f (unat b)" for f :: "nat \<Rightarrow> bool"
      using True nth_upt [of 0 "unat b" 128] by (simp del: upt.simps)
    note low = bspec [OF lower_types built_in_halves(1) [OF assms]]
    show ?thesis
      using at [of BT_SEMI, unfolded conjunct1 [OF low] upt] at [of BT_DIGIT, unfolded conjunct2 [OF low] upt] by simp
  next
    case False
    then have "typetab enc ! unat b = drop 128 (typetab enc) ! (unat b - 128)" using len by simp
    moreover have "drop 128 (typetab enc) ! (unat b - 128) \<in> set (drop 128 (typetab enc))"
      using False less len by (intro nth_mem) simp
    ultimately show ?thesis using upper_types built_in_halves(2) [OF assms] False by auto
  qed
  then show "typetab enc ! unat b = BT_SEMI \<longleftrightarrow> b = 0x3B" "typetab enc ! unat b = BT_DIGIT \<longleftrightarrow> 0x30 \<le> b \<and> b \<le> 0x39"
    by (simp_all add: word_le_nat_alt word_unat_eq_iff)
qed

lemma semi_char: "enc \<in> set built_in_encodings \<Longrightarrow> BYTE_TYPE enc p = BT_SEMI \<Longrightarrow> char_is enc p 0x3B"
  by (cases "family enc") (auto simp: BYTE_TYPE_def char_is_def table_types unicode_byte_type_def split: if_splits)

lemma digit_char:
  "enc \<in> set built_in_encodings \<Longrightarrow> BYTE_TYPE enc p = BT_DIGIT \<Longrightarrow> 0x30 \<le> BYTE_TO_ASCII enc p \<and> BYTE_TO_ASCII enc p \<le> 0x39"
  by (cases "family enc")
    (auto simp: BYTE_TYPE_def BYTE_TO_ASCII_def table_types unicode_byte_type_def word_le_def split: if_splits)

lemma number_loop_result:
  assumes "enc \<in> set built_in_encodings"
    and digit: "\<And>p r. HAS_CHARS enc p 1 \<Longrightarrow> BYTE_TYPE enc p \<in> set ds \<Longrightarrow> 0 \<le> r \<Longrightarrow> 0 \<le> digit (BYTE_TO_ASCII enc p) r"
    and "scan_loop enc (digits_body ds enc) (\<lambda>s p. PARTIAL) () p = Return XML_TOK_CHAR_REF (Some q)" "0 \<le> r" "r < 0x110000"
  shows "\<exists>n. number_loop digit enc r p = Some n \<and> (n = - 1 \<or> xml_char n)"
  using assms(3-)
proof (induction "length p" arbitrary: p r rule: less_induct)
  case less
  have has: "HAS_CHAR enc p"
    using less.prems(1) by (auto simp: scan_loop.simps [of enc _ _ _ p] PARTIAL_def split: if_splits)
  show ?case
  proof (cases "char_is enc p 0x3B")
    case True
    with has less.prems(2,3) show ?thesis
      by (simp add: number_loop.simps [of digit enc r p] checkCharRefNumber_eq)
  next
    case False
    with semi_char [OF assms(1)] have "BYTE_TYPE enc p \<noteq> BT_SEMI" by blast
    then have step: "BYTE_TYPE enc p \<in> set ds"
      "scan_loop enc (digits_body ds enc) (\<lambda>s p. PARTIAL) () (adv enc p) = Return XML_TOK_CHAR_REF (Some q)"
      using less.prems(1) has
      by (auto simp: scan_loop.simps [of enc _ _ _ p] digits_body_def Let_def INVALID_def adv_shorter split: if_splits)
    let ?r = "digit (BYTE_TO_ASCII enc p) r"
    have "0 \<le> ?r" using digit [OF _ step(1) less.prems(2)] has by (simp add: HAS_CHAR_def)
    with less.hyps [OF _ step(2), of ?r] adv_shorter [OF has] False has show ?thesis
      by (simp add: number_loop.simps [of digit enc r p] Let_def)
  qed
qed

lemma hex_digit_nonneg: "0 \<le> r \<Longrightarrow> 0 \<le> hex_digit c r"
  by (simp add: hex_digit_def)

text \<open>More input behind the semicolon does not change the number.\<close>

lemma BYTE_TO_ASCII_local: "MINBPC enc \<le> length p \<Longrightarrow> BYTE_TO_ASCII enc (p @ ext) = BYTE_TO_ASCII enc p"
  using nth_prefix [of 0 "MINBPC enc" p ext] nth_prefix [of 1 2 p ext]
  by (cases "family enc") (simp_all add: BYTE_TO_ASCII_def MINBPC_def)

lemma char_is_local: "MINBPC enc \<le> length p \<Longrightarrow> char_is enc (p @ ext) c = char_is enc p c"
  using nth_prefix [of 0 "MINBPC enc" p ext] nth_prefix [of 1 2 p ext]
  by (cases "family enc") (simp_all add: char_is_def MINBPC_def)

lemma adv_local: "MINBPC enc \<le> length p \<Longrightarrow> adv enc (p @ ext) = adv enc p @ ext"
  by (simp add: adv_def)

lemma number_loop_local: "number_loop digit enc r p = Some n \<Longrightarrow> number_loop digit enc r (p @ ext) = Some n"
proof (induction "length p" arbitrary: p r rule: less_induct)
  case less
  have has: "HAS_CHAR enc p" using less.prems by (auto simp: number_loop.simps [of digit enc r p] split: if_splits)
  then have "MINBPC enc \<le> length p" by (simp add: HAS_CHAR_def HAS_CHARS_def)
  with less.prems less.hyps [OF adv_shorter [OF has]] has show ?case
    by (auto simp: number_loop.simps [of digit enc r p] number_loop.simps [of digit enc r "p @ ext"] HAS_CHAR_def HAS_CHARS_def
        BYTE_TO_ASCII_local char_is_local adv_local Let_def split: if_splits)
qed

lemma charRefNumber_local:
  assumes "charRefNumber enc p = Some n" "HAS_CHARS enc p 2"
  shows "charRefNumber enc (p @ ext) = Some n"
proof -
  let ?p = "adv enc (adv enc p)"
  have "MINBPC enc \<le> length p" "MINBPC enc \<le> length (adv enc p)"
    using assms(2) by (simp_all add: HAS_CHARS_def adv_def)
  then have two: "adv enc (adv enc (p @ ext)) = ?p @ ext" by (simp add: adv_local)
  have has: "HAS_CHAR enc ?p" using assms(1) by (auto simp: charRefNumber_def Let_def split: if_splits)
  then have len: "MINBPC enc \<le> length ?p" by (simp add: HAS_CHAR_def HAS_CHARS_def)
  show ?thesis
    using assms(1) has len
    by (auto simp: charRefNumber_def Let_def two char_is_local adv_local number_loop_local HAS_CHAR_def HAS_CHARS_def
        split: if_splits)
qed

text \<open>A reference by number starts with an ampersand and a number sign.\<close>

context total_encoding
begin

lemma content_chars_no_ref:
  assumes "HAS_CHARS enc p 1" "BYTE_TYPE enc p \<noteq> BT_AMP"
  shows "yields False {- 5, - 3, - 2, - 1, 0, 1, 2, 3, 4, 5, 6, 7, 8, 11, 12, 13} p (content_chars enc p)"
proof -
  have "yields True {- 5, - 3, - 2, - 1, 0, 1, 2, 3, 4, 5, 6, 7, 8, 11, 12, 13} p (content_start enc p)"
    unfolding content_start_def Let_def
    by (intro yields_rules yields_macros scanLt_yields scanRef_yields) (use assms in \<open>simp_all add: HAS_CHAR_def\<close>)
  then show ?thesis
    unfolding content_chars_def
    by (intro yields_rules yields_loop [where I = "\<lambda>s. True"]) (use assms in \<open>simp_all add: content_body_yields\<close>)
qed

lemma scanRef_no_number:
  assumes "strict_suffix p p0" "HAS_CHAR enc p" "BYTE_TYPE enc p \<noteq> BT_NUM"
  shows "yields False {- 2, - 1, 0, 9} p0 (scanRef enc p)"
  unfolding scanRef_def
  by (intro yields_rules yields_macros yields_loop [where I = "\<lambda>s. True"] scanCharRef_yields)
    (use assms in \<open>simp_all add: HAS_CHAR_def name_then_semi_yields\<close>)

end

lemma no_amp_num: "BYTE_TYPE enc p \<in> {BT_AMP, BT_NUM} \<Longrightarrow> INVALID_CASES enc p = None \<and> CHECK_NMSTRT_CASES enc p = None"
  by (auto simp: INVALID_CASES_def CHECK_NMSTRT_CASES_def lead_bytes_def Let_def)

lemma content_char_ref:
  assumes "enc \<in> set built_in_encodings" "content_chars enc p = Return XML_TOK_CHAR_REF (Some q)" "HAS_CHARS enc p 1"
  shows "HAS_CHARS enc p 2 \<and> scanCharRef enc (adv enc (adv enc p)) = Return XML_TOK_CHAR_REF (Some q)"
proof -
  note total = built_in_total [OF assms(1)]
  have amp: "BYTE_TYPE enc p = BT_AMP"
  proof (rule ccontr)
    assume "BYTE_TYPE enc p \<noteq> BT_AMP"
    from total_encoding.content_chars_no_ref [OF total assms(3) this] assms(2) show False by simp
  qed
  have not_break: "yields False {- 2, - 1, 0, 9, 10} p (scanRef enc (adv enc p))"
    by (rule total_encoding.scanRef_yields [OF total]) (use assms(3) in simp_all)
  have ref: "scanRef enc (adv enc p) = Return XML_TOK_CHAR_REF (Some q)"
  proof (cases "scanRef enc (adv enc p)")
    case (Break x)
    with not_break show ?thesis by simp
  qed (use assms(2) no_amp_num [of enc p] amp in
    \<open>simp_all add: content_chars_def content_start_def then_do_def switch_def Let_def\<close>)
  have has: "HAS_CHAR enc (adv enc p)" using ref by (auto simp: scanRef_def PARTIAL_def split: if_splits)
  have num: "BYTE_TYPE enc (adv enc p) = BT_NUM"
  proof (rule ccontr)
    assume "BYTE_TYPE enc (adv enc p) \<noteq> BT_NUM"
    from total_encoding.scanRef_no_number [OF total _ has this, of p] assms(3) ref show False by simp
  qed
  with ref has no_amp_num [of enc "adv enc p"] show ?thesis
    by (simp add: scanRef_def switch_def HAS_CHAR_def)
qed

lemma scanCharRef_number:
  assumes "enc \<in> set built_in_encodings" "scanCharRef enc (adv enc (adv enc p)) = Return XML_TOK_CHAR_REF (Some q)"
  shows "\<exists>n. charRefNumber enc p = Some n \<and> (n = - 1 \<or> xml_char n)"
proof -
  let ?p = "adv enc (adv enc p)"
  have has: "HAS_CHAR enc ?p" using assms(2) by (auto simp: scanCharRef_def PARTIAL_def split: if_splits)
  show ?thesis
  proof (cases "char_is enc ?p ASCII_x")
    case True
    let ?q = "adv enc ?p"
    from True assms(2) has have "scanHexCharRef enc ?q = Return XML_TOK_CHAR_REF (Some q)" by (simp add: scanCharRef_def)
    then have q: "HAS_CHAR enc ?q" "BYTE_TYPE enc ?q \<in> {BT_DIGIT, BT_HEX}"
      "scan_loop enc (digits_body [BT_DIGIT, BT_HEX] enc) (\<lambda>s p. PARTIAL) () (adv enc ?q) = Return XML_TOK_CHAR_REF (Some q)"
      by (auto simp: scanHexCharRef_def PARTIAL_def INVALID_def split: if_splits)
    then have "scan_loop enc (digits_body [BT_DIGIT, BT_HEX] enc) (\<lambda>s p. PARTIAL) () ?q = Return XML_TOK_CHAR_REF (Some q)"
      using adv_shorter [OF q(1)] by (subst scan_loop.simps) (auto simp: digits_body_def)
    from number_loop_result [OF assms(1) _ this, of hex_digit 0] hex_digit_nonneg True has show ?thesis
      by (simp add: charRefNumber_def)
  next
    case False
    with assms(2) has have q: "BYTE_TYPE enc ?p = BT_DIGIT"
      "scan_loop enc (digits_body [BT_DIGIT] enc) (\<lambda>s p. PARTIAL) () (adv enc ?p) = Return XML_TOK_CHAR_REF (Some q)"
      by (auto simp: scanCharRef_def INVALID_def split: if_splits)
    then have "scan_loop enc (digits_body [BT_DIGIT] enc) (\<lambda>s p. PARTIAL) () ?p = Return XML_TOK_CHAR_REF (Some q)"
      using adv_shorter [OF has] has by (subst scan_loop.simps) (auto simp: digits_body_def)
    from number_loop_result [OF assms(1) _ this, of decimal_digit 0] digit_char [OF assms(1)] False has show ?thesis
      by (simp add: charRefNumber_def decimal_digit_def)
  qed
qed

lemma contentTok_whole:
  assumes "contentTok enc p = Return t (Some q)"
  obtains n x where "content_chars enc (take n p) = Return t (Some x)" "q = x @ drop n p" "HAS_CHARS enc (take n p) 1"
proof -
  define n where "n = length p - length p mod MINBPC enc"
  obtain x where x: "content_chars enc (take n p) = Return t (Some x)" "q = x @ drop n p" "0 < n"
    using assms
    by (auto simp: contentTok_def whole_chars_def Let_def PARTIAL_def with_tail_def n_def [symmetric]
        split: if_splits outcome.splits)
  have "n = length p div MINBPC enc * MINBPC enc" by (simp add: n_def minus_mod_eq_div_mult)
  with x(3) have "MINBPC enc \<le> n" by (metis dvd_imp_le dvd_triv_right)
  then have "HAS_CHARS enc (take n p) 1" by (simp add: HAS_CHARS_def n_def)
  from that [OF x(1,2) this] show thesis .
qed

lemma contentTok_char_ref:
  assumes "enc \<in> set built_in_encodings" "contentTok enc p = Return XML_TOK_CHAR_REF (Some q)"
  shows "\<exists>n. charRefNumber enc p = Some n \<and> (n = - 1 \<or> xml_char n)"
proof -
  obtain n x where x: "content_chars enc (take n p) = Return XML_TOK_CHAR_REF (Some x)" "HAS_CHARS enc (take n p) 1"
    using contentTok_whole [OF assms(2)] by metis
  from content_char_ref [OF assms(1) x] scanCharRef_number [OF assms(1)] obtain k where
    k: "charRefNumber enc (take n p) = Some k" "k = - 1 \<or> xml_char k" "HAS_CHARS enc (take n p) 2" by blast
  from charRefNumber_local [OF k(1,3), of "drop n p"] k(2) show ?thesis by simp
qed

section \<open>The number that a reference spells\<close>

definition digit_of :: "byte \<Rightarrow> int" where
  "digit_of c = (if c \<le> 0x39 then uint c - 0x30 else if c \<le> 0x46 then uint c - 0x41 + 10 else uint c - 0x61 + 10)"

definition decimal :: "byte \<Rightarrow> bool" where
  "decimal c \<longleftrightarrow> 0x30 \<le> c \<and> c \<le> 0x39"

definition hexadecimal :: "byte \<Rightarrow> bool" where
  "hexadecimal c \<longleftrightarrow> decimal c \<or> 0x41 \<le> c \<and> c \<le> 0x46 \<or> 0x61 \<le> c \<and> c \<le> 0x66"

definition number_of :: "int \<Rightarrow> byte list \<Rightarrow> int" where
  "number_of base ds = foldl (\<lambda>r c. base * r + digit_of c) 0 ds"

lemma push_or:
  assumes "0 \<le> d" "d < 16"
  shows "push_bit 4 r OR d = 16 * r + (d :: int)"
proof -
  have "take_bit 4 d = d" using assms by (simp add: take_bit_eq_mod)
  then have "\<not> bit (push_bit 4 r) n \<or> \<not> bit d n" for n
    by (metis bit_push_bit_iff_int bit_take_bit_iff leD)
  then have "push_bit 4 r + d = push_bit 4 r OR d" by (rule disjunctive_add)
  then show ?thesis by (simp add: push_bit_eq_mult)
qed

lemma digits_read:
  "hexadecimal c \<Longrightarrow> hex_digit (uint c) r = 16 * r + digit_of c" "hexadecimal c \<Longrightarrow> 0 \<le> digit_of c"
  "decimal c \<Longrightarrow> decimal_digit (uint c) r = 10 * r + digit_of c"
  using push_or [of "uint c - 0x30" r]
  by (auto simp: hexadecimal_def decimal_def digit_of_def hex_digit_def decimal_digit_def word_le_def push_bit_eq_mult)

lemma digit_not_semi: "hexadecimal c \<Longrightarrow> c \<noteq> 0x3B" "decimal c \<Longrightarrow> hexadecimal c"
  by (auto simp: hexadecimal_def decimal_def word_le_def)

lemma foldl_grows:
  assumes "1 \<le> base" "\<forall>c \<in> set ds. 0 \<le> digit_of c" "0 \<le> (r :: int)"
  shows "r \<le> foldl (\<lambda>r c. base * r + digit_of c) r ds"
  using assms(2,3)
proof (induction ds arbitrary: r)
  case (Cons c ds)
  have "r \<le> base * r" using assms(1) Cons.prems(2) by (simp add: mult_le_cancel_right1)
  moreover have "0 \<le> digit_of c" using Cons.prems(1) by simp
  ultimately have "r \<le> base * r + digit_of c" "0 \<le> base * r + digit_of c" using Cons.prems(2) by linarith+
  with Cons.IH [of "base * r + digit_of c"] Cons.prems(1) show ?case by fastforce
qed simp

lemma spell_char_read:
  "HAS_CHAR enc (spell_char (family enc) c @ p)" "char_is enc (spell_char (family enc) c @ p) d \<longleftrightarrow> c = d"
  "BYTE_TO_ASCII enc (spell_char (family enc) c @ p) = uint c" "adv enc (spell_char (family enc) c @ p) = p"
  by (cases "family enc"; auto simp: HAS_CHAR_def HAS_CHARS_def MINBPC_def char_is_def BYTE_TO_ASCII_def adv_def)+

lemma number_loop_spell:
  assumes "1 \<le> base" "\<And>c r. kind c \<Longrightarrow> digit (uint c) r = base * r + digit_of c \<and> 0 \<le> digit_of c \<and> c \<noteq> 0x3B"
    and "0 \<le> r" "r < 0x110000" "list_all kind ds"
  shows "number_loop digit enc r (spell (family enc) (ds @ [0x3B]) @ rest) =
    Some (let v = foldl (\<lambda>r c. base * r + digit_of c) r ds in if xml_char v then v else - 1)"
  using assms(3-)
proof (induction ds arbitrary: r)
  case Nil
  then show ?case
    by (simp add: number_loop.simps [of digit enc r "spell_char (family enc) 0x3B @ rest"] spell_char_read checkCharRefNumber_eq)
next
  case (Cons c ds)
  let ?r = "base * r + digit_of c"
  have c: "digit (uint c) r = ?r" "0 \<le> digit_of c" "c \<noteq> 0x3B" using assms(2) [of c r] Cons.prems(3) by simp_all
  have r: "0 \<le> ?r" using c(2) assms(1) Cons.prems(1) by simp
  have step: "number_loop digit enc r (spell (family enc) ((c # ds) @ [0x3B]) @ rest) =
    (if 0x110000 \<le> ?r then Some (- 1) else number_loop digit enc ?r (spell (family enc) (ds @ [0x3B]) @ rest))"
    by (simp add: number_loop.simps [of digit enc r "spell_char (family enc) c @ p" for p] spell_char_read c Let_def)
  show ?case
  proof (cases "0x110000 \<le> ?r")
    case True
    have "\<forall>c \<in> set ds. 0 \<le> digit_of c" using Cons.prems(3) assms(2) by (auto simp: list_all_iff)
    with foldl_grows [OF assms(1) _ r] True have "0x110000 \<le> foldl (\<lambda>r c. base * r + digit_of c) ?r ds" by fastforce
    then have "\<not> xml_char (foldl (\<lambda>r c. base * r + digit_of c) ?r ds)" by (simp add: xml_char_def)
    with True step show ?thesis by simp
  next
    case False
    with Cons.IH [OF r] Cons.prems(3) step show ?thesis by simp
  qed
qed

lemma decimal_reference:
  assumes "list_all decimal ds" "ds \<noteq> []"
  shows "charRefNumber enc (spell (family enc) (ascii ''&#'' @ ds @ [0x3B]) @ rest) =
    Some (if xml_char (number_of 10 ds) then number_of 10 ds else - 1)"
proof -
  obtain d ds' where ds: "ds = d # ds'" using assms(2) by (cases ds) auto
  with assms(1) have "d \<noteq> ASCII_x" by (auto simp: decimal_def word_le_def)
  then have "charRefNumber enc (spell (family enc) (ascii ''&#'' @ ds @ [0x3B]) @ rest) =
    number_loop decimal_digit enc 0 (spell (family enc) (ds @ [0x3B]) @ rest)"
    by (simp add: charRefNumber_def Let_def ascii_def ds spell_char_read)
  also have "\<dots> = Some (let v = foldl (\<lambda>r c. 10 * r + digit_of c) 0 ds in if xml_char v then v else - 1)"
    by (rule number_loop_spell [where kind = decimal]) (simp_all add: digits_read digit_not_semi assms(1))
  finally show ?thesis by (simp add: number_of_def Let_def)
qed

lemma hexadecimal_reference:
  assumes "list_all hexadecimal ds"
  shows "charRefNumber enc (spell (family enc) (ascii ''&#x'' @ ds @ [0x3B]) @ rest) =
    Some (if xml_char (number_of 16 ds) then number_of 16 ds else - 1)"
proof -
  have "charRefNumber enc (spell (family enc) (ascii ''&#x'' @ ds @ [0x3B]) @ rest) =
    number_loop hex_digit enc 0 (spell (family enc) (ds @ [0x3B]) @ rest)"
    by (simp add: charRefNumber_def Let_def ascii_def spell_char_read)
  also have "\<dots> = Some (let v = foldl (\<lambda>r c. 16 * r + digit_of c) 0 ds in if xml_char v then v else - 1)"
    by (rule number_loop_spell [where kind = hexadecimal]) (simp_all add: digits_read digit_not_semi assms)
  finally show ?thesis by (simp add: number_of_def Let_def)
qed
section \<open>UTF-16\<close>

text \<open>A 16-bit unit in the memory of a little-endian machine.\<close>

definition unit_bytes :: "u16 list \<Rightarrow> byte list" where
  "unit_bytes us = concat (map (\<lambda>u. [ucast u, ucast (drop_bit 8 u)]) us)"

lemma uint_u16: "0 \<le> v \<Longrightarrow> v < 0x10000 \<Longrightarrow> uint (word_of_int v :: u16) = v"
  by (simp add: uint_word_of_int)

lemma uint_byte: "0 \<le> v \<Longrightarrow> v < 256 \<Longrightarrow> uint (word_of_int v :: byte) = v"
  by (simp add: uint_word_of_int)

lemma unit_halves:
  assumes "0 \<le> c" "c < 0x10000"
  shows "(ucast (word_of_int c :: u16) :: byte) = word_of_int (c mod 256)"
    "(ucast (drop_bit 8 (word_of_int c :: u16)) :: byte) = word_of_int (c div 256)"
proof -
  have "uint (ucast (word_of_int c :: u16) :: byte) = c mod 256"
    by (simp only: unsigned_ucast_eq uint_u16 [OF assms]) (simp add: take_bit_eq_mod)
  also have "\<dots> = uint (word_of_int (c mod 256) :: byte)" by (rule uint_byte [symmetric]) simp_all
  finally show "(ucast (word_of_int c :: u16) :: byte) = word_of_int (c mod 256)" by (simp only: word_uint_eq_iff)
  have hi: "0 \<le> c div 256" "c div 256 < 256" using assms by auto
  have "uint (ucast (drop_bit 8 (word_of_int c :: u16)) :: byte) = take_bit 8 (c div 256)"
    by (simp only: unsigned_ucast_eq unsigned_drop_bit_eq uint_u16 [OF assms])
      (use assms hi in \<open>simp add: drop_bit_eq_div take_bit_eq_mod\<close>)
  also have "\<dots> = uint (word_of_int (c div 256) :: byte)" using hi by (simp add: uint_byte take_bit_eq_mod)
  finally show "(ucast (drop_bit 8 (word_of_int c :: u16)) :: byte) = word_of_int (c div 256)" by (simp only: word_uint_eq_iff)
qed

lemma utf16_value_encode:
  assumes "0 \<le> c" "c < 0x110000"
  shows "utf16_value (XmlUtf16Encode c) = c"
proof (cases "c < 0x10000")
  case True
  with assms show ?thesis by (simp add: XmlUtf16Encode_def uint_word_of_int)
next
  case False
  let ?d = "c - 0x10000"
  have "0 \<le> ?d div 1024" "?d div 1024 < 1024" using assms False by auto
  then have "uint (word_of_int (?d div 1024 + 0xD800) :: u16) = ?d div 1024 + 0xD800"
    by (intro uint_u16) linarith+
  moreover have "uint (word_of_int (?d mod 1024 + 0xDC00) :: u16) = ?d mod 1024 + 0xDC00"
    using pos_mod_sign [of 1024 ?d] pos_mod_bound [of 1024 ?d] by (intro uint_u16) linarith+
  ultimately have "utf16_value (XmlUtf16Encode c) = 0x10000 + ?d div 1024 * 0x400 + ?d mod 1024"
    using assms False by (simp add: XmlUtf16Encode_def drop_bit_eq_div and_1023 del: of_int_add)
  also have "\<dots> = c" by simp
  finally show ?thesis .
qed


lemma byte_eq: "0 \<le> v \<Longrightarrow> v < 256 \<Longrightarrow> (word_of_int v :: byte) = w \<longleftrightarrow> v = uint w"
  by (auto simp: uint_byte word_uint_eq_iff)

lemma latin1_types:
  assumes "0 \<le> c" "c < 256" "xml_char c"
  shows "typetab little2_encoding ! unat (word_of_int c :: byte) \<notin> {BT_NONXML, BT_MALFORM, BT_TRAIL}"
    "lead_bytes (typetab little2_encoding ! unat (word_of_int c :: byte)) = 0"
proof -
  have tab: "typetab little2_encoding = typetab latin1_encoding" by (simp add: little2_encoding_def latin1_encoding_def)
  have "unat (word_of_int c :: byte) = nat c" using uint_byte [OF assms(1,2)] by (metis nat_uint_eq)
  moreover have "\<forall>t \<in> set (typetab latin1_encoding). lead_bytes t = 0 \<and> t \<noteq> BT_MALFORM \<and> t \<noteq> BT_TRAIL"
    by (simp add: latin1_encoding_def asciitab_def latin1tab_def lead_bytes_def)
  moreover have "typetab latin1_encoding ! nat c \<in> set (typetab latin1_encoding)"
    using assms(1,2) by (intro nth_mem) (simp add: latin1_encoding_def)
  moreover have "typetab latin1_encoding ! nat c \<noteq> BT_NONXML"
    using latin1_nonxml [OF assms(1,2)] assms(3) by (auto simp: xml_char_def)
  ultimately show "typetab little2_encoding ! unat (word_of_int c :: byte) \<notin> {BT_NONXML, BT_MALFORM, BT_TRAIL}"
    "lead_bytes (typetab little2_encoding ! unat (word_of_int c :: byte)) = 0"
    by (simp_all add: tab)
qed

lemma little2_sel [simp]: "family little2_encoding = Little2_enc"
  by (simp add: little2_encoding_def)

lemma unit_high:
  assumes "(c :: int) = h * 256 + l" "0 \<le> l" "l < 256" "c < 0x10000" "xml_char c"
  shows "h \<notin> {0xD8, 0xD9, 0xDA, 0xDB, 0xDC, 0xDD, 0xDE, 0xDF} \<and> \<not> (h = 0xFF \<and> l \<in> {0xFF, 0xFE})"
  using assms by (auto simp: xml_char_def)

lemma utf16_accepts1:
  assumes "c < 0x10000" "xml_char c"
  shows "INVALID_CASES little2_encoding (unit_bytes (XmlUtf16Encode c) @ rest) = None"
proof -
  have c: "0 \<le> c" using assms by (auto simp: xml_char_def)
  have hi: "0 \<le> c div 256" "c div 256 < 256" using c assms(1) by auto
  have lo: "0 \<le> c mod 256" "c mod 256 < 256" by simp_all
  have bytes: "unit_bytes (XmlUtf16Encode c) @ rest = word_of_int (c mod 256) # word_of_int (c div 256) # rest"
    using c assms(1) by (simp add: XmlUtf16Encode_def unit_bytes_def unit_halves)
  show ?thesis
  proof (cases "c < 256")
    case True
    with c have "c div 256 = 0" "c mod 256 = c" by simp_all
    with latin1_types [OF c True assms(2)] show ?thesis
      unfolding bytes by (simp add: INVALID_CASES_def BYTE_TYPE_def Let_def)
  next
    case False
    have split: "c = c div 256 * 256 + c mod 256" by simp
    have "c div 256 \<noteq> 0" using False c by auto
    moreover note unit_high [OF split lo assms]
    ultimately have "c div 256 \<noteq> 0" "c div 256 \<notin> {0xD8, 0xD9, 0xDA, 0xDB, 0xDC, 0xDD, 0xDE, 0xDF}"
      "\<not> (c div 256 = 0xFF \<and> c mod 256 \<in> {0xFF, 0xFE})"
      by blast+
    then show ?thesis
      unfolding bytes
      by (simp add: INVALID_CASES_def BYTE_TYPE_def Let_def unicode_byte_type_def byte_eq [OF hi] byte_eq [OF lo] lead_bytes_def)
  qed
qed

lemma utf16_accepts2:
  assumes "0x10000 \<le> c" "c < 0x110000"
  shows "INVALID_CASES little2_encoding (unit_bytes (XmlUtf16Encode c) @ rest) = Some (Break rest)"
proof -
  let ?v = "(c - 0x10000) div 1024 + 0xD800"
  let ?w = "(c - 0x10000) mod 1024 + 0xDC00"
  have v: "0 \<le> ?v" "?v < 0x10000" "0xD8 \<le> ?v div 256" "?v div 256 \<le> 0xDB" using assms by auto
  have bytes: "unit_bytes (XmlUtf16Encode c) @ rest =
    ucast (word_of_int ?v :: u16) # word_of_int (?v div 256) # ucast (word_of_int ?w :: u16) #
      ucast (drop_bit 8 (word_of_int ?w :: u16)) # rest"
    using assms unit_halves(2) [OF v(1,2)]
    by (simp add: XmlUtf16Encode_def unit_bytes_def drop_bit_eq_div and_1023 del: of_int_add)
  have hi: "0 \<le> ?v div 256" "?v div 256 < 256" using v by auto
  have type: "BYTE_TYPE little2_encoding (a # word_of_int (?v div 256) # p) = BT_LEAD4" for a p
    using v(3,4) by (auto simp: BYTE_TYPE_def unicode_byte_type_def byte_eq [OF hi] simp del: of_int_add)
  show ?thesis
    unfolding bytes
    by (simp add: INVALID_CASES_def Let_def type lead_bytes_def INVALID_LEAD_CASE_def IS_INVALID_CHAR_def call_test_def
        del: of_int_add)
qed


section \<open>The five predefined entities\<close>

definition predefined :: "(byte list \<times> int) list" where
  "predefined = [(ascii ''lt'', 0x3C), (ascii ''gt'', 0x3E), (ascii ''amp'', 0x26), (ascii ''quot'', 0x22), (ascii ''apos'', 0x27)]"

lemma name_chars_spell: "name_chars enc (spell (family enc) cs) = length cs"
  by (cases "family enc"; induction cs) (auto simp: name_chars_def MINBPC_def)

lemma chars_are_spell:
  "length cs = length ds \<Longrightarrow> chars_are enc (spell (family enc) cs) ds \<longleftrightarrow> cs = ds"
proof (induction ds arbitrary: cs)
  case (Cons d ds)
  then obtain c cs' where "cs = c # cs'" by (cases cs) auto
  with Cons show ?case by (simp add: spell_char_read)
qed simp

lemma predefined_names:
  "predefined = [([0x6C, 0x74], 0x3C), ([0x67, 0x74], 0x3E), ([0x61, 0x6D, 0x70], 0x26), ([0x71, 0x75, 0x6F, 0x74], 0x22),
    ([0x61, 0x70, 0x6F, 0x73], 0x27)]"
  "ascii ''amp'' = [0x61, 0x6D, 0x70]" "ascii ''uot'' = [0x75, 0x6F, 0x74]" "ascii ''pos'' = [0x70, 0x6F, 0x73]"
  by code_simp+

lemma predefinedEntityName_spell:
  "predefinedEntityName enc (spell (family enc) name) = (case map_of predefined name of Some c \<Rightarrow> c | None \<Rightarrow> 0)"
proof -
  note spelled = name_chars_spell [of enc name] chars_are_spell [of name "[0x61, 0x6D, 0x70]" enc]
  have "length name = 2 \<Longrightarrow> \<exists>a b. name = [a, b]" by (auto simp: numeral_2_eq_2 length_Suc_conv)
  moreover have "length name = 4 \<Longrightarrow> \<exists>a cs. name = a # cs \<and> length cs = 3" by (cases name) auto
  ultimately consider (two) a b where "name = [a, b]" | (three) "length name = 3" | (four) a cs where "name = a # cs" "length cs = 3"
    | (none) "length name \<notin> {2, 3, 4}"
    by blast
  then show ?thesis
  proof cases
    case two
    with spelled(1) show ?thesis
      using spell_char_read(2) [of enc b "[]"]
      by (simp add: predefinedEntityName_def predefined_names Let_def spell_char_read word_uint_eq_iff)
  next
    case three
    with spelled show ?thesis by (auto simp: predefinedEntityName_def predefined_names)
  next
    case four
    have "uint a = 0x71 \<longleftrightarrow> a = 0x71" "uint a = 0x61 \<longleftrightarrow> a = 0x61" by (simp_all add: word_uint_eq_iff)
    moreover have "length name = 4" "cs \<noteq> [0x74]" "cs \<noteq> [0x6D, 0x70]" using four by auto
    moreover note chars_are_spell [of cs "[0x75, 0x6F, 0x74]" enc] chars_are_spell [of cs "[0x70, 0x6F, 0x73]" enc]
    ultimately show ?thesis
      using spelled(1) four by (simp add: predefinedEntityName_def predefined_names Let_def spell_char_read)
  next
    case none
    with spelled(1) show ?thesis by (auto simp: predefinedEntityName_def predefined_names Let_def)
  qed
qed
end
