(* ===== verification/Xml_Position.thy ===== *)
theory Xml_Position
  imports Xml_Char
begin

text \<open>
  The line and column of a place in the input (\<open>updatePosition\<close> of \<open>xmltok_impl.c\<close>). The numbers wrap around at 64
  bits.
\<close>

lemma has_char_length: "HAS_CHAR enc p \<Longrightarrow> 0 < length p \<and> MINBPC enc \<le> length p"
  using MINBPC_pos [of enc] by (cases p) (auto simp: HAS_CHAR_def HAS_CHARS_def)

lemma drop_shorter: "HAS_CHAR enc p \<Longrightarrow> 0 < n \<Longrightarrow> length (drop n p) < length p"
  by (auto simp: diff_less dest: has_char_length)

section \<open>Positions\<close>

record POSITION =
  lineNumber :: u64
  columnNumber :: u64

function updatePosition :: "ENCODING \<Rightarrow> byte list \<Rightarrow> POSITION \<Rightarrow> POSITION" where
  "updatePosition enc ptr pos =
    (if \<not> HAS_CHAR enc ptr then pos
     else let t = BYTE_TYPE enc ptr in
       if t = BT_LF then updatePosition enc (adv enc ptr) (pos\<lparr>columnNumber := 0, lineNumber := lineNumber pos + 1\<rparr>)
       else if t = BT_CR then
         let ptr = adv enc ptr;
             ptr = (if HAS_CHAR enc ptr \<and> BYTE_TYPE enc ptr = BT_LF then adv enc ptr else ptr)
         in updatePosition enc ptr (pos\<lparr>lineNumber := lineNumber pos + 1, columnNumber := 0\<rparr>)
       else updatePosition enc (drop (char_bytes enc ptr) ptr) (pos\<lparr>columnNumber := columnNumber pos + 1\<rparr>))"
  by pat_completeness auto
termination
  by (relation "measure (\<lambda>(enc, ptr, pos). length ptr)")
    (auto simp: adv_def dest: has_char_length)

declare updatePosition.simps [simp del]

text \<open>The types of the characters of a text, and the text after the line ends have been normalized.\<close>

function char_types :: "ENCODING \<Rightarrow> byte list \<Rightarrow> BT list" where
  "char_types enc p =
    (if \<not> HAS_CHAR enc p then [] else BYTE_TYPE enc p # char_types enc (drop (char_bytes enc p) p))"
  by pat_completeness auto
termination
  by (relation "measure (\<lambda>(enc, p). length p)") (auto dest: has_char_length)

declare char_types.simps [simp del]

primrec line_ends :: "BT list \<Rightarrow> BT list" where
  "line_ends [] = []"
| "line_ends (t # ts) =
    (if t = BT_CR then if ts \<noteq> [] \<and> hd ts = BT_LF then line_ends ts else BT_LF # line_ends ts
     else t # line_ends ts)"

definition moved :: "BT list \<Rightarrow> POSITION \<Rightarrow> POSITION" where
  "moved ts pos = \<lparr>lineNumber = lineNumber pos + of_nat (count_list ts BT_LF),
    columnNumber = of_nat (length (takeWhile (\<lambda>t. t \<noteq> BT_LF) (rev ts))) + (if BT_LF \<in> set ts then 0 else columnNumber pos)\<rparr>"

lemma moved_Nil [simp]: "moved [] pos = pos"
  by (simp add: moved_def)

lemma moved_append: "moved (ts @ us) pos = moved us (moved ts pos)"
proof -
  have "takeWhile (\<lambda>t. t \<noteq> BT_LF) (rev us @ rev ts) =
    (if BT_LF \<in> set us then takeWhile (\<lambda>t. t \<noteq> BT_LF) (rev us) else rev us @ takeWhile (\<lambda>t. t \<noteq> BT_LF) (rev ts))"
    by (auto simp: takeWhile_append takeWhile_eq_all_conv)
  moreover have "BT_LF \<notin> set us \<Longrightarrow> length (takeWhile (\<lambda>t. t \<noteq> BT_LF) (rev us)) = length us"
    by (subst takeWhile_eq_all_conv [THEN iffD2]) auto
  ultimately show ?thesis by (simp add: moved_def)
qed

lemma position_update:
  "pos\<lparr>lineNumber := l, columnNumber := c\<rparr> = \<lparr>lineNumber = l, columnNumber = c\<rparr>"
  "pos\<lparr>columnNumber := c, lineNumber := l\<rparr> = \<lparr>lineNumber = l, columnNumber = c\<rparr>"
  by simp_all

lemma moved_one:
  "moved [BT_LF] pos = \<lparr>lineNumber = lineNumber pos + 1, columnNumber = 0\<rparr>"
  "t \<noteq> BT_LF \<Longrightarrow> moved [t] pos = pos\<lparr>columnNumber := columnNumber pos + 1\<rparr>"
  by (simp_all add: moved_def)

lemma line_ends_step:
  "t \<noteq> BT_CR \<Longrightarrow> moved (line_ends (t # ts)) pos = moved (line_ends ts) (moved [t] pos)"
  "moved (line_ends (BT_CR # BT_LF # ts)) pos = moved (line_ends ts) (moved [BT_LF] pos)"
  "\<not> (ts \<noteq> [] \<and> hd ts = BT_LF) \<Longrightarrow> moved (line_ends (BT_CR # ts)) pos = moved (line_ends ts) (moved [BT_LF] pos)"
  using moved_append [of "[t]" "line_ends ts"] moved_append [of "[BT_LF]" "line_ends ts"] by auto

lemma updatePosition_eq: "updatePosition enc p pos = moved (line_ends (char_types enc p)) pos"
proof (induction "length p" arbitrary: p pos rule: less_induct)
  case less
  show ?case
  proof (cases "HAS_CHAR enc p")
    case True
    let ?q = "drop (char_bytes enc p) p"
    have types: "char_types enc p = BYTE_TYPE enc p # char_types enc ?q" using True by (simp add: char_types.simps [of enc p])
    have IH: "updatePosition enc ?q x = moved (line_ends (char_types enc ?q)) x" for x
      by (rule less.hyps [OF drop_shorter [OF True char_bytes_pos]])
    show ?thesis
    proof (cases "BYTE_TYPE enc p = BT_CR")
      case cr: True
      then have q: "?q = adv enc p" by (simp add: adv_def char_bytes_def)
      show ?thesis
      proof (cases "HAS_CHAR enc (adv enc p) \<and> BYTE_TYPE enc (adv enc p) = BT_LF")
        case lf: True
        let ?r = "adv enc (adv enc p)"
        have "drop (char_bytes enc (adv enc p)) (adv enc p) = ?r"
          using lf by (simp add: char_bytes_def adv_def [of enc "adv enc p"])
        then have "char_types enc (adv enc p) = BT_LF # char_types enc ?r"
          using lf by (simp add: char_types.simps [of enc "adv enc p"])
        moreover have "length ?r < length p" using adv_shorter [OF True] by (simp add: adv_def)
        ultimately show ?thesis
          using less.hyps [of ?r] True cr lf
          by (simp add: updatePosition.simps [of enc p] types q line_ends_step moved_one position_update del: line_ends.simps)
      next
        case False
        then have "\<not> (char_types enc (adv enc p) \<noteq> [] \<and> hd (char_types enc (adv enc p)) = BT_LF)"
          by (auto simp: char_types.simps [of enc "adv enc p"])
        with False True cr IH show ?thesis
          by (auto simp: updatePosition.simps [of enc p] types q line_ends_step moved_one position_update simp del: line_ends.simps)
      qed
    next
      case False
      then have lf: "BYTE_TYPE enc p = BT_LF \<Longrightarrow> ?q = adv enc p" by (simp add: adv_def char_bytes_def)
      from False True IH show ?thesis
        by (cases "BYTE_TYPE enc p = BT_LF")
          (simp_all add: updatePosition.simps [of enc p] types line_ends_step moved_one position_update lf del: line_ends.simps)
    qed
  qed (simp add: updatePosition.simps char_types.simps)
qed

text \<open>A text may be passed in two pieces, unless they tear apart a line end of two characters.\<close>

lemma char_types_append: "whole_text enc x \<Longrightarrow> char_types enc (x @ y) = char_types enc x @ char_types enc y"
proof (induction "length x" arbitrary: x rule: less_induct)
  case less
  show ?case
  proof (cases "x = []")
    case False
    with less.prems have x: "HAS_CHAR enc x" "char_bytes enc x \<le> length x" "whole_text enc (drop (char_bytes enc x) x)"
      by (simp_all add: whole_text.simps [of enc x] split: if_splits)
    have len: "MINBPC enc \<le> length x" using has_char_length [OF x(1)] by simp
    have "HAS_CHAR enc (x @ y)" using x(1) by (simp add: HAS_CHAR_def HAS_CHARS_def)
    with x less.hyps [OF drop_shorter [OF x(1) char_bytes_pos] x(3)] show ?thesis
      by (simp add: char_types.simps [of enc "x @ y"] char_types.simps [of enc x] char_bytes_local [OF len] BYTE_TYPE_local [OF len])
  qed (use MINBPC_pos [of enc] in \<open>simp add: char_types.simps [of enc "[]"] HAS_CHAR_def HAS_CHARS_def\<close>)
qed

lemma line_ends_append:
  "\<not> (ts \<noteq> [] \<and> last ts = BT_CR \<and> us \<noteq> [] \<and> hd us = BT_LF) \<Longrightarrow> line_ends (ts @ us) = line_ends ts @ line_ends us"
proof (induction ts)
  case (Cons t ts)
  then show ?case by (cases "ts = []") auto
qed simp

lemma updatePosition_pieces:
  assumes "whole_text enc x" "x = [] \<or> y = [] \<or> last (char_types enc x) \<noteq> BT_CR \<or> BYTE_TYPE enc y \<noteq> BT_LF"
  shows "updatePosition enc (x @ y) pos = updatePosition enc y (updatePosition enc x pos)"
proof -
  have "hd (char_types enc y) = BYTE_TYPE enc y" if "char_types enc y \<noteq> []"
    using that by (auto simp: char_types.simps [of enc y] split: if_splits)
  moreover have "char_types enc [] = []"
    using MINBPC_pos [of enc] by (simp add: char_types.simps [of enc "[]"] HAS_CHAR_def HAS_CHARS_def)
  ultimately have "\<not> (char_types enc x \<noteq> [] \<and> last (char_types enc x) = BT_CR \<and> char_types enc y \<noteq> [] \<and>
      hd (char_types enc y) = BT_LF)"
    using assms(2) by auto
  from line_ends_append [OF this] show ?thesis
    by (simp add: updatePosition_eq char_types_append [OF assms(1)] moved_append)
qed

end
