(* ===== verification/Xml_Atts.thy ===== *)
theory Xml_Atts
  imports Xml_Position
begin

text \<open>
  The attributes of a start tag (\<open>getAtts\<close>), the length of a name and white space (the end of \<open>xmltok_impl.c\<close>). These
  operations take a text that a tokenizer has accepted and do not test for the end of the buffer: \<open>None\<close> is a read past the
  end. A place is the text from there on.
\<close>

section \<open>Names and white space\<close>

function nameLength_loop :: "ENCODING \<Rightarrow> nat \<Rightarrow> byte list \<Rightarrow> nat option" where
  "nameLength_loop enc n ptr =
    (if \<not> HAS_CHAR enc ptr then None
     else let t = BYTE_TYPE enc ptr in
       if 0 < lead_bytes t \<or> t \<in> {BT_NONASCII, BT_NMSTRT, BT_COLON, BT_HEX, BT_DIGIT, BT_NAME, BT_MINUS} then
         nameLength_loop enc (n + char_bytes enc ptr) (drop (char_bytes enc ptr) ptr)
       else Some n)"
  by pat_completeness auto
termination
  by (relation "measure (\<lambda>(enc, n, ptr). length ptr)") (auto dest: has_char_length)

declare nameLength_loop.simps [simp del]

definition nameLength :: "ENCODING \<Rightarrow> byte list \<Rightarrow> nat option" where
  "nameLength enc ptr = nameLength_loop enc 0 ptr"

function skipS :: "ENCODING \<Rightarrow> byte list \<Rightarrow> byte list option" where
  "skipS enc ptr =
    (if \<not> HAS_CHAR enc ptr then None
     else if BYTE_TYPE enc ptr \<in> {BT_LF, BT_CR, BT_S} then skipS enc (adv enc ptr)
     else Some ptr)"
  by pat_completeness auto
termination
  by (relation "measure (\<lambda>(enc, ptr). length ptr)") (auto dest: adv_shorter)

declare skipS.simps [simp del]

section \<open>Attributes\<close>

record ATTRIBUTE =
  att_name :: "byte list"
  valuePtr :: "byte list"
  valueEnd :: "byte list"
  normalized :: bool

datatype att_state = Other | InName | InValue

record att_scan =
  scan_state :: att_state
  nAtts :: nat
  opened :: BT
  scan_atts :: "ATTRIBUTE list"

text \<open>An assignment to \<open>atts[nAtts]\<close>, which is done only when there is room.\<close>

definition set_att :: "nat \<Rightarrow> (ATTRIBUTE \<Rightarrow> ATTRIBUTE) \<Rightarrow> att_scan \<Rightarrow> att_scan" where
  "set_att attsMax f s =
    (if nAtts s < attsMax then s\<lparr>scan_atts := (scan_atts s)[nAtts s := f (scan_atts s ! nAtts s)]\<rparr> else s)"

definition START_NAME :: "nat \<Rightarrow> byte list \<Rightarrow> att_scan \<Rightarrow> att_scan" where
  "START_NAME attsMax ptr s =
    (if scan_state s = Other then
       (set_att attsMax (\<lambda>a. a\<lparr>att_name := ptr, normalized := True\<rparr>) s)\<lparr>scan_state := InName\<rparr>
     else s)"

definition quote_case :: "ENCODING \<Rightarrow> nat \<Rightarrow> BT \<Rightarrow> byte list \<Rightarrow> att_scan \<Rightarrow> att_scan" where
  "quote_case enc attsMax t ptr s =
    (if scan_state s \<noteq> InValue then
       (set_att attsMax (\<lambda>a. a\<lparr>valuePtr := adv enc ptr\<rparr>) s)\<lparr>scan_state := InValue, opened := t\<rparr>
     else if opened s = t then
       let s = set_att attsMax (\<lambda>a. a\<lparr>valueEnd := ptr\<rparr>) (s\<lparr>scan_state := Other\<rparr>) in s\<lparr>nAtts := nAtts s + 1\<rparr>
     else s)"

definition not_normalized :: "nat \<Rightarrow> att_scan \<Rightarrow> att_scan" where
  "not_normalized attsMax s = set_att attsMax (\<lambda>a. a\<lparr>normalized := False\<rparr>) s"

definition space_case :: "ENCODING \<Rightarrow> nat \<Rightarrow> byte list \<Rightarrow> att_scan \<Rightarrow> att_scan option" where
  "space_case enc attsMax ptr s =
    (if scan_state s = InName then Some (s\<lparr>scan_state := Other\<rparr>)
     else if scan_state s = InValue \<and> nAtts s < attsMax \<and> normalized (scan_atts s ! nAtts s) then
       if ptr = valuePtr (scan_atts s ! nAtts s) \<or> BYTE_TO_ASCII enc ptr \<noteq> 0x20 then Some (not_normalized attsMax s)
       else if \<not> HAS_CHAR enc (adv enc ptr) then None
       else if BYTE_TO_ASCII enc (adv enc ptr) = 0x20 \<or> BYTE_TYPE enc (adv enc ptr) = opened s then
         Some (not_normalized attsMax s)
       else Some s
     else Some s)"

definition newline_case :: "nat \<Rightarrow> att_scan \<Rightarrow> att_scan" where
  "newline_case attsMax s =
    (if scan_state s = InName then s\<lparr>scan_state := Other\<rparr>
     else if scan_state s = InValue then not_normalized attsMax s
     else s)"

definition att_step :: "ENCODING \<Rightarrow> nat \<Rightarrow> byte list \<Rightarrow> att_scan \<Rightarrow> att_scan option" where
  "att_step enc attsMax ptr s =
    (let t = BYTE_TYPE enc ptr in
     if 0 < lead_bytes t \<or> t \<in> {BT_NONASCII, BT_NMSTRT, BT_HEX} then Some (START_NAME attsMax ptr s)
     else if t = BT_QUOT \<or> t = BT_APOS then Some (quote_case enc attsMax t ptr s)
     else if t = BT_AMP then Some (not_normalized attsMax s)
     else if t = BT_S then space_case enc attsMax ptr s
     else if t = BT_CR \<or> t = BT_LF then Some (newline_case attsMax s)
     else Some s)"

function getAtts_loop :: "ENCODING \<Rightarrow> nat \<Rightarrow> att_scan \<Rightarrow> byte list \<Rightarrow> (nat \<times> ATTRIBUTE list) option" where
  "getAtts_loop enc attsMax s ptr =
    (if \<not> HAS_CHAR enc ptr then None
     else if BYTE_TYPE enc ptr \<in> {BT_GT, BT_SOL} \<and> scan_state s \<noteq> InValue then Some (nAtts s, scan_atts s)
     else case att_step enc attsMax ptr s of
       None \<Rightarrow> None
     | Some s' \<Rightarrow> getAtts_loop enc attsMax s' (drop (char_bytes enc ptr) ptr))"
  by pat_completeness auto
termination
  by (relation "measure (\<lambda>(enc, attsMax, s, ptr). length ptr)") (auto dest: has_char_length)

declare getAtts_loop.simps [simp del]

definition getAtts :: "ENCODING \<Rightarrow> byte list \<Rightarrow> nat \<Rightarrow> ATTRIBUTE list \<Rightarrow> (nat \<times> ATTRIBUTE list) option" where
  "getAtts enc ptr attsMax atts =
    getAtts_loop enc attsMax \<lparr>scan_state = InName, nAtts = 0, opened = BT_NONXML, scan_atts = atts\<rparr> (adv enc ptr)"

section \<open>The course of a tag\<close>

text \<open>
  Where in a tag a place is: in the name of the element, before the name of an attribute, in that name, between the
  name and the value, in the value.
\<close>

datatype tag_mode = Elem | Gap | Att | Eq | Val BT

definition name_type :: "BT \<Rightarrow> bool" where
  "name_type t \<longleftrightarrow> 0 < lead_bytes t \<or> t \<in> {BT_NONASCII, BT_NMSTRT, BT_HEX}"

definition mode_next :: "tag_mode \<Rightarrow> BT \<Rightarrow> tag_mode option" where
  "mode_next m t =
    (case m of
       Val open \<Rightarrow> Some (if t = open then Gap else m)
     | _ \<Rightarrow>
       if name_type t then Some (if m = Elem then Elem else Att)
       else if t = BT_QUOT \<or> t = BT_APOS then if m = Att \<or> m = Eq then Some (Val t) else None
       else if t \<in> set BT_SPACES then Some (if m = Elem then Gap else if m = Att then Eq else m)
       else if t = BT_GT \<or> t = BT_SOL \<or> t = BT_AMP then None
       else Some m)"

definition in_value :: "tag_mode \<Rightarrow> bool" where
  "in_value m \<longleftrightarrow> m = Val BT_QUOT \<or> m = Val BT_APOS"

function tag_end :: "ENCODING \<Rightarrow> tag_mode \<Rightarrow> byte list \<Rightarrow> byte list option" where
  "tag_end enc m p =
    (if \<not> HAS_CHAR enc p then None
     else if BYTE_TYPE enc p \<in> {BT_GT, BT_SOL} \<and> \<not> in_value m then Some p
     else case mode_next m (BYTE_TYPE enc p) of
       None \<Rightarrow> None
     | Some m' \<Rightarrow> tag_end enc m' (drop (char_bytes enc p) p))"
  by pat_completeness auto
termination
  by (relation "measure (\<lambda>(enc, m, p). length p)") (auto dest: has_char_length)

declare tag_end.simps [simp del]

section \<open>Places in a text\<close>

lemma steps_length: "steps enc p q \<Longrightarrow> length q \<le> length p"
  by (auto simp: steps_def)

lemma steps_suffix: "steps enc p q \<Longrightarrow> suffix q p"
  by (auto simp: steps_def suffix_def)

text \<open>The characters of a text have their places: one comes before the other.\<close>

lemma steps_first:
  assumes "steps enc p q" "p \<noteq> q"
  shows "HAS_CHAR enc p \<and> char_bytes enc p \<le> length p \<and> steps enc (drop (char_bytes enc p) p) q"
proof -
  obtain x where x: "p = x @ q" "whole_text enc x" using assms(1) by (auto simp: steps_def)
  with assms(2) have *: "HAS_CHAR enc x" "char_bytes enc x \<le> length x" "whole_text enc (drop (char_bytes enc x) x)"
    by (auto simp: whole_text.simps [of enc x] split: if_splits)
  then have "char_bytes enc (x @ q) = char_bytes enc x"
    by (intro char_bytes_local) (simp add: HAS_CHAR_def HAS_CHARS_def)
  with * x(1) show ?thesis
    by (auto simp: steps_def HAS_CHAR_def HAS_CHARS_def)
qed

lemma steps_linear: "steps enc p q \<Longrightarrow> steps enc p r \<Longrightarrow> steps enc q r \<or> steps enc r q"
proof (induction "length p" arbitrary: p rule: less_induct)
  case less
  show ?case
  proof (cases "p = q \<or> p = r")
    case False
    with steps_first [OF less.prems(1)] steps_first [OF less.prems(2)]
    have *: "HAS_CHAR enc p" "steps enc (drop (char_bytes enc p) p) q" "steps enc (drop (char_bytes enc p) p) r" by auto
    from less.hyps [OF drop_shorter [OF *(1) char_bytes_pos] *(2,3)] show ?thesis .
  qed (use less.prems in auto)
qed

definition between :: "ENCODING \<Rightarrow> byte list \<Rightarrow> byte list \<Rightarrow> byte list \<Rightarrow> bool" where
  "between enc p q r \<longleftrightarrow> steps enc p r \<and> steps enc r q \<and> r \<noteq> q"

lemma between_next:
  assumes "steps enc p q" "HAS_CHAR enc q" "char_bytes enc q \<le> length q"
  shows "between enc p (drop (char_bytes enc q) q) r \<longleftrightarrow> between enc p q r \<or> r = q"
proof -
  let ?q = "drop (char_bytes enc q) q"
  have q: "steps enc q ?q" by (rule steps_char [OF refl assms(3)])
  have less: "length ?q < length q" by (rule drop_shorter [OF assms(2) char_bytes_pos])
  show ?thesis
  proof
    assume r: "between enc p ?q r"
    then have "steps enc q r \<or> steps enc r q" using steps_linear [OF assms(1)] by (auto simp: between_def)
    moreover have "r = q" if "steps enc q r"
    proof (rule ccontr)
      assume "r \<noteq> q"
      with steps_first [OF that] have "suffix r ?q" by (auto dest: steps_suffix)
      moreover have "suffix ?q r" using r by (auto simp: between_def dest: steps_suffix)
      ultimately show False using r by (auto simp: between_def dest: suffix_order.antisym)
    qed
    ultimately show "between enc p q r \<or> r = q" using r by (auto simp: between_def)
  next
    assume "between enc p q r \<or> r = q"
    moreover have "?q \<noteq> q" using less by (metis less_irrefl)
    ultimately show "between enc p ?q r"
      using q less assms(1) by (auto simp: between_def dest: steps_length intro: steps_trans)
  qed
qed

section \<open>What the attributes are\<close>

text \<open>
  A value that is already as normalization would leave it: no references and line breaks, and no white space but
  single blanks between other characters.
\<close>

definition plain_value :: "ENCODING \<Rightarrow> byte list \<Rightarrow> byte list \<Rightarrow> bool" where
  "plain_value enc p q \<longleftrightarrow>
    (\<forall>r. between enc p q r \<longrightarrow>
      BYTE_TYPE enc r \<notin> {BT_AMP, BT_CR, BT_LF} \<and>
      (BYTE_TYPE enc r = BT_S \<longrightarrow>
        r \<noteq> p \<and> BYTE_TO_ASCII enc r = 0x20 \<and> adv enc r \<noteq> q \<and> BYTE_TO_ASCII enc (adv enc r) \<noteq> 0x20))"

text \<open>The value at \<open>v\<close> follows a quote behind the name at \<open>n\<close>.\<close>

definition quoted :: "ENCODING \<Rightarrow> byte list \<Rightarrow> byte list \<Rightarrow> bool" where
  "quoted enc n v \<longleftrightarrow> (\<exists>r. steps enc n r \<and> HAS_CHAR enc r \<and> BYTE_TYPE enc r \<in> {BT_QUOT, BT_APOS} \<and> v = adv enc r)"

text \<open>An attribute of the tag \<open>tag\<close> whose last character is at \<open>ptr\<close>.\<close>

definition att_in_tag :: "ENCODING \<Rightarrow> byte list \<Rightarrow> byte list \<Rightarrow> ATTRIBUTE \<Rightarrow> bool" where
  "att_in_tag enc tag ptr a \<longleftrightarrow>
    suffix (att_name a) tag \<and> quoted enc (att_name a) (valuePtr a) \<and> steps enc (valuePtr a) (valueEnd a) \<and> suffix ptr (valueEnd a) \<and>
    (normalized a \<longleftrightarrow> plain_value enc (valuePtr a) (valueEnd a))"

text \<open>While the value is read, the flag has seen the characters before \<open>ptr\<close>.\<close>

definition plain_so_far :: "ENCODING \<Rightarrow> BT \<Rightarrow> byte list \<Rightarrow> byte list \<Rightarrow> bool" where
  "plain_so_far enc open p q \<longleftrightarrow>
    (\<forall>r. between enc p q r \<longrightarrow>
      BYTE_TYPE enc r \<notin> {BT_AMP, BT_CR, BT_LF} \<and>
      (BYTE_TYPE enc r = BT_S \<longrightarrow> r \<noteq> p \<and> BYTE_TO_ASCII enc r = 0x20 \<and>
        BYTE_TYPE enc (adv enc r) \<noteq> open \<and> BYTE_TO_ASCII enc (adv enc r) \<noteq> 0x20))"

definition no_quote :: "ENCODING \<Rightarrow> BT \<Rightarrow> byte list \<Rightarrow> byte list \<Rightarrow> bool" where
  "no_quote enc open p q \<longleftrightarrow> (\<forall>r. between enc p q r \<longrightarrow> BYTE_TYPE enc r \<noteq> open)"

lemma plain_closed:
  assumes "plain_so_far enc open p q = b" "no_quote enc open p q" "BYTE_TYPE enc q = open" "steps enc p q"
  shows "plain_value enc p q = b"
proof -
  have "BYTE_TYPE enc (adv enc r) = open \<longleftrightarrow> adv enc r = q" if r: "between enc p q r" "BYTE_TYPE enc r = BT_S" for r
  proof (cases "adv enc r = q")
    case False
    have "char_bytes enc r = MINBPC enc" using r(2) by (simp add: char_bytes_def)
    with steps_first [of enc r q] r(1) have "steps enc (adv enc r) q" "steps enc r (adv enc r)"
      using steps_char [of "MINBPC enc" enc r] by (auto simp: between_def adv_def)
    with r(1) False have "between enc p q (adv enc r)" by (auto simp: between_def intro: steps_trans)
    with assms(2) False show ?thesis by (auto simp: no_quote_def)
  qed (use assms(3) in simp)
  then show ?thesis using assms(1) by (auto simp: plain_value_def plain_so_far_def)
qed

definition mode_state :: "tag_mode \<Rightarrow> att_state" where
  "mode_state m = (case m of Elem \<Rightarrow> InName | Att \<Rightarrow> InName | Val _ \<Rightarrow> InValue | _ \<Rightarrow> Other)"

text \<open>The attribute that is being read.\<close>

definition att_open :: "ENCODING \<Rightarrow> byte list \<Rightarrow> tag_mode \<Rightarrow> byte list \<Rightarrow> ATTRIBUTE \<Rightarrow> bool" where
  "att_open enc tag m ptr a \<longleftrightarrow>
    (m \<in> {Att, Eq} \<longrightarrow> suffix (att_name a) tag \<and> steps enc (att_name a) ptr \<and> normalized a) \<and>
    (\<forall>open. m = Val open \<longrightarrow> suffix (att_name a) tag \<and> quoted enc (att_name a) (valuePtr a) \<and> steps enc (valuePtr a) ptr \<and>
      no_quote enc open (valuePtr a) ptr \<and> (normalized a \<longleftrightarrow> plain_so_far enc open (valuePtr a) ptr))"

definition scan_inv :: "ENCODING \<Rightarrow> nat \<Rightarrow> byte list \<Rightarrow> tag_mode \<Rightarrow> att_scan \<Rightarrow> byte list \<Rightarrow> bool" where
  "scan_inv enc attsMax tag m s ptr \<longleftrightarrow>
    scan_state s = mode_state m \<and> (\<forall>open. m = Val open \<longrightarrow> opened s = open \<and> in_value m) \<and> attsMax \<le> length (scan_atts s) \<and>
    suffix ptr tag \<and>
    (\<forall>i. i < nAtts s \<and> i < attsMax \<longrightarrow> att_in_tag enc tag ptr (scan_atts s ! i)) \<and>
    (nAtts s < attsMax \<longrightarrow> att_open enc tag m ptr (scan_atts s ! nAtts s))"

lemma att_in_tag_later: "att_in_tag enc tag p a \<Longrightarrow> suffix q p \<Longrightarrow> att_in_tag enc tag q a"
  by (auto simp: att_in_tag_def intro: suffix_order.trans)

lemma set_att_simps [simp]:
  "nAtts (set_att n f s) = nAtts s" "scan_state (set_att n f s) = scan_state s" "opened (set_att n f s) = opened s"
  "length (scan_atts (set_att n f s)) = length (scan_atts s)"
  "i \<noteq> nAtts s \<Longrightarrow> scan_atts (set_att n f s) ! i = scan_atts s ! i"
  "nAtts s < n \<Longrightarrow> n \<le> length (scan_atts s) \<Longrightarrow> scan_atts (set_att n f s) ! nAtts s = f (scan_atts s ! nAtts s)"
  by (auto simp: set_att_def)

lemma scan_inv_keep:
  assumes "scan_inv enc attsMax tag m s p" "suffix q p" "scan_state s' = mode_state m'" "nAtts s' = nAtts s"
    and "\<forall>open. m' = Val open \<longrightarrow> opened s' = open \<and> in_value m'" "length (scan_atts s') = length (scan_atts s)"
    and "\<forall>i < nAtts s. scan_atts s' ! i = scan_atts s ! i"
    and "nAtts s < attsMax \<Longrightarrow> att_open enc tag m' q (scan_atts s' ! nAtts s)"
  shows "scan_inv enc attsMax tag m' s' q"
  using assms by (auto simp: scan_inv_def intro: att_in_tag_later suffix_order.trans)

text \<open>One character of a value.\<close>

definition plain_char :: "ENCODING \<Rightarrow> BT \<Rightarrow> byte list \<Rightarrow> byte list \<Rightarrow> bool" where
  "plain_char enc open p r \<longleftrightarrow>
    BYTE_TYPE enc r \<notin> {BT_AMP, BT_CR, BT_LF} \<and>
      (BYTE_TYPE enc r = BT_S \<longrightarrow> r \<noteq> p \<and> BYTE_TO_ASCII enc r = 0x20 \<and>
        BYTE_TYPE enc (adv enc r) \<noteq> open \<and> BYTE_TO_ASCII enc (adv enc r) \<noteq> 0x20)"

lemma att_open_value:
  assumes "att_open enc tag (Val open) p a" "HAS_CHAR enc p" "char_bytes enc p \<le> length p" "BYTE_TYPE enc p \<noteq> open"
    and "a' = a\<lparr>normalized := normalized a \<and> plain_char enc open (valuePtr a) p\<rparr>"
  shows "att_open enc tag (Val open) (drop (char_bytes enc p) p) a'"
proof -
  let ?q = "drop (char_bytes enc p) p"
  have p: "steps enc (valuePtr a) p" using assms(1) by (simp add: att_open_def)
  note next_char = between_next [OF p assms(2,3)]
  have "steps enc (valuePtr a) ?q" using p steps_char [OF refl assms(3)] by (rule steps_trans)
  moreover have "no_quote enc open (valuePtr a) ?q" using assms(1,4) by (auto simp: att_open_def no_quote_def next_char)
  moreover have "plain_so_far enc open (valuePtr a) ?q \<longleftrightarrow>
    plain_so_far enc open (valuePtr a) p \<and> plain_char enc open (valuePtr a) p"
    by (auto simp: plain_so_far_def plain_char_def next_char)
  ultimately show ?thesis using assms(1,5) by (auto simp: att_open_def)
qed

lemma value_step:
  assumes "scan_inv enc attsMax tag (Val open) s p" "BYTE_TYPE enc p \<noteq> open"
    and "HAS_CHAR enc (drop (char_bytes enc p) p)"
  shows "\<exists>s'. att_step enc attsMax p s = Some s' \<and> scan_state s' = InValue \<and> nAtts s' = nAtts s \<and> opened s' = opened s \<and>
    length (scan_atts s') = length (scan_atts s) \<and> (\<forall>i. i \<noteq> nAtts s \<longrightarrow> scan_atts s' ! i = scan_atts s ! i) \<and>
    (nAtts s < attsMax \<longrightarrow> (let a = scan_atts s ! nAtts s in
      scan_atts s' ! nAtts s = a\<lparr>normalized := normalized a \<and> plain_char enc open (valuePtr a) p\<rparr>))"
proof -
  have s: "scan_state s = InValue" "opened s = open" "attsMax \<le> length (scan_atts s)"
    using assms(1) by (simp_all add: scan_inv_def mode_state_def)
  have next_char: "BYTE_TYPE enc p = BT_S \<Longrightarrow> HAS_CHAR enc (adv enc p)"
    using assms(3) by (simp add: char_bytes_def adv_def)
  have same: "a\<lparr>normalized := normalized a\<rparr> = a" "\<not> normalized a \<Longrightarrow> a\<lparr>normalized := False\<rparr> = a" for a :: ATTRIBUTE
    by simp_all
  show ?thesis
    using s assms(2) next_char
    by (auto simp: att_step_def START_NAME_def quote_case_def not_normalized_def space_case_def newline_case_def Let_def
        plain_char_def same split: if_splits)
qed

lemma value_char_inv:
  assumes "scan_inv enc attsMax tag (Val open) s p" "BYTE_TYPE enc p \<noteq> open"
    and "HAS_CHAR enc p" "char_bytes enc p \<le> length p" "HAS_CHAR enc (drop (char_bytes enc p) p)"
  shows "\<exists>s'. att_step enc attsMax p s = Some s' \<and> scan_inv enc attsMax tag (Val open) s' (drop (char_bytes enc p) p)"
proof -
  obtain s' where s': "att_step enc attsMax p s = Some s'" "scan_state s' = InValue" "nAtts s' = nAtts s" "opened s' = opened s"
    "length (scan_atts s') = length (scan_atts s)" "\<forall>i. i \<noteq> nAtts s \<longrightarrow> scan_atts s' ! i = scan_atts s ! i"
    "nAtts s < attsMax \<longrightarrow> (let a = scan_atts s ! nAtts s in
      scan_atts s' ! nAtts s = a\<lparr>normalized := normalized a \<and> plain_char enc open (valuePtr a) p\<rparr>)"
    using value_step [OF assms(1,2,5)] by blast
  have "scan_inv enc attsMax tag (Val open) s' (drop (char_bytes enc p) p)"
  proof (rule scan_inv_keep [OF assms(1)])
    assume room: "nAtts s < attsMax"
    then have "att_open enc tag (Val open) p (scan_atts s ! nAtts s)" using assms(1) by (simp add: scan_inv_def)
    then show "att_open enc tag (Val open) (drop (char_bytes enc p) p) (scan_atts s' ! nAtts s)"
      by (rule att_open_value [OF _ assms(3,4,2)]) (use s'(7) room in \<open>simp add: Let_def\<close>)
  qed (use s' assms(1) in \<open>auto simp: scan_inv_def mode_state_def suffix_drop\<close>)
  with s'(1) show ?thesis by blast
qed

text \<open>The closing quote.\<close>

lemma value_end_inv:
  assumes "scan_inv enc attsMax tag (Val open) s p" "BYTE_TYPE enc p = open"
  shows "\<exists>s'. att_step enc attsMax p s = Some s' \<and> scan_inv enc attsMax tag Gap s' (drop (char_bytes enc p) p)"
proof -
  let ?q = "drop (char_bytes enc p) p"
  define s' where "s' = quote_case enc attsMax open p s"
  have s: "scan_state s = InValue" "opened s = open" "open = BT_QUOT \<or> open = BT_APOS" "attsMax \<le> length (scan_atts s)" "suffix p tag"
    using assms(1) by (auto simp: scan_inv_def mode_state_def in_value_def)
  have step: "att_step enc attsMax p s = Some s'"
    using s(3) assms(2) by (auto simp: att_step_def s'_def)
  have next_att: "scan_state s' = Other" "nAtts s' = nAtts s + 1" "length (scan_atts s') = length (scan_atts s)"
    "\<And>i. i \<noteq> nAtts s \<Longrightarrow> scan_atts s' ! i = scan_atts s ! i"
    "nAtts s < attsMax \<Longrightarrow> scan_atts s' ! nAtts s = (scan_atts s ! nAtts s)\<lparr>valueEnd := p\<rparr>"
    using s(1,2,4) set_att_simps(6) [of "s\<lparr>scan_state := Other\<rparr>" attsMax "valueEnd_update (\<lambda>_. p)"]
    by (auto simp: s'_def quote_case_def Let_def)
  have closed: "att_in_tag enc tag ?q ((scan_atts s ! nAtts s)\<lparr>valueEnd := p\<rparr>)" if "nAtts s < attsMax"
  proof -
    let ?a = "scan_atts s ! nAtts s"
    have a: "suffix (att_name ?a) tag" "quoted enc (att_name ?a) (valuePtr ?a)" "steps enc (valuePtr ?a) p"
      "no_quote enc open (valuePtr ?a) p" "plain_so_far enc open (valuePtr ?a) p = normalized ?a"
      using assms(1) that by (simp_all add: scan_inv_def att_open_def)
    with plain_closed [OF a(5,4) assms(2) a(3)] show ?thesis by (simp add: att_in_tag_def suffix_drop)
  qed
  have "scan_inv enc attsMax tag Gap s' ?q"
    unfolding scan_inv_def
  proof (intro conjI allI impI)
    fix i
    assume i: "i < nAtts s' \<and> i < attsMax"
    show "att_in_tag enc tag ?q (scan_atts s' ! i)"
    proof (cases "i = nAtts s")
      case False
      with i next_att(2) have "att_in_tag enc tag p (scan_atts s ! i)" using assms(1) by (simp add: scan_inv_def)
      with False next_att(4) show ?thesis by (simp add: att_in_tag_later suffix_drop)
    qed (use i closed next_att(5) in simp)
  next
    show "suffix ?q tag" by (rule suffix_order.trans [OF suffix_drop s(5)])
  qed (use s next_att in \<open>auto simp: mode_state_def att_open_def\<close>)
  with step show ?thesis by blast
qed

lemma between_refl: "\<not> between enc p p r"
  by (auto simp: between_def dest!: steps_suffix intro: suffix_order.antisym)

text \<open>Outside of the values.\<close>

lemma markup_inv:
  assumes inv: "scan_inv enc attsMax tag m s p" "\<nexists>open. m = Val open" "mode_next m (BYTE_TYPE enc p) = Some m'"
    and "HAS_CHAR enc p" "char_bytes enc p \<le> length p"
  shows "\<exists>s'. att_step enc attsMax p s = Some s' \<and> scan_inv enc attsMax tag m' s' (drop (char_bytes enc p) p)"
proof -
  let ?q = "drop (char_bytes enc p) p" and ?t = "BYTE_TYPE enc p"
  have s: "scan_state s = mode_state m" "attsMax \<le> length (scan_atts s)" "suffix p tag"
    and att: "nAtts s < attsMax \<Longrightarrow> att_open enc tag m p (scan_atts s ! nAtts s)"
    using inv(1) by (simp_all add: scan_inv_def)
  have q: "suffix ?q p" by (rule suffix_drop)
  have onwards: "steps enc r ?q" if "steps enc r p" for r using that steps_char [OF refl assms(5)] by (rule steps_trans)
  consider (name) "name_type ?t" "m' = (if m = Elem then Elem else Att)"
    | (quote) "\<not> name_type ?t" "?t = BT_QUOT \<or> ?t = BT_APOS" "m = Att \<or> m = Eq" "m' = Val ?t"
    | (space) "?t \<in> set BT_SPACES" "m' = (if m = Elem then Gap else if m = Att then Eq else m)"
    | (rest) "\<not> name_type ?t" "?t \<notin> {BT_QUOT, BT_APOS, BT_AMP, BT_S, BT_CR, BT_LF}" "m' = m"
    using inv(2,3) by (cases m) (auto simp: mode_next_def BT_SPACES_def split: if_splits)
  then show ?thesis
  proof cases
    case name
    have "scan_inv enc attsMax tag m' (START_NAME attsMax p s) ?q"
      by (rule scan_inv_keep [OF inv(1) q])
        (use s name inv(2) att steps_char [OF refl assms(5)] onwards in
          \<open>cases m; auto simp: START_NAME_def mode_state_def att_open_def\<close>)+
    with name show ?thesis by (simp add: att_step_def name_type_def Let_def)
  next
    case quote
    have bytes: "?q = adv enc p" using quote(2) by (auto simp: adv_def char_bytes_def)
    let ?s = "quote_case enc attsMax ?t p s"
    have new: "scan_state ?s = InValue" "opened ?s = ?t" "nAtts ?s = nAtts s" "length (scan_atts ?s) = length (scan_atts s)"
      "\<And>i. i \<noteq> nAtts s \<Longrightarrow> scan_atts ?s ! i = scan_atts s ! i"
      "nAtts s < attsMax \<Longrightarrow> scan_atts ?s ! nAtts s = (scan_atts s ! nAtts s)\<lparr>valuePtr := ?q\<rparr>"
      using s quote(3) by (auto simp: quote_case_def mode_state_def bytes)
    have started: "att_open enc tag m' ?q (scan_atts ?s ! nAtts s)" if "nAtts s < attsMax"
      using att [OF that] new(6) [OF that] quote(2-4) assms(4) bytes
      by (auto simp: att_open_def no_quote_def plain_so_far_def between_refl quoted_def)
    have "scan_inv enc attsMax tag m' ?s ?q"
      by (rule scan_inv_keep [OF inv(1) q]) (use new quote started in \<open>auto simp: mode_state_def in_value_def\<close>)
    with quote show ?thesis by (simp add: att_step_def name_type_def Let_def)
  next
    case space
    have "scan_inv enc attsMax tag m' (s\<lparr>scan_state := mode_state m'\<rparr>) ?q"
      by (rule scan_inv_keep [OF inv(1) q])
        (use space inv(2) att onwards in \<open>cases m; auto simp: att_open_def\<close>)+
    moreover have "att_step enc attsMax p s = Some (s\<lparr>scan_state := mode_state m'\<rparr>)"
      using s(1) space inv(2)
      by (cases m) (auto simp: att_step_def space_case_def newline_case_def BT_SPACES_def mode_state_def)
    ultimately show ?thesis by blast
  next
    case rest
    have "scan_inv enc attsMax tag m' s ?q"
      by (rule scan_inv_keep [OF inv(1) q])
        (use s rest inv(2) att onwards in \<open>cases m; auto simp: att_open_def\<close>)+
    with rest show ?thesis by (simp add: att_step_def name_type_def Let_def)
  qed
qed

lemma att_step_inv:
  assumes "scan_inv enc attsMax tag m s p" "mode_next m (BYTE_TYPE enc p) = Some m'" "HAS_CHAR enc p"
    and "HAS_CHAR enc (drop (char_bytes enc p) p)"
  shows "\<exists>s'. att_step enc attsMax p s = Some s' \<and> scan_inv enc attsMax tag m' s' (drop (char_bytes enc p) p)"
proof -
  have bytes: "char_bytes enc p \<le> length p" using has_char_length [OF assms(4)] by simp
  show ?thesis
  proof (cases "\<exists>open. m = Val open")
    case True
    then obtain b where "m = Val b" ..
    with value_char_inv [of enc attsMax tag b s p] value_end_inv [of enc attsMax tag b s p] assms bytes
    show ?thesis by (auto simp: mode_next_def split: if_splits)
  qed (use markup_inv [OF assms(1) _ assms(2,3) bytes] in blast)
qed

lemma tag_end_has_char: "tag_end enc m p = Some e \<Longrightarrow> HAS_CHAR enc p"
  by (auto simp: tag_end.simps [of enc m p] split: if_splits)

lemma scan_inv_state: "scan_inv enc attsMax tag m s p \<Longrightarrow> scan_state s = InValue \<longleftrightarrow> in_value m"
  by (cases m) (auto simp: scan_inv_def mode_state_def in_value_def)

lemma getAtts_loop_inv:
  assumes "scan_inv enc attsMax tag m s p" "tag_end enc m p = Some e"
  shows "\<exists>n atts. getAtts_loop enc attsMax s p = Some (n, atts) \<and> length atts = length (scan_atts s) \<and>
    (\<forall>i. i < n \<and> i < attsMax \<longrightarrow> att_in_tag enc tag e (atts ! i))"
  using assms
proof (induction "length p" arbitrary: p m s rule: less_induct)
  case less
  have has: "HAS_CHAR enc p" by (rule tag_end_has_char [OF less.prems(2)])
  show ?case
  proof (cases "BYTE_TYPE enc p \<in> {BT_GT, BT_SOL} \<and> \<not> in_value m")
    case True
    then have "p = e" using less.prems(2) has by (simp add: tag_end.simps [of _ _ p])
    moreover have "getAtts_loop enc attsMax s p = Some (nAtts s, scan_atts s)"
      using True has scan_inv_state [OF less.prems(1)] by (simp add: getAtts_loop.simps [of _ _ _ p])
    ultimately show ?thesis using less.prems(1) by (simp add: scan_inv_def)
  next
    case False
    let ?q = "drop (char_bytes enc p) p"
    obtain m' where m': "mode_next m (BYTE_TYPE enc p) = Some m'" "tag_end enc m' ?q = Some e"
      using less.prems(2) False has by (auto simp: tag_end.simps [of enc m p] split: option.splits if_splits)
    obtain s' where s': "att_step enc attsMax p s = Some s'" "scan_inv enc attsMax tag m' s' ?q"
      using att_step_inv [OF less.prems(1) m'(1) has tag_end_has_char [OF m'(2)]] by blast
    have "length (scan_atts s') = length (scan_atts s)"
      using s'(1) by (auto simp: att_step_def START_NAME_def quote_case_def not_normalized_def space_case_def newline_case_def
          Let_def split: if_splits)
    with less.hyps [OF drop_shorter [OF has char_bytes_pos] s'(2) m'(2)] False has s'(1) scan_inv_state [OF less.prems(1)]
    show ?thesis by (auto simp: getAtts_loop.simps [of _ _ _ p])
  qed
qed

text \<open>The number of the attributes does not depend on the room for them.\<close>

definition same_course :: "att_scan \<Rightarrow> att_scan \<Rightarrow> bool" where
  "same_course s s' \<longleftrightarrow> scan_state s = scan_state s' \<and> nAtts s = nAtts s' \<and> opened s = opened s'"

lemma att_step_course:
  "same_course s s' \<Longrightarrow> att_step enc n p s = Some r \<Longrightarrow> att_step enc n' p s' = Some r' \<Longrightarrow> same_course r r'"
  by (auto simp: att_step_def START_NAME_def quote_case_def not_normalized_def space_case_def newline_case_def same_course_def
      Let_def split: if_splits)

lemma getAtts_loop_step:
  "getAtts_loop enc n s p = Some r \<Longrightarrow> \<not> (BYTE_TYPE enc p \<in> {BT_GT, BT_SOL} \<and> scan_state s \<noteq> InValue) \<Longrightarrow>
    \<exists>s'. att_step enc n p s = Some s' \<and> getAtts_loop enc n s' (drop (char_bytes enc p) p) = Some r"
  by (auto simp: getAtts_loop.simps [of _ _ _ p] split: if_splits option.splits)

lemma getAtts_loop_course:
  "same_course s s' \<Longrightarrow> getAtts_loop enc n s p = Some (k, atts) \<Longrightarrow> getAtts_loop enc n' s' p = Some (k', atts') \<Longrightarrow> k = k'"
proof (induction "length p" arbitrary: p s s' rule: less_induct)
  case less
  have has: "HAS_CHAR enc p" using less.prems(2) by (auto simp: getAtts_loop.simps [of _ _ _ p] split: if_splits)
  show ?case
  proof (cases "BYTE_TYPE enc p \<in> {BT_GT, BT_SOL} \<and> scan_state s \<noteq> InValue")
    case True
    with less.prems has show ?thesis by (auto simp: getAtts_loop.simps [of _ _ _ p] same_course_def)
  next
    case False
    then have "\<not> (BYTE_TYPE enc p \<in> {BT_GT, BT_SOL} \<and> scan_state s' \<noteq> InValue)" using less.prems(1) by (auto simp: same_course_def)
    with False getAtts_loop_step [OF less.prems(2)] getAtts_loop_step [OF less.prems(3)] obtain r r' where r: "att_step enc n p s = Some r" "att_step enc n' p s' = Some r'"
      "getAtts_loop enc n r (drop (char_bytes enc p) p) = Some (k, atts)"
      "getAtts_loop enc n' r' (drop (char_bytes enc p) p) = Some (k', atts')"
      by blast
    from less.hyps [OF drop_shorter [OF has char_bytes_pos] att_step_course [OF less.prems(1) r(1,2)] r(3,4)] show ?thesis .
  qed
qed

lemma getAtts_in_tag:
  assumes "tag_end enc Elem (adv enc p) = Some e"
  shows "\<exists>n. \<forall>attsMax atts. attsMax \<le> length atts \<longrightarrow>
    (\<exists>atts'. getAtts enc p attsMax atts = Some (n, atts') \<and> length atts' = length atts \<and>
      (\<forall>i. i < n \<and> i < attsMax \<longrightarrow> att_in_tag enc (adv enc p) e (atts' ! i)))"
proof -
  let ?s = "\<lambda>atts. \<lparr>scan_state = InName, nAtts = 0, opened = BT_NONXML, scan_atts = atts\<rparr>"
  have inv: "scan_inv enc attsMax (adv enc p) Elem (?s atts) (adv enc p)" if "attsMax \<le> length atts" for attsMax atts
    using that by (simp add: scan_inv_def mode_state_def att_open_def)
  have result: "\<exists>n atts'. getAtts enc p attsMax atts = Some (n, atts') \<and> length atts' = length atts \<and>
      (\<forall>i. i < n \<and> i < attsMax \<longrightarrow> att_in_tag enc (adv enc p) e (atts' ! i))" if "attsMax \<le> length atts" for attsMax atts
    using getAtts_loop_inv [OF inv [OF that] assms] by (simp add: getAtts_def)
  from result [of 0 "[]"] obtain n where n: "getAtts enc p 0 [] = Some (n, [])" by auto
  have course: "same_course (?s []) (?s atts)" for atts by (simp add: same_course_def)
  show ?thesis
    using result getAtts_loop_course [OF course] n unfolding getAtts_def by (metis (no_types, lifting))
qed

end
