(* ===== verification/Xml_Tag.thy ===== *)
theory Xml_Tag
  imports Xml_Atts
begin

text \<open>
  The scanner of start tags goes over a tag the way \<open>getAtts\<close> does: in the names, between them and in the values.
\<close>

section \<open>Conditions on what a scanner returns\<close>

text \<open>\<open>P\<close> holds where a scanner breaks off, and \<open>Q\<close> where a token ends.\<close>

definition post :: "(byte list \<Rightarrow> bool) \<Rightarrow> (byte list \<Rightarrow> bool) \<Rightarrow> outcome \<Rightarrow> bool" where
  "post P Q r \<longleftrightarrow> (\<forall>q. r = Break q \<longrightarrow> P q) \<and> (\<forall>t q. r = Return t (Some q) \<longrightarrow> 0 < t \<longrightarrow> Q q)"

definition post_pass :: "(byte list \<Rightarrow> bool) \<Rightarrow> (byte list \<Rightarrow> bool) \<Rightarrow> (byte list \<Rightarrow> bool) \<Rightarrow> 's pass \<Rightarrow> bool" where
  "post_pass I P Q b \<longleftrightarrow> (case b of Next s q \<Rightarrow> I q | Exit r \<Rightarrow> post P Q r)"

lemma post_simps [simp]:
  "post P Q PARTIAL" "post P Q (INVALID q)" "post P Q (Return t None)" "post P Q Undefined"
  "post P Q (Break q) \<longleftrightarrow> P q" "post P Q (token_at t q) \<longleftrightarrow> (0 < t \<longrightarrow> Q q)"
  "post_pass I P Q (Exit r) \<longleftrightarrow> post P Q r" "post_pass I P Q (Next s q) \<longleftrightarrow> I q"
  by (auto simp: post_def post_pass_def PARTIAL_def INVALID_def token_at_def)

lemma post_if: "(c \<Longrightarrow> post P Q x) \<Longrightarrow> (\<not> c \<Longrightarrow> post P Q y) \<Longrightarrow> post P Q (if c then x else y)"
  by simp

lemma post_pass_if: "(c \<Longrightarrow> post_pass I P Q x) \<Longrightarrow> (\<not> c \<Longrightarrow> post_pass I P Q y) \<Longrightarrow> post_pass I P Q (if c then x else y)"
  by simp

lemma post_pass_Exit: "post P Q r \<Longrightarrow> post_pass I P Q (Exit r)"
  by simp

lemma post_then_do: "post N Q r \<Longrightarrow> (\<And>q. N q \<Longrightarrow> post P Q (go q)) \<Longrightarrow> post P Q (then_do r go)"
  by (auto simp: then_do_def switch_def post_def split: outcome.splits)

lemma post_then_pass: "post N Q r \<Longrightarrow> (\<And>q. N q \<Longrightarrow> post_pass I P Q (go q)) \<Longrightarrow> post_pass I P Q (then_pass r go)"
  by (auto simp: then_pass_def switch_pass_def post_def post_pass_def split: outcome.splits)

text \<open>The macros give no tokens; \<open>N\<close> holds behind a character that they accept.\<close>

definition post_cases :: "(byte list \<Rightarrow> bool) \<Rightarrow> outcome option \<Rightarrow> bool" where
  "post_cases N c \<longleftrightarrow> (\<forall>r. c = Some r \<longrightarrow> post N (\<lambda>q. False) r)"

lemma post_switch:
  assumes "post_cases N c" "\<And>q. N q \<Longrightarrow> post P Q (go q)" "c = None \<Longrightarrow> post P Q other"
  shows "post P Q (switch c go other)"
  using assms by (auto simp: switch_def post_cases_def post_def split: option.splits outcome.splits)

lemma post_switch_pass:
  assumes "post_cases N c" "\<And>q. N q \<Longrightarrow> post_pass I P Q (go q)" "c = None \<Longrightarrow> post_pass I P Q other"
  shows "post_pass I P Q (switch_pass c go other)"
  using assms by (auto simp: switch_pass_def post_cases_def post_pass_def post_def split: option.splits outcome.splits)

lemma post_loop:
  assumes "\<And>s p. I p \<Longrightarrow> HAS_CHARS enc p 1 \<Longrightarrow> post_pass I P Q (body s p)" "\<And>s p. post P Q (fell s p)" "I p"
  shows "post P Q (scan_loop enc body fell s p)"
  using assms(3)
proof (induction "length p" arbitrary: s p rule: less_induct)
  case less
  show ?case
  proof (cases "HAS_CHAR enc p")
    case True
    with assms(1) [OF less.prems, of s] less.hyps show ?thesis
      by (auto simp: scan_loop.simps [of enc body fell s p] HAS_CHAR_def split: pass.splits)
  qed (simp add: scan_loop.simps assms(2))
qed

lemmas post_rules = post_if post_pass_if post_pass_Exit post_then_do post_then_pass

section \<open>Places in a tag\<close>

text \<open>The places that are reached from \<open>start\<close>, behind the opening bracket, with where in the tag they are.\<close>

inductive reached :: "ENCODING \<Rightarrow> byte list \<Rightarrow> tag_mode \<Rightarrow> byte list \<Rightarrow> bool" for enc start where
  first: "reached enc start Elem start"
| char: "reached enc start m p \<Longrightarrow> HAS_CHAR enc p \<Longrightarrow> mode_next m (BYTE_TYPE enc p) = Some m' \<Longrightarrow>
    reached enc start m' (drop (char_bytes enc p) p)"

definition tag_over :: "ENCODING \<Rightarrow> byte list \<Rightarrow> byte list \<Rightarrow> bool" where
  "tag_over enc start q \<longleftrightarrow> (\<exists>e. tag_end enc Elem start = Some e \<and> strict_suffix q e)"

lemma reached_tag_end: "reached enc start m p \<Longrightarrow> tag_end enc m p = Some e \<Longrightarrow> tag_end enc Elem start = Some e"
proof (induction rule: reached.induct)
  case (char m p m')
  have "\<not> (BYTE_TYPE enc p \<in> {BT_GT, BT_SOL} \<and> \<not> in_value m)" if "\<nexists>b. m = Val b"
    using char.hyps(3) that by (cases m) (auto simp: mode_next_def name_type_def lead_bytes_def BT_SPACES_def)
  moreover have "in_value m" if "m = Val b" for b
    using char.hyps(1) that
  proof (induction arbitrary: b rule: reached.induct)
    case (char m p m')
    then show ?case by (cases m) (auto simp: mode_next_def in_value_def split: if_splits)
  qed simp
  ultimately have "tag_end enc m p = Some e"
    using char.hyps(2,3) char.prems by (auto simp: tag_end.simps [of enc m p])
  then show ?case by (rule char.IH)
qed

lemma reached_over:
  assumes "reached enc start m p" "m \<in> {Elem, Gap}" "HAS_CHARS enc p 1" "BYTE_TYPE enc p \<in> {BT_GT, BT_SOL}" "strict_suffix q p"
  shows "tag_over enc start q"
proof -
  have "tag_end enc m p = Some p" using assms(2-4) by (auto simp: tag_end.simps [of enc m p] HAS_CHAR_def in_value_def)
  with reached_tag_end [OF assms(1)] assms(5) show ?thesis by (auto simp: tag_over_def)
qed

lemma reached_adv:
  assumes "reached enc start m p" "HAS_CHARS enc p 1" "lead_bytes (BYTE_TYPE enc p) = 0" "mode_next m (BYTE_TYPE enc p) = Some m'"
  shows "reached enc start m' (adv enc p)"
  using reached.char [OF assms(1) _ assms(4)] assms(2,3) by (simp add: HAS_CHAR_def adv_def char_bytes_def)

lemma reached_lead:
  assumes "reached enc start m p" "HAS_CHARS enc p 1" "0 < lead_bytes (BYTE_TYPE enc p)" "mode_next m (BYTE_TYPE enc p) = Some m'"
  shows "reached enc start m' (drop (lead_bytes (BYTE_TYPE enc p)) p)"
  using reached.char [OF assms(1) _ assms(4)] assms(2,3) by (simp add: HAS_CHAR_def char_bytes_def)

section \<open>Names\<close>

definition name_mode :: "tag_mode \<Rightarrow> bool" where
  "name_mode m \<longleftrightarrow> m = Elem \<or> m = Att \<or> in_value m"

lemma name_mode_next:
  "name_mode m \<Longrightarrow> name_type t \<or> t \<in> {BT_DIGIT, BT_NAME, BT_MINUS, BT_COLON, BT_NUM, BT_SEMI, BT_AMP} - (if in_value m then {} else {BT_AMP})
    \<Longrightarrow> mode_next m t = Some m"
  by (auto simp: name_mode_def mode_next_def in_value_def name_type_def lead_bytes_def BT_SPACES_def split: if_splits)

lemma check_lead_post:
  assumes "N (drop n p)" shows "post N Q (check_lead f enc p n)" "post N Q (INVALID_LEAD_CASE enc p n)"
  using assms by (auto simp: check_lead_def INVALID_LEAD_CASE_def split: option.splits bool.splits)

lemma name_post:
  assumes "reached enc start m p" "HAS_CHARS enc p 1" "name_mode m"
  shows "post_cases (reached enc start m) (CHECK_NAME_CASES enc p)"
proof -
  let ?t = "BYTE_TYPE enc p"
  have step: "?t \<in> {BT_NONASCII, BT_NMSTRT, BT_HEX, BT_DIGIT, BT_NAME, BT_MINUS} \<Longrightarrow> reached enc start m (adv enc p)"
    using assms name_mode_next [OF assms(3), of ?t] by (intro reached_adv [OF assms(1,2)]) (auto simp: name_type_def)
  have lead: "0 < lead_bytes ?t \<Longrightarrow> reached enc start m (drop (lead_bytes ?t) p)"
    using assms name_mode_next [OF assms(3), of ?t] by (intro reached_lead [OF assms(1,2)]) (auto simp: name_type_def)
  show ?thesis
    using step lead by (auto simp: post_cases_def CHECK_NAME_CASES_def Let_def check_lead_post)
qed

lemma nmstrt_post:
  assumes "reached enc start m p" "HAS_CHARS enc p 1" "m' = (if m = Gap then Att else m)" "name_mode m'"
  shows "post_cases (reached enc start m') (CHECK_NMSTRT_CASES enc p)"
proof -
  let ?t = "BYTE_TYPE enc p"
  have mode: "name_type ?t \<Longrightarrow> mode_next m ?t = Some m'"
    using assms(3,4) by (auto simp: mode_next_def name_mode_def in_value_def name_type_def lead_bytes_def split: if_splits)
  have step: "?t \<in> {BT_NONASCII, BT_NMSTRT, BT_HEX} \<Longrightarrow> reached enc start m' (adv enc p)"
    using mode by (intro reached_adv [OF assms(1,2)]) (auto simp: name_type_def)
  have lead: "0 < lead_bytes ?t \<Longrightarrow> reached enc start m' (drop (lead_bytes ?t) p)"
    using mode by (intro reached_lead [OF assms(1,2)]) (auto simp: name_type_def)
  show ?thesis
    using step lead by (auto simp: post_cases_def CHECK_NMSTRT_CASES_def Let_def check_lead_post)
qed

section \<open>References in a value\<close>

lemma value_char:
  assumes "reached enc start (Val b) p" "HAS_CHARS enc p 1" "lead_bytes (BYTE_TYPE enc p) = 0" "BYTE_TYPE enc p \<noteq> b"
  shows "reached enc start (Val b) (adv enc p)"
  using assms by (intro reached_adv [OF assms(1-3)]) (simp add: mode_next_def)

lemma digits_post:
  assumes "reached enc start (Val b) p" "HAS_CHARS enc p 1" "in_value (Val b)" "\<forall>t \<in> set ds. lead_bytes t = 0 \<and> t \<noteq> b"
  shows "post_pass (reached enc start (Val b)) P (reached enc start (Val b)) (digits_body ds enc s p)"
  using assms value_char [OF assms(1,2)] by (auto simp: digits_body_def Let_def in_value_def)

lemma name_then_semi_post:
  assumes "reached enc start (Val b) p" "HAS_CHARS enc p 1" "in_value (Val b)"
  shows "post_pass (reached enc start (Val b)) P (reached enc start (Val b)) (name_then_semi tok enc s p)"
  unfolding name_then_semi_def
  by (intro post_switch_pass [OF name_post [OF assms(1,2)]])
    (use value_char [OF assms(1,2)] assms(3) in \<open>auto simp: name_mode_def in_value_def\<close>)

lemma x_type:
  assumes "enc \<in> set built_in_encodings" "char_is enc p ASCII_x"
  shows "BYTE_TYPE enc p = BT_NMSTRT"
proof -
  have "\<forall>tab \<in> set [asciitab BT_COLON, iasciitab BT_COLON, asciitab BT_NMSTRT, iasciitab BT_NMSTRT]. tab ! 0x78 = BT_NMSTRT"
    by code_simp
  with built_in_halves(1) [OF assms(1)] have "take 128 (typetab enc) ! 0x78 = BT_NMSTRT" by blast
  then have "typetab enc ! 0x78 = BT_NMSTRT" by simp
  with assms(2) show ?thesis by (cases "family enc") (auto simp: char_is_def BYTE_TYPE_def)
qed

lemma scanCharRef_post:
  assumes "enc \<in> set built_in_encodings" "reached enc start (Val b) p" "in_value (Val b)"
  shows "post P (reached enc start (Val b)) (scanCharRef enc p)"
proof -
  have quote: "b = BT_QUOT \<or> b = BT_APOS" using assms(3) by (auto simp: in_value_def)
  have hex: "post P (reached enc start (Val b)) (scanHexCharRef enc q)" if "reached enc start (Val b) q" for q
    unfolding scanHexCharRef_def
    by (intro post_rules post_loop [where I = "reached enc start (Val b)"] digits_post value_char)
      (use that quote in \<open>auto simp: HAS_CHAR_def in_value_def\<close>)
  have x: "reached enc start (Val b) (adv enc p)" if "HAS_CHAR enc p" "char_is enc p ASCII_x"
  proof (rule value_char [OF assms(2)])
    show "BYTE_TYPE enc p \<noteq> b" using x_type [OF assms(1) that(2)] quote by auto
  qed (use that ascii_char_no_lead [OF assms(1) that(2)] in \<open>simp_all add: HAS_CHAR_def\<close>)
  have digit: "reached enc start (Val b) (adv enc p)" if "HAS_CHAR enc p" "BYTE_TYPE enc p = BT_DIGIT"
    using value_char [OF assms(2)] that quote by (auto simp: HAS_CHAR_def)
  show ?thesis
    unfolding scanCharRef_def
    by (intro post_rules post_loop [where I = "reached enc start (Val b)"] digits_post hex)
      (use assms(2) x digit quote in \<open>auto simp: HAS_CHAR_def in_value_def\<close>)
qed


lemma scanRef_post:
  assumes "enc \<in> set built_in_encodings" "reached enc start (Val b) p" "in_value (Val b)"
  shows "post P (reached enc start (Val b)) (scanRef enc p)"
proof -
  have mode: "name_mode (Val b)" using assms(3) by (simp add: name_mode_def)
  have "post P (reached enc start (Val b)) (switch (CHECK_NMSTRT_CASES enc p)
       (scan_loop enc (name_then_semi XML_TOK_ENTITY_REF enc) (\<lambda>s p. PARTIAL) ())
       (if BYTE_TYPE enc p = BT_NUM then scanCharRef enc (adv enc p) else INVALID p))" if has: "HAS_CHARS enc p 1"
  proof (rule post_switch [OF nmstrt_post [OF assms(2) has]])
    show "post P (reached enc start (Val b)) (scan_loop enc (name_then_semi XML_TOK_ENTITY_REF enc) (\<lambda>s p. PARTIAL) () q)"
      if "reached enc start (Val b) q" for q
      by (rule post_loop [where I = "reached enc start (Val b)"]) (use that name_then_semi_post assms(3) in simp_all)
    show "post P (reached enc start (Val b)) (if BYTE_TYPE enc p = BT_NUM then scanCharRef enc (adv enc p) else INVALID p)"
      using value_char [OF assms(2) has] scanCharRef_post [OF assms(1) _ assms(3)] assms(3) by (auto simp: in_value_def)
  qed (use mode in simp_all)
  then show ?thesis unfolding scanRef_def by (intro post_if) (simp_all add: HAS_CHAR_def)
qed

section \<open>Attributes\<close>

lemma value_post:
  assumes "enc \<in> set built_in_encodings" "reached enc start (Val b) p" "HAS_CHARS enc p 1" "in_value (Val b)"
  shows "post_pass (reached enc start (Val b)) (\<lambda>q. reached enc start (Val b) q \<and> HAS_CHARS enc q 1 \<and> BYTE_TYPE enc q = b) Q
    (value_body enc b s p)"
proof -
  let ?t = "BYTE_TYPE enc p" and ?R = "reached enc start (Val b)"
  have quote: "b = BT_QUOT \<or> b = BT_APOS" using assms(4) by (auto simp: in_value_def)
  have "0 < lead_bytes ?t \<Longrightarrow> ?t \<noteq> b" using quote by (auto simp: lead_bytes_def)
  then have lead: "post_cases ?R (INVALID_CASES enc p)"
    using reached_lead [OF assms(2,3), of "Val b"]
    by (auto simp: post_cases_def INVALID_CASES_def Let_def mode_next_def intro!: check_lead_post)
  have step: "?t \<noteq> b \<Longrightarrow> INVALID_CASES enc p = None \<Longrightarrow> ?R (adv enc p)"
    by (rule value_char [OF assms(2,3)]) (auto simp: INVALID_CASES_def Let_def split: if_splits)
  have ref: "post_pass ?R P Q (ref_in_value (scanRef enc (adv enc p)) p)" if "?R (adv enc p)" for P
    using scanRef_post [OF assms(1) that assms(4), of P] assms(2)
    by (auto simp: ref_in_value_def post_def post_pass_def Let_def split: outcome.splits option.splits)
  show ?thesis
    unfolding value_body_def Let_def
    by (intro post_pass_if post_switch_pass [OF lead]) (use step ref assms(2,3) in auto)
qed

definition before_value :: "ENCODING \<Rightarrow> byte list \<Rightarrow> byte list \<Rightarrow> bool" where
  "before_value enc start p \<longleftrightarrow> reached enc start Att p \<or> reached enc start Eq p"

lemma before_value_char:
  assumes "before_value enc start p" "HAS_CHARS enc p 1" "BYTE_TYPE enc p \<in> set BT_SPACES \<or> BYTE_TYPE enc p = BT_EQUALS"
  shows "before_value enc start (adv enc p)"
proof -
  have "lead_bytes (BYTE_TYPE enc p) = 0" "\<not> name_type (BYTE_TYPE enc p)"
    using assms(3) by (auto simp: BT_SPACES_def lead_bytes_def name_type_def)
  with assms show ?thesis
    using reached_adv [of enc start Att p] reached_adv [of enc start Eq p]
    by (auto simp: before_value_def mode_next_def BT_SPACES_def split: if_splits)
qed

lemma skip_to_post:
  assumes "before_value enc start (adv enc p)"
  shows "post (\<lambda>q. before_value enc start q \<and> HAS_CHARS enc q 1 \<and> BYTE_TYPE enc q \<in> set ends) Q (skip_to enc ends p)"
  unfolding skip_to_def
proof (rule post_loop [where I = "before_value enc start"])
  fix s q
  assume "before_value enc start q" "HAS_CHARS enc q 1"
  then show "post_pass (before_value enc start) (\<lambda>q. before_value enc start q \<and> HAS_CHARS enc q 1 \<and> BYTE_TYPE enc q \<in> set ends) Q
      (equals_body enc ends s q)"
    using before_value_char [of enc start q] by (auto simp: equals_body_def Let_def)
qed (use assms in simp_all)

lemma before_value_quote:
  assumes "before_value enc start p" "HAS_CHARS enc p 1" "BYTE_TYPE enc p \<in> {BT_QUOT, BT_APOS}"
  shows "reached enc start (Val (BYTE_TYPE enc p)) (adv enc p)" "in_value (Val (BYTE_TYPE enc p))"
  using assms reached_adv [of enc start Att p] reached_adv [of enc start Eq p]
  by (auto simp: before_value_def mode_next_def in_value_def name_type_def lead_bytes_def)

lemma gap_char:
  assumes "reached enc start m p" "m \<in> {Elem, Gap}" "HAS_CHARS enc p 1" "BYTE_TYPE enc p \<in> set BT_SPACES"
  shows "reached enc start Gap (adv enc p)"
  by (rule reached_adv [OF assms(1,3)]) (use assms(2,4) in \<open>auto simp: BT_SPACES_def mode_next_def name_type_def lead_bytes_def\<close>)

lemma sol_post:
  assumes "reached enc start m p" "m \<in> {Elem, Gap}" "HAS_CHARS enc p 1" "BYTE_TYPE enc p = BT_SOL"
  shows "post P (tag_over enc start) (sol enc tok p)"
proof -
  have "strict_suffix (adv enc (adv enc p)) p" if "HAS_CHAR enc (adv enc p)"
    using assms(3) by simp
  with reached_over [OF assms(1-3)] assms(4) show ?thesis by (simp add: sol_def)
qed

lemma next_att_post:
  assumes "reached enc start Gap p" "HAS_CHARS enc p 1"
  shows "post_pass (reached enc start Gap) (reached enc start Att) (tag_over enc start) (next_att_body enc s p)"
  unfolding next_att_body_def
proof (rule post_switch_pass [OF nmstrt_post [OF assms]])
  show "post_pass (reached enc start Gap) (reached enc start Att) (tag_over enc start)
    (let t = BYTE_TYPE enc p in
       if t \<in> set BT_SPACES then Next s (adv enc p)
       else if t = BT_GT then Exit (token_at XML_TOK_START_TAG_WITH_ATTS (adv enc p))
       else if t = BT_SOL then Exit (sol enc XML_TOK_EMPTY_ELEMENT_WITH_ATTS p)
       else Exit (INVALID p))"
    using gap_char [OF assms(1) _ assms(2)] sol_post [OF assms(1) _ assms(2)] reached_over [OF assms(1) _ assms(2), of "adv enc p"] assms(2)
    by (auto simp: Let_def)
qed (auto simp: name_mode_def)

lemma after_value_post:
  assumes "reached enc start Gap p"
  shows "post (reached enc start Att) (tag_over enc start) (after_value enc p)"
proof (cases "HAS_CHAR enc p")
  case True
  then have has: "HAS_CHARS enc p 1" by (simp add: HAS_CHAR_def)
  have "post (reached enc start Att) (tag_over enc start) (scan_loop enc (next_att_body enc) (\<lambda>s p. PARTIAL) () q)"
    if "reached enc start Gap q" for q
    by (rule post_loop [where I = "reached enc start Gap"]) (use that next_att_post in simp_all)
  with True gap_char [OF assms _ has] sol_post [OF assms _ has] reached_over [OF assms _ has, of "adv enc p"] has show ?thesis
    by (auto simp: after_value_def Let_def)
qed (simp add: after_value_def)

lemma equals_case_post:
  assumes "enc \<in> set built_in_encodings" "before_value enc start p" "HAS_CHARS enc p 1" "BYTE_TYPE enc p = BT_EQUALS"
  shows "post (reached enc start Att) (tag_over enc start) (equals_case enc p)"
  unfolding equals_case_def
proof (rule post_then_do [OF skip_to_post])
  show "before_value enc start (adv enc p)" by (rule before_value_char) (use assms in simp_all)
  fix q
  assume q: "before_value enc start q \<and> HAS_CHARS enc q 1 \<and> BYTE_TYPE enc q \<in> set [BT_QUOT, BT_APOS]"
  let ?b = "BYTE_TYPE enc q"
  have start: "reached enc start (Val ?b) (adv enc q)" "in_value (Val ?b)" using before_value_quote [of enc start q] q by simp_all
  have value_part: "post (\<lambda>r. reached enc start (Val ?b) r \<and> HAS_CHARS enc r 1 \<and> BYTE_TYPE enc r = ?b) (tag_over enc start)
    (scan_loop enc (value_body enc ?b) (\<lambda>s p. PARTIAL) () (adv enc q))"
    by (rule post_loop [where I = "reached enc start (Val ?b)"]) (use start value_post [OF assms(1) _ _ start(2)] in simp_all)
  show "post (reached enc start Att) (tag_over enc start)
    (then_do (scan_loop enc (value_body enc ?b) (\<lambda>s p. PARTIAL) () (adv enc q)) (\<lambda>q. after_value enc (adv enc q)))"
  proof (rule post_then_do [OF value_part])
    fix r
    assume r: "reached enc start (Val ?b) r \<and> HAS_CHARS enc r 1 \<and> BYTE_TYPE enc r = ?b"
    have "reached enc start Gap (adv enc r)"
      by (rule reached_adv [of _ _ "Val ?b"]) (use r q in \<open>auto simp: mode_next_def\<close>)
    then show "post (reached enc start Att) (tag_over enc start) (after_value enc (adv enc r))" by (rule after_value_post)
  qed
qed

lemma colon_post:
  assumes "reached enc start m p" "m \<in> {Elem, Att}" "HAS_CHARS enc p 1" "BYTE_TYPE enc p = BT_COLON"
  shows "post_pass (reached enc start m) P Q (colon_case enc hadColon p)"
proof -
  have colon: "reached enc start m (adv enc p)"
    by (rule reached_adv [OF assms(1,3)])
      (use assms(2,4) in \<open>auto simp: mode_next_def name_type_def lead_bytes_def BT_SPACES_def\<close>)
  have "post_pass (reached enc start m) P Q
    (switch_pass (CHECK_NMSTRT_CASES enc (adv enc p)) (Next True) (Exit (INVALID (adv enc p))))" if "HAS_CHAR enc (adv enc p)"
    by (rule post_switch_pass [OF nmstrt_post [OF colon]]) (use that assms(2) in \<open>auto simp: HAS_CHAR_def name_mode_def\<close>)
  then show ?thesis unfolding colon_case_def by simp
qed

lemma scanAtts_post:
  assumes "enc \<in> set built_in_encodings" "reached enc start Att p"
  shows "post P (tag_over enc start) (scanAtts enc p)"
  unfolding scanAtts_def
proof (rule post_loop [where I = "reached enc start Att"])
  fix hadColon q
  assume q: "reached enc start Att q" "HAS_CHARS enc q 1"
  have before: "before_value enc start q" using q(1) by (simp add: before_value_def)
  show "post_pass (reached enc start Att) P (tag_over enc start) (scanAtts_body enc hadColon q)"
    unfolding scanAtts_body_def Let_def
    by (intro post_switch_pass [OF name_post [OF q]] post_pass_if post_then_pass [OF skip_to_post]
        post_then_pass [OF equals_case_post [OF assms(1)]] colon_post [OF q(1) _ q(2)])
      (use q before before_value_char [OF before q(2)] in \<open>auto simp: name_mode_def\<close>)
qed (use assms in simp_all)

section \<open>Tags\<close>

lemma scanLt_space_post:
  assumes "enc \<in> set built_in_encodings" "reached enc start Gap p" "HAS_CHARS enc p 1"
  shows "post_pass (reached enc start Gap) P (tag_over enc start) (scanLt_space enc s p)"
  unfolding scanLt_space_def Let_def
  by (intro post_switch_pass [OF nmstrt_post [OF assms(2,3)]] post_pass_if post_pass_Exit scanAtts_post [OF assms(1)])
    (use gap_char [OF assms(2) _ assms(3)] sol_post [OF assms(2) _ assms(3)] reached_over [OF assms(2) _ assms(3), of "adv enc p"]
      assms(3) in \<open>auto simp: name_mode_def\<close>)

lemma scanLt_body_post:
  assumes "enc \<in> set built_in_encodings" "reached enc start Elem p" "HAS_CHARS enc p 1"
  shows "post_pass (reached enc start Elem) P (tag_over enc start) (scanLt_body enc hadColon p)"
proof -
  have space: "post P (tag_over enc start) (scan_loop enc (scanLt_space enc) (\<lambda>s p. PARTIAL) () q)" if "reached enc start Gap q" for q
    by (rule post_loop [where I = "reached enc start Gap"]) (use that scanLt_space_post [OF assms(1)] in simp_all)
  show ?thesis
    unfolding scanLt_body_def Let_def
    by (intro post_switch_pass [OF name_post [OF assms(2,3)]] post_pass_if post_pass_Exit space colon_post [OF assms(2) _ assms(3)])
      (use gap_char [OF assms(2) _ assms(3)] sol_post [OF assms(2) _ assms(3)] reached_over [OF assms(2) _ assms(3), of "adv enc p"]
        assms(3) in \<open>auto simp: name_mode_def\<close>)
qed

context total_encoding
begin

lemma content_chars_no_tag:
  assumes "HAS_CHARS enc p 1" "BYTE_TYPE enc p \<noteq> BT_LT"
  shows "yields False {- 5, - 3, - 2, - 1, 0, 6, 7, 9, 10} p (content_chars enc p)"
proof -
  have "yields True {- 5, - 3, - 2, - 1, 0, 6, 7, 9, 10} p (content_start enc p)"
    unfolding content_start_def Let_def
    by (intro yields_rules yields_macros scanLt_yields scanRef_yields) (use assms in \<open>simp_all add: HAS_CHAR_def\<close>)
  then show ?thesis
    unfolding content_chars_def
    by (intro yields_rules yields_loop [where I = "\<lambda>s. True"]) (use assms in \<open>simp_all add: content_body_yields\<close>)
qed

lemma scanLt_no_name:
  assumes "strict_suffix p p0" "CHECK_NMSTRT_CASES enc p = None"
  shows "yields False {- 2, - 1, 0, 5, 8, 11, 12, 13} p0 (scanLt enc p)"
  unfolding scanLt_def Let_def assms(2) switch_def option.case
  by (intro yields_rules excl_case_yields scanPi_yields scanEndTag_yields) (use assms in \<open>simp_all add: HAS_CHAR_def\<close>)

end

lemma scanLt_tag:
  assumes "enc \<in> set built_in_encodings" "scanLt enc p = Return t (Some q)" "t \<in> {1, 2, 3, 4}" "strict_suffix p p0"
  shows "tag_over enc p q"
proof -
  have has: "HAS_CHARS enc p 1"
    using assms(2) by (auto simp: scanLt_def PARTIAL_def HAS_CHAR_def split: if_splits)
  have "CHECK_NMSTRT_CASES enc p \<noteq> None"
    by (rule notI) (use total_encoding.scanLt_no_name [OF built_in_total [OF assms(1)] assms(4)] assms(2,3) in auto)
  then have same: "switch (CHECK_NMSTRT_CASES enc p) go other = switch (CHECK_NMSTRT_CASES enc p) go Undefined" for go other
    by (auto simp: switch_def)
  have "post (\<lambda>q. True) (tag_over enc p) (scan_loop enc (scanLt_body enc) (\<lambda>s p. PARTIAL) False r)" if "reached enc p Elem r" for r
    by (rule post_loop [where I = "reached enc p Elem"]) (use that scanLt_body_post [OF assms(1)] in simp_all)
  then have "post (\<lambda>q. True) (tag_over enc p)
    (switch (CHECK_NMSTRT_CASES enc p) (scan_loop enc (scanLt_body enc) (\<lambda>s p. PARTIAL) False) Undefined)"
    by (intro post_switch [OF nmstrt_post [OF reached.first has]]) (auto simp: name_mode_def)
  moreover have "scanLt enc p =
    switch (CHECK_NMSTRT_CASES enc p) (scan_loop enc (scanLt_body enc) (\<lambda>s p. PARTIAL) False) Undefined"
    using has by (simp add: scanLt_def HAS_CHAR_def) (rule same)
  ultimately have "post (\<lambda>q. True) (tag_over enc p) (Return t (Some q))" using assms(2) by metis
  with assms(3) show ?thesis by (auto simp: post_def)
qed

lemma content_tag:
  assumes "enc \<in> set built_in_encodings" "content_chars enc p = Return t (Some q)" "t \<in> {1, 2, 3, 4}" "HAS_CHARS enc p 1"
  shows "tag_over enc (adv enc p) q"
proof -
  note total = built_in_total [OF assms(1)]
  have lt: "BYTE_TYPE enc p = BT_LT"
    by (rule ccontr) (use total_encoding.content_chars_no_tag [OF total assms(4)] assms(2,3) in auto)
  then have start: "content_start enc p = scanLt enc (adv enc p)"
    by (simp add: content_start_def INVALID_CASES_def switch_def Let_def lead_bytes_def)
  have not_break: "yields False {- 2, - 1, 0, 1, 2, 3, 4, 5, 8, 11, 12, 13} p (scanLt enc (adv enc p))"
    by (rule total_encoding.scanLt_yields [OF total]) (use assms(4) in simp_all)
  have "scanLt enc (adv enc p) = Return t (Some q)"
  proof (cases "scanLt enc (adv enc p)")
    case (Break x)
    with not_break show ?thesis by simp
  qed (use assms(2) start in \<open>simp_all add: content_chars_def then_do_def switch_def\<close>)
  from scanLt_tag [OF assms(1) this assms(3), of p] assms(4) show ?thesis by simp
qed

text \<open>More input behind the tag changes nothing.\<close>

lemma tag_end_local: "tag_end enc m p = Some e \<Longrightarrow> tag_end enc m (p @ ext) = Some (e @ ext)"
proof (induction "length p" arbitrary: p m rule: less_induct)
  case less
  have has: "HAS_CHAR enc p" by (rule tag_end_has_char [OF less.prems])
  then have len: "MINBPC enc \<le> length p" by (simp add: HAS_CHAR_def HAS_CHARS_def)
  then have has': "HAS_CHAR enc (p @ ext)" by (simp add: HAS_CHAR_def HAS_CHARS_def)
  show ?case
  proof (cases "BYTE_TYPE enc p \<in> {BT_GT, BT_SOL} \<and> \<not> in_value m")
    case True
    with less.prems has have "e = p" by (simp add: tag_end.simps [of enc m p])
    with True has' show ?thesis by (simp add: tag_end.simps [of enc m "p @ ext"] BYTE_TYPE_local [OF len])
  next
    case False
    let ?q = "drop (char_bytes enc p) p"
    obtain m' where m': "mode_next m (BYTE_TYPE enc p) = Some m'" "tag_end enc m' ?q = Some e"
      using less.prems False has by (auto simp: tag_end.simps [of enc m p] split: option.splits if_splits)
    have "char_bytes enc p \<le> length p" using has_char_length [OF tag_end_has_char [OF m'(2)]] by simp
    then have "drop (char_bytes enc (p @ ext)) (p @ ext) = ?q @ ext" by (simp add: char_bytes_local [OF len])
    with less.hyps [OF drop_shorter [OF has char_bytes_pos] m'(2)] m'(1) False has' show ?thesis
      by (auto simp: tag_end.simps [of enc m "p @ ext"] BYTE_TYPE_local [OF len])
  qed
qed

lemma contentTok_tag:
  assumes "enc \<in> set built_in_encodings" "contentTok enc p = Return t (Some q)" "t \<in> {1, 2, 3, 4}"
  shows "tag_over enc (adv enc p) q"
proof -
  obtain n x where x: "content_chars enc (take n p) = Return t (Some x)" "q = x @ drop n p" "HAS_CHARS enc (take n p) 1"
    using contentTok_whole [OF assms(2)] .
  have "MINBPC enc \<le> length (take n p)" using x(3) by (simp add: HAS_CHARS_def)
  from adv_local [OF this, of "drop n p"] have adv: "adv enc p = adv enc (take n p) @ drop n p" by simp
  from content_tag [OF assms(1) x(1) assms(3) x(3)] show ?thesis
    unfolding adv x(2) tag_over_def by (auto dest: tag_end_local [where ext = "drop n p"] simp: strict_suffix_def)
qed

section \<open>Names and white space in accepted text\<close>

text \<open>Before a character that ends a name, its length is found without a read past that character.\<close>

lemma nameLength_steps:
  "steps enc p r \<Longrightarrow> HAS_CHAR enc r \<Longrightarrow> BYTE_TYPE enc r \<in> {BT_QUOT, BT_APOS} \<Longrightarrow>
    \<exists>k. nameLength_loop enc n p = Some k \<and> k + length r \<le> n + length p"
proof (induction "length p" arbitrary: p n rule: less_induct)
  case less
  show ?case
  proof (cases "p = r")
    case False
    let ?c = "char_bytes enc p"
    have p: "HAS_CHAR enc p" "?c \<le> length p" "steps enc (drop ?c p) r"
      using steps_first [OF less.prems(1) False] by simp_all
    have "length r \<le> length p" by (rule steps_length [OF less.prems(1)])
    with less.hyps [OF drop_shorter [OF p(1) char_bytes_pos] p(3) less.prems(2,3), of "n + ?c"] p(1,2) show ?thesis
      by (auto simp: nameLength_loop.simps [of enc n p] Let_def)
  qed (use less.prems in \<open>auto simp: nameLength_loop.simps [of enc n r] lead_bytes_def\<close>)
qed

lemma tag_end_length: "tag_end enc m p = Some e \<Longrightarrow> length e \<le> length p"
proof (induction "length p" arbitrary: m p rule: less_induct)
  case less
  have has: "HAS_CHAR enc p" by (rule tag_end_has_char [OF less.prems])
  with less.prems less.hyps [OF drop_shorter [OF has char_bytes_pos]] show ?case
    by (fastforce simp: tag_end.simps [of enc m p] split: if_splits option.splits)
qed

lemma nameLength_tag:
  "tag_end enc m p = Some e \<Longrightarrow> \<exists>k. nameLength_loop enc n p = Some k \<and> k + length e \<le> n + length p"
proof (induction "length p" arbitrary: m p n rule: less_induct)
  case less
  let ?c = "char_bytes enc p" and ?t = "BYTE_TYPE enc p"
  have has: "HAS_CHAR enc p" by (rule tag_end_has_char [OF less.prems])
  show ?case
  proof (cases "0 < lead_bytes ?t \<or> ?t \<in> {BT_NONASCII, BT_NMSTRT, BT_COLON, BT_HEX, BT_DIGIT, BT_NAME, BT_MINUS}")
    case True
    then have "?t \<notin> {BT_GT, BT_SOL}" by (auto simp: lead_bytes_def)
    with less.prems has obtain m' where m': "tag_end enc m' (drop ?c p) = Some e"
      by (auto simp: tag_end.simps [of enc m p] split: option.splits)
    have "?c \<le> length p" using has_char_length [OF tag_end_has_char [OF m']] by simp
    with less.hyps [OF drop_shorter [OF has char_bytes_pos] m', of "n + ?c"] True has show ?thesis
      by (auto simp: nameLength_loop.simps [of enc n p] Let_def)
  next
    case False
    with has tag_end_length [OF less.prems] show ?thesis by (simp add: nameLength_loop.simps [of enc n p] Let_def)
  qed
qed

lemma skipS_steps:
  "steps enc p r \<Longrightarrow> HAS_CHAR enc r \<Longrightarrow> BYTE_TYPE enc r \<notin> set BT_SPACES \<Longrightarrow>
    \<exists>q. skipS enc p = Some q \<and> steps enc p q \<and> steps enc q r \<and> BYTE_TYPE enc q \<notin> set BT_SPACES"
proof (induction "length p" arbitrary: p rule: less_induct)
  case less
  show ?case
  proof (cases "p = r \<or> BYTE_TYPE enc p \<notin> set BT_SPACES")
    case True
    moreover have "HAS_CHAR enc p" using less.prems steps_first by blast
    ultimately show ?thesis using less.prems by (auto simp: skipS.simps [of enc p] BT_SPACES_def)
  next
    case False
    then have p: "HAS_CHAR enc p" "steps enc (adv enc p) r" "steps enc p (adv enc p)"
      using steps_first [OF less.prems(1)] steps_char [of "MINBPC enc" enc p] by (auto simp: BT_SPACES_def char_bytes_def adv_def)
    with less.hyps [OF adv_shorter [OF p(1)] p(2) less.prems(2,3)] False show ?thesis
      by (auto simp: skipS.simps [of enc p] BT_SPACES_def intro: steps_trans)
  qed
qed

end
