(* ===== verification/Xml_Text_Props.thy ===== *)
theory Xml_Text_Props
  imports Xml_Tag
begin

text \<open>The properties of character references, of the encodings of a character, of attributes and of positions.\<close>

text \<open>
  C15. The number of a character reference is read without a test for the end of the buffer. On a reference that
  the tokenizer of the content accepted this is safe: the loop ends at the semicolon, and the number is one of a character that XML
  allows, or -1.
\<close>

theorem char_ref_numbers:
  assumes "enc \<in> set built_in_encodings" "contentTok enc p = Return XML_TOK_CHAR_REF (Some q)"
  shows "\<exists>n. charRefNumber enc p = Some n \<and> (n = - 1 \<or> xml_char n)"
  by (rule contentTok_char_ref [OF assms])

theorem char_ref_numbers_witness:
  "\<exists>n. charRefNumber big2_encoding (spell Big2_enc (ascii ''&#x1F600;'')) = Some n \<and> (n = - 1 \<or> xml_char n)"
  by (rule char_ref_numbers [where q = "[]"]) (simp add: built_in_encodings_def, code_simp)

text \<open>
  C25. A reference stands for the number that its digits write, in every encoding and for any number of digits; a number
  that is no character of XML gives -1, also where it is far too large for an \<open>int\<close>. The predefined entities are the five of the
  recommendation.
\<close>

theorem char_ref_values:
  "(list_all decimal ds \<and> ds \<noteq> [] \<longrightarrow> charRefNumber enc (spell (family enc) (ascii ''&#'' @ ds @ [0x3B]) @ rest) =
      Some (if xml_char (number_of 10 ds) then number_of 10 ds else - 1)) \<and>
    (list_all hexadecimal ds \<longrightarrow> charRefNumber enc (spell (family enc) (ascii ''&#x'' @ ds @ [0x3B]) @ rest) =
      Some (if xml_char (number_of 16 ds) then number_of 16 ds else - 1)) \<and>
    predefinedEntityName enc (spell (family enc) name) = (case map_of predefined name of Some c \<Rightarrow> c | None \<Rightarrow> 0)"
  using decimal_reference [of ds enc rest] hexadecimal_reference [of ds enc rest] predefinedEntityName_spell [of enc name] by blast

theorem char_ref_values_witness:
  "charRefNumber utf8_encoding (spell (family utf8_encoding) (ascii ''&#'' @ ascii ''4294967361'' @ [0x3B]) @ ascii ''x'') =
    Some (if xml_char (number_of 10 (ascii ''4294967361'')) then number_of 10 (ascii ''4294967361'') else - 1)"
proof -
  have "list_all decimal (ascii ''4294967361'') \<and> ascii ''4294967361'' \<noteq> []" by code_simp
  with char_ref_values [of "ascii ''4294967361''" utf8_encoding "ascii ''x''" "[]"] show ?thesis by blast
qed

text \<open>
  C14. A character of XML that the parser writes, in UTF-8 or in UTF-16, is the one its number says, and the scanners take it
  for a valid character: the test of the UTF-8 sequences accepts the one that was written, and so does the test of the surrogate pairs.
\<close>

theorem char_encoding:
  assumes "xml_char c"
  shows "utf8_value (XmlUtf8Encode c) = c \<and> utf16_value (XmlUtf16Encode c) = c \<and>
    INVALID_CASES utf8_encoding (XmlUtf8Encode c @ rest) = (if c < 0x80 then None else Some (Break rest)) \<and>
    INVALID_CASES little2_encoding (unit_bytes (XmlUtf16Encode c) @ rest) = (if c < 0x10000 then None else Some (Break rest))"
proof -
  have c: "0 \<le> c" "c < 0x110000" using assms by (auto simp: xml_char_def)
  with XmlUtf8Encode_valid [OF assms] utf16_value_encode [OF c] utf16_accepts1 [OF _ assms] utf16_accepts2 [of c]
  show ?thesis by simp
qed

theorem char_encoding_witness:
  "utf8_value (XmlUtf8Encode 0x1F600) = 0x1F600 \<and> INVALID_CASES utf8_encoding (XmlUtf8Encode 0x1F600 @ []) = Some (Break [])"
  using char_encoding [of "0x1F600" "[]"] by (simp add: xml_char_def)





end
