(* ===== verification/Alloc.thy ===== *)
theory Alloc
  imports Prelude
begin

text \<open>
  Memory may run out at any allocation. An operation that allocates takes the outcomes of the
  allocations it will make, in order, and returns those it did not use; running past the end of
  the list is a failure.
\<close>

type_synonym alloc = "bool list"

fun malloc :: "alloc \<Rightarrow> bool \<times> alloc" where
  "malloc [] = (False, [])"
| "malloc (ok # m) = (ok, m)"

abbreviation (input) EINVAL :: int where "EINVAL \<equiv> 22"
abbreviation (input) ENOMEM :: int where "ENOMEM \<equiv> 12"
abbreviation (input) EOVERFLOW :: int where "EOVERFLOW \<equiv> 75"

lemma malloc_True: "malloc m = (True, m') \<Longrightarrow> length m' < length m"
  by (cases m) auto

end
