(* ===== verification/Ebitmap.thy ===== *)
theory Ebitmap
  imports Alloc
begin

text \<open>
  The extensible bitmaps of libsepol (\<open>ebitmap.c\<close>, \<open>ebitmap.h\<close>): a set of 32-bit
  numbers as a linked list of 64-bit blocks. A chain of nodes is the list of its nodes; the
  functions that build a bitmap write to an uninitialised destination, so the destination is
  their result.

  An error is the negative code the C function returns.

  \<open>MAPSIZE\<close> is a \<open>size_t\<close>: sums with it and comparisons of such sums are made with 64
  bits, and only an assignment to a \<open>uint32_t\<close> cuts them to 32.
\<close>

section \<open>Data\<close>

record ebitmap_node =
  startbit :: u32
  node_map :: u64

record ebitmap =
  node :: "ebitmap_node list"
  highbit :: u32

abbreviation (input) MAPSIZE :: u64 where "MAPSIZE \<equiv> 64"
abbreviation (input) MAPBIT :: u64 where "MAPBIT \<equiv> 1"

definition ebitmap_init :: ebitmap where
  "ebitmap_init = \<lparr>node = [], highbit = 0\<rparr>"

definition ebitmap_is_empty :: "ebitmap \<Rightarrow> bool" where
  "ebitmap_is_empty e \<longleftrightarrow> node e = []"

definition ebitmap_length :: "ebitmap \<Rightarrow> u32" where
  "ebitmap_length e = (if node e \<noteq> [] then highbit e else 0)"

definition ebitmap_startbit :: "ebitmap \<Rightarrow> u32" where
  "ebitmap_startbit e = (case node e of [] \<Rightarrow> 0 | n # _ \<Rightarrow> startbit n)"

definition ebitmap_destroy :: "ebitmap \<Rightarrow> ebitmap" where
  "ebitmap_destroy e = e\<lparr>node := [], highbit := 0\<rparr>"

text \<open>Assignment of a \<open>size_t\<close> to a \<open>uint32_t\<close>.\<close>

abbreviation low32 :: "u64 \<Rightarrow> u32" where "low32 \<equiv> ucast"

text \<open>\<open>highbit\<close> as the functions that start from an empty chain set it: from the last node.\<close>

definition last_highbit :: "ebitmap_node list \<Rightarrow> u32" where
  "last_highbit ns = (if ns = [] then 0 else low32 (ucast (startbit (last ns)) + MAPSIZE))"

section \<open>Building a chain\<close>

text \<open>
  Allocate and append one node, then go on. When an allocation fails the chain built so far is
  destroyed, so nothing of it is kept.
\<close>

type_synonym chain = "alloc \<Rightarrow> ebitmap_node list option \<times> alloc"

definition done_chain :: chain where
  "done_chain m = (Some [], m)"

definition link_node :: "ebitmap_node \<Rightarrow> chain \<Rightarrow> chain" where
  "link_node n rest m =
    (case malloc m of
       (False, m') \<Rightarrow> (None, m')
     | (True, m') \<Rightarrow>
        (case rest m' of
           (None, m'') \<Rightarrow> (None, m'')
         | (Some ns, m'') \<Rightarrow> (Some (n # ns), m'')))"

section \<open>Set operations\<close>

fun or_loop :: "ebitmap_node list \<Rightarrow> ebitmap_node list \<Rightarrow> chain" where
  "or_loop [] [] = done_chain"
| "or_loop (a # as) [] = link_node \<lparr>startbit = startbit a, node_map = node_map a\<rparr> (or_loop as [])"
| "or_loop [] (b # bs) = link_node \<lparr>startbit = startbit b, node_map = node_map b\<rparr> (or_loop [] bs)"
| "or_loop (a # as) (b # bs) =
    (if startbit a = startbit b then
       link_node \<lparr>startbit = startbit a, node_map = node_map a OR node_map b\<rparr> (or_loop as bs)
     else if startbit a < startbit b then
       link_node \<lparr>startbit = startbit a, node_map = node_map a\<rparr> (or_loop as (b # bs))
     else link_node \<lparr>startbit = startbit b, node_map = node_map b\<rparr> (or_loop (a # as) bs))"

definition ebitmap_or :: "ebitmap \<Rightarrow> ebitmap \<Rightarrow> alloc \<Rightarrow> int \<times> ebitmap \<times> alloc" where
  "ebitmap_or e1 e2 m =
    (case or_loop (node e1) (node e2) m of
       (None, m') \<Rightarrow> (- ENOMEM, ebitmap_init, m')
     | (Some ns, m') \<Rightarrow>
        (0, \<lparr>node = ns, highbit = (if highbit e2 < highbit e1 then highbit e1 else highbit e2)\<rparr>, m'))"

definition ebitmap_union :: "ebitmap \<Rightarrow> ebitmap \<Rightarrow> alloc \<Rightarrow> int \<times> ebitmap \<times> alloc" where
  "ebitmap_union dst e1 m =
    (case ebitmap_or dst e1 m of
       (rc, tmp, m') \<Rightarrow>
         if rc \<noteq> 0 then (-1, dst, m')
         else (0, (ebitmap_destroy dst)\<lparr>node := node tmp, highbit := highbit tmp\<rparr>, m'))"

fun and_loop :: "ebitmap_node list \<Rightarrow> ebitmap_node list \<Rightarrow> chain" where
  "and_loop (a # as) (b # bs) =
    (if startbit a = startbit b then
       (if node_map a AND node_map b \<noteq> 0 then
          link_node \<lparr>startbit = startbit a, node_map = node_map a AND node_map b\<rparr> (and_loop as bs)
        else and_loop as bs)
     else if startbit b < startbit a then and_loop (a # as) bs
     else and_loop as (b # bs))"
| "and_loop as bs = done_chain"

definition ebitmap_and :: "ebitmap \<Rightarrow> ebitmap \<Rightarrow> alloc \<Rightarrow> int \<times> ebitmap \<times> alloc" where
  "ebitmap_and e1 e2 m =
    (case and_loop (node e1) (node e2) m of
       (None, m') \<Rightarrow> (- ENOMEM, ebitmap_init, m')
     | (Some ns, m') \<Rightarrow> (0, \<lparr>node = ns, highbit = last_highbit ns\<rparr>, m'))"

definition link_nonzero :: "u32 \<Rightarrow> u64 \<Rightarrow> chain \<Rightarrow> chain" where
  "link_nonzero s w rest =
    (if w \<noteq> 0 then link_node \<lparr>startbit = s, node_map = w\<rparr> rest else rest)"

fun xor_loop :: "ebitmap_node list \<Rightarrow> ebitmap_node list \<Rightarrow> chain" where
  "xor_loop [] [] = done_chain"
| "xor_loop (a # as) [] = link_nonzero (startbit a) (node_map a) (xor_loop as [])"
| "xor_loop [] (b # bs) = link_nonzero (startbit b) (node_map b) (xor_loop [] bs)"
| "xor_loop (a # as) (b # bs) =
    (if startbit a = startbit b then
       link_nonzero (startbit a) (node_map a XOR node_map b) (xor_loop as bs)
     else if startbit a < startbit b then
       link_nonzero (startbit a) (node_map a) (xor_loop as (b # bs))
     else link_nonzero (startbit b) (node_map b) (xor_loop (a # as) bs))"

definition ebitmap_xor :: "ebitmap \<Rightarrow> ebitmap \<Rightarrow> alloc \<Rightarrow> int \<times> ebitmap \<times> alloc" where
  "ebitmap_xor e1 e2 m =
    (case xor_loop (node e1) (node e2) m of
       (None, m') \<Rightarrow> (- ENOMEM, ebitmap_init, m')
     | (Some ns, m') \<Rightarrow> (0, \<lparr>node = ns, highbit = last_highbit ns\<rparr>, m'))"

subsection \<open>Complement\<close>

text \<open>
  One block of the complement: the block's bits and the rest of the argument's chain. The
  counter of the loop is a \<open>uint32_t\<close> and wraps; the loop ends even then, since every
  iteration consumes a node of the argument or an allocation.
\<close>

definition not_block :: "u32 \<Rightarrow> u32 \<Rightarrow> ebitmap_node list \<Rightarrow> u64 \<times> ebitmap_node list" where
  "not_block cur maxbit ns =
    (let (w, ns') =
       (case ns of
          n # rest \<Rightarrow> if startbit n = cur then (NOT (node_map n), rest) else (NOT 0, ns)
        | [] \<Rightarrow> (NOT 0, []));
      w' = (if ucast (maxbit - cur) < MAPSIZE
            then w AND (push_bit (unat (maxbit - cur)) 1 - 1) else w)
     in (w', ns'))"

lemma mask_nonzero: "0 < k \<Longrightarrow> k < 64 \<Longrightarrow> (push_bit k 1 - 1 :: u64) \<noteq> 0"
proof
  assume k: "0 < k" "k < 64" and "(push_bit k 1 - 1 :: u64) = 0"
  then have "mask k = (0 :: u64)" by (simp add: mask_eq_exp_minus_1 push_bit_eq_mult)
  then have "bit (mask k :: u64) 0 = False" by simp
  with k show False by (simp add: bit_simps)
qed

lemma not_block_progress:
  assumes "cur < maxbit" and "not_block cur maxbit ns = (0, ns')"
  shows "length ns' < length ns"
proof (rule ccontr)
  assume "\<not> length ns' < length ns"
  with assms(2) have full: "(if ucast (maxbit - cur) < MAPSIZE
      then NOT 0 AND (push_bit (unat (maxbit - cur)) 1 - 1) else NOT 0) = (0 :: u64)"
    by (auto simp: not_block_def Let_def split: list.splits if_splits)
  have "0 < unat (maxbit - cur)"
    using assms(1) by (simp add: unat_gt_0)
  moreover have "unat (maxbit - cur) < 64" if "ucast (maxbit - cur) < MAPSIZE"
    using that by (simp add: word_less_nat_alt)
  ultimately show False
    using full mask_nonzero [of "unat (maxbit - cur)"] by (auto split: if_splits)
qed

lemma not_block_rest: "not_block cur maxbit ns = (w, ns') \<Longrightarrow> length ns' \<le> length ns"
  by (auto simp: not_block_def Let_def split: list.splits if_splits)

function not_loop :: "u32 \<Rightarrow> u32 \<Rightarrow> ebitmap_node list \<Rightarrow> alloc \<Rightarrow> ebitmap_node list option \<times> alloc"
where
  "not_loop cur maxbit ns m =
    (if cur < maxbit then
       (case not_block cur maxbit ns of
          (w, ns') \<Rightarrow>
            if w \<noteq> 0 then
              (case malloc m of
                 (False, m') \<Rightarrow> (None, m')
               | (True, m') \<Rightarrow>
                   (case not_loop (cur + low32 MAPSIZE) maxbit ns' m' of
                      (None, m'') \<Rightarrow> (None, m'')
                    | (Some r, m'') \<Rightarrow> (Some (\<lparr>startbit = cur, node_map = w\<rparr> # r), m'')))
            else not_loop (cur + low32 MAPSIZE) maxbit ns' m)
     else (Some [], m))"
  by pat_completeness auto

termination
  by (relation "measure (\<lambda>(_, _, ns, m). length ns + length m)")
    (auto intro: add_le_less_mono not_block_rest [OF sym] malloc_True [OF sym]
      not_block_progress [OF _ sym])

declare not_loop.simps [simp del]

definition ebitmap_not :: "ebitmap \<Rightarrow> u32 \<Rightarrow> alloc \<Rightarrow> int \<times> ebitmap \<times> alloc" where
  "ebitmap_not e1 maxbit m =
    (case not_loop 0 maxbit (node e1) m of
       (None, m') \<Rightarrow> (- ENOMEM, ebitmap_init, m')
     | (Some ns, m') \<Rightarrow> (0, \<lparr>node = ns, highbit = last_highbit ns\<rparr>, m'))"

definition ebitmap_andnot :: "ebitmap \<Rightarrow> ebitmap \<Rightarrow> u32 \<Rightarrow> alloc \<Rightarrow> int \<times> ebitmap \<times> alloc" where
  "ebitmap_andnot e1 e2 maxbit m =
    (case ebitmap_not e2 maxbit m of
       (rc, e3, m') \<Rightarrow>
         if rc < 0 then (rc, ebitmap_init, m')
         else (case ebitmap_and e1 e3 m' of
                 (rc, dst, m'') \<Rightarrow> if rc < 0 then (rc, dst, m'') else (0, dst, m'')))"

section \<open>Counting and comparing\<close>

definition popcount :: "u64 \<Rightarrow> nat" where
  "popcount w = length (filter (bit w) [0..<64])"

fun cardinality_loop :: "ebitmap_node list \<Rightarrow> u32 \<Rightarrow> u32" where
  "cardinality_loop [] count = count"
| "cardinality_loop (n # ns) count = cardinality_loop ns (count + of_nat (popcount (node_map n)))"

definition ebitmap_cardinality :: "ebitmap \<Rightarrow> u32" where
  "ebitmap_cardinality e1 = cardinality_loop (node e1) 0"

fun cmp_loop :: "ebitmap_node list \<Rightarrow> ebitmap_node list \<Rightarrow> ebitmap_node list \<times> ebitmap_node list" where
  "cmp_loop (a # as) (b # bs) =
    (if startbit a = startbit b \<and> node_map a = node_map b then cmp_loop as bs else (a # as, b # bs))"
| "cmp_loop as bs = (as, bs)"

definition ebitmap_cmp :: "ebitmap \<Rightarrow> ebitmap \<Rightarrow> int" where
  "ebitmap_cmp e1 e2 =
    (if highbit e1 \<noteq> highbit e2 then 0
     else case cmp_loop (node e1) (node e2) of
       (n1, n2) \<Rightarrow> if n1 \<noteq> [] \<or> n2 \<noteq> [] then 0 else 1)"

definition ebitmap_hamming_distance :: "ebitmap \<Rightarrow> ebitmap \<Rightarrow> alloc \<Rightarrow> int \<times> alloc" where
  "ebitmap_hamming_distance e1 e2 m =
    (if ebitmap_cmp e1 e2 \<noteq> 0 then (0, m)
     else case ebitmap_xor e1 e2 m of
       (rc, tmp, m') \<Rightarrow>
         if rc < 0 then (-1, m') else (sint (ebitmap_cardinality tmp), m'))"

fun cpy_loop :: "ebitmap_node list \<Rightarrow> chain" where
  "cpy_loop [] = done_chain"
| "cpy_loop (n # ns) = link_node \<lparr>startbit = startbit n, node_map = node_map n\<rparr> (cpy_loop ns)"

definition ebitmap_cpy :: "ebitmap \<Rightarrow> alloc \<Rightarrow> int \<times> ebitmap \<times> alloc" where
  "ebitmap_cpy src m =
    (case cpy_loop (node src) m of
       (None, m') \<Rightarrow> (- ENOMEM, ebitmap_init, m')
     | (Some ns, m') \<Rightarrow> (0, \<lparr>node = ns, highbit = highbit src\<rparr>, m'))"

fun contains_loop :: "ebitmap_node list \<Rightarrow> ebitmap_node list \<Rightarrow> int" where
  "contains_loop (a # as) (b # bs) =
    (if startbit a \<le> startbit b then
       (if startbit a < startbit b then contains_loop as (b # bs)
        else if node_map a AND node_map b \<noteq> node_map b then 0
        else contains_loop as bs)
     else 0)"
| "contains_loop as [] = 1"
| "contains_loop [] (b # bs) = 0"

definition ebitmap_contains :: "ebitmap \<Rightarrow> ebitmap \<Rightarrow> int" where
  "ebitmap_contains e1 e2 =
    (if highbit e1 < highbit e2 then 0 else contains_loop (node e1) (node e2))"

fun match_any_loop :: "ebitmap_node list \<Rightarrow> ebitmap_node list \<Rightarrow> int" where
  "match_any_loop (a # as) (b # bs) =
    (if startbit a < startbit b then match_any_loop as (b # bs)
     else if startbit b < startbit a then match_any_loop (a # as) bs
     else if node_map a AND node_map b \<noteq> 0 then 1
     else match_any_loop as bs)"
| "match_any_loop as bs = 0"

definition ebitmap_match_any :: "ebitmap \<Rightarrow> ebitmap \<Rightarrow> int" where
  "ebitmap_match_any e1 e2 = match_any_loop (node e1) (node e2)"

section \<open>Single bits\<close>

fun get_bit_loop :: "ebitmap_node list \<Rightarrow> u32 \<Rightarrow> int" where
  "get_bit_loop [] bt = 0"
| "get_bit_loop (n # ns) bt =
    (if startbit n \<le> bt then
       (if ucast bt < ucast (startbit n) + MAPSIZE then
          (if node_map n AND push_bit (unat (bt - startbit n)) MAPBIT \<noteq> 0 then 1 else 0)
        else get_bit_loop ns bt)
     else 0)"

definition ebitmap_get_bit :: "ebitmap \<Rightarrow> u32 \<Rightarrow> int" where
  "ebitmap_get_bit e bt = (if highbit e < bt then 0 else get_bit_loop (node e) bt)"

text \<open>
  The new node, linked between \<open>prev\<close> and \<open>rest\<close>; \<open>rest\<close> empty means it is the last.
\<close>

definition set_bit_new ::
    "u32 \<Rightarrow> u32 \<Rightarrow> u32 \<Rightarrow> int \<Rightarrow> ebitmap_node list \<Rightarrow> u32 \<Rightarrow> alloc
      \<Rightarrow> int \<times> ebitmap_node list \<times> u32 \<times> alloc" where
  "set_bit_new bt sb hb val rest e_highbit m =
    (if val = 0 then (0, rest, e_highbit, m)
     else case malloc m of
       (False, m') \<Rightarrow> (- ENOMEM, rest, e_highbit, m')
     | (True, m') \<Rightarrow>
        (0, \<lparr>startbit = sb, node_map = push_bit (unat (bt - sb)) MAPBIT\<rparr> # rest,
         if rest = [] then hb else e_highbit, m'))"

fun set_bit_loop ::
    "u32 \<Rightarrow> u32 \<Rightarrow> u32 \<Rightarrow> int \<Rightarrow> ebitmap_node option \<Rightarrow> ebitmap_node list \<Rightarrow> u32 \<Rightarrow> alloc
      \<Rightarrow> int \<times> ebitmap_node list \<times> u32 \<times> alloc" where
  "set_bit_loop bt sb hb val prev [] e_highbit m = set_bit_new bt sb hb val [] e_highbit m"
| "set_bit_loop bt sb hb val prev (n # ns) e_highbit m =
    (if startbit n \<le> bt then
       (if ucast bt < ucast (startbit n) + MAPSIZE then
          (if val \<noteq> 0 then
             (0, n\<lparr>node_map := node_map n OR push_bit (unat (bt - startbit n)) MAPBIT\<rparr> # ns,
              e_highbit, m)
           else
             (let w = node_map n AND NOT (push_bit (unat (bt - startbit n)) MAPBIT) in
              if w = 0 then
                (0, ns,
                 if ns = [] then
                   (case prev of Some p \<Rightarrow> low32 (ucast (startbit p) + MAPSIZE) | None \<Rightarrow> 0)
                 else e_highbit, m)
              else (0, n\<lparr>node_map := w\<rparr> # ns, e_highbit, m)))
        else
          (case set_bit_loop bt sb hb val (Some n) ns e_highbit m of
             (rc, ns', hb', m') \<Rightarrow> (rc, n # ns', hb', m')))
     else set_bit_new bt sb hb val (n # ns) e_highbit m)"

definition ebitmap_set_bit :: "ebitmap \<Rightarrow> u32 \<Rightarrow> int \<Rightarrow> alloc \<Rightarrow> int \<times> ebitmap \<times> alloc" where
  "ebitmap_set_bit e bt val m =
    (let sb = low32 (ucast bt AND NOT (MAPSIZE - 1));
         hb = low32 (ucast sb + MAPSIZE)
     in if hb = 0 then (- EINVAL, e, m)
        else case set_bit_loop bt sb hb val None (node e) (highbit e) m of
          (rc, ns, hb', m') \<Rightarrow> (rc, \<lparr>node = ns, highbit = hb'\<rparr>, m'))"

subsection \<open>Ranges\<close>

definition range_map :: "u32 \<Rightarrow> u32 \<Rightarrow> u32 \<Rightarrow> u32 \<Rightarrow> u32 \<Rightarrow> u64" where
  "range_map minbit maxbit minstartbit maxstartbit sb =
    (if sb \<noteq> minstartbit \<and> sb \<noteq> maxstartbit then NOT 0
     else if sb \<noteq> maxstartbit then push_bit (unat (minbit - sb)) (NOT 0)
     else if sb \<noteq> minstartbit then
       drop_bit (unat (MAPSIZE - ucast (maxbit - sb + 1))) (NOT 0)
     else push_bit (unat (minbit - sb))
       (drop_bit (unat (MAPSIZE - ucast (maxbit - minbit + 1))) (NOT 0)))"

text \<open>
  The loop keeps what it has built when an allocation fails; the result is the chain and whether
  every allocation succeeded.
\<close>

function range_loop ::
    "u32 \<Rightarrow> u32 \<Rightarrow> u32 \<Rightarrow> u32 \<Rightarrow> u32 \<Rightarrow> alloc \<Rightarrow> bool \<times> ebitmap_node list \<times> alloc" where
  "range_loop minbit maxbit minstartbit maxstartbit sb m =
    (if sb \<le> maxstartbit then
       (case malloc m of
          (False, m') \<Rightarrow> (False, [], m')
        | (True, m') \<Rightarrow>
           (case range_loop minbit maxbit minstartbit maxstartbit (sb + low32 MAPSIZE) m' of
              (ok, ns, m'') \<Rightarrow>
                (ok, \<lparr>startbit = sb, node_map = range_map minbit maxbit minstartbit maxstartbit sb\<rparr> # ns,
                 m'')))
     else (True, [], m))"
  by pat_completeness auto
termination
  by (relation "measure (\<lambda>(_, _, _, _, _, m). length m)") (auto dest: malloc_True [OF sym])

declare range_loop.simps [simp del]

definition ebitmap_init_range :: "u32 \<Rightarrow> u32 \<Rightarrow> alloc \<Rightarrow> int \<times> ebitmap \<times> alloc" where
  "ebitmap_init_range minbit maxbit m =
    (let minstartbit = low32 (ucast minbit AND NOT (MAPSIZE - 1));
         maxstartbit = low32 (ucast maxbit AND NOT (MAPSIZE - 1));
         minhighbit = low32 (ucast minstartbit + MAPSIZE);
         maxhighbit = low32 (ucast maxstartbit + MAPSIZE)
     in if maxbit < minbit then (- EINVAL, ebitmap_init, m)
        else if minhighbit = 0 \<or> maxhighbit = 0 then (- EOVERFLOW, ebitmap_init, m)
        else case range_loop minbit maxbit minstartbit maxstartbit minstartbit m of
          (ok, ns, m') \<Rightarrow>
            if ok then (0, \<lparr>node = ns, highbit = maxhighbit\<rparr>, m')
            else (- ENOMEM, \<lparr>node = ns, highbit = 0\<rparr>, m'))"

function high_pos :: "u64 \<Rightarrow> u32 \<Rightarrow> u32" where
  "high_pos w pos = (let w' = drop_bit 1 w in if w' \<noteq> 0 then high_pos w' (pos + 1) else pos)"
  by pat_completeness auto
termination
proof (relation "measure (\<lambda>(w, _). unat w)")
  fix w w' :: u64 and pos :: u32
  assume "w' = drop_bit 1 w" "w' \<noteq> 0"
  then have "unat w' = unat w div 2" by (simp add: drop_bit_Suc unat_div)
  moreover have "0 < unat w'" using \<open>w' \<noteq> 0\<close> by (simp add: unat_gt_0)
  ultimately show "((w', pos + 1), w, pos) \<in> measure (\<lambda>(w, _). unat w)" by simp
qed simp

declare high_pos.simps [simp del]

definition ebitmap_highest_set_bit :: "ebitmap \<Rightarrow> u32" where
  "ebitmap_highest_set_bit e =
    (if node e = [] then 0
     else startbit (last (node e)) + high_pos (node_map (last (node e))) 0)"

section \<open>Iteration\<close>

definition ebitmap_node_get_bit :: "ebitmap_node \<Rightarrow> u32 \<Rightarrow> bool" where
  "ebitmap_node_get_bit n bt \<longleftrightarrow> node_map n AND push_bit (unat (bt - startbit n)) MAPBIT \<noteq> 0"

fun ebitmap_next :: "ebitmap_node list \<Rightarrow> u32 \<Rightarrow> ebitmap_node list \<times> u32" where
  "ebitmap_next (n # n' # ns) bt =
    (if ucast bt = ucast (startbit n) + MAPSIZE - 1 then (n' # ns, startbit n')
     else (n # n' # ns, bt + 1))"
| "ebitmap_next ns bt = (ns, bt + 1)"

text \<open>
  \<open>ebitmap_for_each_positive_bit\<close>: the bits its body is run for, in order. The first argument
  is the pointer to the current node, the second the length, the third the current bit; \<open>None\<close>
  is a loop that does not end.
\<close>

partial_function (option) for_each_positive_bit ::
    "ebitmap_node list \<Rightarrow> u32 \<Rightarrow> u32 \<Rightarrow> u32 list option" where
  "for_each_positive_bit ns len bt =
    (if bt < len then
       (case ebitmap_next ns bt of
          (ns', bt') \<Rightarrow>
            Option.bind (for_each_positive_bit ns' len bt')
              (\<lambda>bs. Some (if ns \<noteq> [] \<and> ebitmap_node_get_bit (hd ns) bt then bt # bs else bs)))
     else Some [])"

definition ebitmap_positive_bits :: "ebitmap \<Rightarrow> u32 list option" where
  "ebitmap_positive_bits e = for_each_positive_bit (node e) (ebitmap_length e) (ebitmap_startbit e)"

end
