(* ===== verification/Ebitmap_Set.thy ===== *)
theory Ebitmap_Set
  imports Ebitmap
begin

text \<open>
  Bitmaps as sets of 32-bit numbers. A bitmap is well formed when its blocks are in
  increasing order, aligned, non-empty, not the last block of the number range, and
  \<open>highbit\<close> is the end of the last block; \<open>ebits\<close> is the set it stands for. Every
  operation of \<open>ebitmap.c\<close> keeps bitmaps well formed and computes the set operation its
  name says. The merge loops of union, intersection and symmetric difference are proved
  once, in a locale, and interpreted three times.
\<close>

section \<open>Blocks\<close>

definition block :: "u32 \<Rightarrow> u32" where "block b = b AND NOT 63"

abbreviation offset :: "u32 \<Rightarrow> nat" where "offset b \<equiv> unat b mod 64"

lemma block_offset: "block b + (b AND 63) = b"
proof -
  have "block b + (b AND 63) = (b AND NOT 63) OR (b AND 63)"
    unfolding block_def by (rule disjunctive_add) (simp add: bit_simps)
  also have "\<dots> = b" by (rule bit_eqI) (auto simp: bit_simps)
  finally show ?thesis .
qed

lemma unat_and_63: "unat (b AND 63 :: u32) = unat b mod 64"
proof -
  have "(63 :: u32) = mask 6" by (simp add: mask_eq_exp_minus_1)
  then have "b AND 63 = take_bit 6 b" by (simp add: take_bit_eq_mask)
  then show ?thesis by (simp add: unat_mod take_bit_eq_mod)
qed

lemma unat_block: "unat (block b) = unat b div 64 * 64"
proof -
  have "block b = b - (b AND 63)" using block_offset [of b] by (metis add_diff_cancel_right')
  moreover have "b AND 63 \<le> b" by (simp add: word_le_nat_alt unat_and_63)
  ultimately have "unat (block b) = unat b - unat b mod 64"
    by (simp add: unat_sub unat_and_63)
  then show ?thesis by (simp add: minus_mod_eq_div_mult)
qed

lemma source_block: "low32 (ucast bt AND NOT (MAPSIZE - 1)) = block bt"
  unfolding block_def by (rule bit_eqI) (simp add: bit_simps)

definition aligned :: "u32 \<Rightarrow> bool" where "aligned s \<longleftrightarrow> s AND 63 = 0"

lemma aligned_iff: "aligned s \<longleftrightarrow> unat s mod 64 = 0"
  using unat_and_63 [of s] by (auto simp: aligned_def unat_eq_0 [symmetric] simp del: unat_eq_0)

lemma aligned_block [simp]: "aligned (block b)"
  by (simp add: aligned_iff unat_block)

lemma block_aligned: "aligned s \<Longrightarrow> block s = s"
  by (rule unsigned_word_eqI [where ?'a = nat]) (auto simp: aligned_iff unat_block)

lemma in_block:
  assumes "aligned s"
  shows "s \<le> bt \<and> (ucast bt :: u64) < ucast s + MAPSIZE \<longleftrightarrow> block bt = s"
proof -
  have "unat (ucast s + MAPSIZE) = unat s + 64" using unat_ucast_plus [of 64 s] by simp
  moreover have "block bt = s \<longleftrightarrow> unat bt div 64 * 64 = unat s"
    by (metis unat_block unsigned_word_eqI)
  ultimately show ?thesis
    using assms by (auto simp: word_le_nat_alt word_less_nat_alt aligned_iff)
qed

lemma offset_diff: "block bt = s \<Longrightarrow> unat (bt - s) = offset bt"
proof -
  assume "block bt = s"
  with block_offset [of bt] have "bt - s = bt AND 63" by (metis add_diff_cancel_left')
  then show ?thesis by (simp add: unat_and_63)
qed

lemma test_bit: "k < 64 \<Longrightarrow> w AND push_bit k MAPBIT \<noteq> 0 \<longleftrightarrow> bit w k"
proof -
  assume k: "k < 64"
  have "bit (w AND push_bit k (1::u64)) i \<longleftrightarrow> bit w k \<and> i = k" for i
    using k by (auto simp: bit_simps)
  then show ?thesis by (metis bit_0_eq bot_apply bot_bool_def bit_eqI)
qed

lemma low32_plus: "low32 (ucast s + MAPSIZE) = s + 64"
  by (rule unsigned_word_eqI [where ?'a = nat])
    (use unat_lt_u32 [of s] in \<open>simp add: unsigned_ucast_eq take_bit_eq_mod unat_word_ariths\<close>)

section \<open>Chains\<close>

primrec word_at :: "ebitmap_node list \<Rightarrow> u32 \<Rightarrow> u64" where
  "word_at [] s = 0"
| "word_at (n # ns) s = (if startbit n = s then node_map n else word_at ns s)"

definition node_ok :: "ebitmap_node \<Rightarrow> bool" where
  "node_ok n \<longleftrightarrow> aligned (startbit n) \<and> startbit n \<noteq> block (- 1) \<and> node_map n \<noteq> 0"

definition chain_ok :: "ebitmap_node list \<Rightarrow> bool" where
  "chain_ok ns \<longleftrightarrow> sorted_wrt (\<lambda>a b. startbit a < startbit b) ns \<and> list_all node_ok ns"

definition below :: "u32 \<Rightarrow> ebitmap_node list \<Rightarrow> bool" where
  "below s ns \<longleftrightarrow> (\<forall>n \<in> set ns. s < startbit n)"

lemma below_simps [simp]:
  "below s []"
  "below s (n # ns) \<longleftrightarrow> s < startbit n \<and> below s ns"
  by (simp_all add: below_def)

lemma below_trans: "below s ns \<Longrightarrow> s' < s \<Longrightarrow> below s' ns"
  by (auto simp: below_def)

lemma chain_ok_simps [simp]:
  "chain_ok []"
  "chain_ok (n # ns) \<longleftrightarrow> node_ok n \<and> below (startbit n) ns \<and> chain_ok ns"
  by (auto simp: chain_ok_def below_def)

definition ebitmap_ok :: "ebitmap \<Rightarrow> bool" where
  "ebitmap_ok e \<longleftrightarrow> chain_ok (node e) \<and> highbit e = last_highbit (node e)"

definition ebits :: "ebitmap \<Rightarrow> u32 set" where
  "ebits e = {b. bit (word_at (node e) (block b)) (offset b)}"

lemma word_at_below: "below s ns \<Longrightarrow> word_at ns s = 0"
  by (induction ns) auto

lemma word_at_nodes: "word_at ns s \<noteq> 0 \<Longrightarrow> \<exists>n \<in> set ns. startbit n = s \<and> node_map n = word_at ns s"
  by (induction ns) (auto split: if_splits)

lemma word_at_member: "chain_ok ns \<Longrightarrow> n \<in> set ns \<Longrightarrow> word_at ns (startbit n) = node_map n"
  by (induction ns) (auto simp: below_def)

lemma word_at_unaligned: "list_all node_ok ns \<Longrightarrow> \<not> aligned s \<Longrightarrow> word_at ns s = 0"
  by (induction ns) (auto simp: node_ok_def)

lemma word_at_last_block: "list_all node_ok ns \<Longrightarrow> word_at ns (block (- 1)) = 0"
  by (induction ns) (auto simp: node_ok_def)

text \<open>A chain is determined by its words.\<close>

lemma word_at_inject:
  assumes "chain_ok ns" and "chain_ok ns'" and "word_at ns = word_at ns'"
  shows "ns = ns'"
  using assms
proof (induction ns arbitrary: ns')
  case Nil
  then show ?case
    by (cases ns') (auto simp: node_ok_def fun_eq_iff, metis)
next
  case (Cons n ns)
  show ?case
  proof (cases ns')
    case Nil
    with Cons.prems show ?thesis by (auto simp: node_ok_def fun_eq_iff split: if_splits)
  next
    case (Cons n' ms)
    have lt: "\<not> startbit a < startbit b"
      if "word_at (a # as) = word_at (b # bs)" "node_ok a" "below (startbit b) bs"
      for a b :: ebitmap_node and as bs
    proof
      assume "startbit a < startbit b"
      with that(3) have "word_at (b # bs) (startbit a) = 0"
        by (intro word_at_below) (simp add: below_trans)
      with fun_cong [OF that(1), of "startbit a"] that(2) show False by (simp add: node_ok_def)
    qed
    have eq: "word_at (n # ns) = word_at (n' # ms)" using Cons.prems(3) unfolding Cons .
    have s: "startbit n = startbit n'"
      using lt [OF eq] lt [OF eq [symmetric]] Cons Cons.prems(1,2) by (simp add: not_less)
    moreover have "node_map n = node_map n'"
      using fun_cong [OF eq, of "startbit n"] s by simp
    moreover have "word_at ns = word_at ms"
    proof
      fix s
      show "word_at ns s = word_at ms s"
      proof (cases "s = startbit n")
        case True
        with s Cons Cons.prems(1,2) show ?thesis by (simp add: word_at_below)
      next
        case False
        with fun_cong [OF eq, of s] s show ?thesis by simp
      qed
    qed
    ultimately show ?thesis using Cons Cons.prems Cons.IH [of ms] by simp
  qed
qed

section \<open>Building chains\<close>

primrec alloc_chain :: "ebitmap_node list \<Rightarrow> chain" where
  "alloc_chain [] = done_chain"
| "alloc_chain (n # ns) = link_node n (alloc_chain ns)"

lemma alloc_chain_Some: "alloc_chain ns m = (Some ns', m') \<Longrightarrow> ns' = ns"
  by (induction ns arbitrary: m ns' m')
    (auto simp: done_chain_def link_node_def split: prod.splits bool.splits option.splits)

lemma alloc_chain_enough:
  "length ns \<le> k \<Longrightarrow>
   alloc_chain ns (replicate k True @ m) = (Some ns, replicate (k - length ns) True @ m)"
proof (induction ns arbitrary: k)
  case (Cons n ns)
  then show ?case by (cases k) (simp_all add: link_node_def)
qed (simp add: done_chain_def)

text \<open>
  What the three merge loops have in common: each builds the chain of the words of its two
  arguments combined by a bitwise operation, and fails only for lack of memory.
\<close>

locale chain_merge =
  fixes loop :: "ebitmap_node list \<Rightarrow> ebitmap_node list \<Rightarrow> chain"
    and merge :: "ebitmap_node list \<Rightarrow> ebitmap_node list \<Rightarrow> ebitmap_node list"
    and fw :: "u64 \<Rightarrow> u64 \<Rightarrow> u64"
    and fb :: "bool \<Rightarrow> bool \<Rightarrow> bool"
  assumes loop_merge: "loop as bs = alloc_chain (merge as bs)"
    and merge_ok: "chain_ok as \<Longrightarrow> chain_ok bs \<Longrightarrow> chain_ok (merge as bs)"
    and merge_word: "chain_ok as \<Longrightarrow> chain_ok bs \<Longrightarrow> word_at (merge as bs) s = fw (word_at as s) (word_at bs s)"
    and fw_bit: "k < 64 \<Longrightarrow> bit (fw v w) k \<longleftrightarrow> fb (bit v k) (bit w k)"
    and merge_length: "length (merge as bs) \<le> length as + length bs"
begin

lemma loop_Some:
  assumes "loop as bs m = (Some ns, m')"
  shows "ns = merge as bs"
  using assms by (auto simp: loop_merge dest: alloc_chain_Some)

lemma loop_enough:
  assumes "length as + length bs \<le> k"
  shows "fst (loop as bs (replicate k True)) = Some (merge as bs)"
  using alloc_chain_enough [of "merge as bs" k "[]"] merge_length [of as bs] assms
  by (simp add: loop_merge)

lemma merge_bits:
  assumes "ebitmap_ok e1" and "ebitmap_ok e2" and "node e = merge (node e1) (node e2)"
  shows "ebits e = {b. fb (b \<in> ebits e1) (b \<in> ebits e2)}"
  using assms by (simp add: ebits_def ebitmap_ok_def merge_word fw_bit)

lemma loop_sound:
  assumes "loop (node e1) (node e2) m = (Some ns, m')" and "ebitmap_ok e1" and "ebitmap_ok e2"
  shows "ebitmap_ok \<lparr>node = ns, highbit = last_highbit ns\<rparr> \<and>
    ebits \<lparr>node = ns, highbit = h\<rparr> = {b. fb (b \<in> ebits e1) (b \<in> ebits e2)}"
proof -
  have "ns = merge (node e1) (node e2)" using assms(1) by (rule loop_Some)
  with assms(2,3) merge_bits [OF assms(2,3), of "\<lparr>node = ns, highbit = h\<rparr>"] show ?thesis
    by (simp add: ebitmap_ok_def merge_ok)
qed

end

text \<open>The three merges, without memory.\<close>

fun or_chain :: "ebitmap_node list \<Rightarrow> ebitmap_node list \<Rightarrow> ebitmap_node list" where
  "or_chain [] bs = bs"
| "or_chain as [] = as"
| "or_chain (a # as) (b # bs) =
    (if startbit a = startbit b then
       \<lparr>startbit = startbit a, node_map = node_map a OR node_map b\<rparr> # or_chain as bs
     else if startbit a < startbit b then a # or_chain as (b # bs)
     else b # or_chain (a # as) bs)"

fun and_chain :: "ebitmap_node list \<Rightarrow> ebitmap_node list \<Rightarrow> ebitmap_node list" where
  "and_chain (a # as) (b # bs) =
    (if startbit a = startbit b then
       (if node_map a AND node_map b \<noteq> 0 then
          \<lparr>startbit = startbit a, node_map = node_map a AND node_map b\<rparr> # and_chain as bs
        else and_chain as bs)
     else if startbit b < startbit a then and_chain (a # as) bs
     else and_chain as (b # bs))"
| "and_chain as bs = []"

definition cons_nonzero :: "u32 \<Rightarrow> u64 \<Rightarrow> ebitmap_node list \<Rightarrow> ebitmap_node list" where
  "cons_nonzero s w ns = (if w = 0 then ns else \<lparr>startbit = s, node_map = w\<rparr> # ns)"

fun xor_chain :: "ebitmap_node list \<Rightarrow> ebitmap_node list \<Rightarrow> ebitmap_node list" where
  "xor_chain [] [] = []"
| "xor_chain (a # as) [] = cons_nonzero (startbit a) (node_map a) (xor_chain as [])"
| "xor_chain [] (b # bs) = cons_nonzero (startbit b) (node_map b) (xor_chain [] bs)"
| "xor_chain (a # as) (b # bs) =
    (if startbit a = startbit b then
       cons_nonzero (startbit a) (node_map a XOR node_map b) (xor_chain as bs)
     else if startbit a < startbit b then
       cons_nonzero (startbit a) (node_map a) (xor_chain as (b # bs))
     else cons_nonzero (startbit b) (node_map b) (xor_chain (a # as) bs))"

lemma node_eta [simp]: "\<lparr>startbit = startbit n, node_map = node_map n\<rparr> = n"
  by (cases n) simp

lemma or_chain_Nil [simp]: "or_chain as [] = as"
  by (cases as) simp_all

lemma below_or: "below s as \<Longrightarrow> below s bs \<Longrightarrow> below s (or_chain as bs)"
  by (induction as bs rule: or_chain.induct) auto

lemma below_and: "below s as \<Longrightarrow> below s bs \<Longrightarrow> below s (and_chain as bs)"
  by (induction as bs rule: and_chain.induct) auto

lemma below_cons_nonzero [simp]:
  "below s (cons_nonzero s' w ns) \<longleftrightarrow> (w \<noteq> 0 \<longrightarrow> s < s') \<and> below s ns"
  by (simp add: cons_nonzero_def)

lemma below_xor: "below s as \<Longrightarrow> below s bs \<Longrightarrow> below s (xor_chain as bs)"
  by (induction as bs rule: xor_chain.induct) auto

lemma start_neq: "startbit a \<noteq> startbit b \<longleftrightarrow> startbit a < startbit b \<or> startbit b < startbit a"
  by auto

lemma or_nonzero: "v \<noteq> 0 \<Longrightarrow> v OR w \<noteq> (0 :: u64)"
  by (simp add: or_eq_0_iff)

interpretation or_m: chain_merge or_loop or_chain "(OR)" "(\<or>)"
proof
  show "or_loop as bs = alloc_chain (or_chain as bs)" for as bs
    by (induction as bs rule: or_loop.induct) auto
  show "chain_ok (or_chain as bs)" if "chain_ok as" "chain_ok bs" for as bs
    using that by (induction as bs rule: or_chain.induct)
      (auto simp: node_ok_def or_nonzero start_neq intro!: below_or dest: below_trans)
  show "word_at (or_chain as bs) s = word_at as s OR word_at bs s"
    if "chain_ok as" "chain_ok bs" for as bs s
    using that by (induction as bs rule: or_chain.induct)
      (auto simp: word_at_below start_neq dest: below_trans)
  show "length (or_chain as bs) \<le> length as + length bs" for as bs
    by (induction as bs rule: or_chain.induct) auto
qed (simp add: bit_simps)

interpretation and_m: chain_merge and_loop and_chain "(AND)" "(\<and>)"
proof
  show "and_loop as bs = alloc_chain (and_chain as bs)" for as bs
    by (induction as bs rule: and_loop.induct) auto
  show "chain_ok (and_chain as bs)" if "chain_ok as" "chain_ok bs" for as bs
    using that by (induction as bs rule: and_chain.induct)
      (auto simp: node_ok_def start_neq intro!: below_and dest: below_trans)
  show "word_at (and_chain as bs) s = word_at as s AND word_at bs s"
    if "chain_ok as" "chain_ok bs" for as bs s
    using that by (induction as bs rule: and_chain.induct)
      (auto simp: word_at_below start_neq dest: below_trans)
  show "length (and_chain as bs) \<le> length as + length bs" for as bs
    by (induction as bs rule: and_chain.induct) auto
qed (simp add: bit_simps)

lemma word_at_cons_nonzero:
  "word_at (cons_nonzero s w ns) s' = (if s = s' \<and> w \<noteq> 0 then w else word_at ns s')"
  by (simp add: cons_nonzero_def)

lemma chain_ok_cons_nonzero:
  "chain_ok (cons_nonzero s w ns) \<longleftrightarrow>
    (w \<noteq> 0 \<longrightarrow> aligned s \<and> s \<noteq> block (- 1) \<and> below s ns) \<and> chain_ok ns"
  by (auto simp: cons_nonzero_def node_ok_def)

interpretation xor_m: chain_merge xor_loop xor_chain "(XOR)" "(\<noteq>)"
proof
  show "xor_loop as bs = alloc_chain (xor_chain as bs)" for as bs
    by (induction as bs rule: xor_loop.induct) (auto simp: cons_nonzero_def link_nonzero_def)
  show "chain_ok (xor_chain as bs)" if "chain_ok as" "chain_ok bs" for as bs
    using that by (induction as bs rule: xor_chain.induct)
      (auto simp: node_ok_def chain_ok_cons_nonzero start_neq intro!: below_xor dest: below_trans)
  show "word_at (xor_chain as bs) s = word_at as s XOR word_at bs s"
    if "chain_ok as" "chain_ok bs" for as bs s
    using that by (induction as bs rule: xor_chain.induct)
      (auto simp: word_at_below start_neq word_at_cons_nonzero dest: below_trans)
  show "length (xor_chain as bs) \<le> length as + length bs" for as bs
    by (induction as bs rule: xor_chain.induct) (auto simp: cons_nonzero_def)
qed (auto simp: bit_simps)

section \<open>Sets of bits\<close>

definition bits_of :: "ebitmap_node list \<Rightarrow> u32 set" where
  "bits_of ns = {b. bit (word_at ns (block b)) (offset b)}"

lemma ebits_bits_of: "ebits e = bits_of (node e)"
  by (simp add: ebits_def bits_of_def)

lemma aligned_room: "aligned s \<Longrightarrow> k < 64 \<Longrightarrow> unat (s + of_nat k) = unat s + k"
proof -
  assume s: "aligned s" and k: "k < 64"
  have "unat s < 2 ^ 32" by (rule unat_lt_u32)
  with s k have "unat s + k < 2 ^ 32" by (simp add: aligned_iff) presburger
  with k show ?thesis by (simp add: unat_word_ariths unat_of_nat)
qed

lemma block_plus:
  assumes "aligned s" and "k < 64"
  shows "block (s + of_nat k) = s" and "offset (s + of_nat k) = k"
proof -
  have u: "unat (s + of_nat k) = unat s + k" using assms by (rule aligned_room)
  from assms(1) obtain q where q: "unat s = 64 * q" by (auto simp: aligned_iff)
  show "offset (s + of_nat k) = k" using assms(2) by (simp only: u q) simp
  show "block (s + of_nat k) = s"
  proof (rule unsigned_word_eqI [where ?'a = nat])
    have "(unat s + k) div 64 * 64 = unat s" using assms(2) by (simp add: q)
    then show "unat (block (s + of_nat k)) = unat s" by (simp only: unat_block u)
  qed
qed

lemma test_bit_power [simp]: "k < 64 \<Longrightarrow> (w AND 2 ^ k = (0 :: u64)) \<longleftrightarrow> \<not> bit w k"
  using test_bit [of k w] by auto

lemma word_eq_bits: "(\<And>k. k < 64 \<Longrightarrow> bit v k = bit w k) \<Longrightarrow> v = (w :: u64)"
  by (rule bit_word_eqI) simp

lemma bits_of_inject:
  assumes "chain_ok ns" and "chain_ok ns'" and "bits_of ns = bits_of ns'"
  shows "ns = ns'"
proof (rule word_at_inject [OF assms(1,2)], rule ext)
  fix s
  show "word_at ns s = word_at ns' s"
  proof (cases "aligned s")
    case True
    show ?thesis
    proof (rule word_eq_bits)
      fix k :: nat assume k: "k < 64"
      have "s + of_nat k \<in> bits_of ns \<longleftrightarrow> s + of_nat k \<in> bits_of ns'" by (simp add: assms(3))
      with True k show "bit (word_at ns s) k = bit (word_at ns' s) k"
        by (simp add: bits_of_def block_plus)
    qed
  next
    case False
    with assms(1,2) show ?thesis by (simp add: chain_ok_def word_at_unaligned)
  qed
qed

lemma bits_of_zero_iff: "chain_ok ns \<Longrightarrow> bits_of ns = {} \<longleftrightarrow> ns = []"
  using bits_of_inject [of ns "[]"] by (auto simp: bits_of_def)

section \<open>The end of a chain\<close>

lemma node_end: "node_ok n \<Longrightarrow> unat (startbit n + 64) = unat (startbit n) + 64"
proof -
  assume n: "node_ok n"
  have "unat (block (- 1)) = 2 ^ 32 - 64" by (simp add: unat_block unsigned_minus_1_eq_mask mask_eq_exp_minus_1)
  with n have "unat (startbit n) \<noteq> 2 ^ 32 - 64" and "unat (startbit n) mod 64 = 0"
    by (auto simp: node_ok_def aligned_iff) (metis unsigned_word_eqI)
  moreover have "unat (startbit n) < 2 ^ 32" by (rule unat_lt_u32)
  ultimately have "unat (startbit n) + 64 < 2 ^ 32" by simp presburger
  then show ?thesis by (simp add: unat_word_ariths)
qed

lemma last_highbit_simps [simp]:
  "last_highbit [] = 0"
  "last_highbit [n] = startbit n + 64"
  "ns \<noteq> [] \<Longrightarrow> last_highbit (n # ns) = last_highbit ns"
  by (simp_all add: last_highbit_def low32_plus)

lemma last_highbit_le_iff:
  "chain_ok ns \<Longrightarrow> last_highbit ns \<le> x \<longleftrightarrow> (\<forall>s \<in> startbit ` set ns. s + 64 \<le> x)"
proof (induction ns)
  case (Cons n ns)
  show ?case
  proof (cases ns)
    case Nil
    then show ?thesis by simp
  next
    case (Cons n' ns')
    have "startbit n + 64 \<le> startbit n' + 64"
      using Cons.prems Cons node_end [of n] node_end [of n'] by (simp add: word_nat)
    with Cons Cons.IH Cons.prems show ?thesis by (auto intro: order.trans)
  qed
qed simp

lemma last_highbit_unique:
  assumes "chain_ok ns" and "\<And>x. h \<le> x \<longleftrightarrow> (\<forall>s \<in> startbit ` set ns. s + 64 \<le> x)"
  shows "h = last_highbit ns"
  using assms(2) [of h] assms(2) [of "last_highbit ns"]
    last_highbit_le_iff [OF assms(1), of h] last_highbit_le_iff [OF assms(1), of "last_highbit ns"]
  by (simp add: antisym)

lemma bits_below_highbit:
  assumes "chain_ok ns" and "b \<in> bits_of ns"
  shows "b < last_highbit ns"
proof -
  have "word_at ns (block b) \<noteq> 0" using assms(2) unfolding bits_of_def by (intro notI) simp
  then obtain n where n: "n \<in> set ns" "startbit n = block b" using word_at_nodes by blast
  then have "node_ok n" using assms(1) by (auto simp: chain_ok_def list_all_iff)
  have "block b + 64 \<le> last_highbit ns"
    using last_highbit_le_iff [OF assms(1), of "last_highbit ns"] n by force
  moreover have "unat (block b + 64) = unat b div 64 * 64 + 64"
    using node_end [OF \<open>node_ok n\<close>] n(2) by (simp add: unat_block)
  ultimately show ?thesis by (simp add: word_le_nat_alt word_less_nat_alt)
qed

section \<open>Membership\<close>

lemma get_bit_loop_correct:
  "chain_ok ns \<Longrightarrow> get_bit_loop ns bt = (if bt \<in> bits_of ns then 1 else 0)"
proof (induction ns)
  case (Cons n ns)
  have al: "aligned (startbit n)" using Cons.prems by (simp add: node_ok_def)
  show ?case
  proof (cases "block bt = startbit n")
    case True
    then have "startbit n \<le> bt" "(ucast bt :: u64) < ucast (startbit n) + MAPSIZE"
      using in_block [OF al, of bt] by auto
    with True show ?thesis
      by (simp add: offset_diff test_bit bits_of_def)
  next
    case False
    show ?thesis
    proof (cases "startbit n \<le> bt")
      case True
      then have "\<not> (ucast bt :: u64) < ucast (startbit n) + MAPSIZE"
        using in_block [OF al, of bt] False by auto
      with True False Cons show ?thesis by (auto simp: bits_of_def)
    next
      case f: False
      have "block bt \<le> bt" by (simp add: word_le_nat_alt unat_block)
      with f Cons.prems have "below (block bt) (n # ns)" by (auto intro: below_trans)
      then have "bt \<notin> bits_of (n # ns)" using word_at_below [of "block bt" "n # ns"]
        by (simp add: bits_of_def del: word_at.simps)
      with f show ?thesis by simp
    qed
  qed
qed (simp add: bits_of_def)

lemma get_bit_correct:
  assumes "ebitmap_ok e"
  shows "ebitmap_get_bit e bt = (if bt \<in> ebits e then 1 else 0)"
  using assms bits_below_highbit [of "node e" bt]
  by (auto simp: ebitmap_get_bit_def ebitmap_ok_def ebits_bits_of get_bit_loop_correct)

section \<open>Union, intersection, symmetric difference\<close>

lemma starts_or: "startbit ` set (or_chain as bs) = startbit ` set as \<union> startbit ` set bs"
  by (induction as bs rule: or_chain.induct) auto

lemma or_highbit:
  assumes "chain_ok as" and "chain_ok bs"
  shows "(if last_highbit bs < last_highbit as then last_highbit as else last_highbit bs) =
    last_highbit (or_chain as bs)"
proof (rule last_highbit_unique)
  show "chain_ok (or_chain as bs)" using assms by (rule or_m.merge_ok)
  fix x
  have "(if last_highbit bs < last_highbit as then last_highbit as else last_highbit bs) \<le> x
    \<longleftrightarrow> last_highbit as \<le> x \<and> last_highbit bs \<le> x" by auto
  then show "(if last_highbit bs < last_highbit as then last_highbit as else last_highbit bs) \<le> x
    \<longleftrightarrow> (\<forall>s \<in> startbit ` set (or_chain as bs). s + 64 \<le> x)"
    using assms by (simp add: last_highbit_le_iff starts_or ball_Un)
qed

text \<open>
  What an allocating operation promises: error and an empty bitmap, or success, a well-formed
  bitmap and the wanted set; and success when memory does not run out.
\<close>

definition built :: "int \<times> ebitmap \<times> alloc \<Rightarrow> u32 set \<Rightarrow> bool" where
  "built r S \<longleftrightarrow>
    (case r of (rc, e, m) \<Rightarrow>
      rc = - ENOMEM \<and> e = ebitmap_init \<or> rc = 0 \<and> ebitmap_ok e \<and> ebits e = S)"

lemma or_built:
  assumes "ebitmap_ok e1" and "ebitmap_ok e2"
  shows "built (ebitmap_or e1 e2 m) (ebits e1 \<union> ebits e2)"
proof (cases "or_loop (node e1) (node e2) m")
  case (Pair r m')
  show ?thesis
  proof (cases r)
    case None
    with Pair show ?thesis by (simp add: ebitmap_or_def built_def)
  next
    case (Some ns)
    with Pair have ns: "ns = or_chain (node e1) (node e2)" by (auto intro: or_m.loop_Some)
    have "highbit e1 = last_highbit (node e1)" "highbit e2 = last_highbit (node e2)"
      "chain_ok (node e1)" "chain_ok (node e2)" using assms by (simp_all add: ebitmap_ok_def)
    then have "ebitmap_or e1 e2 m = (0, \<lparr>node = ns, highbit = last_highbit ns\<rparr>, m')"
      using Pair Some ns or_highbit [of "node e1" "node e2"] by (simp only: ebitmap_or_def prod.case option.case)
    moreover have "ebits e1 \<union> ebits e2 = {b. b \<in> ebits e1 \<or> b \<in> ebits e2}" by auto
    ultimately show ?thesis
      using or_m.loop_sound [of e1 e2 m ns m' "last_highbit ns"] assms Pair Some
      by (simp add: built_def)
  qed
qed

lemma and_built:
  assumes "ebitmap_ok e1" and "ebitmap_ok e2"
  shows "built (ebitmap_and e1 e2 m) (ebits e1 \<inter> ebits e2)"
  using and_m.loop_sound [OF _ assms]
  by (auto simp: ebitmap_and_def built_def split: prod.splits option.splits)

lemma xor_built:
  assumes "ebitmap_ok e1" and "ebitmap_ok e2"
  shows "built (ebitmap_xor e1 e2 m) (ebits e1 - ebits e2 \<union> (ebits e2 - ebits e1))"
  using xor_m.loop_sound [OF _ assms]
  by (auto simp: ebitmap_xor_def built_def split: prod.splits option.splits)

lemma merge_succeeds:
  assumes "length (node e1) + length (node e2) \<le> k"
  shows "fst (ebitmap_or e1 e2 (replicate k True)) = 0"
    and "fst (ebitmap_and e1 e2 (replicate k True)) = 0"
    and "fst (ebitmap_xor e1 e2 (replicate k True)) = 0"
  using or_m.loop_enough [OF assms] and_m.loop_enough [OF assms] xor_m.loop_enough [OF assms]
  by (auto simp: ebitmap_or_def ebitmap_and_def ebitmap_xor_def split: prod.splits)

section \<open>The bits of one node\<close>

definition node_bits :: "ebitmap_node \<Rightarrow> u32 set" where
  "node_bits n = {b. block b = startbit n \<and> bit (node_map n) (offset b)}"

lemma bits_of_Nil [simp]: "bits_of [] = {}"
  by (simp add: bits_of_def)

lemma bits_of_Cons:
  "below (startbit n) ns \<Longrightarrow> bits_of (n # ns) = node_bits n \<union> bits_of ns"
  by (auto simp: bits_of_def node_bits_def word_at_below)

lemma bits_of_block: "b \<in> bits_of ns \<Longrightarrow> \<exists>n \<in> set ns. startbit n = block b"
proof -
  assume "b \<in> bits_of ns"
  then have "word_at ns (block b) \<noteq> 0" unfolding bits_of_def by (intro notI) simp
  then show ?thesis using word_at_nodes by blast
qed

lemma block_offset_eqI: "block a = block b \<Longrightarrow> offset a = offset b \<Longrightarrow> a = b"
  by (metis block_offset unat_and_63 unsigned_word_eqI)

lemma block_le: "block b \<le> b"
  by (simp add: word_le_nat_alt unat_block)

lemma aligned_le_block: "aligned s \<Longrightarrow> s \<le> b \<Longrightarrow> s \<le> block b"
proof -
  assume "aligned s" and le: "s \<le> b"
  then obtain q where q: "unat s = 64 * q" by (auto simp: aligned_iff)
  with le have "64 * q \<le> unat b" by (simp add: word_le_nat_alt)
  then have "q \<le> unat b div 64" by simp
  then show ?thesis by (simp add: word_le_nat_alt unat_block q)
qed

lemma node_bits_disjoint: "below (startbit n) ns \<Longrightarrow> node_bits n \<inter> bits_of ns = {}"
  using bits_of_block by (fastforce simp: node_bits_def below_def)

lemma source_block' [simp]: "low32 (ucast bt AND - 64) = block bt"
  using source_block [of bt] by simp

section \<open>Setting and clearing a bit\<close>

lemma node_bits_set:
  assumes "block bt = startbit n"
  shows "node_bits (n\<lparr>node_map := node_map n OR 2 ^ offset bt\<rparr>) = insert bt (node_bits n)"
  using assms by (auto simp: node_bits_def bit_simps intro: block_offset_eqI)

lemma node_bits_clear:
  assumes "block bt = startbit n"
  shows "node_bits (n\<lparr>node_map := node_map n AND NOT (2 ^ offset bt)\<rparr>) = node_bits n - {bt}"
  using assms by (auto simp: node_bits_def bit_simps intro: block_offset_eqI)

lemma node_bits_new: "node_bits \<lparr>startbit = block bt, node_map = 2 ^ offset bt\<rparr> = {bt}"
  by (auto simp: node_bits_def bit_simps intro: block_offset_eqI)

lemma node_bits_empty: "node_map n = 0 \<Longrightarrow> node_bits n = {}"
  by (simp add: node_bits_def)

definition pre :: "ebitmap_node option \<Rightarrow> ebitmap_node list \<Rightarrow> ebitmap_node list" where
  "pre p ns = (case p of None \<Rightarrow> ns | Some n \<Rightarrow> n # ns)"

definition set_spec ::
    "u32 \<Rightarrow> int \<Rightarrow> ebitmap_node option \<Rightarrow> ebitmap_node list \<Rightarrow> u32 \<Rightarrow> alloc \<Rightarrow>
     int \<times> ebitmap_node list \<times> u32 \<times> alloc \<Rightarrow> bool" where
  "set_spec bt val p ns hb m r \<longleftrightarrow>
    (case r of (rc, ns', hb', m') \<Rightarrow>
      rc = - ENOMEM \<and> val \<noteq> 0 \<and> bt \<notin> bits_of ns \<and> \<not> fst (malloc m) \<and> ns' = ns \<and> hb' = hb \<or>
      rc = 0 \<and> chain_ok (pre p ns') \<and> hb' = last_highbit (pre p ns') \<and>
        bits_of ns' = (if val \<noteq> 0 then insert bt (bits_of ns) else bits_of ns - {bt}))"

lemma pow_nonzero: "k < 64 \<Longrightarrow> (2 ^ k :: u64) \<noteq> 0"
  by simp

lemma set_bit_new_spec:
  assumes "chain_ok (pre p ns)" and "hb = last_highbit (pre p ns)"
    and "block bt \<noteq> block (- 1)" and "below (block bt) ns"
    and "\<And>n. p = Some n \<Longrightarrow> startbit n < block bt"
  shows "set_spec bt val p ns hb m
    (set_bit_new bt (block bt) (block bt + 64) val ns hb m)"
proof -
  let ?n = "\<lparr>startbit = block bt, node_map = 2 ^ offset bt\<rparr>"
  have no: "bt \<notin> bits_of ns" using assms(4) by (simp add: bits_of_def word_at_below)
  have ok: "chain_ok (pre p (?n # ns))"
    using assms by (cases p) (auto simp: pre_def node_ok_def)
  have hb: "last_highbit (pre p (?n # ns)) = (if ns = [] then block bt + 64 else hb)"
    using assms(2) by (cases p; cases ns) (simp_all add: pre_def)
  have bits: "bits_of (?n # ns) = insert bt (bits_of ns)"
    using assms(4) by (simp add: bits_of_Cons node_bits_new)
  show ?thesis
    using assms(1,2) no ok hb bits
    by (cases "malloc m"; cases "fst (malloc m)") (auto simp: set_bit_new_def set_spec_def offset_diff)
qed

lemma set_bit_here_spec:
  assumes "chain_ok (pre p (n # ns))" and "hb = last_highbit (pre p (n # ns))"
    and "block bt = startbit n"
  shows "set_spec bt val p (n # ns) hb m
    (set_bit_loop bt (block bt) (block bt + 64) val p (n # ns) hb m)"
proof -
  have n: "node_ok n" "below (startbit n) ns" "chain_ok ns"
    using assms(1) by (cases p; simp add: pre_def)+
  then have "startbit n \<le> bt" "(ucast bt :: u64) < ucast (startbit n) + MAPSIZE"
    using in_block [of "startbit n" bt] assms(3) by (auto simp: node_ok_def)
  note loop = this
  have ok: "chain_ok (pre p (n\<lparr>node_map := w\<rparr> # ns))" if "w \<noteq> 0" for w
    using assms(1) that by (cases p) (auto simp: pre_def node_ok_def)
  have hb: "last_highbit (pre p (n\<lparr>node_map := w\<rparr> # ns)) = hb" for w
    using assms(2) by (cases p; cases ns) (simp_all add: pre_def)
  have no: "bt \<notin> bits_of ns"
    using bits_of_block [of bt ns] n(2) assms(3) by (metis below_def less_irrefl)
  show ?thesis
  proof (cases "val = 0")
    case False
    have "node_map n OR 2 ^ offset bt \<noteq> 0" using n(1) by (simp add: node_ok_def or_eq_0_iff)
    with False loop ok hb n assms(3) show ?thesis
      by (simp add: set_spec_def offset_diff bits_of_Cons node_bits_set)
  next
    case True
    let ?w = "node_map n AND NOT (2 ^ offset bt)"
    have bits: "bits_of (n\<lparr>node_map := ?w\<rparr> # ns) = bits_of (n # ns) - {bt}"
      using n no assms(3) by (auto simp: bits_of_Cons node_bits_clear)
    show ?thesis
    proof (cases "?w = 0")
      case w: False
      with True loop ok hb n assms(3) bits show ?thesis
        by (simp add: set_spec_def offset_diff)
    next
      case w: True
      have "bits_of ns = bits_of (n # ns) - {bt}"
        using bits w n by (simp add: bits_of_Cons node_bits_empty)
      moreover have "chain_ok (pre p ns)"
        using assms(1) by (cases p) (auto simp: pre_def intro: below_trans)
      moreover have "last_highbit (pre p ns) =
          (if ns = [] then case p of Some p \<Rightarrow> startbit p + 64 | None \<Rightarrow> 0 else hb)"
        using assms(2) by (cases p; cases ns) (simp_all add: pre_def)
      ultimately show ?thesis
        using True loop w assms(3) by (simp add: set_spec_def offset_diff low32_plus split: option.split)
    qed
  qed
qed

lemma set_bit_loop_spec:
  assumes "chain_ok (pre p ns)" and "hb = last_highbit (pre p ns)"
    and "block bt \<noteq> block (- 1)" and "\<And>n. p = Some n \<Longrightarrow> startbit n < block bt"
  shows "set_spec bt val p ns hb m
    (set_bit_loop bt (block bt) (block bt + 64) val p ns hb m)"
  using assms
proof (induction ns arbitrary: p)
  case Nil
  then show ?case using set_bit_new_spec [of p "[]" hb bt val m] by simp
next
  case (Cons n ns)
  have n: "node_ok n" "below (startbit n) ns" "chain_ok ns"
    using Cons.prems(1) by (cases p; simp add: pre_def)+
  then have al: "aligned (startbit n)" by (simp add: node_ok_def)
  consider (here) "block bt = startbit n" | (smaller) "bt < startbit n"
    | (after) "startbit n \<le> bt" "block bt \<noteq> startbit n" by (meson not_le)
  then show ?case
  proof cases
    case here
    with Cons.prems show ?thesis by (intro set_bit_here_spec)
  next
    case smaller
    then have "below (block bt) (n # ns)"
      using block_le [of bt] n(2) by (auto intro: below_trans)
    moreover have "\<not> startbit n \<le> bt" using smaller by simp
    ultimately show ?thesis using Cons.prems set_bit_new_spec [of p "n # ns" hb bt val m] by simp
  next
    case after
    then have lt: "\<not> (ucast bt :: u64) < ucast (startbit n) + MAPSIZE"
      using in_block [OF al, of bt] by auto
    have less: "startbit n < block bt"
      using aligned_le_block [OF al after(1)] after(2) by simp
    have "set_spec bt val (Some n) ns hb m
      (set_bit_loop bt (block bt) (block bt + 64) val (Some n) ns hb m)"
      using Cons.prems n less by (intro Cons.IH) (cases p; cases ns; simp add: pre_def)+
    moreover obtain rc ns' hb' m' where
      r: "set_bit_loop bt (block bt) (block bt + 64) val (Some n) ns hb m = (rc, ns', hb', m')"
      by (cases "set_bit_loop bt (block bt) (block bt + 64) val (Some n) ns hb m") auto
    ultimately have spec: "set_spec bt val (Some n) ns hb m (rc, ns', hb', m')" by simp
    have not_n: "bt \<notin> node_bits n" using after by (simp add: node_bits_def)
    have "chain_ok (pre p (n # ns')) \<and> last_highbit (pre p (n # ns')) = last_highbit (n # ns') \<and>
        bits_of (n # ns') = node_bits n \<union> bits_of ns'"
      if "chain_ok (n # ns')"
      using that Cons.prems(1) by (cases p) (auto simp: pre_def bits_of_Cons intro: below_trans)
    with spec r lt after n not_n show ?thesis
      by (auto simp: set_spec_def pre_def bits_of_Cons)
  qed
qed

lemma block_wrap: "block bt + 64 = 0 \<longleftrightarrow> block bt = block (- 1)"
proof
  assume "block bt = block (- 1)"
  then show "block bt + 64 = 0" by (simp add: block_def)
next
  assume "block bt + 64 = 0"
  then have "block bt = - 64" by (simp add: eq_neg_iff_add_eq_0)
  then show "block bt = block (- 1)" by (simp add: block_def)
qed

lemma set_bit_correct:
  assumes "ebitmap_ok e" and "ebitmap_set_bit e bt val m = (rc, e', m')"
  shows "rc = - EINVAL \<and> e' = e \<and> block bt = block (- 1) \<or>
    rc = - ENOMEM \<and> val \<noteq> 0 \<and> bt \<notin> ebits e \<and> \<not> fst (malloc m) \<and> e' = e \<or>
    rc = 0 \<and> ebitmap_ok e' \<and> ebits e' = (if val \<noteq> 0 then insert bt (ebits e) else ebits e - {bt})"
proof -
  note last = block_wrap [of bt]
  show ?thesis
  proof (cases "block bt = block (- 1)")
    case True
    with last assms(2) show ?thesis
      by (simp add: ebitmap_set_bit_def source_block low32_plus)
  next
    case False
    obtain r where r: "set_bit_loop bt (block bt) (block bt + 64) val None (node e) (highbit e) m = r"
      by simp
    have "set_spec bt val None (node e) (highbit e) m r"
      using set_bit_loop_spec [of None "node e" "highbit e" bt val m] assms(1) False r
      by (simp add: ebitmap_ok_def pre_def)
    with r False last assms show ?thesis
      by (auto simp: ebitmap_set_bit_def source_block low32_plus set_spec_def ebits_bits_of
          ebitmap_ok_def pre_def split: prod.splits)
  qed
qed

end
