(* ===== verification/Ebitmap_Ops.thy ===== *)
theory Ebitmap_Ops
  imports Ebitmap_Set
begin

text \<open>
  The remaining operations on bitmaps, against the set a bitmap stands for: complement and
  difference, ranges, counting, comparison, inclusion and overlap, the highest bit, and the
  iteration macro. The complement loop is shown to run out of memory when its bound lies in
  the last block of the number range.
\<close>

section \<open>Complement\<close>

lemma last_block: "unat (block (- 1)) = 2 ^ 32 - 64"
  by (simp add: unat_block unsigned_minus_1_eq_mask mask_eq_exp_minus_1)

lemma not_last_iff: "aligned s \<Longrightarrow> s \<noteq> block (- 1) \<longleftrightarrow> unat s + 64 < 2 ^ 32"
proof -
  assume "aligned s"
  then obtain q where q: "unat s = 64 * q" by (auto simp: aligned_iff)
  have "s = block (- 1) \<longleftrightarrow> unat s = unat (block (- 1))" by (metis unsigned_word_eqI)
  then show ?thesis using unat_lt_u32 [of s] by (simp add: last_block q) presburger
qed

lemma mask_bit: "j < 64 \<Longrightarrow> bit (push_bit j 1 - 1 :: u64) k \<longleftrightarrow> k < j"
proof -
  assume "j < 64"
  have "(push_bit j 1 - 1 :: u64) = mask j" by (simp add: mask_eq_exp_minus_1 push_bit_eq_mult)
  with \<open>j < 64\<close> show ?thesis by (auto simp: bit_mask_iff)
qed

lemma unat_diff_lt: "a \<le> b \<Longrightarrow> unat (b - a) = unat b - unat (a :: u32)"
  by (simp add: unat_sub)

lemma not_block_bits:
  assumes "cur < maxbit" and "chain_ok ns" and "\<forall>n \<in> set ns. cur \<le> startbit n"
    and "not_block cur maxbit ns = (w, ns')"
  shows "\<forall>k < 64. bit w k \<longleftrightarrow> \<not> bit (word_at ns cur) k \<and> unat cur + k < unat maxbit"
    and "chain_ok ns'" and "below cur ns'" and "\<And>s. s \<noteq> cur \<Longrightarrow> word_at ns' s = word_at ns s"
proof -
  let ?v = "NOT (word_at ns cur)"
  have d: "unat (maxbit - cur) = unat maxbit - unat cur" using assms(1) by (simp add: unat_diff_lt)
  have lt: "unat cur < unat maxbit" using assms(1) by (simp add: word_less_nat_alt)
  have rest: "ns' = (case ns of n # rest \<Rightarrow> if startbit n = cur then rest else ns | [] \<Rightarrow> [])" and
    w: "w = (if ucast (maxbit - cur) < MAPSIZE then ?v AND (push_bit (unat (maxbit - cur)) 1 - 1) else ?v)"
  proof -
    have below: "word_at ns cur = 0" if "\<forall>n \<in> set ns. cur < startbit n"
      using that by (intro word_at_below) (simp add: below_def)
    show "ns' = (case ns of n # rest \<Rightarrow> if startbit n = cur then rest else ns | [] \<Rightarrow> [])"
      using assms(4) by (auto simp: not_block_def Let_def split: list.splits if_splits)
    show "w = (if ucast (maxbit - cur) < MAPSIZE then ?v AND (push_bit (unat (maxbit - cur)) 1 - 1) else ?v)"
    proof (cases ns)
      case Nil
      with assms(4) show ?thesis by (auto simp: not_block_def Let_def)
    next
      case (Cons n rest)
      show ?thesis
      proof (cases "startbit n = cur")
        case True
        with assms(4) Cons show ?thesis by (auto simp: not_block_def Let_def)
      next
        case False
        with assms(2,3) Cons have "below cur ns" by (auto intro: below_trans)
        with below have "word_at ns cur = 0" by (simp add: below_def)
        with False assms(4) Cons show ?thesis by (auto simp: not_block_def Let_def)
      qed
    qed
  qed
  have small: "ucast (maxbit - cur) < MAPSIZE \<longleftrightarrow> unat maxbit - unat cur < 64"
    by (simp add: word_less_nat_alt d)
  show "\<forall>k < 64. bit w k \<longleftrightarrow> \<not> bit (word_at ns cur) k \<and> unat cur + k < unat maxbit"
  proof (intro allI impI)
    fix k :: nat assume k: "k < 64"
    show "bit w k \<longleftrightarrow> \<not> bit (word_at ns cur) k \<and> unat cur + k < unat maxbit"
    proof (cases "unat maxbit - unat cur < 64")
      case True
      then have "bit w k \<longleftrightarrow> \<not> bit (word_at ns cur) k \<and> k < unat maxbit - unat cur"
        using k mask_bit [of "unat maxbit - unat cur" k] by (simp only: w small d if_True bit_and_iff bit_not_iff) simp
      with lt show ?thesis by auto
    next
      case False
      with k have "unat cur + k < unat maxbit" by linarith
      moreover have "bit w k \<longleftrightarrow> \<not> bit (word_at ns cur) k"
        using False k by (simp add: w small bit_simps)
      ultimately show ?thesis by simp
    qed
  qed
  show "chain_ok ns'" using assms(2) rest by (auto split: list.splits if_splits)
  show "below cur ns'"
    using assms(2,3) rest by (auto split: list.splits if_splits intro: below_trans)
  show "word_at ns' s = word_at ns s" if "s \<noteq> cur" for s
    using that rest by (auto split: list.splits if_splits)
qed

lemma block_split:
  assumes "block b = cur"
  shows "b = cur + of_nat (offset b)"
proof (rule block_offset_eqI)
  have al: "aligned cur" and k: "offset b < 64" using assms by auto
  show "block b = block (cur + of_nat (offset b))"
    unfolding block_plus(1) [OF al k] by (rule assms)
  show "offset b = offset (cur + of_nat (offset b))"
    unfolding block_plus(2) [OF al k] ..
qed

lemma block_bits:
  assumes "\<And>k. k < 64 \<Longrightarrow> bit w k \<longleftrightarrow> P (cur + of_nat k)"
  shows "node_bits \<lparr>startbit = cur, node_map = w\<rparr> = {b. block b = cur \<and> P b}"
proof -
  have "bit w (offset b) \<longleftrightarrow> P b" if "block b = cur" for b
    using assms [of "offset b"] block_split [OF that] by simp
  then show ?thesis by (auto simp: node_bits_def)
qed

lemma low32_64 [simp]: "low32 64 = 64"
  by (rule unsigned_word_eqI [where ?'a = nat]) (simp add: unsigned_ucast_eq)

lemma not_loop_done: "\<not> cur < maxbit \<Longrightarrow> not_loop cur maxbit ns = done_chain"
  by (rule ext) (simp add: not_loop.simps done_chain_def)

lemma not_loop_step:
  assumes "cur < maxbit" and "not_block cur maxbit ns = (w, ns')"
  shows "not_loop cur maxbit ns = link_nonzero cur w (not_loop (cur + 64) maxbit ns')"
proof
  fix m
  show "not_loop cur maxbit ns m = link_nonzero cur w (not_loop (cur + 64) maxbit ns') m"
    using assms by (subst not_loop.simps, unfold low32_64) (simp add: link_nonzero_def link_node_def)
qed

text \<open>The blocks of the complement, counted.\<close>

primrec not_chain :: "nat \<Rightarrow> u32 \<Rightarrow> u32 \<Rightarrow> ebitmap_node list \<Rightarrow> ebitmap_node list" where
  "not_chain 0 cur maxbit ns = []"
| "not_chain (Suc j) cur maxbit ns =
    (case not_block cur maxbit ns of
       (w, ns') \<Rightarrow> cons_nonzero cur w (not_chain j (cur + 64) maxbit ns'))"

text \<open>\<open>j\<close> blocks from \<open>cur\<close> reach \<open>maxbit\<close>, and no fewer do.\<close>

definition blocks_left :: "nat \<Rightarrow> u32 \<Rightarrow> u32 \<Rightarrow> bool" where
  "blocks_left j cur maxbit \<longleftrightarrow>
    aligned cur \<and> unat maxbit \<le> unat cur + 64 * j \<and> unat maxbit \<le> 2 ^ 32 - 64 \<and>
    (0 < j \<longrightarrow> unat cur + 64 * j < unat maxbit + 64)"

lemma blocks_left_Suc:
  assumes "blocks_left (Suc j) cur maxbit"
  shows "cur < maxbit" and "unat (cur + 64) = unat cur + 64" and "blocks_left j (cur + 64) maxbit"
    and "unat cur + 64 < 2 ^ 32"
proof -
  show lt: "cur < maxbit" using assms by (simp add: blocks_left_def word_less_nat_alt)
  from assms obtain q where q: "unat cur = 64 * q" by (auto simp: blocks_left_def aligned_iff)
  have "unat cur < 2 ^ 32 - 64"
    using lt assms unfolding blocks_left_def word_less_nat_alt by linarith
  then show r: "unat cur + 64 < 2 ^ 32" by simp
  then show u: "unat (cur + 64) = unat cur + 64" by (simp add: unat_word_ariths)
  show "blocks_left j (cur + 64) maxbit"
    using assms by (auto simp: blocks_left_def u aligned_iff)
qed

lemma not_loop_chain:
  "blocks_left j cur maxbit \<Longrightarrow> not_loop cur maxbit ns = alloc_chain (not_chain j cur maxbit ns)"
proof (induction j arbitrary: cur ns)
  case 0
  then have "\<not> cur < maxbit" by (simp add: blocks_left_def word_less_nat_alt)
  then show ?case by (simp add: not_loop_done)
next
  case (Suc j)
  obtain w ns' where nb: "not_block cur maxbit ns = (w, ns')" by (cases "not_block cur maxbit ns")
  with Suc.IH [OF blocks_left_Suc(3) [OF Suc.prems]] blocks_left_Suc(1) [OF Suc.prems] show ?case
    by (simp add: not_loop_step cons_nonzero_def link_nonzero_def)
qed

lemma aligned_step:
  assumes "aligned cur" and "unat (cur + 64) = unat cur + 64"
  shows "cur \<le> b \<longleftrightarrow> block b = cur \<or> cur + 64 \<le> b"
proof -
  obtain q where q: "unat cur = 64 * q" using assms(1) by (auto simp: aligned_iff)
  have "block b = cur \<longleftrightarrow> unat b div 64 * 64 = 64 * q"
    by (metis q unat_block unsigned_word_eqI)
  then show ?thesis using assms(2) by (auto simp: word_le_nat_alt q)
qed

lemma not_chain_correct:
  assumes "blocks_left j cur maxbit" and "chain_ok ns" and "\<forall>n \<in> set ns. cur \<le> startbit n"
  shows "chain_ok (not_chain j cur maxbit ns) \<and>
    (\<forall>n \<in> set (not_chain j cur maxbit ns). cur \<le> startbit n) \<and>
    bits_of (not_chain j cur maxbit ns) = {b. cur \<le> b \<and> b < maxbit} - bits_of ns"
  using assms
proof (induction j arbitrary: cur ns)
  case 0
  then have "maxbit \<le> cur" by (simp add: blocks_left_def word_le_nat_alt)
  then show ?case by auto
next
  case (Suc j)
  obtain w ns' where nb: "not_block cur maxbit ns = (w, ns')" by (cases "not_block cur maxbit ns")
  note left = blocks_left_Suc [OF Suc.prems(1)]
  note bits = not_block_bits [OF left(1) Suc.prems(2,3) nb]
  have al: "aligned cur" using Suc.prems(1) by (simp add: blocks_left_def)
  note step = aligned_step [OF al left(2)]
  have ge: "\<forall>n \<in> set ns'. cur + 64 \<le> startbit n"
  proof
    fix n assume n: "n \<in> set ns'"
    then have "cur < startbit n" using bits(3) by (simp add: below_def)
    moreover have "block (startbit n) = startbit n"
      using bits(2) n by (auto simp: chain_ok_def list_all_iff node_ok_def block_aligned)
    ultimately show "cur + 64 \<le> startbit n" using step [of "startbit n"] by auto
  qed
  let ?r = "not_chain j (cur + 64) maxbit ns'"
  have r: "chain_ok ?r" "\<forall>n \<in> set ?r. cur + 64 \<le> startbit n"
      "bits_of ?r = {b. cur + 64 \<le> b \<and> b < maxbit} - bits_of ns'"
    using Suc.IH [OF left(3) bits(2) ge] by auto
  have lt: "cur < cur + 64" using left(2) by (simp add: word_less_nat_alt)
  have below: "below cur ?r" using r(2) lt by (auto simp: below_def intro: less_le_trans)
  have ok: "chain_ok (cons_nonzero cur w ?r)"
    using r(1) below al not_last_iff [OF al] left(4) by (simp add: chain_ok_cons_nonzero)
  have starts: "\<forall>n \<in> set (cons_nonzero cur w ?r). cur \<le> startbit n"
    using below by (auto simp: cons_nonzero_def below_def)
  have here: "node_bits \<lparr>startbit = cur, node_map = w\<rparr> =
      {b. block b = cur \<and> b \<notin> bits_of ns \<and> b < maxbit}"
  proof (rule block_bits)
    fix k :: nat assume k: "k < 64"
    show "bit w k \<longleftrightarrow> cur + of_nat k \<notin> bits_of ns \<and> cur + of_nat k < maxbit"
      using bits(1) k unfolding bits_of_def mem_Collect_eq block_plus [OF al k]
      unfolding word_less_nat_alt aligned_room [OF al k] by simp
  qed
  have "bits_of (cons_nonzero cur w ?r) =
      {b. block b = cur \<and> b \<notin> bits_of ns \<and> b < maxbit} \<union> bits_of ?r"
    using here below by (cases "w = 0") (auto simp: cons_nonzero_def bits_of_Cons node_bits_def)
  moreover have "bits_of ns' = {b \<in> bits_of ns. block b \<noteq> cur}"
  proof (rule set_eqI)
    fix b
    show "b \<in> bits_of ns' \<longleftrightarrow> b \<in> {b \<in> bits_of ns. block b \<noteq> cur}"
      using bits(4) [of "block b"] word_at_below [OF bits(3)]
      by (cases "block b = cur") (simp_all add: bits_of_def)
  qed
  moreover have "cur + 64 \<le> b \<Longrightarrow> block b \<noteq> cur" for b
    using left(2) by (auto simp: word_le_nat_alt unat_block)
  ultimately have "bits_of (cons_nonzero cur w ?r) = {b. cur \<le> b \<and> b < maxbit} - bits_of ns"
    using r(3) step by auto
  with ok starts show ?case by (simp add: nb)
qed

lemma not_chain_length: "length (not_chain j cur maxbit ns) \<le> j"
  by (induction j arbitrary: cur ns) (auto simp: cons_nonzero_def split: prod.split intro: le_SucI)

lemma blocks_left_start:
  "unat maxbit \<le> 2 ^ 32 - 64 \<Longrightarrow> blocks_left ((unat maxbit + 63) div 64) 0 maxbit"
  by (auto simp: blocks_left_def aligned_def)

lemma not_built:
  assumes "ebitmap_ok e" and "unat maxbit \<le> 2 ^ 32 - 64"
  shows "built (ebitmap_not e maxbit m) ({b. b < maxbit} - ebits e)"
proof -
  let ?r = "not_chain ((unat maxbit + 63) div 64) 0 maxbit (node e)"
  have loop: "not_loop 0 maxbit (node e) = alloc_chain ?r"
    by (rule not_loop_chain [OF blocks_left_start [OF assms(2)]])
  have "chain_ok ?r" "bits_of ?r = {b. b < maxbit} - bits_of (node e)"
    using not_chain_correct [OF blocks_left_start [OF assms(2)], of "node e"] assms(1)
    by (auto simp: ebitmap_ok_def)
  then show ?thesis
    by (auto simp: ebitmap_not_def built_def loop ebitmap_ok_def ebits_bits_of
        dest!: alloc_chain_Some split: prod.split option.split)
qed

lemma not_succeeds:
  assumes "unat maxbit \<le> 2 ^ 32 - 64" and "(unat maxbit + 63) div 64 \<le> k"
  shows "fst (ebitmap_not e maxbit (replicate k True)) = 0"
proof -
  let ?r = "not_chain ((unat maxbit + 63) div 64) 0 maxbit (node e)"
  have "not_loop 0 maxbit (node e) = alloc_chain ?r"
    by (rule not_loop_chain [OF blocks_left_start [OF assms(1)]])
  then show ?thesis
    using alloc_chain_enough [of ?r k "[]"] not_chain_length [of "(unat maxbit + 63) div 64" 0 maxbit "node e"]
      assms(2)
    by (simp add: ebitmap_not_def)
qed

text \<open>
  When \<open>maxbit\<close> lies in the last block of the number range, the counter of the loop never
  reaches it: the loop goes round until an allocation fails.
\<close>

lemma aligned_next: "aligned s \<Longrightarrow> aligned (s + 64)"
proof -
  assume s: "aligned s"
  have "(unat s + 64) mod 2 ^ 32 mod 64 = (unat s + 64) mod 64" by (rule mod_mod_cancel) simp
  with s show ?thesis by (simp add: aligned_iff unat_word_ariths)
qed

lemma not_loop_overflow:
  "aligned cur \<Longrightarrow> block (- 1) < maxbit \<Longrightarrow> fst (not_loop cur maxbit ns m) = None"
proof (induction cur maxbit ns m rule: not_loop.induct)
  case (1 cur maxbit ns m)
  have "cur \<le> block (- 1)" using 1(3) by (intro aligned_le_block) simp_all
  then have lt: "cur < maxbit" using 1(4) by simp
  have al: "aligned (cur + 64)" using 1(3) by (rule aligned_next)
  obtain w ns' where nb: "not_block cur maxbit ns = (w, ns')" by (cases "not_block cur maxbit ns")
  show ?case
  proof (cases "w = 0")
    case True
    with 1(2) [OF lt nb [symmetric]] lt nb al 1(4) show ?thesis
      by (simp add: not_loop_step link_nonzero_def)
  next
    case False
    show ?thesis
    proof (cases "fst (malloc m)")
      case True
      then obtain m' where "malloc m = (True, m')" by (cases "malloc m") auto
      with False 1(1) [OF lt nb [symmetric] False, of True m'] lt nb al 1(4) show ?thesis
        by (auto simp: not_loop_step link_nonzero_def link_node_def split: prod.splits)
    next
      case f: False
      then obtain m' where "malloc m = (False, m')" by (cases "malloc m") auto
      with False lt nb show ?thesis
        by (simp add: not_loop_step link_nonzero_def link_node_def)
    qed
  qed
qed

lemma andnot_built:
  assumes "ebitmap_ok e1" and "ebitmap_ok e2" and "unat maxbit \<le> 2 ^ 32 - 64"
  shows "built (ebitmap_andnot e1 e2 maxbit m) ({b \<in> ebits e1. b < maxbit} - ebits e2)"
proof -
  obtain rc e3 m' where n: "ebitmap_not e2 maxbit m = (rc, e3, m')"
    by (cases "ebitmap_not e2 maxbit m") auto
  have "built (rc, e3, m') ({b. b < maxbit} - ebits e2)"
    using not_built [OF assms(2,3), of m] n by simp
  then consider "rc = - ENOMEM" | "rc = 0" "ebitmap_ok e3" "ebits e3 = {b. b < maxbit} - ebits e2"
    by (auto simp: built_def)
  then show ?thesis
  proof cases
    case 1
    with n show ?thesis by (simp add: ebitmap_andnot_def built_def)
  next
    case 2
    have "ebits e1 \<inter> ebits e3 = {b \<in> ebits e1. b < maxbit} - ebits e2" using 2(3) by auto
    then have "built (ebitmap_and e1 e3 m') ({b \<in> ebits e1. b < maxbit} - ebits e2)"
      using and_built [OF assms(1) 2(2), of m'] by simp
    moreover obtain rc' dst m'' where "ebitmap_and e1 e3 m' = (rc', dst, m'')"
      by (cases "ebitmap_and e1 e3 m'") auto
    ultimately show ?thesis using n 2(1) by (auto simp: ebitmap_andnot_def built_def)
  qed
qed

section \<open>Ranges\<close>

lemma shift_count:
  assumes "a \<le> b" and "unat b - unat (a :: u32) < 64"
  shows "unat (MAPSIZE - ucast (b - a + 1)) = 63 - (unat b - unat a)"
proof -
  have "unat (b - a) < 64" using assms by (simp add: unat_diff_lt)
  then have "unat (b - a + 1) = unat b - unat a + 1"
    using assms(1) by (simp add: unat_word_ariths unat_diff_lt)
  then have u: "unat (ucast (b - a + 1) :: u64) = unat b - unat a + 1" by simp
  then have "(ucast (b - a + 1) :: u64) \<le> 64" using assms(2) by (simp add: word_le_nat_alt)
  then show ?thesis using u by (simp only: unat_sub) simp
qed

lemma bit_ones: "k < 64 \<Longrightarrow> bit (NOT 0 :: u64) k"
  by (simp add: bit_simps)

lemma bit_ones_left: "k < 64 \<Longrightarrow> bit (push_bit a (NOT 0 :: u64)) k \<longleftrightarrow> a \<le> k"
  by (auto simp: bit_simps)

lemma bit_ones_right: "k < 64 \<Longrightarrow> bit (drop_bit d (NOT 0 :: u64)) k \<longleftrightarrow> k + d < 64"
  by (auto simp: bit_simps)

lemma bit_ones_both:
  "k < 64 \<Longrightarrow> bit (push_bit a (drop_bit d (NOT 0 :: u64))) k \<longleftrightarrow> a \<le> k \<and> k - a + d < 64"
  by (auto simp: bit_simps)

lemma range_both_arith:
  "A \<le> B \<Longrightarrow> S \<le> A \<Longrightarrow> B < S + 64 \<Longrightarrow>
   A - S \<le> k \<and> k - (A - S) + (63 - (B - A)) < 64 \<longleftrightarrow> A \<le> S + k \<and> S + k \<le> (B :: nat)"
  by auto

lemma range_map_bits:
  assumes "minbit \<le> maxbit" and "aligned sb" and "block minbit \<le> sb" and "sb \<le> block maxbit"
    and "k < 64"
  shows "bit (range_map minbit maxbit (block minbit) (block maxbit) sb) k \<longleftrightarrow>
    unat minbit \<le> unat sb + k \<and> unat sb + k \<le> unat maxbit"
proof -
  obtain q where q: "unat sb = 64 * q" using assms(2) by (auto simp: aligned_iff)
  let ?p = "unat minbit div 64" and ?r = "unat maxbit div 64"
  have le: "?p \<le> q" "q \<le> ?r" using assms(3,4) by (simp_all add: word_le_nat_alt unat_block q)
  have eq: "sb = block minbit \<longleftrightarrow> q = ?p" "sb = block maxbit \<longleftrightarrow> q = ?r"
    using q unat_block [of minbit] unat_block [of maxbit] by (metis mult.commute mult_cancel1 unsigned_word_eqI zero_neq_numeral)+
  have min_lt: "unat minbit < 64 * ?p + 64" "64 * ?p \<le> unat minbit" by auto
  have max_lt: "unat maxbit < 64 * ?r + 64" "64 * ?r \<le> unat maxbit" by auto
  have d1: "unat (minbit - sb) = unat minbit - unat sb" if "q = ?p"
    using that q by (intro unat_diff_lt) (simp add: word_le_nat_alt)
  have d2: "unat (MAPSIZE - ucast (maxbit - sb + 1)) = 63 - (unat maxbit - unat sb)" if "q = ?r"
    using that q max_lt by (intro shift_count) (simp_all add: word_le_nat_alt)
  have d3: "unat (MAPSIZE - ucast (maxbit - minbit + 1)) = 63 - (unat maxbit - unat minbit)"
    if "q = ?r" "q = ?p"
    using that assms(1) min_lt max_lt by (intro shift_count) simp_all
  consider (both) "q = ?p" "q = ?r" | (low) "q = ?p" "q < ?r" | (high) "?p < q" "q = ?r"
    | (inner) "?p < q" "q < ?r" using le by linarith
  then show ?thesis
  proof cases
    case both
    then have e: "block minbit = sb" "block maxbit = sb" using eq by auto
    have "range_map minbit maxbit (block minbit) (block maxbit) sb =
      push_bit (unat minbit - unat sb) (drop_bit (63 - (unat maxbit - unat minbit)) (NOT 0))"
      by (simp only: range_map_def e simp_thms if_False d1 [OF both(1)] d3 [OF both(2,1)])
    moreover have "unat minbit \<le> unat maxbit" using assms(1) by (simp add: word_le_nat_alt)
    moreover have "unat sb \<le> unat minbit" using both(1) min_lt(2) q by metis
    moreover have "unat maxbit < unat sb + 64" using both(2) max_lt(1) q by metis
    ultimately show ?thesis using range_both_arith assms(5) by (simp only: bit_ones_both)
  next
    case low
    then have e: "block minbit = sb" "sb \<noteq> block maxbit" using eq by auto
    have "range_map minbit maxbit (block minbit) (block maxbit) sb =
      push_bit (unat minbit - unat sb) (NOT 0)"
      by (simp only: range_map_def e simp_thms if_False if_True d1 [OF low(1)])
    then show ?thesis
      using low min_lt max_lt q assms(5) by (simp only: bit_ones_left) linarith
  next
    case high
    then have e: "block maxbit = sb" "sb \<noteq> block minbit" using eq by auto
    have "range_map minbit maxbit (block minbit) (block maxbit) sb =
      drop_bit (63 - (unat maxbit - unat sb)) (NOT 0)"
      by (simp only: range_map_def e simp_thms if_False if_True d2 [OF high(2)])
    then show ?thesis
      using high min_lt max_lt q assms(5) by (simp only: bit_ones_right) linarith
  next
    case inner
    then have e: "sb \<noteq> block maxbit" "sb \<noteq> block minbit" using eq by auto
    have "range_map minbit maxbit (block minbit) (block maxbit) sb = NOT 0"
      by (simp only: range_map_def e simp_thms if_True)
    moreover have "unat minbit \<le> unat sb + k" "unat sb + k \<le> unat maxbit"
      using inner min_lt max_lt q assms(5) by linarith+
    ultimately show ?thesis using assms(5) by (simp only: bit_ones simp_thms)
  qed
qed

primrec range_chain :: "nat \<Rightarrow> u32 \<Rightarrow> u32 \<Rightarrow> u32 \<Rightarrow> ebitmap_node list" where
  "range_chain 0 minbit maxbit sb = []"
| "range_chain (Suc j) minbit maxbit sb =
    \<lparr>startbit = sb, node_map = range_map minbit maxbit (block minbit) (block maxbit) sb\<rparr> #
    range_chain j minbit maxbit (sb + 64)"

text \<open>\<open>j\<close> blocks from \<open>sb\<close> on end with the block of \<open>maxbit\<close>.\<close>

definition range_left :: "nat \<Rightarrow> u32 \<Rightarrow> u32 \<Rightarrow> bool" where
  "range_left j sb maxbit \<longleftrightarrow>
    aligned sb \<and> unat sb + 64 * j = unat (block maxbit) + 64 \<and> block maxbit \<noteq> block (- 1)"

lemma range_left_Suc:
  assumes "range_left (Suc j) sb maxbit"
  shows "sb \<le> block maxbit" and "unat (sb + 64) = unat sb + 64"
    and "range_left j (sb + 64) maxbit" and "unat sb + 64 < 2 ^ 32"
proof -
  have max: "unat (block maxbit) + 64 < 2 ^ 32"
    using assms not_last_iff [of "block maxbit"] by (simp add: range_left_def)
  show "sb \<le> block maxbit" using assms by (simp add: range_left_def word_le_nat_alt)
  show r: "unat sb + 64 < 2 ^ 32" using assms max by (simp add: range_left_def)
  then show u: "unat (sb + 64) = unat sb + 64" by (simp add: unat_word_ariths)
  show "range_left j (sb + 64) maxbit"
    using assms aligned_next [of sb] by (simp add: range_left_def u)
qed

lemma range_loop_chain:
  assumes "range_left j sb maxbit"
    and "range_loop minbit maxbit (block minbit) (block maxbit) sb m = (True, ns, m')"
  shows "ns = range_chain j minbit maxbit sb"
  using assms
proof (induction j arbitrary: sb m ns m')
  case 0
  then have "\<not> sb \<le> block maxbit" by (simp add: range_left_def word_le_nat_alt)
  with 0(2) show ?case by (simp add: range_loop.simps [of _ _ _ _ sb])
next
  case (Suc j)
  note left = range_left_Suc [OF Suc.prems(1)]
  from Suc.prems(2) left(1) obtain m1 ns1 where
    "range_loop minbit maxbit (block minbit) (block maxbit) (sb + 64) m1 = (True, ns1, m')"
    "ns = \<lparr>startbit = sb, node_map = range_map minbit maxbit (block minbit) (block maxbit) sb\<rparr> # ns1"
    by (simp add: range_loop.simps [of _ _ _ _ sb m] split: prod.splits bool.splits)
  with Suc.IH [OF left(3)] show ?case by simp
qed

lemma range_loop_enough:
  assumes "range_left j sb maxbit" and "j \<le> k"
  shows "fst (range_loop minbit maxbit (block minbit) (block maxbit) sb (replicate k True)) = True"
  using assms
proof (induction j arbitrary: sb k)
  case 0
  then have "\<not> sb \<le> block maxbit" by (simp add: range_left_def word_le_nat_alt)
  then show ?case by (simp add: range_loop.simps [of _ _ _ _ sb])
next
  case (Suc j)
  note left = range_left_Suc [OF Suc.prems(1)]
  from Suc.prems(2) obtain k' where k: "k = Suc k'" "j \<le> k'" by (cases k) auto
  from Suc.IH [OF left(3) k(2)] left(1) show ?case
    by (auto simp: range_loop.simps [of _ _ _ _ sb] k(1) split: prod.splits)
qed

lemma range_chain_correct:
  assumes "range_left j sb maxbit" and "minbit \<le> maxbit" and "block minbit \<le> sb"
  shows "chain_ok (range_chain j minbit maxbit sb) \<and>
    (\<forall>n \<in> set (range_chain j minbit maxbit sb). sb \<le> startbit n) \<and>
    bits_of (range_chain j minbit maxbit sb) = {b. sb \<le> b \<and> minbit \<le> b \<and> b \<le> maxbit} \<and>
    (0 < j \<longrightarrow> last_highbit (range_chain j minbit maxbit sb) = block maxbit + 64)"
  using assms(1,3)
proof (induction j arbitrary: sb)
  case 0
  then have "\<not> sb \<le> b" if "b \<le> maxbit" for b
    using that div_le_mono [of "unat b" "unat maxbit" 64] unat_block [of maxbit]
    by (auto simp: range_left_def word_le_nat_alt)
  then show ?case by auto
next
  case (Suc j)
  let ?w = "range_map minbit maxbit (block minbit) (block maxbit) sb"
  let ?r = "range_chain j minbit maxbit (sb + 64)"
  note left = range_left_Suc [OF Suc.prems(1)]
  have al: "aligned sb" using Suc.prems(1) by (simp add: range_left_def)
  have lt: "sb < sb + 64" using left(2) by (simp add: word_less_nat_alt)
  have IH: "chain_ok ?r" "\<forall>n \<in> set ?r. sb + 64 \<le> startbit n"
      "bits_of ?r = {b. sb + 64 \<le> b \<and> minbit \<le> b \<and> b \<le> maxbit}"
      "0 < j \<longrightarrow> last_highbit ?r = block maxbit + 64"
    using Suc.IH [OF left(3)] Suc.prems(2) lt by (auto intro: order.trans)
  have below: "below sb ?r" using IH(2) lt by (auto simp: below_def intro: less_le_trans)
  have here: "node_bits \<lparr>startbit = sb, node_map = ?w\<rparr> = {b. block b = sb \<and> minbit \<le> b \<and> b \<le> maxbit}"
  proof (rule block_bits)
    fix k :: nat assume k: "k < 64"
    show "bit ?w k \<longleftrightarrow> minbit \<le> sb + of_nat k \<and> sb + of_nat k \<le> maxbit"
      unfolding word_le_nat_alt aligned_room [OF al k]
      by (rule range_map_bits [OF assms(2) al Suc.prems(2) left(1) k])
  qed
  have "?w \<noteq> 0"
  proof
    assume "?w = 0"
    then have "node_bits \<lparr>startbit = sb, node_map = ?w\<rparr> = {}" by (simp add: node_bits_def)
    moreover have "(if sb = block minbit then minbit else sb) \<in>
        {b. block b = sb \<and> minbit \<le> b \<and> b \<le> maxbit}"
    proof (cases "sb = block minbit")
      case True
      then show ?thesis using assms(2) by simp
    next
      case False
      then have "\<not> block minbit = sb" by simp
      moreover have "\<not> sb \<le> block minbit" using Suc.prems(2) False by simp
      then have "\<not> sb \<le> minbit" using aligned_le_block [OF al, of minbit] by auto
      ultimately show ?thesis
        using False al left(1) block_le [of maxbit] by (auto simp: block_aligned)
    qed
    ultimately show False using here by blast
  qed
  then have ok: "chain_ok (range_chain (Suc j) minbit maxbit sb)"
    using IH(1) below al not_last_iff [OF al] left(4) by (simp add: node_ok_def)
  have bits: "bits_of (range_chain (Suc j) minbit maxbit sb) = {b. sb \<le> b \<and> minbit \<le> b \<and> b \<le> maxbit}"
    using below here IH(3) aligned_step [OF al left(2)] by (auto simp: bits_of_Cons)
  have "last_highbit (range_chain (Suc j) minbit maxbit sb) = block maxbit + 64"
  proof (cases j)
    case 0
    with Suc.prems(1) have "sb = block maxbit"
      by (auto simp: range_left_def intro: unsigned_word_eqI [where ?'a = nat])
    with 0 show ?thesis by simp
  next
    case (Suc j')
    with IH(4) show ?thesis by simp
  qed
  with ok bits below show ?case by (auto simp: below_def)
qed

text \<open>
  The bitmap of a range. When memory runs out the bitmap keeps the blocks built so far, with
  \<open>highbit\<close> zero: it is not well formed and good only for destruction.
\<close>

lemma init_range_correct:
  assumes "ebitmap_init_range minbit maxbit m = (rc, e, m')"
  shows "rc = - EINVAL \<and> e = ebitmap_init \<and> maxbit < minbit \<or>
    rc = - EOVERFLOW \<and> e = ebitmap_init \<and> minbit \<le> maxbit \<and> block maxbit = block (- 1) \<or>
    rc = - ENOMEM \<and> highbit e = 0 \<or>
    rc = 0 \<and> ebitmap_ok e \<and> ebits e = {b. minbit \<le> b \<and> b \<le> maxbit}"
proof -
  let ?p = "unat minbit div 64" and ?q = "unat maxbit div 64"
  have wrap: "block b + 64 = 0 \<longleftrightarrow> block b = block (- 1)" for b by (rule block_wrap)
  consider (empty) "maxbit < minbit" | (last) "minbit \<le> maxbit" "block maxbit = block (- 1)"
    | (range) "minbit \<le> maxbit" "block maxbit \<noteq> block (- 1)" "block minbit \<noteq> block (- 1)"
  proof (cases "minbit \<le> maxbit \<and> block maxbit \<noteq> block (- 1)")
    case True
    then have "?p \<le> ?q" by (simp add: word_le_nat_alt div_le_mono)
    then have le: "block minbit \<le> block maxbit" by (simp add: word_le_nat_alt unat_block)
    have "block maxbit \<le> block (- 1)" by (intro aligned_le_block) simp_all
    with le True have "block minbit \<noteq> block (- 1)" by auto
    with True show ?thesis by (intro range) auto
  qed (meson empty last not_le)
  then show ?thesis
  proof cases
    case empty
    with assms show ?thesis by (simp add: ebitmap_init_range_def)
  next
    case last
    with assms wrap show ?thesis
      by (auto simp: ebitmap_init_range_def low32_plus Let_def split: if_splits)
  next
    case range
    let ?j = "Suc (?q - ?p)"
    have "?p \<le> ?q" using range(1) by (simp add: word_le_nat_alt div_le_mono)
    then have left: "range_left ?j (block minbit) maxbit"
      using range(2) by (simp add: range_left_def unat_block algebra_simps)
    obtain ok ns m1 where loop:
      "range_loop minbit maxbit (block minbit) (block maxbit) (block minbit) m = (ok, ns, m1)"
      by (cases "range_loop minbit maxbit (block minbit) (block maxbit) (block minbit) m") auto
    have init: "ebitmap_init_range minbit maxbit m =
        (if ok then (0, \<lparr>node = ns, highbit = block maxbit + 64\<rparr>, m1)
         else (- ENOMEM, \<lparr>node = ns, highbit = 0\<rparr>, m1))"
      using range wrap loop by (auto simp: ebitmap_init_range_def low32_plus Let_def)
    show ?thesis
    proof (cases ok)
      case True
      have eq: "ns = range_chain ?j minbit maxbit (block minbit)"
        by (rule range_loop_chain [OF left]) (use loop True in simp)
      note chain = range_chain_correct [OF left range(1) order.refl, folded eq]
      have "ebitmap_ok \<lparr>node = ns, highbit = block maxbit + 64\<rparr>"
        using chain by (simp add: ebitmap_ok_def)
      moreover have "{b. block minbit \<le> b \<and> minbit \<le> b \<and> b \<le> maxbit} = {b. minbit \<le> b \<and> b \<le> maxbit}"
        using block_le [of minbit] by auto
      then have "ebits \<lparr>node = ns, highbit = block maxbit + 64\<rparr> = {b. minbit \<le> b \<and> b \<le> maxbit}"
        using chain by (simp add: ebits_bits_of)
      ultimately show ?thesis using assms init True by auto
    qed (use assms init in auto)
  qed
qed

section \<open>Counting\<close>

lemma card_node_bits: "aligned (startbit n) \<Longrightarrow> card (node_bits n) = popcount (node_map n)"
proof -
  assume al: "aligned (startbit n)"
  let ?K = "{k. k < 64 \<and> bit (node_map n) k}"
  have "bij_betw (\<lambda>k. startbit n + of_nat k) ?K (node_bits n)"
  proof (rule bij_betw_byWitness [where f' = offset])
    show "\<forall>k \<in> ?K. offset (startbit n + of_nat k) = k" using block_plus(2) [OF al] by blast
    show "\<forall>b \<in> node_bits n. startbit n + of_nat (offset b) = b"
      using block_split by (metis (mono_tags, lifting) mem_Collect_eq node_bits_def)
    show "(\<lambda>k. startbit n + of_nat k) ` ?K \<subseteq> node_bits n"
    proof
      fix b assume "b \<in> (\<lambda>k. startbit n + of_nat k) ` ?K"
      then obtain k where k: "k < 64" "bit (node_map n) k" "b = startbit n + of_nat k" by auto
      show "b \<in> node_bits n"
        unfolding node_bits_def mem_Collect_eq k(3) block_plus [OF al k(1)] using k(2) by simp
    qed
    show "offset ` node_bits n \<subseteq> ?K" by (auto simp: node_bits_def)
  qed
  then have "card (node_bits n) = card ?K" by (simp add: bij_betw_same_card)
  moreover have "?K = set (filter (bit (node_map n)) [0..<64])" by auto
  then have "card ?K = popcount (node_map n)"
    using distinct_card [of "filter (bit (node_map n)) [0..<64]"] by (simp only: popcount_def) simp
  ultimately show ?thesis by simp
qed

lemma card_bits_of_Cons:
  assumes "chain_ok (n # ns)"
  shows "card (bits_of (n # ns)) = popcount (node_map n) + card (bits_of ns)"
  using assms node_bits_disjoint [of n ns]
  by (simp add: bits_of_Cons card_Un_disjoint card_node_bits node_ok_def)

lemma cardinality_loop_correct:
  "chain_ok ns \<Longrightarrow> cardinality_loop ns count = count + of_nat (card (bits_of ns))"
proof (induction ns arbitrary: count)
  case (Cons n ns)
  from Cons.prems show ?case
    by (simp only: card_bits_of_Cons) (simp add: Cons.IH)
qed simp

lemma card_u32: "card (S :: u32 set) \<le> 2 ^ 32"
proof -
  have "card (UNIV :: u32 set) = 2 ^ 32" by (simp add: card_word)
  then show ?thesis by (metis card_mono finite subset_UNIV)
qed

lemma cardinality_correct:
  assumes "ebitmap_ok e"
  shows "unat (ebitmap_cardinality e) = card (ebits e)"
proof -
  have "(- 1 :: u32) \<notin> ebits e"
    using assms by (simp add: ebits_def ebitmap_ok_def chain_ok_def word_at_last_block)
  then have "ebits e \<subseteq> UNIV - {- 1}" by auto
  then have "card (ebits e) < 2 ^ 32"
    using card_mono [of "UNIV - {- 1 :: u32}" "ebits e"] by (simp add: card_Diff_singleton card_word)
  then show ?thesis
    using assms by (simp add: ebitmap_cardinality_def ebitmap_ok_def cardinality_loop_correct
        ebits_bits_of unat_of_nat)
qed

section \<open>Comparing\<close>

lemma cmp_loop_correct: "cmp_loop as bs = ([], []) \<longleftrightarrow> as = bs"
proof (induction as bs rule: cmp_loop.induct)
  case (1 a as b bs)
  have "a = b \<longleftrightarrow> startbit a = startbit b \<and> node_map a = node_map b"
    by (cases a; cases b) simp
  with 1 show ?case by auto
qed auto

lemma cmp_correct:
  assumes "ebitmap_ok e1" and "ebitmap_ok e2"
  shows "ebitmap_cmp e1 e2 = (if ebits e1 = ebits e2 then 1 else 0)"
proof -
  have "ebits e1 = ebits e2 \<longleftrightarrow> node e1 = node e2"
    using assms bits_of_inject by (auto simp: ebits_bits_of ebitmap_ok_def)
  moreover have "ebitmap_cmp e1 e2 = (if node e1 = node e2 then 1 else 0)"
    using assms cmp_loop_correct [of "node e1" "node e2"]
    by (auto simp: ebitmap_cmp_def ebitmap_ok_def split: prod.splits)
  ultimately show ?thesis by simp
qed

lemma sint_small:
  assumes "unat (w :: u32) < 2 ^ 31"
  shows "sint w = int (unat w)"
proof -
  have u: "uint w = int (unat w)" by simp
  have "int (unat w) < int (2 ^ 31)" using assms unfolding of_nat_less_iff .
  then have "uint w < 2 ^ 31" unfolding u by simp
  moreover have "- (2 ^ 31) \<le> uint w" by (rule order.trans [of _ 0]) simp_all
  ultimately have "signed_take_bit 31 (uint w) = uint w" by (intro signed_take_bit_int_eq_self)
  then show ?thesis unfolding u [symmetric] by (simp add: sint_uint)
qed

lemma hamming_correct:
  assumes "ebitmap_ok e1" and "ebitmap_ok e2"
    and "card (ebits e1 - ebits e2 \<union> (ebits e2 - ebits e1)) < 2 ^ 31"
    and "ebitmap_hamming_distance e1 e2 m = (d, m')"
  shows "d = -1 \<or> d = int (card (ebits e1 - ebits e2 \<union> (ebits e2 - ebits e1)))"
proof (cases "ebits e1 = ebits e2")
  case True
  with assms show ?thesis by (simp add: ebitmap_hamming_distance_def cmp_correct)
next
  case False
  obtain rc tmp m1 where x: "ebitmap_xor e1 e2 m = (rc, tmp, m1)"
    by (cases "ebitmap_xor e1 e2 m") auto
  then have "built (rc, tmp, m1) (ebits e1 - ebits e2 \<union> (ebits e2 - ebits e1))"
    using xor_built [OF assms(1,2), of m] by simp
  then consider "rc = - ENOMEM"
    | "rc = 0" "unat (ebitmap_cardinality tmp) = card (ebits e1 - ebits e2 \<union> (ebits e2 - ebits e1))"
    by (auto simp: built_def cardinality_correct)
  then show ?thesis
  proof cases
    case 1
    with x assms False show ?thesis by (simp add: ebitmap_hamming_distance_def cmp_correct)
  next
    case 2
    have "sint (ebitmap_cardinality tmp) = int (unat (ebitmap_cardinality tmp))"
      using 2(2) assms(3) by (intro sint_small) simp
    with 2 x assms False show ?thesis by (simp add: ebitmap_hamming_distance_def cmp_correct)
  qed
qed

lemma cpy_loop_alloc: "cpy_loop ns = alloc_chain ns"
  by (induction ns) simp_all

lemma cpy_correct:
  assumes "ebitmap_cpy e m = (rc, e', m')"
  shows "rc = - ENOMEM \<and> e' = ebitmap_init \<or> rc = 0 \<and> e' = e"
  using assms
  by (cases e) (auto simp: ebitmap_cpy_def cpy_loop_alloc dest!: alloc_chain_Some
      split: prod.splits option.splits)

lemma cpy_succeeds: "length (node e) \<le> k \<Longrightarrow> fst (ebitmap_cpy e (replicate k True)) = 0"
  using alloc_chain_enough [of "node e" k "[]"] by (simp add: ebitmap_cpy_def cpy_loop_alloc)

section \<open>Inclusion and overlap\<close>

lemma word_subset: "(v AND w = (w :: u64)) \<longleftrightarrow> (\<forall>k < 64. bit w k \<longrightarrow> bit v k)"
proof
  assume "v AND w = w"
  then show "\<forall>k < 64. bit w k \<longrightarrow> bit v k" by (metis bit_and_iff)
next
  assume "\<forall>k < 64. bit w k \<longrightarrow> bit v k"
  then show "v AND w = w" by (intro word_eq_bits) (auto simp: bit_simps)
qed

lemma subset_iff_words:
  assumes "chain_ok as" and "chain_ok bs"
  shows "bits_of bs \<subseteq> bits_of as \<longleftrightarrow> (\<forall>s. word_at as s AND word_at bs s = word_at bs s)"
proof
  assume sub: "bits_of bs \<subseteq> bits_of as"
  show "\<forall>s. word_at as s AND word_at bs s = word_at bs s"
  proof
    fix s
    show "word_at as s AND word_at bs s = word_at bs s"
    proof (cases "aligned s")
      case True
      have "bit (word_at as s) k" if "k < 64" "bit (word_at bs s) k" for k
      proof -
        have "s + of_nat k \<in> bits_of bs"
          unfolding bits_of_def mem_Collect_eq block_plus [OF True that(1)] by (rule that(2))
        with sub have "s + of_nat k \<in> bits_of as" by auto
        then show ?thesis unfolding bits_of_def mem_Collect_eq block_plus [OF True that(1)] .
      qed
      then show ?thesis by (simp add: word_subset)
    next
      case False
      with assms(2) show ?thesis by (simp add: chain_ok_def word_at_unaligned)
    qed
  qed
next
  assume "\<forall>s. word_at as s AND word_at bs s = word_at bs s"
  then show "bits_of bs \<subseteq> bits_of as" by (auto simp: bits_of_def) (metis bit_and_iff)
qed

lemma contains_loop_words:
  "chain_ok as \<Longrightarrow> chain_ok bs \<Longrightarrow>
   contains_loop as bs =
     (if \<forall>s. word_at as s AND word_at bs s = word_at bs s then 1 else 0)"
proof (induction as bs rule: contains_loop.induct)
  case (1 a as b bs)
  have a: "node_map a \<noteq> 0" "below (startbit a) as" "chain_ok as"
    and b: "node_map b \<noteq> 0" "below (startbit b) bs" "chain_ok bs"
    using 1 by (simp_all add: node_ok_def)
  consider (lt) "startbit a < startbit b" | (eq) "startbit a = startbit b" | (gt) "startbit b < startbit a"
    by (rule linorder_cases)
  then show ?case
  proof cases
    case lt
    then have "word_at (b # bs) (startbit a) = 0" using b(2) by (auto intro: word_at_below below_trans)
    then have "(\<forall>s. word_at (a # as) s AND word_at (b # bs) s = word_at (b # bs) s) \<longleftrightarrow>
        (\<forall>s. word_at as s AND word_at (b # bs) s = word_at (b # bs) s)"
      by (metis and_zero_eq word_at.simps(2))
    moreover have "startbit a \<le> startbit b" using lt by simp
    ultimately show ?thesis using lt 1 by (simp del: word_at.simps)
  next
    case eq
    have "(\<forall>s. word_at (a # as) s AND word_at (b # bs) s = word_at (b # bs) s) \<longleftrightarrow>
        node_map a AND node_map b = node_map b \<and> (\<forall>s. word_at as s AND word_at bs s = word_at bs s)"
      (is "?l \<longleftrightarrow> ?r")
    proof
      assume l: ?l
      have "word_at as s AND word_at bs s = word_at bs s" for s
        using spec [OF l, of s] eq word_at_below [OF b(2)] by (cases "s = startbit b") simp_all
      with spec [OF l, of "startbit b"] eq show ?r by simp
    qed (use eq in simp)
    with eq 1 a b show ?thesis by (simp del: word_at.simps)
  next
    case gt
    then have "word_at (a # as) (startbit b) = 0" using a(2) by (auto intro: word_at_below below_trans)
    then have "\<not> (\<forall>s. word_at (a # as) s AND word_at (b # bs) s = word_at (b # bs) s)"
      using b(1) by (metis zero_and_eq word_at.simps(2))
    with gt show ?thesis by (simp add: not_le [symmetric] del: word_at.simps)
  qed
next
  case (2 as)
  then show ?case by simp
next
  case (3 b bs)
  then have "word_at (b # bs) (startbit b) \<noteq> 0" by (simp add: node_ok_def)
  then show ?case by (metis contains_loop.simps(3) word_at.simps(1) zero_and_eq)
qed

lemma highbit_mono:
  assumes "chain_ok as" and "chain_ok bs" and "bits_of bs \<subseteq> bits_of as"
  shows "last_highbit bs \<le> last_highbit as"
proof -
  have "\<exists>a \<in> set as. startbit a = startbit b" if "b \<in> set bs" for b
  proof -
    have ok: "node_ok b" using that assms(2) by (auto simp: chain_ok_def list_all_iff)
    have "word_at bs (startbit b) \<noteq> 0"
      using word_at_member [OF assms(2) that] ok by (simp add: node_ok_def)
    then have "word_at as (startbit b) \<noteq> 0"
      using subset_iff_words [OF assms(1,2)] assms(3) by (metis zero_and_eq)
    then show ?thesis using word_at_nodes by blast
  qed
  then show ?thesis
    using last_highbit_le_iff [OF assms(2), of "last_highbit as"]
      last_highbit_le_iff [OF assms(1), of "last_highbit as"] by force
qed

lemma contains_correct:
  assumes "ebitmap_ok e1" and "ebitmap_ok e2"
  shows "ebitmap_contains e1 e2 = (if ebits e2 \<subseteq> ebits e1 then 1 else 0)"
  using assms highbit_mono [of "node e1" "node e2"] subset_iff_words [of "node e1" "node e2"]
  by (auto simp: ebitmap_contains_def ebitmap_ok_def ebits_bits_of contains_loop_words not_le [symmetric])

lemma match_any_chain: "match_any_loop as bs = (if and_chain as bs = [] then 0 else 1)"
  by (induction as bs rule: match_any_loop.induct) auto

lemma match_any_correct:
  assumes "ebitmap_ok e1" and "ebitmap_ok e2"
  shows "ebitmap_match_any e1 e2 = (if ebits e1 \<inter> ebits e2 = {} then 0 else 1)"
proof -
  have "bits_of (and_chain (node e1) (node e2)) = bits_of (node e1) \<inter> bits_of (node e2)"
    using assms by (auto simp: ebitmap_ok_def bits_of_def and_m.merge_word bit_simps)
  moreover have "bits_of (and_chain (node e1) (node e2)) = {} \<longleftrightarrow> and_chain (node e1) (node e2) = []"
    using assms by (intro bits_of_zero_iff and_m.merge_ok) (simp_all add: ebitmap_ok_def)
  ultimately show ?thesis by (simp add: ebitmap_match_any_def match_any_chain ebits_bits_of)
qed

section \<open>The highest bit\<close>

lemma high_pos_correct:
  "w \<noteq> 0 \<Longrightarrow> \<exists>k. high_pos w pos = pos + of_nat k \<and> k < 64 \<and> bit w k \<and> (\<forall>j > k. \<not> bit w j)"
proof (induction w pos rule: high_pos.induct)
  case (1 w pos)
  have db: "bit (drop_bit 1 w) j \<longleftrightarrow> bit w (Suc j)" for j by (simp add: bit_drop_bit_eq)
  show ?case
  proof (cases "drop_bit 1 w = 0")
    case True
    have "\<not> bit w (Suc j)" for j using db [of j] True by simp
    then have none: "\<not> bit w j" if "0 < j" for j using that by (cases j) auto
    have "bit w 0"
    proof (rule ccontr)
      assume "\<not> bit w 0"
      with none have "\<not> bit w j" for j by (cases "j = 0") auto
      then have "w = 0" by (intro bit_word_eqI) simp
      with 1(2) show False by simp
    qed
    moreover have "high_pos w pos = pos" using True by (simp only: high_pos.simps [of w] Let_def) simp
    ultimately show ?thesis using none by (intro exI [of _ 0]) auto
  next
    case False
    then obtain k where k: "high_pos (drop_bit 1 w) (pos + 1) = pos + 1 + of_nat k" "k < 64"
        "bit (drop_bit 1 w) k" "\<forall>j > k. \<not> bit (drop_bit 1 w) j"
      using 1(1) [OF refl False] by auto
    have "bit w (Suc k)" using k(3) db by simp
    then have "Suc k < 64" using bit_imp_le_length [of w "Suc k"] by simp
    moreover have "\<not> bit w j" if "Suc k < j" for j
      using that k(4) db [of "j - 1"] by (cases j) auto
    moreover have "high_pos w pos = pos + of_nat (Suc k)"
      using False k(1) by (simp only: high_pos.simps [of w pos] Let_def) simp
    ultimately show ?thesis using \<open>bit w (Suc k)\<close> by blast
  qed
qed

lemma highest_bit_chain:
  assumes "chain_ok ns" and "ns \<noteq> []"
  shows "startbit (last ns) + high_pos (node_map (last ns)) 0 \<in> bits_of ns \<and>
    (\<forall>b \<in> bits_of ns. b \<le> startbit (last ns) + high_pos (node_map (last ns)) 0)"
  using assms
proof (induction ns)
  case (Cons n ns)
  show ?case
  proof (cases "ns = []")
    case True
    have n: "node_map n \<noteq> 0" "aligned (startbit n)" using Cons.prems by (simp_all add: node_ok_def)
    obtain k where k: "high_pos (node_map n) 0 = of_nat k" "k < 64" "bit (node_map n) k"
        "\<forall>j > k. \<not> bit (node_map n) j"
      using high_pos_correct [OF n(1), of 0] by auto
    have "startbit n + of_nat k \<in> node_bits n"
      unfolding node_bits_def mem_Collect_eq block_plus [OF n(2) k(2)] using k(3) by simp
    moreover have "b \<le> startbit n + of_nat k" if "b \<in> node_bits n" for b
    proof -
      have b: "block b = startbit n" "offset b \<le> k"
        using that k(4) by (auto simp: node_bits_def not_less [symmetric])
      have "unat b = unat (startbit n) + offset b"
        using unat_block [of b] b(1) by (simp add: minus_mod_eq_div_mult [symmetric])
      then show ?thesis unfolding word_le_nat_alt aligned_room [OF n(2) k(2)] using b(2) by simp
    qed
    ultimately show ?thesis using True k(1) by (simp add: bits_of_Cons)
  next
    case False
    with Cons have IH: "startbit (last ns) + high_pos (node_map (last ns)) 0 \<in> bits_of ns"
        "\<forall>b \<in> bits_of ns. b \<le> startbit (last ns) + high_pos (node_map (last ns)) 0" by auto
    have "b \<le> startbit (last ns) + high_pos (node_map (last ns)) 0" if "b \<in> node_bits n" for b
    proof -
      let ?h = "startbit (last ns) + high_pos (node_map (last ns)) 0"
      obtain n' where "n' \<in> set ns" "startbit n' = block ?h" using bits_of_block [OF IH(1)] by auto
      with Cons.prems(1) that have "block b < block ?h" by (auto simp: below_def node_bits_def)
      then have "unat b div 64 < unat ?h div 64"
        unfolding word_less_nat_alt unat_block by simp
      then have "unat b < unat ?h" by (metis div_le_mono not_le)
      then show ?thesis by (simp add: word_le_nat_alt)
    qed
    with IH False Cons.prems(1) show ?thesis by (auto simp: bits_of_Cons)
  qed
qed simp

lemma highest_set_bit_correct:
  assumes "ebitmap_ok e"
  shows "ebitmap_highest_set_bit e = (if ebits e = {} then 0 else Max (ebits e))"
proof (cases "node e = []")
  case True
  then show ?thesis by (simp add: ebitmap_highest_set_bit_def ebits_bits_of)
next
  case False
  note h = highest_bit_chain [of "node e"]
  have "ebits e \<noteq> {}" using assms False by (simp add: ebits_bits_of ebitmap_ok_def bits_of_zero_iff)
  moreover have "Max (ebits e) = ebitmap_highest_set_bit e"
    using h assms False by (intro Max_eqI) (simp_all add: ebits_bits_of ebitmap_ok_def ebitmap_highest_set_bit_def)
  ultimately show ?thesis by simp
qed

section \<open>Iteration\<close>

lemma sorted_list_insert_least:
  "finite S \<Longrightarrow> \<forall>b \<in> S. a < b \<Longrightarrow> sorted_list_of_set (insert a S) = a # sorted_list_of_set S"
proof -
  assume S: "finite S" "\<forall>b \<in> S. a < b"
  then have "a \<notin> S" by auto
  with S show ?thesis by (simp add: sorted_list_of_set_insert insort_is_Cons less_imp_le)
qed

lemma bits_from:
  "{b \<in> B. bt \<le> b} = (if bt \<in> B then insert bt {b \<in> B. bt < b} else {b \<in> B. bt < (b :: u32)})"
  by (auto simp: le_less)

lemma node_bit_iff:
  "block bt = startbit n \<Longrightarrow> ebitmap_node_get_bit n bt \<longleftrightarrow> bt \<in> node_bits n"
  by (simp add: ebitmap_node_get_bit_def offset_diff node_bits_def)

lemma unat_in_block: "block bt = s \<Longrightarrow> unat bt = unat s + offset bt"
  using unat_block [of bt] by (simp add: minus_mod_eq_div_mult [symmetric])

lemma bit_in_node:
  assumes "node_ok n" and "block bt = startbit n"
  shows "bt < startbit n + 64" and "unat (bt + 1) = unat bt + 1"
    and "bt + 1 \<le> startbit n + 64" and "bt < b \<longleftrightarrow> bt + 1 \<le> b"
    and "offset bt \<noteq> 63 \<Longrightarrow> block (bt + 1) = startbit n"
    and "(ucast bt :: u64) = ucast (startbit n) + MAPSIZE - 1 \<longleftrightarrow> offset bt = 63"
proof -
  note e = node_end [OF assms(1)]
  have r: "unat (startbit n) + 64 < 2 ^ 32"
    using assms(1) not_last_iff [of "startbit n"] by (auto simp: node_ok_def)
  have u: "unat bt = unat (startbit n) + offset bt" using assms(2) by (rule unat_in_block)
  have o: "offset bt < 64" by simp
  then show "bt < startbit n + 64" unfolding word_less_nat_alt e using u by linarith
  have "unat bt + 1 < 2 ^ 32" using u o r by linarith
  then show s: "unat (bt + 1) = unat bt + 1" by (simp add: unat_word_ariths)
  show "bt + 1 \<le> startbit n + 64" unfolding word_le_nat_alt e s using u o by linarith
  show "bt < b \<longleftrightarrow> bt + 1 \<le> b" unfolding word_le_nat_alt word_less_nat_alt s by linarith
  show "block (bt + 1) = startbit n" if "offset bt \<noteq> 63"
  proof -
    have al: "aligned (startbit n)" using assms(1) by (simp add: node_ok_def)
    have k: "offset bt + 1 < 64" using that o by linarith
    have "bt + 1 = startbit n + of_nat (offset bt + 1)"
      using block_split [OF assms(2)] by (simp add: add.assoc [symmetric])
    then show ?thesis using block_plus(1) [OF al k] by (simp only:)
  qed
  have "unat (ucast (startbit n) + MAPSIZE - 1) = unat (startbit n) + 63"
    using unat_ucast_plus [of 63 "startbit n"] by (simp add: algebra_simps)
  then have "(ucast bt :: u64) = ucast (startbit n) + MAPSIZE - 1 \<longleftrightarrow> unat bt = unat (startbit n) + 63"
    by (metis unat_ucast_u64 unsigned_word_eqI)
  then show "(ucast bt :: u64) = ucast (startbit n) + MAPSIZE - 1 \<longleftrightarrow> offset bt = 63"
    using u by linarith
qed

lemma bits_after_last:
  assumes "chain_ok (n # ns)" and "block bt = startbit n" and "offset bt = 63"
  shows "{b \<in> bits_of (n # ns). bt < b} = bits_of ns"
proof -
  have u: "unat bt = unat (startbit n) + 63" using unat_in_block [OF assms(2)] assms(3) by simp
  have "\<not> bt < b" if "b \<in> node_bits n" for b
    using that unat_in_block [of b "startbit n"] u
    by (auto simp: node_bits_def word_less_nat_alt not_less)
  moreover have "bt < b" if b: "b \<in> bits_of ns" for b
  proof -
    obtain n' where "n' \<in> set ns" "startbit n' = block b" using bits_of_block [OF b] by auto
    with assms(1,2) have "block bt < block b" by (auto simp: below_def)
    then have "unat bt div 64 < unat b div 64" unfolding word_less_nat_alt unat_block by simp
    then have "unat bt < unat b" by (metis div_le_mono not_le)
    then show ?thesis by (simp add: word_less_nat_alt)
  qed
  ultimately show ?thesis using assms(1) by (auto simp: bits_of_Cons)
qed

lemma next_in_block:
  assumes "chain_ok (n # ns)" and "block bt = startbit n" and "offset bt \<noteq> 63 \<or> ns = []"
  shows "ebitmap_next (n # ns) bt = (n # ns, bt + 1)"
  using assms bit_in_node(6) [OF _ assms(2)] by (cases ns) auto

lemma next_bit:
  assumes "chain_ok (n # ns)" and "block bt = startbit n" and "ebitmap_next (n # ns) bt = (ns', bt')"
  shows "ns' \<noteq> [] \<and> chain_ok ns' \<and> last_highbit ns' = last_highbit (n # ns) \<and> bt < bt' \<and>
      (bt' < last_highbit (n # ns) \<longrightarrow> block bt' = startbit (hd ns')) \<and>
      {b \<in> bits_of ns'. bt' \<le> b} = {b \<in> bits_of (n # ns). bt < b}"
proof -
  have ok: "node_ok n" using assms(1) by simp
  note bn = bit_in_node [OF ok assms(2)]
  show ?thesis
  proof (cases "offset bt = 63 \<and> ns \<noteq> []")
    case True
    then obtain n' ns0 where ns: "ns = n' # ns0" by (cases ns) auto
    have n': "ns' = ns" "bt' = startbit n'" using assms(3) True bn(6) ns by auto
    have low: "startbit n' \<le> b" if "b \<in> bits_of ns" for b
      using bits_of_block [OF that] assms(1) ns block_le [of b]
      by (auto simp: below_def intro: order.trans less_imp_le)
    have "bt < startbit n'"
    proof -
      have "startbit n' \<noteq> 0" using assms(1) ns by auto
      have "startbit n < startbit n'" "aligned (startbit n')"
        using assms(1) ns by (simp_all add: node_ok_def)
      then have "startbit n + 64 \<le> startbit n'"
        using aligned_step [of "startbit n" "startbit n'"] node_end [OF ok] ok
        by (auto simp: node_ok_def block_aligned)
      then show ?thesis using bn(1) by simp
    qed
    moreover have "block (startbit n') = startbit n'"
      using assms(1) ns by (simp add: node_ok_def block_aligned)
    moreover have "{b \<in> bits_of ns. startbit n' \<le> b} = {b \<in> bits_of (n # ns). bt < b}"
      using bits_after_last [OF assms(1,2)] True low by auto
    ultimately show ?thesis using n' ns assms(1) by simp
  next
    case False
    then have n': "ns' = n # ns" "bt' = bt + 1"
      using assms next_in_block [of n ns bt] by auto
    have lt: "bt < bt + 1" using bn(2) by (simp add: word_less_nat_alt)
    have "block (bt + 1) = startbit n" if "bt + 1 < last_highbit (n # ns)"
    proof (cases "offset bt = 63")
      case True
      with False have "ns = []" by simp
      moreover have "unat (bt + 1) = unat (startbit n + 64)"
        using unat_in_block [OF assms(2)] True bn(2) node_end [OF ok] by simp
      ultimately show ?thesis using that by (simp add: word_less_nat_alt)
    qed (rule bn(5))
    with lt n' assms(1) bn(4) show ?thesis by simp
  qed
qed

lemma for_each_correct:
  assumes "ns \<noteq> []" and "chain_ok ns" and "len = last_highbit ns"
    and "bt < len \<longrightarrow> block bt = startbit (hd ns)"
  shows "for_each_positive_bit ns len bt = Some (sorted_list_of_set {b \<in> bits_of ns. bt \<le> b})"
  using assms
proof (induction "unat len - unat bt" arbitrary: ns bt rule: less_induct)
  case less
  show ?case
  proof (cases "bt < len")
    case False
    then have "{b \<in> bits_of ns. bt \<le> b} = {}"
      using bits_below_highbit [OF less.prems(2)] less.prems(3) by force
    then have "sorted_list_of_set {b \<in> bits_of ns. bt \<le> b} = []" by (simp only: sorted_list_of_set_empty)
    with False show ?thesis by (subst for_each_positive_bit.simps) (simp only: if_False)
  next
    case True
    obtain n ns0 where ns: "ns = n # ns0" using less.prems(1) by (cases ns) auto
    obtain ns' bt' where nx: "ebitmap_next ns bt = (ns', bt')" by (cases "ebitmap_next ns bt")
    have bl: "block bt = startbit n" using less.prems(4) True ns by simp
    have nb: "ns' \<noteq> []" "chain_ok ns'" "last_highbit ns' = len" "bt < bt'"
        "bt' < len \<longrightarrow> block bt' = startbit (hd ns')"
        "{b \<in> bits_of ns'. bt' \<le> b} = {b \<in> bits_of ns. bt < b}"
      using next_bit [of n ns0 bt ns' bt'] less.prems ns bl nx by auto
    have "unat len - unat bt' < unat len - unat bt"
      using nb(4) True by (simp add: word_less_nat_alt)
    from less.hyps [OF this nb(1,2) nb(3) [symmetric] nb(5)]
    have rec: "for_each_positive_bit ns' len bt' = Some (sorted_list_of_set {b \<in> bits_of ns. bt < b})"
      by (simp add: nb(6))
    have here: "ebitmap_node_get_bit n bt \<longleftrightarrow> bt \<in> bits_of ns"
    proof -
      have "bt \<notin> bits_of ns0"
        using bits_of_block [of bt ns0] bl less.prems(2) ns by (force simp: below_def)
      with bl less.prems(2) ns show ?thesis by (simp add: node_bit_iff bits_of_Cons)
    qed
    have "for_each_positive_bit ns len bt = Some (if bt \<in> bits_of ns
        then bt # sorted_list_of_set {b \<in> bits_of ns. bt < b}
        else sorted_list_of_set {b \<in> bits_of ns. bt < b})"
      using True nx rec here ns by (subst for_each_positive_bit.simps) simp
    moreover have "sorted_list_of_set (insert bt {b \<in> bits_of ns. bt < b}) =
        bt # sorted_list_of_set {b \<in> bits_of ns. bt < b}"
      by (rule sorted_list_insert_least) auto
    ultimately show ?thesis
      by (cases "bt \<in> bits_of ns") (simp_all only: bits_from [of "bits_of ns" bt] if_True if_False)
  qed
qed

lemma positive_bits_correct:
  assumes "ebitmap_ok e"
  shows "ebitmap_positive_bits e = Some (sorted_list_of_set (ebits e))"
proof (cases "node e")
  case Nil
  then show ?thesis
    by (simp add: ebitmap_positive_bits_def ebitmap_length_def ebits_bits_of for_each_positive_bit.simps)
next
  case (Cons n ns)
  have ok: "chain_ok (n # ns)" using assms Cons by (simp add: ebitmap_ok_def)
  then have "block (startbit n) = startbit n" by (simp add: node_ok_def block_aligned)
  moreover have "{b \<in> bits_of (n # ns). startbit n \<le> b} = bits_of (n # ns)"
  proof -
    have "startbit n \<le> block b" if "b \<in> bits_of (n # ns)" for b
      using bits_of_block [OF that] ok by (auto simp: below_def)
    then show ?thesis using block_le by (auto intro: order.trans)
  qed
  ultimately show ?thesis
    using for_each_correct [of "n # ns" "highbit e" "startbit n"] ok assms Cons
    by (simp add: ebitmap_positive_bits_def ebitmap_length_def ebitmap_startbit_def ebits_bits_of
        ebitmap_ok_def)
qed

end
