(* ===== verification/Policy_File.thy ===== *)
theory Policy_File
  imports Prelude
begin

text \<open>
  Reading and writing binary policies (\<open>next_entry\<close>, \<open>put_entry\<close> and \<open>str_read\<close> of
  \<open>services.c\<close>, the byte order macros and size checks of \<open>private.h\<close>). The host is little
  endian, so the conversions of the macros are the identity and a number in a buffer is its
  bytes, lowest first.

  A policy file is a memory area, a stream or a mere count. When it is read, \<open>data\<close> holds what
  is left of the memory area and \<open>stream\<close> what is left of the stream; when it is written,
  \<open>written\<close> holds what has been stored so far, and \<open>room\<close> the bytes the stream still accepts.
\<close>

section \<open>Numbers as bytes\<close>

definition le16_bytes :: "u16 \<Rightarrow> byte list" where
  "le16_bytes w = [ucast w, ucast (drop_bit 8 w)]"

definition le16_word :: "byte list \<Rightarrow> u16" where
  "le16_word bs = ucast (bs ! 0) OR push_bit 8 (ucast (bs ! 1))"

definition le32_bytes :: "u32 \<Rightarrow> byte list" where
  "le32_bytes w = [ucast w, ucast (drop_bit 8 w), ucast (drop_bit 16 w), ucast (drop_bit 24 w)]"

definition le32_word :: "byte list \<Rightarrow> u32" where
  "le32_word bs =
    ucast (bs ! 0) OR push_bit 8 (ucast (bs ! 1)) OR push_bit 16 (ucast (bs ! 2)) OR
    push_bit 24 (ucast (bs ! 3))"

definition le64_bytes :: "u64 \<Rightarrow> byte list" where
  "le64_bytes w = le32_bytes (ucast w) @ le32_bytes (ucast (drop_bit 32 w))"

definition le64_word :: "byte list \<Rightarrow> u64" where
  "le64_word bs = ucast (le32_word (take 4 bs)) OR push_bit 32 (ucast (le32_word (drop 4 bs)))"

lemma length_le_bytes [simp]:
  "length (le16_bytes v) = 2" "length (le32_bytes w) = 4" "length (le64_bytes x) = 8"
  by (simp_all add: le16_bytes_def le32_bytes_def le64_bytes_def)

lemma le16_word_bytes [simp]: "le16_word (le16_bytes w) = w"
  by (rule bit_word_eqI) (auto simp: le16_word_def le16_bytes_def bit_simps)

lemma le32_word_bytes [simp]: "le32_word (le32_bytes w) = w"
proof (rule bit_word_eqI)
  fix n assume "n < LENGTH(32)"
  then consider "n < 8" | "8 \<le> n" "n < 16" | "16 \<le> n" "n < 24" | "24 \<le> n" "n < 32"
    by (simp add: not_less) linarith
  then show "bit (le32_word (le32_bytes w)) n \<longleftrightarrow> bit w n"
    by cases (auto simp: le32_word_def le32_bytes_def bit_simps)
qed

lemma le64_word_bytes [simp]: "le64_word (le64_bytes w) = w"
  by (rule bit_word_eqI) (auto simp: le64_word_def le64_bytes_def bit_simps)

section \<open>Policy files\<close>

abbreviation (input) PF_USE_MEMORY :: nat where "PF_USE_MEMORY \<equiv> 0"
abbreviation (input) PF_USE_STDIO :: nat where "PF_USE_STDIO \<equiv> 1"
abbreviation (input) PF_LEN :: nat where "PF_LEN \<equiv> 2"

abbreviation (input) POLICYDB_SUCCESS :: int where "POLICYDB_SUCCESS \<equiv> 0"
abbreviation (input) POLICYDB_ERROR :: int where "POLICYDB_ERROR \<equiv> -1"

record policy_file =
  ftype :: nat
  data :: "byte list"
  len :: u64
  stream :: "byte list"
  written :: "byte list"
  room :: nat

text \<open>The result of a read is the bytes read, or \<open>None\<close> for the code \<open>-1\<close>.\<close>

definition next_entry :: "policy_file \<Rightarrow> nat \<Rightarrow> byte list option \<times> policy_file" where
  "next_entry fp bytes =
    (if ftype fp = PF_USE_STDIO then
       (if 0 < bytes \<and> bytes \<le> length (stream fp)
        then (Some (take bytes (stream fp)), fp\<lparr>stream := drop bytes (stream fp)\<rparr>)
        else (None, fp\<lparr>stream := drop bytes (stream fp)\<rparr>))
     else if ftype fp = PF_USE_MEMORY then
       (if unat (len fp) < bytes then (None, fp)
        else (Some (take bytes (data fp)),
              fp\<lparr>data := drop bytes (data fp), len := len fp - of_nat bytes\<rparr>))
     else (None, fp))"

text \<open>
  \<open>put_entry\<close> of \<open>n\<close> items of \<open>sz\<close> bytes each, given as their bytes; the result counts the
  items written.
\<close>

definition put_entry :: "byte list \<Rightarrow> nat \<Rightarrow> nat \<Rightarrow> policy_file \<Rightarrow> nat \<times> policy_file" where
  "put_entry bs sz n fp =
    (if 2 ^ 64 \<le> sz * n then (0, fp)
     else if ftype fp = PF_USE_STDIO then
       (let k = min (sz * n) (room fp) in
        (if sz = 0 then 0 else k div sz,
         fp\<lparr>written := written fp @ take k bs, room := room fp - k\<rparr>))
     else if ftype fp = PF_USE_MEMORY then
       (if unat (len fp) < sz * n then (0, fp)
        else (n, fp\<lparr>written := written fp @ take (sz * n) bs, len := len fp - of_nat (sz * n)\<rparr>))
     else if ftype fp = PF_LEN then (n, fp\<lparr>len := len fp + of_nat (sz * n)\<rparr>)
     else (0, fp))"

definition exceeds_available_bytes :: "policy_file \<Rightarrow> nat \<Rightarrow> nat \<Rightarrow> bool" where
  "exceeds_available_bytes fp x req_elem_size \<longleftrightarrow>
    (if ftype fp \<noteq> PF_USE_MEMORY then False
     else if 2 ^ 64 \<le> x * req_elem_size then True
     else unat (len fp) < x * req_elem_size)"

definition zero_or_saturated :: "u32 \<Rightarrow> bool" where
  "zero_or_saturated x \<longleftrightarrow> x = 0 \<or> x = - 1"

section \<open>Reading what is there\<close>

text \<open>A policy file to read from memory, whose length field is right.\<close>

definition mem_file :: "byte list \<Rightarrow> policy_file \<Rightarrow> bool" where
  "mem_file bs fp \<longleftrightarrow>
    ftype fp = PF_USE_MEMORY \<and> data fp = bs \<and> len fp = of_nat (length bs) \<and> length bs < 2 ^ 64"

lemma next_entry_mem:
  assumes "mem_file (as @ bs) fp" and "n = length as"
  shows "\<exists>fp'. next_entry fp n = (Some as, fp') \<and> mem_file bs fp'"
proof -
  have "unat (len fp) = length as + length bs"
    using assms(1) by (simp add: mem_file_def unat_of_nat flip: of_nat_add)
  then show ?thesis using assms by (auto simp: next_entry_def mem_file_def)
qed

lemma next_entry_bytes:
  assumes "next_entry fp n = (Some bs, fp')" and "mem_file as fp"
  shows "length bs = n" and "as = bs @ data fp'" and "mem_file (data fp') fp'"
proof -
  have n: "n \<le> length as" "bs = take n as" "data fp' = drop n as" "len fp' = len fp - of_nat n"
      "ftype fp' = ftype fp"
    using assms by (auto simp: next_entry_def mem_file_def unat_of_nat split: if_splits)
  then show "length bs = n" "as = bs @ data fp'" by simp_all
  show "mem_file (data fp') fp'"
    using assms(2) n less_imp_diff_less [of "length as" "2 ^ 64" n]
    by (simp add: mem_file_def of_nat_diff)
qed

lemma next_entry_fail:
  assumes "next_entry fp n = (None, fp')" and "mem_file as fp"
  shows "fp' = fp" and "length as < n"
  using assms by (auto simp: next_entry_def mem_file_def unat_of_nat split: if_splits)

text \<open>A policy file to write to memory with enough space.\<close>

definition out_file :: "byte list \<Rightarrow> nat \<Rightarrow> policy_file \<Rightarrow> bool" where
  "out_file bs k fp \<longleftrightarrow> ftype fp = PF_USE_MEMORY \<and> written fp = bs \<and> unat (len fp) = k"

lemma put_entry_mem:
  assumes "out_file as (length bs + k) fp" and "sz * n = length bs"
  shows "\<exists>fp'. put_entry bs sz n fp = (n, fp') \<and> out_file (as @ bs) k fp'"
proof -
  have l: "unat (len fp) = length bs + k" using assms(1) by (simp add: out_file_def)
  have lt: "length bs < 2 ^ 64" using l unat_lt_u64 [of "len fp"] by linarith
  have "(of_nat (length bs) :: u64) \<le> len fp" using l lt by (simp add: word_le_nat_alt unat_of_nat)
  then have "unat (len fp - of_nat (length bs)) = k" using l lt by (simp add: unat_sub unat_of_nat)
  with assms l lt show ?thesis by (simp add: put_entry_def out_file_def)
qed

end
