(* ===== verification/Ebitmap_IO.thy ===== *)
theory Ebitmap_IO
  imports Ebitmap_Ops Policy_File
begin

text \<open>
  Bitmaps in binary policies: \<open>ebitmap_write\<close> of \<open>write.c\<close> and \<open>ebitmap_read\<close> of
  \<open>ebitmap.c\<close>. Whatever the bytes, a bitmap that is read without error is well formed, and an
  error leaves an empty one; reading back what was written gives the bitmap that was written.
\<close>

section \<open>Writing\<close>

primrec write_nodes :: "ebitmap_node list \<Rightarrow> policy_file \<Rightarrow> int \<times> policy_file" where
  "write_nodes [] fp = (POLICYDB_SUCCESS, fp)"
| "write_nodes (n # ns) fp =
    (case put_entry (le32_bytes (startbit n)) 4 1 fp of
       (items, fp') \<Rightarrow>
         if items \<noteq> 1 then (POLICYDB_ERROR, fp')
         else case put_entry (le64_bytes (node_map n)) 8 1 fp' of
           (items, fp'') \<Rightarrow> if items \<noteq> 1 then (POLICYDB_ERROR, fp'') else write_nodes ns fp'')"

definition ebitmap_write :: "ebitmap \<Rightarrow> policy_file \<Rightarrow> int \<times> policy_file" where
  "ebitmap_write e fp =
    (let count = of_nat (length (node e)) in
     case put_entry (le32_bytes (ucast MAPSIZE) @ le32_bytes (highbit e) @ le32_bytes count) 4 3 fp of
       (items, fp') \<Rightarrow> if items \<noteq> 3 then (POLICYDB_ERROR, fp') else write_nodes (node e) fp')"

section \<open>Reading\<close>

text \<open>
  \<open>read_nodes\<close> is the loop over \<open>count\<close> nodes; its third argument is the start bit of the last
  node linked (\<open>l\<close>), its result the code of the first error or the nodes linked.
\<close>

fun read_nodes ::
    "nat \<Rightarrow> u32 \<Rightarrow> u32 option \<Rightarrow> policy_file \<Rightarrow> alloc \<Rightarrow>
     (int + ebitmap_node list) \<times> policy_file \<times> alloc" where
  "read_nodes 0 hb l fp m = (Inr [], fp, m)"
| "read_nodes (Suc i) hb l fp m =
    (case next_entry fp 4 of
       (None, fp) \<Rightarrow> (Inl (- 1), fp, m)
     | (Some buf, fp) \<Rightarrow>
        (case malloc m of
           (False, m) \<Rightarrow> (Inl (- ENOMEM), fp, m)
         | (True, m) \<Rightarrow>
            (let sb = le32_word buf in
             if ucast sb AND (MAPSIZE - 1) \<noteq> 0 then (Inl (- EINVAL), fp, m)
             else if ucast hb - MAPSIZE < ucast sb then (Inl (- EINVAL), fp, m)
             else
               (case next_entry fp 8 of
                  (None, fp) \<Rightarrow> (Inl (- 1), fp, m)
                | (Some buf, fp) \<Rightarrow>
                   (let w = le64_word buf in
                    if w = 0 then (Inl (- EINVAL), fp, m)
                    else if (case l of Some s \<Rightarrow> sb \<le> s | None \<Rightarrow> False) then (Inl (- EINVAL), fp, m)
                    else
                      (case read_nodes i hb (Some sb) fp m of
                         (Inl rc, fp, m) \<Rightarrow> (Inl rc, fp, m)
                       | (Inr ns, fp, m) \<Rightarrow> (Inr (\<lparr>startbit = sb, node_map = w\<rparr> # ns), fp, m)))))))"

definition ebitmap_read :: "policy_file \<Rightarrow> alloc \<Rightarrow> int \<times> ebitmap \<times> policy_file \<times> alloc" where
  "ebitmap_read fp m =
    (case next_entry fp 12 of
       (None, fp) \<Rightarrow> (- 1, ebitmap_init, fp, m)
     | (Some buf, fp) \<Rightarrow>
        (let mapsize = le32_word (take 4 buf);
             hb = le32_word (take 4 (drop 4 buf));
             count = le32_word (drop 8 buf)
         in if ucast mapsize \<noteq> MAPSIZE then (- EINVAL, ebitmap_init, fp, m)
            else if hb = 0 then (0, \<lparr>node = [], highbit = hb\<rparr>, fp, m)
            else if ucast hb AND (MAPSIZE - 1) \<noteq> 0 then (- EINVAL, ebitmap_init, fp, m)
            else if count = 0 then (- EINVAL, ebitmap_init, fp, m)
            else
              (case read_nodes (unat count) hb None fp m of
                 (Inl rc, fp, m) \<Rightarrow> (rc, ebitmap_init, fp, m)
               | (Inr ns, fp, m) \<Rightarrow>
                   if ucast (startbit (last ns)) + MAPSIZE \<noteq> ucast hb
                   then (- EINVAL, ebitmap_init, fp, m)
                   else (0, \<lparr>node = ns, highbit = hb\<rparr>, fp, m))))"

section \<open>What is read is well formed\<close>

lemma source_aligned: "(ucast s :: u64) AND 63 = 0 \<longleftrightarrow> aligned s"
proof -
  have "(ucast s :: u64) AND 63 = ucast (s AND 63)"
    by (rule bit_word_eqI) (auto simp: bit_simps dest: bit_imp_le_length)
  moreover have "(ucast (s AND 63) :: u64) = 0 \<longleftrightarrow> s AND 63 = 0"
    by (metis unat_eq_0 unat_ucast_u64)
  ultimately show ?thesis by (simp add: aligned_def)
qed

lemma in_last_block:
  assumes "aligned hb" and "hb \<noteq> 0" and "aligned sb" and "\<not> ucast hb - MAPSIZE < ucast sb"
  shows "sb \<noteq> block (- 1)"
proof -
  obtain q where q: "unat hb = 64 * q" using assms(1) by (auto simp: aligned_iff)
  have "0 < unat hb" using assms(2) by (simp add: unat_gt_0)
  with q have "64 \<le> unat hb" by simp
  then have "MAPSIZE \<le> ucast hb" by (simp add: word_le_nat_alt)
  then have "unat (ucast hb - MAPSIZE) = unat hb - 64" by (simp add: unat_sub)
  with assms(4) have "unat sb \<le> unat hb - 64" by (simp add: word_less_nat_alt)
  with \<open>64 \<le> unat hb\<close> unat_lt_u32 [of hb] have "unat sb + 64 < 2 ^ 32" by linarith
  with assms(3) show ?thesis by (simp add: not_last_iff)
qed

lemma read_nodes_Suc:
  assumes "read_nodes (Suc i) hb l fp m = (Inr ns, fp', m')"
  shows "\<exists>buf fp1 m1 buf' fp2 ns1. next_entry fp 4 = (Some buf, fp1) \<and> malloc m = (True, m1) \<and>
      aligned (le32_word buf) \<and> \<not> ucast hb - MAPSIZE < ucast (le32_word buf) \<and>
      next_entry fp1 8 = (Some buf', fp2) \<and> le64_word buf' \<noteq> 0 \<and>
      (\<forall>s. l = Some s \<longrightarrow> s < le32_word buf) \<and>
      read_nodes i hb (Some (le32_word buf)) fp2 m1 = (Inr ns1, fp', m') \<and>
      ns = \<lparr>startbit = le32_word buf, node_map = le64_word buf'\<rparr> # ns1"
  using assms
  by (auto simp: Let_def source_aligned split: prod.splits option.splits bool.splits if_splits sum.splits)

lemma read_nodes_ok:
  assumes "read_nodes i hb l fp m = (Inr ns, fp', m')" and "aligned hb" and "hb \<noteq> 0"
  shows "chain_ok ns \<and> length ns = i \<and> (\<forall>s. l = Some s \<longrightarrow> below s ns)"
  using assms
proof (induction i arbitrary: l fp m ns)
  case (Suc i)
  obtain buf fp1 m1 buf' fp2 ns1 where
    step: "aligned (le32_word buf)" "\<not> ucast hb - MAPSIZE < ucast (le32_word buf)"
      "le64_word buf' \<noteq> 0" "\<forall>s. l = Some s \<longrightarrow> s < le32_word buf"
      "read_nodes i hb (Some (le32_word buf)) fp2 m1 = (Inr ns1, fp', m')"
      "ns = \<lparr>startbit = le32_word buf, node_map = le64_word buf'\<rparr> # ns1"
    using read_nodes_Suc [OF Suc.prems(1)] by blast
  have "chain_ok ns1 \<and> length ns1 = i \<and> below (le32_word buf) ns1"
    using Suc.IH [OF step(5) Suc.prems(2,3)] by simp
  moreover have "le32_word buf \<noteq> block (- 1)"
    using in_last_block [OF Suc.prems(2,3) step(1,2)] .
  ultimately show ?case using step by (auto simp: node_ok_def intro: below_trans)
qed simp

lemma low32_ucast: "low32 (ucast w) = w"
  by (rule bit_word_eqI) (simp add: bit_simps)

lemma ebitmap_read_ok:
  assumes "ebitmap_read fp m = (rc, e, fp', m')"
  shows "rc = 0 \<and> ebitmap_ok e \<or> rc < 0 \<and> e = ebitmap_init"
proof -
  have "ebitmap_ok \<lparr>node = ns, highbit = hb\<rparr>"
    if "read_nodes (unat count) hb None f n = (Inr ns, f', n')" "aligned hb" "hb \<noteq> 0" "count \<noteq> 0"
      "ucast (startbit (last ns)) + MAPSIZE = (ucast hb :: u64)" for hb count f n ns f' n'
  proof -
    have ns: "chain_ok ns" "length ns = unat count" using read_nodes_ok [OF that(1-3)] by auto
    have "ns \<noteq> []" using ns(2) that(4) by (auto simp: unat_eq_0)
    moreover have "hb = startbit (last ns) + 64"
      using arg_cong [OF that(5), of low32] low32_plus [of "startbit (last ns)"]
      by (simp add: low32_ucast)
    ultimately show ?thesis using ns by (simp add: ebitmap_ok_def last_highbit_def low32_plus)
  qed
  moreover have "rc' < 0" if "read_nodes i hb l f n = (Inl rc', f', n')" for i hb l f n rc' f' n'
    using that by (induction i hb l f n arbitrary: rc' f' n' rule: read_nodes.induct)
      (auto simp: Let_def split: prod.splits option.splits bool.splits if_splits sum.splits)
  moreover have "ebitmap_ok \<lparr>node = [], highbit = 0\<rparr>" by (simp add: ebitmap_ok_def)
  ultimately show ?thesis
    using assms
    by (auto simp: ebitmap_read_def Let_def source_aligned
        split: prod.splits option.splits if_splits sum.splits)
qed

section \<open>Reading what was written\<close>

primrec nodes_bytes :: "ebitmap_node list \<Rightarrow> byte list" where
  "nodes_bytes [] = []"
| "nodes_bytes (n # ns) = le32_bytes (startbit n) @ le64_bytes (node_map n) @ nodes_bytes ns"

definition ebitmap_bytes :: "ebitmap \<Rightarrow> byte list" where
  "ebitmap_bytes e =
    (le32_bytes 64 @ le32_bytes (highbit e) @ le32_bytes (of_nat (length (node e)))) @
    nodes_bytes (node e)"

lemma write_nodes_bytes:
  "out_file as (length (nodes_bytes ns) + k) fp \<Longrightarrow>
   \<exists>fp'. write_nodes ns fp = (POLICYDB_SUCCESS, fp') \<and> out_file (as @ nodes_bytes ns) k fp'"
proof (induction ns arbitrary: as fp)
  case (Cons n ns)
  let ?k = "length (nodes_bytes ns) + k"
  obtain fp1 where 1: "put_entry (le32_bytes (startbit n)) 4 1 fp = (1, fp1)"
      "out_file (as @ le32_bytes (startbit n)) (8 + ?k) fp1"
    using put_entry_mem [of as "le32_bytes (startbit n)" "8 + ?k" fp 4 1] Cons.prems
    by (auto simp: add.assoc)
  then obtain fp2 where 2: "put_entry (le64_bytes (node_map n)) 8 1 fp1 = (1, fp2)"
      "out_file ((as @ le32_bytes (startbit n)) @ le64_bytes (node_map n)) ?k fp2"
    using put_entry_mem [of "as @ le32_bytes (startbit n)" "le64_bytes (node_map n)" ?k fp1 8 1]
    by auto
  from Cons.IH [OF 2(2)] 1 2 show ?case by auto
qed auto

lemma ebitmap_write_bytes:
  assumes "out_file as (length (ebitmap_bytes e) + k) fp"
  shows "\<exists>fp'. ebitmap_write e fp = (POLICYDB_SUCCESS, fp') \<and> out_file (as @ ebitmap_bytes e) k fp'"
proof -
  let ?h = "le32_bytes 64 @ le32_bytes (highbit e) @ le32_bytes (of_nat (length (node e)))"
  let ?k = "length (nodes_bytes (node e)) + k"
  have "(ucast MAPSIZE :: u32) = 64" by simp
  moreover obtain fp1 where 1: "put_entry ?h 4 3 fp = (3, fp1)" "out_file (as @ ?h) ?k fp1"
    using put_entry_mem [of as ?h ?k fp 4 3] assms by (auto simp: ebitmap_bytes_def add.assoc)
  ultimately show ?thesis
    using write_nodes_bytes [OF 1(2)] by (auto simp: ebitmap_write_def ebitmap_bytes_def Let_def)
qed

text \<open>The nodes of a chain that ends at \<open>hb\<close> pass the checks of the reader.\<close>

lemma node_passes:
  assumes "node_ok n" and "startbit n + 64 \<le> hb"
  shows "\<not> ucast hb - MAPSIZE < ucast (startbit n)"
proof -
  have e: "unat (startbit n) + 64 \<le> unat hb"
    using assms node_end [OF assms(1)] by (simp add: word_le_nat_alt)
  then have "MAPSIZE \<le> ucast hb" by (simp add: word_le_nat_alt)
  then have "unat (ucast hb - MAPSIZE) = unat hb - 64" by (simp add: unat_sub)
  with e show ?thesis by (simp add: word_less_nat_alt)
qed

lemma read_nodes_bytes:
  assumes "mem_file (nodes_bytes ns @ rest) fp" and "chain_ok ns" and "length ns \<le> k"
    and "\<forall>n \<in> set ns. startbit n + 64 \<le> hb" and "\<forall>s. l = Some s \<longrightarrow> below s ns"
  shows "\<exists>fp'. read_nodes (length ns) hb l fp (replicate k True @ m) =
      (Inr ns, fp', replicate (k - length ns) True @ m) \<and> mem_file rest fp'"
  using assms
proof (induction ns arbitrary: fp k l)
  case (Cons n ns)
  obtain k' where k: "k = Suc k'" using Cons.prems(3) by (cases k) auto
  let ?r = "nodes_bytes ns @ rest"
  obtain fp1 where 1: "next_entry fp 4 = (Some (le32_bytes (startbit n)), fp1)"
      "mem_file (le64_bytes (node_map n) @ ?r) fp1"
    using next_entry_mem [of "le32_bytes (startbit n)" "le64_bytes (node_map n) @ ?r" fp 4] Cons.prems(1)
    by auto
  then obtain fp2 where 2: "next_entry fp1 8 = (Some (le64_bytes (node_map n)), fp2)" "mem_file ?r fp2"
    using next_entry_mem [of "le64_bytes (node_map n)" ?r fp1 8] by auto
  have "\<exists>fp'. read_nodes (length ns) hb (Some (startbit n)) fp2 (replicate k' True @ m) =
      (Inr ns, fp', replicate (k' - length ns) True @ m) \<and> mem_file rest fp'"
    using Cons.prems k 2(2) by (intro Cons.IH) simp_all
  moreover have "aligned (startbit n)" "node_map n \<noteq> 0" "\<not> ucast hb - MAPSIZE < ucast (startbit n)"
    using Cons.prems node_passes [of n hb] by (auto simp: node_ok_def)
  moreover have "\<not> (case l of Some s \<Rightarrow> startbit n \<le> s | None \<Rightarrow> False)"
    using Cons.prems(5) by (auto split: option.split)
  ultimately show ?case using 1(1) 2(1) k by (auto simp: Let_def source_aligned)
qed simp

lemma chain_length: "chain_ok ns \<Longrightarrow> length ns < 2 ^ 32"
proof -
  assume ok: "chain_ok ns"
  have "distinct (map startbit ns)"
    using ok by (induction ns) (auto simp: below_def)
  then have "length ns = card (startbit ` set ns)" by (metis distinct_card length_map set_map)
  moreover have "startbit ` set ns \<subseteq> UNIV - {block (- 1)}"
    using ok by (auto simp: chain_ok_def list_all_iff node_ok_def)
  then have "card (startbit ` set ns) \<le> 2 ^ 32 - 1"
    using card_mono [of "UNIV - {block (- 1)}" "startbit ` set ns"]
    by (simp add: card_Diff_singleton card_word)
  ultimately show ?thesis by simp
qed

lemma ebitmap_read_bytes:
  assumes "ebitmap_ok e" and "mem_file (ebitmap_bytes e @ rest) fp" and "length (node e) \<le> k"
  shows "\<exists>fp'. ebitmap_read fp (replicate k True @ m) =
      (0, e, fp', replicate (k - length (node e)) True @ m) \<and> mem_file rest fp'"
proof -
  let ?h = "le32_bytes 64 @ le32_bytes (highbit e) @ le32_bytes (of_nat (length (node e)))"
  have ok: "chain_ok (node e)" "highbit e = last_highbit (node e)"
    using assms(1) by (simp_all add: ebitmap_ok_def)
  obtain fp1 where 1: "next_entry fp 12 = (Some ?h, fp1)"
      "mem_file (nodes_bytes (node e) @ rest) fp1"
    using next_entry_mem [of ?h "nodes_bytes (node e) @ rest" fp 12] assms(2)
    by (auto simp: ebitmap_bytes_def)
  have cnt: "unat (of_nat (length (node e)) :: u32) = length (node e)"
    using chain_length [OF ok(1)] by (simp add: unat_of_nat)
  show ?thesis
  proof (cases "node e = []")
    case True
    then have "e = \<lparr>node = [], highbit = 0\<rparr>" using ok(2) by (cases e) simp
    with 1 True show ?thesis by (simp add: ebitmap_read_def)
  next
    case False
    let ?n = "last (node e)"
    have n: "node_ok ?n" using ok(1) False by (simp add: chain_ok_def list_all_iff)
    have hb: "highbit e = startbit ?n + 64" using ok(2) False by (simp add: last_highbit_def low32_plus)
    have u: "unat (highbit e) = unat (startbit ?n) + 64" using node_end [OF n] by (simp add: hb)
    have al: "aligned (highbit e)" using n by (auto simp: hb node_ok_def aligned_next)
    have nz: "highbit e \<noteq> 0" using u by auto
    have fin: "ucast (startbit ?n) + MAPSIZE = (ucast (highbit e) :: u64)"
      using unat_ucast_plus [of 64 "startbit ?n"] u by (intro unsigned_word_eqI [where ?'a = nat]) simp
    have cz: "(of_nat (length (node e)) :: u32) \<noteq> 0" using cnt False by (metis length_0_conv unat_0)
    have bound: "\<forall>n \<in> set (node e). startbit n + 64 \<le> highbit e"
      using last_highbit_le_iff [OF ok(1), of "highbit e"] ok(2) by simp
    obtain fp2 where 2: "read_nodes (length (node e)) (highbit e) None fp1 (replicate k True @ m) =
        (Inr (node e), fp2, replicate (k - length (node e)) True @ m)" "mem_file rest fp2"
      using read_nodes_bytes [OF 1(2) ok(1) assms(3) bound, of None] by auto
    have eta: "\<lparr>node = node e, highbit = highbit e\<rparr> = e" by (cases e) simp
    show ?thesis
      using 1(1) 2 al nz fin cz cnt eta by (simp add: ebitmap_read_def Let_def source_aligned)
  qed
qed

end
