(* ===== verification/Mls.thy ===== *)
theory Mls
  imports Ebitmap_IO
begin

text \<open>
  Multi-level security levels and ranges (\<open>mls_types.h\<close>) and their binary form
  (\<open>write.c\<close>, \<open>policydb.c\<close>). A level is a sensitivity and a set of categories, kept as a
  bitmap. What the code relies on of bitmaps, that inclusion and equality of category sets are
  decided, is the locale \<open>category_sets\<close>; dominance of levels is proved a partial order there.
\<close>

section \<open>Category sets\<close>

locale category_sets =
  fixes ok :: "'c \<Rightarrow> bool"
    and elems :: "'c \<Rightarrow> 'b set"
    and contains :: "'c \<Rightarrow> 'c \<Rightarrow> int"
    and cmp :: "'c \<Rightarrow> 'c \<Rightarrow> int"
  assumes contains_iff: "ok a \<Longrightarrow> ok b \<Longrightarrow> contains a b \<noteq> 0 \<longleftrightarrow> elems b \<subseteq> elems a"
    and cmp_iff: "ok a \<Longrightarrow> ok b \<Longrightarrow> cmp a b \<noteq> 0 \<longleftrightarrow> elems a = elems b"
begin

lemma dom_refl: "ok a \<Longrightarrow> (s :: u32) \<le> s \<and> contains a a \<noteq> 0"
  by (simp add: contains_iff)

lemma dom_trans:
  assumes "ok a" and "ok b" and "ok c"
    and "(t :: u32) \<le> s \<and> contains a b \<noteq> 0" and "u \<le> t \<and> contains b c \<noteq> 0"
  shows "u \<le> s \<and> contains a c \<noteq> 0"
  using assms by (auto simp: contains_iff)

lemma dom_antisym:
  assumes "ok a" and "ok b"
    and "(t :: u32) \<le> s \<and> contains a b \<noteq> 0" and "s \<le> t \<and> contains b a \<noteq> 0"
  shows "s = t \<and> cmp a b \<noteq> 0"
  using assms by (auto simp: contains_iff cmp_iff)

lemma eq_dom: "ok a \<Longrightarrow> ok b \<Longrightarrow> s = t \<and> cmp a b \<noteq> 0 \<Longrightarrow> (t :: u32) \<le> s \<and> contains a b \<noteq> 0"
  by (simp add: contains_iff cmp_iff)

end

interpretation cats: category_sets ebitmap_ok ebits ebitmap_contains ebitmap_cmp
  by unfold_locales (simp_all add: contains_correct cmp_correct)

section \<open>Levels and ranges\<close>

record mls_level =
  sens :: u32
  cat :: ebitmap

text \<open>\<open>level[0]\<close> and \<open>level[1]\<close>.\<close>

record mls_range =
  low :: mls_level
  high :: mls_level

definition mls_level_init :: mls_level where
  "mls_level_init = \<lparr>sens = 0, cat = ebitmap_init\<rparr>"

text \<open>The bitmap is released, then the whole level is cleared.\<close>

definition mls_level_destroy :: "mls_level \<Rightarrow> mls_level" where
  "mls_level_destroy l =
    (l\<lparr>cat := ebitmap_destroy (cat l)\<rparr>)\<lparr>sens := sens mls_level_init, cat := cat mls_level_init\<rparr>"

definition mls_level_cpy :: "mls_level \<Rightarrow> mls_level \<Rightarrow> alloc \<Rightarrow> int \<times> mls_level \<times> alloc" where
  "mls_level_cpy dst src m =
    (let dst = dst\<lparr>sens := sens src\<rparr> in
     case ebitmap_cpy (cat src) m of
       (rc, c, m') \<Rightarrow> (if rc < 0 then -1 else 0, dst\<lparr>cat := c\<rparr>, m'))"

definition mls_level_eq :: "mls_level \<Rightarrow> mls_level \<Rightarrow> bool" where
  "mls_level_eq l1 l2 \<longleftrightarrow> sens l1 = sens l2 \<and> ebitmap_cmp (cat l1) (cat l2) \<noteq> 0"

definition mls_level_dom :: "mls_level \<Rightarrow> mls_level \<Rightarrow> bool" where
  "mls_level_dom l1 l2 \<longleftrightarrow> sens l2 \<le> sens l1 \<and> ebitmap_contains (cat l1) (cat l2) \<noteq> 0"

definition mls_level_incomp :: "mls_level \<Rightarrow> mls_level \<Rightarrow> bool" where
  "mls_level_incomp l1 l2 \<longleftrightarrow> \<not> mls_level_dom l1 l2 \<and> \<not> mls_level_dom l2 l1"

definition mls_level_between :: "mls_level \<Rightarrow> mls_level \<Rightarrow> mls_level \<Rightarrow> bool" where
  "mls_level_between l1 l2 l3 \<longleftrightarrow> mls_level_dom l1 l2 \<and> mls_level_dom l3 l1"

definition mls_range_contains :: "mls_range \<Rightarrow> mls_range \<Rightarrow> bool" where
  "mls_range_contains r1 r2 \<longleftrightarrow> mls_level_dom (low r2) (low r1) \<and> mls_level_dom (high r1) (high r2)"

definition mls_range_init :: mls_range where
  "mls_range_init = \<lparr>low = mls_level_init, high = mls_level_init\<rparr>"

definition mls_range_destroy :: "mls_range \<Rightarrow> mls_range" where
  "mls_range_destroy r = r\<lparr>low := mls_level_destroy (low r), high := mls_level_destroy (high r)\<rparr>"

definition mls_range_eq :: "mls_range \<Rightarrow> mls_range \<Rightarrow> bool" where
  "mls_range_eq r1 r2 \<longleftrightarrow> mls_level_eq (low r1) (low r2) \<and> mls_level_eq (high r1) (high r2)"

definition mls_range_cpy :: "mls_range \<Rightarrow> mls_range \<Rightarrow> alloc \<Rightarrow> int \<times> mls_range \<times> alloc" where
  "mls_range_cpy dst src m =
    (case mls_level_cpy (low dst) (low src) m of
       (rc, l, m') \<Rightarrow>
         if rc < 0 then (-1, dst\<lparr>low := l\<rparr>, m')
         else case mls_level_cpy (high dst) (high src) m' of
           (rc, h, m'') \<Rightarrow>
             if rc < 0 then (-1, dst\<lparr>low := mls_level_destroy l, high := h\<rparr>, m'')
             else (0, dst\<lparr>low := l, high := h\<rparr>, m''))"

definition mls_range_glblub ::
    "mls_range \<Rightarrow> mls_range \<Rightarrow> mls_range \<Rightarrow> alloc \<Rightarrow> int \<times> mls_range \<times> alloc" where
  "mls_range_glblub dst r1 r2 m =
    (if sens (high r1) < sens (low r2) \<or> sens (high r2) < sens (low r1) then (- EINVAL, dst, m)
     else
       let dst = dst\<lparr>low := (low dst)\<lparr>sens := max (sens (low r1)) (sens (low r2))\<rparr>\<rparr>;
           dst = dst\<lparr>high := (high dst)\<lparr>sens := min (sens (high r1)) (sens (high r2))\<rparr>\<rparr>
       in case ebitmap_and (cat (low r1)) (cat (low r2)) m of
            (rc, c, m') \<Rightarrow>
              let dst = dst\<lparr>low := (low dst)\<lparr>cat := c\<rparr>\<rparr> in
              if rc < 0 then (-1, dst, m')
              else case ebitmap_and (cat (high r1)) (cat (high r2)) m' of
                (rc, c, m'') \<Rightarrow>
                  let dst = dst\<lparr>high := (high dst)\<lparr>cat := c\<rparr>\<rparr> in
                  if rc < 0 then (-1, dst, m'') else (0, dst, m''))"

section \<open>Binary form\<close>

definition mls_write_level :: "mls_level \<Rightarrow> policy_file \<Rightarrow> int \<times> policy_file" where
  "mls_write_level l fp =
    (case put_entry (le32_bytes (sens l)) 4 1 fp of
       (items, fp) \<Rightarrow>
         if items \<noteq> 1 then (POLICYDB_ERROR, fp)
         else case ebitmap_write (cat l) fp of
           (rc, fp) \<Rightarrow> (if rc \<noteq> 0 then POLICYDB_ERROR else POLICYDB_SUCCESS, fp))"

definition mls_read_level :: "policy_file \<Rightarrow> alloc \<Rightarrow> int \<times> mls_level \<times> policy_file \<times> alloc" where
  "mls_read_level fp m =
    (case next_entry fp 4 of
       (None, fp) \<Rightarrow> (- EINVAL, mls_level_init, fp, m)
     | (Some buf, fp) \<Rightarrow>
        (case ebitmap_read fp m of
           (rc, c, fp, m) \<Rightarrow>
             (if rc \<noteq> 0 then - EINVAL else 0, \<lparr>sens = le32_word buf, cat = c\<rparr>, fp, m)))"

definition mls_write_range_helper :: "mls_range \<Rightarrow> policy_file \<Rightarrow> int \<times> policy_file" where
  "mls_write_range_helper r fp =
    (let eq = mls_level_eq (high r) (low r);
         items = (if eq then 2 else 3);
         buf = le32_bytes (of_nat (items - 1)) @ le32_bytes (sens (low r)) @
           (if eq then [] else le32_bytes (sens (high r)))
     in case put_entry buf 4 items fp of
          (items2, fp) \<Rightarrow>
            if items2 \<noteq> items then (POLICYDB_ERROR, fp)
            else case ebitmap_write (cat (low r)) fp of
              (rc, fp) \<Rightarrow>
                if rc \<noteq> 0 then (POLICYDB_ERROR, fp)
                else if \<not> eq then
                  (case ebitmap_write (cat (high r)) fp of
                     (rc, fp) \<Rightarrow> (if rc \<noteq> 0 then POLICYDB_ERROR else POLICYDB_SUCCESS, fp))
                else (POLICYDB_SUCCESS, fp))"

text \<open>
  The second read overwrites the first words of the buffer that held the count; with a count of
  zero it overwrites nothing, and the sensitivity is the count.
\<close>

definition mls_read_range_helper ::
    "mls_range \<Rightarrow> policy_file \<Rightarrow> alloc \<Rightarrow> int \<times> mls_range \<times> policy_file \<times> alloc" where
  "mls_read_range_helper r fp m =
    (case next_entry fp 4 of
       (None, fp) \<Rightarrow> (- 1, r, fp, m)
     | (Some buf, fp) \<Rightarrow>
        let items = le32_word buf in
        if 2 < items then (- EINVAL, r, fp, m)
        else case next_entry fp (4 * unat items) of
          (None, fp) \<Rightarrow> (- 1, r, fp, m)
        | (Some buf', fp) \<Rightarrow>
           let s0 = (if items = 0 then le32_word buf else le32_word (take 4 buf'));
               s1 = (if 1 < items then le32_word (drop 4 buf') else s0);
               r = r\<lparr>low := (low r)\<lparr>sens := s0\<rparr>, high := (high r)\<lparr>sens := s1\<rparr>\<rparr>
           in case ebitmap_read fp m of
             (rc, c, fp, m) \<Rightarrow>
               let r = r\<lparr>low := (low r)\<lparr>cat := c\<rparr>\<rparr> in
               if rc \<noteq> 0 then (rc, r, fp, m)
               else case (if 1 < items then ebitmap_read fp m
                          else case ebitmap_cpy c m of (rc, c', m) \<Rightarrow> (rc, c', fp, m)) of
                 (rc, c', fp, m) \<Rightarrow>
                   let r = r\<lparr>high := (high r)\<lparr>cat := c'\<rparr>\<rparr> in
                   if rc \<noteq> 0 then (rc, r\<lparr>low := (low r)\<lparr>cat := ebitmap_destroy (cat (low r))\<rparr>\<rparr>, fp, m)
                   else (0, r, fp, m))"

section \<open>Dominance\<close>

definition level_ok :: "mls_level \<Rightarrow> bool" where
  "level_ok l \<longleftrightarrow> ebitmap_ok (cat l)"

definition range_ok :: "mls_range \<Rightarrow> bool" where
  "range_ok r \<longleftrightarrow> level_ok (low r) \<and> level_ok (high r)"

lemma ebitmap_ok_inject: "ebitmap_ok a \<Longrightarrow> ebitmap_ok b \<Longrightarrow> ebits a = ebits b \<Longrightarrow> a = b"
  using bits_of_inject [of "node a" "node b"]
  by (cases a; cases b) (simp add: ebits_bits_of ebitmap_ok_def)

lemma mls_level_eq_iff: "level_ok a \<Longrightarrow> level_ok b \<Longrightarrow> mls_level_eq a b \<longleftrightarrow> a = b"
  using ebitmap_ok_inject [of "cat a" "cat b"]
  by (cases a; cases b) (auto simp: mls_level_eq_def level_ok_def cats.cmp_iff)

lemma mls_level_dom_refl: "level_ok a \<Longrightarrow> mls_level_dom a a"
  by (simp add: mls_level_dom_def level_ok_def cats.dom_refl)

lemma mls_level_dom_trans:
  "level_ok a \<Longrightarrow> level_ok b \<Longrightarrow> level_ok c \<Longrightarrow>
   mls_level_dom a b \<Longrightarrow> mls_level_dom b c \<Longrightarrow> mls_level_dom a c"
  unfolding mls_level_dom_def level_ok_def by (rule cats.dom_trans)

lemma mls_level_dom_antisym:
  "level_ok a \<Longrightarrow> level_ok b \<Longrightarrow> mls_level_dom a b \<Longrightarrow> mls_level_dom b a \<Longrightarrow> mls_level_eq a b"
  unfolding mls_level_dom_def mls_level_eq_def level_ok_def by (rule cats.dom_antisym)

lemma glblub_correct:
  assumes "range_ok r1" and "range_ok r2" and "mls_range_glblub dst r1 r2 m = (rc, r, m')"
  shows "rc = - EINVAL \<and> r = dst \<and> (sens (high r1) < sens (low r2) \<or> sens (high r2) < sens (low r1)) \<or>
    rc = - 1 \<or>
    rc = 0 \<and> range_ok r \<and>
      {sens (low r)..sens (high r)} = {sens (low r1)..sens (high r1)} \<inter> {sens (low r2)..sens (high r2)} \<and>
      ebits (cat (low r)) = ebits (cat (low r1)) \<inter> ebits (cat (low r2)) \<and>
      ebits (cat (high r)) = ebits (cat (high r1)) \<inter> ebits (cat (high r2))"
proof (cases "sens (high r1) < sens (low r2) \<or> sens (high r2) < sens (low r1)")
  case True
  with assms(3) show ?thesis by (simp add: mls_range_glblub_def)
next
  case False
  obtain rc1 c1 m1 where a1: "ebitmap_and (cat (low r1)) (cat (low r2)) m = (rc1, c1, m1)"
    by (cases "ebitmap_and (cat (low r1)) (cat (low r2)) m") auto
  obtain rc2 c2 m2 where a2: "ebitmap_and (cat (high r1)) (cat (high r2)) m1 = (rc2, c2, m2)"
    by (cases "ebitmap_and (cat (high r1)) (cat (high r2)) m1") auto
  have "built (rc1, c1, m1) (ebits (cat (low r1)) \<inter> ebits (cat (low r2)))"
    "built (rc2, c2, m2) (ebits (cat (high r1)) \<inter> ebits (cat (high r2)))"
    using and_built [of "cat (low r1)" "cat (low r2)" m] and_built [of "cat (high r1)" "cat (high r2)" m1]
      assms(1,2) a1 a2 by (simp_all add: range_ok_def level_ok_def)
  with False assms(3) a1 a2 show ?thesis
    by (auto simp: mls_range_glblub_def built_def Let_def range_ok_def level_ok_def split: if_splits)
qed

section \<open>Reading what was written\<close>

definition range_bytes :: "mls_range \<Rightarrow> byte list" where
  "range_bytes r =
    (if mls_level_eq (high r) (low r)
     then (le32_bytes 1 @ le32_bytes (sens (low r))) @ ebitmap_bytes (cat (low r))
     else (le32_bytes 2 @ le32_bytes (sens (low r)) @ le32_bytes (sens (high r))) @
       ebitmap_bytes (cat (low r)) @ ebitmap_bytes (cat (high r)))"

lemma mls_write_range_bytes:
  assumes "out_file as (length (range_bytes r) + k) fp"
  shows "\<exists>fp'. mls_write_range_helper r fp = (POLICYDB_SUCCESS, fp') \<and> out_file (as @ range_bytes r) k fp'"
proof (cases "mls_level_eq (high r) (low r)")
  case True
  let ?h = "le32_bytes 1 @ le32_bytes (sens (low r))"
  obtain fp1 where 1: "put_entry ?h 4 2 fp = (2, fp1)"
      "out_file (as @ ?h) (length (ebitmap_bytes (cat (low r))) + k) fp1"
    using put_entry_mem [of as ?h "length (ebitmap_bytes (cat (low r))) + k" fp 4 2] assms True
    by (auto simp: range_bytes_def add.assoc)
  from ebitmap_write_bytes [OF 1(2)] 1(1) True show ?thesis
    by (auto simp: mls_write_range_helper_def range_bytes_def Let_def)
next
  case False
  let ?h = "le32_bytes 2 @ le32_bytes (sens (low r)) @ le32_bytes (sens (high r))"
  let ?k = "length (ebitmap_bytes (cat (high r))) + k"
  obtain fp1 where 1: "put_entry ?h 4 3 fp = (3, fp1)"
      "out_file (as @ ?h) (length (ebitmap_bytes (cat (low r))) + ?k) fp1"
    using put_entry_mem [of as ?h "length (ebitmap_bytes (cat (low r))) + ?k" fp 4 3] assms False
    by (auto simp: range_bytes_def add.assoc)
  from ebitmap_write_bytes [OF 1(2)] obtain fp2 where
    2: "ebitmap_write (cat (low r)) fp1 = (POLICYDB_SUCCESS, fp2)"
      "out_file ((as @ ?h) @ ebitmap_bytes (cat (low r))) ?k fp2" by auto
  from ebitmap_write_bytes [OF 2(2)] 1(1) 2(1) False show ?thesis
    by (auto simp: mls_write_range_helper_def range_bytes_def Let_def)
qed

lemma mls_read_range_bytes:
  assumes "range_ok r" and "mem_file (range_bytes r @ rest) fp"
    and "length (node (cat (low r))) + length (node (cat (high r))) \<le> k"
  shows "\<exists>fp' m'. mls_read_range_helper dst fp (replicate k True) = (0, r, fp', m') \<and> mem_file rest fp'"
proof (cases "mls_level_eq (high r) (low r)")
  case True
  then have eq: "high r = low r" using mls_level_eq_iff assms(1) by (simp add: range_ok_def)
  let ?c = "cat (low r)"
  have ok: "ebitmap_ok ?c" using assms(1) by (simp add: range_ok_def level_ok_def)
  obtain fp1 where 1: "next_entry fp 4 = (Some (le32_bytes 1), fp1)"
      "mem_file (le32_bytes (sens (low r)) @ ebitmap_bytes ?c @ rest) fp1"
    using next_entry_mem [of "le32_bytes 1" "le32_bytes (sens (low r)) @ ebitmap_bytes ?c @ rest" fp 4]
      assms(2) True by (auto simp: range_bytes_def)
  obtain fp2 where 2: "next_entry fp1 4 = (Some (le32_bytes (sens (low r))), fp2)"
      "mem_file (ebitmap_bytes ?c @ rest) fp2"
    using next_entry_mem [OF 1(2), of 4] by auto
  obtain fp3 where 3: "ebitmap_read fp2 (replicate k True) = (0, ?c, fp3, replicate (k - length (node ?c)) True)"
      "mem_file rest fp3"
    using ebitmap_read_bytes [OF ok 2(2), of k "[]"] assms(3) by auto
  have "fst (ebitmap_cpy ?c (replicate (k - length (node ?c)) True)) = 0"
    using assms(3) eq by (intro cpy_succeeds) simp
  then obtain m' where 4: "ebitmap_cpy ?c (replicate (k - length (node ?c)) True) = (0, ?c, m')"
    using cpy_correct [of ?c "replicate (k - length (node ?c)) True"]
    by (cases "ebitmap_cpy ?c (replicate (k - length (node ?c)) True)") auto
  have "dst\<lparr>low := (low dst)\<lparr>sens := sens (low r), cat := ?c\<rparr>,
      high := (high dst)\<lparr>sens := sens (low r), cat := ?c\<rparr>\<rparr> = r"
    using eq by (cases r; cases "low r"; cases dst) simp
  then show ?thesis
    using 1(1) 2(1) 3 4 by (auto simp: mls_read_range_helper_def Let_def)
next
  case False
  let ?c = "cat (low r)" and ?d = "cat (high r)"
  have ok: "ebitmap_ok ?c" "ebitmap_ok ?d" using assms(1) by (simp_all add: range_ok_def level_ok_def)
  let ?s = "le32_bytes (sens (low r)) @ le32_bytes (sens (high r))"
  obtain fp1 where 1: "next_entry fp 4 = (Some (le32_bytes 2), fp1)"
      "mem_file (?s @ ebitmap_bytes ?c @ ebitmap_bytes ?d @ rest) fp1"
    using next_entry_mem [of "le32_bytes 2" "?s @ ebitmap_bytes ?c @ ebitmap_bytes ?d @ rest" fp 4]
      assms(2) False by (auto simp: range_bytes_def)
  obtain fp2 where 2: "next_entry fp1 8 = (Some ?s, fp2)"
      "mem_file (ebitmap_bytes ?c @ ebitmap_bytes ?d @ rest) fp2"
    using next_entry_mem [OF 1(2), of 8] by auto
  obtain fp3 where 3: "ebitmap_read fp2 (replicate k True) = (0, ?c, fp3, replicate (k - length (node ?c)) True)"
      "mem_file (ebitmap_bytes ?d @ rest) fp3"
    using ebitmap_read_bytes [OF ok(1) 2(2), of k "[]"] assms(3) by auto
  have "length (node ?d) \<le> k - length (node ?c)" using assms(3) by simp
  then obtain fp4 m' where 4: "ebitmap_read fp3 (replicate (k - length (node ?c)) True) = (0, ?d, fp4, m')"
      "mem_file rest fp4"
    using ebitmap_read_bytes [OF ok(2) 3(2), of "k - length (node ?c)" "[]"] by auto
  have "dst\<lparr>low := (low dst)\<lparr>sens := sens (low r), cat := ?c\<rparr>,
      high := (high dst)\<lparr>sens := sens (high r), cat := ?d\<rparr>\<rparr> = r"
    by (cases r; cases "low r"; cases "high r"; cases dst) simp
  then show ?thesis
    using 1(1) 2(1) 3(1) 4 by (auto simp: mls_read_range_helper_def Let_def)
qed

end
