(* ===== verification/Ebitmap_Props.thy ===== *)
theory Ebitmap_Props
  imports Ebitmap_IO
begin

text \<open>
  The properties of libsepol's bitmaps: what each operation of \<open>ebitmap.c\<close> computes on the set of
  numbers a bitmap stands for, when it fails, and that the binary form can be read back.
\<close>

section \<open>Samples\<close>

text \<open>The sets {1, 70} and {1, 130}.\<close>

definition sample_map :: ebitmap where
  "sample_map = \<lparr>node = [\<lparr>startbit = 0, node_map = 2\<rparr>, \<lparr>startbit = 64, node_map = 64\<rparr>], highbit = 128\<rparr>"

definition sample_map2 :: ebitmap where
  "sample_map2 = \<lparr>node = [\<lparr>startbit = 0, node_map = 2\<rparr>, \<lparr>startbit = 128, node_map = 4\<rparr>], highbit = 192\<rparr>"

lemma sample_ok: "ebitmap_ok sample_map" "ebitmap_ok sample_map2"
  by (simp_all add: ebitmap_ok_def sample_map_def sample_map2_def chain_ok_def node_ok_def aligned_def
      block_def last_highbit_def)

lemma sample_nodes: "length (node sample_map) = 2" "length (node sample_map2) = 2"
  by (simp_all add: sample_map_def sample_map2_def)

section \<open>Set operations\<close>

lemma built_success:
  assumes "built r S" and "fst r = 0"
  shows "\<exists>e m. r = (0, e, m) \<and> ebitmap_ok e \<and> ebits e = S"
  using assms by (cases r) (auto simp: built_def)

lemma union_cases:
  assumes "ebitmap_ok dst" and "ebitmap_ok e" and "ebitmap_union dst e m = (rc, r, m')"
  shows "rc = - 1 \<and> r = dst \<or> rc = 0 \<and> ebitmap_ok r \<and> ebits r = ebits dst \<union> ebits e"
proof -
  obtain rc1 tmp m1 where 1: "ebitmap_or dst e m = (rc1, tmp, m1)"
    by (cases "ebitmap_or dst e m") auto
  have eq: "(ebitmap_destroy dst)\<lparr>node := node tmp, highbit := highbit tmp\<rparr> = tmp"
    by (cases tmp; cases dst) (simp add: ebitmap_destroy_def)
  from 1 or_built [OF assms(1,2), of m] assms(3) show ?thesis
    by (auto simp: built_def ebitmap_union_def eq split: if_splits)
qed

text \<open>
  C7. On well-formed bitmaps \<open>ebitmap_or\<close>, \<open>ebitmap_and\<close> and \<open>ebitmap_xor\<close> either run out of
  memory and leave the destination empty, or build a well-formed bitmap of the union, the
  intersection, the symmetric difference; with room for as many nodes as both operands have they
  succeed. \<open>ebitmap_union\<close> leaves its destination as it was when memory runs out.
\<close>

theorem set_operations:
  assumes "ebitmap_ok e1" and "ebitmap_ok e2"
  shows "built (ebitmap_or e1 e2 m) (ebits e1 \<union> ebits e2) \<and>
    built (ebitmap_and e1 e2 m) (ebits e1 \<inter> ebits e2) \<and>
    built (ebitmap_xor e1 e2 m) (ebits e1 - ebits e2 \<union> (ebits e2 - ebits e1)) \<and>
    (length (node e1) + length (node e2) \<le> k \<longrightarrow>
      fst (ebitmap_or e1 e2 (replicate k True)) = 0 \<and> fst (ebitmap_and e1 e2 (replicate k True)) = 0 \<and>
      fst (ebitmap_xor e1 e2 (replicate k True)) = 0) \<and>
    (case ebitmap_union e1 e2 m of (rc, r, m') \<Rightarrow>
      rc = - 1 \<and> r = e1 \<or> rc = 0 \<and> ebitmap_ok r \<and> ebits r = ebits e1 \<union> ebits e2)"
  using or_built [OF assms, of m] and_built [OF assms, of m] xor_built [OF assms, of m]
    merge_succeeds [of e1 e2 k] union_cases [OF assms, of m] by (simp split: prod.split)

theorem set_operations_witness:
  "ebitmap_or sample_map sample_map2 (replicate 4 True) =
     (0, \<lparr>node = [\<lparr>startbit = 0, node_map = 2\<rparr>, \<lparr>startbit = 64, node_map = 64\<rparr>,
                  \<lparr>startbit = 128, node_map = 4\<rparr>], highbit = 192\<rparr>, [True]) \<and>
   fst (ebitmap_xor sample_map sample_map2 (replicate 4 True)) = 0 \<and>
   built (ebitmap_and sample_map sample_map2 [False]) (ebits sample_map \<inter> ebits sample_map2)"
proof (intro conjI)
  show "ebitmap_or sample_map sample_map2 (replicate 4 True) =
     (0, \<lparr>node = [\<lparr>startbit = 0, node_map = 2\<rparr>, \<lparr>startbit = 64, node_map = 64\<rparr>,
                  \<lparr>startbit = 128, node_map = 4\<rparr>], highbit = 192\<rparr>, [True])"
    by code_simp
  show "fst (ebitmap_xor sample_map sample_map2 (replicate 4 True)) = 0"
    using set_operations [OF sample_ok, of "[]" 4] by (simp add: sample_nodes)
  show "built (ebitmap_and sample_map sample_map2 [False]) (ebits sample_map \<inter> ebits sample_map2)"
    using set_operations [OF sample_ok, of "[False]" 0] by blast
qed

section \<open>Single bits\<close>

text \<open>
  C27. \<open>ebitmap_set_bit\<close> refuses exactly the numbers of the last block, fails for lack of memory
  only when it has to add a bit, leaving the bitmap as it was, and otherwise adds or removes its
  bit and nothing else, keeping the bitmap well formed; \<open>ebitmap_get_bit\<close> tells membership.
\<close>

theorem set_bit_updates:
  assumes "ebitmap_ok e" and "ebitmap_set_bit e bt val m = (rc, e', m')"
  shows "rc = - EINVAL \<and> e' = e \<and> block bt = block (- 1) \<or>
    rc = - ENOMEM \<and> val \<noteq> 0 \<and> ebitmap_get_bit e bt = 0 \<and> \<not> fst (malloc m) \<and> e' = e \<or>
    rc = 0 \<and> ebitmap_ok e' \<and>
      (\<forall>b. ebitmap_get_bit e' b = (if b = bt then (if val \<noteq> 0 then 1 else 0) else ebitmap_get_bit e b))"
  using set_bit_correct [OF assms] get_bit_correct [OF assms(1)] get_bit_correct [of e'] by auto

theorem set_bit_updates_witness:
  "ebitmap_get_bit (fst (snd (ebitmap_set_bit sample_map 65 1 [True]))) 65 = 1 \<and>
   ebitmap_get_bit (fst (snd (ebitmap_set_bit sample_map 65 1 [True]))) 70 = 1"
proof -
  obtain rc e' m' where r: "ebitmap_set_bit sample_map 65 1 [True] = (rc, e', m')"
    by (cases "ebitmap_set_bit sample_map 65 1 [True]") auto
  have "fst (ebitmap_set_bit sample_map 65 1 [True]) = 0" by code_simp
  then have "rc = 0" using r by simp
  then have "ebitmap_get_bit e' 65 = 1 \<and> ebitmap_get_bit e' 70 = ebitmap_get_bit sample_map 70"
    using set_bit_updates [OF sample_ok(1) r] by auto
  moreover have "ebitmap_get_bit sample_map 70 = 1" by code_simp
  ultimately show ?thesis using r by simp
qed

section \<open>Complement\<close>

text \<open>
  C38. \<open>ebitmap_not\<close> up to a bound that leaves the last block out builds the complement below the
  bound, and \<open>ebitmap_andnot\<close> the difference below it; \<open>ebitmap_not\<close> needs no more nodes than
  there are blocks below the bound.
\<close>

theorem complement_below:
  assumes "ebitmap_ok e1" and "ebitmap_ok e2" and "unat maxbit \<le> 2 ^ 32 - 64"
  shows "built (ebitmap_not e2 maxbit m) ({b. b < maxbit} - ebits e2) \<and>
    built (ebitmap_andnot e1 e2 maxbit m) ({b \<in> ebits e1. b < maxbit} - ebits e2) \<and>
    ((unat maxbit + 63) div 64 \<le> k \<longrightarrow> fst (ebitmap_not e2 maxbit (replicate k True)) = 0)"
  using not_built [OF assms(2,3), of m] andnot_built [OF assms, of m] not_succeeds [OF assms(3), of k e2]
  by blast

theorem complement_below_witness:
  "fst (ebitmap_not sample_map2 100 (replicate 3 True)) = 0 \<and>
   built (ebitmap_andnot sample_map sample_map2 100 [True, True, True])
     ({b \<in> ebits sample_map. b < 100} - ebits sample_map2)"
  using complement_below [OF sample_ok, of 100 "[True, True, True]" 3] by simp

text \<open>
  C39. Beyond that bound \<open>ebitmap_not\<close> never succeeds, whatever the memory: the block counter wraps
  to zero before it reaches the bound, and the loop goes round until an allocation fails.
\<close>

theorem complement_overflow:
  assumes "2 ^ 32 - 64 < unat maxbit"
  shows "case ebitmap_not e maxbit m of (rc, r, m') \<Rightarrow> rc = - ENOMEM \<and> r = ebitmap_init"
proof -
  have "unat (block (- 1)) < unat maxbit" using assms by (simp add: unat_block unsigned_minus_1_eq_mask mask_eq_exp_minus_1)
  then have "fst (not_loop 0 maxbit (node e) m) = None"
    by (intro not_loop_overflow) (simp_all add: aligned_def word_less_nat_alt)
  then show ?thesis by (auto simp: ebitmap_not_def split: prod.splits option.splits)
qed

theorem complement_overflow_witness:
  "fst (ebitmap_not ebitmap_init (- 1) [True, True]) = - ENOMEM"
  using complement_overflow [of "- 1" ebitmap_init "[True, True]"]
  by (simp add: unsigned_minus_1_eq_mask mask_eq_exp_minus_1 split: prod.splits)

section \<open>Ranges\<close>

lemma init_range_succeeds:
  assumes "minbit \<le> maxbit" and "block maxbit \<noteq> block (- 1)"
    and "unat maxbit div 64 - unat minbit div 64 < k"
  shows "fst (ebitmap_init_range minbit maxbit (replicate k True)) = 0"
proof -
  let ?j = "Suc (unat maxbit div 64 - unat minbit div 64)"
  have "unat minbit div 64 \<le> unat maxbit div 64" using assms(1) by (simp add: word_le_nat_alt div_le_mono)
  then have left: "range_left ?j (block minbit) maxbit"
    using assms(2) by (simp add: range_left_def unat_block algebra_simps)
  have loop: "fst (range_loop minbit maxbit (block minbit) (block maxbit) (block minbit) (replicate k True)) = True"
    by (rule range_loop_enough [OF left]) (use assms(3) in simp)
  have "block minbit \<le> block maxbit"
    using \<open>unat minbit div 64 \<le> _\<close> by (simp add: word_le_nat_alt unat_block)
  moreover have "block maxbit \<le> block (- 1)" by (intro aligned_le_block) simp_all
  ultimately have "block minbit \<noteq> block (- 1)" using assms(2) by auto
  then have "block maxbit + 64 \<noteq> 0" "block minbit + 64 \<noteq> 0" using assms(2) by (simp_all add: block_wrap)
  with loop show ?thesis
    using assms(1) by (auto simp: ebitmap_init_range_def low32_plus Let_def split: prod.splits)
qed

text \<open>
  \<open>ebitmap_init_range\<close> refuses an empty range and one that reaches into the last block, and
  otherwise builds the bitmap of all numbers from \<open>minbit\<close> to \<open>maxbit\<close>, given one node for each
  of its blocks.
\<close>

lemma range_contents:
  assumes "unat maxbit div 64 - unat minbit div 64 < k"
  shows "case ebitmap_init_range minbit maxbit (replicate k True) of (rc, e, m') \<Rightarrow>
    if maxbit < minbit then rc = - EINVAL \<and> e = ebitmap_init
    else if block maxbit = block (- 1) then rc = - EOVERFLOW \<and> e = ebitmap_init
    else rc = 0 \<and> ebitmap_ok e \<and> ebits e = {minbit..maxbit}"
proof -
  obtain rc e m' where r: "ebitmap_init_range minbit maxbit (replicate k True) = (rc, e, m')"
    by (cases "ebitmap_init_range minbit maxbit (replicate k True)") auto
  consider "maxbit < minbit" | "minbit \<le> maxbit" "block maxbit = block (- 1)"
    | "minbit \<le> maxbit" "block maxbit \<noteq> block (- 1)" by (meson not_le)
  then show ?thesis
  proof cases
    case 1
    with r show ?thesis by (auto simp: ebitmap_init_range_def)
  next
    case 2
    then have "block maxbit + 64 = 0" by (simp add: block_wrap)
    with 2 r show ?thesis by (auto simp: ebitmap_init_range_def low32_plus Let_def)
  next
    case 3
    with init_range_succeeds [OF 3 assms] r have "rc = 0" by simp
    with 3 r init_range_correct [OF r] show ?thesis by (auto simp: atLeastAtMost_def atLeast_def atMost_def)
  qed
qed

section \<open>Queries\<close>

text \<open>
  \<open>ebitmap_cmp\<close> decides equality of the sets, \<open>ebitmap_contains\<close> inclusion, \<open>ebitmap_match_any\<close>
  overlap; \<open>ebitmap_cardinality\<close> counts the set without overflow and \<open>ebitmap_highest_set_bit\<close> is
  its maximum.
\<close>

lemma queries:
  assumes "ebitmap_ok e1" and "ebitmap_ok e2"
  shows "ebitmap_cmp e1 e2 = (if ebits e1 = ebits e2 then 1 else 0) \<and>
    ebitmap_contains e1 e2 = (if ebits e2 \<subseteq> ebits e1 then 1 else 0) \<and>
    ebitmap_match_any e1 e2 = (if ebits e1 \<inter> ebits e2 = {} then 0 else 1) \<and>
    unat (ebitmap_cardinality e1) = card (ebits e1) \<and>
    ebitmap_highest_set_bit e1 = (if ebits e1 = {} then 0 else Max (ebits e1))"
  using cmp_correct [OF assms] contains_correct [OF assms] match_any_correct [OF assms]
    cardinality_correct [OF assms(1)] highest_set_bit_correct [OF assms(1)] by simp

text \<open>
  C40. The iteration of \<open>ebitmap_for_each_positive_bit\<close> ends and visits the numbers of the set, each
  once and in increasing order.
\<close>

theorem iteration_sorted:
  assumes "ebitmap_ok e"
  shows "ebitmap_positive_bits e = Some (sorted_list_of_set (ebits e))"
  using assms by (rule positive_bits_correct)

theorem iteration_sorted_witness:
  "\<exists>bs. ebitmap_positive_bits sample_map = Some bs \<and> length bs = 2 \<and> sorted bs"
proof -
  have "unat (ebitmap_cardinality sample_map) = 2" by code_simp
  then have "card (ebits sample_map) = 2" using cardinality_correct [OF sample_ok(1)] by simp
  then show ?thesis using iteration_sorted [OF sample_ok(1)] by simp
qed

section \<open>The binary form\<close>

text \<open>
  C29. Whatever bytes a policy file holds, \<open>ebitmap_read\<close> gives a well-formed bitmap, or a negative
  code and an empty one.
\<close>

theorem read_well_formed:
  "case ebitmap_read fp m of (rc, e, fp', m') \<Rightarrow> rc = 0 \<and> ebitmap_ok e \<or> rc < 0 \<and> e = ebitmap_init"
  using ebitmap_read_ok [of fp m] by (auto split: prod.split)

text \<open>
  C28. What \<open>ebitmap_write\<close> puts into a buffer with enough room, \<open>ebitmap_read\<close> reads back as the
  same bitmap, stopping at the first byte after it.
\<close>

theorem write_then_read:
  assumes "ebitmap_ok e" and "out_file [] (length (ebitmap_bytes e)) fp" and "length (node e) \<le> k"
  shows "\<exists>fp'. ebitmap_write e fp = (POLICYDB_SUCCESS, fp') \<and>
    (\<forall>fq. mem_file (written fp' @ rest) fq \<longrightarrow>
      (\<exists>fq' m. ebitmap_read fq (replicate k True) = (0, e, fq', m) \<and> mem_file rest fq'))"
proof -
  obtain fp' where w: "ebitmap_write e fp = (POLICYDB_SUCCESS, fp')" "out_file ([] @ ebitmap_bytes e) 0 fp'"
    using ebitmap_write_bytes [of "[]" e 0 fp] assms(2) by auto
  have "\<exists>fq' m. ebitmap_read fq (replicate k True) = (0, e, fq', m) \<and> mem_file rest fq'"
    if "mem_file (written fp' @ rest) fq" for fq
    using ebitmap_read_bytes [OF assms(1), of rest fq k "[]"] that w(2) assms(3)
    by (auto simp: out_file_def)
  with w(1) show ?thesis by blast
qed

lemma replicate_2: "replicate 2 x = [x, x]"
  by (simp add: numeral_2_eq_2)

definition sample_out :: policy_file where
  "sample_out = \<lparr>ftype = PF_USE_MEMORY, data = [], len = 36, stream = [], written = [], room = 0\<rparr>"

theorem write_then_read_witness:
  "fst (ebitmap_write sample_map sample_out) = POLICYDB_SUCCESS \<and>
   fst (ebitmap_read
     \<lparr>ftype = PF_USE_MEMORY, data = ebitmap_bytes sample_map @ [7], len = 37, stream = [], written = [],
      room = 0\<rparr> [True, True]) = 0"
proof -
  have "out_file [] (length (ebitmap_bytes sample_map)) sample_out" "length (ebitmap_bytes sample_map) = 36"
    by code_simp+
  moreover obtain fp' where w: "ebitmap_write sample_map sample_out = (POLICYDB_SUCCESS, fp')"
      "out_file ([] @ ebitmap_bytes sample_map) 0 fp'"
    using ebitmap_write_bytes [of "[]" sample_map 0 sample_out] calculation by auto
  moreover have "mem_file (written fp' @ [7])
     \<lparr>ftype = PF_USE_MEMORY, data = ebitmap_bytes sample_map @ [7], len = 37, stream = [], written = [],
      room = 0\<rparr>"
    using calculation by (simp add: mem_file_def out_file_def)
  ultimately show ?thesis
    using write_then_read [OF sample_ok(1), of sample_out 2 "[7]"] sample_nodes
    by (auto simp: replicate_2)
qed

end
