(* ===== verification/Mls_Props.thy ===== *)
theory Mls_Props
  imports Mls Ebitmap_Props
begin

text \<open>
  The properties of libsepol's multi-level security types: dominance is a partial order, the
  meet of two ranges, and the binary form of a range.
\<close>

section \<open>Samples\<close>

definition sample_low :: mls_level where
  "sample_low = \<lparr>sens = 1, cat = \<lparr>node = [\<lparr>startbit = 0, node_map = 2\<rparr>], highbit = 64\<rparr>\<rparr>"

definition sample_high :: mls_level where
  "sample_high = \<lparr>sens = 3, cat = sample_map\<rparr>"

definition sample_range :: mls_range where
  "sample_range = \<lparr>low = sample_low, high = sample_high\<rparr>"

lemma sample_levels_ok: "level_ok sample_low" "level_ok sample_high" "range_ok sample_range"
  using sample_ok(1)
  by (simp_all add: level_ok_def range_ok_def sample_low_def sample_high_def sample_range_def ebitmap_ok_def
      chain_ok_def node_ok_def aligned_def block_def last_highbit_def)

section \<open>Dominance\<close>

text \<open>
  C37. On well-formed levels \<open>mls_level_dom\<close> is a partial order whose equality is \<open>mls_level_eq\<close>: it
  holds exactly when the sensitivity is at least as high and the categories include the other's,
  it is reflexive, transitive and antisymmetric, and \<open>mls_level_incomp\<close> is incomparability.
\<close>

theorem dominance_order:
  assumes "level_ok a" and "level_ok b" and "level_ok c"
  shows "(mls_level_dom a b \<longleftrightarrow> sens b \<le> sens a \<and> ebits (cat b) \<subseteq> ebits (cat a)) \<and>
    mls_level_dom a a \<and>
    (mls_level_dom a b \<longrightarrow> mls_level_dom b c \<longrightarrow> mls_level_dom a c) \<and>
    (mls_level_dom a b \<and> mls_level_dom b a \<longleftrightarrow> mls_level_eq a b) \<and>
    (mls_level_eq a b \<longleftrightarrow> a = b) \<and>
    (mls_level_incomp a b \<longleftrightarrow> \<not> (mls_level_dom a b \<or> mls_level_dom b a)) \<and>
    (mls_level_between b a c \<longrightarrow> mls_level_dom c a)"
proof (intro conjI)
  show "mls_level_dom a b \<longleftrightarrow> sens b \<le> sens a \<and> ebits (cat b) \<subseteq> ebits (cat a)"
    using contains_correct [of "cat a" "cat b"] assms(1,2) by (simp add: mls_level_dom_def level_ok_def)
  show "mls_level_dom a a" using assms(1) by (rule mls_level_dom_refl)
  show "mls_level_dom a b \<longrightarrow> mls_level_dom b c \<longrightarrow> mls_level_dom a c"
    using mls_level_dom_trans [OF assms] by blast
  show eq: "mls_level_eq a b \<longleftrightarrow> a = b" using assms(1,2) by (rule mls_level_eq_iff)
  show "mls_level_dom a b \<and> mls_level_dom b a \<longleftrightarrow> mls_level_eq a b"
    using mls_level_dom_antisym [OF assms(1,2)] eq mls_level_dom_refl [OF assms(1)] by auto
  show "mls_level_incomp a b \<longleftrightarrow> \<not> (mls_level_dom a b \<or> mls_level_dom b a)"
    by (simp add: mls_level_incomp_def)
  show "mls_level_between b a c \<longrightarrow> mls_level_dom c a"
    using mls_level_dom_trans [OF assms(3,2,1)] by (simp add: mls_level_between_def)
qed

theorem dominance_order_witness:
  "mls_level_dom sample_high sample_low \<and> \<not> mls_level_dom sample_low sample_high \<and>
   ebits (cat sample_low) \<subseteq> ebits (cat sample_high)"
proof -
  have "mls_level_dom sample_high sample_low" "\<not> mls_level_dom sample_low sample_high" by code_simp+
  then show ?thesis
    using dominance_order [OF sample_levels_ok(2,1,1)] by blast
qed

section \<open>Ranges\<close>

text \<open>
  \<open>mls_range_glblub\<close> refuses two ranges exactly when their sensitivities do not meet; otherwise,
  unless memory runs out, it gives the common sensitivities and, at both ends, the common
  categories, in a well-formed range.
\<close>

lemma glblub_meet:
  assumes "range_ok r1" and "range_ok r2"
  shows "case mls_range_glblub dst r1 r2 m of (rc, r, m') \<Rightarrow>
    if {sens (low r1)..sens (high r1)} \<inter> {sens (low r2)..sens (high r2)} = {} \<and>
       sens (low r1) \<le> sens (high r1) \<and> sens (low r2) \<le> sens (high r2)
    then rc = - EINVAL \<and> r = dst
    else rc = - EINVAL \<and> r = dst \<and> (sens (high r1) < sens (low r2) \<or> sens (high r2) < sens (low r1)) \<or>
      rc = - 1 \<or>
      rc = 0 \<and> range_ok r \<and>
      {sens (low r)..sens (high r)} = {sens (low r1)..sens (high r1)} \<inter> {sens (low r2)..sens (high r2)} \<and>
      ebits (cat (low r)) = ebits (cat (low r1)) \<inter> ebits (cat (low r2)) \<and>
      ebits (cat (high r)) = ebits (cat (high r1)) \<inter> ebits (cat (high r2))"
proof -
  obtain rc r m' where r: "mls_range_glblub dst r1 r2 m = (rc, r, m')"
    by (cases "mls_range_glblub dst r1 r2 m") auto
  have "sens (high r1) < sens (low r2) \<or> sens (high r2) < sens (low r1)"
    if "{sens (low r1)..sens (high r1)} \<inter> {sens (low r2)..sens (high r2)} = {}"
      "sens (low r1) \<le> sens (high r1)" "sens (low r2) \<le> sens (high r2)"
  proof (rule ccontr)
    assume "\<not> ?thesis"
    then have "max (sens (low r1)) (sens (low r2)) \<in>
        {sens (low r1)..sens (high r1)} \<inter> {sens (low r2)..sens (high r2)}"
      using that(2,3) by auto
    with that(1) show False by blast
  qed
  then show ?thesis using glblub_correct [OF assms r] r by (auto simp: mls_range_glblub_def)
qed

text \<open>
  What \<open>mls_write_range_helper\<close> writes for a well-formed range, one level when both ends are
  equal and two otherwise, \<open>mls_read_range_helper\<close> reads back as the same range.
\<close>

lemma range_round_trip:
  assumes "range_ok r" and "out_file [] (length (range_bytes r)) fp"
    and "length (node (cat (low r))) + length (node (cat (high r))) \<le> k"
  shows "\<exists>fp'. mls_write_range_helper r fp = (POLICYDB_SUCCESS, fp') \<and>
    (\<forall>fq. mem_file (written fp' @ rest) fq \<longrightarrow>
      (\<exists>fq' m. mls_read_range_helper dst fq (replicate k True) = (0, r, fq', m) \<and> mem_file rest fq'))"
proof -
  obtain fp' where w: "mls_write_range_helper r fp = (POLICYDB_SUCCESS, fp')"
      "out_file ([] @ range_bytes r) 0 fp'"
    using mls_write_range_bytes [of "[]" r 0 fp] assms(2) by auto
  have "\<exists>fq' m. mls_read_range_helper dst fq (replicate k True) = (0, r, fq', m) \<and> mem_file rest fq'"
    if "mem_file (written fp' @ rest) fq" for fq
    using mls_read_range_bytes [OF assms(1), of rest fq k dst] that w(2) assms(3)
    by (auto simp: out_file_def)
  with w(1) show ?thesis by blast
qed

end
