(* ===== verification/Hashtab.thy ===== *)
theory Hashtab
  imports Alloc
begin

text \<open>
  The chained hash tables of libsepol (\<open>hashtab.c\<close>). A bucket is the list of the entries of its
  chain, in order; a handle is an option, \<open>None\<close> being the null pointer. The table's two
  callbacks are parameters: the hash of a key, which reads nothing of the table but its size, and
  the comparison of two keys. Allocations take their outcomes as the bitmaps' do.

  What the code relies on of the callbacks is the locale \<open>hash_contract\<close>: hashes stay below the
  size, and the comparison is a total order on valid keys.
\<close>

abbreviation (input) SEPOL_OK :: int where "SEPOL_OK \<equiv> 0"
abbreviation (input) SEPOL_ENOMEM :: int where "SEPOL_ENOMEM \<equiv> - 12"
abbreviation (input) SEPOL_EEXIST :: int where "SEPOL_EEXIST \<equiv> - 17"
abbreviation (input) SEPOL_ENOENT :: int where "SEPOL_ENOENT \<equiv> - 2"

record ('k, 'd) hashtab =
  htable :: "('k \<times> 'd) list list"
  hsize :: u32
  nel :: u32

type_synonym 'k hashf = "u32 \<Rightarrow> 'k \<Rightarrow> u32"
type_synonym 'k keycmpf = "'k \<Rightarrow> 'k \<Rightarrow> int"

definition hashtab_create :: "u32 \<Rightarrow> alloc \<Rightarrow> ('k, 'd) hashtab option \<times> alloc" where
  "hashtab_create sz m =
    (case malloc m of
       (False, m) \<Rightarrow> (None, m)
     | (True, m) \<Rightarrow>
        (case malloc m of
           (False, m) \<Rightarrow> (None, m)
         | (True, m) \<Rightarrow> (Some \<lparr>htable = replicate (unat sz) [], hsize = sz, nel = 0\<rparr>, m)))"

section \<open>Resizing\<close>

lemma double_progress:
  assumes "(s :: u32) * 2 \<noteq> 0"
  shows "card {n. push_bit n (s * 2) \<noteq> 0} < card {n. push_bit n s \<noteq> 0}"
proof -
  have fin: "finite {n. push_bit n s \<noteq> 0}"
  proof (rule finite_subset)
    show "{n. push_bit n s \<noteq> 0} \<subseteq> {..<32}"
    proof
      fix n assume "n \<in> {n. push_bit n s \<noteq> 0}"
      moreover have "push_bit n s = 0" if "32 \<le> n"
        using that by (intro bit_word_eqI) (simp add: bit_simps)
      ultimately show "n \<in> {..<32}" by (cases "n < 32") auto
    qed
  qed simp
  have "push_bit n (s * 2) = push_bit (Suc n) s" for n
    by (simp add: push_bit_Suc mult.commute)
  then have "{n. push_bit n s \<noteq> 0} = insert 0 (Suc ` {n. push_bit n (s * 2) \<noteq> 0})"
  proof (intro set_eqI)
    fix n
    have "s \<noteq> 0" using assms by auto
    with \<open>\<And>n. push_bit n (s * 2) = push_bit (Suc n) s\<close>
    show "n \<in> {n. push_bit n s \<noteq> 0} \<longleftrightarrow> n \<in> insert 0 (Suc ` {n. push_bit n (s * 2) \<noteq> 0})"
      by (cases n) auto
  qed
  moreover have "0 \<notin> Suc ` {n. push_bit n (s * 2) \<noteq> 0}" by auto
  ultimately have "card {n. push_bit n s \<noteq> 0} = Suc (card (Suc ` {n. push_bit n (s * 2) \<noteq> 0}))"
    using fin by (metis (no_types, lifting) card_insert_disjoint finite_insert)
  then have "card {n. push_bit n s \<noteq> 0} = Suc (card {n. push_bit n (s * 2) \<noteq> 0})"
    by (simp add: card_image)
  then show ?thesis by simp
qed

function grow :: "u32 \<Rightarrow> u32 \<Rightarrow> u32" where
  "grow nl new_size = (if new_size \<le> nl \<and> new_size * 2 \<noteq> 0 then grow nl (new_size * 2) else new_size)"
  by pat_completeness auto
termination
  by (relation "measure (\<lambda>(_, s). card {n. push_bit n s \<noteq> 0})") (auto intro: double_progress)

declare grow.simps [simp del]

text \<open>A moved entry goes before the first entry of its new chain whose key is not smaller.\<close>

fun place :: "'k keycmpf \<Rightarrow> 'k \<Rightarrow> 'd \<Rightarrow> ('k \<times> 'd) list \<Rightarrow> ('k \<times> 'd) list" where
  "place keycmp k d [] = [(k, d)]"
| "place keycmp k d ((k', d') # c) =
    (if 0 < keycmp k k' then (k', d') # place keycmp k d c else (k, d) # (k', d') # c)"

fun move_chain ::
    "'k hashf \<Rightarrow> 'k keycmpf \<Rightarrow> u32 \<Rightarrow> ('k \<times> 'd) list \<Rightarrow> ('k \<times> 'd) list list \<Rightarrow> ('k \<times> 'd) list list"
where
  "move_chain hash keycmp sz [] t = t"
| "move_chain hash keycmp sz ((k, d) # c) t =
    (let i = unat (hash sz k) in move_chain hash keycmp sz c (t[i := place keycmp k d (t ! i)]))"

fun move_chains ::
    "'k hashf \<Rightarrow> 'k keycmpf \<Rightarrow> u32 \<Rightarrow> ('k \<times> 'd) list list \<Rightarrow> ('k \<times> 'd) list list \<Rightarrow> ('k \<times> 'd) list list"
where
  "move_chains hash keycmp sz [] t = t"
| "move_chains hash keycmp sz (c # cs) t =
    move_chains hash keycmp sz cs (move_chain hash keycmp sz c t)"

definition hashtab_check_resize ::
    "'k hashf \<Rightarrow> 'k keycmpf \<Rightarrow> ('k, 'd) hashtab \<Rightarrow> alloc \<Rightarrow> ('k, 'd) hashtab \<times> alloc" where
  "hashtab_check_resize hash keycmp h m =
    (let new_size = grow (nel h) (hsize h) in
     if hsize h = new_size then (h, m)
     else case malloc m of
       (False, m) \<Rightarrow> (h, m)
     | (True, m) \<Rightarrow>
        (h\<lparr>hsize := new_size,
           htable := move_chains hash keycmp new_size (htable h) (replicate (unat new_size) [])\<rparr>, m))"

section \<open>Operations\<close>

text \<open>\<open>insert_at\<close> is \<open>None\<close> when the key is there; otherwise the chain with the new entry.\<close>

fun insert_at :: "'k keycmpf \<Rightarrow> 'k \<Rightarrow> 'd \<Rightarrow> ('k \<times> 'd) list \<Rightarrow> ('k \<times> 'd) list option" where
  "insert_at keycmp k d [] = Some [(k, d)]"
| "insert_at keycmp k d ((k', d') # c) =
    (let cmp = keycmp k k' in
     if 0 < cmp then map_option (\<lambda>c'. (k', d') # c') (insert_at keycmp k d c)
     else if cmp = 0 then None
     else Some ((k, d) # (k', d') # c))"

definition hashtab_insert ::
    "'k hashf \<Rightarrow> 'k keycmpf \<Rightarrow> ('k, 'd) hashtab option \<Rightarrow> 'k \<Rightarrow> 'd \<Rightarrow> alloc \<Rightarrow>
     int \<times> ('k, 'd) hashtab option \<times> alloc" where
  "hashtab_insert hash keycmp ho k d m =
    (case ho of
       None \<Rightarrow> (SEPOL_ENOMEM, ho, m)
     | Some h \<Rightarrow>
        if nel h = - 1 then (SEPOL_ENOMEM, ho, m)
        else case hashtab_check_resize hash keycmp h m of
          (h, m) \<Rightarrow>
            let i = unat (hash (hsize h) k) in
            (case insert_at keycmp k d (htable h ! i) of
               None \<Rightarrow> (SEPOL_EEXIST, Some h, m)
             | Some c \<Rightarrow>
                (case malloc m of
                   (False, m) \<Rightarrow> (SEPOL_ENOMEM, Some h, m)
                 | (True, m) \<Rightarrow>
                    (SEPOL_OK, Some (h\<lparr>htable := (htable h)[i := c], nel := nel h + 1\<rparr>), m))))"

fun remove_at :: "'k keycmpf \<Rightarrow> 'k \<Rightarrow> ('k \<times> 'd) list \<Rightarrow> (('k \<times> 'd) \<times> ('k \<times> 'd) list) option" where
  "remove_at keycmp k [] = None"
| "remove_at keycmp k ((k', d') # c) =
    (let cmp = keycmp k k' in
     if 0 < cmp then map_option (\<lambda>(e, c'). (e, (k', d') # c')) (remove_at keycmp k c)
     else if cmp = 0 then Some ((k', d'), c)
     else None)"

text \<open>
  \<open>hashtab_remove\<close> hands the entry to the callback \<open>destroy\<close>, if there is one, which updates the
  caller's state.
\<close>

definition hashtab_remove ::
    "'k hashf \<Rightarrow> 'k keycmpf \<Rightarrow> ('k, 'd) hashtab option \<Rightarrow> 'k \<Rightarrow> ('k \<Rightarrow> 'd \<Rightarrow> 's \<Rightarrow> 's) option \<Rightarrow> 's \<Rightarrow>
     int \<times> ('k, 'd) hashtab option \<times> 's" where
  "hashtab_remove hash keycmp ho k destroy args =
    (case ho of
       None \<Rightarrow> (SEPOL_ENOENT, ho, args)
     | Some h \<Rightarrow>
        let i = unat (hash (hsize h) k) in
        (case remove_at keycmp k (htable h ! i) of
           None \<Rightarrow> (SEPOL_ENOENT, ho, args)
         | Some ((k', d'), c) \<Rightarrow>
            (SEPOL_OK, Some (h\<lparr>htable := (htable h)[i := c], nel := nel h - 1\<rparr>),
             case destroy of None \<Rightarrow> args | Some f \<Rightarrow> f k' d' args)))"

fun search_at :: "'k keycmpf \<Rightarrow> 'k \<Rightarrow> ('k \<times> 'd) list \<Rightarrow> 'd option" where
  "search_at keycmp k [] = None"
| "search_at keycmp k ((k', d') # c) =
    (let cmp = keycmp k k' in
     if 0 < cmp then search_at keycmp k c
     else if cmp = 0 then Some d'
     else None)"

definition hashtab_search ::
    "'k hashf \<Rightarrow> 'k keycmpf \<Rightarrow> ('k, 'd) hashtab option \<Rightarrow> 'k \<Rightarrow> 'd option" where
  "hashtab_search hash keycmp ho k =
    (case ho of
       None \<Rightarrow> None
     | Some h \<Rightarrow> search_at keycmp k (htable h ! unat (hash (hsize h) k)))"

text \<open>The callback of \<open>hashtab_map\<close> returns a code and updates the caller's state.\<close>

fun map_chain :: "('k \<Rightarrow> 'd \<Rightarrow> 's \<Rightarrow> int \<times> 's) \<Rightarrow> ('k \<times> 'd) list \<Rightarrow> 's \<Rightarrow> int \<times> 's" where
  "map_chain apply [] args = (SEPOL_OK, args)"
| "map_chain apply ((k, d) # c) args =
    (case apply k d args of
       (ret, args) \<Rightarrow> if ret \<noteq> 0 then (ret, args) else map_chain apply c args)"

fun map_chains :: "('k \<Rightarrow> 'd \<Rightarrow> 's \<Rightarrow> int \<times> 's) \<Rightarrow> ('k \<times> 'd) list list \<Rightarrow> 's \<Rightarrow> int \<times> 's" where
  "map_chains apply [] args = (SEPOL_OK, args)"
| "map_chains apply (c # cs) args =
    (case map_chain apply c args of
       (ret, args) \<Rightarrow> if ret \<noteq> 0 then (ret, args) else map_chains apply cs args)"

definition hashtab_map ::
    "('k, 'd) hashtab option \<Rightarrow> ('k \<Rightarrow> 'd \<Rightarrow> 's \<Rightarrow> int \<times> 's) \<Rightarrow> 's \<Rightarrow> int \<times> 's" where
  "hashtab_map ho apply args =
    (case ho of None \<Rightarrow> (SEPOL_OK, args) | Some h \<Rightarrow> map_chains apply (htable h) args)"

definition hashtab_destroy :: "('k, 'd) hashtab option \<Rightarrow> ('k, 'd) hashtab option" where
  "hashtab_destroy ho = None"

end
