(* ===== verification/Hashtab_Map.thy ===== *)
theory Hashtab_Map
  imports Hashtab
begin

text \<open>
  Hash tables as finite maps. Under the contract of the callbacks every operation keeps the
  table well formed (entries in their bucket, chains in strictly increasing key order, the
  element count right) and does to the map the table stands for what it promises; resizing does
  not change the map.
\<close>

section \<open>Well-formed tables\<close>

definition chain_sorted :: "'k keycmpf \<Rightarrow> ('k \<times> 'd) list \<Rightarrow> bool" where
  "chain_sorted keycmp c \<longleftrightarrow> sorted_wrt (\<lambda>x y. keycmp (fst x) (fst y) < 0) c"

definition table_ok ::
    "'k hashf \<Rightarrow> 'k keycmpf \<Rightarrow> ('k \<Rightarrow> bool) \<Rightarrow> u32 \<Rightarrow> ('k \<times> 'd) list list \<Rightarrow> bool" where
  "table_ok hash keycmp valid sz t \<longleftrightarrow>
    length t = unat sz \<and>
    (\<forall>i < length t. chain_sorted keycmp (t ! i) \<and>
      (\<forall>x \<in> set (t ! i). valid (fst x) \<and> unat (hash sz (fst x)) = i))"

definition hashtab_ok ::
    "'k hashf \<Rightarrow> 'k keycmpf \<Rightarrow> ('k \<Rightarrow> bool) \<Rightarrow> ('k, 'd) hashtab \<Rightarrow> bool" where
  "hashtab_ok hash keycmp valid h \<longleftrightarrow>
    0 < hsize h \<and> table_ok hash keycmp valid (hsize h) (htable h) \<and>
    unat (nel h) = length (concat (htable h))"

definition lookup :: "'k hashf \<Rightarrow> u32 \<Rightarrow> ('k \<times> 'd) list list \<Rightarrow> 'k \<Rightarrow> 'd option" where
  "lookup hash sz t k = map_of (t ! unat (hash sz k)) k"

definition tab_map :: "'k hashf \<Rightarrow> ('k, 'd) hashtab \<Rightarrow> 'k \<Rightarrow> 'd option" where
  "tab_map hash h = lookup hash (hsize h) (htable h)"

lemma length_concat_update:
  "i < length t \<Longrightarrow> length (concat (t[i := c])) + length (t ! i) = length (concat t) + length c"
  by (induction t arbitrary: i) (auto simp: nth_Cons split: nat.splits)

lemma map_of_concat:
  "i < length t \<Longrightarrow> \<forall>j < length t. j \<noteq> i \<longrightarrow> k \<notin> fst ` set (t ! j) \<Longrightarrow>
   map_of (concat t) k = map_of (t ! i) k"
proof (induction t arbitrary: i)
  case (Cons c t)
  show ?case
  proof (cases i)
    case 0
    have "map_of (concat t) k = None"
    proof -
      have "k \<notin> fst ` set (t ! j)" if "j < length t" for j
        using Cons.prems(2) [rule_format, of "Suc j"] 0 that by simp
      then have "k \<notin> fst ` set (concat t)" by (auto simp: in_set_conv_nth) (metis image_eqI fst_conv nth_mem)
      then show ?thesis by (simp add: map_of_eq_None_iff)
    qed
    with 0 show ?thesis by (simp add: map_add_def split: option.split)
  next
    case (Suc i')
    have "k \<notin> fst ` set c" using Cons.prems(2) [rule_format, of 0] Suc by simp
    then have "map_of c k = None" by (simp add: map_of_eq_None_iff)
    moreover have "\<forall>j < length t. j \<noteq> i' \<longrightarrow> k \<notin> fst ` set (t ! j)"
      using Cons.prems(2) [rule_format, of "Suc _"] Suc by simp
    then have "map_of (concat t) k = map_of (t ! i') k" using Cons Suc by simp
    ultimately show ?thesis using Suc by (simp add: map_add_def split: option.split)
  qed
qed simp

lemma distinct_concat_keys:
  "\<forall>i < length t. distinct (map fst (t ! i)) \<Longrightarrow>
   \<forall>i < length t. \<forall>x \<in> set (t ! i). f (fst x) = i + n \<Longrightarrow> distinct (map fst (concat t))"
proof (induction t arbitrary: n)
  case (Cons c t)
  have "\<forall>i < length t. distinct (map fst (t ! i))" using Cons.prems(1) by auto
  moreover have later: "\<forall>i < length t. \<forall>x \<in> set (t ! i). f (fst x) = i + Suc n"
    using Cons.prems(2) [rule_format, of "Suc _"] by simp
  ultimately have "distinct (map fst (concat t))" by (rule Cons.IH)
  moreover have "distinct (map fst c)" using Cons.prems(1) by auto
  moreover have "fst ` set c \<inter> fst ` set (concat t) = {}"
  proof -
    have "f (fst x) = n" if "x \<in> set c" for x using Cons.prems(2) that by auto
    moreover have "n < f (fst x)" if "x \<in> set (concat t)" for x
      using that later by (auto simp: in_set_conv_nth) (metis fst_conv less_add_Suc2 nth_mem)
    ultimately show ?thesis by fastforce
  qed
  ultimately show ?case by auto
qed simp

section \<open>Under the contract of the callbacks\<close>

locale hash_contract =
  fixes hash :: "'k hashf"
    and keycmp :: "'k keycmpf"
    and valid :: "'k \<Rightarrow> bool"
  assumes hash_lt: "0 < sz \<Longrightarrow> hash sz k < sz"
    and cmp_eq: "valid a \<Longrightarrow> valid b \<Longrightarrow> keycmp a b = 0 \<longleftrightarrow> a = b"
    and cmp_sym: "valid a \<Longrightarrow> valid b \<Longrightarrow> 0 < keycmp a b \<longleftrightarrow> keycmp b a < 0"
    and cmp_trans: "valid a \<Longrightarrow> valid b \<Longrightarrow> valid c \<Longrightarrow> keycmp a b < 0 \<Longrightarrow> keycmp b c < 0 \<Longrightarrow> keycmp a c < 0"
begin

definition good :: "('k \<times> 'd) list \<Rightarrow> bool" where
  "good c \<longleftrightarrow> chain_sorted keycmp c \<and> (\<forall>x \<in> set c. valid (fst x))"

lemma good_Nil: "good []"
  by (simp add: good_def chain_sorted_def)

lemma good_Cons:
  "good (x # c) \<longleftrightarrow> valid (fst x) \<and> (\<forall>y \<in> set c. keycmp (fst x) (fst y) < 0) \<and> good c"
  by (auto simp: good_def chain_sorted_def)

lemma good_valid: "good c \<Longrightarrow> y \<in> set c \<Longrightarrow> valid (fst y)"
  by (simp add: good_def)

lemma below_head:
  assumes "good (x # c)" and "valid k" and "keycmp k (fst x) < 0"
  shows "\<forall>y \<in> set (x # c). keycmp k (fst y) < 0"
proof
  fix y assume "y \<in> set (x # c)"
  then consider "y = x" | "y \<in> set c" by auto
  then show "keycmp k (fst y) < 0"
  proof cases
    case 2
    with assms(1) have "valid (fst x)" "valid (fst y)" "keycmp (fst x) (fst y) < 0"
      using good_valid [of c y] by (simp_all add: good_Cons)
    with assms(2,3) show ?thesis by (intro cmp_trans [of k "fst x" "fst y"])
  qed (use assms(3) in simp)
qed

lemma below_notin:
  assumes "good c" and "valid k" and "\<forall>y \<in> set c. keycmp k (fst y) < 0"
  shows "k \<notin> fst ` set c" and "map_of c k = None"
proof -
  show "k \<notin> fst ` set c" using assms cmp_eq [of k k] by (fastforce simp: good_def)
  then show "map_of c k = None" by (simp add: map_of_eq_None_iff)
qed

lemma good_distinct: "good c \<Longrightarrow> distinct (map fst c)"
proof (induction c)
  case (Cons x c)
  then show ?case using below_notin(1) [of c "fst x"] by (auto simp: good_Cons)
qed simp

lemma cmp_cases:
  assumes "valid a" and "valid b"
  obtains "0 < keycmp a b" "a \<noteq> b" "keycmp b a < 0" | "keycmp a b = 0" "a = b"
    | "keycmp a b < 0" "a \<noteq> b"
  using cmp_eq [OF assms] cmp_sym [OF assms] by (metis not_less_iff_gr_or_eq)

lemma search_at_correct: "good c \<Longrightarrow> valid k \<Longrightarrow> search_at keycmp k c = map_of c k"
proof (induction c)
  case (Cons x c)
  obtain k' d' where x: "x = (k', d')" by (cases x)
  have v: "valid k'" "good c" using Cons.prems(1) x by (simp_all add: good_Cons)
  from Cons.prems(2) v(1) show ?case
  proof (cases rule: cmp_cases)
    case 1
    with x Cons v show ?thesis by simp
  next
    case 2
    with x show ?thesis by simp
  next
    case 3
    with x below_notin(2) [OF Cons.prems below_head [OF Cons.prems]] show ?thesis by simp
  qed
qed simp

lemma insert_at_correct:
  assumes "good c" and "valid k"
  shows "insert_at keycmp k d c = None \<longleftrightarrow> k \<in> fst ` set c"
    and "insert_at keycmp k d c = Some c' \<Longrightarrow>
      good c' \<and> set c' = insert (k, d) (set c) \<and> length c' = Suc (length c) \<and>
      map_of c' = (map_of c)(k \<mapsto> d)"
proof -
  have "(insert_at keycmp k d c = None \<longleftrightarrow> k \<in> fst ` set c) \<and>
    (\<forall>c'. insert_at keycmp k d c = Some c' \<longrightarrow> good c' \<and> set c' = insert (k, d) (set c) \<and>
      length c' = Suc (length c) \<and> map_of c' = (map_of c)(k \<mapsto> d))"
    using assms(1)
  proof (induction c)
    case Nil
    then show ?case using assms(2) by (simp add: good_Cons good_Nil fun_eq_iff)
  next
    case (Cons x c)
    obtain k' d' where x: "x = (k', d')" by (cases x)
    have v: "valid k'" "good c" "\<forall>y \<in> set c. keycmp k' (fst y) < 0"
      using Cons.prems x by (simp_all add: good_Cons)
    from assms(2) v(1) show ?case
    proof (cases rule: cmp_cases)
      case 1
      with x v Cons.IH show ?thesis by (auto simp: good_Cons fun_upd_twist)
    next
      case 2
      with x show ?thesis by simp
    next
      case 3
      have "\<forall>y \<in> set (x # c). keycmp k (fst y) < 0"
        using below_head [OF Cons.prems assms(2)] 3(1) x by simp
      with 3 x below_notin(1) [OF Cons.prems assms(2)] Cons.prems assms(2) show ?thesis
        by (auto simp: good_Cons)
    qed
  qed
  then show "insert_at keycmp k d c = None \<longleftrightarrow> k \<in> fst ` set c"
    and "insert_at keycmp k d c = Some c' \<Longrightarrow>
      good c' \<and> set c' = insert (k, d) (set c) \<and> length c' = Suc (length c) \<and>
      map_of c' = (map_of c)(k \<mapsto> d)" by simp_all
qed

lemma place_insert_at:
  assumes "good c" and "valid k" and "k \<notin> fst ` set c"
  shows "insert_at keycmp k d c = Some (place keycmp k d c)"
  using assms
proof (induction c)
  case (Cons x c)
  obtain k' d' where x: "x = (k', d')" by (cases x)
  then have "valid k'" using Cons.prems(1) by (simp add: good_Cons)
  with Cons.prems(2) show ?case
    by (cases rule: cmp_cases) (use Cons x in \<open>auto simp: good_Cons\<close>)
qed simp

lemma remove_at_correct:
  assumes "good c" and "valid k"
  shows "remove_at keycmp k c = None \<longleftrightarrow> k \<notin> fst ` set c"
    and "remove_at keycmp k c = Some (e, c') \<Longrightarrow>
      good c' \<and> map_of c k = Some (snd e) \<and> fst e = k \<and> set c' \<subseteq> set c \<and>
      Suc (length c') = length c \<and> map_of c' = (map_of c)(k := None)"
proof -
  have "(remove_at keycmp k c = None \<longleftrightarrow> k \<notin> fst ` set c) \<and>
    (\<forall>e c'. remove_at keycmp k c = Some (e, c') \<longrightarrow>
      good c' \<and> map_of c k = Some (snd e) \<and> fst e = k \<and> set c' \<subseteq> set c \<and>
      Suc (length c') = length c \<and> map_of c' = (map_of c)(k := None))"
    using assms(1)
  proof (induction c)
    case (Cons x c)
    obtain k' d' where x: "x = (k', d')" by (cases x)
    have v: "valid k'" "good c" "\<forall>y \<in> set c. keycmp k' (fst y) < 0"
      using Cons.prems x by (simp_all add: good_Cons)
    from assms(2) v(1) show ?case
    proof (cases rule: cmp_cases)
      case 1
      with x v Cons.IH show ?thesis
        by (auto simp: good_Cons fun_upd_twist dest!: subsetD)
    next
      case 2
      with x v below_notin(2) [OF v(2), of k] show ?thesis by (auto simp: fun_eq_iff)
    next
      case 3
      have "\<forall>y \<in> set (x # c). keycmp k (fst y) < 0"
        using below_head [OF Cons.prems assms(2)] 3(1) x by simp
      with 3 x below_notin(1) [OF Cons.prems assms(2)] show ?thesis by auto
    qed
  qed simp
  then show "remove_at keycmp k c = None \<longleftrightarrow> k \<notin> fst ` set c"
    and "remove_at keycmp k c = Some (e, c') \<Longrightarrow>
      good c' \<and> map_of c k = Some (snd e) \<and> fst e = k \<and> set c' \<subseteq> set c \<and>
      Suc (length c') = length c \<and> map_of c' = (map_of c)(k := None)" by auto
qed

end

section \<open>Tables and operations\<close>

lemma move_chain_append:
  "move_chain hash keycmp sz (as @ bs) t = move_chain hash keycmp sz bs (move_chain hash keycmp sz as t)"
  by (induction hash keycmp sz as t rule: move_chain.induct) (simp_all add: Let_def)

lemma move_chains_concat: "move_chains hash keycmp sz cs t = move_chain hash keycmp sz (concat cs) t"
  by (induction hash keycmp sz cs t rule: move_chains.induct) (simp_all add: move_chain_append)

context hash_contract
begin

lemma table_ok_good: "table_ok hash keycmp valid sz t \<Longrightarrow> i < length t \<Longrightarrow> good (t ! i)"
  by (auto simp: table_ok_def good_def)

lemma table_bucket:
  assumes "table_ok hash keycmp valid sz t" and "0 < sz"
  shows "unat (hash sz k) < length t"
  using assms hash_lt [OF assms(2), of k] by (simp add: table_ok_def word_less_nat_alt)

lemma map_of_concat_lookup:
  assumes "table_ok hash keycmp valid sz t" and "0 < sz"
  shows "map_of (concat t) k = lookup hash sz t k"
  unfolding lookup_def
proof (rule map_of_concat [OF table_bucket [OF assms]])
  show "\<forall>j < length t. j \<noteq> unat (hash sz k) \<longrightarrow> k \<notin> fst ` set (t ! j)"
    using assms(1) by (fastforce simp: table_ok_def)
qed

lemma table_distinct:
  assumes "table_ok hash keycmp valid sz t"
  shows "distinct (map fst (concat t))"
  using assms good_distinct table_ok_good [OF assms]
  by (intro distinct_concat_keys [of t "\<lambda>k. unat (hash sz k)" 0]) (auto simp: table_ok_def)

lemma table_update:
  assumes "table_ok hash keycmp valid sz t" and "0 < sz" and "i = unat (hash sz k)"
    and "good c" and "fst ` set c \<subseteq> insert k (fst ` set (t ! i))"
    and "map_of c = (map_of (t ! i))(k := v)"
  shows "table_ok hash keycmp valid sz (t[i := c])"
    and "lookup hash sz (t[i := c]) = (lookup hash sz t)(k := v)"
proof -
  have i: "i < length t" using table_bucket [OF assms(1,2), of k] assms(3) by simp
  have "unat (hash sz (fst x)) = i" if "x \<in> set c" for x
  proof -
    from that assms(5) have "fst x = k \<or> fst x \<in> fst ` set (t ! i)" by auto
    moreover have "unat (hash sz (fst y)) = i" if "y \<in> set (t ! i)" for y
      using assms(1) i that by (simp add: table_ok_def)
    ultimately show ?thesis using assms(3) by (auto simp: image_iff)
  qed
  then show "table_ok hash keycmp valid sz (t[i := c])"
    using assms(1,4) i by (auto simp: table_ok_def good_def nth_list_update)
  show "lookup hash sz (t[i := c]) = (lookup hash sz t)(k := v)"
    using assms(3,6) i by (auto simp: lookup_def fun_eq_iff nth_list_update)
qed

lemma move_chain_correct:
  assumes "table_ok hash keycmp valid sz t" and "0 < sz" and "distinct (map fst es)"
    and "\<forall>x \<in> set es. valid (fst x) \<and> lookup hash sz t (fst x) = None"
  shows "table_ok hash keycmp valid sz (move_chain hash keycmp sz es t) \<and>
    (\<forall>k. lookup hash sz (move_chain hash keycmp sz es t) k =
      (case map_of es k of None \<Rightarrow> lookup hash sz t k | Some d \<Rightarrow> Some d)) \<and>
    length (concat (move_chain hash keycmp sz es t)) = length (concat t) + length es"
  using assms
proof (induction es arbitrary: t)
  case (Cons x es)
  obtain k d where x: "x = (k, d)" by (cases x)
  let ?i = "unat (hash sz k)"
  have i: "?i < length t" using table_bucket [OF Cons.prems(1,2)] .
  have g: "good (t ! ?i)" using table_ok_good [OF Cons.prems(1) i] .
  have k: "valid k" "k \<notin> fst ` set (t ! ?i)"
    using Cons.prems(4) x by (auto simp: lookup_def map_of_eq_None_iff)
  let ?c = "place keycmp k d (t ! ?i)"
  note p = insert_at_correct(2) [OF g k(1) place_insert_at [OF g k(1) k(2)], of d]
  have sub: "fst ` set ?c \<subseteq> insert k (fst ` set (t ! ?i))" using p by auto
  note up = table_update [OF Cons.prems(1,2) refl, of ?c k "Some d"]
  have t1: "table_ok hash keycmp valid sz (t[?i := ?c])"
    and l1: "lookup hash sz (t[?i := ?c]) = (lookup hash sz t)(k \<mapsto> d)"
    using up p sub by auto
  have len: "length (concat (t[?i := ?c])) = Suc (length (concat t))"
    using length_concat_update [OF i, of ?c] p by simp
  have "\<forall>x \<in> set es. valid (fst x) \<and> lookup hash sz (t[?i := ?c]) (fst x) = None"
    using Cons.prems(3,4) x l1 by auto
  with Cons.IH [OF t1 Cons.prems(2)] Cons.prems(3)
  have IH: "table_ok hash keycmp valid sz (move_chain hash keycmp sz es (t[?i := ?c]))"
    "\<forall>k'. lookup hash sz (move_chain hash keycmp sz es (t[?i := ?c])) k' =
      (case map_of es k' of None \<Rightarrow> lookup hash sz (t[?i := ?c]) k' | Some d \<Rightarrow> Some d)"
    "length (concat (move_chain hash keycmp sz es (t[?i := ?c]))) =
      length (concat (t[?i := ?c])) + length es" by auto
  have "map_of es k = None" using Cons.prems(3) x by (simp add: map_of_eq_None_iff)
  then have "(case map_of es k' of None \<Rightarrow> lookup hash sz (t[?i := ?c]) k' | Some d \<Rightarrow> Some d) =
      (case map_of (x # es) k' of None \<Rightarrow> lookup hash sz t k' | Some d \<Rightarrow> Some d)" for k'
    using l1 x by (cases "k' = k") (auto split: option.split)
  with IH len x show ?case by (simp add: Let_def)
qed simp

lemma grow_pos: "0 < s \<Longrightarrow> 0 < grow n s"
proof (induction n s rule: grow.induct)
  case (1 n s)
  show ?case
  proof (cases "s \<le> n \<and> s * 2 \<noteq> 0")
    case True
    then have "0 < s * 2" by (simp add: word_gt_0)
    with 1(1) [OF True] True show ?thesis by (simp add: grow.simps [of n s])
  qed (use 1(2) in \<open>auto simp: grow.simps [of n s]\<close>)
qed

lemma grow_limit: "n < grow n s \<or> grow n s * 2 = 0"
proof (induction n s rule: grow.induct)
  case (1 n s)
  then show ?case
    by (cases "s \<le> n \<and> s * 2 \<noteq> 0") (auto simp: grow.simps [of n s] not_le)
qed

lemma empty_table_ok: "table_ok hash keycmp valid sz (replicate (unat sz) [])"
  by (simp add: table_ok_def chain_sorted_def)

lemma resize_correct:
  assumes "hashtab_ok hash keycmp valid h" and "hashtab_check_resize hash keycmp h m = (h', m')"
  shows "hashtab_ok hash keycmp valid h' \<and> tab_map hash h' = tab_map hash h \<and> nel h' = nel h"
proof (cases "htable h' = htable h \<and> hsize h' = hsize h \<and> nel h' = nel h")
  case True
  with assms(1) show ?thesis by (simp add: hashtab_ok_def tab_map_def)
next
  case False
  let ?s = "grow (nel h) (hsize h)" and ?es = "concat (htable h)"
  let ?t = "move_chain hash keycmp ?s ?es (replicate (unat ?s) [])"
  have h': "h' = h\<lparr>hsize := ?s, htable := ?t\<rparr>"
    using assms(2) False
    by (auto simp: hashtab_check_resize_def Let_def move_chains_concat split: prod.splits if_splits bool.splits)
  have t: "0 < hsize h" "table_ok hash keycmp valid (hsize h) (htable h)"
      "unat (nel h) = length ?es"
    using assms(1) by (simp_all add: hashtab_ok_def)
  have s: "0 < ?s" using t(1) by (rule grow_pos)
  have empty: "lookup hash ?s (replicate (unat ?s) []) k = None" for k
    using table_bucket [OF empty_table_ok s, of k] by (simp add: lookup_def)
  have "\<forall>x \<in> set ?es. valid (fst x)"
    using t(2) by (auto simp: table_ok_def in_set_conv_nth) (metis fst_conv nth_mem)
  with empty have "\<forall>x \<in> set ?es. valid (fst x) \<and> lookup hash ?s (replicate (unat ?s) []) (fst x) = None"
    by blast
  note mc = move_chain_correct [OF empty_table_ok s table_distinct [OF t(2)] this]
  then have ok: "table_ok hash keycmp valid ?s ?t" "length (concat ?t) = length ?es"
    by (simp_all add: length_concat)
  have "lookup hash ?s ?t = lookup hash (hsize h) (htable h)"
  proof
    fix k
    have "lookup hash ?s ?t k =
        (case map_of ?es k of None \<Rightarrow> lookup hash ?s (replicate (unat ?s) []) k | Some d \<Rightarrow> Some d)"
      using mc by blast
    then show "lookup hash ?s ?t k = lookup hash (hsize h) (htable h) k"
      unfolding empty map_of_concat_lookup [OF t(2,1)] by (simp split: option.splits)
  qed
  with h' ok s t(3) show ?thesis by (simp add: hashtab_ok_def tab_map_def)
qed

lemma search_correct:
  assumes "hashtab_ok hash keycmp valid h" and "valid k"
  shows "hashtab_search hash keycmp (Some h) k = tab_map hash h k"
proof -
  have t: "table_ok hash keycmp valid (hsize h) (htable h)" "0 < hsize h"
    using assms(1) by (simp_all add: hashtab_ok_def)
  have "good (htable h ! unat (hash (hsize h) k))"
    by (rule table_ok_good [OF t(1) table_bucket [OF t]])
  with assms(2) show ?thesis
    by (simp add: hashtab_search_def tab_map_def lookup_def search_at_correct)
qed

lemma insert_correct:
  assumes "hashtab_ok hash keycmp valid h" and "valid k"
    and "hashtab_insert hash keycmp (Some h) k d m = (rc, ho, m')"
  shows "\<exists>h'. ho = Some h' \<and> hashtab_ok hash keycmp valid h' \<and>
    (rc = SEPOL_EEXIST \<and> tab_map hash h k \<noteq> None \<and> tab_map hash h' = tab_map hash h \<or>
     rc = SEPOL_ENOMEM \<and> tab_map hash h' = tab_map hash h \<or>
     rc = SEPOL_OK \<and> tab_map hash h k = None \<and> tab_map hash h' = (tab_map hash h)(k \<mapsto> d) \<and>
       nel h' = nel h + 1)"
proof (cases "nel h = - 1")
  case True
  with assms show ?thesis by (auto simp: hashtab_insert_def)
next
  case False
  obtain h1 m1 where r: "hashtab_check_resize hash keycmp h m = (h1, m1)"
    by (cases "hashtab_check_resize hash keycmp h m")
  have h1: "hashtab_ok hash keycmp valid h1" "tab_map hash h1 = tab_map hash h" "nel h1 = nel h"
    using resize_correct [OF assms(1) r] by auto
  let ?i = "unat (hash (hsize h1) k)"
  have t: "table_ok hash keycmp valid (hsize h1) (htable h1)" "0 < hsize h1"
      "unat (nel h1) = length (concat (htable h1))"
    using h1(1) by (simp_all add: hashtab_ok_def)
  have i: "?i < length (htable h1)" by (rule table_bucket [OF t(1,2)])
  have g: "good (htable h1 ! ?i)" by (rule table_ok_good [OF t(1) i])
  have look: "tab_map hash h1 k = map_of (htable h1 ! ?i) k" by (simp add: tab_map_def lookup_def)
  show ?thesis
  proof (cases "insert_at keycmp k d (htable h1 ! ?i)")
    case None
    then have "tab_map hash h1 k \<noteq> None"
      using insert_at_correct(1) [OF g assms(2)] look by (simp add: map_of_eq_None_iff)
    with assms(3) False r None h1 show ?thesis by (auto simp: hashtab_insert_def Let_def)
  next
    case (Some c)
    note p = insert_at_correct(2) [OF g assms(2) Some]
    have none: "tab_map hash h1 k = None"
      using insert_at_correct(1) [OF g assms(2), of d] Some look by (simp add: map_of_eq_None_iff)
    let ?h = "h1\<lparr>htable := (htable h1)[?i := c], nel := nel h1 + 1\<rparr>"
    have "unat (nel h1 + 1) = unat (nel h1) + 1"
    proof -
      have "unat (nel h1) \<noteq> unat (- 1 :: u32)" using False h1(3) by (metis unsigned_word_eqI)
      then have "unat (nel h1) + 1 < 2 ^ 32"
        using unat_lt_u32 [of "nel h1"] by (simp add: unsigned_minus_1_eq_mask mask_eq_exp_minus_1)
      then show ?thesis by (simp add: unat_word_ariths)
    qed
    moreover have "length (concat ((htable h1)[?i := c])) = Suc (length (concat (htable h1)))"
      using length_concat_update [OF i, of c] p by simp
    moreover have "fst ` set c \<subseteq> insert k (fst ` set (htable h1 ! ?i))" using p by auto
    ultimately have "hashtab_ok hash keycmp valid ?h" "tab_map hash ?h = (tab_map hash h1)(k \<mapsto> d)"
      using table_update [OF t(1,2) refl, of c k "Some d"] p t(2,3)
      by (auto simp: hashtab_ok_def tab_map_def)
    with assms(3) False r Some h1 none show ?thesis
      by (auto simp: hashtab_insert_def Let_def split: prod.splits bool.splits)
  qed
qed

lemma remove_correct:
  assumes "hashtab_ok hash keycmp valid h" and "valid k"
    and "hashtab_remove hash keycmp (Some h) k f args = (rc, ho, args')"
  shows "\<exists>h'. ho = Some h' \<and> hashtab_ok hash keycmp valid h' \<and>
    (rc = SEPOL_ENOENT \<and> tab_map hash h k = None \<and> h' = h \<and> args' = args \<or>
     rc = SEPOL_OK \<and> (\<exists>d. tab_map hash h k = Some d \<and>
        args' = (case f of None \<Rightarrow> args | Some f \<Rightarrow> f k d args)) \<and>
       tab_map hash h' = (tab_map hash h)(k := None) \<and> nel h' = nel h - 1)"
proof -
  let ?i = "unat (hash (hsize h) k)"
  have t: "table_ok hash keycmp valid (hsize h) (htable h)" "0 < hsize h"
      "unat (nel h) = length (concat (htable h))"
    using assms(1) by (simp_all add: hashtab_ok_def)
  have i: "?i < length (htable h)" by (rule table_bucket [OF t(1,2)])
  have g: "good (htable h ! ?i)" by (rule table_ok_good [OF t(1) i])
  have look: "tab_map hash h k = map_of (htable h ! ?i) k" by (simp add: tab_map_def lookup_def)
  show ?thesis
  proof (cases "remove_at keycmp k (htable h ! ?i)")
    case None
    then have "tab_map hash h k = None"
      using remove_at_correct(1) [OF g assms(2)] look by (simp add: map_of_eq_None_iff)
    with assms None show ?thesis by (auto simp: hashtab_remove_def Let_def)
  next
    case (Some r)
    obtain d c where r: "r = ((k, d), c)"
      using remove_at_correct(2) [OF g assms(2), of "fst r" "snd r"] Some by (cases r) auto
    note p = remove_at_correct(2) [OF g assms(2) Some [unfolded r]]
    let ?h = "h\<lparr>htable := (htable h)[?i := c], nel := nel h - 1\<rparr>"
    have len: "Suc (length (concat ((htable h)[?i := c]))) = length (concat (htable h))"
      using length_concat_update [OF i, of c] p by linarith
    then have "unat (nel h - 1) = length (concat ((htable h)[?i := c]))"
    proof -
      have "1 \<le> nel h" using len t(3) by (simp add: word_le_nat_alt)
      then have "unat (nel h - 1) = unat (nel h) - 1" by (simp add: unat_sub)
      with len t(3) show ?thesis by linarith
    qed
    moreover have "fst ` set c \<subseteq> insert k (fst ` set (htable h ! ?i))" using p by auto
    ultimately have "hashtab_ok hash keycmp valid ?h" "tab_map hash ?h = (tab_map hash h)(k := None)"
      using table_update [OF t(1,2) refl, of c k None] p t(2)
      by (auto simp: hashtab_ok_def tab_map_def)
    with assms(3) Some r p look show ?thesis by (auto simp: hashtab_remove_def Let_def)
  qed
qed

lemma create_correct:
  assumes "hashtab_create sz m = (Some h, m')" and "0 < sz"
  shows "hashtab_ok hash keycmp valid h \<and> tab_map hash h = Map.empty"
proof -
  have h: "h = \<lparr>htable = replicate (unat sz) [], hsize = sz, nel = 0\<rparr>"
    using assms(1) by (auto simp: hashtab_create_def split: prod.splits bool.splits)
  have "lookup hash sz (replicate (unat sz) []) k = None" for k
    using table_bucket [OF empty_table_ok assms(2), of k] by (simp add: lookup_def)
  with h assms(2) show ?thesis
    by (auto simp: hashtab_ok_def tab_map_def empty_table_ok)
qed

text \<open>The entries in the order \<open>hashtab_map\<close> visits them.\<close>

lemma entries_correct:
  assumes "hashtab_ok hash keycmp valid h"
  shows "distinct (map fst (concat (htable h)))" and "map_of (concat (htable h)) = tab_map hash h"
    and "length (concat (htable h)) = unat (nel h)"
proof -
  have t: "table_ok hash keycmp valid (hsize h) (htable h)" "0 < hsize h"
    using assms by (simp_all add: hashtab_ok_def)
  show "distinct (map fst (concat (htable h)))" using table_distinct [OF t(1)] .
  show "map_of (concat (htable h)) = tab_map hash h"
    using map_of_concat_lookup [OF t] by (auto simp: tab_map_def)
  show "length (concat (htable h)) = unat (nel h)" using assms by (simp add: hashtab_ok_def)
qed

end

section \<open>Visiting all entries\<close>

lemma map_chain_append:
  "map_chain f (as @ bs) args =
    (case map_chain f as args of (ret, args') \<Rightarrow> if ret \<noteq> 0 then (ret, args') else map_chain f bs args')"
  by (induction f as args rule: map_chain.induct) (auto split: prod.split)

lemma map_chains_concat: "map_chains f cs args = map_chain f (concat cs) args"
  by (induction f cs args rule: map_chains.induct) (auto simp: map_chain_append split: prod.split)

lemma map_chain_fold:
  "(\<And>k d s. fst (f k d s) = 0) \<Longrightarrow> map_chain f c args = (0, fold (\<lambda>(k, d) s. snd (f k d s)) c args)"
proof (induction c arbitrary: args)
  case (Cons x c)
  obtain k d where x: "x = (k, d)" by (cases x)
  obtain s where "f k d args = (0, s)" using Cons.prems [of k d args] by (cases "f k d args") auto
  with Cons x show ?case by simp
qed simp

end
