(* ===== verification/Symtab.thy ===== *)
theory Symtab
  imports Hashtab_Map Machines
begin

text \<open>
  Symbol tables (\<open>symtab.c\<close>): hash tables whose keys are C strings, hashed by \<open>symhash\<close> and
  compared by \<open>strcmp\<close>. A string is the list of its bytes without the terminating zero, so a valid
  key holds no zero byte. The two callbacks fulfil the contract of the hash table, and runs of a
  symbol table are explained by a finite map.
\<close>

section \<open>Callbacks\<close>

fun symhash_loop :: "u32 \<Rightarrow> byte list \<Rightarrow> u32" where
  "symhash_loop h [] = h"
| "symhash_loop h (c # cs) =
    (if c = 0 then h else symhash_loop ((push_bit 5 h + h) XOR ucast c) cs)"

definition symhash :: "byte list hashf" where
  "symhash sz key = symhash_loop 5381 key AND (sz - 1)"

fun strcmp :: "byte list \<Rightarrow> byte list \<Rightarrow> int" where
  "strcmp [] [] = 0"
| "strcmp [] (b # bs) = - uint b"
| "strcmp (a # as) [] = uint a"
| "strcmp (a # as) (b # bs) = (if a = b \<and> a \<noteq> 0 then strcmp as bs else uint a - uint b)"

definition symcmp :: "byte list keycmpf" where
  "symcmp key1 key2 = strcmp key1 key2"

definition c_string :: "byte list \<Rightarrow> bool" where
  "c_string s \<longleftrightarrow> 0 \<notin> set s"

section \<open>Tables\<close>

record 'd symtab =
  table :: "(byte list, 'd) hashtab option"
  nprim :: u32

definition symtab_init :: "'d symtab \<Rightarrow> u32 \<Rightarrow> alloc \<Rightarrow> int \<times> 'd symtab \<times> alloc" where
  "symtab_init s sz m =
    (case hashtab_create sz m of
       (h, m) \<Rightarrow>
         let s = s\<lparr>table := h\<rparr> in
         if h = None then (- 1, s, m) else (0, s\<lparr>nprim := 0\<rparr>, m))"

text \<open>The table is released; the pointers to it are left as they are.\<close>

definition symtab_destroy :: "'d symtab option \<Rightarrow> 'd symtab option" where
  "symtab_destroy so =
    (case so of
       None \<Rightarrow> None
     | Some s \<Rightarrow> if table s \<noteq> None then Some (s\<lparr>table := hashtab_destroy (table s)\<rparr>) else Some s)"

section \<open>The contract holds\<close>

lemma symhash_lt: "0 < sz \<Longrightarrow> symhash sz key < sz"
proof -
  assume "0 < sz"
  then have "sz \<noteq> 0" and "0 < unat sz" by (auto simp: word_less_nat_alt)
  then have "sz - 1 < sz" unfolding word_less_nat_alt unat_minus_one [OF \<open>sz \<noteq> 0\<close>] by simp
  moreover have "symhash sz key \<le> sz - 1" by (simp add: symhash_def word_and_le1)
  ultimately show ?thesis by simp
qed

lemma uint_byte_eq: "uint (a :: byte) = uint b \<longleftrightarrow> a = b" "uint a = 0 \<longleftrightarrow> a = 0"
  by (metis unsigned_word_eqI) (metis unsigned_0 unsigned_word_eqI)

lemma strcmp_eq: "c_string a \<Longrightarrow> c_string b \<Longrightarrow> strcmp a b = 0 \<longleftrightarrow> a = b"
  by (induction a b rule: strcmp.induct) (auto simp: c_string_def uint_byte_eq)

lemma strcmp_sym: "strcmp b a = - strcmp a b"
  by (induction a b rule: strcmp.induct) auto

lemma uint_byte_pos: "(b :: byte) \<noteq> 0 \<Longrightarrow> 0 < uint b"
  by (simp add: less_le uint_byte_eq)

lemma strcmp_trans:
  "c_string a \<Longrightarrow> c_string b \<Longrightarrow> c_string c \<Longrightarrow> strcmp a b < 0 \<Longrightarrow> strcmp b c < 0 \<Longrightarrow> strcmp a c < 0"
proof (induction a b arbitrary: c rule: strcmp.induct)
  case (2 y ys)
  then show ?case by (cases c) (auto simp: c_string_def uint_byte_pos split: if_splits)
next
  case (4 x xs y ys)
  then show ?case by (cases c) (auto simp: c_string_def split: if_splits)
qed (auto simp: c_string_def)

interpretation sym: hash_contract symhash symcmp c_string
proof
  show "symhash sz k < sz" if "0 < sz" for sz k using that by (rule symhash_lt)
  show "symcmp a b = 0 \<longleftrightarrow> a = b" if "c_string a" "c_string b" for a b
    using that by (simp add: symcmp_def strcmp_eq)
  show "0 < symcmp a b \<longleftrightarrow> symcmp b a < 0" if "c_string a" "c_string b" for a b
    unfolding symcmp_def strcmp_sym [of b a] by simp
  show "symcmp a c < 0" if "c_string a" "c_string b" "c_string c" "symcmp a b < 0" "symcmp b c < 0"
    for a b c
    using that unfolding symcmp_def by (rule strcmp_trans)
qed

section \<open>Runs\<close>

datatype 'd tab_op = Insert "byte list" 'd | Remove "byte list" | Search "byte list"

fun op_key :: "'d tab_op \<Rightarrow> byte list" where
  "op_key (Insert k d) = k"
| "op_key (Remove k) = k"
| "op_key (Search k) = k"

text \<open>One call on a symbol table; the output is the return code and what a search found.\<close>

type_synonym 'd tab_state = "(byte list, 'd) hashtab option \<times> alloc"

fun tab_step :: "'d tab_state \<Rightarrow> 'd tab_op \<Rightarrow> (int \<times> 'd option) \<times> 'd tab_state" where
  "tab_step (ho, m) (Insert k d) =
    (case hashtab_insert symhash symcmp ho k d m of (rc, ho, m) \<Rightarrow> ((rc, None), (ho, m)))"
| "tab_step (ho, m) (Remove k) =
    (case hashtab_remove symhash symcmp ho k None () of (rc, ho, _) \<Rightarrow> ((rc, None), (ho, m)))"
| "tab_step (ho, m) (Search k) = ((SEPOL_OK, hashtab_search symhash symcmp ho k), (ho, m))"

text \<open>A run of a finite map with the same outputs. Only an insertion may fail, for lack of memory.\<close>

fun explains ::
    "(byte list \<Rightarrow> 'd option) \<Rightarrow> 'd tab_op list \<Rightarrow> (int \<times> 'd option) list \<Rightarrow> (byte list \<Rightarrow> 'd option) \<Rightarrow> bool"
where
  "explains M [] [] M' \<longleftrightarrow> M' = M"
| "explains M (Insert k d # ops) ((rc, r) # rs) M' \<longleftrightarrow>
    rc = SEPOL_EEXIST \<and> M k \<noteq> None \<and> explains M ops rs M' \<or>
    rc = SEPOL_ENOMEM \<and> explains M ops rs M' \<or>
    rc = SEPOL_OK \<and> M k = None \<and> explains (M(k \<mapsto> d)) ops rs M'"
| "explains M (Remove k # ops) ((rc, r) # rs) M' \<longleftrightarrow>
    rc = SEPOL_ENOENT \<and> M k = None \<and> explains M ops rs M' \<or>
    rc = SEPOL_OK \<and> M k \<noteq> None \<and> explains (M(k := None)) ops rs M'"
| "explains M (Search k # ops) ((rc, r) # rs) M' \<longleftrightarrow> r = M k \<and> explains M ops rs M'"
| "explains M ops rs M' \<longleftrightarrow> False"

lemma run_explained:
  assumes "hashtab_ok symhash symcmp c_string h" and "list_all (\<lambda>x. c_string (op_key x)) ops"
  shows "\<exists>h'. fst (run_state tab_step (Some h, m) ops) = Some h' \<and>
    hashtab_ok symhash symcmp c_string h' \<and>
    explains (tab_map symhash h) ops (run_out tab_step (Some h, m) ops) (tab_map symhash h')"
  using assms
proof (induction ops arbitrary: h m)
  case (Cons x ops)
  show ?case
  proof (cases x)
    case (Insert k d)
    obtain rc ho m' where r: "hashtab_insert symhash symcmp (Some h) k d m = (rc, ho, m')"
      by (cases "hashtab_insert symhash symcmp (Some h) k d m") auto
    obtain h1 where h1: "ho = Some h1" "hashtab_ok symhash symcmp c_string h1"
      "rc = SEPOL_EEXIST \<and> tab_map symhash h k \<noteq> None \<and> tab_map symhash h1 = tab_map symhash h \<or>
       rc = SEPOL_ENOMEM \<and> tab_map symhash h1 = tab_map symhash h \<or>
       rc = SEPOL_OK \<and> tab_map symhash h k = None \<and> tab_map symhash h1 = (tab_map symhash h)(k \<mapsto> d)"
      using sym.insert_correct [OF Cons.prems(1) _ r] Cons.prems(2) Insert by auto
    have "list_all (\<lambda>x. c_string (op_key x)) ops" using Cons.prems(2) by simp
    then obtain h' where IH: "fst (run_state tab_step (Some h1, m') ops) = Some h'"
        "hashtab_ok symhash symcmp c_string h'"
        "explains (tab_map symhash h1) ops (run_out tab_step (Some h1, m') ops) (tab_map symhash h')"
      using Cons.IH [OF h1(2), of m'] by blast
    from h1(3) have "explains (tab_map symhash h) (Insert k d # ops)
        ((rc, None) # run_out tab_step (Some h1, m') ops) (tab_map symhash h')"
    proof (elim disjE conjE)
      assume "rc = SEPOL_OK" "tab_map symhash h k = None"
        and eq: "tab_map symhash h1 = (tab_map symhash h)(k \<mapsto> d)"
      with IH(3) [unfolded eq] show ?thesis by (simp del: fun_upd_apply)
    qed (use IH(3) in \<open>simp_all\<close>)
    with IH(1,2) r h1(1) Insert show ?thesis
      by (auto simp: run_Cons simp del: mealy_run.simps(2) explains.simps)
  next
    case (Remove k)
    obtain rc ho u where r: "hashtab_remove symhash symcmp (Some h) k None () = (rc, ho, u)"
      by (cases "hashtab_remove symhash symcmp (Some h) k None ()") auto
    obtain h1 where h1: "ho = Some h1" "hashtab_ok symhash symcmp c_string h1"
      "rc = SEPOL_ENOENT \<and> tab_map symhash h k = None \<and> h1 = h \<or>
       rc = SEPOL_OK \<and> tab_map symhash h k \<noteq> None \<and> tab_map symhash h1 = (tab_map symhash h)(k := None)"
      using sym.remove_correct [OF Cons.prems(1) _ r] Cons.prems(2) Remove by auto
    have "list_all (\<lambda>x. c_string (op_key x)) ops" using Cons.prems(2) by simp
    then obtain h' where IH: "fst (run_state tab_step (Some h1, m) ops) = Some h'"
        "hashtab_ok symhash symcmp c_string h'"
        "explains (tab_map symhash h1) ops (run_out tab_step (Some h1, m) ops) (tab_map symhash h')"
      using Cons.IH [OF h1(2), of m] by blast
    from h1(3) have "explains (tab_map symhash h) (Remove k # ops)
        ((rc, None) # run_out tab_step (Some h1, m) ops) (tab_map symhash h')"
    proof (elim disjE conjE)
      assume "rc = SEPOL_OK" "tab_map symhash h k \<noteq> None"
        and eq: "tab_map symhash h1 = (tab_map symhash h)(k := None)"
      with IH(3) [unfolded eq] show ?thesis by (simp del: fun_upd_apply)
    qed (use IH(3) in \<open>simp_all\<close>)
    with IH(1,2) r h1(1) Remove show ?thesis
      by (auto simp: run_Cons simp del: mealy_run.simps(2) explains.simps)
  next
    case (Search k)
    have "hashtab_search symhash symcmp (Some h) k = tab_map symhash h k"
      using sym.search_correct [OF Cons.prems(1)] Cons.prems(2) Search by simp
    with Cons Search show ?thesis by (auto simp: run_Cons simp del: mealy_run.simps(2))
  qed
qed simp

end
