(* ===== verification/Symtab_Props.thy ===== *)
theory Symtab_Props
  imports Symtab
begin

text \<open>
  The properties of libsepol's symbol tables: a run of insertions, removals and searches is
  explained by a finite map, memory is the only reason for a failure, growth is transparent, and a
  visit sees every entry once.
\<close>

section \<open>Memory\<close>

lemma resize_memory:
  assumes "hashtab_check_resize hash keycmp h (replicate (Suc k) True) = (h', m')"
  shows "nel h' = nel h \<and> (\<exists>i \<ge> k. m' = replicate i True)"
proof (cases "hsize h = grow (nel h) (hsize h)")
  case True
  then have "h' = h" "m' = replicate (Suc k) True"
    using assms unfolding hashtab_check_resize_def Let_def by auto
  then show ?thesis using le_SucI [of k k] by blast
next
  case False
  then have "nel h' = nel h" "m' = replicate k True"
    using assms unfolding hashtab_check_resize_def Let_def by auto
  then show ?thesis by blast
qed

lemma insert_memory:
  assumes "hashtab_insert hash keycmp (Some h) k d (replicate (Suc (Suc j)) True) = (rc, ho, m')"
    and "nel h \<noteq> - 1"
  shows "rc \<noteq> SEPOL_ENOMEM \<and> (\<exists>i \<ge> j. m' = replicate i True)"
proof -
  obtain h1 m1 where r: "hashtab_check_resize hash keycmp h (replicate (Suc (Suc j)) True) = (h1, m1)"
    by (cases "hashtab_check_resize hash keycmp h (replicate (Suc (Suc j)) True)")
  obtain i where i: "nel h1 = nel h" "Suc j \<le> i" "m1 = replicate i True"
    using resize_memory [OF r] by blast
  then obtain i' where i': "i = Suc i'" "j \<le> i'" by (cases i) auto
  let ?r = "insert_at keycmp k d (htable h1 ! unat (hash (hsize h1) k))"
  show ?thesis
  proof (cases ?r)
    case None
    then have "rc = SEPOL_EEXIST" "m' = m1"
      using assms r by (auto simp: hashtab_insert_def Let_def)
    with i show ?thesis using Suc_leD by auto
  next
    case (Some c)
    then have "rc = SEPOL_OK" "m' = replicate i' True"
      using assms r i i' by (auto simp: hashtab_insert_def Let_def)
    with i i' show ?thesis by auto
  qed
qed

text \<open>The element count is the number of keys of the map.\<close>

abbreviation table_holds :: "(byte list, 'd) hashtab \<Rightarrow> bool" where
  "table_holds \<equiv> hashtab_ok symhash symcmp c_string"

lemma count_dom:
  assumes "table_holds h"
  shows "unat (nel h) = card (dom (tab_map symhash h))" and "finite (dom (tab_map symhash h))"
proof -
  note e = sym.entries_correct [OF assms]
  have "card (fst ` set (concat (htable h))) = length (concat (htable h))"
    using distinct_card [OF e(1)] by (simp del: set_concat)
  then show "unat (nel h) = card (dom (tab_map symhash h))"
    using e(3) by (simp del: set_concat add: e(2) [symmetric] dom_map_of_conv_image_fst)
  show "finite (dom (tab_map symhash h))" by (simp add: e(2) [symmetric] finite_dom_map_of)
qed

lemma run_memory:
  assumes "table_holds h" and "list_all (\<lambda>x. c_string (op_key x)) ops"
    and "2 * length ops \<le> k" and "card (dom (tab_map symhash h)) + length ops < 2 ^ 32 - 1"
  shows "\<forall>out \<in> set (run_out tab_step (Some h, replicate k True) ops). fst out \<noteq> SEPOL_ENOMEM"
  using assms
proof (induction ops arbitrary: h k)
  case (Cons x ops)
  have step: ?case
    if "table_holds h1" "card (dom (tab_map symhash h1)) \<le> Suc (card (dom (tab_map symhash h)))"
      "2 * length ops \<le> i" "tab_step (Some h, replicate k True) x = (out, (Some h1, replicate i True))"
      "fst out \<noteq> SEPOL_ENOMEM" for h1 i out
    using Cons.IH [OF that(1) _ that(3)] that Cons.prems(2,4) by (simp add: run_Cons del: mealy_run.simps(2))
  show ?case
  proof (cases x)
    case (Insert key d)
    from Cons.prems(3) obtain j where j: "k = Suc (Suc j)" "2 * length ops \<le> j"
      by (cases k; cases "k - 1") auto
    obtain rc ho m' where r: "hashtab_insert symhash symcmp (Some h) key d (replicate k True) = (rc, ho, m')"
      by (cases "hashtab_insert symhash symcmp (Some h) key d (replicate k True)") auto
    have "unat (nel h) < 2 ^ 32 - 1" using Cons.prems(4) count_dom(1) [OF Cons.prems(1)] by simp
    then have full: "nel h \<noteq> - 1" by (auto simp: unsigned_minus_1_eq_mask mask_eq_exp_minus_1)
    obtain i where i: "rc \<noteq> SEPOL_ENOMEM" "j \<le> i" "m' = replicate i True"
      using insert_memory [OF r [unfolded j(1)] full] by blast
    obtain h1 where h1: "ho = Some h1" "table_holds h1"
      "tab_map symhash h1 = tab_map symhash h \<or> tab_map symhash h1 = (tab_map symhash h)(key \<mapsto> d)"
      using sym.insert_correct [OF Cons.prems(1) _ r] Cons.prems(2) Insert by auto
    have "card (dom (tab_map symhash h1)) \<le> Suc (card (dom (tab_map symhash h)))"
      using h1(3) count_dom(2) [OF Cons.prems(1)] by (auto simp: card_insert_if)
    with step [OF h1(2) this, of i "(rc, None)"] i j(2) r h1(1) Insert show ?thesis by simp
  next
    case (Remove key)
    obtain rc ho u where r: "hashtab_remove symhash symcmp (Some h) key None () = (rc, ho, u)"
      by (cases "hashtab_remove symhash symcmp (Some h) key None ()") auto
    obtain h1 where h1: "ho = Some h1" "table_holds h1" "rc \<noteq> SEPOL_ENOMEM"
      "h1 = h \<or> tab_map symhash h1 = (tab_map symhash h)(key := None)"
      using sym.remove_correct [OF Cons.prems(1) _ r] Cons.prems(2) Remove by auto
    have "card (dom (tab_map symhash h1)) \<le> Suc (card (dom (tab_map symhash h)))"
      using h1(4) count_dom(2) [OF Cons.prems(1)] by (auto simp: card_Diff1_le le_SucI)
    with step [OF h1(2) this, of k "(rc, None)"] h1 r Remove Cons.prems(3) show ?thesis by simp
  next
    case (Search key)
    with step [OF Cons.prems(1), of k "(SEPOL_OK, hashtab_search symhash symcmp (Some h) key)"] Cons.prems(3)
    show ?thesis by simp
  qed
qed simp

section \<open>Properties\<close>

text \<open>Two symbols in a table of two buckets.\<close>

definition sample_ops :: "nat tab_op list" where
  "sample_ops =
    [Insert (ascii ''user'') 1, Insert (ascii ''role'') 2, Insert (ascii ''user'') 3, Search (ascii ''role''),
     Remove (ascii ''user''), Search (ascii ''user''), Insert (ascii ''type'') 4, Insert (ascii ''bool'') 5]"

definition sample_symtab :: "nat symtab" where
  "sample_symtab = \<lparr>table = None, nprim = 9\<rparr>"

text \<open>
  C9. A symbol table made by \<open>symtab_init\<close> behaves as a finite map under every sequence of
  insertions, removals and searches with C strings as keys: each return code and each search
  result is the map's, the table is well formed after every run, and no insertion fails when
  every allocation succeeds and fewer than \<open>2 ^ 32 - 1\<close> operations are made.
\<close>

theorem symtab_runs:
  assumes "symtab_init s sz m = (0, s', m')" and "0 < sz" and "list_all (\<lambda>x. c_string (op_key x)) ops"
  shows "\<exists>h'. fst (run_state tab_step (table s', m1) ops) = Some h' \<and> table_holds h' \<and>
    explains Map.empty ops (run_out tab_step (table s', m1) ops) (tab_map symhash h') \<and>
    (m1 = replicate (2 * length ops) True \<and> length ops < 2 ^ 32 - 1 \<longrightarrow>
      (\<forall>out \<in> set (run_out tab_step (table s', m1) ops). fst out \<noteq> SEPOL_ENOMEM))"
proof -
  obtain h where create: "hashtab_create sz m = (Some h, m')" and s': "table s' = Some h"
    using assms(1) by (auto simp: symtab_init_def Let_def split: prod.splits if_splits)
  have h: "table_holds h" "tab_map symhash h = Map.empty"
    using sym.create_correct [OF create assms(2)] by simp_all
  show ?thesis
    using run_explained [OF h(1) assms(3), of m1] run_memory [OF h(1) assms(3), of "2 * length ops"]
    unfolding s' h(2) by (auto simp del: mealy_run.simps)
qed

theorem symtab_runs_witness:
  "\<exists>h'. fst (run_state tab_step (table (fst (snd (symtab_init sample_symtab 2 [True, True]))),
        replicate 16 True) sample_ops) = Some h' \<and> table_holds h' \<and>
    (\<forall>out \<in> set (run_out tab_step (table (fst (snd (symtab_init sample_symtab 2 [True, True]))),
        replicate 16 True) sample_ops). fst out \<noteq> SEPOL_ENOMEM)"
proof -
  have i: "symtab_init sample_symtab 2 [True, True] =
      (0, fst (snd (symtab_init sample_symtab 2 [True, True])), [])"
    by code_simp
  have "list_all (\<lambda>x. c_string (op_key x)) sample_ops" "length sample_ops = 8" by code_simp+
  then show ?thesis using symtab_runs [OF i, of sample_ops "replicate 16 True"] by auto
qed

text \<open>
  Growing a table changes neither the map it stands for nor its count: after
  \<open>hashtab_check_resize\<close> every search gives what it gave before, and afterwards the table has more
  buckets than elements unless doubling the size again would overflow or memory ran out.
\<close>

lemma resize_transparent:
  assumes "table_holds h" and "hashtab_check_resize symhash symcmp h m = (h', m')"
  shows "table_holds h' \<and> nel h' = nel h \<and>
    (\<forall>k. c_string k \<longrightarrow> hashtab_search symhash symcmp (Some h') k = hashtab_search symhash symcmp (Some h) k) \<and>
    (nel h < hsize h' \<or> hsize h' * 2 = 0 \<or> \<not> fst (malloc m))"
proof -
  have r: "table_holds h'" "tab_map symhash h' = tab_map symhash h" "nel h' = nel h"
    using sym.resize_correct [OF assms] by simp_all
  have "hsize h' = grow (nel h) (hsize h) \<or> \<not> fst (malloc m)"
    using assms(2) by (auto simp: hashtab_check_resize_def Let_def split: if_splits prod.splits bool.splits)
  with r sym.grow_limit [of "nel h" "hsize h"] sym.search_correct [OF assms(1)] sym.search_correct [OF r(1)]
  show ?thesis by auto
qed

definition sample_table :: "(byte list, nat) hashtab" where
  "sample_table =
    \<lparr>htable = [[(ascii ''role'', 2), (ascii ''user'', 1)]], hsize = 1, nel = 2\<rparr>"

lemma sample_table_holds: "table_holds sample_table"
  by (simp add: hashtab_ok_def table_ok_def chain_sorted_def sample_table_def symhash_def symcmp_def
      c_string_def ascii_def)

text \<open>
  \<open>hashtab_map\<close> hands every entry of the table to the callback, each exactly once, in one
  order that does not depend on the callback, until the callback returns a code other than zero.
\<close>

lemma map_visits_once:
  assumes "table_holds h"
  shows "\<exists>es. distinct (map fst es) \<and> map_of es = tab_map symhash h \<and> length es = unat (nel h) \<and>
    (\<forall>f args. hashtab_map (Some h) f args = map_chain f es args) \<and>
    (\<forall>f args. (\<forall>k d s. fst (f k d s) = 0) \<longrightarrow>
      hashtab_map (Some h) f args = (SEPOL_OK, fold (\<lambda>(k, d) s. snd (f k d s)) es args))"
  using sym.entries_correct [OF assms]
  by (intro exI [of _ "concat (htable h)"]) (simp add: hashtab_map_def map_chains_concat map_chain_fold)

end
