(* ===== verification/Avtab.thy ===== *)
theory Avtab
  imports Alloc Policy_File "HOL-Library.Multiset"
begin

text \<open>
  The access vector table of libsepol (\<open>avtab.c\<close>, \<open>avtab.h\<close>): the type enforcement rules of a
  policy, hashed by source type, target type and class. A chain is the list of its nodes, an
  unallocated table is \<open>None\<close>. Nodes keep key and datum; the parser's and the writer's scratch
  fields are always zero here.
\<close>

section \<open>Rules\<close>

abbreviation (input) AVTAB_ALLOWED :: u16 where "AVTAB_ALLOWED \<equiv> 0x0001"
abbreviation (input) AVTAB_AUDITALLOW :: u16 where "AVTAB_AUDITALLOW \<equiv> 0x0002"
abbreviation (input) AVTAB_AUDITDENY :: u16 where "AVTAB_AUDITDENY \<equiv> 0x0004"
abbreviation (input) AVTAB_AV :: u16 where
  "AVTAB_AV \<equiv> AVTAB_ALLOWED OR AVTAB_AUDITALLOW OR AVTAB_AUDITDENY"
abbreviation (input) AVTAB_TRANSITION :: u16 where "AVTAB_TRANSITION \<equiv> 0x0010"
abbreviation (input) AVTAB_MEMBER :: u16 where "AVTAB_MEMBER \<equiv> 0x0020"
abbreviation (input) AVTAB_CHANGE :: u16 where "AVTAB_CHANGE \<equiv> 0x0040"
abbreviation (input) AVTAB_TYPE :: u16 where
  "AVTAB_TYPE \<equiv> AVTAB_TRANSITION OR AVTAB_MEMBER OR AVTAB_CHANGE"
abbreviation (input) AVTAB_XPERMS_ALLOWED :: u16 where "AVTAB_XPERMS_ALLOWED \<equiv> 0x0100"
abbreviation (input) AVTAB_XPERMS_AUDITALLOW :: u16 where "AVTAB_XPERMS_AUDITALLOW \<equiv> 0x0200"
abbreviation (input) AVTAB_XPERMS_DONTAUDIT :: u16 where "AVTAB_XPERMS_DONTAUDIT \<equiv> 0x0400"
abbreviation (input) AVTAB_XPERMS :: u16 where
  "AVTAB_XPERMS \<equiv> AVTAB_XPERMS_ALLOWED OR AVTAB_XPERMS_AUDITALLOW OR AVTAB_XPERMS_DONTAUDIT"
abbreviation (input) AVTAB_ENABLED_OLD :: u32 where "AVTAB_ENABLED_OLD \<equiv> 0x80000000"
abbreviation (input) AVTAB_ENABLED :: u16 where "AVTAB_ENABLED \<equiv> 0x8000"

abbreviation (input) MAX_AVTAB_HASH_BUCKETS :: u32 where "MAX_AVTAB_HASH_BUCKETS \<equiv> 0x100000"
abbreviation (input) POLICYDB_VERSION_AVTAB :: u32 where "POLICYDB_VERSION_AVTAB \<equiv> 20"
abbreviation (input) POLICYDB_VERSION_XPERMS_IOCTL :: u32 where "POLICYDB_VERSION_XPERMS_IOCTL \<equiv> 30"

abbreviation (input) AV_EEXIST :: int where "AV_EEXIST \<equiv> - 17"
abbreviation (input) AV_ENOMEM :: int where "AV_ENOMEM \<equiv> - 12"

record avtab_key =
  source_type :: u16
  target_type :: u16
  target_class :: u16
  specified :: u16

record avtab_extended_perms =
  xspecified :: byte
  driver :: byte
  perms :: "u32 list"

record avtab_datum =
  av_data :: u32
  xperms :: "avtab_extended_perms option"

record avtab_node =
  key :: avtab_key
  datum :: avtab_datum

record avtab =
  htable :: "avtab_node list list option"
  nel :: u32
  nslot :: u32
  tmask :: u32

section \<open>Hashing\<close>

definition avtab_mix :: "u32 \<Rightarrow> u32 \<Rightarrow> u32" where
  "avtab_mix hash input =
    (let v = input * 0xcc9e2d51;
         v = push_bit 15 v OR drop_bit (32 - 15) v;
         v = v * 0x1b873593;
         hash = hash XOR v;
         hash = push_bit 13 hash OR drop_bit (32 - 13) hash
     in hash * 5 + 0xe6546b64)"

definition avtab_hash :: "avtab_key \<Rightarrow> u32 \<Rightarrow> u32" where
  "avtab_hash keyp msk =
    (let hash = 0;
         hash = avtab_mix hash (ucast (target_class keyp));
         hash = avtab_mix hash (ucast (target_type keyp));
         hash = avtab_mix hash (ucast (source_type keyp));
         hash = hash XOR drop_bit 16 hash;
         hash = hash * 0x85ebca6b;
         hash = hash XOR drop_bit 13 hash;
         hash = hash * 0xc2b2ae35;
         hash = hash XOR drop_bit 16 hash
     in hash AND msk)"

section \<open>Insertion\<close>

text \<open>The mask of a lookup: the specifier without the two enabled flags, cut to 16 bits.\<close>

definition lookup_spec :: "avtab_key \<Rightarrow> u16" where
  "lookup_spec k = ucast ((ucast (specified k) :: u32) AND NOT (ucast AVTAB_ENABLED OR AVTAB_ENABLED_OLD))"

definition same_rule :: "avtab_key \<Rightarrow> avtab_key \<Rightarrow> bool" where
  "same_rule k c \<longleftrightarrow>
    source_type k = source_type c \<and> target_type k = target_type c \<and> target_class k = target_class c"

text \<open>The three tests that end a walk along a sorted chain.\<close>

definition walk_ends :: "avtab_key \<Rightarrow> avtab_key \<Rightarrow> bool" where
  "walk_ends k c \<longleftrightarrow>
    source_type k < source_type c \<or>
    source_type k = source_type c \<and> target_type k < target_type c \<or>
    source_type k = source_type c \<and> target_type k = target_type c \<and> target_class k < target_class c"

text \<open>\<open>avtab_insert_node\<close>: the node, or \<open>None\<close> when memory runs out.\<close>

definition new_node :: "avtab_key \<Rightarrow> avtab_datum \<Rightarrow> alloc \<Rightarrow> avtab_node option \<times> alloc" where
  "new_node k d m =
    (case malloc m of
       (False, m) \<Rightarrow> (None, m)
     | (True, m) \<Rightarrow>
        if specified k AND AVTAB_XPERMS \<noteq> 0 then
          (case malloc m of
             (False, m) \<Rightarrow> (None, m)
           | (True, m) \<Rightarrow>
              let x = (case xperms d of
                         Some x \<Rightarrow> x
                       | None \<Rightarrow> \<lparr>xspecified = 0, driver = 0, perms = replicate 8 0\<rparr>)
              in (Some \<lparr>key = k, datum = \<lparr>av_data = av_data d, xperms = Some x\<rparr>\<rparr>, m))
        else (Some \<lparr>key = k, datum = d\<rparr>, m))"

definition avtab_insert_node ::
    "avtab \<Rightarrow> avtab_node list list \<Rightarrow> nat \<Rightarrow> nat \<Rightarrow> avtab_key \<Rightarrow> avtab_datum \<Rightarrow> alloc \<Rightarrow>
     avtab_node option \<times> avtab \<times> alloc" where
  "avtab_insert_node h t hvalue prev k d m =
    (case new_node k d m of
       (None, m) \<Rightarrow> (None, h, m)
     | (Some n, m) \<Rightarrow>
        (Some n,
         h\<lparr>htable := Some (t[hvalue := take prev (t ! hvalue) @ n # drop prev (t ! hvalue)]),
           nel := nel h + 1\<rparr>, m))"

text \<open>The number of nodes before the new one; \<open>None\<close> when the rule exists.\<close>

fun insert_pos :: "avtab_key \<Rightarrow> avtab_node list \<Rightarrow> nat option" where
  "insert_pos k [] = Some 0"
| "insert_pos k (cur # c) =
    (if same_rule k (key cur) \<and> lookup_spec k AND specified (key cur) \<noteq> 0 then
       (if lookup_spec k AND AVTAB_XPERMS \<noteq> 0 then Some 0 else None)
     else if walk_ends k (key cur) then Some 0
     else map_option Suc (insert_pos k c))"

definition avtab_insert :: "avtab \<Rightarrow> avtab_key \<Rightarrow> avtab_datum \<Rightarrow> alloc \<Rightarrow> int \<times> avtab \<times> alloc" where
  "avtab_insert h k d m =
    (case htable h of
       None \<Rightarrow> (AV_ENOMEM, h, m)
     | Some t \<Rightarrow>
        let hvalue = unat (avtab_hash k (tmask h)) in
        (case insert_pos k (t ! hvalue) of
           None \<Rightarrow> (AV_EEXIST, h, m)
         | Some prev \<Rightarrow>
            (case avtab_insert_node h t hvalue prev k d m of
               (None, h, m) \<Rightarrow> (AV_ENOMEM, h, m)
             | (Some n, h, m) \<Rightarrow> (0, h, m))))"

fun nonunique_pos :: "avtab_key \<Rightarrow> avtab_node list \<Rightarrow> nat" where
  "nonunique_pos k [] = 0"
| "nonunique_pos k (cur # c) =
    (if same_rule k (key cur) \<and> lookup_spec k AND specified (key cur) \<noteq> 0 then 0
     else if walk_ends k (key cur) then 0
     else Suc (nonunique_pos k c))"

definition avtab_insert_nonunique ::
    "avtab \<Rightarrow> avtab_key \<Rightarrow> avtab_datum \<Rightarrow> alloc \<Rightarrow> avtab_node option \<times> avtab \<times> alloc" where
  "avtab_insert_nonunique h k d m =
    (case htable h of
       None \<Rightarrow> (None, h, m)
     | Some t \<Rightarrow>
        let hvalue = unat (avtab_hash k (tmask h)) in
        avtab_insert_node h t hvalue (nonunique_pos k (t ! hvalue)) k d m)"

section \<open>Search\<close>

text \<open>A pointer to a node is the rest of its chain from that node on; the null pointer is empty.\<close>

fun search_from :: "avtab_key \<Rightarrow> u16 \<Rightarrow> avtab_node list \<Rightarrow> avtab_node list" where
  "search_from k spec [] = []"
| "search_from k spec (cur # c) =
    (if same_rule k (key cur) \<and> spec AND specified (key cur) \<noteq> 0 then cur # c
     else if walk_ends k (key cur) then []
     else search_from k spec c)"

definition avtab_search_node :: "avtab \<Rightarrow> avtab_key \<Rightarrow> avtab_node list" where
  "avtab_search_node h k =
    (case htable h of
       None \<Rightarrow> []
     | Some t \<Rightarrow> search_from k (lookup_spec k) (t ! unat (avtab_hash k (tmask h))))"

definition avtab_search :: "avtab \<Rightarrow> avtab_key \<Rightarrow> avtab_datum option" where
  "avtab_search h k =
    (case htable h of
       None \<Rightarrow> None
     | Some t \<Rightarrow>
        (case search_from k (lookup_spec k) (t ! unat (avtab_hash k (tmask h))) of
           [] \<Rightarrow> None
         | n # _ \<Rightarrow> Some (datum n)))"

definition avtab_search_node_next :: "avtab_node list \<Rightarrow> u32 \<Rightarrow> avtab_node list" where
  "avtab_search_node_next p spec =
    (case p of
       [] \<Rightarrow> []
     | n # c \<Rightarrow>
        search_from (key n) (ucast (spec AND NOT (ucast AVTAB_ENABLED OR AVTAB_ENABLED_OLD))) c)"

section \<open>Life cycle\<close>

definition avtab_destroy :: "avtab \<Rightarrow> avtab" where
  "avtab_destroy h =
    (case htable h of None \<Rightarrow> h | Some t \<Rightarrow> h\<lparr>htable := None, nslot := 0, tmask := 0\<rparr>)"

definition avtab_init :: "avtab \<Rightarrow> int \<times> avtab" where
  "avtab_init h = (0, h\<lparr>htable := None, nel := 0\<rparr>)"

text \<open>The bit length of the number of rules.\<close>

function shift_count :: "u32 \<Rightarrow> nat \<Rightarrow> nat" where
  "shift_count work shift = (if work \<noteq> 0 then shift_count (drop_bit 1 work) (Suc shift) else shift)"
  by pat_completeness auto
termination
proof (relation "measure (\<lambda>(w, _). unat w)")
  fix w :: u32 and s :: nat
  assume "w \<noteq> 0"
  then have "0 < unat w" by (simp add: unat_gt_0)
  moreover have "unat (drop_bit 1 w) = unat w div 2" by (simp add: drop_bit_Suc unat_div)
  ultimately show "((drop_bit 1 w, Suc s), w, s) \<in> measure (\<lambda>(w, _). unat w)" by simp
qed simp

declare shift_count.simps [simp del]

definition avtab_alloc :: "avtab \<Rightarrow> u32 \<Rightarrow> alloc \<Rightarrow> int \<times> avtab \<times> alloc" where
  "avtab_alloc h nrules m =
    (if nrules = 0 then (0, h\<lparr>nel := 0, nslot := 0, tmask := 0\<rparr>, m)
     else
       let shift = shift_count nrules 0;
           shift = (if 2 < shift then shift - 2 else shift);
           ns = push_bit shift 1;
           ns = (if MAX_AVTAB_HASH_BUCKETS < ns then MAX_AVTAB_HASH_BUCKETS else ns)
       in case malloc m of
            (False, m) \<Rightarrow> (- 1, h\<lparr>htable := None\<rparr>, m)
          | (True, m) \<Rightarrow>
             (0, h\<lparr>htable := Some (replicate (unat ns) []), nel := 0, nslot := ns, tmask := ns - 1\<rparr>, m))"

fun av_map_nodes :: "(avtab_key \<Rightarrow> avtab_datum \<Rightarrow> 's \<Rightarrow> int \<times> 's) \<Rightarrow> avtab_node list \<Rightarrow> 's \<Rightarrow> int \<times> 's" where
  "av_map_nodes f [] args = (0, args)"
| "av_map_nodes f (n # c) args =
    (case f (key n) (datum n) args of
       (ret, args) \<Rightarrow> if ret \<noteq> 0 then (ret, args) else av_map_nodes f c args)"

fun av_map_slots :: "(avtab_key \<Rightarrow> avtab_datum \<Rightarrow> 's \<Rightarrow> int \<times> 's) \<Rightarrow> avtab_node list list \<Rightarrow> 's \<Rightarrow> int \<times> 's" where
  "av_map_slots f [] args = (0, args)"
| "av_map_slots f (c # cs) args =
    (case av_map_nodes f c args of
       (ret, args) \<Rightarrow> if ret \<noteq> 0 then (ret, args) else av_map_slots f cs args)"

text \<open>\<open>avtab_map\<close> visits the first \<open>nslot\<close> chains.\<close>

definition avtab_map :: "avtab \<Rightarrow> (avtab_key \<Rightarrow> avtab_datum \<Rightarrow> 's \<Rightarrow> int \<times> 's) \<Rightarrow> 's \<Rightarrow> int \<times> 's" where
  "avtab_map h f args =
    (case htable h of
       None \<Rightarrow> (0, args)
     | Some t \<Rightarrow> av_map_slots f (take (unat (nslot h)) t) args)"

section \<open>Reading\<close>

definition spec_order :: "u16 list" where
  "spec_order =
    [AVTAB_ALLOWED, AVTAB_AUDITDENY, AVTAB_AUDITALLOW, AVTAB_TRANSITION, AVTAB_CHANGE, AVTAB_MEMBER,
     AVTAB_XPERMS_ALLOWED, AVTAB_XPERMS_AUDITALLOW, AVTAB_XPERMS_DONTAUDIT]"

text \<open>
  \<open>insertf\<close> is the callback that stores a rule. \<open>words\<close> are the little-endian numbers of a buffer.
\<close>

type_synonym insertf = "avtab \<Rightarrow> avtab_key \<Rightarrow> avtab_datum \<Rightarrow> alloc \<Rightarrow> int \<times> avtab \<times> alloc"

definition word32 :: "byte list \<Rightarrow> nat \<Rightarrow> u32" where
  "word32 buf i = le32_word (take 4 (drop (4 * i) buf))"

definition word16 :: "byte list \<Rightarrow> nat \<Rightarrow> u16" where
  "word16 buf i = le16_word (take 2 (drop (2 * i) buf))"

text \<open>
  The loop over the specifiers of an entry in the old format. Its result is the code, the next
  index into the buffer, the table and the allocations left; the code is zero while it goes on.
\<close>

fun read_specs ::
    "insertf \<Rightarrow> byte list \<Rightarrow> nat \<Rightarrow> u32 \<Rightarrow> u16 \<Rightarrow> avtab_key \<Rightarrow> u16 list \<Rightarrow> nat \<Rightarrow> avtab \<Rightarrow> alloc \<Rightarrow>
     int \<times> nat \<times> avtab \<times> alloc" where
  "read_specs insertf buf items2 vl enabled k [] items a m = (0, items, a, m)"
| "read_specs insertf buf items2 vl enabled k (s # ss) items a m =
    (if vl AND ucast s \<noteq> 0 then
       (if items2 \<le> items then (- 1, items, a, m)
        else case insertf a (k\<lparr>specified := s OR enabled\<rparr>) \<lparr>av_data = word32 buf items, xperms = None\<rparr> m of
          (rc, a, m) \<Rightarrow>
            if rc \<noteq> 0 then (rc, Suc items, a, m)
            else read_specs insertf buf items2 vl enabled k ss (Suc items) a m)
     else read_specs insertf buf items2 vl enabled k ss items a m)"

definition avtab_read_item_old ::
    "insertf \<Rightarrow> policy_file \<Rightarrow> avtab \<Rightarrow> alloc \<Rightarrow> int \<times> policy_file \<times> avtab \<times> alloc" where
  "avtab_read_item_old insertf fp a m =
    (case next_entry fp 4 of
       (None, fp) \<Rightarrow> (- 1, fp, a, m)
     | (Some buf, fp) \<Rightarrow>
        let items2 = unat (le32_word buf) in
        if items2 < 5 \<or> 8 < items2 then (- 1, fp, a, m)
        else case next_entry fp (4 * items2) of
          (None, fp) \<Rightarrow> (- 1, fp, a, m)
        | (Some buf, fp) \<Rightarrow>
           let k = \<lparr>source_type = ucast (word32 buf 0), target_type = ucast (word32 buf 1),
                    target_class = ucast (word32 buf 2), specified = 0\<rparr>;
               vl = word32 buf 3;
               enabled = (if vl AND AVTAB_ENABLED_OLD \<noteq> 0 then AVTAB_ENABLED else 0)
           in if ucast (source_type k) \<noteq> word32 buf 0 then (- 1, fp, a, m)
              else if ucast (target_type k) \<noteq> word32 buf 1 then (- 1, fp, a, m)
              else if ucast (target_class k) \<noteq> word32 buf 2 then (- 1, fp, a, m)
              else if vl AND ucast (AVTAB_AV OR AVTAB_TYPE) = 0 then (- 1, fp, a, m)
              else if vl AND ucast AVTAB_AV \<noteq> 0 \<and> vl AND ucast AVTAB_TYPE \<noteq> 0 then (- 1, fp, a, m)
              else case read_specs insertf buf items2 vl enabled k spec_order 4 a m of
                (rc, items, a, m) \<Rightarrow>
                  if rc \<noteq> 0 then (rc, fp, a, m)
                  else if items \<noteq> items2 then (- 1, fp, a, m)
                  else (0, fp, a, m))"

definition popcount16 :: "u16 \<Rightarrow> nat" where
  "popcount16 w = length (filter (bit w) [0..<16])"

definition read_xperms :: "policy_file \<Rightarrow> avtab_extended_perms option \<times> policy_file" where
  "read_xperms fp =
    (case next_entry fp 1 of
       (None, fp) \<Rightarrow> (None, fp)
     | (Some b1, fp) \<Rightarrow>
        (case next_entry fp 1 of
           (None, fp) \<Rightarrow> (None, fp)
         | (Some b2, fp) \<Rightarrow>
            (case next_entry fp 32 of
               (None, fp) \<Rightarrow> (None, fp)
             | (Some buf, fp) \<Rightarrow>
                (Some \<lparr>xspecified = b1 ! 0, driver = b2 ! 0, perms = map (word32 buf) [0..<8]\<rparr>, fp))))"

definition avtab_read_item ::
    "insertf \<Rightarrow> policy_file \<Rightarrow> u32 \<Rightarrow> avtab \<Rightarrow> alloc \<Rightarrow> int \<times> policy_file \<times> avtab \<times> alloc" where
  "avtab_read_item insertf fp vers a m =
    (if vers < POLICYDB_VERSION_AVTAB then avtab_read_item_old insertf fp a m
     else case next_entry fp 8 of
       (None, fp) \<Rightarrow> (- 1, fp, a, m)
     | (Some buf, fp) \<Rightarrow>
        let k = \<lparr>source_type = word16 buf 0, target_type = word16 buf 1,
                 target_class = word16 buf 2, specified = word16 buf 3\<rparr>
        in if specified k AND NOT (AVTAB_AV OR AVTAB_TYPE OR AVTAB_XPERMS OR AVTAB_ENABLED) \<noteq> 0
           then (- 1, fp, a, m)
           else if popcount16 (specified k AND NOT AVTAB_ENABLED) \<noteq> 1 then (- 1, fp, a, m)
           else if vers < POLICYDB_VERSION_XPERMS_IOCTL \<and> specified k AND AVTAB_XPERMS \<noteq> 0
           then (- 1, fp, a, m)
           else if specified k AND AVTAB_XPERMS \<noteq> 0 then
             (case read_xperms fp of
                (None, fp) \<Rightarrow> (- 1, fp, a, m)
              | (Some x, fp) \<Rightarrow>
                 (case insertf a k \<lparr>av_data = 0, xperms = Some x\<rparr> m of (rc, a, m) \<Rightarrow> (rc, fp, a, m)))
           else
             (case next_entry fp 4 of
                (None, fp) \<Rightarrow> (- 1, fp, a, m)
              | (Some buf, fp) \<Rightarrow>
                 (case insertf a k \<lparr>av_data = le32_word buf, xperms = None\<rparr> m of
                    (rc, a, m) \<Rightarrow> (rc, fp, a, m))))"

definition avtab_insertf :: insertf where
  "avtab_insertf a k d m = avtab_insert a k d m"

fun read_items ::
    "nat \<Rightarrow> policy_file \<Rightarrow> u32 \<Rightarrow> avtab \<Rightarrow> alloc \<Rightarrow> int \<times> policy_file \<times> avtab \<times> alloc" where
  "read_items 0 fp vers a m = (0, fp, a, m)"
| "read_items (Suc i) fp vers a m =
    (case avtab_read_item avtab_insertf fp vers a m of
       (rc, fp, a, m) \<Rightarrow> if rc \<noteq> 0 then (rc, fp, a, m) else read_items i fp vers a m)"

definition avtab_read ::
    "avtab \<Rightarrow> policy_file \<Rightarrow> u32 \<Rightarrow> alloc \<Rightarrow> int \<times> avtab \<times> policy_file \<times> alloc" where
  "avtab_read a fp vers m =
    (case next_entry fp 4 of
       (None, fp) \<Rightarrow> (- 1, avtab_destroy a, fp, m)
     | (Some buf, fp) \<Rightarrow>
        let n = le32_word buf in
        if zero_or_saturated n \<or> exceeds_available_bytes fp (unat n) 12
        then (- 1, avtab_destroy a, fp, m)
        else case avtab_alloc a n m of
          (rc, a, m) \<Rightarrow>
            if rc \<noteq> 0 then (- 1, avtab_destroy a, fp, m)
            else case read_items (unat n) fp vers a m of
              (rc, fp, a, m) \<Rightarrow>
                if rc \<noteq> 0 then (- 1, avtab_destroy a, fp, m) else (0, a, fp, m))"

end
