(* ===== verification/Avtab_Inv.thy ===== *)
theory Avtab_Inv
  imports Avtab
begin

text \<open>
  Invariant of the access vector table and what its operations do to the collection of rules it
  holds: every chain is sorted by source, target and class, every rule is in the chain its hash
  names, the count is right. Insertion adds exactly one rule or reports why not, lookups find the
  first matching rule of the whole table, walking from match to match finds all of them. A table
  that was read from a policy has no two rules with the same key and a common specifier, save
  extended permissions.
\<close>

section \<open>The order of a chain\<close>

lemma walk_ends_irrefl: "same_rule a b \<Longrightarrow> \<not> walk_ends a b"
  by (auto simp: walk_ends_def same_rule_def)

lemma walk_ends_asym: "walk_ends a b \<Longrightarrow> \<not> walk_ends b a"
  by (auto simp: walk_ends_def)

lemma walk_ends_trans: "walk_ends a b \<Longrightarrow> walk_ends b c \<Longrightarrow> walk_ends a c"
  by (auto simp: walk_ends_def)

lemma walk_ends_total: "\<not> walk_ends a b \<Longrightarrow> \<not> walk_ends b a \<Longrightarrow> same_rule a b"
  by (auto simp: walk_ends_def same_rule_def not_less)

lemma same_rule_sym: "same_rule a b \<longleftrightarrow> same_rule b a"
  by (auto simp: same_rule_def)

lemma same_rule_walk:
  "same_rule a b \<Longrightarrow> walk_ends a c \<longleftrightarrow> walk_ends b c"
  "same_rule a b \<Longrightarrow> walk_ends c a \<longleftrightarrow> walk_ends c b"
  by (auto simp: walk_ends_def same_rule_def)

lemma walk_ends_le: "walk_ends k a \<Longrightarrow> \<not> walk_ends b a \<Longrightarrow> walk_ends k b"
  by (metis same_rule_walk(2) walk_ends_total walk_ends_trans)

definition matches :: "avtab_key \<Rightarrow> u16 \<Rightarrow> avtab_node \<Rightarrow> bool" where
  "matches k spec n \<longleftrightarrow> same_rule k (key n) \<and> spec AND specified (key n) \<noteq> 0"

definition chain_sorted :: "avtab_node list \<Rightarrow> bool" where
  "chain_sorted c \<longleftrightarrow> sorted_wrt (\<lambda>a b. \<not> walk_ends (key b) (key a)) c"

lemma chain_sorted_simps [simp]:
  "chain_sorted []"
  "chain_sorted (n # c) \<longleftrightarrow> (\<forall>b \<in> set c. \<not> walk_ends (key b) (key n)) \<and> chain_sorted c"
  by (simp_all add: chain_sorted_def)

lemma search_from_correct:
  "chain_sorted c \<Longrightarrow> search_from k spec c = dropWhile (\<lambda>n. \<not> matches k spec n) c"
proof (induction c)
  case (Cons n c)
  show ?case
  proof (cases "walk_ends k (key n) \<and> \<not> matches k spec n")
    case True
    have "\<not> matches k spec b" if "b \<in> set c" for b
      using that Cons.prems True walk_ends_le [of k "key n" "key b"] walk_ends_irrefl [of k "key b"]
      by (auto simp: matches_def)
    then have "dropWhile (\<lambda>n. \<not> matches k spec n) (n # c) = []"
      using True by (simp add: dropWhile_eq_Nil_conv)
    moreover have "search_from k spec (n # c) = []" using True by (auto simp: matches_def)
    ultimately show ?thesis by simp
  qed (use Cons in \<open>auto simp: matches_def\<close>)
qed simp

section \<open>Insertion into a chain\<close>

lemma insert_pos_None:
  assumes "chain_sorted c"
  shows "insert_pos k c = None \<longleftrightarrow>
    lookup_spec k AND AVTAB_XPERMS = 0 \<and> (\<exists>n \<in> set c. matches k (lookup_spec k) n)"
  using assms
proof (induction c)
  case (Cons n c)
  have "\<not> matches k (lookup_spec k) b" if "b \<in> set c" "walk_ends k (key n)" for b
    using that Cons.prems walk_ends_le [of k "key n" "key b"] walk_ends_irrefl [of k "key b"]
    by (auto simp: matches_def)
  with Cons show ?case by (auto simp: matches_def)
qed simp

definition insert_node_at :: "nat \<Rightarrow> avtab_node \<Rightarrow> avtab_node list \<Rightarrow> avtab_node list" where
  "insert_node_at p n c = take p c @ n # drop p c"

lemma insert_node_at_simps [simp]:
  "insert_node_at 0 n c = n # c"
  "insert_node_at (Suc p) n (b # c) = b # insert_node_at p n c"
  by (simp_all add: insert_node_at_def)

lemma set_insert_node_at [simp]: "set (insert_node_at p n c) = insert n (set c)"
proof -
  have "set (take p c) \<union> set (drop p c) = set c" by (metis append_take_drop_id set_append)
  then show ?thesis by (auto simp: insert_node_at_def)
qed

lemma mset_insert_node_at: "mset (insert_node_at p n c) = add_mset n (mset c)"
  unfolding insert_node_at_def
  by (metis append_take_drop_id mset.simps(2) mset_append union_mset_add_mset_right)

lemma sorted_head:
  assumes "chain_sorted (b # c)" and "walk_ends k (key b) \<or> same_rule k (key b)"
  shows "\<forall>a \<in> set (b # c). \<not> walk_ends (key a) k"
  using assms
  by (auto simp: walk_ends_asym)
    (metis same_rule_walk(2) walk_ends_asym walk_ends_irrefl walk_ends_le same_rule_sym)+

lemma insert_pos_sorted:
  assumes "chain_sorted c" and "insert_pos k c = Some p" and "key n = k"
  shows "chain_sorted (insert_node_at p n c)"
  using assms
proof (induction c arbitrary: p)
  case (Cons b c)
  consider (front) "p = 0" "walk_ends k (key b) \<or> same_rule k (key b)"
    | (later) q where "p = Suc q" "insert_pos k c = Some q" "\<not> walk_ends k (key b)"
    using Cons.prems(2) by (auto split: if_splits)
  then show ?case
  proof cases
    case front
    with sorted_head [OF Cons.prems(1), of k] Cons.prems show ?thesis by simp
  next
    case later
    with Cons show ?thesis by simp
  qed
qed simp

lemma nonunique_pos_sorted:
  assumes "chain_sorted c" and "key n = k"
  shows "chain_sorted (insert_node_at (nonunique_pos k c) n c)"
  using assms
proof (induction c)
  case (Cons b c)
  show ?case
  proof (cases "walk_ends k (key b) \<or> matches k (lookup_spec k) b")
    case True
    then have "nonunique_pos k (b # c) = 0" by (auto simp: matches_def)
    moreover have "walk_ends k (key b) \<or> same_rule k (key b)" using True by (auto simp: matches_def)
    ultimately show ?thesis using sorted_head [OF Cons.prems(1), of k] Cons.prems by simp
  next
    case False
    then have "nonunique_pos k (b # c) = Suc (nonunique_pos k c)" by (auto simp: matches_def)
    with Cons False show ?thesis by simp
  qed
qed simp

section \<open>The invariant\<close>

definition slots_ok :: "u32 \<Rightarrow> avtab_node list list \<Rightarrow> bool" where
  "slots_ok msk t \<longleftrightarrow>
    (\<forall>i < length t. chain_sorted (t ! i) \<and> (\<forall>n \<in> set (t ! i). unat (avtab_hash (key n) msk) = i))"

definition avtab_ok :: "avtab \<Rightarrow> bool" where
  "avtab_ok h \<longleftrightarrow>
    (case htable h of
       None \<Rightarrow> True
     | Some t \<Rightarrow>
        0 < nslot h \<and> length t = unat (nslot h) \<and> tmask h = nslot h - 1 \<and> slots_ok (tmask h) t \<and>
        nel h = of_nat (length (concat t)))"

definition entries :: "avtab \<Rightarrow> avtab_node list" where
  "entries h = (case htable h of None \<Rightarrow> [] | Some t \<Rightarrow> concat t)"

lemma avtab_hash_same: "same_rule a b \<Longrightarrow> avtab_hash a msk = avtab_hash b msk"
  by (simp add: avtab_hash_def same_rule_def)

lemma avtab_slot:
  assumes "avtab_ok h" and "htable h = Some t"
  shows "unat (avtab_hash k (tmask h)) < length t"
proof -
  have le: "avtab_hash k (tmask h) \<le> tmask h" by (simp add: avtab_hash_def Let_def word_and_le1)
  have "nslot h \<noteq> 0" "tmask h = nslot h - 1" "length t = unat (nslot h)"
    using assms by (auto simp: avtab_ok_def)
  moreover from this have "0 < unat (nslot h)" by (simp add: unat_gt_0)
  ultimately have "unat (tmask h) < length t" by (simp add: unat_minus_one)
  with le show ?thesis by (simp add: word_le_nat_alt)
qed

lemma filter_concat_slot:
  "i < length t \<Longrightarrow> \<forall>j < length t. j \<noteq> i \<longrightarrow> (\<forall>x \<in> set (t ! j). \<not> P x) \<Longrightarrow>
   filter P (concat t) = filter P (t ! i)"
proof (induction t arbitrary: i)
  case (Cons c t)
  show ?case
  proof (cases i)
    case 0
    have "\<not> P x" if "j < length t" "x \<in> set (t ! j)" for j x
      using Cons.prems(2) [rule_format, of "Suc j"] 0 that by simp
    then have "filter P (concat t) = []"
      by (auto simp: filter_empty_conv) (metis in_set_conv_nth)
    with 0 show ?thesis by simp
  next
    case (Suc i')
    have "filter P c = []" using Cons.prems(2) [rule_format, of 0] Suc by (auto simp: filter_empty_conv)
    moreover have "filter P (concat t) = filter P (t ! i')"
      using Cons.prems Suc by (intro Cons.IH) (auto dest: spec [of _ "Suc _"])
    ultimately show ?thesis using Suc by simp
  qed
qed simp

lemma matches_in_slot:
  assumes "avtab_ok h" and "htable h = Some t"
  shows "filter (matches k spec) (concat t) = filter (matches k spec) (t ! unat (avtab_hash k (tmask h)))"
proof (rule filter_concat_slot [OF avtab_slot [OF assms]], intro allI impI ballI)
  fix j n
  assume "j < length t" "j \<noteq> unat (avtab_hash k (tmask h))" "n \<in> set (t ! j)"
  then show "\<not> matches k spec n"
    using assms avtab_hash_same [of k "key n"] by (auto simp: avtab_ok_def slots_ok_def matches_def)
qed

section \<open>Search\<close>

lemma lookup_spec_eq: "lookup_spec k = specified k AND NOT AVTAB_ENABLED"
proof (rule bit_word_eqI)
  fix n
  assume n: "n < LENGTH(16)"
  have "list_all (\<lambda>n. bit (0x80008000 :: u32) n = bit (0x8000 :: u16) n) [0..<16]" by code_simp
  with n have "bit (0x80008000 :: u32) n = bit (0x8000 :: u16) n" by (simp add: list_all_iff)
  with n show "bit (lookup_spec k) n = bit (specified k AND NOT AVTAB_ENABLED) n"
    by (simp add: lookup_spec_def bit_simps)
qed

lemma filter_dropWhile_eq: "filter P (dropWhile (\<lambda>x. \<not> P x) c) = filter P c"
  by (induction c) auto

lemma slot_sorted:
  assumes "avtab_ok h" and "htable h = Some t"
  shows "chain_sorted (t ! unat (avtab_hash k (tmask h)))"
  using assms avtab_slot [OF assms, of k] by (simp add: avtab_ok_def slots_ok_def)

lemma filter_hd_dropWhile:
  "filter P c = (case dropWhile (\<lambda>x. \<not> P x) c of [] \<Rightarrow> [] | n # c' \<Rightarrow> n # filter P c')"
  by (induction c) auto

lemma search_finds_first:
  assumes "avtab_ok h"
  shows "avtab_search h k = map_option datum (find (matches k (lookup_spec k)) (entries h))"
proof (cases "htable h")
  case (Some t)
  let ?P = "matches k (lookup_spec k)"
  have "find ?P l = (case filter ?P l of [] \<Rightarrow> None | n # _ \<Rightarrow> Some n)" for l
    by (induction l) auto
  then have "find ?P (concat t) = find ?P (t ! unat (avtab_hash k (tmask h)))"
    using matches_in_slot [OF assms Some, of k "lookup_spec k"] by simp
  moreover have "map_option datum (find ?P c) =
      (case dropWhile (\<lambda>n. \<not> ?P n) c of [] \<Rightarrow> None | n # _ \<Rightarrow> Some (datum n))" for c
    by (induction c) auto
  ultimately show ?thesis
    using search_from_correct [OF slot_sorted [OF assms Some]] Some
    by (simp add: avtab_search_def entries_def)
qed (simp add: avtab_search_def entries_def)

text \<open>
  The loop every caller writes: start at \<open>avtab_search_node\<close>, go on with \<open>avtab_search_node_next\<close>
  and the same specifiers until the null pointer.
\<close>

lemma search_from_length: "length (search_from k spec c) \<le> length c"
  by (induction c) auto

function avtab_walk :: "avtab_node list \<Rightarrow> u32 \<Rightarrow> avtab_node list" where
  "avtab_walk [] spec = []"
| "avtab_walk (n # c) spec = n # avtab_walk (avtab_search_node_next (n # c) spec) spec"
  by pat_completeness auto
termination
  by (relation "measure (\<lambda>(p, _). length p)")
    (simp_all add: avtab_search_node_next_def less_Suc_eq_le search_from_length)

lemma dropWhile_sorted: "chain_sorted c \<Longrightarrow> chain_sorted (dropWhile P c)"
  by (induction c) auto

lemma matches_cong: "same_rule a b \<Longrightarrow> matches a spec = matches b spec"
  by (auto simp: matches_def same_rule_def fun_eq_iff)

lemma walk_correct:
  assumes "chain_sorted c"
    and "sp = ucast (spec AND NOT (ucast AVTAB_ENABLED OR AVTAB_ENABLED_OLD))"
  shows "avtab_walk (dropWhile (\<lambda>n. \<not> matches k sp n) c) spec = filter (matches k sp) c"
  using assms(1)
proof (induction c rule: length_induct)
  case (1 c)
  show ?case
  proof (cases "dropWhile (\<lambda>n. \<not> matches k sp n) c")
    case Nil
    then have "filter (matches k sp) c = []" using filter_hd_dropWhile [of "matches k sp" c] by simp
    then show ?thesis by (simp only: Nil avtab_walk.simps)
  next
    case (Cons n c')
    have len: "length c' < length c"
      using length_dropWhile_le [of "\<lambda>n. \<not> matches k sp n" c] Cons by simp
    have srt: "chain_sorted c'"
      using dropWhile_sorted [OF "1.prems", of "\<lambda>n. \<not> matches k sp n"] Cons by simp
    have "matches k sp n" using hd_dropWhile [of "\<lambda>n. \<not> matches k sp n" c] Cons by fastforce
    then have "matches (key n) sp = matches k sp"
      by (intro matches_cong) (simp add: matches_def same_rule_sym)
    then have "avtab_search_node_next (n # c') spec = dropWhile (\<lambda>n. \<not> matches k sp n) c'"
      using search_from_correct [OF srt, of "key n" sp] assms(2)
      by (simp add: avtab_search_node_next_def)
    then show ?thesis
      using "1.IH" len srt Cons filter_hd_dropWhile [of "matches k sp" c] by simp
  qed
qed

lemma walk_finds_all:
  assumes "avtab_ok h"
  shows "avtab_walk (avtab_search_node h k) (ucast (specified k)) =
    filter (matches k (lookup_spec k)) (entries h)"
proof (cases "htable h")
  case (Some t)
  show ?thesis
    using walk_correct [OF slot_sorted [OF assms Some, of k], of "lookup_spec k" "ucast (specified k)" k]
      matches_in_slot [OF assms Some, of k "lookup_spec k"] search_from_correct [OF slot_sorted [OF assms Some]]
      Some
    by (simp add: avtab_search_node_def entries_def lookup_spec_def)
qed (simp add: avtab_search_node_def entries_def)

section \<open>Insertion into the table\<close>

lemma filter_insert_node_at: "\<not> P n \<Longrightarrow> filter P (insert_node_at p n c) = filter P c"
  unfolding insert_node_at_def by (metis append_take_drop_id filter.simps(2) filter_append)

lemma filter_concat_update:
  "i < length t \<Longrightarrow> filter P c = filter P (t ! i) \<Longrightarrow> filter P (concat (t[i := c])) = filter P (concat t)"
  by (induction t arbitrary: i) (auto split: nat.split)

lemma mset_concat_update:
  "i < length t \<Longrightarrow> mset c = add_mset n (mset (t ! i)) \<Longrightarrow>
   mset (concat (t[i := c])) = add_mset n (mset (concat t))"
  by (induction t arbitrary: i) (auto split: nat.split)

lemma insert_pos_first:
  "insert_pos k c = Some p \<Longrightarrow> matches k (lookup_spec k) n \<Longrightarrow>
   filter (matches k (lookup_spec k)) (insert_node_at p n c) =
     n # filter (matches k (lookup_spec k)) c"
  by (induction c arbitrary: p) (auto simp: matches_def split: if_splits)

lemma nonunique_pos_first:
  "matches k (lookup_spec k) n \<Longrightarrow>
   filter (matches k (lookup_spec k)) (insert_node_at (nonunique_pos k c) n c) =
     n # filter (matches k (lookup_spec k)) c"
  by (induction c) (auto simp: matches_def)

text \<open>What storing the node \<open>n\<close> makes of the table \<open>h\<close>.\<close>

definition added :: "avtab \<Rightarrow> avtab_node \<Rightarrow> avtab \<Rightarrow> bool" where
  "added h n h' \<longleftrightarrow>
    avtab_ok h' \<and> htable h' \<noteq> None \<and> mset (entries h') = add_mset n (mset (entries h)) \<and>
    nel h' = nel h + 1 \<and> nslot h' = nslot h \<and>
    (\<forall>k spec. \<not> matches k spec n \<longrightarrow>
      filter (matches k spec) (entries h') = filter (matches k spec) (entries h))"

lemma slots_ok_update:
  assumes "slots_ok msk t" and "i = unat (avtab_hash (key n) msk)"
    and "chain_sorted (insert_node_at p n (t ! i))"
  shows "slots_ok msk (t[i := insert_node_at p n (t ! i)])"
  unfolding slots_ok_def
proof (intro allI impI)
  fix j
  assume j: "j < length (t[i := insert_node_at p n (t ! i)])"
  show "chain_sorted (t[i := insert_node_at p n (t ! i)] ! j) \<and>
      (\<forall>a \<in> set (t[i := insert_node_at p n (t ! i)] ! j). unat (avtab_hash (key a) msk) = j)"
    using assms j by (cases "j = i") (simp_all add: slots_ok_def)
qed

lemma insert_node_added:
  assumes "avtab_ok h" and "htable h = Some t" and "key n = k"
    and "i = unat (avtab_hash k (tmask h))" and "chain_sorted (insert_node_at p n (t ! i))"
    and "h' = h\<lparr>htable := Some (t[i := insert_node_at p n (t ! i)]), nel := nel h + 1\<rparr>"
  shows "added h n h'"
proof -
  have i: "i < length t" using avtab_slot [OF assms(1,2)] assms(4) by simp
  have mset: "mset (concat (t[i := insert_node_at p n (t ! i)])) = add_mset n (mset (concat t))"
    by (rule mset_concat_update [OF i mset_insert_node_at])
  then have len: "length (concat (t[i := insert_node_at p n (t ! i)])) = Suc (length (concat t))"
    by (metis size_add_mset size_mset)
  have "slots_ok (tmask h) (t[i := insert_node_at p n (t ! i)])"
  proof (rule slots_ok_update)
    show "slots_ok (tmask h) t" using assms(1,2) unfolding avtab_ok_def by auto
  qed (use assms in simp_all)
  then have "avtab_ok h'" using assms(1,2,6) len by (simp add: avtab_ok_def)
  then show ?thesis
    using assms mset i
    by (simp add: added_def entries_def filter_concat_update filter_insert_node_at)
qed

text \<open>The node that is stored for a rule.\<close>

definition node_for :: "avtab_key \<Rightarrow> avtab_datum \<Rightarrow> avtab_node" where
  "node_for k d =
    \<lparr>key = k,
     datum =
       (if specified k AND AVTAB_XPERMS \<noteq> 0 \<and> xperms d = None
        then d\<lparr>xperms := Some \<lparr>xspecified = 0, driver = 0, perms = replicate 8 0\<rparr>\<rparr> else d)\<rparr>"

lemma key_node_for [simp]: "key (node_for k d) = k"
  by (simp add: node_for_def)

lemma new_node_cases: "fst (new_node k d m) = None \<or> fst (new_node k d m) = Some (node_for k d)"
  by (auto simp: new_node_def node_for_def Let_def split: prod.split bool.split option.split)

lemma new_node_succeeds: "fst (new_node k d (True # True # m)) = Some (node_for k d)"
  by (auto simp: new_node_def node_for_def Let_def split: option.split)

lemma insert_node_result:
  "avtab_insert_node h t i p k d m =
    (case new_node k d m of
       (None, m) \<Rightarrow> (None, h, m)
     | (Some n, m) \<Rightarrow>
        (Some n, h\<lparr>htable := Some (t[i := insert_node_at p n (t ! i)]), nel := nel h + 1\<rparr>, m))"
  unfolding avtab_insert_node_def insert_node_at_def by (rule refl)

text \<open>The three outcomes of \<open>avtab_insert\<close>.\<close>

definition exists_rule :: "avtab \<Rightarrow> avtab_key \<Rightarrow> bool" where
  "exists_rule h k \<longleftrightarrow>
    lookup_spec k AND AVTAB_XPERMS = 0 \<and> (\<exists>n \<in> set (entries h). matches k (lookup_spec k) n)"

lemma exists_rule_slot:
  assumes "avtab_ok h" and "htable h = Some t"
  shows "exists_rule h k \<longleftrightarrow> insert_pos k (t ! unat (avtab_hash k (tmask h))) = None"
proof -
  have "(\<exists>n \<in> set l. P n) \<longleftrightarrow> filter P l \<noteq> []" for P and l :: "avtab_node list"
    by (auto simp: filter_empty_conv)
  then show ?thesis
    using matches_in_slot [OF assms, of k "lookup_spec k"] insert_pos_None [OF slot_sorted [OF assms]]
    by (simp del: set_concat add: exists_rule_def entries_def assms(2))
qed

lemma find_of_filter: "filter P l = x # l' \<Longrightarrow> find P l = Some x"
  by (induction l) (auto split: if_splits)

lemma insert_outcome:
  assumes ok: "avtab_ok h" and res: "avtab_insert h k d m = (rc, h', m')"
  shows "rc = 0 \<and> \<not> exists_rule h k \<and> added h (node_for k d) h' \<and>
      (lookup_spec k \<noteq> 0 \<longrightarrow> avtab_search h' k = Some (datum (node_for k d))) \<or>
    rc = AV_EEXIST \<and> exists_rule h k \<and> h' = h \<or>
    rc = AV_ENOMEM \<and> \<not> exists_rule h k \<and> h' = h \<and> (htable h = None \<or> fst (new_node k d m) = None)"
proof (cases "htable h")
  case None
  then show ?thesis using res by (auto simp: avtab_insert_def exists_rule_def entries_def)
next
  case (Some t)
  let ?i = "unat (avtab_hash k (tmask h))"
  show ?thesis
  proof (cases "insert_pos k (t ! ?i)")
    case None
    then show ?thesis
      using res Some exists_rule_slot [OF ok Some, of k] by (simp add: avtab_insert_def)
  next
    case p: (Some p)
    have fresh: "\<not> exists_rule h k" using exists_rule_slot [OF ok Some, of k] p by simp
    show ?thesis
    proof (cases "fst (new_node k d m)")
      case None
      then obtain m1 where "new_node k d m = (None, m1)" by (metis prod.collapse)
      then show ?thesis using res Some p fresh by (simp add: avtab_insert_def insert_node_result Let_def)
    next
      case n: (Some n)
      then have nf: "n = node_for k d" using new_node_cases [of k d m] by simp
      obtain m1 where "new_node k d m = (Some n, m1)" using n by (metis prod.collapse)
      then have rc: "rc = 0"
        and h': "h' = h\<lparr>htable := Some (t[?i := insert_node_at p n (t ! ?i)]), nel := nel h + 1\<rparr>"
        using res Some p by (auto simp: avtab_insert_def insert_node_result Let_def)
      have add: "added h n h'"
        using nf by (intro insert_node_added [OF ok Some _ refl _ h'])
          (simp_all add: insert_pos_sorted [OF slot_sorted [OF ok Some] p])
      have "avtab_search h' k = Some (datum n)" if "lookup_spec k \<noteq> 0"
      proof -
        have "matches k (lookup_spec k) n"
          using that nf by (simp add: matches_def same_rule_def lookup_spec_eq and.assoc [symmetric])
            (metis and.assoc and.commute and.idem)
        then have "filter (matches k (lookup_spec k)) (t[?i := insert_node_at p n (t ! ?i)] ! ?i) =
            n # filter (matches k (lookup_spec k)) (t ! ?i)"
          using insert_pos_first [OF p] avtab_slot [OF ok Some, of k] by simp
        moreover have "avtab_ok h'" using add by (simp add: added_def)
        ultimately have "filter (matches k (lookup_spec k)) (entries h') =
            n # filter (matches k (lookup_spec k)) (t ! ?i)"
          using matches_in_slot [of h' _ k "lookup_spec k"] h' by (simp add: entries_def)
        then have "find (matches k (lookup_spec k)) (entries h') = Some n" by (rule find_of_filter)
        then show ?thesis using search_finds_first [of h' k] \<open>avtab_ok h'\<close> by simp
      qed
      with rc fresh add nf show ?thesis by simp
    qed
  qed
qed

lemma insert_nonunique_outcome:
  assumes ok: "avtab_ok h" and res: "avtab_insert_nonunique h k d m = (r, h', m')"
  shows "r = Some (node_for k d) \<and> added h (node_for k d) h' \<or>
    r = None \<and> h' = h \<and> (htable h = None \<or> fst (new_node k d m) = None)"
proof (cases "htable h")
  case None
  then show ?thesis using res by (simp add: avtab_insert_nonunique_def)
next
  case (Some t)
  let ?i = "unat (avtab_hash k (tmask h))"
  let ?p = "nonunique_pos k (t ! ?i)"
  show ?thesis
  proof (cases "fst (new_node k d m)")
    case None
    then obtain m1 where "new_node k d m = (None, m1)" by (metis prod.collapse)
    then show ?thesis using res Some by (simp add: avtab_insert_nonunique_def insert_node_result Let_def)
  next
    case n: (Some n)
    then have nf: "n = node_for k d" using new_node_cases [of k d m] by simp
    obtain m1 where "new_node k d m = (Some n, m1)" using n by (metis prod.collapse)
    then have r: "r = Some n"
      and h': "h' = h\<lparr>htable := Some (t[?i := insert_node_at ?p n (t ! ?i)]), nel := nel h + 1\<rparr>"
      using res Some by (auto simp: avtab_insert_nonunique_def insert_node_result Let_def)
    have "added h n h'"
      using nf by (intro insert_node_added [OF ok Some _ refl _ h'])
        (simp_all add: nonunique_pos_sorted [OF slot_sorted [OF ok Some]])
    with r nf show ?thesis by simp
  qed
qed

section \<open>Allocation\<close>

lemma shift_count_bounds:
  "s \<le> shift_count w s \<and> unat w < 2 ^ (shift_count w s - s) \<and>
   (unat w < 2 ^ n \<longrightarrow> shift_count w s \<le> s + n)"
proof (induction w s arbitrary: n rule: shift_count.induct)
  case (1 w s)
  show ?case
  proof (cases "w = 0")
    case True
    then have "shift_count w s = s" by (subst shift_count.simps) simp
    with True show ?thesis by simp
  next
    case False
    let ?r = "shift_count (drop_bit 1 w) (Suc s)"
    have step: "shift_count w s = ?r" using False by (subst shift_count.simps) simp
    have half: "unat (drop_bit 1 w) = unat w div 2" by (simp add: drop_bit_Suc unat_div)
    note IH = "1.IH" [OF False, of 0] "1.IH" [OF False, of "n - 1"]
    have low: "Suc s \<le> ?r" "unat w div 2 < 2 ^ (?r - Suc s)" using IH(1) half by simp_all
    have "?r - s = Suc (?r - Suc s)" using low(1) by simp
    then have "unat w < 2 ^ (?r - s)" using low(2) by (simp add: less_mult_imp_div_less)
    moreover have "?r \<le> s + n" if "unat w < 2 ^ n"
    proof (cases n)
      case 0
      with that False show ?thesis by (simp add: unat_eq_0)
    next
      case (Suc n')
      with that have "unat w div 2 < 2 ^ n'" by simp
      with IH(2) half Suc show ?thesis by simp
    qed
    ultimately show ?thesis using step low(1) by simp
  qed
qed

definition table_bits :: "u32 \<Rightarrow> nat" where
  "table_bits nrules =
    (let s = shift_count nrules 0; s = (if 2 < s then s - 2 else s) in if 20 < s then 20 else s)"

lemma table_bits_le: "table_bits n \<le> 20"
  by (simp add: table_bits_def Let_def)

lemma power2_unat: "j < 32 \<Longrightarrow> unat (2 ^ j :: u32) = 2 ^ j"
proof -
  assume "j < 32"
  then have "(2 :: nat) ^ j < 2 ^ 32" by (simp only: power_strict_increasing_iff)
  moreover have "unat (2 ^ j :: u32) = unat (of_nat (2 ^ j) :: u32)" by simp
  ultimately show ?thesis by (simp only: unat_of_nat) simp
qed

lemma power2_less: "j < 32 \<Longrightarrow> i < 32 \<Longrightarrow> (2 ^ i < (2 ^ j :: u32)) \<longleftrightarrow> i < j"
  by (simp add: word_less_nat_alt power2_unat)

lemma avtab_alloc_slots:
  assumes "nrules \<noteq> 0"
  shows "avtab_alloc h nrules (True # m) =
    (0, h\<lparr>htable := Some (replicate (2 ^ table_bits nrules) []), nel := 0, nslot := 2 ^ table_bits nrules,
          tmask := 2 ^ table_bits nrules - 1\<rparr>, m)"
proof -
  let ?s = "shift_count nrules 0"
  define s where "s = (if 2 < ?s then ?s - 2 else ?s)"
  have "?s \<le> 32" using shift_count_bounds [of 0 nrules 32] unat_lt_u32 [of nrules] by simp
  then have s32: "s < 32" by (auto simp: s_def)
  have ns: "(if 0x100000 < (push_bit s 1 :: u32) then 0x100000 else push_bit s 1) = (2 ^ table_bits nrules :: u32)"
    using power2_less [of s 20] s32 by (simp add: table_bits_def Let_def s_def push_bit_eq_mult)
  have "unat (2 ^ table_bits nrules :: u32) = 2 ^ table_bits nrules"
    using table_bits_le [of nrules] by (simp add: power2_unat)
  then show ?thesis using assms unfolding avtab_alloc_def Let_def s_def [symmetric] ns by simp
qed

lemma alloc_load:
  "unat nrules < 4 * 2 ^ table_bits nrules \<or> table_bits nrules = 20"
proof -
  let ?s = "shift_count nrules 0"
  have lt: "unat nrules < 2 ^ ?s" using shift_count_bounds [of 0 nrules] by simp
  consider "22 < ?s" | "2 < ?s" "?s \<le> 22" | "?s \<le> 2" by linarith
  then show ?thesis
  proof cases
    case 1
    then have "20 < ?s - 2" by linarith
    with 1 show ?thesis by (simp add: table_bits_def Let_def)
  next
    case 2
    then obtain r where r: "?s = 2 + r" using le_Suc_ex less_imp_le by metis
    then have "(2 :: nat) ^ ?s = 4 * 2 ^ (?s - 2)" by (simp add: power_add)
    with 2 lt show ?thesis by (simp add: table_bits_def Let_def)
  next
    case 3
    with lt show ?thesis by (simp add: table_bits_def Let_def)
  qed
qed

lemma concat_replicate_Nil: "concat (replicate n []) = []"
  by (induction n) auto

lemma avtab_alloc_ok:
  assumes "avtab_alloc h nrules m = (0, h', m')" and "nrules \<noteq> 0"
  shows "avtab_ok h' \<and> entries h' = [] \<and> htable h' \<noteq> None"
proof -
  have pos: "(0 :: u32) < 2 ^ table_bits nrules" "unat (2 ^ table_bits nrules :: u32) = 2 ^ table_bits nrules"
    using table_bits_le [of nrules] by (simp_all add: power2_unat word_less_nat_alt)
  obtain m1 where "m = True # m1"
    using assms by (cases m; cases "hd m") (auto simp: avtab_alloc_def Let_def)
  with assms avtab_alloc_slots [OF assms(2), of h m1] pos show ?thesis
    by (auto simp: avtab_ok_def entries_def slots_ok_def concat_replicate_Nil)
qed

section \<open>No rule twice\<close>

definition clash :: "avtab_node \<Rightarrow> avtab_node \<Rightarrow> bool" where
  "clash a b \<longleftrightarrow>
    same_rule (key a) (key b) \<and> specified (key a) AND specified (key b) AND NOT AVTAB_ENABLED \<noteq> 0 \<and>
    specified (key a) AND AVTAB_XPERMS = 0 \<and> specified (key b) AND AVTAB_XPERMS = 0"

definition no_clash :: "avtab_node multiset \<Rightarrow> bool" where
  "no_clash M \<longleftrightarrow> (\<forall>a \<in># M. \<forall>b \<in># M - {#a#}. \<not> clash a b)"

lemma clash_sym: "clash a b \<longleftrightarrow> clash b a"
  by (auto simp: clash_def same_rule_sym and.commute [of "specified (key a)" "specified (key b)"]
      and.assoc [symmetric])

lemma no_clash_add:
  assumes "no_clash M" and "\<forall>b \<in># M. \<not> clash n b"
  shows "no_clash (add_mset n M)"
  unfolding no_clash_def
proof (intro ballI)
  fix a b
  assume a: "a \<in># add_mset n M" and b: "b \<in># add_mset n M - {#a#}"
  show "\<not> clash a b"
  proof (cases "a = n")
    case True
    with b assms(2) show ?thesis by simp
  next
    case False
    with a b have "a \<in># M" "b = n \<or> b \<in># M - {#a#}" by auto
    with assms clash_sym [of a b] show ?thesis by (auto simp: no_clash_def)
  qed
qed

lemma xperms_unmasked:
  "(w :: u16) AND AVTAB_XPERMS = (w AND NOT AVTAB_ENABLED) AND AVTAB_XPERMS"
proof -
  have "(AVTAB_XPERMS :: u16) = NOT AVTAB_ENABLED AND AVTAB_XPERMS" by simp
  then show ?thesis by (metis and.assoc)
qed

lemma clash_exists:
  assumes "clash n b" and "b \<in> set (entries h)" and "key n = k"
  shows "exists_rule h k"
proof -
  have "specified k AND specified (key b) AND NOT AVTAB_ENABLED \<noteq> 0" "specified k AND AVTAB_XPERMS = 0"
    "same_rule k (key b)"
    using assms by (auto simp: clash_def)
  then have "matches k (lookup_spec k) b" "lookup_spec k AND AVTAB_XPERMS = 0"
    using xperms_unmasked [of "specified k"]
    by (simp_all add: matches_def lookup_spec_eq and.assoc and.commute and.left_commute)
  with assms(2) show ?thesis by (auto simp: exists_rule_def)
qed

text \<open>The invariant of a table that holds a policy's rules.\<close>

definition policy_table :: "avtab \<Rightarrow> bool" where
  "policy_table h \<longleftrightarrow> avtab_ok h \<and> htable h \<noteq> None \<and> no_clash (mset (entries h))"

lemma insert_policy_table:
  assumes "policy_table h" and "avtab_insert h k d m = (rc, h', m')"
  shows "policy_table h'"
proof -
  have ok: "avtab_ok h" using assms(1) by (simp add: policy_table_def)
  consider "h' = h" | "\<not> exists_rule h k" "added h (node_for k d) h'"
    using insert_outcome [OF ok assms(2)] by blast
  then show ?thesis
  proof cases
    case 2
    have "no_clash (add_mset (node_for k d) (mset (entries h)))"
      using clash_exists [of "node_for k d" _ h k] assms(1) 2(1)
      by (intro no_clash_add) (auto simp: policy_table_def)
    with 2 show ?thesis by (simp add: policy_table_def added_def)
  qed (use assms in simp)
qed

section \<open>Reading a table\<close>

text \<open>What a callback must keep for the entry readers to keep it.\<close>

locale insert_callback =
  fixes insertf :: insertf
    and good :: "avtab \<Rightarrow> bool"
  assumes keeps: "good a \<Longrightarrow> insertf a k d m = (rc, a', m') \<Longrightarrow> good a'"
begin

lemma read_specs_keeps:
  "good a \<Longrightarrow> read_specs insertf buf items2 vl enabled k ss items a m = (rc, items', a', m') \<Longrightarrow> good a'"
proof (induction ss arbitrary: items a m)
  case (Cons s ss)
  then show ?case by (auto split: if_splits prod.splits dest: keeps)
qed simp

lemma read_item_old_keeps:
  "good a \<Longrightarrow> avtab_read_item_old insertf fp a m = (rc, fp', a', m') \<Longrightarrow> good a'"
  unfolding avtab_read_item_old_def Let_def
  by (auto split: if_splits prod.splits option.splits dest: read_specs_keeps)

lemma read_item_keeps:
  "good a \<Longrightarrow> avtab_read_item insertf fp vers a m = (rc, fp', a', m') \<Longrightarrow> good a'"
  unfolding avtab_read_item_def Let_def
  by (auto split: if_splits prod.splits option.splits dest: read_item_old_keeps keeps)

end

interpretation reader: insert_callback avtab_insertf policy_table
  by unfold_locales (auto simp: avtab_insertf_def intro: insert_policy_table)

lemma read_items_keeps:
  "policy_table a \<Longrightarrow> read_items i fp vers a m = (rc, fp', a', m') \<Longrightarrow> policy_table a'"
proof (induction i arbitrary: fp a m)
  case (Suc i)
  obtain rc1 fp1 a1 m1 where item: "avtab_read_item avtab_insertf fp vers a m = (rc1, fp1, a1, m1)"
    by (metis prod_cases4)
  then have "policy_table a1" using Suc.prems(1) by (rule reader.read_item_keeps [rotated])
  with item Suc show ?case by (auto split: if_splits)
qed simp

lemma avtab_read_outcome:
  assumes "avtab_read a fp vers m = (rc, a', fp', m')"
  shows "rc = 0 \<and> policy_table a' \<or> rc = - 1 \<and> htable a' = None"
proof -
  have destroyed: "htable (avtab_destroy b) = None" for b
    by (simp add: avtab_destroy_def split: option.split)
  have "policy_table b'"
    if "avtab_alloc a n m = (0, b, m1)" "n \<noteq> 0" "read_items i fp1 vers b m1 = (0, fp2, b', m2)"
    for n b b' i fp1 fp2 m1 m2
    using avtab_alloc_ok [OF that(1,2)] read_items_keeps [OF _ that(3)]
    by (simp add: policy_table_def no_clash_def)
  with assms destroyed show ?thesis
    unfolding avtab_read_def Let_def
    by (auto split: if_splits prod.splits option.splits simp: zero_or_saturated_def)
qed

text \<open>In the current format every entry adds one rule.\<close>

lemma insert_counts:
  assumes "policy_table a" and "avtab_insert a k d m = (0, a', m')"
  shows "length (entries a') = Suc (length (entries a))"
proof -
  have ok: "avtab_ok a" using assms(1) by (simp add: policy_table_def)
  have "added a (node_for k d) a'" using insert_outcome [OF ok assms(2)] by simp
  then have "size (mset (entries a')) = Suc (size (mset (entries a)))" by (simp add: added_def)
  then show ?thesis by simp
qed

lemma read_item_inserts:
  assumes "20 \<le> vers" and "avtab_read_item insertf fp vers a m = (0, fp', a', m')"
  shows "\<exists>k d. insertf a k d m = (0, a', m')"
proof -
  have "\<not> vers < 20" using assms(1) by simp
  with assms(2) show ?thesis
    unfolding avtab_read_item_def Let_def
    by (simp split: if_split_asm prod.split_asm option.split_asm) blast+
qed

lemma read_item_counts:
  assumes "policy_table a" and "20 \<le> vers"
    and "avtab_read_item avtab_insertf fp vers a m = (0, fp', a', m')"
  shows "length (entries a') = Suc (length (entries a))"
  using read_item_inserts [OF assms(2,3)] insert_counts [OF assms(1)] by (auto simp: avtab_insertf_def)

lemma read_items_count:
  "policy_table a \<Longrightarrow> 20 \<le> vers \<Longrightarrow> read_items i fp vers a m = (0, fp', a', m') \<Longrightarrow>
   length (entries a') = i + length (entries a)"
proof (induction i arbitrary: fp a m)
  case (Suc i)
  obtain rc1 fp1 a1 m1 where item: "avtab_read_item avtab_insertf fp vers a m = (rc1, fp1, a1, m1)"
    by (metis prod_cases4)
  then have "policy_table a1" using Suc.prems(1) by (rule reader.read_item_keeps [rotated])
  with item Suc show ?case using read_item_counts [of a vers fp m fp1 a1 m1] by (auto split: if_splits)
qed simp

lemma avtab_read_count:
  assumes "avtab_read a fp vers m = (0, a', fp', m')" and "20 \<le> vers"
  shows "length (entries a') = unat (le32_word (the (fst (next_entry fp 4))))"
proof -
  have "length (entries b') = i"
    if "avtab_alloc a n m = (0, b, m1)" "n \<noteq> 0" "read_items i fp1 vers b m1 = (0, fp2, b', m2)"
    for n b b' i fp1 fp2 m1 m2
    using avtab_alloc_ok [OF that(1,2)] read_items_count [OF _ assms(2) that(3)]
    by (simp add: policy_table_def no_clash_def)
  with assms(1) show ?thesis
    unfolding avtab_read_def Let_def
    by (auto split: if_splits prod.splits option.splits simp: zero_or_saturated_def)
qed

end
