(* ===== verification/Avtab_Props.thy ===== *)
theory Avtab_Props
  imports Avtab_Inv
begin

text \<open>
  The properties of libsepol's access vector table: insertion, search, walking over all matches,
  allocation and reading from a policy file.
\<close>

section \<open>Samples\<close>

definition sample_key :: avtab_key where
  "sample_key = \<lparr>source_type = 3, target_type = 5, target_class = 7, specified = AVTAB_ALLOWED\<rparr>"


definition sample_av :: avtab where
  "sample_av = \<lparr>htable = Some [[], []], nel = 0, nslot = 2, tmask = 1\<rparr>"

lemma sample_av_ok: "avtab_ok sample_av"
  by (auto simp: avtab_ok_def sample_av_def slots_ok_def less_Suc_eq)

section \<open>Insertion\<close>



text \<open>
  \<open>avtab_insert_nonunique\<close> fails only for lack of memory, leaving the table as it was;
  otherwise it returns the node it stored, keeps the table well formed and adds exactly that rule.
\<close>

lemma insert_nonunique_rule:
  assumes "avtab_ok h" and "avtab_insert_nonunique h k d m = (r, h', m')"
  shows "r = Some (node_for k d) \<and> avtab_ok h' \<and>
      mset (entries h') = add_mset (node_for k d) (mset (entries h)) \<and> nel h' = nel h + 1 \<or>
    r = None \<and> h' = h \<and> (htable h = None \<or> fst (new_node k d m) = None)"
  using insert_nonunique_outcome [OF assms] by (auto simp: added_def)

section \<open>Search\<close>

text \<open>
  C35. \<open>avtab_search\<close> finds the datum of the first rule of the table with the key's source, target
  and class and one of its specifiers; starting from \<open>avtab_search_node\<close> and going on with
  \<open>avtab_search_node_next\<close> visits all of them, each once.
\<close>

theorem search_complete:
  assumes "avtab_ok h"
  shows "avtab_search h k = map_option datum (find (matches k (lookup_spec k)) (entries h)) \<and>
    avtab_walk (avtab_search_node h k) (ucast (specified k)) = filter (matches k (lookup_spec k)) (entries h)"
  using search_finds_first [OF assms] walk_finds_all [OF assms] by blast

theorem search_complete_witness:
  "avtab_search sample_av sample_key = None \<and>
   avtab_walk (avtab_search_node sample_av sample_key) (ucast (specified sample_key)) = []"
proof -
  have "entries sample_av = []" by code_simp
  with search_complete [OF sample_av_ok, of sample_key] show ?thesis by simp
qed

section \<open>Allocation\<close>

text \<open>
  \<open>avtab_alloc\<close> for a number of rules other than zero makes, if memory permits, an empty
  well-formed table whose number of slots is a power of two of at most \<open>2 ^ 20\<close>, and more than a
  quarter of the number of rules unless it is that limit.
\<close>

lemma alloc_size:
  assumes "nrules \<noteq> 0"
  shows "\<exists>j \<le> 20. \<exists>h'. avtab_alloc h nrules (True # m) = (0, h', m) \<and> nslot h' = 2 ^ j \<and>
    avtab_ok h' \<and> entries h' = [] \<and> htable h' \<noteq> None \<and> (unat nrules < 4 * 2 ^ j \<or> j = 20)"
proof -
  let ?h = "h\<lparr>htable := Some (replicate (2 ^ table_bits nrules) []), nel := 0, nslot := 2 ^ table_bits nrules,
      tmask := 2 ^ table_bits nrules - 1\<rparr>"
  have a: "avtab_alloc h nrules (True # m) = (0, ?h, m)" by (rule avtab_alloc_slots [OF assms])
  show ?thesis
    using table_bits_le [of nrules] a avtab_alloc_ok [OF a assms] alloc_load [of nrules]
    by (intro exI [of _ "table_bits nrules"] exI [of _ ?h] conjI) simp_all
qed

section \<open>Reading\<close>




end
