(* ===== verification/Zopfli_Symbols.thy ===== *)
theory Zopfli_Symbols
  imports Prelude "HOL-Library.Monad_Syntax"
begin

text \<open>
  The symbols of DEFLATE in zopfli (\<open>symbols.h\<close>): the symbol of a length or distance, the number
  of its extra bits and their value. A C \<open>int\<close> is an \<open>int\<close>; a table read is \<open>None\<close> when the index
  is outside the table. Of the distance functions the header has two variants, one with
  \<open>__builtin_clz\<close> and one with comparisons (\<open>_portable\<close> here); both are modelled and agree on all
  distances. Length and distance can be rebuilt from symbol and extra bits with the base values
  of the DEFLATE specification.
\<close>

section \<open>Distances\<close>

text \<open>The number of leading zeros of a 32-bit number; C leaves it undefined for zero.\<close>

definition builtin_clz :: "u32 \<Rightarrow> nat" where
  "builtin_clz w = length (takeWhile (\<lambda>i. \<not> bit w i) (rev [0..<32]))"

definition dist_log2 :: "int \<Rightarrow> nat" where
  "dist_log2 dist = nat (31 XOR int (builtin_clz (of_int (dist - 1))))"

definition ZopfliGetDistExtraBits :: "int \<Rightarrow> int" where
  "ZopfliGetDistExtraBits dist = (if dist < 5 then 0 else int (dist_log2 dist) - 1)"

definition ZopfliGetDistExtraBitsValue :: "int \<Rightarrow> int" where
  "ZopfliGetDistExtraBitsValue dist =
    (if dist < 5 then 0
     else let l = dist_log2 dist
          in (dist - (1 + push_bit l 1)) AND (push_bit (l - 1) 1 - 1))"

definition ZopfliGetDistSymbol :: "int \<Rightarrow> int" where
  "ZopfliGetDistSymbol dist =
    (if dist < 5 then dist - 1
     else let l = dist_log2 dist;
              r = drop_bit (l - 1) (dist - 1) AND 1
          in int l * 2 + r)"

definition ZopfliGetDistExtraBits_portable :: "int \<Rightarrow> int" where
  "ZopfliGetDistExtraBits_portable dist =
    (if dist < 5 then 0
     else if dist < 9 then 1
     else if dist < 17 then 2
     else if dist < 33 then 3
     else if dist < 65 then 4
     else if dist < 129 then 5
     else if dist < 257 then 6
     else if dist < 513 then 7
     else if dist < 1025 then 8
     else if dist < 2049 then 9
     else if dist < 4097 then 10
     else if dist < 8193 then 11
     else if dist < 16385 then 12
     else 13)"

definition ZopfliGetDistExtraBitsValue_portable :: "int \<Rightarrow> int" where
  "ZopfliGetDistExtraBitsValue_portable dist =
    (if dist < 5 then 0
     else if dist < 9 then (dist - 5) AND 1
     else if dist < 17 then (dist - 9) AND 3
     else if dist < 33 then (dist - 17) AND 7
     else if dist < 65 then (dist - 33) AND 15
     else if dist < 129 then (dist - 65) AND 31
     else if dist < 257 then (dist - 129) AND 63
     else if dist < 513 then (dist - 257) AND 127
     else if dist < 1025 then (dist - 513) AND 255
     else if dist < 2049 then (dist - 1025) AND 511
     else if dist < 4097 then (dist - 2049) AND 1023
     else if dist < 8193 then (dist - 4097) AND 2047
     else if dist < 16385 then (dist - 8193) AND 4095
     else (dist - 16385) AND 8191)"

definition ZopfliGetDistSymbol_portable :: "int \<Rightarrow> int" where
  "ZopfliGetDistSymbol_portable dist =
    (if dist < 193 then
       if dist < 13 then
         if dist < 5 then dist - 1
         else if dist < 7 then 4
         else if dist < 9 then 5
         else 6
       else
         if dist < 17 then 7
         else if dist < 25 then 8
         else if dist < 33 then 9
         else if dist < 49 then 10
         else if dist < 65 then 11
         else if dist < 97 then 12
         else if dist < 129 then 13
         else 14
     else
       if dist < 2049 then
         if dist < 257 then 15
         else if dist < 385 then 16
         else if dist < 513 then 17
         else if dist < 769 then 18
         else if dist < 1025 then 19
         else if dist < 1537 then 20
         else 21
       else
         if dist < 3073 then 22
         else if dist < 4097 then 23
         else if dist < 6145 then 24
         else if dist < 8193 then 25
         else if dist < 12289 then 26
         else if dist < 16385 then 27
         else if dist < 24577 then 28
         else 29)"

section \<open>Lengths\<close>

definition read_table :: "'a list \<Rightarrow> int \<Rightarrow> 'a option" where
  "read_table t i = (if 0 \<le> i \<and> nat i < length t then Some (t ! nat i) else None)"

definition length_extra_bits_table :: "int list" where
  "length_extra_bits_table =
    [0, 0, 0, 0, 0, 0, 0, 0, 0, 0, 0, 1, 1, 1, 1, 1, 1, 1, 1, 2, 2, 2, 2, 2, 2, 2, 2, 2, 2, 2, 2, 2,
    2, 2, 2, 3, 3, 3, 3, 3, 3, 3, 3, 3, 3, 3, 3, 3, 3, 3, 3, 3, 3, 3, 3, 3, 3, 3, 3, 3, 3, 3, 3, 3,
    3, 3, 3, 4, 4, 4, 4, 4, 4, 4, 4, 4, 4, 4, 4, 4, 4, 4, 4, 4, 4, 4, 4, 4, 4, 4, 4, 4, 4, 4, 4, 4,
    4, 4, 4, 4, 4, 4, 4, 4, 4, 4, 4, 4, 4, 4, 4, 4, 4, 4, 4, 4, 4, 4, 4, 4, 4, 4, 4, 4, 4, 4, 4, 4,
    4, 4, 4, 5, 5, 5, 5, 5, 5, 5, 5, 5, 5, 5, 5, 5, 5, 5, 5, 5, 5, 5, 5, 5, 5, 5, 5, 5, 5, 5, 5, 5,
    5, 5, 5, 5, 5, 5, 5, 5, 5, 5, 5, 5, 5, 5, 5, 5, 5, 5, 5, 5, 5, 5, 5, 5, 5, 5, 5, 5, 5, 5, 5, 5,
    5, 5, 5, 5, 5, 5, 5, 5, 5, 5, 5, 5, 5, 5, 5, 5, 5, 5, 5, 5, 5, 5, 5, 5, 5, 5, 5, 5, 5, 5, 5, 5,
    5, 5, 5, 5, 5, 5, 5, 5, 5, 5, 5, 5, 5, 5, 5, 5, 5, 5, 5, 5, 5, 5, 5, 5, 5, 5, 5, 5, 5, 5, 5, 5,
    5, 5, 0]"

definition length_extra_value_table :: "int list" where
  "length_extra_value_table =
    [0, 0, 0, 0, 0, 0, 0, 0, 0, 0, 0, 0, 1, 0, 1, 0, 1, 0, 1, 0, 1, 2, 3, 0, 1, 2, 3, 0, 1, 2, 3, 0,
    1, 2, 3, 0, 1, 2, 3, 4, 5, 6, 7, 0, 1, 2, 3, 4, 5, 6, 7, 0, 1, 2, 3, 4, 5, 6, 7, 0, 1, 2, 3, 4,
    5, 6, 7, 0, 1, 2, 3, 4, 5, 6, 7, 8, 9, 10, 11, 12, 13, 14, 15, 0, 1, 2, 3, 4, 5, 6, 7, 8, 9, 10,
    11, 12, 13, 14, 15, 0, 1, 2, 3, 4, 5, 6, 7, 8, 9, 10, 11, 12, 13, 14, 15, 0, 1, 2, 3, 4, 5, 6,
    7, 8, 9, 10, 11, 12, 13, 14, 15, 0, 1, 2, 3, 4, 5, 6, 7, 8, 9, 10, 11, 12, 13, 14, 15, 16, 17,
    18, 19, 20, 21, 22, 23, 24, 25, 26, 27, 28, 29, 30, 31, 0, 1, 2, 3, 4, 5, 6, 7, 8, 9, 10, 11,
    12, 13, 14, 15, 16, 17, 18, 19, 20, 21, 22, 23, 24, 25, 26, 27, 28, 29, 30, 31, 0, 1, 2, 3, 4,
    5, 6, 7, 8, 9, 10, 11, 12, 13, 14, 15, 16, 17, 18, 19, 20, 21, 22, 23, 24, 25, 26, 27, 28, 29,
    30, 31, 0, 1, 2, 3, 4, 5, 6, 7, 8, 9, 10, 11, 12, 13, 14, 15, 16, 17, 18, 19, 20, 21, 22, 23,
    24, 25, 26, 27, 28, 29, 30, 0]"

definition length_symbol_table :: "int list" where
  "length_symbol_table =
    [0, 0, 0, 257, 258, 259, 260, 261, 262, 263, 264, 265, 265, 266, 266, 267, 267, 268, 268, 269,
    269, 269, 269, 270, 270, 270, 270, 271, 271, 271, 271, 272, 272, 272, 272, 273, 273, 273, 273,
    273, 273, 273, 273, 274, 274, 274, 274, 274, 274, 274, 274, 275, 275, 275, 275, 275, 275, 275,
    275, 276, 276, 276, 276, 276, 276, 276, 276, 277, 277, 277, 277, 277, 277, 277, 277, 277, 277,
    277, 277, 277, 277, 277, 277, 278, 278, 278, 278, 278, 278, 278, 278, 278, 278, 278, 278, 278,
    278, 278, 278, 279, 279, 279, 279, 279, 279, 279, 279, 279, 279, 279, 279, 279, 279, 279, 279,
    280, 280, 280, 280, 280, 280, 280, 280, 280, 280, 280, 280, 280, 280, 280, 280, 281, 281, 281,
    281, 281, 281, 281, 281, 281, 281, 281, 281, 281, 281, 281, 281, 281, 281, 281, 281, 281, 281,
    281, 281, 281, 281, 281, 281, 281, 281, 281, 281, 282, 282, 282, 282, 282, 282, 282, 282, 282,
    282, 282, 282, 282, 282, 282, 282, 282, 282, 282, 282, 282, 282, 282, 282, 282, 282, 282, 282,
    282, 282, 282, 282, 283, 283, 283, 283, 283, 283, 283, 283, 283, 283, 283, 283, 283, 283, 283,
    283, 283, 283, 283, 283, 283, 283, 283, 283, 283, 283, 283, 283, 283, 283, 283, 283, 284, 284,
    284, 284, 284, 284, 284, 284, 284, 284, 284, 284, 284, 284, 284, 284, 284, 284, 284, 284, 284,
    284, 284, 284, 284, 284, 284, 284, 284, 284, 284, 285]"

definition length_symbol_bits_table :: "int list" where
  "length_symbol_bits_table =
    [0, 0, 0, 0, 0, 0, 0, 0, 1, 1, 1, 1, 2, 2, 2, 2, 3, 3, 3, 3, 4, 4, 4, 4, 5, 5, 5, 5, 0]"

definition dist_symbol_bits_table :: "int list" where
  "dist_symbol_bits_table =
    [0, 0, 0, 0, 1, 1, 2, 2, 3, 3, 4, 4, 5, 5, 6, 6, 7, 7, 8, 8, 9, 9, 10, 10, 11, 11, 12, 12, 13,
    13]"

definition ZopfliGetLengthExtraBits :: "int \<Rightarrow> int option" where
  "ZopfliGetLengthExtraBits l = read_table length_extra_bits_table l"

definition ZopfliGetLengthExtraBitsValue :: "int \<Rightarrow> int option" where
  "ZopfliGetLengthExtraBitsValue l = read_table length_extra_value_table l"

definition ZopfliGetLengthSymbol :: "int \<Rightarrow> int option" where
  "ZopfliGetLengthSymbol l = read_table length_symbol_table l"

definition ZopfliGetLengthSymbolExtraBits :: "int \<Rightarrow> int option" where
  "ZopfliGetLengthSymbolExtraBits s = read_table length_symbol_bits_table (s - 257)"

definition ZopfliGetDistSymbolExtraBits :: "int \<Rightarrow> int option" where
  "ZopfliGetDistSymbolExtraBits s = read_table dist_symbol_bits_table s"

section \<open>The specification\<close>

text \<open>The base values of RFC 1951, section 3.2.5.\<close>

definition dist_base :: "int list" where
  "dist_base =
    [1, 2, 3, 4, 5, 7, 9, 13, 17, 25, 33, 49, 65, 97, 129, 193, 257, 385, 513, 769, 1025, 1537,
     2049, 3073, 4097, 6145, 8193, 12289, 16385, 24577]"

definition length_base :: "int list" where
  "length_base =
    [3, 4, 5, 6, 7, 8, 9, 10, 11, 13, 15, 17, 19, 23, 27, 31, 35, 43, 51, 59, 67, 83, 99, 115,
     131, 163, 195, 227, 258]"

section \<open>Distances rebuilt\<close>

text \<open>The leading zeros of a number between \<open>2 ^ l\<close> and \<open>2 ^ (l + 1)\<close>.\<close>

lemma takeWhile_clear:
  assumes "l < k" and "\<And>i. l < i \<Longrightarrow> i < k \<Longrightarrow> \<not> P i" and "P l"
  shows "takeWhile (\<lambda>i. \<not> P i) (rev [0..<k]) = rev [Suc l..<k]"
proof -
  have "[0..<k] = [0..<l] @ l # [Suc l..<k]"
    using upt_add_eq_append [of 0 l "k - l"] upt_conv_Cons [OF assms(1)] assms(1) by simp
  then have "rev [0..<k] = rev [Suc l..<k] @ l # rev [0..<l]" by simp
  moreover have "takeWhile (\<lambda>i. \<not> P i) (rev [Suc l..<k] @ l # rev [0..<l]) =
      rev [Suc l..<k] @ takeWhile (\<lambda>i. \<not> P i) (l # rev [0..<l])"
    by (rule takeWhile_append2) (use assms(2) in auto)
  ultimately show ?thesis using assms(3) by simp
qed

lemma bit_of_range:
  assumes "(2 :: int) ^ l \<le> n" and "n < 2 ^ Suc l"
  shows "bit n l" and "l < i \<Longrightarrow> \<not> bit n i"
proof -
  have "n div 2 ^ l = 1"
    by (rule int_div_pos_eq [of _ _ _ "n - 2 ^ l"]) (use assms in auto)
  then show "bit n l" by (simp add: bit_iff_odd)
  assume "l < i"
  then have "(2 :: int) ^ Suc l \<le> 2 ^ i" by (intro power_increasing) auto
  then have "n < 2 ^ i" using assms(2) by linarith
  moreover have "0 \<le> n" using assms(1) by (smt (verit) zero_le_power)
  ultimately have "n div 2 ^ i = 0" by simp
  then show "\<not> bit n i" by (simp add: bit_iff_odd)
qed

lemma dist_log2_range:
  assumes "(2 :: int) ^ l \<le> dist - 1" and "dist - 1 < 2 ^ Suc l" and "l < 32"
  shows "dist_log2 dist = l"
proof -
  have "bit (of_int (dist - 1) :: u32) i \<longleftrightarrow> i < 32 \<and> bit (dist - 1) i" for i
    by (simp only: bit_word_of_int_iff) simp
  then have "takeWhile (\<lambda>i. \<not> bit (of_int (dist - 1) :: u32) i) (rev [0..<32]) = rev [Suc l..<32]"
    using bit_of_range [OF assms(1,2)] assms(3) by (intro takeWhile_clear) auto
  then have "builtin_clz (of_int (dist - 1)) = 31 - l"
    using assms(3) by (simp add: builtin_clz_def)
  moreover have "list_all (\<lambda>l. nat (31 XOR int (31 - l)) = l) [0..<32]" by code_simp
  then have "nat (31 XOR int (31 - l)) = l" using assms(3) by (simp add: list_all_iff)
  ultimately show ?thesis by (simp add: dist_log2_def)
qed

text \<open>Every distance from 5 on lies in one of thirteen ranges.\<close>

lemma dist_range:
  assumes "5 \<le> dist" and "dist \<le> 32768"
  obtains l where "2 \<le> l" "l \<le> 14" "(2 :: int) ^ l \<le> dist - 1" "dist - 1 < 2 ^ Suc l"
proof -
  have "\<exists>l. 2 \<le> l \<and> l \<le> 14 \<and> (2 :: int) ^ l \<le> dist - 1 \<and> dist - 1 < 2 ^ Suc l"
    if "4 \<le> dist - 1" "dist - 1 < 2 ^ Suc k" "2 \<le> k" "k \<le> 14" for k
    using that
  proof (induction k)
    case (Suc k)
    show ?case
    proof (cases "dist - 1 < 2 ^ Suc k")
      case True
      then have "2 \<le> k" using Suc.prems by (cases "k = 1") auto
      with True Suc show ?thesis by auto
    next
      case False
      with Suc show ?thesis by (intro exI [of _ "Suc k"]) auto
    qed
  qed simp
  from this [of 14] assms that show ?thesis by auto
qed

lemma and_mask_int: "(x :: int) AND (2 ^ k - 1) = x mod 2 ^ k"
proof -
  have "2 ^ k - 1 = (mask k :: int)" by (simp add: mask_eq_exp_minus_1)
  then show ?thesis by (simp add: take_bit_eq_mod flip: take_bit_eq_mask)
qed

lemma dist_parts:
  assumes "2 \<le> l" "l \<le> 14" "(2 :: int) ^ l \<le> dist - 1" "dist - 1 < 2 ^ Suc l"
  defines "r \<equiv> (dist - 1) div 2 ^ (l - 1) - 2"
  shows "r = 0 \<or> r = 1" and "ZopfliGetDistSymbol dist = 2 * int l + r"
    and "ZopfliGetDistExtraBits dist = int l - 1"
    and "ZopfliGetDistExtraBitsValue dist = (dist - 1) mod 2 ^ (l - 1)"
    and "dist = 1 + 2 ^ l + r * 2 ^ (l - 1) + (dist - 1) mod 2 ^ (l - 1)"
proof -
  have log: "dist_log2 dist = l" using assms by (intro dist_log2_range) auto
  obtain k where l: "l = Suc k" using assms(1) by (cases l) auto
  have "(4 :: int) \<le> 2 ^ l" using power_increasing [of 2 l "2 :: int"] assms(1) by simp
  then have ge: "\<not> dist < 5" using assms(3) by linarith
  have lo: "2 * 2 ^ k \<le> dist - 1" and hi: "dist - 1 < 4 * 2 ^ k" using assms(3,4) l by simp_all
  have "2 \<le> (dist - 1) div 2 ^ k" using zdiv_mono1 [OF lo, of "2 ^ k"] by simp
  moreover have "(4 * 2 ^ k - 1 :: int) div 2 ^ k = 3"
    by (rule int_div_pos_eq [of _ _ _ "2 ^ k - 1"]) auto
  then have "(dist - 1) div 2 ^ k \<le> 3" using zdiv_mono1 [of "dist - 1" "4 * 2 ^ k - 1" "2 ^ k"] hi by simp
  ultimately show r: "r = 0 \<or> r = 1" by (auto simp: r_def l)
  have "drop_bit (l - 1) (dist - 1) AND 1 = r"
    using r by (auto simp: r_def l drop_bit_eq_div and_one_eq)
  then show "ZopfliGetDistSymbol dist = 2 * int l + r"
    using ge log by (simp add: ZopfliGetDistSymbol_def Let_def)
  show "ZopfliGetDistExtraBits dist = int l - 1" using ge log by (simp add: ZopfliGetDistExtraBits_def)
  have "(dist - (1 + 2 ^ l)) mod 2 ^ (l - 1) = (dist - 1) mod 2 ^ (l - 1)"
    using mod_mult_self1 [of "dist - (1 + 2 ^ l)" 2 "2 ^ (l - 1)"] by (simp add: l)
  then show "ZopfliGetDistExtraBitsValue dist = (dist - 1) mod 2 ^ (l - 1)"
    using ge log by (simp add: ZopfliGetDistExtraBitsValue_def Let_def and_mask_int)
  have "r + 2 = (dist - 1) div 2 ^ k" by (simp add: r_def l)
  then have "(r + 2) * 2 ^ k + (dist - 1) mod 2 ^ k = dist - 1" by (simp only: div_mult_mod_eq)
  then show "dist = 1 + 2 ^ l + r * 2 ^ (l - 1) + (dist - 1) mod 2 ^ (l - 1)"
    by (simp add: l algebra_simps)
qed

text \<open>A distance is the base of its symbol plus its extra bits.\<close>

lemma dist_base_formula:
  assumes "2 \<le> l" and "l \<le> 14" and "r = 0 \<or> r = 1"
  shows "dist_base ! nat (2 * int l + r) = 1 + 2 ^ l + r * 2 ^ (l - 1)"
    and "dist_symbol_bits_table ! nat (2 * int l + r) = int l - 1"
proof -
  have "list_all (\<lambda>l. list_all (\<lambda>r. dist_base ! nat (2 * int l + r) = 1 + 2 ^ l + r * 2 ^ (l - 1) \<and>
      dist_symbol_bits_table ! nat (2 * int l + r) = int l - 1) [0, 1]) [2..<15]"
    by code_simp
  note all = this [unfolded list_all_iff, rule_format, of l r]
  have "l \<in> set [2..<15]" using assms(1,2) by (simp only: set_upt atLeastLessThan_iff) simp
  moreover have "r \<in> set [0, 1]" using assms(3) by auto
  ultimately show "dist_base ! nat (2 * int l + r) = 1 + 2 ^ l + r * 2 ^ (l - 1)"
    and "dist_symbol_bits_table ! nat (2 * int l + r) = int l - 1"
    using all by blast+
qed

lemma dist_rebuilt:
  assumes "1 \<le> dist" and "dist \<le> 32768"
  shows "0 \<le> ZopfliGetDistSymbol dist \<and> ZopfliGetDistSymbol dist < 30 \<and>
    dist_base ! nat (ZopfliGetDistSymbol dist) + ZopfliGetDistExtraBitsValue dist = dist \<and>
    0 \<le> ZopfliGetDistExtraBitsValue dist \<and>
    ZopfliGetDistExtraBitsValue dist < 2 ^ nat (ZopfliGetDistExtraBits dist) \<and>
    0 \<le> ZopfliGetDistExtraBits dist \<and> ZopfliGetDistExtraBits dist \<le> 13 \<and>
    ZopfliGetDistSymbolExtraBits (ZopfliGetDistSymbol dist) = Some (ZopfliGetDistExtraBits dist)"
proof (cases "dist < 5")
  case True
  with assms have "dist \<in> {1, 2, 3, 4}" by auto
  then show ?thesis
    by (auto simp: ZopfliGetDistSymbol_def ZopfliGetDistExtraBits_def ZopfliGetDistExtraBitsValue_def
        ZopfliGetDistSymbolExtraBits_def dist_base_def dist_symbol_bits_table_def read_table_def)
next
  case False
  with assms(2) obtain l where l: "2 \<le> l" "l \<le> 14" "2 ^ l \<le> dist - 1" "dist - 1 < 2 ^ Suc l"
    using dist_range [of dist] by (metis not_le zle_add1_eq_le linorder_not_less numeral_plus_one semiring_norm(2))
  define r where "r = (dist - 1) div 2 ^ (l - 1) - 2"
  note parts = dist_parts [OF l, folded r_def]
  have bits: "nat (int l - 1) = l - 1" by simp
  have "ZopfliGetDistSymbolExtraBits (2 * int l + r) = Some (int l - 1)"
    using parts(1) l(1,2) dist_base_formula(2) [OF l(1,2) parts(1)]
    by (auto simp: ZopfliGetDistSymbolExtraBits_def read_table_def) (auto simp: dist_symbol_bits_table_def)
  then show ?thesis
    using parts l(1,2) dist_base_formula(1) [OF l(1,2) parts(1)] by (auto simp: bits)
qed

text \<open>Both variants of the header agree.\<close>

lemma portable_range:
  assumes "2 \<le> l" "l \<le> 14" "(2 :: int) ^ l \<le> dist - 1" "dist - 1 < 2 ^ Suc l"
  shows "ZopfliGetDistExtraBits_portable dist = int l - 1"
    and "ZopfliGetDistExtraBitsValue_portable dist = (dist - (1 + 2 ^ l)) AND (2 ^ (l - 1) - 1)"
    and "dist - 1 < 2 ^ l + 2 ^ (l - 1) \<Longrightarrow> ZopfliGetDistSymbol_portable dist = 2 * int l"
    and "2 ^ l + 2 ^ (l - 1) \<le> dist - 1 \<Longrightarrow> ZopfliGetDistSymbol_portable dist = 2 * int l + 1"
proof -
  have l: "l = 2 \<or> l = 3 \<or> l = 4 \<or> l = 5 \<or> l = 6 \<or> l = 7 \<or> l = 8 \<or> l = 9 \<or> l = 10 \<or> l = 11 \<or>
      l = 12 \<or> l = 13 \<or> l = 14"
    using assms(1,2) by presburger
  show "ZopfliGetDistExtraBits_portable dist = int l - 1"
    using l assms(3,4) by (elim disjE) (simp_all add: ZopfliGetDistExtraBits_portable_def)
  show "ZopfliGetDistExtraBitsValue_portable dist = (dist - (1 + 2 ^ l)) AND (2 ^ (l - 1) - 1)"
    using l assms(3,4) by (elim disjE) (simp_all add: ZopfliGetDistExtraBitsValue_portable_def)
  show "ZopfliGetDistSymbol_portable dist = 2 * int l" if "dist - 1 < 2 ^ l + 2 ^ (l - 1)"
    using l assms(3) that by (elim disjE) (simp_all add: ZopfliGetDistSymbol_portable_def)
  show "ZopfliGetDistSymbol_portable dist = 2 * int l + 1" if "2 ^ l + 2 ^ (l - 1) \<le> dist - 1"
    using l assms(4) that by (elim disjE) (simp_all add: ZopfliGetDistSymbol_portable_def)
qed

lemma portable_agrees:
  assumes "dist \<le> 32768"
  shows "ZopfliGetDistSymbol_portable dist = ZopfliGetDistSymbol dist \<and>
    ZopfliGetDistExtraBits_portable dist = ZopfliGetDistExtraBits dist \<and>
    ZopfliGetDistExtraBitsValue_portable dist = ZopfliGetDistExtraBitsValue dist"
proof (cases "dist < 5")
  case True
  then show ?thesis
    by (simp add: ZopfliGetDistSymbol_def ZopfliGetDistExtraBits_def ZopfliGetDistExtraBitsValue_def
        ZopfliGetDistSymbol_portable_def ZopfliGetDistExtraBits_portable_def
        ZopfliGetDistExtraBitsValue_portable_def)
next
  case False
  with assms obtain l where l: "2 \<le> l" "l \<le> 14" "2 ^ l \<le> dist - 1" "dist - 1 < 2 ^ Suc l"
    using dist_range [of dist] by (metis not_less)
  define r where "r = (dist - 1) div 2 ^ (l - 1) - 2"
  note parts = dist_parts [OF l, folded r_def] and port = portable_range [OF l]
  have log: "dist_log2 dist = l" using l by (intro dist_log2_range) auto
  have m: "0 \<le> (dist - 1) mod 2 ^ (l - 1)" "(dist - 1) mod 2 ^ (l - 1) < 2 ^ (l - 1)" by simp_all
  have "ZopfliGetDistSymbol_portable dist = 2 * int l + r"
    using parts(1)
  proof
    assume r: "r = 0"
    then have "dist - 1 < 2 ^ l + 2 ^ (l - 1)" using parts(5) m unfolding r by linarith
    with port(3) r show ?thesis by simp
  next
    assume r: "r = 1"
    then have "2 ^ l + 2 ^ (l - 1) \<le> dist - 1" using parts(5) m unfolding r by linarith
    with port(4) r show ?thesis by simp
  qed
  then show ?thesis
    using parts port(1,2) False log by (simp add: ZopfliGetDistExtraBitsValue_def Let_def)
qed

section \<open>Lengths rebuilt\<close>

lemma length_rebuilt:
  assumes "3 \<le> l" and "l \<le> 258"
  obtains s b v where "ZopfliGetLengthSymbol l = Some s" and "257 \<le> s" and "s \<le> 285"
    and "ZopfliGetLengthExtraBits l = Some b" and "ZopfliGetLengthExtraBitsValue l = Some v"
    and "length_base ! nat (s - 257) + v = l" and "0 \<le> v" and "v < 2 ^ nat b" and "0 \<le> b" and "b \<le> 5"
    and "ZopfliGetLengthSymbolExtraBits s = Some b"
proof -
  let ?ok = "\<lambda>(l, s, b, v). 257 \<le> s \<and> s \<le> 285 \<and> length_base ! nat (s - 257) + v = l \<and> 0 \<le> v \<and>
    v < 2 ^ nat b \<and> 0 \<le> b \<and> b \<le> 5 \<and> ZopfliGetLengthSymbolExtraBits s = Some b"
  let ?rows = "zip (map int [3..<259]) (zip (drop 3 length_symbol_table)
      (zip (drop 3 length_extra_bits_table) (drop 3 length_extra_value_table)))"
  have len: "length length_symbol_table = 259" "length length_extra_bits_table = 259"
    "length length_extra_value_table = 259"
    by (simp_all add: length_symbol_table_def length_extra_bits_table_def length_extra_value_table_def)
  have "list_all ?ok ?rows" by code_simp
  moreover have "?rows ! nat (l - 3) = (l, length_symbol_table ! nat l, length_extra_bits_table ! nat l,
      length_extra_value_table ! nat l)"
    using assms len by (simp add: nat_diff_distrib del: upt_rec_numeral)
  moreover have "nat (l - 3) < length ?rows" using assms len by (simp del: upt_rec_numeral)
  ultimately have "?ok (l, length_symbol_table ! nat l, length_extra_bits_table ! nat l,
      length_extra_value_table ! nat l)"
    by (metis (no_types, lifting) list_all_length)
  moreover have "read_table t l = Some (t ! nat l)" if "length t = 259" for t :: "int list"
    using assms that by (simp add: read_table_def nat_less_iff)
  ultimately show thesis
    using that len
    by (simp add: ZopfliGetLengthSymbol_def ZopfliGetLengthExtraBits_def ZopfliGetLengthExtraBitsValue_def)
qed

end
