(* ===== verification/Zopfli_Store.thy ===== *)
theory Zopfli_Store
  imports Zopfli_Symbols Alloc
begin

text \<open>
  The store of LZ77 commands (\<open>lz77.c\<close>, \<open>lz77.h\<close>): literals and matches with their positions and
  symbols, and the cumulative histograms that are kept in chunks, one value per command. Every
  array is the list of its elements; \<open>ZOPFLI_APPEND_DATA\<close> appends. A failed assertion, and leaving
  the program, is \<open>None\<close>. Counts are \<open>size_t\<close>, so that a decrement wraps.

  The histogram of a range of commands that \<open>ZopfliLZ77GetHistogram\<close> computes from two chunks is
  the number of occurrences of every symbol in the range.
\<close>

abbreviation (input) ZOPFLI_NUM_LL :: nat where "ZOPFLI_NUM_LL \<equiv> 288"
abbreviation (input) ZOPFLI_NUM_D :: nat where "ZOPFLI_NUM_D \<equiv> 32"

record lz77_store =
  litlens :: "nat list"
  dists :: "nat list"
  lsize :: nat
  ldata :: "byte list"
  pos :: "nat list"
  ll_symbol :: "nat list"
  d_symbol :: "nat list"
  ll_counts :: "u64 list"
  d_counts :: "u64 list"

definition ZopfliInitLZ77Store :: "byte list \<Rightarrow> lz77_store" where
  "ZopfliInitLZ77Store d =
    \<lparr>litlens = [], dists = [], lsize = 0, ldata = d, pos = [], ll_symbol = [], d_symbol = [],
     ll_counts = [], d_counts = []\<rparr>"

definition CeilDiv :: "nat \<Rightarrow> nat \<Rightarrow> nat" where
  "CeilDiv a b = (a + b - 1) div b"

text \<open>Seven arrays are allocated; the program exits when one of them cannot be.\<close>

definition ZopfliCopyLZ77Store :: "lz77_store \<Rightarrow> alloc \<Rightarrow> lz77_store option" where
  "ZopfliCopyLZ77Store source m =
    (let llsize = ZOPFLI_NUM_LL * CeilDiv (lsize source) ZOPFLI_NUM_LL;
         dsize = ZOPFLI_NUM_D * CeilDiv (lsize source) ZOPFLI_NUM_D
     in if length m < 7 \<or> False \<in> set (take 7 m) then None
        else Some
          \<lparr>litlens = map (\<lambda>i. litlens source ! i) [0..<lsize source],
           dists = map (\<lambda>i. dists source ! i) [0..<lsize source],
           lsize = lsize source,
           ldata = ldata source,
           pos = map (\<lambda>i. pos source ! i) [0..<lsize source],
           ll_symbol = map (\<lambda>i. ll_symbol source ! i) [0..<lsize source],
           d_symbol = map (\<lambda>i. d_symbol source ! i) [0..<lsize source],
           ll_counts = map (\<lambda>i. ll_counts source ! i) [0..<llsize],
           d_counts = map (\<lambda>i. d_counts source ! i) [0..<dsize]\<rparr>)"

text \<open>A new chunk starts as a copy of the last one.\<close>

definition new_chunk :: "nat \<Rightarrow> nat \<Rightarrow> u64 list \<Rightarrow> u64 list" where
  "new_chunk n origsize counts =
    (if origsize mod n = 0 then
       counts @ map (\<lambda>i. if origsize = 0 then 0 else counts ! (origsize - n + i)) [0..<n]
     else counts)"

definition bump :: "nat \<Rightarrow> u64 list \<Rightarrow> u64 list" where
  "bump i counts = counts[i := counts ! i + 1]"

definition ZopfliStoreLitLenDist :: "nat \<Rightarrow> nat \<Rightarrow> nat \<Rightarrow> lz77_store \<Rightarrow> lz77_store option" where
  "ZopfliStoreLitLenDist len dist p store =
    (let origsize = lsize store;
         llstart = ZOPFLI_NUM_LL * (origsize div ZOPFLI_NUM_LL);
         dstart = ZOPFLI_NUM_D * (origsize div ZOPFLI_NUM_D);
         store = store\<lparr>ll_counts := new_chunk ZOPFLI_NUM_LL origsize (ll_counts store),
                       d_counts := new_chunk ZOPFLI_NUM_D origsize (d_counts store)\<rparr>;
         store = store\<lparr>litlens := litlens store @ [len], dists := dists store @ [dist],
                       pos := pos store @ [p], lsize := origsize + 1\<rparr>
     in if \<not> len < 259 then None
        else if dist = 0 then
          Some (store\<lparr>ll_symbol := ll_symbol store @ [len], d_symbol := d_symbol store @ [0],
                      ll_counts := bump (llstart + len) (ll_counts store)\<rparr>)
        else
          do {
            ls \<leftarrow> ZopfliGetLengthSymbol (int len);
            let ds = ZopfliGetDistSymbol (int dist);
            Some (store\<lparr>ll_symbol := ll_symbol store @ [nat ls], d_symbol := d_symbol store @ [nat ds],
                        ll_counts := bump (llstart + nat ls) (ll_counts store),
                        d_counts := bump (dstart + nat ds) (d_counts store)\<rparr>)
          })"

fun append_from :: "nat list \<Rightarrow> lz77_store \<Rightarrow> lz77_store \<Rightarrow> lz77_store option" where
  "append_from [] store target = Some target"
| "append_from (i # is) store target =
    do {
      target \<leftarrow> ZopfliStoreLitLenDist (litlens store ! i) (dists store ! i) (pos store ! i) target;
      append_from is store target
    }"

definition ZopfliAppendLZ77Store :: "lz77_store \<Rightarrow> lz77_store \<Rightarrow> lz77_store option" where
  "ZopfliAppendLZ77Store store target = append_from [0..<lsize store] store target"

definition ZopfliLZ77GetByteRange :: "lz77_store \<Rightarrow> nat \<Rightarrow> nat \<Rightarrow> nat" where
  "ZopfliLZ77GetByteRange lz77 lstart lend =
    (let l = lend - 1 in
     if lstart = lend then 0
     else pos lz77 ! l + (if dists lz77 ! l = 0 then 1 else litlens lz77 ! l) - pos lz77 ! lstart)"

section \<open>Histograms\<close>

text \<open>The symbols a loop over commands counts: \<open>None\<close> for a command without a distance.\<close>

definition ll_seq :: "lz77_store \<Rightarrow> nat list \<Rightarrow> nat option list" where
  "ll_seq st is = map (\<lambda>i. Some (ll_symbol st ! i)) is"

definition d_seq :: "lz77_store \<Rightarrow> nat list \<Rightarrow> nat option list" where
  "d_seq st is = map (\<lambda>i. if dists st ! i \<noteq> 0 then Some (d_symbol st ! i) else None) is"

fun add_each :: "u64 \<Rightarrow> nat option list \<Rightarrow> u64 list \<Rightarrow> u64 list" where
  "add_each w [] c = c"
| "add_each w (None # xs) c = add_each w xs c"
| "add_each w (Some s # xs) c = add_each w xs (c[s := c ! s + w])"

definition ZopfliLZ77GetHistogramAt :: "lz77_store \<Rightarrow> nat \<Rightarrow> u64 list \<times> u64 list" where
  "ZopfliLZ77GetHistogramAt lz77 lpos =
    (let llpos = ZOPFLI_NUM_LL * (lpos div ZOPFLI_NUM_LL);
         dpos = ZOPFLI_NUM_D * (lpos div ZOPFLI_NUM_D)
     in (add_each (- 1) (ll_seq lz77 [lpos + 1..<min (llpos + ZOPFLI_NUM_LL) (lsize lz77)])
           (map (\<lambda>i. ll_counts lz77 ! (llpos + i)) [0..<ZOPFLI_NUM_LL]),
         add_each (- 1) (d_seq lz77 [lpos + 1..<min (dpos + ZOPFLI_NUM_D) (lsize lz77)])
           (map (\<lambda>i. d_counts lz77 ! (dpos + i)) [0..<ZOPFLI_NUM_D])))"

definition ZopfliLZ77GetHistogram :: "lz77_store \<Rightarrow> nat \<Rightarrow> nat \<Rightarrow> u64 list \<times> u64 list" where
  "ZopfliLZ77GetHistogram lz77 lstart lend =
    (if lend < lstart + ZOPFLI_NUM_LL * 3 then
       (add_each 1 (ll_seq lz77 [lstart..<lend]) (replicate ZOPFLI_NUM_LL 0),
        add_each 1 (d_seq lz77 [lstart..<lend]) (replicate ZOPFLI_NUM_D 0))
     else
       case ZopfliLZ77GetHistogramAt lz77 (lend - 1) of
         (ll, d) \<Rightarrow>
           if 0 < lstart then
             (case ZopfliLZ77GetHistogramAt lz77 (lstart - 1) of
                (ll2, d2) \<Rightarrow>
                  (map (\<lambda>i. ll ! i - ll2 ! i) [0..<ZOPFLI_NUM_LL], map (\<lambda>i. d ! i - d2 ! i) [0..<ZOPFLI_NUM_D]))
           else (ll, d))"

section \<open>Cumulative counts\<close>

text \<open>
  \<open>cumulative n syms counts\<close>: after the commands with symbols \<open>syms\<close> the array holds, in chunk \<open>c\<close>,
  the numbers of occurrences among the first \<open>n * (c + 1)\<close> commands, or all of them.
\<close>

definition cumulative :: "nat \<Rightarrow> nat option list \<Rightarrow> u64 list \<Rightarrow> bool" where
  "cumulative n syms counts \<longleftrightarrow>
    length counts = n * CeilDiv (length syms) n \<and>
    (\<forall>c s. n * c < length syms \<longrightarrow> s < n \<longrightarrow>
      counts ! (n * c + s) = of_nat (count_list (take (n * c + n) syms) (Some s)))"

lemma add_each_nth:
  "s < length c \<Longrightarrow> add_each w xs c ! s = c ! s + of_nat (count_list xs (Some s)) * w"
  by (induction w xs c rule: add_each.induct) (auto simp: nth_list_update algebra_simps)

lemma length_add_each [simp]: "length (add_each w xs c) = length c"
  by (induction w xs c rule: add_each.induct) auto

lemma ceil_div_Suc:
  assumes "0 < n"
  shows "CeilDiv (Suc k) n = (if k mod n = 0 then Suc (CeilDiv k n) else CeilDiv k n)"
    and "k mod n = 0 \<Longrightarrow> n * CeilDiv k n = k"
    and "n * (k div n) + n \<le> n * CeilDiv (Suc k) n"
proof -
  have k: "k = n * (k div n) + k mod n" by simp
  have suc: "CeilDiv (Suc k) n = Suc (k div n)" using assms by (simp add: CeilDiv_def div_add_self2)
  show "n * (k div n) + n \<le> n * CeilDiv (Suc k) n" by (simp add: suc)
  show exact: "n * CeilDiv k n = k" if "k mod n = 0"
  proof -
    have "(k + n - 1) div n = k div n"
    proof (cases "n = 1")
      case False
      have "k + n - 1 = n - 1 + n * (k div n)" using that assms k by linarith
      moreover have "(n - 1 + n * (k div n)) div n = k div n"
        using assms by (subst div_mult_self2) auto
      ultimately show ?thesis by simp
    qed simp
    moreover have "n * (k div n) = k" using k that by linarith
    ultimately show ?thesis by (simp add: CeilDiv_def)
  qed
  show "CeilDiv (Suc k) n = (if k mod n = 0 then Suc (CeilDiv k n) else CeilDiv k n)"
  proof (cases "k mod n = 0")
    case True
    then have "CeilDiv k n = k div n" using exact assms by (metis nonzero_mult_div_cancel_left neq0_conv)
    with True suc show ?thesis by simp
  next
    case False
    have "k + n - 1 = (k mod n - 1) + n * Suc (k div n)" using k False assms by (simp only: mult_Suc_right)
    moreover have "k mod n - 1 < n" using assms mod_less_divisor [OF assms, of k] by linarith
    ultimately have "CeilDiv k n = Suc (k div n)" by (simp add: CeilDiv_def del: mult_Suc_right)
    with False suc show ?thesis by simp
  qed
qed

lemma new_chunk_counts:
  assumes "cumulative n syms counts" and "0 < n" and "s < n"
  shows "length (new_chunk n (length syms) counts) = n * CeilDiv (Suc (length syms)) n"
    and "n * c < length syms \<Longrightarrow>
      new_chunk n (length syms) counts ! (n * c + s) = of_nat (count_list (take (n * c + n) syms) (Some s))"
    and "new_chunk n (length syms) counts ! (n * (length syms div n) + s) = of_nat (count_list syms (Some s))"
proof -
  let ?L = "length syms"
  have len: "length counts = n * CeilDiv ?L n"
    and val: "\<And>c s. n * c < ?L \<Longrightarrow> s < n \<Longrightarrow>
      counts ! (n * c + s) = of_nat (count_list (take (n * c + n) syms) (Some s))"
    using assms(1) by (auto simp: cumulative_def)
  show "length (new_chunk n ?L counts) = n * CeilDiv (Suc ?L) n"
    using len ceil_div_Suc(1) [OF assms(2), of ?L] by (simp add: new_chunk_def)
  have old: "new_chunk n ?L counts ! (n * c + s) = counts ! (n * c + s)" if lt: "n * c < ?L" for c
  proof -
    have "c * n + n \<le> n * CeilDiv ?L n"
    proof -
      obtain k where k: "?L = Suc k" using lt by (metis not_less0 not0_implies_Suc)
      have "c * n \<le> k" using lt k by (simp add: mult.commute)
      then have "c \<le> k div n" using assms(2) by (simp add: less_eq_div_iff_mult_less_eq)
      then have "c * n + n \<le> n * (k div n) + n" by (metis add_le_mono1 mult.commute mult_le_mono2)
      with ceil_div_Suc(3) [OF assms(2), of k] show ?thesis unfolding k by linarith
    qed
    then show ?thesis using assms(3) len by (simp add: new_chunk_def nth_append mult.commute)
  qed
  then show "n * c < ?L \<Longrightarrow> new_chunk n ?L counts ! (n * c + s) = of_nat (count_list (take (n * c + n) syms) (Some s))"
    using val assms(3) by simp
  show "new_chunk n ?L counts ! (n * (?L div n) + s) = of_nat (count_list syms (Some s))"
  proof (cases "?L mod n = 0")
    case False
    then have "n * (?L div n) < ?L" by (metis mult_div_mod_eq less_add_same_cancel1 neq0_conv)
    moreover have "?L \<le> n * (?L div n) + n"
      using mult_div_mod_eq [of n ?L] mod_less_divisor [OF assms(2), of ?L] by linarith
    ultimately show ?thesis using old val [of "?L div n" s] assms(3) by simp
  next
    case True
    then have L: "n * (?L div n) = ?L" by (metis mult_div_mod_eq add.right_neutral)
    have new: "new_chunk n ?L counts ! (?L + s) = (if ?L = 0 then 0 else counts ! (?L - n + s))"
      using True len ceil_div_Suc(2) [OF assms(2) True] assms(3) by (simp add: new_chunk_def nth_append)
    show ?thesis
    proof (cases "?L = 0")
      case False
      then obtain c where c: "?L div n = Suc c" using L by (cases "?L div n") auto
      then have "n * c + n = ?L" using L by simp
      then have "?L - n = n * c" "n * c < ?L" using assms(2) by auto
      then show ?thesis using new L False val [of c s] assms(3) \<open>n * c + n = ?L\<close> by simp
    qed (use new L in simp)
  qed
qed

lemma cumulative_push:
  assumes "cumulative n syms counts" and "0 < n" and "\<And>s. x = Some s \<Longrightarrow> s < n"
  shows "cumulative n (syms @ [x])
    (case x of None \<Rightarrow> new_chunk n (length syms) counts
     | Some s \<Rightarrow> bump (n * (length syms div n) + s) (new_chunk n (length syms) counts))"
    (is "cumulative n _ ?new")
  unfolding cumulative_def
proof (intro conjI allI impI)
  let ?L = "length syms" and ?nc = "new_chunk n (length syms) counts"
  note nc = new_chunk_counts [OF assms(1,2)]
  show "length ?new = n * CeilDiv (length (syms @ [x])) n"
    using nc(1) assms(2) by (auto simp: bump_def split: option.split)
  fix c s
  assume c: "n * c < length (syms @ [x])" and s: "s < n"
  have le: "c \<le> ?L div n"
    using c assms(2) by (metis length_append_singleton less_Suc_eq_le less_eq_div_iff_mult_less_eq mult.commute)
  have L: "n * (?L div n) \<le> ?L" "?L < n * (?L div n) + n"
    using mult_div_mod_eq [of n ?L] mod_less_divisor [OF assms(2), of ?L] by linarith+
  have up: "n * (?L div n) + n \<le> length ?nc" using nc(1) [OF s] ceil_div_Suc(3) [OF assms(2), of ?L] by simp
  show "?new ! (n * c + s) = of_nat (count_list (take (n * c + n) (syms @ [x])) (Some s))"
  proof (cases "c = ?L div n")
    case True
    have "?nc ! (n * c + s) = of_nat (count_list syms (Some s))" using nc(3) [OF s] True by simp
    moreover have "take (n * c + n) (syms @ [x]) = syms @ [x]" using True L by simp
    ultimately show ?thesis
      using True s up assms(3) by (auto simp: bump_def nth_list_update split: option.split)
  next
    case False
    then have "n * c + n \<le> n * (?L div n)" using le by (metis Suc_leI le_neq_implies_less mult_Suc_right mult_le_mono2 add.commute)
    then have lt: "n * c + n \<le> ?L" "n * c + s < n * (?L div n)" using L s by linarith+
    then have "?nc ! (n * c + s) = of_nat (count_list (take (n * c + n) syms) (Some s))"
      using nc(2) [OF s, of c] assms(2) by simp
    with lt show ?thesis by (auto simp: bump_def nth_list_update split: option.split)
  qed
qed

section \<open>The invariant of the store\<close>

text \<open>The symbols of a command.\<close>

definition ll_sym :: "nat \<times> nat \<Rightarrow> nat" where
  "ll_sym c = (if snd c = 0 then fst c else nat (the (ZopfliGetLengthSymbol (int (fst c)))))"

definition d_sym :: "nat \<times> nat \<Rightarrow> nat" where
  "d_sym c = (if snd c = 0 then 0 else nat (ZopfliGetDistSymbol (int (snd c))))"

definition store_ok :: "lz77_store \<Rightarrow> bool" where
  "store_ok st \<longleftrightarrow>
    length (litlens st) = lsize st \<and> length (dists st) = lsize st \<and> length (pos st) = lsize st \<and>
    length (ll_symbol st) = lsize st \<and> length (d_symbol st) = lsize st \<and>
    ll_symbol st = map ll_sym (zip (litlens st) (dists st)) \<and>
    d_symbol st = map d_sym (zip (litlens st) (dists st)) \<and>
    cumulative ZOPFLI_NUM_LL (ll_seq st [0..<lsize st]) (ll_counts st) \<and>
    cumulative ZOPFLI_NUM_D (d_seq st [0..<lsize st]) (d_counts st)"

lemma store_ok_counts:
  assumes "store_ok st"
  shows "cumulative ZOPFLI_NUM_LL (ll_seq st [0..<lsize st]) (ll_counts st)"
    and "cumulative ZOPFLI_NUM_D (d_seq st [0..<lsize st]) (d_counts st)"
  using assms by (simp_all add: store_ok_def)

lemma store_ok_init: "store_ok (ZopfliInitLZ77Store d)"
  by (simp add: store_ok_def ZopfliInitLZ77Store_def cumulative_def ll_seq_def d_seq_def CeilDiv_def)

lemma length_symbol_range:
  assumes "len < 259"
  shows "\<exists>s. ZopfliGetLengthSymbol (int len) = Some s \<and> 0 \<le> s \<and> s \<le> 285"
proof -
  have l: "length length_symbol_table = 259" by (simp add: length_symbol_table_def)
  have "list_all (\<lambda>s. 0 \<le> s \<and> s \<le> 285) length_symbol_table" by code_simp
  with assms l show ?thesis by (simp add: ZopfliGetLengthSymbol_def read_table_def list_all_length)
qed

lemma seq_push:
  assumes "lsize st' = Suc (lsize st)" and "length (ll_symbol st) = lsize st" "length (d_symbol st) = lsize st"
    and "length (dists st) = lsize st" and "ll_symbol st' = ll_symbol st @ [l]"
    and "d_symbol st' = d_symbol st @ [d]" and "dists st' = dists st @ [dist]"
  shows "ll_seq st' [0..<lsize st'] = ll_seq st [0..<lsize st] @ [Some l]"
    and "d_seq st' [0..<lsize st'] = d_seq st [0..<lsize st] @ [if dist \<noteq> 0 then Some d else None]"
  using assms by (simp_all add: ll_seq_def d_seq_def nth_append)

lemma store_push:
  assumes "store_ok st" and "len < 259" and "dist \<le> 32768"
  obtains st' where "ZopfliStoreLitLenDist len dist p st = Some st'" and "store_ok st'"
    and "litlens st' = litlens st @ [len]" and "dists st' = dists st @ [dist]" and "pos st' = pos st @ [p]"
    and "lsize st' = Suc (lsize st)" and "ldata st' = ldata st"
proof (cases "dist = 0")
  case True
  define st' where "st' = the (ZopfliStoreLitLenDist len dist p st)"
  have st': "ZopfliStoreLitLenDist len dist p st = Some st'"
    using assms(2) True by (simp add: st'_def ZopfliStoreLitLenDist_def Let_def)
  have f: "litlens st' = litlens st @ [len]" "dists st' = dists st @ [dist]" "pos st' = pos st @ [p]"
      "lsize st' = Suc (lsize st)" "ldata st' = ldata st" "ll_symbol st' = ll_symbol st @ [len]"
      "d_symbol st' = d_symbol st @ [0]"
      "ll_counts st' = bump (ZOPFLI_NUM_LL * (lsize st div ZOPFLI_NUM_LL) + len)
        (new_chunk ZOPFLI_NUM_LL (lsize st) (ll_counts st))"
      "d_counts st' = new_chunk ZOPFLI_NUM_D (lsize st) (d_counts st)"
    using st' assms(2) True by (auto simp: ZopfliStoreLitLenDist_def Let_def)
  note seq = seq_push [of st' st len 0 dist]
  have "store_ok st'"
    using assms f seq True cumulative_push [of ZOPFLI_NUM_LL "ll_seq st [0..<lsize st]" "ll_counts st" "Some len"]
      cumulative_push [of ZOPFLI_NUM_D "d_seq st [0..<lsize st]" "d_counts st" None]
    by (simp add: store_ok_def ll_sym_def d_sym_def) (simp add: ll_seq_def d_seq_def)
  with st' f that show thesis by blast
next
  case False
  obtain s where s: "ZopfliGetLengthSymbol (int len) = Some s" "0 \<le> s" "s \<le> 285"
    using length_symbol_range [OF assms(2)] by blast
  have d: "0 \<le> ZopfliGetDistSymbol (int dist)" "ZopfliGetDistSymbol (int dist) < 30"
    using dist_rebuilt [of "int dist"] False assms(3) by simp_all
  define st' where "st' = the (ZopfliStoreLitLenDist len dist p st)"
  have st': "ZopfliStoreLitLenDist len dist p st = Some st'"
    using assms(2) False s by (simp add: st'_def ZopfliStoreLitLenDist_def Let_def)
  have f: "litlens st' = litlens st @ [len]" "dists st' = dists st @ [dist]" "pos st' = pos st @ [p]"
      "lsize st' = Suc (lsize st)" "ldata st' = ldata st" "ll_symbol st' = ll_symbol st @ [nat s]"
      "d_symbol st' = d_symbol st @ [nat (ZopfliGetDistSymbol (int dist))]"
      "ll_counts st' = bump (ZOPFLI_NUM_LL * (lsize st div ZOPFLI_NUM_LL) + nat s)
        (new_chunk ZOPFLI_NUM_LL (lsize st) (ll_counts st))"
      "d_counts st' = bump (ZOPFLI_NUM_D * (lsize st div ZOPFLI_NUM_D) + nat (ZopfliGetDistSymbol (int dist)))
        (new_chunk ZOPFLI_NUM_D (lsize st) (d_counts st))"
    using st' assms(2) False s by (auto simp: ZopfliStoreLitLenDist_def Let_def)
  note seq = seq_push [of st' st "nat s" "nat (ZopfliGetDistSymbol (int dist))" dist]
  have "store_ok st'"
    using assms f seq False d s
      cumulative_push [of ZOPFLI_NUM_LL "ll_seq st [0..<lsize st]" "ll_counts st" "Some (nat s)"]
      cumulative_push [of ZOPFLI_NUM_D "d_seq st [0..<lsize st]" "d_counts st"
        "Some (nat (ZopfliGetDistSymbol (int dist)))"]
    by (simp add: store_ok_def ll_sym_def d_sym_def) (simp add: ll_seq_def d_seq_def)
  with st' f that show thesis by blast
qed

section \<open>The histogram of a range\<close>

lemma count_slice:
  assumes "a \<le> b"
  shows "count_list (take b xs) x = count_list (take a xs) x + count_list (drop a (take b xs)) x"
proof -
  have "take b xs = take a xs @ drop a (take b xs)"
    using append_take_drop_id [of a "take b xs"] assms by (simp add: min_absorb1)
  then show ?thesis by (metis count_list_append)
qed

lemma histogram_at:
  assumes "cumulative n syms counts" and "0 < n" and "lpos < length syms" and "s < n"
  shows "add_each (- 1) (drop (lpos + 1) (take (n * (lpos div n) + n) syms))
      (map (\<lambda>i. counts ! (n * (lpos div n) + i)) [0..<n]) ! s =
    of_nat (count_list (take (Suc lpos) syms) (Some s))"
proof -
  let ?e = "n * (lpos div n) + n"
  have "n * (lpos div n) \<le> lpos" by simp
  then have "counts ! (n * (lpos div n) + s) = of_nat (count_list (take ?e syms) (Some s))"
    using assms unfolding cumulative_def by (meson le_less_trans)
  moreover have "Suc lpos \<le> ?e"
    using mult_div_mod_eq [of n lpos] mod_less_divisor [OF assms(2), of lpos] by linarith
  then have "count_list (take ?e syms) (Some s) =
      count_list (take (Suc lpos) syms) (Some s) + count_list (drop (Suc lpos) (take ?e syms)) (Some s)"
    by (rule count_slice)
  ultimately show ?thesis using assms(4) by (simp add: add_each_nth)
qed

lemma slice_upt: "map f [a..<min b l] = drop a (take b (map f [0..<l]))"
  by (simp add: take_map drop_map min_def)

lemma length_histogram_at [simp]:
  "length (fst (ZopfliLZ77GetHistogramAt st lpos)) = ZOPFLI_NUM_LL"
  "length (snd (ZopfliLZ77GetHistogramAt st lpos)) = ZOPFLI_NUM_D"
  by (simp_all add: ZopfliLZ77GetHistogramAt_def Let_def)

lemma GetHistogramAt_correct:
  assumes "store_ok st" and "lpos < lsize st"
  shows "s < ZOPFLI_NUM_LL \<Longrightarrow> fst (ZopfliLZ77GetHistogramAt st lpos) ! s =
      of_nat (count_list (ll_seq st [0..<Suc lpos]) (Some s))"
    and "s < ZOPFLI_NUM_D \<Longrightarrow> snd (ZopfliLZ77GetHistogramAt st lpos) ! s =
      of_nat (count_list (d_seq st [0..<Suc lpos]) (Some s))"
proof -
  have take: "take (Suc lpos) (map f [0..<lsize st]) = map f [0..<Suc lpos]" for f :: "nat \<Rightarrow> nat option"
    using assms(2) by (simp add: take_map Suc_leI)
  show "s < ZOPFLI_NUM_LL \<Longrightarrow> fst (ZopfliLZ77GetHistogramAt st lpos) ! s =
      of_nat (count_list (ll_seq st [0..<Suc lpos]) (Some s))"
    using histogram_at [of ZOPFLI_NUM_LL "ll_seq st [0..<lsize st]" "ll_counts st" lpos s] store_ok_counts [OF assms(1)] assms(2)
    by (simp add: ZopfliLZ77GetHistogramAt_def Let_def ll_seq_def slice_upt take)
  show "s < ZOPFLI_NUM_D \<Longrightarrow> snd (ZopfliLZ77GetHistogramAt st lpos) ! s =
      of_nat (count_list (d_seq st [0..<Suc lpos]) (Some s))"
    using histogram_at [of ZOPFLI_NUM_D "d_seq st [0..<lsize st]" "d_counts st" lpos s] store_ok_counts [OF assms(1)] assms(2)
    by (simp add: ZopfliLZ77GetHistogramAt_def Let_def d_seq_def slice_upt take)
qed

lemma add_each_zero_nth:
  "s < n \<Longrightarrow> add_each 1 xs (replicate n 0) ! s = of_nat (count_list xs (Some s))"
  by (simp add: add_each_nth)

lemma count_range_diff:
  assumes "a \<le> b"
  shows "(of_nat (count_list (map f [0..<b]) x) :: u64) - of_nat (count_list (map f [0..<a]) x) =
    of_nat (count_list (map f [a..<b]) x)"
proof -
  have "[0..<b] = [0..<a] @ [a..<b]" using upt_add_eq_append [of 0 a "b - a"] assms by simp
  then have "count_list (map f [0..<b]) x = count_list (map f [0..<a]) x + count_list (map f [a..<b]) x"
    by (simp only: map_append count_list_append)
  then show ?thesis by simp
qed

lemma GetHistogram_correct:
  assumes "store_ok st" and "lstart \<le> lend" and "lend \<le> lsize st"
  shows "length (fst (ZopfliLZ77GetHistogram st lstart lend)) = ZOPFLI_NUM_LL"
    and "length (snd (ZopfliLZ77GetHistogram st lstart lend)) = ZOPFLI_NUM_D"
    and "s < ZOPFLI_NUM_LL \<Longrightarrow> fst (ZopfliLZ77GetHistogram st lstart lend) ! s =
      of_nat (count_list (ll_seq st [lstart..<lend]) (Some s))"
    and "s < ZOPFLI_NUM_D \<Longrightarrow> snd (ZopfliLZ77GetHistogram st lstart lend) ! s =
      of_nat (count_list (d_seq st [lstart..<lend]) (Some s))"
proof -
  let ?h = "ZopfliLZ77GetHistogram st lstart lend"
  let ?at = "ZopfliLZ77GetHistogramAt st"
  have both: "length (fst ?h) = ZOPFLI_NUM_LL \<and> length (snd ?h) = ZOPFLI_NUM_D \<and>
    (\<forall>s < ZOPFLI_NUM_LL. fst ?h ! s = of_nat (count_list (ll_seq st [lstart..<lend]) (Some s))) \<and>
    (\<forall>s < ZOPFLI_NUM_D. snd ?h ! s = of_nat (count_list (d_seq st [lstart..<lend]) (Some s)))"
  proof (cases "lend < lstart + ZOPFLI_NUM_LL * 3")
    case True
    then have "?h = (add_each 1 (ll_seq st [lstart..<lend]) (replicate ZOPFLI_NUM_LL 0),
        add_each 1 (d_seq st [lstart..<lend]) (replicate ZOPFLI_NUM_D 0))"
      by (simp add: ZopfliLZ77GetHistogram_def)
    then show ?thesis by (simp add: add_each_zero_nth)
  next
    case False
    then have e: "lend - 1 < lsize st" "Suc (lend - 1) = lend" using assms by auto
    note at_end = GetHistogramAt_correct [OF assms(1) e(1), unfolded e(2)]
    show ?thesis
    proof (cases "lstart = 0")
      case True
      then have "?h = ?at (lend - 1)"
        using False by (simp add: ZopfliLZ77GetHistogram_def split: prod.split)
      then show ?thesis using at_end True by simp
    next
      case nz: False
      then have b: "lstart - 1 < lsize st" "Suc (lstart - 1) = lstart" using assms by auto
      note at_start = GetHistogramAt_correct [OF assms(1) b(1), unfolded b(2)]
      have "?h = (map (\<lambda>i. fst (?at (lend - 1)) ! i - fst (?at (lstart - 1)) ! i) [0..<ZOPFLI_NUM_LL],
          map (\<lambda>i. snd (?at (lend - 1)) ! i - snd (?at (lstart - 1)) ! i) [0..<ZOPFLI_NUM_D])"
        using False nz by (simp add: ZopfliLZ77GetHistogram_def split: prod.split del: upt_rec_numeral)
      then show ?thesis
        using at_end at_start assms(2)
        by (simp add: ll_seq_def d_seq_def count_range_diff del: upt_rec_numeral)
    qed
  qed
  then show "length (fst ?h) = ZOPFLI_NUM_LL" "length (snd ?h) = ZOPFLI_NUM_D" by simp_all
  show "s < ZOPFLI_NUM_LL \<Longrightarrow> fst ?h ! s = of_nat (count_list (ll_seq st [lstart..<lend]) (Some s))"
    using both by blast
  show "s < ZOPFLI_NUM_D \<Longrightarrow> snd ?h ! s = of_nat (count_list (d_seq st [lstart..<lend]) (Some s))"
    using both by blast
qed

section \<open>Copying and appending\<close>

lemma map_nth_self: "length xs = n \<Longrightarrow> map (\<lambda>i. xs ! i) [0..<n] = xs"
  using map_nth [of xs] by simp

lemma copy_store:
  assumes "store_ok st" and "7 \<le> length m" and "False \<notin> set (take 7 m)"
  shows "ZopfliCopyLZ77Store st m = Some st"
proof -
  have "length (ll_counts st) = ZOPFLI_NUM_LL * CeilDiv (lsize st) ZOPFLI_NUM_LL"
    "length (d_counts st) = ZOPFLI_NUM_D * CeilDiv (lsize st) ZOPFLI_NUM_D"
    using assms(1) by (simp_all add: store_ok_def cumulative_def ll_seq_def d_seq_def)
  then show ?thesis
    using assms by (simp add: ZopfliCopyLZ77Store_def Let_def store_ok_def map_nth_self not_less)
qed

text \<open>Commands a store may hold: what \<open>ZopfliStoreLitLenDist\<close> accepts.\<close>

definition command_ok :: "nat \<times> nat \<Rightarrow> bool" where
  "command_ok c \<longleftrightarrow> fst c < 259 \<and> snd c \<le> 32768"

lemma append_from_store:
  assumes "store_ok target" and "\<forall>i \<in> set is. command_ok (litlens st ! i, dists st ! i)"
  shows "\<exists>t. append_from is st target = Some t \<and> store_ok t \<and>
    litlens t = litlens target @ map (\<lambda>i. litlens st ! i) is \<and>
    dists t = dists target @ map (\<lambda>i. dists st ! i) is \<and>
    pos t = pos target @ map (\<lambda>i. pos st ! i) is \<and>
    lsize t = lsize target + length is \<and> ldata t = ldata target"
  using assms
proof (induction "is" arbitrary: target)
  case (Cons i "is")
  obtain t where t: "ZopfliStoreLitLenDist (litlens st ! i) (dists st ! i) (pos st ! i) target = Some t"
      "store_ok t" "litlens t = litlens target @ [litlens st ! i]" "dists t = dists target @ [dists st ! i]"
      "pos t = pos target @ [pos st ! i]" "lsize t = Suc (lsize target)" "ldata t = ldata target"
    using store_push [OF Cons.prems(1), of "litlens st ! i" "dists st ! i" "pos st ! i"] Cons.prems(2)
    by (auto simp: command_ok_def)
  from Cons.IH [OF t(2)] Cons.prems(2) t show ?case by auto
qed simp

lemma append_store:
  assumes "store_ok st" and "store_ok target" and "list_all command_ok (zip (litlens st) (dists st))"
  obtains t where "ZopfliAppendLZ77Store st target = Some t" and "store_ok t"
    and "litlens t = litlens target @ litlens st" and "dists t = dists target @ dists st"
    and "pos t = pos target @ pos st" and "lsize t = lsize target + lsize st" and "ldata t = ldata target"
proof -
  have "\<forall>i \<in> set [0..<lsize st]. command_ok (litlens st ! i, dists st ! i)"
    using assms(1,3) by (auto simp: list_all_length store_ok_def)
  with append_from_store [OF assms(2)] assms(1) that show thesis
    by (fastforce simp: ZopfliAppendLZ77Store_def store_ok_def map_nth_self)
qed

end
