(* ===== verification/Zopfli_Bits.thy ===== *)
theory Zopfli_Bits
  imports Prelude
begin

text \<open>
  Bit output of zopfli's DEFLATE encoder (\<open>AddBit\<close>, \<open>AddBits\<close> and \<open>AddHuffmanBits\<close> of \<open>deflate.c\<close>).
  The output is the list of bytes written and the bit pointer into its last byte. \<open>stream\<close> is the
  sequence of bits the output stands for; each function appends the bits it is named for, and
  keeps the output well formed: the pointer is below 8, a partly filled byte exists and is zero
  from the pointer on.
\<close>

record bit_out =
  bp :: nat
  out :: "byte list"

text \<open>\<open>ZOPFLI_APPEND_DATA\<close> on the output array; memory grows as needed.\<close>

definition append_byte :: "byte \<Rightarrow> bit_out \<Rightarrow> bit_out" where
  "append_byte b s = s\<lparr>out := out s @ [b]\<rparr>"

definition AddBit :: "u32 \<Rightarrow> bit_out \<Rightarrow> bit_out" where
  "AddBit bt s =
    (let s = (if bp s = 0 then append_byte 0 s else s);
         n = length (out s) - 1;
         s = s\<lparr>out := (out s)[n := out s ! n OR ucast (push_bit (bp s) bt)]\<rparr>
     in s\<lparr>bp := (bp s + 1) AND 7\<rparr>)"

fun AddBits_from :: "u32 \<Rightarrow> nat list \<Rightarrow> bit_out \<Rightarrow> bit_out" where
  "AddBits_from symbol [] s = s"
| "AddBits_from symbol (i # is) s = AddBits_from symbol is (AddBit (drop_bit i symbol AND 1) s)"

definition AddBits :: "u32 \<Rightarrow> nat \<Rightarrow> bit_out \<Rightarrow> bit_out" where
  "AddBits symbol len s = AddBits_from symbol [0..<len] s"

definition AddHuffmanBits :: "u32 \<Rightarrow> nat \<Rightarrow> bit_out \<Rightarrow> bit_out" where
  "AddHuffmanBits symbol len s = AddBits_from symbol (map (\<lambda>i. len - i - 1) [0..<len]) s"

section \<open>The stream\<close>

definition byte_bits :: "byte \<Rightarrow> bool list" where
  "byte_bits b = map (bit b) [0..<8]"

definition bytes_bits :: "byte list \<Rightarrow> bool list" where
  "bytes_bits bs = concat (map byte_bits bs)"

definition stream :: "bit_out \<Rightarrow> bool list" where
  "stream s =
    (if bp s = 0 then bytes_bits (out s)
     else bytes_bits (butlast (out s)) @ map (bit (last (out s))) [0..<bp s])"

definition bit_out_ok :: "bit_out \<Rightarrow> bool" where
  "bit_out_ok s \<longleftrightarrow>
    bp s < 8 \<and> (bp s \<noteq> 0 \<longrightarrow> out s \<noteq> [] \<and> (\<forall>i. bp s \<le> i \<longrightarrow> \<not> bit (last (out s)) i))"

lemma bytes_bits_simps [simp]:
  "bytes_bits [] = []"
  "bytes_bits (b # bs) = byte_bits b @ bytes_bits bs"
  "bytes_bits (bs @ cs) = bytes_bits bs @ bytes_bits cs"
  by (simp_all add: bytes_bits_def)

lemma length_byte_bits [simp]: "length (byte_bits b) = 8"
  by (simp add: byte_bits_def)

lemma length_bytes_bits [simp]: "length (bytes_bits bs) = 8 * length bs"
  by (induction bs) simp_all

lemma bit_or_last:
  assumes "\<forall>i. p \<le> i \<longrightarrow> \<not> bit y i" and "p < 8" and "bt = 0 \<or> bt = 1"
  shows "bit (y OR ucast (push_bit p (bt :: u32)) :: byte) i \<longleftrightarrow> (if i < p then bit y i else i = p \<and> bt = 1)"
  using assms by (auto simp: bit_simps)

lemma stream_snoc:
  "stream \<lparr>bp = p, out = xs @ [y]\<rparr> = bytes_bits xs @ (if p = 0 then byte_bits y else map (bit y) [0..<p])"
  by (simp add: stream_def)

lemma AddBit_stream:
  assumes "bit_out_ok s" and "bt = 0 \<or> bt = 1"
  shows "bit_out_ok (AddBit bt s) \<and> stream (AddBit bt s) = stream s @ [bt = 1]"
proof -
  have seven: "Suc p AND 7 = (if p = 7 then 0 else Suc p)" if "p < 8" for p :: nat
  proof -
    have "list_all (\<lambda>p. Suc p AND 7 = (if p = 7 then 0 else Suc p)) [0..<8 :: nat]" by code_simp
    with that show ?thesis by (simp add: list_all_iff)
  qed
  obtain xs y where xy: "out (if bp s = 0 then append_byte 0 s else s) = xs @ [y]"
      "\<forall>i. bp s \<le> i \<longrightarrow> \<not> bit y i" "stream s = bytes_bits xs @ map (bit y) [0..<bp s]"
  proof (cases "bp s = 0")
    case True
    then show ?thesis by (intro that [of "out s" 0]) (simp_all add: append_byte_def stream_def)
  next
    case False
    with assms(1) show ?thesis
      by (intro that [of "butlast (out s)" "last (out s)"]) (simp_all add: bit_out_ok_def stream_def)
  qed
  let ?y = "y OR ucast (push_bit (bp s) bt)"
  have p: "bp s < 8" using assms(1) by (simp add: bit_out_ok_def)
  note bit = bit_or_last [OF xy(2) p assms(2)]
  have new: "AddBit bt s = \<lparr>bp = (if bp s = 7 then 0 else bp s + 1), out = xs @ [?y]\<rparr>"
    using xy(1) p by (cases s) (auto simp: AddBit_def Let_def append_byte_def seven split: if_splits)
  have eq: "map (bit ?y) [0..<bp s + 1] = map (bit y) [0..<bp s] @ [bt = 1]"
    by (auto simp: bit)
  show ?thesis
  proof (cases "bp s = 7")
    case True
    then have "(8 :: nat) = bp s + 1" by simp
    then have "byte_bits ?y = map (bit y) [0..<bp s] @ [bt = 1]" unfolding byte_bits_def by (simp only: eq)
    with True show ?thesis by (simp add: new stream_snoc bit_out_ok_def xy(3))
  next
    case False
    with p eq bit show ?thesis by (simp add: new stream_snoc bit_out_ok_def xy(3))
  qed
qed

lemma AddBits_from_stream:
  "bit_out_ok s \<Longrightarrow>
   bit_out_ok (AddBits_from symbol is s) \<and> stream (AddBits_from symbol is s) = stream s @ map (bit symbol) is"
proof (induction "is" arbitrary: s)
  case (Cons i "is")
  have one: "drop_bit i symbol AND 1 = 0 \<or> drop_bit i symbol AND 1 = 1"
    by (metis and.commute one_and_eq mod2_eq_if)
  moreover have "(drop_bit i symbol AND 1 = 1) = bit symbol i"
    by (simp add: and_one_eq bit_iff_odd_drop_bit odd_iff_mod_2_eq_one)
  ultimately have "bit_out_ok (AddBit (drop_bit i symbol AND 1) s)"
    "stream (AddBit (drop_bit i symbol AND 1) s) = stream s @ [bit symbol i]"
    using AddBit_stream [OF Cons.prems one] by simp_all
  with Cons.IH show ?case by simp
qed simp

lemma AddBits_stream:
  "bit_out_ok s \<Longrightarrow>
   bit_out_ok (AddBits symbol len s) \<and> stream (AddBits symbol len s) = stream s @ map (bit symbol) [0..<len]"
  unfolding AddBits_def by (rule AddBits_from_stream)

text \<open>The bits of a Huffman code, most significant first.\<close>

definition code_bits :: "u32 \<Rightarrow> nat \<Rightarrow> bool list" where
  "code_bits symbol len = rev (map (bit symbol) [0..<len])"

lemma length_code_bits [simp]: "length (code_bits symbol len) = len"
  by (simp add: code_bits_def)

lemma AddHuffmanBits_stream:
  "bit_out_ok s \<Longrightarrow>
   bit_out_ok (AddHuffmanBits symbol len s) \<and>
   stream (AddHuffmanBits symbol len s) = stream s @ code_bits symbol len"
proof -
  have "map (bit symbol) (map (\<lambda>i. len - i - 1) [0..<len]) = code_bits symbol len"
    by (rule nth_equalityI) (simp_all add: code_bits_def rev_nth)
  then show "bit_out_ok s \<Longrightarrow> ?thesis"
    using AddBits_from_stream [of s symbol "map (\<lambda>i. len - i - 1) [0..<len]"]
    by (simp add: AddHuffmanBits_def)
qed

text \<open>Flushing to a byte boundary, as before the raw bytes of a stored block.\<close>

lemma stream_aligned:
  assumes "bit_out_ok s"
  shows "\<exists>pad. bytes_bits (out s) = stream s @ pad \<and> length pad < 8 \<and> \<not> (\<exists>b \<in> set pad. b)"
proof (cases "bp s = 0")
  case True
  then show ?thesis by (intro exI [of _ "[]"]) (simp add: stream_def)
next
  case False
  then have ne: "out s \<noteq> []" and z: "\<forall>i. bp s \<le> i \<longrightarrow> \<not> bit (last (out s)) i" and p: "bp s < 8"
    using assms by (simp_all add: bit_out_ok_def)
  have "[0..<8] = [0..<bp s] @ [bp s..<8]" using upt_add_eq_append [of 0 "bp s" "8 - bp s"] p by simp
  then have "byte_bits (last (out s)) = map (bit (last (out s))) [0..<bp s] @ map (bit (last (out s))) [bp s..<8]"
    unfolding byte_bits_def by (metis map_append)
  moreover have "bytes_bits (out s) = bytes_bits (butlast (out s)) @ byte_bits (last (out s))"
    using ne by (metis append_butlast_last_id bytes_bits_simps(1-3) append_Nil2)
  ultimately show ?thesis
    using False p z by (intro exI [of _ "map (bit (last (out s))) [bp s..<8]"]) (auto simp: stream_def)
qed

end
