(* ===== verification/Zopfli_Tree.thy ===== *)
theory Zopfli_Tree
  imports Zopfli_Bits
begin

text \<open>
  Canonical Huffman codes (\<open>ZopfliLengthsToSymbols\<close> of \<open>tree.c\<close>): the code words of a list of code
  lengths. A failed assertion is \<open>None\<close>. When the lengths satisfy the inequality of Kraft, every
  code word fits into its length and no code word is a prefix of another, so the code of a symbol
  can be read back from a stream.
\<close>

section \<open>The code of tree.c\<close>

fun count_loop :: "nat \<Rightarrow> nat list \<Rightarrow> nat list \<Rightarrow> nat list option" where
  "count_loop maxbits [] c = Some c"
| "count_loop maxbits (l # ls) c =
    (if l \<le> maxbits then count_loop maxbits ls (c[l := c ! l + 1]) else None)"

text \<open>
  The smallest code of each length. \<open>code\<close> is an \<open>unsigned\<close>. The first entry of \<open>next_code\<close> is never
  set and never read.
\<close>

fun next_loop :: "nat list \<Rightarrow> nat \<Rightarrow> nat list" where
  "next_loop [] code = []"
| "next_loop (c # cs) code = (let code = ((code + c) * 2) mod 2 ^ 32 in code # next_loop cs code)"

fun assign_loop :: "nat list \<Rightarrow> nat list \<Rightarrow> u32 list" where
  "assign_loop [] next_code = []"
| "assign_loop (l # ls) next_code =
    (if l \<noteq> 0 then of_nat (next_code ! l) # assign_loop ls (next_code[l := next_code ! l + 1])
     else 0 # assign_loop ls next_code)"

definition ZopfliLengthsToSymbols :: "nat list \<Rightarrow> nat \<Rightarrow> u32 list option" where
  "ZopfliLengthsToSymbols lengths maxbits =
    (case count_loop maxbits lengths (replicate (maxbits + 1) 0) of
       None \<Rightarrow> None
     | Some bl_count \<Rightarrow>
        let bl_count = bl_count[0 := 0];
            next_code = 0 # next_loop (take maxbits bl_count) 0
        in Some (assign_loop lengths next_code))"

section \<open>What the loops compute\<close>

lemma count_loop_None: "count_loop maxbits ls c = None \<longleftrightarrow> (\<exists>l \<in> set ls. maxbits < l)"
  by (induction maxbits ls c rule: count_loop.induct) auto

lemma count_loop_Some:
  "count_loop maxbits ls c = Some c' \<Longrightarrow> maxbits < length c \<Longrightarrow>
   length c' = length c \<and> (\<forall>k \<le> maxbits. c' ! k = c ! k + count_list ls k)"
proof (induction maxbits ls c rule: count_loop.induct)
  case (2 maxbits l ls c)
  then have l: "l \<le> maxbits" "count_loop maxbits ls (c[l := c ! l + 1]) = Some c'"
    by (auto split: if_splits)
  with 2 show ?case by (auto simp: nth_list_update)
qed simp

fun base_code :: "(nat \<Rightarrow> nat) \<Rightarrow> nat \<Rightarrow> nat" where
  "base_code bl 0 = 0"
| "base_code bl (Suc b) = (base_code bl b + bl b) * 2"

lemma next_loop_nth:
  assumes "\<And>i. i < length cs \<Longrightarrow> cs ! i = bl (k + i)" and "code = base_code bl k"
    and "\<And>i. i < length cs \<Longrightarrow> base_code bl (Suc (k + i)) < 2 ^ 32" and "j < length cs"
  shows "next_loop cs code ! j = base_code bl (Suc (k + j))"
  using assms
proof (induction cs arbitrary: k code j)
  case (Cons c cs)
  have c: "c = bl k" using Cons.prems(1) [of 0] by simp
  have "(base_code bl k + bl k) * 2 < 2 ^ 32" using Cons.prems(3) [of 0] by simp
  then have code: "(code + c) * 2 mod 2 ^ 32 = base_code bl (Suc k)" using c Cons.prems(2) by simp
  show ?case
  proof (cases j)
    case 0
    with code show ?thesis by (simp add: Let_def)
  next
    case (Suc j')
    have "next_loop cs (base_code bl (Suc k)) ! j' = base_code bl (Suc (Suc k + j'))"
    proof (rule Cons.IH)
      show "cs ! i = bl (Suc k + i)" "base_code bl (Suc (Suc k + i)) < 2 ^ 32" if "i < length cs" for i
        using Cons.prems(1,3) [of "Suc i"] that by simp_all
    qed (use Cons.prems(4) Suc in simp_all)
    with code Suc show ?thesis by (simp only: next_loop.simps Let_def nth_Cons_Suc) simp
  qed
qed simp

lemma length_next_loop [simp]: "length (next_loop cs code) = length cs"
  by (induction cs code rule: next_loop.induct) (simp_all add: Let_def)

lemma length_assign_loop [simp]: "length (assign_loop ls nc) = length ls"
  by (induction ls nc rule: assign_loop.induct) simp_all

lemma assign_loop_nth:
  "i < length ls \<Longrightarrow> ls ! i \<noteq> 0 \<Longrightarrow> \<forall>l \<in> set ls. l < length nc \<Longrightarrow>
   assign_loop ls nc ! i = of_nat (nc ! (ls ! i) + count_list (take i ls) (ls ! i))"
proof (induction ls nc arbitrary: i rule: assign_loop.induct)
  case (2 l ls nc)
  then show ?case
    by (cases i) (auto simp: nth_list_update)
qed simp

section \<open>Kraft's inequality\<close>

definition kraft_sum :: "nat \<Rightarrow> (nat \<Rightarrow> bool) \<Rightarrow> nat list \<Rightarrow> nat" where
  "kraft_sum m P ls = sum_list (map (\<lambda>l. 2 ^ (m - l)) (filter P ls))"

definition kraft :: "nat \<Rightarrow> nat list \<Rightarrow> bool" where
  "kraft maxbits ls \<longleftrightarrow>
    (\<forall>l \<in> set ls. l \<le> maxbits) \<and> kraft_sum maxbits (\<lambda>l. 0 < l) ls \<le> 2 ^ maxbits"

lemma kraft_sum_mono: "(\<And>l. P l \<Longrightarrow> Q l) \<Longrightarrow> kraft_sum m P ls \<le> kraft_sum m Q ls"
proof (induction ls)
  case (Cons l ls)
  then show ?case using Cons.prems [of l] by (cases "P l"; cases "Q l") (auto simp: kraft_sum_def)
qed (simp add: kraft_sum_def)

lemma kraft_sum_eq: "kraft_sum m (\<lambda>l. l = b) ls = count_list ls b * 2 ^ (m - b)"
  by (induction ls) (auto simp: kraft_sum_def)

lemma kraft_sum_split:
  "kraft_sum m (\<lambda>l. 0 < l \<and> l < Suc b) ls =
   kraft_sum m (\<lambda>l. 0 < l \<and> l < b) ls + (if b = 0 then 0 else count_list ls b * 2 ^ (m - b))"
proof (cases "b = 0")
  case True
  then have "(\<lambda>l. 0 < l \<and> l < Suc b) = (\<lambda>l. False)" "(\<lambda>l. 0 < l \<and> l < b) = (\<lambda>l. False)" by auto
  with True show ?thesis by (simp add: kraft_sum_def)
next
  case False
  then show ?thesis by (induction ls) (auto simp: kraft_sum_def less_Suc_eq)
qed

text \<open>The scaled base code is the sum of the widths of all shorter codes.\<close>

lemma base_code_scaled:
  assumes "b \<le> m"
  shows "base_code (\<lambda>k. if k = 0 then 0 else count_list ls k) b * 2 ^ (m - b) =
    kraft_sum m (\<lambda>l. 0 < l \<and> l < b) ls"
  using assms
proof (induction b)
  case 0
  then show ?case by (simp add: kraft_sum_def)
next
  case (Suc b)
  let ?bl = "\<lambda>k. if k = 0 then 0 else count_list ls k"
  have pow: "2 * 2 ^ (m - Suc b) = (2 :: nat) ^ (m - b)"
    using Suc.prems by (metis Suc_diff_Suc Suc_le_lessD power_Suc)
  have "base_code ?bl (Suc b) * 2 ^ (m - Suc b) = (base_code ?bl b + ?bl b) * (2 * 2 ^ (m - Suc b))"
    by (simp only: base_code.simps mult.assoc)
  also have "\<dots> = base_code ?bl b * 2 ^ (m - b) + ?bl b * 2 ^ (m - b)"
    by (simp only: pow add_mult_distrib)
  also have "\<dots> = kraft_sum m (\<lambda>l. 0 < l \<and> l < Suc b) ls"
    using Suc by (simp add: kraft_sum_split)
  finally show ?case .
qed

section \<open>The code words\<close>

abbreviation len_count :: "nat list \<Rightarrow> nat \<Rightarrow> nat" where
  "len_count ls \<equiv> (\<lambda>k. if k = 0 then 0 else count_list ls k)"

text \<open>The value of the code word of symbol \<open>i\<close>.\<close>

definition code_value :: "nat list \<Rightarrow> nat \<Rightarrow> nat" where
  "code_value ls i = base_code (len_count ls) (ls ! i) + count_list (take i ls) (ls ! i)"

lemma kraft_below:
  assumes "kraft m ls"
  shows "kraft_sum m (\<lambda>l. 0 < l \<and> l < b) ls \<le> 2 ^ m"
proof -
  have "kraft_sum m (\<lambda>l. 0 < l \<and> l < b) ls \<le> kraft_sum m (\<lambda>l. 0 < l) ls" by (rule kraft_sum_mono) simp
  with assms show ?thesis by (simp add: kraft_def)
qed

lemma base_code_bound:
  assumes "kraft m ls" and "b \<le> m"
  shows "base_code (len_count ls) b \<le> 2 ^ b"
proof -
  have "base_code (len_count ls) b * 2 ^ (m - b) \<le> 2 ^ b * 2 ^ (m - b)"
    using base_code_scaled [OF assms(2), of ls] kraft_below [OF assms(1), of b] assms(2)
    by (simp flip: power_add)
  then show ?thesis by simp
qed

lemma symbols_code_value:
  assumes "kraft m ls" and "m < 32"
  obtains ss where "ZopfliLengthsToSymbols ls m = Some ss" and "length ss = length ls"
    and "\<And>i. i < length ls \<Longrightarrow> ls ! i \<noteq> 0 \<Longrightarrow> ss ! i = of_nat (code_value ls i)"
proof -
  have "count_loop m ls (replicate (m + 1) 0) \<noteq> None"
    using assms(1) by (auto simp: count_loop_None kraft_def not_less)
  then obtain c where c: "count_loop m ls (replicate (m + 1) 0) = Some c" by blast
  have cl: "length c = m + 1" "\<And>k. k \<le> m \<Longrightarrow> c ! k = count_list ls k"
    using count_loop_Some [OF c] by (auto simp del: replicate_Suc)
  define nc where "nc = 0 # next_loop (take m (c[0 := 0])) 0"
  have "next_loop (take m (c[0 := 0])) 0 ! j = base_code (len_count ls) (Suc (0 + j))" if "j < m" for j
  proof (rule next_loop_nth)
    show "take m (c[0 := 0]) ! i = len_count ls (0 + i)" if "i < length (take m (c[0 := 0]))" for i
      using that cl by (cases i) auto
    show "base_code (len_count ls) (Suc (0 + i)) < 2 ^ 32" if "i < length (take m (c[0 := 0]))" for i
    proof -
      have "base_code (len_count ls) (Suc i) \<le> 2 ^ Suc i"
        using that cl(1) by (intro base_code_bound [OF assms(1)]) simp
      also have "(2 :: nat) ^ Suc i \<le> 2 ^ 31" using that cl(1) assms(2) by (intro power_increasing) auto
      finally show ?thesis by simp
    qed
  qed (use that cl in simp_all)
  then have nc: "nc ! l = base_code (len_count ls) l" if "l \<noteq> 0" "l \<le> m" for l
    using that by (cases l) (simp_all add: nc_def)
  have len: "length nc = m + 1" using cl(1) by (simp add: nc_def)
  have lm: "l \<le> m" if "l \<in> set ls" for l using assms(1) that by (simp add: kraft_def)
  show thesis
  proof (rule that)
    show "ZopfliLengthsToSymbols ls m = Some (assign_loop ls nc)"
      unfolding ZopfliLengthsToSymbols_def c nc_def Let_def by simp
    show "assign_loop ls nc ! i = of_nat (code_value ls i)" if "i < length ls" "ls ! i \<noteq> 0" for i
      using assign_loop_nth [OF that, of nc] lm len nc [OF that(2)] that(1)
      by (simp add: code_value_def less_Suc_eq_le)
  qed simp
qed

text \<open>Code words as intervals of numbers of \<open>m\<close> bits.\<close>

lemma code_value_scaled:
  assumes "ls ! i \<le> m"
  shows "code_value ls i * 2 ^ (m - ls ! i) =
    kraft_sum m (\<lambda>l. 0 < l \<and> l < ls ! i) ls + count_list (take i ls) (ls ! i) * 2 ^ (m - ls ! i)"
  using base_code_scaled [OF assms, of ls] by (simp add: code_value_def add_mult_distrib)

lemma count_list_take: "i < length ls \<Longrightarrow> count_list (take (Suc i) ls) (ls ! i) = Suc (count_list (take i ls) (ls ! i))"
  by (simp add: take_Suc_conv_app_nth)

lemma count_list_take_le: "i \<le> j \<Longrightarrow> count_list (take i ls) x \<le> count_list (take j ls) x"
  by (metis count_list_append le_add1 min.absorb1 take_append take_take append_take_drop_id le_iff_add)

lemma code_interval:
  assumes "i < length ls" and "ls ! i \<noteq> 0" and "ls ! i \<le> m"
  shows "(code_value ls i + 1) * 2 ^ (m - ls ! i) \<le> kraft_sum m (\<lambda>l. 0 < l \<and> l < Suc (ls ! i)) ls"
proof -
  have "Suc (count_list (take i ls) (ls ! i)) \<le> count_list ls (ls ! i)"
    using count_list_take_le [of "Suc i" "length ls" ls "ls ! i"] count_list_take [OF assms(1)] assms(1) by simp
  then have "Suc (count_list (take i ls) (ls ! i)) * 2 ^ (m - ls ! i) \<le> count_list ls (ls ! i) * 2 ^ (m - ls ! i)"
    by (rule mult_le_mono1)
  then show ?thesis
    using code_value_scaled [OF assms(3)] assms(2) by (simp add: kraft_sum_split)
qed

lemma code_value_bound:
  assumes "kraft m ls" and "i < length ls" and "ls ! i \<noteq> 0"
  shows "code_value ls i < 2 ^ (ls ! i)"
proof -
  have le: "ls ! i \<le> m" using assms(1,2) by (simp add: kraft_def)
  have "(code_value ls i + 1) * 2 ^ (m - ls ! i) \<le> 2 ^ (ls ! i) * 2 ^ (m - ls ! i)"
    using order.trans [OF code_interval [OF assms(2,3) le] kraft_below [OF assms(1)]] le
    by (simp flip: power_add)
  then have "code_value ls i + 1 \<le> 2 ^ (ls ! i)" by (simp only: mult_le_cancel2) simp
  then show ?thesis by simp
qed

lemma code_order:
  assumes "i < length ls" "j < length ls" "ls ! i \<noteq> 0" "ls ! j \<le> m"
    and "ls ! i < ls ! j \<or> ls ! i = ls ! j \<and> i < j"
  shows "(code_value ls i + 1) * 2 ^ (m - ls ! i) \<le> code_value ls j * 2 ^ (m - ls ! j)"
  using assms(5)
proof
  assume lt: "ls ! i < ls ! j"
  have "(code_value ls i + 1) * 2 ^ (m - ls ! i) \<le> kraft_sum m (\<lambda>l. 0 < l \<and> l < Suc (ls ! i)) ls"
    using assms lt by (intro code_interval) auto
  also have "\<dots> \<le> kraft_sum m (\<lambda>l. 0 < l \<and> l < ls ! j) ls" using lt by (intro kraft_sum_mono) auto
  finally show ?thesis using code_value_scaled [OF assms(4)] by simp
next
  assume eq: "ls ! i = ls ! j \<and> i < j"
  then have "Suc (count_list (take i ls) (ls ! i)) \<le> count_list (take j ls) (ls ! i)"
    using count_list_take_le [of "Suc i" j ls "ls ! i"] count_list_take [OF assms(1)] by simp
  then have "code_value ls i + 1 \<le> code_value ls j" using eq by (simp add: code_value_def)
  then have "(code_value ls i + 1) * 2 ^ (m - ls ! i) \<le> code_value ls j * 2 ^ (m - ls ! i)"
    by (rule mult_le_mono1)
  then show ?thesis using eq by simp
qed

text \<open>No code word is a prefix of another.\<close>

lemma code_prefix_free:
  assumes "kraft m ls" and "i < length ls" "j < length ls" "ls ! i \<noteq> 0" "ls ! i \<le> ls ! j" "i \<noteq> j"
  shows "code_value ls j div 2 ^ (ls ! j - ls ! i) \<noteq> code_value ls i"
proof
  let ?d = "ls ! j - ls ! i"
  assume pre: "code_value ls j div 2 ^ ?d = code_value ls i"
  have m: "ls ! i \<le> m" "ls ! j \<le> m" using assms(1-3) by (simp_all add: kraft_def)
  have pow: "(2 :: nat) ^ (m - ls ! i) = 2 ^ ?d * 2 ^ (m - ls ! j)"
    using assms(5) m by (simp flip: power_add)
  have "code_value ls i * 2 ^ ?d \<le> code_value ls j" using pre by (metis div_times_less_eq_dividend)
  then have lo: "code_value ls i * 2 ^ (m - ls ! i) \<le> code_value ls j * 2 ^ (m - ls ! j)"
    by (simp add: pow flip: mult.assoc)
  have "code_value ls j < (code_value ls i + 1) * 2 ^ ?d"
    using pre by (metis add.commute dividend_less_div_times mult.commute plus_1_eq_Suc mult_Suc zero_less_numeral zero_less_power)
  then have hi: "code_value ls j * 2 ^ (m - ls ! j) < (code_value ls i + 1) * 2 ^ (m - ls ! i)"
    by (simp add: pow flip: mult.assoc)
  show False
  proof (cases "ls ! i < ls ! j \<or> i < j")
    case True
    then show False using code_order [of i ls j m] assms(2-5) m hi by fastforce
  next
    case False
    then have "ls ! j = ls ! i" "j < i" using assms(5,6) by auto
    then have "(code_value ls j + 1) * 2 ^ (m - ls ! j) \<le> code_value ls i * 2 ^ (m - ls ! i)"
      using code_order [of j ls i m] assms(2-4) m by simp
    moreover have "0 < (2 :: nat) ^ (m - ls ! j)" by simp
    ultimately show False using lo by (simp only: add_mult_distrib)
  qed
qed

section \<open>Reading a code word back\<close>

text \<open>What a decoder does with the lengths and code words: find the symbol whose code word starts the stream.\<close>

definition decode_symbol :: "nat list \<Rightarrow> u32 list \<Rightarrow> bool list \<Rightarrow> (nat \<times> bool list) option" where
  "decode_symbol ls ss bs =
    map_option (\<lambda>i. (i, drop (ls ! i) bs))
      (find (\<lambda>i. ls ! i \<noteq> 0 \<and> take (ls ! i) bs = code_bits (ss ! i) (ls ! i)) [0..<length ls])"

lemma bit_nat_high: "v < 2 ^ k \<Longrightarrow> k \<le> n \<Longrightarrow> \<not> bit (v :: nat) n"
  by (metis bit_take_bit_iff not_le take_bit_nat_eq_self_iff)

lemma code_bits_nth: "i < l \<Longrightarrow> code_bits w l ! i = bit w (l - Suc i)"
  by (simp add: code_bits_def rev_nth)

lemma code_prefix_value:
  assumes "v < 2 ^ l" and "w < 2 ^ k" and "k \<le> l" and "l < 32"
    and "take k (code_bits (of_nat v) l) = code_bits (of_nat w) k"
  shows "v div 2 ^ (l - k) = w"
proof -
  have "bit (v div 2 ^ (l - k)) n \<longleftrightarrow> bit w n" for n
  proof (cases "n < k")
    case True
    have "take k (code_bits (of_nat v) l) ! (k - Suc n) = code_bits (of_nat w) k ! (k - Suc n)"
      using assms(5) by simp
    moreover define d where "d = l - k"
    have d: "l - Suc (k - Suc n) = d + n" "k - Suc (k - Suc n) = n" "d + n < 32" "n < 32"
      using True assms(3,4) by (auto simp: d_def)
    ultimately have "bit (of_nat v :: u32) (d + n) = bit (of_nat w :: u32) n"
      using True assms(3) by (simp add: code_bits_nth)
    then have "bit v (d + n) = bit w n" using d by (simp add: bit_simps)
    then show ?thesis by (simp add: bit_drop_bit_eq flip: drop_bit_eq_div d_def)
  next
    case False
    have "v div 2 ^ (l - k) < 2 ^ k"
      using assms(1,3) by (simp add: less_mult_imp_div_less flip: power_add)
    with False assms(2) show ?thesis by (simp add: bit_nat_high)
  qed
  then show ?thesis by (intro bit_eqI) simp
qed

lemma decode_encode:
  assumes "kraft m ls" and "m < 32" and "ZopfliLengthsToSymbols ls m = Some ss"
    and "i < length ls" and "ls ! i \<noteq> 0"
  shows "decode_symbol ls ss (code_bits (ss ! i) (ls ! i) @ rest) = Some (i, rest)"
proof -
  obtain ss' where ss': "ZopfliLengthsToSymbols ls m = Some ss'"
      "\<And>i. i < length ls \<Longrightarrow> ls ! i \<noteq> 0 \<Longrightarrow> ss' ! i = of_nat (code_value ls i)"
    using symbols_code_value [OF assms(1,2)] by metis
  then have val: "ss ! j = of_nat (code_value ls j)" if "j < length ls" "ls ! j \<noteq> 0" for j
    using that assms(3) by simp
  have short: "ls ! j \<le> m" if "j < length ls" for j using that assms(1) by (simp add: kraft_def)
  let ?bs = "code_bits (ss ! i) (ls ! i) @ rest"
  have only: "j = i"
    if j: "j < length ls" "ls ! j \<noteq> 0" and hit: "take (ls ! j) ?bs = code_bits (ss ! j) (ls ! j)" for j
  proof (rule ccontr)
    assume "j \<noteq> i"
    note bound = code_value_bound [OF assms(1)]
    consider "ls ! j \<le> ls ! i" | "ls ! i \<le> ls ! j" by linarith
    then show False
    proof cases
      case 1
      then have "take (ls ! j) (code_bits (ss ! i) (ls ! i)) = code_bits (ss ! j) (ls ! j)" using hit by simp
      then have "code_value ls i div 2 ^ (ls ! i - ls ! j) = code_value ls j"
        using 1 j assms(2,4,5) val short [OF assms(4)] bound by (intro code_prefix_value) auto
      with code_prefix_free [OF assms(1) j(1) assms(4) j(2) 1 \<open>j \<noteq> i\<close>] show False by simp
    next
      case 2
      have "take (ls ! i) (code_bits (ss ! j) (ls ! j)) = code_bits (ss ! i) (ls ! i)"
        using 2 by (simp flip: hit)
      then have "code_value ls j div 2 ^ (ls ! j - ls ! i) = code_value ls i"
        using 2 j assms(2,4,5) val short [OF j(1)] bound by (intro code_prefix_value) auto
      with code_prefix_free [OF assms(1,4) j(1) assms(5) 2] \<open>j \<noteq> i\<close> show False by simp
    qed
  qed
  have "\<not> (ls ! j \<noteq> 0 \<and> take (ls ! j) ?bs = code_bits (ss ! j) (ls ! j))" if "j < i" for j
    using only [of j] that assms(4) by auto
  then have "find (\<lambda>j. ls ! j \<noteq> 0 \<and> take (ls ! j) ?bs = code_bits (ss ! j) (ls ! j)) [0..<length ls] = Some i"
    unfolding find_Some_iff using assms(4,5) by (intro exI [of _ i]) simp
  then show ?thesis by (simp add: decode_symbol_def)
qed

end
