(* ===== verification/Zopfli_Data.thy ===== *)
theory Zopfli_Data
  imports Zopfli_Store Zopfli_Tree
begin

text \<open>
  The compressed data of a DEFLATE block (\<open>deflate.c\<close>): \<open>AddLZ77Data\<close> writes the commands of a range of
  the store with given Huffman codes, \<open>GetFixedTree\<close> gives the codes of a fixed block, and the
  \<open>CalculateBlockSymbolSize\<close> functions compute the number of bits. A failed assertion is \<open>None\<close>.
  \<open>size_t\<close> results are 64-bit words.

  A reference decoder reads the commands back, for every pair of codes that satisfies Kraft's
  inequality, and the computed size is the number of bits that were written.
\<close>

section \<open>The code of deflate.c\<close>

fun AddLZ77Data_loop ::
  "lz77_store \<Rightarrow> u32 list \<Rightarrow> nat list \<Rightarrow> u32 list \<Rightarrow> nat list \<Rightarrow> nat list \<Rightarrow> nat \<Rightarrow> bit_out \<Rightarrow>
   (nat \<times> bit_out) option"
where
  "AddLZ77Data_loop lz77 ll_symbols ll_lengths d_symbols d_lengths [] testlength s = Some (testlength, s)"
| "AddLZ77Data_loop lz77 ll_symbols ll_lengths d_symbols d_lengths (i # is) testlength s =
    (let dist = dists lz77 ! i;
         litlen = litlens lz77 ! i
     in if dist = 0 then
          (if \<not> litlen < 256 then None
           else if \<not> ll_lengths ! litlen > 0 then None
           else AddLZ77Data_loop lz77 ll_symbols ll_lengths d_symbols d_lengths is (testlength + 1)
             (AddHuffmanBits (ll_symbols ! litlen) (ll_lengths ! litlen) s))
        else
          do {
            lls \<leftarrow> map_option nat (ZopfliGetLengthSymbol (int litlen));
            let ds = nat (ZopfliGetDistSymbol (int dist));
            lv \<leftarrow> ZopfliGetLengthExtraBitsValue (int litlen);
            lb \<leftarrow> ZopfliGetLengthExtraBits (int litlen);
            if \<not> (3 \<le> litlen \<and> litlen \<le> 288) then None
            else if \<not> ll_lengths ! lls > 0 then None
            else if \<not> d_lengths ! ds > 0 then None
            else
              (let s = AddHuffmanBits (ll_symbols ! lls) (ll_lengths ! lls) s;
                   s = AddBits (of_int lv) (nat lb) s;
                   s = AddHuffmanBits (d_symbols ! ds) (d_lengths ! ds) s;
                   s = AddBits (of_int (ZopfliGetDistExtraBitsValue (int dist)))
                         (nat (ZopfliGetDistExtraBits (int dist))) s
               in AddLZ77Data_loop lz77 ll_symbols ll_lengths d_symbols d_lengths is (testlength + litlen) s)
          })"

definition AddLZ77Data ::
  "lz77_store \<Rightarrow> nat \<Rightarrow> nat \<Rightarrow> nat \<Rightarrow> u32 list \<Rightarrow> nat list \<Rightarrow> u32 list \<Rightarrow> nat list \<Rightarrow> bit_out \<Rightarrow> bit_out option"
where
  "AddLZ77Data lz77 lstart lend expected_data_size ll_symbols ll_lengths d_symbols d_lengths s =
    (case AddLZ77Data_loop lz77 ll_symbols ll_lengths d_symbols d_lengths [lstart..<lend] 0 s of
       None \<Rightarrow> None
     | Some (testlength, s) \<Rightarrow>
         if expected_data_size = 0 \<or> testlength = expected_data_size then Some s else None)"

definition GetFixedTree :: "nat list \<times> nat list" where
  "GetFixedTree =
    (replicate 144 8 @ replicate (256 - 144) 9 @ replicate (280 - 256) 7 @ replicate (288 - 280) 8,
     replicate 32 5)"

fun SymbolSizeSmall_loop :: "nat list \<Rightarrow> nat list \<Rightarrow> lz77_store \<Rightarrow> nat list \<Rightarrow> u64 \<Rightarrow> u64 option" where
  "SymbolSizeSmall_loop ll_lengths d_lengths lz77 [] result = Some result"
| "SymbolSizeSmall_loop ll_lengths d_lengths lz77 (i # is) result =
    (if \<not> i < lsize lz77 then None
     else if \<not> litlens lz77 ! i < 259 then None
     else if dists lz77 ! i = 0 then
       SymbolSizeSmall_loop ll_lengths d_lengths lz77 is (result + of_nat (ll_lengths ! (litlens lz77 ! i)))
     else
       do {
         l \<leftarrow> ZopfliGetLengthSymbol (int (litlens lz77 ! i));
         let d = ZopfliGetDistSymbol (int (dists lz77 ! i));
         lb \<leftarrow> ZopfliGetLengthSymbolExtraBits l;
         db \<leftarrow> ZopfliGetDistSymbolExtraBits d;
         SymbolSizeSmall_loop ll_lengths d_lengths lz77 is
           (result + of_nat (ll_lengths ! nat l) + of_nat (d_lengths ! nat d) + of_int lb + of_int db)
       })"

definition CalculateBlockSymbolSizeSmall ::
  "nat list \<Rightarrow> nat list \<Rightarrow> lz77_store \<Rightarrow> nat \<Rightarrow> nat \<Rightarrow> u64 option" where
  "CalculateBlockSymbolSizeSmall ll_lengths d_lengths lz77 lstart lend =
    map_option (\<lambda>result. result + of_nat (ll_lengths ! 256))
      (SymbolSizeSmall_loop ll_lengths d_lengths lz77 [lstart..<lend] 0)"

text \<open>One of the loops over the symbols with their counts; \<open>extra\<close> is the table of extra bits it adds.\<close>

fun counts_loop :: "(int \<Rightarrow> int option) \<Rightarrow> nat list \<Rightarrow> u64 list \<Rightarrow> nat list \<Rightarrow> u64 \<Rightarrow> u64 option" where
  "counts_loop extra lengths counts [] result = Some result"
| "counts_loop extra lengths counts (i # is) result =
    do {
      b \<leftarrow> extra (int i);
      counts_loop extra lengths counts is (result + of_nat (lengths ! i) * counts ! i + of_int b * counts ! i)
    }"

definition CalculateBlockSymbolSizeGivenCounts ::
  "u64 list \<Rightarrow> u64 list \<Rightarrow> nat list \<Rightarrow> nat list \<Rightarrow> lz77_store \<Rightarrow> nat \<Rightarrow> nat \<Rightarrow> u64 option" where
  "CalculateBlockSymbolSizeGivenCounts llc dc ll_lengths d_lengths lz77 lstart lend =
    (if lstart + ZOPFLI_NUM_LL * 3 > lend then
       CalculateBlockSymbolSizeSmall ll_lengths d_lengths lz77 lstart lend
     else
       do {
         result \<leftarrow> counts_loop (\<lambda>_. Some 0) ll_lengths llc [0..<256] 0;
         result \<leftarrow> counts_loop ZopfliGetLengthSymbolExtraBits ll_lengths llc [257..<286] result;
         result \<leftarrow> counts_loop ZopfliGetDistSymbolExtraBits d_lengths dc [0..<30] result;
         Some (result + of_nat (ll_lengths ! 256))
       })"

definition CalculateBlockSymbolSize ::
  "nat list \<Rightarrow> nat list \<Rightarrow> lz77_store \<Rightarrow> nat \<Rightarrow> nat \<Rightarrow> u64 option" where
  "CalculateBlockSymbolSize ll_lengths d_lengths lz77 lstart lend =
    (if lstart + ZOPFLI_NUM_LL * 3 > lend then
       CalculateBlockSymbolSizeSmall ll_lengths d_lengths lz77 lstart lend
     else
       case ZopfliLZ77GetHistogram lz77 lstart lend of
         (llc, dc) \<Rightarrow> CalculateBlockSymbolSizeGivenCounts llc dc ll_lengths d_lengths lz77 lstart lend)"

section \<open>The bits of a command\<close>

definition command_bits :: "u32 list \<Rightarrow> nat list \<Rightarrow> u32 list \<Rightarrow> nat list \<Rightarrow> nat \<times> nat \<Rightarrow> bool list" where
  "command_bits lss lls dss dls c =
    code_bits (lss ! ll_sym c) (lls ! ll_sym c) @
    (if snd c = 0 then []
     else map (bit (the (ZopfliGetLengthExtraBitsValue (int (fst c)))))
            [0..<nat (the (ZopfliGetLengthExtraBits (int (fst c))))] @
          code_bits (dss ! d_sym c) (dls ! d_sym c) @
          map (bit (ZopfliGetDistExtraBitsValue (int (snd c))))
            [0..<nat (ZopfliGetDistExtraBits (int (snd c)))])"

text \<open>Commands that can be written with given code lengths.\<close>

definition encodable :: "nat list \<Rightarrow> nat list \<Rightarrow> nat \<times> nat \<Rightarrow> bool" where
  "encodable lls dls c \<longleftrightarrow>
    lls ! ll_sym c > 0 \<and>
    (if snd c = 0 then fst c < 256
     else 3 \<le> fst c \<and> fst c \<le> 258 \<and> snd c \<le> 32768 \<and> dls ! d_sym c > 0)"

definition command_at :: "lz77_store \<Rightarrow> nat \<Rightarrow> nat \<times> nat" where
  "command_at lz77 i = (litlens lz77 ! i, dists lz77 ! i)"

text \<open>The number of bytes a command stands for.\<close>

definition command_length :: "nat \<times> nat \<Rightarrow> nat" where
  "command_length c = (if snd c = 0 then 1 else fst c)"

lemma command_at_simps [simp]:
  "fst (command_at lz77 i) = litlens lz77 ! i" "snd (command_at lz77 i) = dists lz77 ! i"
  by (simp_all add: command_at_def)

lemma encodable_match:
  assumes "encodable lls dls c" and "snd c \<noteq> 0"
  obtains s b v where "ZopfliGetLengthSymbol (int (fst c)) = Some (int s)"
    and "ZopfliGetLengthExtraBits (int (fst c)) = Some (int b)"
    and "ZopfliGetLengthExtraBitsValue (int (fst c)) = Some v"
    and "ll_sym c = s" and "257 \<le> s" and "s \<le> 285" and "ZopfliGetLengthSymbolExtraBits (int s) = Some (int b)"
    and "length_base ! (s - 257) + v = int (fst c)" and "0 \<le> v" and "v < 2 ^ b" and "b \<le> 5"
proof -
  have "3 \<le> int (fst c)" "int (fst c) \<le> 258" using assms by (simp_all add: encodable_def)
  from length_rebuilt [OF this] obtain s b v where *: "ZopfliGetLengthSymbol (int (fst c)) = Some s"
      "257 \<le> s" "s \<le> 285" "ZopfliGetLengthExtraBits (int (fst c)) = Some b"
      "ZopfliGetLengthExtraBitsValue (int (fst c)) = Some v"
      "length_base ! nat (s - 257) + v = int (fst c)" "0 \<le> v" "v < 2 ^ nat b" "0 \<le> b" "b \<le> 5"
      "ZopfliGetLengthSymbolExtraBits s = Some b" .
  show thesis
    by (rule that [of "nat s" "nat b" v]) (use * assms(2) in \<open>simp_all add: ll_sym_def nat_diff_distrib\<close>)
qed

lemma encodable_dist:
  assumes "encodable lls dls c" and "snd c \<noteq> 0"
  obtains d b v where "ZopfliGetDistSymbol (int (snd c)) = int d"
    and "ZopfliGetDistExtraBits (int (snd c)) = int b" and "ZopfliGetDistExtraBitsValue (int (snd c)) = v"
    and "d_sym c = d" and "d < 30" and "ZopfliGetDistSymbolExtraBits (int d) = Some (int b)"
    and "dist_base ! d + v = int (snd c)" and "0 \<le> v" and "v < 2 ^ b" and "b \<le> 13"
proof -
  have "1 \<le> int (snd c)" "int (snd c) \<le> 32768" using assms by (simp_all add: encodable_def)
  note * = dist_rebuilt [OF this]
  show thesis
    by (rule that [of "nat (ZopfliGetDistSymbol (int (snd c)))" "nat (ZopfliGetDistExtraBits (int (snd c)))"
          "ZopfliGetDistExtraBitsValue (int (snd c))"])
      (use * assms(2) in \<open>simp_all add: d_sym_def nat_less_iff nat_le_iff\<close>)
qed

lemma encodable_symbols:
  assumes "encodable lls dls c"
  shows "ll_sym c < 256 \<or> 257 \<le> ll_sym c \<and> ll_sym c < 286" and "snd c \<noteq> 0 \<Longrightarrow> d_sym c < 30"
proof -
  show "ll_sym c < 256 \<or> 257 \<le> ll_sym c \<and> ll_sym c < 286"
  proof (cases "snd c = 0")
    case True
    with assms show ?thesis by (simp add: encodable_def ll_sym_def)
  next
    case False
    obtain s where "ll_sym c = s" "257 \<le> s" "s \<le> 285" using encodable_match [OF assms False] by metis
    then show ?thesis by simp
  qed
  show "snd c \<noteq> 0 \<Longrightarrow> d_sym c < 30" using encodable_dist [OF assms] by metis
qed

lemma bits_of_int: "n \<le> 32 \<Longrightarrow> map (bit (of_int v :: u32)) [0..<n] = map (bit v) [0..<n]"
  by (auto simp: bit_simps)

text \<open>Writing the commands succeeds and appends their bits.\<close>

lemma AddLZ77Data_loop_stream:
  assumes "bit_out_ok s" and "\<forall>i \<in> set is. encodable lls dls (command_at lz77 i)"
  shows "\<exists>s'. AddLZ77Data_loop lz77 lss lls dss dls is n s =
      Some (n + sum_list (map (command_length \<circ> command_at lz77) is), s') \<and> bit_out_ok s' \<and>
      stream s' = stream s @ concat (map (command_bits lss lls dss dls \<circ> command_at lz77) is)"
  using assms
proof (induction "is" arbitrary: n s)
  case (Cons i "is")
  let ?c = "command_at lz77 i"
  have enc: "encodable lls dls ?c" using Cons.prems by simp
  have rest: "\<forall>i \<in> set is. encodable lls dls (command_at lz77 i)" using Cons.prems by simp
  show ?case
  proof (cases "dists lz77 ! i = 0")
    case True
    let ?s = "AddHuffmanBits (lss ! (litlens lz77 ! i)) (lls ! (litlens lz77 ! i)) s"
    have s: "bit_out_ok ?s" "stream ?s = stream s @ code_bits (lss ! (litlens lz77 ! i)) (lls ! (litlens lz77 ! i))"
      using AddHuffmanBits_stream [OF Cons.prems(1)] by simp_all
    have "AddLZ77Data_loop lz77 lss lls dss dls (i # is) n s = AddLZ77Data_loop lz77 lss lls dss dls is (n + 1) ?s"
      using True enc by (simp add: encodable_def ll_sym_def Let_def)
    with Cons.IH [OF s(1) rest, of "n + 1"] s True show ?thesis
      by (auto simp: command_bits_def command_length_def ll_sym_def)
  next
    case False
    then obtain t b v where t: "ZopfliGetLengthSymbol (int (litlens lz77 ! i)) = Some (int t)"
        "ZopfliGetLengthExtraBits (int (litlens lz77 ! i)) = Some (int b)"
        "ZopfliGetLengthExtraBitsValue (int (litlens lz77 ! i)) = Some v"
        "ll_sym ?c = t" "b \<le> 5"
      using encodable_match [OF enc] by (metis command_at_simps)
    obtain d db dv where d: "ZopfliGetDistSymbol (int (dists lz77 ! i)) = int d" "d_sym ?c = d"
        "ZopfliGetDistExtraBits (int (dists lz77 ! i)) = int db"
        "ZopfliGetDistExtraBitsValue (int (dists lz77 ! i)) = dv" "db \<le> 13"
      using encodable_dist [OF enc] False by (metis command_at_simps)
    have e: "3 \<le> litlens lz77 ! i" "litlens lz77 ! i \<le> 258" "0 < lls ! t" "0 < dls ! d"
      using enc False t d by (simp_all add: encodable_def)
    define s1 where "s1 = AddHuffmanBits (lss ! t) (lls ! t) s"
    define s2 where "s2 = AddBits (of_int v) b s1"
    define s3 where "s3 = AddHuffmanBits (dss ! d) (dls ! d) s2"
    define s4 where "s4 = AddBits (of_int dv) db s3"
    have "bit_out_ok s4 \<and> stream s4 = stream s @ command_bits lss lls dss dls ?c"
      using AddHuffmanBits_stream [OF Cons.prems(1), of "lss ! t" "lls ! t"]
        AddBits_stream [of s1 "of_int v" b] AddHuffmanBits_stream [of s2 "dss ! d" "dls ! d"]
        AddBits_stream [of s3 "of_int dv" db] False t d
      by (simp add: s4_def s3_def s2_def s1_def command_bits_def bits_of_int)
    moreover have "AddLZ77Data_loop lz77 lss lls dss dls (i # is) n s =
        AddLZ77Data_loop lz77 lss lls dss dls is (n + litlens lz77 ! i) s4"
      using False t e d by (simp add: Let_def s4_def s3_def s2_def s1_def)
    ultimately show ?thesis
      using Cons.IH [of s4 "n + litlens lz77 ! i"] rest False by (auto simp: command_length_def)
  qed
qed simp

section \<open>The reference decoder\<close>

text \<open>
  Decoding as RFC 1951, section 3.2.3, describes it: a symbol below 256 is a literal, 256 ends the
  block, any other is a length with extra bits, followed by the symbol and the extra bits of a distance.
\<close>

definition bits_value :: "bool list \<Rightarrow> nat" where
  "bits_value bs = horner_sum of_bool 2 bs"

definition read_bits :: "nat \<Rightarrow> bool list \<Rightarrow> (nat \<times> bool list) option" where
  "read_bits n bs = (if length bs < n then None else Some (bits_value (take n bs), drop n bs))"

definition read_symbol_value ::
  "(int \<Rightarrow> int option) \<Rightarrow> int list \<Rightarrow> nat \<Rightarrow> nat \<Rightarrow> bool list \<Rightarrow> (nat \<times> bool list) option" where
  "read_symbol_value extra base first s bs =
    (if s < first then None
     else case extra (int s) of
       None \<Rightarrow> None
     | Some b \<Rightarrow> map_option (\<lambda>(v, bs). (nat (base ! (s - first)) + v, bs)) (read_bits (nat b) bs))"

definition decode_match ::
  "nat \<Rightarrow> u32 list \<Rightarrow> nat list \<Rightarrow> bool list \<Rightarrow> ((nat \<times> nat) \<times> bool list) option" where
  "decode_match s dss dls bs =
    (case read_symbol_value ZopfliGetLengthSymbolExtraBits length_base 257 s bs of
       None \<Rightarrow> None
     | Some (l, bs) \<Rightarrow>
        case decode_symbol dls dss bs of
          None \<Rightarrow> None
        | Some (d, bs) \<Rightarrow>
           map_option (\<lambda>(dist, bs). ((l, dist), bs))
             (read_symbol_value ZopfliGetDistSymbolExtraBits dist_base 0 d bs))"

lemma read_symbol_value_shorter:
  "read_symbol_value extra base first s bs = Some (v, bs') \<Longrightarrow> length bs' \<le> length bs"
  by (auto simp: read_symbol_value_def read_bits_def split: if_splits option.splits)

lemma decode_symbol_shorter:
  assumes "decode_symbol ls ss bs = Some (i, bs')"
  shows "length bs' < length bs"
proof -
  from assms have i: "ls ! i \<noteq> 0" "take (ls ! i) bs = code_bits (ss ! i) (ls ! i)" "bs' = drop (ls ! i) bs"
    by (auto simp: decode_symbol_def find_Some_iff)
  have "ls ! i \<le> length bs" using arg_cong [OF i(2), of length] by simp
  with i(1,3) show ?thesis by simp
qed

lemma decode_match_shorter: "decode_match s dss dls bs = Some (c, bs') \<Longrightarrow> length bs' \<le> length bs"
  by (auto simp: decode_match_def split: option.splits
      dest!: read_symbol_value_shorter decode_symbol_shorter)

function decode_data ::
  "u32 list \<Rightarrow> nat list \<Rightarrow> u32 list \<Rightarrow> nat list \<Rightarrow> bool list \<Rightarrow> ((nat \<times> nat) list \<times> bool list) option"
where
  "decode_data lss lls dss dls bs =
    (case decode_symbol lls lss bs of
       None \<Rightarrow> None
     | Some (s, bs1) \<Rightarrow>
        if s < 256 then
          map_option (\<lambda>(cs, r). ((s, 0) # cs, r)) (decode_data lss lls dss dls bs1)
        else if s = 256 then Some ([], bs1)
        else case decode_match s dss dls bs1 of
            None \<Rightarrow> None
          | Some (c, bs2) \<Rightarrow> map_option (\<lambda>(cs, r). (c # cs, r)) (decode_data lss lls dss dls bs2))"
  by pat_completeness auto

termination
  by (relation "measure (\<lambda>(_, _, _, _, bs). length bs)")
    (auto dest!: decode_symbol_shorter decode_match_shorter)

declare decode_data.simps [simp del]

lemma read_bits_written:
  assumes "0 \<le> v" and "v < 2 ^ n"
  shows "read_bits n (map (bit (v :: int)) [0..<n] @ rest) = Some (nat v, rest)"
proof -
  have "horner_sum of_bool 2 (map (bit (nat v)) [0..<n]) = take_bit n (nat v)"
    by (rule horner_sum_bit_eq_take_bit)
  moreover have "bit (nat v) = bit v" using assms(1) by (auto simp: bit_nat_iff)
  moreover have "take_bit n (nat v) = nat v"
    using assms by (simp add: take_bit_nat_eq_self_iff nat_less_iff)
  ultimately show ?thesis by (simp add: read_bits_def bits_value_def)
qed

lemma read_symbol_value_written:
  assumes "extra (int s) = Some (int b)" and "first \<le> s" and "0 \<le> v" "v < 2 ^ b"
    and "0 \<le> base ! (s - first)" and "base ! (s - first) + v = int l"
  shows "read_symbol_value extra base first s (map (bit v) [0..<b] @ rest) = Some (l, rest)"
proof -
  have "nat (base ! (s - first)) + nat v = l" using assms(3,5,6) by linarith
  with assms(1,2) read_bits_written [OF assms(3,4)] show ?thesis by (simp add: read_symbol_value_def)
qed

lemma bases_nonneg:
  shows "257 \<le> s \<Longrightarrow> s \<le> 285 \<Longrightarrow> 0 \<le> length_base ! (s - 257)" and "d < 30 \<Longrightarrow> 0 \<le> dist_base ! d"
proof -
  have "list_all (\<lambda>x. 0 \<le> x) length_base" "list_all (\<lambda>x. 0 \<le> x) dist_base" by code_simp+
  moreover have "length length_base = 29" "length dist_base = 30"
    by (simp_all add: length_base_def dist_base_def)
  ultimately show "257 \<le> s \<Longrightarrow> s \<le> 285 \<Longrightarrow> 0 \<le> length_base ! (s - 257)" "d < 30 \<Longrightarrow> 0 \<le> dist_base ! d"
    by (simp_all add: list_all_length)
qed

text \<open>Codes that the encoder and the decoder share.\<close>

definition code_pair :: "u32 list \<Rightarrow> nat list \<Rightarrow> u32 list \<Rightarrow> nat list \<Rightarrow> bool" where
  "code_pair lss lls dss dls \<longleftrightarrow>
    length lls = ZOPFLI_NUM_LL \<and> length dls = ZOPFLI_NUM_D \<and> kraft 15 lls \<and> kraft 15 dls \<and>
    ZopfliLengthsToSymbols lls 15 = Some lss \<and> ZopfliLengthsToSymbols dls 15 = Some dss"

lemma decode_ll:
  "code_pair lss lls dss dls \<Longrightarrow> i < ZOPFLI_NUM_LL \<Longrightarrow> 0 < lls ! i \<Longrightarrow>
   decode_symbol lls lss (code_bits (lss ! i) (lls ! i) @ rest) = Some (i, rest)"
  by (intro decode_encode [of 15]) (simp_all add: code_pair_def)

lemma decode_d:
  "code_pair lss lls dss dls \<Longrightarrow> i < ZOPFLI_NUM_D \<Longrightarrow> 0 < dls ! i \<Longrightarrow>
   decode_symbol dls dss (code_bits (dss ! i) (dls ! i) @ rest) = Some (i, rest)"
  by (intro decode_encode [of 15]) (simp_all add: code_pair_def)

lemma decode_command:
  assumes "code_pair lss lls dss dls" and "encodable lls dls c"
  shows "decode_data lss lls dss dls (command_bits lss lls dss dls c @ rest) =
    map_option (\<lambda>(cs, r). (c # cs, r)) (decode_data lss lls dss dls rest)"
proof (cases "snd c = 0")
  case True
  then have "fst c < 256" "ll_sym c = fst c" "0 < lls ! fst c" using assms(2) by (auto simp: encodable_def ll_sym_def)
  moreover have "c = (fst c, 0)" using True by (metis prod.collapse)
  ultimately show ?thesis
    using True decode_ll [OF assms(1), of "fst c"]
    by (subst decode_data.simps) (simp add: command_bits_def)
next
  case False
  obtain s b v where s: "ZopfliGetLengthExtraBits (int (fst c)) = Some (int b)"
      "ZopfliGetLengthExtraBitsValue (int (fst c)) = Some v"
      "ll_sym c = s" "257 \<le> s" "s \<le> 285" "ZopfliGetLengthSymbolExtraBits (int s) = Some (int b)"
      "length_base ! (s - 257) + v = int (fst c)" "0 \<le> v" "v < 2 ^ b"
    using encodable_match [OF assms(2) False] by metis
  obtain d db dv where d: "ZopfliGetDistExtraBits (int (snd c)) = int db"
      "ZopfliGetDistExtraBitsValue (int (snd c)) = dv"
      "d_sym c = d" "d < 30" "ZopfliGetDistSymbolExtraBits (int d) = Some (int db)"
      "dist_base ! d + dv = int (snd c)" "0 \<le> dv" "dv < 2 ^ db"
    using encodable_dist [OF assms(2) False] by metis
  have pos: "0 < lls ! s" "0 < dls ! d" using assms(2) False s(3) d(3) by (simp_all add: encodable_def)
  have len: "read_symbol_value ZopfliGetLengthSymbolExtraBits length_base 257 s (map (bit v) [0..<b] @ r) =
      Some (fst c, r)" for r
    using s bases_nonneg(1) by (intro read_symbol_value_written) auto
  have dist: "read_symbol_value ZopfliGetDistSymbolExtraBits dist_base 0 d (map (bit dv) [0..<db] @ r) =
      Some (snd c, r)" for r
    using d bases_nonneg(2) by (intro read_symbol_value_written) auto
  have "decode_match s dss dls
      (map (bit v) [0..<b] @ code_bits (dss ! d) (dls ! d) @ map (bit dv) [0..<db] @ rest) = Some (c, rest)"
    using len dist decode_d [OF assms(1) _ pos(2)] d(4) by (simp add: decode_match_def)
  then show ?thesis
    using False s d decode_ll [OF assms(1) _ pos(1)]
    by (subst decode_data.simps) (simp add: command_bits_def)
qed

lemma decode_commands:
  assumes "code_pair lss lls dss dls" and "0 < lls ! 256" and "\<forall>c \<in> set cs. encodable lls dls c"
  shows "decode_data lss lls dss dls
      (concat (map (command_bits lss lls dss dls) cs) @ code_bits (lss ! 256) (lls ! 256) @ rest) = Some (cs, rest)"
  using assms(3)
proof (induction cs)
  case Nil
  then show ?case using decode_ll [OF assms(1) _ assms(2)] by (subst decode_data.simps) simp
next
  case (Cons c cs)
  then show ?case by (simp add: decode_command [OF assms(1)])
qed

section \<open>The size of the data\<close>

definition block_bits :: "u32 list \<Rightarrow> nat list \<Rightarrow> u32 list \<Rightarrow> nat list \<Rightarrow> (nat \<times> nat) list \<Rightarrow> bool list" where
  "block_bits lss lls dss dls cs =
    concat (map (command_bits lss lls dss dls) cs) @ code_bits (lss ! 256) (lls ! 256)"

text \<open>The parts of the length of a command: its length symbol and its distance symbol, with extra bits.\<close>

definition ll_width :: "nat list \<Rightarrow> nat \<Rightarrow> u64" where
  "ll_width lls s =
    of_nat (lls ! s) + (if s < 256 then 0 else of_int (the (ZopfliGetLengthSymbolExtraBits (int s))))"

definition d_width :: "nat list \<Rightarrow> nat \<Rightarrow> u64" where
  "d_width dls d = of_nat (dls ! d) + of_int (the (ZopfliGetDistSymbolExtraBits (int d)))"

definition width :: "nat list \<Rightarrow> nat list \<Rightarrow> nat \<times> nat \<Rightarrow> u64" where
  "width lls dls c = ll_width lls (ll_sym c) + (if snd c = 0 then 0 else d_width dls (d_sym c))"

lemma width_bits:
  assumes "encodable lls dls c"
  shows "of_nat (length (command_bits lss lls dss dls c)) = width lls dls c"
proof (cases "snd c = 0")
  case True
  then have "ll_sym c < 256" using assms by (simp add: encodable_def ll_sym_def)
  with True show ?thesis by (simp add: command_bits_def width_def ll_width_def)
next
  case False
  obtain s b where s: "ZopfliGetLengthExtraBits (int (fst c)) = Some (int b)"
      "ll_sym c = s" "257 \<le> s" "ZopfliGetLengthSymbolExtraBits (int s) = Some (int b)"
    using encodable_match [OF assms False] by metis
  obtain d db where d: "ZopfliGetDistExtraBits (int (snd c)) = int db"
      "d_sym c = d" "ZopfliGetDistSymbolExtraBits (int d) = Some (int db)"
    using encodable_dist [OF assms False] by metis
  from s d False show ?thesis by (simp add: command_bits_def width_def ll_width_def d_width_def)
qed

lemma SymbolSizeSmall_loop_width:
  assumes "\<forall>i \<in> set is. i < lsize lz77 \<and> encodable lls dls (command_at lz77 i)"
  shows "SymbolSizeSmall_loop lls dls lz77 is r =
    Some (r + sum_list (map (width lls dls \<circ> command_at lz77) is))"
  using assms
proof (induction "is" arbitrary: r)
  case (Cons i "is")
  have enc: "encodable lls dls (command_at lz77 i)" and lt: "i < lsize lz77" using Cons.prems by simp_all
  show ?case
  proof (cases "dists lz77 ! i = 0")
    case True
    with enc have "litlens lz77 ! i < 256" by (simp add: encodable_def)
    with True lt Cons show ?thesis by (simp add: width_def ll_width_def ll_sym_def)
  next
    case False
    obtain s b where s: "ZopfliGetLengthSymbol (int (litlens lz77 ! i)) = Some (int s)"
        "ll_sym (command_at lz77 i) = s" "257 \<le> s" "ZopfliGetLengthSymbolExtraBits (int s) = Some (int b)"
      using encodable_match [OF enc] False by (metis command_at_simps)
    obtain d db where d: "ZopfliGetDistSymbol (int (dists lz77 ! i)) = int d"
        "d_sym (command_at lz77 i) = d" "ZopfliGetDistSymbolExtraBits (int d) = Some (int db)"
      using encodable_dist [OF enc] False by (metis command_at_simps)
    have "litlens lz77 ! i < 259" using enc False by (simp add: encodable_def)
    with False lt s d Cons show ?thesis by (simp add: width_def ll_width_def d_width_def Let_def algebra_simps)
  qed
qed simp

lemma SymbolSizeSmall_bits:
  assumes "\<forall>i \<in> set [lstart..<lend]. i < lsize lz77 \<and> encodable lls dls (command_at lz77 i)"
  shows "CalculateBlockSymbolSizeSmall lls dls lz77 lstart lend =
    Some (sum_list (map (width lls dls \<circ> command_at lz77) [lstart..<lend]) + of_nat (lls ! 256))"
  using SymbolSizeSmall_loop_width [OF assms, of 0] by (simp add: CalculateBlockSymbolSizeSmall_def)

text \<open>Summing over symbols with their counts is summing over commands.\<close>

lemma sum_list_map_eq: "(\<And>x. x \<in> set S \<Longrightarrow> f x = g x) \<Longrightarrow> sum_list (map f S) = sum_list (map g S)"
  by (metis map_cong)

lemma sum_list_single:
  assumes "distinct S" and "x \<in> set S"
  shows "sum_list (map (\<lambda>s. if s = x then w s else (0 :: u64)) S) = w x"
  using assms
proof (induction S)
  case (Cons a S)
  show ?case
  proof (cases "a = x")
    case True
    with Cons.prems have "sum_list (map (\<lambda>s. if s = x then w s else 0) S) = sum_list (map (\<lambda>s. 0 :: u64) S)"
      by (intro sum_list_map_eq) auto
    with True show ?thesis by simp
  qed (use Cons in auto)
qed simp

lemma sum_counts:
  assumes "distinct S" and "\<forall>s. Some s \<in> set xs \<longrightarrow> s \<in> set S"
  shows "sum_list (map (\<lambda>s. w s * of_nat (count_list xs (Some s))) S) =
    sum_list (map (\<lambda>x. case x of None \<Rightarrow> (0 :: u64) | Some s \<Rightarrow> w s) xs)"
  using assms(2)
proof (induction xs)
  case (Cons x xs)
  show ?case
  proof (cases x)
    case (Some s)
    have "sum_list (map (\<lambda>t. w t * of_nat (count_list (x # xs) (Some t))) S) =
        sum_list (map (\<lambda>t. w t * of_nat (count_list xs (Some t)) + (if t = s then w t else 0)) S)"
      using Some by (intro sum_list_map_eq) (simp add: algebra_simps)
    also have "\<dots> = sum_list (map (\<lambda>t. w t * of_nat (count_list xs (Some t))) S) + w s"
      using sum_list_single [OF assms(1), of s w] Some Cons.prems by (simp add: sum_list_addf)
    finally show ?thesis using Some Cons by simp
  qed (use Cons in simp)
qed simp

lemma counts_loop_sum:
  assumes "\<forall>i \<in> set is. extra (int i) \<noteq> None"
  shows "counts_loop extra lengths counts is r =
    Some (r + sum_list (map (\<lambda>i. (of_nat (lengths ! i) + of_int (the (extra (int i)))) * counts ! i) is))"
  using assms by (induction "is" arbitrary: r) (auto simp: algebra_simps)

lemma extra_bits_defined:
  "\<forall>i \<in> set [257..<286]. ZopfliGetLengthSymbolExtraBits (int i) \<noteq> None"
  "\<forall>i \<in> set [0..<30]. ZopfliGetDistSymbolExtraBits (int i) \<noteq> None"
  by (simp_all add: ZopfliGetLengthSymbolExtraBits_def ZopfliGetDistSymbolExtraBits_def read_table_def
      length_symbol_bits_table_def dist_symbol_bits_table_def)

text \<open>The computation from counts, when they are the counts of the commands apart from the end symbol.\<close>

lemma GivenCounts_width:
  assumes "\<not> lend < lstart + ZOPFLI_NUM_LL * 3"
    and "\<And>s. s < 286 \<Longrightarrow> s \<noteq> 256 \<Longrightarrow> llc ! s = of_nat (count_list (map (Some \<circ> ll_sym) cs) (Some s))"
    and "\<And>s. s < 30 \<Longrightarrow>
      dc ! s = of_nat (count_list (map (\<lambda>c. if snd c \<noteq> 0 then Some (d_sym c) else None) cs) (Some s))"
    and "\<forall>c \<in> set cs. encodable lls dls c"
  shows "CalculateBlockSymbolSizeGivenCounts llc dc lls dls lz77 lstart lend =
    Some (sum_list (map (width lls dls) cs) + of_nat (lls ! 256))"
proof -
  let ?L = "map (Some \<circ> ll_sym) cs" and ?D = "map (\<lambda>c. if snd c \<noteq> 0 then Some (d_sym c) else None) cs"
  let ?S = "[0..<256] @ [257..<286]"
  have ll: "ll_sym c \<in> set ?S" if "c \<in> set cs" for c
    using encodable_symbols(1) assms(4) that by (simp only: set_append set_upt Un_iff atLeastLessThan_iff) fastforce
  have d: "d_sym c \<in> set [0..<30]" if "c \<in> set cs" "snd c \<noteq> 0" for c
    using encodable_symbols(2) assms(4) that by (simp only: set_upt atLeastLessThan_iff) fastforce
  have "sum_list (map (\<lambda>s. ll_width lls s * llc ! s) ?S) =
      sum_list (map (\<lambda>s. ll_width lls s * of_nat (count_list ?L (Some s))) ?S)"
    by (intro sum_list_map_eq, subst assms(2)) (simp_all only: set_append set_upt Un_iff atLeastLessThan_iff, auto)
  also have "\<dots> = sum_list (map (ll_width lls \<circ> ll_sym) cs)"
    by (subst sum_counts) (use ll in \<open>auto simp: comp_def simp del: upt_rec_numeral\<close>)
  finally have L: "sum_list (map (\<lambda>s. ll_width lls s * llc ! s) [0..<256]) +
      sum_list (map (\<lambda>s. ll_width lls s * llc ! s) [257..<286]) = sum_list (map (ll_width lls \<circ> ll_sym) cs)"
    by (simp only: map_append sum_list_append)
  have "sum_list (map (\<lambda>s. d_width dls s * dc ! s) [0..<30]) =
      sum_list (map (\<lambda>s. d_width dls s * of_nat (count_list ?D (Some s))) [0..<30])"
    by (intro sum_list_map_eq, subst assms(3)) (simp_all only: set_upt atLeastLessThan_iff)
  also have "\<dots> = sum_list (map (\<lambda>c. if snd c = 0 then 0 else d_width dls (d_sym c)) cs)"
    by (subst sum_counts) (use d in \<open>auto simp: comp_def if_distrib cong: if_cong simp del: upt_rec_numeral intro!: sum_list_map_eq\<close>)
  finally have D: "sum_list (map (\<lambda>s. d_width dls s * dc ! s) [0..<30]) =
      sum_list (map (\<lambda>c. if snd c = 0 then 0 else d_width dls (d_sym c)) cs)" .
  have lits: "map (\<lambda>i. (of_nat (lls ! i) + of_int (the (Some 0))) * llc ! i) [0..<256] =
      map (\<lambda>s. ll_width lls s * llc ! s) [0..<256]"
    by (rule map_cong [OF refl]) (auto simp: ll_width_def)
  have lens: "map (\<lambda>i. (of_nat (lls ! i) + of_int (the (ZopfliGetLengthSymbolExtraBits (int i)))) * llc ! i) [257..<286] =
      map (\<lambda>s. ll_width lls s * llc ! s) [257..<286]"
    by (rule map_cong [OF refl]) (auto simp: ll_width_def)
  have dl: "(\<lambda>i. (of_nat (dls ! i) + of_int (the (ZopfliGetDistSymbolExtraBits (int i)))) * dc ! i) =
      (\<lambda>s. d_width dls s * dc ! s)"
    by (simp add: d_width_def)
  have width: "sum_list (map (width lls dls) cs) = sum_list (map (ll_width lls \<circ> ll_sym) cs) +
      sum_list (map (\<lambda>c. if snd c = 0 then 0 else d_width dls (d_sym c)) cs)"
    by (simp add: width_def [abs_def] comp_def sum_list_addf)
  show ?thesis
    using assms(1) L D width
    by (simp add: CalculateBlockSymbolSizeGivenCounts_def counts_loop_sum extra_bits_defined lits lens dl
        del: upt_rec_numeral option.sel)
qed

lemma seq_symbols:
  assumes "store_ok st" and "lend \<le> lsize st"
  shows "ll_seq st [lstart..<lend] = map (Some \<circ> ll_sym) (map (command_at st) [lstart..<lend])"
    and "d_seq st [lstart..<lend] =
      map (\<lambda>c. if snd c \<noteq> 0 then Some (d_sym c) else None) (map (command_at st) [lstart..<lend])"
proof -
  have "ll_symbol st ! i = ll_sym (command_at st i)" "d_symbol st ! i = d_sym (command_at st i)" if "i < lsize st" for i
    using assms(1) that by (simp_all add: store_ok_def command_at_def)
  with assms(2) show "ll_seq st [lstart..<lend] = map (Some \<circ> ll_sym) (map (command_at st) [lstart..<lend])"
    and "d_seq st [lstart..<lend] =
      map (\<lambda>c. if snd c \<noteq> 0 then Some (d_sym c) else None) (map (command_at st) [lstart..<lend])"
    by (simp_all add: ll_seq_def d_seq_def)
qed

lemma block_bits_width:
  assumes "\<forall>c \<in> set cs. encodable lls dls c"
  shows "of_nat (length (block_bits lss lls dss dls cs)) = sum_list (map (width lls dls) cs) + of_nat (lls ! 256)"
  using assms by (induction cs) (simp_all add: block_bits_def width_bits algebra_simps)

text \<open>Both ways of computing the size give the number of bits written.\<close>

lemma CalculateBlockSymbolSize_bits:
  assumes "store_ok st" and "lstart \<le> lend" and "lend \<le> lsize st"
    and "\<forall>i \<in> set [lstart..<lend]. encodable lls dls (command_at st i)"
  shows "CalculateBlockSymbolSize lls dls st lstart lend =
    Some (of_nat (length (block_bits lss lls dss dls (map (command_at st) [lstart..<lend]))))"
proof -
  let ?cs = "map (command_at st) [lstart..<lend]"
  have enc: "\<forall>c \<in> set ?cs. encodable lls dls c" using assms(4) by auto
  have "CalculateBlockSymbolSize lls dls st lstart lend =
    Some (sum_list (map (width lls dls) ?cs) + of_nat (lls ! 256))"
  proof (cases "lend < lstart + ZOPFLI_NUM_LL * 3")
    case True
    moreover have "CalculateBlockSymbolSizeSmall lls dls st lstart lend =
        Some (sum_list (map (width lls dls \<circ> command_at st) [lstart..<lend]) + of_nat (lls ! 256))"
      using assms(3,4) by (intro SymbolSizeSmall_bits) auto
    ultimately show ?thesis by (simp add: CalculateBlockSymbolSize_def)
  next
    case False
    obtain llc dc where h: "ZopfliLZ77GetHistogram st lstart lend = (llc, dc)" by fastforce
    note counts = GetHistogram_correct [OF assms(1-3), unfolded h seq_symbols [OF assms(1,3)]]
    have "CalculateBlockSymbolSizeGivenCounts llc dc lls dls st lstart lend =
        Some (sum_list (map (width lls dls) ?cs) + of_nat (lls ! 256))"
      using counts(3,4) by (intro GivenCounts_width [OF False _ _ enc]) simp_all
    with False h show ?thesis by (simp add: CalculateBlockSymbolSize_def)
  qed
  then show ?thesis by (simp only: block_bits_width [OF enc])
qed

section \<open>The fixed codes\<close>

lemma GetFixedTree_simps:
  "length (fst GetFixedTree) = ZOPFLI_NUM_LL" "length (snd GetFixedTree) = ZOPFLI_NUM_D"
  "i < ZOPFLI_NUM_LL \<Longrightarrow> 7 \<le> fst GetFixedTree ! i" "i < ZOPFLI_NUM_D \<Longrightarrow> snd GetFixedTree ! i = 5"
  by (simp_all add: GetFixedTree_def nth_append)

lemma fixed_kraft: "kraft 15 (fst GetFixedTree)" "kraft 15 (snd GetFixedTree)"
  by (simp_all add: kraft_def kraft_sum_def GetFixedTree_def sum_list_replicate)

lemma fixed_code_pair:
  obtains lss dss where "code_pair lss (fst GetFixedTree) dss (snd GetFixedTree)"
proof -
  obtain lss where "ZopfliLengthsToSymbols (fst GetFixedTree) 15 = Some lss"
    by (rule symbols_code_value [OF fixed_kraft(1)]) simp
  moreover obtain dss where "ZopfliLengthsToSymbols (snd GetFixedTree) 15 = Some dss"
    by (rule symbols_code_value [OF fixed_kraft(2)]) simp
  ultimately show thesis
    using that fixed_kraft GetFixedTree_simps(1,2) by (simp add: code_pair_def)
qed

text \<open>With the fixed codes every command of DEFLATE can be written.\<close>

lemma fixed_encodable:
  "encodable (fst GetFixedTree) (snd GetFixedTree) c \<longleftrightarrow>
    (if snd c = 0 then fst c < 256 else 3 \<le> fst c \<and> fst c \<le> 258 \<and> snd c \<le> 32768)"
proof (cases "encodable (replicate 288 1) (replicate 32 1) c")
  case True
  then have "ll_sym c < ZOPFLI_NUM_LL" "snd c \<noteq> 0 \<Longrightarrow> d_sym c < ZOPFLI_NUM_D"
    using encodable_symbols [OF True] by auto
  then show ?thesis
    using True GetFixedTree_simps(3) [of "ll_sym c"] GetFixedTree_simps(4) [of "d_sym c"]
    by (auto simp: encodable_def)
next
  case False
  have "ll_sym c < 288 \<and> (snd c \<noteq> 0 \<longrightarrow> d_sym c < 32)"
    if "if snd c = 0 then fst c < 256 else 3 \<le> fst c \<and> fst c \<le> 258 \<and> snd c \<le> 32768"
    using that length_symbol_range [of "fst c"] dist_rebuilt [of "int (snd c)"]
    by (auto simp: ll_sym_def d_sym_def split: if_splits)
  with False show ?thesis by (auto simp: encodable_def split: if_splits)
qed

end
