(* ===== verification/Zopfli_Block.thy ===== *)
theory Zopfli_Block
  imports Zopfli_Data
begin

text \<open>
  Stored blocks and the patch of distance codes (\<open>AddNonCompressedBlock\<close> and
  \<open>PatchDistanceCodesForBuggyDecoders\<close> of \<open>deflate.c\<close>). Positions are \<open>size_t\<close> values that do not wrap;
  the input is the list of its bytes. A reference decoder of stored blocks gives the input back; it
  finds the byte boundary from the number of bits that are left, since a stream is a whole
  number of bytes.
\<close>

section \<open>The code of deflate.c\<close>

text \<open>The loop that counts distance codes; \<open>None\<close> when the function returns from inside the loop.\<close>

fun patch_scan :: "nat list \<Rightarrow> nat list \<Rightarrow> nat \<Rightarrow> nat option" where
  "patch_scan d_lengths [] num_dist_codes = Some num_dist_codes"
| "patch_scan d_lengths (i # is) num_dist_codes =
    (let num_dist_codes = (if d_lengths ! i \<noteq> 0 then num_dist_codes + 1 else num_dist_codes)
     in if num_dist_codes \<ge> 2 then None else patch_scan d_lengths is num_dist_codes)"

definition PatchDistanceCodesForBuggyDecoders :: "nat list \<Rightarrow> nat list" where
  "PatchDistanceCodesForBuggyDecoders d_lengths =
    (case patch_scan d_lengths [0..<30] 0 of
       None \<Rightarrow> d_lengths
     | Some num_dist_codes \<Rightarrow>
         if num_dist_codes = 0 then d_lengths[1 := 1, 0 := 1]
         else if num_dist_codes = 1 then d_lengths[(if d_lengths ! 0 \<noteq> 0 then 1 else 0) := 1]
         else d_lengths)"

definition append_bytes :: "byte list \<Rightarrow> bit_out \<Rightarrow> bit_out" where
  "append_bytes bs s = fold append_byte bs s"

definition stored_size :: "nat \<Rightarrow> nat \<Rightarrow> u16" where
  "stored_size p inend = (if p + 65535 > inend then of_nat (inend - p) else 65535)"

definition stored_block :: "bool \<Rightarrow> u16 \<Rightarrow> byte list \<Rightarrow> bit_out \<Rightarrow> bit_out" where
  "stored_block final blocksize bytes s =
    (let nlen = NOT blocksize;
         s = AddBit (of_bool final) s;
         s = AddBit 0 s;
         s = AddBit 0 s;
         s = s\<lparr>bp := 0\<rparr>;
         s = append_byte (of_nat (unat blocksize mod 256)) s;
         s = append_byte (of_nat (unat blocksize div 256 mod 256)) s;
         s = append_byte (of_nat (unat nlen mod 256)) s;
         s = append_byte (of_nat (unat nlen div 256 mod 256)) s
     in append_bytes bytes s)"

function AddNonCompressedBlock :: "bool \<Rightarrow> byte list \<Rightarrow> nat \<Rightarrow> nat \<Rightarrow> bit_out \<Rightarrow> bit_out" where
  "AddNonCompressedBlock final inp p inend s =
    (let blocksize = stored_size p inend;
         currentfinal = (p + unat blocksize \<ge> inend);
         s = stored_block (final \<and> currentfinal) blocksize (map (\<lambda>i. inp ! (p + i)) [0..<unat blocksize]) s
     in if currentfinal then s
        else AddNonCompressedBlock final inp (p + unat blocksize) inend s)"
  by pat_completeness auto

termination
  by (relation "measure (\<lambda>(_, _, p, inend, _). inend - p)")
    (auto simp: stored_size_def unat_of_nat split: if_splits)

declare AddNonCompressedBlock.simps [simp del]

section \<open>Patched distance codes\<close>

lemma patch_scan_count:
  "patch_scan dl is n = (if n + length (filter (\<lambda>i. dl ! i \<noteq> 0) is) \<ge> 2 \<and> is \<noteq> [] then None
    else Some (n + length (filter (\<lambda>i. dl ! i \<noteq> 0) is)))" if "n < 2"
  using that by (induction dl "is" n rule: patch_scan.induct) (auto simp: Let_def)

definition dist_codes :: "nat list \<Rightarrow> nat" where
  "dist_codes dl = length (filter (\<lambda>i. dl ! i \<noteq> 0) [0..<30])"

lemma Patch_cases:
  "PatchDistanceCodesForBuggyDecoders dl =
    (if dist_codes dl = 0 then dl[1 := 1, 0 := 1]
     else if dist_codes dl = 1 then dl[(if dl ! 0 \<noteq> 0 then 1 else 0) := 1]
     else dl)"
  using patch_scan_count [of 0 dl "[0..<30]"]
  by (simp add: PatchDistanceCodesForBuggyDecoders_def dist_codes_def del: upt_rec_numeral)

lemma length_Patch [simp]: "length (PatchDistanceCodesForBuggyDecoders dl) = length dl"
  by (simp add: Patch_cases)

text \<open>The lengths that are there stay, and at least two codes are left.\<close>

lemma filter_upt_split:
  "length (filter P [0..<30]) = (if P 0 then 1 else 0) + (if P 1 then 1 else 0) + length (filter P [2..<30 :: nat])"
proof -
  have "[0..<30] = 0 # 1 # [2..<30 :: nat]" by (simp add: upt_conv_Cons del: upt_rec_numeral)
  then show ?thesis by simp
qed

lemma Patch_keeps:
  assumes "ZOPFLI_NUM_D \<le> length dl"
  shows "dl ! i \<noteq> 0 \<Longrightarrow> PatchDistanceCodesForBuggyDecoders dl ! i = dl ! i"
    and "dist_codes (PatchDistanceCodesForBuggyDecoders dl) = max 2 (dist_codes dl)"
    and "dl ! i = 0 \<Longrightarrow> PatchDistanceCodesForBuggyDecoders dl ! i = 0 \<or> PatchDistanceCodesForBuggyDecoders dl ! i = 1 \<and> i < 2"
proof -
  have len: "dl \<noteq> []" "Suc 0 < length dl" using assms by auto
  note split = filter_upt_split [of "\<lambda>i. dl ! i \<noteq> 0"]
  have zero: "dist_codes dl = 0 \<Longrightarrow> dl ! 0 = 0 \<and> dl ! 1 = 0"
    and one: "dist_codes dl = 1 \<Longrightarrow> dl ! 0 = 0 \<or> dl ! 1 = 0"
    unfolding dist_codes_def split by (auto split: if_splits)
  then show "dl ! i \<noteq> 0 \<Longrightarrow> PatchDistanceCodesForBuggyDecoders dl ! i = dl ! i"
    using len by (cases "i = 0"; cases "i = 1") (auto simp: Patch_cases nth_list_update)
  show "dl ! i = 0 \<Longrightarrow> PatchDistanceCodesForBuggyDecoders dl ! i = 0 \<or> PatchDistanceCodesForBuggyDecoders dl ! i = 1 \<and> i < 2"
    using len by (auto simp: Patch_cases nth_list_update)
  have tail: "filter (\<lambda>i. PatchDistanceCodesForBuggyDecoders dl ! i \<noteq> 0) [2..<30] = filter (\<lambda>i. dl ! i \<noteq> 0) [2..<30]"
    using len by (intro filter_cong [OF refl]) (auto simp: Patch_cases nth_list_update simp del: upt_rec_numeral)
  define k where "k = length (filter (\<lambda>i. dl ! i \<noteq> 0) [2..<30])"
  let ?p = "PatchDistanceCodesForBuggyDecoders dl"
  have new: "dist_codes ?p = (if ?p ! 0 \<noteq> 0 then 1 else 0) + (if ?p ! 1 \<noteq> 0 then 1 else 0) + k"
    unfolding dist_codes_def [of ?p] filter_upt_split [of "\<lambda>i. ?p ! i \<noteq> 0"] tail k_def ..
  have old: "dist_codes dl = (if dl ! 0 \<noteq> 0 then 1 else 0) + (if dl ! 1 \<noteq> 0 then 1 else 0) + k"
    unfolding dist_codes_def split k_def ..
  consider "dist_codes dl = 0" | "dist_codes dl = 1" "dl ! 0 \<noteq> 0" | "dist_codes dl = 1" "dl ! 0 = 0" | "2 \<le> dist_codes dl"
    by linarith
  then show "dist_codes ?p = max 2 (dist_codes dl)"
  proof cases
    case 4
    then show ?thesis by (simp add: Patch_cases)
  qed (use len old new in \<open>simp_all add: Patch_cases split: if_splits\<close>)
qed

lemma kraft_sum_count: "kraft_sum m (\<lambda>l. 0 < l) ls \<le> length (filter (\<lambda>l. 0 < l) ls) * 2 ^ (m - 1)"
proof (induction ls)
  case (Cons l ls)
  have "(2 :: nat) ^ (m - l) \<le> 2 ^ (m - 1)" if "0 < l" using that by (intro power_increasing) auto
  with Cons show ?case by (auto simp: kraft_sum_def intro: add_mono)
qed (simp add: kraft_sum_def)

lemma positive_count: "length (filter (\<lambda>l. 0 < l) ls) = length (filter (\<lambda>i. ls ! i \<noteq> (0 :: nat)) [0..<length ls])"
proof -
  have "length (filter (\<lambda>l. 0 < l) (map (\<lambda>i. ls ! i) [0..<length ls])) =
      length (filter (\<lambda>i. ls ! i \<noteq> 0) [0..<length ls])"
    by (simp add: filter_map comp_def)
  then show ?thesis by (simp only: map_nth)
qed

text \<open>The patched lengths still satisfy Kraft's inequality.\<close>

lemma Patch_kraft:
  assumes "kraft 15 dl" and "length dl = ZOPFLI_NUM_D" and "dl ! 30 = 0" "dl ! 31 = 0"
  shows "kraft 15 (PatchDistanceCodesForBuggyDecoders dl)"
proof (cases "2 \<le> dist_codes dl")
  case True
  with assms(1) show ?thesis by (simp add: Patch_cases)
next
  case False
  let ?p = "PatchDistanceCodesForBuggyDecoders dl"
  have "length (filter (\<lambda>l. 0 < l) ?p) = length (filter (\<lambda>i. ?p ! i \<noteq> 0) [0..<ZOPFLI_NUM_D])"
    using positive_count [of ?p] assms(2) by (simp del: upt_rec_numeral)
  moreover have "[0..<ZOPFLI_NUM_D] = [0..<30] @ [30, 31]"
    using upt_add_eq_append [of 0 30 2] by simp
  moreover have "?p ! 30 = 0" "?p ! 31 = 0" using assms(3,4) by (simp_all add: Patch_cases)
  ultimately have "length (filter (\<lambda>l. 0 < l) ?p) = dist_codes ?p"
    unfolding dist_codes_def by (simp only: filter_append) simp
  also have "\<dots> = 2" using Patch_keeps(2) [of dl] assms(2) False by simp
  finally have "kraft_sum 15 (\<lambda>l. 0 < l) ?p \<le> 2 ^ 15" using kraft_sum_count [of 15 ?p] by simp
  moreover have "l \<le> 15" if "l \<in> set ?p" for l
  proof -
    from that obtain i where i: "i < ZOPFLI_NUM_D" "l = ?p ! i" using assms(2) by (auto simp: in_set_conv_nth)
    have "dl ! i \<le> 15" using assms(1,2) i(1) by (simp add: kraft_def)
    then show ?thesis using Patch_keeps(1,3) [of dl i] assms(2) i(2) by (cases "dl ! i = 0") auto
  qed
  ultimately show ?thesis by (simp add: kraft_def)
qed

section \<open>Stored blocks read back\<close>

fun read_bytes :: "nat \<Rightarrow> bool list \<Rightarrow> (byte list \<times> bool list) option" where
  "read_bytes 0 bs = Some ([], bs)"
| "read_bytes (Suc n) bs =
    (case read_bits 8 bs of
       None \<Rightarrow> None
     | Some (b, bs) \<Rightarrow> map_option (\<lambda>(r, bs). (of_nat b # r, bs)) (read_bytes n bs))"

text \<open>
  RFC 1951, section 3.2.4: after the final bit and the type, skip to a byte boundary, read the
  length and its complement, then that many bytes.
\<close>

definition decode_stored :: "bool list \<Rightarrow> (bool \<times> byte list \<times> bool list) option" where
  "decode_stored bs =
    (case bs of
       final # False # False # bs \<Rightarrow>
         (case read_bits 16 (drop (length bs mod 8) bs) of
            None \<Rightarrow> None
          | Some (len, bs) \<Rightarrow>
             case read_bits 16 bs of
               None \<Rightarrow> None
             | Some (nlen, bs) \<Rightarrow>
                 if len + nlen \<noteq> 65535 then None
                 else map_option (\<lambda>(d, bs). (final, d, bs)) (read_bytes len bs))
     | _ \<Rightarrow> None)"

fun decode_stored_seq :: "nat \<Rightarrow> bool list \<Rightarrow> ((bool \<times> byte list) list \<times> bool list) option" where
  "decode_stored_seq 0 bs = Some ([], bs)"
| "decode_stored_seq (Suc k) bs =
    (case decode_stored bs of
       None \<Rightarrow> None
     | Some (final, d, bs) \<Rightarrow> map_option (\<lambda>(ds, bs). ((final, d) # ds, bs)) (decode_stored_seq k bs))"

lemma bits_value_byte: "bits_value (byte_bits b) = unat b"
proof -
  have "bits_value (byte_bits b) = horner_sum of_bool 2 (map (bit (unat b)) [0..<8])"
    unfolding bits_value_def byte_bits_def
    by (rule arg_cong [of _ _ "horner_sum of_bool 2"], rule map_cong [OF refl]) (auto simp: bit_simps)
  also have "\<dots> = take_bit 8 (unat b)" by (rule horner_sum_bit_eq_take_bit)
  also have "\<dots> = unat b" using unsigned_less [of b, where ?'a = nat] by (simp add: take_bit_nat_eq_self)
  finally show ?thesis .
qed

lemma bits_value_append: "bits_value (xs @ ys) = bits_value xs + 2 ^ length xs * bits_value ys"
  by (simp add: bits_value_def horner_sum_append)

lemma read_bytes_written: "read_bytes (length bs) (bytes_bits bs @ rest) = Some (bs, rest)"
  by (induction bs) (simp_all add: read_bits_def bits_value_byte)

lemma read_u16_written:
  "read_bits 16 (byte_bits b0 @ byte_bits b1 @ rest) = Some (unat b0 + 256 * unat b1, rest)"
  by (simp add: read_bits_def bits_value_append bits_value_byte)

lemma append_byte_stream:
  assumes "bp s = 0"
  shows "bp (append_byte b s) = 0" and "stream (append_byte b s) = stream s @ byte_bits b"
  using assms by (simp_all add: append_byte_def stream_def)

lemma append_bytes_stream:
  "bp s = 0 \<Longrightarrow> bp (append_bytes bs s) = 0 \<and> stream (append_bytes bs s) = stream s @ bytes_bits bs"
  by (induction bs arbitrary: s) (simp_all add: append_bytes_def append_byte_stream)

lemma u16_bytes:
  fixes w :: u16
  shows "unat (of_nat (unat w mod 256) :: byte) + 256 * unat (of_nat (unat w div 256 mod 256) :: byte) = unat w"
proof -
  have w: "unat w < 65536" using unsigned_less [of w, where ?'a = nat] by simp
  then have "unat w div 256 < 256" by (simp add: less_mult_imp_div_less)
  with w show ?thesis by (simp add: unat_of_nat)
qed

lemma unat_not_u16: "unat (w :: u16) + unat (NOT w) = 65535"
proof -
  have "NOT w = 65535 - w" by (simp add: not_eq_complement)
  moreover have "w \<le> 65535" using unsigned_less [of w, where ?'a = nat] by (simp add: word_le_nat_alt)
  ultimately have "unat (NOT w) = unat (65535 :: u16) - unat w" by (simp only: unat_sub)
  moreover have "unat w \<le> 65535" using \<open>w \<le> 65535\<close> by (simp add: word_le_nat_alt)
  ultimately show ?thesis by simp
qed

text \<open>One block: the three bits of its header, the padding, two numbers and the bytes.\<close>

lemma stored_block_stream:
  assumes "bit_out_ok s"
  obtains pad where "bp (stored_block final n bytes s) = 0"
    and "stream (stored_block final n bytes s) = stream s @ [final, False, False] @ pad @
      byte_bits (of_nat (unat n mod 256)) @ byte_bits (of_nat (unat n div 256 mod 256)) @
      byte_bits (of_nat (unat (NOT n) mod 256)) @ byte_bits (of_nat (unat (NOT n) div 256 mod 256)) @
      bytes_bits bytes"
    and "length pad < 8"
proof -
  define s1 where "s1 = AddBit 0 (AddBit 0 (AddBit (of_bool final) s))"
  have s1: "bit_out_ok s1" "stream s1 = stream s @ [final, False, False]"
    using assms by (simp_all add: s1_def AddBit_stream)
  obtain pad where pad: "bytes_bits (out s1) = stream s1 @ pad" "length pad < 8"
    using stream_aligned [OF s1(1)] by blast
  let ?s2 = "s1\<lparr>bp := 0\<rparr>"
  have s2: "bp ?s2 = 0" "stream ?s2 = stream s1 @ pad" using pad by (simp_all add: stream_def)
  define s3 where "s3 = append_byte (of_nat (unat (NOT n) div 256 mod 256)) (append_byte (of_nat (unat (NOT n) mod 256))
    (append_byte (of_nat (unat n div 256 mod 256)) (append_byte (of_nat (unat n mod 256)) ?s2)))"
  have s3: "bp s3 = 0" "stream s3 = stream s1 @ pad @
      byte_bits (of_nat (unat n mod 256)) @ byte_bits (of_nat (unat n div 256 mod 256)) @
      byte_bits (of_nat (unat (NOT n) mod 256)) @ byte_bits (of_nat (unat (NOT n) div 256 mod 256))"
    using s2 unfolding s3_def by (simp_all add: append_byte_stream)
  have b: "stored_block final n bytes s = append_bytes bytes s3"
    unfolding stored_block_def Let_def s3_def s1_def ..
  with pad(2) that s3 s1(2) append_bytes_stream [OF s3(1), of bytes] show thesis unfolding b by simp
qed

lemma decode_stored_block:
  assumes "bit_out_ok s" and "length bytes = unat n" and "length rest mod 8 = 0"
  obtains bits where "stream (stored_block final n bytes s) = stream s @ bits"
    and "bp (stored_block final n bytes s) = 0" and "bit_out_ok (stored_block final n bytes s)"
    and "decode_stored (bits @ rest) = Some (final, bytes, rest)"
proof -
  let ?num = "\<lambda>n :: u16. byte_bits (of_nat (unat n mod 256)) @ byte_bits (of_nat (unat n div 256 mod 256))"
  from stored_block_stream [OF assms(1)] obtain pad where pad:
      "bp (stored_block final n bytes s) = 0"
      "stream (stored_block final n bytes s) = stream s @ [final, False, False] @ pad @
        byte_bits (of_nat (unat n mod 256)) @ byte_bits (of_nat (unat n div 256 mod 256)) @
        byte_bits (of_nat (unat (NOT n) mod 256)) @ byte_bits (of_nat (unat (NOT n) div 256 mod 256)) @
        bytes_bits bytes"
      "length pad < 8" by blast
  let ?tail = "?num n @ ?num (NOT n) @ bytes_bits bytes @ rest"
  have "length (pad @ ?tail) mod 8 = length pad"
  proof -
    have "length (pad @ ?tail) = length pad + 8 * (4 + length bytes) + length rest" by simp
    also have "\<dots> mod 8 = length pad mod 8"
      using assms(3) by (metis add.right_neutral mod_add_right_eq mod_mult_self2)
    finally show ?thesis using pad(3) by simp
  qed
  moreover have "drop (length pad) (pad @ ?tail) = ?tail" by simp
  ultimately have "decode_stored (final # False # False # pad @ ?tail) =
      (case read_bits 16 ?tail of
         None \<Rightarrow> None
       | Some (len, bs) \<Rightarrow>
          case read_bits 16 bs of
            None \<Rightarrow> None
          | Some (nlen, bs) \<Rightarrow>
              if len + nlen \<noteq> 65535 then None
              else map_option (\<lambda>(d, bs). (final, d, bs)) (read_bytes len bs))"
    by (simp only: decode_stored_def list.case bool.case)
  also have "\<dots> = Some (final, bytes, rest)"
    using unat_not_u16 [of n] read_bytes_written [of bytes rest] assms(2)
    by (simp only: append_assoc read_u16_written u16_bytes option.case prod.case) simp
  finally have dec: "decode_stored (final # False # False # pad @ ?tail) = Some (final, bytes, rest)" .
  show thesis
    by (rule that [OF _ pad(1)]) (use pad(1,2) dec in \<open>auto simp: bit_out_ok_def\<close>)
qed

text \<open>The number of blocks.\<close>

fun stored_blocks :: "nat \<Rightarrow> nat" where
  "stored_blocks n = (if n \<le> 65535 then 1 else 1 + stored_blocks (n - 65535))"

declare stored_blocks.simps [simp del]

lemma stored_size_unat:
  assumes "p \<le> inend"
  shows "unat (stored_size p inend) = min 65535 (inend - p)"
proof -
  have "unat (of_nat (inend - p) :: u16) = inend - p" if "inend - p < 65536"
    using that by (simp only: unat_of_nat) simp
  with assms show ?thesis by (auto simp: stored_size_def min_def simp del: of_nat_diff)
qed

lemma AddNonCompressedBlock_decoded:
  assumes "bit_out_ok s" and "p \<le> inend" and "inend \<le> length inp" and "length rest mod 8 = 0"
  shows "\<exists>bits ds. stream (AddNonCompressedBlock final inp p inend s) = stream s @ bits \<and>
    bp (AddNonCompressedBlock final inp p inend s) = 0 \<and>
    decode_stored_seq (stored_blocks (inend - p)) (bits @ rest) = Some (ds, rest) \<and>
    concat (map snd ds) = take (inend - p) (drop p inp) \<and>
    map fst ds = replicate (stored_blocks (inend - p) - 1) False @ [final]"
  using assms
proof (induction final inp p inend s rule: AddNonCompressedBlock.induct)
  case (1 final inp p inend s)
  define n where "n = stored_size p inend"
  define cur where "cur \<longleftrightarrow> inend \<le> p + unat n"
  have n: "unat n = min 65535 (inend - p)" using stored_size_unat [OF 1(3)] by (simp add: n_def)
  define bytes where "bytes = map (\<lambda>i. inp ! (p + i)) [0..<unat n]"
  define s' where "s' = stored_block (final \<and> cur) n bytes s"
  have bytes: "bytes = take (unat n) (drop p inp)" "length bytes = unat n"
    using n 1(3,4) by (auto simp: bytes_def intro!: nth_equalityI)
  have step: "AddNonCompressedBlock final inp p inend s =
      (if cur then s' else AddNonCompressedBlock final inp (p + unat n) inend s')"
    by (subst AddNonCompressedBlock.simps) (simp add: Let_def n_def cur_def bytes_def s'_def)
  show ?case
  proof (cases cur)
    case True
    then have le: "inend - p \<le> 65535" "unat n = inend - p" using n by (auto simp: cur_def)
    obtain bits where "stream s' = stream s @ bits" "bp s' = 0"
        "decode_stored (bits @ rest) = Some (final, bytes, rest)"
      using decode_stored_block [OF 1(2) bytes(2) 1(5), of "final \<and> cur"] True by (auto simp: s'_def)
    then show ?thesis
      using step True bytes(1) le
      by (intro exI [of _ bits] exI [of _ "[(final, bytes)]"]) (simp add: stored_blocks.simps)
  next
    case False
    then have full: "unat n = 65535" "p + 65535 < inend" using n by (auto simp: cur_def)
    have s': "bit_out_ok s'" "bp s' = 0"
      by (rule decode_stored_block [OF 1(2) bytes(2), of "[]" "final \<and> cur"], simp, simp add: s'_def)+
    have "\<exists>bits ds. stream (AddNonCompressedBlock final inp (p + unat n) inend s') = stream s' @ bits \<and>
        bp (AddNonCompressedBlock final inp (p + unat n) inend s') = 0 \<and>
        decode_stored_seq (stored_blocks (inend - (p + unat n))) (bits @ rest) = Some (ds, rest) \<and>
        concat (map snd ds) = take (inend - (p + unat n)) (drop (p + unat n) inp) \<and>
        map fst ds = replicate (stored_blocks (inend - (p + unat n)) - 1) False @ [final]"
      by (rule 1(1) [OF n_def cur_def]) (use False full s' 1(4,5) in \<open>auto simp: s'_def bytes_def\<close>)
    then obtain bits ds where rec: "stream (AddNonCompressedBlock final inp p inend s) = stream s' @ bits"
        "bp (AddNonCompressedBlock final inp p inend s) = 0"
        "decode_stored_seq (stored_blocks (inend - (p + 65535))) (bits @ rest) = Some (ds, rest)"
        "concat (map snd ds) = take (inend - (p + 65535)) (drop (p + 65535) inp)"
        "map fst ds = replicate (stored_blocks (inend - (p + 65535)) - 1) False @ [final]"
      using step False full by auto
    have "length (stream s') mod 8 = 0" "length (stream s' @ bits) mod 8 = 0"
      using s'(2) rec(2) unfolding rec(1) [symmetric] by (simp_all add: stream_def)
    then have "length (bits @ rest) mod 8 = 0" using 1(5) by (simp add: mod_add_eq) presburger
    from decode_stored_block [OF 1(2) bytes(2) this, of "final \<and> cur"] False
    obtain bits1 where b1: "stream s' = stream s @ bits1"
        "decode_stored (bits1 @ bits @ rest) = Some (False, bytes, bits @ rest)"
      by (auto simp: s'_def)
    have "stored_blocks (inend - p) = Suc (stored_blocks (inend - (p + 65535)))"
      using full less_diff_conv2 [of p inend 65535] by (subst stored_blocks.simps) (auto simp: diff_diff_left)
    moreover have "0 < stored_blocks (inend - (p + 65535))" by (subst stored_blocks.simps) simp
    moreover have "take (inend - p) (drop p inp) = bytes @ take (inend - (p + 65535)) (drop (p + 65535) inp)"
      using full take_add [of 65535 "inend - (p + 65535)" "drop p inp"]
      by (simp add: bytes(1) add.commute)
    ultimately show ?thesis
      using rec b1 by (intro exI [of _ "bits1 @ bits"] exI [of _ "(False, bytes) # ds"])
        (auto simp: gr0_conv_Suc)
  qed
qed

end
