(* ===== verification/Zopfli_Checksum.thy ===== *)
theory Zopfli_Checksum
  imports Prelude
begin

text \<open>
  The checksums of the containers: \<open>CRC\<close> of \<open>gzip_container.c\<close> with its table of 256 entries, and \<open>adler32\<close> of
  \<open>zlib_container.c\<close>, which reduces its two 32-bit sums only every 5550 bytes. \<open>unsigned long\<close> has 64 bits.

  The table-driven CRC is the bitwise division by the polynomial \<open>0xedb88320\<close>, and the sums of
  \<open>adler32\<close> never wrap: it is the checksum of RFC 1950.
\<close>

section \<open>CRC\<close>

definition crc32_table :: "u64 list" where
  "crc32_table =
    [0, 1996959894, 3993919788, 2567524794, 124634137, 1886057615, 3915621685, 2657392035, 249268274,
    2044508324, 3772115230, 2547177864, 162941995, 2125561021, 3887607047, 2428444049, 498536548,
    1789927666, 4089016648, 2227061214, 450548861, 1843258603, 4107580753, 2211677639, 325883990,
    1684777152, 4251122042, 2321926636, 335633487, 1661365465, 4195302755, 2366115317, 997073096,
    1281953886, 3579855332, 2724688242, 1006888145, 1258607687, 3524101629, 2768942443, 901097722,
    1119000684, 3686517206, 2898065728, 853044451, 1172266101, 3705015759, 2882616665, 651767980,
    1373503546, 3369554304, 3218104598, 565507253, 1454621731, 3485111705, 3099436303, 671266974,
    1594198024, 3322730930, 2970347812, 795835527, 1483230225, 3244367275, 3060149565, 1994146192,
    31158534, 2563907772, 4023717930, 1907459465, 112637215, 2680153253, 3904427059, 2013776290,
    251722036, 2517215374, 3775830040, 2137656763, 141376813, 2439277719, 3865271297, 1802195444,
    476864866, 2238001368, 4066508878, 1812370925, 453092731, 2181625025, 4111451223, 1706088902,
    314042704, 2344532202, 4240017532, 1658658271, 366619977, 2362670323, 4224994405, 1303535960,
    984961486, 2747007092, 3569037538, 1256170817, 1037604311, 2765210733, 3554079995, 1131014506,
    879679996, 2909243462, 3663771856, 1141124467, 855842277, 2852801631, 3708648649, 1342533948,
    654459306, 3188396048, 3373015174, 1466479909, 544179635, 3110523913, 3462522015, 1591671054,
    702138776, 2966460450, 3352799412, 1504918807, 783551873, 3082640443, 3233442989, 3988292384,
    2596254646, 62317068, 1957810842, 3939845945, 2647816111, 81470997, 1943803523, 3814918930,
    2489596804, 225274430, 2053790376, 3826175755, 2466906013, 167816743, 2097651377, 4027552580,
    2265490386, 503444072, 1762050814, 4150417245, 2154129355, 426522225, 1852507879, 4275313526,
    2312317920, 282753626, 1742555852, 4189708143, 2394877945, 397917763, 1622183637, 3604390888,
    2714866558, 953729732, 1340076626, 3518719985, 2797360999, 1068828381, 1219638859, 3624741850,
    2936675148, 906185462, 1090812512, 3747672003, 2825379669, 829329135, 1181335161, 3412177804,
    3160834842, 628085408, 1382605366, 3423369109, 3138078467, 570562233, 1426400815, 3317316542,
    2998733608, 733239954, 1555261956, 3268935591, 3050360625, 752459403, 1541320221, 2607071920,
    3965973030, 1969922972, 40735498, 2617837225, 3943577151, 1913087877, 83908371, 2512341634,
    3803740692, 2075208622, 213261112, 2463272603, 3855990285, 2094854071, 198958881, 2262029012,
    4057260610, 1759359992, 534414190, 2176718541, 4139329115, 1873836001, 414664567, 2282248934,
    4279200368, 1711684554, 285281116, 2405801727, 4167216745, 1634467795, 376229701, 2685067896,
    3608007406, 1308918612, 956543938, 2808555105, 3495958263, 1231636301, 1047427035, 2932959818,
    3654703836, 1088359270, 936918000, 2847714899, 3736837829, 1202900863, 817233897, 3183342108,
    3401237130, 1404277552, 615818150, 3134207493, 3453421203, 1423857449, 601450431, 3009837614,
    3294710456, 1567103746, 711928724, 3020668471, 3272380065, 1510334235, 755167117]"

definition crc_step :: "byte \<Rightarrow> u64 \<Rightarrow> u64" where
  "crc_step b result = crc32_table ! unat ((result XOR ucast b) AND 0xff) XOR drop_bit 8 result"

definition CRC :: "byte list \<Rightarrow> u64" where
  "CRC data = fold crc_step data 0xffffffff XOR 0xffffffff"

text \<open>The specification: eight steps of the division by the reflected polynomial for every byte.\<close>

definition crc_bit :: "u64 \<Rightarrow> u64" where
  "crc_bit r = (if bit r 0 then drop_bit 1 r XOR 0xedb88320 else drop_bit 1 r)"

definition crc_byte :: "u64 \<Rightarrow> u64" where
  "crc_byte r = crc_bit (crc_bit (crc_bit (crc_bit (crc_bit (crc_bit (crc_bit (crc_bit r)))))))"

definition crc_spec :: "byte list \<Rightarrow> u64" where
  "crc_spec data = fold (\<lambda>b r. crc_byte (r XOR ucast b)) data 0xffffffff XOR 0xffffffff"

fun rows_ok :: "u64 \<Rightarrow> u64 list \<Rightarrow> bool" where
  "rows_ok i [] = True"
| "rows_ok i (w # ws) = (w = crc_byte i \<and> rows_ok (i + 1) ws)"

lemma rows_ok_nth: "rows_ok i ws \<Longrightarrow> j < length ws \<Longrightarrow> ws ! j = crc_byte (i + of_nat j)"
  by (induction i ws arbitrary: j rule: rows_ok.induct) (auto simp: nth_Cons add.assoc split: nat.split)

lemma length_crc32_table: "length crc32_table = 256"
  by (simp add: crc32_table_def)

lemma crc_table_rows: "rows_ok 0 crc32_table"
  by (simp add: crc32_table_def crc_byte_def crc_bit_def)

lemma crc_table_bytes: "i < 256 \<Longrightarrow> crc32_table ! i = crc_byte (of_nat i)"
  using rows_ok_nth [OF crc_table_rows, of i] by (simp add: length_crc32_table)

lemma crc_bit_xor: "crc_bit (x XOR y) = crc_bit x XOR crc_bit y"
  by (simp add: crc_bit_def drop_bit_xor bit_xor_iff ac_simps)

lemma crc_byte_xor: "crc_byte (x XOR y) = crc_byte x XOR crc_byte y"
  by (simp add: crc_byte_def crc_bit_xor)

lemma crc_byte_high:
  assumes "\<And>i. i < 8 \<Longrightarrow> \<not> bit r i"
  shows "crc_byte r = drop_bit 8 r"
proof -
  have step: "crc_bit (drop_bit k r) = drop_bit (Suc k) r" if "k < 8" for k
    using that assms by (simp add: crc_bit_def bit_drop_bit_eq drop_bit_drop_bit)
  have "crc_bit r = drop_bit 1 r" using step [of 0] by simp
  then show ?thesis
    using step [of 1] step [of 2] step [of 3] step [of 4] step [of 5] step [of 6] step [of 7]
    by (simp add: crc_byte_def flip: numeral_2_eq_2)
qed

lemma unat_and_255: "unat ((x :: u64) AND 0xff) < 256"
proof -
  have "x AND 0xff = take_bit 8 x" by (simp add: take_bit_eq_mask mask_numeral)
  then show ?thesis using take_bit_nat_less_exp [of 8 "unat x"] by (simp add: unsigned_take_bit_eq)
qed

lemma crc_step_spec: "crc_step b r = crc_byte (r XOR ucast b)"
proof -
  let ?x = "r XOR ucast b"
  note low = unat_and_255 [of ?x]
  have m: "(0xff :: u64) = mask 8" by (simp add: mask_numeral)
  have split: "?x = (?x AND 0xff) XOR (?x AND NOT 0xff)"
    by (rule bit_word_eqI) (auto simp: bit_simps)
  have high: "crc_byte (?x AND NOT 0xff) = drop_bit 8 (?x AND NOT 0xff)"
    unfolding m by (rule crc_byte_high) (simp add: bit_simps)
  have drop: "drop_bit 8 (?x AND NOT 0xff) = drop_bit 8 r"
    unfolding m by (rule bit_word_eqI) (auto simp: bit_simps dest: bit_imp_le_length)
  have "crc_byte ?x = crc_byte (?x AND 0xff) XOR drop_bit 8 r"
    by (subst split, subst crc_byte_xor) (simp only: high drop)
  then show ?thesis using crc_table_bytes [OF low] by (simp add: crc_step_def)
qed

lemma CRC_correct: "CRC data = crc_spec data"
  by (simp add: CRC_def crc_spec_def crc_step_spec [abs_def])

section \<open>Adler-32\<close>

fun adler_inner :: "byte list \<Rightarrow> u32 \<times> u32 \<Rightarrow> u32 \<times> u32" where
  "adler_inner [] (s1, s2) = (s1, s2)"
| "adler_inner (b # bs) (s1, s2) = (let s1 = s1 + ucast b; s2 = s2 + s1 in adler_inner bs (s1, s2))"

function adler_loop :: "byte list \<Rightarrow> nat \<Rightarrow> u32 \<times> u32 \<Rightarrow> u32 \<times> u32" where
  "adler_loop data n s =
    (if n > 0 then
       let amount = (if n > 5550 then 5550 else n);
           s = adler_inner (take amount data) s
       in adler_loop (drop amount data) (n - amount) (fst s mod 65521, snd s mod 65521)
     else s)"
  by pat_completeness auto

termination
  by (relation "measure (\<lambda>(_, n, _). n)") auto

declare adler_loop.simps [simp del]

definition adler32 :: "byte list \<Rightarrow> nat \<Rightarrow> u32" where
  "adler32 data n = (case adler_loop data n (1, 0) of (s1, s2) \<Rightarrow> push_bit 16 s2 OR s1)"

text \<open>The specification of RFC 1950: two sums modulo 65521.\<close>

fun adler_sums :: "byte list \<Rightarrow> nat \<times> nat \<Rightarrow> nat \<times> nat" where
  "adler_sums [] s = s"
| "adler_sums (b # bs) (a, c) = adler_sums bs (a + unat b, c + a + unat b)"

definition adler_spec :: "byte list \<Rightarrow> nat" where
  "adler_spec data = (case adler_sums data (1, 0) of (a, c) \<Rightarrow> (c mod 65521) * 65536 + a mod 65521)"

lemma adler_sums_shift:
  "adler_sums bs (a, c) = (a + sum_list (map unat bs), c + length bs * a + snd (adler_sums bs (0, 0)))"
proof (induction bs arbitrary: a c)
  case (Cons b bs)
  show ?case
    using Cons [of "a + unat b" "c + a + unat b"] Cons [of "unat b" "unat b"] by (simp add: algebra_simps)
qed simp

lemma adler_sums_append: "adler_sums (xs @ ys) s = adler_sums ys (adler_sums xs s)"
  by (induction xs s rule: adler_sums.induct) simp_all

text \<open>The sums after \<open>n\<close> bytes stay below these bounds.\<close>

lemma adler_sums_bound:
  "fst (adler_sums bs (a, c)) \<le> a + 255 * length bs \<and>
   2 * snd (adler_sums bs (a, c)) \<le> 2 * c + 2 * length bs * a + 255 * length bs * Suc (length bs)"
proof (induction bs arbitrary: a c)
  case (Cons b bs)
  have b: "unat b \<le> 255" using unsigned_less [of b, where ?'a = nat] by simp
  define k where "k = length bs * unat b"
  have k: "k \<le> 255 * length bs" using b by (simp add: k_def mult.commute)
  have "2 * length bs * (a + unat b) = 2 * length bs * a + 2 * k" by (simp add: k_def algebra_simps)
  note ih = Cons [of "a + unat b" "c + a + unat b", unfolded this]
  show ?case using ih b k by (simp add: algebra_simps)
qed simp

lemma adler_inner_sums:
  assumes "fst (adler_sums bs (unat s1, unat s2)) < 2 ^ 32" and "snd (adler_sums bs (unat s1, unat s2)) < 2 ^ 32"
  shows "adler_inner bs (s1, s2) =
    (of_nat (fst (adler_sums bs (unat s1, unat s2))), of_nat (snd (adler_sums bs (unat s1, unat s2))))"
  using assms
proof (induction bs arbitrary: s1 s2)
  case (Cons b bs)
  let ?a = "unat s1 + unat b" and ?c = "unat s2 + unat s1 + unat b"
  have le: "?a < 2 ^ 32" "?c < 2 ^ 32" using Cons.prems adler_sums_shift [of bs ?a ?c] by simp_all
  have u: "unat (s1 + ucast b) = ?a"
    using le(1) unsigned_less [of b, where ?'a = nat] by (simp add: unat_word_ariths unsigned_ucast_eq take_bit_nat_eq_self)
  then have "unat (s2 + (s1 + ucast b)) = ?c" using le(2) by (simp add: unat_word_ariths add.assoc)
  with Cons u show ?case by (simp add: Let_def)
qed simp

lemma adler_sums_mod:
  assumes "a mod m = a' mod m" and "c mod m = c' mod m"
  shows "fst (adler_sums bs (a, c)) mod m = fst (adler_sums bs (a', c')) mod m"
    and "snd (adler_sums bs (a, c)) mod m = snd (adler_sums bs (a', c')) mod m"
proof -
  show "fst (adler_sums bs (a, c)) mod m = fst (adler_sums bs (a', c')) mod m"
    unfolding adler_sums_shift [of bs a] adler_sums_shift [of bs a'] fst_conv by (rule mod_add_cong [OF assms(1) refl])
  have "(c + length bs * a) mod m = (c' + length bs * a') mod m"
    using assms by (intro mod_add_cong mod_mult_cong) simp_all
  then show "snd (adler_sums bs (a, c)) mod m = snd (adler_sums bs (a', c')) mod m"
    unfolding adler_sums_shift [of bs a] adler_sums_shift [of bs a'] snd_conv by (rule mod_add_cong [OF _ refl])
qed

text \<open>One round of at most 5550 bytes, from reduced sums, does not wrap.\<close>

lemma adler_round:
  assumes "unat s1 < 65521" "unat s2 < 65521" and "length bs \<le> 5550"
  defines "r \<equiv> adler_sums bs (unat s1, unat s2)"
  shows "adler_inner bs (s1, s2) = (of_nat (fst r), of_nat (snd r))"
    and "unat (of_nat (fst r) mod 65521 :: u32) = fst r mod 65521"
    and "unat (of_nat (snd r) mod 65521 :: u32) = snd r mod 65521"
proof -
  note bound = adler_sums_bound [of bs "unat s1" "unat s2", folded r_def]
  have "255 * length bs \<le> 255 * 5550" using assms(3) by simp
  then have a: "fst r < 2 ^ 32" using bound assms(1) by simp
  have "2 * length bs * unat s1 \<le> 2 * 5550 * 65520"
    by (intro mult_le_mono) (use assms in simp_all)
  moreover have "255 * length bs * Suc (length bs) \<le> 255 * 5550 * 5551"
    by (intro mult_le_mono) (use assms in simp_all)
  ultimately have c: "snd r < 2 ^ 32" using bound assms(2) by simp
  show "adler_inner bs (s1, s2) = (of_nat (fst r), of_nat (snd r))"
    using adler_inner_sums [of bs s1 s2] a c by (simp add: r_def)
  show "unat (of_nat (fst r) mod 65521 :: u32) = fst r mod 65521"
    using a by (simp add: unat_mod unat_of_nat)
  show "unat (of_nat (snd r) mod 65521 :: u32) = snd r mod 65521"
    using c by (simp add: unat_mod unat_of_nat)
qed

lemma adler_loop_sums:
  assumes "unat (fst s) < 65521" "unat (snd s) < 65521"
  shows "map_prod unat unat (adler_loop data n s) =
    map_prod (\<lambda>x. x mod 65521) (\<lambda>x. x mod 65521) (adler_sums (take n data) (unat (fst s), unat (snd s)))"
  using assms
proof (induction data n s rule: adler_loop.induct)
  case (1 data n s)
  show ?case
  proof (cases "n > 0")
    case False
    then show ?thesis using 1(2,3) by (subst adler_loop.simps) (cases s, simp)
  next
    case True
    define k where "k = (if n > 5550 then 5550 else n)"
    define r where "r = adler_sums (take k data) (unat (fst s), unat (snd s))"
    have "length (take k data) \<le> 5550" by (auto simp: k_def min_def)
    note round = adler_round [OF 1(2,3) this, folded r_def]
    define s' where "s' = (of_nat (fst r) mod 65521 :: u32, of_nat (snd r) mod 65521 :: u32)"
    have loop: "adler_loop data n s = adler_loop (drop k data) (n - k) s'"
      using True round(1) by (subst adler_loop.simps) (simp add: k_def s'_def Let_def)
    have s': "unat (fst s') = fst r mod 65521" "unat (snd s') = snd r mod 65521"
      using round(2,3) by (simp_all add: s'_def)
    have "map_prod unat unat (adler_loop (drop k data) (n - k) s') =
        map_prod (\<lambda>x. x mod 65521) (\<lambda>x. x mod 65521) (adler_sums (take (n - k) (drop k data)) (unat (fst s'), unat (snd s')))"
      using 1(1) [OF True k_def refl] True round(1) s' by (simp add: s'_def)
    also have "\<dots> = map_prod (\<lambda>x. x mod 65521) (\<lambda>x. x mod 65521) (adler_sums (take (n - k) (drop k data)) r)"
      using adler_sums_mod [of "fst r mod 65521" 65521 "fst r" "snd r mod 65521" "snd r"]
      by (simp add: s' prod_eq_iff)
    also have "adler_sums (take (n - k) (drop k data)) r = adler_sums (take n data) (unat (fst s), unat (snd s))"
    proof -
      have "take n data = take k data @ take (n - k) (drop k data)"
        using take_add [of k "n - k" data] by (simp add: k_def)
      then show ?thesis by (simp only: r_def adler_sums_append)
    qed
    finally show ?thesis using loop by simp
  qed
qed

lemma adler32_correct: "unat (adler32 data n) = adler_spec (take n data)"
proof -
  obtain s1 s2 where s: "adler_loop data n (1, 0) = (s1, s2)" by fastforce
  obtain a c where ac: "adler_sums (take n data) (1, 0) = (a, c)" by fastforce
  have u: "unat s1 = a mod 65521" "unat s2 = c mod 65521"
    using adler_loop_sums [of "(1, 0)" data n] s ac by simp_all
  have lt: "unat s1 < 2 ^ 16" "unat s2 < 2 ^ 16" using u by (simp_all add: less_trans [OF mod_less_divisor])
  have "push_bit 16 s2 OR s1 = push_bit 16 s2 + s1"
  proof (rule disjunctive_add [symmetric])
    show "\<not> bit (push_bit 16 s2) i \<or> \<not> bit s1 i" for i
    proof (cases "i < 16")
      case False
      then have "\<not> bit (unat s1) i" using lt(1) by (metis bit_take_bit_iff not_le take_bit_nat_eq_self_iff)
      then show ?thesis by (simp add: bit_simps)
    qed (simp add: bit_simps)
  qed
  moreover have "unat (push_bit 16 s2 + s1) = unat s2 * 65536 + unat s1"
    using lt by (simp add: push_bit_eq_mult unat_word_ariths)
  ultimately show ?thesis by (simp add: adler32_def adler_spec_def s ac [simplified] u)
qed

end
