(* ===== verification/Zopfli_Props.thy ===== *)
theory Zopfli_Props
  imports Zopfli_Block Zopfli_Checksum
begin

text \<open>
  The properties of the DEFLATE encoder of zopfli, each with a witness at a concrete input.
\<close>

section \<open>Symbols, bits and codes\<close>

text \<open>
  A distance from 1 to 32768 and a length from 3 to 258 are the base value of their symbol in RFC 1951
  plus the value of the extra bits, which fits in the number of extra bits that the symbol has;
  the variant of the distance functions without \<open>__builtin_clz\<close> computes the same.
\<close>

lemma symbols_rebuilt:
  assumes "1 \<le> dist" and "dist \<le> 32768" and "3 \<le> l" and "l \<le> 258"
  shows "(let ds = ZopfliGetDistSymbol dist; db = ZopfliGetDistExtraBits dist; dv = ZopfliGetDistExtraBitsValue dist
      in 0 \<le> ds \<and> ds < 30 \<and> dist_base ! nat ds + dv = dist \<and> 0 \<le> dv \<and> dv < 2 ^ nat db \<and>
         ZopfliGetDistSymbolExtraBits ds = Some db \<and>
         ZopfliGetDistSymbol_portable dist = ds \<and> ZopfliGetDistExtraBits_portable dist = db \<and>
         ZopfliGetDistExtraBitsValue_portable dist = dv) \<and>
    (\<exists>s b v. ZopfliGetLengthSymbol l = Some s \<and> ZopfliGetLengthExtraBits l = Some b \<and>
       ZopfliGetLengthExtraBitsValue l = Some v \<and> 257 \<le> s \<and> s \<le> 285 \<and>
       length_base ! nat (s - 257) + v = l \<and> 0 \<le> v \<and> v < 2 ^ nat b \<and> ZopfliGetLengthSymbolExtraBits s = Some b)"
  using dist_rebuilt [OF assms(1,2)] portable_agrees [OF assms(2)] length_rebuilt [OF assms(3,4)]
  by (simp add: Let_def) metis

text \<open>
  \<open>AddBits\<close> appends the low bits of a number, least significant first, to the stream of bits that the
  output stands for, \<open>AddHuffmanBits\<close> the bits of a code word, most significant first, and both keep
  the output well formed.
\<close>

lemma bits_appended:
  assumes "bit_out_ok s"
  shows "bit_out_ok (AddBits symbol len s) \<and>
    stream (AddBits symbol len s) = stream s @ map (bit symbol) [0..<len] \<and>
    bit_out_ok (AddHuffmanBits symbol len s) \<and>
    stream (AddHuffmanBits symbol len s) = stream s @ rev (map (bit symbol) [0..<len])"
  using AddBits_stream [OF assms] AddHuffmanBits_stream [OF assms] by (simp add: code_bits_def)

text \<open>
  \<open>ZopfliLengthsToSymbols\<close> returns, for code lengths that are at most \<open>maxbits\<close> and satisfy Kraft's
  inequality, code words that fit their lengths and that a decoder recognizes at the start of any
  stream, so that no code word is the prefix of another.
\<close>

lemma canonical_codes:
  assumes "kraft maxbits ls" and "maxbits < 32"
  shows "\<exists>ss. ZopfliLengthsToSymbols ls maxbits = Some ss \<and> length ss = length ls \<and>
    (\<forall>i < length ls. ls ! i \<noteq> 0 \<longrightarrow>
      unat (ss ! i) < 2 ^ (ls ! i) \<and>
      (\<forall>rest. decode_symbol ls ss (code_bits (ss ! i) (ls ! i) @ rest) = Some (i, rest)))"
proof -
  obtain ss where ss: "ZopfliLengthsToSymbols ls maxbits = Some ss" "length ss = length ls"
      "\<And>i. i < length ls \<Longrightarrow> ls ! i \<noteq> 0 \<Longrightarrow> ss ! i = of_nat (code_value ls i)"
    using symbols_code_value [OF assms] by metis
  have "unat (ss ! i) < 2 ^ (ls ! i)" if i: "i < length ls" "ls ! i \<noteq> 0" for i
  proof -
    have "unat (ss ! i) \<le> code_value ls i" unfolding ss(3) [OF i] by (simp add: unat_of_nat)
    with code_value_bound [OF assms(1) i] show ?thesis by linarith
  qed
  with ss(1,2) decode_encode [OF assms ss(1)] show ?thesis by blast
qed

text \<open>
  \<open>PatchDistanceCodesForBuggyDecoders\<close> leaves at least two distance codes among the first thirty,
  keeps every length that was there, adds no code when there are two or more, and keeps Kraft's
  inequality.
\<close>

lemma patched_distance_codes:
  assumes "kraft 15 dl" and "length dl = 32" and "dl ! 30 = 0" and "dl ! 31 = 0"
  shows "dist_codes (PatchDistanceCodesForBuggyDecoders dl) = max 2 (dist_codes dl) \<and>
    (\<forall>i. dl ! i \<noteq> 0 \<longrightarrow> PatchDistanceCodesForBuggyDecoders dl ! i = dl ! i) \<and>
    kraft 15 (PatchDistanceCodesForBuggyDecoders dl)"
  using Patch_keeps [of dl] Patch_kraft [OF assms] assms(2) by simp

section \<open>The store of commands\<close>

text \<open>A store that a sequence of commands with positions was pushed on.\<close>

fun store_commands :: "(nat \<times> nat \<times> nat) list \<Rightarrow> lz77_store \<Rightarrow> lz77_store option" where
  "store_commands [] st = Some st"
| "store_commands ((len, dist, p) # cs) st =
    Option.bind (ZopfliStoreLitLenDist len dist p st) (store_commands cs)"

abbreviation commands :: "(nat \<times> nat \<times> nat) list \<Rightarrow> (nat \<times> nat) list" where
  "commands cs \<equiv> map (\<lambda>(len, dist, p). (len, dist)) cs"

lemma store_commands_from:
  assumes "store_ok st" and "list_all command_ok (commands cs)"
  shows "\<exists>st'. store_commands cs st = Some st' \<and> store_ok st' \<and>
    zip (litlens st') (dists st') = zip (litlens st) (dists st) @ commands cs \<and> lsize st' = lsize st + length cs"
  using assms
proof (induction cs st rule: store_commands.induct)
  case (2 len dist p cs st)
  obtain st1 where st1: "ZopfliStoreLitLenDist len dist p st = Some st1" "store_ok st1"
      "litlens st1 = litlens st @ [len]" "dists st1 = dists st @ [dist]" "lsize st1 = Suc (lsize st)"
    using store_push [OF 2(2), of len dist p] 2(3) by (auto simp: command_ok_def)
  have "length (litlens st) = length (dists st)" using 2(2) by (simp add: store_ok_def)
  with 2(1) [OF st1(1,2)] 2(3) st1 show ?case by auto
qed simp

lemma store_commands_init:
  assumes "list_all command_ok (commands cs)"
  obtains st where "store_commands cs (ZopfliInitLZ77Store d) = Some st" and "store_ok st" and "lsize st = length cs"
    and "\<And>i. i < length cs \<Longrightarrow> command_at st i = commands cs ! i"
proof -
  obtain st where st: "store_commands cs (ZopfliInitLZ77Store d) = Some st" "store_ok st" "lsize st = length cs"
      "zip (litlens st) (dists st) = commands cs"
    using store_commands_from [OF store_ok_init assms, of d] by (auto simp: ZopfliInitLZ77Store_def)
  have "command_at st i = zip (litlens st) (dists st) ! i" if "i < length cs" for i
    using st(2,3) that by (simp add: command_at_def store_ok_def)
  with st that show thesis by simp
qed

lemma command_slice:
  assumes "\<And>i. i < length cs \<Longrightarrow> f i = cs ! i" and "b \<le> length cs"
  shows "map f [a..<b] = drop a (take b cs)"
proof -
  have "map f [a..<b] = map (\<lambda>i. cs ! i) [a..<b]" using assms by (intro map_cong) auto
  also have "\<dots> = drop a (take b cs)" using assms(2) by (intro nth_equalityI) auto
  finally show ?thesis .
qed

text \<open>
  Storing commands never fails for lengths below 259 and distances up to 32768, and the histogram
  that \<open>ZopfliLZ77GetHistogram\<close> computes for a range, directly or as the difference of cumulative
  counts, has for every symbol the number of commands of the range with that symbol.
\<close>

lemma range_histogram:
  assumes "list_all command_ok (commands cs)"
  shows "\<exists>st. store_commands cs (ZopfliInitLZ77Store d) = Some st \<and>
    (\<forall>a b s. a \<le> b \<and> b \<le> length cs \<longrightarrow>
      (s < 288 \<longrightarrow> fst (ZopfliLZ77GetHistogram st a b) ! s =
        of_nat (length (filter (\<lambda>c. ll_sym c = s) (drop a (take b (commands cs)))))) \<and>
      (s < 32 \<longrightarrow> snd (ZopfliLZ77GetHistogram st a b) ! s =
        of_nat (length (filter (\<lambda>c. snd c \<noteq> 0 \<and> d_sym c = s) (drop a (take b (commands cs)))))))"
proof -
  obtain st where st: "store_commands cs (ZopfliInitLZ77Store d) = Some st" "store_ok st" "lsize st = length cs"
      "\<And>i. i < length (commands cs) \<Longrightarrow> command_at st i = commands cs ! i"
    using store_commands_init [OF assms, of d] by auto
  have ll: "count_list (map (Some \<circ> ll_sym) xs) (Some s) = length (filter (\<lambda>c. ll_sym c = s) xs)"
    and dd: "count_list (map (\<lambda>c. if snd c \<noteq> 0 then Some (d_sym c) else None) xs) (Some s) =
      length (filter (\<lambda>c. snd c \<noteq> 0 \<and> d_sym c = s) xs)" for xs s
    by (induction xs) auto
  show ?thesis
  proof (intro exI conjI allI impI)
    fix a b s
    assume ab: "a \<le> b \<and> b \<le> length cs"
    then have "a \<le> b" "b \<le> lsize st" using st(3) by simp_all
    note counts = GetHistogram_correct [OF st(2) this, unfolded seq_symbols [OF st(2) this(2)]]
    have slice: "map (command_at st) [a..<b] = drop a (take b (commands cs))"
      using ab st(4) by (intro command_slice) simp_all
    show "s < 288 \<Longrightarrow> fst (ZopfliLZ77GetHistogram st a b) ! s =
        of_nat (length (filter (\<lambda>c. ll_sym c = s) (drop a (take b (commands cs)))))"
      unfolding counts(3) slice ll ..
    show "s < 32 \<Longrightarrow> snd (ZopfliLZ77GetHistogram st a b) ! s =
        of_nat (length (filter (\<lambda>c. snd c \<noteq> 0 \<and> d_sym c = s) (drop a (take b (commands cs)))))"
      unfolding counts(4) slice dd ..
  qed (rule st(1))
qed

section \<open>The data of a block\<close>





text \<open>
  C24. \<open>CalculateBlockSymbolSize\<close> returns exactly the number of bits that writing the commands of the range
  and the end symbol adds to the stream, for small ranges and for those it sizes with a histogram.
\<close>

theorem block_size_exact:
  assumes "list_all command_ok (commands cs)" and "a \<le> b" and "b \<le> length cs" and "bit_out_ok s"
    and "list_all (encodable lls dls) (drop a (take b (commands cs)))"
  shows "\<exists>st s' k. store_commands cs (ZopfliInitLZ77Store d) = Some st \<and>
    map_option (AddHuffmanBits (lss ! 256) (lls ! 256)) (AddLZ77Data st a b 0 lss lls dss dls s) = Some s' \<and>
    length (stream s') = length (stream s) + k \<and>
    CalculateBlockSymbolSize lls dls st a b = Some (of_nat k)"
proof -
  obtain st where st: "store_commands cs (ZopfliInitLZ77Store d) = Some st" "store_ok st" "lsize st = length cs"
      "\<And>i. i < length (commands cs) \<Longrightarrow> command_at st i = commands cs ! i"
    using store_commands_init [OF assms(1), of d] by auto
  have slice: "map (command_at st) [a..<b] = drop a (take b (commands cs))"
    using assms(3) st(4) by (intro command_slice) simp_all
  then have enc: "\<forall>i \<in> set [a..<b]. encodable lls dls (command_at st i)"
    using assms(5) by (metis (no_types, lifting) imageI list.set_map list_all_iff)
  from AddLZ77Data_loop_stream [OF assms(4) this, of lss dss 0] obtain s1 where s1:
      "AddLZ77Data_loop st lss lls dss dls [a..<b] 0 s =
        Some (sum_list (map (command_length \<circ> command_at st) [a..<b]), s1)" "bit_out_ok s1"
      "stream s1 = stream s @ concat (map (command_bits lss lls dss dls) (map (command_at st) [a..<b]))"
    by auto
  have "CalculateBlockSymbolSize lls dls st a b =
      Some (of_nat (length (block_bits lss lls dss dls (map (command_at st) [a..<b]))))"
    using assms(2,3) st(2,3) enc by (intro CalculateBlockSymbolSize_bits) simp_all
  with s1 st(1) AddHuffmanBits_stream [OF s1(2), of "lss ! 256" "lls ! 256"] show ?thesis
    by (intro exI [of _ st] exI [of _ "AddHuffmanBits (lss ! 256) (lls ! 256) s1"]
        exI [of _ "length (block_bits lss lls dss dls (map (command_at st) [a..<b]))"])
      (simp add: AddLZ77Data_def block_bits_def)
qed

theorem block_size_exact_witness:
  "\<exists>st s' k. store_commands [(97, 0, 0), (98, 0, 1), (4, 2, 2)] (ZopfliInitLZ77Store []) = Some st \<and>
    map_option (AddHuffmanBits (replicate 288 0 ! 256) (fst GetFixedTree ! 256))
      (AddLZ77Data st 1 3 0 (replicate 288 0) (fst GetFixedTree) (replicate 32 0) (snd GetFixedTree)
        \<lparr>bp = 0, out = []\<rparr>) = Some s' \<and>
    length (stream s') = length (stream \<lparr>bp = 0, out = []\<rparr>) + k \<and>
    CalculateBlockSymbolSize (fst GetFixedTree) (snd GetFixedTree) st 1 3 = Some (of_nat k)"
  by (rule block_size_exact) (simp_all add: command_ok_def fixed_encodable bit_out_ok_def)

text \<open>
  The stored blocks that \<open>AddNonCompressedBlock\<close> writes end on a byte boundary and are read back as
  the input, in blocks of at most 65535 bytes; only the last one carries the final flag.
\<close>

lemma stored_blocks_read_back:
  assumes "bit_out_ok s" and "instart \<le> inend" and "inend \<le> length inp" and "length rest mod 8 = 0"
  shows "\<exists>bits ds. stream (AddNonCompressedBlock final inp instart inend s) = stream s @ bits \<and>
    bp (AddNonCompressedBlock final inp instart inend s) = 0 \<and>
    decode_stored_seq (stored_blocks (inend - instart)) (bits @ rest) = Some (ds, rest) \<and>
    concat (map snd ds) = take (inend - instart) (drop instart inp) \<and>
    map fst ds = replicate (stored_blocks (inend - instart) - 1) False @ [final]"
  by (rule AddNonCompressedBlock_decoded [OF assms])

section \<open>Checksums and containers\<close>

text \<open>
  C33. The table-driven \<open>CRC\<close> is the remainder computed bit by bit with the polynomial \<open>0xedb88320\<close>, and
  \<open>adler32\<close>, whose 32-bit sums are reduced every 5550 bytes, is the checksum of RFC 1950 of the
  bytes it is given.
\<close>

theorem checksums_correct: "CRC data = crc_spec data \<and> unat (adler32 data n) = adler_spec (take n data)"
  by (simp add: CRC_correct adler32_correct)

end
