(* ===== verification/Zopfli_Lengths.thy ===== *)
theory Zopfli_Lengths
  imports Zopfli_Tree
begin

text \<open>
  Length-limited code lengths (\<open>katajainen.c\<close> and \<open>ZopfliCalculateBitLengths\<close> of \<open>tree.c\<close>): the boundary
  package-merge algorithm. A pointer to a node is the chain it starts; \<open>Null\<close> is the null pointer. Nodes do
  not change once they are linked, except the last one of the last list in \<open>BoundaryPMFinal\<close>, which no
  other chain has as a tail. Besides the lists, the state counts the nodes taken from the pool.

  The result is complete: the code lengths of two or more symbols satisfy Kraft's inequality with
  equality, exactly the symbols that occur have a length, and no length exceeds the limit.
\<close>

section \<open>The code of katajainen.c\<close>

datatype Node = Null | Node (weight: nat) (count: nat) (tail: Node)

record pm_state =
  lists :: "(Node \<times> Node) list"
  pool :: nat

text \<open>The weights are \<open>size_t\<close>, so a sum is taken modulo \<open>2 ^ 64\<close>.\<close>

definition list_sum :: "(Node \<times> Node) list \<Rightarrow> nat \<Rightarrow> nat" where
  "list_sum ls i = (weight (fst (ls ! i)) + weight (snd (ls ! i))) mod 2 ^ 64"

fun BoundaryPM :: "Node list \<Rightarrow> nat \<Rightarrow> nat \<Rightarrow> pm_state \<Rightarrow> pm_state" where
  "BoundaryPM leaves numsymbols 0 s =
    (let oldchain = snd (lists s ! 0);
         lastcount = count oldchain
     in if lastcount \<ge> numsymbols then s
        else s\<lparr>lists := (lists s)[0 := (oldchain, Node (weight (leaves ! lastcount)) (lastcount + 1) Null)],
               pool := pool s + 1\<rparr>)"
| "BoundaryPM leaves numsymbols (Suc i) s =
    (let oldchain = snd (lists s ! Suc i);
         lastcount = count oldchain;
         total = list_sum (lists s) i
     in if lastcount < numsymbols \<and> total > weight (leaves ! lastcount) then
          s\<lparr>lists := (lists s)[Suc i := (oldchain, Node (weight (leaves ! lastcount)) (lastcount + 1) (tail oldchain))],
            pool := pool s + 1\<rparr>
        else
          (let s = s\<lparr>lists := (lists s)[Suc i := (oldchain, Node total lastcount (snd (lists s ! i)))],
                     pool := pool s + 1\<rparr>;
               s = BoundaryPM leaves numsymbols i s
           in BoundaryPM leaves numsymbols i s))"

text \<open>
  The last step returns the last chain of the last list only, with a weight that is no longer read.
  The chain that the second branch changes keeps its weight and count.
\<close>

definition BoundaryPMFinal :: "Node list \<Rightarrow> nat \<Rightarrow> nat \<Rightarrow> pm_state \<Rightarrow> Node" where
  "BoundaryPMFinal leaves numsymbols index s =
    (let chain = snd (lists s ! index);
         lastcount = count chain;
         total = list_sum (lists s) (index - 1)
     in if lastcount < numsymbols \<and> total > weight (leaves ! lastcount) then
          Node 0 (lastcount + 1) (tail chain)
        else Node (weight chain) lastcount (snd (lists s ! (index - 1))))"

definition InitLists :: "Node list \<Rightarrow> nat \<Rightarrow> pm_state" where
  "InitLists leaves maxbits =
    (let node0 = Node (weight (leaves ! 0)) 1 Null;
         node1 = Node (weight (leaves ! 1)) 2 Null
     in \<lparr>lists = replicate maxbits (node0, node1), pool = 2\<rparr>)"

text \<open>
  The counts of the chain go to the end of an array of 16; \<open>None\<close> if they would not fit.
\<close>

fun fill_counts :: "Node \<Rightarrow> nat \<Rightarrow> nat list \<Rightarrow> (nat \<times> nat list) option" where
  "fill_counts Null e counts = Some (e, counts)"
| "fill_counts (Node w c t) e counts =
    (if e = 0 then None else fill_counts t (e - 1) (counts[e - 1 := c]))"

fun assign_lengths :: "Node list \<Rightarrow> nat \<Rightarrow> nat \<Rightarrow> nat \<Rightarrow> nat list \<Rightarrow> nat \<times> nat list" where
  "assign_lengths leaves value' stop 0 bitlengths = (0, bitlengths)"
| "assign_lengths leaves value' stop (Suc v) bitlengths =
    (if Suc v > stop then assign_lengths leaves value' stop v (bitlengths[count (leaves ! v) := value'])
     else (Suc v, bitlengths))"

fun extract_loop ::
  "Node list \<Rightarrow> nat list \<Rightarrow> nat \<Rightarrow> nat \<Rightarrow> nat \<Rightarrow> nat \<Rightarrow> nat list \<Rightarrow> nat list option" where
  "extract_loop leaves counts e 0 value' v bitlengths = (if 0 \<ge> e then None else Some bitlengths)"
| "extract_loop leaves counts e (Suc ptr) value' v bitlengths =
    (if Suc ptr \<ge> e then
       (case assign_lengths leaves value' (counts ! ptr) v bitlengths of
          (v, bitlengths) \<Rightarrow> extract_loop leaves counts e ptr (value' + 1) v bitlengths)
     else Some bitlengths)"

definition ExtractBitLengths :: "Node \<Rightarrow> Node list \<Rightarrow> nat list \<Rightarrow> nat list option" where
  "ExtractBitLengths chain leaves bitlengths =
    (case fill_counts chain 16 (replicate 16 0) of
       None \<Rightarrow> None
     | Some (e, counts) \<Rightarrow> extract_loop leaves counts e 15 1 (counts ! 15) bitlengths)"

text \<open>The difference of the weights, a \<open>size_t\<close>, is returned as an \<open>int\<close>.\<close>

definition LeafComparator :: "Node \<Rightarrow> Node \<Rightarrow> int" where
  "LeafComparator a b = sint (of_int (int (weight a) - int (weight b)) :: u32)"

text \<open>\<open>qsort\<close> of the C library, for a comparison that orders the elements.\<close>

fun qsort_insert :: "(Node \<Rightarrow> Node \<Rightarrow> int) \<Rightarrow> Node \<Rightarrow> Node list \<Rightarrow> Node list" where
  "qsort_insert cmp x [] = [x]"
| "qsort_insert cmp x (y # ys) = (if cmp x y \<le> 0 then x # y # ys else y # qsort_insert cmp x ys)"

definition qsort :: "(Node \<Rightarrow> Node \<Rightarrow> int) \<Rightarrow> Node list \<Rightarrow> Node list" where
  "qsort cmp xs = foldr (qsort_insert cmp) xs []"

definition used_leaves :: "u64 list \<Rightarrow> Node list" where
  "used_leaves frequencies =
    map (\<lambda>i. Node (unat (frequencies ! i)) i Null) (filter (\<lambda>i. frequencies ! i \<noteq> 0) [0..<length frequencies])"

fun run_PM :: "nat \<Rightarrow> Node list \<Rightarrow> nat \<Rightarrow> nat \<Rightarrow> pm_state \<Rightarrow> pm_state" where
  "run_PM 0 leaves numsymbols index s = s"
| "run_PM (Suc k) leaves numsymbols index s =
    run_PM k leaves numsymbols index (BoundaryPM leaves numsymbols index s)"

text \<open>The error code and the code lengths; \<open>None\<close> for an access outside an array.\<close>

definition ZopfliLengthLimitedCodeLengths :: "u64 list \<Rightarrow> nat \<Rightarrow> (int \<times> nat list) option" where
  "ZopfliLengthLimitedCodeLengths frequencies maxbits =
    (let bitlengths = replicate (length frequencies) 0;
         leaves = used_leaves frequencies;
         numsymbols = length leaves
     in if 2 ^ maxbits < numsymbols then Some (1, bitlengths)
        else if numsymbols = 0 then Some (0, bitlengths)
        else if numsymbols = 1 then Some (0, bitlengths[count (leaves ! 0) := 1])
        else if numsymbols = 2 then
          (let bitlengths = bitlengths[count (leaves ! 0) := bitlengths ! count (leaves ! 0) + 1]
           in Some (0, bitlengths[count (leaves ! 1) := bitlengths ! count (leaves ! 1) + 1]))
        else if \<exists>l \<in> set leaves. weight l \<ge> 2 ^ (64 - 9) then Some (1, bitlengths)
        else
          (let leaves = map (\<lambda>l. Node (push_bit 9 (weight l) OR count l) (count l) (tail l)) leaves;
               leaves = qsort LeafComparator leaves;
               leaves = map (\<lambda>l. Node (drop_bit 9 (weight l)) (count l) (tail l)) leaves;
               maxbits = (if numsymbols - 1 < maxbits then numsymbols - 1 else maxbits);
               s = InitLists leaves maxbits;
               s = run_PM (2 * numsymbols - 4 - 1) leaves numsymbols (maxbits - 1) s;
               chain = BoundaryPMFinal leaves numsymbols (maxbits - 1) s
           in map_option (\<lambda>bitlengths. (0, bitlengths)) (ExtractBitLengths chain leaves bitlengths)))"

text \<open>\<open>None\<close> when the assertion fails.\<close>

definition ZopfliCalculateBitLengths :: "u64 list \<Rightarrow> nat \<Rightarrow> nat list option" where
  "ZopfliCalculateBitLengths count' maxbits =
    (case ZopfliLengthLimitedCodeLengths count' maxbits of
       None \<Rightarrow> None
     | Some (err, bitlengths) \<Rightarrow> if err = 0 then Some bitlengths else None)"

section \<open>Chains\<close>

text \<open>The number of chains a list can have, for \<open>n\<close> leaves.\<close>

fun avail :: "nat \<Rightarrow> nat \<Rightarrow> nat" where
  "avail n 0 = n"
| "avail n (Suc i) = n + avail n i div 2"

lemma avail_bound:
  assumes "n \<le> 2 ^ m" and "i \<le> m"
  shows "2 * n \<le> avail n i + 2 ^ (m - i)"
  using assms(2)
proof (induction i)
  case 0
  with assms(1) show ?case by simp
next
  case (Suc i)
  then have "2 * n \<le> avail n i + 2 * 2 ^ (m - Suc i)"
    by (metis Suc_diff_Suc Suc_le_lessD Suc_leD power_Suc)
  then have "n \<le> avail n i div 2 + 2 ^ (m - Suc i)" by linarith
  then show ?case by simp
qed

text \<open>
  A chain of list \<open>i\<close> that stands for its first \<open>r\<close> entries: leaves, and packages of two entries of the list below.
\<close>

fun chain_ok :: "nat \<Rightarrow> nat \<Rightarrow> nat \<Rightarrow> Node \<Rightarrow> bool" where
  "chain_ok n i r Null = False"
| "chain_ok n i r (Node w a t) =
    (a \<le> n \<and> a \<le> r \<and> (if t = Null then a = r else a < r \<and> count t \<le> a \<and> 0 < i \<and> chain_ok n (i - 1) (2 * (r - a)) t))"

fun chain_counts :: "Node \<Rightarrow> nat list" where
  "chain_counts Null = []"
| "chain_counts (Node w a t) = a # chain_counts t"

text \<open>The leaf counts of a chain, weighted by level, add up to its number of entries.\<close>

fun weighted :: "nat \<Rightarrow> nat list \<Rightarrow> nat" where
  "weighted k [] = 0"
| "weighted k (a # as) = a * 2 ^ k + weighted (k - 1) as"

lemma chain_weighted: "chain_ok n i r c \<Longrightarrow> i \<le> k \<Longrightarrow> weighted k (chain_counts c) = r * 2 ^ k"
proof (induction n i r c arbitrary: k rule: chain_ok.induct)
  case (2 n i r w a t)
  show ?case
  proof (cases "t = Null")
    case True
    with 2 show ?thesis by simp
  next
    case False
    with 2(2) have a: "a < r" "0 < i" "chain_ok n (i - 1) (2 * (r - a)) t" by auto
    with 2(3) obtain k' where k: "k = Suc k'" "i - 1 \<le> k'" by (cases k) auto
    have "weighted k' (chain_counts t) = 2 * (r - a) * 2 ^ k'" using 2(1) [OF False _ _] a k(2) 2(2) False by simp
    moreover have "a * 2 ^ k + 2 * (r - a) * 2 ^ k' = r * 2 ^ k"
      using a(1) by (simp add: k(1) flip: add_mult_distrib2 mult.assoc) (simp add: algebra_simps)
    ultimately show ?thesis by (simp add: k(1))
  qed
qed simp

lemma chain_sorted: "chain_ok n i r c \<Longrightarrow> sorted_wrt (\<ge>) (chain_counts c) \<and> length (chain_counts c) \<le> Suc i \<and>
    (\<forall>a \<in> set (chain_counts c). a \<le> count c)"
proof (induction n i r c rule: chain_ok.induct)
  case (2 n i r w a t)
  show ?case
  proof (cases "t = Null")
    case False
    with 2(2) have a: "0 < i" "chain_ok n (i - 1) (2 * (r - a)) t" "count t \<le> a" by auto
    with 2(1) [OF False] 2(2) False show ?thesis by fastforce
  qed simp
qed simp

section \<open>The invariant of the lists\<close>

definition sorted_leaves :: "Node list \<Rightarrow> bool" where
  "sorted_leaves L \<longleftrightarrow>
    3 \<le> length L \<and> sorted (map weight L) \<and> (\<forall>l \<in> set L. 0 < weight l \<and> weight l < 2 ^ 48)"

text \<open>
  List \<open>i\<close> has had \<open>r\<close> chains. When it has run out of entries, every leaf is in it, and its weights are too
  large for a package of them to be preferred to a leaf in the list above.
\<close>

fun pm_inv :: "Node list \<Rightarrow> nat \<Rightarrow> nat \<Rightarrow> (Node \<times> Node) list \<Rightarrow> bool" where
  "pm_inv L 0 r ls \<longleftrightarrow>
    2 \<le> r \<and>
    ls ! 0 = (Node (weight (L ! (min (length L) r - 2))) (min (length L) r - 1) Null,
              Node (weight (L ! (min (length L) r - 1))) (min (length L) r) Null)"
| "pm_inv L (Suc i) r ls \<longleftrightarrow>
    (let c0 = fst (ls ! Suc i); c1 = snd (ls ! Suc i); a = count c1; n = length L
     in 2 \<le> a \<and> a \<le> n \<and> a \<le> r \<and> pm_inv L i (2 * (r - a) + 2) ls \<and>
        (r \<le> avail n (Suc i) \<longrightarrow> chain_ok n (Suc i) r c1) \<and>
        (a < n \<longrightarrow> 2 * (r - a) \<le> avail n i \<and> r - a < a \<and> weight c1 \<le> weight (L ! a)) \<and>
        weight (L ! (a - 1)) \<le> weight c1 \<and> weight c0 \<le> weight c1 \<and> 0 < weight c0 \<and>
        weight c1 \<le> weight (fst (ls ! i)) + weight (snd (ls ! i)) \<and> weight c1 \<le> 2 ^ (48 + Suc i))"

lemma leaf_mono: "sorted_leaves L \<Longrightarrow> j \<le> k \<Longrightarrow> k < length L \<Longrightarrow> weight (L ! j) \<le> weight (L ! k)"
  by (auto simp: sorted_leaves_def dest: sorted_nth_mono [of _ j k])

lemma leaf_pos: "sorted_leaves L \<Longrightarrow> j < length L \<Longrightarrow> 0 < weight (L ! j) \<and> weight (L ! j) < 2 ^ 48"
  by (simp add: sorted_leaves_def)

lemma leaf_index: "sorted_leaves L \<Longrightarrow> weight (L ! j) < weight (L ! k) \<Longrightarrow> j < length L \<Longrightarrow> j < k"
  by (metis leaf_mono not_less)

lemma pm_inv_facts:
  assumes "sorted_leaves L" and "pm_inv L i r ls"
  defines "a \<equiv> count (snd (ls ! i))" and "n \<equiv> length L"
  shows "2 \<le> a" and "a \<le> n" and "a \<le> r" and "a = n \<or> r - a < a" and "avail n i < r \<Longrightarrow> a = n"
    and "r \<le> avail n i \<Longrightarrow> chain_ok n i r (snd (ls ! i))"
    and "weight (L ! (a - 1)) \<le> weight (snd (ls ! i))"
    and "0 < weight (fst (ls ! i))" and "weight (fst (ls ! i)) \<le> weight (snd (ls ! i))"
    and "weight (snd (ls ! i)) \<le> 2 ^ (48 + i)"
proof -
  have n: "3 \<le> n" using assms(1) by (simp add: sorted_leaves_def n_def)
  have "2 \<le> a \<and> a \<le> n \<and> a \<le> r \<and> (a = n \<or> r - a < a) \<and> (avail n i < r \<longrightarrow> a = n) \<and>
      (r \<le> avail n i \<longrightarrow> chain_ok n i r (snd (ls ! i))) \<and>
      weight (L ! (a - 1)) \<le> weight (snd (ls ! i)) \<and>
      0 < weight (fst (ls ! i)) \<and> weight (fst (ls ! i)) \<le> weight (snd (ls ! i)) \<and>
      weight (snd (ls ! i)) \<le> 2 ^ (48 + i)"
  proof (cases i)
    case 0
    let ?k = "min n r"
    have inv: "2 \<le> r" "fst (ls ! 0) = Node (weight (L ! (?k - 2))) (?k - 1) Null"
        "snd (ls ! 0) = Node (weight (L ! (?k - 1))) ?k Null"
      using assms(2) 0 by (simp_all add: n_def)
    have "weight (L ! (?k - 2)) \<le> weight (L ! (?k - 1))"
      using leaf_mono [OF assms(1), of "?k - 2" "?k - 1"] n inv(1) by (simp add: n_def)
    moreover have "?k - 2 < length L" "?k - 1 < length L" using n inv(1) by (auto simp: n_def)
    ultimately show ?thesis
      using inv n 0 leaf_pos [OF assms(1), of "?k - 2"] leaf_pos [OF assms(1), of "?k - 1"]
      by (cases "n \<le> r") (auto simp: a_def)
  next
    case (Suc j)
    have inv: "2 \<le> a" "a \<le> n" "a \<le> r" "r \<le> avail n i \<longrightarrow> chain_ok n i r (snd (ls ! i))"
        "a < n \<longrightarrow> 2 * (r - a) \<le> avail n j \<and> r - a < a \<and> weight (snd (ls ! i)) \<le> weight (L ! a)"
        "weight (L ! (a - 1)) \<le> weight (snd (ls ! i))" "weight (fst (ls ! i)) \<le> weight (snd (ls ! i))"
        "0 < weight (fst (ls ! i))" "weight (snd (ls ! i)) \<le> 2 ^ (48 + i)"
      using assms(2) unfolding Suc by (simp_all add: Let_def a_def n_def Suc del: avail.simps)
    have "a = n" if "avail n i < r"
    proof (rule ccontr)
      assume "a \<noteq> n"
      then have "a < n" "2 * (r - a) \<le> avail n j" using inv by auto
      then have "r < n + avail n j div 2" using inv(3) by linarith
      then show False using that Suc by simp
    qed
    with inv show ?thesis by auto
  qed
  then show "2 \<le> a" "a \<le> n" "a \<le> r" "a = n \<or> r - a < a" "avail n i < r \<Longrightarrow> a = n"
    "r \<le> avail n i \<Longrightarrow> chain_ok n i r (snd (ls ! i))"
    "weight (L ! (a - 1)) \<le> weight (snd (ls ! i))"
    "0 < weight (fst (ls ! i))" "weight (fst (ls ! i)) \<le> weight (snd (ls ! i))"
    "weight (snd (ls ! i)) \<le> 2 ^ (48 + i)"
    by simp_all
qed

lemma pm_inv_cong: "(\<And>k. k \<le> i \<Longrightarrow> ls ! k = ls' ! k) \<Longrightarrow> pm_inv L i r ls = pm_inv L i r ls'"
  by (induction i arbitrary: r) (simp_all add: Let_def)

text \<open>While leaves are left, a package is chosen only if the list below has two entries for it.\<close>

lemma package_possible:
  assumes "sorted_leaves L" and "pm_inv L i (2 * p + 2) ls" and "a < length L"
    and "weight (fst (ls ! i)) + weight (snd (ls ! i)) \<le> weight (L ! a)"
  shows "2 * p + 2 \<le> avail (length L) i" and "count (snd (ls ! i)) \<le> a" and "p + 2 \<le> a"
proof -
  note f = pm_inv_facts [OF assms(1,2)]
  let ?b = "count (snd (ls ! i))"
  have "weight (L ! (?b - 1)) < weight (L ! a)" using f(7,8) assms(4) by linarith
  then have b: "?b - 1 < a" using leaf_index [OF assms(1)] f(1,2) by simp
  then have ne: "?b \<noteq> length L" using assms(3) by linarith
  then show "2 * p + 2 \<le> avail (length L) i" using f(5) by (meson not_less)
  show "?b \<le> a" using b f(1) by linarith
  then show "p + 2 \<le> a" using f(3,4) ne by linarith
qed

lemma list_sum_exact:
  assumes "sorted_leaves L" and "pm_inv L i r ls" and "i < 15"
  shows "list_sum ls i = weight (fst (ls ! i)) + weight (snd (ls ! i))"
    and "list_sum ls i \<le> 2 ^ (48 + Suc i)"
proof -
  note f = pm_inv_facts [OF assms(1,2)]
  have le: "weight (fst (ls ! i)) + weight (snd (ls ! i)) \<le> 2 ^ (48 + Suc i)"
    using f(9,10) unfolding add_Suc_right power_Suc by linarith
  also have "(2 :: nat) ^ (48 + Suc i) \<le> 2 ^ 63" using assms(3) by (intro power_increasing) auto
  finally have "weight (fst (ls ! i)) + weight (snd (ls ! i)) < 2 ^ 64" by simp
  then show "list_sum ls i = weight (fst (ls ! i)) + weight (snd (ls ! i))" by (simp add: list_sum_def)
  with le show "list_sum ls i \<le> 2 ^ (48 + Suc i)" by simp
qed

lemma BoundaryPM_inv:
  assumes "sorted_leaves L" and "pm_inv L i r (lists s)" and "i < length (lists s)" and "i \<le> 15"
  shows "pm_inv L i (Suc r) (lists (BoundaryPM L (length L) i s)) \<and>
    length (lists (BoundaryPM L (length L) i s)) = length (lists s) \<and>
    (\<forall>k. i < k \<longrightarrow> lists (BoundaryPM L (length L) i s) ! k = lists s ! k) \<and>
    weight (fst (lists s ! i)) \<le> weight (fst (lists (BoundaryPM L (length L) i s) ! i)) \<and>
    weight (snd (lists s ! i)) \<le> weight (snd (lists (BoundaryPM L (length L) i s) ! i))"
  using assms(2-4)
proof (induction i arbitrary: r s)
  case 0
  let ?n = "length L" and ?s' = "BoundaryPM L (length L) 0 s"
  have n: "3 \<le> ?n" using assms(1) by (simp add: sorted_leaves_def)
  have r: "2 \<le> r" "lists s ! 0 = (Node (weight (L ! (min ?n r - 2))) (min ?n r - 1) Null,
      Node (weight (L ! (min ?n r - 1))) (min ?n r) Null)"
    using 0 by simp_all
  show ?case
  proof (cases "?n \<le> r")
    case True
    then have "?s' = s" using r by simp
    with True r show ?thesis by simp
  next
    case False
    then have s': "lists ?s' = (lists s)[0 := (Node (weight (L ! (r - 1))) r Null, Node (weight (L ! r)) (r + 1) Null)]"
      using r by (simp add: Let_def)
    have "weight (L ! (r - 2)) \<le> weight (L ! (r - 1))" "weight (L ! (r - 1)) \<le> weight (L ! r)"
      using False by (auto intro: leaf_mono [OF assms(1)])
    moreover have "min ?n r = r" "min ?n (Suc r) = Suc r" using False by auto
    ultimately show ?thesis unfolding s' using r 0(2) by simp
  qed
next
  case (Suc i)
  let ?n = "length L" and ?ls = "lists s" and ?s' = "BoundaryPM L (length L) (Suc i) s"
  define c1 where "c1 = snd (?ls ! Suc i)"
  define a where "a = count c1"
  define q where "q = r - a"
  have len: "Suc i < length ?ls" and le: "i < 15" using Suc.prems by simp_all
  have inv: "2 \<le> a" "a \<le> ?n" "a \<le> r" "pm_inv L i (2 * q + 2) ?ls"
      "r \<le> avail ?n (Suc i) \<longrightarrow> chain_ok ?n (Suc i) r c1"
      "a < ?n \<longrightarrow> 2 * q \<le> avail ?n i \<and> q < a \<and> weight c1 \<le> weight (L ! a)"
      "weight (L ! (a - 1)) \<le> weight c1" "weight (fst (?ls ! Suc i)) \<le> weight c1" "0 < weight (fst (?ls ! Suc i))"
      "weight c1 \<le> weight (fst (?ls ! i)) + weight (snd (?ls ! i))" "weight c1 \<le> 2 ^ (48 + Suc i)"
    using Suc.prems(1) by (simp_all add: Let_def a_def c1_def q_def)
  define t where "t = list_sum ?ls i"
  have t: "t = weight (fst (?ls ! i)) + weight (snd (?ls ! i))" "t \<le> 2 ^ (48 + Suc i)"
    using list_sum_exact [OF assms(1) inv(4) le] by (simp_all add: t_def)
  show ?case
  proof (cases "a < ?n \<and> t > weight (L ! a)")
    case True
    define c where "c = Node (weight (L ! a)) (a + 1) (tail c1)"
    have s': "lists ?s' = ?ls[Suc i := (c1, c)]"
      using True by (simp add: Let_def c_def a_def c1_def t_def)
    have "pm_inv L i (2 * q + 2) (?ls[Suc i := (c1, c)])"
      using inv(4) by (subst pm_inv_cong [of i _ ?ls]) auto
    moreover have "chain_ok ?n (Suc i) (Suc r) c" if "Suc r \<le> avail ?n (Suc i)"
    proof -
      have "chain_ok ?n (Suc i) r c1" using inv(5) that by simp
      then show ?thesis using True by (cases c1) (auto simp: c_def a_def split: if_splits)
    qed
    moreover have "weight (L ! a) \<le> weight (L ! (a + 1))" if "a + 1 < ?n"
      using leaf_mono [OF assms(1), of a "a + 1"] that by simp
    moreover have "weight (L ! a) \<le> 2 ^ (48 + Suc i)" using leaf_pos [OF assms(1), of a] True
      by (meson le_less_trans less_imp_le power_increasing_iff order.trans le_add1 one_less_numeral_iff semiring_norm(76))
    moreover have sel: "count c = a + 1" "weight c = weight (L ! a)" by (simp_all add: c_def)
    moreover have "2 * (Suc r - (a + 1)) + 2 = 2 * q + 2" using inv(3) by (simp add: q_def)
    moreover have at: "?ls[Suc i := (c1, c)] ! Suc i = (c1, c)" "?ls[Suc i := (c1, c)] ! i = ?ls ! i" using len by simp_all
    ultimately have "pm_inv L (Suc i) (Suc r) (lists ?s')"
      unfolding s' using inv(1-3,6-11) True t(1)
      by (simp only: pm_inv.simps Let_def at fst_conv snd_conv sel) (auto simp: q_def)
    then show ?thesis unfolding s' using len inv(6,8) True by (simp add: c_def flip: c1_def)
  next
    case False
    define c where "c = Node t a (snd (?ls ! i))"
    define s1 where "s1 = s\<lparr>lists := ?ls[Suc i := (c1, c)], pool := pool s + 1\<rparr>"
    define s2 where "s2 = BoundaryPM L ?n i s1"
    have s': "?s' = BoundaryPM L ?n i s2"
      using False by (auto simp: Let_def s2_def s1_def c_def a_def c1_def t_def)
    have "pm_inv L i (2 * q + 2) (lists s1)"
      using inv(4) by (subst pm_inv_cong [of i _ ?ls]) (auto simp: s1_def)
    note one = Suc.IH [OF this, folded s2_def]
    then have one: "pm_inv L i (2 * q + 3) (lists s2)" "length (lists s2) = length ?ls"
        "\<forall>k. i < k \<longrightarrow> lists s2 ! k = lists s1 ! k" "weight (fst (?ls ! i)) \<le> weight (fst (lists s2 ! i))"
        "weight (snd (?ls ! i)) \<le> weight (snd (lists s2 ! i))"
      using len le by (simp_all add: s1_def numeral_3_eq_3)
    then have two: "pm_inv L i (2 * Suc q + 2) (lists ?s')" "length (lists ?s') = length ?ls"
        "\<forall>k. i < k \<longrightarrow> lists ?s' ! k = lists s1 ! k" "weight (fst (?ls ! i)) \<le> weight (fst (lists ?s' ! i))"
        "weight (snd (?ls ! i)) \<le> weight (snd (lists ?s' ! i))"
      using Suc.IH [OF one(1)] len le unfolding s' by (simp_all add: numeral_3_eq_3 eval_nat_numeral)
    have top: "lists ?s' ! Suc i = (c1, c)" using two(3) len by (simp add: s1_def)
    have pack: "2 * q + 2 \<le> avail ?n i" "count (snd (?ls ! i)) \<le> a" "q + 2 \<le> a" if "a < ?n"
      using package_possible [OF assms(1) inv(4) that] False that t(1) by simp_all
    have below: "count (snd (?ls ! i)) \<le> a"
      using pack(2) inv(2) pm_inv_facts(2) [OF assms(1) inv(4)] by (cases "a < ?n") simp_all
    have "chain_ok ?n (Suc i) (Suc r) c" if lim: "Suc r \<le> avail ?n (Suc i)"
    proof -
      have "2 * q + 2 \<le> avail ?n i" using pack(1) lim inv(2,3) by (cases "a < ?n") (auto simp: q_def)
      then have "chain_ok ?n i (2 * q + 2) (snd (?ls ! i))" using pm_inv_facts(6) [OF assms(1) inv(4)] by simp
      moreover from this have "snd (?ls ! i) \<noteq> Null" by auto
      moreover have "2 * (Suc r - a) = 2 * q + 2" using inv(3) by (simp add: q_def)
      ultimately show ?thesis using inv(2,3) below by (simp add: c_def)
    qed
    moreover have "weight c1 \<le> t" using inv(10) t(1) by simp
    moreover have "t \<le> weight (fst (lists ?s' ! i)) + weight (snd (lists ?s' ! i))" using t(1) two(4,5) by linarith
    moreover have "2 * (Suc r - a) + 2 = 2 * Suc q + 2" using inv(3) by (simp add: q_def)
    moreover have "a < ?n \<longrightarrow> t \<le> weight (L ! a)" using False by auto
    ultimately have "pm_inv L (Suc i) (Suc r) (lists ?s')"
      using inv(1-3,7-9) two(1) top t(2) pack(1,3)
      by (simp only: pm_inv.simps Let_def top fst_conv snd_conv c_def Node.sel) (auto simp: q_def)
    then show ?thesis using two(2,3) top inv(8) \<open>weight c1 \<le> t\<close> by (simp add: s1_def c_def flip: c1_def)
  qed
qed

text \<open>The chains a list has had beyond the first two, added up over the lists below.\<close>

fun ranks :: "nat \<Rightarrow> nat \<Rightarrow> (Node \<times> Node) list \<Rightarrow> nat" where
  "ranks 0 r ls = r - 2"
| "ranks (Suc i) r ls = r - 2 + ranks i (2 * (r - count (snd (ls ! Suc i))) + 2) ls"

lemma ranks_cong: "(\<And>k. k \<le> i \<Longrightarrow> ls ! k = ls' ! k) \<Longrightarrow> ranks i r ls = ranks i r ls'"
  by (induction i arbitrary: r) simp_all

lemma BoundaryPM_above:
  "i < k \<Longrightarrow> lists (BoundaryPM L n i s) ! k = lists s ! k"
  "length (lists (BoundaryPM L n i s)) = length (lists s)"
  by (induction i arbitrary: s) (simp_all add: Let_def)

lemma BoundaryPM_pool:
  assumes "sorted_leaves L" and "pm_inv L i r (lists s)" and "i < length (lists s)" and "i \<le> 15"
  shows "pool (BoundaryPM L (length L) i s) + ranks i r (lists s) \<le>
    pool s + ranks i (Suc r) (lists (BoundaryPM L (length L) i s))"
  using assms(2-4)
proof (induction i arbitrary: r s)
  case 0
  then show ?case by (auto simp: Let_def)
next
  case (Suc i)
  let ?n = "length L" and ?ls = "lists s" and ?s' = "BoundaryPM L (length L) (Suc i) s"
  define c1 where "c1 = snd (?ls ! Suc i)"
  define q where "q = r - count c1"
  have inv: "2 \<le> count c1" "count c1 \<le> r" "pm_inv L i (2 * q + 2) ?ls" and i: "i < length ?ls" "i \<le> 15"
    using Suc.prems by (simp_all add: Let_def c1_def q_def)
  have step: "Suc (r - 2) = Suc r - 2" using inv(1,2) by simp
  show ?case
  proof (cases "count c1 < ?n \<and> list_sum ?ls i > weight (L ! count c1)")
    case True
    define c where "c = Node (weight (L ! count c1)) (count c1 + 1) (tail c1)"
    have s': "lists ?s' = ?ls[Suc i := (c1, c)]" "pool ?s' = pool s + 1"
      using True by (simp_all add: Let_def c_def c1_def)
    have "ranks i (2 * q + 2) (?ls[Suc i := (c1, c)]) = ranks i (2 * q + 2) ?ls" by (rule ranks_cong) simp
    then show ?thesis using s' step Suc.prems(2) by (simp add: c_def q_def flip: c1_def)
  next
    case False
    define s1 where "s1 = s\<lparr>lists := ?ls[Suc i := (c1, Node (list_sum ?ls i) (count c1) (snd (?ls ! i)))], pool := pool s + 1\<rparr>"
    define s2 where "s2 = BoundaryPM L ?n i s1"
    have s': "?s' = BoundaryPM L ?n i s2" using False by (auto simp: Let_def s2_def s1_def c1_def)
    have same: "ranks i (2 * q + 2) (lists s1) = ranks i (2 * q + 2) ?ls"
      by (rule ranks_cong) (simp add: s1_def)
    have inv1: "pm_inv L i (2 * q + 2) (lists s1)"
      using inv(3) by (subst pm_inv_cong [of i _ ?ls]) (auto simp: s1_def)
    have len: "i < length (lists s1)" "i < length (lists s2)" using i by (simp_all add: s1_def s2_def BoundaryPM_above)
    have inv2: "pm_inv L i (Suc (2 * q + 2)) (lists s2)"
      using BoundaryPM_inv [OF assms(1) inv1 len(1) i(2)] by (simp add: s2_def)
    have "lists ?s' ! Suc i = lists s1 ! Suc i" unfolding s' by (simp add: s2_def BoundaryPM_above)
    then have top: "count (snd (lists ?s' ! Suc i)) = count c1" using Suc.prems(2) by (simp add: s1_def)
    have next_rank: "2 * (Suc r - count c1) + 2 = Suc (Suc (2 * q + 2))" using inv(2) by (simp add: q_def)
    have new: "ranks (Suc i) (Suc r) (lists ?s') = (Suc r - 2) + ranks i (Suc (Suc (2 * q + 2))) (lists ?s')"
      unfolding ranks.simps top next_rank ..
    have old: "ranks (Suc i) r ?ls = (r - 2) + ranks i (2 * q + 2) ?ls" by (simp add: q_def c1_def)
    have "pool s1 = pool s + 1" by (simp add: s1_def)
    with Suc.IH [OF inv1 len(1) i(2)] Suc.IH [OF inv2 len(2) i(2)] same step show ?thesis
      unfolding new old unfolding s' s2_def [symmetric] by linarith
  qed
qed

lemma ranks_bound:
  assumes "sorted_leaves L"
  shows "pm_inv L i r ls \<Longrightarrow> r \<le> 2 * length L - 2 \<Longrightarrow> ranks i r ls \<le> Suc i * (2 * length L - 4)"
proof (induction i arbitrary: r)
  case (Suc i)
  let ?n = "length L"
  define q where "q = r - count (snd (ls ! Suc i))"
  note f = pm_inv_facts [OF assms Suc.prems(1), folded q_def]
  have "q \<le> ?n - 2" using f(2-4) Suc.prems(2) by (auto simp: q_def)
  then have "2 * q + 2 \<le> 2 * ?n - 2" using assms by (auto simp: sorted_leaves_def)
  moreover have "pm_inv L i (2 * q + 2) ls" using Suc.prems(1) by (simp add: Let_def q_def)
  ultimately have "ranks i (2 * q + 2) ls \<le> Suc i * (2 * ?n - 4)" using Suc.IH by blast
  moreover have "r - 2 \<le> 2 * ?n - 4" using Suc.prems(2) by linarith
  ultimately show ?case by (simp flip: q_def)
qed simp

section \<open>The final chain\<close>

lemma InitLists_inv:
  assumes "sorted_leaves L" and "i < m"
  shows "pm_inv L i 2 (lists (InitLists L m))"
  using assms(2)
proof (induction i)
  case 0
  then show ?case using assms(1) by (simp add: InitLists_def Let_def sorted_leaves_def min_def)
next
  case (Suc i)
  have n: "3 \<le> length L" using assms(1) by (simp add: sorted_leaves_def)
  have w: "weight (L ! 0) \<le> weight (L ! 1)" "weight (L ! 1) \<le> weight (L ! 2)"
    using leaf_mono [OF assms(1)] n by simp_all
  have "0 < length L" "1 < length L" using n by linarith+
  then have pos: "0 < weight (L ! 0)" "weight (L ! 1) < 2 ^ 48" using leaf_pos [OF assms(1)] by blast+
  have "(2 :: nat) ^ 48 \<le> 2 ^ (48 + Suc i)" by (intro power_increasing) simp_all
  with pos have "weight (L ! 1) \<le> 2 ^ (48 + Suc i)" by linarith
  with Suc n w pos(1) show ?case
    by (simp add: InitLists_def Let_def flip: numeral_2_eq_2)
qed

lemma run_PM_inv:
  assumes "sorted_leaves L" and "pm_inv L i r (lists s)" and "i < length (lists s)" and "i \<le> 15"
  shows "pm_inv L i (r + k) (lists (run_PM k L (length L) i s))"
    and "length (lists (run_PM k L (length L) i s)) = length (lists s)"
proof -
  have "pm_inv L i (r + k) (lists (run_PM k L (length L) i s)) \<and>
      length (lists (run_PM k L (length L) i s)) = length (lists s)"
    using assms(2,3)
  proof (induction k arbitrary: r s)
    case (Suc k)
    have "pm_inv L i (Suc r) (lists (BoundaryPM L (length L) i s))"
      using BoundaryPM_inv [OF assms(1) Suc.prems assms(4)] by blast
    from Suc.IH [OF this] Suc.prems show ?case by (simp add: BoundaryPM_above)
  qed simp
  then show "pm_inv L i (r + k) (lists (run_PM k L (length L) i s))"
    "length (lists (run_PM k L (length L) i s)) = length (lists s)"
    by simp_all
qed

text \<open>The pool of \<open>maxbits * 2 * numsymbols\<close> nodes has room for all nodes and for the one of the last step.\<close>

lemma run_PM_pool:
  assumes "sorted_leaves L" and "pm_inv L i r (lists s)" and "i < length (lists s)" and "i \<le> 15"
  shows "pool (run_PM k L (length L) i s) + ranks i r (lists s) \<le>
    pool s + ranks i (r + k) (lists (run_PM k L (length L) i s))"
  using assms(2,3)
proof (induction k arbitrary: r s)
  case (Suc k)
  let ?s = "BoundaryPM L (length L) i s"
  have "pm_inv L i (Suc r) (lists ?s)" using BoundaryPM_inv [OF assms(1) Suc.prems assms(4)] by blast
  from Suc.IH [OF this] BoundaryPM_pool [OF assms(1) Suc.prems assms(4)] Suc.prems show ?case
    by (simp add: BoundaryPM_above)
qed simp

lemma ranks_init: "i < m \<Longrightarrow> ranks i 2 (lists (InitLists L m)) = 0"
  by (induction i) (simp_all add: InitLists_def Let_def flip: numeral_2_eq_2)

lemma pool_suffices:
  assumes "sorted_leaves L" and "2 \<le> m" and "m \<le> 15" and "k \<le> 2 * length L - 5"
  shows "pool (run_PM k L (length L) (m - 1) (InitLists L m)) + 1 \<le> m * 2 * length L"
proof -
  let ?s = "run_PM k L (length L) (m - 1) (InitLists L m)" and ?n = "length L"
  have m: "m - 1 < m" "m - 1 \<le> 15" using assms(2,3) by auto
  have len: "length (lists (InitLists L m)) = m" by (simp add: InitLists_def Let_def)
  note init = InitLists_inv [OF assms(1) m(1)]
  have inv: "pm_inv L (m - 1) (2 + k) (lists ?s)"
    using run_PM_inv(1) [OF assms(1) init _ m(2)] len m(1) by simp
  have "pool ?s \<le> 2 + ranks (m - 1) (2 + k) (lists ?s)"
    using run_PM_pool [OF assms(1) init _ m(2), of k] len m(1) ranks_init [OF m(1), of L]
    by (simp add: InitLists_def Let_def)
  also have "\<dots> \<le> 2 + m * (2 * ?n - 4)"
    using ranks_bound [OF assms(1) inv] assms(1,2,4) by (auto simp: sorted_leaves_def)
  finally have "pool ?s \<le> 2 + m * (2 * ?n - 4)" .
  moreover have "m * (2 * ?n - 4) + 4 * m = m * 2 * ?n"
  proof -
    have "2 * ?n = 2 * ?n - 4 + 4" using assms(1) by (auto simp: sorted_leaves_def)
    then have "m * (2 * ?n) = m * (2 * ?n - 4) + m * 4" by (metis add_mult_distrib2)
    then show ?thesis by (simp add: mult.commute mult.left_commute)
  qed
  ultimately show ?thesis using assms(2) by linarith
qed

text \<open>The last step makes the same chain as another step would, apart from its weight.\<close>

lemma BoundaryPMFinal_chain:
  assumes "Suc i < length (lists s)" and "c = snd (lists (BoundaryPM L n (Suc i) s) ! Suc i)"
  shows "\<exists>w. BoundaryPMFinal L n (Suc i) s = Node w (count c) (tail c)"
  using assms unfolding BoundaryPMFinal_def
  by (auto simp: Let_def BoundaryPM_above)

lemma chain_ok_weight: "c \<noteq> Null \<Longrightarrow> chain_ok n i r (Node w (count c) (tail c)) = chain_ok n i r c"
  by (cases c) simp_all

lemma final_chain:
  assumes "sorted_leaves L" and "length L \<le> 2 ^ m" and "2 \<le> m" and "m \<le> 15"
  defines "n \<equiv> length L"
  defines "F \<equiv> BoundaryPMFinal L n (m - 1) (run_PM (2 * n - 4 - 1) L n (m - 1) (InitLists L m))"
  shows "chain_ok n (m - 1) (2 * n - 2) F" and "count F = n" and "F \<noteq> Null"
proof -
  obtain i where i: "m = Suc (Suc i)" using assms(3) by (metis add_2_eq_Suc le_Suc_ex)
  define s where "s = run_PM (2 * n - 4 - 1) L n (m - 1) (InitLists L m)"
  have n: "3 \<le> n" using assms(1) by (simp add: sorted_leaves_def n_def)
  have len0: "length (lists (InitLists L m)) = m" by (simp add: InitLists_def Let_def)
  have "pm_inv L (m - 1) (2 + (2 * n - 4 - 1)) (lists s)" "length (lists s) = m"
    using run_PM_inv [OF assms(1) InitLists_inv [OF assms(1)], of "m - 1" m] len0 assms(3,4)
    by (simp_all add: s_def n_def)
  moreover have "2 + (2 * n - 4 - 1) = 2 * n - 3" using n by simp
  ultimately have s: "pm_inv L (Suc i) (2 * n - 3) (lists s)" "length (lists s) = m" using i by simp_all
  define c where "c = snd (lists (BoundaryPM L n (Suc i) s) ! Suc i)"
  have "pm_inv L (Suc i) (2 * n - 2) (lists (BoundaryPM L n (Suc i) s))"
  proof -
    have "Suc (2 * n - 3) = 2 * n - 2" using n by simp
    moreover have "Suc i < length (lists s)" "Suc i \<le> 15" using s(2) i assms(4) by simp_all
    ultimately show ?thesis using BoundaryPM_inv [OF assms(1) s(1)] unfolding n_def by metis
  qed
  note f = pm_inv_facts [OF assms(1) this, folded c_def n_def]
  have "2 * n - 2 \<le> avail n (Suc i)" using avail_bound [OF assms(2), of "Suc i"] i by (simp add: n_def)
  then have ok: "chain_ok n (Suc i) (2 * n - 2) c" using f(6) by simp
  then have nn: "c \<noteq> Null" by auto
  have a: "count c = n" using f(2,4) n by linarith
  obtain w where F: "F = Node w (count c) (tail c)"
    using BoundaryPMFinal_chain [of i s c L n] s(2) i by (auto simp: F_def s_def c_def)
  then show "chain_ok n (m - 1) (2 * n - 2) F" using ok chain_ok_weight [OF nn] i by simp
  show "count F = n" "F \<noteq> Null" using F a by simp_all
qed

section \<open>The lengths that are extracted\<close>

lemma fill_counts_chain:
  "length (chain_counts c) \<le> e \<Longrightarrow> e \<le> length counts \<Longrightarrow>
   fill_counts c e counts = Some (e - length (chain_counts c),
     take (e - length (chain_counts c)) counts @ rev (chain_counts c) @ drop e counts)"
proof (induction c e counts rule: fill_counts.induct)
  case (2 w a t e counts)
  obtain e' where e: "e = Suc e'" using 2(2) by (cases e) auto
  have "drop e' (counts[e' := a]) = a # drop e counts"
    using 2(3) e by (metis Cons_nth_drop_Suc Suc_le_lessD drop_update_cancel length_list_update lessI nth_list_update_eq)
  with 2 e show ?case by simp
qed simp

definition stop :: "nat list \<Rightarrow> nat" where
  "stop ds = (if ds = [] then 0 else hd ds)"

fun assign_all :: "Node list \<Rightarrow> nat list \<Rightarrow> nat \<Rightarrow> nat list \<Rightarrow> nat list" where
  "assign_all L [] v bl = bl"
| "assign_all L (d # ds) v bl = assign_all L ds (v + 1) (snd (assign_lengths L v (stop ds) d bl))"

lemma assign_lengths_stop: "e \<le> d \<Longrightarrow> fst (assign_lengths L v e d bl) = e"
  by (induction L v e d bl rule: assign_lengths.induct) auto

lemma length_assign_lengths [simp]: "length (snd (assign_lengths L v e d bl)) = length bl"
  by (induction L v e d bl rule: assign_lengths.induct) auto

lemma assign_lengths_nth:
  "x < length bl \<Longrightarrow>
   snd (assign_lengths L v e d bl) ! x = (if \<exists>j. e \<le> j \<and> j < d \<and> count (L ! j) = x then v else bl ! x)"
proof (induction L v e d bl rule: assign_lengths.induct)
  case (2 L v e d bl)
  then show ?case by (cases "count (L ! d) = x") (auto simp: less_Suc_eq dest: spec [of _ d])
qed simp

lemma extract_loop_assign:
  assumes "0 < z" and "sorted_wrt (\<ge>) ds"
  shows "extract_loop L (replicate z 0 @ rev ds @ rest) z (z + length ds - 1) v (stop ds) bl = Some (assign_all L ds v bl)"
  using assms(2)
proof (induction ds arbitrary: rest v bl)
  case Nil
  obtain z' where "z = Suc z'" using assms(1) by (cases z) auto
  then show ?case by (cases z') simp_all
next
  case (Cons d ds)
  have "stop ds \<le> d" using Cons.prems by (cases ds) (auto simp: stop_def)
  then have fst: "fst (assign_lengths L v (stop ds) d bl) = stop ds" by (rule assign_lengths_stop)
  obtain z' where z: "z = Suc z'" using assms(1) by (cases z) auto
  have "(replicate z 0 @ rev (d # ds) @ rest) ! (z' + length ds) = stop ds"
    by (cases ds) (simp_all add: z nth_append stop_def del: replicate_Suc)
  moreover have "replicate z 0 @ rev (d # ds) @ rest = replicate z 0 @ rev ds @ (d # rest)" by simp
  ultimately show ?case
    using Cons.IH [of "d # rest" "v + 1" "snd (assign_lengths L v (stop ds) d bl)"] Cons.prems fst
    by (auto simp: z stop_def [of "d # ds"] split: prod.split)
qed

lemma assign_all_nth:
  assumes "distinct (map count L)" and "sorted_wrt (\<ge>) ds" and "stop ds \<le> length L"
    and "\<forall>l \<in> set L. count l < length bl"
  shows "length (assign_all L ds v bl) = length bl \<and>
    (\<forall>j < length L. assign_all L ds v bl ! count (L ! j) =
      (if j < stop ds then v + length (filter (\<lambda>a. j < a) ds) - 1 else bl ! count (L ! j))) \<and>
    (\<forall>x < length bl. x \<notin> count ` set L \<longrightarrow> assign_all L ds v bl ! x = bl ! x)"
  using assms(2-4)
proof (induction ds arbitrary: v bl)
  case Nil
  then show ?case by (simp add: stop_def)
next
  case (Cons d ds)
  define bl' where "bl' = snd (assign_lengths L v (stop ds) d bl)"
  have le: "stop ds \<le> d" "stop (d # ds) = d" using Cons.prems(1) by (cases ds; auto simp: stop_def)+
  have "stop ds \<le> length L" using le Cons.prems(2) by simp
  moreover have "\<forall>l \<in> set L. count l < length bl'" using Cons.prems(3) by (simp add: bl'_def)
  ultimately have ih: "length (assign_all L ds (v + 1) bl') = length bl"
      "\<And>j. j < length L \<Longrightarrow> assign_all L ds (v + 1) bl' ! count (L ! j) =
        (if j < stop ds then v + length (filter (\<lambda>a. j < a) ds) else bl' ! count (L ! j))"
      "\<And>x. x < length bl \<Longrightarrow> x \<notin> count ` set L \<Longrightarrow> assign_all L ds (v + 1) bl' ! x = bl' ! x"
    using Cons.IH [of bl' "v + 1"] Cons.prems(1) by (simp_all add: bl'_def)
  have eq: "assign_all L (d # ds) v bl = assign_all L ds (v + 1) bl'" by (simp add: bl'_def)
  have same: "k = j" if "count (L ! k) = count (L ! j)" "k < length L" "j < length L" for j k
    using that assms(1) by (metis length_map nth_eq_iff_index_eq nth_map)
  have new: "bl' ! count (L ! j) = (if stop ds \<le> j \<and> j < d then v else bl ! count (L ! j))" if "j < length L" for j
  proof -
    have "(\<exists>k. stop ds \<le> k \<and> k < d \<and> count (L ! k) = count (L ! j)) \<longleftrightarrow> stop ds \<le> j \<and> j < d"
      using same that Cons.prems(2) le(2) by (metis less_le_trans)
    then show ?thesis using Cons.prems(3) that by (simp add: bl'_def assign_lengths_nth)
  qed
  have out: "bl' ! x = bl ! x" if "x < length bl" "x \<notin> count ` set L" for x
  proof -
    have "\<not> (\<exists>k. stop ds \<le> k \<and> k < d \<and> count (L ! k) = x)"
      using that Cons.prems(2) le(2) by (metis imageI less_le_trans nth_mem)
    then show ?thesis using that by (auto simp: bl'_def assign_lengths_nth)
  qed
  have none: "filter (\<lambda>a. j < a) ds = []" if "stop ds \<le> j" for j
    using that Cons.prems(1) by (cases ds) (auto simp: stop_def filter_empty_conv)
  have "assign_all L ds (v + 1) bl' ! count (L ! j) =
      (if j < d then v + length (filter (\<lambda>a. j < a) (d # ds)) - 1 else bl ! count (L ! j))" if "j < length L" for j
    using ih(2) [OF that] new [OF that] none [of j] le by auto
  with ih(1,3) out le(2) show ?case unfolding eq by simp
qed

section \<open>Kraft's equality\<close>

lemma weighted_zero: "(\<forall>a \<in> set as. a = 0) \<Longrightarrow> weighted k as = 0"
  by (induction as arbitrary: k) simp_all

lemma weighted_indicator:
  fixes as :: "nat list"
  assumes "sorted_wrt (\<ge>) as" and "length as \<le> Suc k"
  shows "weighted k (map (\<lambda>a. of_bool (j < a)) as) + 2 ^ (Suc k - length (filter (\<lambda>a. j < a) as)) = 2 ^ Suc k"
  using assms
proof (induction as arbitrary: k)
  case (Cons a as)
  show ?case
  proof (cases "j < a")
    case True
    show ?thesis
    proof (cases k)
      case 0
      then show ?thesis using True Cons.prems by simp
    next
      case (Suc k')
      with Cons True show ?thesis by simp
    qed
  next
    case False
    then have "\<forall>b \<in> set (a # as). \<not> j < b" using Cons.prems(1) by auto
    then have "filter (\<lambda>a. j < a) (a # as) = []" "\<forall>b \<in> set (map (\<lambda>a. of_bool (j < a) :: nat) (a # as)). b = 0"
      by (auto simp: filter_empty_conv)
    then show ?thesis using weighted_zero [of "map (\<lambda>a. of_bool (j < a)) (a # as)" k] by simp
  qed
qed simp

lemma weighted_sum:
  assumes "\<forall>a \<in> set as. a \<le> n"
  shows "weighted k as = (\<Sum>j < n. weighted k (map (\<lambda>a. of_bool (j < a)) as))"
  using assms
proof (induction as arbitrary: k)
  case (Cons a as)
  have "(\<Sum>j < n. of_bool (j < a) * 2 ^ k) = (a * 2 ^ k :: nat)"
  proof -
    have "{..<n} \<inter> {j. j < a} = {..<a}" using Cons.prems by auto
    then show ?thesis by (simp flip: sum_distrib_right)
  qed
  with Cons show ?case by (simp add: sum.distrib)
qed simp

lemma lengths_kraft:
  assumes "sorted_wrt (\<ge>) as" and "length as \<le> Suc k" and "\<forall>a \<in> set as. a \<le> n"
    and "weighted k as = (2 * n - 2) * 2 ^ k" and "0 < n"
  shows "(\<Sum>j < n. 2 ^ (Suc k - length (filter (\<lambda>a. j < a) as))) = (2 :: nat) ^ Suc k"
proof -
  let ?len = "\<lambda>j. length (filter (\<lambda>a. j < a) as)"
  have "weighted k as + (\<Sum>j < n. 2 ^ (Suc k - ?len j)) = (\<Sum>j < n. 2 ^ Suc k)"
    unfolding weighted_sum [OF assms(3)] sum.distrib [symmetric]
    by (rule sum.cong [OF refl]) (rule weighted_indicator [OF assms(1,2)])
  also have "\<dots> = n * 2 ^ Suc k" by simp
  also have "\<dots> = (2 * n - 2) * 2 ^ k + 2 ^ Suc k"
    using assms(5) by (cases n) (simp_all add: algebra_simps)
  finally show ?thesis using assms(4) by simp
qed

lemma kraft_sum_nth:
  "kraft_sum m (\<lambda>l. 0 < l) ls = (\<Sum>x < length ls. if 0 < ls ! x then 2 ^ (m - ls ! x) else 0)"
proof (induction ls rule: rev_induct)
  case (snoc l ls)
  have "(\<Sum>x < length ls. if 0 < (ls @ [l]) ! x then 2 ^ (m - (ls @ [l]) ! x) else 0) =
      (\<Sum>x < length ls. if 0 < ls ! x then 2 ^ (m - ls ! x) else 0 :: nat)"
    by (rule sum.cong) (auto simp: nth_append)
  with snoc show ?case by (simp add: kraft_sum_def)
qed (simp add: kraft_sum_def)

text \<open>The lengths extracted from a chain of all leaves.\<close>

lemma ExtractBitLengths_kraft:
  assumes "distinct (map count L)" and "\<forall>l \<in> set L. count l < k" and "chain_ok (length L) i (2 * length L - 2) F"
    and "count F = length L" and "F \<noteq> Null" and "i < m" and "m \<le> 15" and "0 < length L"
  obtains bl where "ExtractBitLengths F L (replicate k 0) = Some bl" and "length bl = k"
    and "\<And>x. x < k \<Longrightarrow> 0 < bl ! x \<longleftrightarrow> x \<in> count ` set L" and "\<And>x. x < k \<Longrightarrow> bl ! x \<le> m"
    and "kraft_sum m (\<lambda>l. 0 < l) bl = 2 ^ m"
proof -
  let ?n = "length L" and ?cs = "chain_counts F"
  note c = chain_sorted [OF assms(3)]
  have cs: "sorted_wrt (\<ge>) ?cs" "length ?cs \<le> m" "\<forall>a \<in> set ?cs. a \<le> ?n" "?cs \<noteq> []" "hd ?cs = ?n"
    using c assms(4-6) by (cases F; auto)+
  let ?z = "16 - length ?cs"
  have z: "0 < ?z" "?z + length ?cs - 1 = 15" "length ?cs \<le> 16" using cs(2) assms(7) by auto
  have fill: "fill_counts F 16 (replicate 16 0) = Some (?z, replicate ?z 0 @ rev ?cs @ [])"
    using fill_counts_chain [of F 16 "replicate 16 0"] z(3) by simp
  have last: "(replicate ?z 0 @ rev ?cs @ []) ! 15 = stop ?cs"
  proof -
    obtain d ds where d: "?cs = d # ds" using cs(4) by (cases ?cs) auto
    then show ?thesis using z by (auto simp: nth_append stop_def)
  qed
  define bl where "bl = assign_all L ?cs 1 (replicate k 0)"
  have "ExtractBitLengths F L (replicate k 0) = Some bl"
    using extract_loop_assign [OF z(1) cs(1), of L "[]" 1 "replicate k 0"]
    unfolding ExtractBitLengths_def fill z(2) bl_def by (simp only: option.case prod.case last)
  have stop: "stop ?cs = ?n" using cs(4,5) by (simp add: stop_def)
  let ?len = "\<lambda>j. length (filter (\<lambda>a. j < a) ?cs)"
  have nth: "length bl = k" "\<And>j. j < ?n \<Longrightarrow> bl ! count (L ! j) = ?len j"
      "\<And>x. x < k \<Longrightarrow> x \<notin> count ` set L \<Longrightarrow> bl ! x = 0"
    using assign_all_nth [OF assms(1) cs(1), of "replicate k 0" 1] assms(2) stop by (auto simp: bl_def)
  have len: "0 < ?len j" "?len j \<le> m" if "j < ?n" for j
  proof -
    have "hd ?cs \<in> set (filter (\<lambda>a. j < a) ?cs)" using that cs(4,5) hd_in_set [OF cs(4)] by simp
    then show "0 < ?len j" by (metis length_pos_if_in_set)
    show "?len j \<le> m" using length_filter_le [of "\<lambda>a. j < a" ?cs] cs(2) by linarith
  qed
  have pos: "0 < bl ! x \<longleftrightarrow> x \<in> count ` set L" if "x < k" for x
    using nth(2,3) len(1) that by (metis (no_types, lifting) image_iff in_set_conv_nth less_numeral_extra(3))
  have bound: "bl ! x \<le> m" if "x < k" for x
    using nth(2,3) len(2) that by (metis (no_types, lifting) image_iff in_set_conv_nth le0)
  obtain k' where k': "m = Suc k'" using assms(6) by (cases m) auto
  have "kraft_sum m (\<lambda>l. 0 < l) bl = (\<Sum>x \<in> count ` set L. 2 ^ (m - bl ! x))"
    unfolding kraft_sum_nth nth(1) using assms(2) pos
    by (intro sum.mono_neutral_cong_right) auto
  also have "\<dots> = (\<Sum>j < ?n. 2 ^ (m - ?len j))"
  proof (rule sum.reindex_cong [of "\<lambda>j. count (L ! j)"])
    show "inj_on (\<lambda>j. count (L ! j)) {..<?n}"
      using assms(1) by (auto simp: inj_on_def distinct_conv_nth)
    show "count ` set L = (\<lambda>j. count (L ! j)) ` {..<?n}" by (auto simp: set_conv_nth)
  qed (simp add: nth(2))
  also have "\<dots> = 2 ^ m"
    using lengths_kraft [OF cs(1) _ cs(3), of k'] chain_weighted [OF assms(3), of k'] cs(2) assms(6,8) unfolding k' by simp
  finally show thesis using that \<open>ExtractBitLengths F L (replicate k 0) = Some bl\<close> nth(1) pos bound by blast
qed

section \<open>Sorting the leaves\<close>

lemma qsort_insert_set: "set (qsort_insert cmp x ys) = insert x (set ys)" "length (qsort_insert cmp x ys) = Suc (length ys)"
  by (induction ys) auto

lemma qsort_insert_distinct:
  "distinct (map f (qsort_insert cmp x ys)) \<longleftrightarrow> f x \<notin> f ` set ys \<and> distinct (map f ys)"
  by (induction ys) (auto simp: qsort_insert_set)

lemma qsort_insert_sorted:
  "(\<And>y. y \<in> set ys \<Longrightarrow> cmp x y \<le> 0 \<longleftrightarrow> weight x \<le> weight y) \<Longrightarrow> sorted (map weight ys) \<Longrightarrow>
   sorted (map weight (qsort_insert cmp x ys))"
  by (induction ys) (auto simp: qsort_insert_set)

lemma qsort_facts:
  "set (qsort cmp xs) = set xs" "length (qsort cmp xs) = length xs"
  "distinct (map f (qsort cmp xs)) = distinct (map f xs)"
  by (induction xs) (auto simp: qsort_def qsort_insert_set qsort_insert_distinct)

lemma qsort_sorted:
  assumes "\<And>x y. x \<in> set xs \<Longrightarrow> y \<in> set xs \<Longrightarrow> cmp x y \<le> 0 \<longleftrightarrow> weight x \<le> weight y"
  shows "sorted (map weight (qsort cmp xs))"
  using assms
proof (induction xs)
  case (Cons x xs)
  have "qsort cmp (x # xs) = qsort_insert cmp x (qsort cmp xs)" by (simp add: qsort_def)
  moreover have "sorted (map weight (qsort_insert cmp x (qsort cmp xs)))"
    using Cons by (intro qsort_insert_sorted) (simp_all add: qsort_facts)
  ultimately show ?case by simp
qed (simp add: qsort_def)

lemma LeafComparator_order:
  assumes "weight a < 2 ^ 31" and "weight b < 2 ^ 31"
  shows "LeafComparator a b \<le> 0 \<longleftrightarrow> weight a \<le> weight b"
proof -
  let ?d = "int (weight a) - int (weight b)"
  have "- (2 ^ 31) \<le> ?d" "?d < 2 ^ 31" using assms by simp_all
  then have "signed_take_bit 31 ?d = ?d" by (intro signed_take_bit_int_eq_self) simp_all
  then have "LeafComparator a b = ?d" unfolding LeafComparator_def sint_sbintrunc' by simp
  then show ?thesis by simp
qed

lemma packed_weight:
  assumes "c < (512 :: nat)"
  shows "drop_bit 9 (push_bit 9 w OR c) = w" and "w < 2 ^ 22 \<Longrightarrow> push_bit 9 w OR c < 2 ^ 31"
proof -
  have "drop_bit 9 c = 0" using assms by (simp add: drop_bit_eq_div)
  then show d: "drop_bit 9 (push_bit 9 w OR c) = w" by (simp add: drop_bit_or drop_bit_push_bit)
  then have "(push_bit 9 w OR c) div 512 = w" by (simp add: drop_bit_eq_div)
  moreover have "x < 2 ^ 31" if "x div 512 = w" "w < 2 ^ 22" for x :: nat
    using that by (simp add: div_less_iff_less_mult flip: that(1))
  ultimately show "w < 2 ^ 22 \<Longrightarrow> push_bit 9 w OR c < 2 ^ 31" by blast
qed

section \<open>Code lengths\<close>

lemma used_leaves_facts:
  shows "distinct (map count (used_leaves fs))"
    and "count ` set (used_leaves fs) = {i. i < length fs \<and> fs ! i \<noteq> 0}"
    and "l \<in> set (used_leaves fs) \<Longrightarrow> tail l = Null \<and> weight l = unat (fs ! count l) \<and> 0 < weight l \<and> count l < length fs"
proof -
  have "map count (used_leaves fs) = filter (\<lambda>i. fs ! i \<noteq> 0) [0..<length fs]"
    by (simp add: used_leaves_def comp_def)
  note eq = this
  show "distinct (map count (used_leaves fs))" unfolding eq by simp
  have "set (map count (used_leaves fs)) = {i. i < length fs \<and> fs ! i \<noteq> 0}" unfolding eq by auto
  then show "count ` set (used_leaves fs) = {i. i < length fs \<and> fs ! i \<noteq> 0}" by simp
  show "l \<in> set (used_leaves fs) \<Longrightarrow> tail l = Null \<and> weight l = unat (fs ! count l) \<and> 0 < weight l \<and> count l < length fs"
    by (auto simp: used_leaves_def unat_gt_0)
qed

text \<open>The leaves after sorting.\<close>

definition sort_leaves :: "Node list \<Rightarrow> Node list" where
  "sort_leaves leaves =
    map (\<lambda>l. Node (drop_bit 9 (weight l)) (count l) (tail l))
      (qsort LeafComparator (map (\<lambda>l. Node (push_bit 9 (weight l) OR count l) (count l) (tail l)) leaves))"

lemma sort_leaves_facts:
  assumes "\<forall>l \<in> set leaves. count l < 512 \<and> 0 < weight l \<and> weight l < 2 ^ 22" and "3 \<le> length leaves"
    and "distinct (map count leaves)"
  shows "sorted_leaves (sort_leaves leaves)" and "length (sort_leaves leaves) = length leaves"
    and "distinct (map count (sort_leaves leaves))" and "count ` set (sort_leaves leaves) = count ` set leaves"
proof -
  let ?f = "\<lambda>l. Node (push_bit 9 (weight l) OR count l) (count l) (tail l)"
  let ?g = "\<lambda>l. Node (drop_bit 9 (weight l)) (count l) (tail l)"
  let ?q = "qsort LeafComparator (map ?f leaves)"
  have q: "set ?q = ?f ` set leaves" "length ?q = length leaves" "distinct (map count ?q)"
    using assms(3) by (simp_all add: qsort_facts comp_def)
  have "weight l < 2 ^ 31" if "l \<in> ?f ` set leaves" for l
    using that assms(1) packed_weight(2) by auto
  then have "sorted (map weight ?q)"
    by (intro qsort_sorted) (use LeafComparator_order in auto)
  then have "sorted (map (\<lambda>l. drop_bit 9 (weight l)) ?q)"
    by (simp add: sorted_iff_nth_mono drop_bit_eq_div div_le_mono)
  moreover have "weight (?g (?f l)) = weight l" if "l \<in> set leaves" for l
    using that assms(1) packed_weight(1) [of "count l" "weight l"] by simp
  ultimately show "sorted_leaves (sort_leaves leaves)"
    using assms(1,2) q(1,2) by (auto simp: sorted_leaves_def sort_leaves_def comp_def packed_weight(1) intro: less_trans)
  show "length (sort_leaves leaves) = length leaves" using q(2) by (simp add: sort_leaves_def)
  show "distinct (map count (sort_leaves leaves))" using q(3) by (simp add: sort_leaves_def comp_def)
  show "count ` set (sort_leaves leaves) = count ` set leaves" using q(1) by (simp add: sort_leaves_def image_comp comp_def)
qed

lemma ones_kraft:
  assumes "S \<subseteq> {..<length bl}" and "\<And>x. x < length bl \<Longrightarrow> bl ! x = (if x \<in> S then 1 else 0)"
  shows "kraft_sum m (\<lambda>l. 0 < l) bl = card S * 2 ^ (m - 1)"
proof -
  have "kraft_sum m (\<lambda>l. 0 < l) bl = (\<Sum>x \<in> S. 2 ^ (m - 1))"
    unfolding kraft_sum_nth using assms
    by (intro sum.mono_neutral_cong_right) (auto split: if_splits)
  then show ?thesis by simp
qed

lemma kraftI: "(\<And>x. x < length bl \<Longrightarrow> bl ! x \<le> m) \<Longrightarrow> kraft_sum m (\<lambda>l. 0 < l) bl \<le> 2 ^ m \<Longrightarrow> kraft m bl"
  by (auto simp: kraft_def in_set_conv_nth)

definition lengths_ok :: "u64 list \<Rightarrow> nat \<Rightarrow> nat list \<Rightarrow> bool" where
  "lengths_ok fs m bl \<longleftrightarrow>
    length bl = length fs \<and> (\<forall>x < length fs. 0 < bl ! x \<longleftrightarrow> fs ! x \<noteq> 0) \<and> kraft m bl \<and>
    (2 \<le> length (used_leaves fs) \<longrightarrow> kraft_sum m (\<lambda>l. 0 < l) bl = 2 ^ m)"

lemma few_symbols:
  assumes "length (used_leaves fs) \<le> 2" and "1 \<le> m"
    and "length bl = length fs" and "\<And>x. x < length fs \<Longrightarrow> bl ! x = (if x \<in> count ` set (used_leaves fs) then 1 else 0)"
  shows "lengths_ok fs m bl"
proof -
  note u = used_leaves_facts [where fs = fs]
  let ?S = "count ` set (used_leaves fs)"
  have "card ?S = length (used_leaves fs)" using u(1) by (metis distinct_card length_map list.set_map)
  moreover have "kraft_sum m (\<lambda>l. 0 < l) bl = card ?S * 2 ^ (m - 1)"
    using assms(3,4) u(2) by (intro ones_kraft) auto
  moreover have "(2 :: nat) * 2 ^ (m - 1) = 2 ^ m" using assms(2) by (cases m) simp_all
  ultimately have "kraft_sum m (\<lambda>l. 0 < l) bl \<le> 2 ^ m"
    "2 \<le> length (used_leaves fs) \<longrightarrow> kraft_sum m (\<lambda>l. 0 < l) bl = 2 ^ m"
    using assms(1) by (metis mult_le_mono1, metis le_antisym)
  then show ?thesis
    using assms u(2) by (auto simp: lengths_ok_def intro!: kraftI)
qed

lemma many_symbols:
  assumes "length fs \<le> 512" and "\<forall>f \<in> set fs. unat f < 2 ^ 22" and "m \<le> 15"
    and "3 \<le> length (used_leaves fs)" and "length (used_leaves fs) \<le> 2 ^ m"
  defines "n \<equiv> length (used_leaves fs)" and "L \<equiv> sort_leaves (used_leaves fs)"
  defines "k \<equiv> (if n - 1 < m then n - 1 else m)"
  obtains bl where "ExtractBitLengths (BoundaryPMFinal L n (k - 1) (run_PM (2 * n - 4 - 1) L n (k - 1) (InitLists L k)))
      L (replicate (length fs) 0) = Some bl" and "lengths_ok fs m bl"
proof -
  note u = used_leaves_facts [where fs = fs]
  have w: "\<forall>l \<in> set (used_leaves fs). count l < 512 \<and> 0 < weight l \<and> weight l < 2 ^ 22"
    using u(3) assms(1,2) by (fastforce intro: nth_mem)
  note s = sort_leaves_facts [OF w assms(4) u(1), folded L_def n_def]
  have "n - 1 < 2 ^ (n - 1)" by (rule less_exp)
  then have "n \<le> 2 ^ (n - 1)" by linarith
  then have nk: "n \<le> 2 ^ k" using assms(5) by (simp add: k_def n_def)
  have k: "2 \<le> k" "k \<le> m"
  proof -
    have "(2 :: nat) ^ k \<le> 2 ^ 1" if "k < 2" using that by (intro power_increasing) auto
    then show "2 \<le> k" using nk assms(4) by (fastforce simp: n_def not_less[symmetric])
  qed (simp add: k_def)
  let ?F = "BoundaryPMFinal L n (k - 1) (run_PM (2 * n - 4 - 1) L n (k - 1) (InitLists L k))"
  note F = final_chain [of L k, unfolded s(2), OF s(1) nk k(1)]
  have km: "k \<le> 15" "k - 1 < m" using k assms(3) by auto
  have n0: "0 < n" using assms(4) unfolding n_def by linarith
  have cnt: "\<forall>l \<in> set L. count l < length fs" using s(4) u(3) by (metis imageE imageI)
  obtain bl where bl: "ExtractBitLengths ?F L (replicate (length fs) 0) = Some bl" "length bl = length fs"
      "\<And>x. x < length fs \<Longrightarrow> 0 < bl ! x \<longleftrightarrow> x \<in> count ` set L" "\<And>x. x < length fs \<Longrightarrow> bl ! x \<le> m"
      "kraft_sum m (\<lambda>l. 0 < l) bl = 2 ^ m"
    using ExtractBitLengths_kraft [OF s(3) cnt, unfolded s(2), OF F [OF km(1)] km(2) assms(3) n0] by blast
  have "lengths_ok fs m bl"
    using bl(2-5) s(4) u(2) by (auto simp: lengths_ok_def intro!: kraftI)
  with bl(1) that show thesis by blast
qed

lemma code_lengths_complete:
  assumes "length fs \<le> 512" and "\<forall>f \<in> set fs. unat f < 2 ^ 22" and "1 \<le> m" and "m \<le> 15"
    and "length (used_leaves fs) \<le> 2 ^ m"
  obtains bl where "ZopfliLengthLimitedCodeLengths fs m = Some (0, bl)" and "lengths_ok fs m bl"
proof -
  let ?n = "length (used_leaves fs)"
  note u = used_leaves_facts [where fs = fs]
  consider "?n = 0" | "?n = 1" | "?n = 2" | "3 \<le> ?n" by linarith
  then show thesis
  proof cases
    case 1
    then show thesis
      using assms(3) by (intro that [of "replicate (length fs) 0"] few_symbols) (simp_all add: ZopfliLengthLimitedCodeLengths_def)
  next
    case 2
    then obtain a where a: "used_leaves fs = [a]" by (metis One_nat_def length_0_conv length_Suc_conv)
    have lt: "count a < length fs" using u(3) a by simp
    show thesis
    proof (rule that [OF _ few_symbols])
      show "ZopfliLengthLimitedCodeLengths fs m = Some (0, (replicate (length fs) 0)[count a := 1])"
        using a by (simp add: ZopfliLengthLimitedCodeLengths_def)
    qed (use a lt assms(3) in \<open>auto simp: nth_list_update\<close>)
  next
    case 3
    then obtain a b where ab: "used_leaves fs = [a, b]" by (metis length_0_conv length_Suc_conv numeral_2_eq_2)
    have lt: "count a < length fs" "count b < length fs" "count a \<noteq> count b" using u(1,3) ab by simp_all
    show thesis
    proof (rule that [OF _ few_symbols])
      show "ZopfliLengthLimitedCodeLengths fs m = Some (0, (replicate (length fs) 0)[count a := 1, count b := 1])"
        using ab assms(5) lt by (simp add: ZopfliLengthLimitedCodeLengths_def)
    qed (use ab lt assms(3) in \<open>auto simp: nth_list_update\<close>)
  next
    case 4
    have "weight l < 2 ^ (64 - 9)" if "l \<in> set (used_leaves fs)" for l
    proof -
      have "weight l < 2 ^ 22" using u(3) [OF that] assms(2) nth_mem [of "count l" fs] by metis
      also have "(2 :: nat) ^ 22 \<le> 2 ^ (64 - 9)" by (intro power_increasing) simp_all
      finally show ?thesis .
    qed
    then have "\<not> (\<exists>l \<in> set (used_leaves fs). 2 ^ (64 - 9) \<le> weight l)" by (meson not_le)
    moreover have "\<not> 2 ^ m < ?n" "?n \<noteq> 0" "?n \<noteq> 1" "?n \<noteq> 2" using 4 assms(5) by linarith+
    ultimately have eq: "ZopfliLengthLimitedCodeLengths fs m =
        (let n = ?n; L = sort_leaves (used_leaves fs); k = (if n - 1 < m then n - 1 else m)
         in map_option (\<lambda>bl. (0, bl)) (ExtractBitLengths
           (BoundaryPMFinal L n (k - 1) (run_PM (2 * n - 4 - 1) L n (k - 1) (InitLists L k))) L (replicate (length fs) 0)))"
      unfolding ZopfliLengthLimitedCodeLengths_def sort_leaves_def Let_def by (simp only: if_False)
    from many_symbols [OF assms(1,2,4) 4 assms(5)] obtain bl where
      bl: "ZopfliLengthLimitedCodeLengths fs m = Some (0, bl)" "lengths_ok fs m bl"
      unfolding eq Let_def by (metis option.map(2))
    then show thesis by (rule that)
  qed
qed

end
