(* ===== verification/Zopfli_Dynamic.thy ===== *)
theory Zopfli_Dynamic
  imports Zopfli_Data Zopfli_Lengths
begin

text \<open>
  The Huffman trees at the start of a dynamic block (\<open>EncodeTree\<close>, \<open>AddDynamicTree\<close> and \<open>CalculateTreeSize\<close> of
  \<open>deflate.c\<close>): the code lengths are run-length encoded, and the run-length codes are Huffman coded with
  code lengths of their own. The output is \<open>None\<close> when only the size is wanted. An assertion that
  fails inside is \<open>None\<close> as the result.

  A reference decoder of the header of a dynamic block gives the code lengths back, and the size is
  the number of bits written.
\<close>

section \<open>The code of deflate.c\<close>

text \<open>Trimming of zeros: the loops that decrement \<open>hlit\<close>, \<open>hdist\<close> and \<open>hclen\<close> while an entry is zero.\<close>

fun trim :: "(nat \<Rightarrow> bool) \<Rightarrow> nat \<Rightarrow> nat" where
  "trim P 0 = 0"
| "trim P (Suc h) = (if P h then trim P h else Suc h)"

record rle_state =
  rle :: "(nat \<times> nat) list"
  clcounts :: "u64 list"

definition append_rle :: "bool \<Rightarrow> nat \<Rightarrow> nat \<Rightarrow> rle_state \<Rightarrow> rle_state" where
  "append_rle size_only symbol extra s = (if size_only then s else s\<lparr>rle := rle s @ [(symbol, extra)]\<rparr>)"

definition count_rle :: "nat \<Rightarrow> rle_state \<Rightarrow> rle_state" where
  "count_rle symbol s = s\<lparr>clcounts := bump symbol (clcounts s)\<rparr>"

text \<open>The three repeat codes with the least and the largest number of repetitions.\<close>

datatype repeat = R16 | R17 | R18

fun rep_code :: "repeat \<Rightarrow> nat" where
  "rep_code R16 = 16" | "rep_code R17 = 17" | "rep_code R18 = 18"

fun rep_min :: "repeat \<Rightarrow> nat" where
  "rep_min R16 = 3" | "rep_min R17 = 3" | "rep_min R18 = 11"

fun rep_max :: "repeat \<Rightarrow> nat" where
  "rep_max R16 = 6" | "rep_max R17 = 10" | "rep_max R18 = 138"

lemma rep_pos: "0 < rep_min r" "rep_min r \<le> rep_max r" "0 < rep_max r"
  by (cases r; simp)+

function repeat_loop :: "bool \<Rightarrow> repeat \<Rightarrow> nat \<Rightarrow> rle_state \<Rightarrow> nat \<times> rle_state" where
  "repeat_loop size_only r n s =
    (if n \<ge> rep_min r then
       let n2 = (if n > rep_max r then rep_max r else n);
           s = append_rle size_only (rep_code r) (n2 - rep_min r) s;
           s = count_rle (rep_code r) s
       in repeat_loop size_only r (n - n2) s
     else (n, s))"
  by pat_completeness auto

termination
  by (relation "measure (\<lambda>(_, _, n, _). n)") (use rep_pos in \<open>auto simp: Suc_le_eq intro: diff_less less_le_trans\<close>)

declare repeat_loop.simps [simp del]

fun rest_loop :: "bool \<Rightarrow> nat \<Rightarrow> nat \<Rightarrow> rle_state \<Rightarrow> rle_state" where
  "rest_loop size_only symbol 0 s = s"
| "rest_loop size_only symbol (Suc n) s = rest_loop size_only symbol n (append_rle size_only symbol 0 s)"

definition encode_run :: "bool \<Rightarrow> bool \<Rightarrow> bool \<Rightarrow> bool \<Rightarrow> nat \<Rightarrow> nat \<Rightarrow> rle_state \<Rightarrow> rle_state" where
  "encode_run size_only use_16 use_17 use_18 symbol n s =
    (let (n, s) =
           (if symbol = 0 \<and> n \<ge> 3 then
              (let (n, s) = (if use_18 then repeat_loop size_only R18 n s else (n, s))
               in if use_17 then repeat_loop size_only R17 n s else (n, s))
            else (n, s));
         (n, s) =
           (if use_16 \<and> n \<ge> 4 then
              (let n = n - 1;
                   s = count_rle symbol s;
                   s = append_rle size_only symbol 0 s
               in repeat_loop size_only R16 n s)
            else (n, s));
         s = s\<lparr>clcounts := (clcounts s)[symbol := clcounts s ! symbol + of_nat n]\<rparr>
     in rest_loop size_only symbol n s)"

text \<open>The length of the run that starts with \<open>symbol\<close>, when runs are used for it.\<close>

definition run_of :: "bool \<Rightarrow> bool \<Rightarrow> bool \<Rightarrow> nat \<Rightarrow> nat list \<Rightarrow> nat" where
  "run_of use_16 use_17 use_18 symbol ls =
    (if use_16 \<or> symbol = 0 \<and> (use_17 \<or> use_18) then 1 + length (takeWhile (\<lambda>l. l = symbol) ls) else 1)"

text \<open>The lengths are read as \<open>unsigned char\<close>.\<close>

function encode_lengths :: "bool \<Rightarrow> bool \<Rightarrow> bool \<Rightarrow> bool \<Rightarrow> nat list \<Rightarrow> rle_state \<Rightarrow> rle_state" where
  "encode_lengths size_only use_16 use_17 use_18 [] s = s"
| "encode_lengths size_only use_16 use_17 use_18 (l # ls) s =
    (let symbol = l mod 256;
         n = run_of use_16 use_17 use_18 symbol ls
     in encode_lengths size_only use_16 use_17 use_18 (drop (n - 1) ls)
          (encode_run size_only use_16 use_17 use_18 symbol n s))"
  by pat_completeness auto

termination
  by (relation "measure (\<lambda>(_, _, _, _, ls, _). length ls)") auto

definition cl_order :: "nat list" where
  "cl_order = [16, 17, 18, 0, 8, 7, 9, 6, 10, 5, 11, 4, 12, 3, 13, 2, 14, 1, 15]"

fun write_clcl :: "nat list \<Rightarrow> nat list \<Rightarrow> bit_out \<Rightarrow> bit_out" where
  "write_clcl clcl [] s = s"
| "write_clcl clcl (i # is) s = write_clcl clcl is (AddBits (of_nat (clcl ! (cl_order ! i))) 3 s)"

definition write_rle :: "nat list \<Rightarrow> u32 list \<Rightarrow> nat \<times> nat \<Rightarrow> bit_out \<Rightarrow> bit_out" where
  "write_rle clcl clsymbols it s =
    (case it of (symbol, extra) \<Rightarrow>
       let s = AddHuffmanBits (clsymbols ! symbol) (clcl ! symbol) s
       in if symbol = 16 then AddBits (of_nat extra) 2 s
          else if symbol = 17 then AddBits (of_nat extra) 3 s
          else if symbol = 18 then AddBits (of_nat extra) 7 s
          else s)"

definition tree_size :: "nat \<Rightarrow> nat list \<Rightarrow> u64 list \<Rightarrow> u64" where
  "tree_size hclen clcl clc =
    14 + of_nat ((hclen + 4) * 3) + sum_list (map (\<lambda>i. of_nat (clcl ! i) * clc ! i) [0..<19]) +
    clc ! 16 * 2 + clc ! 17 * 3 + clc ! 18 * 7"

definition EncodeTree ::
  "nat list \<Rightarrow> nat list \<Rightarrow> bool \<Rightarrow> bool \<Rightarrow> bool \<Rightarrow> bit_out option \<Rightarrow> (u64 \<times> bit_out option) option" where
  "EncodeTree ll_lengths d_lengths use_16 use_17 use_18 outp =
    (let size_only = (outp = None);
         hlit = trim (\<lambda>h. ll_lengths ! (257 + h) = 0) 29;
         hdist = trim (\<lambda>h. d_lengths ! (1 + h) = 0) 29;
         hlit2 = hlit + 257;
         lens = map (\<lambda>i. if i < hlit2 then ll_lengths ! i else d_lengths ! (i - hlit2)) [0..<hlit2 + hdist + 1];
         s = encode_lengths size_only use_16 use_17 use_18 lens \<lparr>rle = [], clcounts = replicate 19 0\<rparr>
     in case ZopfliCalculateBitLengths (clcounts s) 7 of
          None \<Rightarrow> None
        | Some clcl \<Rightarrow>
            let hclen = trim (\<lambda>h. clcounts s ! (cl_order ! (h + 4)) = 0) 15
            in case outp of
                 None \<Rightarrow> Some (tree_size hclen clcl (clcounts s), None)
               | Some b \<Rightarrow>
                   (case ZopfliLengthsToSymbols clcl 7 of
                      None \<Rightarrow> None
                    | Some clsymbols \<Rightarrow>
                        let b = AddBits (of_nat hlit) 5 b;
                            b = AddBits (of_nat hdist) 5 b;
                            b = AddBits (of_nat hclen) 4 b;
                            b = write_clcl clcl [0..<hclen + 4] b;
                            b = fold (write_rle clcl clsymbols) (rle s) b
                        in Some (tree_size hclen clcl (clcounts s), Some b)))"

text \<open>The eight ways to use the repeat codes.\<close>

definition tree_flags :: "nat \<Rightarrow> bool \<times> bool \<times> bool" where
  "tree_flags i = (i AND 1 \<noteq> 0, i AND 2 \<noteq> 0, i AND 4 \<noteq> 0)"

definition EncodeTree_flags :: "nat list \<Rightarrow> nat list \<Rightarrow> nat \<Rightarrow> bit_out option \<Rightarrow> (u64 \<times> bit_out option) option" where
  "EncodeTree_flags ll_lengths d_lengths i outp =
    (case tree_flags i of (use_16, use_17, use_18) \<Rightarrow> EncodeTree ll_lengths d_lengths use_16 use_17 use_18 outp)"

fun best_tree :: "nat list \<Rightarrow> nat list \<Rightarrow> nat list \<Rightarrow> nat \<Rightarrow> u64 \<Rightarrow> nat option" where
  "best_tree ll_lengths d_lengths [] best bestsize = Some best"
| "best_tree ll_lengths d_lengths (i # is) best bestsize =
    (case EncodeTree_flags ll_lengths d_lengths i None of
       None \<Rightarrow> None
     | Some (sz, _) \<Rightarrow>
         if bestsize = 0 \<or> sz < bestsize then best_tree ll_lengths d_lengths is i sz
         else best_tree ll_lengths d_lengths is best bestsize)"

definition AddDynamicTree :: "nat list \<Rightarrow> nat list \<Rightarrow> bit_out \<Rightarrow> bit_out option" where
  "AddDynamicTree ll_lengths d_lengths b =
    (case best_tree ll_lengths d_lengths [0..<8] 0 0 of
       None \<Rightarrow> None
     | Some best \<Rightarrow> Option.bind (EncodeTree_flags ll_lengths d_lengths best (Some b)) snd)"

fun least_size :: "nat list \<Rightarrow> nat list \<Rightarrow> nat list \<Rightarrow> u64 \<Rightarrow> u64 option" where
  "least_size ll_lengths d_lengths [] result = Some result"
| "least_size ll_lengths d_lengths (i # is) result =
    (case EncodeTree_flags ll_lengths d_lengths i None of
       None \<Rightarrow> None
     | Some (sz, _) \<Rightarrow> least_size ll_lengths d_lengths is (if result = 0 \<or> sz < result then sz else result))"

definition CalculateTreeSize :: "nat list \<Rightarrow> nat list \<Rightarrow> u64 option" where
  "CalculateTreeSize ll_lengths d_lengths = least_size ll_lengths d_lengths [0..<8] 0"

section \<open>The run-length codes\<close>

function rep_items :: "repeat \<Rightarrow> nat \<Rightarrow> (nat \<times> nat) list" where
  "rep_items r n =
    (if n \<ge> rep_min r then (rep_code r, min n (rep_max r) - rep_min r) # rep_items r (n - min n (rep_max r)) else [])"
  by pat_completeness auto

termination
  by (relation "measure snd") (use rep_pos in \<open>auto simp: Suc_le_eq min_def intro: diff_less less_le_trans\<close>)

function rep_rest :: "repeat \<Rightarrow> nat \<Rightarrow> nat" where
  "rep_rest r n = (if n \<ge> rep_min r then rep_rest r (n - min n (rep_max r)) else n)"
  by pat_completeness auto

termination
  by (relation "measure snd") (use rep_pos in \<open>auto simp: Suc_le_eq min_def intro: diff_less less_le_trans\<close>)

declare rep_items.simps [simp del] rep_rest.simps [simp del]

definition zero_rest :: "bool \<Rightarrow> bool \<Rightarrow> nat \<Rightarrow> nat \<Rightarrow> nat" where
  "zero_rest u17 u18 x n =
    (if x = 0 \<and> n \<ge> 3 then
       (let n = (if u18 then rep_rest R18 n else n) in if u17 then rep_rest R17 n else n) else n)"

definition zero_items :: "bool \<Rightarrow> bool \<Rightarrow> nat \<Rightarrow> nat \<Rightarrow> (nat \<times> nat) list" where
  "zero_items u17 u18 x n =
    (if x = 0 \<and> n \<ge> 3 then
       (if u18 then rep_items R18 n else []) @
       (if u17 then rep_items R17 (if u18 then rep_rest R18 n else n) else [])
     else [])"

definition run_items :: "bool \<Rightarrow> bool \<Rightarrow> bool \<Rightarrow> nat \<Rightarrow> nat \<Rightarrow> (nat \<times> nat) list" where
  "run_items u16 u17 u18 x n =
    (let k = zero_rest u17 u18 x n
     in zero_items u17 u18 x n @
        (if u16 \<and> k \<ge> 4 then (x, 0) # rep_items R16 (k - 1) @ replicate (rep_rest R16 (k - 1)) (x, 0)
         else replicate k (x, 0)))"

definition add_items :: "bool \<Rightarrow> (nat \<times> nat) list \<Rightarrow> rle_state \<Rightarrow> rle_state" where
  "add_items so its s =
    s\<lparr>rle := rle s @ (if so then [] else its), clcounts := fold bump (map fst its) (clcounts s)\<rparr>"

lemma add_items_append: "add_items so (xs @ ys) s = add_items so ys (add_items so xs s)"
  by (simp add: add_items_def)

lemma add_items_Nil [simp]: "add_items so [] s = s"
  by (simp add: add_items_def)

lemma add_item: "count_rle c (append_rle so c b s) = add_items so [(c, b)] s"
  "append_rle so c b (count_rle c s) = add_items so [(c, b)] s"
  by (simp_all add: add_items_def count_rle_def append_rle_def)

lemma repeat_loop_items: "repeat_loop so r n s = (rep_rest r n, add_items so (rep_items r n) s)"
proof (induction r n arbitrary: s rule: rep_items.induct)
  case (1 r n)
  show ?case
  proof (cases "rep_min r \<le> n")
    case True
    let ?k = "min n (rep_max r)"
    have "repeat_loop so r n s = repeat_loop so r (n - ?k) (add_items so [(rep_code r, ?k - rep_min r)] s)"
      using True by (subst repeat_loop.simps) (simp add: Let_def add_item min_def)
    also have "\<dots> = (rep_rest r (n - ?k), add_items so ([(rep_code r, ?k - rep_min r)] @ rep_items r (n - ?k)) s)"
      unfolding 1 [OF True] add_items_append ..
    also have "rep_rest r (n - ?k) = rep_rest r n" using True by (subst (2) rep_rest.simps) simp
    also have "[(rep_code r, ?k - rep_min r)] @ rep_items r (n - ?k) = rep_items r n"
      using True by (subst (2) rep_items.simps) simp
    finally show ?thesis .
  next
    case False
    then show ?thesis by (simp add: repeat_loop.simps rep_rest.simps rep_items.simps)
  qed
qed

lemma fold_bump_replicate:
  "x < length c \<Longrightarrow> (bump x ^^ n) c = c[x := c ! x + of_nat n]"
  by (induction n) (simp_all add: bump_def algebra_simps)

lemma rest_loop_items:
  "x < length (clcounts s) \<Longrightarrow>
   rest_loop so x n (s\<lparr>clcounts := (clcounts s)[x := clcounts s ! x + of_nat n]\<rparr>) = add_items so (replicate n (x, 0)) s"
proof -
  have "rest_loop so x n s' = s'\<lparr>rle := rle s' @ (if so then [] else replicate n (x, 0))\<rparr>" for s'
    by (induction n arbitrary: s') (simp_all add: append_rle_def)
  then show "x < length (clcounts s) \<Longrightarrow> ?thesis"
    by (cases s) (simp add: add_items_def fold_bump_replicate)
qed

lemma length_fold_bump [simp]: "length (fold bump xs c) = length c"
  by (induction xs arbitrary: c) (simp_all add: bump_def)

lemma encode_run_items:
  assumes "x < length (clcounts s)"
  shows "encode_run so u16 u17 u18 x n s = add_items so (run_items u16 u17 u18 x n) s"
proof -
  have len: "x < length (clcounts (add_items so its s))" for its using assms by (simp add: add_items_def)
  have z: "(if x = 0 \<and> n \<ge> 3 then
        (let (n, s) = (if u18 then repeat_loop so R18 n s else (n, s))
         in if u17 then repeat_loop so R17 n s else (n, s)) else (n, s)) =
      (zero_rest u17 u18 x n, add_items so (zero_items u17 u18 x n) s)"
    by (simp add: repeat_loop_items zero_rest_def zero_items_def add_items_append)
  let ?k = "zero_rest u17 u18 x n" and ?s = "add_items so (zero_items u17 u18 x n) s"
  show ?thesis
    unfolding encode_run_def z
    by (simp add: Let_def add_item repeat_loop_items rest_loop_items len run_items_def
        flip: add_items_append)
qed

function all_items :: "bool \<Rightarrow> bool \<Rightarrow> bool \<Rightarrow> nat list \<Rightarrow> (nat \<times> nat) list" where
  "all_items u16 u17 u18 [] = []"
| "all_items u16 u17 u18 (l # ls) =
    run_items u16 u17 u18 l (run_of u16 u17 u18 l ls) @ all_items u16 u17 u18 (drop (run_of u16 u17 u18 l ls - 1) ls)"
  by pat_completeness auto

termination
  by (relation "measure (\<lambda>(_, _, _, ls). length ls)") auto

lemma encode_lengths_items:
  assumes "\<forall>l \<in> set ls. l < 16" and "length (clcounts s) = 19"
  shows "encode_lengths so u16 u17 u18 ls s = add_items so (all_items u16 u17 u18 ls) s"
  using assms
proof (induction u16 u17 u18 ls arbitrary: s rule: all_items.induct)
  case (2 u16 u17 u18 l ls)
  have l: "l mod 256 = l" "l < 19" using 2(2) by auto
  let ?n = "run_of u16 u17 u18 l ls"
  have "\<forall>x \<in> set (drop (?n - 1) ls). x < 16" using 2(2) by (auto dest: in_set_dropD)
  with 2(1) [of "add_items so (run_items u16 u17 u18 l ?n) s"] 2(3) l show ?case
    by (simp add: Let_def encode_run_items add_items_append) (simp add: add_items_def)
qed simp

section \<open>What the codes stand for\<close>

text \<open>RFC 1951, section 3.2.7: a length, or a repetition of the previous length or of zero.\<close>

definition expand1 :: "nat list \<Rightarrow> nat \<times> nat \<Rightarrow> nat list option" where
  "expand1 ls it =
    (case it of (s, b) \<Rightarrow>
       if s < 16 then Some (ls @ [s])
       else if s = 16 then (if ls = [] then None else Some (ls @ replicate (b + 3) (last ls)))
       else if s = 17 then Some (ls @ replicate (b + 3) 0)
       else if s = 18 then Some (ls @ replicate (b + 11) 0)
       else None)"

fun expand :: "nat list \<Rightarrow> (nat \<times> nat) list \<Rightarrow> nat list option" where
  "expand ls [] = Some ls"
| "expand ls (it # its) = Option.bind (expand1 ls it) (\<lambda>ls. expand ls its)"

lemma expand_append: "expand ls (xs @ ys) = Option.bind (expand ls xs) (\<lambda>ls. expand ls ys)"
  by (induction ls xs rule: expand.induct) (auto split: bind_splits)

lemma expand_literals: "x < 16 \<Longrightarrow> expand ls (replicate n (x, 0)) = Some (ls @ replicate n x)"
  by (induction n arbitrary: ls) (simp_all add: expand1_def)

lemma rep_rest_le: "rep_rest r n \<le> n"
  by (induction r n rule: rep_rest.induct) (subst rep_rest.simps, auto)

lemma expand_repeat:
  assumes "r = R16 \<Longrightarrow> ls \<noteq> [] \<and> last ls = x" and "r \<noteq> R16 \<Longrightarrow> x = 0"
  shows "expand ls (rep_items r n) = Some (ls @ replicate (n - rep_rest r n) x)"
  using assms
proof (induction r n arbitrary: ls rule: rep_items.induct)
  case (1 r n)
  show ?case
  proof (cases "rep_min r \<le> n")
    case True
    let ?k = "min n (rep_max r)"
    have k: "rep_min r \<le> ?k" using True rep_pos [of r] by simp
    have items: "rep_items r n = (rep_code r, ?k - rep_min r) # rep_items r (n - ?k)"
      and rest: "rep_rest r n = rep_rest r (n - ?k)"
      using True by (subst rep_items.simps rep_rest.simps, simp)+
    have "expand1 ls (rep_code r, ?k - rep_min r) = Some (ls @ replicate ?k x)"
      using k 1(2,3) by (cases r) (auto simp: expand1_def)
    moreover have "expand (ls @ replicate ?k x) (rep_items r (n - ?k)) =
        Some ((ls @ replicate ?k x) @ replicate (n - ?k - rep_rest r (n - ?k)) x)"
      using 1(1) [OF True, of "ls @ replicate ?k x"] 1(2,3) k rep_pos(1) [of r] by (auto simp: last_append)
    moreover have "?k + (n - ?k - rep_rest r (n - ?k)) = n - rep_rest r (n - ?k)"
      using rep_rest_le [of r "n - ?k"] by simp
    ultimately show ?thesis by (simp add: items rest flip: replicate_add)
  next
    case False
    then show ?thesis by (simp add: rep_rest.simps rep_items.simps)
  qed
qed

lemma zero_rest_le: "zero_rest u17 u18 x n \<le> n"
  using rep_rest_le by (auto simp: zero_rest_def Let_def intro: order.trans)

lemma expand_zero_items: "expand ls (zero_items u17 u18 x n) = Some (ls @ replicate (n - zero_rest u17 u18 x n) x)"
proof (cases "x = 0 \<and> 3 \<le> n")
  case True
  let ?k = "if u18 then rep_rest R18 n else n"
  have "expand ls (if u18 then rep_items R18 n else []) = Some (ls @ replicate (n - ?k) x)"
    using True expand_repeat [of R18 ls x n] by simp
  moreover have "expand ls' (if u17 then rep_items R17 ?k else []) =
      Some (ls' @ replicate (?k - (if u17 then rep_rest R17 ?k else ?k)) x)" for ls'
    using True expand_repeat [of R17 ls' x ?k] by simp
  moreover have "(n - ?k) + (?k - (if u17 then rep_rest R17 ?k else ?k)) = n - (if u17 then rep_rest R17 ?k else ?k)"
    using rep_rest_le [of R18 n] rep_rest_le [of R17 ?k] by auto
  ultimately show ?thesis
    using True by (simp add: zero_items_def zero_rest_def expand_append Let_def flip: replicate_add del: replicate_append_same)
qed (auto simp: zero_items_def zero_rest_def)

lemma expand_run:
  assumes "x < 16"
  shows "expand ls (run_items u16 u17 u18 x n) = Some (ls @ replicate n x)"
proof -
  let ?k = "zero_rest u17 u18 x n"
  let ?tail = "if u16 \<and> ?k \<ge> 4 then (x, 0) # rep_items R16 (?k - 1) @ replicate (rep_rest R16 (?k - 1)) (x, 0)
    else replicate ?k (x, 0)"
  have "expand ls' ?tail = Some (ls' @ replicate ?k x)" for ls'
  proof (cases "u16 \<and> ?k \<ge> 4")
    case True
    let ?r = "rep_rest R16 (?k - 1)"
    have one: "expand1 ls' (x, 0) = Some (ls' @ [x])" using assms by (simp add: expand1_def)
    have two: "expand (ls' @ [x]) (rep_items R16 (?k - 1)) = Some ((ls' @ [x]) @ replicate (?k - 1 - ?r) x)"
      by (rule expand_repeat) simp_all
    have "[x] @ replicate (?k - 1 - ?r) x @ replicate ?r x = replicate ?k x"
    proof -
      have "Suc ((?k - 1 - ?r) + ?r) = ?k" using rep_rest_le [of R16 "?k - 1"] True by linarith
      then show ?thesis by (metis append_Cons append_Nil replicate_Suc replicate_add)
    qed
    then show ?thesis
      using True one two assms by (simp add: expand_append expand_literals)
  qed (use assms in \<open>auto simp: expand_literals\<close>)
  moreover have "run_items u16 u17 u18 x n = zero_items u17 u18 x n @ ?tail" by (simp only: run_items_def Let_def)
  moreover have "replicate (n - ?k) x @ replicate ?k x = replicate n x"
    using zero_rest_le [of u17 u18 x n] by (simp flip: replicate_add)
  ultimately show ?thesis by (simp only: expand_append expand_zero_items bind.bind_lunit append_assoc)
qed

lemma run_split: "replicate (run_of u16 u17 u18 l ls) l @ drop (run_of u16 u17 u18 l ls - 1) ls = l # ls"
proof -
  have "replicate (length (takeWhile (\<lambda>y. y = l) ls)) l @ drop (length (takeWhile (\<lambda>y. y = l) ls)) ls = ls"
    by (induction ls) auto
  then show ?thesis by (simp add: run_of_def)
qed

text \<open>The codes stand for the lengths they were made from.\<close>

lemma expand_all_items: "\<forall>l \<in> set ls. l < 16 \<Longrightarrow> expand xs (all_items u16 u17 u18 ls) = Some (xs @ ls)"
proof (induction u16 u17 u18 ls arbitrary: xs rule: all_items.induct)
  case (2 u16 u17 u18 l ls)
  let ?n = "run_of u16 u17 u18 l ls"
  have "\<forall>x \<in> set (drop (?n - 1) ls). x < 16" using 2(2) by (auto dest: in_set_dropD)
  then have "expand (xs @ replicate ?n l) (all_items u16 u17 u18 (drop (?n - 1) ls)) =
      Some (xs @ replicate ?n l @ drop (?n - 1) ls)"
    using 2(1) by simp
  then show ?case using 2(2) run_split [of u16 u17 u18 l ls] by (simp add: expand_append expand_run)
qed simp

text \<open>The extra bits fit.\<close>

definition item_ok :: "nat \<times> nat \<Rightarrow> bool" where
  "item_ok it \<longleftrightarrow>
    (case it of (s, b) \<Rightarrow> s < 16 \<or> s = 16 \<and> b < 4 \<or> s = 17 \<and> b < 8 \<or> s = 18 \<and> b < 128)"

lemma rep_items_ok: "list_all item_ok (rep_items r n)"
proof (induction r n rule: rep_items.induct)
  case (1 r n)
  have "item_ok (rep_code r, min n (rep_max r) - rep_min r)" by (cases r) (auto simp: item_ok_def)
  with 1 show ?case by (subst rep_items.simps) simp
qed

lemma all_items_ok: "\<forall>l \<in> set ls. l < 16 \<Longrightarrow> list_all item_ok (all_items u16 u17 u18 ls)"
proof (induction u16 u17 u18 ls rule: all_items.induct)
  case (2 u16 u17 u18 l ls)
  have "item_ok (l, 0)" using 2(2) by (simp add: item_ok_def)
  then have "list_all item_ok (run_items u16 u17 u18 l n)" for n
    using rep_items_ok by (auto simp: run_items_def zero_items_def Let_def list_all_iff)
  moreover have "\<forall>x \<in> set (drop (run_of u16 u17 u18 l ls - 1) ls). x < 16" using 2(2) by (auto dest: in_set_dropD)
  ultimately show ?case using 2(1) by simp
qed simp

section \<open>The header read back\<close>

lemma read_bits_shorter: "read_bits n bs = Some (v, bs') \<Longrightarrow> length bs' \<le> length bs"
  by (auto simp: read_bits_def split: if_splits)

function read_lengths :: "nat list \<Rightarrow> u32 list \<Rightarrow> nat \<Rightarrow> nat list \<Rightarrow> bool list \<Rightarrow> (nat list \<times> bool list) option" where
  "read_lengths cls css n ls bs =
    (if n \<le> length ls then (if length ls = n then Some (ls, bs) else None)
     else case decode_symbol cls css bs of
         None \<Rightarrow> None
       | Some (s, bs1) \<Rightarrow>
           (case read_bits (if s = 16 then 2 else if s = 17 then 3 else if s = 18 then 7 else 0) bs1 of
              None \<Rightarrow> None
            | Some (b, bs2) \<Rightarrow>
                (case expand1 ls (s, b) of
                   None \<Rightarrow> None
                 | Some ls \<Rightarrow> read_lengths cls css n ls bs2)))"
  by pat_completeness auto

termination
  by (relation "measure (\<lambda>(_, _, _, _, bs). length bs)")
    (auto dest!: decode_symbol_shorter read_bits_shorter)

declare read_lengths.simps [simp del]

text \<open>RFC 1951, section 3.2.7: the header of a dynamic block.\<close>

definition read_cls :: "nat \<Rightarrow> bool list \<Rightarrow> nat list" where
  "read_cls n bs = fold (\<lambda>i cls. cls[cl_order ! i := bits_value (take 3 (drop (3 * i) bs))]) [0..<n] (replicate 19 0)"

definition decode_tree :: "bool list \<Rightarrow> (nat list \<times> nat list \<times> bool list) option" where
  "decode_tree bs =
    (case read_bits 5 bs of None \<Rightarrow> None | Some (hlit, bs) \<Rightarrow>
     case read_bits 5 bs of None \<Rightarrow> None | Some (hdist, bs) \<Rightarrow>
     case read_bits 4 bs of None \<Rightarrow> None | Some (hclen, bs) \<Rightarrow>
       if length bs < 3 * (hclen + 4) then None
       else
         let cls = read_cls (hclen + 4) bs
         in case ZopfliLengthsToSymbols cls 7 of
              None \<Rightarrow> None
            | Some css \<Rightarrow>
                map_option (\<lambda>(ls, bs). (take (hlit + 257) ls, drop (hlit + 257) ls, bs))
                  (read_lengths cls css (hlit + 257 + hdist + 1) [] (drop (3 * (hclen + 4)) bs)))"

definition extra_bits :: "nat \<Rightarrow> nat" where
  "extra_bits s = (if s = 16 then 2 else if s = 17 then 3 else if s = 18 then 7 else 0)"

definition item_bits :: "nat list \<Rightarrow> u32 list \<Rightarrow> nat \<times> nat \<Rightarrow> bool list" where
  "item_bits cls css it =
    (case it of (s, b) \<Rightarrow> code_bits (css ! s) (cls ! s) @ map (bit (int b)) [0..<extra_bits s])"

lemma item_fits: "item_ok (s, b) \<Longrightarrow> s \<noteq> 16 \<Longrightarrow> s \<noteq> 17 \<Longrightarrow> s \<noteq> 18 \<Longrightarrow> s < 16"
  "item_ok (s, b) \<Longrightarrow> 16 \<le> s \<Longrightarrow> b < 2 ^ extra_bits s" "item_ok (s, b) \<Longrightarrow> s < 19"
  by (auto simp: item_ok_def extra_bits_def)

lemma write_rle_stream:
  assumes "bit_out_ok s"
  shows "bit_out_ok (write_rle cls css it s) \<and> stream (write_rle cls css it s) = stream s @ item_bits cls css it"
proof -
  obtain x b where it: "it = (x, b)" by (cases it)
  have w: "map (bit (of_nat b :: u32)) [0..<n] = map (bit (int b)) [0..<n]" if "n \<le> 32" for n
    using bits_of_int [OF that, of "int b"] by simp
  show ?thesis
    using AddHuffmanBits_stream [OF assms, of "css ! x" "cls ! x"]
    by (auto simp: it write_rle_def item_bits_def extra_bits_def Let_def AddBits_stream w simp del: upt_rec_numeral)
qed

lemma fold_write_rle_stream:
  "bit_out_ok s \<Longrightarrow> bit_out_ok (fold (write_rle cls css) its s) \<and>
   stream (fold (write_rle cls css) its s) = stream s @ concat (map (item_bits cls css) its)"
  by (induction its arbitrary: s) (simp_all add: write_rle_stream)

lemma expand1_longer: "expand1 ls it = Some ls' \<Longrightarrow> length ls < length ls'"
  by (auto simp: expand1_def split: if_splits prod.splits)

lemma expand_longer: "expand ls its = Some ls' \<Longrightarrow> length ls \<le> length ls'"
  by (induction ls its rule: expand.induct) (fastforce dest: expand1_longer split: bind_splits)+

lemma read_lengths_written:
  assumes "kraft 7 cls" and "length cls = 19" and "ZopfliLengthsToSymbols cls 7 = Some css"
    and "list_all item_ok its" and "\<forall>it \<in> set its. 0 < cls ! fst it"
    and "expand ls its = Some ls'" and "length ls' = n"
  shows "read_lengths cls css n ls (concat (map (item_bits cls css) its) @ rest) = Some (ls', rest)"
  using assms(4-6)
proof (induction its arbitrary: ls)
  case Nil
  then show ?case using assms(7) by (subst read_lengths.simps) simp
next
  case (Cons it its)
  obtain s b where it: "it = (s, b)" by (cases it)
  have ok: "item_ok (s, b)" and pos: "0 < cls ! s" using Cons.prems it by auto
  obtain ls1 where ls1: "expand1 ls (s, b) = Some ls1" "expand ls1 its = Some ls'"
    using Cons.prems(3) it by (auto split: bind_splits)
  have short: "length ls < n"
    using expand1_longer [OF ls1(1)] expand_longer [OF ls1(2)] assms(7) by simp
  let ?more = "concat (map (item_bits cls css) its) @ rest"
  have sym: "decode_symbol cls css (code_bits (css ! s) (cls ! s) @ r) = Some (s, r)" for r
    using decode_encode [OF assms(1) _ assms(3)] item_fits(3) [OF ok] assms(2) pos by simp
  have extra: "\<exists>b'. read_bits (extra_bits s) (map (bit (int b)) [0..<extra_bits s] @ ?more) = Some (b', ?more) \<and>
      expand1 ls (s, b') = Some ls1"
  proof (cases "16 \<le> s")
    case True
    have "int b < 2 ^ extra_bits s"
      using item_fits(2) [OF ok True] by (metis of_nat_less_iff of_nat_numeral of_nat_power)
    then show ?thesis using read_bits_written [of "int b" "extra_bits s"] ls1(1) by simp
  next
    case False
    then have "extra_bits s = 0" "\<And>b'. expand1 ls (s, b') = expand1 ls (s, b)" by (simp_all add: extra_bits_def expand1_def)
    then show ?thesis using ls1(1) by (simp add: read_bits_def)
  qed
  moreover have "item_bits cls css it = code_bits (css ! s) (cls ! s) @ map (bit (int b)) [0..<extra_bits s]"
    by (simp add: item_bits_def it)
  ultimately show ?case
    using short sym Cons.IH [of ls1] Cons.prems(1,2) ls1(2)
    by (subst read_lengths.simps) (auto simp flip: extra_bits_def simp del: upt_rec_numeral)
qed

lemma trim_le: "trim P h \<le> h"
  by (induction h) auto

lemma trim_above: "trim P h \<le> i \<Longrightarrow> i < h \<Longrightarrow> P i"
  by (induction h) (auto split: if_splits simp: less_Suc_eq)

lemma write_clcl_stream:
  "bit_out_ok s \<Longrightarrow> bit_out_ok (write_clcl clcl is s) \<and>
   stream (write_clcl clcl is s) =
     stream s @ concat (map (\<lambda>i. map (bit (of_nat (clcl ! (cl_order ! i)) :: u32)) [0..<3]) is)"
  by (induction clcl "is" s rule: write_clcl.induct) (simp_all add: AddBits_stream del: upt_rec_numeral)

lemma cl_order_facts: "distinct cl_order" "set cl_order = {..<19}" "length cl_order = 19"
proof -
  show "distinct cl_order" "length cl_order = 19" by (simp_all add: cl_order_def)
  have "set cl_order = set [0..<19]" by code_simp
  then show "set cl_order = {..<19}" by (simp add: atLeast_upt del: upt_rec_numeral)
qed

lemma bits_value_u32:
  assumes "v < 2 ^ n" and "n \<le> 32"
  shows "bits_value (map (bit (of_nat v :: u32)) [0..<n]) = v"
proof -
  have "map (bit (of_nat v :: u32)) [0..<n] = map (bit v) [0..<n]" using assms(2) by (auto simp: bit_simps)
  then have "bits_value (map (bit (of_nat v :: u32)) [0..<n]) = take_bit n v"
    by (simp only: bits_value_def horner_sum_bit_eq_take_bit)
  then show ?thesis using assms(1) by (simp add: take_bit_nat_eq_self)
qed

lemma drop_concat_block:
  assumes "\<And>i. i < n \<Longrightarrow> length (f i) = 3" and "i < n"
  shows "take 3 (drop (3 * i) (concat (map f [0..<n]) @ rest)) = f i"
proof -
  have split: "concat (map f [0..<n]) = concat (map f [0..<i]) @ f i @ concat (map f [Suc i..<n])"
  proof -
    have "[0..<n] = [0..<i] @ i # [Suc i..<n]"
      using upt_add_eq_append [of 0 i "n - i"] upt_conv_Cons [OF assms(2)] assms(2) by simp
    then show ?thesis by simp
  qed
  have "length (concat (map f [0..<i])) = 3 * i"
  proof -
    have "length (concat (map f [0..<k])) = 3 * k" if "k \<le> n" for k
      using that assms(1) by (induction k) auto
    then show ?thesis using assms(2) by simp
  qed
  with assms(1) [OF assms(2)] show ?thesis by (simp add: split)
qed

lemma cl_order_less: "i < 19 \<Longrightarrow> cl_order ! i < 19"
  using nth_mem [of i cl_order] cl_order_facts by auto

lemma fold_order:
  "k \<le> 19 \<Longrightarrow>
   length (fold (\<lambda>i cls. cls[cl_order ! i := g i]) [0..<k] (replicate 19 0)) = 19 \<and>
   (\<forall>j < 19. fold (\<lambda>i cls. cls[cl_order ! i := g i]) [0..<k] (replicate 19 0) ! (cl_order ! j) = (if j < k then g j else 0))"
proof (induction k)
  case (Suc k)
  have "cl_order ! k = cl_order ! j \<longleftrightarrow> k = j" if "j < 19" for j
    using that Suc.prems cl_order_facts by (simp add: nth_eq_iff_index_eq)
  with Suc cl_order_less [of k] show ?case by (auto simp: nth_list_update less_Suc_eq)
qed (simp add: cl_order_less)

text \<open>The code lengths of the run-length codes are read back.\<close>

lemma read_cls_written:
  assumes "length clcl = 19" and "\<forall>l \<in> set clcl. l \<le> 7" and "n \<le> 19"
    and "\<And>i. n \<le> i \<Longrightarrow> i < 19 \<Longrightarrow> clcl ! (cl_order ! i) = 0"
  shows "read_cls n (concat (map (\<lambda>i. map (bit (of_nat (clcl ! (cl_order ! i)) :: u32)) [0..<3]) [0..<n]) @ rest) = clcl"
    (is "read_cls n ?bs = _")
proof -
  have val: "bits_value (take 3 (drop (3 * i) ?bs)) = clcl ! (cl_order ! i)" if "i < n" for i
  proof -
    have "clcl ! (cl_order ! i) < 2 ^ 3" using assms(1-3) cl_order_less [of i] that nth_mem [of "cl_order ! i" clcl] by fastforce
    then have "bits_value (map (bit (of_nat (clcl ! (cl_order ! i)) :: u32)) [0..<3]) = clcl ! (cl_order ! i)"
      by (rule bits_value_u32) simp
    moreover have "take 3 (drop (3 * i) ?bs) = map (bit (of_nat (clcl ! (cl_order ! i)) :: u32)) [0..<3]"
      by (rule drop_concat_block [OF _ that]) (simp del: upt_rec_numeral)
    ultimately show ?thesis by (simp only:)
  qed
  define g where "g = (\<lambda>i. bits_value (take 3 (drop (3 * i) ?bs)))"
  have rc: "read_cls n ?bs = fold (\<lambda>i cls. cls[cl_order ! i := g i]) [0..<n] (replicate 19 0)"
    by (simp only: read_cls_def g_def)
  have gv: "\<And>i. i < n \<Longrightarrow> g i = clcl ! (cl_order ! i)" using val by (simp only: g_def)
  have r: "length (read_cls n ?bs) = 19"
      "\<And>j. j < 19 \<Longrightarrow> read_cls n ?bs ! (cl_order ! j) = clcl ! (cl_order ! j)"
    unfolding rc using fold_order [OF assms(3), of g] gv assms(4) by (simp_all add: not_less)
  show ?thesis
  proof (rule nth_equalityI)
    fix x
    assume "x < length (read_cls n ?bs)"
    then obtain j where "j < 19" "cl_order ! j = x"
      using r(1) cl_order_facts by (metis in_set_conv_nth lessThan_iff)
    then show "read_cls n ?bs ! x = clcl ! x" using r(2) by blast
  qed (use r(1) assms(1) in simp)
qed

section \<open>Encoding and size\<close>

text \<open>Code lengths that a dynamic header can hold.\<close>

definition header_lengths :: "nat list \<Rightarrow> nat list \<Rightarrow> bool" where
  "header_lengths lls dls \<longleftrightarrow>
    length lls = ZOPFLI_NUM_LL \<and> length dls = ZOPFLI_NUM_D \<and> (\<forall>l \<in> set lls. l < 16) \<and> (\<forall>l \<in> set dls. l < 16) \<and>
    lls ! 286 = 0 \<and> lls ! 287 = 0 \<and> dls ! 30 = 0 \<and> dls ! 31 = 0"

definition hlit_of :: "nat list \<Rightarrow> nat" where "hlit_of lls = trim (\<lambda>h. lls ! (257 + h) = 0) 29"
definition hdist_of :: "nat list \<Rightarrow> nat" where "hdist_of dls = trim (\<lambda>h. dls ! (1 + h) = 0) 29"

definition sent_lengths :: "nat list \<Rightarrow> nat list \<Rightarrow> nat list" where
  "sent_lengths lls dls = take (hlit_of lls + 257) lls @ take (hdist_of dls + 1) dls"

lemma hlit_hdist: "hlit_of lls \<le> 29" "hdist_of dls \<le> 29"
  by (simp_all add: hlit_of_def hdist_of_def trim_le)

lemma sent_lengths_map:
  assumes "header_lengths lls dls"
  shows "map (\<lambda>i. if i < hlit_of lls + 257 then lls ! i else dls ! (i - (hlit_of lls + 257)))
      [0..<hlit_of lls + 257 + hdist_of dls + 1] = sent_lengths lls dls"
    and "length (sent_lengths lls dls) = hlit_of lls + 257 + hdist_of dls + 1"
    and "\<forall>l \<in> set (sent_lengths lls dls). l < 16"
proof -
  have len: "hlit_of lls + 257 \<le> length lls" "hdist_of dls + 1 \<le> length dls"
    using assms hlit_hdist(1) [of lls] hlit_hdist(2) [of dls] by (simp_all add: header_lengths_def)
  then show "length (sent_lengths lls dls) = hlit_of lls + 257 + hdist_of dls + 1" by (simp add: sent_lengths_def)
  then show "map (\<lambda>i. if i < hlit_of lls + 257 then lls ! i else dls ! (i - (hlit_of lls + 257)))
      [0..<hlit_of lls + 257 + hdist_of dls + 1] = sent_lengths lls dls"
    using len by (intro nth_equalityI) (auto simp: sent_lengths_def nth_append simp del: upt_Suc)
  show "\<forall>l \<in> set (sent_lengths lls dls). l < 16"
    using assms by (auto simp: header_lengths_def sent_lengths_def dest: in_set_takeD)
qed

text \<open>What is not sent is zero.\<close>

lemma sent_rest:
  assumes "header_lengths lls dls"
  shows "lls = take (hlit_of lls + 257) lls @ replicate (31 - hlit_of lls) 0"
    and "dls = take (hdist_of dls + 1) dls @ replicate (31 - hdist_of dls) 0"
proof -
  have l: "length lls = 288" "length dls = 32" using assms by (simp_all add: header_lengths_def)
  have ll: "lls ! i = 0" if "hlit_of lls + 257 \<le> i" "i < 288" for i
  proof (cases "i < 286")
    case True
    then show ?thesis using trim_above [of "\<lambda>h. lls ! (257 + h) = 0" 29 "i - 257"] that by (simp add: hlit_of_def)
  next
    case False
    then have "i = 286 \<or> i = 287" using that by auto
    then show ?thesis using assms by (auto simp: header_lengths_def)
  qed
  have dd: "dls ! i = 0" if "hdist_of dls + 1 \<le> i" "i < 32" for i
  proof (cases "i < 30")
    case True
    then show ?thesis using trim_above [of "\<lambda>h. dls ! (1 + h) = 0" 29 "i - 1"] that by (simp add: hdist_of_def)
  next
    case False
    then have "i = 30 \<or> i = 31" using that by auto
    then show ?thesis using assms by (auto simp: header_lengths_def)
  qed
  show "lls = take (hlit_of lls + 257) lls @ replicate (31 - hlit_of lls) 0"
    using l hlit_hdist(1) [of lls] ll by (intro nth_equalityI) (auto simp: nth_append)
  show "dls = take (hdist_of dls + 1) dls @ replicate (31 - hdist_of dls) 0"
    using l hlit_hdist(2) [of dls] dd by (intro nth_equalityI) (auto simp: nth_append simp del: take_Suc)
qed

lemma fold_bump_nth:
  "x < length c \<Longrightarrow> \<forall>s \<in> set xs. s < length c \<Longrightarrow> fold bump xs c ! x = c ! x + of_nat (count_list xs x)"
proof (induction xs arbitrary: c)
  case (Cons s xs)
  have len: "length (bump s c) = length c" by (simp add: bump_def)
  have "fold bump xs (bump s c) ! x = bump s c ! x + of_nat (count_list xs x)"
    using Cons.IH [of "bump s c"] Cons.prems len by simp
  moreover have "bump s c ! x = c ! x + (if s = x then 1 else 0)" using Cons.prems by (simp add: bump_def nth_list_update)
  ultimately show ?case by simp
qed simp

lemma expand_length: "expand ls its = Some ls' \<Longrightarrow> length ls + length its \<le> length ls'"
proof (induction its arbitrary: ls)
  case (Cons it its)
  then obtain ls1 where "expand1 ls it = Some ls1" "expand ls1 its = Some ls'" by (auto split: bind_splits)
  with Cons.IH [of ls1] expand1_longer [of ls it ls1] show ?case by simp
qed simp

lemma count_list_le: "count_list xs x \<le> length xs"
  by (induction xs) auto

lemma read_bits_u32:
  assumes "v < 2 ^ n" and "n \<le> 32"
  shows "read_bits n (map (bit (of_nat v :: u32)) [0..<n] @ rest) = Some (v, rest)"
  using bits_value_u32 [OF assms] by (simp add: read_bits_def)

text \<open>The codes of a header, how often each is used, and the code lengths for them.\<close>

definition items_of :: "bool \<times> bool \<times> bool \<Rightarrow> nat list \<Rightarrow> nat list \<Rightarrow> (nat \<times> nat) list" where
  "items_of u lls dls = (case u of (u16, u17, u18) \<Rightarrow> all_items u16 u17 u18 (sent_lengths lls dls))"

definition clcounts_of :: "(nat \<times> nat) list \<Rightarrow> u64 list" where
  "clcounts_of its = fold bump (map fst its) (replicate 19 0)"

lemma items_facts:
  assumes "header_lengths lls dls"
  shows "expand [] (items_of u lls dls) = Some (sent_lengths lls dls)" and "list_all item_ok (items_of u lls dls)"
    and "length (items_of u lls dls) \<le> 316"
proof -
  obtain u16 u17 u18 where u: "u = (u16, u17, u18)" by (cases u)
  note s = sent_lengths_map [OF assms]
  show e: "expand [] (items_of u lls dls) = Some (sent_lengths lls dls)"
    using expand_all_items [OF s(3), of "[]"] by (simp add: items_of_def u)
  show "list_all item_ok (items_of u lls dls)" using all_items_ok [OF s(3)] by (simp add: items_of_def u)
  show "length (items_of u lls dls) \<le> 316"
    using expand_length [OF e] s(2) hlit_hdist(1) [of lls] hlit_hdist(2) [of dls] by simp
qed

lemma item_less: "list_all item_ok its \<Longrightarrow> it \<in> set its \<Longrightarrow> fst it < 19"
  by (metis item_fits(3) list_all_iff prod.collapse)

lemma clcounts_facts:
  assumes "list_all item_ok its" and "length its \<le> 316"
  shows "length (clcounts_of its) = 19"
    and "x < 19 \<Longrightarrow> clcounts_of its ! x = of_nat (count_list (map fst its) x)"
    and "x < 19 \<Longrightarrow> unat (clcounts_of its ! x) = count_list (map fst its) x"
    and "it \<in> set its \<Longrightarrow> clcounts_of its ! fst it \<noteq> 0"
proof -
  have lt: "\<forall>s \<in> set (map fst its). s < 19" using item_less [OF assms(1)] by auto
  show "length (clcounts_of its) = 19" by (simp add: clcounts_of_def)
  show n: "clcounts_of its ! x = of_nat (count_list (map fst its) x)" if "x < 19" for x
    using fold_bump_nth [of x "replicate 19 0" "map fst its"] lt that by (simp add: clcounts_of_def)
  have le: "count_list (map fst its) x \<le> 316" for x
    using count_list_le [of "map fst its" x] assms(2) by simp
  show u: "unat (clcounts_of its ! x) = count_list (map fst its) x" if "x < 19" for x
    using n [OF that] le [of x] by (simp add: unat_of_nat)
  assume it: "it \<in> set its"
  then have "count_list (map fst its) (fst it) \<noteq> 0" by (simp add: count_list_0_iff)
  with u [of "fst it"] lt it show "clcounts_of its ! fst it \<noteq> 0" by (metis image_eqI list.set_map unsigned_0)
qed

lemma header_code:
  assumes "list_all item_ok its" and "length its \<le> 316"
  obtains clcl css where "ZopfliCalculateBitLengths (clcounts_of its) 7 = Some clcl" and "length clcl = 19"
    and "kraft 7 clcl" and "ZopfliLengthsToSymbols clcl 7 = Some css"
    and "\<forall>it \<in> set its. 0 < clcl ! fst it" and "\<And>x. x < 19 \<Longrightarrow> clcounts_of its ! x = 0 \<Longrightarrow> clcl ! x = 0"
proof -
  note c = clcounts_facts [OF assms]
  have "unat f < 2 ^ 22" if "f \<in> set (clcounts_of its)" for f
  proof -
    from that obtain x where "x < 19" "f = clcounts_of its ! x" using c(1) by (metis in_set_conv_nth)
    then have "unat f \<le> 316" using c(3) count_list_le [of "map fst its" x] assms(2) by simp
    then show ?thesis by simp
  qed
  moreover have "length (used_leaves (clcounts_of its)) \<le> 2 ^ 7"
    using length_filter_le [of "\<lambda>i. clcounts_of its ! i \<noteq> 0" "[0..<19]"] c(1)
    by (simp add: used_leaves_def del: upt_rec_numeral)
  ultimately obtain clcl where l: "ZopfliLengthLimitedCodeLengths (clcounts_of its) 7 = Some (0, clcl)"
      "lengths_ok (clcounts_of its) 7 clcl"
    using code_lengths_complete [of "clcounts_of its" 7] c(1) by auto
  have k: "length clcl = 19" "kraft 7 clcl" "\<And>x. x < 19 \<Longrightarrow> 0 < clcl ! x \<longleftrightarrow> clcounts_of its ! x \<noteq> 0"
    using l(2) c(1) by (simp_all add: lengths_ok_def)
  obtain css where css: "ZopfliLengthsToSymbols clcl 7 = Some css"
    by (rule symbols_code_value [OF k(2)]) simp_all
  have "fst it < 19" if "it \<in> set its" for it by (rule item_less [OF assms(1) that])
  with c(4) k(3) have "\<forall>it \<in> set its. 0 < clcl ! fst it" by blast
  moreover have "clcl ! x = 0" if "x < 19" "clcounts_of its ! x = 0" for x using k(3) [OF that(1)] that(2) by simp
  moreover have "ZopfliCalculateBitLengths (clcounts_of its) 7 = Some clcl"
    using l(1) by (simp add: ZopfliCalculateBitLengths_def)
  ultimately show thesis using k css that by blast
qed

text \<open>The bits of a header.\<close>

definition hclen_of :: "u64 list \<Rightarrow> nat" where
  "hclen_of clc = trim (\<lambda>h. clc ! (cl_order ! (h + 4)) = 0) 15"

definition num_bits :: "nat \<Rightarrow> nat \<Rightarrow> bool list" where
  "num_bits v n = map (bit (of_nat v :: u32)) [0..<n]"

definition header_bits :: "nat \<Rightarrow> nat \<Rightarrow> nat list \<Rightarrow> u32 list \<Rightarrow> nat \<Rightarrow> (nat \<times> nat) list \<Rightarrow> bool list" where
  "header_bits hlit hdist clcl css hclen its =
    num_bits hlit 5 @ num_bits hdist 5 @ num_bits hclen 4 @
    concat (map (\<lambda>i. num_bits (clcl ! (cl_order ! i)) 3) [0..<hclen + 4]) @ concat (map (item_bits clcl css) its)"

lemma EncodeTree_form:
  assumes "header_lengths lls dls" and "its = items_of (u16, u17, u18) lls dls"
    and "ZopfliCalculateBitLengths (clcounts_of its) 7 = Some clcl" and "ZopfliLengthsToSymbols clcl 7 = Some css"
  shows "EncodeTree lls dls u16 u17 u18 None = Some (tree_size (hclen_of (clcounts_of its)) clcl (clcounts_of its), None)"
    and "bit_out_ok b \<Longrightarrow> \<exists>b'. EncodeTree lls dls u16 u17 u18 (Some b) =
        Some (tree_size (hclen_of (clcounts_of its)) clcl (clcounts_of its), Some b') \<and> bit_out_ok b' \<and>
      stream b' = stream b @ header_bits (hlit_of lls) (hdist_of dls) clcl css (hclen_of (clcounts_of its)) its"
proof -
  note s = sent_lengths_map [OF assms(1)]
  have enc: "encode_lengths so u16 u17 u18 (sent_lengths lls dls) \<lparr>rle = [], clcounts = replicate 19 0\<rparr> =
      \<lparr>rle = (if so then [] else its), clcounts = clcounts_of its\<rparr>" for so
    by (simp add: encode_lengths_items [OF s(3)] add_items_def clcounts_of_def assms(2) items_of_def)
  show "EncodeTree lls dls u16 u17 u18 None = Some (tree_size (hclen_of (clcounts_of its)) clcl (clcounts_of its), None)"
    unfolding EncodeTree_def Let_def hlit_of_def [symmetric] hdist_of_def [symmetric] s(1) enc
    by (simp add: assms(3) hclen_of_def)
  assume b: "bit_out_ok b"
  define b1 where "b1 = AddBits (of_nat (hclen_of (clcounts_of its))) 4 (AddBits (of_nat (hdist_of dls)) 5 (AddBits (of_nat (hlit_of lls)) 5 b))"
  define b2 where "b2 = write_clcl clcl [0..<hclen_of (clcounts_of its) + 4] b1"
  define b3 where "b3 = fold (write_rle clcl css) its b2"
  have b1: "bit_out_ok b1" "stream b1 = stream b @ num_bits (hlit_of lls) 5 @ num_bits (hdist_of dls) 5 @ num_bits (hclen_of (clcounts_of its)) 4"
    using b by (simp_all add: b1_def AddBits_stream num_bits_def del: upt_rec_numeral)
  have b2: "bit_out_ok b2" "stream b2 = stream b1 @ concat (map (\<lambda>i. num_bits (clcl ! (cl_order ! i)) 3) [0..<hclen_of (clcounts_of its) + 4])"
    using write_clcl_stream [OF b1(1)] by (simp_all only: b2_def num_bits_def)
  have "bit_out_ok b3" "stream b3 = stream b2 @ concat (map (item_bits clcl css) its)"
    using fold_write_rle_stream [OF b2(1)] by (simp_all add: b3_def)
  then have "bit_out_ok b3 \<and> stream b3 =
      stream b @ header_bits (hlit_of lls) (hdist_of dls) clcl css (hclen_of (clcounts_of its)) its"
    using b1(2) b2(2) by (simp add: header_bits_def)
  moreover have "EncodeTree lls dls u16 u17 u18 (Some b) =
      Some (tree_size (hclen_of (clcounts_of its)) clcl (clcounts_of its), Some b3)"
    unfolding EncodeTree_def Let_def hlit_of_def [symmetric] hdist_of_def [symmetric] s(1) enc
    by (simp add: assms(3,4) hclen_of_def [symmetric] b3_def b2_def b1_def del: upt_rec_numeral)
  ultimately show "\<exists>b'. EncodeTree lls dls u16 u17 u18 (Some b) =
        Some (tree_size (hclen_of (clcounts_of its)) clcl (clcounts_of its), Some b') \<and> bit_out_ok b' \<and>
      stream b' = stream b @ header_bits (hlit_of lls) (hdist_of dls) clcl css (hclen_of (clcounts_of its)) its"
    by blast
qed

lemma decode_header:
  assumes "header_lengths lls dls" and "its = items_of u lls dls"
    and "length clcl = 19" and "kraft 7 clcl" and "ZopfliLengthsToSymbols clcl 7 = Some css"
    and "\<forall>it \<in> set its. 0 < clcl ! fst it" and "\<And>x. x < 19 \<Longrightarrow> clcounts_of its ! x = 0 \<Longrightarrow> clcl ! x = 0"
  shows "decode_tree (header_bits (hlit_of lls) (hdist_of dls) clcl css (hclen_of (clcounts_of its)) its @ rest) =
    Some (take (hlit_of lls + 257) lls, take (hdist_of dls + 1) dls, rest)"
proof -
  let ?h = "hclen_of (clcounts_of its)"
  let ?cl = "concat (map (\<lambda>i. num_bits (clcl ! (cl_order ! i)) 3) [0..<?h + 4])"
  note f = items_facts [OF assms(1), of u, folded assms(2)] and s = sent_lengths_map [OF assms(1)]
  have h: "?h \<le> 15" by (simp add: hclen_of_def trim_le)
  have z: "clcl ! (cl_order ! i) = 0" if "?h + 4 \<le> i" "i < 19" for i
    using trim_above [of "\<lambda>h. clcounts_of its ! (cl_order ! (h + 4)) = 0" 15 "i - 4"] that
      assms(7) [OF cl_order_less [OF that(2)]] by (simp add: hclen_of_def)
  have cl: "read_cls (?h + 4) (?cl @ r) = clcl" for r
    unfolding num_bits_def using assms(3,4) h z by (intro read_cls_written) (auto simp: kraft_def)
  have len: "length ?cl = 3 * (?h + 4)"
    by (simp add: length_concat num_bits_def comp_def sum_list_triv del: upt_rec_numeral)
  have dropped: "drop (3 * (?h + 4)) (?cl @ r) = r" for r using len by simp
  have room: "\<not> length (?cl @ r) < 3 * (?h + 4)" for r using len by simp
  have read: "read_lengths clcl css (hlit_of lls + 257 + hdist_of dls + 1) [] (concat (map (item_bits clcl css) its) @ rest) =
      Some (sent_lengths lls dls, rest)"
    by (rule read_lengths_written [OF assms(4,3,5) f(2) assms(6) f(1) s(2)])
  have nums: "read_bits 5 (num_bits (hlit_of lls) 5 @ r) = Some (hlit_of lls, r)"
      "read_bits 5 (num_bits (hdist_of dls) 5 @ r) = Some (hdist_of dls, r)" "read_bits 4 (num_bits ?h 4 @ r) = Some (?h, r)" for r
    unfolding num_bits_def using hlit_hdist(1) [of lls] hlit_hdist(2) [of dls] h by (simp_all add: read_bits_u32 del: upt_rec_numeral)
  have parts: "take (hlit_of lls + 257) (sent_lengths lls dls) = take (hlit_of lls + 257) lls"
      "drop (hlit_of lls + 257) (sent_lengths lls dls) = take (hdist_of dls + 1) dls"
    using assms(1) hlit_hdist(1) [of lls] by (simp_all add: sent_lengths_def header_lengths_def)
  show ?thesis
    unfolding decode_tree_def header_bits_def append_assoc nums option.case prod.case Let_def
    unfolding cl dropped assms(5) option.case read
    using room parts by (simp only: if_False option.map prod.case)
qed

lemma extra_bits_sum:
  "sum_list (map (\<lambda>x. of_nat (extra_bits x) * c x) [0..<19]) = c 16 * 2 + c 17 * 3 + (c 18 * 7 :: u64)"
proof -
  have "[0..<19] = [0..<16] @ [16, 17, 18 :: nat]" using upt_add_eq_append [of 0 16 3] by simp
  moreover have "sum_list (map (\<lambda>x. of_nat (extra_bits x) * c x) [0..<16]) = sum_list (map (\<lambda>x. 0 :: u64) [0..<16])"
    by (rule sum_list_map_eq) (auto simp: extra_bits_def)
  ultimately show ?thesis by (simp only: map_append sum_list_append) (simp add: extra_bits_def del: upt_rec_numeral)
qed

lemma header_size:
  assumes "list_all item_ok its" and "length its \<le> 316"
  shows "tree_size hclen clcl (clcounts_of its) = of_nat (length (header_bits hlit hdist clcl css hclen its))"
proof -
  note c = clcounts_facts [OF assms]
  let ?w = "\<lambda>x. of_nat (clcl ! x) + of_nat (extra_bits x) :: u64"
  note lt = item_less [OF assms(1)]
  have "of_nat (length (concat (map (item_bits clcl css) its))) = sum_list (map (\<lambda>it. ?w (fst it)) its)"
    by (induction its) (auto simp: item_bits_def)
  also have "\<dots> = sum_list (map (\<lambda>x. case x of None \<Rightarrow> 0 | Some s \<Rightarrow> ?w s) (map (Some \<circ> fst) its))"
    by (simp add: comp_def)
  also have "\<dots> = sum_list (map (\<lambda>s. ?w s * of_nat (count_list (map (Some \<circ> fst) its) (Some s))) [0..<19])"
    by (rule sum_counts [symmetric]) (use lt in \<open>auto simp del: upt_rec_numeral\<close>)
  also have "\<dots> = sum_list (map (\<lambda>s. of_nat (clcl ! s) * clcounts_of its ! s + of_nat (extra_bits s) * clcounts_of its ! s) [0..<19])"
  proof (rule sum_list_map_eq)
    fix s
    assume "s \<in> set [0..<19]"
    then have "s < 19" by (simp only: set_upt atLeastLessThan_iff)
    moreover have "count_list (map (Some \<circ> fst) its) (Some s) = count_list (map fst its) s" by (induction its) auto
    ultimately show "?w s * of_nat (count_list (map (Some \<circ> fst) its) (Some s)) =
        of_nat (clcl ! s) * clcounts_of its ! s + of_nat (extra_bits s) * clcounts_of its ! s"
      using c(2) by (simp add: algebra_simps)
  qed
  finally have items: "of_nat (length (concat (map (item_bits clcl css) its))) =
      sum_list (map (\<lambda>s. of_nat (clcl ! s) * clcounts_of its ! s) [0..<19]) +
      (clcounts_of its ! 16 * 2 + clcounts_of its ! 17 * 3 + clcounts_of its ! 18 * 7)"
    by (simp only: sum_list_addf extra_bits_sum)
  have "length (header_bits hlit hdist clcl css hclen its) = 14 + (hclen + 4) * 3 + length (concat (map (item_bits clcl css) its))"
    by (simp add: header_bits_def num_bits_def length_concat comp_def sum_list_triv del: upt_rec_numeral)
  then show ?thesis unfolding tree_size_def by (simp only: of_nat_add items) (simp add: algebra_simps)
qed

text \<open>Every way of encoding gives a header that is read back, of the size that is computed.\<close>

definition tree_written :: "nat list \<Rightarrow> nat list \<Rightarrow> u64 \<Rightarrow> bool list \<Rightarrow> bool" where
  "tree_written lls dls sz bits \<longleftrightarrow>
    sz = of_nat (length bits) \<and> length bits < 2 ^ 13 \<and>
    (\<forall>rest. decode_tree (bits @ rest) = Some (take (hlit_of lls + 257) lls, take (hdist_of dls + 1) dls, rest))"

lemma header_bits_length:
  assumes "list_all item_ok its" and "length its \<le> 316" and "kraft 7 clcl" and "length clcl = 19" and "hclen \<le> 15"
  shows "length (header_bits hlit hdist clcl css hclen its) < 2 ^ 13"
proof -
  have "length (item_bits clcl css it) \<le> 14" if "it \<in> set its" for it
  proof -
    have "clcl ! fst it \<le> 7"
      using assms(3,4) item_less [OF assms(1) that] by (simp add: kraft_def)
    then show ?thesis by (cases it) (auto simp: item_bits_def extra_bits_def)
  qed
  then have "sum_list (map (length \<circ> item_bits clcl css) its) \<le> sum_list (map (\<lambda>_. 14) its)"
    by (intro sum_list_mono) simp
  then have "length (concat (map (item_bits clcl css) its)) \<le> 14 * 316"
    using assms(2) by (simp add: length_concat sum_list_triv)
  then show ?thesis
    using assms(5) by (simp add: header_bits_def num_bits_def length_concat comp_def sum_list_triv del: upt_rec_numeral)
qed

lemma EncodeTree_flags_written:
  assumes "header_lengths lls dls"
  obtains sz bits where "EncodeTree_flags lls dls i None = Some (sz, None)" and "tree_written lls dls sz bits"
    and "\<And>b. bit_out_ok b \<Longrightarrow>
      \<exists>b'. EncodeTree_flags lls dls i (Some b) = Some (sz, Some b') \<and> bit_out_ok b' \<and> stream b' = stream b @ bits"
proof -
  obtain u16 u17 u18 where u: "tree_flags i = (u16, u17, u18)" by (cases "tree_flags i")
  define its where "its = items_of (u16, u17, u18) lls dls"
  note f = items_facts [OF assms, of "(u16, u17, u18)", folded its_def]
  obtain clcl css where c: "ZopfliCalculateBitLengths (clcounts_of its) 7 = Some clcl" "length clcl = 19" "kraft 7 clcl"
      "ZopfliLengthsToSymbols clcl 7 = Some css" "\<forall>it \<in> set its. 0 < clcl ! fst it"
      "\<And>x. x < 19 \<Longrightarrow> clcounts_of its ! x = 0 \<Longrightarrow> clcl ! x = 0"
    by (rule header_code [OF f(2,3)]) blast
  let ?bits = "header_bits (hlit_of lls) (hdist_of dls) clcl css (hclen_of (clcounts_of its)) its"
  have "tree_written lls dls (tree_size (hclen_of (clcounts_of its)) clcl (clcounts_of its)) ?bits"
    unfolding tree_written_def
    using decode_header [OF assms its_def c(2-6)] header_size [OF f(2,3)] header_bits_length [OF f(2,3) c(3,2)]
    by (simp add: hclen_of_def trim_le)
  with EncodeTree_form [OF assms its_def c(1,4)] that show thesis by (simp add: EncodeTree_flags_def u)
qed

lemma best_tree_least:
  assumes "header_lengths lls dls" and "bestsize = 0 \<or> EncodeTree_flags lls dls best None = Some (bestsize, None)"
  shows "\<exists>i. best_tree lls dls is best bestsize = Some i \<and>
    (is = [] \<and> bestsize = 0 \<or> map_option fst (EncodeTree_flags lls dls i None) = least_size lls dls is bestsize)"
  using assms(2)
proof (induction "is" arbitrary: best bestsize)
  case (Cons i "is")
  obtain sz where sz: "EncodeTree_flags lls dls i None = Some (sz, None)"
    by (rule EncodeTree_flags_written [OF assms(1), of i]) blast
  show ?case
  proof (cases "bestsize = 0 \<or> sz < bestsize")
    case True
    show ?thesis using Cons.IH [of sz i] sz True by (cases "is") auto
  next
    case False
    then show ?thesis using Cons.IH [of bestsize best] Cons.prems sz by (cases "is") auto
  qed
qed auto

lemma AddDynamicTree_written:
  assumes "header_lengths lls dls" and "bit_out_ok b"
  obtains b' bits sz where "AddDynamicTree lls dls b = Some b'" and "bit_out_ok b'" and "stream b' = stream b @ bits"
    and "CalculateTreeSize lls dls = Some sz" and "tree_written lls dls sz bits"
proof -
  obtain i where i: "best_tree lls dls [0..<8] 0 0 = Some i"
      "map_option fst (EncodeTree_flags lls dls i None) = CalculateTreeSize lls dls"
    using best_tree_least [OF assms(1), of 0 0 "[0..<8]"] by (auto simp: CalculateTreeSize_def simp del: upt_rec_numeral)
  obtain sz bits where w: "EncodeTree_flags lls dls i None = Some (sz, None)" "tree_written lls dls sz bits"
      "\<And>b. bit_out_ok b \<Longrightarrow>
        \<exists>b'. EncodeTree_flags lls dls i (Some b) = Some (sz, Some b') \<and> bit_out_ok b' \<and> stream b' = stream b @ bits"
    by (rule EncodeTree_flags_written [OF assms(1), of i]) blast
  from w(3) [OF assms(2)] obtain b' where "EncodeTree_flags lls dls i (Some b) = Some (sz, Some b')" "bit_out_ok b'"
      "stream b' = stream b @ bits" by blast
  moreover from this i(1) have "AddDynamicTree lls dls b = Some b'" by (simp add: AddDynamicTree_def)
  moreover have "CalculateTreeSize lls dls = Some sz" using i(2) w(1) by simp
  ultimately show thesis using w(2) that by blast
qed

end
