(* ===== verification/Zopfli_Rle.thy ===== *)
theory Zopfli_Rle
  imports Zopfli_Store
begin

text \<open>
  Smoothing of symbol counts (\<open>AbsDiff\<close> and \<open>OptimizeHuffmanForRle\<close> of \<open>deflate.c\<close>), so that the code lengths made from
  them have longer runs. Counts are \<open>size_t\<close> values; the average that replaces a stretch of counts goes through an
  \<open>int\<close>. A symbol that occurs keeps a count that is not zero, counts after the last one that is not
  zero stay zero, and no count grows beyond the largest one.
\<close>

definition AbsDiff :: "u64 \<Rightarrow> u64 \<Rightarrow> u64" where
  "AbsDiff x y = (if x > y then x - y else y - x)"

text \<open>Step 1: without the trailing zeros; \<open>None\<close> when the function returns because no count is left.\<close>

fun used_length :: "u64 list \<Rightarrow> nat \<Rightarrow> nat option" where
  "used_length counts 0 = None"
| "used_length counts (Suc k) = (if counts ! k \<noteq> 0 then Some (Suc k) else used_length counts k)"

text \<open>The loop over \<open>k\<close> that sets the last \<open>stride\<close> entries before \<open>i\<close>.\<close>

definition set_stride :: "'a \<Rightarrow> nat \<Rightarrow> nat \<Rightarrow> 'a list \<Rightarrow> 'a list" where
  "set_stride v i stride xs = fold (\<lambda>k xs. xs[i - k - 1 := v]) [0..<stride] xs"

text \<open>Step 2: the counts that already can be encoded with a repeat code.\<close>

fun mark_loop :: "u64 list \<Rightarrow> nat \<Rightarrow> nat list \<Rightarrow> u64 \<Rightarrow> nat \<Rightarrow> bool list \<Rightarrow> bool list" where
  "mark_loop counts len [] symbol stride good = good"
| "mark_loop counts len (i # is) symbol stride good =
    (if i = len \<or> counts ! i \<noteq> symbol then
       let good = (if symbol = 0 \<and> stride \<ge> 5 \<or> symbol \<noteq> 0 \<and> stride \<ge> 7 then set_stride True i stride good else good)
       in mark_loop counts len is (if i \<noteq> len then counts ! i else symbol) 1 good
     else mark_loop counts len is symbol (stride + 1) good)"

text \<open>The average of a stretch, as the \<open>int\<close> that is stored.\<close>

definition stride_count :: "u64 \<Rightarrow> nat \<Rightarrow> u64" where
  "stride_count tot stride =
    (let c = sint (ucast ((tot + of_nat (stride div 2)) div of_nat stride) :: u32);
         c = (if c < 1 then 1 else c);
         c = (if tot = 0 then 0 else c)
     in of_int c)"

text \<open>Step 3: stretches of similar counts are replaced by their average.\<close>

fun collapse_loop :: "bool list \<Rightarrow> nat \<Rightarrow> nat list \<Rightarrow> nat \<Rightarrow> u64 \<Rightarrow> u64 \<Rightarrow> u64 list \<Rightarrow> u64 list" where
  "collapse_loop good len [] stride limit tot counts = counts"
| "collapse_loop good len (i # is) stride limit tot counts =
    (let (stride, limit, tot, counts) =
           (if i = len \<or> good ! i \<or> AbsDiff (counts ! i) limit \<ge> 4 then
              let counts = (if stride \<ge> 4 \<or> stride \<ge> 3 \<and> tot = 0
                            then set_stride (stride_count tot stride) i stride counts else counts);
                  limit = (if i + 3 < len
                           then (counts ! i + counts ! (i + 1) + counts ! (i + 2) + counts ! (i + 3) + 2) div 4
                           else if i < len then counts ! i else 0)
              in (0, limit, 0, counts)
            else (stride, limit, tot, counts))
     in collapse_loop good len is (stride + 1) limit (if i \<noteq> len then tot + counts ! i else tot) counts)"

definition OptimizeHuffmanForRle :: "nat \<Rightarrow> u64 list \<Rightarrow> u64 list" where
  "OptimizeHuffmanForRle len counts =
    (case used_length counts len of
       None \<Rightarrow> counts
     | Some len \<Rightarrow>
         let good = mark_loop counts len [0..<len + 1] (counts ! 0) 0 (replicate len False)
         in collapse_loop good len [0..<len + 1] 0 (counts ! 0) 0 counts)"

section \<open>What is kept\<close>

lemma used_length_facts:
  "used_length c k = Some m \<Longrightarrow> m \<le> k \<and> 0 < m \<and> c ! (m - 1) \<noteq> 0"
  by (induction k) (auto split: if_splits)

lemma set_stride_length [simp]: "length (set_stride v i n xs) = length xs"
  by (induction n) (simp_all add: set_stride_def)

lemma set_stride_nth:
  "n \<le> i \<Longrightarrow> i \<le> length xs \<Longrightarrow> j < length xs \<Longrightarrow>
   set_stride v i n xs ! j = (if i - n \<le> j \<and> j < i then v else xs ! j)"
proof (induction n)
  case (Suc n)
  have "set_stride v i (Suc n) xs = (set_stride v i n xs)[i - n - 1 := v]" by (simp add: set_stride_def)
  with Suc show ?case by (auto simp: nth_list_update)
qed (auto simp: set_stride_def)

text \<open>The sum of a stretch, and the average, which is at most the largest count.\<close>

lemma stride_count_bounds:
  assumes "unat tot = (\<Sum>j \<in> {a..<a + n}. unat (c j))" and "0 < n" and "n \<le> 288"
    and "\<And>j. a \<le> j \<Longrightarrow> j < a + n \<Longrightarrow> unat (c j) \<le> m" and "m < 2 ^ 31" and "1 \<le> m \<or> tot = 0"
  shows "unat (stride_count tot n) \<le> m" and "tot \<noteq> 0 \<Longrightarrow> stride_count tot n \<noteq> 0"
proof -
  have le: "unat tot \<le> n * m"
    using sum_bounded_above [of "{a..<a + n}" "\<lambda>j. unat (c j)" m] assms(1,4) by simp
  have nm: "n * m < 2 ^ 40"
  proof -
    have "n * m \<le> 288 * 2 ^ 31" using assms(3,5) by (intro mult_le_mono) simp_all
    then show ?thesis by simp
  qed
  define q where "q = (unat tot + n div 2) div n"
  have qm: "q \<le> m"
  proof -
    have "q \<le> (n * m + n div 2) div n" unfolding q_def using le by (intro div_le_mono) simp
    also have "\<dots> = m" using assms(2) by simp
    finally show ?thesis .
  qed
  have "unat (tot + of_nat (n div 2)) = unat tot + n div 2"
    using le nm assms(3) by (simp add: unat_word_ariths unat_of_nat)
  then have "unat ((tot + of_nat (n div 2)) div of_nat n) = q"
    using assms(3) by (simp add: unat_div unat_of_nat q_def)
  then have "(tot + of_nat (n div 2)) div of_nat n = of_nat q"
    by (metis of_nat_unat ucast_id)
  then have "(ucast ((tot + of_nat (n div 2)) div of_nat n) :: u32) = of_nat q"
    using qm assms(5) by (simp add: unsigned_of_nat take_bit_nat_eq_self)
  moreover have "sint (of_nat q :: u32) = int q"
    using qm assms(5) by (simp add: signed_of_nat signed_take_bit_int_eq_self)
  ultimately have c: "stride_count tot n = (if tot = 0 then 0 else of_nat (max 1 q))"
    by (auto simp: stride_count_def Let_def max_def)
  have "max 1 q \<le> m" if "tot \<noteq> 0" using qm assms(6) that by auto
  then have u: "unat (of_nat (max 1 q) :: u64) = max 1 q" if "tot \<noteq> 0"
    using that assms(5) by (simp add: unat_of_nat)
  show "unat (stride_count tot n) \<le> m" using c u qm assms(6) by auto
  show "stride_count tot n \<noteq> 0" if "tot \<noteq> 0"
  proof
    assume "stride_count tot n = 0"
    with c that have "unat (of_nat (max 1 q) :: u64) = 0" by simp
    then show False using u [OF that] by simp
  qed
qed

text \<open>What the loop has at \<open>i\<close>: the entries from the running stretch on are still the original ones.\<close>

definition collapse_inv :: "u64 list \<Rightarrow> nat \<Rightarrow> nat \<Rightarrow> nat \<Rightarrow> u64 \<Rightarrow> u64 list \<Rightarrow> bool" where
  "collapse_inv c0 m i stride tot c \<longleftrightarrow>
     length c = length c0 \<and> stride \<le> i \<and> unat tot = (\<Sum>j \<in> {i - stride..<i}. unat (c0 ! j)) \<and>
     (\<forall>j < length c0. (i - stride \<le> j \<longrightarrow> c ! j = c0 ! j) \<and> (c0 ! j \<noteq> 0 \<longrightarrow> c ! j \<noteq> 0) \<and> unat (c ! j) \<le> m)"

lemma collapse_invD:
  assumes "collapse_inv c0 m i stride tot c"
  shows "length c = length c0" and "stride \<le> i" and "unat tot = (\<Sum>j \<in> {i - stride..<i}. unat (c0 ! j))"
    and "\<And>j. j < length c0 \<Longrightarrow> i - stride \<le> j \<Longrightarrow> c ! j = c0 ! j"
    and "\<And>j. j < length c0 \<Longrightarrow> c0 ! j \<noteq> 0 \<Longrightarrow> c ! j \<noteq> 0"
    and "\<And>j. j < length c0 \<Longrightarrow> unat (c ! j) \<le> m"
  using assms by (auto simp: collapse_inv_def)

lemma collapse_inv_restart:
  assumes inv: "collapse_inv c0 m i stride tot c"
  shows "collapse_inv c0 m i 0 0 c"
  using collapse_invD [OF inv] by (simp add: collapse_inv_def)

text \<open>Ending a stretch by its average.\<close>

lemma collapse_inv_average:
  assumes inv: "collapse_inv c0 m i stride tot c" and i: "i \<le> length c0" and len: "length c0 \<le> 288"
    and m: "\<And>j. j < length c0 \<Longrightarrow> unat (c0 ! j) \<le> m" "m < 2 ^ 31" and n: "0 < stride"
  shows "collapse_inv c0 m i 0 0 (set_stride (stride_count tot stride) i stride c)"
proof -
  note D = collapse_invD [OF inv]
  have ai: "i - stride + stride = i" using D(2) by simp
  have zero: "c0 ! j = 0" if "tot = 0" "i - stride \<le> j" "j < i" for j
  proof -
    have "(\<Sum>j \<in> {i - stride..<i}. unat (c0 ! j)) = 0" using D(3) that(1) by simp
    then have "unat (c0 ! j) = 0" using that by simp
    then show ?thesis by (simp add: unat_eq_0)
  qed
  have "1 \<le> m \<or> tot = 0"
  proof (cases "m = 0")
    case True
    have "unat (c0 ! j) = 0" if "j \<in> {i - stride..<i}" for j using m(1) [of j] that i True by simp
    then have "unat tot = 0" using D(3) by simp
    then show ?thesis by (simp add: unat_eq_0)
  qed simp
  then have "unat (stride_count tot stride) \<le> m" "tot \<noteq> 0 \<Longrightarrow> stride_count tot stride \<noteq> 0"
    using stride_count_bounds [where tot = tot and a = "i - stride" and n = stride and c = "\<lambda>j. c0 ! j" and m = m]
      D(2,3) ai n m i len by auto
  then show ?thesis
    using D zero i unfolding collapse_inv_def by (auto simp: set_stride_nth)
qed

lemma collapse_inv_step:
  assumes inv: "collapse_inv c0 m i stride tot c" and i: "i < length c0" and len: "length c0 \<le> 288"
    and m: "\<And>j. j < length c0 \<Longrightarrow> unat (c0 ! j) \<le> m" "m < 2 ^ 31"
  shows "collapse_inv c0 m (Suc i) (Suc stride) (tot + c ! i) c"
proof -
  note D = collapse_invD [OF inv]
  have ci: "c ! i = c0 ! i" using D(4) [OF i] by simp
  have "unat tot \<le> stride * m"
    using sum_bounded_above [of "{i - stride..<i}" "\<lambda>j. unat (c0 ! j)" m] D(2,3) m(1) i by simp
  also have "\<dots> \<le> 288 * 2 ^ 31" using D(2) i len m(2) by (intro mult_le_mono) simp_all
  finally have "unat (tot + c0 ! i) = unat tot + unat (c0 ! i)"
    using m(1) [OF i] m(2) by (simp add: unat_word_ariths)
  moreover have "{Suc i - Suc stride..<Suc i} = insert i {i - stride..<i}" using D(2) by auto
  ultimately show ?thesis using D ci unfolding collapse_inv_def by simp
qed

lemma collapse_loop_keeps:
  assumes "collapse_inv c0 m i stride tot c" and "i \<le> len" and "len \<le> length c0" and "length c0 \<le> 288"
    and m: "\<And>j. j < length c0 \<Longrightarrow> unat (c0 ! j) \<le> m" "m < 2 ^ 31"
  shows "collapse_inv c0 m len 0 0 (collapse_loop good len [i..<len + 1] stride limit tot c)"
  using assms(1,2)
proof (induction "len - i" arbitrary: i stride limit tot c)
  case 0
  then have i: "i = len" by simp
  have "collapse_inv c0 m len 0 0 (if stride \<ge> 4 \<or> stride \<ge> 3 \<and> tot = 0
          then set_stride (stride_count tot stride) len stride c else c)"
    using collapse_inv_restart [OF 0(2)] collapse_inv_average [OF 0(2) _ assms(4) m] assms(3) i by auto
  then show ?case using i by (simp add: Let_def)
next
  case (Suc k)
  then have i: "i < len" by simp
  then have up: "[i..<len + 1] = i # [Suc i..<len + 1]" by (simp add: upt_conv_Cons)
  note IH = Suc(1) [of "Suc i"]
  define c' where "c' = (if stride \<ge> 4 \<or> stride \<ge> 3 \<and> tot = 0
                         then set_stride (stride_count tot stride) i stride c else c)"
  have stop: "collapse_inv c0 m i 0 0 c'"
    using collapse_inv_restart [OF Suc(3)] collapse_inv_average [OF Suc(3) _ assms(4) m] assms(3) i
    unfolding c'_def by auto
  have "collapse_inv c0 m (Suc i) 1 (c' ! i) c'"
    using collapse_inv_step [OF stop _ assms(4) m] i assms(3) by simp
  moreover have "collapse_inv c0 m (Suc i) (Suc stride) (tot + c ! i) c"
    using collapse_inv_step [OF Suc(3) _ assms(4) m] i assms(3) by simp
  ultimately show ?case
    using IH i Suc(2) unfolding up c'_def by (simp add: Let_def)
qed

lemma OptimizeHuffmanForRle_keeps:
  assumes "length c \<le> 288" and m: "\<And>j. j < length c \<Longrightarrow> unat (c ! j) \<le> m" "m < 2 ^ 31"
  shows "length (OptimizeHuffmanForRle (length c) c) = length c"
    and "j < length c \<Longrightarrow> c ! j \<noteq> 0 \<Longrightarrow> OptimizeHuffmanForRle (length c) c ! j \<noteq> 0"
    and "j < length c \<Longrightarrow> unat (OptimizeHuffmanForRle (length c) c ! j) \<le> m"
    and "j < length c \<Longrightarrow> \<forall>k. j \<le> k \<longrightarrow> k < length c \<longrightarrow> c ! k = 0 \<Longrightarrow> OptimizeHuffmanForRle (length c) c ! j = 0"
proof -
  consider "used_length c (length c) = None" | n where "used_length c (length c) = Some n" by fastforce
  then have "\<exists>n. n \<le> length c \<and> collapse_inv c m n 0 0 (OptimizeHuffmanForRle (length c) c) \<and>
      (n \<noteq> 0 \<longrightarrow> c ! (n - 1) \<noteq> 0)"
  proof cases
    case 1
    then have "collapse_inv c m 0 0 0 c" using m(1) by (simp add: collapse_inv_def)
    then show ?thesis using 1 by (intro exI [of _ 0]) (simp add: OptimizeHuffmanForRle_def)
  next
    case 2
    note n = used_length_facts [OF 2]
    have "collapse_inv c m 0 0 0 c" using m(1) by (simp add: collapse_inv_def)
    from collapse_loop_keeps [OF this _ _ assms(1) m] n
    show ?thesis using 2 by (intro exI [of _ n]) (simp add: OptimizeHuffmanForRle_def Let_def)
  qed
  then obtain n where n: "n \<le> length c" "collapse_inv c m n 0 0 (OptimizeHuffmanForRle (length c) c)"
    "n \<noteq> 0 \<longrightarrow> c ! (n - 1) \<noteq> 0" by blast
  note D = collapse_invD [OF n(2)]
  show "length (OptimizeHuffmanForRle (length c) c) = length c" by (rule D(1))
  show "j < length c \<Longrightarrow> c ! j \<noteq> 0 \<Longrightarrow> OptimizeHuffmanForRle (length c) c ! j \<noteq> 0" by (rule D(5))
  show "j < length c \<Longrightarrow> unat (OptimizeHuffmanForRle (length c) c ! j) \<le> m" by (rule D(6))
  assume j: "j < length c" and z: "\<forall>k. j \<le> k \<longrightarrow> k < length c \<longrightarrow> c ! k = 0"
  have "n \<le> j"
  proof (rule ccontr)
    assume "\<not> n \<le> j"
    then have "c ! (n - 1) = 0" using z n(1) by simp
    with n(3) \<open>\<not> n \<le> j\<close> show False by simp
  qed
  with D(4) [OF j] j z show "OptimizeHuffmanForRle (length c) c ! j = 0" by simp
qed

end
