(* ===== verification/Zopfli_Encode.thy ===== *)
theory Zopfli_Encode
  imports Zopfli_Block Zopfli_Dynamic Zopfli_Rle
begin

text \<open>
  Compressed blocks (\<open>TryOptimizeHuffmanForRle\<close>, \<open>GetDynamicLengths\<close>, \<open>ZopfliCalculateBlockSize\<close>,
  \<open>ZopfliCalculateBlockSizeAutoType\<close> and \<open>AddLZ77Block\<close> of \<open>deflate.c\<close>). The sizes that the code adds and
  compares as \<open>double\<close> values are natural numbers here: they are sums of integers, and for blocks of
  less than \<open>2 ^ 22\<close> commands they stay below \<open>2 ^ 53\<close>, where \<open>double\<close> is exact. Messages of
  the verbose mode are left out. A failed assertion is \<open>None\<close>.

  A reference decoder reads a whole block: its header, the code lengths of its kind, its commands.
\<close>

section \<open>The code of deflate.c\<close>

definition TryOptimizeHuffmanForRle ::
  "lz77_store \<Rightarrow> nat \<Rightarrow> nat \<Rightarrow> u64 list \<Rightarrow> u64 list \<Rightarrow> nat list \<Rightarrow> nat list \<Rightarrow> (nat \<times> nat list \<times> nat list) option"
where
  "TryOptimizeHuffmanForRle lz77 lstart lend llc dc ll_lengths d_lengths =
    do {
      treesize \<leftarrow> CalculateTreeSize ll_lengths d_lengths;
      datasize \<leftarrow> CalculateBlockSymbolSizeGivenCounts llc dc ll_lengths d_lengths lz77 lstart lend;
      let llc2 = OptimizeHuffmanForRle ZOPFLI_NUM_LL llc;
      let dc2 = OptimizeHuffmanForRle ZOPFLI_NUM_D dc;
      ll_lengths2 \<leftarrow> ZopfliCalculateBitLengths llc2 15;
      d_lengths2 \<leftarrow> ZopfliCalculateBitLengths dc2 15;
      let d_lengths2 = PatchDistanceCodesForBuggyDecoders d_lengths2;
      treesize2 \<leftarrow> CalculateTreeSize ll_lengths2 d_lengths2;
      datasize2 \<leftarrow> CalculateBlockSymbolSizeGivenCounts llc dc ll_lengths2 d_lengths2 lz77 lstart lend;
      if unat treesize2 + unat datasize2 < unat treesize + unat datasize
      then Some (unat treesize2 + unat datasize2, ll_lengths2, d_lengths2)
      else Some (unat treesize + unat datasize, ll_lengths, d_lengths)
    }"

definition GetDynamicLengths :: "lz77_store \<Rightarrow> nat \<Rightarrow> nat \<Rightarrow> (nat \<times> nat list \<times> nat list) option" where
  "GetDynamicLengths lz77 lstart lend =
    (case ZopfliLZ77GetHistogram lz77 lstart lend of
       (llc, dc) \<Rightarrow>
         do {
           let llc = llc[256 := 1];
           ll_lengths \<leftarrow> ZopfliCalculateBitLengths llc 15;
           d_lengths \<leftarrow> ZopfliCalculateBitLengths dc 15;
           TryOptimizeHuffmanForRle lz77 lstart lend llc dc ll_lengths (PatchDistanceCodesForBuggyDecoders d_lengths)
         })"

definition ZopfliCalculateBlockSize :: "lz77_store \<Rightarrow> nat \<Rightarrow> nat \<Rightarrow> nat \<Rightarrow> nat option" where
  "ZopfliCalculateBlockSize lz77 lstart lend btype =
    (if btype = 0 then
       (let len = ZopfliLZ77GetByteRange lz77 lstart lend;
            rem = len mod 65535;
            blocks = len div 65535 + (if rem \<noteq> 0 then 1 else 0)
        in Some (blocks * 5 * 8 + len * 8))
     else if btype = 1 then
       (case GetFixedTree of (ll_lengths, d_lengths) \<Rightarrow>
          map_option (\<lambda>sz. 3 + unat sz) (CalculateBlockSymbolSize ll_lengths d_lengths lz77 lstart lend))
     else map_option (\<lambda>(sz, _, _). 3 + sz) (GetDynamicLengths lz77 lstart lend))"

definition ZopfliCalculateBlockSizeAutoType :: "lz77_store \<Rightarrow> nat \<Rightarrow> nat \<Rightarrow> nat option" where
  "ZopfliCalculateBlockSizeAutoType lz77 lstart lend =
    do {
      uncompressedcost \<leftarrow> ZopfliCalculateBlockSize lz77 lstart lend 0;
      fixedcost \<leftarrow> (if lsize lz77 > 1000 then Some uncompressedcost else ZopfliCalculateBlockSize lz77 lstart lend 1);
      dyncost \<leftarrow> ZopfliCalculateBlockSize lz77 lstart lend 2;
      Some (if uncompressedcost < fixedcost \<and> uncompressedcost < dyncost then uncompressedcost
            else if fixedcost < dyncost then fixedcost else dyncost)
    }"

definition AddLZ77Block ::
  "nat \<Rightarrow> bool \<Rightarrow> lz77_store \<Rightarrow> nat \<Rightarrow> nat \<Rightarrow> nat \<Rightarrow> bit_out \<Rightarrow> bit_out option" where
  "AddLZ77Block btype final lz77 lstart lend expected_data_size s =
    (if btype = 0 then
       (let len = ZopfliLZ77GetByteRange lz77 lstart lend;
            p = (if lstart = lend then 0 else pos lz77 ! lstart)
        in Some (AddNonCompressedBlock final (ldata lz77) p (p + len) s))
     else
       do {
         let s = AddBit (of_bool final) s;
         let s = AddBit (of_nat (btype AND 1)) s;
         let s = AddBit (of_nat (drop_bit 1 (btype AND 2))) s;
         (ll_lengths, d_lengths, s) \<leftarrow>
           (if btype = 1 then
              (case GetFixedTree of (ll_lengths, d_lengths) \<Rightarrow> Some (ll_lengths, d_lengths, s))
            else if btype = 2 then
              do {
                (_, ll_lengths, d_lengths) \<leftarrow> GetDynamicLengths lz77 lstart lend;
                s \<leftarrow> AddDynamicTree ll_lengths d_lengths s;
                Some (ll_lengths, d_lengths, s)
              }
            else None);
         ll_symbols \<leftarrow> ZopfliLengthsToSymbols ll_lengths 15;
         d_symbols \<leftarrow> ZopfliLengthsToSymbols d_lengths 15;
         s \<leftarrow> AddLZ77Data lz77 lstart lend expected_data_size ll_symbols ll_lengths d_symbols d_lengths s;
         Some (AddHuffmanBits (ll_symbols ! 256) (ll_lengths ! 256) s)
       })"

section \<open>Codes from counts\<close>

text \<open>Commands of DEFLATE: a literal, or a match of 3 to 258 bytes at a distance of at most 32768.\<close>

definition deflate_command :: "nat \<times> nat \<Rightarrow> bool" where
  "deflate_command c \<longleftrightarrow> (if snd c = 0 then fst c < 256 else 3 \<le> fst c \<and> fst c \<le> 258 \<and> snd c \<le> 32768)"

lemma fixed_encodable_command: "encodable (fst GetFixedTree) (snd GetFixedTree) c \<longleftrightarrow> deflate_command c"
  by (simp add: fixed_encodable deflate_command_def)

lemma command_symbols:
  assumes "deflate_command c"
  shows "ll_sym c < 286" and "ll_sym c \<noteq> 256" and "snd c \<noteq> 0 \<Longrightarrow> d_sym c < 30"
  using encodable_symbols [of "fst GetFixedTree" "snd GetFixedTree" c] assms
  by (auto simp: fixed_encodable_command)

lemma encodable_iff:
  "deflate_command c \<Longrightarrow> encodable lls dls c \<longleftrightarrow> 0 < lls ! ll_sym c \<and> (snd c \<noteq> 0 \<longrightarrow> 0 < dls ! d_sym c)"
  by (auto simp: encodable_def deflate_command_def split: if_splits)

text \<open>Counts that cover the symbols of the commands and the end symbol, within the limits of the code.\<close>

definition counts_cover :: "(nat \<times> nat) list \<Rightarrow> u64 list \<Rightarrow> u64 list \<Rightarrow> bool" where
  "counts_cover cs llc dc \<longleftrightarrow>
    length llc = ZOPFLI_NUM_LL \<and> length dc = ZOPFLI_NUM_D \<and>
    (\<forall>f \<in> set llc. unat f < 2 ^ 22) \<and> (\<forall>f \<in> set dc. unat f < 2 ^ 22) \<and>
    llc ! 256 \<noteq> 0 \<and> llc ! 286 = 0 \<and> llc ! 287 = 0 \<and> dc ! 30 = 0 \<and> dc ! 31 = 0 \<and>
    (\<forall>c \<in> set cs. deflate_command c \<and> llc ! ll_sym c \<noteq> 0 \<and> (snd c \<noteq> 0 \<longrightarrow> dc ! d_sym c \<noteq> 0))"

text \<open>Code lengths that a dynamic block can use for the commands.\<close>

definition block_codes :: "(nat \<times> nat) list \<Rightarrow> nat list \<Rightarrow> nat list \<Rightarrow> bool" where
  "block_codes cs lls dls \<longleftrightarrow>
    header_lengths lls dls \<and> kraft 15 lls \<and> kraft 15 dls \<and> 0 < lls ! 256 \<and> (\<forall>c \<in> set cs. encodable lls dls c)"

lemma CalculateBitLengths_15:
  assumes "length fs \<le> 288" and "\<forall>f \<in> set fs. unat f < 2 ^ 22"
  obtains bl where "ZopfliCalculateBitLengths fs 15 = Some bl" and "length bl = length fs" and "kraft 15 bl"
    and "\<And>x. x < length fs \<Longrightarrow> 0 < bl ! x \<longleftrightarrow> fs ! x \<noteq> 0"
proof -
  have "length (used_leaves fs) \<le> length fs"
    using length_filter_le [of "\<lambda>i. fs ! i \<noteq> 0" "[0..<length fs]"] by (simp add: used_leaves_def)
  then have "length (used_leaves fs) \<le> 2 ^ 15" using assms(1) by simp
  then obtain bl where "ZopfliLengthLimitedCodeLengths fs 15 = Some (0, bl)" "lengths_ok fs 15 bl"
    using code_lengths_complete [of fs 15] assms by auto
  with that show thesis by (simp add: ZopfliCalculateBitLengths_def lengths_ok_def)
qed

lemma codes_from_counts:
  assumes "counts_cover cs llc dc"
  obtains lls dl where "ZopfliCalculateBitLengths llc 15 = Some lls" and "ZopfliCalculateBitLengths dc 15 = Some dl"
    and "block_codes cs lls (PatchDistanceCodesForBuggyDecoders dl)"
proof -
  note c = assms [unfolded counts_cover_def]
  have len: "length llc = 288" "length dc = 32" using c by simp_all
  obtain lls where l: "ZopfliCalculateBitLengths llc 15 = Some lls" "length lls = 288" "kraft 15 lls"
      "\<And>x. x < 288 \<Longrightarrow> 0 < lls ! x \<longleftrightarrow> llc ! x \<noteq> 0"
    by (rule CalculateBitLengths_15 [of llc]) (use c in \<open>auto simp: len\<close>)
  obtain dl where d: "ZopfliCalculateBitLengths dc 15 = Some dl" "length dl = 32" "kraft 15 dl"
      "\<And>x. x < 32 \<Longrightarrow> 0 < dl ! x \<longleftrightarrow> dc ! x \<noteq> 0"
    by (rule CalculateBitLengths_15 [of dc]) (use c in \<open>auto simp: len\<close>)
  let ?p = "PatchDistanceCodesForBuggyDecoders dl"
  have z: "lls ! 286 = 0" "lls ! 287 = 0" "dl ! 30 = 0" "dl ! 31 = 0"
    using c l(4) [of 286] l(4) [of 287] d(4) [of 30] d(4) [of 31] by simp_all
  note keeps = Patch_keeps [of dl]
  have pk: "kraft 15 ?p" by (rule Patch_kraft [OF d(3,2) z(3,4)])
  have pz: "?p ! 30 = 0" "?p ! 31 = 0" using keeps(3) [of 30] keeps(3) [of 31] z d(2) by auto
  have "header_lengths lls ?p"
    using l(2,3) d(2) pk z pz by (auto simp: header_lengths_def kraft_def)
  moreover have "encodable lls ?p x" if x: "x \<in> set cs" for x
  proof -
    have ok: "deflate_command x" "llc ! ll_sym x \<noteq> 0" "snd x \<noteq> 0 \<Longrightarrow> dc ! d_sym x \<noteq> 0" using c x by auto
    note sy = command_symbols [OF ok(1)]
    have "0 < ?p ! d_sym x" if "snd x \<noteq> 0"
    proof -
      have "0 < dl ! d_sym x" using d(4) [of "d_sym x"] ok(3) sy(3) that by simp
      then show ?thesis using keeps(1) [of "d_sym x"] d(2) by simp
    qed
    with l(4) [of "ll_sym x"] ok sy show ?thesis by (simp add: encodable_iff)
  qed
  ultimately have "block_codes cs lls ?p" using l c pk by (simp add: block_codes_def)
  with l(1) d(1) that show thesis by blast
qed

lemma smoothed_counts:
  assumes "length fs \<le> 288" and "\<forall>f \<in> set fs. unat f < 2 ^ 22"
  shows "length (OptimizeHuffmanForRle (length fs) fs) = length fs"
    and "\<forall>f \<in> set (OptimizeHuffmanForRle (length fs) fs). unat f < 2 ^ 22"
    and "j < length fs \<Longrightarrow> fs ! j \<noteq> 0 \<Longrightarrow> OptimizeHuffmanForRle (length fs) fs ! j \<noteq> 0"
    and "j < length fs \<Longrightarrow> \<forall>k. j \<le> k \<longrightarrow> k < length fs \<longrightarrow> fs ! k = 0 \<Longrightarrow>
      OptimizeHuffmanForRle (length fs) fs ! j = 0"
proof -
  have m: "\<And>j. j < length fs \<Longrightarrow> unat (fs ! j) \<le> 2 ^ 22 - 1" using assms(2) nth_mem by (simp add: less_Suc_eq_le [symmetric])
  note k = OptimizeHuffmanForRle_keeps [OF assms(1) m]
  show "length (OptimizeHuffmanForRle (length fs) fs) = length fs" by (rule k(1)) simp_all
  then show "\<forall>f \<in> set (OptimizeHuffmanForRle (length fs) fs). unat f < 2 ^ 22"
    using k(3) by (fastforce simp: in_set_conv_nth)
  show "j < length fs \<Longrightarrow> fs ! j \<noteq> 0 \<Longrightarrow> OptimizeHuffmanForRle (length fs) fs ! j \<noteq> 0" by (rule k(2)) simp_all
  show "j < length fs \<Longrightarrow> \<forall>k. j \<le> k \<longrightarrow> k < length fs \<longrightarrow> fs ! k = 0 \<Longrightarrow>
      OptimizeHuffmanForRle (length fs) fs ! j = 0" by (rule k(4)) simp_all
qed

lemma counts_cover_smoothed:
  assumes "counts_cover cs llc dc"
  shows "counts_cover cs (OptimizeHuffmanForRle ZOPFLI_NUM_LL llc) (OptimizeHuffmanForRle ZOPFLI_NUM_D dc)"
proof -
  note c = assms [unfolded counts_cover_def]
  note l = smoothed_counts [of llc] and d = smoothed_counts [of dc]
  have two: "k = 286 \<or> k = 287" if "286 \<le> k" "k < 288" for k :: nat using that by linarith
  have two': "k = 30 \<or> k = 31" if "30 \<le> k" "k < 32" for k :: nat using that by linarith
  have "\<forall>k. 286 \<le> k \<longrightarrow> k < 288 \<longrightarrow> llc ! k = 0" "\<forall>k. 30 \<le> k \<longrightarrow> k < 32 \<longrightarrow> dc ! k = 0"
    using c two two' by blast+
  then have "OptimizeHuffmanForRle 288 llc ! 286 = 0" "OptimizeHuffmanForRle 288 llc ! 287 = 0"
      "OptimizeHuffmanForRle 32 dc ! 30 = 0" "OptimizeHuffmanForRle 32 dc ! 31 = 0"
    using c l(4) [of 286] l(4) [of 287] d(4) [of 30] d(4) [of 31] by simp_all
  moreover have "OptimizeHuffmanForRle 288 llc ! ll_sym x \<noteq> 0 \<and> (snd x \<noteq> 0 \<longrightarrow> OptimizeHuffmanForRle 32 dc ! d_sym x \<noteq> 0)"
    if "x \<in> set cs" for x
  proof -
    have ok: "deflate_command x" "llc ! ll_sym x \<noteq> 0" "snd x \<noteq> 0 \<Longrightarrow> dc ! d_sym x \<noteq> 0" using c that by auto
    note sy = command_symbols [OF ok(1)]
    have "OptimizeHuffmanForRle 32 dc ! d_sym x \<noteq> 0" if "snd x \<noteq> 0"
      using ok(3) [OF that] sy(3) [OF that] c d(3) [of "d_sym x"] by simp
    then show ?thesis using ok(2) sy(1) c l(3) [of "ll_sym x"] by simp
  qed
  ultimately show ?thesis
    using c l(1,2) d(1,2) l(3) [of 256] unfolding counts_cover_def by simp
qed

section \<open>Dynamic code lengths\<close>

lemma command_bits_length:
  assumes "kraft 15 lls" and "kraft 15 dls" and "length lls = ZOPFLI_NUM_LL" and "length dls = ZOPFLI_NUM_D"
    and "encodable lls dls c"
  shows "length (command_bits lss lls dss dls c) \<le> 48"
proof -
  have le: "lls ! i \<le> 15" if "i < 288" for i using assms(1,3) that by (simp add: kraft_def)
  have le': "dls ! i \<le> 15" if "i < 32" for i using assms(2,4) that by (simp add: kraft_def)
  have l: "lls ! ll_sym c \<le> 15" using encodable_symbols(1) [OF assms(5)] by (intro le) auto
  show ?thesis
  proof (cases "snd c = 0")
    case True
    with l show ?thesis by (simp add: command_bits_def)
  next
    case False
    obtain b where b: "ZopfliGetLengthExtraBits (int (fst c)) = Some (int b)" "b \<le> 5"
      using encodable_match [OF assms(5) False] by metis
    obtain db where db: "ZopfliGetDistExtraBits (int (snd c)) = int db" "db \<le> 13"
      using encodable_dist [OF assms(5) False] by metis
    have "dls ! d_sym c \<le> 15" using encodable_symbols(2) [OF assms(5) False] by (intro le') simp
    with l b db False show ?thesis by (simp add: command_bits_def)
  qed
qed

lemma block_bits_length:
  assumes "kraft 15 lls" and "kraft 15 dls" and "length lls = ZOPFLI_NUM_LL" and "length dls = ZOPFLI_NUM_D"
    and "\<forall>c \<in> set cs. encodable lls dls c"
  shows "length (block_bits lss lls dss dls cs) \<le> 48 * length cs + 15"
proof -
  have "sum_list (map (length \<circ> command_bits lss lls dss dls) cs) \<le> sum_list (map (\<lambda>_. 48) cs)"
    using assms command_bits_length by (intro sum_list_mono) simp
  moreover have "lls ! 256 \<le> 15" using assms(1,3) by (simp add: kraft_def)
  ultimately show ?thesis by (simp add: block_bits_def length_concat sum_list_triv)
qed

lemma GivenCounts_bits:
  assumes "store_ok st" and "lstart \<le> lend" and "lend \<le> lsize st"
    and "ZopfliLZ77GetHistogram st lstart lend = (llc, dc)"
    and "\<forall>c \<in> set (map (command_at st) [lstart..<lend]). encodable lls dls c"
  shows "CalculateBlockSymbolSizeGivenCounts (llc[256 := 1]) dc lls dls st lstart lend =
    Some (of_nat (length (block_bits lss lls dss dls (map (command_at st) [lstart..<lend]))))"
proof (cases "lend < lstart + ZOPFLI_NUM_LL * 3")
  case True
  have "CalculateBlockSymbolSizeGivenCounts (llc[256 := 1]) dc lls dls st lstart lend =
      CalculateBlockSymbolSize lls dls st lstart lend"
    using True by (simp add: CalculateBlockSymbolSizeGivenCounts_def CalculateBlockSymbolSize_def)
  with CalculateBlockSymbolSize_bits [OF assms(1-3), of lls dls lss dss] assms(5) show ?thesis by simp
next
  case False
  note counts = GetHistogram_correct [OF assms(1-3), unfolded assms(4) seq_symbols [OF assms(1,3)]]
  have "CalculateBlockSymbolSizeGivenCounts (llc[256 := 1]) dc lls dls st lstart lend =
      Some (sum_list (map (width lls dls) (map (command_at st) [lstart..<lend])) + of_nat (lls ! 256))"
    using counts(3,4) by (intro GivenCounts_width [OF False _ _ assms(5)]) simp_all
  then show ?thesis by (simp only: block_bits_width [OF assms(5)])
qed

lemma histogram_covers:
  assumes "store_ok st" and "lstart \<le> lend" and "lend \<le> lsize st" and "lend - lstart < 2 ^ 22"
    and "ZopfliLZ77GetHistogram st lstart lend = (llc, dc)"
    and cs: "cs = map (command_at st) [lstart..<lend]" and "\<forall>c \<in> set cs. deflate_command c"
  shows "counts_cover cs (llc[256 := 1]) dc"
proof -
  let ?L = "map (Some \<circ> ll_sym) cs" and ?D = "map (\<lambda>c. if snd c \<noteq> 0 then Some (d_sym c) else None) cs"
  note counts = GetHistogram_correct [OF assms(1-3), unfolded assms(5) seq_symbols [OF assms(1,3)], folded cs]
  have len: "length llc = 288" "length dc = 32" using counts(1,2) by simp_all
  have lt: "length cs < 2 ^ 22" using cs assms(4) by simp
  have small: "unat (of_nat (count_list xs y) :: u64) = count_list xs y" "count_list xs y < 2 ^ 22"
    if "length xs = length cs" for xs :: "nat option list" and y
    using count_list_le [of xs y] that lt by (simp_all add: unat_of_nat)
  have L: "unat (llc ! s) = count_list ?L (Some s)" if "s < 288" for s
    using counts(3) that small(1) [of ?L] by simp
  have D: "unat (dc ! s) = count_list ?D (Some s)" if "s < 32" for s
    using counts(4) that small(1) [of ?D] by simp
  have ok: "deflate_command c" "ll_sym c < 286" "ll_sym c \<noteq> 256" "snd c \<noteq> 0 \<Longrightarrow> d_sym c < 30" if "c \<in> set cs" for c
    using assms(7) that command_symbols by blast+
  have z: "llc ! s = 0" if "286 \<le> s" "s < 288" for s
  proof -
    have "Some s \<notin> set ?L" using ok(2) that(1) by fastforce
    then show ?thesis using L [OF that(2)] by (simp add: count_list_0_iff unat_eq_0)
  qed
  have z': "dc ! s = 0" if "30 \<le> s" "s < 32" for s
  proof -
    have "Some s \<notin> set ?D" using ok(4) that(1) by fastforce
    then show ?thesis using D [OF that(2)] by (simp add: count_list_0_iff unat_eq_0)
  qed
  have "llc ! ll_sym c \<noteq> 0 \<and> (snd c \<noteq> 0 \<longrightarrow> dc ! d_sym c \<noteq> 0)" if c: "c \<in> set cs" for c
  proof -
    have "Some (ll_sym c) \<in> set ?L" using c by auto
    then have "unat (llc ! ll_sym c) \<noteq> 0" using L [of "ll_sym c"] ok(2) [OF c] by (simp add: count_list_0_iff)
    moreover have "unat (dc ! d_sym c) \<noteq> 0" if "snd c \<noteq> 0"
    proof -
      have "Some (d_sym c) \<in> set ?D" using c that by force
      then show ?thesis using D [of "d_sym c"] ok(4) [OF c that] by (simp add: count_list_0_iff)
    qed
    ultimately show ?thesis by auto
  qed
  moreover have "unat f < 2 ^ 22" if "f \<in> set llc" for f
    using that L small(2) [of ?L] len(1) by (auto simp: in_set_conv_nth simp del: count_list.simps)
  moreover have "unat f < 2 ^ 22" if "f \<in> set dc" for f
    using that D small(2) [of ?D] len(2) by (auto simp: in_set_conv_nth simp del: count_list.simps)
  ultimately show ?thesis
    using len ok(1,3) z [of 286] z [of 287] z' [of 30] z' [of 31]
    by (auto simp: counts_cover_def dest!: in_set_conv_nth [THEN iffD1] simp: nth_list_update)
qed

lemma tree_size_written:
  assumes "header_lengths lls dls"
  obtains sz where "CalculateTreeSize lls dls = Some sz" and "unat sz < 2 ^ 13"
    and "\<And>b. bit_out_ok b \<Longrightarrow> \<exists>b' bits. AddDynamicTree lls dls b = Some b' \<and> bit_out_ok b' \<and>
      stream b' = stream b @ bits \<and> length bits = unat sz \<and> tree_written lls dls sz bits"
proof -
  have len: "length bits = unat sz" "unat sz < 2 ^ 13" if "tree_written lls dls sz bits" for sz bits
    using that by (auto simp: tree_written_def unat_of_nat)
  have "bit_out_ok \<lparr>bp = 0, out = []\<rparr>" by (simp add: bit_out_ok_def)
  from AddDynamicTree_written [OF assms this] obtain sz bits
    where sz: "CalculateTreeSize lls dls = Some sz" "tree_written lls dls sz bits" by metis
  have "\<exists>b' bits. AddDynamicTree lls dls b = Some b' \<and> bit_out_ok b' \<and>
      stream b' = stream b @ bits \<and> length bits = unat sz \<and> tree_written lls dls sz bits" if "bit_out_ok b" for b
    using AddDynamicTree_written [OF assms that] sz(1) len by (metis option.inject)
  with sz len that show thesis by blast
qed

text \<open>
  The code lengths that are chosen, smoothed or not, serve all commands, and the size returned is
  that of the tree and of the data with these codes.
\<close>

lemma GetDynamicLengths_codes:
  assumes "store_ok st" and "lstart \<le> lend" and "lend \<le> lsize st" and "lend - lstart < 2 ^ 22"
    and cs: "cs = map (command_at st) [lstart..<lend]" and "\<forall>c \<in> set cs. deflate_command c"
  obtains sz lls dls tsz where "GetDynamicLengths st lstart lend = Some (sz, lls, dls)" and "block_codes cs lls dls"
    and "CalculateTreeSize lls dls = Some tsz"
    and "\<And>lss dss. sz = unat tsz + length (block_bits lss lls dss dls cs)"
proof -
  obtain llc dc where h: "ZopfliLZ77GetHistogram st lstart lend = (llc, dc)" by fastforce
  note cover = histogram_covers [OF assms(1-4) h assms(5,6)]
  have sizes: "\<exists>tsz dsz. CalculateTreeSize lls dls = Some tsz \<and>
      CalculateBlockSymbolSizeGivenCounts (llc[256 := 1]) dc lls dls st lstart lend = Some dsz \<and>
      (\<forall>lss dss. unat dsz = length (block_bits lss lls dss dls cs))" if codes: "block_codes cs lls dls" for lls dls
  proof -
    note b = codes [unfolded block_codes_def header_lengths_def]
    obtain tsz where "CalculateTreeSize lls dls = Some tsz"
      by (rule tree_size_written) (use codes in \<open>auto simp: block_codes_def\<close>)
    moreover have "CalculateBlockSymbolSizeGivenCounts (llc[256 := 1]) dc lls dls st lstart lend =
        Some (of_nat (length (block_bits lss lls dss dls cs)))" for lss dss
      using GivenCounts_bits [OF assms(1-3) h] b cs by blast
    moreover have "unat (of_nat (length (block_bits lss lls dss dls cs)) :: u64) = length (block_bits lss lls dss dls cs)" for lss dss
    proof -
      have "length (block_bits lss lls dss dls cs) \<le> 48 * length cs + 15"
        using b by (intro block_bits_length) auto
      then show ?thesis using assms(4) cs by (simp add: unat_of_nat)
    qed
    ultimately show ?thesis by (metis option.inject)
  qed
  obtain lls dl where c1: "ZopfliCalculateBitLengths (llc[256 := 1]) 15 = Some lls"
      "ZopfliCalculateBitLengths dc 15 = Some dl" "block_codes cs lls (PatchDistanceCodesForBuggyDecoders dl)"
    by (rule codes_from_counts [OF cover]) blast
  obtain lls2 dl2 where c2: "ZopfliCalculateBitLengths (OptimizeHuffmanForRle 288 (llc[256 := 1])) 15 = Some lls2"
      "ZopfliCalculateBitLengths (OptimizeHuffmanForRle 32 dc) 15 = Some dl2"
      "block_codes cs lls2 (PatchDistanceCodesForBuggyDecoders dl2)"
    by (rule codes_from_counts [OF counts_cover_smoothed [OF cover]]) blast
  obtain t1 d1 where s1: "CalculateTreeSize lls (PatchDistanceCodesForBuggyDecoders dl) = Some t1"
      "CalculateBlockSymbolSizeGivenCounts (llc[256 := 1]) dc lls (PatchDistanceCodesForBuggyDecoders dl) st lstart lend = Some d1"
      "\<And>lss dss. unat d1 = length (block_bits lss lls dss (PatchDistanceCodesForBuggyDecoders dl) cs)"
    using sizes [OF c1(3)] by blast
  obtain t2 d2 where s2: "CalculateTreeSize lls2 (PatchDistanceCodesForBuggyDecoders dl2) = Some t2"
      "CalculateBlockSymbolSizeGivenCounts (llc[256 := 1]) dc lls2 (PatchDistanceCodesForBuggyDecoders dl2) st lstart lend = Some d2"
      "\<And>lss dss. unat d2 = length (block_bits lss lls2 dss (PatchDistanceCodesForBuggyDecoders dl2) cs)"
    using sizes [OF c2(3)] by blast
  have g: "GetDynamicLengths st lstart lend =
      (if unat t2 + unat d2 < unat t1 + unat d1
       then Some (unat t2 + unat d2, lls2, PatchDistanceCodesForBuggyDecoders dl2)
       else Some (unat t1 + unat d1, lls, PatchDistanceCodesForBuggyDecoders dl))"
    using c1(1,2) c2(1,2) s1(1,2) s2(1,2) by (simp add: GetDynamicLengths_def TryOptimizeHuffmanForRle_def h Let_def)
  show thesis
  proof (cases "unat t2 + unat d2 < unat t1 + unat d1")
    case True
    show thesis by (rule that [of _ lls2 "PatchDistanceCodesForBuggyDecoders dl2" t2]) (use g True c2(3) s2 in simp_all)
  next
    case False
    show thesis by (rule that [of _ lls "PatchDistanceCodesForBuggyDecoders dl" t1]) (use g False c1(3) s1 in simp_all)
  qed
qed

section \<open>Whole blocks\<close>

datatype block = Stored "byte list" | Compressed "(nat \<times> nat) list"

definition decode_coded :: "nat list \<Rightarrow> nat list \<Rightarrow> bool list \<Rightarrow> ((nat \<times> nat) list \<times> bool list) option" where
  "decode_coded lls dls bs =
    do {
      lss \<leftarrow> ZopfliLengthsToSymbols lls 15;
      dss \<leftarrow> ZopfliLengthsToSymbols dls 15;
      decode_data lss lls dss dls bs
    }"

text \<open>Code lengths that a header leaves out are zero.\<close>

definition pad_to :: "nat \<Rightarrow> nat list \<Rightarrow> nat list" where
  "pad_to n xs = xs @ replicate (n - length xs) 0"

fun decode_block :: "bool list \<Rightarrow> (bool \<times> block \<times> bool list) option" where
  "decode_block (f # False # False # bs) =
    map_option (\<lambda>(f, bytes, rest). (f, Stored bytes, rest)) (decode_stored (f # False # False # bs))"
| "decode_block (f # True # False # bs) =
    map_option (\<lambda>(cs, rest). (f, Compressed cs, rest))
      (decode_coded (replicate 144 8 @ replicate 112 9 @ replicate 24 7 @ replicate 8 8) (replicate 32 5) bs)"
| "decode_block (f # False # True # bs) =
    do {
      (lls, dls, bs) \<leftarrow> decode_tree bs;
      map_option (\<lambda>(cs, rest). (f, Compressed cs, rest)) (decode_coded (pad_to 288 lls) (pad_to 32 dls) bs)
    }"
| "decode_block _ = None"

lemma decode_coded_written:
  assumes "code_pair lss lls dss dls" and "0 < lls ! 256" and "\<forall>c \<in> set cs. encodable lls dls c"
  shows "decode_coded lls dls (block_bits lss lls dss dls cs @ rest) = Some (cs, rest)"
  using decode_commands [OF assms, of rest] assms(1) by (simp add: decode_coded_def block_bits_def code_pair_def)

lemma AddLZ77Data_written:
  assumes "bit_out_ok s" and cs: "cs = map (command_at lz77) [lstart..<lend]" and "\<forall>c \<in> set cs. encodable lls dls c"
    and "n = 0 \<or> n = sum_list (map command_length cs)"
  obtains s' where "AddLZ77Data lz77 lstart lend n lss lls dss dls s = Some s'" and "bit_out_ok s'"
    and "stream s' = stream s @ concat (map (command_bits lss lls dss dls) cs)"
proof -
  have "\<forall>i \<in> set [lstart..<lend]. encodable lls dls (command_at lz77 i)" using assms(2,3) by auto
  from AddLZ77Data_loop_stream [OF assms(1) this, of lss dss 0] assms(4) that show thesis
    by (auto simp: AddLZ77Data_def cs comp_def)
qed

text \<open>The part of a block after its header, common to both kinds.\<close>

lemma coded_block_written:
  assumes codes: "code_pair lss lls dss dls" "0 < lls ! 256" "\<forall>c \<in> set cs. encodable lls dls c"
    and "bit_out_ok s" and cs: "cs = map (command_at st) [lstart..<lend]"
    and n: "n = 0 \<or> n = sum_list (map command_length cs)"
  obtains s1 s' where "AddLZ77Data st lstart lend n lss lls dss dls s = Some s1"
    and "s' = AddHuffmanBits (lss ! 256) (lls ! 256) s1" and "bit_out_ok s'"
    and "stream s' = stream s @ block_bits lss lls dss dls cs"
    and "\<And>rest. decode_coded lls dls (block_bits lss lls dss dls cs @ rest) = Some (cs, rest)"
proof -
  obtain s1 where s1: "AddLZ77Data st lstart lend n lss lls dss dls s = Some s1" "bit_out_ok s1"
      "stream s1 = stream s @ concat (map (command_bits lss lls dss dls) cs)"
    by (rule AddLZ77Data_written [OF assms(4) cs codes(3) n])
  show thesis
    by (rule that [OF s1(1) refl])
      (use AddHuffmanBits_stream [OF s1(2)] s1(3) decode_coded_written [OF codes] in \<open>simp_all add: block_bits_def\<close>)
qed

lemma block_header_written:
  assumes "bit_out_ok s"
  shows "bit_out_ok (AddBit (of_bool b2) (AddBit (of_bool b1) (AddBit (of_bool f) s)))"
    and "stream (AddBit (of_bool b2) (AddBit (of_bool b1) (AddBit (of_bool f) s))) = stream s @ [f, b1, b2]"
proof -
  have one: "bit_out_ok (AddBit (of_bool b) s)" "stream (AddBit (of_bool b) s) = stream s @ [b]"
    if "bit_out_ok s" for b s
    using AddBit_stream [OF that, of "of_bool b"] by auto
  show "bit_out_ok (AddBit (of_bool b2) (AddBit (of_bool b1) (AddBit (of_bool f) s)))"
    and "stream (AddBit (of_bool b2) (AddBit (of_bool b1) (AddBit (of_bool f) s))) = stream s @ [f, b1, b2]"
    using assms by (simp_all add: one)
qed

lemma fixed_block_written:
  assumes "store_ok st" and "lstart \<le> lend" and "lend \<le> lsize st" and "lend - lstart < 2 ^ 22"
    and cs: "cs = map (command_at st) [lstart..<lend]" and "\<forall>c \<in> set cs. deflate_command c"
    and "bit_out_ok s" and n: "n = 0 \<or> n = sum_list (map command_length cs)"
  obtains s' bits where "AddLZ77Block 1 final st lstart lend n s = Some s'" and "bit_out_ok s'"
    and "stream s' = stream s @ bits" and "ZopfliCalculateBlockSize st lstart lend 1 = Some (length bits)"
    and "\<And>rest. decode_block (bits @ rest) = Some (final, Compressed cs, rest)"
proof -
  obtain lls dls where f: "GetFixedTree = (lls, dls)" by fastforce
  have fl: "lls = replicate 144 8 @ replicate 112 9 @ replicate 24 7 @ replicate 8 8" "dls = replicate 32 5"
    using f by (auto simp: GetFixedTree_def)
  obtain lss dss where pair: "code_pair lss lls dss dls" by (rule fixed_code_pair) (simp add: f)
  have enc: "\<forall>c \<in> set cs. encodable lls dls c" using assms(6) fixed_encodable_command by (simp add: f)
  have e: "0 < lls ! 256" using GetFixedTree_simps(3) [of 256] by (simp add: f)
  note hd = block_header_written [OF assms(7), of False True final]
  obtain s1 s' where w: "AddLZ77Data st lstart lend n lss lls dss dls
        (AddBit (of_bool False) (AddBit (of_bool True) (AddBit (of_bool final) s))) = Some s1"
      "s' = AddHuffmanBits (lss ! 256) (lls ! 256) s1" "bit_out_ok s'"
      "stream s' = stream (AddBit (of_bool False) (AddBit (of_bool True) (AddBit (of_bool final) s))) @ block_bits lss lls dss dls cs"
      "\<And>rest. decode_coded lls dls (block_bits lss lls dss dls cs @ rest) = Some (cs, rest)"
    by (rule coded_block_written [OF pair e enc hd(1) cs n]) blast
  have k: "kraft 15 lls" "kraft 15 dls" "length lls = 288" "length dls = 32"
    using pair by (simp_all add: code_pair_def)
  have "length (block_bits lss lls dss dls cs) \<le> 48 * length cs + 15" by (rule block_bits_length [OF k enc])
  then have u: "unat (of_nat (length (block_bits lss lls dss dls cs)) :: u64) = length (block_bits lss lls dss dls cs)"
    using assms(4) cs by (simp add: unat_of_nat)
  have "\<forall>i \<in> set [lstart..<lend]. encodable lls dls (command_at st i)" using enc cs by auto
  note size = CalculateBlockSymbolSize_bits [OF assms(1-3) this, of lss dss, folded cs]
  show thesis
  proof (rule that)
    show "AddLZ77Block 1 final st lstart lend n s = Some s'"
      using w(1,2) pair by (simp add: AddLZ77Block_def f code_pair_def)
    show "stream s' = stream s @ ([final, True, False] @ block_bits lss lls dss dls cs)" using w(4) hd(2) by simp
    show "ZopfliCalculateBlockSize st lstart lend 1 = Some (length ([final, True, False] @ block_bits lss lls dss dls cs))"
      using size u by (simp add: ZopfliCalculateBlockSize_def f)
    show "decode_block (([final, True, False] @ block_bits lss lls dss dls cs) @ rest) = Some (final, Compressed cs, rest)" for rest
      using w(5) by (simp add: fl)
  qed (rule w(3))
qed

lemma dynamic_block_written:
  assumes "store_ok st" and "lstart \<le> lend" and "lend \<le> lsize st" and "lend - lstart < 2 ^ 22"
    and cs: "cs = map (command_at st) [lstart..<lend]" and "\<forall>c \<in> set cs. deflate_command c"
    and "bit_out_ok s" and n: "n = 0 \<or> n = sum_list (map command_length cs)"
  obtains s' bits where "AddLZ77Block 2 final st lstart lend n s = Some s'" and "bit_out_ok s'"
    and "stream s' = stream s @ bits" and "ZopfliCalculateBlockSize st lstart lend 2 = Some (length bits)"
    and "\<And>rest. decode_block (bits @ rest) = Some (final, Compressed cs, rest)"
proof -
  obtain sz lls dls tsz where g: "GetDynamicLengths st lstart lend = Some (sz, lls, dls)" "block_codes cs lls dls"
      "CalculateTreeSize lls dls = Some tsz" "\<And>lss dss. sz = unat tsz + length (block_bits lss lls dss dls cs)"
    by (rule GetDynamicLengths_codes [OF assms(1-6)]) blast
  note b = g(2) [unfolded block_codes_def]
  have len: "length lls = 288" "length dls = 32" using b by (simp_all add: header_lengths_def)
  obtain lss where lss: "ZopfliLengthsToSymbols lls 15 = Some lss" by (rule symbols_code_value [of 15 lls]) (use b in auto)
  obtain dss where dss: "ZopfliLengthsToSymbols dls 15 = Some dss" by (rule symbols_code_value [of 15 dls]) (use b in auto)
  have pair: "code_pair lss lls dss dls" using b len lss dss by (simp add: code_pair_def)
  let ?h = "AddBit (of_bool True) (AddBit (of_bool False) (AddBit (of_bool final) s))"
  note hd = block_header_written [OF assms(7), of True False final]
  have hl: "header_lengths lls dls" using b by simp
  have "\<exists>b' bits. AddDynamicTree lls dls ?h = Some b' \<and> bit_out_ok b' \<and>
      stream b' = stream ?h @ bits \<and> length bits = unat tsz \<and> tree_written lls dls tsz bits"
  proof (rule tree_size_written [OF hl])
    fix sz
    assume "CalculateTreeSize lls dls = Some sz" and "\<And>b. bit_out_ok b \<Longrightarrow> \<exists>b' bits. AddDynamicTree lls dls b = Some b' \<and>
      bit_out_ok b' \<and> stream b' = stream b @ bits \<and> length bits = unat sz \<and> tree_written lls dls sz bits"
    with hd(1) g(3) show ?thesis by (simp only: option.inject)
  qed
  then obtain b' tbits where t: "AddDynamicTree lls dls ?h = Some b'" "bit_out_ok b'" "stream b' = stream ?h @ tbits"
      "length tbits = unat tsz" "tree_written lls dls tsz tbits"
    by blast
  have pad: "pad_to 288 (take (hlit_of lls + 257) lls) = lls" "pad_to 32 (take (hdist_of dls + 1) dls) = dls"
    using sent_rest [OF hl] len hlit_hdist(1) [of lls] hlit_hdist(2) [of dls] by (simp_all add: pad_to_def)
  obtain s1 s' where w: "AddLZ77Data st lstart lend n lss lls dss dls b' = Some s1"
      "s' = AddHuffmanBits (lss ! 256) (lls ! 256) s1" "bit_out_ok s'"
      "stream s' = stream b' @ block_bits lss lls dss dls cs"
      "\<And>rest. decode_coded lls dls (block_bits lss lls dss dls cs @ rest) = Some (cs, rest)"
    by (rule coded_block_written [OF pair _ _ t(2) cs n]) (use b in auto)
  have two: "(2 :: nat) AND 1 = 0" "drop_bit 1 ((2 :: nat) AND 2) = 1" by simp_all
  show thesis
  proof (rule that)
    show "AddLZ77Block 2 final st lstart lend n s = Some s'"
      using w(1,2) t(1) g(1) lss dss by (simp add: AddLZ77Block_def)
    show "stream s' = stream s @ ([final, False, True] @ tbits @ block_bits lss lls dss dls cs)"
      using w(4) t(3) hd(2) by simp
    show "ZopfliCalculateBlockSize st lstart lend 2 =
        Some (length ([final, False, True] @ tbits @ block_bits lss lls dss dls cs))"
      using g(1,4) t(4) by (simp add: ZopfliCalculateBlockSize_def)
    show "decode_block (([final, False, True] @ tbits @ block_bits lss lls dss dls cs) @ rest) =
        Some (final, Compressed cs, rest)" for rest
      using w(5) t(5) pad by (simp add: tree_written_def)
  qed (rule w(3))
qed

end
