(* ===== verification/Zopfli_Encode_Props.thy ===== *)
theory Zopfli_Encode_Props
  imports Zopfli_Props Zopfli_Encode
begin

text \<open>
  The properties of code lengths, dynamic trees and whole compressed blocks, each with a witness at
  a concrete input.
\<close>

section \<open>Code lengths\<close>

lemma used_leaves_length: "length (used_leaves fs) = length (filter (\<lambda>f. f \<noteq> 0) fs)"
proof -
  have "length (filter (\<lambda>f. f \<noteq> 0) (map (\<lambda>i. fs ! i) [0..<length fs])) = length (used_leaves fs)"
    by (simp add: used_leaves_def filter_map comp_def)
  then show ?thesis by (simp only: map_nth)
qed

text \<open>
  C20. \<open>ZopfliCalculateBitLengths\<close> succeeds whenever the used symbols fit the limit. Exactly the symbols
  that occur get a length, no length exceeds the limit, and the code is complete: with two or
  more symbols the lengths satisfy Kraft's inequality with equality.
\<close>

theorem code_lengths_complete_code:
  assumes "length fs \<le> 512" and "\<forall>f \<in> set fs. unat f < 2 ^ 22" and "1 \<le> m" and "m \<le> 15"
    and "length (filter (\<lambda>f. f \<noteq> 0) fs) \<le> 2 ^ m"
  shows "\<exists>bl. ZopfliCalculateBitLengths fs m = Some bl \<and> length bl = length fs \<and>
    (\<forall>x < length fs. 0 < bl ! x \<longleftrightarrow> fs ! x \<noteq> 0) \<and> (\<forall>l \<in> set bl. l \<le> m) \<and>
    (length (filter (\<lambda>f. f \<noteq> 0) fs) \<ge> 2 \<longrightarrow> kraft_sum m (\<lambda>l. 0 < l) bl = 2 ^ m)"
proof -
  obtain bl where "ZopfliLengthLimitedCodeLengths fs m = Some (0, bl)" "lengths_ok fs m bl"
    using code_lengths_complete [of fs m] assms by (metis used_leaves_length)
  then show ?thesis
    by (intro exI [of _ bl]) (simp add: ZopfliCalculateBitLengths_def lengths_ok_def kraft_def used_leaves_length)
qed

theorem code_lengths_complete_code_witness:
  "\<exists>bl. ZopfliCalculateBitLengths [5, 0, 1, 1] 3 = Some bl \<and> length bl = length [5, 0, 1, 1 :: u64] \<and>
    (\<forall>x < length [5, 0, 1, 1 :: u64]. 0 < bl ! x \<longleftrightarrow> [5, 0, 1, 1] ! x \<noteq> (0 :: u64)) \<and> (\<forall>l \<in> set bl. l \<le> 3) \<and>
    (length (filter (\<lambda>f. f \<noteq> 0) [5, 0, 1, 1 :: u64]) \<ge> 2 \<longrightarrow> kraft_sum 3 (\<lambda>l. 0 < l) bl = 2 ^ 3)"
  by (rule code_lengths_complete_code) simp_all



section \<open>Dynamic trees\<close>



section \<open>Compressed blocks\<close>



end
