(* ===== verification/Zopfli_Hash.thy ===== *)
theory Zopfli_Hash
  imports Prelude
begin

text \<open>
  Hash chains (\<open>hash.c\<close>): for each position of a sliding window, a hash of its next three bytes, the
  previous position with the same hash, and the number of equal bytes that follow; and a second
  chain whose hash includes that number. The arrays are functions from their indices; their
  sizes are those \<open>ZopfliAllocHash\<close> asks for, and the indices that occur are below them. A slot of the
  window is a position modulo the size of the window.

  The invariant says what a slot holds: the hash of the latest position with that slot, and a link
  that is either to itself or to an earlier position with the same hash, less than a window away.
\<close>

abbreviation (input) ZOPFLI_WINDOW_SIZE :: nat where "ZOPFLI_WINDOW_SIZE \<equiv> 32768"
abbreviation (input) ZOPFLI_WINDOW_MASK :: nat where "ZOPFLI_WINDOW_MASK \<equiv> 32767"
abbreviation (input) ZOPFLI_MIN_MATCH :: nat where "ZOPFLI_MIN_MATCH \<equiv> 3"
abbreviation (input) ZOPFLI_MAX_MATCH :: nat where "ZOPFLI_MAX_MATCH \<equiv> 258"

section \<open>The code of hash.c\<close>

record ZopfliHash =
  head :: "nat \<Rightarrow> int"
  prev :: "nat \<Rightarrow> nat"
  hashval :: "nat \<Rightarrow> int"
  val :: nat
  head2 :: "nat \<Rightarrow> int"
  prev2 :: "nat \<Rightarrow> nat"
  hashval2 :: "nat \<Rightarrow> int"
  val2 :: nat
  same :: "nat \<Rightarrow> nat"

definition ZopfliResetHash :: "ZopfliHash \<Rightarrow> ZopfliHash" where
  "ZopfliResetHash h = h\<lparr>
     val := 0, head := (\<lambda>_. - 1), prev := (\<lambda>i. i), hashval := (\<lambda>_. - 1), same := (\<lambda>_. 0),
     val2 := 0, head2 := (\<lambda>_. - 1), prev2 := (\<lambda>i. i), hashval2 := (\<lambda>_. - 1)\<rparr>"

definition UpdateHashValue :: "byte \<Rightarrow> ZopfliHash \<Rightarrow> ZopfliHash" where
  "UpdateHashValue c h = h\<lparr>val := (push_bit 5 (val h) XOR unat c) AND 32767\<rparr>"

text \<open>Linking slot \<open>hpos\<close> into the chain of hash \<open>v\<close>, done for both hashes.\<close>

definition link_slot ::
  "nat \<Rightarrow> nat \<Rightarrow> (nat \<Rightarrow> int) \<times> (nat \<Rightarrow> nat) \<times> (nat \<Rightarrow> int) \<Rightarrow> (nat \<Rightarrow> int) \<times> (nat \<Rightarrow> nat) \<times> (nat \<Rightarrow> int)" where
  "link_slot hpos v = (\<lambda>(hh, pv, hv).
     let hv = hv(hpos := int v);
         pv = (if hh v \<noteq> - 1 \<and> hv (nat (hh v)) = int v then pv(hpos := nat (hh v)) else pv(hpos := hpos))
     in (hh(v := int hpos), pv, hv))"

text \<open>The loop that counts equal bytes; \<open>amount\<close> stops at the largest \<open>unsigned short\<close>.\<close>

function same_loop :: "byte list \<Rightarrow> nat \<Rightarrow> nat \<Rightarrow> nat \<Rightarrow> nat" where
  "same_loop array pos end' amount =
    (if pos + amount + 1 < end' \<and> array ! pos = array ! (pos + amount + 1) \<and> amount < 65535
     then same_loop array pos end' (amount + 1) else amount)"
  by pat_completeness auto

termination
  by (relation "measure (\<lambda>(_, _, _, amount). 65535 - amount)") auto

declare same_loop.simps [simp del]

text \<open>The slot before \<open>pos\<close>; for position 0 the subtraction wraps around.\<close>

definition slot_before :: "nat \<Rightarrow> nat" where
  "slot_before pos = (if pos = 0 then ZOPFLI_WINDOW_MASK else (pos - 1) AND ZOPFLI_WINDOW_MASK)"

text \<open>The three parts of \<open>ZopfliUpdateHash\<close>: the hash, the run of equal bytes, the second hash.\<close>

definition update_hash :: "byte list \<Rightarrow> nat \<Rightarrow> nat \<Rightarrow> ZopfliHash \<Rightarrow> ZopfliHash" where
  "update_hash array pos end' h =
    (let h = UpdateHashValue (if pos + ZOPFLI_MIN_MATCH \<le> end' then array ! (pos + ZOPFLI_MIN_MATCH - 1) else 0) h;
         (hh, pv, hv) = link_slot (pos AND ZOPFLI_WINDOW_MASK) (val h) (head h, prev h, hashval h)
     in h\<lparr>head := hh, prev := pv, hashval := hv\<rparr>)"

definition update_same :: "byte list \<Rightarrow> nat \<Rightarrow> nat \<Rightarrow> ZopfliHash \<Rightarrow> ZopfliHash" where
  "update_same array pos end' h =
    (let amount = (if same h (slot_before pos) > 1 then same h (slot_before pos) - 1 else 0)
     in h\<lparr>same := (same h)(pos AND ZOPFLI_WINDOW_MASK := same_loop array pos end' amount)\<rparr>)"

definition update_hash2 :: "nat \<Rightarrow> ZopfliHash \<Rightarrow> ZopfliHash" where
  "update_hash2 pos h =
    (let hpos = pos AND ZOPFLI_WINDOW_MASK;
         h = h\<lparr>val2 := nat ((int (same h hpos) - int ZOPFLI_MIN_MATCH) AND 255) XOR val h\<rparr>;
         (hh, pv, hv) = link_slot hpos (val2 h) (head2 h, prev2 h, hashval2 h)
     in h\<lparr>head2 := hh, prev2 := pv, hashval2 := hv\<rparr>)"

definition ZopfliUpdateHash :: "byte list \<Rightarrow> nat \<Rightarrow> nat \<Rightarrow> ZopfliHash \<Rightarrow> ZopfliHash" where
  "ZopfliUpdateHash array pos end' h = update_hash2 pos (update_same array pos end' (update_hash array pos end' h))"

definition ZopfliWarmupHash :: "byte list \<Rightarrow> nat \<Rightarrow> nat \<Rightarrow> ZopfliHash \<Rightarrow> ZopfliHash" where
  "ZopfliWarmupHash array pos end' h =
    (let h = UpdateHashValue (array ! pos) h
     in if pos + 1 < end' then UpdateHashValue (array ! (pos + 1)) h else h)"

text \<open>The loop of the clients that brings the hash from the start of the window to a position.\<close>

definition update_range :: "byte list \<Rightarrow> nat \<Rightarrow> nat \<Rightarrow> nat \<Rightarrow> ZopfliHash \<Rightarrow> ZopfliHash" where
  "update_range array a b end' h = fold (\<lambda>i. ZopfliUpdateHash array i end') [a..<b] h"

section \<open>Chains\<close>

lemma window_mask [simp]: "x AND ZOPFLI_WINDOW_MASK = x mod ZOPFLI_WINDOW_SIZE"
proof -
  have "(32767 :: nat) = mask 15" by (simp add: mask_eq_exp_minus_1)
  then show ?thesis by (simp only: take_bit_eq_mask [symmetric] take_bit_eq_mod) simp
qed

text \<open>
  What a chain is after the positions from \<open>ws\<close> up to \<open>n\<close>, where \<open>H\<close> is the hash of each position.
\<close>

definition chain_inv ::
  "(nat \<Rightarrow> nat) \<Rightarrow> nat \<Rightarrow> nat \<Rightarrow> (nat \<Rightarrow> int) \<times> (nat \<Rightarrow> nat) \<times> (nat \<Rightarrow> int) \<Rightarrow> bool" where
  "chain_inv H ws n = (\<lambda>(hh, pv, hv).
     (\<forall>v. hh v = - 1 \<or> (\<exists>q. ws \<le> q \<and> q < n \<and> hh v = int (q mod ZOPFLI_WINDOW_SIZE))) \<and>
     (\<forall>q. ws \<le> q \<and> q < n \<and> n \<le> q + ZOPFLI_WINDOW_SIZE \<longrightarrow>
        hv (q mod ZOPFLI_WINDOW_SIZE) = int (H q) \<and>
        (pv (q mod ZOPFLI_WINDOW_SIZE) = q mod ZOPFLI_WINDOW_SIZE \<or>
         (\<exists>r. ws \<le> r \<and> r < q \<and> q < r + ZOPFLI_WINDOW_SIZE \<and>
              pv (q mod ZOPFLI_WINDOW_SIZE) = r mod ZOPFLI_WINDOW_SIZE \<and> H r = H q))))"

lemma chain_inv_hash:
  "chain_inv H ws n (hh, pv, hv) \<Longrightarrow> ws \<le> q \<Longrightarrow> q < n \<Longrightarrow> n \<le> q + ZOPFLI_WINDOW_SIZE \<Longrightarrow>
   hv (q mod ZOPFLI_WINDOW_SIZE) = int (H q)"
  by (simp add: chain_inv_def)

lemma chain_inv_link:
  assumes "chain_inv H ws n (hh, pv, hv)" and "ws \<le> q" and "q < n" and "n \<le> q + ZOPFLI_WINDOW_SIZE"
  shows "pv (q mod ZOPFLI_WINDOW_SIZE) = q mod ZOPFLI_WINDOW_SIZE \<or>
    (\<exists>r. ws \<le> r \<and> r < q \<and> q < r + ZOPFLI_WINDOW_SIZE \<and>
      pv (q mod ZOPFLI_WINDOW_SIZE) = r mod ZOPFLI_WINDOW_SIZE \<and> H r = H q)"
  using assms by (simp add: chain_inv_def)

text \<open>Every slot that was written has a latest position, which is in the window.\<close>

lemma latest_position:
  assumes "ws \<le> q" and "q < n"
  obtains r where "ws \<le> r" and "r < n" and "n \<le> r + ZOPFLI_WINDOW_SIZE"
    and "r mod ZOPFLI_WINDOW_SIZE = q mod ZOPFLI_WINDOW_SIZE"
proof -
  let ?k = "(n - 1 - q) div ZOPFLI_WINDOW_SIZE"
  have "?k * ZOPFLI_WINDOW_SIZE \<le> n - 1 - q" "n - 1 - q < ?k * ZOPFLI_WINDOW_SIZE + ZOPFLI_WINDOW_SIZE"
    using dividend_less_div_times [of ZOPFLI_WINDOW_SIZE "n - 1 - q"] by simp_all
  then show thesis using assms by (intro that [of "q + ?k * ZOPFLI_WINDOW_SIZE"]) simp_all
qed

lemma mod_window_eq:
  assumes "a mod ZOPFLI_WINDOW_SIZE = b mod ZOPFLI_WINDOW_SIZE" and "a \<le> b" and "b < a + ZOPFLI_WINDOW_SIZE"
  shows "a = b"
proof -
  have "ZOPFLI_WINDOW_SIZE dvd b - a" using assms(1,2) by (metis mod_eq_dvd_iff_nat)
  then show ?thesis using assms(2,3) by (auto dest: dvd_imp_le)
qed

lemma chain_inv_step:
  assumes inv: "chain_inv H ws n c" and "ws \<le> n" and "H n = v"
  shows "chain_inv H ws (Suc n) (link_slot (n mod ZOPFLI_WINDOW_SIZE) v c)"
proof -
  let ?W = "ZOPFLI_WINDOW_SIZE" and ?x = "n mod ZOPFLI_WINDOW_SIZE"
  obtain hh pv hv where c: "c = (hh, pv, hv)" by (cases c)
  have heads: "hh u = - 1 \<or> (\<exists>q. ws \<le> q \<and> q < n \<and> hh u = int (q mod ?W))" for u
    using inv by (simp add: chain_inv_def c)
  obtain hh' pv' hv' where l: "link_slot ?x v c = (hh', pv', hv')" by (cases "link_slot ?x v c")
  have h': "hh' = hh(v := int ?x)" "hv' = hv(?x := int v)"
      "pv' = (if hh v \<noteq> - 1 \<and> hv' (nat (hh v)) = int v then pv(?x := nat (hh v)) else pv(?x := ?x))"
    using l by (auto simp: link_slot_def c Let_def)
  have new: "pv' ?x = ?x \<or> (\<exists>r. ws \<le> r \<and> r < n \<and> n < r + ?W \<and> pv' ?x = r mod ?W \<and> H r = H n)"
  proof (cases "hh v \<noteq> - 1 \<and> hv' (nat (hh v)) = int v")
    case True
    then obtain q where q: "ws \<le> q" "q < n" "hh v = int (q mod ?W)" using heads [of v] by blast
    obtain r where r: "ws \<le> r" "r < n" "n \<le> r + ?W" "r mod ?W = q mod ?W" by (rule latest_position [OF q(1,2)])
    show ?thesis
    proof (cases "r + ?W = n")
      case True
      then have "q mod ?W = ?x" using r(4) by (metis mod_add_self2)
      then show ?thesis using h'(3) q(3) by simp
    next
      case False
      then have lt: "n < r + ?W" using r(3) by simp
      have "r mod ?W \<noteq> ?x" using mod_window_eq [of r n] r(2) lt by auto
      then have "hv (r mod ?W) = int v" using True h'(2) q(3) r(4) by simp
      then have "H r = v" using chain_inv_hash [OF inv [unfolded c] r(1-3)] by simp
      then show ?thesis using r lt q(3) True h'(3) assms(3) by auto
    qed
  qed (use h' in auto)
  have old: "q mod ?W \<noteq> ?x" if "q < n" "Suc n \<le> q + ?W" for q using mod_window_eq [of q n] that by auto
  have "hv' (q mod ?W) = int (H q) \<and>
      (pv' (q mod ?W) = q mod ?W \<or> (\<exists>r. ws \<le> r \<and> r < q \<and> q < r + ?W \<and> pv' (q mod ?W) = r mod ?W \<and> H r = H q))"
    if q: "ws \<le> q" "q < Suc n" "Suc n \<le> q + ?W" for q
  proof (cases "q = n")
    case True
    with new h' assms(3) show ?thesis by simp
  next
    case False
    then have lt: "q < n" "n \<le> q + ?W" using q by simp_all
    have "pv' (q mod ?W) = pv (q mod ?W)" "hv' (q mod ?W) = hv (q mod ?W)" using old [OF lt(1) q(3)] h'(2,3) by auto
    with chain_inv_hash [OF inv [unfolded c] q(1) lt] chain_inv_link [OF inv [unfolded c] q(1) lt] show ?thesis by simp
  qed
  moreover have "hh' u = - 1 \<or> (\<exists>q. ws \<le> q \<and> q < Suc n \<and> hh' u = int (q mod ?W))" for u
    using heads [of u] h'(1) assms(2) by (auto intro: less_SucI)
  ultimately show ?thesis unfolding l chain_inv_def by auto
qed

section \<open>The hash at a position\<close>

definition empty_hash :: ZopfliHash where
  "empty_hash = \<lparr>head = (\<lambda>_. - 1), prev = (\<lambda>i. i), hashval = (\<lambda>_. - 1), val = 0,
     head2 = (\<lambda>_. - 1), prev2 = (\<lambda>i. i), hashval2 = (\<lambda>_. - 1), val2 = 0, same = (\<lambda>_. 0)\<rparr>"

lemma ZopfliResetHash_empty: "ZopfliResetHash h = empty_hash"
  by (simp add: ZopfliResetHash_def empty_hash_def)

text \<open>The hash of a client that started at \<open>ws\<close>, before position \<open>n\<close>.\<close>

definition hash_at :: "byte list \<Rightarrow> nat \<Rightarrow> nat \<Rightarrow> nat \<Rightarrow> ZopfliHash" where
  "hash_at array end' ws n = update_range array ws n end' (ZopfliWarmupHash array ws end' empty_hash)"

lemma hash_at_start: "hash_at array end' ws ws = ZopfliWarmupHash array ws end' empty_hash"
  by (simp add: hash_at_def update_range_def)

lemma hash_at_Suc: "ws \<le> n \<Longrightarrow> hash_at array end' ws (Suc n) = ZopfliUpdateHash array n end' (hash_at array end' ws n)"
  by (simp add: hash_at_def update_range_def)

lemma hash_at_range:
  assumes "ws \<le> a" and "a \<le> b"
  shows "update_range array a b end' (hash_at array end' ws a) = hash_at array end' ws b"
proof -
  have "[ws..<b] = [ws..<a] @ [a..<b]" using assms by (metis le_add_diff_inverse upt_add_eq_append)
  then show ?thesis by (simp add: hash_at_def update_range_def)
qed

abbreviation hash_of :: "byte list \<Rightarrow> nat \<Rightarrow> nat \<Rightarrow> nat \<Rightarrow> nat" where
  "hash_of array end' ws q \<equiv> val (hash_at array end' ws (Suc q))"

abbreviation hash2_of :: "byte list \<Rightarrow> nat \<Rightarrow> nat \<Rightarrow> nat \<Rightarrow> nat" where
  "hash2_of array end' ws q \<equiv> val2 (hash_at array end' ws (Suc q))"

abbreviation run_of_equal :: "byte list \<Rightarrow> nat \<Rightarrow> nat \<Rightarrow> nat \<Rightarrow> nat" where
  "run_of_equal array end' ws q \<equiv> same (hash_at array end' ws (Suc q)) (q mod ZOPFLI_WINDOW_SIZE)"

text \<open>An update, field by field.\<close>

lemma UpdateHashValue_fields [simp]:
  "head (UpdateHashValue c h) = head h" "prev (UpdateHashValue c h) = prev h"
  "hashval (UpdateHashValue c h) = hashval h" "head2 (UpdateHashValue c h) = head2 h"
  "prev2 (UpdateHashValue c h) = prev2 h" "hashval2 (UpdateHashValue c h) = hashval2 h"
  "same (UpdateHashValue c h) = same h"
  by (simp_all add: UpdateHashValue_def)

lemma update_hash_fields:
  fixes array pos end' h
  defines "h' \<equiv> update_hash array pos end' h"
  shows "val h' = val (UpdateHashValue (if pos + 3 \<le> end' then array ! (pos + 3 - 1) else 0) h)"
    and "(head h', prev h', hashval h') = link_slot (pos mod 32768) (val h') (head h, prev h, hashval h)"
    and "head2 h' = head2 h" "prev2 h' = prev2 h" "hashval2 h' = hashval2 h" "same h' = same h"
  by (simp_all add: h'_def update_hash_def Let_def case_prod_unfold)

lemma update_same_fields:
  fixes array pos end' h
  defines "h' \<equiv> update_same array pos end' h"
  shows "same h' = (same h)(pos mod 32768 :=
      same_loop array pos end' (if same h (slot_before pos) > 1 then same h (slot_before pos) - 1 else 0))"
    and "val h' = val h" "head h' = head h" "prev h' = prev h" "hashval h' = hashval h"
    and "head2 h' = head2 h" "prev2 h' = prev2 h" "hashval2 h' = hashval2 h"
  by (simp_all add: h'_def update_same_def)

lemma update_hash2_fields:
  fixes pos h
  defines "h' \<equiv> update_hash2 pos h"
  shows "(head2 h', prev2 h', hashval2 h') = link_slot (pos mod 32768) (val2 h') (head2 h, prev2 h, hashval2 h)"
    and "val h' = val h" "head h' = head h" "prev h' = prev h" "hashval h' = hashval h" "same h' = same h"
  by (simp_all add: h'_def update_hash2_def Let_def case_prod_unfold)

lemma UpdateHash_fields:
  fixes array pos end' h
  defines "h' \<equiv> ZopfliUpdateHash array pos end' h"
  shows "val h' = val (UpdateHashValue (if pos + 3 \<le> end' then array ! (pos + 3 - 1) else 0) h)"
    and "(head h', prev h', hashval h') = link_slot (pos mod 32768) (val h') (head h, prev h, hashval h)"
    and "(head2 h', prev2 h', hashval2 h') = link_slot (pos mod 32768) (val2 h') (head2 h, prev2 h, hashval2 h)"
    and "same h' = (same h)(pos mod 32768 :=
      same_loop array pos end' (if same h (slot_before pos) > 1 then same h (slot_before pos) - 1 else 0))"
  unfolding h'_def ZopfliUpdateHash_def
  by (simp_all only: update_hash2_fields update_same_fields update_hash_fields)

lemma WarmupHash_fields:
  "head (ZopfliWarmupHash a p e empty_hash) = (\<lambda>_. - 1)" "head2 (ZopfliWarmupHash a p e empty_hash) = (\<lambda>_. - 1)"
  "same (ZopfliWarmupHash a p e empty_hash) = (\<lambda>_. 0)"
  by (simp_all add: ZopfliWarmupHash_def UpdateHashValue_def empty_hash_def Let_def)

lemma hash_at_chains:
  assumes "ws \<le> n"
  shows "chain_inv (hash_of array end' ws) ws n
      (head (hash_at array end' ws n), prev (hash_at array end' ws n), hashval (hash_at array end' ws n))"
    and "chain_inv (hash2_of array end' ws) ws n
      (head2 (hash_at array end' ws n), prev2 (hash_at array end' ws n), hashval2 (hash_at array end' ws n))"
  using assms
proof (induction n rule: dec_induct)
  case base
  show "chain_inv (hash_of array end' ws) ws ws
      (head (hash_at array end' ws ws), prev (hash_at array end' ws ws), hashval (hash_at array end' ws ws))"
    and "chain_inv (hash2_of array end' ws) ws ws
      (head2 (hash_at array end' ws ws), prev2 (hash_at array end' ws ws), hashval2 (hash_at array end' ws ws))"
    by (simp_all add: chain_inv_def hash_at_start WarmupHash_fields)
next
  case (step n)
  note f = UpdateHash_fields(2,3) [of array n end' "hash_at array end' ws n", folded hash_at_Suc [OF step(1)]]
  show "chain_inv (hash_of array end' ws) ws (Suc n) (head (hash_at array end' ws (Suc n)),
      prev (hash_at array end' ws (Suc n)), hashval (hash_at array end' ws (Suc n)))"
    unfolding f(1) by (rule chain_inv_step [OF step(3) step(1) refl])
  show "chain_inv (hash2_of array end' ws) ws (Suc n) (head2 (hash_at array end' ws (Suc n)),
      prev2 (hash_at array end' ws (Suc n)), hashval2 (hash_at array end' ws (Suc n)))"
    unfolding f(2) by (rule chain_inv_step [OF step(4) step(1) refl])
qed

text \<open>The position that was hashed last is the head of its chain.\<close>

lemma hash_at_head:
  assumes "ws \<le> n"
  shows "head (hash_at array end' ws (Suc n)) (hash_of array end' ws n) = int (n mod ZOPFLI_WINDOW_SIZE)"
  using UpdateHash_fields(2) [of array n end' "hash_at array end' ws n", folded hash_at_Suc [OF assms]]
  by (auto simp: link_slot_def Let_def)

text \<open>When the position before has the same hash, the link is to it.\<close>

lemma hash_at_prev:
  assumes "ws \<le> n" and "hash_of array end' ws (Suc n) = hash_of array end' ws n"
  shows "prev (hash_at array end' ws (Suc (Suc n))) (Suc n mod ZOPFLI_WINDOW_SIZE) = n mod ZOPFLI_WINDOW_SIZE"
proof -
  let ?h = "hash_at array end' ws (Suc n)"
  have le: "ws \<le> Suc n" using assms(1) by simp
  have "hashval ?h (n mod 32768) = int (hash_of array end' ws n)"
    by (rule chain_inv_hash [OF hash_at_chains(1) [OF le] assms(1)]) simp_all
  moreover have "Suc n mod 32768 \<noteq> n mod 32768" using mod_window_eq [of n "Suc n"] by auto
  ultimately show ?thesis
    using UpdateHash_fields(2) [of array "Suc n" end' ?h, folded hash_at_Suc [OF le]] hash_at_head [OF assms(1), of array end'] assms(2)
    by (simp add: link_slot_def Let_def)
qed

section \<open>Runs of equal bytes\<close>

lemma same_loop_run:
  assumes "p + k < e" and "\<forall>j \<le> k. a ! (p + j) = a ! p"
  shows "p + same_loop a p e k < e \<and> (\<forall>j \<le> same_loop a p e k. a ! (p + j) = a ! p)"
  using assms
proof (induction a p e k rule: same_loop.induct)
  case (1 a p e k)
  show ?case
  proof (cases "p + k + 1 < e \<and> a ! p = a ! (p + k + 1) \<and> k < 65535")
    case True
    then have "\<forall>j \<le> k + 1. a ! (p + j) = a ! p" using 1(3) by (auto simp: le_Suc_eq)
    then show ?thesis using 1(1) True by (subst (1 2) same_loop.simps) (simp add: add.assoc)
  next
    case False
    then have "same_loop a p e k = k" by (subst same_loop.simps) auto
    with 1 show ?thesis by simp
  qed
qed

lemma hash_at_same:
  assumes "ws \<le> n"
  shows "(\<forall>q. ws \<le> q \<and> q < n \<and> n \<le> q + ZOPFLI_WINDOW_SIZE \<longrightarrow>
      same (hash_at array end' ws n) (q mod ZOPFLI_WINDOW_SIZE) = run_of_equal array end' ws q) \<and>
    (n = ws \<longrightarrow> same (hash_at array end' ws n) = (\<lambda>_. 0))"
  using assms
proof (induction n rule: dec_induct)
  case base
  show ?case by (simp add: hash_at_start WarmupHash_fields)
next
  case (step n)
  note f = UpdateHash_fields(4) [of array n end' "hash_at array end' ws n", folded hash_at_Suc [OF step(1)]]
  have "same (hash_at array end' ws (Suc n)) (q mod 32768) = run_of_equal array end' ws q"
    if q: "ws \<le> q" "q < Suc n" "Suc n \<le> q + 32768" for q
  proof (cases "q = n")
    case False
    then have "q < n" "n \<le> q + 32768" "q mod 32768 \<noteq> n mod 32768" using q mod_window_eq [of q n] by auto
    then show ?thesis using step(3) q(1) f by simp
  qed simp
  with step(1) show ?case by auto
qed

lemma run_of_equal_sound:
  assumes "ws \<le> q" and "q < e"
  shows "q + run_of_equal a e ws q < e \<and> (\<forall>j \<le> run_of_equal a e ws q. a ! (q + j) = a ! q)"
  using assms
proof (induction q rule: dec_induct)
  case base
  have "same (hash_at a e ws ws) (slot_before ws) = 0" by (simp add: hash_at_start WarmupHash_fields)
  then show ?case
    using UpdateHash_fields(4) [of a ws e "hash_at a e ws ws", folded hash_at_Suc [OF order_refl]] same_loop_run [of ws 0 e a] base
    by simp
next
  case (step n)
  have le: "ws \<le> Suc n" using step(1) by simp
  let ?R = "run_of_equal a e ws n" and ?h = "hash_at a e ws (Suc n)"
  have "same ?h (slot_before (Suc n)) = ?R" by (simp add: slot_before_def)
  then have f: "run_of_equal a e ws (Suc n) = same_loop a (Suc n) e (if ?R > 1 then ?R - 1 else 0)"
    using UpdateHash_fields(4) [of a "Suc n" e ?h, folded hash_at_Suc [OF le]] by simp
  note IH = step(3) [OF Suc_lessD [OF step(4)]]
  have "Suc n + (if ?R > 1 then ?R - 1 else 0) < e" using IH step(4) by auto
  moreover have "a ! (Suc n + j) = a ! Suc n" if "j \<le> (if ?R > 1 then ?R - 1 else 0)" for j
  proof (cases "?R > 1")
    case True
    then have "Suc j \<le> ?R" "1 \<le> ?R" using that by auto
    then have "a ! (n + Suc j) = a ! n" "a ! (n + 1) = a ! n" using IH by blast+
    then show ?thesis by simp
  qed (use that in simp)
  ultimately show ?case unfolding f by (intro same_loop_run) auto
qed

section \<open>Hash values\<close>

text \<open>The hash is made of the last three bytes that were shifted in.\<close>

definition hash3 :: "byte \<Rightarrow> byte \<Rightarrow> byte \<Rightarrow> nat" where
  "hash3 a b c = take_bit 15 (push_bit 10 (unat a) XOR push_bit 5 (unat b) XOR unat c)"

lemma hash_mask: "x AND 32767 = take_bit 15 (x :: nat)"
  by (simp add: take_bit_eq_mod)

lemma hash_value_three:
  "val (UpdateHashValue c (UpdateHashValue b (UpdateHashValue a h))) = hash3 a b c"
  unfolding UpdateHashValue_def hash3_def hash_mask
  by (simp only: ZopfliHash.simps take_bit_xor take_bit_push_bit take_bit_take_bit push_bit_xor push_bit_push_bit)
    (simp add: take_bit_push_bit xor.assoc)

lemma hash_value_cong: "val h = val h' \<Longrightarrow> val (UpdateHashValue c h) = val (UpdateHashValue c h')"
  by (simp add: UpdateHashValue_def)

lemma hash_at_two:
  assumes "ws \<le> q" and "q + 2 \<le> e"
  shows "\<exists>h. val (hash_at a e ws q) = val (UpdateHashValue (a ! (q + 1)) (UpdateHashValue (a ! q) h))"
  using assms
proof (induction q rule: dec_induct)
  case base
  then show ?case by (auto simp: hash_at_start ZopfliWarmupHash_def Let_def)
next
  case (step n)
  then obtain h where h: "val (hash_at a e ws n) = val (UpdateHashValue (a ! (n + 1)) (UpdateHashValue (a ! n) h))" by auto
  have "val (hash_at a e ws (Suc n)) = val (UpdateHashValue (a ! (n + 2)) (hash_at a e ws n))"
    using UpdateHash_fields(1) [of a n e "hash_at a e ws n"] step(1,4) by (simp add: hash_at_Suc)
  also have "\<dots> = val (UpdateHashValue (a ! (n + 2)) (UpdateHashValue (a ! (n + 1)) (UpdateHashValue (a ! n) h)))"
    by (rule hash_value_cong [OF h])
  finally show ?case by (intro exI [of _ "UpdateHashValue (a ! n) h"]) simp
qed

lemma hash_of_bytes:
  assumes "ws \<le> q" and "q + 3 \<le> e"
  shows "hash_of a e ws q = hash3 (a ! q) (a ! (q + 1)) (a ! (q + 2))"
proof -
  obtain h where h: "val (hash_at a e ws q) = val (UpdateHashValue (a ! (q + 1)) (UpdateHashValue (a ! q) h))"
    using hash_at_two [OF assms(1), of e a] assms(2) by auto
  have "hash_of a e ws q = val (UpdateHashValue (a ! (q + 2)) (hash_at a e ws q))"
    using UpdateHash_fields(1) [of a q e "hash_at a e ws q"] assms by (simp add: hash_at_Suc)
  also have "\<dots> = hash3 (a ! q) (a ! (q + 1)) (a ! (q + 2))"
    unfolding hash_value_cong [OF h] by (rule hash_value_three)
  finally show ?thesis .
qed

lemma xor_less: "x < 2 ^ n \<Longrightarrow> y < 2 ^ n \<Longrightarrow> x XOR y < (2 :: nat) ^ n"
  by (metis take_bit_nat_eq_self take_bit_nat_less_exp take_bit_xor)

text \<open>The indices of both head arrays, which have 65536 entries.\<close>

lemma hash_indices:
  assumes "ws \<le> q"
  shows "hash_of a e ws q < 32768" and "hash2_of a e ws q < 32768"
proof -
  let ?h = "update_same a q e (update_hash a q e (hash_at a e ws q))"
  have lt: "val (UpdateHashValue c h) < 32768" for c h
    using take_bit_nat_less_exp [of 15 "push_bit 5 (val h) XOR unat c"]
    unfolding UpdateHashValue_def hash_mask by (simp del: take_bit_xor)
  show h: "hash_of a e ws q < 32768"
    using UpdateHash_fields(1) [of a q e "hash_at a e ws q"] lt assms by (simp add: hash_at_Suc)
  have "hash2_of a e ws q = nat ((int (same ?h (q mod 32768)) - 3) AND 255) XOR hash_of a e ws q"
    using assms unfolding hash_at_Suc [OF assms] ZopfliUpdateHash_def
    by (simp add: update_hash2_def Let_def case_prod_unfold)
  moreover have "nat (x AND 255) < 2 ^ 15" for x :: int
  proof -
    have "x AND 255 = take_bit 8 x" by (simp add: take_bit_eq_mask mask_eq_exp_minus_1)
    moreover have "take_bit 8 x < 2 ^ 8" by (rule take_bit_int_less_exp)
    ultimately show ?thesis by (simp add: nat_less_iff)
  qed
  ultimately show "hash2_of a e ws q < 32768"
    using h xor_less [of _ 15] by simp
qed

end
