(* ===== verification/Zopfli_Search.thy ===== *)
theory Zopfli_Search
  imports Zopfli_Hash
begin

text \<open>
  The search for the longest match (\<open>GetMatch\<close> and the loop of \<open>ZopfliFindLongestMatch\<close> in \<open>lz77.c\<close>): it follows
  the links of a hash chain from the nearest earlier position to farther ones, and changes to the
  second chain when that saves comparisons. An assertion that fails is \<open>None\<close>.

  No assertion fails; what is found is a match; and a search with a smaller limit finds a match of
  the smaller of its limit and the length that the search with the larger limit finds.
\<close>

section \<open>The code of lz77.c\<close>

text \<open>
  Comparing eight bytes at once as long as the scan position is more than eight bytes before the end,
  then the rest byte by byte. A loop that starts behind its end would not stop there: \<open>None\<close>.
\<close>

function match_words :: "byte list \<Rightarrow> nat \<Rightarrow> nat \<Rightarrow> nat \<Rightarrow> nat \<times> nat" where
  "match_words array scan mtch end' =
    (if scan + 8 < end' \<and> take 8 (drop scan array) = take 8 (drop mtch array)
     then match_words array (scan + 8) (mtch + 8) end' else (scan, mtch))"
  by pat_completeness auto

termination
  by (relation "measure (\<lambda>(_, scan, _, end'). end' - scan)") auto

declare match_words.simps [simp del]

fun match_bytes :: "byte list \<Rightarrow> nat \<Rightarrow> nat \<Rightarrow> nat \<Rightarrow> nat" where
  "match_bytes array scan mtch 0 = scan"
| "match_bytes array scan mtch (Suc left) =
    (if array ! scan = array ! mtch then match_bytes array (scan + 1) (mtch + 1) left else scan)"

definition GetMatch :: "byte list \<Rightarrow> nat \<Rightarrow> nat \<Rightarrow> nat \<Rightarrow> nat option" where
  "GetMatch array scan mtch end' =
    (case match_words array scan mtch end' of
       (scan, mtch) \<Rightarrow> if scan > end' then None else Some (match_bytes array scan mtch (end' - scan)))"

definition link_dist :: "nat \<Rightarrow> nat \<Rightarrow> nat" where
  "link_dist p pp = (if p < pp then pp - p else (ZOPFLI_WINDOW_SIZE - p) + pp)"

text \<open>The length of the match at distance \<open>dist\<close>, or 0 when the byte after the best length differs.\<close>

definition current_length :: "ZopfliHash \<Rightarrow> byte list \<Rightarrow> nat \<Rightarrow> nat \<Rightarrow> nat \<Rightarrow> nat \<Rightarrow> nat \<Rightarrow> nat option" where
  "current_length h array pos size' limit dist bestlength =
    (let mtch = pos - dist in
     if pos + bestlength \<ge> size' \<or> array ! (pos + bestlength) = array ! (mtch + bestlength) then
       let same0 = same h (pos AND ZOPFLI_WINDOW_MASK);
           skip = (if same0 > 2 \<and> array ! pos = array ! mtch then
                     let same1 = same h (mtch AND ZOPFLI_WINDOW_MASK);
                         sm = (if same0 < same1 then same0 else same1)
                     in if sm > limit then limit else sm
                   else 0)
       in map_option (\<lambda>scan. scan - pos) (GetMatch array (pos + skip) (mtch + skip) (pos + limit))
     else Some 0)"

definition fill_sublen :: "nat \<Rightarrow> nat \<Rightarrow> nat \<Rightarrow> nat list \<Rightarrow> nat list" where
  "fill_sublen dist bestlength currentlength sublen =
    fold (\<lambda>j s. s[j := dist]) [bestlength + 1..<currentlength + 1] sublen"

text \<open>
  One candidate: the best distance and length and the distances for shorter lengths, with a flag
  that the limit is reached.
\<close>

definition try_match ::
  "ZopfliHash \<Rightarrow> byte list \<Rightarrow> nat \<Rightarrow> nat \<Rightarrow> nat \<Rightarrow> nat \<Rightarrow> nat \<times> nat \<times> nat list option \<Rightarrow>
   ((nat \<times> nat \<times> nat list option) \<times> bool) option"
where
  "try_match h array pos size' limit dist = (\<lambda>(bestdist, bestlength, sublen).
     if \<not> pos < size' \<or> \<not> dist \<le> pos then None
     else
       case current_length h array pos size' limit dist bestlength of
         None \<Rightarrow> None
       | Some currentlength \<Rightarrow>
           if currentlength > bestlength then
             Some ((dist, currentlength, map_option (fill_sublen dist bestlength currentlength) sublen), currentlength \<ge> limit)
           else Some ((bestdist, bestlength, sublen), False))"

abbreviation chain_prev :: "ZopfliHash \<Rightarrow> bool \<Rightarrow> nat \<Rightarrow> nat" where
  "chain_prev h use2 \<equiv> (if use2 then prev2 h else prev h)"

abbreviation chain_hashval :: "ZopfliHash \<Rightarrow> bool \<Rightarrow> nat \<Rightarrow> int" where
  "chain_hashval h use2 \<equiv> (if use2 then hashval2 h else hashval h)"

abbreviation chain_val :: "ZopfliHash \<Rightarrow> bool \<Rightarrow> nat" where
  "chain_val h use2 \<equiv> (if use2 then val2 h else val h)"

text \<open>
  The loop over the chain; the first number is \<open>chain_counter\<close>, \<open>use2\<close> says which chain is followed.
\<close>

fun match_loop ::
  "nat \<Rightarrow> ZopfliHash \<Rightarrow> byte list \<Rightarrow> nat \<Rightarrow> nat \<Rightarrow> nat \<Rightarrow> bool \<Rightarrow> nat \<Rightarrow> nat \<Rightarrow> nat \<Rightarrow> nat \<times> nat \<times> nat list option \<Rightarrow>
   (nat \<times> nat \<times> nat list option) option"
where
  "match_loop 0 h array pos size' limit use2 pp p dist best = Some best"
| "match_loop (Suc chain_counter) h array pos size' limit use2 pp p dist best =
    (if \<not> dist < ZOPFLI_WINDOW_SIZE then Some best
     else if \<not> p < ZOPFLI_WINDOW_SIZE \<or> p \<noteq> chain_prev h use2 pp \<or>
             chain_hashval h use2 p \<noteq> int (chain_val h use2) then None
     else
       case (if dist > 0 then try_match h array pos size' limit dist best else Some (best, False)) of
         None \<Rightarrow> None
       | Some (best, reached) \<Rightarrow>
           if reached then Some best
           else
             let use2 = (use2 \<or> fst (snd best) \<ge> same h (pos AND ZOPFLI_WINDOW_MASK) \<and> int (val2 h) = hashval2 h p);
                 p' = chain_prev h use2 p
             in if p' = p then Some best
                else match_loop chain_counter h array pos size' limit use2 p p' (dist + link_dist p' p) best)"

text \<open>
  The search of \<open>ZopfliFindLongestMatch\<close> after the cache was consulted: from the check of the remaining
  bytes to the end of the loop. The limit it used is returned too.
\<close>

definition search_match ::
  "ZopfliHash \<Rightarrow> byte list \<Rightarrow> nat \<Rightarrow> nat \<Rightarrow> nat \<Rightarrow> nat list option \<Rightarrow> (nat \<times> nat \<times> nat list option) option"
where
  "search_match h array pos size' limit sublen =
    (if \<not> val h < 65536 then None
     else
       let pp = nat (head h (val h)); p = prev h pp
       in if pp \<noteq> pos AND ZOPFLI_WINDOW_MASK then None
          else match_loop 8192 h array pos size' limit False pp p (link_dist p pp) (0, 1, sublen))"

section \<open>The length of a match\<close>

definition match_length :: "byte list \<Rightarrow> nat \<Rightarrow> nat \<Rightarrow> nat \<Rightarrow> nat" where
  "match_length a i j n = length (takeWhile (\<lambda>k. a ! (i + k) = a ! (j + k)) [0..<n])"

lemma match_length_le: "match_length a i j n \<le> n"
  using length_takeWhile_le [of _ "[0..<n]"] by (simp add: match_length_def)

lemma match_length_nth: "k < match_length a i j n \<Longrightarrow> a ! (i + k) = a ! (j + k)"
proof -
  let ?P = "\<lambda>k. a ! (i + k) = a ! (j + k)"
  assume k: "k < match_length a i j n"
  then have "k < n" using match_length_le [of a i j n] by simp
  then have "takeWhile ?P [0..<n] ! k = k" using k by (simp add: match_length_def takeWhile_nth)
  then have "k \<in> set (takeWhile ?P [0..<n])" using k by (metis match_length_def nth_mem)
  then show ?thesis by (blast dest: set_takeWhileD)
qed

lemma match_length_stop: "match_length a i j n < n \<Longrightarrow> a ! (i + match_length a i j n) \<noteq> a ! (j + match_length a i j n)"
  using nth_length_takeWhile [of "\<lambda>k. a ! (i + k) = a ! (j + k)" "[0..<n]"] by (simp add: match_length_def)

lemma match_length_ge: "k \<le> n \<Longrightarrow> (\<And>l. l < k \<Longrightarrow> a ! (i + l) = a ! (j + l)) \<Longrightarrow> k \<le> match_length a i j n"
  using match_length_stop [of a i j n] by (meson le_less_trans not_less order_less_le_trans)

lemma match_length_eqI:
  assumes "m \<le> n" and "\<And>l. l < m \<Longrightarrow> a ! (i + l) = a ! (j + l)" and "m < n \<Longrightarrow> a ! (i + m) \<noteq> a ! (j + m)"
  shows "match_length a i j n = m"
  using match_length_ge [OF assms(1,2)] assms(3) match_length_nth [of m a i j n] match_length_le [of a i j n]
  by (metis le_antisym linorder_not_le le_less_trans nat_less_le)

lemma match_length_min: "k \<le> n \<Longrightarrow> match_length a i j k = min k (match_length a i j n)"
  by (rule match_length_eqI) (use match_length_nth [of _ a i j n] match_length_stop [of a i j n] in \<open>auto simp: min_def split: if_splits\<close>)

lemma match_length_skip:
  assumes "k \<le> n" and "\<And>l. l < k \<Longrightarrow> a ! (i + l) = a ! (j + l)"
  shows "k + match_length a (i + k) (j + k) (n - k) = match_length a i j n"
proof (rule match_length_eqI [symmetric])
  show "k + match_length a (i + k) (j + k) (n - k) \<le> n" using match_length_le [of a "i + k" "j + k" "n - k"] assms(1) by simp
  show "a ! (i + l) = a ! (j + l)" if "l < k + match_length a (i + k) (j + k) (n - k)" for l
  proof (cases "l < k")
    case False
    then show ?thesis using match_length_nth [of "l - k" a "i + k" "j + k" "n - k"] that by simp
  qed (rule assms(2))
  show "a ! (i + (k + match_length a (i + k) (j + k) (n - k))) \<noteq> a ! (j + (k + match_length a (i + k) (j + k) (n - k)))"
    if "k + match_length a (i + k) (j + k) (n - k) < n"
    using match_length_stop [of a "i + k" "j + k" "n - k"] that by (simp add: add.assoc)
qed

lemma match_bytes_length: "match_bytes a i j n = i + match_length a i j n"
proof (induction n arbitrary: i j)
  case (Suc n)
  show ?case
  proof (cases "a ! i = a ! j")
    case True
    then show ?thesis using Suc match_length_skip [of 1 "Suc n" a i j] by simp
  next
    case False
    then show ?thesis using match_length_eqI [of 0 "Suc n" a i j] by simp
  qed
qed (simp add: match_length_def)

lemma match_words_skips:
  assumes "scan \<le> e" and "e \<le> length a" and "mtch \<le> scan"
  shows "\<exists>k. match_words a scan mtch e = (scan + k, mtch + k) \<and> scan + k \<le> e \<and> (\<forall>l < k. a ! (scan + l) = a ! (mtch + l))"
  using assms
proof (induction a scan mtch e rule: match_words.induct)
  case (1 a scan mtch e)
  show ?case
  proof (cases "scan + 8 < e \<and> take 8 (drop scan a) = take 8 (drop mtch a)")
    case True
    then obtain k where k: "match_words a (scan + 8) (mtch + 8) e = (scan + 8 + k, mtch + 8 + k)" "scan + 8 + k \<le> e"
        "\<forall>l < k. a ! (scan + 8 + l) = a ! (mtch + 8 + l)"
      using 1 by auto
    have eight: "a ! (scan + l) = a ! (mtch + l)" if "l < 8" for l
    proof -
      have "take 8 (drop scan a) ! l = a ! (scan + l)" "take 8 (drop mtch a) ! l = a ! (mtch + l)"
        using that conjunct1 [OF True] 1(3,4) by simp_all
      with True show ?thesis by metis
    qed
    have "a ! (scan + l) = a ! (mtch + l)" if "l < 8 + k" for l
    proof (cases "l < 8")
      case False
      then have "l - 8 < k" using that by simp
      then have "a ! (scan + 8 + (l - 8)) = a ! (mtch + 8 + (l - 8))" using k(3) by blast
      then show ?thesis using False by simp
    qed (rule eight)
    moreover have "match_words a scan mtch e = (scan + (8 + k), mtch + (8 + k))"
      using k(1) True by (subst match_words.simps) (simp add: add.assoc)
    ultimately show ?thesis using k(2) by (intro exI [of _ "8 + k"]) auto
  next
    case False
    then have "match_words a scan mtch e = (scan, mtch)" by (subst match_words.simps) auto
    with 1(2) show ?thesis by (intro exI [of _ 0]) simp
  qed
qed

lemma GetMatch_length:
  assumes "scan \<le> e" and "e \<le> length a" and "mtch \<le> scan"
  shows "GetMatch a scan mtch e = Some (scan + match_length a scan mtch (e - scan))"
proof -
  obtain k where k: "match_words a scan mtch e = (scan + k, mtch + k)" "scan + k \<le> e"
      "\<forall>l < k. a ! (scan + l) = a ! (mtch + l)"
    using match_words_skips [OF assms] by blast
  have "k + match_length a (scan + k) (mtch + k) (e - scan - k) = match_length a scan mtch (e - scan)"
    by (rule match_length_skip) (use k in auto)
  then show ?thesis using k(1,2) by (simp add: GetMatch_def match_bytes_length)
qed

section \<open>Candidates\<close>

text \<open>
  The situation of a search: the hash of the window of \<open>pos\<close> has been updated up to \<open>pos\<close>, and the
  limit does not reach behind the end.
\<close>

definition search_ctx :: "ZopfliHash \<Rightarrow> byte list \<Rightarrow> nat \<Rightarrow> nat \<Rightarrow> nat \<Rightarrow> nat \<Rightarrow> bool" where
  "search_ctx h a e ws pos limit \<longleftrightarrow>
    h = hash_at a e ws (Suc pos) \<and> ws \<le> pos \<and> e \<le> length a \<and> 3 \<le> limit \<and> pos + limit \<le> e"

text \<open>A match: \<open>len\<close> bytes at \<open>pos\<close> are those \<open>dist\<close> bytes before, within the window that starts at \<open>ws\<close>.\<close>

definition is_match :: "byte list \<Rightarrow> nat \<Rightarrow> nat \<Rightarrow> nat \<Rightarrow> nat \<Rightarrow> bool" where
  "is_match a ws pos dist len \<longleftrightarrow>
    1 \<le> dist \<and> dist < ZOPFLI_WINDOW_SIZE \<and> ws + dist \<le> pos \<and> (\<forall>k < len. a ! (pos + k) = a ! (pos - dist + k))"

lemma is_match_shorter: "is_match a ws pos dist len \<Longrightarrow> l \<le> len \<Longrightarrow> is_match a ws pos dist l"
  by (auto simp: is_match_def)

lemma same_is_run:
  assumes "search_ctx h a e ws pos limit" and "ws \<le> q" and "q \<le> pos" and "pos < q + ZOPFLI_WINDOW_SIZE"
    and "k \<le> same h (q mod ZOPFLI_WINDOW_SIZE)"
  shows "a ! (q + k) = a ! q"
proof -
  have h: "h = hash_at a e ws (Suc pos)" and "q < e" using assms(1,3) by (auto simp: search_ctx_def)
  have "same h (q mod 32768) = run_of_equal a e ws q"
    using hash_at_same [of ws "Suc pos" a e] assms(2-4) h by simp
  with run_of_equal_sound [OF assms(2) \<open>q < e\<close>, of a] assms(5) show ?thesis by simp
qed

lemma current_length_eq:
  assumes ctx: "search_ctx h a e ws pos limit" and "1 \<le> dist" and "dist < ZOPFLI_WINDOW_SIZE" and "ws + dist \<le> pos"
  shows "current_length h a pos e limit dist bl =
    Some (if pos + bl \<ge> e \<or> a ! (pos + bl) = a ! (pos - dist + bl) then match_length a pos (pos - dist) limit else 0)"
proof -
  define same0 where "same0 = same h (pos mod 32768)"
  define same1 where "same1 = same h ((pos - dist) mod 32768)"
  define skip where "skip = (if same0 > 2 \<and> a ! pos = a ! (pos - dist) then
      (let sm = (if same0 < same1 then same0 else same1) in if sm > limit then limit else sm) else 0)"
  have "skip \<le> limit" by (auto simp: skip_def Let_def)
  have "a ! (pos + l) = a ! (pos - dist + l)" if "l < skip" for l
  proof -
    have l: "l \<le> same0" "l \<le> same1" "a ! pos = a ! (pos - dist)" using that by (auto simp: skip_def Let_def split: if_splits)
    have "a ! (pos + l) = a ! pos" by (rule same_is_run [OF ctx]) (use assms l same0_def in auto)
    moreover have "a ! (pos - dist + l) = a ! (pos - dist)" by (rule same_is_run [OF ctx]) (use assms l same1_def in auto)
    ultimately show ?thesis using l(3) by simp
  qed
  then have "skip + match_length a (pos + skip) (pos - dist + skip) (limit - skip) = match_length a pos (pos - dist) limit"
    using \<open>skip \<le> limit\<close> by (intro match_length_skip)
  moreover have "GetMatch a (pos + skip) (pos - dist + skip) (pos + limit) =
      Some (pos + skip + match_length a (pos + skip) (pos - dist + skip) (pos + limit - (pos + skip)))"
    by (rule GetMatch_length) (use ctx \<open>skip \<le> limit\<close> in \<open>auto simp: search_ctx_def\<close>)
  moreover have "pos + limit - (pos + skip) = limit - skip" by simp
  ultimately have "map_option (\<lambda>scan. scan - pos) (GetMatch a (pos + skip) (pos - dist + skip) (pos + limit)) =
      Some (match_length a pos (pos - dist) limit)"
    by simp
  then show ?thesis
    unfolding current_length_def Let_def window_mask same0_def [symmetric] same1_def [symmetric]
      skip_def [unfolded Let_def, symmetric] by simp
qed

text \<open>A candidate is better exactly when its match is longer.\<close>

lemma try_match_eq:
  assumes ctx: "search_ctx h a e ws pos limit" and d: "1 \<le> dist" "dist < ZOPFLI_WINDOW_SIZE" "ws + dist \<le> pos"
    and bl: "bl < limit"
  shows "try_match h a pos e limit dist (bd, bl, sub) =
    (let m = match_length a pos (pos - dist) limit in
     if m > bl then Some ((dist, m, map_option (fill_sublen dist bl m) sub), m \<ge> limit)
     else Some ((bd, bl, sub), False))"
proof -
  have lt: "pos + bl < e" "pos < e" using ctx bl by (auto simp: search_ctx_def)
  have "match_length a pos (pos - dist) limit \<le> bl" if "a ! (pos + bl) \<noteq> a ! (pos - dist + bl)"
    using match_length_nth [of bl a pos "pos - dist" limit] that by (meson not_le)
  then show ?thesis
    unfolding try_match_def current_length_eq [OF ctx d] using lt d by (auto simp: Let_def)
qed

section \<open>Following a chain\<close>

lemma link_dist_positions:
  assumes "r < q" and "q < r + ZOPFLI_WINDOW_SIZE"
  shows "link_dist (r mod ZOPFLI_WINDOW_SIZE) (q mod ZOPFLI_WINDOW_SIZE) = q - r"
proof -
  let ?W = "ZOPFLI_WINDOW_SIZE"
  define d where "d = q - r"
  have q: "q = r + d" "0 < d" "d < ?W" using assms by (auto simp: d_def)
  show ?thesis
  proof (cases "r mod ?W + d < ?W")
    case True
    then have "q mod ?W = r mod ?W + d" unfolding q(1) by (metis mod_add_left_eq mod_less)
    then show ?thesis using q by (simp add: link_dist_def)
  next
    case False
    have "q mod ?W = (r mod ?W + d) mod ?W" unfolding q(1) by (simp add: mod_add_left_eq)
    also have "\<dots> = (r mod ?W + d - ?W) mod ?W" using False by (simp add: le_mod_geq)
    also have "\<dots> = r mod ?W + d - ?W" using q(3) by (intro mod_less) (simp add: less_diff_conv2)
    finally have "q mod ?W = r mod ?W + d - ?W" .
    then show ?thesis using q False mod_less_divisor [of ?W r] by (simp add: link_dist_def)
  qed
qed

text \<open>
  Where the loop is: beyond the window, or at an earlier position with the hash of \<open>pos\<close>.
\<close>

definition chain_at :: "ZopfliHash \<Rightarrow> byte list \<Rightarrow> nat \<Rightarrow> nat \<Rightarrow> nat \<Rightarrow> bool \<Rightarrow> nat \<Rightarrow> nat \<Rightarrow> nat \<Rightarrow> bool" where
  "chain_at h a e ws pos use2 pp p dist \<longleftrightarrow>
    dist \<ge> ZOPFLI_WINDOW_SIZE \<or>
    1 \<le> dist \<and> ws + dist \<le> pos \<and> p = (pos - dist) mod ZOPFLI_WINDOW_SIZE \<and> p = chain_prev h use2 pp \<and>
    chain_hashval h use2 p = int (chain_val h use2)"

lemma chain_at_next:
  assumes ctx: "search_ctx h a e ws pos limit" and d: "d < ZOPFLI_WINDOW_SIZE" "ws + d \<le> pos"
    and p: "p = (pos - d) mod ZOPFLI_WINDOW_SIZE" and val: "chain_hashval h use2 p = int (chain_val h use2)"
    and ne: "chain_prev h use2 p \<noteq> p"
  shows "chain_at h a e ws pos use2 p (chain_prev h use2 p) (d + link_dist (chain_prev h use2 p) p)"
proof -
  let ?W = "ZOPFLI_WINDOW_SIZE"
  let ?H = "if use2 then hash2_of a e ws else hash_of a e ws"
  let ?c = "(if use2 then head2 h else head h, chain_prev h use2, chain_hashval h use2)"
  have h: "h = hash_at a e ws (Suc pos)" and ws: "ws \<le> pos" using ctx by (auto simp: search_ctx_def)
  have inv: "chain_inv ?H ws (Suc pos) ?c"
    using hash_at_chains [of ws "Suc pos" a e] ws by (cases use2) (simp_all add: h)
  define q where "q = pos - d"
  have q: "ws \<le> q" "q < Suc pos" "Suc pos \<le> q + ?W" "p = q mod ?W" using d p by (auto simp: q_def)
  obtain r where r: "ws \<le> r" "r < q" "q < r + ?W" "chain_prev h use2 p = r mod ?W" "?H r = ?H q"
    using chain_inv_link [OF inv q(1-3)] q(4) ne by auto
  have "?H q = chain_val h use2" using chain_inv_hash [OF inv q(1-3)] val q(4) by simp
  then have Hr: "?H r = chain_val h use2" using r(5) by simp
  have dist: "d + link_dist (chain_prev h use2 p) p = pos - r"
  proof -
    have "link_dist (chain_prev h use2 p) p = q - r" using link_dist_positions [OF r(2,3)] r(4) q(4) by simp
    then show ?thesis using r(2) d(2) q_def by linarith
  qed
  have "chain_hashval h use2 (r mod ?W) = int (?H r)" if "pos - r < ?W"
    by (rule chain_inv_hash [OF inv r(1)]) (use r(2) q(2) that in auto)
  then show ?thesis
    unfolding dist unfolding chain_at_def r(4) using Hr r(1,2) q(2) by auto
qed

text \<open>What the search has found so far.\<close>

definition best_ok :: "byte list \<Rightarrow> nat \<Rightarrow> nat \<Rightarrow> nat \<Rightarrow> nat \<times> nat \<times> nat list option \<Rightarrow> bool" where
  "best_ok a ws pos limit = (\<lambda>(bd, bl, sub).
     (bl = 1 \<and> bd = 0 \<or> 2 \<le> bl \<and> bl \<le> limit \<and> is_match a ws pos bd bl) \<and>
     (case sub of None \<Rightarrow> True
      | Some s \<Rightarrow> limit < length s \<and> (\<forall>j. 2 \<le> j \<and> j \<le> bl \<longrightarrow> is_match a ws pos (s ! j) j) \<and> (2 \<le> bl \<longrightarrow> s ! bl = bd)))"

lemma fill_sublen_nth:
  "j < length s \<Longrightarrow> fill_sublen d bl m s ! j = (if bl < j \<and> j \<le> m then d else s ! j)"
  and length_fill_sublen [simp]: "length (fill_sublen d bl m s) = length s"
proof -
  have len: "length (fold (\<lambda>j s. s[j := d]) js s) = length s" for js by (induction js arbitrary: s) simp_all
  then show "length (fill_sublen d bl m s) = length s" by (simp add: fill_sublen_def)
  have nth: "j < length s \<Longrightarrow> fold (\<lambda>j s. s[j := d]) js s ! j = (if j \<in> set js then d else s ! j)" for js
    by (induction js arbitrary: s) (auto simp: nth_list_update)
  show "j < length s \<Longrightarrow> fill_sublen d bl m s ! j = (if bl < j \<and> j \<le> m then d else s ! j)"
    using nth [of "[bl + 1..<m + 1]"] by (auto simp: fill_sublen_def)
qed

text \<open>The best match after one more candidate.\<close>

definition better :: "byte list \<Rightarrow> nat \<Rightarrow> nat \<Rightarrow> nat \<Rightarrow> nat \<times> nat \<times> nat list option \<Rightarrow> nat \<times> nat \<times> nat list option" where
  "better a pos limit dist = (\<lambda>(bd, bl, sub).
     let m = match_length a pos (pos - dist) limit
     in if m > bl then (dist, m, map_option (fill_sublen dist bl m) sub) else (bd, bl, sub))"

abbreviation best_length :: "nat \<times> nat \<times> nat list option \<Rightarrow> nat" where
  "best_length best \<equiv> fst (snd best)"

lemma best_length_better: "best_length (better a pos limit dist best) = max (best_length best) (match_length a pos (pos - dist) limit)"
  by (auto simp: better_def Let_def split: prod.split)

lemma best_ok_better:
  assumes ok: "best_ok a ws pos limit best" and "1 \<le> dist" "dist < ZOPFLI_WINDOW_SIZE" "ws + dist \<le> pos"
  shows "best_ok a ws pos limit (better a pos limit dist best)"
proof -
  obtain bd bl sub where best: "best = (bd, bl, sub)" by (cases best)
  define m where "m = match_length a pos (pos - dist) limit"
  show ?thesis
  proof (cases "bl < m")
    case True
    have match: "is_match a ws pos dist j" if "j \<le> m" for j
      using that match_length_nth [of _ a pos "pos - dist" limit] assms(2-4) m_def by (auto simp: is_match_def)
    have le: "m \<le> limit" using match_length_le m_def by simp
    have "2 \<le> m" using ok True best by (auto simp: best_ok_def)
    with match le ok True have "best_ok a ws pos limit (dist, m, map_option (fill_sublen dist bl m) sub)"
      unfolding best_ok_def best by (auto split: option.splits simp: fill_sublen_nth)
    then show ?thesis using True by (simp add: better_def best m_def Let_def)
  qed (use ok in \<open>simp add: better_def best m_def Let_def\<close>)
qed

section \<open>The search succeeds\<close>

text \<open>One turn of the loop: the best match so far, and where the loop is next.\<close>

definition next_use2 :: "ZopfliHash \<Rightarrow> nat \<Rightarrow> bool \<Rightarrow> nat \<Rightarrow> nat \<Rightarrow> bool" where
  "next_use2 h pos use2 p len \<longleftrightarrow>
    use2 \<or> len \<ge> same h (pos mod ZOPFLI_WINDOW_SIZE) \<and> int (val2 h) = hashval2 h p"

definition next_slot :: "ZopfliHash \<Rightarrow> nat \<Rightarrow> bool \<Rightarrow> nat \<Rightarrow> nat \<Rightarrow> nat" where
  "next_slot h pos use2 p len = chain_prev h (next_use2 h pos use2 p len) p"

lemma match_loop_turn:
  fixes h :: ZopfliHash and a e ws pos limit use2 pp p dist best
  defines "best1 \<equiv> better a pos limit dist best"
  defines "u \<equiv> next_use2 h pos use2 p (best_length best1)" and "p' \<equiv> next_slot h pos use2 p (best_length best1)"
  assumes ctx: "search_ctx h a e ws pos limit" and ch: "chain_at h a e ws pos use2 pp p dist"
    and d: "dist < ZOPFLI_WINDOW_SIZE" and lt: "best_length best < limit"
  shows "1 \<le> dist" and "ws + dist \<le> pos"
    and "match_loop (Suc n) h a pos e limit use2 pp p dist best =
      (if best_length best1 \<ge> limit \<or> p' = p then Some best1
       else match_loop n h a pos e limit u p p' (dist + link_dist p' p) best1)"
    and "p' \<noteq> p \<Longrightarrow> chain_at h a e ws pos u p p' (dist + link_dist p' p)"
proof -
  have c: "1 \<le> dist" "ws + dist \<le> pos" "p = (pos - dist) mod 32768" "p = chain_prev h use2 pp"
      "chain_hashval h use2 p = int (chain_val h use2)"
    using ch d by (auto simp: chain_at_def)
  show "1 \<le> dist" "ws + dist \<le> pos" by (fact c)+
  have p: "p < 32768" using c(3) by simp
  obtain bd bl sub where best: "best = (bd, bl, sub)" by (cases best)
  have bl: "bl < limit" using lt best by simp
  have tm: "try_match h a pos e limit dist best = Some (best1, best_length best1 \<ge> limit)"
    using try_match_eq [OF ctx c(1) d c(2) bl, of bd sub] bl by (auto simp: best best1_def better_def Let_def)
  show "match_loop (Suc n) h a pos e limit use2 pp p dist best =
      (if best_length best1 \<ge> limit \<or> p' = p then Some best1
       else match_loop n h a pos e limit u p p' (dist + link_dist p' p) best1)"
    using d c p tm by (simp add: Let_def u_def p'_def next_slot_def next_use2_def)
  have val: "chain_hashval h u p = int (chain_val h u)" using c(5) by (auto simp: u_def next_use2_def split: if_splits)
  show "p' \<noteq> p \<Longrightarrow> chain_at h a e ws pos u p p' (dist + link_dist p' p)"
    unfolding p'_def next_slot_def u_def [symmetric] by (rule chain_at_next [OF ctx d c(2,3) val])
qed

lemma match_loop_sound:
  assumes ctx: "search_ctx h a e ws pos limit"
    and "chain_at h a e ws pos use2 pp p dist" and "best_ok a ws pos limit best" and "best_length best < limit"
  shows "\<exists>best'. match_loop n h a pos e limit use2 pp p dist best = Some best' \<and> best_ok a ws pos limit best' \<and>
    best_length best \<le> best_length best'"
  using assms(2-)
proof (induction n arbitrary: use2 pp p dist best)
  case (Suc n)
  show ?case
  proof (cases "dist < ZOPFLI_WINDOW_SIZE")
    case True
    let ?b = "better a pos limit dist best"
    note turn = match_loop_turn [OF ctx Suc.prems(1) True Suc.prems(3)]
    note ok = best_ok_better [OF Suc.prems(2) turn(1) True turn(2)]
    have le: "best_length best \<le> best_length ?b" by (simp add: best_length_better)
    show ?thesis
    proof (cases "best_length ?b \<ge> limit \<or> next_slot h pos use2 p (best_length ?b) = p")
      case True
      then show ?thesis unfolding turn(3) if_P [OF True] using ok le by blast
    next
      case False
      then obtain best' where "match_loop n h a pos e limit (next_use2 h pos use2 p (best_length ?b)) p
          (next_slot h pos use2 p (best_length ?b)) (dist + link_dist (next_slot h pos use2 p (best_length ?b)) p) ?b = Some best'"
          "best_ok a ws pos limit best'" "best_length ?b \<le> best_length best'"
        using Suc.IH [OF turn(4) ok] by (meson not_le)
      then show ?thesis unfolding turn(3) if_not_P [OF False] using le by (blast intro: le_trans)
    qed
  qed (use Suc.prems in auto)
qed auto

text \<open>With a smaller limit the loop runs in step with the other one until its limit is reached.\<close>

lemma match_loop_limit:
  assumes ctx: "search_ctx h a e ws pos limit" and k: "3 \<le> k" "k \<le> limit"
    and "chain_at h a e ws pos use2 pp p dist" and "best_ok a ws pos limit best" and "best_ok a ws pos k bestk"
    and "best_length bestk = best_length best" and "best_length best < k"
    and "match_loop n h a pos e limit use2 pp p dist best = Some best'"
    and "match_loop n h a pos e k use2 pp p dist bestk = Some bestk'"
  shows "best_length bestk' = min k (best_length best')"
  using assms(4-)
proof (induction n arbitrary: use2 pp p dist best bestk)
  case (Suc n)
  have ctxk: "search_ctx h a e ws pos k" using ctx k by (simp add: search_ctx_def)
  show ?case
  proof (cases "dist < ZOPFLI_WINDOW_SIZE")
    case True
    have lt: "best_length best < limit" "best_length bestk < k" using Suc.prems(4,5) k by simp_all
    note tl = match_loop_turn [OF ctx Suc.prems(1) True lt(1)]
    note tk = match_loop_turn [OF ctxk Suc.prems(1) True lt(2)]
    note okl = best_ok_better [OF Suc.prems(2) tl(1) True tl(2)]
    note okk = best_ok_better [OF Suc.prems(3) tl(1) True tl(2)]
    let ?m = "match_length a pos (pos - dist) limit" and ?b = "better a pos limit dist best" and ?bk = "better a pos k dist bestk"
    have mk: "match_length a pos (pos - dist) k = min k ?m" by (rule match_length_min [OF k(2)])
    show ?thesis
    proof (cases "k \<le> ?m")
      case True
      then have "best_length ?bk = k" using mk lt(2) by (simp add: best_length_better)
      then have stop: "best_length ?bk \<ge> k \<or> next_slot h pos use2 p (best_length ?bk) = p" by simp
      have "best_length bestk' = k" using Suc.prems(7) \<open>best_length ?bk = k\<close> unfolding tk(3) if_P [OF stop] by simp
      moreover have "k \<le> best_length ?b" using True by (simp add: best_length_better)
      moreover have "best_length ?b \<le> best_length best'"
      proof (cases "best_length ?b \<ge> limit \<or> next_slot h pos use2 p (best_length ?b) = p")
        case True
        then show ?thesis using Suc.prems(6) unfolding tl(3) if_P [OF True] by simp
      next
        case False
        then have "next_slot h pos use2 p (best_length ?b) \<noteq> p" "best_length ?b < limit" by simp_all
        from match_loop_sound [OF ctx tl(4) [OF this(1)] okl this(2), of n] show ?thesis
          using Suc.prems(6) unfolding tl(3) if_not_P [OF False] by auto
      qed
      ultimately show ?thesis by simp
    next
      case False
      then have eq: "best_length ?bk = best_length ?b" "best_length ?b < k"
        using mk Suc.prems(4,5) k by (simp_all add: best_length_better)
      then have nl: "\<not> best_length ?b \<ge> limit" "\<not> best_length ?bk \<ge> k" using k by simp_all
      show ?thesis
      proof (cases "next_slot h pos use2 p (best_length ?b) = p")
        case True
        then show ?thesis using Suc.prems(6,7) eq nl unfolding tl(3) tk(3) by simp
      next
        case False
        show ?thesis
          by (rule Suc.IH [OF tl(4) [OF False] okl okk eq]) (use Suc.prems(6,7) eq nl False in \<open>simp_all add: tl(3) tk(3) del: match_loop.simps\<close>)
      qed
    qed
  qed (use Suc.prems in auto)
qed auto

section \<open>The whole search\<close>

lemma search_start:
  assumes ctx: "search_ctx h a e ws pos limit"
  defines "pp \<equiv> pos mod ZOPFLI_WINDOW_SIZE"
  shows "search_match h a pos e limit sub =
      match_loop 8192 h a pos e limit False pp (prev h pp) (link_dist (prev h pp) pp) (0, 1, sub)"
    and "chain_at h a e ws pos False pp (prev h pp) (link_dist (prev h pp) pp)"
proof -
  have h: "h = hash_at a e ws (Suc pos)" and ws: "ws \<le> pos" using ctx by (auto simp: search_ctx_def)
  have "val h < 65536" using hash_indices(1) [OF ws, of a e] h by simp
  moreover have "head h (val h) = int pp" using hash_at_head [OF ws, of a e] h by (simp add: pp_def)
  ultimately show "search_match h a pos e limit sub =
      match_loop 8192 h a pos e limit False pp (prev h pp) (link_dist (prev h pp) pp) (0, 1, sub)"
    by (simp add: search_match_def Let_def pp_def del: match_loop.simps)
  have val: "chain_hashval h False pp = int (chain_val h False)"
    unfolding pp_def using chain_inv_hash [OF hash_at_chains(1) [of ws "Suc pos" a e], of pos] ws h by simp
  show "chain_at h a e ws pos False pp (prev h pp) (link_dist (prev h pp) pp)"
  proof (cases "prev h pp = pp")
    case True
    then show ?thesis by (simp add: chain_at_def link_dist_def pp_def)
  next
    case False
    then show ?thesis using chain_at_next [OF ctx, of 0 pp False] val ws by (simp add: pp_def)
  qed
qed

definition sublen_fits :: "nat \<Rightarrow> nat list option \<Rightarrow> bool" where
  "sublen_fits limit sub \<longleftrightarrow> (case sub of None \<Rightarrow> True | Some s \<Rightarrow> limit < length s)"

lemma best_ok_start: "sublen_fits limit sub \<Longrightarrow> best_ok a ws pos limit (0, 1, sub)"
  by (auto simp: best_ok_def sublen_fits_def split: option.split)

lemma search_match_sound:
  assumes ctx: "search_ctx h a e ws pos limit" and "sublen_fits limit sub"
  shows "\<exists>best. search_match h a pos e limit sub = Some best \<and> best_ok a ws pos limit best"
proof -
  have "best_length (0 :: nat, 1 :: nat, sub) < limit" using ctx by (simp add: search_ctx_def)
  from match_loop_sound [OF ctx search_start(2) [OF ctx] best_ok_start [OF assms(2)] this, of 8192] show ?thesis
    unfolding search_start(1) [OF ctx] by blast
qed

lemma search_match_limit:
  assumes ctx: "search_ctx h a e ws pos limit" and k: "3 \<le> k" "k \<le> limit" and fits: "sublen_fits limit sub" "sublen_fits k subk"
    and res: "search_match h a pos e limit sub = Some best" "search_match h a pos e k subk = Some bestk"
  shows "best_length bestk = min k (best_length best)"
proof -
  have ctxk: "search_ctx h a e ws pos k" using ctx k by (simp add: search_ctx_def)
  show ?thesis
    by (rule match_loop_limit [OF ctx k search_start(2) [OF ctx] best_ok_start [OF fits(1)] best_ok_start [OF fits(2)]
          _ _ res [unfolded search_start(1) [OF ctx] search_start(1) [OF ctxk]]])
      (use k in simp_all)
qed

text \<open>Inside a run of equal bytes the search stops at distance 1 with the longest possible match.\<close>

lemma search_match_repeat:
  assumes ctx: "search_ctx h a e ws pos limit" and "ws < pos" and "\<And>j. j \<le> limit \<Longrightarrow> a ! (pos - 1 + j) = a ! (pos - 1)"
    and res: "search_match h a pos e limit sub = Some best"
  shows "best_length best = limit"
proof -
  have h: "h = hash_at a e ws (Suc pos)" and lim: "3 \<le> limit" "pos + limit \<le> e" using ctx by (auto simp: search_ctx_def)
  obtain n where n: "pos = Suc n" "ws \<le> n" using assms(2) by (cases pos) auto
  have b: "a ! (n + j) = a ! n" if "j \<le> limit" for j using assms(3) [OF that] n(1) by simp
  have eq: "a ! (n + 1) = a ! n" "a ! (n + 2) = a ! n" "a ! (n + 3) = a ! n"
    using b [of 1] b [of 2] b [of 3] lim by simp_all
  have "hash_of a e ws (Suc n) = hash3 (a ! n) (a ! n) (a ! n)"
    using hash_of_bytes [of ws "Suc n" e a] n lim eq by (simp add: numeral_eq_Suc)
  moreover have "hash_of a e ws n = hash3 (a ! n) (a ! n) (a ! n)"
    using hash_of_bytes [of ws n e a] n lim eq by (simp add: numeral_eq_Suc)
  ultimately have prev: "prev h (pos mod 32768) = n mod 32768"
    using hash_at_prev [OF n(2), of a e] h n(1) by simp
  then have dist: "link_dist (prev h (pos mod 32768)) (pos mod 32768) = 1"
    using link_dist_positions [of n pos] n(1) by simp
  have "match_length a pos (pos - 1) limit = limit"
  proof (rule match_length_eqI)
    fix l assume "l < limit"
    then show "a ! (pos + l) = a ! (pos - 1 + l)" using b [of "Suc l"] b [of l] n(1) by simp
  qed simp_all
  then have "best_length (better a pos limit 1 (0, 1, sub)) = limit" using lim by (simp add: best_length_better)
  moreover have "search_match h a pos e limit sub = Some (better a pos limit 1 (0, 1, sub))"
  proof -
    have ch: "chain_at h a e ws pos False (pos mod 32768) (prev h (pos mod 32768)) 1"
      using search_start(2) [OF ctx] dist by simp
    have stop: "limit \<le> best_length (better a pos limit 1 (0, 1, sub)) \<or> q" for q
      using \<open>best_length (better a pos limit 1 (0, 1, sub)) = limit\<close> by simp
    have "match_loop (Suc 8191) h a pos e limit False (pos mod 32768) (prev h (pos mod 32768)) 1 (0, 1, sub) =
        Some (better a pos limit 1 (0, 1, sub))"
      by (subst match_loop_turn(3) [OF ctx ch]) (use lim stop in simp_all)
    then show ?thesis unfolding search_start(1) [OF ctx] dist by (simp del: match_loop.simps)
  qed
  ultimately show ?thesis using res by simp
qed

end
