(* ===== verification/Zopfli_Cache.thy ===== *)
theory Zopfli_Cache
  imports Zopfli_Hash
begin

text \<open>
  The cache of longest matches (\<open>cache.c\<close>): for each position of a block the length and distance of the
  longest match and, in eight entries of three bytes, the distances of shorter matches. The pointer
  \<open>cache\<close> of the code, to the entries of one position, is that part of the array; what is
  written through it is put back. A failed assertion is \<open>None\<close>; memory is assumed to suffice.

  Entries that are written are read back as matches, and other positions are not changed.
\<close>

section \<open>The code of cache.c\<close>

abbreviation (input) ZOPFLI_CACHE_LENGTH :: nat where "ZOPFLI_CACHE_LENGTH \<equiv> 8"

record ZopfliLongestMatchCache =
  lmc_length :: "nat list"
  lmc_dist :: "nat list"
  lmc_sublen :: "byte list"

definition ZopfliInitCache :: "nat \<Rightarrow> ZopfliLongestMatchCache" where
  "ZopfliInitCache blocksize =
    \<lparr>lmc_length = replicate blocksize 1, lmc_dist = replicate blocksize 0,
     lmc_sublen = replicate (ZOPFLI_CACHE_LENGTH * blocksize * 3) 0\<rparr>"

definition cache_slot :: "ZopfliLongestMatchCache \<Rightarrow> nat \<Rightarrow> byte list" where
  "cache_slot lmc pos = take (ZOPFLI_CACHE_LENGTH * 3) (drop (ZOPFLI_CACHE_LENGTH * pos * 3) (lmc_sublen lmc))"

definition put_slot :: "nat \<Rightarrow> byte list \<Rightarrow> ZopfliLongestMatchCache \<Rightarrow> ZopfliLongestMatchCache" where
  "put_slot pos cache lmc = lmc\<lparr>lmc_sublen :=
     take (ZOPFLI_CACHE_LENGTH * pos * 3) (lmc_sublen lmc) @ cache @
     drop (ZOPFLI_CACHE_LENGTH * pos * 3 + ZOPFLI_CACHE_LENGTH * 3) (lmc_sublen lmc)\<rparr>"

definition max_cached :: "byte list \<Rightarrow> nat" where
  "max_cached cache =
    (if cache ! 1 = 0 \<and> cache ! 2 = 0 then 0 else unat (cache ! ((ZOPFLI_CACHE_LENGTH - 1) * 3)) + 3)"

definition ZopfliMaxCachedSublen :: "ZopfliLongestMatchCache \<Rightarrow> nat \<Rightarrow> nat" where
  "ZopfliMaxCachedSublen lmc pos = max_cached (cache_slot lmc pos)"

text \<open>The loop that writes entries: the number of entries, the last length and the bytes.\<close>

fun to_cache :: "nat list \<Rightarrow> nat \<Rightarrow> nat list \<Rightarrow> nat \<Rightarrow> nat \<Rightarrow> byte list \<Rightarrow> nat \<times> nat \<times> byte list" where
  "to_cache sublen len [] j bestlength cache = (j, bestlength, cache)"
| "to_cache sublen len (i # is) j bestlength cache =
    (if i = len \<or> sublen ! i \<noteq> sublen ! (i + 1) then
       let cache = cache[j * 3 := of_nat (i - 3), j * 3 + 1 := of_nat (sublen ! i mod 256),
                         j * 3 + 2 := of_nat (sublen ! i div 256 mod 256)]
       in if j + 1 \<ge> ZOPFLI_CACHE_LENGTH then (j + 1, i, cache)
          else to_cache sublen len is (j + 1) i cache
     else to_cache sublen len is j bestlength cache)"

definition ZopfliSublenToCache ::
  "nat list \<Rightarrow> nat \<Rightarrow> nat \<Rightarrow> ZopfliLongestMatchCache \<Rightarrow> ZopfliLongestMatchCache option" where
  "ZopfliSublenToCache sublen pos len lmc =
    (if len < 3 then Some lmc
     else
       case to_cache sublen len [3..<len + 1] 0 0 (cache_slot lmc pos) of
         (j, bestlength, cache) \<Rightarrow>
           if j < ZOPFLI_CACHE_LENGTH \<and> bestlength \<noteq> len then None
           else if \<not> bestlength \<le> len then None
           else
             let cache = (if j < ZOPFLI_CACHE_LENGTH then cache[(ZOPFLI_CACHE_LENGTH - 1) * 3 := of_nat (bestlength - 3)] else cache);
                 lmc = put_slot pos cache lmc
             in if bestlength = ZopfliMaxCachedSublen lmc pos then Some lmc else None)"

text \<open>The loop that reads entries.\<close>

fun from_cache :: "byte list \<Rightarrow> nat \<Rightarrow> nat list \<Rightarrow> nat \<Rightarrow> nat list \<Rightarrow> nat list" where
  "from_cache cache maxlength [] prevlength sublen = sublen"
| "from_cache cache maxlength (j # js) prevlength sublen =
    (let len = unat (cache ! (j * 3)) + 3;
         dist = unat (cache ! (j * 3 + 1)) + 256 * unat (cache ! (j * 3 + 2));
         sublen = fold (\<lambda>i s. s[i := dist]) [prevlength..<len + 1] sublen
     in if len = maxlength then sublen else from_cache cache maxlength js (len + 1) sublen)"

definition ZopfliCacheToSublen :: "ZopfliLongestMatchCache \<Rightarrow> nat \<Rightarrow> nat \<Rightarrow> nat list \<Rightarrow> nat list" where
  "ZopfliCacheToSublen lmc pos len sublen =
    (let maxlength = ZopfliMaxCachedSublen lmc pos
     in if len < 3 then sublen
        else from_cache (cache_slot lmc pos) maxlength [0..<ZOPFLI_CACHE_LENGTH] 0 sublen)"

section \<open>Entries\<close>

definition entry_length :: "byte list \<Rightarrow> nat \<Rightarrow> nat" where
  "entry_length cache k = unat (cache ! (k * 3)) + 3"

definition entry_dist :: "byte list \<Rightarrow> nat \<Rightarrow> nat" where
  "entry_dist cache k = unat (cache ! (k * 3 + 1)) + 256 * unat (cache ! (k * 3 + 2))"

text \<open>
  The first \<open>n\<close> entries: valid pairs of distance and length, with increasing lengths.
\<close>

definition entries_ok :: "(nat \<Rightarrow> nat \<Rightarrow> bool) \<Rightarrow> nat \<Rightarrow> byte list \<Rightarrow> bool" where
  "entries_ok V n cache \<longleftrightarrow>
    length cache = 24 \<and> n \<le> 8 \<and> (\<forall>k < n. V (entry_dist cache k) (entry_length cache k)) \<and>
    (\<forall>k. Suc k < n \<longrightarrow> entry_length cache k < entry_length cache (Suc k))"

lemma byte_pair:
  assumes "d < 65536"
  shows "unat (of_nat (d mod 256) :: byte) + 256 * unat (of_nat (d div 256 mod 256) :: byte) = d"
proof -
  have "d div 256 < 256" using assms by simp
  then show ?thesis by (simp add: unat_of_nat)
qed

lemma write_entry:
  assumes "entries_ok V j cache" and "j < 8" and "3 \<le> i" "i \<le> 258" "d < 65536" and "V d i"
    and "j = 0 \<or> entry_length cache (j - 1) < i"
  defines "cache' \<equiv> cache[j * 3 := of_nat (i - 3), j * 3 + 1 := of_nat (d mod 256), j * 3 + 2 := of_nat (d div 256 mod 256)]"
  shows "entries_ok V (Suc j) cache'" and "entry_length cache' j = i" and "entry_dist cache' j = d"
proof -
  have len: "length cache = 24" using assms(1) by (simp add: entries_ok_def)
  have old: "entry_length cache' k = entry_length cache k" "entry_dist cache' k = entry_dist cache k" if "k < j" for k
    using that by (simp_all add: entry_length_def entry_dist_def cache'_def)
  have "unat (of_nat (i - 3) :: byte) = i - 3" using assms(4) by (simp add: unat_of_nat)
  then show l: "entry_length cache' j = i" using assms(2,3) len by (simp add: entry_length_def cache'_def)
  show d: "entry_dist cache' j = d"
    using byte_pair [OF assms(5)] assms(2) len by (simp add: entry_dist_def cache'_def)
  have "entry_length cache' k < entry_length cache' (Suc k)" if "Suc k < Suc j" for k
  proof (cases "Suc k = j")
    case True
    then show ?thesis using assms(7) old l by auto
  next
    case False
    then show ?thesis using that old assms(1) by (simp add: entries_ok_def)
  qed
  moreover have "V (entry_dist cache' k) (entry_length cache' k)" if "k < Suc j" for k
    using that old l d assms(1,6) by (cases "k = j") (simp_all add: entries_ok_def)
  ultimately show "entries_ok V (Suc j) cache'"
    using assms(2) len by (simp add: entries_ok_def cache'_def)
qed

lemma to_cache_ok:
  assumes "entries_ok V j cache" and "j < 8" and "j = 0 \<and> best = 0 \<or> 0 < j \<and> entry_length cache (j - 1) = best \<and> entry_dist cache (j - 1) = s ! best"
    and "3 \<le> a" and "best < a" and "a \<le> len" and "len \<le> 258"
    and V: "\<And>i. 3 \<le> i \<Longrightarrow> i \<le> len \<Longrightarrow> V (s ! i) i \<and> s ! i < 65536"
    and res: "to_cache s len [a..<len + 1] j best cache = (j', best', cache')"
  shows "entries_ok V j' cache' \<and> 0 < j' \<and> entry_length cache' (j' - 1) = best' \<and> entry_dist cache' (j' - 1) = s ! best' \<and>
    3 \<le> best' \<and> best' \<le> len \<and> (j' < 8 \<longrightarrow> best' = len)"
  using assms(1-6) res
proof (induction "len - a" arbitrary: a j best cache)
  case 0
  then have a: "a = len" by simp
  then have up: "[a..<len + 1] = [len]" by simp
  have j: "j = 0 \<or> entry_length cache (j - 1) < len" using 0(4,6) a by auto
  note w = write_entry [OF 0(2,3) _ assms(7) _ _ j, of "s ! len"]
  show ?case
    using 0(8) w V [of len] 0(5) a unfolding up by (auto simp: Let_def split: if_splits)
next
  case (Suc n)
  then have lt: "a < len" by simp
  then have up: "[a..<len + 1] = a # [Suc a..<len + 1]" by (simp add: upt_conv_Cons)
  have j: "j = 0 \<or> entry_length cache (j - 1) < a" using Suc(5,7) by auto
  have a258: "a \<le> 258" using lt assms(7) by simp
  note va = V [OF Suc(6) less_imp_le [OF lt]]
  note w = write_entry [OF Suc(3,4,6) a258 conjunct2 [OF va] conjunct1 [OF va] j]
  show ?case
  proof (cases "s ! a = s ! (a + 1)")
    case True
    have res: "to_cache s len [Suc a..<len + 1] j best cache = (j', best', cache')"
      using Suc(9) True lt unfolding up by (simp del: upt_Suc)
    show ?thesis
      by (rule Suc(1) [OF _ Suc(3,4,5) _ _ _ res]) (use Suc(2,6,7) lt in auto)
  next
    case False
    let ?c = "cache[j * 3 := of_nat (a - 3), j * 3 + 1 := of_nat (s ! a mod 256), j * 3 + 2 := of_nat (s ! a div 256 mod 256)]"
    show ?thesis
    proof (cases "j + 1 \<ge> 8")
      case True
      then have "(j', best', cache') = (j + 1, a, ?c)" using Suc(9) False unfolding up by (auto simp: Let_def)
      then show ?thesis using w True Suc(6) lt by auto
    next
      case nb: False
      then have res: "to_cache s len [Suc a..<len + 1] (Suc j) a ?c = (j', best', cache')"
        using Suc(9) False unfolding up by (simp add: Let_def)
      show ?thesis
        by (rule Suc(1) [OF _ w(1) _ _ _ _ _ res]) (use Suc(2,6) lt nb w(2,3) in auto)
    qed
  qed
qed

section \<open>Reading entries\<close>

lemma fold_update_nth:
  "j < length s \<Longrightarrow> fold (\<lambda>i s. s[i := d]) js s ! j = (if j \<in> set js then d else s ! j)"
  and length_fold_update [simp]: "length (fold (\<lambda>i s. s[i := d]) js s) = length s"
  by (induction js arbitrary: s) (auto simp: nth_list_update)

text \<open>Reading stops at the entry with the largest length, and has filled all lengths up to it.\<close>

lemma entries_increasing:
  assumes "entries_ok V n cache" and "k < l" and "l < n"
  shows "entry_length cache k < entry_length cache l"
  using assms(2,3)
proof (induction l)
  case (Suc l)
  have "entry_length cache l < entry_length cache (Suc l)" using assms(1) Suc.prems(2) by (simp add: entries_ok_def)
  with Suc show ?case by (cases "k = l") auto
qed simp

lemma from_cache_valid:
  assumes ok: "entries_ok V n cache" and max: "entry_length cache (n - 1) = maxlength" "maxlength \<le> 258"
    and shorter: "\<And>d l l'. V d l \<Longrightarrow> l' \<le> l \<Longrightarrow> V d l'"
    and "k < n" and "p \<le> entry_length cache k" and "length s = 259" and "\<And>i. i < p \<Longrightarrow> 3 \<le> i \<Longrightarrow> V (s ! i) i"
  shows "length (from_cache cache maxlength [k..<8] p s) = 259 \<and>
    (\<forall>i. 3 \<le> i \<and> i \<le> maxlength \<longrightarrow> V (from_cache cache maxlength [k..<8] p s ! i) i) \<and>
    from_cache cache maxlength [k..<8] p s ! maxlength = entry_dist cache (n - 1)"
  using assms(5-)
proof (induction "n - k" arbitrary: k p s)
  case (Suc m)
  let ?len = "entry_length cache k" and ?d = "entry_dist cache k"
  define s1 where "s1 = fold (\<lambda>i s. s[i := ?d]) [p..<?len + 1] s"
  have "n \<le> 8" using ok by (simp add: entries_ok_def)
  then have up: "[k..<8] = k # [Suc k..<8]" using Suc.prems(1) by (simp add: upt_conv_Cons del: upt_rec_numeral)
  have last: "k = n - 1 \<or> k < n - 1" using Suc.prems(1) by linarith
  then have le: "?len \<le> maxlength" using entries_increasing [OF ok, of k "n - 1"] Suc.prems(1) max by fastforce
  have Vk: "V ?d ?len" using ok Suc.prems(1) by (simp add: entries_ok_def)
  have s': "V (s1 ! i) i" if "i < ?len + 1" "3 \<le> i" for i
    using that Suc.prems(3,4) shorter [OF Vk, of i] le max(2) by (auto simp: s1_def fold_update_nth simp del: upt_Suc)
  have s1: "length s1 = 259" "s1 ! ?len = ?d"
    using Suc.prems(2,3) le max(2) by (simp_all add: s1_def fold_update_nth del: upt_Suc)
  have step: "from_cache cache maxlength [k..<8] p s =
      (if ?len = maxlength then s1 else from_cache cache maxlength [Suc k..<8] (?len + 1) s1)"
    unfolding up s1_def from_cache.simps Let_def entry_length_def entry_dist_def ..
  show ?case
  proof (cases "?len = maxlength")
    case True
    then have "k = n - 1" using last entries_increasing [OF ok, of k "n - 1"] Suc.prems(1) max(1) by fastforce
    then show ?thesis unfolding step using True s' s1 by simp
  next
    case False
    then have k: "Suc k < n" using max(1) Suc.prems(1) by (cases "k = n - 1") auto
    then have "?len + 1 \<le> entry_length cache (Suc k)" using ok by (simp add: entries_ok_def Suc_le_eq)
    then show ?thesis unfolding step using Suc.hyps(1) [of "Suc k" "?len + 1" s1] Suc.hyps(2) k False s' s1(1)
      by (simp del: upt_rec_numeral)
  qed
qed simp

section \<open>The slots of positions\<close>

lemma put_slot_same:
  assumes "length cache = 24" and "8 * pos * 3 + 24 \<le> length (lmc_sublen lmc)"
  shows "cache_slot (put_slot pos cache lmc) pos = cache"
  using assms by (simp add: cache_slot_def put_slot_def)

lemma put_slot_other:
  assumes "length cache = 24" and "8 * pos * 3 + 24 \<le> length (lmc_sublen lmc)" and "q \<noteq> pos"
  shows "cache_slot (put_slot pos cache lmc) q = cache_slot lmc q"
proof (rule nth_equalityI)
  have len: "length (lmc_sublen (put_slot pos cache lmc)) = length (lmc_sublen lmc)"
    using assms(1,2) by (simp add: put_slot_def)
  then show "length (cache_slot (put_slot pos cache lmc) q) = length (cache_slot lmc q)" by (simp add: cache_slot_def)
  fix i
  assume "i < length (cache_slot (put_slot pos cache lmc) q)"
  then have i: "i < 24" "8 * q * 3 + i < length (lmc_sublen lmc)" using len by (auto simp: cache_slot_def)
  have "lmc_sublen (put_slot pos cache lmc) ! (8 * q * 3 + i) = lmc_sublen lmc ! (8 * q * 3 + i)"
  proof (cases "q < pos")
    case True
    then have "8 * q * 3 + i < 8 * pos * 3" using i(1) by simp
    then show ?thesis using assms(2) by (simp add: put_slot_def nth_append)
  next
    case False
    then have "8 * pos * 3 + 24 \<le> 8 * q * 3 + i" using assms(3) by simp
    then obtain r where "8 * q * 3 + i = 8 * pos * 3 + 24 + r" by (metis le_iff_add)
    then show ?thesis using assms(1,2) i(2) by (simp add: put_slot_def nth_append)
  qed
  then show "cache_slot (put_slot pos cache lmc) q ! i = cache_slot lmc q ! i"
    using i len by (simp add: cache_slot_def)
qed

section \<open>What is stored is read back\<close>

text \<open>
  The entries of a position with a longest match of \<open>len\<close> bytes at distance \<open>dist\<close>: all of them are
  valid, and if they reach up to \<open>len\<close> the last one is the longest match.
\<close>

definition slot_ok :: "(nat \<Rightarrow> nat \<Rightarrow> bool) \<Rightarrow> byte list \<Rightarrow> nat \<Rightarrow> nat \<Rightarrow> bool" where
  "slot_ok V cache len dist \<longleftrightarrow>
    (\<exists>n > 0. entries_ok V n cache \<and> max_cached cache = entry_length cache (n - 1) \<and>
      max_cached cache \<le> len \<and> (max_cached cache = len \<longrightarrow> entry_dist cache (n - 1) = dist))"

lemma slot_room: "pos < n \<Longrightarrow> length (lmc_sublen lmc) = 24 * n \<Longrightarrow> 8 * pos * 3 + 24 \<le> length (lmc_sublen lmc)"
  by simp

lemma entry_dist_nonzero: "0 < entry_dist cache 0 \<Longrightarrow> \<not> (cache ! 1 = 0 \<and> cache ! 2 = 0)"
  by (auto simp: entry_dist_def numeral_2_eq_2)

lemma finished_slot:
  assumes ok: "entries_ok V j cache" and "0 < j" and "entry_length cache (j - 1) = best" and "best \<le> 258"
    and pos: "\<And>d l. V d l \<Longrightarrow> 0 < d"
  defines "cache' \<equiv> (if j < 8 then cache[(8 - 1) * 3 := of_nat (best - 3)] else cache)"
  shows "entries_ok V j cache'" and "entry_length cache' (j - 1) = best" and "entry_dist cache' (j - 1) = entry_dist cache (j - 1)"
    and "max_cached cache' = best"
proof -
  have len: "length cache = 24" "j \<le> 8" using ok by (simp_all add: entries_ok_def)
  have eq: "entry_length cache' k = entry_length cache k" "entry_dist cache' k = entry_dist cache k" if "k < j" for k
    using that by (simp_all add: cache'_def entry_length_def entry_dist_def)
  show e: "entries_ok V j cache'" using ok eq len by (auto simp: entries_ok_def cache'_def)
  show "entry_length cache' (j - 1) = best" "entry_dist cache' (j - 1) = entry_dist cache (j - 1)" using eq assms(2,3) by simp_all
  have "V (entry_dist cache' 0) (entry_length cache' 0)" using e assms(2) by (simp add: entries_ok_def)
  then have nz: "\<not> (cache' ! 1 = 0 \<and> cache' ! 2 = 0)" using pos by (intro entry_dist_nonzero) blast
  have b3: "3 \<le> best" using assms(3) by (auto simp: entry_length_def)
  have "unat (cache' ! 21) + 3 = best"
  proof (cases "j < 8")
    case True
    have "unat (of_nat (best - 3) :: byte) = best - 3" using assms(4) by (simp add: unat_of_nat)
    then show ?thesis using True len b3 by (simp add: cache'_def)
  next
    case False
    then have "j = 8" using len by simp
    then show ?thesis using assms(3) by (simp add: cache'_def entry_length_def)
  qed
  then show "max_cached cache' = best" using nz by (simp add: max_cached_def)
qed

lemma SublenToCache_ok:
  assumes "3 \<le> len" and "len \<le> 258" and V: "\<And>i. 3 \<le> i \<Longrightarrow> i \<le> len \<Longrightarrow> V (s ! i) i \<and> s ! i < 65536"
    and pos: "\<And>d l. V d l \<Longrightarrow> 0 < d" and room: "8 * p * 3 + 24 \<le> length (lmc_sublen lmc)"
  obtains cache where "ZopfliSublenToCache s p len lmc = Some (put_slot p cache lmc)" and "length cache = 24"
    and "slot_ok V cache len (s ! len)"
proof -
  obtain j best cache where t: "to_cache s len [3..<len + 1] 0 0 (cache_slot lmc p) = (j, best, cache)"
    by (cases "to_cache s len [3..<len + 1] 0 0 (cache_slot lmc p)")
  have start: "entries_ok V 0 (cache_slot lmc p)" using room by (simp add: entries_ok_def cache_slot_def)
  have w: "entries_ok V j cache" "0 < j" "entry_length cache (j - 1) = best" "entry_dist cache (j - 1) = s ! best"
      "3 \<le> best" "best \<le> len" "j < 8 \<longrightarrow> best = len"
    using to_cache_ok [OF start _ _ _ _ assms(1,2) V t] by auto
  define cache' where "cache' = (if j < 8 then cache[(8 - 1) * 3 := of_nat (best - 3)] else cache)"
  have b: "best \<le> 258" using w(6) assms(2) by simp
  note f = finished_slot [OF w(1-3) b pos, folded cache'_def]
  have len': "length cache' = 24" using f(1) by (simp add: entries_ok_def)
  have "ZopfliMaxCachedSublen (put_slot p cache' lmc) p = best"
    using f(4) by (simp add: ZopfliMaxCachedSublen_def put_slot_same [OF len' room])
  then have "ZopfliSublenToCache s p len lmc = Some (put_slot p cache' lmc)"
    using assms(1) w(6,7) t by (auto simp: ZopfliSublenToCache_def Let_def cache'_def)
  moreover have "slot_ok V cache' len (s ! len)"
    using f w by (auto simp: slot_ok_def intro!: exI [of _ j])
  ultimately show thesis using len' that by blast
qed

lemma CacheToSublen_ok:
  assumes ok: "slot_ok V (cache_slot lmc p) len dist" and "len \<le> 258" and "3 \<le> l"
    and shorter: "\<And>d l l'. V d l \<Longrightarrow> l' \<le> l \<Longrightarrow> V d l'" and "length s = 259"
  shows "length (ZopfliCacheToSublen lmc p l s) = 259"
    and "\<And>i. 3 \<le> i \<Longrightarrow> i \<le> ZopfliMaxCachedSublen lmc p \<Longrightarrow> V (ZopfliCacheToSublen lmc p l s ! i) i"
    and "ZopfliMaxCachedSublen lmc p = len \<Longrightarrow> ZopfliCacheToSublen lmc p l s ! len = dist"
proof -
  let ?c = "cache_slot lmc p" and ?m = "ZopfliMaxCachedSublen lmc p"
  obtain n where n: "0 < n" "entries_ok V n ?c" "entry_length ?c (n - 1) = ?m" "?m \<le> len"
      "?m = len \<longrightarrow> entry_dist ?c (n - 1) = dist"
    using ok by (auto simp: slot_ok_def ZopfliMaxCachedSublen_def)
  have "?m \<le> 258" using n(4) assms(2) by simp
  note f = from_cache_valid [where p = 0, OF n(2,3) this shorter n(1) _ assms(5)]
  have eq: "ZopfliCacheToSublen lmc p l s = from_cache ?c ?m [0..<8] 0 s"
    using assms(3) by (simp add: ZopfliCacheToSublen_def Let_def del: upt_rec_numeral)
  show "length (ZopfliCacheToSublen lmc p l s) = 259"
    and "\<And>i. 3 \<le> i \<Longrightarrow> i \<le> ?m \<Longrightarrow> V (ZopfliCacheToSublen lmc p l s ! i) i"
    and "?m = len \<Longrightarrow> ZopfliCacheToSublen lmc p l s ! len = dist"
    unfolding eq using f n(5) by (auto simp del: upt_rec_numeral)
qed

end
