(* ===== verification/Zopfli_Match.thy ===== *)
theory Zopfli_Match
  imports Zopfli_Search Zopfli_Cache
begin

text \<open>
  The match finder with its cache (\<open>ZopfliInitBlockState\<close>, \<open>GetLengthScore\<close>, \<open>ZopfliVerifyLenDist\<close>,
  \<open>TryGetFromLongestMatchCache\<close>, \<open>StoreInLongestMatchCache\<close> and \<open>ZopfliFindLongestMatch\<close> of \<open>lz77.c\<close>). The array
  \<open>sublen\<close> that a caller may pass is an optional list; a failed assertion is \<open>None\<close>.

  With or without cached values the finder returns a match of the same length, which depends on
  the data, the window and the limit only.
\<close>

section \<open>The code of lz77.c\<close>

record ZopfliBlockState =
  lmc :: "ZopfliLongestMatchCache option"
  blockstart :: nat
  blockend :: nat

definition ZopfliInitBlockState :: "nat \<Rightarrow> nat \<Rightarrow> bool \<Rightarrow> ZopfliBlockState" where
  "ZopfliInitBlockState bstart bend add_lmc =
    \<lparr>lmc = (if add_lmc then Some (ZopfliInitCache (bend - bstart)) else None), blockstart = bstart, blockend = bend\<rparr>"

definition GetLengthScore :: "int \<Rightarrow> int \<Rightarrow> int" where
  "GetLengthScore len distance = (if distance > 1024 then len - 1 else len)"

text \<open>\<open>False\<close> when an assertion fails.\<close>

definition ZopfliVerifyLenDist :: "byte list \<Rightarrow> nat \<Rightarrow> nat \<Rightarrow> nat \<Rightarrow> nat \<Rightarrow> bool" where
  "ZopfliVerifyLenDist dat datasize pos dist len \<longleftrightarrow>
    pos + len \<le> datasize \<and> (\<forall>i \<in> {0..<len}. dat ! (pos - dist + i) = dat ! (pos + i))"

definition cache_available :: "ZopfliLongestMatchCache \<Rightarrow> nat \<Rightarrow> bool" where
  "cache_available c lmcpos \<longleftrightarrow> lmc_length c ! lmcpos = 0 \<or> lmc_dist c ! lmcpos \<noteq> 0"

text \<open>\<open>Inl\<close> the limit for the search, or \<open>Inr\<close> the distance, the length and the shorter distances.\<close>

definition TryGetFromLongestMatchCache ::
  "ZopfliBlockState \<Rightarrow> nat \<Rightarrow> nat \<Rightarrow> nat list option \<Rightarrow> (nat + nat \<times> nat \<times> nat list option) option"
where
  "TryGetFromLongestMatchCache s pos limit sublen =
    (case lmc s of
       None \<Rightarrow> Some (Inl limit)
     | Some c \<Rightarrow>
         let lmcpos = pos - blockstart s;
             limit_ok_for_cache = (cache_available c lmcpos \<and>
               (limit = ZOPFLI_MAX_MATCH \<or> lmc_length c ! lmcpos \<le> limit \<or>
                sublen \<noteq> None \<and> ZopfliMaxCachedSublen c lmcpos \<ge> limit))
         in if limit_ok_for_cache \<and> cache_available c lmcpos then
              if sublen = None \<or> lmc_length c ! lmcpos \<le> ZopfliMaxCachedSublen c lmcpos then
                let len = lmc_length c ! lmcpos;
                    len = (if len > limit then limit else len)
                in case sublen of
                     None \<Rightarrow> Some (Inr (lmc_dist c ! lmcpos, len, None))
                   | Some sl \<Rightarrow>
                       let sl = ZopfliCacheToSublen c lmcpos len sl;
                           distance = sl ! len
                       in if limit = ZOPFLI_MAX_MATCH \<and> len \<ge> ZOPFLI_MIN_MATCH \<and> sl ! len \<noteq> lmc_dist c ! lmcpos
                          then None else Some (Inr (distance, len, Some sl))
              else Some (Inl (lmc_length c ! lmcpos))
            else Some (Inl limit))"

definition StoreInLongestMatchCache ::
  "ZopfliBlockState \<Rightarrow> nat \<Rightarrow> nat \<Rightarrow> nat list option \<Rightarrow> nat \<Rightarrow> nat \<Rightarrow> ZopfliBlockState option" where
  "StoreInLongestMatchCache s pos limit sublen distance len =
    (case (lmc s, sublen) of
       (Some c, Some sl) \<Rightarrow>
         let lmcpos = pos - blockstart s
         in if limit = ZOPFLI_MAX_MATCH \<and> \<not> cache_available c lmcpos then
              if \<not> (lmc_length c ! lmcpos = 1 \<and> lmc_dist c ! lmcpos = 0) then None
              else
                let c = c\<lparr>lmc_dist := (lmc_dist c)[lmcpos := (if len < ZOPFLI_MIN_MATCH then 0 else distance)],
                          lmc_length := (lmc_length c)[lmcpos := (if len < ZOPFLI_MIN_MATCH then 0 else len)]\<rparr>
                in if lmc_length c ! lmcpos = 1 \<and> lmc_dist c ! lmcpos = 0 then None
                   else map_option (\<lambda>c. s\<lparr>lmc := Some c\<rparr>) (ZopfliSublenToCache sl lmcpos len c)
            else Some s
     | _ \<Rightarrow> Some s)"

text \<open>The new state of the block, distance, length and shorter distances.\<close>

definition ZopfliFindLongestMatch ::
  "ZopfliBlockState \<Rightarrow> ZopfliHash \<Rightarrow> byte list \<Rightarrow> nat \<Rightarrow> nat \<Rightarrow> nat \<Rightarrow> nat list option \<Rightarrow>
   (ZopfliBlockState \<times> nat \<times> nat \<times> nat list option) option"
where
  "ZopfliFindLongestMatch s h array pos size' limit sublen =
    (case TryGetFromLongestMatchCache s pos limit sublen of
       None \<Rightarrow> None
     | Some (Inr (distance, len, sublen)) \<Rightarrow> if pos + len \<le> size' then Some (s, distance, len, sublen) else None
     | Some (Inl limit) \<Rightarrow>
         if \<not> limit \<le> ZOPFLI_MAX_MATCH \<or> \<not> limit \<ge> ZOPFLI_MIN_MATCH \<or> \<not> pos < size' then None
         else if size' - pos < ZOPFLI_MIN_MATCH then Some (s, 0, 0, sublen)
         else
           let limit = (if pos + limit > size' then size' - pos else limit)
           in case search_match h array pos size' limit sublen of
                None \<Rightarrow> None
              | Some (bestdist, bestlength, sublen) \<Rightarrow>
                  (case StoreInLongestMatchCache s pos limit sublen bestdist bestlength of
                     None \<Rightarrow> None
                   | Some s \<Rightarrow>
                       if bestlength \<le> limit \<and> pos + bestlength \<le> size'
                       then Some (s, bestdist, bestlength, sublen) else None))"

section \<open>The length of the longest match\<close>

text \<open>What a search with the largest possible limit finds at a position.\<close>

definition full_length :: "byte list \<Rightarrow> nat \<Rightarrow> nat \<Rightarrow> nat \<Rightarrow> nat" where
  "full_length a e ws pos =
    (if e - pos < 3 then 0
     else case search_match (hash_at a e ws (Suc pos)) a pos e (min 258 (e - pos)) None of
            None \<Rightarrow> 0 | Some (d, l, sub) \<Rightarrow> l)"

lemma search_full:
  assumes "ws \<le> pos" and "e \<le> length a" and "3 \<le> k" and "k \<le> 258" and "pos + k \<le> e" and "sublen_fits k sub"
  obtains d l sub' where "search_match (hash_at a e ws (Suc pos)) a pos e k sub = Some (d, l, sub')"
    and "best_ok a ws pos k (d, l, sub')" and "l = min k (full_length a e ws pos)"
proof -
  let ?h = "hash_at a e ws (Suc pos)" and ?L = "min 258 (e - pos)"
  have L: "3 \<le> ?L" "k \<le> ?L" using assms(3-5) by auto
  have ctx: "search_ctx ?h a e ws pos ?L" using assms(1,2) L by (auto simp: search_ctx_def)
  have ctxk: "search_ctx ?h a e ws pos k" using assms by (simp add: search_ctx_def)
  have none: "sublen_fits ?L None" by (simp add: sublen_fits_def)
  obtain best where b: "search_match ?h a pos e ?L None = Some best" using search_match_sound [OF ctx none] by blast
  obtain bestk where bk: "search_match ?h a pos e k sub = Some bestk" "best_ok a ws pos k bestk"
    using search_match_sound [OF ctxk assms(6)] by blast
  have "best_length bestk = min k (best_length best)"
    by (rule search_match_limit [OF ctx assms(3) L(2) none assms(6) b bk(1)])
  moreover have "best_length best = full_length a e ws pos"
    using b L by (auto simp: full_length_def split: prod.split)
  ultimately show thesis using bk that by (cases bestk) auto
qed

lemma full_length_le: "e \<le> length a \<Longrightarrow> ws \<le> pos \<Longrightarrow> full_length a e ws pos \<le> min 258 (e - pos)"
proof (cases "e - pos < 3")
  case False
  assume "e \<le> length a" "ws \<le> pos"
  let ?L = "min 258 (e - pos)"
  have "search_ctx (hash_at a e ws (Suc pos)) a e ws pos ?L" "sublen_fits ?L None"
    using False \<open>e \<le> length a\<close> \<open>ws \<le> pos\<close> by (auto simp: search_ctx_def sublen_fits_def)
  from search_match_sound [OF this] False show ?thesis
    by (auto simp: full_length_def best_ok_def split: prod.splits)
qed (simp add: full_length_def)

section \<open>The invariant of the cache\<close>

definition entry_inv :: "byte list \<Rightarrow> nat \<Rightarrow> nat \<Rightarrow> nat \<Rightarrow> nat \<Rightarrow> nat \<Rightarrow> byte list \<Rightarrow> bool" where
  "entry_inv a e ws pos len dist cache \<longleftrightarrow>
    len = 1 \<and> dist = 0 \<and> max_cached cache = 0 \<or>
    len = 0 \<and> dist = 0 \<and> max_cached cache = 0 \<and> full_length a e ws pos < 3 \<or>
    3 \<le> len \<and> len = full_length a e ws pos \<and> is_match a ws pos dist len \<and> slot_ok (is_match a ws pos) cache len dist"

definition state_inv :: "byte list \<Rightarrow> nat \<Rightarrow> nat \<Rightarrow> ZopfliBlockState \<Rightarrow> bool" where
  "state_inv a e ws s \<longleftrightarrow>
    blockend s = e \<and> ws \<le> blockstart s \<and> blockstart s \<le> e \<and>
    (case lmc s of None \<Rightarrow> True
     | Some c \<Rightarrow>
         length (lmc_length c) = e - blockstart s \<and> length (lmc_dist c) = e - blockstart s \<and>
         length (lmc_sublen c) = 24 * (e - blockstart s) \<and>
         (\<forall>p < e - blockstart s.
            entry_inv a e ws (blockstart s + p) (lmc_length c ! p) (lmc_dist c ! p) (cache_slot c p)))"

lemma InitBlockState_inv:
  assumes "ws \<le> bs" and "bs \<le> e"
  shows "state_inv a e ws (ZopfliInitBlockState bs e add)"
proof -
  have "max_cached (cache_slot (ZopfliInitCache (e - bs)) p) = 0" if "p < e - bs" for p
    using that by (simp add: max_cached_def cache_slot_def ZopfliInitCache_def)
  then show ?thesis
    using assms by (auto simp: state_inv_def ZopfliInitBlockState_def ZopfliInitCache_def entry_inv_def)
qed

lemma state_inv_entry:
  assumes "state_inv a e ws s" and "lmc s = Some c" and "blockstart s \<le> pos" and "pos < e"
  shows "entry_inv a e ws pos (lmc_length c ! (pos - blockstart s)) (lmc_dist c ! (pos - blockstart s))
      (cache_slot c (pos - blockstart s))"
proof -
  have "pos - blockstart s < e - blockstart s" "blockstart s + (pos - blockstart s) = pos" using assms(3,4) by auto
  with assms(1,2) show ?thesis unfolding state_inv_def by (metis (no_types, lifting) option.simps(5))
qed

lemma is_match_facts: "is_match a ws pos d l \<Longrightarrow> 0 < d \<and> d < 65536"
  by (simp add: is_match_def)

lemma state_inv_update:
  assumes inv: "state_inv a e ws s" and c: "lmc s = Some c" and pos: "blockstart s \<le> pos" "pos < e"
    and c': "lmc_length c' = (lmc_length c)[pos - blockstart s := len]" "lmc_dist c' = (lmc_dist c)[pos - blockstart s := dist]"
      "length (lmc_sublen c') = length (lmc_sublen c)"
    and other: "\<And>q. q \<noteq> pos - blockstart s \<Longrightarrow> cache_slot c' q = cache_slot c q"
    and new: "entry_inv a e ws pos len dist (cache_slot c' (pos - blockstart s))"
  shows "state_inv a e ws (s\<lparr>lmc := Some c'\<rparr>)"
proof -
  have lt: "pos - blockstart s < e - blockstart s" using pos by auto
  have "entry_inv a e ws (blockstart s + p) (lmc_length c' ! p) (lmc_dist c' ! p) (cache_slot c' p)"
    if "p < e - blockstart s" for p
  proof (cases "p = pos - blockstart s")
    case True
    then show ?thesis using new c' lt inv c pos by (simp add: state_inv_def)
  next
    case False
    then show ?thesis using inv c that c' other by (simp add: state_inv_def)
  qed
  then show ?thesis using inv c c' by (simp add: state_inv_def)
qed

lemma StoreInLongestMatchCache_inv:
  assumes inv: "state_inv a e ws s" and pos: "blockstart s \<le> pos" "pos < e"
    and best: "best_ok a ws pos limit (d, l, sub)" and full: "limit = 258 \<Longrightarrow> l = full_length a e ws pos"
  shows "\<exists>s'. StoreInLongestMatchCache s pos limit sub d l = Some s' \<and> state_inv a e ws s' \<and> blockstart s' = blockstart s"
proof (cases "\<exists>c sl. lmc s = Some c \<and> sub = Some sl \<and> limit = 258 \<and> \<not> cache_available c (pos - blockstart s)")
  case False
  then have "StoreInLongestMatchCache s pos limit sub d l = Some s"
    by (auto simp: StoreInLongestMatchCache_def Let_def split: option.split)
  with inv show ?thesis by simp
next
  case True
  then obtain c sl where c: "lmc s = Some c" and sl: "sub = Some sl" "limit = 258" and na: "\<not> cache_available c (pos - blockstart s)"
    by blast
  let ?p = "pos - blockstart s"
  have lt: "?p < e - blockstart s" using pos by auto
  have lens: "length (lmc_length c) = e - blockstart s" "length (lmc_dist c) = e - blockstart s"
      "length (lmc_sublen c) = 24 * (e - blockstart s)"
    using inv c by (simp_all add: state_inv_def)
  have unset: "lmc_length c ! ?p = 1" "lmc_dist c ! ?p = 0" "max_cached (cache_slot c ?p) = 0"
    using state_inv_entry [OF inv c pos] na by (auto simp: entry_inv_def cache_available_def dest: is_match_facts)
  define c1 where "c1 = c\<lparr>lmc_dist := (lmc_dist c)[?p := (if l < 3 then 0 else d)],
      lmc_length := (lmc_length c)[?p := (if l < 3 then 0 else l)]\<rparr>"
  have store: "StoreInLongestMatchCache s pos limit sub d l = map_option (\<lambda>c. s\<lparr>lmc := Some c\<rparr>) (ZopfliSublenToCache sl ?p l c1)"
    using c sl na unset lens lt by (simp add: StoreInLongestMatchCache_def Let_def c1_def)
  have c1: "lmc_length c1 = (lmc_length c)[?p := (if l < 3 then 0 else l)]" "lmc_dist c1 = (lmc_dist c)[?p := (if l < 3 then 0 else d)]"
      "lmc_sublen c1 = lmc_sublen c"
    by (simp_all add: c1_def)
  have slot1: "cache_slot c1 q = cache_slot c q" for q by (simp add: cache_slot_def c1(3))
  show ?thesis
  proof (cases "l < 3")
    case True
    have "state_inv a e ws (s\<lparr>lmc := Some c1\<rparr>)"
      by (rule state_inv_update [OF inv c pos c1(1,2)]) (use True full sl unset slot1 c1(3) in \<open>auto simp: entry_inv_def\<close>)
    then show ?thesis using store True by (simp add: ZopfliSublenToCache_def)
  next
    case False
    have b: "is_match a ws pos d l" "l \<le> 258" "\<And>j. 2 \<le> j \<Longrightarrow> j \<le> l \<Longrightarrow> is_match a ws pos (sl ! j) j" "sl ! l = d"
      using best False sl by (auto simp: best_ok_def)
    have room: "8 * ?p * 3 + 24 \<le> length (lmc_sublen c1)" using lt lens c1(3) by simp
    have V: "is_match a ws pos (sl ! i) i \<and> sl ! i < 65536" if "3 \<le> i" "i \<le> l" for i
      using b(3) [of i] is_match_facts [of a ws pos "sl ! i" i] that by simp
    obtain cache where w: "ZopfliSublenToCache sl ?p l c1 = Some (put_slot ?p cache c1)" "length cache = 24"
        "slot_ok (is_match a ws pos) cache l (sl ! l)"
      by (rule SublenToCache_ok [where V = "is_match a ws pos" and s = sl, OF _ b(2) V _ room]) (use False is_match_facts in auto)
    have "state_inv a e ws (s\<lparr>lmc := Some (put_slot ?p cache c1)\<rparr>)"
    proof (rule state_inv_update [OF inv c pos])
      show "lmc_length (put_slot ?p cache c1) = (lmc_length c)[?p := l]" "lmc_dist (put_slot ?p cache c1) = (lmc_dist c)[?p := d]"
        using False c1 by (simp_all add: put_slot_def)
      show "length (lmc_sublen (put_slot ?p cache c1)) = length (lmc_sublen c)"
        using room w(2) c1(3) by (simp add: put_slot_def)
      show "cache_slot (put_slot ?p cache c1) q = cache_slot c q" if "q \<noteq> ?p" for q
        using put_slot_other [OF w(2) room that] slot1 by simp
      show "entry_inv a e ws pos l d (cache_slot (put_slot ?p cache c1) ?p)"
        using False b(1,4) w(3) full sl by (simp add: entry_inv_def put_slot_same [OF w(2) room])
    qed
    then show ?thesis using store w(1) by simp
  qed
qed

section \<open>What the match finder returns\<close>

definition found :: "byte list \<Rightarrow> nat \<Rightarrow> nat \<Rightarrow> nat \<Rightarrow> nat \<Rightarrow> nat \<Rightarrow> nat \<Rightarrow> bool" where
  "found a e ws pos limit d l \<longleftrightarrow>
    pos + l \<le> e \<and>
    (if full_length a e ws pos < 3 then l < 3
     else l = min limit (full_length a e ws pos) \<and> is_match a ws pos d l)"

definition sublen_found :: "byte list \<Rightarrow> nat \<Rightarrow> nat \<Rightarrow> nat \<Rightarrow> nat list option \<Rightarrow> nat list option \<Rightarrow> bool" where
  "sublen_found a ws pos l sub sub' \<longleftrightarrow>
    (case sub of None \<Rightarrow> sub' = None
     | Some _ \<Rightarrow> \<exists>sl. sub' = Some sl \<and> length sl = 259 \<and> (\<forall>j. 3 \<le> j \<and> j \<le> l \<longrightarrow> is_match a ws pos (sl ! j) j))"

lemma fill_sublen_length_loop:
  "match_loop n h a pos e limit use2 pp p dist best = Some (d, l, sub') \<Longrightarrow>
   map_option length (snd (snd best)) = map_option length sub'"
proof (induction n arbitrary: use2 pp p dist best)
  case (Suc n)
  have try_len: "map_option length (snd (snd b')) = map_option length (snd (snd b))"
    if "try_match h a pos e limit dist b = Some (b', r)" for b b' r
    using that by (auto simp: try_match_def option.map_comp comp_def split: prod.splits if_splits option.splits)
  show ?case
    using Suc.prems by (auto simp: Let_def split: if_splits option.splits prod.splits dest!: Suc.IH try_len)
qed auto

lemma search_sublen_length:
  "search_match h a pos e limit sub = Some (d, l, sub') \<Longrightarrow> map_option length sub = map_option length sub'"
  using fill_sublen_length_loop by (fastforce simp: search_match_def Let_def split: if_splits)

lemma find_by_search:
  assumes inv: "state_inv a e ws s" and pos: "blockstart s \<le> pos" "pos < e" and len: "e \<le> length a"
    and lim: "3 \<le> limit" "limit \<le> 258" and sub: "\<And>sl. sub = Some sl \<Longrightarrow> length sl = 259"
    and miss: "TryGetFromLongestMatchCache s pos limit0 sub = Some (Inl limit)"
    and same: "full_length a e ws pos \<ge> 3 \<Longrightarrow> min limit0 (full_length a e ws pos) = min limit (full_length a e ws pos)"
  shows "\<exists>s' d l sub'. ZopfliFindLongestMatch s (hash_at a e ws (Suc pos)) a pos e limit0 sub = Some (s', d, l, sub') \<and>
    state_inv a e ws s' \<and> blockstart s' = blockstart s \<and> found a e ws pos limit0 d l \<and> sublen_found a ws pos l sub sub'"
proof -
  have ws: "ws \<le> pos" using inv pos by (auto simp: state_inv_def)
  show ?thesis
  proof (cases "e - pos < 3")
    case True
    then have "full_length a e ws pos = 0" by (simp add: full_length_def)
    then show ?thesis
      using miss lim pos True inv sub
      by (auto simp: ZopfliFindLongestMatch_def found_def sublen_found_def split: option.split)
  next
    case False
    define k where "k = (if pos + limit > e then e - pos else limit)"
    have k: "3 \<le> k" "k \<le> 258" "pos + k \<le> e" using False lim by (auto simp: k_def)
    have fits: "sublen_fits k sub" using sub k(2) by (auto simp: sublen_fits_def split: option.split)
    obtain d l sub' where r: "search_match (hash_at a e ws (Suc pos)) a pos e k sub = Some (d, l, sub')"
        "best_ok a ws pos k (d, l, sub')" "l = min k (full_length a e ws pos)"
      by (rule search_full [OF ws len k fits])
    note fl = full_length_le [OF len ws]
    have l: "l = min limit (full_length a e ws pos)" using r(3) fl by (auto simp: k_def)
    obtain s' where s': "StoreInLongestMatchCache s pos k sub' d l = Some s'" "state_inv a e ws s'" "blockstart s' = blockstart s"
      using StoreInLongestMatchCache_inv [OF inv pos r(2)] r(3) fl by (metis min.absorb2 min.boundedE)
    have le: "l \<le> k" "pos + l \<le> e" using r(3) k(3) by auto
    have "ZopfliFindLongestMatch s (hash_at a e ws (Suc pos)) a pos e limit0 sub = Some (s', d, l, sub')"
      using miss lim pos False r(1) s'(1) le by (simp add: ZopfliFindLongestMatch_def Let_def k_def [symmetric])
    moreover have "found a e ws pos limit0 d l"
      using le(2) l same r(2) lim by (auto simp: found_def best_ok_def)
    moreover have "sublen_found a ws pos l sub sub'"
    proof (cases sub)
      case None
      then show ?thesis using search_sublen_length [OF r(1)] by (simp add: sublen_found_def)
    next
      case (Some sl)
      then obtain sl' where "sub' = Some sl'" "length sl' = 259" using search_sublen_length [OF r(1)] sub by (cases sub') auto
      then show ?thesis using Some r(2) by (auto simp: sublen_found_def best_ok_def)
    qed
    ultimately show ?thesis using s'(2,3) by blast
  qed
qed

lemma FindLongestMatch_finds:
  assumes inv: "state_inv a e ws s" and pos: "blockstart s \<le> pos" "pos < e" and len: "e \<le> length a"
    and lim: "3 \<le> limit" "limit \<le> 258" and sub: "\<And>sl. sub = Some sl \<Longrightarrow> length sl = 259 \<and> limit = 258"
  shows "\<exists>s' d l sub'. ZopfliFindLongestMatch s (hash_at a e ws (Suc pos)) a pos e limit sub = Some (s', d, l, sub') \<and>
    state_inv a e ws s' \<and> blockstart s' = blockstart s \<and> found a e ws pos limit d l \<and> sublen_found a ws pos l sub sub'"
proof -
  have ws: "ws \<le> pos" using inv pos by (auto simp: state_inv_def)
  note fl = full_length_le [OF len ws]
  let ?p = "pos - blockstart s" and ?full = "full_length a e ws pos"
  have sub': "\<And>sl. sub = Some sl \<Longrightarrow> length sl = 259" using sub by blast
  show ?thesis
  proof (cases "\<exists>c. lmc s = Some c \<and> cache_available c ?p \<and> (limit = 258 \<or> lmc_length c ! ?p \<le> limit)")
    case False
    have "TryGetFromLongestMatchCache s pos limit sub = Some (Inl limit)"
      using False sub by (auto simp: TryGetFromLongestMatchCache_def Let_def split: option.split)
    from find_by_search [OF inv pos len lim sub' this] show ?thesis by simp
  next
    case True
    then obtain c where c: "lmc s = Some c" "cache_available c ?p" and ok: "limit = 258 \<or> lmc_length c ! ?p \<le> limit" by blast
    let ?len = "lmc_length c ! ?p" and ?dist = "lmc_dist c ! ?p"
    have entry: "?len = 0 \<and> ?dist = 0 \<and> max_cached (cache_slot c ?p) = 0 \<and> ?full < 3 \<or>
        3 \<le> ?len \<and> ?len = ?full \<and> is_match a ws pos ?dist ?len \<and> slot_ok (is_match a ws pos) (cache_slot c ?p) ?len ?dist"
      using state_inv_entry [OF inv c(1) pos] c(2) by (auto simp: entry_inv_def cache_available_def)
    have le: "?len \<le> limit" "?len \<le> 258" "pos + ?len \<le> e" using ok fl entry pos lim(2) by auto
    have fd: "found a e ws pos limit ?dist ?len" using entry le by (auto simp: found_def)
    show ?thesis
    proof (cases sub)
      case None
      then have "TryGetFromLongestMatchCache s pos limit sub = Some (Inr (?dist, ?len, None))"
        using c ok le by (simp add: TryGetFromLongestMatchCache_def Let_def)
      then show ?thesis
        using inv fd le None by (simp add: ZopfliFindLongestMatch_def sublen_found_def)
    next
      case (Some sl)
      then have lim258: "limit = 258" and sl: "length sl = 259" using sub by simp_all
      show ?thesis
      proof (cases "?len \<le> ZopfliMaxCachedSublen c ?p")
        case False
        then have l3: "3 \<le> ?len" using entry by auto
        then have full: "?len = ?full" using entry by auto
        have "TryGetFromLongestMatchCache s pos limit sub = Some (Inl ?len)"
          using c Some lim258 False by (simp add: TryGetFromLongestMatchCache_def Let_def)
        from find_by_search [OF inv pos len l3 le(2) sub' this] show ?thesis using le full by simp
      next
        case True
        define sl' where "sl' = ZopfliCacheToSublen c ?p ?len sl"
        have f: "length sl' = 259 \<and> (3 \<le> ?len \<longrightarrow> sl' ! ?len = ?dist) \<and>
            (\<forall>j. 3 \<le> j \<and> j \<le> ?len \<longrightarrow> is_match a ws pos (sl' ! j) j)"
        proof (cases "3 \<le> ?len")
          case True
          then have so: "slot_ok (is_match a ws pos) (cache_slot c ?p) ?len ?dist" using entry by auto
          note r = CacheToSublen_ok [OF so le(2) True is_match_shorter sl, folded sl'_def]
          have "ZopfliMaxCachedSublen c ?p = ?len"
            using so \<open>?len \<le> ZopfliMaxCachedSublen c ?p\<close> by (auto simp: slot_ok_def ZopfliMaxCachedSublen_def)
          with r show ?thesis by simp
        next
          case False
          then have "?len = 0" using entry by auto
          then show ?thesis using sl by (simp add: sl'_def ZopfliCacheToSublen_def)
        qed
        have "TryGetFromLongestMatchCache s pos limit sub = Some (Inr (sl' ! ?len, ?len, Some sl'))"
          using c Some lim258 True le f by (simp add: TryGetFromLongestMatchCache_def Let_def sl'_def [symmetric])
        moreover have "found a e ws pos limit (sl' ! ?len) ?len"
          using fd f entry by (auto simp: found_def)
        ultimately show ?thesis
          using inv le f Some by (simp add: ZopfliFindLongestMatch_def sublen_found_def)
      qed
    qed
  qed
qed

end
