(* ===== verification/Zopfli_Parse.thy ===== *)
theory Zopfli_Parse
  imports Zopfli_Match Zopfli_Encode
begin

text \<open>
  What the LZ77 commands of a store stand for. A \<^emph>\<open>path\<close> is a list of commands with their positions
  that leads from one position of the data to another, such that each command reproduces the bytes
  it spans; a reference decoder expands its commands to these bytes.

  The locale \<open>match_finder\<close> states what the parsers rely on when they call the match finder; it is
  interpreted with \<open>ZopfliFindLongestMatch\<close>.
\<close>

section \<open>Paths\<close>

definition step_ok :: "byte list \<Rightarrow> nat \<Rightarrow> nat \<times> nat \<Rightarrow> bool" where
  "step_ok a p c \<longleftrightarrow>
    p + command_length c \<le> length a \<and>
    (if snd c = 0 then fst c = unat (a ! p) else 3 \<le> fst c \<and> fst c \<le> 258 \<and> is_match a 0 p (snd c) (fst c))"

fun path :: "byte list \<Rightarrow> nat \<Rightarrow> ((nat \<times> nat) \<times> nat) list \<Rightarrow> nat \<Rightarrow> bool" where
  "path a p [] q \<longleftrightarrow> p = q"
| "path a p ((c, i) # xs) q \<longleftrightarrow> i = p \<and> step_ok a p c \<and> path a (p + command_length c) xs q"

lemma path_append: "path a p (xs @ ys) q \<longleftrightarrow> (\<exists>m. path a p xs m \<and> path a m ys q)"
  by (induction a p xs q arbitrary: q rule: path.induct) auto

lemma command_length_pos: "step_ok a p c \<Longrightarrow> 0 < command_length c"
  by (auto simp: step_ok_def command_length_def split: if_splits)

lemma path_length: "path a p xs q \<Longrightarrow> p + length xs \<le> q"
proof (induction a p xs q rule: path.induct)
  case (2 a p c i xs q)
  then show ?case using command_length_pos [of a p c] by auto
qed simp

lemma path_end: "path a p xs q \<Longrightarrow> p \<le> length a \<Longrightarrow> q \<le> length a"
  by (induction a p xs q rule: path.induct) (auto simp: step_ok_def)

lemma is_match_from_start: "is_match a ws p d l \<Longrightarrow> is_match a 0 p d l"
  by (auto simp: is_match_def)

lemma step_command: "step_ok a p c \<Longrightarrow> deflate_command c"
  using unsigned_less [of "a ! p", where ?'a = nat]
  by (auto simp: step_ok_def deflate_command_def is_match_def split: if_splits)

lemma path_commands: "path a p xs q \<Longrightarrow> c \<in> set (map fst xs) \<Longrightarrow> deflate_command c"
  by (induction a p xs q rule: path.induct) (auto dest: step_command)

section \<open>Expansion\<close>

text \<open>The decoder of RFC 1951: a match copies byte by byte, so it may overlap its own output.\<close>

primrec copy_match :: "nat \<Rightarrow> nat \<Rightarrow> byte list \<Rightarrow> byte list" where
  "copy_match 0 d outp = outp"
| "copy_match (Suc n) d outp = copy_match n d (outp @ [outp ! (length outp - d)])"

fun expand_commands :: "byte list \<Rightarrow> (nat \<times> nat) list \<Rightarrow> byte list option" where
  "expand_commands outp [] = Some outp"
| "expand_commands outp ((l, d) # cs) =
    (if d = 0 then (if l < 256 then expand_commands (outp @ [of_nat l]) cs else None)
     else if d \<le> length outp then expand_commands (copy_match l d outp) cs else None)"

lemma take_Suc_nth: "p < length a \<Longrightarrow> take p a @ [a ! p] = take (Suc p) a"
  by (simp add: take_Suc_conv_app_nth)

lemma copy_match_take:
  assumes "p + n \<le> length a" and "1 \<le> d" and "d \<le> p" and "\<forall>k < n. a ! (p + k) = a ! (p - d + k)"
  shows "copy_match n d (take p a) = take (p + n) a"
  using assms
proof (induction n arbitrary: p)
  case (Suc n)
  have "take p a ! (length (take p a) - d) = a ! p" using Suc.prems by (auto dest: spec [of _ 0])
  then have "copy_match (Suc n) d (take p a) = copy_match n d (take (Suc p) a)"
    using Suc.prems(1) by (simp add: take_Suc_nth)
  also have "\<dots> = take (Suc p + n) a"
  proof (rule Suc.IH)
    show "\<forall>k < n. a ! (Suc p + k) = a ! (Suc p - d + k)"
      using Suc.prems(3,4) by (auto simp: Suc_diff_le dest: spec [of _ "Suc _"])
  qed (use Suc.prems in auto)
  finally show ?case by simp
qed simp

lemma expand_step:
  assumes "step_ok a p c"
  shows "expand_commands (take p a) (c # cs) = expand_commands (take (p + command_length c) a) cs"
proof -
  obtain l d where c: "c = (l, d)" by fastforce
  show ?thesis
  proof (cases "d = 0")
    case True
    then have "p < length a" "l = unat (a ! p)" using assms c by (auto simp: step_ok_def command_length_def)
    then show ?thesis
      using True c unsigned_less [of "a ! p", where ?'a = nat] by (simp add: command_length_def take_Suc_nth)
  next
    case False
    then have "p + l \<le> length a" "1 \<le> d" "d \<le> p" "\<forall>k < l. a ! (p + k) = a ! (p - d + k)"
      using assms c by (auto simp: step_ok_def command_length_def is_match_def)
    then show ?thesis using c copy_match_take [of p l a d] by (simp add: command_length_def)
  qed
qed

lemma expand_path: "path a p xs q \<Longrightarrow> expand_commands (take p a) (map fst xs) = Some (take q a)"
proof (induction a p xs q rule: path.induct)
  case (2 a p c i xs q)
  then show ?case using expand_step [of a p c "map fst xs"] by auto
qed simp

section \<open>Stores\<close>

definition store_cmds :: "lz77_store \<Rightarrow> ((nat \<times> nat) \<times> nat) list" where
  "store_cmds st = zip (zip (litlens st) (dists st)) (pos st)"

definition store_path :: "byte list \<Rightarrow> lz77_store \<Rightarrow> nat \<Rightarrow> nat \<Rightarrow> bool" where
  "store_path a st p q \<longleftrightarrow> store_ok st \<and> ldata st = a \<and> path a p (store_cmds st) q"

lemma store_cmds_length: "store_ok st \<Longrightarrow> length (store_cmds st) = lsize st"
  by (simp add: store_cmds_def store_ok_def)

lemma store_cmds_nth: "store_ok st \<Longrightarrow> i < lsize st \<Longrightarrow> store_cmds st ! i = (command_at st i, pos st ! i)"
  by (simp add: store_cmds_def store_ok_def command_at_def)

lemma store_cmds_slice:
  assumes "store_ok st" and "j \<le> lsize st"
  shows "map (command_at st) [i..<j] = map fst (drop i (take j (store_cmds st)))"
  using assms store_cmds_length [OF assms(1)]
  by (intro nth_equalityI) (auto simp: store_cmds_nth)

lemma store_path_lsize: "store_path a st p q \<Longrightarrow> p + lsize st \<le> q"
  using path_length [of a p "store_cmds st" q] store_cmds_length [of st] by (simp add: store_path_def)

lemma store_path_commands:
  assumes "store_path a st p q" and "j \<le> lsize st"
  shows "\<forall>c \<in> set (map (command_at st) [i..<j]). deflate_command c"
proof -
  have ok: "store_ok st" "path a p (store_cmds st) q" using assms(1) by (simp_all add: store_path_def)
  have "set (map (command_at st) [i..<j]) \<subseteq> set (map fst (store_cmds st))"
    unfolding store_cmds_slice [OF ok(1) assms(2)] by (auto dest: in_set_dropD in_set_takeD)
  then show ?thesis using path_commands [OF ok(2)] by blast
qed

lemma store_path_init: "store_path a (ZopfliInitLZ77Store a) p p"
  using store_ok_init [of a] by (simp add: store_path_def store_cmds_def ZopfliInitLZ77Store_def)

lemma store_path_push:
  assumes "store_path a st p q" and "step_ok a q c"
  obtains st' where "ZopfliStoreLitLenDist (fst c) (snd c) q st = Some st'"
    and "store_path a st' p (q + command_length c)" and "store_cmds st' = store_cmds st @ [(c, q)]"
proof -
  have ok: "store_ok st" "ldata st = a" "path a p (store_cmds st) q" using assms(1) by (simp_all add: store_path_def)
  have "fst c < 259" "snd c \<le> 32768" using step_command [OF assms(2)] by (auto simp: deflate_command_def split: if_splits)
  then obtain st' where st': "ZopfliStoreLitLenDist (fst c) (snd c) q st = Some st'" "store_ok st'"
      "litlens st' = litlens st @ [fst c]" "dists st' = dists st @ [snd c]" "pos st' = pos st @ [q]"
      "lsize st' = Suc (lsize st)" "ldata st' = ldata st"
    by (rule store_push [OF ok(1)])
  have "store_cmds st' = store_cmds st @ [(c, q)]" using st'(3-5) ok(1) by (simp add: store_cmds_def store_ok_def)
  moreover from this have "store_path a st' p (q + command_length c)"
    using st'(2,7) ok(2,3) assms(2) by (auto simp: store_path_def path_append)
  ultimately show thesis using st'(1) that by blast
qed

lemma store_path_literal:
  assumes "store_path a st p q" and "q < length a"
  obtains st' where "ZopfliStoreLitLenDist (unat (a ! q)) 0 q st = Some st'" and "store_path a st' p (Suc q)"
  using store_path_push [OF assms(1), of "(unat (a ! q), 0)"] assms(2) that
  by (auto simp: step_ok_def command_length_def)

lemma store_path_match:
  assumes "store_path a st p q" and "is_match a ws q d l" and "3 \<le> l" and "l \<le> 258" and "q + l \<le> length a"
  obtains st' where "ZopfliStoreLitLenDist l d q st = Some st'" and "store_path a st' p (q + l)"
proof -
  have "d \<noteq> 0" using assms(2) by (auto simp: is_match_def)
  then have "step_ok a q (l, d)" "command_length (l, d) = l"
    using assms is_match_from_start [OF assms(2)] by (simp_all add: step_ok_def command_length_def)
  with store_path_push [OF assms(1), of "(l, d)"] that show thesis by auto
qed

lemma VerifyLenDist_match: "is_match a ws q d l \<Longrightarrow> q + l \<le> e \<Longrightarrow> ZopfliVerifyLenDist a e q d l"
  by (auto simp: ZopfliVerifyLenDist_def is_match_def)

section \<open>The interface of the match finder\<close>

text \<open>
  For parsers of the bytes from \<open>bs\<close> to \<open>e\<close>: \<open>longest i\<close> is the length of the longest match at a
  position. With a smaller limit the finder returns a match of exactly that limit if there is one.
\<close>

locale match_finder =
  fixes find :: "'s \<Rightarrow> nat \<Rightarrow> nat \<Rightarrow> nat list option \<Rightarrow> ('s \<times> nat \<times> nat \<times> nat list option) option"
    and inv :: "'s \<Rightarrow> bool"
    and matches :: "nat \<Rightarrow> nat \<Rightarrow> nat \<Rightarrow> bool"
    and longest :: "nat \<Rightarrow> nat"
    and bs :: nat and e :: nat
  assumes finds: "inv s \<Longrightarrow> bs \<le> i \<Longrightarrow> i < e \<Longrightarrow> 3 \<le> limit \<Longrightarrow> limit \<le> 258 \<Longrightarrow>
      (\<And>sl. sub = Some sl \<Longrightarrow> length sl = 259 \<and> limit = 258) \<Longrightarrow>
      \<exists>s' d l sub'. find s i limit sub = Some (s', d, l, sub') \<and> inv s' \<and>
        (if longest i < 3 then l < 3 else l = min limit (longest i) \<and> matches i d l) \<and>
        (case sub of None \<Rightarrow> sub' = None
         | Some _ \<Rightarrow> \<exists>sl. sub' = Some sl \<and> length sl = 259 \<and> (\<forall>j. 3 \<le> j \<and> j \<le> l \<longrightarrow> matches i (sl ! j) j))"
    and longest_le: "inv s \<Longrightarrow> bs \<le> i \<Longrightarrow> i < e \<Longrightarrow> longest i \<le> 258 \<and> i + longest i \<le> e"
begin

lemma find_full:
  assumes "inv s" and "bs \<le> i" and "i < e" and "length sl = 259"
  obtains s' d l sl' where "find s i 258 (Some sl) = Some (s', d, l, Some sl')" and "inv s'" and "length sl' = 259"
    and "longest i < 3 \<Longrightarrow> l < 3" and "3 \<le> longest i \<Longrightarrow> l = longest i"
    and "l \<le> 258" and "i + l \<le> e \<or> l < 3" and "3 \<le> l \<Longrightarrow> matches i d l"
    and "\<And>j. 3 \<le> j \<Longrightarrow> j \<le> l \<Longrightarrow> matches i (sl' ! j) j"
proof -
  have "\<exists>s' d l sub'. find s i 258 (Some sl) = Some (s', d, l, sub') \<and> inv s' \<and>
        (if longest i < 3 then l < 3 else l = min 258 (longest i) \<and> matches i d l) \<and>
        (\<exists>sl. sub' = Some sl \<and> length sl = 259 \<and> (\<forall>j. 3 \<le> j \<and> j \<le> l \<longrightarrow> matches i (sl ! j) j))"
    using finds [OF assms(1-3), of 258 "Some sl"] assms(4) by simp
  then obtain s' d l sl' where r: "find s i 258 (Some sl) = Some (s', d, l, Some sl')" "inv s'" "length sl' = 259"
      "if longest i < 3 then l < 3 else l = min 258 (longest i) \<and> matches i d l"
      "\<And>j. 3 \<le> j \<Longrightarrow> j \<le> l \<Longrightarrow> matches i (sl' ! j) j"
    by blast
  note le = longest_le [OF assms(1-3)]
  show thesis
    by (rule that [OF r(1-3)]) (use r(4,5) le in \<open>auto split: if_splits\<close>)
qed

text \<open>No shorter limit spoils a match: this is why a parser may ask for a length it has seen possible.\<close>

lemma find_limited:
  assumes "inv s" and "bs \<le> i" and "i < e" and "3 \<le> k" and "k \<le> longest i"
  obtains s' d where "find s i k None = Some (s', d, k, None)" and "inv s'" and "matches i d k" and "i + k \<le> e"
proof -
  note le = longest_le [OF assms(1-3)]
  have "\<exists>s' d l sub'. find s i k None = Some (s', d, l, sub') \<and> inv s' \<and>
        (if longest i < 3 then l < 3 else l = min k (longest i) \<and> matches i d l) \<and> sub' = None"
    using finds [OF assms(1-3), of k None] assms(4,5) le by simp
  with assms(4,5) le that show thesis by (auto split: if_splits)
qed

end

interpretation finder: match_finder
  "\<lambda>s i limit sub. ZopfliFindLongestMatch s (hash_at a e ws (Suc i)) a i e limit sub"
  "\<lambda>s. state_inv a e ws s \<and> blockstart s = bs \<and> e \<le> length a" "is_match a ws" "full_length a e ws" bs e
  for a e ws bs
proof unfold_locales
  fix s :: ZopfliBlockState and i limit :: nat and sub :: "nat list option"
  assume inv: "state_inv a e ws s \<and> blockstart s = bs \<and> e \<le> length a" and i: "bs \<le> i" "i < e"
  then have ws: "ws \<le> i" by (auto simp: state_inv_def)
  show "full_length a e ws i \<le> 258 \<and> i + full_length a e ws i \<le> e"
    using full_length_le [of e a ws i] inv ws i by auto
  assume lim: "3 \<le> limit" "limit \<le> 258" and sub: "\<And>sl. sub = Some sl \<Longrightarrow> length sl = 259 \<and> limit = 258"
  show "\<exists>s' d l sub'. ZopfliFindLongestMatch s (hash_at a e ws (Suc i)) a i e limit sub = Some (s', d, l, sub') \<and>
      (state_inv a e ws s' \<and> blockstart s' = bs \<and> e \<le> length a) \<and>
      (if full_length a e ws i < 3 then l < 3 else l = min limit (full_length a e ws i) \<and> is_match a ws i d l) \<and>
      (case sub of None \<Rightarrow> sub' = None
       | Some _ \<Rightarrow> \<exists>sl. sub' = Some sl \<and> length sl = 259 \<and> (\<forall>j. 3 \<le> j \<and> j \<le> l \<longrightarrow> is_match a ws i (sl ! j) j))"
  proof -
    have "blockstart s \<le> i" "state_inv a e ws s" "e \<le> length a" using inv i by auto
    from FindLongestMatch_finds [OF this(2,1) i(2) this(3) lim sub]
    obtain s' d l sub' where r: "ZopfliFindLongestMatch s (hash_at a e ws (Suc i)) a i e limit sub = Some (s', d, l, sub')"
        "state_inv a e ws s'" "blockstart s' = blockstart s" "found a e ws i limit d l" "sublen_found a ws i l sub sub'"
      by blast
    show ?thesis
      by (rule exI [of _ s'], rule exI [of _ d], rule exI [of _ l], rule exI [of _ sub'])
        (use r inv in \<open>auto simp: found_def sublen_found_def split: if_splits\<close>)
  qed
qed

end
