(* ===== verification/Zopfli_Greedy.thy ===== *)
theory Zopfli_Greedy
  imports Zopfli_Parse
begin

text \<open>
  The greedy parse with lazy matching (\<open>ZopfliLZ77Greedy\<close> of \<open>lz77.c\<close>). The local variables of its loop are
  a record; one turn returns the number of extra bytes it moved over and the variables, a failed
  assertion is \<open>None\<close>. The array \<open>dummysublen\<close> has no initial contents in the code, so these are an
  argument.

  The commands it stores are a path over exactly the bytes of the block, and no assertion fails.
\<close>

section \<open>The code of lz77.c\<close>

record greedy =
  gstate :: ZopfliBlockState
  ghash :: ZopfliHash
  gstore :: lz77_store
  dummysublen :: "nat list"
  prev_length :: nat
  prev_match :: nat
  match_available :: bool

text \<open>The loops that move over the rest of a match.\<close>

primrec skip_bytes :: "byte list \<Rightarrow> nat \<Rightarrow> nat \<Rightarrow> nat \<Rightarrow> ZopfliHash \<Rightarrow> ZopfliHash option" where
  "skip_bytes a inend 0 i h = Some h"
| "skip_bytes a inend (Suc n) i h =
    (if \<not> i < inend then None else skip_bytes a inend n (Suc i) (ZopfliUpdateHash a (Suc i) inend h))"

definition add_match :: "byte list \<Rightarrow> nat \<Rightarrow> nat \<Rightarrow> nat \<Rightarrow> nat \<Rightarrow> nat \<Rightarrow> nat \<Rightarrow> greedy \<Rightarrow> (nat \<times> greedy) option" where
  "add_match a inend at i n leng dist g =
    (if \<not> ZopfliVerifyLenDist a inend at dist leng then None
     else
       do {
         store \<leftarrow> ZopfliStoreLitLenDist leng dist at (gstore g);
         h \<leftarrow> skip_bytes a inend n i (ghash g);
         Some (n, g\<lparr>gstore := store, ghash := h\<rparr>)
       })"

definition add_literal :: "byte list \<Rightarrow> nat \<Rightarrow> greedy \<Rightarrow> greedy option" where
  "add_literal a at g =
    map_option (\<lambda>store. g\<lparr>gstore := store\<rparr>) (ZopfliStoreLitLenDist (unat (a ! at)) 0 at (gstore g))"

definition add_output :: "byte list \<Rightarrow> nat \<Rightarrow> nat \<Rightarrow> nat \<Rightarrow> nat \<Rightarrow> int \<Rightarrow> greedy \<Rightarrow> (nat \<times> greedy) option" where
  "add_output a inend i leng dist lengthscore g =
    (if lengthscore \<ge> int ZOPFLI_MIN_MATCH then add_match a inend i i (leng - 1) leng dist g
     else map_option (Pair 0) (add_literal a i g))"

definition remember :: "nat \<Rightarrow> nat \<Rightarrow> greedy \<Rightarrow> greedy" where
  "remember leng dist g = g\<lparr>match_available := True, prev_length := leng, prev_match := dist\<rparr>"

definition lazy_choice :: "byte list \<Rightarrow> nat \<Rightarrow> nat \<Rightarrow> nat \<Rightarrow> nat \<Rightarrow> greedy \<Rightarrow> (nat \<times> greedy) option" where
  "lazy_choice a inend i leng dist g =
    (let lengthscore = GetLengthScore (int leng) (int dist);
         prevlengthscore = GetLengthScore (int (prev_length g)) (int (prev_match g))
     in if match_available g then
          let g = g\<lparr>match_available := False\<rparr>
          in if lengthscore > prevlengthscore + 1 then
               do {
                 g \<leftarrow> add_literal a (i - 1) g;
                 if lengthscore \<ge> int ZOPFLI_MIN_MATCH \<and> leng < ZOPFLI_MAX_MATCH then Some (0, remember leng dist g)
                 else add_output a inend i leng dist lengthscore g
               }
             else add_match a inend (i - 1) i (prev_length g - 2) (prev_length g) (prev_match g) g
        else if lengthscore \<ge> int ZOPFLI_MIN_MATCH \<and> leng < ZOPFLI_MAX_MATCH then Some (0, remember leng dist g)
        else add_output a inend i leng dist lengthscore g)"

definition greedy_turn :: "byte list \<Rightarrow> nat \<Rightarrow> nat \<Rightarrow> greedy \<Rightarrow> (nat \<times> greedy) option" where
  "greedy_turn a inend i g =
    do {
      let h = ZopfliUpdateHash a i inend (ghash g);
      (s, dist, leng, sublen) \<leftarrow>
        ZopfliFindLongestMatch (gstate g) h a i inend ZOPFLI_MAX_MATCH (Some (dummysublen g));
      let g = g\<lparr>gstate := s, ghash := h, dummysublen := (case sublen of None \<Rightarrow> dummysublen g | Some sl \<Rightarrow> sl)\<rparr>;
      lazy_choice a inend i leng dist g
    }"

function greedy_loop :: "byte list \<Rightarrow> nat \<Rightarrow> nat \<Rightarrow> greedy \<Rightarrow> greedy option" where
  "greedy_loop a inend i g =
    (if \<not> i < inend then Some g
     else case greedy_turn a inend i g of None \<Rightarrow> None | Some (n, g) \<Rightarrow> greedy_loop a inend (Suc (i + n)) g)"
  by pat_completeness auto
termination by (relation "measure (\<lambda>(a, inend, i, g). inend - i)") auto

declare greedy_loop.simps [simp del]

text \<open>Where the window of a block starts.\<close>

definition window_start :: "nat \<Rightarrow> nat" where
  "window_start instart = (if instart > ZOPFLI_WINDOW_SIZE then instart - ZOPFLI_WINDOW_SIZE else 0)"

definition ZopfliLZ77Greedy ::
  "ZopfliBlockState \<Rightarrow> byte list \<Rightarrow> nat \<Rightarrow> nat \<Rightarrow> lz77_store \<Rightarrow> ZopfliHash \<Rightarrow> nat list \<Rightarrow>
   (ZopfliBlockState \<times> lz77_store \<times> ZopfliHash) option"
where
  "ZopfliLZ77Greedy s inp instart inend store h sublen0 =
    (if instart = inend then Some (s, store, h)
     else
       let windowstart = window_start instart;
           h = ZopfliResetHash h;
           h = ZopfliWarmupHash inp windowstart inend h;
           h = update_range inp windowstart instart inend h
       in map_option (\<lambda>g. (gstate g, gstore g, ghash g))
            (greedy_loop inp inend instart
              \<lparr>gstate = s, ghash = h, gstore = store, dummysublen = sublen0, prev_length = 0, prev_match = 0,
               match_available = False\<rparr>))"

section \<open>The parse is a path\<close>

lemma window_start_le: "window_start i \<le> i"
  by (simp add: window_start_def)

lemma start_hash:
  "update_range a (window_start i) i e (ZopfliWarmupHash a (window_start i) e (ZopfliResetHash h)) =
    hash_at a e (window_start i) i"
  using hash_at_range [of "window_start i" "window_start i" i a e] window_start_le [of i]
  by (simp add: ZopfliResetHash_empty hash_at_start)

lemma skip_bytes_hash:
  assumes "ws \<le> i" and "i + n \<le> e"
  shows "skip_bytes a e n i (hash_at a e ws (Suc i)) = Some (hash_at a e ws (Suc (i + n)))"
  using assms
proof (induction n arbitrary: i)
  case (Suc n)
  have "hash_at a e ws (Suc (Suc i)) = ZopfliUpdateHash a (Suc i) e (hash_at a e ws (Suc i))"
    using hash_at_Suc [of ws "Suc i" a e] Suc.prems by simp
  with Suc.IH [of "Suc i"] Suc.prems show ?case by simp
qed simp

text \<open>
  The invariant before a turn: what is stored is a path to the current position, or to the
  position before it while a match there is remembered.
\<close>

definition greedy_inv :: "byte list \<Rightarrow> nat \<Rightarrow> nat \<Rightarrow> nat \<Rightarrow> nat \<Rightarrow> nat \<Rightarrow> greedy \<Rightarrow> bool" where
  "greedy_inv a e ws bs p0 i g \<longleftrightarrow>
    state_inv a e ws (gstate g) \<and> blockstart (gstate g) = bs \<and> e \<le> length a \<and>
    ghash g = hash_at a e ws i \<and> length (dummysublen g) = 259 \<and> bs \<le> i \<and> i \<le> e \<and>
    (if match_available g then
       bs < i \<and> store_path a (gstore g) p0 (i - 1) \<and> is_match a ws (i - 1) (prev_match g) (prev_length g) \<and>
       3 \<le> prev_length g \<and> prev_length g \<le> 258 \<and> i - 1 + prev_length g \<le> e
     else store_path a (gstore g) p0 i)"

lemma add_literal_path:
  assumes "store_path a (gstore g) p0 q" and "q < length a"
  obtains st where "add_literal a q g = Some (g\<lparr>gstore := st\<rparr>)" and "store_path a st p0 (Suc q)"
  using store_path_literal [OF assms] that by (metis add_literal_def option.simps(9))

lemma add_match_path:
  assumes "store_path a (gstore g) p0 q" and "is_match a ws q d l" and "3 \<le> l" and "l \<le> 258" and "q + l \<le> e" and "e \<le> length a"
    and "ghash g = hash_at a e ws (Suc i)" and "ws \<le> i" and "Suc (i + n) = q + l"
  obtains st where "add_match a e q i n l d g = Some (n, g\<lparr>gstore := st, ghash := hash_at a e ws (q + l)\<rparr>)"
    and "store_path a st p0 (q + l)"
proof -
  have le: "q + l \<le> length a" "i + n \<le> e" using assms(5,6,9) by auto
  obtain st where st: "ZopfliStoreLitLenDist l d q (gstore g) = Some st" "store_path a st p0 (q + l)"
    by (rule store_path_match [OF assms(1-4) le(1)])
  have "skip_bytes a e n i (ghash g) = Some (hash_at a e ws (q + l))"
    using skip_bytes_hash [OF assms(8) le(2)] assms(7,9) by simp
  with st(1) VerifyLenDist_match [OF assms(2,5)] that [OF _ st(2)] show thesis by (simp add: add_match_def)
qed

lemma score_length: "GetLengthScore (int l) (int d) \<ge> 3 \<Longrightarrow> 3 \<le> l"
  by (auto simp: GetLengthScore_def split: if_splits)

lemma add_output_inv:
  assumes "state_inv a e ws (gstate g)" and "blockstart (gstate g) = bs" and "e \<le> length a"
    and "ghash g = hash_at a e ws (Suc i)" and "length (dummysublen g) = 259" and "bs \<le> i" and "i < e"
    and "\<not> match_available g" and "store_path a (gstore g) p0 i"
    and "3 \<le> l \<Longrightarrow> is_match a ws i d l \<and> l \<le> 258 \<and> i + l \<le> e"
  shows "\<exists>n g'. add_output a e i l d (GetLengthScore (int l) (int d)) g = Some (n, g') \<and> greedy_inv a e ws bs p0 (Suc (i + n)) g'"
proof (cases "GetLengthScore (int l) (int d) \<ge> 3")
  case True
  note l = score_length [OF True]
  have ws: "ws \<le> i" using assms(1,2,6) by (auto simp: state_inv_def)
  have n: "Suc (i + (l - 1)) = i + l" using l by simp
  obtain st where "add_match a e i i (l - 1) l d g = Some (l - 1, g\<lparr>gstore := st, ghash := hash_at a e ws (i + l)\<rparr>)"
      "store_path a st p0 (i + l)"
    by (rule add_match_path [OF assms(9) _ l _ _ assms(3,4) ws n]) (use assms(10) l in auto)
  with True n assms l show ?thesis by (auto simp: add_output_def greedy_inv_def)
next
  case False
  obtain st where "add_literal a i g = Some (g\<lparr>gstore := st\<rparr>)" "store_path a st p0 (Suc i)"
    by (rule add_literal_path [OF assms(9)]) (use assms in auto)
  with False assms show ?thesis by (auto simp: add_output_def greedy_inv_def)
qed

lemma remember_inv:
  assumes "state_inv a e ws (gstate g)" and "blockstart (gstate g) = bs" and "e \<le> length a"
    and "ghash g = hash_at a e ws (Suc i)" and "length (dummysublen g) = 259" and "bs \<le> i" and "i < e"
    and "store_path a (gstore g) p0 i" and "3 \<le> l" and "is_match a ws i d l \<and> l \<le> 258 \<and> i + l \<le> e"
  shows "greedy_inv a e ws bs p0 (Suc i) (remember l d g)"
  using assms by (simp add: greedy_inv_def remember_def)

lemma lazy_choice_inv:
  assumes inv: "greedy_inv a e ws bs p0 i g" and i: "i < e"
    and s: "state_inv a e ws s" "blockstart s = bs" and sl: "length sl = 259"
    and found: "3 \<le> l \<Longrightarrow> is_match a ws i d l \<and> l \<le> 258 \<and> i + l \<le> e"
    and g1: "g1 = g\<lparr>gstate := s, ghash := hash_at a e ws (Suc i), dummysublen := sl\<rparr>"
  shows "\<exists>n g'. lazy_choice a e i l d g1 = Some (n, g') \<and> greedy_inv a e ws bs p0 (Suc (i + n)) g'"
proof -
  note inv' = inv [unfolded greedy_inv_def]
  have base: "e \<le> length a" "bs \<le> i" using inv' by simp_all
  let ?score = "GetLengthScore (int l) (int d)"
  show ?thesis
  proof (cases "match_available g")
    case False
    then have st: "store_path a (gstore g) p0 i" using inv' by simp
    have f: "state_inv a e ws (gstate g1)" "blockstart (gstate g1) = bs" "ghash g1 = hash_at a e ws (Suc i)"
        "length (dummysublen g1) = 259" "store_path a (gstore g1) p0 i" "\<not> match_available g1"
      using s sl st False by (simp_all add: g1)
    show ?thesis
    proof (cases "?score \<ge> 3 \<and> l < 258")
      case True
      then have "greedy_inv a e ws bs p0 (Suc i) (remember l d g1)"
        using remember_inv [OF f(1,2) base(1) f(3,4) base(2) i f(5)] found score_length by blast
      with True f(6) show ?thesis by (auto simp: lazy_choice_def Let_def)
    next
      case no: False
      have "lazy_choice a e i l d g1 = add_output a e i l d ?score g1"
        using f(6) no by (auto simp: lazy_choice_def Let_def)
      with add_output_inv [OF f(1,2) base(1) f(3,4) base(2) i f(6,5) found] show ?thesis by simp
    qed
  next
    case True
    then have p: "bs < i" "store_path a (gstore g) p0 (i - 1)" "is_match a ws (i - 1) (prev_match g) (prev_length g)"
        "3 \<le> prev_length g" "prev_length g \<le> 258" "i - 1 + prev_length g \<le> e"
      using inv' by auto
    define g2 where "g2 = g1\<lparr>match_available := False\<rparr>"
    have f: "state_inv a e ws (gstate g2)" "blockstart (gstate g2) = bs" "ghash g2 = hash_at a e ws (Suc i)"
        "length (dummysublen g2) = 259" "gstore g2 = gstore g" "\<not> match_available g2"
        "prev_length g2 = prev_length g" "prev_match g2 = prev_match g"
      using s sl by (simp_all add: g2_def g1)
    have av: "match_available g1" "prev_length g1 = prev_length g" "prev_match g1 = prev_match g" using True by (simp_all add: g1)
    show ?thesis
    proof (cases "?score > GetLengthScore (int (prev_length g)) (int (prev_match g)) + 1")
      case better: True
      have "i - 1 < length a" "Suc (i - 1) = i" using i base p(1) by auto
      then obtain st where st: "add_literal a (i - 1) g2 = Some (g2\<lparr>gstore := st\<rparr>)" "store_path a st p0 i"
        using add_literal_path [of a g2 p0 "i - 1"] p(2) f(5) by metis
      define g3 where "g3 = g2\<lparr>gstore := st\<rparr>"
      have f3: "state_inv a e ws (gstate g3)" "blockstart (gstate g3) = bs" "ghash g3 = hash_at a e ws (Suc i)"
          "length (dummysublen g3) = 259" "store_path a (gstore g3) p0 i" "\<not> match_available g3"
        using f st(2) by (simp_all add: g3_def)
      have lc: "lazy_choice a e i l d g1 =
          (if ?score \<ge> 3 \<and> l < 258 then Some (0, remember l d g3) else add_output a e i l d ?score g3)"
        using av better st(1) by (simp add: lazy_choice_def Let_def g2_def [symmetric] g3_def)
      show ?thesis
      proof (cases "?score \<ge> 3 \<and> l < 258")
        case True
        then have "greedy_inv a e ws bs p0 (Suc i) (remember l d g3)"
          using remember_inv [OF f3(1,2) base(1) f3(3,4) base(2) i f3(5)] found score_length by blast
        with True lc show ?thesis by auto
      next
        case False
        with lc add_output_inv [OF f3(1,2) base(1) f3(3,4) base(2) i f3(6,5) found] show ?thesis by auto
      qed
    next
      case False
      have ws: "ws \<le> i" using s base(2) by (auto simp: state_inv_def)
      have n: "Suc (i + (prev_length g - 2)) = i - 1 + prev_length g" using p(1,4) by simp
      obtain st where st: "add_match a e (i - 1) i (prev_length g - 2) (prev_length g) (prev_match g) g2 =
            Some (prev_length g - 2, g2\<lparr>gstore := st, ghash := hash_at a e ws (i - 1 + prev_length g)\<rparr>)"
          "store_path a st p0 (i - 1 + prev_length g)"
        by (rule add_match_path [of a g2 p0 "i - 1" ws "prev_match g" "prev_length g" e, OF _ p(3-6) base(1) f(3) ws n])
          (use p(2) f(5) in simp)
      have "lazy_choice a e i l d g1 = add_match a e (i - 1) i (prev_length g - 2) (prev_length g) (prev_match g) g2"
        using av False f(7,8) by (simp add: lazy_choice_def Let_def g2_def [symmetric])
      with st f p n base show ?thesis by (simp add: greedy_inv_def)
    qed
  qed
qed

lemma greedy_turn_inv:
  assumes inv: "greedy_inv a e ws bs p0 i g" and i: "i < e"
  shows "\<exists>n g'. greedy_turn a e i g = Some (n, g') \<and> greedy_inv a e ws bs p0 (Suc (i + n)) g'"
proof -
  note inv' = inv [unfolded greedy_inv_def]
  have pre: "state_inv a e ws (gstate g) \<and> blockstart (gstate g) = bs \<and> e \<le> length a" "bs \<le> i" "length (dummysublen g) = 259"
    using inv' by simp_all
  then have ws: "ws \<le> i" by (auto simp: state_inv_def)
  obtain s' d l sl' where r: "ZopfliFindLongestMatch (gstate g) (hash_at a e ws (Suc i)) a i e 258 (Some (dummysublen g)) =
        Some (s', d, l, Some sl')"
      "state_inv a e ws s' \<and> blockstart s' = bs \<and> e \<le> length a" "length sl' = 259" "l \<le> 258" "i + l \<le> e \<or> l < 3"
      "3 \<le> l \<Longrightarrow> is_match a ws i d l"
    by (rule finder.find_full [of a e ws "gstate g" bs i "dummysublen g", OF pre(1,2) i pre(3)]) blast
  have h: "ZopfliUpdateHash a i e (ghash g) = hash_at a e ws (Suc i)" using hash_at_Suc [OF ws] inv' by simp
  define g1 where "g1 = g\<lparr>gstate := s', ghash := hash_at a e ws (Suc i), dummysublen := sl'\<rparr>"
  have "greedy_turn a e i g = lazy_choice a e i l d g1"
    using r(1) by (simp add: greedy_turn_def h Let_def g1_def)
  moreover have "\<exists>n g'. lazy_choice a e i l d g1 = Some (n, g') \<and> greedy_inv a e ws bs p0 (Suc (i + n)) g'"
    by (rule lazy_choice_inv [OF inv i _ _ r(3) _ g1_def]) (use r in auto)
  ultimately show ?thesis by simp
qed

lemma greedy_loop_path:
  assumes "greedy_inv a e ws bs p0 i g"
  shows "\<exists>g'. greedy_loop a e i g = Some g' \<and> state_inv a e ws (gstate g') \<and> blockstart (gstate g') = bs \<and>
    store_path a (gstore g') p0 e"
  using assms
proof (induction a e i g rule: greedy_loop.induct)
  case (1 a e i g)
  show ?case
  proof (cases "i < e")
    case True
    obtain n g' where "greedy_turn a e i g = Some (n, g')" "greedy_inv a e ws bs p0 (Suc (i + n)) g'"
      using greedy_turn_inv [OF 1(2) True] by blast
    with 1(1) True show ?thesis by (simp add: greedy_loop.simps [of a e i])
  next
    case False
    with 1(2) have "i = e" "\<not> match_available g" by (auto simp: greedy_inv_def)
    with 1(2) show ?thesis by (simp add: greedy_loop.simps greedy_inv_def)
  qed
qed

lemma greedy_parse:
  assumes "state_inv a e (window_start bs) s" and "blockstart s = bs" and "e \<le> length a" and "length sl0 = 259"
    and "store_path a store p0 bs"
  obtains s' store' h' where "ZopfliLZ77Greedy s a bs e store h sl0 = Some (s', store', h')"
    and "state_inv a e (window_start bs) s'" and "blockstart s' = bs" and "store_path a store' p0 e"
proof (cases "bs = e")
  case True
  then show thesis using that [of s store h] assms by (simp add: ZopfliLZ77Greedy_def)
next
  case False
  have "bs \<le> e" using assms(1,2) by (simp add: state_inv_def)
  then have "greedy_inv a e (window_start bs) bs p0 bs
      \<lparr>gstate = s, ghash = hash_at a e (window_start bs) bs, gstore = store, dummysublen = sl0, prev_length = 0,
       prev_match = 0, match_available = False\<rparr>"
    using assms by (simp add: greedy_inv_def)
  from greedy_loop_path [OF this] False that show thesis
    by (auto simp: ZopfliLZ77Greedy_def Let_def start_hash)
qed

end
