(* ===== verification/Zopfli_Float.thy ===== *)
theory Zopfli_Float
  imports Complex_Main "HOL-Library.Log_Nat"
begin

text \<open>
  Floating-point numbers of the cost models of \<open>squeeze.c\<close>. A value of type \<open>double\<close> or \<open>float\<close> is a
  rational number; every operation is the exact one followed by rounding to 53 or 24 significant
  bits, to nearest with ties to even, as IEEE 754 prescribes. Expressions are not contracted. The
  costs are at most \<open>10 ^ 30\<close>, so neither overflow nor special values occur; gradual underflow is
  left out.
\<close>

section \<open>Rounding\<close>

text \<open>The exponent \<open>e\<close> with \<open>2 powi e \<le> x < 2 powi (e + 1)\<close> of a positive number.\<close>

definition binexp :: "rat \<Rightarrow> int" where
  "binexp x =
    (case quotient_of x of
       (n, d) \<Rightarrow> let e = bitlen n - bitlen d in if 2 powi e \<le> x then e else e - 1)"

definition round_even :: "rat \<Rightarrow> int" where
  "round_even x =
    (let f = \<lfloor>x\<rfloor>; r = x - of_int f
     in if r < 1 / 2 \<or> r = 1 / 2 \<and> even f then f else f + 1)"

definition rnd :: "nat \<Rightarrow> rat \<Rightarrow> rat" where
  "rnd p x =
    (if x = 0 then 0
     else let u = 2 powi (binexp \<bar>x\<bar> - int p + 1) in u * of_int (round_even (x / u)))"

abbreviation to_double :: "rat \<Rightarrow> rat" where "to_double \<equiv> rnd 53"
abbreviation to_float :: "rat \<Rightarrow> rat" where "to_float \<equiv> rnd 24"

definition dadd :: "rat \<Rightarrow> rat \<Rightarrow> rat" where "dadd x y = to_double (x + y)"
definition dsub :: "rat \<Rightarrow> rat \<Rightarrow> rat" where "dsub x y = to_double (x - y)"
definition dmul :: "rat \<Rightarrow> rat \<Rightarrow> rat" where "dmul x y = to_double (x * y)"

text \<open>The double next to \<open>1e30\<close>.\<close>

definition ZOPFLI_LARGE_FLOAT :: nat where
  "ZOPFLI_LARGE_FLOAT = 1000000000000000019884624838656"

section \<open>The exponent\<close>

lemma powi_nat: "0 \<le> k \<Longrightarrow> (2 :: rat) powi k = 2 ^ nat k"
  by (simp add: power_int_def)

lemma powi_pos [simp]: "0 < (2 :: rat) powi k"
  by simp

lemma powi_less: "j < k \<Longrightarrow> (2 :: rat) powi (j + 1) \<le> 2 powi k"
  by (rule power_int_increasing) simp_all

lemma powi_add: "(2 :: rat) powi (j + k) = 2 powi j * 2 powi k"
  by (simp add: power_int_add)

lemma bitlen_range:
  assumes "0 < n"
  shows "2 powi (bitlen n - 1) \<le> (of_int n :: rat)" and "(of_int n :: rat) < 2 powi bitlen n"
proof -
  have b: "2 ^ nat (bitlen n - 1) \<le> n" "n < 2 ^ nat (bitlen n)" using bitlen_bounds [OF assms] by auto
  have "1 \<le> bitlen n" using bitlen_eq_zero_iff [of n] bitlen_nonneg [of n] assms by linarith
  moreover have "(of_int (2 ^ nat (bitlen n - 1)) :: rat) \<le> of_int n" using b(1) by (simp only: of_int_le_iff)
  moreover have "(of_int n :: rat) < of_int (2 ^ nat (bitlen n))" using b(2) by (simp only: of_int_less_iff)
  ultimately show "2 powi (bitlen n - 1) \<le> (of_int n :: rat)" "(of_int n :: rat) < 2 powi bitlen n"
    by (simp_all add: powi_nat)
qed

lemma binexp_range:
  assumes "0 < x"
  shows "2 powi binexp x \<le> x" and "x < 2 powi (binexp x + 1)"
proof -
  obtain n d where q: "quotient_of x = (n, d)" by fastforce
  have d: "0 < d" using quotient_of_denom_pos [OF q] .
  have x: "x = of_int n / of_int d" using quotient_of_div [OF q] .
  have n: "0 < n" using assms d by (simp add: x zero_less_divide_iff)
  define e where "e = bitlen n - bitlen d"
  have d': "0 < (of_int d :: rat)" using d by simp
  have "of_int n < (2 :: rat) powi (e + 1) * 2 powi (bitlen d - 1)"
    using bitlen_range(2) [OF n] by (simp add: powi_add [symmetric] e_def)
  also have "\<dots> \<le> 2 powi (e + 1) * of_int d" by (rule mult_left_mono [OF bitlen_range(1) [OF d]]) simp
  finally have up: "x < 2 powi (e + 1)" using d' by (simp add: x divide_less_eq)
  have "(2 :: rat) powi (e - 1) * of_int d \<le> 2 powi (e - 1) * 2 powi bitlen d"
    by (rule mult_left_mono) (use bitlen_range(2) [OF d] in simp_all)
  also have "\<dots> = 2 powi (bitlen n - 1)" by (simp add: powi_add [symmetric] e_def)
  also have "\<dots> \<le> of_int n" by (rule bitlen_range(1) [OF n])
  finally have low: "2 powi (e - 1) \<le> x" using d' by (simp add: x le_divide_eq)
  have "binexp x = (if 2 powi e \<le> x then e else e - 1)" by (simp add: binexp_def q Let_def e_def)
  with up low show "2 powi binexp x \<le> x" "x < 2 powi (binexp x + 1)" by (auto split: if_splits)
qed

lemma binexp_mono:
  assumes "0 < x" and "x \<le> y"
  shows "binexp x \<le> binexp y"
proof (rule ccontr)
  assume "\<not> ?thesis"
  then have "(2 :: rat) powi (binexp y + 1) \<le> 2 powi binexp x" by (intro powi_less) simp
  with binexp_range [of x] binexp_range [of y] assms show False by linarith
qed

section \<open>Laws of rounding\<close>

lemma round_even_mono: "x \<le> y \<Longrightarrow> round_even x \<le> round_even y"
proof -
  assume le: "x \<le> y"
  then have f: "\<lfloor>x\<rfloor> \<le> \<lfloor>y\<rfloor>" by (rule floor_mono)
  show ?thesis
  proof (cases "\<lfloor>x\<rfloor> = \<lfloor>y\<rfloor>")
    case True
    then show ?thesis using le by (auto simp: round_even_def Let_def)
  next
    case False
    with f have "\<lfloor>x\<rfloor> + 1 \<le> \<lfloor>y\<rfloor>" by simp
    then show ?thesis by (auto simp: round_even_def Let_def)
  qed
qed

lemma round_even_int [simp]: "round_even (of_int k) = k"
  by (simp add: round_even_def)

lemma round_even_error: "\<bar>of_int (round_even x) - x\<bar> \<le> 1 / 2"
proof -
  have "of_int \<lfloor>x\<rfloor> \<le> x" "x < of_int \<lfloor>x\<rfloor> + 1" using floor_correct [of x] by simp_all
  then show ?thesis by (auto simp: round_even_def Let_def abs_le_iff)
qed

lemma rnd_pos:
  assumes "0 < x"
  shows "rnd p x = 2 powi (binexp x - int p + 1) * of_int (round_even (x / 2 powi (binexp x - int p + 1)))"
  using assms by (simp add: rnd_def Let_def)

text \<open>Rounding stays within the binade.\<close>

lemma rnd_range:
  assumes "0 < x" and "0 < p"
  shows "2 powi binexp x \<le> rnd p x" and "rnd p x \<le> 2 powi (binexp x + 1)"
proof -
  define u where "u = (2 :: rat) powi (binexp x - int p + 1)"
  have u: "0 < u" by (simp add: u_def)
  have low: "2 powi binexp x = u * of_int (2 ^ (p - 1))"
  proof -
    have "(2 :: rat) ^ (p - 1) = 2 powi (int p - 1)" using assms(2) by (simp add: powi_nat nat_diff_distrib)
    then show ?thesis by (simp add: u_def powi_add [symmetric])
  qed
  have high: "2 powi (binexp x + 1) = u * of_int (2 ^ p)"
  proof -
    have "(2 :: rat) ^ p = 2 powi int p" by simp
    then show ?thesis by (simp only: u_def of_int_power of_int_numeral powi_add [symmetric]) simp
  qed
  have "of_int (2 ^ (p - 1)) \<le> x / u" "x / u \<le> of_int (2 ^ p)"
    using binexp_range [OF assms(1)] u by (auto simp only: low high pos_le_divide_eq pos_divide_le_eq mult.commute less_imp_le)
  then have "2 ^ (p - 1) \<le> round_even (x / u)" "round_even (x / u) \<le> 2 ^ p"
    by (metis round_even_int round_even_mono)+
  then have "(of_int (2 ^ (p - 1)) :: rat) \<le> of_int (round_even (x / u))"
      "(of_int (round_even (x / u)) :: rat) \<le> of_int (2 ^ p)"
    by (simp_all only: of_int_le_iff)
  then show "2 powi binexp x \<le> rnd p x" "rnd p x \<le> 2 powi (binexp x + 1)"
    unfolding rnd_pos [OF assms(1)] low high u_def [symmetric] by (simp_all only: u mult_le_cancel_left_pos)
qed

lemma rnd_nonneg: "0 \<le> x \<Longrightarrow> 0 < p \<Longrightarrow> 0 \<le> rnd p x"
proof (cases "x = 0")
  case False
  assume "0 \<le> x" "0 < p"
  then show ?thesis using rnd_range(1) [of x p] False powi_pos [of "binexp x"] by linarith
qed (simp add: rnd_def)

lemma rnd_mono:
  assumes "0 \<le> x" and "x \<le> y" and "0 < p"
  shows "rnd p x \<le> rnd p y"
proof (cases "x = 0")
  case True
  then show ?thesis using rnd_nonneg [of y p] assms by (simp add: rnd_def)
next
  case False
  then have pos: "0 < x" "0 < y" using assms by auto
  show ?thesis
  proof (cases "binexp x = binexp y")
    case True
    have "x / 2 powi (binexp y - int p + 1) \<le> y / 2 powi (binexp y - int p + 1)"
      using assms(2) by (intro divide_right_mono) simp_all
    from round_even_mono [OF this] show ?thesis
      unfolding rnd_pos [OF pos(1)] rnd_pos [OF pos(2)] True by (intro mult_left_mono) simp_all
  next
    case False
    with binexp_mono [OF pos(1) assms(2)] have "(2 :: rat) powi (binexp x + 1) \<le> 2 powi binexp y"
      by (intro powi_less) simp
    with rnd_range(2) [OF pos(1) assms(3)] rnd_range(1) [OF pos(2) assms(3)] show ?thesis by linarith
  qed
qed

text \<open>Numbers with few enough significant bits are exact.\<close>

lemma rnd_exact:
  assumes "n < 2 ^ p" and "0 < p"
  shows "rnd p (of_nat (n * 2 ^ k)) = of_nat (n * 2 ^ k)"
proof (cases "n = 0")
  case False
  let ?x = "of_nat (n * 2 ^ k) :: rat"
  have pos: "0 < ?x" using False by simp
  have "?x < 2 ^ p * 2 ^ k"
  proof -
    have "(of_nat n :: rat) < of_nat (2 ^ p)" using assms(1) by (simp only: of_nat_less_iff)
    then show ?thesis by simp
  qed
  also have "\<dots> = 2 powi (int p + int k)" by (simp add: powi_add)
  finally have lt: "?x < 2 powi (int p + int k)" .
  have "binexp ?x < int p + int k"
  proof (rule ccontr)
    assume "\<not> ?thesis"
    then have "(2 :: rat) powi (int p + int k) \<le> 2 powi binexp ?x" by (intro power_int_increasing) simp_all
    with binexp_range(1) [OF pos] lt show False by linarith
  qed
  then have "int k = (binexp ?x - int p + 1) + int (nat (int k - (binexp ?x - int p + 1)))" by linarith
  then obtain m where m: "int k = (binexp ?x - int p + 1) + int m" ..
  have "?x = of_nat n * 2 powi int k" by simp
  also have "\<dots> = 2 powi (binexp ?x - int p + 1) * of_int (int n * 2 ^ m)"
    by (subst m) (simp only: powi_add power_int_of_nat of_int_mult of_int_power of_int_numeral of_int_of_nat_eq mult_ac)
  finally have x: "?x = 2 powi (binexp ?x - int p + 1) * of_int (int n * 2 ^ m)" .
  then have "?x / 2 powi (binexp ?x - int p + 1) = of_int (int n * 2 ^ m)"
    using powi_pos [of "binexp ?x - int p + 1"] by (metis less_numeral_extra(3) nonzero_mult_div_cancel_left)
  then show ?thesis using x by (simp only: rnd_pos [OF pos] round_even_int)
qed (simp add: rnd_def)

lemma rnd_nat: "n < 2 ^ p \<Longrightarrow> 0 < p \<Longrightarrow> rnd p (of_nat n) = of_nat n"
  using rnd_exact [of n p 0] by simp

lemma rnd_le:
  assumes "0 \<le> x" and "x \<le> of_nat (n * 2 ^ k)" and "n < 2 ^ p" and "0 < p"
  shows "rnd p x \<le> of_nat (n * 2 ^ k)"
  using rnd_mono [OF assms(1,2,4)] rnd_exact [OF assms(3,4)] by simp

lemma rnd_error:
  assumes "\<bar>x\<bar> < 2 powi k"
  shows "\<bar>rnd p x - x\<bar> \<le> 2 powi (k - int p)"
proof (cases "x = 0")
  case False
  let ?e = "binexp \<bar>x\<bar>"
  define u where "u = (2 :: rat) powi (?e - int p + 1)"
  have u: "0 < u" by (simp add: u_def)
  have "?e < k"
  proof (rule ccontr)
    assume "\<not> ?thesis"
    then have "(2 :: rat) powi k \<le> 2 powi ?e" by (intro power_int_increasing) simp_all
    with binexp_range(1) [of "\<bar>x\<bar>"] assms False show False by simp
  qed
  then have "u * (1 / 2) \<le> 2 powi (k - int p)"
  proof -
    assume "?e < k"
    then have "(2 :: rat) powi (?e - int p + 1) \<le> 2 powi (k - int p)" by (intro power_int_increasing) simp_all
    then show ?thesis using u unfolding u_def by linarith
  qed
  moreover have "rnd p x - x = u * (of_int (round_even (x / u)) - x / u)"
    using False u by (simp add: rnd_def u_def Let_def right_diff_distrib)
  then have "\<bar>rnd p x - x\<bar> = u * \<bar>of_int (round_even (x / u)) - x / u\<bar>" using u by (simp add: abs_mult)
  then have "\<bar>rnd p x - x\<bar> \<le> u * (1 / 2)" using u round_even_error [of "x / u"] by simp
  ultimately show ?thesis by linarith
qed (simp add: rnd_def)

lemma binexp_eqI:
  assumes "2 powi e \<le> x" and "x < 2 powi (e + 1)"
  shows "binexp x = e"
proof -
  have pos: "0 < x" using assms(1) powi_pos [of e] by linarith
  have "\<not> binexp x < e" using powi_less [of "binexp x" e] binexp_range(2) [OF pos] assms(1) by linarith
  moreover have "\<not> e < binexp x" using powi_less [of e "binexp x"] binexp_range(1) [OF pos] assms(2) by linarith
  ultimately show ?thesis by simp
qed

lemma large_float: "to_double (10 ^ 30) = of_nat ZOPFLI_LARGE_FLOAT"
proof -
  have "binexp (10 ^ 30) = 99" by (rule binexp_eqI) simp_all
  moreover have "\<lfloor>(931322574615478515625 :: rat) / 131072\<rfloor> = 7105427357601001" by (rule floor_unique) simp_all
  ultimately show ?thesis by (simp add: rnd_pos round_even_def ZOPFLI_LARGE_FLOAT_def Let_def)
qed

end
