(* ===== verification/Zopfli_Squeeze.thy ===== *)
theory Zopfli_Squeeze
  imports Zopfli_Greedy Zopfli_Float
begin

text \<open>
  The optimal parse for a given cost model (\<open>GetBestLengths\<close>, \<open>TraceBackwards\<close>, \<open>FollowPath\<close>, \<open>LZ77OptimalRun\<close> and
  \<open>ZopfliLZ77OptimalFixed\<close> of \<open>squeeze.c\<close>). The cost model is a function argument as in the code; \<open>None\<close>
  stands for a lookup outside of a table. The costs are floating-point numbers. Arrays that have
  no initial contents in the code are arguments; a failed assertion is \<open>None\<close>.

  The locale \<open>cost_model\<close> has what the parse relies on: costs of commands are between 0 and 256. Then
  the forward pass reaches every position, and the path that is followed back stands for the
  bytes of the block.
\<close>

section \<open>Cost models\<close>

type_synonym CostModelFun = "nat \<Rightarrow> nat \<Rightarrow> rat option"

definition GetCostFixed :: CostModelFun where
  "GetCostFixed litlen distance =
    (if distance = 0 then Some (if litlen \<le> 143 then 8 else 9)
     else
       do {
         let dbits = ZopfliGetDistExtraBits (int distance);
         lbits \<leftarrow> ZopfliGetLengthExtraBits (int litlen);
         lsym \<leftarrow> ZopfliGetLengthSymbol (int litlen);
         let cost = (if lsym \<le> 279 then 7 else 8) + 5;
         Some (of_int (cost + dbits + lbits))
       })"

definition dsymbols :: "nat list" where
  "dsymbols =
    [1, 2, 3, 4, 5, 7, 9, 13, 17, 25, 33, 49, 65, 97, 129, 193, 257, 385, 513,
     769, 1025, 1537, 2049, 3073, 4097, 6145, 8193, 12289, 16385, 24577]"

text \<open>The loops over lengths and distances, with the best one so far and its cost.\<close>

fun cheapest :: "(nat \<Rightarrow> rat option) \<Rightarrow> nat list \<Rightarrow> nat \<Rightarrow> rat \<Rightarrow> nat option" where
  "cheapest f [] best mincost = Some best"
| "cheapest f (i # is) best mincost =
    (case f i of
       None \<Rightarrow> None
     | Some c \<Rightarrow> if c < mincost then cheapest f is i c else cheapest f is best mincost)"

definition GetCostModelMinCost :: "CostModelFun \<Rightarrow> rat option" where
  "GetCostModelMinCost costmodel =
    do {
      bestlength \<leftarrow> cheapest (\<lambda>i. costmodel i 1) [3..<259] 0 (of_nat ZOPFLI_LARGE_FLOAT);
      bestdist \<leftarrow> cheapest (costmodel 3) dsymbols 0 (of_nat ZOPFLI_LARGE_FLOAT);
      costmodel bestlength bestdist
    }"

definition zopfli_min :: "nat \<Rightarrow> nat \<Rightarrow> nat" where
  "zopfli_min a b = (if a < b then a else b)"

section \<open>The forward pass\<close>

record squeeze =
  qstate :: ZopfliBlockState
  qhash :: ZopfliHash
  qsublen :: "nat list"
  costs :: "rat list"
  length_array :: "nat list"

definition set_entry :: "nat \<Rightarrow> rat \<Rightarrow> nat \<Rightarrow> squeeze \<Rightarrow> squeeze" where
  "set_entry t newCost k q =
    q\<lparr>costs := (costs q)[t := to_float newCost], length_array := (length_array q)[t := k]\<rparr>"

definition long_repetition :: "nat \<Rightarrow> nat \<Rightarrow> nat \<Rightarrow> ZopfliHash \<Rightarrow> bool" where
  "long_repetition instart inend i h \<longleftrightarrow>
    same h (i AND ZOPFLI_WINDOW_MASK) > ZOPFLI_MAX_MATCH * 2 \<and>
    i > instart + ZOPFLI_MAX_MATCH + 1 \<and>
    i + ZOPFLI_MAX_MATCH * 2 + 1 < inend \<and>
    same h ((i - ZOPFLI_MAX_MATCH) AND ZOPFLI_WINDOW_MASK) > ZOPFLI_MAX_MATCH"

primrec repetition_loop :: "byte list \<Rightarrow> nat \<Rightarrow> rat \<Rightarrow> nat \<Rightarrow> nat \<Rightarrow> nat \<Rightarrow> squeeze \<Rightarrow> squeeze" where
  "repetition_loop a inend symbolcost 0 i j q = q"
| "repetition_loop a inend symbolcost (Suc n) i j q =
    (let q = set_entry (j + ZOPFLI_MAX_MATCH) (dadd (costs q ! j) symbolcost) ZOPFLI_MAX_MATCH q;
         q = q\<lparr>qhash := ZopfliUpdateHash a (Suc i) inend (qhash q)\<rparr>
     in repetition_loop a inend symbolcost n (Suc i) (Suc j) q)"

definition skip_repetition ::
  "byte list \<Rightarrow> nat \<Rightarrow> nat \<Rightarrow> CostModelFun \<Rightarrow> nat \<Rightarrow> squeeze \<Rightarrow> (nat \<times> squeeze) option" where
  "skip_repetition a instart inend costmodel i q =
    (if long_repetition instart inend i (qhash q) then
       map_option (\<lambda>symbolcost. (ZOPFLI_MAX_MATCH, repetition_loop a inend symbolcost ZOPFLI_MAX_MATCH i (i - instart) q))
         (costmodel ZOPFLI_MAX_MATCH 1)
     else Some (0, q))"

definition try_literal :: "byte list \<Rightarrow> nat \<Rightarrow> CostModelFun \<Rightarrow> nat \<Rightarrow> nat \<Rightarrow> squeeze \<Rightarrow> squeeze option" where
  "try_literal a inend costmodel i j q =
    (if i + 1 \<le> inend then
       do {
         c \<leftarrow> costmodel (unat (a ! i)) 0;
         let newCost = dadd c (costs q ! j);
         if \<not> newCost \<ge> 0 then None
         else if newCost < costs q ! (j + 1) then Some (set_entry (j + 1) newCost 1 q)
         else Some q
       }
     else Some q)"

fun try_lengths :: "CostModelFun \<Rightarrow> nat list \<Rightarrow> rat \<Rightarrow> nat \<Rightarrow> nat list \<Rightarrow> squeeze \<Rightarrow> squeeze option" where
  "try_lengths costmodel sublen mincostaddcostj j [] q = Some q"
| "try_lengths costmodel sublen mincostaddcostj j (k # ks) q =
    (if costs q ! (j + k) \<le> mincostaddcostj then try_lengths costmodel sublen mincostaddcostj j ks q
     else
       do {
         c \<leftarrow> costmodel k (sublen ! k);
         let newCost = dadd c (costs q ! j);
         if \<not> newCost \<ge> 0 then None
         else if newCost < costs q ! (j + k) then
           (if \<not> k \<le> ZOPFLI_MAX_MATCH then None
            else try_lengths costmodel sublen mincostaddcostj j ks (set_entry (j + k) newCost k q))
         else try_lengths costmodel sublen mincostaddcostj j ks q
       })"

definition best_turn ::
  "byte list \<Rightarrow> nat \<Rightarrow> nat \<Rightarrow> CostModelFun \<Rightarrow> rat \<Rightarrow> nat \<Rightarrow> squeeze \<Rightarrow> (nat \<times> squeeze) option" where
  "best_turn a instart inend costmodel mincost i q =
    do {
      let q = q\<lparr>qhash := ZopfliUpdateHash a i inend (qhash q)\<rparr>;
      (n, q) \<leftarrow> skip_repetition a instart inend costmodel i q;
      let i = i + n;
      let j = i - instart;
      (s, distance, leng, sublen) \<leftarrow>
        ZopfliFindLongestMatch (qstate q) (qhash q) a i inend ZOPFLI_MAX_MATCH (Some (qsublen q));
      let q = q\<lparr>qstate := s, qsublen := (case sublen of None \<Rightarrow> qsublen q | Some sl \<Rightarrow> sl)\<rparr>;
      q \<leftarrow> try_literal a inend costmodel i j q;
      let kend = zopfli_min leng (inend - i);
      let mincostaddcostj = dadd mincost (costs q ! j);
      q \<leftarrow> try_lengths costmodel (qsublen q) mincostaddcostj j [3..<kend + 1] q;
      Some (n, q)
    }"

function best_loop :: "byte list \<Rightarrow> nat \<Rightarrow> nat \<Rightarrow> CostModelFun \<Rightarrow> rat \<Rightarrow> nat \<Rightarrow> squeeze \<Rightarrow> squeeze option" where
  "best_loop a instart inend costmodel mincost i q =
    (if \<not> i < inend then Some q
     else case best_turn a instart inend costmodel mincost i q of
       None \<Rightarrow> None
     | Some (n, q) \<Rightarrow> best_loop a instart inend costmodel mincost (Suc (i + n)) q)"
  by pat_completeness auto
termination by (relation "measure (\<lambda>(a, instart, inend, costmodel, mincost, i, q). inend - i)") auto

declare best_loop.simps [simp del]

text \<open>Returns the cost and the new contents of block state, hash and \<open>length_array\<close>.\<close>

definition GetBestLengths ::
  "ZopfliBlockState \<Rightarrow> byte list \<Rightarrow> nat \<Rightarrow> nat \<Rightarrow> CostModelFun \<Rightarrow> nat list \<Rightarrow> ZopfliHash \<Rightarrow> nat list \<Rightarrow>
   (rat \<times> ZopfliBlockState \<times> ZopfliHash \<times> nat list) option"
where
  "GetBestLengths s inp instart inend costmodel lengths h sublen0 =
    do {
      let blocksize = inend - instart;
      let windowstart = window_start instart;
      mincost \<leftarrow> GetCostModelMinCost costmodel;
      if instart = inend then Some (0, s, h, lengths)
      else do {
        let h = ZopfliResetHash h;
        let h = ZopfliWarmupHash inp windowstart inend h;
        let h = update_range inp windowstart instart inend h;
        q \<leftarrow> best_loop inp instart inend costmodel mincost instart
          \<lparr>qstate = s, qhash = h, qsublen = sublen0,
           costs = 0 # replicate blocksize (to_float (of_nat ZOPFLI_LARGE_FLOAT)), length_array = lengths[0 := 0]\<rparr>;
        if \<not> costs q ! blocksize \<ge> 0 then None
        else Some (costs q ! blocksize, qstate q, qhash q, length_array q)
      }
    }"

section \<open>The way back\<close>

function trace_loop :: "nat list \<Rightarrow> nat \<Rightarrow> nat list \<Rightarrow> nat list option" where
  "trace_loop lengths index p =
    (let p = p @ [lengths ! index]
     in if \<not> lengths ! index \<le> index \<or> \<not> lengths ! index \<le> ZOPFLI_MAX_MATCH \<or> \<not> lengths ! index \<noteq> 0 then None
        else let index = index - lengths ! index in if index = 0 then Some p else trace_loop lengths index p)"
  by pat_completeness auto
termination by (relation "measure (\<lambda>(lengths, index, p). index)") auto

declare trace_loop.simps [simp del]

definition mirror :: "nat list \<Rightarrow> nat list" where
  "mirror p =
    fold (\<lambda>index p. p[index := p ! (length p - index - 1), length p - index - 1 := p ! index]) [0..<length p div 2] p"

definition TraceBackwards :: "nat \<Rightarrow> nat list \<Rightarrow> nat list option" where
  "TraceBackwards size' lengths = (if size' = 0 then Some [] else map_option mirror (trace_loop lengths size' []))"

fun follow_loop ::
  "byte list \<Rightarrow> nat \<Rightarrow> nat \<Rightarrow> nat list \<Rightarrow> ZopfliBlockState \<Rightarrow> lz77_store \<Rightarrow> ZopfliHash \<Rightarrow>
   (ZopfliBlockState \<times> lz77_store \<times> ZopfliHash) option"
where
  "follow_loop a inend p [] s store h = Some (s, store, h)"
| "follow_loop a inend p (len # ks) s store h =
    (if \<not> p < inend then None
     else
       do {
         let h = ZopfliUpdateHash a p inend h;
         (len, s, store) \<leftarrow>
           (if len \<ge> ZOPFLI_MIN_MATCH then
              do {
                (s, distance, dummy_length, _) \<leftarrow> ZopfliFindLongestMatch s h a p inend len None;
                if dummy_length \<noteq> len \<and> len > 2 \<and> dummy_length > 2 then None
                else if \<not> ZopfliVerifyLenDist a inend p distance len then None
                else map_option (\<lambda>store. (len, s, store)) (ZopfliStoreLitLenDist len distance p store)
              }
            else map_option (\<lambda>store. (1, s, store)) (ZopfliStoreLitLenDist (unat (a ! p)) 0 p store));
         if \<not> p + len \<le> inend then None
         else follow_loop a inend (p + len) ks s store (update_range a (p + 1) (p + len) inend h)
       })"

definition FollowPath ::
  "ZopfliBlockState \<Rightarrow> byte list \<Rightarrow> nat \<Rightarrow> nat \<Rightarrow> nat list \<Rightarrow> lz77_store \<Rightarrow> ZopfliHash \<Rightarrow>
   (ZopfliBlockState \<times> lz77_store \<times> ZopfliHash) option"
where
  "FollowPath s inp instart inend p store h =
    (if instart = inend then Some (s, store, h)
     else
       let windowstart = window_start instart;
           h = ZopfliResetHash h;
           h = ZopfliWarmupHash inp windowstart inend h;
           h = update_range inp windowstart instart inend h
       in follow_loop inp inend instart p s store h)"

definition LZ77OptimalRun ::
  "ZopfliBlockState \<Rightarrow> byte list \<Rightarrow> nat \<Rightarrow> nat \<Rightarrow> nat list \<Rightarrow> CostModelFun \<Rightarrow> lz77_store \<Rightarrow> ZopfliHash \<Rightarrow> nat list \<Rightarrow>
   (rat \<times> ZopfliBlockState \<times> lz77_store \<times> ZopfliHash \<times> nat list) option"
where
  "LZ77OptimalRun s inp instart inend lengths costmodel store h sublen0 =
    do {
      (cost, s, h, lengths) \<leftarrow> GetBestLengths s inp instart inend costmodel lengths h sublen0;
      p \<leftarrow> TraceBackwards (inend - instart) lengths;
      (s, store, h) \<leftarrow> FollowPath s inp instart inend p store h;
      if \<not> cost < of_nat ZOPFLI_LARGE_FLOAT then None else Some (cost, s, store, h, lengths)
    }"

text \<open>The contents that memory happens to have before it is written.\<close>

record scratch =
  sublen0 :: "nat \<Rightarrow> nat"
  lengths0 :: "nat \<Rightarrow> nat"
  hash0 :: ZopfliHash

definition ZopfliLZ77OptimalFixed ::
  "scratch \<Rightarrow> ZopfliBlockState \<Rightarrow> byte list \<Rightarrow> nat \<Rightarrow> nat \<Rightarrow> lz77_store \<Rightarrow> (ZopfliBlockState \<times> lz77_store) option"
where
  "ZopfliLZ77OptimalFixed mem s inp instart inend store =
    do {
      let blocksize = inend - instart;
      let lengths = map (lengths0 mem) [0..<blocksize + 1];
      let s = s\<lparr>blockstart := instart, blockend := inend\<rparr>;
      (_, s, store, _, _) \<leftarrow>
        LZ77OptimalRun s inp instart inend lengths GetCostFixed store (hash0 mem) (map (sublen0 mem) [0..<259]);
      Some (s, store)
    }"

end
