(* ===== verification/Zopfli_Squeeze_Inv.thy ===== *)
theory Zopfli_Squeeze_Inv
  imports Zopfli_Squeeze
begin

text \<open>
  The optimal parse is a path over the block. The forward pass keeps, for every position it has
  reached, a length that leads there and a cost of at most 256 per byte; such costs are exact in
  \<open>float\<close>, so that rounding cannot carry them past the bound. A long repetition may be skipped because
  its positions have been reached from the ones before. The way back then gives lengths for which
  the match finder, asked with that limit, returns a match.
\<close>

section \<open>Reached positions\<close>

definition reached :: "byte list \<Rightarrow> nat \<Rightarrow> nat \<Rightarrow> nat \<Rightarrow> squeeze \<Rightarrow> nat \<Rightarrow> bool" where
  "reached a e ws bs q t \<longleftrightarrow>
    1 \<le> length_array q ! t \<and> length_array q ! t \<le> t \<and>
    (length_array q ! t = 1 \<or>
     3 \<le> length_array q ! t \<and> length_array q ! t \<le> full_length a e ws (bs + t - length_array q ! t)) \<and>
    0 \<le> costs q ! t \<and> costs q ! t \<le> of_nat (t * 2 ^ 8)"

text \<open>The cost of positions that are not reached yet.\<close>

abbreviation unset_cost :: rat where "unset_cost \<equiv> to_float (of_nat ZOPFLI_LARGE_FLOAT)"

lemma unset_cost_large: "of_nat (n * 2 ^ 8) < unset_cost" if "n < 2 ^ 25"
proof -
  have "(of_nat (n * 2 ^ 8) :: rat) < of_nat (2 ^ 33)" using that by (simp only: of_nat_less_iff) simp
  also have "(of_nat (2 ^ 33) :: rat) = to_float (of_nat (2 ^ 33))" using rnd_exact [of 1 24 33] by simp
  also have "\<dots> \<le> unset_cost" by (rule rnd_mono) (simp_all add: ZOPFLI_LARGE_FLOAT_def)
  finally show ?thesis .
qed

definition entries_set :: "byte list \<Rightarrow> nat \<Rightarrow> nat \<Rightarrow> nat \<Rightarrow> squeeze \<Rightarrow> bool" where
  "entries_set a e ws bs q \<longleftrightarrow>
    length (costs q) = e - bs + 1 \<and> length (length_array q) = e - bs + 1 \<and> costs q ! 0 = 0 \<and>
    (\<forall>t. 1 \<le> t \<and> t \<le> e - bs \<longrightarrow> reached a e ws bs q t \<or> costs q ! t = unset_cost)"

text \<open>A step of the forward pass loses no position.\<close>

definition advances :: "byte list \<Rightarrow> nat \<Rightarrow> nat \<Rightarrow> nat \<Rightarrow> squeeze \<Rightarrow> squeeze \<Rightarrow> bool" where
  "advances a e ws bs q q' \<longleftrightarrow>
    entries_set a e ws bs q' \<and> (\<forall>t. 1 \<le> t \<and> t \<le> e - bs \<and> reached a e ws bs q t \<longrightarrow> reached a e ws bs q' t)"

lemma advances_refl: "entries_set a e ws bs q \<Longrightarrow> advances a e ws bs q q"
  by (simp add: advances_def)

lemma advances_trans: "advances a e ws bs q q' \<Longrightarrow> advances a e ws bs q' q'' \<Longrightarrow> advances a e ws bs q q''"
  by (simp add: advances_def)

lemma advances_reached: "advances a e ws bs q q' \<Longrightarrow> reached a e ws bs q t \<Longrightarrow> 1 \<le> t \<Longrightarrow> t \<le> e - bs \<Longrightarrow> reached a e ws bs q' t"
  by (simp add: advances_def)

lemma set_entry_simps [simp]:
  "costs (set_entry t c k q) = (costs q)[t := to_float c]"
  "length_array (set_entry t c k q) = (length_array q)[t := k]"
  "qstate (set_entry t c k q) = qstate q" "qhash (set_entry t c k q) = qhash q" "qsublen (set_entry t c k q) = qsublen q"
  by (simp_all add: set_entry_def)

lemma reached_cong:
  "costs q' ! t = costs q ! t \<Longrightarrow> length_array q' ! t = length_array q ! t \<Longrightarrow> reached a e ws bs q' t \<longleftrightarrow> reached a e ws bs q t"
  by (simp add: reached_def)

lemma set_entry_advances:
  assumes set: "entries_set a e ws bs q" and t: "1 \<le> t" "t \<le> e - bs" "t < 2 ^ 24"
    and k: "1 \<le> k" "k \<le> t" "k = 1 \<or> 3 \<le> k \<and> k \<le> full_length a e ws (bs + t - k)"
    and c: "0 \<le> c" "c \<le> of_nat (t * 2 ^ 8)"
  shows "advances a e ws bs q (set_entry t c k q)" and "reached a e ws bs (set_entry t c k q) t"
proof -
  have len: "t < length (costs q)" "t < length (length_array q)" using set t(2) by (simp_all add: entries_set_def)
  have "to_float c \<le> of_nat (t * 2 ^ 8)" using rnd_le [OF c, of 24] t(3) by simp
  moreover have "0 \<le> to_float c" using rnd_nonneg [OF c(1), of 24] by simp
  ultimately show r: "reached a e ws bs (set_entry t c k q) t" using k len by (simp add: reached_def)
  have same: "reached a e ws bs (set_entry t c k q) u \<longleftrightarrow> reached a e ws bs q u" "costs (set_entry t c k q) ! u = costs q ! u"
    if "u \<noteq> t" for u
    using that by (auto intro!: reached_cong)
  have "reached a e ws bs (set_entry t c k q) u \<or> costs (set_entry t c k q) ! u = unset_cost"
    if "1 \<le> u" "u \<le> e - bs" for u
    using r same [of u] set that unfolding entries_set_def by (cases "u = t") (simp_all only: simp_thms)
  moreover have "costs (set_entry t c k q) ! 0 = 0" using set t(1) by (simp add: entries_set_def)
  ultimately have "entries_set a e ws bs (set_entry t c k q)" using set by (simp add: entries_set_def)
  moreover have "reached a e ws bs (set_entry t c k q) u" if "reached a e ws bs q u" for u
    using r same(1) [of u] that by (cases "u = t") (simp_all only: simp_thms)
  ultimately show "advances a e ws bs q (set_entry t c k q)" by (simp add: advances_def)
qed

text \<open>A position whose successors may be tried.\<close>

definition based :: "nat \<Rightarrow> squeeze \<Rightarrow> bool" where
  "based j q \<longleftrightarrow> 0 \<le> costs q ! j \<and> costs q ! j \<le> of_nat (j * 2 ^ 8)"

lemma reached_based: "reached a e ws bs q j \<Longrightarrow> based j q"
  by (simp add: reached_def based_def)

lemma not_unset:
  assumes "entries_set a e ws bs q" and "1 \<le> t" and "t \<le> e - bs" and "costs q ! t \<le> of_nat (n * 2 ^ 8)" and "n < 2 ^ 25"
  shows "reached a e ws bs q t"
  using assms unset_cost_large [OF assms(5)] unfolding entries_set_def by (metis leD)

lemma added_cost:
  assumes "0 \<le> c" and "c \<le> 256" and "0 \<le> x" and "x \<le> of_nat (j * 2 ^ 8)" and "j < 2 ^ 24"
  shows "0 \<le> dadd c x" and "dadd c x \<le> of_nat ((j + 1) * 2 ^ 8)" and "dadd x c = dadd c x"
proof -
  have "c + x \<le> of_nat ((j + 1) * 2 ^ 8)" using assms(2,4) by (simp add: distrib_right)
  then show "dadd c x \<le> of_nat ((j + 1) * 2 ^ 8)"
    unfolding dadd_def using assms by (intro rnd_le) simp_all
  show "0 \<le> dadd c x" unfolding dadd_def using assms by (intro rnd_nonneg) simp_all
  show "dadd x c = dadd c x" by (simp add: dadd_def add.commute)
qed

section \<open>Long repetitions\<close>

lemma full_length_run:
  assumes "ws < i" and "i + 258 \<le> e" and "e \<le> length a" and run: "\<And>k. k \<le> 258 \<Longrightarrow> a ! (i - 1 + k) = a ! (i - 1)"
  shows "full_length a e ws i = 258"
proof -
  have ctx: "search_ctx (hash_at a e ws (Suc i)) a e ws i 258" using assms(1-3) by (simp add: search_ctx_def)
  obtain d l sub where r: "search_match (hash_at a e ws (Suc i)) a i e 258 None = Some (d, l, sub)"
    using search_match_sound [OF ctx, of None] by (auto simp: sublen_fits_def)
  have "l = 258" using search_match_repeat [OF ctx assms(1) run r] by simp
  moreover have "min 258 (e - i) = 258" using assms(2) by simp
  ultimately show ?thesis using r assms(2) by (simp add: full_length_def)
qed

text \<open>Where a repetition is skipped, all bytes from 258 before to 516 after the position are equal.\<close>

lemma long_repetition_run:
  assumes "long_repetition bs e i (hash_at a e ws (Suc i))" and "ws \<le> bs"
  shows "bs + 259 < i" and "i + 517 < e" and "\<And>p. i - 258 \<le> p \<Longrightarrow> p \<le> i + 516 \<Longrightarrow> a ! p = a ! i"
proof -
  note lr = assms(1) [unfolded long_repetition_def window_mask]
  show i: "bs + 259 < i" and e: "i + 517 < e" using lr by simp_all
  have ws: "ws \<le> Suc i" "ws \<le> i" "ws \<le> i - 258" using assms(2) i by auto
  have "same (hash_at a e ws (Suc i)) (i mod ZOPFLI_WINDOW_SIZE) = run_of_equal a e ws i"
      "same (hash_at a e ws (Suc i)) ((i - 258) mod ZOPFLI_WINDOW_SIZE) = run_of_equal a e ws (i - 258)"
    by (rule hash_at_same [OF ws(1), of a e, THEN conjunct1, rule_format], use ws i in simp)+
  then have r: "516 < run_of_equal a e ws i" "258 < run_of_equal a e ws (i - 258)" using lr by simp_all
  have up: "a ! (i + j) = a ! i" if "j \<le> 516" for j
    using run_of_equal_sound [OF ws(2), of e a] e r(1) that by auto
  have down: "a ! (i - 258 + j) = a ! (i - 258)" if "j \<le> 258" for j
    using run_of_equal_sound [OF ws(3), of e a] e r(2) that by auto
  fix p
  assume p: "i - 258 \<le> p" "p \<le> i + 516"
  show "a ! p = a ! i"
  proof (cases "i \<le> p")
    case True
    then show ?thesis using up [of "p - i"] p(2) by simp
  next
    case False
    have "i - 258 + (p - (i - 258)) = p" "p - (i - 258) \<le> 258" "i - 258 + 258 = i" using False p(1) i by auto
    then show ?thesis using down [of "p - (i - 258)"] down [of 258] by simp
  qed
qed

lemma repetition_full:
  assumes "long_repetition bs e i (hash_at a e ws (Suc i))" and "ws \<le> bs" and "e \<le> length a" and "i - 257 \<le> p" and "p \<le> i + 258"
  shows "full_length a e ws p = 258"
proof -
  note r = long_repetition_run [OF assms(1,2)]
  have eq: "a ! (p - 1 + k) = a ! i" if "k \<le> 258" for k using r(3) [of "p - 1 + k"] assms(4,5) r(1) that by auto
  show ?thesis
    by (rule full_length_run [OF _ _ assms(3)]) (use r(1,2) assms(2,4,5) eq [of 0] eq in auto)
qed

lemma repetition_loop_advances:
  assumes "entries_set a e ws bs q" and "i = bs + j" and "e - bs < 2 ^ 24" and "i + n + 258 \<le> e" and "0 \<le> c" and "c \<le> 256"
    and "\<And>m. m < n \<Longrightarrow> reached a e ws bs q (j + m) \<and> full_length a e ws (i + m) = 258"
    and "qhash q = hash_at a e ws (Suc i)" and "ws \<le> bs" and "1 \<le> j"
  shows "advances a e ws bs q (repetition_loop a e c n i j q) \<and>
    (\<forall>m < n. reached a e ws bs (repetition_loop a e c n i j q) (j + 258 + m)) \<and>
    qhash (repetition_loop a e c n i j q) = hash_at a e ws (Suc (i + n)) \<and>
    qstate (repetition_loop a e c n i j q) = qstate q \<and> qsublen (repetition_loop a e c n i j q) = qsublen q"
  using assms
proof (induction n arbitrary: i j q)
  case (Suc n)
  let ?c = "dadd (costs q ! j) c"
  define q1 where "q1 = set_entry (j + 258) ?c 258 q"
  define q2 where "q2 = q1\<lparr>qhash := ZopfliUpdateHash a (Suc i) e (qhash q1)\<rparr>"
  have j: "reached a e ws bs q j" "full_length a e ws i = 258" using Suc.prems(7) [of 0] by simp_all
  have lt: "j < 2 ^ 24" "1 \<le> j + 258" "j + 258 \<le> e - bs" "j + 258 < 2 ^ 24" using Suc.prems(2-4) by auto
  have b: "0 \<le> costs q ! j" "costs q ! j \<le> of_nat (j * 2 ^ 8)" using j(1) by (simp_all add: reached_def)
  note n = added_cost [OF Suc.prems(5,6) b lt(1)]
  have le: "of_nat ((j + 1) * 2 ^ 8) \<le> (of_nat ((j + 258) * 2 ^ 8) :: rat)" by (simp only: of_nat_le_iff) simp
  have "advances a e ws bs q q1 \<and> reached a e ws bs q1 (j + 258)"
    unfolding q1_def using set_entry_advances [OF Suc.prems(1) lt(2-4), of 258 ?c] n le j(2) Suc.prems(2) by auto
  then have q1: "advances a e ws bs q q1" "reached a e ws bs q1 (j + 258)" by simp_all
  have cong: "reached a e ws bs q2 = reached a e ws bs q1" "entries_set a e ws bs q2 = entries_set a e ws bs q1"
    by (auto simp: q2_def fun_eq_iff reached_def entries_set_def)
  have a2: "advances a e ws bs q q2" using q1(1) by (simp add: advances_def cong)
  have h2: "qhash q2 = hash_at a e ws (Suc (Suc i))"
    using hash_at_Suc [of ws "Suc i" a e] Suc.prems(2,8,9) by (simp add: q2_def q1_def)
  define r where "r = repetition_loop a e c n (Suc i) (Suc j) q2"
  have r_eq: "repetition_loop a e c (Suc n) i j q = r" by (simp add: r_def q2_def q1_def Let_def)
  have IH: "advances a e ws bs q2 r \<and> (\<forall>m < n. reached a e ws bs r (Suc j + 258 + m)) \<and>
      qhash r = hash_at a e ws (Suc (Suc i + n)) \<and> qstate r = qstate q2 \<and> qsublen r = qsublen q2"
    unfolding r_def
  proof (rule Suc.IH)
    show "entries_set a e ws bs q2" using a2 by (simp add: advances_def)
    show "reached a e ws bs q2 (Suc j + m) \<and> full_length a e ws (Suc i + m) = 258" if "m < n" for m
      using Suc.prems(7) [of "Suc m"] that lt(3) Suc.prems(2,4) by (auto intro!: advances_reached [OF a2])
  qed (use Suc.prems h2 in auto)
  have "reached a e ws bs r (j + 258 + m)" if "m < Suc n" for m
  proof (cases m)
    case 0
    then show ?thesis using IH q1(2) lt by (auto simp: cong intro!: advances_reached [of a e ws bs q2 r])
  next
    case (Suc m')
    then have "reached a e ws bs r (Suc j + 258 + m')" using IH that by simp
    then show ?thesis using Suc by (simp add: add.assoc)
  qed
  with IH advances_trans [OF a2] show ?case by (simp only: r_eq) (simp add: q2_def q1_def)
qed (simp add: advances_refl)

section \<open>The invariant of the forward pass\<close>

text \<open>
  Every position up to the current one is reached, and so are those that the matches at the
  position before lead to, and the one that the shortest match two positions before leads to.
\<close>

definition squeeze_inv :: "byte list \<Rightarrow> nat \<Rightarrow> nat \<Rightarrow> nat \<Rightarrow> nat \<Rightarrow> squeeze \<Rightarrow> bool" where
  "squeeze_inv a e ws bs i q \<longleftrightarrow>
    state_inv a e ws (qstate q) \<and> blockstart (qstate q) = bs \<and> e \<le> length a \<and> length (qsublen q) = 259 \<and>
    qhash q = hash_at a e ws i \<and> e - bs < 2 ^ 24 \<and> bs \<le> i \<and> i \<le> e \<and> entries_set a e ws bs q \<and>
    (\<forall>t. 1 \<le> t \<and> t \<le> i - bs \<longrightarrow> reached a e ws bs q t) \<and>
    (bs < i \<longrightarrow> (\<forall>k. 3 \<le> k \<and> k \<le> full_length a e ws (i - 1) \<longrightarrow> reached a e ws bs q (i - bs - 1 + k))) \<and>
    (bs + 2 \<le> i \<and> 3 \<le> full_length a e ws (i - 2) \<longrightarrow> reached a e ws bs q (i - bs + 1))"

lemma qhash_update [simp]:
  "reached a e ws bs (q\<lparr>qhash := h\<rparr>) = reached a e ws bs q" "entries_set a e ws bs (q\<lparr>qhash := h\<rparr>) = entries_set a e ws bs q"
  "reached a e ws bs (q\<lparr>qstate := s, qsublen := sl\<rparr>) = reached a e ws bs q"
  "entries_set a e ws bs (q\<lparr>qstate := s, qsublen := sl\<rparr>) = entries_set a e ws bs q"
  by (auto simp: fun_eq_iff reached_def entries_set_def)

text \<open>What holds at position \<open>i + n\<close> when \<open>n\<close> bytes of a repetition were skipped.\<close>

definition skipped_to :: "byte list \<Rightarrow> nat \<Rightarrow> nat \<Rightarrow> nat \<Rightarrow> nat \<Rightarrow> nat \<Rightarrow> squeeze \<Rightarrow> bool" where
  "skipped_to a e ws bs i n q \<longleftrightarrow>
    state_inv a e ws (qstate q) \<and> blockstart (qstate q) = bs \<and> length (qsublen q) = 259 \<and>
    qhash q = hash_at a e ws (Suc (i + n)) \<and> i + n < e \<and> entries_set a e ws bs q \<and>
    (\<forall>t. 1 \<le> t \<and> t \<le> i + n - bs \<longrightarrow> reached a e ws bs q t) \<and>
    (bs < i + n \<and> 3 \<le> full_length a e ws (i + n - 1) \<longrightarrow> reached a e ws bs q (i + n - bs + 2))"

section \<open>The interface of a cost model\<close>

locale cost_model =
  fixes cm :: CostModelFun
  assumes literal_cost: "l < 256 \<Longrightarrow> \<exists>c. cm l 0 = Some c \<and> 0 \<le> c \<and> c \<le> 256"
    and match_cost: "3 \<le> l \<Longrightarrow> l \<le> 258 \<Longrightarrow> 1 \<le> d \<Longrightarrow> d \<le> 32768 \<Longrightarrow> \<exists>c. cm l d = Some c \<and> 0 \<le> c \<and> c \<le> 256"
begin

lemma cheapest_range:
  assumes "\<And>i. i \<in> set is \<Longrightarrow> \<exists>c. f i = Some c \<and> c \<le> 256" and "best \<in> S \<or> m = of_nat ZOPFLI_LARGE_FLOAT \<and> is \<noteq> []" and "set is \<subseteq> S"
  shows "\<exists>b. cheapest f is best m = Some b \<and> b \<in> S"
  using assms
proof (induction f "is" best m rule: cheapest.induct)
  case (2 f i "is" best m)
  obtain c where c: "f i = Some c" "c \<le> 256" using 2(3) [of i] by auto
  have large: "c < of_nat ZOPFLI_LARGE_FLOAT" using c(2) by (simp add: ZOPFLI_LARGE_FLOAT_def)
  show ?case
  proof (cases "c < m")
    case True
    with 2(1) [OF c(1) True] 2(3-5) c(1) show ?thesis by simp
  next
    case False
    with large 2(4) have "best \<in> S" by auto
    with 2(2) [OF c(1) False] 2(3,5) c(1) False show ?thesis by simp
  qed
qed simp

lemma min_cost: "\<exists>c. GetCostModelMinCost cm = Some c \<and> 0 \<le> c \<and> c \<le> 256"
proof -
  have "\<exists>b. cheapest (\<lambda>i. cm i 1) [3..<259] 0 (of_nat ZOPFLI_LARGE_FLOAT) = Some b \<and> b \<in> {3..258}"
  proof (rule cheapest_range)
    show "\<exists>c. cm i 1 = Some c \<and> c \<le> 256" if "i \<in> set [3..<259]" for i
      using match_cost [of i 1] that by (auto simp del: upt_rec_numeral)
  qed (auto simp del: upt_rec_numeral)
  then obtain bl where bl: "cheapest (\<lambda>i. cm i 1) [3..<259] 0 (of_nat ZOPFLI_LARGE_FLOAT) = Some bl" "3 \<le> bl" "bl \<le> 258"
    by auto
  have d: "set dsymbols \<subseteq> {1..32768}" by (simp add: dsymbols_def)
  have "\<exists>b. cheapest (cm 3) dsymbols 0 (of_nat ZOPFLI_LARGE_FLOAT) = Some b \<and> b \<in> {1..32768}"
  proof (rule cheapest_range [OF _ _ d])
    show "\<exists>c. cm 3 i = Some c \<and> c \<le> 256" if "i \<in> set dsymbols" for i
    proof -
      have "i \<in> {1..32768}" using d that by blast
      with match_cost [of 3 i] show ?thesis by auto
    qed
  qed (simp add: dsymbols_def)
  then obtain bd where "cheapest (cm 3) dsymbols 0 (of_nat ZOPFLI_LARGE_FLOAT) = Some bd" "1 \<le> bd" "bd \<le> 32768" by auto
  with bl match_cost [of bl bd] show ?thesis by (simp add: GetCostModelMinCost_def del: upt_rec_numeral)
qed

lemma try_literal_advances:
  assumes set: "entries_set a e ws bs q" and base: "based j q" and j: "i = bs + j" "i < e" "e - bs < 2 ^ 24"
  shows "\<exists>q'. try_literal a e cm i j q = Some q' \<and> advances a e ws bs q q' \<and> reached a e ws bs q' (j + 1) \<and>
    qstate q' = qstate q \<and> qhash q' = qhash q \<and> qsublen q' = qsublen q \<and> costs q' ! j = costs q ! j"
proof -
  obtain c where c: "cm (unat (a ! i)) 0 = Some c" "0 \<le> c" "c \<le> 256"
    using literal_cost [of "unat (a ! i)"] unsigned_less [of "a ! i", where ?'a = nat] by auto
  have lt: "j < 2 ^ 24" "j + 1 \<le> e - bs" "j + 1 < 2 ^ 24" using j by auto
  note n = added_cost(1,2) [OF c(2,3) base [unfolded based_def, THEN conjunct1] base [unfolded based_def, THEN conjunct2] lt(1)]
  show ?thesis
  proof (cases "dadd c (costs q ! j) < costs q ! (j + 1)")
    case True
    have "try_literal a e cm i j q = Some (set_entry (j + 1) (dadd c (costs q ! j)) 1 q)"
      using c(1) n(1) True j(2) by (simp add: try_literal_def)
    with set_entry_advances [OF set _ lt(2,3) _ _ _ n, of 1] show ?thesis by simp
  next
    case False
    have "try_literal a e cm i j q = Some q" using c(1) n(1) False j(2) by (simp add: try_literal_def)
    moreover have "reached a e ws bs q (j + 1)"
      by (rule not_unset [OF set _ lt(2), of "j + 1"]) (use False n(2) lt in simp_all)
    ultimately show ?thesis using advances_refl [OF set] by simp
  qed
qed

lemma try_lengths_advances:
  assumes "entries_set a e ws bs q" and "based j q" and "i = bs + j" and "e - bs < 2 ^ 24"
    and "\<And>k. k \<in> set ks \<Longrightarrow> 3 \<le> k \<and> k \<le> 258 \<and> i + k \<le> e \<and> k \<le> full_length a e ws i \<and> 1 \<le> sl ! k \<and> sl ! k \<le> 32768"
    and m: "m \<le> of_nat ((j + 1) * 2 ^ 8)"
  shows "\<exists>q'. try_lengths cm sl m j ks q = Some q' \<and> advances a e ws bs q q' \<and> (\<forall>k \<in> set ks. reached a e ws bs q' (j + k)) \<and>
    qstate q' = qstate q \<and> qhash q' = qhash q \<and> qsublen q' = qsublen q"
  using assms
proof (induction ks arbitrary: q)
  case (Cons k ks)
  have k: "3 \<le> k" "k \<le> 258" "i + k \<le> e" "k \<le> full_length a e ws i" "1 \<le> sl ! k" "sl ! k \<le> 32768"
    using Cons.prems(5) [of k] by auto
  have lt: "1 \<le> j + k" "j + k \<le> e - bs" "j + k < 2 ^ 24" "j < 2 ^ 24" "j + 1 < 2 ^ 25" using k(1,3) Cons.prems(3,4) by auto
  obtain c where c: "cm k (sl ! k) = Some c" "0 \<le> c" "c \<le> 256" using match_cost [OF k(1,2,5,6)] by auto
  let ?n = "dadd c (costs q ! j)"
  note n = added_cost(1,2) [OF c(2,3) Cons.prems(2) [unfolded based_def, THEN conjunct1]
      Cons.prems(2) [unfolded based_def, THEN conjunct2] lt(4)]
  have rest: "\<exists>q'. try_lengths cm sl m j ks q1 = Some q' \<and> advances a e ws bs q q' \<and>
      (\<forall>k' \<in> set (k # ks). reached a e ws bs q' (j + k')) \<and> qstate q' = qstate q \<and> qhash q' = qhash q \<and> qsublen q' = qsublen q"
    if q1: "advances a e ws bs q q1" "reached a e ws bs q1 (j + k)" "costs q1 ! j = costs q ! j"
      "qstate q1 = qstate q" "qhash q1 = qhash q" "qsublen q1 = qsublen q" for q1
  proof -
    have b1: "based j q1" using Cons.prems(2) q1(3) by (simp add: based_def)
    have e1: "entries_set a e ws bs q1" using q1(1) by (simp add: advances_def)
    obtain q' where q': "try_lengths cm sl m j ks q1 = Some q'" "advances a e ws bs q1 q'"
        "\<forall>k \<in> set ks. reached a e ws bs q' (j + k)" "qstate q' = qstate q1" "qhash q' = qhash q1" "qsublen q' = qsublen q1"
      using Cons.IH [OF e1 b1 Cons.prems(3,4) _ m] Cons.prems(5) by auto
    have "reached a e ws bs q' (j + k)" by (rule advances_reached [OF q'(2) q1(2) lt(1,2)])
    then show ?thesis using q' advances_trans [OF q1(1) q'(2)] q1(4-6) by simp
  qed
  show ?case
  proof (cases "costs q ! (j + k) \<le> m")
    case True
    have "costs q ! (j + k) \<le> of_nat ((j + 1) * 2 ^ 8)" using True m by simp
    from not_unset [OF Cons.prems(1) lt(1,2) this lt(5)] have "reached a e ws bs q (j + k)" .
    from rest [OF advances_refl [OF Cons.prems(1)] this] True show ?thesis by simp
  next
    case no_skip: False
    show ?thesis
    proof (cases "?n < costs q ! (j + k)")
      case True
      have le: "of_nat ((j + 1) * 2 ^ 8) \<le> (of_nat ((j + k) * 2 ^ 8) :: rat)" using k(1) by (simp only: of_nat_le_iff) simp
      have f: "k \<le> full_length a e ws (bs + (j + k) - k)" using k(4) Cons.prems(3) by simp
      have up: "?n \<le> of_nat ((j + k) * 2 ^ 8)" using n(2) le by (rule order_trans)
      note s = set_entry_advances [of a e ws bs q "j + k" k ?n, OF Cons.prems(1) lt(1-3) _ _ _ n(1) up]
      have "advances a e ws bs q (set_entry (j + k) ?n k q)" "reached a e ws bs (set_entry (j + k) ?n k q) (j + k)"
        using s k(1) f by simp_all
      from rest [OF this] no_skip c(1) n(1) True k(1,2) show ?thesis by simp
    next
      case False
      have "costs q ! (j + k) \<le> of_nat ((j + 1) * 2 ^ 8)" using False n(2) by simp
      from not_unset [OF Cons.prems(1) lt(1,2) this lt(5)] have "reached a e ws bs q (j + k)" .
      from rest [OF advances_refl [OF Cons.prems(1)] this] no_skip c(1) n(1) False show ?thesis by simp
    qed
  qed
qed (simp add: advances_refl)

lemma skip_repetition_reaches:
  assumes inv: "squeeze_inv a e ws bs i q" and i: "i < e" and q0: "q0 = q\<lparr>qhash := ZopfliUpdateHash a i e (qhash q)\<rparr>"
  shows "\<exists>n q1. skip_repetition a bs e cm i q0 = Some (n, q1) \<and> skipped_to a e ws bs i n q1"
proof -
  note inv' = inv [unfolded squeeze_inv_def]
  have ws: "ws \<le> bs" "ws \<le> i" using inv' by (auto simp: state_inv_def)
  have base: "e \<le> length a" "e - bs < 2 ^ 24" "bs \<le> i" using inv' by simp_all
  have h0: "qhash q0 = hash_at a e ws (Suc i)" using hash_at_Suc [OF ws(2)] inv' by (simp add: q0)
  have r0: "reached a e ws bs q0 = reached a e ws bs q" "entries_set a e ws bs q0" using inv' by (simp_all add: q0)
  have ahead: "reached a e ws bs q (i - bs - 1 + k)" if "bs < i" "3 \<le> k" "k \<le> full_length a e ws (i - 1)" for k
    using inv' that by simp
  show ?thesis
  proof (cases "long_repetition bs e i (hash_at a e ws (Suc i))")
    case False
    have "reached a e ws bs q (i - bs + 2)" if "bs < i" "3 \<le> full_length a e ws (i - 1)"
    proof -
      have "i - bs - 1 + 3 = i - bs + 2" using that(1) by simp
      then show ?thesis using ahead [of 3] that by simp
    qed
    then have "skipped_to a e ws bs i 0 q0" using inv' h0 r0 i by (simp add: skipped_to_def q0)
    then show ?thesis using False h0 by (simp add: skip_repetition_def)
  next
    case True
    note run = long_repetition_run [OF True ws(1)] and full = repetition_full [OF True ws(1) base(1)]
    define j where "j = i - bs"
    have j: "i = bs + j" "259 < j" using run(1) by (auto simp: j_def)
    obtain c where c: "cm 258 1 = Some c" "0 \<le> c" "c \<le> 256" using match_cost [of 258 1] by auto
    have at: "reached a e ws bs q0 (j + m)" if "m < 258" for m
    proof -
      consider "m = 0" | "m = 1" | "2 \<le> m" by linarith
      then show ?thesis
      proof cases
        case 1
        then show ?thesis using inv' j by (simp add: r0)
      next
        case 2
        have "3 \<le> full_length a e ws (i - 2)" using full [of "i - 2"] run(1) by simp
        then show ?thesis using inv' j 2 by (simp add: r0)
      next
        case 3
        have "i - bs - 1 + (m + 1) = j + m" using j by simp
        moreover have "m + 1 \<le> full_length a e ws (i - 1)" using full [of "i - 1"] run(1) that by simp
        ultimately show ?thesis using ahead [of "m + 1"] 3 j by (simp add: r0)
      qed
    qed
    define q1 where "q1 = repetition_loop a e c 258 i j q0"
    have loop: "advances a e ws bs q0 q1 \<and> (\<forall>m < 258. reached a e ws bs q1 (j + 258 + m)) \<and>
        qhash q1 = hash_at a e ws (Suc (i + 258)) \<and> qstate q1 = qstate q0 \<and> qsublen q1 = qsublen q0"
      unfolding q1_def
      by (rule repetition_loop_advances [OF r0(2) j(1) base(2) _ c(2,3) _ h0 ws(1)]) (use run(2) at full j in auto)
    have "reached a e ws bs q1 t" if "1 \<le> t" "t \<le> i + 258 - bs" for t
    proof (cases "t < j")
      case True
      then have "reached a e ws bs q0 t" using inv' that j by (simp add: r0)
      then show ?thesis using loop that run(2) j by (auto intro: advances_reached)
    next
      case False
      show ?thesis
      proof (cases "t < j + 258")
        case True
        then have "reached a e ws bs q0 t" using at [of "t - j"] False by simp
        then show ?thesis using loop that run(2) j by (auto intro: advances_reached)
      next
        case no: False
        then have "t = j + 258 + 0" using that j by simp
        then show ?thesis using loop by (metis zero_less_numeral)
      qed
    qed
    moreover have "reached a e ws bs q1 (i + 258 - bs + 2)"
    proof -
      have "i + 258 - bs + 2 = j + 258 + 2" using j by simp
      moreover have "reached a e ws bs q1 (j + 258 + m)" if "m < 258" for m using loop that by blast
      from this [of 2] have "reached a e ws bs q1 (j + 258 + 2)" by simp
      ultimately show ?thesis by (simp only:)
    qed
    moreover have "entries_set a e ws bs q1" using loop by (simp add: advances_def)
    ultimately have "skipped_to a e ws bs i 258 q1" using inv' run(2) loop by (simp add: skipped_to_def q0)
    then show ?thesis using True h0 c(1) by (simp add: skip_repetition_def j_def [symmetric] q1_def)
  qed
qed

lemma best_turn_inv:
  assumes inv: "squeeze_inv a e ws bs i q" and i: "i < e" and mc: "0 \<le> mincost" "mincost \<le> 256"
  shows "\<exists>n q'. best_turn a bs e cm mincost i q = Some (n, q') \<and> squeeze_inv a e ws bs (Suc (i + n)) q'"
proof -
  note inv' = inv [unfolded squeeze_inv_def]
  have ws: "ws \<le> bs" "ws \<le> i" using inv' by (auto simp: state_inv_def)
  have base: "e \<le> length a" "e - bs < 2 ^ 24" "bs \<le> i" using inv' by simp_all
  define q0 where "q0 = q\<lparr>qhash := ZopfliUpdateHash a i e (qhash q)\<rparr>"
  have h0: "qhash q0 = hash_at a e ws (Suc i)" using hash_at_Suc [OF ws(2)] inv' by (simp add: q0_def)
  obtain n q1 where skip: "skip_repetition a bs e cm i q0 = Some (n, q1)" and skipped: "skipped_to a e ws bs i n q1"
    using skip_repetition_reaches [OF inv i q0_def] by blast
  note sk = skipped [unfolded skipped_to_def]
  define p j where "p = i + n" and "j = p - bs"
  have pj: "p = bs + j" "bs \<le> p" "p < e" using sk base(3) by (auto simp: p_def j_def)
  have pre: "state_inv a e ws (qstate q1) \<and> blockstart (qstate q1) = bs \<and> e \<le> length a" "length (qsublen q1) = 259"
    using sk base(1) by simp_all
  obtain s d l sl where f: "ZopfliFindLongestMatch (qstate q1) (hash_at a e ws (Suc p)) a p e 258 (Some (qsublen q1)) = Some (s, d, l, Some sl)"
      "state_inv a e ws s \<and> blockstart s = bs \<and> e \<le> length a" "length sl = 259"
      "full_length a e ws p < 3 \<Longrightarrow> l < 3" "3 \<le> full_length a e ws p \<Longrightarrow> l = full_length a e ws p" "l \<le> 258" "p + l \<le> e \<or> l < 3"
      "\<And>k. 3 \<le> k \<Longrightarrow> k \<le> l \<Longrightarrow> is_match a ws p (sl ! k) k"
    by (rule finder.find_full [of a e ws "qstate q1" bs p "qsublen q1", OF pre(1) pj(2,3) pre(2)]) blast
  define q2 where "q2 = q1\<lparr>qstate := s, qsublen := sl\<rparr>"
  have e2: "entries_set a e ws bs q2" "reached a e ws bs q2 = reached a e ws bs q1" using sk by (simp_all add: q2_def)
  have b2: "based j q2"
  proof (cases "j = 0")
    case True
    then show ?thesis using e2(1) by (simp add: based_def entries_set_def)
  next
    case False
    then show ?thesis using sk e2(2) by (intro reached_based [of a e ws bs]) (auto simp: p_def j_def)
  qed
  obtain q3 where q3: "try_literal a e cm p j q2 = Some q3" "advances a e ws bs q2 q3" "reached a e ws bs q3 (j + 1)"
      "qstate q3 = qstate q2" "qhash q3 = qhash q2" "qsublen q3 = qsublen q2" "costs q3 ! j = costs q2 ! j"
    using try_literal_advances [OF e2(1) b2 pj(1,3) base(2)] by blast
  have e3: "entries_set a e ws bs q3" and b3: "based j q3" using q3 b2 by (simp_all add: advances_def based_def)
  have lt: "j < 2 ^ 24" using pj base(2) by simp
  note m = added_cost(2) [OF mc b3 [unfolded based_def, THEN conjunct1] b3 [unfolded based_def, THEN conjunct2] lt]
  let ?ks = "[3..<zopfli_min l (e - p) + 1]"
  have ks: "3 \<le> k \<and> k \<le> 258 \<and> p + k \<le> e \<and> k \<le> full_length a e ws p \<and> 1 \<le> sl ! k \<and> sl ! k \<le> 32768"
    if "k \<in> set ?ks" for k
  proof -
    have k: "3 \<le> k" "k \<le> l" "p + k \<le> e" using that pj(3) by (auto simp: zopfli_min_def split: if_splits)
    with f(4,5) have "k \<le> full_length a e ws p" by (cases "full_length a e ws p < 3") auto
    moreover have "is_match a ws p (sl ! k) k" by (rule f(8)) (use k in simp_all)
    ultimately show ?thesis using k f(6) by (auto simp: is_match_def)
  qed
  obtain q4 where q4: "try_lengths cm sl (dadd mincost (costs q3 ! j)) j ?ks q3 = Some q4" "advances a e ws bs q3 q4"
      "\<forall>k \<in> set ?ks. reached a e ws bs q4 (j + k)" "qstate q4 = qstate q3" "qhash q4 = qhash q3" "qsublen q4 = qsublen q3"
    using try_lengths_advances [OF e3 b3 pj(1) base(2) ks m] by blast
  have "best_turn a bs e cm mincost i q = Some (n, q4)"
    using skip f(1) q3(1,6) q4(1) sk
    by (simp add: best_turn_def Let_def q0_def [symmetric] p_def [symmetric] j_def [symmetric] q2_def del: upt_Suc)
  moreover have "squeeze_inv a e ws bs (Suc p) q4"
  proof -
    note adv = advances_trans [OF q3(2) q4(2)]
    have keep: "reached a e ws bs q4 t" if "reached a e ws bs q1 t" "1 \<le> t" "t \<le> e - bs" for t
      using advances_reached [OF adv] e2(2) that by simp
    have "reached a e ws bs q4 t" if "1 \<le> t" "t \<le> Suc p - bs" for t
    proof (cases "t = j + 1")
      case True
      then show ?thesis using advances_reached [OF q4(2) q3(3)] pj by auto
    next
      case False
      then show ?thesis using that sk pj by (intro keep) (auto simp: p_def)
    qed
    moreover have "reached a e ws bs q4 (Suc p - bs - 1 + k)" if "3 \<le> k" "k \<le> full_length a e ws (Suc p - 1)" for k
    proof -
      have "k \<in> set ?ks" using that f(5,7) by (auto simp: zopfli_min_def)
      then have "reached a e ws bs q4 (j + k)" using q4(3) by blast
      then show ?thesis using pj by simp
    qed
    moreover have "reached a e ws bs q4 (Suc p - bs + 1)" if "bs + 2 \<le> Suc p" "3 \<le> full_length a e ws (Suc p - 2)"
    proof -
      have "ws \<le> p - 1" using that(1) ws(1) by simp
      from full_length_le [OF base(1) this] have "p - 1 + full_length a e ws (p - 1) \<le> e" using pj(3) by auto
      with that sk have "reached a e ws bs q1 (j + 2)" "j + 2 \<le> e - bs" using pj by (auto simp: p_def j_def)
      then show ?thesis using keep [of "j + 2"] pj by simp
    qed
    moreover have "entries_set a e ws bs q4" using q4(2) by (simp add: advances_def)
    ultimately show ?thesis
      using f(2,3) q3(4-6) q4(4-6) pj base sk by (simp add: squeeze_inv_def q2_def p_def)
  qed
  ultimately show ?thesis by (auto simp: p_def)
qed

lemma best_loop_reaches:
  assumes "squeeze_inv a e ws bs i q" and "0 \<le> mincost" and "mincost \<le> 256"
  shows "\<exists>q'. best_loop a bs e cm mincost i q = Some q' \<and> squeeze_inv a e ws bs e q'"
  using assms(1)
proof (induction "e - i" arbitrary: i q rule: less_induct)
  case less
  show ?case
  proof (cases "i < e")
    case True
    obtain n q' where t: "best_turn a bs e cm mincost i q = Some (n, q')" "squeeze_inv a e ws bs (Suc (i + n)) q'"
      using best_turn_inv [OF less(2) True assms(2,3)] by blast
    have "e - Suc (i + n) < e - i" using True by simp
    from less(1) [OF this t(2)] t(1) True show ?thesis by (simp add: best_loop.simps [of a bs e cm mincost i])
  next
    case False
    then have "i = e" using less(2) by (simp add: squeeze_inv_def)
    then show ?thesis using less(2) by (simp add: best_loop.simps)
  qed
qed

lemma best_lengths:
  assumes "state_inv a e (window_start bs) s" and "blockstart s = bs" and "e \<le> length a" and "e - bs < 2 ^ 24"
    and "length sl0 = 259" and "length lengths = e - bs + 1" and "bs < e"
  obtains cost s' h' lengths' q where "GetBestLengths s a bs e cm lengths h sl0 = Some (cost, s', h', lengths')"
    and "cost < of_nat ZOPFLI_LARGE_FLOAT" and "state_inv a e (window_start bs) s'" and "blockstart s' = bs"
    and "length lengths' = e - bs + 1" and "length_array q = lengths'"
    and "\<And>t. 1 \<le> t \<Longrightarrow> t \<le> e - bs \<Longrightarrow> reached a e (window_start bs) bs q t"
proof -
  obtain m where m: "GetCostModelMinCost cm = Some m" "0 \<le> m" "m \<le> 256" using min_cost by blast
  let ?q = "\<lparr>qstate = s, qhash = hash_at a e (window_start bs) bs, qsublen = sl0,
    costs = 0 # replicate (e - bs) unset_cost, length_array = lengths[0 := 0]\<rparr>"
  have "squeeze_inv a e (window_start bs) bs bs ?q"
    using assms by (auto simp: squeeze_inv_def entries_set_def nth_Cons')
  then obtain q where q: "best_loop a bs e cm m bs ?q = Some q" "squeeze_inv a e (window_start bs) bs e q"
    using best_loop_reaches [OF _ m(2,3)] by blast
  note inv = q(2) [unfolded squeeze_inv_def]
  have r: "reached a e (window_start bs) bs q t" if "1 \<le> t" "t \<le> e - bs" for t using inv that by simp
  have last: "0 \<le> costs q ! (e - bs)" "costs q ! (e - bs) \<le> of_nat ((e - bs) * 2 ^ 8)"
    using r [of "e - bs"] assms(7) by (simp_all add: reached_def)
  have "(of_nat ((e - bs) * 2 ^ 8) :: rat) < of_nat ZOPFLI_LARGE_FLOAT"
    using assms(4) by (simp only: of_nat_less_iff) (simp add: ZOPFLI_LARGE_FLOAT_def)
  then have "costs q ! (e - bs) < of_nat ZOPFLI_LARGE_FLOAT" using last(2) by simp
  moreover have "GetBestLengths s a bs e cm lengths h sl0 = Some (costs q ! (e - bs), qstate q, qhash q, length_array q)"
    using assms(7) m(1) q(1) last(1) by (simp add: GetBestLengths_def start_hash)
  moreover have "length (length_array q) = e - bs + 1" using inv by (simp add: entries_set_def)
  ultimately show thesis using that [of _ "qstate q" "qhash q" "length_array q" q] inv r by blast
qed

end

section \<open>The way back\<close>

text \<open>Lengths that lead from one position to another.\<close>

fun walk :: "byte list \<Rightarrow> nat \<Rightarrow> nat \<Rightarrow> nat \<Rightarrow> nat list \<Rightarrow> nat \<Rightarrow> bool" where
  "walk a e ws p [] r \<longleftrightarrow> p = r"
| "walk a e ws p (k # ks) r \<longleftrightarrow>
    (k = 1 \<or> 3 \<le> k \<and> k \<le> full_length a e ws p) \<and> p + k \<le> e \<and> walk a e ws (p + k) ks r"

lemma walk_append: "walk a e ws p (ks @ ls) r \<longleftrightarrow> (\<exists>m. walk a e ws p ks m \<and> walk a e ws m ls r)"
  by (induction a e ws p ks r arbitrary: r rule: walk.induct) auto

lemma mirror_rev: "mirror xs = rev xs"
proof -
  define swap where "swap = (\<lambda>i (p :: nat list). p[i := p ! (length p - i - 1), length p - i - 1 := p ! i])"
  have len: "length (fold swap is p) = length p" for "is" p by (induction "is" arbitrary: p) (simp_all add: swap_def)
  have inv: "fold swap [0..<m] xs ! i = (if i < m \<or> length xs \<le> i + m then xs ! (length xs - 1 - i) else xs ! i)"
    if "m \<le> length xs div 2" "i < length xs" for m i
    using that
  proof (induction m arbitrary: i)
    case (Suc m)
    define ys where "ys = fold swap [0..<m] xs"
    have l: "length ys = length xs" by (simp add: ys_def len)
    have ys: "ys ! i = (if i < m \<or> length xs \<le> i + m then xs ! (length xs - 1 - i) else xs ! i)" if "i < length xs" for i
      using Suc that by (simp add: ys_def)
    have m: "Suc m + Suc m \<le> length xs" using Suc.prems(1) by simp
    have "fold swap [0..<Suc m] xs = swap m ys" by (simp add: ys_def)
    then have "fold swap [0..<Suc m] xs ! i = ys[m := ys ! (length ys - m - 1), length ys - m - 1 := ys ! m] ! i"
      by (simp only: swap_def)
    also have "\<dots> = (if i = length xs - m - 1 then xs ! m else if i = m then xs ! (length xs - m - 1) else ys ! i)"
      using Suc.prems(2) m by (auto simp: nth_list_update l ys)
    also have "\<dots> = (if i < Suc m \<or> length xs \<le> i + Suc m then xs ! (length xs - 1 - i) else xs ! i)"
      using Suc.prems(2) m ys [of i] by auto
    finally show ?case .
  qed simp
  show ?thesis
  proof (rule nth_equalityI)
    show "mirror xs ! i = rev xs ! i" if "i < length (mirror xs)" for i
    proof -
      have i: "i < length xs" using that len by (simp add: mirror_def swap_def)
      have "xs ! (length xs - 1 - i) = xs ! i" if "\<not> i < length xs div 2" "\<not> length xs \<le> i + length xs div 2"
      proof -
        have "length xs - 1 - i = i" using that i by linarith
        then show ?thesis by simp
      qed
      then show ?thesis using inv [OF order_refl i] i by (auto simp: mirror_def swap_def rev_nth)
    qed
  qed (use len in \<open>simp add: mirror_def swap_def\<close>)
qed

lemma trace_loop_walk:
  assumes "\<And>t. 1 \<le> t \<Longrightarrow> t \<le> index \<Longrightarrow> reached a e ws bs q t" and "1 \<le> index" and "bs + index \<le> e"
    and "e \<le> length a" and "ws \<le> bs"
  shows "\<exists>ks. trace_loop (length_array q) index p = Some (p @ ks) \<and> walk a e ws bs (rev ks) (bs + index)"
  using assms
proof (induction index arbitrary: p rule: less_induct)
  case (less index)
  define k where "k = length_array q ! index"
  have k: "1 \<le> k" "k \<le> index" "k = 1 \<or> 3 \<le> k \<and> k \<le> full_length a e ws (bs + index - k)"
    using less.prems(1) [of index] less.prems(2) by (simp_all add: reached_def k_def)
  have "ws \<le> bs + index - k" using less.prems(5) k(2) by simp
  then have k258: "k \<le> 258" using full_length_le [OF less.prems(4)] k(3) by fastforce
  have tr: "trace_loop (length_array q) index p =
      (if index - k = 0 then Some (p @ [k]) else trace_loop (length_array q) (index - k) (p @ [k]))"
    using k(1,2) k258 by (simp add: trace_loop.simps [of _ index] k_def [symmetric] Let_def)
  have at: "bs + (index - k) = bs + index - k" using k(2) by simp
  show ?case
  proof (cases "index - k = 0")
    case True
    then have "index = k" using k(2) by simp
    then show ?thesis using tr k less.prems(3) by (intro exI [of _ "[k]"]) auto
  next
    case False
    obtain ks where ks: "trace_loop (length_array q) (index - k) (p @ [k]) = Some ((p @ [k]) @ ks)"
        "walk a e ws bs (rev ks) (bs + (index - k))"
      using less.IH [of "index - k" "p @ [k]"] less.prems k(1,2) False by fastforce
    have "walk a e ws (bs + (index - k)) [k] (bs + index)" using k less.prems(3) at by auto
    with ks tr False show ?thesis by (intro exI [of _ "k # ks"]) (auto simp: walk_append)
  qed
qed

lemma follow_loop_path:
  assumes "walk a e ws p ks e" and "state_inv a e ws s \<and> blockstart s = bs \<and> e \<le> length a" and "bs \<le> p"
    and "store_path a st p0 p" and "h = hash_at a e ws p"
  shows "\<exists>s' st' h'. follow_loop a e p ks s st h = Some (s', st', h') \<and> state_inv a e ws s' \<and> blockstart s' = bs \<and>
    store_path a st' p0 e"
  using assms
proof (induction ks arbitrary: p s st h)
  case (Cons k ks)
  have k: "k = 1 \<or> 3 \<le> k \<and> k \<le> full_length a e ws p" "p + k \<le> e" "walk a e ws (p + k) ks e" using Cons.prems(1) by simp_all
  have ws: "ws \<le> p" using Cons.prems(2,3) by (auto simp: state_inv_def)
  have p: "p < e" "bs \<le> p + k" using k Cons.prems(3) by auto
  have h: "ZopfliUpdateHash a p e h = hash_at a e ws (Suc p)" using hash_at_Suc [OF ws] Cons.prems(5) by simp
  have h2: "update_range a (Suc p) (p + k) e (hash_at a e ws (Suc p)) = hash_at a e ws (p + k)" if "1 \<le> k"
    using hash_at_range [of ws "Suc p" "p + k" a e] ws that by simp
  show ?case
  proof (cases "k = 1")
    case True
    obtain st' where "ZopfliStoreLitLenDist (unat (a ! p)) 0 p st = Some st'" "store_path a st' p0 (Suc p)"
      by (rule store_path_literal [OF Cons.prems(4)]) (use p Cons.prems(2) in auto)
    with Cons.IH [OF k(3) Cons.prems(2) p(2), of st'] True p h h2 k(2) show ?thesis by (simp add: update_range_def)
  next
    case False
    then have k': "3 \<le> k" "k \<le> full_length a e ws p" using k(1) by auto
    obtain s' d where f: "ZopfliFindLongestMatch s (hash_at a e ws (Suc p)) a p e k None = Some (s', d, k, None)"
        "state_inv a e ws s' \<and> blockstart s' = bs \<and> e \<le> length a" "is_match a ws p d k"
      by (rule finder.find_limited [of a e ws s bs p k, OF Cons.prems(2,3) p(1) k'])
    have le: "k \<le> 258" "p + k \<le> length a" using full_length_le [OF _ ws, of e a] k'(2) k(2) Cons.prems(2) by auto
    obtain st' where st: "ZopfliStoreLitLenDist k d p st = Some st'" "store_path a st' p0 (p + k)"
      by (rule store_path_match [OF Cons.prems(4) f(3) k'(1) le])
    have "follow_loop a e p (k # ks) s st h = follow_loop a e (p + k) ks s' st' (hash_at a e ws (p + k))"
      using p(1) h f(1) st(1) k(2) k'(1) h2 VerifyLenDist_match [OF f(3) k(2)] by simp
    with Cons.IH [OF k(3) f(2) p(2) st(2) refl] show ?thesis by simp
  qed
qed simp

context cost_model
begin

lemma optimal_run:
  assumes "state_inv a e (window_start bs) s" and "blockstart s = bs" and "e \<le> length a" and "e - bs < 2 ^ 24"
    and "length sl0 = 259" and "length lengths = e - bs + 1" and "store_path a st p0 bs"
  obtains cost s' st' h' lengths' where "LZ77OptimalRun s a bs e lengths cm st h sl0 = Some (cost, s', st', h', lengths')"
    and "state_inv a e (window_start bs) s'" and "blockstart s' = bs" and "store_path a st' p0 e"
    and "length lengths' = e - bs + 1"
proof (cases "bs = e")
  case True
  obtain m where "GetCostModelMinCost cm = Some m" using min_cost by blast
  then show thesis
    using that [of 0 s st h lengths] assms True
    by (simp add: LZ77OptimalRun_def GetBestLengths_def TraceBackwards_def FollowPath_def ZOPFLI_LARGE_FLOAT_def)
next
  case False
  have lt: "bs < e" "window_start bs \<le> bs" using assms(1,2) False by (auto simp: state_inv_def)
  obtain cost s1 h1 lengths1 q where b: "GetBestLengths s a bs e cm lengths h sl0 = Some (cost, s1, h1, lengths1)"
      "cost < of_nat ZOPFLI_LARGE_FLOAT" "state_inv a e (window_start bs) s1" "blockstart s1 = bs"
      "length lengths1 = e - bs + 1" "length_array q = lengths1"
      "\<And>t. 1 \<le> t \<Longrightarrow> t \<le> e - bs \<Longrightarrow> reached a e (window_start bs) bs q t"
    by (rule best_lengths [OF assms(1-6) lt(1), of h]) blast
  have "1 \<le> e - bs" "bs + (e - bs) \<le> e" using lt(1) by simp_all
  from trace_loop_walk [of "e - bs" a e "window_start bs" bs q "[]", OF b(7) this assms(3) lt(2)]
  obtain ks where ks: "trace_loop lengths1 (e - bs) [] = Some ks" "walk a e (window_start bs) bs (rev ks) e"
    using b(6) lt(1) by auto
  obtain s' st' h' where f: "follow_loop a e bs (rev ks) s1 st (hash_at a e (window_start bs) bs) = Some (s', st', h')"
      "state_inv a e (window_start bs) s'" "blockstart s' = bs" "store_path a st' p0 e"
    using follow_loop_path [OF ks(2) _ order_refl assms(7) refl, of s1] b(3,4) assms(3) by auto
  have "LZ77OptimalRun s a bs e lengths cm st h sl0 = Some (cost, s', st', h', lengths1)"
    using b(1,2) ks(1) f(1) False lt(1)
    by (simp add: LZ77OptimalRun_def TraceBackwards_def FollowPath_def mirror_rev start_hash Let_def)
  with f b(5) that show thesis by blast
qed

end

section \<open>The fixed cost model\<close>

interpretation fixed_cost: cost_model GetCostFixed
proof
  show "\<exists>c. GetCostFixed l 0 = Some c \<and> 0 \<le> c \<and> c \<le> 256" for l by (simp add: GetCostFixed_def)
  fix l d :: nat
  assume l: "3 \<le> l" "l \<le> 258" and d: "1 \<le> d" "d \<le> 32768"
  then have "encodable (fst GetFixedTree) (snd GetFixedTree) (l, d)" by (simp add: fixed_encodable_command deflate_command_def)
  note enc = encodable_match [OF this] encodable_dist [OF this]
  obtain b where b: "ZopfliGetLengthExtraBits (int l) = Some (int b)" "b \<le> 5" using enc(1) d by (metis fst_conv snd_conv not_one_le_zero)
  obtain db where db: "ZopfliGetDistExtraBits (int d) = int db" "db \<le> 13" using enc(2) d by (metis snd_conv not_one_le_zero)
  obtain sy where "ZopfliGetLengthSymbol (int l) = Some sy" using length_symbol_range [of l] l by auto
  then have c: "GetCostFixed l d = Some (of_int ((if sy \<le> 279 then 7 else 8) + 5 + int db + int b))"
    using b(1) db(1) d by (simp add: GetCostFixed_def)
  have "0 \<le> (if sy \<le> 279 then 7 else 8) + 5 + int db + int b \<and> (if sy \<le> 279 then 7 else 8) + 5 + int db + int b \<le> 256"
    using b(2) db(2) by auto
  then have "(of_int 0 :: rat) \<le> of_int ((if sy \<le> 279 then 7 else 8) + 5 + int db + int b) \<and>
      (of_int ((if sy \<le> 279 then 7 else 8) + 5 + int db + int b) :: rat) \<le> of_int 256"
    by (simp only: of_int_le_iff)
  with c show "\<exists>c. GetCostFixed l d = Some c \<and> 0 \<le> c \<and> c \<le> 256" by simp
qed

lemma optimal_fixed:
  assumes "state_inv a e (window_start bs) s" and "blockstart s = bs" and "e \<le> length a" and "e - bs < 2 ^ 24"
    and "store_path a st p0 bs"
  obtains s' st' where "ZopfliLZ77OptimalFixed mem s a bs e st = Some (s', st')" and "store_path a st' p0 e"
proof -
  have "s\<lparr>blockstart := bs, blockend := e\<rparr> = s" using assms(1,2) by (simp add: state_inv_def)
  moreover obtain cost s' st' h' lengths' where "LZ77OptimalRun s a bs e (map (lengths0 mem) [0..<e - bs + 1]) GetCostFixed st
        (hash0 mem) (map (sublen0 mem) [0..<259]) = Some (cost, s', st', h', lengths')" "store_path a st' p0 e"
    by (rule fixed_cost.optimal_run [OF assms(1-4) _ _ assms(5), of "map (sublen0 mem) [0..<259]"
          "map (lengths0 mem) [0..<e - bs + 1]" "hash0 mem"]) (simp_all only: length_map length_upt diff_zero)
  ultimately show thesis using that by (simp add: ZopfliLZ77OptimalFixed_def del: upt_Suc upt_rec_numeral)
qed

end
