(* ===== verification/Zopfli_Stats.thy ===== *)
theory Zopfli_Stats
  imports Zopfli_Squeeze_Inv
begin

text \<open>
  The iterated optimal parse (\<open>ZopfliCalculateEntropy\<close> of \<open>tree.c\<close>; \<open>SymbolStats\<close>, the random number generator,
  \<open>GetCostStat\<close> and \<open>ZopfliLZ77Optimal\<close> of \<open>squeeze.c\<close>). The logarithm of the C library is an argument \<open>clog\<close>; what
  is used of it is that it is accurate to \<open>2 ^ -40\<close>. Memory suffices: where an allocation fails the
  program exits.

  The costs computed from statistics satisfy the interface of a cost model, so that every round
  gives a path over the block, and the best one is returned.
\<close>

section \<open>Entropy\<close>

definition kInvLog2 :: rat where
  "kInvLog2 = to_double (14426950408889 / 10 ^ 13)"

definition clamp_bits :: "rat \<Rightarrow> rat option" where
  "clamp_bits b =
    (let b = (if b < 0 \<and> b > - to_double (1 / 10 ^ 5) then 0 else b) in if \<not> b \<ge> 0 then None else Some b)"

definition ZopfliCalculateEntropy :: "(rat \<Rightarrow> rat) \<Rightarrow> nat list \<Rightarrow> rat list option" where
  "ZopfliCalculateEntropy clog counts =
    (let sum = foldl (\<lambda>sum c. sum + of_nat c) (0 :: u32) counts;
         log2sum = dmul (if sum = 0 then clog (to_double (of_nat (length counts))) else clog (to_double (of_nat (unat sum)))) kInvLog2
     in those (map (\<lambda>c. clamp_bits
          (if c = 0 then log2sum else dsub log2sum (dmul (clog (to_double (of_nat c))) kInvLog2))) counts))"

section \<open>Statistics\<close>

record SymbolStats =
  st_litlens :: "nat list"
  st_dists :: "nat list"
  st_ll_symbols :: "rat list"
  st_d_symbols :: "rat list"

definition InitStats :: SymbolStats where
  "InitStats =
    \<lparr>st_litlens = replicate ZOPFLI_NUM_LL 0, st_dists = replicate ZOPFLI_NUM_D 0,
     st_ll_symbols = replicate ZOPFLI_NUM_LL 0, st_d_symbols = replicate ZOPFLI_NUM_D 0\<rparr>"

definition CopyStats :: "SymbolStats \<Rightarrow> SymbolStats \<Rightarrow> SymbolStats" where
  "CopyStats source dest =
    dest\<lparr>st_litlens := st_litlens source, st_dists := st_dists source,
         st_ll_symbols := st_ll_symbols source, st_d_symbols := st_d_symbols source\<rparr>"

definition weighed :: "rat \<Rightarrow> rat \<Rightarrow> nat \<Rightarrow> nat \<Rightarrow> nat" where
  "weighed w1 w2 c1 c2 = nat \<lfloor>dadd (dmul (to_double (of_nat c1)) w1) (dmul (to_double (of_nat c2)) w2)\<rfloor>"

definition AddWeighedStatFreqs :: "SymbolStats \<Rightarrow> rat \<Rightarrow> SymbolStats \<Rightarrow> rat \<Rightarrow> SymbolStats \<Rightarrow> SymbolStats" where
  "AddWeighedStatFreqs stats1 w1 stats2 w2 result =
    result
      \<lparr>st_litlens := (map (\<lambda>i. weighed w1 w2 (st_litlens stats1 ! i) (st_litlens stats2 ! i)) [0..<ZOPFLI_NUM_LL])[256 := 1],
       st_dists := map (\<lambda>i. weighed w1 w2 (st_dists stats1 ! i) (st_dists stats2 ! i)) [0..<ZOPFLI_NUM_D]\<rparr>"

record RanState =
  m_w :: u32
  m_z :: u32

definition InitRanState :: RanState where
  "InitRanState = \<lparr>m_w = 1, m_z = 2\<rparr>"

definition Ran :: "RanState \<Rightarrow> u32 \<times> RanState" where
  "Ran state =
    (let z = 36969 * (m_z state AND 65535) + drop_bit 16 (m_z state);
         w = 18000 * (m_w state AND 65535) + drop_bit 16 (m_w state)
     in (push_bit 16 z + w, \<lparr>m_w = w, m_z = z\<rparr>))"

fun RandomizeFreqs_from :: "nat list \<Rightarrow> nat \<Rightarrow> RanState \<Rightarrow> nat list \<Rightarrow> RanState \<times> nat list" where
  "RandomizeFreqs_from [] n state freqs = (state, freqs)"
| "RandomizeFreqs_from (i # is) n state freqs =
    (case Ran state of
       (r, state) \<Rightarrow>
         if drop_bit 4 r mod 3 = 0 then
           (case Ran state of
              (r, state) \<Rightarrow> RandomizeFreqs_from is n state (freqs[i := freqs ! (unat (r mod of_nat n))]))
         else RandomizeFreqs_from is n state freqs)"

definition RandomizeFreqs :: "RanState \<Rightarrow> nat list \<Rightarrow> nat \<Rightarrow> RanState \<times> nat list" where
  "RandomizeFreqs state freqs n = RandomizeFreqs_from [0..<n] n state freqs"

definition RandomizeStatFreqs :: "RanState \<Rightarrow> SymbolStats \<Rightarrow> RanState \<times> SymbolStats" where
  "RandomizeStatFreqs state stats =
    (case RandomizeFreqs state (st_litlens stats) ZOPFLI_NUM_LL of
       (state, ll) \<Rightarrow>
         (case RandomizeFreqs state (st_dists stats) ZOPFLI_NUM_D of
            (state, d) \<Rightarrow> (state, stats\<lparr>st_litlens := ll[256 := 1], st_dists := d\<rparr>)))"

definition ClearStatFreqs :: "SymbolStats \<Rightarrow> SymbolStats" where
  "ClearStatFreqs stats =
    stats\<lparr>st_litlens := map (\<lambda>_. 0) [0..<ZOPFLI_NUM_LL], st_dists := map (\<lambda>_. 0) [0..<ZOPFLI_NUM_D]\<rparr>"

definition GetCostStat :: "SymbolStats \<Rightarrow> CostModelFun" where
  "GetCostStat stats litlen distance =
    (if distance = 0 then Some (st_ll_symbols stats ! litlen)
     else
       do {
         lsym \<leftarrow> ZopfliGetLengthSymbol (int litlen);
         lbits \<leftarrow> ZopfliGetLengthExtraBits (int litlen);
         let dsym = ZopfliGetDistSymbol (int distance);
         let dbits = ZopfliGetDistExtraBits (int distance);
         Some (dadd (dadd (of_int (lbits + dbits)) (st_ll_symbols stats ! nat lsym)) (st_d_symbols stats ! nat dsym))
       })"

definition CalculateStatistics :: "(rat \<Rightarrow> rat) \<Rightarrow> SymbolStats \<Rightarrow> SymbolStats option" where
  "CalculateStatistics clog stats =
    do {
      ll \<leftarrow> ZopfliCalculateEntropy clog (st_litlens stats);
      d \<leftarrow> ZopfliCalculateEntropy clog (st_dists stats);
      Some (stats\<lparr>st_ll_symbols := ll, st_d_symbols := d\<rparr>)
    }"

definition inc :: "nat \<Rightarrow> nat list \<Rightarrow> nat list" where
  "inc i xs = xs[i := xs ! i + 1]"

fun count_commands :: "lz77_store \<Rightarrow> nat list \<Rightarrow> SymbolStats \<Rightarrow> SymbolStats option" where
  "count_commands store [] stats = Some stats"
| "count_commands store (i # is) stats =
    (if dists store ! i = 0 then
       count_commands store is (stats\<lparr>st_litlens := inc (litlens store ! i) (st_litlens stats)\<rparr>)
     else
       do {
         ls \<leftarrow> ZopfliGetLengthSymbol (int (litlens store ! i));
         count_commands store is
           (stats\<lparr>st_litlens := inc (nat ls) (st_litlens stats),
                  st_dists := inc (nat (ZopfliGetDistSymbol (int (dists store ! i)))) (st_dists stats)\<rparr>)
       })"

definition GetStatistics :: "(rat \<Rightarrow> rat) \<Rightarrow> lz77_store \<Rightarrow> SymbolStats \<Rightarrow> SymbolStats option" where
  "GetStatistics clog store stats =
    do {
      stats \<leftarrow> count_commands store [0..<lsize store] stats;
      CalculateStatistics clog (stats\<lparr>st_litlens := (st_litlens stats)[256 := 1]\<rparr>)
    }"

section \<open>The iterated parse\<close>

record optimal =
  ostate :: ZopfliBlockState
  ohash :: ZopfliHash
  olengths :: "nat list"
  stats :: SymbolStats
  beststats :: SymbolStats
  laststats :: SymbolStats
  bestcost :: nat
  lastcost :: nat
  ran_state :: RanState
  lastrandomstep :: int
  ostore :: lz77_store

definition keep_best :: "nat \<Rightarrow> lz77_store \<Rightarrow> optimal \<Rightarrow> optimal option" where
  "keep_best cost currentstore o1 =
    (if cost < bestcost o1 then
       map_option (\<lambda>st. o1\<lparr>ostore := st, beststats := CopyStats (stats o1) (beststats o1), bestcost := cost\<rparr>)
         (ZopfliCopyLZ77Store currentstore (replicate 7 True))
     else Some o1)"

definition next_stats :: "(rat \<Rightarrow> rat) \<Rightarrow> lz77_store \<Rightarrow> optimal \<Rightarrow> optimal option" where
  "next_stats clog currentstore o1 =
    do {
      let o1 = o1\<lparr>laststats := CopyStats (stats o1) (laststats o1)\<rparr>;
      st \<leftarrow> GetStatistics clog currentstore (ClearStatFreqs (stats o1));
      st \<leftarrow> (if lastrandomstep o1 \<noteq> - 1
              then CalculateStatistics clog (AddWeighedStatFreqs st 1 (laststats o1) (1 / 2) st)
              else Some st);
      Some (o1\<lparr>stats := st\<rparr>)
    }"

definition randomize :: "(rat \<Rightarrow> rat) \<Rightarrow> nat \<Rightarrow> nat \<Rightarrow> optimal \<Rightarrow> optimal option" where
  "randomize clog i cost o1 =
    (if i > 5 \<and> cost = lastcost o1 then
       (case RandomizeStatFreqs (ran_state o1) (CopyStats (beststats o1) (stats o1)) of
          (state, st) \<Rightarrow>
            map_option (\<lambda>st. o1\<lparr>stats := st, ran_state := state, lastrandomstep := int i\<rparr>) (CalculateStatistics clog st))
     else Some o1)"

definition optimal_round :: "(rat \<Rightarrow> rat) \<Rightarrow> nat list \<Rightarrow> byte list \<Rightarrow> nat \<Rightarrow> nat \<Rightarrow> nat \<Rightarrow> optimal \<Rightarrow> optimal option" where
  "optimal_round clog sublen inp instart inend i o1 =
    do {
      (_, s, currentstore, h, lengths) \<leftarrow>
        LZ77OptimalRun (ostate o1) inp instart inend (olengths o1) (GetCostStat (stats o1)) (ZopfliInitLZ77Store inp)
          (ohash o1) sublen;
      cost \<leftarrow> ZopfliCalculateBlockSize currentstore 0 (lsize currentstore) 2;
      o1 \<leftarrow> keep_best cost currentstore (o1\<lparr>ostate := s, ohash := h, olengths := lengths\<rparr>);
      o1 \<leftarrow> next_stats clog currentstore o1;
      o1 \<leftarrow> randomize clog i cost o1;
      Some (o1\<lparr>lastcost := cost\<rparr>)
    }"

fun optimal_rounds :: "(rat \<Rightarrow> rat) \<Rightarrow> nat list \<Rightarrow> byte list \<Rightarrow> nat \<Rightarrow> nat \<Rightarrow> nat list \<Rightarrow> optimal \<Rightarrow> optimal option" where
  "optimal_rounds clog sublen inp instart inend [] o1 = Some o1"
| "optimal_rounds clog sublen inp instart inend (i # is) o1 =
    (case optimal_round clog sublen inp instart inend i o1 of
       None \<Rightarrow> None
     | Some o1 \<Rightarrow> optimal_rounds clog sublen inp instart inend is o1)"

text \<open>\<open>beststats\<close> and \<open>laststats\<close> have no initial contents, so these are an argument.\<close>

definition ZopfliLZ77Optimal ::
  "(rat \<Rightarrow> rat) \<Rightarrow> scratch \<Rightarrow> SymbolStats \<Rightarrow> ZopfliBlockState \<Rightarrow> byte list \<Rightarrow> nat \<Rightarrow> nat \<Rightarrow> nat \<Rightarrow> lz77_store \<Rightarrow>
   (ZopfliBlockState \<times> lz77_store) option"
where
  "ZopfliLZ77Optimal clog mem stats0 s inp instart inend numiterations store =
    do {
      let blocksize = inend - instart;
      let sublen = map (sublen0 mem) [0..<259];
      let lengths = map (lengths0 mem) [0..<blocksize + 1];
      (s, currentstore, h) \<leftarrow> ZopfliLZ77Greedy s inp instart inend (ZopfliInitLZ77Store inp) (hash0 mem) sublen;
      st \<leftarrow> GetStatistics clog currentstore InitStats;
      o1 \<leftarrow> optimal_rounds clog sublen inp instart inend [0..<numiterations]
        \<lparr>ostate = s, ohash = h, olengths = lengths, stats = st, beststats = stats0, laststats = stats0,
         bestcost = ZOPFLI_LARGE_FLOAT, lastcost = 0, ran_state = InitRanState, lastrandomstep = - 1, ostore = store\<rparr>;
      Some (ostate o1, ostore o1)
    }"

section \<open>Accuracy of the entropy\<close>

definition log_accurate :: "(rat \<Rightarrow> rat) \<Rightarrow> bool" where
  "log_accurate clog \<longleftrightarrow> (\<forall>n. 1 \<le> n \<and> n < 2 ^ 32 \<longrightarrow> \<bar>real_of_rat (clog (of_nat n)) - ln (real n)\<bar> \<le> 1 / 2 ^ 40)"

lemma clog_bounds:
  assumes "log_accurate clog" and "1 \<le> c" and "c \<le> n" and "n < 2 ^ 32"
  shows "- (1 / 1000000000) \<le> clog (of_nat c)" and "clog (of_nat c) \<le> clog (of_nat n) + 1 / 1000000000" and "clog (of_nat n) \<le> 33"
proof -
  have acc: "\<bar>real_of_rat (clog (of_nat m)) - ln (real m)\<bar> \<le> 1 / 2 ^ 40" if "1 \<le> m" "m < 2 ^ 32" for m
    using assms(1) that unfolding log_accurate_def by blast
  have c: "\<bar>real_of_rat (clog (of_nat c)) - ln (real c)\<bar> \<le> 1 / 2 ^ 40"
    and n: "\<bar>real_of_rat (clog (of_nat n)) - ln (real n)\<bar> \<le> 1 / 2 ^ 40"
    by (rule acc; use assms(2-4) in simp)+
  have small: "(1 :: real) / 2 ^ 40 \<le> 1 / 2000000000" by simp
  have mono: "0 \<le> ln (real c)" "ln (real c) \<le> ln (real n)" using assms(2,3) by simp_all
  have "ln (real n) \<le> ln (2 ^ 32)" using assms(2-4) by (subst ln_le_cancel_iff) simp_all
  also have "\<dots> = real 32 * ln 2" by (simp only: ln_realpow zero_less_numeral)
  also have "\<dots> \<le> 32" using ln_le_minus_one [of 2] by simp
  finally have up: "ln (real n) \<le> 32" .
  have "- (1 / 1000000000) \<le> real_of_rat (clog (of_nat c))" using c mono small by linarith
  moreover have "real_of_rat (- (1 / 1000000000)) = - (1 / 1000000000)" by (simp add: of_rat_minus of_rat_divide)
  ultimately have "real_of_rat (- (1 / 1000000000)) \<le> real_of_rat (clog (of_nat c))" by linarith
  then show "- (1 / 1000000000) \<le> clog (of_nat c)" by (simp only: of_rat_less_eq)
  have "real_of_rat (clog (of_nat n) + 1 / 1000000000) = real_of_rat (clog (of_nat n)) + 1 / 1000000000"
    by (simp add: of_rat_add of_rat_divide)
  then have "real_of_rat (clog (of_nat c)) \<le> real_of_rat (clog (of_nat n) + 1 / 1000000000)"
    using c n mono small by linarith
  then show "clog (of_nat c) \<le> clog (of_nat n) + 1 / 1000000000" by (simp only: of_rat_less_eq)
  have "real_of_rat 33 = 33" by simp
  then have "real_of_rat (clog (of_nat n)) \<le> real_of_rat 33" using n up small by linarith
  then show "clog (of_nat n) \<le> 33" by (simp only: of_rat_less_eq)
qed

lemma double_error:
  assumes "- 64 < x" and "x < 64"
  shows "x - 1 / 1000000000 \<le> to_double x" and "to_double x \<le> x + 1 / 1000000000"
proof -
  have "\<bar>x\<bar> < 2 powi 6" using assms by (simp add: abs_less_iff)
  from rnd_error [OF this, of 53] have "\<bar>to_double x - x\<bar> \<le> (1 / 2) ^ 47" by (simp add: power_int_def)
  also have "(1 / 2 :: rat) ^ 47 \<le> 1 / 1000000000" by (simp add: power_one_over)
  finally show "x - 1 / 1000000000 \<le> to_double x" "to_double x \<le> x + 1 / 1000000000" by linarith+
qed

lemma kInvLog2_range: "1 \<le> kInvLog2" "kInvLog2 \<le> 3 / 2"
proof -
  have "1 + 1 / 1000000000 \<le> (14426950408889 / 10 ^ 13 :: rat)" "(14426950408889 / 10 ^ 13 :: rat) \<le> 3 / 2 - 1 / 1000000000"
    by simp_all
  then show "1 \<le> kInvLog2" "kInvLog2 \<le> 3 / 2" unfolding kInvLog2_def using double_error [of "14426950408889 / 10 ^ 13"] by linarith+
qed

lemma clamp_limit: "1 / 1000000 \<le> to_double (1 / 10 ^ 5)"
proof -
  have "(1 / 10 ^ 5 :: rat) = 1 / 100000" by simp
  then show ?thesis using double_error(1) [of "1 / 10 ^ 5"] by linarith
qed

lemma product_range:
  assumes "- (1 / 1000000000) \<le> l" and "l \<le> 33"
  shows "- (2 / 1000000000) \<le> l * kInvLog2" and "l * kInvLog2 \<le> 50"
proof -
  note k = kInvLog2_range
  have "- (1 / 1000000000) * kInvLog2 \<le> l * kInvLog2" by (rule mult_right_mono [OF assms(1)]) (use k in simp)
  with k(2) show "- (2 / 1000000000) \<le> l * kInvLog2" by linarith
  have "l * kInvLog2 \<le> 33 * kInvLog2" by (rule mult_right_mono [OF assms(2)]) (use k in simp)
  with k(2) show "l * kInvLog2 \<le> 50" by linarith
qed

lemma bits_of_count:
  assumes "log_accurate clog" and "1 \<le> n" and "n < 2 ^ 32" and "c \<le> n"
  shows "\<exists>v. clamp_bits (if c = 0 then dmul (clog (of_nat n)) kInvLog2
      else dsub (dmul (clog (of_nat n)) kInvLog2) (dmul (clog (of_nat c)) kInvLog2)) = Some v \<and> 0 \<le> v \<and> v \<le> 64"
proof -
  define x where "x = clog (of_nat n) * kInvLog2"
  define L where "L = dmul (clog (of_nat n)) kInvLog2"
  note bn = clog_bounds [OF assms(1,2) order_refl assms(3)]
  note px = product_range [OF bn(1,3), folded x_def]
  have Lx: "L = to_double x" by (simp add: L_def dmul_def x_def)
  have L: "x - 1 / 1000000000 \<le> L" "L \<le> x + 1 / 1000000000" unfolding Lx by (rule double_error; use px in linarith)+
  have clamp: "\<exists>v. clamp_bits b = Some v \<and> 0 \<le> v \<and> v \<le> 64" if "- (1 / 1000000) < b" "b \<le> 64" for b
    using that clamp_limit by (auto simp: clamp_bits_def Let_def)
  show ?thesis
  proof (cases "c = 0")
    case True
    have "- (1 / 1000000) < L" "L \<le> 64" using L px by linarith+
    then show ?thesis using clamp True by (simp add: L_def)
  next
    case False
    then have c1: "1 \<le> c" by simp
    note bc = clog_bounds [OF assms(1) c1 assms(4,3)]
    define y where "y = clog (of_nat c) * kInvLog2"
    define P where "P = dmul (clog (of_nat c)) kInvLog2"
    have "clog (of_nat c) \<le> 33" by (rule clog_bounds(3) [OF assms(1) c1 order_refl]) (use assms(3,4) in simp)
    note py = product_range [OF bc(1) this, folded y_def]
    have Py: "P = to_double y" by (simp add: P_def dmul_def y_def)
    have P: "y - 1 / 1000000000 \<le> P" "P \<le> y + 1 / 1000000000" unfolding Py by (rule double_error; use py in linarith)+
    have "(clog (of_nat c) - clog (of_nat n)) * kInvLog2 \<le> 1 / 1000000000 * kInvLog2"
      by (rule mult_right_mono) (use bc(2) kInvLog2_range in linarith)+
    then have xy: "y - x \<le> 2 / 1000000000" using kInvLog2_range unfolding x_def y_def left_diff_distrib by linarith
    have z: "- (4 / 1000000000) \<le> L - P" "L - P \<le> 51" using L P xy px py by linarith+
    have "L - P - 1 / 1000000000 \<le> dsub L P" "dsub L P \<le> L - P + 1 / 1000000000"
      unfolding dsub_def by (rule double_error; use z in linarith)+
    then have "- (1 / 1000000) < dsub L P" "dsub L P \<le> 64" using z by linarith+
    then show ?thesis using clamp False by (simp add: L_def P_def)
  qed
qed

lemma those_map:
  assumes "\<And>x. x \<in> set xs \<Longrightarrow> \<exists>v. f x = Some v \<and> P v"
  shows "\<exists>vs. those (map f xs) = Some vs \<and> length vs = length xs \<and> (\<forall>v \<in> set vs. P v)"
  using assms
proof (induction xs)
  case (Cons x xs)
  obtain v where v: "f x = Some v" "P v" using Cons.prems [of x] by auto
  obtain vs where "those (map f xs) = Some vs" "length vs = length xs" "\<forall>v \<in> set vs. P v" using Cons.IH Cons.prems by auto
  with v show ?case by (intro exI [of _ "v # vs"]) simp
qed simp

lemma foldl_sum_u32: "foldl (\<lambda>sum c. sum + of_nat c) (s :: u32) cs = s + of_nat (sum_list cs)"
  by (induction cs arbitrary: s) simp_all

lemma entropy_terms:
  assumes "length cs < 2 ^ 32" and "sum_list cs < 2 ^ 32" and "n = (if sum_list cs = 0 then length cs else sum_list cs)"
  shows "ZopfliCalculateEntropy clog cs =
    those (map (\<lambda>c. clamp_bits (if c = 0 then dmul (clog (of_nat n)) kInvLog2
      else dsub (dmul (clog (of_nat n)) kInvLog2) (dmul (clog (to_double (of_nat c))) kInvLog2))) cs)"
proof -
  have exact: "to_double (of_nat m) = of_nat m" if "m < 2 ^ 32" for m
    using rnd_nat [of m 53] that by simp
  have sum: "unat (of_nat (sum_list cs) :: u32) = sum_list cs" using assms(2) by (simp add: unat_of_nat)
  then have zero: "(of_nat (sum_list cs) :: u32) = 0 \<longleftrightarrow> sum_list cs = 0" by (simp only: unat_eq_0 [symmetric])
  have "(if (of_nat (sum_list cs) :: u32) = 0 then clog (to_double (of_nat (length cs)))
      else clog (to_double (of_nat (unat (of_nat (sum_list cs) :: u32))))) = clog (of_nat n)"
    unfolding zero sum assms(3) using exact [OF assms(1)] exact [OF assms(2)] by (simp del: sum_list_eq_0_iff)
  then show ?thesis unfolding ZopfliCalculateEntropy_def foldl_sum_u32 Let_def add_0 by (simp only:)
qed

lemma entropy_range:
  assumes "log_accurate clog" and "0 < length cs" and "length cs \<le> 288" and "\<forall>c \<in> set cs. c \<le> 2 * B" and "B < 2 ^ 22"
  shows "\<exists>bl. ZopfliCalculateEntropy clog cs = Some bl \<and> length bl = length cs \<and> (\<forall>b \<in> set bl. 0 \<le> b \<and> b \<le> 64)"
proof -
  have "sum_list cs \<le> sum_list (map (\<lambda>_. 2 * B) cs)" using sum_list_mono [of cs "\<lambda>c. c" "\<lambda>_. 2 * B"] assms(4) by simp
  also have "\<dots> = length cs * (2 * B)" by (simp add: sum_list_triv)
  also have "\<dots> \<le> 288 * (2 * B)" using assms(3) by (rule mult_le_mono1)
  finally have lt: "sum_list cs < 2 ^ 32" using assms(5) by simp
  define n where "n = (if sum_list cs = 0 then length cs else sum_list cs)"
  have n: "1 \<le> n" "n < 2 ^ 32" "length cs < 2 ^ 32" using assms(2,3) lt by (auto simp: n_def Suc_le_eq simp del: sum_list_eq_0_iff)
  have le: "c \<le> n" if "c \<in> set cs" for c using member_le_sum_list [OF that] that by (auto simp: n_def)
  have "\<exists>v. clamp_bits (if c = 0 then dmul (clog (of_nat n)) kInvLog2
      else dsub (dmul (clog (of_nat n)) kInvLog2) (dmul (clog (to_double (of_nat c))) kInvLog2)) = Some v \<and> 0 \<le> v \<and> v \<le> 64"
    if "c \<in> set cs" for c
  proof -
    have e: "to_double (of_nat c) = of_nat c" using rnd_nat [of c 53] le [OF that] n(2) by simp
    show ?thesis unfolding e by (rule bits_of_count [OF assms(1) n(1,2) le [OF that]])
  qed
  from those_map [of cs _ "\<lambda>v. 0 \<le> v \<and> v \<le> 64", OF this] show ?thesis
    unfolding entropy_terms [OF n(3) lt n_def] by simp
qed

section \<open>Statistics stay within bounds\<close>

definition counts_within :: "nat \<Rightarrow> SymbolStats \<Rightarrow> bool" where
  "counts_within m st \<longleftrightarrow>
    length (st_litlens st) = ZOPFLI_NUM_LL \<and> length (st_dists st) = ZOPFLI_NUM_D \<and>
    (\<forall>c \<in> set (st_litlens st). c \<le> m) \<and> (\<forall>c \<in> set (st_dists st). c \<le> m)"

definition stats_ok :: "nat \<Rightarrow> SymbolStats \<Rightarrow> bool" where
  "stats_ok m st \<longleftrightarrow>
    counts_within m st \<and> length (st_ll_symbols st) = ZOPFLI_NUM_LL \<and> length (st_d_symbols st) = ZOPFLI_NUM_D \<and>
    (\<forall>b \<in> set (st_ll_symbols st). 0 \<le> b \<and> b \<le> 64) \<and> (\<forall>b \<in> set (st_d_symbols st). 0 \<le> b \<and> b \<le> 64)"

lemma within_update: "\<forall>c \<in> set xs. c \<le> m \<Longrightarrow> x \<le> m \<Longrightarrow> \<forall>c \<in> set (xs[i := x]). c \<le> (m :: nat)"
  using set_update_subset_insert [of xs i x] by auto

lemma CalculateStatistics_ok:
  assumes "log_accurate clog" and "counts_within (2 * B) st" and "B < 2 ^ 22"
  shows "\<exists>st'. CalculateStatistics clog st = Some st' \<and> stats_ok (2 * B) st' \<and> st_litlens st' = st_litlens st \<and> st_dists st' = st_dists st"
proof -
  note c = assms(2) [unfolded counts_within_def]
  have "0 < length (st_litlens st)" "length (st_litlens st) \<le> 288" "0 < length (st_dists st)" "length (st_dists st) \<le> 288"
    using c by auto
  then obtain ll d where "ZopfliCalculateEntropy clog (st_litlens st) = Some ll" "length ll = length (st_litlens st)"
      "\<forall>b \<in> set ll. 0 \<le> b \<and> b \<le> 64" "ZopfliCalculateEntropy clog (st_dists st) = Some d" "length d = length (st_dists st)"
      "\<forall>b \<in> set d. 0 \<le> b \<and> b \<le> 64"
    using entropy_range [OF assms(1) _ _ _ assms(3)] c by metis
  with assms(2) show ?thesis by (simp add: CalculateStatistics_def stats_ok_def counts_within_def)
qed

lemma inc_within:
  assumes "\<forall>c \<in> set xs. c \<le> m"
  shows "\<forall>c \<in> set (inc i xs). c \<le> Suc m"
proof (cases "i < length xs")
  case True
  then have "xs ! i \<le> m" using assms nth_mem by blast
  moreover have "\<forall>c \<in> set xs. c \<le> Suc m" using assms by auto
  ultimately show ?thesis unfolding inc_def by (intro within_update) simp_all
qed (use assms in \<open>auto simp: inc_def not_less list_update_beyond\<close>)

lemma count_commands_within:
  assumes "\<And>i. i \<in> set is \<Longrightarrow> litlens store ! i < 259" and "counts_within m st"
  shows "\<exists>st'. count_commands store is st = Some st' \<and> counts_within (m + length is) st'"
  using assms
proof (induction "is" arbitrary: m st)
  case (Cons i "is")
  have ok: "counts_within (Suc m) (st\<lparr>st_litlens := inc j (st_litlens st)\<rparr>)"
    "counts_within (Suc m) (st\<lparr>st_litlens := inc j (st_litlens st), st_dists := inc k (st_dists st)\<rparr>)" for j k
    using Cons.prems(2) inc_within [of "st_litlens st" m j] inc_within [of "st_dists st" m k]
    by (auto simp: counts_within_def inc_def)
  show ?case
  proof (cases "dists store ! i = 0")
    case True
    then show ?thesis using Cons.IH [OF _ ok(1)] Cons.prems(1) by simp
  next
    case False
    obtain ls where "ZopfliGetLengthSymbol (int (litlens store ! i)) = Some ls"
      using length_symbol_range [of "litlens store ! i"] Cons.prems(1) [of i] by auto
    then show ?thesis using False Cons.IH [OF _ ok(2)] Cons.prems(1) by simp
  qed
qed simp

lemma counts_within_mono: "counts_within m st \<Longrightarrow> m \<le> n \<Longrightarrow> counts_within n st"
  by (fastforce simp: counts_within_def)

lemma GetStatistics_ok:
  assumes "log_accurate clog" and "store_path a store p q" and "lsize store \<le> B" and "1 \<le> B" and "B < 2 ^ 22"
    and "counts_within 0 st"
  shows "\<exists>st'. GetStatistics clog store st = Some st' \<and> stats_ok (2 * B) st' \<and> counts_within B st'"
proof -
  have "litlens store ! i < 259" if "i < lsize store" for i
  proof -
    have "deflate_command (command_at store i)" using store_path_commands [OF assms(2) order_refl, of 0] that by simp
    then show ?thesis by (auto simp: deflate_command_def split: if_splits)
  qed
  then obtain st1 where st1: "count_commands store [0..<lsize store] st = Some st1" "counts_within (lsize store) st1"
    using count_commands_within [of "[0..<lsize store]" store 0 st] assms(6) by auto
  define st2 where "st2 = st1\<lparr>st_litlens := (st_litlens st1)[256 := 1]\<rparr>"
  have "counts_within B st1" using counts_within_mono [OF st1(2) assms(3)] .
  then have within: "counts_within B st2"
    using within_update [of "st_litlens st1" B 1 256] assms(4) by (simp add: counts_within_def st2_def)
  then have "counts_within (2 * B) st2" by (rule counts_within_mono) simp
  from CalculateStatistics_ok [OF assms(1) this assms(5)] obtain st3
    where "CalculateStatistics clog st2 = Some st3" "stats_ok (2 * B) st3" "st_litlens st3 = st_litlens st2" "st_dists st3 = st_dists st2"
    by blast
  then show ?thesis using st1(1) within by (auto simp: GetStatistics_def st2_def counts_within_def)
qed

lemma weighed_within:
  assumes "c1 \<le> B" and "c2 \<le> 2 * B" and "B < 2 ^ 22"
  shows "weighed 1 (1 / 2) c1 c2 \<le> 2 * B"
proof -
  have e: "to_double (of_nat m) = of_nat m" if "m < 2 ^ 53" for m using rnd_nat [of m 53] that by simp
  have d: "to_double (of_nat c1) = of_nat c1" "to_double (of_nat c2) = of_nat c2" "to_double (of_nat (2 * B)) = of_nat (2 * B)"
      "to_double (of_nat B) = of_nat B"
    by (rule e; use assms in simp)+
  have "dmul (to_double (of_nat c1)) 1 \<le> of_nat B" using d(1) assms(1) by (simp add: dmul_def)
  moreover have "dmul (to_double (of_nat c2)) (1 / 2) \<le> of_nat B"
  proof -
    have "(of_nat c2 :: rat) \<le> of_nat (2 * B)" using assms(2) by (simp only: of_nat_le_iff)
    then have "to_double (of_nat c2 * (1 / 2)) \<le> to_double (of_nat B)" by (intro rnd_mono) simp_all
    then show ?thesis by (simp only: dmul_def d)
  qed
  ultimately have "dmul (to_double (of_nat c1)) 1 + dmul (to_double (of_nat c2)) (1 / 2) \<le> of_nat (2 * B)" by simp
  moreover have "0 \<le> dmul (to_double (of_nat c1)) 1 + dmul (to_double (of_nat c2)) (1 / 2)"
    unfolding dmul_def d(1,2) by (intro add_nonneg_nonneg rnd_nonneg) simp_all
  ultimately have "dadd (dmul (to_double (of_nat c1)) 1) (dmul (to_double (of_nat c2)) (1 / 2)) \<le> of_nat (2 * B)"
    unfolding dadd_def by (subst d(3) [symmetric]) (rule rnd_mono; simp)
  then have "\<lfloor>dadd (dmul (to_double (of_nat c1)) 1) (dmul (to_double (of_nat c2)) (1 / 2))\<rfloor> \<le> int (2 * B)"
    by (metis floor_mono floor_of_nat)
  then show ?thesis by (simp add: weighed_def)
qed

lemma AddWeighedStatFreqs_within:
  assumes "counts_within B st1" and "counts_within (2 * B) st2" and "1 \<le> B" and "B < 2 ^ 22"
  shows "counts_within (2 * B) (AddWeighedStatFreqs st1 1 st2 (1 / 2) st1)"
proof -
  have ll: "st_litlens st1 ! i \<le> B" "st_litlens st2 ! i \<le> 2 * B" if "i < 288" for i
    using assms(1,2) that nth_mem unfolding counts_within_def by metis+
  have d: "st_dists st1 ! i \<le> B" "st_dists st2 ! i \<le> 2 * B" if "i < 32" for i
    using assms(1,2) that nth_mem unfolding counts_within_def by metis+
  have "\<forall>c \<in> set (map (\<lambda>i. weighed 1 (1 / 2) (st_litlens st1 ! i) (st_litlens st2 ! i)) [0..<288]). c \<le> 2 * B"
    "\<forall>c \<in> set (map (\<lambda>i. weighed 1 (1 / 2) (st_dists st1 ! i) (st_dists st2 ! i)) [0..<32]). c \<le> 2 * B"
    using weighed_within [OF _ _ assms(4)] ll d by (auto simp del: upt_rec_numeral)
  with within_update [OF this(1), of 1 256] assms(3) show ?thesis
    by (simp add: counts_within_def AddWeighedStatFreqs_def del: upt_rec_numeral)
qed

lemma RandomizeFreqs_within:
  assumes "\<forall>c \<in> set freqs. c \<le> m" and "length freqs = n" and "0 < n" and "n < 2 ^ 32"
  shows "length (snd (RandomizeFreqs_from is n state freqs)) = n \<and> (\<forall>c \<in> set (snd (RandomizeFreqs_from is n state freqs)). c \<le> m)"
  using assms(1,2)
proof (induction "is" arbitrary: state freqs)
  case (Cons i "is")
  have idx: "unat (r mod of_nat n) < n" for r :: u32
    using assms(3,4) by (simp add: unat_mod unat_of_nat)
  have "\<forall>c \<in> set (freqs[i := freqs ! unat (r mod of_nat n)]). c \<le> m" for r :: u32
    using idx [of r] Cons.prems by (intro within_update) (simp_all add: nth_mem)
  then have rest: "length (snd (RandomizeFreqs_from is n st (freqs[i := freqs ! unat (r mod of_nat n)]))) = n \<and>
      (\<forall>c \<in> set (snd (RandomizeFreqs_from is n st (freqs[i := freqs ! unat (r mod of_nat n)]))). c \<le> m)" for st and r :: u32
    using Cons.prems(2) by (intro Cons.IH) simp_all
  obtain r1 s1 where r1: "Ran state = (r1, s1)" by fastforce
  obtain r2 s2 where r2: "Ran s1 = (r2, s2)" by fastforce
  have "RandomizeFreqs_from (i # is) n state freqs =
      (if drop_bit 4 r1 mod 3 = 0 then RandomizeFreqs_from is n s2 (freqs[i := freqs ! unat (r2 mod of_nat n)])
       else RandomizeFreqs_from is n s1 freqs)"
    by (simp add: r1 r2)
  then show ?case using rest [where st = s2 and r = r2] Cons.IH [OF Cons.prems, of s1] by (simp only: split: if_split) blast
qed simp

lemma RandomizeStatFreqs_within:
  assumes "counts_within m st" and "1 \<le> m"
  shows "counts_within m (snd (RandomizeStatFreqs state st))"
proof -
  note c = assms(1) [unfolded counts_within_def]
  obtain s1 ll where ll: "RandomizeFreqs state (st_litlens st) 288 = (s1, ll)" by fastforce
  obtain s2 d where d: "RandomizeFreqs s1 (st_dists st) 32 = (s2, d)" by fastforce
  have eq: "ll = snd (RandomizeFreqs_from [0..<288] 288 state (st_litlens st))" "d = snd (RandomizeFreqs_from [0..<32] 32 s1 (st_dists st))"
    using ll d by (simp_all only: RandomizeFreqs_def snd_conv)
  have "length ll = 288 \<and> (\<forall>c \<in> set ll. c \<le> m)" unfolding eq by (rule RandomizeFreqs_within) (use c in simp_all)
  moreover have "length d = 32 \<and> (\<forall>c \<in> set d. c \<le> m)" unfolding eq by (rule RandomizeFreqs_within) (use c in simp_all)
  ultimately show ?thesis
    using ll d within_update [of ll m 1 256] assms(2) by (simp add: RandomizeStatFreqs_def counts_within_def)
qed

section \<open>Costs from statistics\<close>

lemma stat_cost_model:
  assumes "stats_ok m st"
  shows "cost_model (GetCostStat st)"
proof
  note ok = assms [unfolded stats_ok_def]
  have ll: "0 \<le> st_ll_symbols st ! i" "st_ll_symbols st ! i \<le> 64" if "i < 288" for i using ok that nth_mem by metis+
  have d: "0 \<le> st_d_symbols st ! i" "st_d_symbols st ! i \<le> 64" if "i < 32" for i using ok that nth_mem by metis+
  show "\<exists>c. GetCostStat st l 0 = Some c \<and> 0 \<le> c \<and> c \<le> 256" if "l < 256" for l
    using ll [of l] that by (simp add: GetCostStat_def)
  fix l dist' :: nat
  assume l: "3 \<le> l" "l \<le> 258" and dist': "1 \<le> dist'" "dist' \<le> 32768"
  then have enc: "encodable (fst GetFixedTree) (snd GetFixedTree) (l, dist')" by (simp add: fixed_encodable_command deflate_command_def)
  obtain b where b: "ZopfliGetLengthExtraBits (int l) = Some (int b)" "b \<le> 5"
    using encodable_match [OF enc] dist' by (metis fst_conv snd_conv not_one_le_zero)
  obtain db where db: "ZopfliGetDistExtraBits (int dist') = int db" "db \<le> 13"
    using encodable_dist [OF enc] dist' by (metis snd_conv not_one_le_zero)
  obtain sy where sy: "ZopfliGetLengthSymbol (int l) = Some sy" "0 \<le> sy" "sy \<le> 285" using length_symbol_range [of l] l by auto
  have ds: "0 \<le> ZopfliGetDistSymbol (int dist')" "ZopfliGetDistSymbol (int dist') < 30"
    using dist_rebuilt [of "int dist'"] dist' by simp_all
  define x where "x = dadd (of_int (int b + int db)) (st_ll_symbols st ! nat sy)"
  define y where "y = dadd x (st_d_symbols st ! nat (ZopfliGetDistSymbol (int dist')))"
  have lb: "0 \<le> st_ll_symbols st ! nat sy" "st_ll_symbols st ! nat sy \<le> 64" by (rule ll; use sy(3) in simp)+
  have db': "0 \<le> st_d_symbols st ! nat (ZopfliGetDistSymbol (int dist'))" "st_d_symbols st ! nat (ZopfliGetDistSymbol (int dist')) \<le> 64"
    by (rule d; use ds in simp)+
  have round: "0 \<le> dadd u v \<and> dadd u v \<le> of_nat k" if "0 \<le> u" "0 \<le> v" "u + v \<le> of_nat k" "k < 2 ^ 53" for u v k
    unfolding dadd_def using rnd_nonneg [of "u + v" 53] rnd_le [of "u + v" k 0 53] that by simp
  have bits: "0 \<le> (of_int (int b + int db) :: rat)" "(of_int (int b + int db) :: rat) \<le> 18"
  proof -
    have "(of_int (int b + int db) :: rat) \<le> of_int 18" using b(2) db(2) by (subst of_int_le_iff) simp
    then show "(of_int (int b + int db) :: rat) \<le> 18" by simp
  qed simp
  have x: "0 \<le> x \<and> x \<le> of_nat 82" unfolding x_def by (rule round) (use lb bits in simp_all)
  have y: "0 \<le> y \<and> y \<le> of_nat 146" unfolding y_def by (rule round) (use db' x in simp_all)
  have "GetCostStat st l dist' = Some y" using dist' sy(1) b(1) db(1) by (simp add: GetCostStat_def x_def y_def)
  then show "\<exists>c. GetCostStat st l dist' = Some c \<and> 0 \<le> c \<and> c \<le> 256" using y by simp
qed

section \<open>The iterated parse is a path\<close>

lemma dynamic_block_size:
  assumes "store_path a st p q" and "q - p < 2 ^ 22"
  shows "\<exists>c. ZopfliCalculateBlockSize st 0 (lsize st) 2 = Some c \<and> c < ZOPFLI_LARGE_FLOAT"
proof -
  have ok: "store_ok st" using assms(1) by (simp add: store_path_def)
  have n: "lsize st - 0 < 2 ^ 22" using store_path_lsize [OF assms(1)] assms(2) by simp
  obtain sz lls dls tsz where g: "GetDynamicLengths st 0 (lsize st) = Some (sz, lls, dls)"
      "block_codes (map (command_at st) [0..<lsize st]) lls dls" "CalculateTreeSize lls dls = Some tsz"
      "\<And>lss dss. sz = unat tsz + length (block_bits lss lls dss dls (map (command_at st) [0..<lsize st]))"
    by (rule GetDynamicLengths_codes [OF ok le0 order_refl n refl store_path_commands [OF assms(1) order_refl]]) blast
  have "length (block_bits [] lls [] dls (map (command_at st) [0..<lsize st])) \<le> 48 * length (map (command_at st) [0..<lsize st]) + 15"
    using g(2) by (intro block_bits_length) (auto simp: block_codes_def header_lengths_def)
  then have "length (block_bits [] lls [] dls (map (command_at st) [0..<lsize st])) < 2 ^ 32" using n by simp
  then have "3 + sz < ZOPFLI_LARGE_FLOAT" using g(4) [of "[]" "[]"] unat_lt_u64 [of tsz] by (simp add: ZOPFLI_LARGE_FLOAT_def)
  then show ?thesis using g(1) by (simp add: ZopfliCalculateBlockSize_def)
qed

definition optimal_inv :: "byte list \<Rightarrow> nat \<Rightarrow> nat \<Rightarrow> nat \<Rightarrow> nat \<Rightarrow> optimal \<Rightarrow> bool" where
  "optimal_inv a e bs B i o1 \<longleftrightarrow>
    state_inv a e (window_start bs) (ostate o1) \<and> blockstart (ostate o1) = bs \<and> length (olengths o1) = e - bs + 1 \<and>
    stats_ok (2 * B) (stats o1) \<and> (i = 0 \<longrightarrow> bestcost o1 = ZOPFLI_LARGE_FLOAT) \<and>
    (0 < i \<longrightarrow> stats_ok (2 * B) (beststats o1) \<and> store_path a (ostore o1) bs e)"

lemma CopyStats_all [simp]: "CopyStats source dest = source"
  by (simp add: CopyStats_def)

lemma keep_best_inv:
  assumes "stats_ok m (stats o1)" and "store_path a current bs e" and "cost < ZOPFLI_LARGE_FLOAT"
    and "bestcost o1 = ZOPFLI_LARGE_FLOAT \<or> stats_ok m (beststats o1) \<and> store_path a (ostore o1) bs e"
  shows "\<exists>o2. keep_best cost current o1 = Some o2 \<and> stats_ok m (beststats o2) \<and> store_path a (ostore o2) bs e \<and>
    stats o2 = stats o1 \<and> ostate o2 = ostate o1 \<and> olengths o2 = olengths o1"
proof -
  have "ZopfliCopyLZ77Store current (replicate 7 True) = Some current"
    using assms(2) by (intro copy_store) (simp_all add: store_path_def)
  then show ?thesis using assms by (auto simp: keep_best_def)
qed

lemma next_stats_inv:
  assumes "log_accurate clog" and "store_path a current bs e" and "lsize current \<le> B" and "1 \<le> B" and "B < 2 ^ 22"
    and "stats_ok (2 * B) (stats o1)"
  shows "\<exists>o2. next_stats clog current o1 = Some o2 \<and> stats_ok (2 * B) (stats o2) \<and> beststats o2 = beststats o1 \<and>
    ostore o2 = ostore o1 \<and> ostate o2 = ostate o1 \<and> olengths o2 = olengths o1"
proof -
  have clear: "counts_within 0 (ClearStatFreqs (stats o1))" by (simp add: counts_within_def ClearStatFreqs_def del: upt_rec_numeral)
  obtain st where st: "GetStatistics clog current (ClearStatFreqs (stats o1)) = Some st" "stats_ok (2 * B) st" "counts_within B st"
    using GetStatistics_ok [OF assms(1-5) clear] by blast
  have "counts_within (2 * B) (stats o1)" using assms(6) by (simp add: stats_ok_def)
  from CalculateStatistics_ok [OF assms(1) AddWeighedStatFreqs_within [OF st(3) this assms(4,5)] assms(5)] st
  show ?thesis by (auto simp: next_stats_def Let_def)
qed

lemma randomize_inv:
  assumes "log_accurate clog" and "1 \<le> B" and "B < 2 ^ 22" and "stats_ok (2 * B) (stats o1)" and "stats_ok (2 * B) (beststats o1)"
  shows "\<exists>o2. randomize clog i cost o1 = Some o2 \<and> stats_ok (2 * B) (stats o2) \<and> beststats o2 = beststats o1 \<and>
    ostore o2 = ostore o1 \<and> ostate o2 = ostate o1 \<and> olengths o2 = olengths o1"
proof -
  obtain r st where r: "RandomizeStatFreqs (ran_state o1) (beststats o1) = (r, st)" by fastforce
  have "counts_within (2 * B) (beststats o1)" using assms(5) by (simp add: stats_ok_def)
  from RandomizeStatFreqs_within [OF this, of "ran_state o1"] have "counts_within (2 * B) st" using r assms(2) by simp
  from CalculateStatistics_ok [OF assms(1) this assms(3)] assms(4) r show ?thesis by (auto simp: randomize_def)
qed

lemma optimal_round_inv:
  assumes "log_accurate clog" and "optimal_inv a e bs B i o1" and "e \<le> length a" and "e - bs \<le> B" and "1 \<le> B" and "B < 2 ^ 22"
    and "length sl = 259"
  shows "\<exists>o2. optimal_round clog sl a bs e i o1 = Some o2 \<and> optimal_inv a e bs B (Suc i) o2"
proof -
  note inv = assms(2) [unfolded optimal_inv_def]
  have small: "e - bs < 2 ^ 24" "e - bs < 2 ^ 22" using assms(4,6) by simp_all
  have model: "cost_model (GetCostStat (stats o1))" using inv by (intro stat_cost_model) blast
  obtain cost0 s current h lengths where run: "LZ77OptimalRun (ostate o1) a bs e (olengths o1) (GetCostStat (stats o1))
        (ZopfliInitLZ77Store a) (ohash o1) sl = Some (cost0, s, current, h, lengths)"
      "state_inv a e (window_start bs) s" "blockstart s = bs" "store_path a current bs e" "length lengths = e - bs + 1"
    by (rule cost_model.optimal_run [where bs = bs and s = "ostate o1" and lengths = "olengths o1" and h = "ohash o1",
          OF model _ _ assms(3) small(1) assms(7) _ store_path_init]) (use inv in auto)
  obtain cost where cost: "ZopfliCalculateBlockSize current 0 (lsize current) 2 = Some cost" "cost < ZOPFLI_LARGE_FLOAT"
    using dynamic_block_size [OF run(4) small(2)] by blast
  have n: "lsize current \<le> B" using store_path_lsize [OF run(4)] assms(4) by simp
  define o2 where "o2 = o1\<lparr>ostate := s, ohash := h, olengths := lengths\<rparr>"
  have st: "stats_ok (2 * B) (stats o2)" using inv by (simp add: o2_def)
  have "bestcost o2 = ZOPFLI_LARGE_FLOAT \<or> stats_ok (2 * B) (beststats o2) \<and> store_path a (ostore o2) bs e"
    using inv by (cases "i = 0") (simp_all add: o2_def)
  from keep_best_inv [OF st run(4) cost(2) this] obtain o3 where o3: "keep_best cost current o2 = Some o3"
      "stats_ok (2 * B) (beststats o3)" "store_path a (ostore o3) bs e" "stats o3 = stats o2" "ostate o3 = ostate o2" "olengths o3 = olengths o2"
    by blast
  have "stats_ok (2 * B) (stats o3)" using st o3(4) by simp
  from next_stats_inv [OF assms(1) run(4) n assms(5,6) this] obtain o4 where o4: "next_stats clog current o3 = Some o4"
      "stats_ok (2 * B) (stats o4)" "beststats o4 = beststats o3" "ostore o4 = ostore o3" "ostate o4 = ostate o3" "olengths o4 = olengths o3"
    by blast
  have "stats_ok (2 * B) (beststats o4)" using o3(2) o4(3) by simp
  from randomize_inv [OF assms(1,5,6) o4(2) this] obtain o5 where o5: "randomize clog i cost o4 = Some o5"
      "stats_ok (2 * B) (stats o5)" "beststats o5 = beststats o4" "ostore o5 = ostore o4" "ostate o5 = ostate o4" "olengths o5 = olengths o4"
    by blast
  have "optimal_round clog sl a bs e i o1 = Some (o5\<lparr>lastcost := cost\<rparr>)"
    using run(1) cost(1) o3(1) o4(1) o5(1) by (simp add: optimal_round_def o2_def)
  moreover have "optimal_inv a e bs B (Suc i) (o5\<lparr>lastcost := cost\<rparr>)"
    using run(2,3,5) o3 o4 o5 by (simp add: optimal_inv_def o2_def)
  ultimately show ?thesis by blast
qed

lemma optimal_rounds_inv:
  assumes "log_accurate clog" and "optimal_inv a e bs B k o1" and "e \<le> length a" and "e - bs \<le> B" and "1 \<le> B" and "B < 2 ^ 22"
    and "length sl = 259" and "k \<le> n"
  shows "\<exists>o2. optimal_rounds clog sl a bs e [k..<n] o1 = Some o2 \<and> optimal_inv a e bs B n o2"
  using assms(2,8)
proof (induction "n - k" arbitrary: k o1)
  case (Suc m)
  then have k: "k < n" by simp
  obtain o2 where o2: "optimal_round clog sl a bs e k o1 = Some o2" "optimal_inv a e bs B (Suc k) o2"
    using optimal_round_inv [OF assms(1) Suc.prems(1) assms(3-7)] by blast
  have "m = n - Suc k" "Suc k \<le> n" using Suc.hyps(2) k by simp_all
  from Suc.hyps(1) [OF this(1) o2(2) this(2)] o2(1) k show ?case by (simp add: upt_conv_Cons)
qed simp

lemma optimal_parse:
  assumes "log_accurate clog" and "state_inv a e (window_start bs) s" and "blockstart s = bs" and "e \<le> length a"
    and "e - bs < 2 ^ 22" and "1 \<le> n"
  obtains s' st' where "ZopfliLZ77Optimal clog mem stats0 s a bs e n store = Some (s', st')" and "store_path a st' bs e"
proof -
  let ?sl = "map (sublen0 mem) [0..<259]"
  have sl: "length ?sl = 259" by (simp only: length_map length_upt diff_zero)
  obtain s1 current h where g: "ZopfliLZ77Greedy s a bs e (ZopfliInitLZ77Store a) (hash0 mem) ?sl = Some (s1, current, h)"
      "state_inv a e (window_start bs) s1" "blockstart s1 = bs" "store_path a current bs e"
    by (rule greedy_parse [OF assms(2-4) sl store_path_init])
  define B where "B = max 1 (e - bs)"
  have B: "1 \<le> B" "B < 2 ^ 22" "e - bs \<le> B" "lsize current \<le> B"
    using assms(5) store_path_lsize [OF g(4)] by (auto simp: B_def)
  have "counts_within 0 InitStats" by (simp add: counts_within_def InitStats_def)
  from GetStatistics_ok [OF assms(1) g(4) B(4,1,2) this] obtain st where st: "GetStatistics clog current InitStats = Some st"
      "stats_ok (2 * B) st"
    by blast
  let ?o = "\<lparr>ostate = s1, ohash = h, olengths = map (lengths0 mem) [0..<e - bs + 1], stats = st, beststats = stats0, laststats = stats0,
    bestcost = ZOPFLI_LARGE_FLOAT, lastcost = 0, ran_state = InitRanState, lastrandomstep = - 1, ostore = store\<rparr>"
  have "optimal_inv a e bs B 0 ?o" using g st by (simp add: optimal_inv_def)
  from optimal_rounds_inv [OF assms(1) this assms(4) B(3,1,2) sl le0, of n] obtain o2
    where "optimal_rounds clog ?sl a bs e [0..<n] ?o = Some o2" "optimal_inv a e bs B n o2" by blast
  then show thesis
    using that g(1) st(1) assms(6) by (simp add: ZopfliLZ77Optimal_def optimal_inv_def del: upt_Suc upt_rec_numeral)
qed

end
