(* ===== verification/Zopfli_Split.thy ===== *)
theory Zopfli_Split
  imports Zopfli_Stats
begin

text \<open>
  The choice of block boundaries (\<open>blocksplitter.c\<close>). Costs are sizes in bits, natural numbers that a \<open>double\<close>
  holds exactly; \<open>None\<close> is a failed assertion. The loop of \<open>ZopfliBlockSplitLZ77\<close> is given fuel: every turn either
  marks one more command as the start of a block that is not worth splitting or adds one more
  boundary, so twice the number of commands is enough. Messages of the verbose mode are left out.

  The boundaries returned are strictly increasing and lie inside of the block.
\<close>

section \<open>The code of blocksplitter.c\<close>

fun scan_minimum :: "(nat \<Rightarrow> nat option) \<Rightarrow> nat list \<Rightarrow> nat \<Rightarrow> nat \<Rightarrow> (nat \<times> nat) option" where
  "scan_minimum f [] result best = Some (result, best)"
| "scan_minimum f (i # is) result best =
    (case f i of
       None \<Rightarrow> None
     | Some v \<Rightarrow> if v < best then scan_minimum f is i v else scan_minimum f is result best)"

text \<open>The nine points of one round of the faster search and the index of the least value at them.\<close>

definition split_point :: "nat \<Rightarrow> nat \<Rightarrow> nat \<Rightarrow> nat" where
  "split_point start end' i = start + (i + 1) * ((end' - start) div (9 + 1))"

fun least_index :: "nat list \<Rightarrow> nat \<Rightarrow> nat \<Rightarrow> nat \<Rightarrow> nat \<times> nat" where
  "least_index [] i besti best = (besti, best)"
| "least_index (v # vs) i besti best =
    (if v < best then least_index vs (i + 1) i v else least_index vs (i + 1) besti best)"

definition narrow :: "(nat \<Rightarrow> nat option) \<Rightarrow> nat \<Rightarrow> nat \<Rightarrow> (nat \<times> nat) option" where
  "narrow f start end' =
    map_option (\<lambda>vp. least_index (drop 1 vp) 1 0 (vp ! 0)) (those (map (\<lambda>i. f (split_point start end' i)) [0..<9]))"

lemma least_index_le: "fst (least_index vs i besti best) = besti \<or> i \<le> fst (least_index vs i besti best) \<and> fst (least_index vs i besti best) < i + length vs"
  by (induction vs i besti best rule: least_index.induct) auto

lemma those_length: "those xs = Some ys \<Longrightarrow> length ys = length xs"
  by (induction xs arbitrary: ys) (auto split: option.splits)

lemma narrow_index: "narrow f start end' = Some (besti, best) \<Longrightarrow> besti \<le> 8"
proof -
  assume n: "narrow f start end' = Some (besti, best)"
  then obtain vp where vp: "those (map (\<lambda>i. f (split_point start end' i)) [0..<9]) = Some vp"
      "least_index (drop 1 vp) 1 0 (vp ! 0) = (besti, best)"
    by (auto simp: narrow_def simp del: upt_rec_numeral)
  have "length vp = 9" using those_length [OF vp(1)] by simp
  with least_index_le [of "drop 1 vp" 1 0 "vp ! 0"] vp(2) show ?thesis by auto
qed

text \<open>Both sides of the interval that is searched next.\<close>

definition next_start :: "nat \<Rightarrow> nat \<Rightarrow> nat \<Rightarrow> nat" where
  "next_start start end' besti = (if besti = 0 then start else split_point start end' (besti - 1))"

definition next_end :: "nat \<Rightarrow> nat \<Rightarrow> nat \<Rightarrow> nat" where
  "next_end start end' besti = (if besti = 9 - 1 then end' else split_point start end' (besti + 1))"

lemma next_interval:
  assumes "9 < end' - start" and "besti \<le> 8"
  shows "start \<le> next_start start end' besti" and "next_end start end' besti \<le> end'"
    and "next_end start end' besti - next_start start end' besti < end' - start"
    and "start < split_point start end' besti" and "split_point start end' besti < end'"
proof -
  define step where "step = (end' - start) div 10"
  have step: "0 < step" "10 * step \<le> end' - start" using assms(1) by (simp_all add: step_def)
  have p: "split_point start end' i = start + (i + 1) * step" for i by (simp add: split_point_def step_def)
  have le: "(i + 1) * step \<le> 9 * step" if "i \<le> 8" for i using that by (intro mult_le_mono1) simp
  have s: "next_start start end' besti = start + besti * step" by (simp add: next_start_def p)
  show "start \<le> next_start start end' besti" by (simp add: s)
  show "split_point start end' besti < end'" unfolding p using le [OF assms(2)] step by linarith
  show "start < split_point start end' besti" using step(1) by (simp add: p)
  show "next_end start end' besti \<le> end'"
  proof (cases "besti = 8")
    case False
    then have "(besti + 1 + 1) * step \<le> 9 * step" using assms(2) by (intro le) simp
    then have "start + (besti + 1 + 1) * step \<le> end'" using step by linarith
    then show ?thesis using False by (simp add: next_end_def p)
  qed (simp add: next_end_def)
  have "8 * step + 2 * step \<le> end' - start" using step by simp
  then show "next_end start end' besti - next_start start end' besti < end' - start"
    using step assms by (auto simp: next_end_def s p algebra_simps)
qed

function minimum_loop :: "(nat \<Rightarrow> nat option) \<Rightarrow> nat \<Rightarrow> nat \<Rightarrow> nat \<Rightarrow> nat \<Rightarrow> (nat \<times> nat) option" where
  "minimum_loop f start end' lastbest p =
    (if end' - start \<le> 9 then Some (p, lastbest)
     else case narrow f start end' of
       None \<Rightarrow> None
     | Some (besti, best) \<Rightarrow>
         if best > lastbest then Some (p, lastbest)
         else minimum_loop f (next_start start end' besti) (next_end start end' besti) best (split_point start end' besti))"
  by pat_completeness auto
termination
  by (relation "measure (\<lambda>(f, start, end', lastbest, p). end' - start)") (auto dest: narrow_index intro: next_interval(3))

declare minimum_loop.simps [simp del]

text \<open>The index of the minimum and its value.\<close>

definition FindMinimum :: "(nat \<Rightarrow> nat option) \<Rightarrow> nat \<Rightarrow> nat \<Rightarrow> (nat \<times> nat) option" where
  "FindMinimum f start end' =
    (if end' - start < 1024 then scan_minimum f [start..<end'] start ZOPFLI_LARGE_FLOAT
     else minimum_loop f start end' ZOPFLI_LARGE_FLOAT start)"

definition EstimateCost :: "lz77_store \<Rightarrow> nat \<Rightarrow> nat \<Rightarrow> nat option" where
  "EstimateCost lz77 lstart lend = ZopfliCalculateBlockSizeAutoType lz77 lstart lend"

definition SplitCost :: "lz77_store \<Rightarrow> nat \<Rightarrow> nat \<Rightarrow> nat \<Rightarrow> nat option" where
  "SplitCost lz77 start end' i =
    do {
      a \<leftarrow> EstimateCost lz77 start i;
      b \<leftarrow> EstimateCost lz77 i end';
      Some (a + b)
    }"

primrec shift_right :: "nat \<Rightarrow> nat \<Rightarrow> nat list \<Rightarrow> nat list" where
  "shift_right 0 j outp = outp"
| "shift_right (Suc n) j outp = shift_right n (j - 1) (outp[j := outp ! (j - 1)])"

definition AddSorted :: "nat \<Rightarrow> nat list \<Rightarrow> nat list" where
  "AddSorted v outp =
    (let outp = outp @ [v]; n = length outp
     in case find (\<lambda>i. outp ! i > v) [0..<n - 1] of
          None \<Rightarrow> outp
        | Some i \<Rightarrow> (shift_right (n - 1 - i) (n - 1) outp)[i := v])"

definition block_at :: "nat \<Rightarrow> nat list \<Rightarrow> nat \<Rightarrow> nat \<times> nat" where
  "block_at lz77size splitpoints i =
    (if i = 0 then 0 else splitpoints ! (i - 1), if i = length splitpoints then lz77size - 1 else splitpoints ! i)"

fun largest_loop :: "nat \<Rightarrow> bool list \<Rightarrow> nat list \<Rightarrow> nat list \<Rightarrow> nat \<Rightarrow> (nat \<times> nat) option \<Rightarrow> (nat \<times> nat) option" where
  "largest_loop lz77size finished splitpoints [] longest best = best"
| "largest_loop lz77size finished splitpoints (i # is) longest best =
    (case block_at lz77size splitpoints i of
       (start, end') \<Rightarrow>
         if \<not> finished ! start \<and> end' - start > longest
         then largest_loop lz77size finished splitpoints is (end' - start) (Some (start, end'))
         else largest_loop lz77size finished splitpoints is longest best)"

definition FindLargestSplittableBlock :: "nat \<Rightarrow> bool list \<Rightarrow> nat list \<Rightarrow> (nat \<times> nat) option" where
  "FindLargestSplittableBlock lz77size finished splitpoints =
    largest_loop lz77size finished splitpoints [0..<length splitpoints + 1] 0 None"

text \<open>One attempt to split the block of commands from \<open>lstart\<close> to \<open>lend\<close>.\<close>

definition split_turn ::
  "lz77_store \<Rightarrow> nat \<Rightarrow> nat \<Rightarrow> bool list \<times> nat list \<times> nat \<Rightarrow> (bool list \<times> nat list \<times> nat) option" where
  "split_turn lz77 lstart lend st =
    (if \<not> lstart < lend then None
     else
       do {
         (llpos, splitcost) \<leftarrow> FindMinimum (SplitCost lz77 lstart lend) (lstart + 1) lend;
         if \<not> llpos > lstart \<or> \<not> llpos < lend then None
         else do {
           origcost \<leftarrow> EstimateCost lz77 lstart lend;
           Some
             (case st of
                (finished, splitpoints, numblocks) \<Rightarrow>
                  if splitcost > origcost \<or> llpos = lstart + 1 \<or> llpos = lend
                  then (finished[lstart := True], splitpoints, numblocks)
                  else (finished, AddSorted llpos splitpoints, numblocks + 1))
         }
       })"

fun split_loop :: "nat \<Rightarrow> lz77_store \<Rightarrow> nat \<Rightarrow> nat \<Rightarrow> nat \<Rightarrow> bool list \<times> nat list \<times> nat \<Rightarrow> nat list option" where
  "split_loop 0 lz77 maxblocks lstart lend st = None"
| "split_loop (Suc fuel) lz77 maxblocks lstart lend st =
    (if maxblocks > 0 \<and> snd (snd st) \<ge> maxblocks then Some (fst (snd st))
     else case split_turn lz77 lstart lend st of
       None \<Rightarrow> None
     | Some st \<Rightarrow>
         (case FindLargestSplittableBlock (lsize lz77) (fst st) (fst (snd st)) of
            None \<Rightarrow> Some (fst (snd st))
          | Some (lstart, lend) \<Rightarrow>
              if lend - lstart < 10 then Some (fst (snd st)) else split_loop fuel lz77 maxblocks lstart lend st))"

definition ZopfliBlockSplitLZ77 :: "lz77_store \<Rightarrow> nat \<Rightarrow> nat list \<Rightarrow> nat list option" where
  "ZopfliBlockSplitLZ77 lz77 maxblocks splitpoints =
    (if lsize lz77 < 10 then Some splitpoints
     else split_loop (2 * lsize lz77 + 1) lz77 maxblocks 0 (lsize lz77) (replicate (lsize lz77) False, splitpoints, 1))"

text \<open>The conversion of indices of commands to positions, with the positions found so far.\<close>

fun convert_points :: "lz77_store \<Rightarrow> nat list \<Rightarrow> nat list \<Rightarrow> nat \<Rightarrow> nat list \<Rightarrow> nat list" where
  "convert_points store lz77splitpoints [] p points = points"
| "convert_points store lz77splitpoints (i # is) p points =
    (let len = (if dists store ! i = 0 then 1 else litlens store ! i)
     in if lz77splitpoints ! length points = i then
          let points = points @ [p]
          in if length points = length lz77splitpoints then points
             else convert_points store lz77splitpoints is (p + len) points
        else convert_points store lz77splitpoints is (p + len) points)"

definition ZopfliBlockSplit :: "scratch \<Rightarrow> byte list \<Rightarrow> nat \<Rightarrow> nat \<Rightarrow> nat \<Rightarrow> nat list option" where
  "ZopfliBlockSplit mem inp instart inend maxblocks =
    do {
      let s = ZopfliInitBlockState instart inend False;
      (s, store, h) \<leftarrow> ZopfliLZ77Greedy s inp instart inend (ZopfliInitLZ77Store inp) (hash0 mem) (map (sublen0 mem) [0..<259]);
      lz77splitpoints \<leftarrow> ZopfliBlockSplitLZ77 store maxblocks [];
      let points = (if length lz77splitpoints > 0 then convert_points store lz77splitpoints [0..<lsize store] instart [] else []);
      if length points \<noteq> length lz77splitpoints then None else Some points
    }"

text \<open>Boundaries at equal distances; with a block size of 0 the loop does not end.\<close>

partial_function (option) simple_loop :: "nat \<Rightarrow> nat \<Rightarrow> nat \<Rightarrow> nat list \<Rightarrow> nat list option" where
  "simple_loop inend blocksize i points =
    (if i < inend then simple_loop inend blocksize (i + blocksize) (points @ [i]) else Some points)"

definition ZopfliBlockSplitSimple :: "nat \<Rightarrow> nat \<Rightarrow> nat \<Rightarrow> nat list \<Rightarrow> nat list option" where
  "ZopfliBlockSplitSimple instart inend blocksize points = simple_loop inend blocksize instart points"

section \<open>The search for a minimum\<close>

lemma scan_minimum_range:
  assumes "\<And>i. i \<in> set is \<Longrightarrow> \<exists>v. f i = Some v" and "result \<in> S" and "set is \<subseteq> S"
  shows "\<exists>r v. scan_minimum f is result best = Some (r, v) \<and> r \<in> S"
  using assms
proof (induction f "is" result best rule: scan_minimum.induct)
  case (2 f i "is" result best)
  obtain v where v: "f i = Some v" using 2(3) [of i] by auto
  show ?case
  proof (cases "v < best")
    case True
    with 2(1) [OF v True] 2(3-5) v show ?thesis by simp
  next
    case False
    with 2(2) [OF v False] 2(3-5) v show ?thesis by simp
  qed
qed simp

lemma narrow_defined:
  assumes "\<And>i. start < i \<Longrightarrow> i < end' \<Longrightarrow> \<exists>v. f i = Some v" and "9 < end' - start"
  shows "\<exists>besti best. narrow f start end' = Some (besti, best)"
proof -
  have "\<exists>v. f (split_point start end' i) = Some v \<and> True" if "i \<in> set [0..<9]" for i
    using assms(1) next_interval(4,5) [OF assms(2), of i] that by (auto simp del: upt_rec_numeral)
  from those_map [of "[0..<9]" "\<lambda>i. f (split_point start end' i)" "\<lambda>_. True", OF this] show ?thesis
    by (auto simp: narrow_def simp del: upt_rec_numeral)
qed

lemma minimum_loop_range:
  assumes "\<And>i. start \<le> i \<Longrightarrow> i < end' \<Longrightarrow> \<exists>v. f i = Some v" and "lo \<le> start" and "end' \<le> hi" and "lo \<le> p" and "p < hi"
  shows "\<exists>r v. minimum_loop f start end' lastbest p = Some (r, v) \<and> lo \<le> r \<and> r < hi"
  using assms
proof (induction f start end' lastbest p rule: minimum_loop.induct)
  case (1 f start end' lastbest p)
  show ?case
  proof (cases "end' - start \<le> 9")
    case True
    then show ?thesis using 1(5,6) by (simp add: minimum_loop.simps)
  next
    case False
    then have big: "9 < end' - start" by simp
    obtain besti best where n: "narrow f start end' = Some (besti, best)" using narrow_defined [OF _ big] 1(2) by (metis less_imp_le)
    note iv = next_interval [OF big narrow_index [OF n]]
    show ?thesis
    proof (cases "best > lastbest")
      case True
      then show ?thesis using False n 1(5,6) by (simp add: minimum_loop.simps [of f start])
    next
      case no: False
      have "\<exists>r v. minimum_loop f (next_start start end' besti) (next_end start end' besti) best (split_point start end' besti) =
          Some (r, v) \<and> lo \<le> r \<and> r < hi"
        by (rule 1(1) [OF False n refl no]) (use 1(2-6) iv in auto)
      then show ?thesis using False n no by (simp add: minimum_loop.simps [of f start])
    qed
  qed
qed

lemma FindMinimum_range:
  assumes "\<And>i. start \<le> i \<Longrightarrow> i < end' \<Longrightarrow> \<exists>v. f i = Some v" and "start < end'"
  shows "\<exists>r v. FindMinimum f start end' = Some (r, v) \<and> start \<le> r \<and> r < end'"
proof (cases "end' - start < 1024")
  case True
  with scan_minimum_range [of "[start..<end']" f start "{start..<end'}"] assms show ?thesis by (simp add: FindMinimum_def)
next
  case False
  with minimum_loop_range [OF assms(1) order_refl order_refl order_refl assms(2)] show ?thesis by (simp add: FindMinimum_def)
qed

section \<open>Sorted boundaries\<close>

lemma shift_right_nth:
  assumes "n \<le> j" and "j < length xs" and "k < length xs"
  shows "length (shift_right n j xs) = length xs \<and> shift_right n j xs ! k = (if j - n < k \<and> k \<le> j then xs ! (k - 1) else xs ! k)"
  using assms
proof (induction n arbitrary: j xs)
  case (Suc n)
  have "length (shift_right n (j - 1) (xs[j := xs ! (j - 1)])) = length (xs[j := xs ! (j - 1)]) \<and>
      shift_right n (j - 1) (xs[j := xs ! (j - 1)]) ! k =
      (if j - 1 - n < k \<and> k \<le> j - 1 then xs[j := xs ! (j - 1)] ! (k - 1) else xs[j := xs ! (j - 1)] ! k)"
    using Suc.prems by (intro Suc.IH) simp_all
  then show ?case using Suc.prems by (auto simp: nth_list_update)
qed auto

lemma find_first:
  assumes "find P [0..<n] = Some i"
  shows "i < n \<and> P i \<and> (\<forall>j < i. \<not> P j)"
proof -
  obtain k where "k < n" "P k" "i = k" "\<forall>j < k. \<not> P ([0..<n] ! j)" using assms by (auto simp: find_Some_iff)
  then show ?thesis by auto
qed

lemma AddSorted_insert:
  assumes "sorted_wrt (<) xs" and "v \<notin> set xs"
  shows "sorted_wrt (<) (AddSorted v xs)" and "set (AddSorted v xs) = insert v (set xs)" and "length (AddSorted v xs) = Suc (length xs)"
proof -
  let ?n = "length xs"
  have "\<exists>i \<le> ?n. AddSorted v xs = take i xs @ v # drop i xs \<and> (\<forall>j < i. xs ! j < v) \<and> (\<forall>j. i \<le> j \<and> j < ?n \<longrightarrow> v < xs ! j)"
  proof (cases "find (\<lambda>i. (xs @ [v]) ! i > v) [0..<?n]")
    case None
    then have "\<not> v < xs ! j" if "j < ?n" for j using that by (auto simp: find_None_iff nth_append)
    moreover have "xs ! j \<noteq> v" if "j < ?n" for j using that assms(2) nth_mem by metis
    ultimately have "\<forall>j < ?n. xs ! j < v" by (metis linorder_neqE_nat)
    with None show ?thesis by (intro exI [of _ ?n]) (simp add: AddSorted_def)
  next
    case (Some i)
    note f = find_first [OF Some]
    have i: "i < ?n" "v < xs ! i" using f by (auto simp: nth_append)
    have before: "xs ! j < v" if "j < i" for j
    proof -
      have "\<not> v < xs ! j" "xs ! j \<noteq> v" using f that i(1) assms(2) nth_mem [of j xs] by (auto simp: nth_append)
      then show ?thesis by simp
    qed
    have after: "v < xs ! j" if "i \<le> j" "j < ?n" for j
      using sorted_wrt_nth_less [OF assms(1), of i j] i that by (cases "i = j") auto
    let ?ys = "shift_right (?n - i) ?n (xs @ [v])"
    have ys: "length ?ys = Suc ?n" "\<And>k. k \<le> ?n \<Longrightarrow> ?ys ! k = (if i < k then xs ! (k - 1) else xs ! k)"
    proof -
      show "length ?ys = Suc ?n" using shift_right_nth [of "?n - i" ?n "xs @ [v]" 0] by simp
      show "?ys ! k = (if i < k then xs ! (k - 1) else xs ! k)" if "k \<le> ?n" for k
        using shift_right_nth [of "?n - i" ?n "xs @ [v]" k] that i(1) by (auto simp: nth_append)
    qed
    have "AddSorted v xs = ?ys[i := v]" using Some by (simp add: AddSorted_def)
    also have "\<dots> = take i xs @ v # drop i xs"
    proof (rule nth_equalityI)
      show "length (?ys[i := v]) = length (take i xs @ v # drop i xs)" using ys(1) i(1) by simp
      show "?ys[i := v] ! k = (take i xs @ v # drop i xs) ! k" if "k < length (?ys[i := v])" for k
      proof -
        have k: "k \<le> ?n" using that ys(1) by simp
        consider "k < i" | "k = i" | "i < k" by linarith
        then show ?thesis
          using ys(2) [OF k] ys(1) i(1) k by cases (auto simp: nth_append nth_Cons' nth_list_update)
      qed
    qed
    finally show ?thesis using i(1) before after by (intro exI [of _ i]) auto
  qed
  then obtain i where i: "i \<le> ?n" "AddSorted v xs = take i xs @ v # drop i xs" "\<forall>j < i. xs ! j < v"
      "\<forall>j. i \<le> j \<and> j < ?n \<longrightarrow> v < xs ! j" by blast
  have parts: "xs = take i xs @ drop i xs" by simp
  have s: "sorted_wrt (<) (take i xs @ drop i xs)" using assms(1) by simp
  have below: "x < v" if "x \<in> set (take i xs)" for x using that i(3) by (auto simp: in_set_conv_nth)
  have above: "v < x" if "x \<in> set (drop i xs)" for x using that i(4) by (auto simp: in_set_conv_nth)
  show "sorted_wrt (<) (AddSorted v xs)"
  proof -
    have "sorted_wrt (<) (take i xs)" "sorted_wrt (<) (drop i xs)" using s [unfolded sorted_wrt_append] by blast+
    moreover have "x < y" if "x \<in> set (take i xs)" "y \<in> set (drop i xs)" for x y using below [OF that(1)] above [OF that(2)] by simp
    ultimately show ?thesis unfolding i(2) sorted_wrt_append using below above by auto
  qed
  show "set (AddSorted v xs) = insert v (set xs)" unfolding i(2) by (subst (3) parts) (simp only: set_append list.set Un_insert_right)
  show "length (AddSorted v xs) = Suc (length xs)" unfolding i(2) using i(1) by simp
qed

section \<open>Boundaries of blocks\<close>

text \<open>The sizes that are compared are defined for every range of commands.\<close>

lemma auto_size:
  assumes "store_path a st p q" and "q - p < 2 ^ 22" and "i \<le> j" and "j \<le> lsize st"
  shows "\<exists>c. ZopfliCalculateBlockSizeAutoType st i j = Some c"
proof -
  have ok: "store_ok st" using assms(1) by (simp add: store_path_def)
  have n: "j - i < 2 ^ 22" using store_path_lsize [OF assms(1)] assms(2,4) by simp
  have empty: "bit_out_ok \<lparr>bp = 0, out = []\<rparr>" by (simp add: bit_out_ok_def)
  note args = ok assms(3,4) n refl store_path_commands [OF assms(1,4)] empty
  obtain bits1 :: "bool list" where "ZopfliCalculateBlockSize st i j 1 = Some (length bits1)"
    by (rule fixed_block_written [OF args, of 0 False]) (simp, blast)
  moreover obtain bits2 :: "bool list" where "ZopfliCalculateBlockSize st i j 2 = Some (length bits2)"
    by (rule dynamic_block_written [OF args, of 0 False]) (simp, blast)
  moreover have "\<exists>c. ZopfliCalculateBlockSize st i j 0 = Some c" by (simp add: ZopfliCalculateBlockSize_def Let_def)
  ultimately show ?thesis by (auto simp: ZopfliCalculateBlockSizeAutoType_def)
qed

definition points_ok :: "nat \<Rightarrow> nat list \<Rightarrow> bool" where
  "points_ok n sp \<longleftrightarrow> sorted_wrt (<) sp \<and> (\<forall>x \<in> set sp. 0 < x \<and> x < n)"

lemma points_count: "points_ok n sp \<Longrightarrow> length sp \<le> n"
proof -
  assume ok: "points_ok n sp"
  then have "length sp = card (set sp)" by (simp add: points_ok_def strict_sorted_iff distinct_card)
  also have "\<dots> \<le> card {..<n}" using ok by (intro card_mono) (auto simp: points_ok_def)
  finally show ?thesis by simp
qed

text \<open>A block between neighbouring boundaries that is still to be tried.\<close>

definition open_block :: "nat \<Rightarrow> bool list \<Rightarrow> nat list \<Rightarrow> nat \<times> nat \<Rightarrow> bool" where
  "open_block n finished sp b \<longleftrightarrow>
    \<not> finished ! fst b \<and> fst b < n \<and> snd b \<le> n \<and> (\<forall>x \<in> set sp. \<not> (fst b < x \<and> x < snd b))"

lemma block_between:
  assumes "points_ok n sp" and "i \<le> length sp" and "0 < n" and "block_at n sp i = (start, end')"
  shows "start < n" and "end' \<le> n" and "\<forall>x \<in> set sp. \<not> (start < x \<and> x < end')"
proof -
  have sp: "sorted_wrt (<) sp" and in_range: "sp ! j < n" if "j < length sp" for j
    using assms(1) nth_mem that by (auto simp: points_ok_def)
  show "start < n" "end' \<le> n" using in_range assms by (auto simp: block_at_def less_imp_le split: if_splits)
  show "\<forall>x \<in> set sp. \<not> (start < x \<and> x < end')"
  proof (intro ballI notI)
    fix x
    assume x: "x \<in> set sp" "start < x \<and> x < end'"
    then obtain j where j: "j < length sp" "x = sp ! j" by (metis in_set_conv_nth)
    have mono: "sp ! k \<le> sp ! l" if "k \<le> l" "l < length sp" for k l
      using sorted_wrt_nth_less [of "(<)" sp k l] assms(1) that by (cases "k = l") (auto simp: points_ok_def)
    show False
    proof (cases "j < i")
      case True
      then have "sp ! j \<le> sp ! (i - 1)" using assms(2) by (intro mono) auto
      then show False using x(2) j True assms(4) by (auto simp: block_at_def split: if_splits)
    next
      case False
      then have "sp ! i \<le> sp ! j" "i \<noteq> length sp" using j(1) by (auto intro: mono)
      then show False using x(2) j assms(4) by (auto simp: block_at_def split: if_splits)
    qed
  qed
qed

lemma largest_loop_open:
  assumes "points_ok n sp" and "0 < n" and "\<forall>i \<in> set is. i \<le> length sp" and "\<And>b. best = Some b \<Longrightarrow> open_block n finished sp b"
    and "largest_loop n finished sp is longest best = Some b"
  shows "open_block n finished sp b"
  using assms(3-5)
proof (induction "is" arbitrary: longest best)
  case (Cons i "is")
  obtain start end' where b: "block_at n sp i = (start, end')" by fastforce
  note bt = block_between [OF assms(1) _ assms(2) b]
  show ?case
  proof (cases "\<not> finished ! start \<and> end' - start > longest")
    case True
    then have "largest_loop n finished sp is (end' - start) (Some (start, end')) = Some b" using Cons.prems(3) \<open>block_at n sp i = _\<close> by simp
    moreover have "open_block n finished sp (start, end')" using bt Cons.prems(1) True by (simp add: open_block_def)
    ultimately show ?thesis using Cons.IH Cons.prems(1) by (metis list.set_intros(2) option.inject)
  next
    case False
    then have "largest_loop n finished sp is longest best = Some b" using Cons.prems(3) \<open>block_at n sp i = _\<close> by auto
    then show ?thesis using Cons.IH [OF _ Cons.prems(2)] Cons.prems(1) by simp
  qed
qed simp

text \<open>What is left to try: it decreases in every turn.\<close>

definition split_left :: "nat \<Rightarrow> bool list \<times> nat list \<times> nat \<Rightarrow> nat" where
  "split_left n st = length (filter Not (fst st)) + (n - length (fst (snd st)))"

lemma filter_update_True:
  "i < length xs \<Longrightarrow> \<not> xs ! i \<Longrightarrow> length (filter Not (xs[i := True])) < length (filter Not xs)"
proof (induction xs arbitrary: i)
  case (Cons x xs)
  then show ?case by (cases i) auto
qed simp

lemma split_turn_ok:
  assumes "store_path a lz77 p q" and "q - p < 2 ^ 22" and st: "st = (finished, sp, nb)" and "length finished = lsize lz77"
    and "points_ok (lsize lz77) sp" and b: "open_block (lsize lz77) finished sp (lstart, lend)" and "10 \<le> lend - lstart"
  shows "\<exists>st'. split_turn lz77 lstart lend st = Some st' \<and> length (fst st') = lsize lz77 \<and>
    points_ok (lsize lz77) (fst (snd st')) \<and> split_left (lsize lz77) st' < split_left (lsize lz77) st"
proof -
  let ?n = "lsize lz77"
  have le: "lstart < ?n" "lend \<le> ?n" "\<not> finished ! lstart" "\<forall>x \<in> set sp. \<not> (lstart < x \<and> x < lend)" using b by (auto simp: open_block_def)
  have lt: "lstart < lend" "lstart + 1 < lend" using assms(7) by auto
  have est: "\<exists>c. EstimateCost lz77 i j = Some c" if "i \<le> j" "j \<le> lend" for i j
    unfolding EstimateCost_def by (rule auto_size [OF assms(1,2) that(1)]) (use that le in simp)
  have "\<exists>v. SplitCost lz77 lstart lend i = Some v" if "lstart + 1 \<le> i" "i < lend" for i
    using est [of lstart i] est [of i lend] that by (auto simp: SplitCost_def)
  then obtain r v where m: "FindMinimum (SplitCost lz77 lstart lend) (lstart + 1) lend = Some (r, v)" "lstart + 1 \<le> r" "r < lend"
    using FindMinimum_range [OF _ lt(2), of "SplitCost lz77 lstart lend"] by blast
  obtain oc where oc: "EstimateCost lz77 lstart lend = Some oc" using est [of lstart lend] lt(1) by auto
  show ?thesis
  proof (cases "v > oc \<or> r = lstart + 1 \<or> r = lend")
    case True
    have "split_turn lz77 lstart lend st = Some (finished[lstart := True], sp, nb)"
      using m oc lt(1) True by (auto simp: split_turn_def st)
    moreover have "length (filter Not (finished[lstart := True])) < length (filter Not finished)"
      using le assms(4) by (intro filter_update_True) simp_all
    ultimately show ?thesis using assms(4,5) by (simp add: split_left_def st)
  next
    case False
    have new: "r \<notin> set sp" "0 < r" "r < ?n" using m le by auto
    have sp: "sorted_wrt (<) sp" using assms(5) by (simp add: points_ok_def)
    note ins = AddSorted_insert [OF sp new(1)]
    have ok: "points_ok ?n (AddSorted r sp)" using ins(1,2) new(2,3) assms(5) by (simp add: points_ok_def)
    have "length (AddSorted r sp) \<le> ?n" using points_count [OF ok] .
    then have "?n - length (AddSorted r sp) < ?n - length sp" using ins(3) by simp
    moreover have "split_turn lz77 lstart lend st = Some (finished, AddSorted r sp, nb + 1)"
      using m oc lt(1) False by (simp add: split_turn_def st)
    ultimately show ?thesis using assms(4) ok by (simp add: split_left_def st)
  qed
qed

lemma split_loop_ok:
  assumes "store_path a lz77 p q" and "q - p < 2 ^ 22" and "length (fst st) = lsize lz77" and "points_ok (lsize lz77) (fst (snd st))"
    and "open_block (lsize lz77) (fst st) (fst (snd st)) (lstart, lend)" and "10 \<le> lend - lstart" and "split_left (lsize lz77) st < fuel"
  shows "\<exists>sp. split_loop fuel lz77 maxblocks lstart lend st = Some sp \<and> points_ok (lsize lz77) sp"
  using assms(3-7)
proof (induction fuel arbitrary: lstart lend st)
  case (Suc fuel)
  obtain finished sp nb where st: "st = (finished, sp, nb)" by (metis prod.exhaust)
  show ?case
  proof (cases "maxblocks > 0 \<and> snd (snd st) \<ge> maxblocks")
    case True
    then show ?thesis using Suc.prems(2) by simp
  next
    case False
    have pre: "length finished = lsize lz77" "points_ok (lsize lz77) sp" "open_block (lsize lz77) finished sp (lstart, lend)"
      using Suc.prems(1-3) by (simp_all add: st)
    obtain st' where t: "split_turn lz77 lstart lend st = Some st'" "length (fst st') = lsize lz77"
        "points_ok (lsize lz77) (fst (snd st'))" "split_left (lsize lz77) st' < split_left (lsize lz77) st"
      using split_turn_ok [OF assms(1,2) st pre Suc.prems(4)] by blast
    have pos: "0 < lsize lz77" using Suc.prems(3) by (auto simp: open_block_def)
    show ?thesis
    proof (cases "FindLargestSplittableBlock (lsize lz77) (fst st') (fst (snd st'))")
      case None
      then show ?thesis using False t(1,3) by auto
    next
      case (Some b)
      obtain l2 e2 where b: "b = (l2, e2)" by fastforce
      have "open_block (lsize lz77) (fst st') (fst (snd st')) b"
        by (rule largest_loop_open [OF t(3) pos _ _ Some [unfolded FindLargestSplittableBlock_def]]) (simp_all add: less_Suc_eq_le)
      then have ob: "open_block (lsize lz77) (fst st') (fst (snd st')) (l2, e2)" by (simp only: b)
      have step: "split_loop (Suc fuel) lz77 maxblocks lstart lend st =
          (if e2 - l2 < 10 then Some (fst (snd st')) else split_loop fuel lz77 maxblocks l2 e2 st')"
        using False t(1) Some b by auto
      show ?thesis
      proof (cases "e2 - l2 < 10")
        case True
        then show ?thesis using step t(3) by simp
      next
        case no: False
        have "split_left (lsize lz77) st' < fuel" using Suc.prems(5) t(4) by simp
        with Suc.IH [OF t(2,3) ob] no step show ?thesis by simp
      qed
    qed
  qed
qed simp

lemma BlockSplitLZ77_points:
  assumes "store_path a lz77 p q" and "q - p < 2 ^ 22"
  shows "\<exists>sp. ZopfliBlockSplitLZ77 lz77 maxblocks [] = Some sp \<and> points_ok (lsize lz77) sp"
proof (cases "lsize lz77 < 10")
  case False
  have "\<exists>sp. split_loop (2 * lsize lz77 + 1) lz77 maxblocks 0 (lsize lz77) (replicate (lsize lz77) False, [], 1) = Some sp \<and>
      points_ok (lsize lz77) sp"
    by (rule split_loop_ok [OF assms]) (use False in \<open>auto simp: points_ok_def open_block_def split_left_def\<close>)
  then show ?thesis using False by (simp add: ZopfliBlockSplitLZ77_def)
qed (simp add: ZopfliBlockSplitLZ77_def points_ok_def)

section \<open>Positions of boundaries\<close>

lemma path_nth:
  assumes "path a p xs q" and "i < length xs"
  shows "path a p (take i xs) (snd (xs ! i))" and "path a (snd (xs ! i)) (drop i xs) q"
proof -
  have "path a p (take i xs @ drop i xs) q" using assms(1) by simp
  then obtain m where m: "path a p (take i xs) m" "path a m (drop i xs) q" by (auto simp only: path_append)
  have "drop i xs = xs ! i # drop (Suc i) xs" using assms(2) by (rule Cons_nth_drop_Suc [symmetric])
  with m(2) have "snd (xs ! i) = m" by (cases "xs ! i") simp
  with m show "path a p (take i xs) (snd (xs ! i))" "path a (snd (xs ! i)) (drop i xs) q" by simp_all
qed

lemma store_pos_nth:
  assumes "store_path a st p q" and "i < lsize st"
  shows "path a p (take i (store_cmds st)) (pos st ! i)" and "path a (pos st ! i) (drop i (store_cmds st)) q"
proof -
  have ok: "store_ok st" "path a p (store_cmds st) q" using assms(1) by (simp_all add: store_path_def)
  have "snd (store_cmds st ! i) = pos st ! i" using store_cmds_nth [OF ok(1) assms(2)] by simp
  with path_nth [OF ok(2), of i] store_cmds_length [OF ok(1)] assms(2)
  show "path a p (take i (store_cmds st)) (pos st ! i)" "path a (pos st ! i) (drop i (store_cmds st)) q" by simp_all
qed

lemma store_pos_Suc:
  assumes "store_path a st p q" and "Suc i < lsize st"
  shows "pos st ! Suc i = pos st ! i + command_length (command_at st i)" and "pos st ! i < pos st ! Suc i"
proof -
  have ok: "store_ok st" "path a p (store_cmds st) q" using assms(1) by (simp_all add: store_path_def)
  have i: "i < lsize st" using assms(2) by simp
  have len: "length (store_cmds st) = lsize st" by (rule store_cmds_length [OF ok(1)])
  have "drop i (store_cmds st) = store_cmds st ! i # store_cmds st ! Suc i # drop (Suc (Suc i)) (store_cmds st)"
    using assms(2) len by (metis Cons_nth_drop_Suc i)
  with store_pos_nth(2) [OF assms(1) i] store_cmds_nth [OF ok(1) i] store_cmds_nth [OF ok(1) assms(2)]
  have "step_ok a (pos st ! i) (command_at st i)" "pos st ! Suc i = pos st ! i + command_length (command_at st i)" by simp_all
  then show "pos st ! Suc i = pos st ! i + command_length (command_at st i)" "pos st ! i < pos st ! Suc i"
    using command_length_pos by simp_all
qed

lemma store_pos_mono:
  assumes "store_path a st p q" and "j < lsize st" and "i < j"
  shows "pos st ! i < pos st ! j"
  using assms(3,2)
proof (induction j rule: less_Suc_induct)
  case (1 i)
  then show ?case using store_pos_Suc(2) [OF assms(1)] by simp
next
  case (2 i j k)
  then show ?case by simp
qed

lemma store_pos_range:
  assumes "store_path a st p q" and "0 < i" and "i < lsize st"
  shows "p < pos st ! i" and "pos st ! i < q"
proof -
  have len: "length (store_cmds st) = lsize st" using assms(1) store_cmds_length by (simp add: store_path_def)
  show "p < pos st ! i" using path_length [OF store_pos_nth(1) [OF assms(1,3)]] assms(2,3) len by simp
  show "pos st ! i < q" using path_length [OF store_pos_nth(2) [OF assms(1,3)]] assms(3) len by simp
qed

lemma convert_points_pos:
  assumes "store_path a st p0 q" and "points_ok (lsize st) sp" and "m < length sp" and "i \<le> sp ! m"
    and "points = map (\<lambda>k. pos st ! k) (take m sp)"
  shows "convert_points st sp [i..<lsize st] (pos st ! i) points = map (\<lambda>k. pos st ! k) sp"
  using assms(3-5)
proof (induction "lsize st - i" arbitrary: i m points)
  case 0
  have "sp ! m < lsize st" using assms(2) 0(2) nth_mem by (auto simp: points_ok_def)
  with 0 show ?case by simp
next
  case (Suc d)
  have lt: "sp ! m < lsize st" using assms(2) Suc.prems(1) nth_mem by (auto simp: points_ok_def)
  then have i: "i < lsize st" using Suc.prems(2) by simp
  have upt: "[i..<lsize st] = i # [Suc i..<lsize st]" using i by (rule upt_conv_Cons)
  have len: "(if dists st ! i = 0 then 1 else litlens st ! i) = command_length (command_at st i)" by (simp add: command_length_def)
  have n: "length points = m" using Suc.prems(1,3) by simp
  have d: "d = lsize st - Suc i" using Suc.hyps(2) by simp
  show ?case
  proof (cases "sp ! m = i")
    case False
    then have le: "Suc i \<le> sp ! m" "Suc i < lsize st" using Suc.prems(2) lt by simp_all
    have "convert_points st sp [i..<lsize st] (pos st ! i) points = convert_points st sp [Suc i..<lsize st] (pos st ! Suc i) points"
      using False n store_pos_Suc(1) [OF assms(1) le(2)] by (simp add: upt len)
    then show ?thesis using Suc.hyps(1) [OF d Suc.prems(1) le(1) Suc.prems(3)] by simp
  next
    case True
    have points: "points @ [pos st ! i] = map (\<lambda>k. pos st ! k) (take (Suc m) sp)"
      using Suc.prems(1,3) True by (simp add: take_Suc_conv_app_nth)
    show ?thesis
    proof (cases "Suc m = length sp")
      case True
      then show ?thesis using points n \<open>sp ! m = i\<close> by (simp add: upt)
    next
      case more: False
      then have m: "Suc m < length sp" using Suc.prems(1) by simp
      have "sp ! m < sp ! Suc m" using assms(2) m sorted_wrt_nth_less [of "(<)" sp m "Suc m"] by (simp add: points_ok_def)
      then have le: "Suc i \<le> sp ! Suc m" using True by simp
      have "sp ! Suc m < lsize st" using assms(2) m nth_mem by (auto simp: points_ok_def)
      then have lt2: "Suc i < lsize st" using le by simp
      have "convert_points st sp [i..<lsize st] (pos st ! i) points =
          convert_points st sp [Suc i..<lsize st] (pos st ! Suc i) (points @ [pos st ! i])"
        using True more n store_pos_Suc(1) [OF assms(1) lt2] by (simp add: upt len)
      then show ?thesis using Suc.hyps(1) [OF d m le points] by simp
    qed
  qed
qed

lemma store_pos_0: "store_path a st p q \<Longrightarrow> 0 < lsize st \<Longrightarrow> pos st ! 0 = p"
  using store_pos_nth(1) [of a st p q 0] by simp

lemma BlockSplit_points:
  assumes "e \<le> length a" and "e - bs < 2 ^ 22" and "bs \<le> e"
  shows "\<exists>points. ZopfliBlockSplit mem a bs e maxblocks = Some points \<and> sorted_wrt (<) points \<and> (\<forall>x \<in> set points. bs < x \<and> x < e)"
proof -
  let ?sl = "map (sublen0 mem) [0..<259]"
  have sl: "length ?sl = 259" by (simp only: length_map length_upt diff_zero)
  have inv: "state_inv a e (window_start bs) (ZopfliInitBlockState bs e False)" "blockstart (ZopfliInitBlockState bs e False) = bs"
    by (rule InitBlockState_inv [OF window_start_le assms(3)]) (simp add: ZopfliInitBlockState_def)
  obtain s1 st h where g: "ZopfliLZ77Greedy (ZopfliInitBlockState bs e False) a bs e (ZopfliInitLZ77Store a) (hash0 mem) ?sl =
        Some (s1, st, h)" "store_path a st bs e"
    by (rule greedy_parse [OF inv assms(1) sl store_path_init])
  obtain sp where sp: "ZopfliBlockSplitLZ77 st maxblocks [] = Some sp" "points_ok (lsize st) sp"
    using BlockSplitLZ77_points [OF g(2) assms(2)] by blast
  have conv: "(if length sp > 0 then convert_points st sp [0..<lsize st] bs [] else []) = map (\<lambda>k. pos st ! k) sp"
  proof (cases "sp = []")
    case False
    then have "sp ! 0 < lsize st" using sp(2) by (simp add: points_ok_def)
    then have "pos st ! 0 = bs" using store_pos_0 [OF g(2)] by simp
    with convert_points_pos [OF g(2) sp(2), of 0 0 "[]"] False show ?thesis by simp
  qed simp
  have "sorted_wrt (<) (map (\<lambda>k. pos st ! k) sp)"
  proof -
    have "sorted_wrt (\<lambda>i j. pos st ! i < pos st ! j) sp"
      by (rule sorted_wrt_mono_rel [of _ "(<)"]) (use sp(2) store_pos_mono [OF g(2)] in \<open>auto simp: points_ok_def\<close>)
    then show ?thesis by (simp add: sorted_wrt_map)
  qed
  moreover have "\<forall>x \<in> set (map (\<lambda>k. pos st ! k) sp). bs < x \<and> x < e"
    using store_pos_range [OF g(2)] sp(2) by (auto simp: points_ok_def)
  moreover have "ZopfliBlockSplit mem a bs e maxblocks = Some (map (\<lambda>k. pos st ! k) sp)"
    using g(1) sp(1) conv by (simp add: ZopfliBlockSplit_def del: upt_rec_numeral split del: if_split)
  ultimately show ?thesis by blast
qed

section \<open>The number of blocks\<close>

lemma shift_right_length: "length (shift_right n j xs) = length xs"
  by (induction n arbitrary: j xs) simp_all

lemma AddSorted_length: "length (AddSorted v xs) = Suc (length xs)"
  by (simp add: AddSorted_def Let_def shift_right_length split: option.split)

lemma split_turn_count:
  "split_turn lz77 lstart lend st = Some st' \<Longrightarrow> snd (snd st) = Suc (length (fst (snd st))) \<Longrightarrow>
   snd (snd st') = Suc (length (fst (snd st'))) \<and> length (fst (snd st')) \<le> Suc (length (fst (snd st)))"
  by (cases st) (auto simp: split_turn_def AddSorted_length split: if_splits bind_splits)

lemma split_loop_count:
  "split_loop fuel lz77 maxblocks lstart lend st = Some sp \<Longrightarrow> 0 < maxblocks \<Longrightarrow> snd (snd st) = Suc (length (fst (snd st))) \<Longrightarrow>
   snd (snd st) \<le> maxblocks \<Longrightarrow> length sp < maxblocks"
proof (induction fuel arbitrary: lstart lend st)
  case (Suc fuel)
  show ?case
  proof (cases "snd (snd st) \<ge> maxblocks")
    case True
    then show ?thesis using Suc.prems by auto
  next
    case False
    then obtain st' where t: "split_turn lz77 lstart lend st = Some st'" using Suc.prems(1,2) by (auto split: option.splits)
    note c = split_turn_count [OF t Suc.prems(3)]
    then have le: "snd (snd st') \<le> maxblocks" using False Suc.prems(3) by simp
    show ?thesis
      using Suc.prems(1,2) False t c le Suc.IH [of _ _ st', OF _ Suc.prems(2) _ le] by (auto split: option.splits if_splits prod.splits)
  qed
qed simp

lemma BlockSplit_count:
  assumes "ZopfliBlockSplit mem a bs e maxblocks = Some points" and "0 < maxblocks"
  shows "length points < maxblocks"
proof -
  obtain store sp where sp: "ZopfliBlockSplitLZ77 store maxblocks [] = Some sp" "length points = length sp"
    using assms(1) by (auto simp: ZopfliBlockSplit_def Let_def simp del: upt_rec_numeral split: bind_splits if_splits)
  then show ?thesis
    using split_loop_count [OF _ assms(2), of "2 * lsize store + 1" store 0 "lsize store" "(replicate (lsize store) False, [], 1)" sp] assms(2)
    by (auto simp: ZopfliBlockSplitLZ77_def simp del: split_loop.simps split: if_splits)
qed

section \<open>Boundaries at equal distances\<close>

lemma simple_loop_points:
  assumes "0 < blocksize"
  shows "simple_loop inend blocksize i points =
    Some (points @ map (\<lambda>k. i + k * blocksize) [0..<(inend - i + blocksize - 1) div blocksize])"
proof (induction "inend - i" arbitrary: i points rule: less_induct)
  case less
  show ?case
  proof (cases "i < inend")
    case True
    let ?n = "\<lambda>i. (inend - i + blocksize - 1) div blocksize"
    have n: "?n i = Suc (?n (i + blocksize))"
    proof (cases "inend - i \<le> blocksize")
      case le: True
      have "?n i = 1" using True le assms by (intro div_nat_eqI) auto
      moreover have "?n (i + blocksize) = 0" using le assms by simp
      ultimately show ?thesis by simp
    next
      case False
      then have "inend - i + blocksize - 1 = (inend - (i + blocksize) + blocksize - 1) + blocksize" by simp
      then show ?thesis using assms by (simp only: div_add_self2)
    qed
    have "simple_loop inend blocksize i points = simple_loop inend blocksize (i + blocksize) (points @ [i])"
      using True by (subst simple_loop.simps) simp
    also have "\<dots> = Some ((points @ [i]) @ map (\<lambda>k. i + blocksize + k * blocksize) [0..<?n (i + blocksize)])"
      by (rule less) (use True assms in simp)
    also have "\<dots> = Some (points @ map (\<lambda>k. i + k * blocksize) [0..<?n i])"
      unfolding n upt_conv_Cons [OF zero_less_Suc] map_Suc_upt [symmetric] by (simp add: comp_def add.assoc)
    finally show ?thesis .
  next
    case False
    then show ?thesis using assms by (subst simple_loop.simps) simp
  qed
qed

lemma simple_loop_returns: "simple_loop inend blocksize i points = Some y \<Longrightarrow> i < inend \<longrightarrow> 0 < blocksize"
  by (erule simple_loop.raw_induct [where P = "\<lambda>inend blocksize i points y. i < inend \<longrightarrow> 0 < blocksize", rotated])
    (metis add.right_neutral gr0I)

lemma BlockSplitSimple_ends: "(\<exists>y. ZopfliBlockSplitSimple instart inend blocksize points = Some y) \<longleftrightarrow> 0 < blocksize \<or> inend \<le> instart"
proof (cases "0 < blocksize")
  case False
  then show ?thesis
    using simple_loop_returns [of inend blocksize instart points] unfolding ZopfliBlockSplitSimple_def
    by (metis not_less simple_loop.simps)
qed (simp add: ZopfliBlockSplitSimple_def simple_loop_points)

end
