(* ===== verification/Zopfli_Deflate.thy ===== *)
theory Zopfli_Deflate
  imports Zopfli_Split
begin

text \<open>
  The encoder as a whole (\<open>ZopfliInitOptions\<close> of \<open>util.c\<close>; \<open>AddLZ77BlockAutoType\<close>, \<open>ZopfliDeflatePart\<close> and \<open>ZopfliDeflate\<close> of
  \<open>deflate.c\<close>). The environment has what the C program takes from outside of its source: the logarithm
  of the library and the contents that memory happens to have before it is written, one for every
  position where a block starts. A failed assertion is \<open>None\<close>. Sums of block sizes are natural numbers,
  which a \<open>double\<close> holds exactly.

  A reference decoder reads block after block and expands them; it gives back the input of the
  encoder for every block type and all options with at least one iteration.
\<close>

section \<open>The code of deflate.c\<close>

record ZopfliOptions =
  verbose :: int
  verbose_more :: int
  numiterations :: int
  blocksplitting :: int
  blocksplittinglast :: int
  blocksplittingmax :: int

definition ZopfliInitOptions :: ZopfliOptions where
  "ZopfliInitOptions =
    \<lparr>verbose = 0, verbose_more = 0, numiterations = 15, blocksplitting = 1, blocksplittinglast = 0, blocksplittingmax = 15\<rparr>"

record environment =
  clog :: "rat \<Rightarrow> rat"
  memory :: "nat \<Rightarrow> scratch"
  stats0 :: "nat \<Rightarrow> SymbolStats"

text \<open>The store for a fixed block and its size, computed anew when this may pay off.\<close>

definition fixed_choice :: "environment \<Rightarrow> bool \<Rightarrow> lz77_store \<Rightarrow> nat \<Rightarrow> nat \<Rightarrow> nat \<Rightarrow> (lz77_store \<times> nat) option" where
  "fixed_choice env expensivefixed lz77 lstart lend fixedcost =
    (let fixedstore = ZopfliInitLZ77Store (ldata lz77)
     in if expensivefixed then
          let instart = pos lz77 ! lstart;
              inend = instart + ZopfliLZ77GetByteRange lz77 lstart lend;
              s = ZopfliInitBlockState instart inend True
          in do {
            (_, fixedstore) \<leftarrow> ZopfliLZ77OptimalFixed (memory env instart) s (ldata lz77) instart inend fixedstore;
            fixedcost \<leftarrow> ZopfliCalculateBlockSize fixedstore 0 (lsize fixedstore) 1;
            Some (fixedstore, fixedcost)
          }
        else Some (fixedstore, fixedcost))"

definition AddLZ77BlockAutoType ::
  "environment \<Rightarrow> bool \<Rightarrow> lz77_store \<Rightarrow> nat \<Rightarrow> nat \<Rightarrow> nat \<Rightarrow> bit_out \<Rightarrow> bit_out option" where
  "AddLZ77BlockAutoType env final lz77 lstart lend expected_data_size b =
    do {
      uncompressedcost \<leftarrow> ZopfliCalculateBlockSize lz77 lstart lend 0;
      fixedcost \<leftarrow> ZopfliCalculateBlockSize lz77 lstart lend 1;
      dyncost \<leftarrow> ZopfliCalculateBlockSize lz77 lstart lend 2;
      let expensivefixed = (lsize lz77 < 1000 \<or> of_nat fixedcost \<le> dmul (of_nat dyncost) (to_double (11 / 10)));
      if lstart = lend then Some (AddBits 0 7 (AddBits 1 2 (AddBits (of_bool final) 1 b)))
      else do {
        (fixedstore, fixedcost) \<leftarrow> fixed_choice env expensivefixed lz77 lstart lend fixedcost;
        if uncompressedcost < fixedcost \<and> uncompressedcost < dyncost
        then AddLZ77Block 0 final lz77 lstart lend expected_data_size b
        else if fixedcost < dyncost then
          (if expensivefixed then AddLZ77Block 1 final fixedstore 0 (lsize fixedstore) expected_data_size b
           else AddLZ77Block 1 final lz77 lstart lend expected_data_size b)
        else AddLZ77Block 2 final lz77 lstart lend expected_data_size b
      }
    }"

text \<open>The interval between boundaries \<open>i - 1\<close> and \<open>i\<close>.\<close>

definition interval :: "nat \<Rightarrow> nat \<Rightarrow> nat list \<Rightarrow> nat \<Rightarrow> nat \<times> nat" where
  "interval first last' points i =
    (if i = 0 then first else points ! (i - 1), if i = length points then last' else points ! i)"

text \<open>The loop that parses the blocks, with store, total size and boundaries so far.\<close>

fun parse_blocks ::
  "environment \<Rightarrow> ZopfliOptions \<Rightarrow> byte list \<Rightarrow> nat \<Rightarrow> nat \<Rightarrow> nat list \<Rightarrow> nat list \<Rightarrow> lz77_store \<times> nat \<times> nat list \<Rightarrow>
   (lz77_store \<times> nat \<times> nat list) option"
where
  "parse_blocks env options inp instart inend points [] st = Some st"
| "parse_blocks env options inp instart inend points (i # is) st =
    (case interval instart inend points i of
       (start, end') \<Rightarrow>
         do {
           (_, store) \<leftarrow> ZopfliLZ77Optimal (clog env) (memory env start) (stats0 env start)
             (ZopfliInitBlockState start end' True) inp start end' (nat (numiterations options)) (ZopfliInitLZ77Store inp);
           cost \<leftarrow> ZopfliCalculateBlockSizeAutoType store 0 (lsize store);
           lz77 \<leftarrow> ZopfliAppendLZ77Store store (fst st);
           parse_blocks env options inp instart inend points is
             (lz77, fst (snd st) + cost,
              if i < length points then snd (snd st) @ [lsize lz77] else snd (snd st))
         })"

fun total_cost :: "lz77_store \<Rightarrow> nat list \<Rightarrow> nat list \<Rightarrow> nat \<Rightarrow> nat option" where
  "total_cost lz77 points [] n = Some n"
| "total_cost lz77 points (i # is) n =
    (case interval 0 (lsize lz77) points i of
       (start, end') \<Rightarrow>
         (case ZopfliCalculateBlockSizeAutoType lz77 start end' of
            None \<Rightarrow> None
          | Some c \<Rightarrow> total_cost lz77 points is (n + c)))"

definition maxblocks :: "ZopfliOptions \<Rightarrow> nat" where
  "maxblocks options = nat (blocksplittingmax options mod 2 ^ 64)"

definition second_split :: "ZopfliOptions \<Rightarrow> lz77_store \<Rightarrow> nat \<Rightarrow> nat list \<Rightarrow> nat list option" where
  "second_split options lz77 totalcost splitpoints =
    (if blocksplitting options \<noteq> 0 \<and> length splitpoints > 1 then
       do {
         splitpoints2 \<leftarrow> ZopfliBlockSplitLZ77 lz77 (maxblocks options) [];
         totalcost2 \<leftarrow> total_cost lz77 splitpoints2 [0..<length splitpoints2 + 1] 0;
         Some (if totalcost2 < totalcost then splitpoints2 else splitpoints)
       }
     else Some splitpoints)"

fun add_blocks :: "environment \<Rightarrow> bool \<Rightarrow> lz77_store \<Rightarrow> nat list \<Rightarrow> nat list \<Rightarrow> bit_out \<Rightarrow> bit_out option" where
  "add_blocks env final lz77 points [] b = Some b"
| "add_blocks env final lz77 points (i # is) b =
    (case interval 0 (lsize lz77) points i of
       (start, end') \<Rightarrow>
         (case AddLZ77BlockAutoType env (i = length points \<and> final) lz77 start end' 0 b of
            None \<Rightarrow> None
          | Some b \<Rightarrow> add_blocks env final lz77 points is b))"

definition ZopfliDeflatePart ::
  "environment \<Rightarrow> ZopfliOptions \<Rightarrow> nat \<Rightarrow> bool \<Rightarrow> byte list \<Rightarrow> nat \<Rightarrow> nat \<Rightarrow> bit_out \<Rightarrow> bit_out option" where
  "ZopfliDeflatePart env options btype final inp instart inend b =
    (if btype = 0 then Some (AddNonCompressedBlock final inp instart inend b)
     else if btype = 1 then
       do {
         (_, store) \<leftarrow> ZopfliLZ77OptimalFixed (memory env instart) (ZopfliInitBlockState instart inend True) inp instart inend
           (ZopfliInitLZ77Store inp);
         AddLZ77Block btype final store 0 (lsize store) 0 b
       }
     else
       do {
         points \<leftarrow> (if blocksplitting options \<noteq> 0
                     then ZopfliBlockSplit (memory env instart) inp instart inend (maxblocks options) else Some []);
         (lz77, totalcost, splitpoints) \<leftarrow>
           parse_blocks env options inp instart inend points [0..<length points + 1] (ZopfliInitLZ77Store inp, 0, []);
         splitpoints \<leftarrow> second_split options lz77 totalcost splitpoints;
         add_blocks env final lz77 splitpoints [0..<length splitpoints + 1] b
       })"

abbreviation (input) ZOPFLI_MASTER_BLOCK_SIZE :: nat where "ZOPFLI_MASTER_BLOCK_SIZE \<equiv> 1000000"

function deflate_loop ::
  "environment \<Rightarrow> ZopfliOptions \<Rightarrow> nat \<Rightarrow> bool \<Rightarrow> byte list \<Rightarrow> nat \<Rightarrow> bit_out \<Rightarrow> bit_out option" where
  "deflate_loop env options btype final inp i b =
    (let masterfinal = (i + ZOPFLI_MASTER_BLOCK_SIZE \<ge> length inp);
         size' = (if masterfinal then length inp - i else ZOPFLI_MASTER_BLOCK_SIZE)
     in case ZopfliDeflatePart env options btype (final \<and> masterfinal) inp i (i + size') b of
          None \<Rightarrow> None
        | Some b \<Rightarrow> if i + size' < length inp then deflate_loop env options btype final inp (i + size') b else Some b)"
  by pat_completeness auto
termination by (relation "measure (\<lambda>(env, options, btype, final, inp, i, b). length inp - i)") (auto split: if_splits)

declare deflate_loop.simps [simp del]

definition ZopfliDeflate :: "environment \<Rightarrow> ZopfliOptions \<Rightarrow> nat \<Rightarrow> bool \<Rightarrow> byte list \<Rightarrow> bit_out \<Rightarrow> bit_out option" where
  "ZopfliDeflate env options btype final inp b = deflate_loop env options btype final inp 0 b"

section \<open>A reference decoder\<close>

fun block_output :: "byte list \<Rightarrow> block \<Rightarrow> byte list option" where
  "block_output outp (Stored bytes) = Some (outp @ bytes)"
| "block_output outp (Compressed cs) = expand_commands outp cs"

text \<open>Blocks up to the one with the final flag; the number bounds how many are read.\<close>

fun inflate :: "nat \<Rightarrow> byte list \<Rightarrow> bool list \<Rightarrow> (byte list \<times> bool list) option" where
  "inflate 0 outp bs = None"
| "inflate (Suc n) outp bs =
    (case decode_block bs of
       None \<Rightarrow> None
     | Some (final, b, bs) \<Rightarrow>
         (case block_output outp b of
            None \<Rightarrow> None
          | Some outp \<Rightarrow> if final then Some (outp, bs) else inflate n outp bs))"

text \<open>
  Every block has at least one bit, so the number of bits is enough. The final block ends in the
  last byte.
\<close>

definition inflate_bytes :: "byte list \<Rightarrow> byte list option" where
  "inflate_bytes bytes =
    (case inflate (length (bytes_bits bytes)) [] (bytes_bits bytes) of
       Some (outp, rest) \<Rightarrow> if length rest < 8 then Some outp else None
     | None \<Rightarrow> None)"

text \<open>
  The bits between two states of the output are blocks that take the decoder from position \<open>p\<close> to
  position \<open>q\<close> of the data; only the last one may carry the final flag.
\<close>

definition written :: "byte list \<Rightarrow> bit_out \<Rightarrow> bit_out \<Rightarrow> nat \<Rightarrow> nat \<Rightarrow> bool \<Rightarrow> bool" where
  "written a s s' p q final \<longleftrightarrow>
    bit_out_ok s' \<and>
    (\<exists>bits n. stream s' = stream s @ bits \<and> n \<le> length bits \<and>
      (\<forall>m rest. (length (stream s') + length rest) mod 8 = 0 \<longrightarrow>
        inflate (n + m) (take p a) (bits @ rest) =
          (if final then Some (take q a, rest) else inflate m (take q a) rest)))"

lemma written_trans:
  assumes "written a s s1 p q False" and "written a s1 s2 q r final"
  shows "written a s s2 p r final"
proof -
  obtain bits n where w: "stream s1 = stream s @ bits" "n \<le> length bits"
      "\<And>m rest. (length (stream s1) + length rest) mod 8 = 0 \<Longrightarrow>
        inflate (n + m) (take p a) (bits @ rest) = inflate m (take q a) rest"
    using assms(1) by (auto simp: written_def)
  obtain bits' n' where w': "stream s2 = stream s1 @ bits'" "n' \<le> length bits'" "bit_out_ok s2"
      "\<And>m rest. (length (stream s2) + length rest) mod 8 = 0 \<Longrightarrow>
        inflate (n' + m) (take q a) (bits' @ rest) = (if final then Some (take r a, rest) else inflate m (take r a) rest)"
    using assms(2) by (auto simp: written_def)
  have "inflate (n + n' + m) (take p a) ((bits @ bits') @ rest) =
      (if final then Some (take r a, rest) else inflate m (take r a) rest)"
    if "(length (stream s2) + length rest) mod 8 = 0" for m rest
    using w(3) [of "bits' @ rest" "n' + m"] w'(4) [OF that, of m] that w'(1) by (simp add: add.assoc)
  then show ?thesis
    using w w' unfolding written_def by (intro conjI exI [of _ "bits @ bits'"] exI [of _ "n + n'"]) auto
qed

lemma written_compressed:
  assumes "bit_out_ok s'" and "stream s' = stream s @ bits" and "\<And>rest. decode_block (bits @ rest) = Some (final, Compressed cs, rest)"
    and "expand_commands (take p a) cs = Some (take q a)"
  shows "written a s s' p q final"
proof -
  have "bits \<noteq> []" using assms(3) [of "[]"] by auto
  then have "1 \<le> length bits" by (simp add: Suc_le_eq)
  moreover have "inflate (1 + m) (take p a) (bits @ rest) = (if final then Some (take q a, rest) else inflate m (take q a) rest)" for m rest
    using assms(3,4) by simp
  ultimately show ?thesis using assms(1,2) unfolding written_def by blast
qed

section \<open>Stored blocks\<close>

lemma decode_stored_form:
  assumes "decode_stored bs = Some (f, d, rest)"
  shows "decode_block bs = Some (f, Stored d, rest) \<and> length rest < length bs"
proof -
  obtain g cs where bs: "bs = g # False # False # cs"
    using assms by (auto simp: decode_stored_def split: list.splits bool.splits)
  have read: "length r \<le> length b" if "read_bits n b = Some (v, r)" for n b v r
    using read_bits_shorter [OF that] .
  have bytes: "length r \<le> length b" if "read_bytes n b = Some (v, r)" for n b v r
    using that by (induction n b arbitrary: v r rule: read_bytes.induct) (fastforce dest: read split: option.splits prod.splits)+
  have "length rest \<le> length cs"
    using assms unfolding bs
    by (auto simp: decode_stored_def split: option.splits prod.splits if_splits dest!: read bytes)
  moreover have "decode_block bs = Some (f, Stored d, rest)" using assms by (simp add: bs)
  ultimately show ?thesis by (simp add: bs)
qed

lemma inflate_stored:
  assumes "decode_stored_seq k bs = Some (ds, rest)" and "map fst ds = replicate (k - 1) False @ [final]" and "0 < k"
  shows "k + length rest \<le> length bs \<and>
    inflate (k + m) outp bs =
      (if final then Some (outp @ concat (map snd ds), rest) else inflate m (outp @ concat (map snd ds)) rest)"
  using assms
proof (induction k arbitrary: bs ds outp)
  case (Suc k)
  from Suc.prems(1) obtain f d bs1 ds1 where d: "decode_stored bs = Some (f, d, bs1)" "decode_stored_seq k bs1 = Some (ds1, rest)"
      "ds = (f, d) # ds1"
    by (auto split: option.splits prod.splits)
  note b = decode_stored_form [OF d(1)]
  show ?case
  proof (cases "k = 0")
    case True
    then show ?thesis using Suc.prems(2) d b by auto
  next
    case False
    then obtain k' where k: "k = Suc k'" by (cases k) auto
    then have "f = False" "map fst ds1 = replicate (k - 1) False @ [final]" using Suc.prems(2) d(3) by simp_all
    with Suc.IH [OF d(2) this(2), of "outp @ d"] d b False show ?thesis by auto
  qed
qed simp

lemma stored_blocks_pos: "0 < stored_blocks n"
  by (subst stored_blocks.simps) simp

lemma take_slice: "p \<le> q \<Longrightarrow> take p a @ take (q - p) (drop p a) = take q a"
  by (metis le_add_diff_inverse take_add)

lemma written_stored:
  assumes "bit_out_ok s" and "p \<le> q" and "q \<le> length a"
  shows "written a s (AddNonCompressedBlock final a p q s) p q final"
proof -
  define s' where "s' = AddNonCompressedBlock final a p q s"
  let ?k = "stored_blocks (q - p)"
  have main: "\<exists>bits ds. stream s' = stream s @ bits \<and> bp s' = 0 \<and> decode_stored_seq ?k (bits @ rest) = Some (ds, rest) \<and>
      concat (map snd ds) = take (q - p) (drop p a) \<and> map fst ds = replicate (?k - 1) False @ [final]"
    if "length rest mod 8 = 0" for rest
    unfolding s'_def by (rule AddNonCompressedBlock_decoded [OF assms that])
  from main [of "[]"] obtain bits where bits: "stream s' = stream s @ bits" "bp s' = 0" by auto
  have len: "length (stream s') mod 8 = 0" using bits(2) by (simp add: stream_def)
  have dec: "?k + length rest \<le> length (bits @ rest) \<and>
      inflate (?k + m) (take p a) (bits @ rest) = (if final then Some (take q a, rest) else inflate m (take q a) rest)"
    if "(length (stream s') + length rest) mod 8 = 0" for m rest
  proof -
    have "length rest mod 8 = 0" using that len by presburger
    from main [OF this] obtain ds where "decode_stored_seq ?k (bits @ rest) = Some (ds, rest)"
        "concat (map snd ds) = take (q - p) (drop p a)" "map fst ds = replicate (?k - 1) False @ [final]"
      using bits(1) by auto
    with inflate_stored [OF this(1,3) stored_blocks_pos, of m "take p a"] take_slice [OF assms(2), of a] show ?thesis by simp
  qed
  have "bit_out_ok s'" using bits(2) by (simp add: bit_out_ok_def)
  moreover have "?k \<le> length bits" using dec [of "[]" 0] len by simp
  moreover have "\<forall>m rest. (length (stream s') + length rest) mod 8 = 0 \<longrightarrow>
      inflate (?k + m) (take p a) (bits @ rest) = (if final then Some (take q a, rest) else inflate m (take q a) rest)"
    by (intro allI impI) (rule dec [THEN conjunct2])
  ultimately show ?thesis
    using bits(1) unfolding written_def s'_def [symmetric] by (intro conjI exI [of _ bits] exI [of _ ?k])
qed

section \<open>Blocks of a store\<close>

text \<open>The position where command \<open>i\<close> starts, or the end.\<close>

definition bound :: "lz77_store \<Rightarrow> nat \<Rightarrow> nat \<Rightarrow> nat" where
  "bound st q i = (if i < lsize st then pos st ! i else q)"

lemma bound_path:
  assumes "store_path a st p q" and "i \<le> j" and "j \<le> lsize st"
  shows "path a (bound st q i) (drop i (take j (store_cmds st))) (bound st q j)"
proof -
  have ok: "store_ok st" "path a p (store_cmds st) q" using assms(1) by (simp_all add: store_path_def)
  have len: "length (store_cmds st) = lsize st" by (rule store_cmds_length [OF ok(1)])
  have at: "path a p (take i (store_cmds st)) (bound st q i)" if "i \<le> lsize st" for i
    using store_pos_nth(1) [OF assms(1), of i] ok(2) len that by (auto simp: bound_def)
  have unique: "m = m'" if "path a p xs m" "path a p xs m'" for xs m m' p
    using that by (induction xs arbitrary: p) (auto split: prod.splits)
  have "take j (store_cmds st) = take i (store_cmds st) @ drop i (take j (store_cmds st))"
    using append_take_drop_id [of i "take j (store_cmds st)"] assms(2) by (simp add: min_absorb1)
  then obtain m where m: "path a p (take i (store_cmds st)) m" "path a m (drop i (take j (store_cmds st))) (bound st q j)"
    using at [OF assms(3)] by (metis path_append)
  have "m = bound st q i" by (rule unique [OF m(1) at]) (use assms in simp)
  with m(2) show ?thesis by simp
qed

lemma bound_0: "store_path a st p q \<Longrightarrow> bound st q 0 = p"
proof (cases "0 < lsize st")
  case False
  assume st: "store_path a st p q"
  then have "store_cmds st = []" using store_cmds_length [of st] False by (simp add: store_path_def)
  then show ?thesis using st False by (simp add: bound_def store_path_def)
qed (simp add: bound_def store_pos_0)

lemma bound_end: "bound st q (lsize st) = q"
  by (simp add: bound_def)

lemma bound_le:
  assumes "store_path a st p q" and "i \<le> j" and "j \<le> lsize st"
  shows "p \<le> bound st q i" and "bound st q i \<le> bound st q j" and "bound st q j \<le> q"
proof -
  show "bound st q i \<le> bound st q j" using path_length [OF bound_path [OF assms]] by simp
  show "p \<le> bound st q i" using path_length [OF bound_path [OF assms(1) le0, of i]] assms bound_0 [OF assms(1)] by simp
  show "bound st q j \<le> q" using path_length [OF bound_path [OF assms(1,3) order_refl]] by (simp add: bound_end)
qed

lemma byte_range:
  assumes "store_path a st p q" and "i < j" and "j \<le> lsize st"
  shows "pos st ! i = bound st q i" and "pos st ! i + ZopfliLZ77GetByteRange st i j = bound st q j"
proof -
  show i: "pos st ! i = bound st q i" using assms(2,3) by (simp add: bound_def)
  have ok: "store_ok st" using assms(1) by (simp add: store_path_def)
  have j: "j - 1 < lsize st" "j - 1 \<le> j" using assms(2,3) by auto
  have len: "length (store_cmds st) = lsize st" by (rule store_cmds_length [OF ok])
  have "drop (j - 1) (take j (store_cmds st)) = [store_cmds st ! (j - 1)]"
  proof -
    have "take j (store_cmds st) = take (j - 1) (store_cmds st) @ [store_cmds st ! (j - 1)]"
      using take_Suc_conv_app_nth [of "j - 1" "store_cmds st"] j(1) len assms(2) by simp
    then show ?thesis using j(1) len by simp
  qed
  with bound_path [OF assms(1) j(2) assms(3)] store_cmds_nth [OF ok j(1)]
  have "bound st q j = pos st ! (j - 1) + command_length (command_at st (j - 1))" using j(1) by (auto simp: bound_def)
  moreover have "pos st ! i \<le> bound st q j" using bound_le(2) [OF assms(1) less_imp_le [OF assms(2)] assms(3)] i by simp
  ultimately show "pos st ! i + ZopfliLZ77GetByteRange st i j = bound st q j"
    using assms(2) by (simp add: ZopfliLZ77GetByteRange_def Let_def command_length_def split: if_splits)
qed

lemma written_block:
  assumes "store_path a st p q" and "q - p < 2 ^ 22" and "i \<le> j" and "j \<le> lsize st" and "bit_out_ok s" and "btype = 1 \<or> btype = 2"
  shows "\<exists>s' n. AddLZ77Block btype final st i j 0 s = Some s' \<and> ZopfliCalculateBlockSize st i j btype = Some n \<and>
    written a s s' (bound st q i) (bound st q j) final"
proof -
  have ok: "store_ok st" using assms(1) by (simp add: store_path_def)
  have n: "j - i < 2 ^ 22" using store_path_lsize [OF assms(1)] assms(2,4) by simp
  note args = ok assms(3,4) n refl store_path_commands [OF assms(1,4)] assms(5)
  have ex: "expand_commands (take (bound st q i) a) (map (command_at st) [i..<j]) = Some (take (bound st q j) a)"
    using expand_path [OF bound_path [OF assms(1,3,4)]] by (simp only: store_cmds_slice [OF ok assms(4)])
  show ?thesis
  proof (cases "btype = 1")
    case True
    show ?thesis
    proof (rule fixed_block_written [OF args, of 0 final])
      fix s' bits
      assume "AddLZ77Block 1 final st i j 0 s = Some s'" "bit_out_ok s'" "stream s' = stream s @ bits"
        "ZopfliCalculateBlockSize st i j 1 = Some (length bits)"
        "\<And>rest. decode_block (bits @ rest) = Some (final, Compressed (map (command_at st) [i..<j]), rest)"
      with written_compressed [OF this(2,3,5) ex] True show ?thesis by blast
    qed simp
  next
    case False
    then have two: "btype = 2" using assms(6) by simp
    show ?thesis
    proof (rule dynamic_block_written [OF args, of 0 final])
      fix s' bits
      assume "AddLZ77Block 2 final st i j 0 s = Some s'" "bit_out_ok s'" "stream s' = stream s @ bits"
        "ZopfliCalculateBlockSize st i j 2 = Some (length bits)"
        "\<And>rest. decode_block (bits @ rest) = Some (final, Compressed (map (command_at st) [i..<j]), rest)"
      with written_compressed [OF this(2,3,5) ex] two show ?thesis by blast
    qed simp
  qed
qed

lemma written_stored_block:
  assumes "store_path a st p q" and "q \<le> length a" and "i < j" and "j \<le> lsize st" and "bit_out_ok s"
  shows "\<exists>s'. AddLZ77Block 0 final st i j n s = Some s' \<and> written a s s' (bound st q i) (bound st q j) final"
proof -
  have a: "ldata st = a" using assms(1) by (simp add: store_path_def)
  note r = byte_range [OF assms(1,3,4)] and le = bound_le [OF assms(1) less_imp_le [OF assms(3)] assms(4)]
  have "AddLZ77Block 0 final st i j n s = Some (AddNonCompressedBlock final a (bound st q i) (bound st q j) s)"
    using assms(3) r a by (simp add: AddLZ77Block_def Let_def)
  moreover have "written a s (AddNonCompressedBlock final a (bound st q i) (bound st q j) s) (bound st q i) (bound st q j) final"
    by (rule written_stored [OF assms(5) le(2)]) (use le(3) assms(2) in simp)
  ultimately show ?thesis by blast
qed

text \<open>The block for an empty range is an end symbol with the fixed code.\<close>

lemma count_list_replicate: "count_list (replicate n x) y = (if x = y then n else 0)"
  by (induction n) auto

lemma fixed_end_code: "ZopfliLengthsToSymbols (fst GetFixedTree) 15 = Some ss \<Longrightarrow> ss ! 256 = 0"
proof -
  let ?ls = "fst GetFixedTree"
  assume ss: "ZopfliLengthsToSymbols ?ls 15 = Some ss"
  have ls: "?ls = replicate 144 8 @ replicate 112 9 @ replicate 24 7 @ replicate 8 8" by (simp add: GetFixedTree_def)
  have at: "?ls ! 256 = 7" "256 < length ?ls" by (simp_all add: ls nth_append)
  have "count_list (take 256 ?ls) 7 = 0" by (simp add: ls count_list_replicate)
  moreover have "base_code (len_count ?ls) b = 0" if "b \<le> 7" for b
    using that by (induction b) (auto simp: ls count_list_replicate)
  ultimately have cv: "code_value ?ls 256 = 0" using at(1) by (simp add: code_value_def)
  obtain ss' where "ZopfliLengthsToSymbols ?ls 15 = Some ss'" "\<And>i. i < length ?ls \<Longrightarrow> ?ls ! i \<noteq> 0 \<Longrightarrow> ss' ! i = of_nat (code_value ?ls i)"
    by (rule symbols_code_value [OF fixed_kraft(1)]) auto
  from this(1) this(2) [of 256] ss at cv show ?thesis by simp
qed

lemma empty_block_decoded: "decode_block ([final, True, False] @ replicate 7 False @ rest) = Some (final, Compressed [], rest)"
proof -
  obtain lls dls where f: "GetFixedTree = (lls, dls)" by fastforce
  have fl: "lls = replicate 144 8 @ replicate 112 9 @ replicate 24 7 @ replicate 8 8" "dls = replicate 32 5"
    using f by (auto simp: GetFixedTree_def)
  obtain lss dss where pair: "code_pair lss lls dss dls" by (rule fixed_code_pair) (simp add: f)
  have lss: "ZopfliLengthsToSymbols lls 15 = Some lss" using pair by (simp add: code_pair_def)
  have e: "0 < lls ! 256" "lls ! 256 = 7" by (simp_all add: fl nth_append)
  have "lss ! 256 = 0" using fixed_end_code [of lss] lss by (simp add: f)
  then have "block_bits lss lls dss dls [] = replicate 7 False"
    using e(2) by (simp add: block_bits_def code_bits_def upt_rec numeral_eq_Suc)
  then have "decode_coded lls dls (replicate 7 False @ rest) = Some ([], rest)"
    using decode_coded_written [OF pair e(1), of "[]" rest] by simp
  then show ?thesis by (simp add: fl)
qed

lemma written_empty:
  assumes "bit_out_ok s"
  shows "written a s (AddBits 0 7 (AddBits 1 2 (AddBits (of_bool final) 1 s))) p p final"
proof -
  let ?s = "AddBits 0 7 (AddBits 1 2 (AddBits (of_bool final) 1 s))"
  have b: "map (bit (of_bool final :: u32)) [0..<1] = [final]" "map (bit (1 :: u32)) [0..<2] = [True, False]"
      "map (bit (0 :: u32)) [0..<7] = replicate 7 False"
    by (simp_all add: numeral_eq_Suc bit_simps upt_rec)
  have w: "bit_out_ok ?s" "stream ?s = stream s @ [final, True, False] @ replicate 7 False"
    using AddBits_stream [OF assms, of "of_bool final" 1] AddBits_stream [of "AddBits (of_bool final) 1 s" 1 2]
      AddBits_stream [of "AddBits 1 2 (AddBits (of_bool final) 1 s)" 0 7]
    by (simp_all only: b append_assoc append_Cons append_Nil)
  show ?thesis
    by (rule written_compressed [OF w, of final "[]"]) (use empty_block_decoded [of final] in simp_all)
qed

lemma fixed_choice_ok:
  assumes "store_path a st p q" and "q \<le> length a" and "q - p < 2 ^ 22" and "i < j" and "j \<le> lsize st"
  shows "\<exists>fs c. fixed_choice env expensive st i j fixedcost = Some (fs, c) \<and>
    (expensive \<longrightarrow> store_path a fs (bound st q i) (bound st q j))"
proof (cases expensive)
  case True
  note r = byte_range [OF assms(1,4,5)] and le = bound_le [OF assms(1) less_imp_le [OF assms(4)] assms(5)]
  have a: "ldata st = a" using assms(1) by (simp add: store_path_def)
  let ?bs = "bound st q i" and ?e = "bound st q j"
  have inv: "state_inv a ?e (window_start ?bs) (ZopfliInitBlockState ?bs ?e True)" "blockstart (ZopfliInitBlockState ?bs ?e True) = ?bs"
    by (rule InitBlockState_inv [OF window_start_le le(2)]) (simp add: ZopfliInitBlockState_def)
  have small: "?e \<le> length a" "?e - ?bs < 2 ^ 24" "?e - ?bs < 2 ^ 22" using le assms(2,3) by auto
  obtain s' fs where f: "ZopfliLZ77OptimalFixed (memory env ?bs) (ZopfliInitBlockState ?bs ?e True) a ?bs ?e (ZopfliInitLZ77Store a) = Some (s', fs)"
      "store_path a fs ?bs ?e"
    by (rule optimal_fixed [OF inv small(1,2) store_path_init])
  have empty: "bit_out_ok \<lparr>bp = 0, out = []\<rparr>" by (simp add: bit_out_ok_def)
  obtain n where "ZopfliCalculateBlockSize fs 0 (lsize fs) 1 = Some n"
    using written_block [OF f(2) small(3) le0 order_refl empty, of 1 False] by auto
  with f True r a show ?thesis by (simp add: fixed_choice_def Let_def)
qed (simp add: fixed_choice_def Let_def)

lemma AutoType_written:
  assumes "store_path a st p q" and "q \<le> length a" and "q - p < 2 ^ 22" and "i \<le> j" and "j \<le> lsize st" and "bit_out_ok s"
  shows "\<exists>s'. AddLZ77BlockAutoType env final st i j 0 s = Some s' \<and> written a s s' (bound st q i) (bound st q j) final"
proof -
  note blk = written_block [OF assms(1,3-6)]
  obtain uc where uc: "ZopfliCalculateBlockSize st i j 0 = Some uc" by (simp add: ZopfliCalculateBlockSize_def Let_def)
  obtain s1 fc where one: "AddLZ77Block 1 final st i j 0 s = Some s1" "ZopfliCalculateBlockSize st i j 1 = Some fc"
      "written a s s1 (bound st q i) (bound st q j) final"
    using blk [of 1 final] by auto
  obtain s2 dc where two: "AddLZ77Block 2 final st i j 0 s = Some s2" "ZopfliCalculateBlockSize st i j 2 = Some dc"
      "written a s s2 (bound st q i) (bound st q j) final"
    using blk [of 2 final] by auto
  define ex where "ex \<longleftrightarrow> lsize st < 1000 \<or> of_nat fc \<le> dmul (of_nat dc) (to_double (11 / 10))"
  show ?thesis
  proof (cases "i = j")
    case True
    then have "AddLZ77BlockAutoType env final st i j 0 s = Some (AddBits 0 7 (AddBits 1 2 (AddBits (of_bool final) 1 s)))"
      using uc one(2) two(2) by (simp add: AddLZ77BlockAutoType_def)
    then show ?thesis using written_empty [OF assms(6)] True by blast
  next
    case False
    then have lt: "i < j" using assms(4) by simp
    obtain s0 where zero: "AddLZ77Block 0 final st i j 0 s = Some s0" "written a s s0 (bound st q i) (bound st q j) final"
      using written_stored_block [OF assms(1,2) lt assms(5,6)] by blast
    obtain fs c where fx: "fixed_choice env ex st i j fc = Some (fs, c)" "ex \<Longrightarrow> store_path a fs (bound st q i) (bound st q j)"
      using fixed_choice_ok [OF assms(1-3) lt assms(5)] by blast
    have cost: "bound st q j - bound st q i < 2 ^ 22" using bound_le [OF assms(1,4,5)] assms(3) by simp
    have fixed: "\<exists>s'. AddLZ77Block 1 final fs 0 (lsize fs) 0 s = Some s' \<and> written a s s' (bound st q i) (bound st q j) final" if ex
      using written_block [OF fx(2) [OF that] cost le0 order_refl assms(6), of 1 final] bound_0 [OF fx(2) [OF that]]
      by (auto simp: bound_end)
    have "AddLZ77BlockAutoType env final st i j 0 s =
        (if uc < c \<and> uc < dc then AddLZ77Block 0 final st i j 0 s
         else if c < dc then if ex then AddLZ77Block 1 final fs 0 (lsize fs) 0 s else AddLZ77Block 1 final st i j 0 s
         else AddLZ77Block 2 final st i j 0 s)"
      using uc one(2) two(2) False fx(1) unfolding AddLZ77BlockAutoType_def ex_def by simp
    then show ?thesis using zero one(1,3) two(1,3) fixed by (simp split: if_split)
  qed
qed

lemma deflate_command_ok: "deflate_command c \<Longrightarrow> command_ok c"
  by (cases c) (auto simp: deflate_command_def command_ok_def split: if_splits)

lemma store_path_append:
  assumes "store_path a st m q" and "store_path a lz77 p m"
  shows "\<exists>t. ZopfliAppendLZ77Store st lz77 = Some t \<and> store_path a t p q \<and> lsize t = lsize lz77 + lsize st"
proof -
  have ok: "store_ok st" "store_ok lz77" "ldata lz77 = a" "path a p (store_cmds lz77) m" "path a m (store_cmds st) q"
    using assms by (simp_all add: store_path_def)
  have lens: "length (litlens st) = lsize st" "length (dists st) = lsize st" "length (pos st) = lsize st"
      "length (litlens lz77) = lsize lz77" "length (dists lz77) = lsize lz77" "length (pos lz77) = lsize lz77"
    using ok(1,2) by (simp_all add: store_ok_def)
  have "map fst (store_cmds st) = zip (litlens st) (dists st)" using lens by (simp add: store_cmds_def)
  then have "list_all command_ok (zip (litlens st) (dists st))"
    using path_commands [OF ok(5)] by (auto simp: list_all_iff intro: deflate_command_ok)
  then obtain t where t: "ZopfliAppendLZ77Store st lz77 = Some t" "store_ok t"
      "litlens t = litlens lz77 @ litlens st" "dists t = dists lz77 @ dists st"
      "pos t = pos lz77 @ pos st" "lsize t = lsize lz77 + lsize st" "ldata t = ldata lz77"
    by (rule append_store [OF ok(1,2)])
  have "store_cmds t = store_cmds lz77 @ store_cmds st" using t lens by (simp add: store_cmds_def)
  then have "path a p (store_cmds t) q" using ok(4,5) by (auto simp: path_append)
  then show ?thesis using t ok(3) by (simp add: store_path_def)
qed

text \<open>Boundary \<open>k\<close> of the blocks, counting the outer ones.\<close>

definition edge :: "nat \<Rightarrow> nat \<Rightarrow> nat list \<Rightarrow> nat \<Rightarrow> nat" where
  "edge first last' points k = (if k = 0 then first else if k \<le> length points then points ! (k - 1) else last')"

definition edges_ok :: "nat \<Rightarrow> nat \<Rightarrow> nat list \<Rightarrow> bool" where
  "edges_ok first last' points \<longleftrightarrow> first \<le> last' \<and> sorted points \<and> (\<forall>x \<in> set points. first \<le> x \<and> x \<le> last')"

lemma interval_edge: "k \<le> length points \<Longrightarrow> interval first last' points k = (edge first last' points k, edge first last' points (Suc k))"
  by (auto simp: interval_def edge_def)

lemma edge_mono: "edges_ok first last' points \<Longrightarrow> edge first last' points k \<le> edge first last' points (Suc k)"
proof -
  assume ok: "edges_ok first last' points"
  have "first \<le> points ! i \<and> points ! i \<le> last'" if "i < length points" for i using ok that by (simp add: edges_ok_def)
  moreover have "points ! (i - 1) \<le> points ! i" if "i < length points" for i
    using ok that sorted_nth_mono [of points "i - 1" i] by (simp add: edges_ok_def)
  moreover have "first \<le> last'" using ok by (simp add: edges_ok_def)
  ultimately show ?thesis using not_less_eq_eq by (cases "length points") (auto simp: edge_def)
qed

lemma edge_range: "edges_ok first last' points \<Longrightarrow> first \<le> edge first last' points k \<and> edge first last' points k \<le> last'"
  by (auto simp: edge_def edges_ok_def)

lemma edge_ends: "edge first last' points 0 = first" "edge first last' points (Suc (length points)) = last'"
  by (simp_all add: edge_def)

lemma edges_okI: "first \<le> last' \<Longrightarrow> sorted_wrt (<) points \<Longrightarrow> \<forall>x \<in> set points. first < x \<and> x < last' \<Longrightarrow> edges_ok first last' points"
  by (auto simp: edges_ok_def strict_sorted_imp_sorted)

lemma upt_step: "k \<le> n \<Longrightarrow> [k..<Suc n] = k # [Suc k..<Suc n]"
  by (rule upt_conv_Cons) simp

section \<open>The parts of the input\<close>

lemma parse_blocks_ok:
  assumes "log_accurate (clog env)" and "1 \<le> numiterations options" and "edges_ok bs e points" and "e \<le> length a" and "e - bs < 2 ^ 22"
    and "k \<le> Suc (length points)" and "store_path a lz77 bs (edge bs e points k)" and "length sp = min k (length points)"
    and "edges_ok 0 (lsize lz77) sp"
  shows "\<exists>lz77' n sp'. parse_blocks env options a bs e points [k..<Suc (length points)] (lz77, c, sp) = Some (lz77', n, sp') \<and>
    store_path a lz77' bs e \<and> edges_ok 0 (lsize lz77') sp'"
  using assms(6-)
proof (induction "Suc (length points) - k" arbitrary: k lz77 c sp)
  case 0
  then have "k = Suc (length points)" by simp
  with 0 show ?case by (simp add: edge_ends)
next
  case (Suc m)
  then have k: "k \<le> length points" by simp
  let ?s = "edge bs e points k" and ?e = "edge bs e points (Suc k)"
  note mono = edge_mono [OF assms(3), of k] and range = edge_range [OF assms(3)]
  have inv: "state_inv a ?e (window_start ?s) (ZopfliInitBlockState ?s ?e True)" "blockstart (ZopfliInitBlockState ?s ?e True) = ?s"
    by (rule InitBlockState_inv [OF window_start_le mono]) (simp add: ZopfliInitBlockState_def)
  have small: "?e \<le> length a" "?e - ?s < 2 ^ 22" "1 \<le> nat (numiterations options)"
    using range [of k] range [of "Suc k"] assms(2,4,5) by auto
  obtain s' st where o: "ZopfliLZ77Optimal (clog env) (memory env ?s) (stats0 env ?s) (ZopfliInitBlockState ?s ?e True) a ?s ?e
        (nat (numiterations options)) (ZopfliInitLZ77Store a) = Some (s', st)" "store_path a st ?s ?e"
    by (rule optimal_parse [OF assms(1) inv small])
  obtain d where d: "ZopfliCalculateBlockSizeAutoType st 0 (lsize st) = Some d"
    using auto_size [OF o(2) small(2) le0 order_refl] by blast
  obtain t where t: "ZopfliAppendLZ77Store st lz77 = Some t" "store_path a t bs ?e" "lsize t = lsize lz77 + lsize st"
    using store_path_append [OF o(2) Suc.prems(2)] by blast
  let ?sp = "if k < length points then sp @ [lsize t] else sp"
  have sp: "length ?sp = min (Suc k) (length points)" "edges_ok 0 (lsize t) ?sp"
    using Suc.prems(3,4) k t(3) by (auto simp: edges_ok_def sorted_append)
  have step: "parse_blocks env options a bs e points [k..<Suc (length points)] (lz77, c, sp) =
      parse_blocks env options a bs e points [Suc k..<Suc (length points)] (t, c + d, ?sp)"
    unfolding upt_step [OF k] using o(1) d t(1) interval_edge [OF k] by simp
  have m: "m = Suc (length points) - Suc k" "Suc k \<le> Suc (length points)" using Suc.hyps(2) k by auto
  show ?case unfolding step by (rule Suc.hyps(1) [OF m t(2) sp])
qed

lemma total_cost_ok:
  assumes "store_path a lz77 p q" and "q - p < 2 ^ 22" and "edges_ok 0 (lsize lz77) points" and "\<forall>k \<in> set is. k \<le> length points"
  shows "\<exists>c. total_cost lz77 points is n = Some c"
  using assms(4)
proof (induction "is" arbitrary: n)
  case (Cons k "is")
  obtain c where "ZopfliCalculateBlockSizeAutoType lz77 (edge 0 (lsize lz77) points k) (edge 0 (lsize lz77) points (Suc k)) = Some c"
    using auto_size [OF assms(1,2) edge_mono [OF assms(3)]] edge_range [OF assms(3)] by blast
  with Cons show ?case by (simp add: interval_edge)
qed simp

lemma second_split_ok:
  assumes "store_path a lz77 p q" and "q - p < 2 ^ 22" and "edges_ok 0 (lsize lz77) sp"
  shows "\<exists>sp'. second_split options lz77 c sp = Some sp' \<and> edges_ok 0 (lsize lz77) sp'"
proof -
  obtain sp2 where sp2: "ZopfliBlockSplitLZ77 lz77 (maxblocks options) [] = Some sp2" "points_ok (lsize lz77) sp2"
    using BlockSplitLZ77_points [OF assms(1,2)] by blast
  have e: "edges_ok 0 (lsize lz77) sp2" using sp2(2) by (intro edges_okI) (auto simp: points_ok_def)
  obtain n where "total_cost lz77 sp2 [0..<length sp2 + 1] 0 = Some n"
    using total_cost_ok [OF assms(1,2) e, of "[0..<length sp2 + 1]" 0] by auto
  with sp2(1) e assms(3) show ?thesis by (simp add: second_split_def)
qed

lemma add_blocks_written:
  assumes "store_path a lz77 p q" and "q \<le> length a" and "q - p < 2 ^ 22" and "edges_ok 0 (lsize lz77) sp" and "bit_out_ok s"
    and "k \<le> length sp"
  shows "\<exists>s'. add_blocks env final lz77 sp [k..<Suc (length sp)] s = Some s' \<and>
    written a s s' (bound lz77 q (edge 0 (lsize lz77) sp k)) q final"
  using assms(5,6)
proof (induction "length sp - k" arbitrary: k s)
  case 0
  then have k: "k = length sp" by simp
  note edge = edge_mono [OF assms(4), of k] edge_range [OF assms(4), of "Suc k", THEN conjunct2]
  obtain s' where "AddLZ77BlockAutoType env final lz77 (edge 0 (lsize lz77) sp k) (edge 0 (lsize lz77) sp (Suc k)) 0 s = Some s'"
      "written a s s' (bound lz77 q (edge 0 (lsize lz77) sp k)) (bound lz77 q (edge 0 (lsize lz77) sp (Suc k))) final"
    using AutoType_written [OF assms(1-3) edge 0(2)] by blast
  then show ?case by (simp add: interval_edge k edge_ends bound_end)
next
  case (Suc m)
  then have k: "k < length sp" "k \<noteq> length sp" "m = length sp - Suc k" "Suc k \<le> length sp" by auto
  note edge = edge_mono [OF assms(4), of k] edge_range [OF assms(4), of "Suc k", THEN conjunct2]
  obtain s1 where s1: "AddLZ77BlockAutoType env False lz77 (edge 0 (lsize lz77) sp k) (edge 0 (lsize lz77) sp (Suc k)) 0 s = Some s1"
      "written a s s1 (bound lz77 q (edge 0 (lsize lz77) sp k)) (bound lz77 q (edge 0 (lsize lz77) sp (Suc k))) False"
    using AutoType_written [OF assms(1-3) edge Suc.prems(1)] by blast
  have "bit_out_ok s1" using s1(2) by (simp add: written_def)
  from Suc.hyps(1) [OF k(3) this k(4)] obtain s' where s': "add_blocks env final lz77 sp [Suc k..<Suc (length sp)] s1 = Some s'"
      "written a s1 s' (bound lz77 q (edge 0 (lsize lz77) sp (Suc k))) q final"
    by blast
  have "add_blocks env final lz77 sp [k..<Suc (length sp)] s = Some s'"
    unfolding upt_step [OF Suc.prems(2)] using s1(1) s'(1) k by (simp add: interval_edge)
  with written_trans [OF s1(2) s'(2)] show ?case by blast
qed

lemma DeflatePart_written:
  assumes "log_accurate (clog env)" and "1 \<le> numiterations options" and "bs \<le> e" and "e \<le> length a" and "e - bs < 2 ^ 22"
    and "bit_out_ok s"
  shows "\<exists>s'. ZopfliDeflatePart env options btype final a bs e s = Some s' \<and> written a s s' bs e final"
proof -
  consider "btype = 0" | "btype = 1" | "btype \<noteq> 0" "btype \<noteq> 1" by blast
  then show ?thesis
  proof cases
    case 1
    with written_stored [OF assms(6,3,4)] show ?thesis by (simp add: ZopfliDeflatePart_def)
  next
    case 2
    have inv: "state_inv a e (window_start bs) (ZopfliInitBlockState bs e True)" "blockstart (ZopfliInitBlockState bs e True) = bs"
      by (rule InitBlockState_inv [OF window_start_le assms(3)]) (simp add: ZopfliInitBlockState_def)
    have small: "e - bs < 2 ^ 24" using assms(5) by simp
    obtain s0 st where st: "ZopfliLZ77OptimalFixed (memory env bs) (ZopfliInitBlockState bs e True) a bs e (ZopfliInitLZ77Store a) = Some (s0, st)"
        "store_path a st bs e"
      by (rule optimal_fixed [OF inv assms(4) small store_path_init])
    from written_block [OF st(2) assms(5) le0 order_refl assms(6), of btype final] 2 bound_0 [OF st(2)]
    obtain s' where "AddLZ77Block btype final st 0 (lsize st) 0 s = Some s'" "written a s s' bs e final"
      by (auto simp: bound_end)
    with st(1) 2 show ?thesis by (simp add: ZopfliDeflatePart_def)
  next
    case 3
    obtain points where points: "(if blocksplitting options \<noteq> 0 then ZopfliBlockSplit (memory env bs) a bs e (maxblocks options) else Some []) = Some points"
        "edges_ok bs e points"
      using BlockSplit_points [OF assms(4,5,3), of "memory env bs" "maxblocks options"] edges_okI [OF assms(3)]
      by (cases "blocksplitting options = 0") auto
    obtain lz77 n sp where p: "parse_blocks env options a bs e points [0..<Suc (length points)] (ZopfliInitLZ77Store a, 0, []) = Some (lz77, n, sp)"
        "store_path a lz77 bs e" "edges_ok 0 (lsize lz77) sp"
      using parse_blocks_ok [OF assms(1,2) points(2) assms(4,5) le0, of "ZopfliInitLZ77Store a" "[]" 0]
      by (auto simp: edge_ends edges_ok_def store_path_init)
    obtain sp' where sp': "second_split options lz77 n sp = Some sp'" "edges_ok 0 (lsize lz77) sp'"
      using second_split_ok [OF p(2) assms(5) p(3)] by blast
    obtain s' where "add_blocks env final lz77 sp' [0..<Suc (length sp')] s = Some s'" "written a s s' bs e final"
      using add_blocks_written [OF p(2) assms(4,5) sp'(2) assms(6) le0] by (auto simp: edge_ends bound_0 [OF p(2)])
    with 3 points(1) p(1) sp'(1) show ?thesis by (simp add: ZopfliDeflatePart_def)
  qed
qed

lemma deflate_loop_written:
  assumes "log_accurate (clog env)" and "1 \<le> numiterations options" and "i \<le> length a" and "bit_out_ok s"
  shows "\<exists>s'. deflate_loop env options btype final a i s = Some s' \<and> written a s s' i (length a) final"
  using assms(3,4)
proof (induction "length a - i" arbitrary: i s rule: less_induct)
  case less
  let ?last = "i + ZOPFLI_MASTER_BLOCK_SIZE \<ge> length a"
  define n where "n = (if ?last then length a - i else ZOPFLI_MASTER_BLOCK_SIZE)"
  have n: "i \<le> i + n" "i + n \<le> length a" "i + n - i < 2 ^ 22" using less.prems(1) by (auto simp: n_def)
  obtain s1 where s1: "ZopfliDeflatePart env options btype (final \<and> ?last) a i (i + n) s = Some s1" "written a s s1 i (i + n) (final \<and> ?last)"
    using DeflatePart_written [OF assms(1,2) n less.prems(2)] by blast
  have unfold: "deflate_loop env options btype final a i s =
      (if i + n < length a then deflate_loop env options btype final a (i + n) s1 else Some s1)"
    using s1(1) by (subst deflate_loop.simps) (simp add: n_def Let_def)
  show ?case
  proof (cases "i + n < length a")
    case True
    then have mid: "\<not> ?last" "0 < n" by (auto simp: n_def split: if_splits)
    have "bit_out_ok s1" using s1(2) by (simp add: written_def)
    moreover have "length a - (i + n) < length a - i" using True mid(2) by linarith
    ultimately obtain s' where s': "deflate_loop env options btype final a (i + n) s1 = Some s'"
        "written a s1 s' (i + n) (length a) final"
      using less.hyps [of "i + n" s1] n(2) by auto
    then show ?thesis using unfold True mid(1) s1(2) written_trans [of a s s1 i "i + n" s' "length a" final] by auto
  next
    case False
    then have "?last" "i + n = length a" using n(2) by (auto simp: n_def split: if_splits)
    then show ?thesis using unfold s1(2) by auto
  qed
qed

lemma ZopfliDeflate_written:
  assumes "log_accurate (clog env)" and "1 \<le> numiterations options" and "bit_out_ok s"
  obtains s' where "ZopfliDeflate env options btype final a s = Some s'" and "written a s s' 0 (length a) final"
  using deflate_loop_written [OF assms(1,2) le0 assms(3)] that unfolding ZopfliDeflate_def by blast

end
