(* ===== verification/Zopfli_Container.thy ===== *)
theory Zopfli_Container
  imports Zopfli_Deflate Zopfli_Checksum
begin

text \<open>
  The containers around a DEFLATE stream: \<open>ZopfliGzipCompress\<close> (\<open>gzip_container.c\<close>), \<open>ZopfliZlibCompress\<close>
  (\<open>zlib_container.c\<close>) and \<open>ZopfliCompress\<close> (\<open>zopfli_lib.c\<close>), on top of \<open>ZopfliDeflate\<close>. Messages on
  \<open>stderr\<close> are left out.

  What a reader of the formats (RFC 1950, RFC 1951, RFC 1952) makes of them: it accepts the header, expands
  the body and compares the trailer with the checksum and the size of what it has expanded.
\<close>

datatype ZopfliFormat = ZOPFLI_FORMAT_GZIP | ZOPFLI_FORMAT_ZLIB | ZOPFLI_FORMAT_DEFLATE

definition ZopfliGzipCompress :: "environment \<Rightarrow> ZopfliOptions \<Rightarrow> byte list \<Rightarrow> byte list \<Rightarrow> byte list option" where
  "ZopfliGzipCompress env options inp outp =
    (let crcvalue = CRC inp;
         insize = length inp;
         s = \<lparr>bp = 0, out = outp\<rparr>;
         s = append_byte 31 s;
         s = append_byte 139 s;
         s = append_byte 8 s;
         s = append_byte 0 s;
         s = append_bytes [0, 0, 0, 0] s;
         s = append_byte 2 s;
         s = append_byte 3 s
     in do {
       s \<leftarrow> ZopfliDeflate env options 2 True inp s;
       let s = append_byte (ucast (crcvalue mod 256)) s;
       let s = append_byte (ucast (drop_bit 8 crcvalue mod 256)) s;
       let s = append_byte (ucast (drop_bit 16 crcvalue mod 256)) s;
       let s = append_byte (ucast (drop_bit 24 crcvalue mod 256)) s;
       let s = append_byte (of_nat (insize mod 256)) s;
       let s = append_byte (of_nat (drop_bit 8 insize mod 256)) s;
       let s = append_byte (of_nat (drop_bit 16 insize mod 256)) s;
       let s = append_byte (of_nat (drop_bit 24 insize mod 256)) s;
       Some (out s)
     })"

text \<open>The size is passed to \<open>adler32\<close> as an \<open>unsigned\<close>.\<close>

definition ZopfliZlibCompress :: "environment \<Rightarrow> ZopfliOptions \<Rightarrow> byte list \<Rightarrow> byte list \<Rightarrow> byte list option" where
  "ZopfliZlibCompress env options inp outp =
    (let checksum = adler32 inp (unat (of_nat (length inp) :: u32));
         cmf = 120 :: u32;
         flevel = 3;
         fdict = 0;
         cmfflg = 256 * cmf + fdict * 32 + flevel * 64;
         fcheck = 31 - cmfflg mod 31;
         cmfflg = cmfflg + fcheck;
         s = \<lparr>bp = 0, out = outp\<rparr>;
         s = append_byte (ucast (cmfflg div 256)) s;
         s = append_byte (ucast (cmfflg mod 256)) s
     in do {
       s \<leftarrow> ZopfliDeflate env options 2 True inp s;
       let s = append_byte (ucast (drop_bit 24 checksum mod 256)) s;
       let s = append_byte (ucast (drop_bit 16 checksum mod 256)) s;
       let s = append_byte (ucast (drop_bit 8 checksum mod 256)) s;
       let s = append_byte (ucast (checksum mod 256)) s;
       Some (out s)
     })"

fun ZopfliCompress :: "environment \<Rightarrow> ZopfliOptions \<Rightarrow> ZopfliFormat \<Rightarrow> byte list \<Rightarrow> byte list \<Rightarrow> byte list option" where
  "ZopfliCompress env options ZOPFLI_FORMAT_GZIP inp outp = ZopfliGzipCompress env options inp outp"
| "ZopfliCompress env options ZOPFLI_FORMAT_ZLIB inp outp = ZopfliZlibCompress env options inp outp"
| "ZopfliCompress env options ZOPFLI_FORMAT_DEFLATE inp outp =
    map_option out (ZopfliDeflate env options 2 True inp \<lparr>bp = 0, out = outp\<rparr>)"

section \<open>Readers\<close>

definition number_le :: "byte list \<Rightarrow> nat" where
  "number_le bs = horner_sum unat 256 bs"

text \<open>The body, checksum and size of a gzip member without optional fields.\<close>

definition read_gzip :: "byte list \<Rightarrow> (byte list \<times> nat \<times> nat) option" where
  "read_gzip bs =
    (if length bs < 18 \<or> take 4 bs \<noteq> [31, 139, 8, 0] then None
     else
       let n = length bs - 8
       in Some (drop 10 (take n bs), number_le (take 4 (drop n bs)), number_le (drop (n + 4) bs)))"

text \<open>The body and checksum of a zlib stream with a window of 32 KiB and no preset dictionary.\<close>

definition read_zlib :: "byte list \<Rightarrow> (byte list \<times> nat) option" where
  "read_zlib bs =
    (if length bs < 6 then None
     else
       let cmf = unat (bs ! 0); flg = unat (bs ! 1); n = length bs - 4
       in if cmf mod 16 = 8 \<and> cmf div 16 \<le> 7 \<and> (cmf * 256 + flg) mod 31 = 0 \<and> \<not> bit flg 5
          then Some (drop 2 (take n bs), number_le (rev (drop n bs)))
          else None)"

text \<open>The data of a stream whose checksum and size are as the trailer says.\<close>

fun decompress :: "ZopfliFormat \<Rightarrow> byte list \<Rightarrow> byte list option" where
  "decompress ZOPFLI_FORMAT_GZIP bs =
    do {
      (body, crc, n) \<leftarrow> read_gzip bs;
      d \<leftarrow> inflate_bytes body;
      if unat (crc_spec d) = crc \<and> length d mod 2 ^ 32 = n then Some d else None
    }"
| "decompress ZOPFLI_FORMAT_ZLIB bs =
    do {
      (body, checksum) \<leftarrow> read_zlib bs;
      d \<leftarrow> inflate_bytes body;
      if adler_spec d = checksum then Some d else None
    }"
| "decompress ZOPFLI_FORMAT_DEFLATE bs = inflate_bytes bs"

lemma out_append [simp]:
  "out (append_byte b s) = out s @ [b]" "bp (append_byte b s) = bp s"
  "out (append_bytes bs s) = out s @ bs" "bp (append_bytes bs s) = bp s"
proof -
  show "out (append_byte b s) = out s @ [b]" "bp (append_byte b s) = bp s" for b s
    by (simp_all add: append_byte_def)
  then show "out (append_bytes bs s) = out s @ bs" "bp (append_bytes bs s) = bp s"
    by (induction bs arbitrary: s) (simp_all add: append_bytes_def)
qed

lemma byte_digits: "x mod 256 + 256 * (x div 256 mod 256) + 65536 * (x div 65536 mod 256) +
    16777216 * (x div 16777216 mod 256) = x mod 2 ^ 32" for x :: nat
proof -
  have d: "x div 65536 = x div 256 div 256" "x div 16777216 = x div 256 div 256 div 256"
    by (simp_all flip: div_mult2_eq)
  have "x mod (256 * (256 * (256 * 256))) =
      256 * (256 * (256 * (x div 256 div 256 div 256 mod 256) + x div 256 div 256 mod 256) + x div 256 mod 256) + x mod 256"
    by (simp only: mod_mult2_eq)
  then show ?thesis by (simp add: d)
qed

lemma unat_byte_of:
  "unat (ucast (drop_bit k (w :: u64) mod 256) :: byte) = unat w div 2 ^ k mod 256"
  "unat (ucast (drop_bit k (v :: u32) mod 256) :: byte) = unat v div 2 ^ k mod 256"
  "unat (of_nat (drop_bit k n mod 256) :: byte) = n div 2 ^ k mod 256"
  by (simp_all add: unsigned_ucast_eq unat_mod unat_drop_bit_eq take_bit_eq_mod unat_of_nat
      drop_bit_eq_div [where ?'a = nat])

lemma number_le_bytes:
  "number_le [a, b, c, d] = unat a + 256 * unat b + 65536 * unat c + 16777216 * unat d"
  by (simp add: number_le_def)

lemma number_le_digits:
  assumes "unat a = x mod 256" "unat b = x div 2 ^ 8 mod 256" "unat c = x div 2 ^ 16 mod 256"
    "unat d = x div 2 ^ 24 mod 256"
  shows "number_le [a, b, c, d] = x mod 2 ^ 32"
proof -
  have "(2 :: nat) ^ 8 = 256" "(2 :: nat) ^ 16 = 65536" "(2 :: nat) ^ 24 = 16777216" by simp_all
  note p = this
  show ?thesis unfolding number_le_bytes assms [unfolded p] by (rule byte_digits)
qed

lemma number_le_word:
  "number_le [ucast (w mod 256), ucast (drop_bit 8 w mod 256), ucast (drop_bit 16 w mod 256),
    ucast (drop_bit 24 w mod 256)] = unat (w :: u64) mod 2 ^ 32"
  "number_le [ucast (v mod 256), ucast (drop_bit 8 v mod 256), ucast (drop_bit 16 v mod 256),
    ucast (drop_bit 24 v mod 256)] = unat (v :: u32) mod 2 ^ 32"
  "number_le [of_nat (n mod 256), of_nat (drop_bit 8 n mod 256), of_nat (drop_bit 16 n mod 256),
    of_nat (drop_bit 24 n mod 256)] = n mod 2 ^ 32"
  using unat_byte_of(1) [of 0 w] unat_byte_of(2) [of 0 v] unat_byte_of(3) [of 0 n]
  by (auto simp only: drop_bit_0 id_apply power_0 div_by_1 intro!: number_le_digits unat_byte_of)

text \<open>The CRC of the specification has 32 bits.\<close>

lemma unat_below_bits: "unat (x :: u64) < 2 ^ 32 \<longleftrightarrow> (\<forall>n. bit x n \<longrightarrow> n < 32)"
proof -
  have "unat x < 2 ^ 32 \<longleftrightarrow> take_bit 32 x = x"
    by (metis take_bit_nat_eq_self_iff unsigned_take_bit_eq unsigned_word_eqI)
  also have "\<dots> \<longleftrightarrow> (\<forall>n. bit x n \<longrightarrow> n < 32)"
    unfolding bit_eq_iff bit_take_bit_iff by (metis bit_imp_possible_bit)
  finally show ?thesis .
qed

lemma crc_bit_below: "unat r < 2 ^ 32 \<Longrightarrow> unat (crc_bit r) < 2 ^ 32"
proof -
  assume r: "unat r < 2 ^ 32"
  have "unat (0xedb88320 :: u64) < 2 ^ 32" by simp
  then have p: "bit (0xedb88320 :: u64) n \<Longrightarrow> n < 32" for n by (simp only: unat_below_bits)
  have d: "bit r (Suc n) \<Longrightarrow> n < 32" for n using r unat_below_bits by (metis Suc_lessD)
  have "bit (crc_bit r) n \<Longrightarrow> n < 32" for n
    using p [of n] d [of n] by (auto simp: crc_bit_def bit_xor_iff bit_drop_bit_eq split: if_splits)
  then show ?thesis by (simp only: unat_below_bits) simp
qed

lemma CRC_below: "unat (CRC data) < 2 ^ 32"
proof -
  have xor: "unat (x XOR y) < 2 ^ 32" if "unat x < 2 ^ 32" "unat y < 2 ^ 32" for x y :: u64
    using that by (simp only: unat_below_bits) (auto simp: bit_xor_iff)
  have byte: "unat (ucast (b :: byte) :: u64) < 2 ^ 32" for b
    using unsigned_less [of b, where ?'a = nat] by (simp add: unsigned_ucast_eq take_bit_nat_eq_self)
  have "unat (crc_byte (r XOR ucast (b :: byte))) < 2 ^ 32" if "unat r < 2 ^ 32" for r b
    unfolding crc_byte_def by (intro crc_bit_below xor byte that)
  then have "unat (fold (\<lambda>b r. crc_byte (r XOR ucast b)) data r) < 2 ^ 32" if "unat r < 2 ^ 32" for r
    using that by (induction data arbitrary: r) (simp_all only: fold.simps id_apply comp_apply)
  then show ?thesis unfolding CRC_correct crc_spec_def by (intro xor) simp_all
qed

lemma read_gzip_parts:
  "length h = 10 \<Longrightarrow> take 4 h = [31, 139, 8, 0] \<Longrightarrow> length cs = 4 \<Longrightarrow> length ns = 4 \<Longrightarrow>
   read_gzip (h @ body @ cs @ ns) = Some (body, number_le cs, number_le ns)"
  by (simp add: read_gzip_def Let_def)

text \<open>The bytes written to an output that ends at a byte boundary.\<close>

lemma byte_bits_inject: "byte_bits x = byte_bits y \<longleftrightarrow> x = y"
proof
  assume eq: "byte_bits x = byte_bits y"
  have "bit x i = bit y i" if "i < 8" for i
  proof -
    have "byte_bits x ! i = byte_bits y ! i" using eq by simp
    then show ?thesis using that by (simp add: byte_bits_def del: upt_rec_numeral)
  qed
  then show "x = y" by (intro bit_word_eqI) simp
qed simp

lemma bytes_bits_prefix: "bytes_bits ys = bytes_bits xs @ bits \<Longrightarrow> \<exists>zs. ys = xs @ zs \<and> bytes_bits zs = bits"
proof (induction xs arbitrary: ys)
  case (Cons x xs)
  then obtain y ys' where ys: "ys = y # ys'" by (cases ys) (auto simp: byte_bits_def)
  have "byte_bits y = byte_bits x" "bytes_bits ys' = bytes_bits xs @ bits"
    using Cons.prems by (simp_all add: ys append_eq_append_conv byte_bits_def)
  with Cons.IH [of ys'] show ?case by (auto simp: ys byte_bits_inject)
qed simp

lemma deflate_bytes:
  assumes "log_accurate (clog env)" and "1 \<le> numiterations options"
  obtains s' body where "ZopfliDeflate env options btype True a \<lparr>bp = 0, out = outp\<rparr> = Some s'"
    and "out s' = outp @ body" and "inflate_bytes body = Some a"
proof -
  let ?s = "\<lparr>bp = 0, out = outp\<rparr>"
  have ok: "bit_out_ok ?s" and s: "stream ?s = bytes_bits outp" by (simp_all add: bit_out_ok_def stream_def)
  obtain s' where s': "ZopfliDeflate env options btype True a ?s = Some s'" "written a ?s s' 0 (length a) True"
    by (rule ZopfliDeflate_written [OF assms ok])
  then obtain bits n where w: "bit_out_ok s'" "stream s' = bytes_bits outp @ bits" "n \<le> length bits"
      "\<And>m rest. (length (stream s') + length rest) mod 8 = 0 \<Longrightarrow> inflate (n + m) [] (bits @ rest) = Some (a, rest)"
    by (auto simp: written_def s)
  obtain pad where pad: "bytes_bits (out s') = stream s' @ pad" "length pad < 8" using stream_aligned [OF w(1)] by blast
  then obtain body where body: "out s' = outp @ body" "bytes_bits body = bits @ pad"
    using bytes_bits_prefix [of "out s'" outp "bits @ pad"] w(2) by auto
  have "length (stream s') + length pad = 8 * length (out s')"
    using arg_cong [OF pad(1), of length] by simp
  then have "inflate (n + (length (bytes_bits body) - n)) [] (bits @ pad) = Some (a, pad)" by (intro w(4)) simp
  moreover have "n \<le> length (bytes_bits body)" using w(3) body(2) by (simp only: length_append)
  ultimately have "inflate_bytes body = Some a" using pad(2) body(2) by (simp add: inflate_bytes_def)
  with s'(1) body(1) that show thesis by blast
qed

text \<open>A gzip member is read back with its body, checksum and size.\<close>

lemma read_gzip_written:
  assumes "log_accurate (clog env)" and "1 \<le> numiterations options"
  shows "\<exists>frame body. ZopfliGzipCompress env options inp outp = Some (outp @ frame) \<and> inflate_bytes body = Some inp \<and>
    read_gzip frame = Some (body, unat (crc_spec inp), length inp mod 2 ^ 32)"
proof -
  let ?c = "CRC inp" and ?n = "length inp"
  let ?cs = "[ucast (?c mod 256), ucast (drop_bit 8 ?c mod 256), ucast (drop_bit 16 ?c mod 256),
    ucast (drop_bit 24 ?c mod 256)]"
  let ?ns = "[of_nat (?n mod 256), of_nat (drop_bit 8 ?n mod 256), of_nat (drop_bit 16 ?n mod 256),
    of_nat (drop_bit 24 ?n mod 256)]"
  let ?h = "[31, 139, 8, 0, 0, 0, 0, 0, 2, 3]"
  obtain s' body where d: "ZopfliDeflate env options 2 True inp \<lparr>bp = 0, out = outp @ ?h\<rparr> = Some s'"
      "out s' = (outp @ ?h) @ body" "inflate_bytes body = Some inp"
    by (rule deflate_bytes [OF assms])
  let ?f = "?h @ body @ ?cs @ ?ns"
  have "ZopfliGzipCompress env options inp outp = Some (outp @ ?f)"
    using d(1,2) by (simp add: ZopfliGzipCompress_def Let_def append_byte_def append_bytes_def)
  moreover have "read_gzip ?f = Some (body, number_le ?cs, number_le ?ns)"
    by (rule read_gzip_parts) simp_all
  ultimately show ?thesis
    using CRC_below [of inp] d(3) by (simp add: number_le_word CRC_correct)
qed

lemma read_zlib_written:
  assumes "log_accurate (clog env)" and "1 \<le> numiterations options"
  shows "\<exists>frame body. ZopfliZlibCompress env options inp outp = Some (outp @ frame) \<and> inflate_bytes body = Some inp \<and>
    read_zlib frame = Some (body, adler_spec (take (length inp mod 2 ^ 32) inp))"
proof -
  define c where "c = adler32 inp (unat (of_nat (length inp) :: u32))"
  let ?cs = "[ucast (drop_bit 24 c mod 256), ucast (drop_bit 16 c mod 256), ucast (drop_bit 8 c mod 256),
    ucast (c mod 256)]"
  obtain s' body where d: "ZopfliDeflate env options 2 True inp \<lparr>bp = 0, out = outp @ [120, 218]\<rparr> = Some s'"
      "out s' = (outp @ [120, 218]) @ body" "inflate_bytes body = Some inp"
    by (rule deflate_bytes [OF assms])
  let ?f = "[120, 218] @ body @ ?cs"
  have "ZopfliZlibCompress env options inp outp = Some (outp @ ?f)"
    using d(1,2) by (simp add: ZopfliZlibCompress_def Let_def append_byte_def c_def [symmetric])
  moreover have "read_zlib ?f = Some (body, number_le (rev ?cs))"
    by (simp add: read_zlib_def Let_def)
  moreover have "number_le (rev ?cs) = adler_spec (take (length inp mod 2 ^ 32) inp)"
  proof -
    have "unat c mod 2 ^ 32 = unat c" using unat_lt_u32 [of c] by simp
    then show ?thesis
      using number_le_word(2) [of c] adler32_correct [of inp "unat (of_nat (length inp) :: u32)"]
      by (simp add: c_def unat_of_nat)
  qed
  ultimately show ?thesis using d(3) by auto
qed

lemma compress_read_back:
  assumes "log_accurate (clog env)" and "1 \<le> numiterations options" and "fmt = ZOPFLI_FORMAT_ZLIB \<Longrightarrow> length inp < 2 ^ 32"
  shows "\<exists>frame. ZopfliCompress env options fmt inp outp = Some (outp @ frame) \<and> decompress fmt frame = Some inp"
proof (cases fmt)
  case ZOPFLI_FORMAT_GZIP
  with read_gzip_written [OF assms(1,2), of inp outp] show ?thesis by auto
next
  case ZOPFLI_FORMAT_ZLIB
  with read_zlib_written [OF assms(1,2), of inp outp] assms(3) show ?thesis by auto
next
  case ZOPFLI_FORMAT_DEFLATE
  obtain s' body where "ZopfliDeflate env options 2 True inp \<lparr>bp = 0, out = outp\<rparr> = Some s'"
      "out s' = outp @ body" "inflate_bytes body = Some inp"
    by (rule deflate_bytes [OF assms(1,2)])
  with ZOPFLI_FORMAT_DEFLATE show ?thesis by simp
qed

end
