(* ===== verification/Zopfli_Entropy.thy ===== *)
theory Zopfli_Entropy
  imports Zopfli_Stats
begin

text \<open>
  How close the code lengths of \<open>ZopfliCalculateEntropy\<close> are to the logarithms they stand for: the errors of the
  logarithm of the library, of the constant for \<open>1 / ln 2\<close> and of the roundings add up to less than \<open>10 ^ -7\<close>.
\<close>

lemma double_near:
  assumes "\<bar>real_of_rat z\<bar> \<le> 60"
  shows "\<bar>real_of_rat (to_double z) - real_of_rat z\<bar> \<le> 1 / 1000000000"
proof -
  have "real_of_rat (- 60) = - 60" "real_of_rat 60 = 60" by (simp_all add: of_rat_minus)
  then have "real_of_rat (- 60) \<le> real_of_rat z" "real_of_rat z \<le> real_of_rat 60" using assms by linarith+
  then have "- 60 \<le> z" "z \<le> 60" by (simp_all only: of_rat_less_eq)
  then have "- 64 < z" "z < 64" by linarith+
  from double_error [OF this] have "\<bar>to_double z - z\<bar> \<le> 1 / 1000000000" by linarith
  then have "real_of_rat \<bar>to_double z - z\<bar> \<le> real_of_rat (1 / 1000000000)" by (simp only: of_rat_less_eq)
  also have "real_of_rat \<bar>to_double z - z\<bar> = \<bar>real_of_rat (to_double z) - real_of_rat z\<bar>" by (simp flip: of_rat_diff)
  finally show ?thesis by (simp add: of_rat_divide)
qed

lemma ln_range: "1 \<le> m \<Longrightarrow> m < 2 ^ 32 \<Longrightarrow> 0 \<le> ln (real m) \<and> ln (real m) \<le> 32"
proof
  assume m: "1 \<le> m" "m < 2 ^ 32"
  show "0 \<le> ln (real m)" using m(1) by simp
  have "ln (real m) \<le> ln (2 ^ 32)" using m by (subst ln_le_cancel_iff) simp_all
  also have "\<dots> = real 32 * ln 2" by (simp only: ln_realpow zero_less_numeral)
  also have "\<dots> \<le> 32" using ln_le_minus_one [of 2] by simp
  finally show "ln (real m) \<le> 32" .
qed

lemma scaled_log:
  assumes "log_accurate clog" and "1 \<le> m" and "m < 2 ^ 32"
  shows "\<bar>real_of_rat (dmul (clog (of_nat m)) kInvLog2) - ln (real m) * (14426950408889 / 10000000000000)\<bar> \<le> 4 / 100000000"
proof -
  define x where "x = clog (of_nat m)"
  define k where "k = real_of_rat kInvLog2"
  define y where "y = real_of_rat x"
  have k: "\<bar>k - (14426950408889 / 10000000000000)\<bar> \<le> 1 / 1000000000"
    using double_near [of "14426950408889 / 10 ^ 13"] by (simp add: k_def kInvLog2_def of_rat_divide of_rat_power)
  have y: "\<bar>y - ln (real m)\<bar> \<le> 1 / 1000000000"
  proof -
    have "\<bar>y - ln (real m)\<bar> \<le> 1 / 2 ^ 40" using assms unfolding log_accurate_def y_def x_def by blast
    also have "(1 :: real) / 2 ^ 40 \<le> 1 / 1000000000" by simp
    finally show ?thesis .
  qed
  note ln = ln_range [OF assms(2,3)]
  have k2: "\<bar>k\<bar> \<le> 2" using k by linarith
  have "y * k - ln (real m) * (14426950408889 / 10000000000000) = (y - ln (real m)) * k + ln (real m) * (k - (14426950408889 / 10000000000000))"
    by (simp add: algebra_simps)
  also have "\<bar>\<dots>\<bar> \<le> \<bar>y - ln (real m)\<bar> * \<bar>k\<bar> + \<bar>ln (real m)\<bar> * \<bar>k - (14426950408889 / 10000000000000)\<bar>"
    by (rule order_trans [OF abs_triangle_ineq]) (simp add: abs_mult)
  also have "\<dots> \<le> 1 / 1000000000 * 2 + 32 * (1 / 1000000000)"
    by (intro add_mono mult_mono) (use y k k2 ln in simp_all)
  finally have yk: "\<bar>y * k - ln (real m) * (14426950408889 / 10000000000000)\<bar> \<le> 34 / 1000000000" by simp
  have small: "\<bar>y * k\<bar> \<le> 60" using yk ln by linarith
  have d: "\<bar>real_of_rat (dmul x kInvLog2) - y * k\<bar> \<le> 1 / 1000000000"
    using double_near [of "x * kInvLog2"] small by (simp add: dmul_def of_rat_mult k_def y_def)
  then show ?thesis using yk unfolding x_def [symmetric] by linarith
qed

lemma clamp_near:
  assumes "\<bar>real_of_rat b - t\<bar> \<le> r" and "0 \<le> t" and "r \<le> 1 / 1000000"
  shows "\<exists>v. clamp_bits b = Some v \<and> 0 \<le> v \<and> \<bar>real_of_rat v - t\<bar> \<le> r"
proof (cases "b < 0")
  case True
  have "- (1 / 1000000) \<le> real_of_rat b" using assms by linarith
  also have "- (1 / 1000000) = real_of_rat (- (1 / 1000000))" by (simp add: of_rat_minus of_rat_divide of_rat_power)
  finally have "- (1 / 1000000) \<le> b" by (simp only: of_rat_less_eq)
  moreover have "1 / 1000000 < to_double (1 / 10 ^ 5)"
  proof -
    have "(1 / 10 ^ 5 :: rat) = 1 / 100000" by simp
    then show ?thesis using double_error(1) [of "1 / 10 ^ 5"] by linarith
  qed
  ultimately have "clamp_bits b = Some 0" using True by (simp add: clamp_bits_def)
  moreover have "real_of_rat b < 0" using True by simp
  then have "\<bar>t\<bar> \<le> r" using assms(1,2) by linarith
  ultimately show ?thesis by simp
next
  case False
  then show ?thesis using assms(1) by (simp add: clamp_bits_def)
qed

lemma length_near:
  assumes "log_accurate clog" and "1 \<le> n" and "n < 2 ^ 32" and "c \<le> n"
  shows "\<exists>v. clamp_bits (if c = 0 then dmul (clog (of_nat n)) kInvLog2
      else dsub (dmul (clog (of_nat n)) kInvLog2) (dmul (clog (of_nat c)) kInvLog2)) = Some v \<and> 0 \<le> v \<and>
      \<bar>real_of_rat v - (ln (real n) - ln (real (max 1 c))) * (14426950408889 / 10000000000000)\<bar> \<le> 1 / 10000000"
proof (rule clamp_near)
  let ?L = "dmul (clog (of_nat n)) kInvLog2" and ?P = "dmul (clog (of_nat c)) kInvLog2"
  note L = scaled_log [OF assms(1-3)]
  show "0 \<le> (ln (real n) - ln (real (max 1 c))) * (14426950408889 / 10000000000000)" using assms(2,4) by simp
  show "\<bar>real_of_rat (if c = 0 then ?L else dsub ?L ?P) - (ln (real n) - ln (real (max 1 c))) * (14426950408889 / 10000000000000)\<bar> \<le> 1 / 10000000"
  proof (cases "c = 0")
    case True
    then show ?thesis using L by simp
  next
    case False
    then have c: "1 \<le> c" "c < 2 ^ 32" "max 1 c = c" using assms(3,4) by auto
    note P = scaled_log [OF assms(1) c(1,2)]
    have "\<bar>real_of_rat (?L - ?P)\<bar> \<le> 60"
      using L P ln_range [OF assms(2,3)] ln_range [OF c(1,2)] unfolding of_rat_diff by linarith
    from double_near [OF this] have D: "\<bar>real_of_rat (dsub ?L ?P) - (real_of_rat ?L - real_of_rat ?P)\<bar> \<le> 1 / 1000000000"
      by (simp only: dsub_def of_rat_diff)
    have "\<bar>real_of_rat (dsub ?L ?P) - (ln (real n) - ln (real c)) * (14426950408889 / 10000000000000)\<bar> \<le> 1 / 10000000"
      using L P D unfolding left_diff_distrib by linarith
    then show ?thesis using False c(3) by (simp only: if_False)
  qed
qed simp

lemma those_nth: "those (map f xs) = Some vs \<Longrightarrow> i < length xs \<Longrightarrow> f (xs ! i) = Some (vs ! i)"
proof (induction xs arbitrary: vs i)
  case (Cons x xs)
  then show ?case by (cases i) (auto split: option.splits)
qed simp

lemma entropy_accurate:
  assumes "log_accurate clog" and "0 < length cs" and "length cs < 2 ^ 32" and "sum_list cs < 2 ^ 32"
    and n: "n = (if sum_list cs = 0 then length cs else sum_list cs)"
  shows "\<exists>bl. ZopfliCalculateEntropy clog cs = Some bl \<and> length bl = length cs \<and>
    (\<forall>i < length cs. 0 \<le> bl ! i \<and>
      \<bar>real_of_rat (bl ! i) - (ln (real n) - ln (real (max 1 (cs ! i)))) * (14426950408889 / 10000000000000)\<bar> \<le> 1 / 10000000)"
proof -
  let ?f = "\<lambda>c. clamp_bits (if c = 0 then dmul (clog (of_nat n)) kInvLog2
      else dsub (dmul (clog (of_nat n)) kInvLog2) (dmul (clog (to_double (of_nat c))) kInvLog2))"
  have n1: "1 \<le> n" "n < 2 ^ 32" using assms(2-4) by (auto simp: n Suc_le_eq simp del: sum_list_eq_0_iff)
  have le: "c \<le> n" if "c \<in> set cs" for c using member_le_sum_list [OF that] that by (auto simp: n)
  have exact: "to_double (of_nat m) = of_nat m" if "m < 2 ^ 32" for m using rnd_nat [of m 53] that by simp
  have near: "\<exists>v. ?f c = Some v \<and> 0 \<le> v \<and> \<bar>real_of_rat v - (ln (real n) - ln (real (max 1 c))) * (14426950408889 / 10000000000000)\<bar> \<le> 1 / 10000000"
    if "c \<in> set cs" for c
  proof -
    have e: "to_double (of_nat c) = of_nat c" by (rule exact) (use le [OF that] n1(2) in simp)
    show ?thesis unfolding e by (rule length_near [OF assms(1) n1 le [OF that]])
  qed
  then obtain bl where bl: "those (map ?f cs) = Some bl" "length bl = length cs"
    using those_map [of cs ?f "\<lambda>_. True"] by blast
  have "ZopfliCalculateEntropy clog cs = those (map ?f cs)"
    by (rule entropy_terms [OF assms(3,4) n])
  moreover have "0 \<le> bl ! i \<and> \<bar>real_of_rat (bl ! i) - (ln (real n) - ln (real (max 1 (cs ! i)))) * (14426950408889 / 10000000000000)\<bar> \<le> 1 / 10000000"
    if "i < length cs" for i
    using near [OF nth_mem [OF that]] those_nth [OF bl(1) that] by auto
  ultimately show ?thesis using bl by auto
qed

end
