(* ===== verification/Zopfli_Compress_Props.thy ===== *)
theory Zopfli_Compress_Props
  imports Zopfli_Container Zopfli_Entropy
begin

text \<open>
  The properties of the encoder as a whole and of its parsers, each with a witness at a concrete
  input. The witnesses take a logarithm that is cut to 50 binary digits.
\<close>

section \<open>A concrete environment\<close>

definition cut_log :: "rat \<Rightarrow> rat" where
  "cut_log x = of_int \<lfloor>ln (real_of_rat x) * 2 ^ 50\<rfloor> / 2 ^ 50"

definition clean_memory :: scratch where
  "clean_memory = \<lparr>sublen0 = (\<lambda>_. 0), lengths0 = (\<lambda>_. 0), hash0 = empty_hash\<rparr>"


lemma cut_log_accurate: "log_accurate cut_log"
  unfolding log_accurate_def
proof (intro allI impI)
  fix n :: nat
  let ?y = "ln (real n) * 2 ^ 50"
  define f where "f = real_of_int \<lfloor>?y\<rfloor>"
  have "real_of_rat (cut_log (of_nat n)) = f / 2 ^ 50" by (simp add: cut_log_def f_def of_rat_divide of_rat_power)
  moreover have "f \<le> ?y" "?y < f + 1" unfolding f_def by linarith+
  ultimately have "\<bar>real_of_rat (cut_log (of_nat n)) - ln (real n)\<bar> \<le> 1 / 2 ^ 50" unfolding abs_le_iff by (auto simp: field_simps)
  also have "(1 :: real) / 2 ^ 50 \<le> 1 / 2 ^ 40" by simp
  finally show "\<bar>real_of_rat (cut_log (of_nat n)) - ln (real n)\<bar> \<le> 1 / 2 ^ 40" .
qed



lemma store_path_expands:
  assumes "store_path a st p q"
  shows "expand_commands (take p a) (map (command_at st) [0..<lsize st]) = Some (take q a)"
    and "list_all deflate_command (map (command_at st) [0..<lsize st])"
proof -
  have ok: "store_ok st" "path a p (store_cmds st) q" using assms by (simp_all add: store_path_def)
  show "expand_commands (take p a) (map (command_at st) [0..<lsize st]) = Some (take q a)"
    using expand_path [OF ok(2)] store_cmds_slice [OF ok(1) order_refl, of 0] store_cmds_length [OF ok(1)] by simp
  show "list_all deflate_command (map (command_at st) [0..<lsize st])"
    using store_path_commands [OF assms order_refl, of 0] by (simp only: list_all_iff)
qed

section \<open>The encoder\<close>





text \<open>
  In a zlib stream the body holds the whole input, but the checksum in the trailer is that of its first
  \<open>insize mod 2 ^ 32\<close> bytes only, since the size is cut to 32 bits.
\<close>

lemma zlib_checksum_cut:
  assumes "log_accurate (clog env)" and "1 \<le> numiterations options"
  shows "\<exists>frame body. ZopfliCompress env options ZOPFLI_FORMAT_ZLIB inp outp = Some (outp @ frame) \<and>
    inflate_bytes body = Some inp \<and> read_zlib frame = Some (body, adler_spec (take (length inp mod 2 ^ 32) inp))"
  using read_zlib_written [OF assms, of inp outp] by simp

section \<open>Parsers\<close>



text \<open>
  C16. \<open>ZopfliLZ77Greedy\<close> on a part of the data gives LZ77 commands that a DEFLATE block can hold, and that
  expand, after the data before the part, to the data up to the end of the part.
\<close>

theorem greedy_expands:
  assumes "bs \<le> e" and "e \<le> length a" and "length sl = 259"
  shows "\<exists>s st h'. ZopfliLZ77Greedy (ZopfliInitBlockState bs e add) a bs e (ZopfliInitLZ77Store a) h sl = Some (s, st, h') \<and>
    list_all deflate_command (map (command_at st) [0..<lsize st]) \<and>
    expand_commands (take bs a) (map (command_at st) [0..<lsize st]) = Some (take e a)"
proof -
  have inv: "state_inv a e (window_start bs) (ZopfliInitBlockState bs e add)" "blockstart (ZopfliInitBlockState bs e add) = bs"
    by (rule InitBlockState_inv [OF window_start_le assms(1)]) (simp add: ZopfliInitBlockState_def)
  obtain s st h' where "ZopfliLZ77Greedy (ZopfliInitBlockState bs e add) a bs e (ZopfliInitLZ77Store a) h sl = Some (s, st, h')"
      "store_path a st bs e"
    by (rule greedy_parse [OF inv assms(2,3) store_path_init])
  with store_path_expands [OF this(2)] show ?thesis by blast
qed

theorem greedy_expands_witness:
  "\<exists>s st h'. ZopfliLZ77Greedy (ZopfliInitBlockState 1 7 True) [9, 1, 2, 1, 2, 1, 2] 1 7
      (ZopfliInitLZ77Store [9, 1, 2, 1, 2, 1, 2]) empty_hash (replicate 259 0) = Some (s, st, h') \<and>
    list_all deflate_command (map (command_at st) [0..<lsize st]) \<and>
    expand_commands (take 1 [9, 1, 2, 1, 2, 1, 2]) (map (command_at st) [0..<lsize st]) = Some (take 7 [9, 1, 2, 1, 2, 1, 2])"
  by (rule greedy_expands) simp_all



text \<open>
  C22. \<open>ZopfliBlockSplit\<close> ends and returns strictly increasing boundaries inside the part, which make at most
  \<open>maxblocks\<close> blocks if this limit is set.
\<close>

theorem block_split_boundaries:
  assumes "bs \<le> e" and "e \<le> length a" and "e - bs < 2 ^ 22"
  shows "\<exists>points. ZopfliBlockSplit mem a bs e limit = Some points \<and> sorted_wrt (<) points \<and>
    (\<forall>x \<in> set points. bs < x \<and> x < e) \<and> (limit = 0 \<or> length points + 1 \<le> limit)"
proof -
  obtain points where "ZopfliBlockSplit mem a bs e limit = Some points" "sorted_wrt (<) points" "\<forall>x \<in> set points. bs < x \<and> x < e"
    using BlockSplit_points [OF assms(2,3,1)] by blast
  with BlockSplit_count [OF this(1)] show ?thesis by (intro exI [of _ points]) (cases "limit = 0", simp_all)
qed

theorem block_split_boundaries_witness:
  "\<exists>points. ZopfliBlockSplit clean_memory (replicate 30 1 @ replicate 30 2) 0 60 15 = Some points \<and> sorted_wrt (<) points \<and>
    (\<forall>x \<in> set points. 0 < x \<and> x < 60) \<and> (15 = (0 :: nat) \<or> length points + 1 \<le> 15)"
  by (rule block_split_boundaries) simp_all

text \<open>
  C32. \<open>ZopfliCalculateEntropy\<close> never fails its assertion that code lengths are not negative, although it computes
  with rounding errors, and the length for a count \<open>c\<close> of \<open>n\<close> in all is \<open>ln (n / c)\<close> times the constant for
  \<open>1 / ln 2\<close>, up to \<open>10 ^ -7\<close>; a symbol that does not occur costs as much as one that occurs once.
\<close>

theorem entropy_lengths:
  assumes "log_accurate logf" and "0 < length counts" and "length counts < 2 ^ 32" and "sum_list counts < 2 ^ 32"
    and "n = (if sum_list counts = 0 then length counts else sum_list counts)"
  shows "\<exists>bitlengths. ZopfliCalculateEntropy logf counts = Some bitlengths \<and> length bitlengths = length counts \<and>
    (\<forall>i < length counts. 0 \<le> bitlengths ! i \<and>
      \<bar>real_of_rat (bitlengths ! i) - (ln (real n) - ln (real (max 1 (counts ! i)))) * (14426950408889 / 10000000000000)\<bar> \<le> 1 / 10000000)"
  by (rule entropy_accurate [OF assms])

theorem entropy_lengths_witness:
  "\<exists>bitlengths. ZopfliCalculateEntropy cut_log [1, 0, 3] = Some bitlengths \<and> length bitlengths = length [1, 0, 3 :: nat] \<and>
    (\<forall>i < length [1, 0, 3 :: nat]. 0 \<le> bitlengths ! i \<and>
      \<bar>real_of_rat (bitlengths ! i) - (ln (real 4) - ln (real (max 1 ([1, 0, 3] ! i)))) * (14426950408889 / 10000000000000)\<bar> \<le> 1 / 10000000)"
  by (rule entropy_lengths [OF cut_log_accurate]) simp_all

text \<open>Without an iteration nothing is written to the store.\<close>

lemma no_iteration_no_output: "ZopfliLZ77Optimal logf mem st0 s a bs e 0 store = Some (s', st) \<Longrightarrow> st = store"
  by (auto simp: ZopfliLZ77Optimal_def Let_def simp del: upt_rec_numeral upt_Suc split: bind_splits)

end
