(* ===== verification/Spec2Isabelle.thy ===== *)
theory Spec2Isabelle
  imports Xml_Props Xml_Tok_Props Xml_Text_Props Mls_Props Symtab_Props Avtab_Props Zopfli_Props Zopfli_Encode_Props Zopfli_Compress_Props
begin

text \<open>
  \<^bold>\<open>Verification of the C core of the build tools.\<close>

  The repository builds the Android SDK build tools and platform tools for Linux on aarch64 from a
  tree of sources under \<open>src/build-tools/src\<close>. Its programs (aapt2, sload_f2fs, zipalign, ...) rest on C
  libraries in that tree. This development models parts of three of them, each chosen because the
  programs hand it data from outside and rely on what it computes:

  \<^item> \<open>expat\<close> (\<open>expat/expat/lib\<close>): the role machine that follows the prolog of an XML document and the
    declarations of its document type (\<open>xmlrole.c\<close>), and the tokenizers that cut the text into the tokens
    it follows (\<open>xmltok.c\<close>, \<open>xmltok_impl.c\<close>).
  \<^item> \<open>libsepol\<close> (\<open>selinux/libsepol\<close>): the containers of a binary SELinux policy: extensible bitmaps, MLS levels
    and ranges, hash tables, symbol tables and the access vector table, with the code that reads
    and writes them.
  \<^item> \<open>zopfli\<close> (\<open>zopfli/src/zopfli\<close>): the DEFLATE encoder used when archives are recompressed, as a whole:
    match finder, greedy and optimal parse, block splitting, code lengths, trees, blocks, checksums
    and containers.

  \<^bold>\<open>Shared theories.\<close> \<open>Prelude\<close> has the machine types (\<open>byte\<close>, \<open>u16\<close>, \<open>u32\<close>, \<open>u64\<close>), collections of rewrite
  rules and ASCII text. \<open>Machines\<close> has runs of step functions. \<open>Alloc\<close> models memory that may run out:
  an operation that allocates takes the list of the outcomes of its allocations, and running past
  its end is a failure, so a theorem holds for every pattern of failures.

  \<^bold>\<open>The prolog of an XML document.\<close> \<open>Xml_Names\<close> has the token codes (\<open>xmltok.h\<close>) and \<open>XmlNameMatchesAscii\<close>
  for one-byte and both two-byte encodings; \<open>Xml_Role\<close> has the record of the state
  (\<open>handler\<close>, \<open>level\<close>, \<open>role_none\<close>, \<open>includeLevel\<close>, \<open>documentEntity\<close>, \<open>inEntityValue\<close>), a datatype with one constructor per handler of
  \<open>xmlrole.c\<close>, one definition per handler and the dispatch \<open>XmlTokenRole\<close>. A handler that the C code stores as a
  function pointer is stored as its constructor. \<open>Xml_Role_Inv\<close> has the invariant of reachable states:
  the error state is final, and what fields a handler may read. \<open>Xml_Grammar\<close> has a grammar of
  document type declarations and external subsets, independent of the machine, with the roles that
  each production shall receive; \<open>Xml_Props\<close> shows that the machine assigns exactly these, in every
  encoding and with any white space, that groups of content models are balanced at every depth, and
  that the end of the input is accepted only where it may be.

  \<^bold>\<open>The tokens of an XML document.\<close> \<open>Xml_Encoding\<close> has the byte types and tables of the built-in encodings and the macros
  that \<open>xmltok_impl.c\<close> is compiled with; \<open>Xml_Scan\<close>, \<open>Xml_Content\<close> and \<open>Xml_Prolog\<close> have its scanners, one definition per function and
  per body of a loop, over a pointer modelled as the list of the bytes up to the end of the buffer. A loop is \<open>scan_loop\<close>, which recurs
  on the length of what is left; a pass without progress, a call through a null pointer and a pointer past the end are the value
  \<open>Undefined\<close>. \<open>Xml_Scan_Inv\<close> has the interface \<open>total_encoding\<close> and shows for every scanner where it may stop and with which tokens.
  \<open>Xml_Scan_Sim\<close> has the interface \<open>scan_sim\<close> of two runs on a text and its image under a map that keeps characters; \<open>Xml_Scan_Inst\<close>
  uses it twice, for a text with more input behind it and for an ASCII text in another encoding. \<open>Xml_Literals\<close> shows that literals
  are walked over by whole characters. \<open>Xml_Tok_Props\<close> states what follows for the tokenizers.

  \<^bold>\<open>What is read from a token.\<close> The operations at the end of \<open>xmltok_impl.c\<close> take a token apart without testing for the end of the
  buffer; a read past the end is \<open>None\<close>. \<open>Xml_Char\<close> has the numbers of character references, the predefined entities and the encoding of a
  character in UTF-8 and UTF-16, \<open>Xml_Position\<close> lines and columns, \<open>Xml_Atts\<close> the attributes of a start tag, the length of names and white
  space. \<open>Xml_Tag\<close> has conditions on what a scanner returns and shows that the scanner of start tags and \<open>getAtts\<close> go over a tag in
  the same way. \<open>Xml_Text_Props\<close> states that on accepted tokens these operations stay inside the token, and what they return.

  \<^bold>\<open>Bitmaps and MLS.\<close> \<open>Ebitmap\<close> has the list of nodes (\<open>startbit\<close>, 64-bit \<open>map\<close>) with \<open>highbit\<close>, and every
  operation of \<open>ebitmap.c\<close> and \<open>ebitmap.h\<close>. \<open>Ebitmap_Set\<close> has the well-formedness invariant and the set of
  numbers a bitmap stands for; \<open>Ebitmap_Ops\<close> that each operation refines one on sets, or runs out of
  memory; \<open>Ebitmap_IO\<close> and \<open>Policy_File\<close> reading and writing (\<open>next_entry\<close>, \<open>put_entry\<close>, \<open>ebitmap_read\<close>,
  \<open>ebitmap_write\<close>) over a file, a memory buffer or a length count. \<open>Mls\<close> has levels and ranges, their order and
  their readers and writers. \<open>Ebitmap_Props\<close> and \<open>Mls_Props\<close> state what follows: set operations, single
  bits, ranges, complement with its wrap-around, iteration in order, round trips through a policy
  file, well-formed results from arbitrary bytes, dominance as a partial order, greatest lower and
  least upper bounds.

  \<^bold>\<open>Hash tables and rules.\<close> \<open>Hashtab\<close> has the array of sorted chains of \<open>hashtab.c\<close> with hash and comparison as
  arguments, insertion with growth, removal, search, iteration; \<open>Hashtab_Map\<close> has the locale of
  lawful callbacks and the refinement of finite maps; \<open>Symtab\<close> interprets it with the callbacks of
  \<open>symtab.c\<close>. \<open>Avtab\<close> has the access vector table of \<open>avtab.c\<close> with both insertion functions, search, the
  murmur hash, allocation and the readers of both policy formats; \<open>Avtab_Inv\<close> its invariant (chains
  sorted by key, each node in its slot, no duplicate rule but extended permissions) with a locale
  for the insertion callback of the reader, interpreted with \<open>avtab_insertf\<close>. \<open>Symtab_Props\<close> and \<open>Avtab_Props\<close> state
  runs of operations against maps, and reading of arbitrary bytes.

  \<^bold>\<open>DEFLATE: from commands to bits.\<close> \<open>Zopfli_Symbols\<close> has \<open>symbols.h\<close>, \<open>Zopfli_Bits\<close> the bit output, \<open>Zopfli_Tree\<close> the canonical
  code words of \<open>tree.c\<close> with Kraft's inequality and prefix-freeness, \<open>Zopfli_Lengths\<close> the package-merge
  algorithm of \<open>katajainen.c\<close> with its node pool and Kraft's equality, \<open>Zopfli_Store\<close> the store of \<open>lz77.c\<close> with its
  chunked cumulative histograms, \<open>Zopfli_Data\<close> the data of a block with the functions that size it and a
  reference decoder of RFC 1951, \<open>Zopfli_Block\<close> stored blocks and the patch of distance codes, \<open>Zopfli_Dynamic\<close> the
  run-length encoding of dynamic trees with its decoder, \<open>Zopfli_Rle\<close> the smoothing of counts, \<open>Zopfli_Encode\<close> whole
  fixed and dynamic blocks and their sizes. \<open>Zopfli_Props\<close> and \<open>Zopfli_Encode_Props\<close> state the round trips through the
  reference decoder and that computed sizes are the sizes written.

  \<^bold>\<open>DEFLATE: from data to commands.\<close> \<open>Zopfli_Hash\<close> has the two hash chains of \<open>hash.c\<close> and what they link,
  \<open>Zopfli_Search\<close> the comparison of matches and the walk along the chains, \<open>Zopfli_Cache\<close> the packed sublengths of
  \<open>cache.c\<close>, \<open>Zopfli_Match\<close> the match finder with its cache and the invariant of the cache. \<open>Zopfli_Parse\<close> says what the
  commands of a store stand for (a path through the data, and the decoder that expands it) and has
  the locale \<open>match_finder\<close>, interpreted with \<open>ZopfliFindLongestMatch\<close>, on which both parsers rest. \<open>Zopfli_Greedy\<close> has the
  greedy parse with lazy matching, \<open>Zopfli_Float\<close> floating-point rounding, \<open>Zopfli_Squeeze\<close> the dynamic
  program of \<open>squeeze.c\<close>, \<open>Zopfli_Squeeze_Inv\<close> its invariant in the locale \<open>cost_model\<close>, interpreted with the fixed costs;
  \<open>Zopfli_Stats\<close> has the statistics and the iterations and shows that statistical costs are a cost model as well;
  \<open>Zopfli_Entropy\<close> how accurate they are; \<open>Zopfli_Split\<close> block splitting.

  \<^bold>\<open>DEFLATE: the encoder.\<close> \<open>Zopfli_Deflate\<close> has the choice of block types, the parts and \<open>ZopfliDeflate\<close>, with a
  decoder for streams of blocks; \<open>Zopfli_Checksum\<close> the table-driven CRC and Adler-32, \<open>Zopfli_Container\<close> gzip, zlib and
  \<open>ZopfliCompress\<close>. \<open>Zopfli_Compress_Props\<close> states that every input is read back from every format and what its
  parsers guarantee.

  \<^bold>\<open>Conventions.\<close> A C \<open>struct\<close> is a record, an enumeration a datatype or numerals with the names of the source,
  unsigned integers are words where they can wrap and natural numbers where the code cannot reach
  the width (positions in data, lengths of code words, indices of commands); a failed assertion, or leaving the
  program, is \<open>None\<close>; an error return is a value of the result. Loops are structural recursions over
  the list they traverse, or recursions with a termination proof by the measure that decreases
  (remaining input, remaining nodes, remaining bits). The walk along a hash chain counts down from the
  limit of 8192 hits that the code has. Only the loop of \<open>ZopfliBlockSplitLZ77\<close> has fuel, twice the number of commands and
  one more: each turn marks a start as finished or adds a boundary, and the theorems show that the
  loop returns. \<open>ZopfliBlockSplitSimple\<close>, which does not end for a block size of 0, is a partial function. The
  reference decoder of streams bounds the number of blocks by the number of bits.

  A \<open>double\<close> or \<open>float\<close> is a rational number, and each operation rounds to 53 or 24 binary digits, ties to
  even; values stay far from overflow and from subnormal numbers, and sums of block sizes are
  integers below \<open>2 ^ 53\<close>. The logarithm of the C library is an argument, and theorems that need it assume that it
  is accurate to \<open>2 ^ -40\<close> on positive integers below \<open>2 ^ 32\<close>. What memory holds before it is written is an
  argument as well, so that theorems hold for whatever it is. Allocations of zopfli succeed, as it
  does not go on otherwise.

  \<^bold>\<open>Not modelled.\<close> The parser of expat, its converters between encodings and the encodings an application adds; the rest of libsepol (policy database, CIL,
  modules, security server); the command line of zopfli, its messages and the release of memory; the
  vendored libraries boringssl, libpng, pcre2, protobuf and fmtlib, libselinux, which is an interface to
  the system, and all C++ programs.

  \<^bold>\<open>Plan.\<close> The remaining readers and writers of the policy database over the containers that are modelled, and
  the parser of expat on top of its tokenizers and the role machine.
\<close>

end
